(* ===== verification/RT_Prelude.thy ===== *)
theory RT_Prelude
  imports Main "HOL-Library.Word" "HOL-Library.Monad_Syntax"
begin

text \<open>
  Shared vocabulary of the development: the machine types of the modelled target (32-bit,
  the reference configuration of \<^verbatim>\<open>bsp/stm32/stm32f103-atk-nano/rtconfig.h\<close>), the kernel's
  error codes, the reading of \<^verbatim>\<open>RT_ASSERT\<close> in the option monad, the alignment macros of
  \<^verbatim>\<open>include/rtdef.h\<close>, and the generic facts on lists, options and words that the component
  theories share.
\<close>

unbundle bit_operations_syntax

subsection \<open>Machine types\<close>

type_synonym u8 = "8 word"
type_synonym u16 = "16 word"
type_synonym u32 = "32 word"

text \<open>Addresses of kernel structures. The null pointer is \<open>0\<close>.\<close>

type_synonym ptr = nat

abbreviation (input) RT_NULL :: ptr where
  "RT_NULL \<equiv> 0"

text \<open>\<^verbatim>\<open>rt_err_t\<close> is a signed base type; the kernel returns \<open>0\<close> or a negated code.\<close>

type_synonym err = int

abbreviation (input) RT_EOK :: err where "RT_EOK \<equiv> 0"
abbreviation (input) RT_ERROR :: err where "RT_ERROR \<equiv> 1"
abbreviation (input) RT_ETIMEOUT :: err where "RT_ETIMEOUT \<equiv> 2"
abbreviation (input) RT_EFULL :: err where "RT_EFULL \<equiv> 3"
abbreviation (input) RT_EEMPTY :: err where "RT_EEMPTY \<equiv> 4"
abbreviation (input) RT_ENOMEM :: err where "RT_ENOMEM \<equiv> 5"
abbreviation (input) RT_ENOSYS :: err where "RT_ENOSYS \<equiv> 6"
abbreviation (input) RT_EBUSY :: err where "RT_EBUSY \<equiv> 7"
abbreviation (input) RT_EINTR :: err where "RT_EINTR \<equiv> 9"
abbreviation (input) RT_EINVAL :: err where "RT_EINVAL \<equiv> 10"

subsection \<open>Assertions\<close>

text \<open>
  With \<^verbatim>\<open>RT_DEBUG\<close> a failing \<^verbatim>\<open>RT_ASSERT\<close> calls \<^verbatim>\<open>rt_assert_handler\<close>, which never
  returns. Kernel operations are therefore functions into \<open>option\<close>: \<open>None\<close> is the halted
  system.
\<close>

definition RT_ASSERT :: "bool \<Rightarrow> unit option" where
  "RT_ASSERT b = (if b then Some () else None)"

lemma RT_ASSERT_simps [simp]:
  "RT_ASSERT True = Some ()" "RT_ASSERT False = None"
  by (simp_all add: RT_ASSERT_def)

lemma RT_ASSERT_Some [simp]: "RT_ASSERT b = Some u \<longleftrightarrow> b"
  by (simp add: RT_ASSERT_def)

lemma bind_RT_ASSERT [simp]: "RT_ASSERT b \<bind> f = (if b then f () else None)"
  by (simp add: RT_ASSERT_def)

named_theorems opt_simps \<open>rewriting of successful runs in the option monad\<close>

lemmas [opt_simps] = Option.bind_eq_Some_conv split_paired_Ex

lemma if_Some_None_eq [simp, opt_simps]:
  "(if b then f else None) = Some y \<longleftrightarrow> b \<and> f = Some y"
  by simp

subsection \<open>Alignment\<close>

text \<open>\<^verbatim>\<open>RT_ALIGN\<close> and \<^verbatim>\<open>RT_ALIGN_DOWN\<close>, on 32-bit sizes with C's wrap-around.\<close>

definition RT_ALIGN :: "u32 \<Rightarrow> u32 \<Rightarrow> u32" where
  "RT_ALIGN sz align = (sz + align - 1) AND NOT (align - 1)"

definition RT_ALIGN_DOWN :: "u32 \<Rightarrow> u32 \<Rightarrow> u32" where
  "RT_ALIGN_DOWN sz align = sz AND NOT (align - 1)"

subsection \<open>Lists\<close>

lemma removeAll_notin [simp]: "x \<notin> set xs \<Longrightarrow> removeAll x xs = xs"
  by (induction xs) auto

lemma removeAll_hd: "distinct (x # xs) \<Longrightarrow> removeAll x (x # xs) = xs"
  by simp

lemma set_hd_in: "xs \<noteq> [] \<Longrightarrow> hd xs \<in> set xs"
  by simp

subsection \<open>Offsets and signed words\<close>

lemma unat_Suc_less:
  fixes a s :: "'a::len word"
  assumes "a < s"
  shows "unat (a + 1) = unat a + 1"
proof -
  have "unat s < 2 ^ LENGTH('a)" by (rule unsigned_less)
  then have "unat a + 1 < 2 ^ LENGTH('a)" using assms unfolding word_less_nat_alt by linarith
  then show ?thesis using unat_add_lem [of a 1] by simp
qed

lemma offset_step:
  fixes a s :: "'a::len word"
  assumes "a < s"
  shows "unat (if s \<le> a + 1 then 0 else a + 1) = (unat a + 1) mod unat s"
    "(if s \<le> a + 1 then 0 else a + 1) < s"
proof -
  have "unat s = unat a + 1 \<or> unat a + 1 < unat s" using assms by (simp add: word_less_nat_alt) linarith
  then show "unat (if s \<le> a + 1 then 0 else a + 1) = (unat a + 1) mod unat s"
    "(if s \<le> a + 1 then 0 else a + 1) < s"
    using unat_Suc_less [OF assms] assms by (auto simp: word_le_nat_alt word_less_nat_alt)
qed

lemma ring_slot:
  assumes "i < e" "e < (n :: nat)"
  shows "(b + i) mod n \<noteq> (b + e) mod n"
proof
  assume "(b + i) mod n = (b + e) mod n"
  then have "n dvd (b + e) - (b + i)" using assms mod_eq_dvd_iff_nat [of "b + i" "b + e" n] by simp
  then show False using assms by (auto dest: dvd_imp_le)
qed

lemma sint_nonneg:
  assumes "w < 0x80000000"
  shows "sint (w :: u32) = int (unat w)"
proof -
  have "uint w < 2 ^ 31" using assms by (simp add: word_less_def)
  then have "signed_take_bit (LENGTH(32) - 1) (uint w) = uint w"
    by (intro signed_take_bit_int_eq_self) (simp_all add: order_trans [OF _ uint_ge_0])
  then show ?thesis by (simp only: sint_uint) simp
qed

lemma unat_ucast16 [simp]: "unat (ucast (w :: u16) :: u32) = unat w"
  by (rule unat_eq_nat_uint [THEN trans]) (simp add: uint_up_ucast is_up)

lemma unat_trunc16: "(w :: u32) < 0x10000 \<Longrightarrow> unat (ucast w :: u16) = unat w"
  by (simp add: unsigned_ucast_eq word_less_nat_alt take_bit_nat_eq_self)

text \<open>Rounding to a power of two.\<close>

lemma unat_and_mask: "unat (w AND (2 ^ j - 1)) = unat w mod 2 ^ j" for w :: u32
  by (simp flip: mask_eq_exp_minus_1 take_bit_eq_mask add: unsigned_take_bit_eq take_bit_nat_def)

lemma unat_and_not_mask: "unat (w AND NOT (2 ^ j - 1)) = unat w - unat w mod 2 ^ j" for w :: u32
proof -
  have "w AND NOT (2 ^ j - 1) = w AND NOT (w AND (2 ^ j - 1))" by (rule bit_word_eqI) (auto simp: bit_simps)
  also have "\<dots> = w - (w AND (2 ^ j - 1))" by (rule disjunctive_diff [symmetric]) (simp add: bit_simps)
  finally have e: "w AND NOT (2 ^ j - 1) = w - (w AND (2 ^ j - 1))" .
  have "w AND (2 ^ j - 1) \<le> w" by (simp add: word_le_nat_alt unat_and_mask)
  then show ?thesis unfolding e by (simp add: unat_sub unat_and_mask)
qed

lemma unat_round_up:
  fixes w :: u32
  assumes "unat w + (2 ^ j - 1) < 2 ^ 32"
  shows "unat ((w + (2 ^ j - 1)) AND NOT (2 ^ j - 1)) = (unat w + (2 ^ j - 1)) div 2 ^ j * 2 ^ j"
proof -
  have e: "(2 ^ j - 1 :: u32) = of_nat (2 ^ j - 1)" by (simp add: of_nat_diff)
  have "(2 ^ j - 1 :: nat) < 2 ^ 32" using assms by linarith
  then have "unat (2 ^ j - 1 :: u32) = 2 ^ j - 1" unfolding e unsigned_of_nat by (simp add: take_bit_nat_eq_self)
  then have "unat (w + (2 ^ j - 1)) = unat w + (2 ^ j - 1)" using assms by (simp add: unat_word_ariths)
  then show ?thesis by (simp only: unat_and_not_mask minus_mod_eq_div_mult)
qed

lemma unat_align_down: "unat (RT_ALIGN_DOWN w 4) = unat w div 4 * 4"
  using unat_and_not_mask [of w 2] by (simp add: RT_ALIGN_DOWN_def minus_mod_eq_div_mult)

lemma unat_align:
  assumes "w \<le> 0xfffffffc"
  shows "unat (RT_ALIGN w 4) = (unat w + 3) div 4 * 4"
proof -
  have "unat w \<le> 0xfffffffc" using assms by (simp add: word_le_nat_alt)
  then show ?thesis using unat_round_up [of w 2] by (simp add: RT_ALIGN_def add.commute)
qed

text \<open>The size that the allocators reserve for a request: rounded up, and at least the minimal one.\<close>

definition req_size :: "u32 \<Rightarrow> u32" where
  "req_size sz = (if RT_ALIGN sz 4 < 12 then 12 else RT_ALIGN sz 4)"

lemma req_size_ok:
  assumes "sz \<le> 0xfffffffc"
  shows "4 dvd unat (req_size sz)" "unat sz \<le> unat (req_size sz)"
  using unat_align [OF assms] by (auto simp: req_size_def word_less_nat_alt)

end
