(* ===== verification/RT_List.thy ===== *)
theory RT_List
  imports RT_Prelude
begin

text \<open>
  The intrusive doubly linked list of \<^verbatim>\<open>include/rtservice.h\<close>, at the level of its pointers:
  a heap of \<^verbatim>\<open>next\<close> and \<^verbatim>\<open>prev\<close> fields and the field assignments of each inline function in
  the order the source makes them. The second part states what the kernel relies on as the
  locale \<open>list_store\<close> (list heads hold sequences of nodes, a node is on one list or on none)
  and interprets it twice: on the pointer heap, and on the store of sequences that the kernel
  state of the other theories carries.
\<close>

subsection \<open>Pointer-level definitions\<close>

record list_heap =
  lnext :: "ptr \<Rightarrow> ptr"
  lprev :: "ptr \<Rightarrow> ptr"

definition rt_list_init :: "ptr \<Rightarrow> list_heap \<Rightarrow> list_heap" where
  "rt_list_init l h = h\<lparr>lnext := (lnext h)(l := l), lprev := (lprev h)(l := l)\<rparr>"

definition rt_list_insert_after :: "ptr \<Rightarrow> ptr \<Rightarrow> list_heap \<Rightarrow> list_heap" where
  "rt_list_insert_after l n h =
     (let h = h\<lparr>lprev := (lprev h)(lnext h l := n)\<rparr>;
          h = h\<lparr>lnext := (lnext h)(n := lnext h l)\<rparr>;
          h = h\<lparr>lnext := (lnext h)(l := n)\<rparr>;
          h = h\<lparr>lprev := (lprev h)(n := l)\<rparr>
      in h)"

definition rt_list_insert_before :: "ptr \<Rightarrow> ptr \<Rightarrow> list_heap \<Rightarrow> list_heap" where
  "rt_list_insert_before l n h =
     (let h = h\<lparr>lnext := (lnext h)(lprev h l := n)\<rparr>;
          h = h\<lparr>lprev := (lprev h)(n := lprev h l)\<rparr>;
          h = h\<lparr>lprev := (lprev h)(l := n)\<rparr>;
          h = h\<lparr>lnext := (lnext h)(n := l)\<rparr>
      in h)"

definition rt_list_remove :: "ptr \<Rightarrow> list_heap \<Rightarrow> list_heap" where
  "rt_list_remove n h =
     (let h = h\<lparr>lprev := (lprev h)(lnext h n := lprev h n)\<rparr>;
          h = h\<lparr>lnext := (lnext h)(lprev h n := lnext h n)\<rparr>;
          h = h\<lparr>lprev := (lprev h)(n := n)\<rparr>;
          h = h\<lparr>lnext := (lnext h)(n := n)\<rparr>
      in h)"

definition rt_list_isempty :: "ptr \<Rightarrow> list_heap \<Rightarrow> bool" where
  "rt_list_isempty l h \<longleftrightarrow> lnext h l = l"

text \<open>
  The loop of \<^verbatim>\<open>rt_list_len\<close> follows \<^verbatim>\<open>next\<close> until it is back at the head; on a damaged list it
  need not end, so it runs on fuel (\<open>None\<close>: not finished) and \<open>rt_list_len_enough\<close> below gives
  the fuel that is enough.
\<close>

fun rt_list_len_loop :: "nat \<Rightarrow> ptr \<Rightarrow> ptr \<Rightarrow> nat \<Rightarrow> list_heap \<Rightarrow> nat option" where
  "rt_list_len_loop 0 l p len h = None"
| "rt_list_len_loop (Suc fuel) l p len h =
     (if lnext h p \<noteq> l then rt_list_len_loop fuel l (lnext h p) (Suc len) h else Some len)"

definition rt_list_len :: "nat \<Rightarrow> ptr \<Rightarrow> list_heap \<Rightarrow> nat option" where
  "rt_list_len fuel l h = rt_list_len_loop fuel l l 0 h"

subsection \<open>Rings\<close>

text \<open>
  \<open>chain h [a, b, \<dots>]\<close>: each node points to its successor and back. A list head \<open>l\<close> with
  the nodes \<open>xs\<close> is a ring: the chain from \<open>l\<close> through \<open>xs\<close> back to \<open>l\<close>, no node twice.
\<close>

fun chain :: "list_heap \<Rightarrow> ptr list \<Rightarrow> bool" where
  "chain h (a # b # r) \<longleftrightarrow> lnext h a = b \<and> lprev h b = a \<and> chain h (b # r)"
| "chain h _ \<longleftrightarrow> True"

definition ring :: "list_heap \<Rightarrow> ptr \<Rightarrow> ptr list \<Rightarrow> bool" where
  "ring h l xs \<longleftrightarrow> distinct (l # xs) \<and> chain h (l # xs @ [l])"

lemma chain_append:
  "chain h (xs @ y # ys) \<longleftrightarrow> chain h (xs @ [y]) \<and> chain h (y # ys)"
  by (induction h xs rule: chain.induct) (auto simp: neq_Nil_conv Cons_eq_append_conv)

lemma chain_cong:
  assumes "\<And>a. a \<in> set (butlast xs) \<Longrightarrow> lnext h' a = lnext h a"
    and "\<And>a. a \<in> set (tl xs) \<Longrightarrow> lprev h' a = lprev h a"
  shows "chain h' xs \<longleftrightarrow> chain h xs"
  using assms by (induction h xs rule: chain.induct) auto

lemma ring_Nil [simp]: "ring h l [] \<longleftrightarrow> lnext h l = l \<and> lprev h l = l"
  by (auto simp: ring_def)

lemma chain_two:
  "chain h (l # xs @ y # ys @ [l]) \<longleftrightarrow> chain h (l # xs @ [y]) \<and> chain h (y # ys @ [l])"
  using chain_append [of h "l # xs" y "ys @ [l]"] by simp

lemma ring_rotate: "ring h l (xs @ y # ys) \<longleftrightarrow> ring h y (ys @ l # xs)"
  unfolding ring_def by (auto simp: chain_two)

lemma ring_isempty: "ring h l xs \<Longrightarrow> rt_list_isempty l h \<longleftrightarrow> xs = []"
  by (cases xs) (auto simp: ring_def rt_list_isempty_def)

lemma ring_next: "ring h l (x # xs) \<Longrightarrow> lnext h l = x"
  by (simp add: ring_def)

lemma ring_prev: "ring h l (xs @ [x]) \<Longrightarrow> lprev h l = x"
  using chain_append [of h "l # xs" x "[l]"] by (simp add: ring_def)

lemma ring_frame:
  assumes "ring h l xs"
    and "\<And>a. a \<in> insert l (set xs) \<Longrightarrow> lnext h' a = lnext h a \<and> lprev h' a = lprev h a"
  shows "ring h' l xs"
proof -
  have "chain h' (l # xs @ [l]) \<longleftrightarrow> chain h (l # xs @ [l])"
    by (rule chain_cong) (use assms(2) in \<open>auto simp: butlast_append split: if_splits\<close>)
  with assms(1) show ?thesis by (simp add: ring_def)
qed

text \<open>The effect of each operation on a ring.\<close>

lemma ring_insert_before:
  assumes r: "ring h l xs" and n: "n \<noteq> l" "n \<notin> set xs"
  shows "ring (rt_list_insert_before l n h) l (xs @ [n])"
proof (cases xs rule: rev_cases)
  case Nil
  with r n show ?thesis by (simp add: ring_def rt_list_insert_before_def Let_def)
next
  case (snoc ws w)
  let ?h = "rt_list_insert_before l n h"
  have w: "lprev h l = w" using r snoc by (simp add: ring_prev)
  have d: "distinct (l # ws @ [w])" using r snoc by (simp add: ring_def)
  have "chain h (l # ws @ [w])"
    using r snoc chain_append [of h "l # ws" w "[l]"] by (simp add: ring_def)
  moreover have "chain ?h (l # ws @ [w]) \<longleftrightarrow> chain h (l # ws @ [w])"
    by (rule chain_cong) (use d n snoc w in \<open>auto simp: rt_list_insert_before_def butlast_append\<close>)
  moreover have "chain ?h [w, n, l]"
    using w n snoc d by (auto simp: rt_list_insert_before_def)
  ultimately show ?thesis
    using d n snoc chain_append [of ?h "l # ws" w "[n, l]"] by (auto simp: ring_def)
qed

lemma ring_insert_after:
  assumes r: "ring h l xs" and n: "n \<noteq> l" "n \<notin> set xs"
  shows "ring (rt_list_insert_after l n h) l (n # xs)"
proof (cases xs)
  case Nil
  with r n show ?thesis by (simp add: ring_def rt_list_insert_after_def Let_def)
next
  case (Cons w ws)
  let ?h = "rt_list_insert_after l n h"
  have w: "lnext h l = w" using r Cons by (simp add: ring_next)
  have d: "distinct (l # w # ws)" using r Cons by (simp add: ring_def)
  have "chain h (w # ws @ [l])"
    using r Cons by (simp add: ring_def)
  moreover have "chain ?h (w # ws @ [l]) \<longleftrightarrow> chain h (w # ws @ [l])"
    by (rule chain_cong)
      (use d n Cons w in \<open>auto simp: rt_list_insert_after_def butlast_append split: if_splits\<close>)
  ultimately show ?thesis
    using w n Cons d by (auto simp: ring_def rt_list_insert_after_def Let_def)
qed

lemma ring_insert_before_node:
  assumes r: "ring h l (xs @ s # ys)" and n: "n \<noteq> l" "n \<notin> set (xs @ s # ys)"
  shows "ring (rt_list_insert_before s n h) l (xs @ n # s # ys)"
proof -
  from r have "ring h s (ys @ l # xs)" by (simp add: ring_rotate)
  then have "ring (rt_list_insert_before s n h) s ((ys @ l # xs) @ [n])"
    by (rule ring_insert_before) (use n in auto)
  then show ?thesis
    using ring_rotate [of _ s ys l "xs @ [n]"] by simp
qed

lemma ring_remove_head:
  assumes r: "ring h n (z # zs)"
  shows "ring (rt_list_remove n h) z zs"
proof (cases zs rule: rev_cases)
  case Nil
  with r show ?thesis by (auto simp: ring_def rt_list_remove_def Let_def)
next
  case (snoc ws w)
  let ?h = "rt_list_remove n h"
  have f: "lnext h n = z" "lprev h n = w"
    using r snoc ring_prev [of h n "z # ws" w] by (simp_all add: ring_next)
  have d: "distinct (n # z # ws @ [w])" using r snoc by (simp add: ring_def)
  have "chain h (z # ws @ [w])"
    using r snoc chain_append [of h "n # z # ws" w "[n]"] by (simp add: ring_def)
  moreover have "chain ?h (z # ws @ [w]) \<longleftrightarrow> chain h (z # ws @ [w])"
    by (rule chain_cong) (use d f in \<open>auto simp: rt_list_remove_def butlast_append\<close>)
  moreover have "chain ?h [w, z]"
    using f d by (auto simp: rt_list_remove_def)
  ultimately show ?thesis
    using d snoc chain_append [of ?h "z # ws" w "[z]"] by (auto simp: ring_def)
qed

lemma ring_remove:
  assumes r: "ring h l (xs @ n # ys)"
  shows "ring (rt_list_remove n h) l (xs @ ys)"
proof -
  from r have n: "ring h n (ys @ l # xs)" by (simp add: ring_rotate)
  show ?thesis
  proof (cases ys)
    case Nil
    with n show ?thesis by (simp add: ring_remove_head)
  next
    case (Cons z zs)
    with n have "ring (rt_list_remove n h) z (zs @ l # xs)" by (simp add: ring_remove_head)
    with Cons show ?thesis by (simp add: ring_rotate)
  qed
qed

lemma ring_removed_node: "ring (rt_list_remove n h) n []"
  by (simp add: rt_list_remove_def Let_def)

lemma remove_detached: "ring h n [] \<Longrightarrow> rt_list_remove n h = h"
  by (cases h) (simp add: rt_list_remove_def Let_def fun_upd_idem)

text \<open>Where an operation writes: only the fields of the node, the list head and its neighbours.\<close>

lemma insert_before_other:
  "a \<notin> {n, l, lprev h l} \<Longrightarrow> lnext (rt_list_insert_before l n h) a = lnext h a
     \<and> lprev (rt_list_insert_before l n h) a = lprev h a"
  by (auto simp: rt_list_insert_before_def Let_def)

lemma insert_after_other:
  "a \<notin> {n, l, lnext h l} \<Longrightarrow> lnext (rt_list_insert_after l n h) a = lnext h a
     \<and> lprev (rt_list_insert_after l n h) a = lprev h a"
  by (auto simp: rt_list_insert_after_def Let_def)

lemma remove_other:
  "a \<notin> {n, lnext h n, lprev h n} \<Longrightarrow> lnext (rt_list_remove n h) a = lnext h a
     \<and> lprev (rt_list_remove n h) a = lprev h a"
  by (auto simp: rt_list_remove_def Let_def)

lemma ring_prev_in: "ring h l xs \<Longrightarrow> lprev h l \<in> insert l (set xs)"
  by (cases xs rule: rev_cases) (auto dest: ring_prev)

lemma ring_next_in: "ring h l xs \<Longrightarrow> lnext h l \<in> insert l (set xs)"
  by (cases xs) (auto dest: ring_next)

lemma ring_node_links:
  assumes "ring h l xs" "n \<in> set xs"
  shows "lnext h n \<in> insert l (set xs)" "lprev h n \<in> insert l (set xs)"
proof -
  from assms(2) obtain us vs where xs: "xs = us @ n # vs" by (auto simp: in_set_conv_decomp)
  with assms(1) have "ring h n (vs @ l # us)" by (simp add: ring_rotate)
  from ring_next_in [OF this] ring_prev_in [OF this] xs
  show "lnext h n \<in> insert l (set xs)" "lprev h n \<in> insert l (set xs)" by auto
qed

lemma len_loop_chain:
  "chain h (p # ys @ [l]) \<Longrightarrow> l \<notin> set ys \<Longrightarrow> length ys < fuel
     \<Longrightarrow> rt_list_len_loop fuel l p len h = Some (len + length ys)"
proof (induction ys arbitrary: p fuel len)
  case Nil
  then show ?case by (cases fuel) auto
next
  case (Cons y ys)
  then obtain f where "fuel = Suc f" "length ys < f" by (cases fuel) auto
  with Cons show ?case by auto
qed

lemma rt_list_len_enough: "ring h l xs \<Longrightarrow> length xs < fuel \<Longrightarrow> rt_list_len fuel l h = Some (length xs)"
  by (simp add: rt_list_len_def ring_def len_loop_chain [where len = 0, simplified])

subsection \<open>The interface the kernel relies on\<close>

text \<open>
  A store of lists: \<open>rep s f\<close> says that store \<open>s\<close> holds at every head \<open>k\<close> the sequence
  \<open>f k\<close>, no node on two lists or twice on one. A node outside all lists is \<open>detached\<close>.
\<close>

definition list_family :: "('k \<Rightarrow> 'n list) \<Rightarrow> bool" where
  "list_family f \<longleftrightarrow> (\<forall>k. distinct (f k)) \<and> (\<forall>k j. k \<noteq> j \<longrightarrow> set (f k) \<inter> set (f j) = {})"

definition fam_remove :: "'n \<Rightarrow> ('k \<Rightarrow> 'n list) \<Rightarrow> 'k \<Rightarrow> 'n list" where
  "fam_remove n f = (\<lambda>k. removeAll n (f k))"

definition fam_nodes :: "('k \<Rightarrow> 'n list) \<Rightarrow> 'n set" where
  "fam_nodes f = (\<Union>k. set (f k))"

locale list_store =
  fixes rep :: "'s \<Rightarrow> ('k \<Rightarrow> 'n list) \<Rightarrow> bool"
    and detached :: "'n \<Rightarrow> 's \<Rightarrow> bool"
    and insert_before :: "'k \<Rightarrow> 'n \<Rightarrow> 's \<Rightarrow> 's"
    and insert_after :: "'k \<Rightarrow> 'n \<Rightarrow> 's \<Rightarrow> 's"
    and insert_before_node :: "'n \<Rightarrow> 'n \<Rightarrow> 's \<Rightarrow> 's"
    and remove :: "'n \<Rightarrow> 's \<Rightarrow> 's"
    and isempty :: "'k \<Rightarrow> 's \<Rightarrow> bool"
    and first :: "'k \<Rightarrow> 's \<Rightarrow> 'n"
  assumes rep_family: "rep s f \<Longrightarrow> list_family f"
    and rep_insert_before: "rep s f \<Longrightarrow> detached n s \<Longrightarrow> n \<notin> fam_nodes f
      \<Longrightarrow> rep (insert_before k n s) (f(k := f k @ [n]))"
    and rep_insert_after: "rep s f \<Longrightarrow> detached n s \<Longrightarrow> n \<notin> fam_nodes f
      \<Longrightarrow> rep (insert_after k n s) (f(k := n # f k))"
    and rep_insert_before_node: "rep s f \<Longrightarrow> detached n s \<Longrightarrow> n \<notin> fam_nodes f
      \<Longrightarrow> f k = xs @ m # ys \<Longrightarrow> rep (insert_before_node m n s) (f(k := xs @ n # m # ys))"
    and rep_remove: "rep s f \<Longrightarrow> n \<in> fam_nodes f \<or> detached n s \<Longrightarrow> rep (remove n s) (fam_remove n f)"
    and detached_remove: "rep s f \<Longrightarrow> n \<in> fam_nodes f \<or> detached n s \<Longrightarrow> detached n (remove n s)"
    and rep_isempty: "rep s f \<Longrightarrow> isempty k s \<longleftrightarrow> f k = []"
    and rep_first: "rep s f \<Longrightarrow> f k \<noteq> [] \<Longrightarrow> first k s = hd (f k)"
begin

lemma remove_not_in: "rep s f \<Longrightarrow> n \<in> fam_nodes f \<or> detached n s
    \<Longrightarrow> \<exists>g. rep (remove n s) g \<and> n \<notin> fam_nodes g"
  using rep_remove [of s f n] by (force simp: fam_nodes_def fam_remove_def)

text \<open>Append at the tail, take from the head: what the kernel's ready and wait queues do is FIFO.\<close>

lemma enqueue_first:
  "rep s f \<Longrightarrow> detached n s \<Longrightarrow> n \<notin> fam_nodes f \<Longrightarrow>
     first k (insert_before k n s) = (if isempty k s then n else first k s)"
  using rep_insert_before [of s f n k] by (auto simp: rep_isempty rep_first)

lemma enqueue_not_empty:
  "rep s f \<Longrightarrow> detached n s \<Longrightarrow> n \<notin> fam_nodes f \<Longrightarrow> \<not> isempty k (insert_before k n s)"
  using rep_insert_before [of s f n k] by (simp add: rep_isempty)

lemma fam_remove_new: "n \<notin> fam_nodes f \<Longrightarrow> fam_remove n (f(k := f k @ [n])) = f"
  by (force simp: fam_remove_def fam_nodes_def fun_eq_iff)

lemma move_to_tail:
  assumes "rep s f" "n \<in> fam_nodes f \<or> detached n s"
  shows "rep (insert_before k n (remove n s)) ((fam_remove n f)(k := fam_remove n f k @ [n]))"
proof (rule rep_insert_before)
  show "rep (remove n s) (fam_remove n f)" using assms by (rule rep_remove)
  show "detached n (remove n s)" using assms by (rule detached_remove)
  show "n \<notin> fam_nodes (fam_remove n f)" by (auto simp: fam_nodes_def fam_remove_def)
qed

lemma remove_insert:
  assumes "rep s f" "detached n s" "n \<notin> fam_nodes f"
  shows "rep (remove n (insert_before k n s)) f"
proof -
  let ?g = "f(k := f k @ [n])"
  have "n \<in> set (?g k)" by simp
  then have "n \<in> fam_nodes ?g" unfolding fam_nodes_def by blast
  then have "rep (remove n (insert_before k n s)) (fam_remove n ?g)"
    using rep_remove [OF rep_insert_before [OF assms]] by blast
  then show ?thesis using fam_remove_new [OF assms(3)] by simp
qed

end

subsection \<open>The store of sequences\<close>

text \<open>
  The kernel state of the other theories keeps the contents of every list head as a sequence;
  these are the list operations on it. Removing a node that is on no list changes nothing, as
  \<open>remove_detached\<close> shows for the pointers.
\<close>

definition seq_insert_before :: "'k \<Rightarrow> 'n \<Rightarrow> ('k \<Rightarrow> 'n list) \<Rightarrow> 'k \<Rightarrow> 'n list" where
  "seq_insert_before k n f = f(k := f k @ [n])"

definition seq_insert_after :: "'k \<Rightarrow> 'n \<Rightarrow> ('k \<Rightarrow> 'n list) \<Rightarrow> 'k \<Rightarrow> 'n list" where
  "seq_insert_after k n f = f(k := n # f k)"

fun insert_before_in :: "'n \<Rightarrow> 'n \<Rightarrow> 'n list \<Rightarrow> 'n list" where
  "insert_before_in m n [] = []"
| "insert_before_in m n (x # xs) = (if x = m then n # x # xs else x # insert_before_in m n xs)"

definition seq_insert_before_node :: "'n \<Rightarrow> 'n \<Rightarrow> ('k \<Rightarrow> 'n list) \<Rightarrow> 'k \<Rightarrow> 'n list" where
  "seq_insert_before_node m n f = (\<lambda>k. insert_before_in m n (f k))"

definition seq_detached :: "'n \<Rightarrow> ('k \<Rightarrow> 'n list) \<Rightarrow> bool" where
  "seq_detached n f \<longleftrightarrow> n \<notin> fam_nodes f"

lemma insert_before_in_notin: "m \<notin> set xs \<Longrightarrow> insert_before_in m n xs = xs"
  by (induction xs) auto

lemma insert_before_in_split: "m \<notin> set xs \<Longrightarrow> insert_before_in m n (xs @ m # ys) = xs @ n # m # ys"
  by (induction xs) auto

lemma in_fam_nodes: "n \<in> fam_nodes f \<longleftrightarrow> (\<exists>k. n \<in> set (f k))"
  by (auto simp: fam_nodes_def)

lemma list_family_distinct: "list_family f \<Longrightarrow> distinct (f k)"
  by (simp add: list_family_def)

lemma list_family_unique: "list_family f \<Longrightarrow> n \<in> set (f k) \<Longrightarrow> n \<in> set (f j) \<Longrightarrow> k = j"
  by (auto simp: list_family_def)

lemma list_family_upd:
  assumes "list_family f" "distinct xs"
    and "\<And>n j. n \<in> set xs \<Longrightarrow> j \<noteq> k \<Longrightarrow> n \<notin> set (f j)"
  shows "list_family (f(k := xs))"
  using assms by (auto simp: list_family_def)

lemma list_family_insert:
  assumes "list_family f" "n \<notin> fam_nodes f"
  shows "list_family (f(k := f k @ [n]))" "list_family (f(k := n # f k))"
  using assms by (auto simp: in_fam_nodes list_family_distinct dest: list_family_unique
      intro!: list_family_upd)

lemma list_family_insert_node:
  assumes "list_family f" "n \<notin> fam_nodes f" "f k = xs @ m # ys"
  shows "list_family (f(k := xs @ n # m # ys))"
proof (rule list_family_upd)
  have "distinct (f k)" using assms(1) by (rule list_family_distinct)
  moreover have "n \<notin> set (f k)" using assms(2) by (auto simp: in_fam_nodes)
  ultimately show "distinct (xs @ n # m # ys)" using assms(3) by auto
  fix a j assume "a \<in> set (xs @ n # m # ys)" "j \<noteq> k"
  then show "a \<notin> set (f j)"
    using assms list_family_unique [OF assms(1), of a j k] by (auto simp: in_fam_nodes)
qed (rule assms(1))

lemma list_family_remove: "list_family f \<Longrightarrow> list_family (fam_remove n f)"
  unfolding list_family_def fam_remove_def by (simp add: distinct_removeAll) blast

lemma fam_nodes_remove: "fam_nodes (fam_remove n f) = fam_nodes f - {n}"
  by (auto simp: fam_nodes_def fam_remove_def)

lemma fam_remove_detached: "seq_detached n f \<Longrightarrow> fam_remove n f = f"
  by (rule ext) (simp add: fam_remove_def seq_detached_def in_fam_nodes)

lemma seq_insert_before_node_eq:
  assumes "list_family f" "f k = xs @ m # ys"
  shows "seq_insert_before_node m n f = f(k := xs @ n # m # ys)"
proof
  fix j
  show "seq_insert_before_node m n f j = (f(k := xs @ n # m # ys)) j"
  proof (cases "j = k")
    case True
    have "m \<notin> set xs" using list_family_distinct [OF assms(1), of k] assms(2) by simp
    with True assms(2) show ?thesis
      by (simp add: seq_insert_before_node_def insert_before_in_split)
  next
    case False
    then have "m \<notin> set (f j)" using list_family_unique [OF assms(1), of m j k] assms(2) by auto
    with False show ?thesis by (simp add: seq_insert_before_node_def insert_before_in_notin)
  qed
qed

interpretation seqs: list_store "\<lambda>s f. s = f \<and> list_family f" seq_detached seq_insert_before
  seq_insert_after seq_insert_before_node fam_remove "\<lambda>k s. s k = []" "\<lambda>k s. hd (s k)"
  by unfold_locales
    (auto simp: seq_insert_before_def seq_insert_after_def seq_detached_def list_family_insert
      list_family_insert_node seq_insert_before_node_eq list_family_remove fam_nodes_remove)

subsection \<open>The pointer heap\<close>

definition ptr_rep :: "('k \<Rightarrow> ptr) \<Rightarrow> list_heap \<Rightarrow> ('k \<Rightarrow> ptr list) \<Rightarrow> bool" where
  "ptr_rep adr h f \<longleftrightarrow> inj adr \<and> list_family f \<and> (\<forall>k. ring h (adr k) (f k))
     \<and> (\<forall>j k. adr j \<notin> set (f k))"

definition ptr_detached :: "('k \<Rightarrow> ptr) \<Rightarrow> ptr \<Rightarrow> list_heap \<Rightarrow> bool" where
  "ptr_detached adr n h \<longleftrightarrow> ring h n [] \<and> n \<notin> range adr"

text \<open>Two heads own disjoint sets of addresses.\<close>

definition owns :: "('k \<Rightarrow> ptr) \<Rightarrow> ('k \<Rightarrow> ptr list) \<Rightarrow> 'k \<Rightarrow> ptr set" where
  "owns adr f k = insert (adr k) (set (f k))"

lemma owns_disjoint: "ptr_rep adr h f \<Longrightarrow> k \<noteq> j \<Longrightarrow> owns adr f k \<inter> owns adr f j = {}"
  by (auto simp: ptr_rep_def owns_def inj_eq dest: list_family_unique)

lemma detached_not_owned: "ptr_detached adr n h \<Longrightarrow> n \<notin> fam_nodes f \<Longrightarrow> n \<notin> owns adr f k"
  by (auto simp: ptr_detached_def owns_def fam_nodes_def)

text \<open>
  One list changes: enough that its ring is right afterwards, and that the operation wrote
  inside what this head owns and the moved node.
\<close>

lemma ptr_rep_change:
  assumes rep: "ptr_rep adr h f" and r: "ring h' (adr k) xs" and fam: "list_family (f(k := xs))"
    and heads: "\<And>j. adr j \<notin> set xs"
    and frame: "\<And>a. a \<notin> insert n (owns adr f k) \<Longrightarrow> lnext h' a = lnext h a \<and> lprev h' a = lprev h a"
    and out: "\<And>j. j \<noteq> k \<Longrightarrow> n \<notin> owns adr f j"
  shows "ptr_rep adr h' (f(k := xs))"
proof -
  have "ring h' (adr j) ((f(k := xs)) j)" for j
  proof (cases "j = k")
    case False
    have "ring h' (adr j) (f j)"
    proof (rule ring_frame)
      show "ring h (adr j) (f j)" using rep by (simp add: ptr_rep_def)
      fix a assume "a \<in> insert (adr j) (set (f j))"
      then have "a \<in> owns adr f j" by (simp add: owns_def)
      with owns_disjoint [OF rep False] out [OF False]
      show "lnext h' a = lnext h a \<and> lprev h' a = lprev h a" by (intro frame) auto
    qed
    with False show ?thesis by simp
  qed (use r in simp)
  moreover have "\<forall>i j. adr i \<notin> set ((f(k := xs)) j)"
    using rep heads by (simp add: ptr_rep_def)
  ultimately show ?thesis using rep fam by (simp add: ptr_rep_def)
qed

lemma ptr_rep_ring: "ptr_rep adr h f \<Longrightarrow> ring h (adr k) (f k)"
  by (simp add: ptr_rep_def)

lemma detached_not_head: "ptr_detached adr n h \<Longrightarrow> n \<noteq> adr k"
  by (auto simp: ptr_detached_def)

lemma ptr_rep_remove:
  assumes rep: "ptr_rep adr h f" and n: "n \<in> fam_nodes f \<or> ptr_detached adr n h"
  shows "ptr_rep adr (rt_list_remove n h) (fam_remove n f)"
proof (cases "n \<in> fam_nodes f")
  case True
  then obtain k where k: "n \<in> set (f k)" by (auto simp: in_fam_nodes)
  then obtain xs ys where xs: "f k = xs @ n # ys" by (auto simp: in_set_conv_decomp)
  have fam: "list_family f" using rep by (simp add: ptr_rep_def)
  have new: "fam_remove n f = f(k := xs @ ys)"
  proof
    fix j
    have "n \<notin> set (f j)" if "j \<noteq> k" using list_family_unique [OF fam k] that by blast
    moreover have "n \<notin> set xs" "n \<notin> set ys" using list_family_distinct [OF fam, of k] xs by simp_all
    ultimately show "fam_remove n f j = (f(k := xs @ ys)) j"
      using xs by (simp add: fam_remove_def)
  qed
  have links: "lnext h n \<in> owns adr f k" "lprev h n \<in> owns adr f k"
    using ring_node_links [OF ptr_rep_ring [OF rep] k] by (simp_all add: owns_def)
  show ?thesis unfolding new
  proof (rule ptr_rep_change [OF rep, where n = n])
    show "ring (rt_list_remove n h) (adr k) (xs @ ys)"
      using ptr_rep_ring [OF rep, of k] xs by (simp add: ring_remove)
    show "list_family (f(k := xs @ ys))" using list_family_remove [OF fam, of n] by (simp add: new)
    show "adr j \<notin> set (xs @ ys)" for j
      using rep xs unfolding ptr_rep_def by (metis Un_iff list.set_intros(2) set_append)
    show "n \<notin> owns adr f j" if "j \<noteq> k" for j
      using owns_disjoint [OF rep that] k by (auto simp: owns_def)
    show "lnext (rt_list_remove n h) a = lnext h a \<and> lprev (rt_list_remove n h) a = lprev h a"
      if "a \<notin> insert n (owns adr f k)" for a
      by (rule remove_other) (use that links in auto)
  qed
next
  case False
  with n have "ring h n []" by (simp add: ptr_detached_def)
  then have "rt_list_remove n h = h" by (rule remove_detached)
  moreover have "fam_remove n f = f"
    using False by (auto simp: fam_remove_def in_fam_nodes fun_eq_iff)
  ultimately show ?thesis using rep by simp
qed

lemma ptr_rep_insert_before:
  assumes rep: "ptr_rep adr h f" and n: "ptr_detached adr n h" "n \<notin> fam_nodes f"
  shows "ptr_rep adr (rt_list_insert_before (adr k) n h) (f(k := f k @ [n]))"
proof (rule ptr_rep_change [OF rep, where n = n])
  have r: "ring h (adr k) (f k)" using rep by (rule ptr_rep_ring)
  show "ring (rt_list_insert_before (adr k) n h) (adr k) (f k @ [n])"
    using r n detached_not_head [OF n(1)] by (auto simp: in_fam_nodes intro: ring_insert_before)
  show "list_family (f(k := f k @ [n]))"
    using rep n(2) by (simp add: ptr_rep_def list_family_insert)
  show "adr j \<notin> set (f k @ [n])" for j
    using rep detached_not_head [OF n(1), of j] by (simp add: ptr_rep_def)
  show "n \<notin> owns adr f j" for j using n by (rule detached_not_owned)
  show "lnext (rt_list_insert_before (adr k) n h) a = lnext h a
      \<and> lprev (rt_list_insert_before (adr k) n h) a = lprev h a"
    if "a \<notin> insert n (owns adr f k)" for a
    by (rule insert_before_other) (use that ring_prev_in [OF r] in \<open>auto simp: owns_def\<close>)
qed

lemma ptr_rep_insert_after:
  assumes rep: "ptr_rep adr h f" and n: "ptr_detached adr n h" "n \<notin> fam_nodes f"
  shows "ptr_rep adr (rt_list_insert_after (adr k) n h) (f(k := n # f k))"
proof (rule ptr_rep_change [OF rep, where n = n])
  have r: "ring h (adr k) (f k)" using rep by (rule ptr_rep_ring)
  show "ring (rt_list_insert_after (adr k) n h) (adr k) (n # f k)"
    using r n detached_not_head [OF n(1)] by (auto simp: in_fam_nodes intro: ring_insert_after)
  show "list_family (f(k := n # f k))"
    using rep n(2) by (simp add: ptr_rep_def list_family_insert)
  show "adr j \<notin> set (n # f k)" for j
    using rep detached_not_head [OF n(1), of j] by (simp add: ptr_rep_def)
  show "n \<notin> owns adr f j" for j using n by (rule detached_not_owned)
  show "lnext (rt_list_insert_after (adr k) n h) a = lnext h a
      \<and> lprev (rt_list_insert_after (adr k) n h) a = lprev h a"
    if "a \<notin> insert n (owns adr f k)" for a
    by (rule insert_after_other) (use that ring_next_in [OF r] in \<open>auto simp: owns_def\<close>)
qed

lemma ptr_rep_insert_before_node:
  assumes rep: "ptr_rep adr h f" and n: "ptr_detached adr n h" "n \<notin> fam_nodes f"
    and k: "f k = xs @ m # ys"
  shows "ptr_rep adr (rt_list_insert_before m n h) (f(k := xs @ n # m # ys))"
proof (rule ptr_rep_change [OF rep, where n = n])
  have r: "ring h (adr k) (xs @ m # ys)" using ptr_rep_ring [OF rep, of k] k by simp
  have out: "n \<notin> set (xs @ m # ys)" using n(2) k by (metis in_fam_nodes)
  show "ring (rt_list_insert_before m n h) (adr k) (xs @ n # m # ys)"
    using ring_insert_before_node [OF r] detached_not_head [OF n(1)] out by blast
  show "list_family (f(k := xs @ n # m # ys))"
    using rep n(2) k by (simp add: ptr_rep_def list_family_insert_node)
  show "adr j \<notin> set (xs @ n # m # ys)" for j
    using rep k detached_not_head [OF n(1), of j] unfolding ptr_rep_def
    by (metis Un_iff insert_iff list.simps(15) set_append)
  show "n \<notin> owns adr f j" for j using n by (rule detached_not_owned)
  have "lprev h m \<in> owns adr f k" "m \<in> owns adr f k"
    using ring_node_links(2) [OF r, of m] k by (auto simp: owns_def)
  then show "lnext (rt_list_insert_before m n h) a = lnext h a
      \<and> lprev (rt_list_insert_before m n h) a = lprev h a"
    if "a \<notin> insert n (owns adr f k)" for a
    by (intro insert_before_other) (use that in auto)
qed

interpretation ptrs: list_store "ptr_rep adr" "ptr_detached adr"
  "\<lambda>k. rt_list_insert_before (adr k)" "\<lambda>k. rt_list_insert_after (adr k)"
  rt_list_insert_before rt_list_remove "\<lambda>k. rt_list_isempty (adr k)" "\<lambda>k h. lnext h (adr k)"
  for adr :: "'k \<Rightarrow> ptr"
proof unfold_locales
  show "ptr_rep adr s f \<Longrightarrow> list_family f" for s f
    by (simp add: ptr_rep_def)
  show "ptr_detached adr n (rt_list_remove n s)"
    if "ptr_rep adr s f" "n \<in> fam_nodes f \<or> ptr_detached adr n s" for s f n
    using that ring_removed_node [of n s] by (auto simp: ptr_detached_def ptr_rep_def in_fam_nodes)
  show "ptr_rep adr s f \<Longrightarrow> rt_list_isempty (adr k) s = (f k = [])" for s f k
    by (rule ring_isempty [OF ptr_rep_ring])
  show "lnext s (adr k) = hd (f k)" if "ptr_rep adr s f" "f k \<noteq> []" for s f k
    using ptr_rep_ring [OF that(1), of k] that(2) by (cases "f k") (auto dest: ring_next)
qed (fact ptr_rep_insert_before ptr_rep_insert_after ptr_rep_insert_before_node ptr_rep_remove)+

subsection \<open>Null-terminated lists\<close>

text \<open>
  The singly linked lists of message queues and memory pools: \<open>m\<close> gives the link stored at an
  address, \<open>linked m p xs\<close> says that \<open>p\<close> points to the list of the nodes \<open>xs\<close>.
\<close>

primrec linked :: "(ptr \<Rightarrow> ptr) \<Rightarrow> ptr \<Rightarrow> ptr list \<Rightarrow> bool" where
  "linked m p [] \<longleftrightarrow> p = RT_NULL"
| "linked m p (x # xs) \<longleftrightarrow> p = x \<and> x \<noteq> RT_NULL \<and> linked m (m x) xs"

primrec follow :: "(ptr \<Rightarrow> ptr) \<Rightarrow> ptr \<Rightarrow> nat \<Rightarrow> ptr list" where
  "follow m p 0 = []"
| "follow m p (Suc n) = p # follow m (m p) n"

lemma linked_follow: "linked m p xs \<Longrightarrow> follow m p (length xs) = xs"
  by (induction xs arbitrary: p) auto

lemma linked_null [simp]: "linked m RT_NULL xs \<longleftrightarrow> xs = []"
  by (cases xs) auto

lemma linked_upd [simp]: "x \<notin> set xs \<Longrightarrow> linked (m(x := v)) p xs = linked m p xs"
  by (induction xs arbitrary: p) auto

lemma linked_not_null: "linked m p xs \<Longrightarrow> x \<in> set xs \<Longrightarrow> x \<noteq> RT_NULL"
  by (induction xs arbitrary: p) auto

lemma linked_cong: "(\<And>a. a \<in> set xs \<Longrightarrow> f a = g a) \<Longrightarrow> linked f p xs = linked g p xs"
  by (induction xs arbitrary: p) auto

lemma linked_snoc:
  assumes "linked m p xs" "xs \<noteq> []" "distinct (xs @ [a])" "m a = RT_NULL" "a \<noteq> RT_NULL"
  shows "linked (m(last xs := a)) p (xs @ [a])"
  using assms by (induction xs arbitrary: p) (auto simp: last_in_set)

end
