(* ===== verification/RT_Kernel.thy ===== *)
theory RT_Kernel
  imports RT_List
begin

text \<open>
  The kernel state. Every C structure of \<^verbatim>\<open>include/rtdef.h\<close> that the modelled operations read
  or write is a \<^theory_text>\<open>record\<close>; structures are found by address (a total map from addresses), the
  globals of \<^verbatim>\<open>scheduler.c\<close>, \<^verbatim>\<open>timer.c\<close>, \<^verbatim>\<open>clock.c\<close>, \<^verbatim>\<open>irq.c\<close> and \<^verbatim>\<open>object.c\<close> are the
  other fields. A structure that inherits from \<^verbatim>\<open>rt_object\<close> (by casting) has its object part at
  the same address in \<open>objs\<close>; the timer embedded in a thread has its own address
  \<open>thread_timer\<close>.

  Configuration (that of \<^verbatim>\<open>bsp/stm32/stm32f103-atk-nano/rtconfig.h\<close>): one CPU, 32 priority
  levels, names of 8 characters, a timer list of one level, no soft timers, no signals, no
  modules, assertions on; the hook pointers are null.
\<close>

subsection \<open>Constants of rtdef.h\<close>

abbreviation (input) RT_NAME_MAX :: nat where "RT_NAME_MAX \<equiv> 8"
abbreviation (input) RT_THREAD_PRIORITY_MAX :: nat where "RT_THREAD_PRIORITY_MAX \<equiv> 32"
abbreviation (input) RT_ALIGN_SIZE :: u32 where "RT_ALIGN_SIZE \<equiv> 4"
abbreviation (input) RT_TICK_MAX :: u32 where "RT_TICK_MAX \<equiv> 0xffffffff"
abbreviation (input) RT_TICK_PER_SECOND :: u32 where "RT_TICK_PER_SECOND \<equiv> 1000"

abbreviation (input) RT_THREAD_INIT :: u8 where "RT_THREAD_INIT \<equiv> 0"
abbreviation (input) RT_THREAD_READY :: u8 where "RT_THREAD_READY \<equiv> 1"
abbreviation (input) RT_THREAD_SUSPEND :: u8 where "RT_THREAD_SUSPEND \<equiv> 2"
abbreviation (input) RT_THREAD_RUNNING :: u8 where "RT_THREAD_RUNNING \<equiv> 3"
abbreviation (input) RT_THREAD_CLOSE :: u8 where "RT_THREAD_CLOSE \<equiv> 4"
abbreviation (input) RT_THREAD_STAT_MASK :: u8 where "RT_THREAD_STAT_MASK \<equiv> 0x0f"

abbreviation (input) RT_Object_Class_Thread :: u8 where "RT_Object_Class_Thread \<equiv> 1"
abbreviation (input) RT_Object_Class_Semaphore :: u8 where "RT_Object_Class_Semaphore \<equiv> 2"
abbreviation (input) RT_Object_Class_Mutex :: u8 where "RT_Object_Class_Mutex \<equiv> 3"
abbreviation (input) RT_Object_Class_Event :: u8 where "RT_Object_Class_Event \<equiv> 4"
abbreviation (input) RT_Object_Class_MailBox :: u8 where "RT_Object_Class_MailBox \<equiv> 5"
abbreviation (input) RT_Object_Class_MessageQueue :: u8 where "RT_Object_Class_MessageQueue \<equiv> 6"
abbreviation (input) RT_Object_Class_MemHeap :: u8 where "RT_Object_Class_MemHeap \<equiv> 7"
abbreviation (input) RT_Object_Class_MemPool :: u8 where "RT_Object_Class_MemPool \<equiv> 8"
abbreviation (input) RT_Object_Class_Device :: u8 where "RT_Object_Class_Device \<equiv> 9"
abbreviation (input) RT_Object_Class_Timer :: u8 where "RT_Object_Class_Timer \<equiv> 10"
abbreviation (input) RT_Object_Class_Unknown :: u8 where "RT_Object_Class_Unknown \<equiv> 12"
abbreviation (input) RT_Object_Class_Static :: u8 where "RT_Object_Class_Static \<equiv> 0x80"

abbreviation (input) RT_TIMER_FLAG_ACTIVATED :: u8 where "RT_TIMER_FLAG_ACTIVATED \<equiv> 1"
abbreviation (input) RT_TIMER_FLAG_ONE_SHOT :: u8 where "RT_TIMER_FLAG_ONE_SHOT \<equiv> 0"
abbreviation (input) RT_TIMER_FLAG_PERIODIC :: u8 where "RT_TIMER_FLAG_PERIODIC \<equiv> 2"

abbreviation (input) RT_IPC_FLAG_FIFO :: u8 where "RT_IPC_FLAG_FIFO \<equiv> 0"
abbreviation (input) RT_IPC_FLAG_PRIO :: u8 where "RT_IPC_FLAG_PRIO \<equiv> 1"
abbreviation (input) RT_IPC_CMD_RESET :: int where "RT_IPC_CMD_RESET \<equiv> 1"

abbreviation (input) RT_EVENT_FLAG_AND :: u8 where "RT_EVENT_FLAG_AND \<equiv> 1"
abbreviation (input) RT_EVENT_FLAG_OR :: u8 where "RT_EVENT_FLAG_OR \<equiv> 2"
abbreviation (input) RT_EVENT_FLAG_CLEAR :: u8 where "RT_EVENT_FLAG_CLEAR \<equiv> 4"

subsection \<open>Structures\<close>

record rt_object =
  name :: string
  otype :: u8
  flag :: u8

text \<open>What a timer calls: the kernel's own \<^verbatim>\<open>rt_thread_timeout\<close>, or a function of the application.\<close>

datatype timeout_func = Rt_thread_timeout | App_timeout ptr

record rt_timer =
  tm_func :: timeout_func
  tm_parameter :: ptr
  tm_init_tick :: u32
  timeout_tick :: u32

record rt_thread =
  entry :: ptr
  parameter :: ptr
  sp :: ptr
  stack_addr :: ptr
  stack_size :: u32
  error :: err
  stat :: u8
  current_priority :: u8
  init_priority :: u8
  number_mask :: u32
  event_set :: u32
  event_info :: u8
  init_tick :: u32
  remaining_tick :: u32
  thread_timer :: ptr
  cleanup :: ptr
  user_data :: u32

record rt_semaphore =
  sem_value :: u16

record rt_mutex =
  mutex_value :: u16
  original_priority :: u8
  hold :: u8
  owner :: ptr

record rt_event =
  event_bits :: u32

record rt_mailbox =
  mb_pool :: ptr
  mb_size :: u16
  mb_entry :: u16
  in_offset :: u16
  out_offset :: u16

record rt_messagequeue =
  mq_pool :: ptr
  msg_size :: u16
  max_msgs :: u16
  mq_entry :: u16
  msg_queue_head :: ptr
  msg_queue_tail :: ptr
  msg_queue_free :: ptr

record rt_mempool =
  start_address :: ptr
  mp_size :: u32
  block_size :: u32
  block_list :: ptr
  block_total_count :: u32
  block_free_count :: u32
  suspend_thread_count :: u32

text \<open>
  The heads of the lists a thread can be on through its node \<^verbatim>\<open>tlist\<close>: the ready list of a
  priority, the defunct list, the wait list of an IPC object or memory pool, the senders of a
  mailbox.
\<close>

datatype tlist_head =
    Ready nat
  | Defunct
  | Waiters ptr
  | Senders ptr

text \<open>
  \<open>pmem\<close> and \<open>bmem\<close> are the memory behind pointers: cells of one machine word (the mails of a
  mailbox, the links of message queues and memory pools) and bytes (message bodies).
\<close>

record kernel =
  objs :: "ptr \<Rightarrow> rt_object"
  object_list :: "u8 \<Rightarrow> ptr list"
  threads :: "ptr \<Rightarrow> rt_thread"
  tlists :: "tlist_head \<Rightarrow> ptr list"
  ready_priority_group :: u32
  scheduler_lock_nest :: u16
  rt_current_thread :: ptr
  rt_current_priority :: u8
  interrupt_nest :: u8
  timers :: "ptr \<Rightarrow> rt_timer"
  timer_list :: "ptr list"
  rt_tick :: u32
  rt_errno :: err
  sems :: "ptr \<Rightarrow> rt_semaphore"
  mutexes :: "ptr \<Rightarrow> rt_mutex"
  events :: "ptr \<Rightarrow> rt_event"
  mailboxes :: "ptr \<Rightarrow> rt_mailbox"
  mqs :: "ptr \<Rightarrow> rt_messagequeue"
  mempools :: "ptr \<Rightarrow> rt_mempool"
  pmem :: "ptr \<Rightarrow> ptr"
  bmem :: "ptr \<Rightarrow> u8"

subsection \<open>Field updates\<close>

text \<open>Assignments to one field of the structure at an address.\<close>

definition upd_obj :: "ptr \<Rightarrow> (rt_object \<Rightarrow> rt_object) \<Rightarrow> kernel \<Rightarrow> kernel" where
  "upd_obj a f k = k\<lparr>objs := (objs k)(a := f (objs k a))\<rparr>"

definition upd_thread :: "ptr \<Rightarrow> (rt_thread \<Rightarrow> rt_thread) \<Rightarrow> kernel \<Rightarrow> kernel" where
  "upd_thread a f k = k\<lparr>threads := (threads k)(a := f (threads k a))\<rparr>"

definition upd_timer :: "ptr \<Rightarrow> (rt_timer \<Rightarrow> rt_timer) \<Rightarrow> kernel \<Rightarrow> kernel" where
  "upd_timer a f k = k\<lparr>timers := (timers k)(a := f (timers k a))\<rparr>"

definition upd_sem :: "ptr \<Rightarrow> (rt_semaphore \<Rightarrow> rt_semaphore) \<Rightarrow> kernel \<Rightarrow> kernel" where
  "upd_sem a f k = k\<lparr>sems := (sems k)(a := f (sems k a))\<rparr>"

definition upd_mutex :: "ptr \<Rightarrow> (rt_mutex \<Rightarrow> rt_mutex) \<Rightarrow> kernel \<Rightarrow> kernel" where
  "upd_mutex a f k = k\<lparr>mutexes := (mutexes k)(a := f (mutexes k a))\<rparr>"

definition upd_event :: "ptr \<Rightarrow> (rt_event \<Rightarrow> rt_event) \<Rightarrow> kernel \<Rightarrow> kernel" where
  "upd_event a f k = k\<lparr>events := (events k)(a := f (events k a))\<rparr>"

definition upd_mb :: "ptr \<Rightarrow> (rt_mailbox \<Rightarrow> rt_mailbox) \<Rightarrow> kernel \<Rightarrow> kernel" where
  "upd_mb a f k = k\<lparr>mailboxes := (mailboxes k)(a := f (mailboxes k a))\<rparr>"

definition upd_mq :: "ptr \<Rightarrow> (rt_messagequeue \<Rightarrow> rt_messagequeue) \<Rightarrow> kernel \<Rightarrow> kernel" where
  "upd_mq a f k = k\<lparr>mqs := (mqs k)(a := f (mqs k a))\<rparr>"

definition upd_mp :: "ptr \<Rightarrow> (rt_mempool \<Rightarrow> rt_mempool) \<Rightarrow> kernel \<Rightarrow> kernel" where
  "upd_mp a f k = k\<lparr>mempools := (mempools k)(a := f (mempools k a))\<rparr>"

lemmas upd_defs = upd_obj_def upd_thread_def upd_timer_def upd_sem_def upd_mutex_def
  upd_event_def upd_mb_def upd_mq_def upd_mp_def

text \<open>The thread lists, with the list operations of \<^verbatim>\<open>rtservice.h\<close> on sequences.\<close>

definition tlist_insert_before :: "tlist_head \<Rightarrow> ptr \<Rightarrow> kernel \<Rightarrow> kernel" where
  "tlist_insert_before l t k = k\<lparr>tlists := seq_insert_before l t (tlists k)\<rparr>"

definition tlist_insert_after :: "tlist_head \<Rightarrow> ptr \<Rightarrow> kernel \<Rightarrow> kernel" where
  "tlist_insert_after l t k = k\<lparr>tlists := seq_insert_after l t (tlists k)\<rparr>"

definition tlist_insert_before_node :: "ptr \<Rightarrow> ptr \<Rightarrow> kernel \<Rightarrow> kernel" where
  "tlist_insert_before_node s t k = k\<lparr>tlists := seq_insert_before_node s t (tlists k)\<rparr>"

definition tlist_remove :: "ptr \<Rightarrow> kernel \<Rightarrow> kernel" where
  "tlist_remove t k = k\<lparr>tlists := fam_remove t (tlists k)\<rparr>"

definition tlist_init :: "tlist_head \<Rightarrow> kernel \<Rightarrow> kernel" where
  "tlist_init l k = k\<lparr>tlists := (tlists k)(l := [])\<rparr>"

definition tlist_isempty :: "tlist_head \<Rightarrow> kernel \<Rightarrow> bool" where
  "tlist_isempty l k \<longleftrightarrow> tlists k l = []"

text \<open>
  \<^verbatim>\<open>rt_list_entry(l.next, \<dots>)\<close>: on an empty list the code would take the list head itself for a
  thread; that is \<open>None\<close> here, as every other access outside a structure is.
\<close>

definition tlist_first :: "tlist_head \<Rightarrow> kernel \<Rightarrow> ptr option" where
  "tlist_first l k = (case tlists k l of [] \<Rightarrow> None | t # _ \<Rightarrow> Some t)"

lemmas tlist_defs = tlist_insert_before_def tlist_insert_after_def tlist_insert_before_node_def
  tlist_remove_def tlist_init_def

lemma tlist_first_Some: "tlist_first l k = Some t \<longleftrightarrow> (\<exists>r. tlists k l = t # r)"
  by (auto simp: tlist_first_def split: list.splits)

text \<open>A guard for accesses that are undefined behaviour in C (an index outside an array).\<close>

definition C_GUARD :: "bool \<Rightarrow> unit option" where
  "C_GUARD b = (if b then Some () else None)"

lemma C_GUARD_simps [simp]:
  "C_GUARD True = Some ()" "C_GUARD False = None"
  "C_GUARD b = Some u \<longleftrightarrow> b"
  "C_GUARD b \<bind> f = (if b then f () else None)"
  by (simp_all add: C_GUARD_def)

text \<open>
  Context checks of \<^verbatim>\<open>rtdebug.h\<close>.
\<close>

definition RT_DEBUG_NOT_IN_INTERRUPT :: "kernel \<Rightarrow> unit option" where
  "RT_DEBUG_NOT_IN_INTERRUPT k = RT_ASSERT (interrupt_nest k = 0)"

definition RT_DEBUG_IN_THREAD_CONTEXT :: "kernel \<Rightarrow> unit option" where
  "RT_DEBUG_IN_THREAD_CONTEXT k = do {
     RT_ASSERT (rt_current_thread k \<noteq> RT_NULL);
     RT_DEBUG_NOT_IN_INTERRUPT k
   }"

definition rt_interrupt_get_nest :: "kernel \<Rightarrow> u8" where
  "rt_interrupt_get_nest k = interrupt_nest k"

definition rt_interrupt_enter :: "kernel \<Rightarrow> kernel" where
  "rt_interrupt_enter k = k\<lparr>interrupt_nest := interrupt_nest k + 1\<rparr>"

definition rt_interrupt_leave :: "kernel \<Rightarrow> kernel" where
  "rt_interrupt_leave k = k\<lparr>interrupt_nest := interrupt_nest k - 1\<rparr>"

subsection \<open>Thread states\<close>

definition tstat :: "kernel \<Rightarrow> ptr \<Rightarrow> u8" where
  "tstat k t = stat (threads k t) AND RT_THREAD_STAT_MASK"

abbreviation (input) tprio :: "kernel \<Rightarrow> ptr \<Rightarrow> nat" where
  "tprio k t \<equiv> unat (current_priority (threads k t))"

lemma stat_mask_set: "(a OR (s AND NOT m)) AND m = a AND (m :: 'a::len word)"
  by (rule bit_word_eqI) (auto simp: bit_simps)

lemma stat_set_simps [simp]:
  "(1 OR (s AND - 16)) AND 15 = (1 :: u8)"
  "(2 OR (s AND - 16)) AND 15 = (2 :: u8)"
  "(3 OR (s AND - 16)) AND 15 = (3 :: u8)"
  using stat_mask_set [of 1 s 15] stat_mask_set [of 2 s 15] stat_mask_set [of 3 s 15] by simp_all

end
