(* ===== verification/RT_KService.thy ===== *)
theory RT_KService
  imports RT_Kernel
begin

text \<open>
  Kernel services of \<^verbatim>\<open>src/kservice.c\<close>: the find-first-set routine of the scheduler with its
  byte table, the error number, and the string and memory routines.
\<close>

subsection \<open>Find first set\<close>

definition lowest_bit_bitmap :: "nat list" where
  "lowest_bit_bitmap =
     [0, 0, 1, 0, 2, 0, 1, 0, 3, 0, 1, 0, 2, 0, 1, 0,
      4, 0, 1, 0, 2, 0, 1, 0, 3, 0, 1, 0, 2, 0, 1, 0,
      5, 0, 1, 0, 2, 0, 1, 0, 3, 0, 1, 0, 2, 0, 1, 0,
      4, 0, 1, 0, 2, 0, 1, 0, 3, 0, 1, 0, 2, 0, 1, 0,
      6, 0, 1, 0, 2, 0, 1, 0, 3, 0, 1, 0, 2, 0, 1, 0,
      4, 0, 1, 0, 2, 0, 1, 0, 3, 0, 1, 0, 2, 0, 1, 0,
      5, 0, 1, 0, 2, 0, 1, 0, 3, 0, 1, 0, 2, 0, 1, 0,
      4, 0, 1, 0, 2, 0, 1, 0, 3, 0, 1, 0, 2, 0, 1, 0,
      7, 0, 1, 0, 2, 0, 1, 0, 3, 0, 1, 0, 2, 0, 1, 0,
      4, 0, 1, 0, 2, 0, 1, 0, 3, 0, 1, 0, 2, 0, 1, 0,
      5, 0, 1, 0, 2, 0, 1, 0, 3, 0, 1, 0, 2, 0, 1, 0,
      4, 0, 1, 0, 2, 0, 1, 0, 3, 0, 1, 0, 2, 0, 1, 0,
      6, 0, 1, 0, 2, 0, 1, 0, 3, 0, 1, 0, 2, 0, 1, 0,
      4, 0, 1, 0, 2, 0, 1, 0, 3, 0, 1, 0, 2, 0, 1, 0,
      5, 0, 1, 0, 2, 0, 1, 0, 3, 0, 1, 0, 2, 0, 1, 0,
      4, 0, 1, 0, 2, 0, 1, 0, 3, 0, 1, 0, 2, 0, 1, 0]"

definition rt_ffs :: "u32 \<Rightarrow> nat" where
  "rt_ffs value =
     (if value = 0 then 0
      else if value AND 0xff \<noteq> 0 then
        lowest_bit_bitmap ! unat (value AND 0xff) + 1
      else if value AND 0xff00 \<noteq> 0 then
        lowest_bit_bitmap ! unat (drop_bit 8 (value AND 0xff00)) + 9
      else if value AND 0xff0000 \<noteq> 0 then
        lowest_bit_bitmap ! unat (drop_bit 16 (value AND 0xff0000)) + 17
      else lowest_bit_bitmap ! unat (drop_bit 24 (value AND 0xff000000)) + 25)"

text \<open>The table: entry \<open>i\<close> is the index of the lowest set bit of the byte \<open>i\<close>.\<close>

definition lowest_bit :: "'a::semiring_bits \<Rightarrow> nat \<Rightarrow> bool" where
  "lowest_bit v i \<longleftrightarrow> bit v i \<and> (\<forall>j<i. \<not> bit v j)"

fun table_ok :: "int \<Rightarrow> nat list \<Rightarrow> bool" where
  "table_ok i [] \<longleftrightarrow> True"
| "table_ok i (e # es) \<longleftrightarrow>
     (i = 0 \<or> (e < 8 \<and> i div 2 ^ e mod 2 = 1 \<and> i mod 2 ^ e = 0)) \<and> table_ok (i + 1) es"

lemma bitmap_table: "table_ok 0 lowest_bit_bitmap"
  unfolding lowest_bit_bitmap_def by simp

lemma table_ok_nth:
  "table_ok i es \<Longrightarrow> j < length es \<Longrightarrow> i + int j \<noteq> 0 \<Longrightarrow>
     es ! j < 8 \<and> (i + int j) div 2 ^ (es ! j) mod 2 = 1 \<and> (i + int j) mod 2 ^ (es ! j) = 0"
proof (induction es arbitrary: i j)
  case (Cons e es)
  then show ?case
    by (cases j) (fastforce simp: algebra_simps)+
qed simp

lemma bitmap_lowest:
  assumes "0 < i" "i < 256"
  shows "lowest_bit i (lowest_bit_bitmap ! i)" "lowest_bit_bitmap ! i < 8"
proof -
  let ?e = "lowest_bit_bitmap ! i"
  have len: "length lowest_bit_bitmap = 256" by (simp add: lowest_bit_bitmap_def)
  have t: "?e < 8" "int i div 2 ^ ?e mod 2 = 1" "int i mod 2 ^ ?e = 0"
    using table_ok_nth [OF bitmap_table, of i] assms len by auto
  have "int (i div 2 ^ ?e mod 2) = 1" "int (i mod 2 ^ ?e) = 0"
    using t by (simp_all add: of_nat_div of_nat_mod)
  then have e: "?e < 8" "odd (i div 2 ^ ?e)" "2 ^ ?e dvd i"
    using t(1) by (simp_all add: odd_iff_mod_2_eq_one mod_0_imp_dvd)
  have "\<not> bit i j" if "j < ?e" for j
  proof -
    have "2 ^ Suc j dvd i" using that e(3) by (meson Suc_leI dvd_trans le_imp_power_dvd)
    then show ?thesis by (auto simp: bit_iff_odd power_Suc2 dvd_def ac_simps)
  qed
  with e show "lowest_bit i ?e" "?e < 8" by (auto simp: lowest_bit_def bit_iff_odd)
qed

lemma lowest_bit_byte:
  fixes v :: u32
  assumes nz: "drop_bit s v AND 0xff \<noteq> 0" and low: "\<And>j. j < s \<Longrightarrow> \<not> bit v j"
  shows "lowest_bit v (lowest_bit_bitmap ! unat (drop_bit s v AND 0xff) + s)"
proof -
  let ?b = "drop_bit s v AND 0xff"
  have "?b \<le> 255" by (rule word_and_le1)
  then have lt: "unat ?b < 256" by (simp add: word_le_nat_alt)
  moreover have "0 < unat ?b" using nz by (simp add: unat_gt_0)
  ultimately have l: "lowest_bit (unat ?b) (lowest_bit_bitmap ! unat ?b)"
    and e: "lowest_bit_bitmap ! unat ?b < 8" using bitmap_lowest by blast+
  have bits: "bit (unat ?b) j \<longleftrightarrow> bit v (j + s)" if "j < 8" for j
  proof -
    have "bit (0xff :: u32) j" using that
      by (auto simp: less_Suc_eq numeral_eq_Suc bit_numeral_simps)
    then show ?thesis by (simp add: bit_unsigned_iff bit_simps add.commute)
  qed
  show ?thesis
    unfolding lowest_bit_def
  proof (intro conjI allI impI)
    show "bit v (lowest_bit_bitmap ! unat ?b + s)"
      using l e by (simp add: lowest_bit_def flip: bits)
    fix j assume j: "j < lowest_bit_bitmap ! unat ?b + s"
    show "\<not> bit v j"
    proof (cases "j < s")
      case False
      with j e have "j - s < lowest_bit_bitmap ! unat ?b" "j - s < 8" by auto
      with l have "\<not> bit (unat ?b) (j - s)" by (simp add: lowest_bit_def)
      with bits [OF \<open>j - s < 8\<close>] False show ?thesis by simp
    qed (rule low)
  qed
qed

lemma byte_of_word:
  "drop_bit 8 (v AND 0xff00) = drop_bit 8 v AND (0xff :: u32)"
  "drop_bit 16 (v AND 0xff0000) = drop_bit 16 v AND (0xff :: u32)"
  "drop_bit 24 (v AND 0xff000000) = drop_bit 24 v AND (0xff :: u32)"
  by (simp_all add: drop_bit_and)

lemma zero_byte_bits:
  fixes v :: u32
  assumes "drop_bit s v AND 0xff = 0" "s \<le> j" "j < s + 8"
  shows "\<not> bit v j"
proof -
  have "bit (0xff :: u32) (j - s)" using assms(2,3)
    by (auto simp: less_Suc_eq numeral_eq_Suc bit_numeral_simps less_diff_conv2)
  moreover have "\<not> bit (drop_bit s v AND 0xff) (j - s)" using assms(1) by simp
  ultimately show ?thesis using assms(2) by (simp add: bit_simps)
qed

lemma zero_drop_bit: "take_bit n v = 0 \<Longrightarrow> v = 0 \<longleftrightarrow> drop_bit n v = (0 :: u32)"
  using bits_ident [of n v] by auto

lemma zero_masked:
  fixes v :: u32
  shows "v AND 0xff00 = 0 \<longleftrightarrow> drop_bit 8 v AND 0xff = 0"
    "v AND 0xff0000 = 0 \<longleftrightarrow> drop_bit 16 v AND 0xff = 0"
    "v AND 0xff000000 = 0 \<longleftrightarrow> drop_bit 24 v AND 0xff = 0"
  unfolding byte_of_word [symmetric] by (rule zero_drop_bit, simp)+

lemma ffs_cases:
  fixes v :: u32
  shows "v AND 0xff \<noteq> 0 \<Longrightarrow> rt_ffs v = lowest_bit_bitmap ! unat (v AND 0xff) + 1"
    "v AND 0xff = 0 \<Longrightarrow> v AND 0xff00 \<noteq> 0 \<Longrightarrow>
       rt_ffs v = lowest_bit_bitmap ! unat (drop_bit 8 v AND 0xff) + 9"
    "v AND 0xff = 0 \<Longrightarrow> v AND 0xff00 = 0 \<Longrightarrow> v AND 0xff0000 \<noteq> 0 \<Longrightarrow>
       rt_ffs v = lowest_bit_bitmap ! unat (drop_bit 16 v AND 0xff) + 17"
    "v \<noteq> 0 \<Longrightarrow> v AND 0xff = 0 \<Longrightarrow> v AND 0xff00 = 0 \<Longrightarrow> v AND 0xff0000 = 0 \<Longrightarrow>
       rt_ffs v = lowest_bit_bitmap ! unat (drop_bit 24 v AND 0xff) + 25"
  unfolding rt_ffs_def byte_of_word by auto

lemma word_zero_bits: "(v :: u32) = 0 \<longleftrightarrow> (\<forall>j<32. \<not> bit v j)"
proof
  assume "\<forall>j<32. \<not> bit v j"
  then show "v = 0" by (intro bit_word_eqI) auto
qed simp

lemma lowest_bit_ffs:
  assumes "v \<noteq> 0"
  shows "lowest_bit v (rt_ffs v - 1) \<and> 0 < rt_ffs v"
proof -
  consider "v AND 0xff \<noteq> 0" | "v AND 0xff = 0" "v AND 0xff00 \<noteq> 0"
    | "v AND 0xff = 0" "v AND 0xff00 = 0" "v AND 0xff0000 \<noteq> 0"
    | "v AND 0xff = 0" "v AND 0xff00 = 0" "v AND 0xff0000 = 0" by blast
  then show ?thesis
  proof cases
    case 1
    with lowest_bit_byte [of 0 v] show ?thesis by (simp add: ffs_cases)
  next
    case 2
    have "lowest_bit v (lowest_bit_bitmap ! unat (drop_bit 8 v AND 0xff) + 8)"
      by (rule lowest_bit_byte) (use 2 zero_byte_bits [of 0 v] in \<open>auto simp: zero_masked\<close>)
    with 2 assms show ?thesis by (simp add: ffs_cases add.commute)
  next
    case 3
    have "\<not> bit v j" if "j < 16" for j
      using 3 that zero_byte_bits [of 0 v j] zero_byte_bits [of 8 v j]
      by (cases "j < 8") (auto simp: zero_masked)
    then have "lowest_bit v (lowest_bit_bitmap ! unat (drop_bit 16 v AND 0xff) + 16)"
      using 3 by (intro lowest_bit_byte) (auto simp: zero_masked)
    with 3 assms show ?thesis by (simp add: ffs_cases add.commute)
  next
    case 4
    have low: "\<not> bit v j" if "j < 24" for j
      using 4 that zero_byte_bits [of 0 v j] zero_byte_bits [of 8 v j] zero_byte_bits [of 16 v j]
      by (cases "j < 8"; cases "j < 16") (auto simp: zero_masked)
    have "drop_bit 24 v AND 0xff \<noteq> 0"
    proof
      assume "drop_bit 24 v AND 0xff = 0"
      then have "\<not> bit v j" if "j < 32" for j
        using low that zero_byte_bits [of 24 v j] by (cases "j < 24") auto
      with assms show False by (simp add: word_zero_bits)
    qed
    then have "lowest_bit v (lowest_bit_bitmap ! unat (drop_bit 24 v AND 0xff) + 24)"
      using low by (intro lowest_bit_byte) auto
    with 4 assms show ?thesis by (simp add: ffs_cases add.commute)
  qed
qed

subsection \<open>Error number\<close>

definition rt_get_errno :: "kernel \<Rightarrow> err" where
  "rt_get_errno k =
     (if rt_interrupt_get_nest k \<noteq> 0 then rt_errno k
      else if rt_current_thread k = RT_NULL then rt_errno k
      else error (threads k (rt_current_thread k)))"

definition rt_set_errno :: "err \<Rightarrow> kernel \<Rightarrow> kernel" where
  "rt_set_errno e k =
     (if rt_interrupt_get_nest k \<noteq> 0 then k\<lparr>rt_errno := e\<rparr>
      else if rt_current_thread k = RT_NULL then k\<lparr>rt_errno := e\<rparr>
      else upd_thread (rt_current_thread k) (\<lambda>th. th\<lparr>error := e\<rparr>) k)"

subsection \<open>Strings\<close>

text \<open>
  A C string is the sequence of its characters; behind them (and at the first \<open>NUL\<close> inside)
  the terminating \<open>NUL\<close> is read. Results that depend on \<^verbatim>\<open>char\<close> differences take characters as
  unsigned bytes, as the ARM compilers of the target do.
\<close>

abbreviation (input) NUL :: char where "NUL \<equiv> CHR 0x00"

definition chead :: "string \<Rightarrow> char" where
  "chead s = (case s of [] \<Rightarrow> NUL | c # _ \<Rightarrow> c)"

fun rt_strlen :: "string \<Rightarrow> nat" where
  "rt_strlen [] = 0"
| "rt_strlen (c # s) = (if c = NUL then 0 else Suc (rt_strlen s))"

fun rt_strnlen :: "string \<Rightarrow> nat \<Rightarrow> nat" where
  "rt_strnlen [] maxlen = 0"
| "rt_strnlen (c # s) maxlen =
     (if c \<noteq> NUL \<and> 0 < maxlen then Suc (rt_strnlen s (maxlen - 1)) else 0)"

text \<open>The \<open>n\<close> bytes that \<^verbatim>\<open>rt_strncpy\<close> writes: the string, then padding.\<close>

fun rt_strncpy :: "string \<Rightarrow> nat \<Rightarrow> string" where
  "rt_strncpy s 0 = []"
| "rt_strncpy [] (Suc n) = NUL # replicate n NUL"
| "rt_strncpy (c # s) (Suc n) = (if c = NUL then NUL # replicate n NUL else c # rt_strncpy s n)"

definition schar_diff :: "char \<Rightarrow> char \<Rightarrow> int" where
  "schar_diff a b = sint (word_of_int (of_char a - of_char b) :: u8)"

fun rt_strncmp :: "string \<Rightarrow> string \<Rightarrow> nat \<Rightarrow> int" where
  "rt_strncmp cs ct 0 = 0"
| "rt_strncmp cs ct (Suc count) =
     (let res = schar_diff (chead cs) (chead ct) in
      if res \<noteq> 0 \<or> chead cs = NUL then res else rt_strncmp (tl cs) (tl ct) count)"

function rt_strcmp :: "string \<Rightarrow> string \<Rightarrow> int" where
  "rt_strcmp cs ct =
     (if chead cs \<noteq> NUL \<and> chead cs = chead ct then rt_strcmp (tl cs) (tl ct)
      else of_char (chead cs) - of_char (chead ct))"
  by pat_completeness auto
termination
  by (relation "measure (\<lambda>(cs, ct). length cs)") (auto simp: chead_def split: list.splits)

declare rt_strcmp.simps [simp del]

definition ascii_lower :: "int \<Rightarrow> int" where
  "ascii_lower c = (if 65 \<le> c \<and> c \<le> 90 then c + (97 - 65) else c)"

function rt_strcasecmp :: "string \<Rightarrow> string \<Rightarrow> int" where
  "rt_strcasecmp a b =
     (let ca = ascii_lower (of_char (chead a)); cb = ascii_lower (of_char (chead b)) in
      if ca = cb \<and> ca \<noteq> 0 then rt_strcasecmp (tl a) (tl b) else ca - cb)"
  by pat_completeness auto
termination
  by (relation "measure (\<lambda>(a, b). length a)") (auto simp: chead_def ascii_lower_def split: list.splits)

declare rt_strcasecmp.simps [simp del]

fun rt_memcmp :: "u8 list \<Rightarrow> u8 list \<Rightarrow> nat \<Rightarrow> int option" where
  "rt_memcmp su1 su2 0 = Some 0"
| "rt_memcmp (a # su1) (b # su2) (Suc count) =
     (if uint a - uint b \<noteq> 0 then Some (uint a - uint b) else rt_memcmp su1 su2 count)"
| "rt_memcmp _ _ (Suc count) = None"

subsection \<open>Properties of the string routines\<close>

lemma of_char_range: "0 \<le> (of_char c :: int)" "(of_char c :: int) < 256"
proof -
  have "int (of_char c) = of_char c" by (rule of_nat_of_char)
  moreover have "of_char c < (256 :: nat)" by simp
  ultimately show "0 \<le> (of_char c :: int)" "(of_char c :: int) < 256" by linarith+
qed

lemma schar_diff_zero [simp]: "schar_diff a b = 0 \<longleftrightarrow> a = b"
proof
  assume "schar_diff a b = 0"
  then have "(word_of_int (of_char a - of_char b) :: u8) = 0"
    unfolding schar_diff_def by (simp only: signed_eq_0_iff)
  then have "(256::int) dvd of_char a - of_char b"
    unfolding word_of_int_eq_0_iff by simp
  then have "(of_char a - of_char b :: int) = 0"
    using of_char_range [of a] of_char_range [of b]
      dvd_imp_le_int [of "of_char a - of_char b" 256] by fastforce
  then show "a = b" by (simp add: of_char_eq_iff)
qed (simp add: schar_diff_def)

lemma chead_simps [simp]: "chead [] = NUL" "chead (c # s) = c"
  by (simp_all add: chead_def)

lemma strncpy_nul: "chead s = NUL \<Longrightarrow> rt_strncpy s n = replicate n NUL"
  by (cases s; cases n) auto

lemma length_strncpy [simp]: "length (rt_strncpy s n) = n"
  by (induction s n rule: rt_strncpy.induct) auto

lemma strncpy_Suc: "chead s \<noteq> NUL \<Longrightarrow> rt_strncpy s (Suc n) = chead s # rt_strncpy (tl s) n"
  by (cases s) auto

lemma strncpy_hd: "chead (rt_strncpy s (Suc n)) = chead s"
  by (cases s) auto

text \<open>Two names compare equal exactly if they are stored as the same bytes.\<close>

lemma strncmp_eq_strncpy:
  "rt_strncmp a b n = 0 \<longleftrightarrow> rt_strncpy a n = rt_strncpy b n"
proof (induction n arbitrary: a b)
  case (Suc n)
  show ?case
  proof (cases "chead a = NUL")
    case True
    have "chead b = NUL" if "rt_strncpy a (Suc n) = rt_strncpy b (Suc n)"
      using strncpy_hd [of b n] strncpy_hd [of a n] that True by metis
    moreover have "rt_strncpy a (Suc n) = rt_strncpy b (Suc n)" if "chead b = NUL"
      using that True by (simp only: strncpy_nul)
    ultimately show ?thesis using True by (auto simp del: rt_strncpy.simps simp: Let_def)
  next
    case False
    then show ?thesis
      using Suc.IH [of "tl a" "tl b"]
      by (cases "chead b = NUL") (auto simp: Let_def strncpy_Suc strncpy_nul)
  qed
qed simp

lemma strncpy_strncpy: "rt_strncpy (rt_strncpy s n) n = rt_strncpy s n"
  by (induction s n rule: rt_strncpy.induct) (auto simp: strncpy_nul)

end
