(* ===== verification/RT_Scheduler.thy ===== *)
theory RT_Scheduler
  imports RT_KService
begin

text \<open>
  The priority scheduler of \<^verbatim>\<open>src/scheduler.c\<close> on one CPU with 32 priorities: the ready lists,
  the group word with one bit per priority, the choice of the next thread and the scheduler
  lock. \<^verbatim>\<open>rt_hw_context_switch\<close> (machine code) is where the C function of the old thread stops:
  \<open>rt_schedule\<close> returns the state in which the new thread runs.

  The invariant \<open>sched_inv\<close> ties thread states, lists and the group word together; every
  operation keeps it, and \<open>rt_schedule\<close> leaves a highest-priority thread running.
\<close>

subsection \<open>Operations\<close>

definition get_highest_priority_thread :: "kernel \<Rightarrow> (ptr \<times> nat) option" where
  "get_highest_priority_thread k = do {
     C_GUARD (ready_priority_group k \<noteq> 0);
     let highest_ready_priority = rt_ffs (ready_priority_group k) - 1;
     highest_priority_thread \<leftarrow> tlist_first (Ready highest_ready_priority) k;
     Some (highest_priority_thread, highest_ready_priority)
   }"

definition rt_system_scheduler_init :: "kernel \<Rightarrow> kernel" where
  "rt_system_scheduler_init k =
     (let k = k\<lparr>scheduler_lock_nest := 0\<rparr>;
          k = fold (\<lambda>offset. tlist_init (Ready offset)) [0..<RT_THREAD_PRIORITY_MAX] k;
          k = k\<lparr>ready_priority_group := 0\<rparr>
      in tlist_init Defunct k)"

definition rt_schedule_insert_thread :: "ptr \<Rightarrow> kernel \<Rightarrow> kernel option" where
  "rt_schedule_insert_thread thread k = do {
     RT_ASSERT (thread \<noteq> RT_NULL);
     if thread = rt_current_thread k then
       Some (upd_thread thread
         (\<lambda>th. th\<lparr>stat := RT_THREAD_RUNNING OR (stat th AND NOT RT_THREAD_STAT_MASK)\<rparr>) k)
     else do {
       let k = upd_thread thread
         (\<lambda>th. th\<lparr>stat := RT_THREAD_READY OR (stat th AND NOT RT_THREAD_STAT_MASK)\<rparr>) k;
       C_GUARD (tprio k thread < RT_THREAD_PRIORITY_MAX);
       let k = tlist_insert_before (Ready (tprio k thread)) thread k;
       Some (k\<lparr>ready_priority_group := ready_priority_group k OR number_mask (threads k thread)\<rparr>)
     }
   }"

definition rt_schedule_remove_thread :: "ptr \<Rightarrow> kernel \<Rightarrow> kernel option" where
  "rt_schedule_remove_thread thread k = do {
     RT_ASSERT (thread \<noteq> RT_NULL);
     let k = tlist_remove thread k;
     C_GUARD (tprio k thread < RT_THREAD_PRIORITY_MAX);
     if tlist_isempty (Ready (tprio k thread)) k then
       Some (k\<lparr>ready_priority_group :=
               ready_priority_group k AND NOT (number_mask (threads k thread))\<rparr>)
     else Some k
   }"

definition rt_system_scheduler_start :: "kernel \<Rightarrow> kernel option" where
  "rt_system_scheduler_start k = do {
     (to_thread, highest_ready_priority) \<leftarrow> get_highest_priority_thread k;
     let k = k\<lparr>rt_current_thread := to_thread\<rparr>;
     k \<leftarrow> rt_schedule_remove_thread to_thread k;
     Some (upd_thread to_thread (\<lambda>th. th\<lparr>stat := RT_THREAD_RUNNING\<rparr>) k)
   }"

definition rt_schedule :: "kernel \<Rightarrow> kernel option" where
  "rt_schedule k =
     (if scheduler_lock_nest k = 0 \<and> ready_priority_group k \<noteq> 0 then do {
        (highest, highest_ready_priority) \<leftarrow> get_highest_priority_thread k;
        let cur = rt_current_thread k;
        C_GUARD (cur \<noteq> RT_NULL);
        let running = (stat (threads k cur) AND RT_THREAD_STAT_MASK = RT_THREAD_RUNNING);
        let stay = (running \<and> tprio k cur < highest_ready_priority);
        let to_thread = (if stay then cur else highest);
        let need_insert_from_thread = (running \<and> \<not> stay);
        if to_thread \<noteq> cur then do {
          let from_thread = cur;
          let k = k\<lparr>rt_current_priority := of_nat highest_ready_priority\<rparr>;
          let k = k\<lparr>rt_current_thread := to_thread\<rparr>;
          k \<leftarrow> (if need_insert_from_thread then rt_schedule_insert_thread from_thread k else Some k);
          k \<leftarrow> rt_schedule_remove_thread to_thread k;
          Some (upd_thread to_thread
            (\<lambda>th. th\<lparr>stat := RT_THREAD_RUNNING OR (stat th AND NOT RT_THREAD_STAT_MASK)\<rparr>) k)
        }
        else do {
          k \<leftarrow> rt_schedule_remove_thread cur k;
          Some (upd_thread cur
            (\<lambda>th. th\<lparr>stat := RT_THREAD_RUNNING OR (stat th AND NOT RT_THREAD_STAT_MASK)\<rparr>) k)
        }
      }
      else Some k)"

definition rt_enter_critical :: "kernel \<Rightarrow> kernel" where
  "rt_enter_critical k = k\<lparr>scheduler_lock_nest := scheduler_lock_nest k + 1\<rparr>"

definition rt_exit_critical :: "kernel \<Rightarrow> kernel option" where
  "rt_exit_critical k =
     (let k = k\<lparr>scheduler_lock_nest := scheduler_lock_nest k - 1\<rparr> in
      if sint (scheduler_lock_nest k) \<le> 0 then
        (let k = k\<lparr>scheduler_lock_nest := 0\<rparr> in
         if rt_current_thread k \<noteq> RT_NULL then rt_schedule k else Some k)
      else Some k)"

definition rt_critical_level :: "kernel \<Rightarrow> u16" where
  "rt_critical_level k = scheduler_lock_nest k"

subsection \<open>The invariant\<close>

definition on_ready :: "kernel \<Rightarrow> ptr \<Rightarrow> bool" where
  "on_ready k t \<longleftrightarrow> (\<exists>p. t \<in> set (tlists k (Ready p)))"

definition prio_ok :: "rt_thread \<Rightarrow> bool" where
  "prio_ok th \<longleftrightarrow> unat (current_priority th) < RT_THREAD_PRIORITY_MAX
     \<and> number_mask th = push_bit (unat (current_priority th)) 1"

text \<open>
  \<^item> no thread is on two lists or twice on one;
  \<^item> a thread on the ready list of priority \<open>p\<close> has that priority; the ready threads are exactly
    the threads on ready lists, the waiting ones are suspended, the defunct ones closed;
  \<^item> bit \<open>p\<close> of the group word says that the ready list \<open>p\<close> is not empty;
  \<^item> every started thread has a legal priority and the matching mask;
  \<^item> only the current thread is in state running, and it is not on a ready list; nothing lives
    at the null address.
\<close>

definition core_inv :: "ptr set \<Rightarrow> kernel \<Rightarrow> bool" where
  "core_inv X k \<longleftrightarrow> list_family (tlists k)
     \<and> (\<forall>p t. t \<in> set (tlists k (Ready p)) \<longrightarrow> tprio k t = p \<and> tstat k t = RT_THREAD_READY)
     \<and> (\<forall>t. t \<notin> X \<longrightarrow> tstat k t = RT_THREAD_READY \<longrightarrow> on_ready k t)
     \<and> (\<forall>x t. t \<in> set (tlists k (Waiters x)) \<longrightarrow> tstat k t = RT_THREAD_SUSPEND)
     \<and> (\<forall>x t. t \<in> set (tlists k (Senders x)) \<longrightarrow> tstat k t = RT_THREAD_SUSPEND)
     \<and> (\<forall>t. t \<in> set (tlists k Defunct) \<longrightarrow> tstat k t = RT_THREAD_CLOSE)
     \<and> (\<forall>p<RT_THREAD_PRIORITY_MAX. bit (ready_priority_group k) p \<longleftrightarrow> tlists k (Ready p) \<noteq> [])
     \<and> (\<forall>t. tstat k t = RT_THREAD_READY \<or> tstat k t = RT_THREAD_SUSPEND
           \<or> tstat k t = RT_THREAD_RUNNING \<longrightarrow> prio_ok (threads k t))
     \<and> (\<forall>l. RT_NULL \<notin> set (tlists k l)) \<and> tstat k RT_NULL = RT_THREAD_INIT"

text \<open>
  The parameter of \<open>core_inv\<close> names threads that are being moved: taken off their ready list
  while their state still says ready. Between operations there is none.
\<close>

definition sched_inv :: "kernel \<Rightarrow> bool" where
  "sched_inv k \<longleftrightarrow> core_inv {} k
     \<and> (\<forall>t. tstat k t = RT_THREAD_RUNNING \<longrightarrow> t = rt_current_thread k)
     \<and> \<not> on_ready k (rt_current_thread k)"

subsection \<open>Facts of the invariant\<close>

lemma core_invD:
  assumes "core_inv X k"
  shows "list_family (tlists k)"
    and "t \<in> set (tlists k (Ready p)) \<Longrightarrow> tprio k t = p"
    and "t \<in> set (tlists k (Ready p)) \<Longrightarrow> tstat k t = RT_THREAD_READY"
    and "t \<notin> X \<Longrightarrow> tstat k t = RT_THREAD_READY \<Longrightarrow> on_ready k t"
    and "t \<in> set (tlists k (Waiters x)) \<Longrightarrow> tstat k t = RT_THREAD_SUSPEND"
    and "t \<in> set (tlists k (Senders x)) \<Longrightarrow> tstat k t = RT_THREAD_SUSPEND"
    and "t \<in> set (tlists k Defunct) \<Longrightarrow> tstat k t = RT_THREAD_CLOSE"
    and "p < 32 \<Longrightarrow> bit (ready_priority_group k) p \<longleftrightarrow> tlists k (Ready p) \<noteq> []"
    and "tstat k t = RT_THREAD_READY \<or> tstat k t = RT_THREAD_SUSPEND
           \<or> tstat k t = RT_THREAD_RUNNING \<Longrightarrow> prio_ok (threads k t)"
    and "RT_NULL \<notin> set (tlists k l)"
    and "tstat k RT_NULL = RT_THREAD_INIT"
  using assms unfolding core_inv_def by blast+

lemma sched_inv_core: "sched_inv k \<Longrightarrow> core_inv {} k"
  by (simp add: sched_inv_def)

lemma detached_not_on: "seq_detached t (tlists k) \<Longrightarrow> t \<notin> set (tlists k l)"
  by (auto simp: seq_detached_def fam_nodes_def)

lemma ready_prio_lt: "core_inv X k \<Longrightarrow> t \<in> set (tlists k (Ready p)) \<Longrightarrow> p < 32"
  using core_invD(2) [of X k t p] core_invD(3) [of X k t p] core_invD(9) [of X k t]
  by (auto simp: prio_ok_def)

lemma on_ready_prio: "core_inv X k \<Longrightarrow> on_ready k t \<Longrightarrow> t \<in> set (tlists k (Ready (tprio k t)))"
  by (auto simp: on_ready_def dest: core_invD(2))

text \<open>A state given by its thread table, lists and group word.\<close>

lemma core_inv_cong:
  "threads k' = threads k \<Longrightarrow> tlists k' = tlists k \<Longrightarrow>
     ready_priority_group k' = ready_priority_group k \<Longrightarrow> core_inv X k' \<longleftrightarrow> core_inv X k"
  by (simp add: core_inv_def tstat_def on_ready_def)

subsection \<open>Removing a thread\<close>

lemma remove_thread_eq:
  assumes "t \<noteq> RT_NULL" "prio_ok (threads k t)"
  shows "rt_schedule_remove_thread t k = Some (k\<lparr>tlists := fam_remove t (tlists k),
     ready_priority_group := (if fam_remove t (tlists k) (Ready (tprio k t)) = []
       then ready_priority_group k AND NOT (push_bit (tprio k t) 1)
       else ready_priority_group k)\<rparr>)"
  using assms
  by (simp add: rt_schedule_remove_thread_def tlist_remove_def tlist_isempty_def prio_ok_def)

lemma core_remove:
  assumes inv: "core_inv X k" and t: "prio_ok (threads k t)"
    and l: "l = fam_remove t (tlists k)"
    and g: "g = (if l (Ready (tprio k t)) = [] then ready_priority_group k AND NOT (push_bit (tprio k t) 1)
       else ready_priority_group k)"
  shows "core_inv (insert t X) (k\<lparr>tlists := l, ready_priority_group := g\<rparr>)"
proof -
  have sub: "u \<in> set (l h) \<longleftrightarrow> u \<in> set (tlists k h) \<and> u \<noteq> t" for u h
    by (simp add: l fam_remove_def)
  have same: "l (Ready p) = tlists k (Ready p)" if "p \<noteq> tprio k t" for p
    using core_invD(2) [OF inv, of t p] that by (auto simp: l fam_remove_def intro!: removeAll_notin)
  have lt: "tprio k t < 32" using t by (simp add: prio_ok_def)
  have bits: "bit g p \<longleftrightarrow> l (Ready p) \<noteq> []" if "p < 32" for p
  proof (cases "p = tprio k t")
    case True
    have "l (Ready p) \<noteq> [] \<Longrightarrow> tlists k (Ready p) \<noteq> []" by (auto simp: l fam_remove_def)
    with True core_invD(8) [OF inv lt] show ?thesis by (auto simp: g bit_simps)
  next
    case False
    with core_invD(8) [OF inv that] same [OF False] that show ?thesis by (auto simp: g bit_simps)
  qed
  show ?thesis
    unfolding core_inv_def
    using core_invD [OF inv] list_family_remove [of "tlists k" t] bits
    by (auto simp: sub tstat_def on_ready_def l [symmetric])
qed

lemma remove_detaches: "seq_detached t (fam_remove t f)"
  by (simp add: seq_detached_def fam_nodes_remove)

subsection \<open>Changing the state of a thread that is on no list\<close>

lemma core_upd_thread:
  assumes inv: "core_inv X k" and t: "seq_detached t (tlists k)" "t \<noteq> RT_NULL"
    and r: "stat th AND 15 = RT_THREAD_READY \<Longrightarrow> t \<in> Y" and Y: "X - {t} \<subseteq> Y"
    and p: "stat th AND 15 = RT_THREAD_READY \<or> stat th AND 15 = RT_THREAD_SUSPEND
      \<or> stat th AND 15 = RT_THREAD_RUNNING \<Longrightarrow> prio_ok th"
  shows "core_inv Y (k\<lparr>threads := (threads k)(t := th)\<rparr>)"
proof -
  have out: "t \<notin> set (tlists k l)" for l using t(1) by (rule detached_not_on)
  let ?k = "k\<lparr>threads := (threads k)(t := th)\<rparr>"
  have s: "tstat ?k u = (if u = t then stat th AND 15 else tstat k u)" for u
    by (simp add: tstat_def)
  have pr: "tprio ?k u = (if u = t then unat (current_priority th) else tprio k u)" for u
    by simp
  have on: "u \<in> set (tlists k l) \<Longrightarrow> u \<noteq> t" for u l using out by blast
  show ?thesis
    unfolding core_inv_def
    using core_invD [OF inv] r p Y t(2) on
    by (simp add: s on_ready_def) (metis DiffI insertE insert_Diff_single subsetD singletonD)
qed

subsection \<open>Inserting a thread\<close>

lemma core_insert:
  assumes inv: "core_inv X k" and t: "seq_detached t (tlists k)" "t \<noteq> RT_NULL"
    and th: "prio_ok (threads k t)" "tstat k t = RT_THREAD_READY"
    and l: "l = seq_insert_before (Ready (tprio k t)) t (tlists k)"
    and g: "g = ready_priority_group k OR number_mask (threads k t)"
  shows "core_inv (X - {t}) (k\<lparr>tlists := l, ready_priority_group := g\<rparr>)"
proof -
  have out: "t \<notin> set (tlists k h)" for h using t(1) by (rule detached_not_on)
  have mem: "u \<in> set (l h) \<longleftrightarrow> u \<in> set (tlists k h) \<or> (u = t \<and> h = Ready (tprio k t))" for u h
    by (auto simp: l seq_insert_before_def)
  have fam: "list_family l"
    using seqs.rep_insert_before [of "tlists k" "tlists k" t] core_invD(1) [OF inv] t(1)
    by (simp add: l seq_detached_def)
  have bits: "bit g p \<longleftrightarrow> l (Ready p) \<noteq> []" if "p < 32" for p
    using core_invD(8) [OF inv that] th(1) that
    by (auto simp: g l seq_insert_before_def prio_ok_def bit_simps)
  show ?thesis
    unfolding core_inv_def
    using core_invD [OF inv] fam bits th t(2)
    by (simp add: mem tstat_def on_ready_def) blast
qed

lemma not_listed:
  assumes "core_inv X k" "tstat k t \<notin> {RT_THREAD_READY, RT_THREAD_SUSPEND, RT_THREAD_CLOSE}"
  shows "seq_detached t (tlists k)"
proof -
  have "t \<notin> set (tlists k l)" for l
    using core_invD(3,5-7) [OF assms(1)] assms(2) by (cases l) fastforce+
  then show ?thesis by (auto simp: seq_detached_def fam_nodes_def)
qed

subsection \<open>What an operation of the scheduler may change\<close>

text \<open>
  Thread states, lists, group word and the choice of the current thread; nothing else in the
  kernel, and of a thread only its state.
\<close>

definition same_but_stat :: "rt_thread \<Rightarrow> rt_thread \<Rightarrow> bool" where
  "same_but_stat a b \<longleftrightarrow> b\<lparr>stat := 0\<rparr> = a\<lparr>stat := 0\<rparr>"

definition sched_frame :: "kernel \<Rightarrow> kernel \<Rightarrow> bool" where
  "sched_frame k k' \<longleftrightarrow>
     k'\<lparr>threads := threads k, tlists := tlists k, ready_priority_group := ready_priority_group k,
        rt_current_thread := rt_current_thread k, rt_current_priority := rt_current_priority k\<rparr> = k
     \<and> (\<forall>t. same_but_stat (threads k t) (threads k' t))"

lemma same_but_stat_refl [simp]: "same_but_stat a a" "same_but_stat a (a\<lparr>stat := s\<rparr>)"
  by (simp_all add: same_but_stat_def)

lemma same_but_stat_fields:
  assumes "same_but_stat a b"
  shows "error b = error a" "current_priority b = current_priority a"
    "init_priority b = init_priority a" "number_mask b = number_mask a"
    "event_set b = event_set a" "event_info b = event_info a" "init_tick b = init_tick a"
    "remaining_tick b = remaining_tick a" "thread_timer b = thread_timer a"
    "cleanup b = cleanup a"
  using assms by (cases a; cases b; simp add: same_but_stat_def)+

lemma same_but_stat_trans: "same_but_stat a b \<Longrightarrow> same_but_stat b c \<Longrightarrow> same_but_stat a c"
  by (simp add: same_but_stat_def)

lemma sched_frame_fields:
  assumes "sched_frame k k'"
  shows "objs k' = objs k" "object_list k' = object_list k"
    "scheduler_lock_nest k' = scheduler_lock_nest k" "interrupt_nest k' = interrupt_nest k"
    "timers k' = timers k" "timer_list k' = timer_list k" "rt_tick k' = rt_tick k"
    "rt_errno k' = rt_errno k" "sems k' = sems k" "mutexes k' = mutexes k" "events k' = events k"
    "mailboxes k' = mailboxes k" "mqs k' = mqs k" "mempools k' = mempools k"
    "pmem k' = pmem k" "bmem k' = bmem k"
    "same_but_stat (threads k t) (threads k' t)"
  using assms by (cases k; cases k'; simp add: sched_frame_def)+

lemma sched_frame_refl [simp]: "sched_frame k k"
  by (simp add: sched_frame_def)

lemma sched_frame_trans: "sched_frame k k' \<Longrightarrow> sched_frame k' k'' \<Longrightarrow> sched_frame k k''"
  unfolding sched_frame_def by (cases k; cases k'; cases k'') (auto intro: same_but_stat_trans)

lemma sched_frame_prio: "sched_frame k k' \<Longrightarrow> prio_ok (threads k' t) \<longleftrightarrow> prio_ok (threads k t)"
  using sched_frame_fields(17) [of k k' t] by (simp add: prio_ok_def same_but_stat_fields)

lemma insert_thread_eq:
  assumes "t \<noteq> RT_NULL" "t \<noteq> rt_current_thread k" "prio_ok (threads k t)"
  shows "rt_schedule_insert_thread t k = Some (k\<lparr>
     threads := (threads k)(t := threads k t
       \<lparr>stat := RT_THREAD_READY OR (stat (threads k t) AND NOT RT_THREAD_STAT_MASK)\<rparr>),
     tlists := seq_insert_before (Ready (tprio k t)) t (tlists k),
     ready_priority_group := ready_priority_group k OR number_mask (threads k t)\<rparr>)"
  using assms
  by (simp add: rt_schedule_insert_thread_def upd_thread_def tlist_insert_before_def prio_ok_def)

lemma core_insert_thread:
  assumes inv: "core_inv X k" and t: "seq_detached t (tlists k)" "t \<noteq> RT_NULL"
    "t \<noteq> rt_current_thread k" "prio_ok (threads k t)" and X: "X \<subseteq> {t}"
  shows "\<exists>k'. rt_schedule_insert_thread t k = Some k' \<and> core_inv {} k' \<and> sched_frame k k'
     \<and> tlists k' = seq_insert_before (Ready (tprio k t)) t (tlists k)
     \<and> tstat k' t = RT_THREAD_READY \<and> (\<forall>u. u \<noteq> t \<longrightarrow> tstat k' u = tstat k u)
     \<and> rt_current_thread k' = rt_current_thread k"
proof -
  let ?th = "threads k t\<lparr>stat := RT_THREAD_READY OR (stat (threads k t) AND NOT RT_THREAD_STAT_MASK)\<rparr>"
  let ?k = "k\<lparr>threads := (threads k)(t := ?th)\<rparr>"
  have th: "prio_ok ?th" using t(4) by (simp add: prio_ok_def)
  have "core_inv {t} ?k" by (rule core_upd_thread [OF inv t(1,2)]) (use th X in auto)
  from core_insert [OF this, of t, OF _ t(2) _ _ refl refl] t th
  have "core_inv {} (?k\<lparr>tlists := seq_insert_before (Ready (tprio k t)) t (tlists k),
     ready_priority_group := ready_priority_group k OR number_mask (threads k t)\<rparr>)"
    by (simp add: tstat_def)
  then show ?thesis
    using insert_thread_eq [OF t(2-4)]
    by (simp add: sched_frame_def tstat_def)
qed

lemma schedule_insert_thread_inv:
  assumes inv: "sched_inv k" and t: "seq_detached t (tlists k)" "t \<noteq> RT_NULL" "prio_ok (threads k t)"
  shows "\<exists>k'. rt_schedule_insert_thread t k = Some k' \<and> sched_inv k' \<and> sched_frame k k'
     \<and> rt_current_thread k' = rt_current_thread k
     \<and> tlists k' = (if t = rt_current_thread k then tlists k
         else seq_insert_before (Ready (tprio k t)) t (tlists k))
     \<and> tstat k' t = (if t = rt_current_thread k then RT_THREAD_RUNNING else RT_THREAD_READY)
     \<and> (\<forall>u. u \<noteq> t \<longrightarrow> tstat k' u = tstat k u)"
proof (cases "t = rt_current_thread k")
  case True
  let ?th = "threads k t\<lparr>stat := RT_THREAD_RUNNING OR (stat (threads k t) AND NOT RT_THREAD_STAT_MASK)\<rparr>"
  let ?k = "k\<lparr>threads := (threads k)(t := ?th)\<rparr>"
  have "core_inv {} ?k"
    by (rule core_upd_thread [OF sched_inv_core [OF inv] t(1,2)])
      (use t(3) in \<open>auto simp: prio_ok_def\<close>)
  then have "sched_inv ?k" using inv True by (auto simp: sched_inv_def tstat_def on_ready_def)
  with True t(2) show ?thesis
    by (simp add: rt_schedule_insert_thread_def upd_thread_def sched_frame_def tstat_def)
next
  case False
  obtain k' where k': "rt_schedule_insert_thread t k = Some k'" "core_inv {} k'" "sched_frame k k'"
    "tlists k' = seq_insert_before (Ready (tprio k t)) t (tlists k)"
    "tstat k' t = RT_THREAD_READY" "\<forall>u. u \<noteq> t \<longrightarrow> tstat k' u = tstat k u"
    "rt_current_thread k' = rt_current_thread k"
    using core_insert_thread [OF sched_inv_core [OF inv] t(1,2) False t(3)] by blast
  have "tstat k' u = RT_THREAD_RUNNING \<Longrightarrow> u = rt_current_thread k" for u
    using inv k'(5,6) by (cases "u = t") (auto simp: sched_inv_def)
  moreover have "\<not> on_ready k' (rt_current_thread k)"
    using inv k'(4) False by (auto simp: sched_inv_def on_ready_def seq_insert_before_def)
  ultimately have "sched_inv k'" using k' by (simp add: sched_inv_def)
  with k' False show ?thesis by auto
qed

subsection \<open>Choosing the highest-priority thread\<close>

lemma get_highest_ok:
  assumes inv: "core_inv X k" and g: "ready_priority_group k \<noteq> 0"
  shows "\<exists>t p r. get_highest_priority_thread k = Some (t, p) \<and> tlists k (Ready p) = t # r \<and> p < 32
     \<and> (\<forall>q u. u \<in> set (tlists k (Ready q)) \<longrightarrow> p \<le> q)"
proof -
  let ?p = "rt_ffs (ready_priority_group k) - 1"
  have low: "lowest_bit (ready_priority_group k) ?p" using lowest_bit_ffs [OF g] by simp
  then have "bit (ready_priority_group k) ?p" by (simp add: lowest_bit_def)
  moreover from this have lt: "?p < 32" using bit_imp_le_length [of "ready_priority_group k" ?p] by simp
  ultimately obtain t r where tr: "tlists k (Ready ?p) = t # r"
    using core_invD(8) [OF inv lt] by (cases "tlists k (Ready ?p)") auto
  have "?p \<le> q" if "u \<in> set (tlists k (Ready q))" for q u
  proof (rule ccontr)
    assume "\<not> ?p \<le> q"
    then have "\<not> bit (ready_priority_group k) q" using low by (simp add: lowest_bit_def)
    moreover have "q < 32" using ready_prio_lt [OF inv that] .
    ultimately show False using core_invD(8) [OF inv, of q] that by auto
  qed
  with tr lt g show ?thesis
    by (auto simp: get_highest_priority_thread_def tlist_first_def)
qed

lemma group_zero: "core_inv X k \<Longrightarrow> ready_priority_group k = 0 \<longleftrightarrow> (\<forall>t. \<not> on_ready k t)"
proof
  assume inv: "core_inv X k" and none: "\<forall>t. \<not> on_ready k t"
  have "\<not> bit (ready_priority_group k) p" if "p < 32" for p
    using core_invD(8) [OF inv that] none by (metis on_ready_def set_hd_in)
  then show "ready_priority_group k = 0" by (simp add: word_zero_bits)
next
  assume inv: "core_inv X k" and z: "ready_priority_group k = 0"
  show "\<forall>t. \<not> on_ready k t"
  proof (intro allI notI)
    fix t assume "on_ready k t"
    then obtain p where p: "t \<in> set (tlists k (Ready p))" by (auto simp: on_ready_def)
    with core_invD(8) [OF inv ready_prio_lt [OF inv p]] z show False by auto
  qed
qed

text \<open>Switching to the first thread of a ready list.\<close>

definition switch_to :: "ptr \<Rightarrow> kernel \<Rightarrow> kernel option" where
  "switch_to to_thread k = do {
     k \<leftarrow> rt_schedule_remove_thread to_thread k;
     Some (upd_thread to_thread
       (\<lambda>th. th\<lparr>stat := RT_THREAD_RUNNING OR (stat th AND NOT RT_THREAD_STAT_MASK)\<rparr>) k)
   }"

lemma switch_to_ok:
  assumes inv: "core_inv {} k" and t: "t \<noteq> RT_NULL" "prio_ok (threads k t)"
  shows "\<exists>k'. switch_to t k = Some k' \<and> core_inv {} k' \<and> sched_frame k k'
     \<and> rt_current_thread k' = rt_current_thread k \<and> tlists k' = fam_remove t (tlists k)
     \<and> tstat k' t = RT_THREAD_RUNNING \<and> (\<forall>u. u \<noteq> t \<longrightarrow> tstat k' u = tstat k u)"
proof -
  let ?l = "fam_remove t (tlists k)"
  let ?g = "if ?l (Ready (tprio k t)) = [] then ready_priority_group k AND NOT (push_bit (tprio k t) 1)
       else ready_priority_group k"
  let ?k = "k\<lparr>tlists := ?l, ready_priority_group := ?g\<rparr>"
  let ?th = "threads k t\<lparr>stat := RT_THREAD_RUNNING OR (stat (threads k t) AND NOT RT_THREAD_STAT_MASK)\<rparr>"
  have "core_inv {t} ?k" using core_remove [OF inv t(2) refl refl] by simp
  then have "core_inv {} (?k\<lparr>threads := (threads ?k)(t := ?th)\<rparr>)"
    by (rule core_upd_thread) (use t remove_detaches [of t "tlists k"] in \<open>auto simp: prio_ok_def\<close>)
  then show ?thesis
    using remove_thread_eq [OF t] by (simp add: switch_to_def upd_thread_def sched_frame_def tstat_def)
qed

lemma rt_schedule_cases:
  assumes inv: "sched_inv k" and cur: "rt_current_thread k \<noteq> RT_NULL"
    and on: "scheduler_lock_nest k = 0" "ready_priority_group k \<noteq> 0"
    and h: "get_highest_priority_thread k = Some (t, p)"
  shows "rt_schedule k =
     (if tstat k (rt_current_thread k) \<noteq> RT_THREAD_RUNNING then
        switch_to t (k\<lparr>rt_current_priority := of_nat p, rt_current_thread := t\<rparr>)
      else if tprio k (rt_current_thread k) < p then switch_to (rt_current_thread k) k
      else rt_schedule_insert_thread (rt_current_thread k)
          (k\<lparr>rt_current_priority := of_nat p, rt_current_thread := t\<rparr>) \<bind> (\<lambda>k. switch_to t k))"
proof -
  obtain r where "tlists k (Ready p) = t # r"
    using get_highest_ok [OF sched_inv_core [OF inv] on(2)] h by auto
  then have "on_ready k t" unfolding on_ready_def by (metis list.set_intros(1))
  then have "t \<noteq> rt_current_thread k" using inv by (auto simp: sched_inv_def)
  with h on cur show ?thesis
    by (simp add: rt_schedule_def switch_to_def [abs_def] tstat_def Let_def)
qed

lemma sched_frame_current:
  "sched_frame (k\<lparr>rt_current_priority := c, rt_current_thread := t\<rparr>) k' \<Longrightarrow> sched_frame k k'"
  unfolding sched_frame_def by (cases k; cases k') auto

text \<open>
  The result of \<open>rt_schedule\<close>: the invariant, the frame, and a running thread that no ready
  thread beats.
\<close>

definition top_running :: "kernel \<Rightarrow> bool" where
  "top_running k \<longleftrightarrow> tstat k (rt_current_thread k) = RT_THREAD_RUNNING
     \<and> (\<forall>t. tstat k t = RT_THREAD_READY \<longrightarrow> tprio k (rt_current_thread k) \<le> tprio k t)"

text \<open>Scheduling moves threads between the states ready and running and touches no other state.\<close>

definition stat_moves :: "kernel \<Rightarrow> kernel \<Rightarrow> bool" where
  "stat_moves k k' \<longleftrightarrow> (\<forall>t. tstat k' t = tstat k t
     \<or> tstat k t \<in> {RT_THREAD_READY, RT_THREAD_RUNNING} \<and> tstat k' t \<in> {RT_THREAD_READY, RT_THREAD_RUNNING})"

definition stat_moved :: "kernel \<Rightarrow> kernel \<Rightarrow> ptr \<Rightarrow> bool" where
  "stat_moved k k' t \<longleftrightarrow> tstat k' t = tstat k t
     \<or> tstat k t \<in> {RT_THREAD_READY, RT_THREAD_RUNNING} \<and> tstat k' t \<in> {RT_THREAD_READY, RT_THREAD_RUNNING}"

lemma stat_moves_moved: "stat_moves k k' \<Longrightarrow> stat_moved k k' t"
  by (simp add: stat_moves_def stat_moved_def)

lemma stat_moved_pre: "stat_moved k1 k' t \<Longrightarrow> tstat k1 t = tstat k t \<Longrightarrow> stat_moved k k' t"
  by (simp add: stat_moved_def)

lemma stat_moved_suspend: "stat_moved k k' t \<Longrightarrow> tstat k' t = RT_THREAD_SUSPEND \<longleftrightarrow> tstat k t = RT_THREAD_SUSPEND"
  by (auto simp: stat_moved_def)

lemma stat_moves_refl [simp]: "stat_moves k k"
  by (simp add: stat_moves_def)

lemma stat_moves_trans: "stat_moves k k' \<Longrightarrow> stat_moves k' k'' \<Longrightarrow> stat_moves k k''"
  unfolding stat_moves_def by metis

lemma stat_moves_one:
  assumes "tstat k c \<in> {RT_THREAD_READY, RT_THREAD_RUNNING}" "tstat k' c \<in> {RT_THREAD_READY, RT_THREAD_RUNNING}"
    "\<forall>u. u \<noteq> c \<longrightarrow> tstat k' u = tstat k u"
  shows "stat_moves k k'"
  unfolding stat_moves_def
proof
  fix t show "tstat k' t = tstat k t \<or> tstat k t \<in> {RT_THREAD_READY, RT_THREAD_RUNNING}
      \<and> tstat k' t \<in> {RT_THREAD_READY, RT_THREAD_RUNNING}"
    using assms by (cases "t = c") auto
qed

lemma stat_moves_iff:
  assumes "stat_moves k k'"
  shows "tstat k' t = RT_THREAD_SUSPEND \<longleftrightarrow> tstat k t = RT_THREAD_SUSPEND"
    and "tstat k' t = RT_THREAD_INIT \<longleftrightarrow> tstat k t = RT_THREAD_INIT"
    and "tstat k' t = RT_THREAD_CLOSE \<longleftrightarrow> tstat k t = RT_THREAD_CLOSE"
  using assms unfolding stat_moves_def by (auto dest!: spec [of _ t])

lemma frame_tprio: "sched_frame k k' \<Longrightarrow> tprio k' t = tprio k t"
  using same_but_stat_fields(2) [OF sched_frame_fields(17)] by simp

lemma ready_in_frame:
  assumes "core_inv {} k'" "sched_frame k k'" "tstat k' u = RT_THREAD_READY"
  shows "u \<in> set (tlists k' (Ready (tprio k u)))"
  using core_invD(4) [OF assms(1), of u] on_ready_prio [OF assms(1), of u] assms
  by (simp add: frame_tprio)

lemma schedule_stay:
  assumes inv: "sched_inv k" and cur: "rt_current_thread k \<noteq> RT_NULL"
    and run: "tstat k (rt_current_thread k) = RT_THREAD_RUNNING"
    and low: "\<And>q u. u \<in> set (tlists k (Ready q)) \<Longrightarrow> tprio k (rt_current_thread k) \<le> q"
  shows "\<exists>k'. switch_to (rt_current_thread k) k = Some k' \<and> sched_inv k' \<and> sched_frame k k'
     \<and> top_running k' \<and> rt_current_thread k' = rt_current_thread k \<and> tlists k' = tlists k
     \<and> stat_moves k k'"
proof -
  let ?c = "rt_current_thread k"
  have "prio_ok (threads k ?c)" using core_invD(9) [OF sched_inv_core [OF inv]] run by blast
  then obtain k' where k': "switch_to ?c k = Some k'" "core_inv {} k'" "sched_frame k k'"
    "rt_current_thread k' = ?c" "tlists k' = fam_remove ?c (tlists k)"
    "tstat k' ?c = RT_THREAD_RUNNING" "\<forall>u. u \<noteq> ?c \<longrightarrow> tstat k' u = tstat k u"
    using switch_to_ok [OF sched_inv_core [OF inv] cur] by blast
  have "seq_detached ?c (tlists k)"
    using not_listed [OF sched_inv_core [OF inv]] run by simp
  then have l: "tlists k' = tlists k"
    using k'(5) by (simp add: fam_remove_detached)
  have "sched_inv k'" using inv k' l by (auto simp: sched_inv_def on_ready_def)
  moreover have "top_running k'"
    using k' l low ready_in_frame [OF k'(2,3)] by (auto simp: top_running_def frame_tprio)
  moreover have "stat_moves k k'" by (rule stat_moves_one [of _ ?c]) (use k'(6,7) run in auto)
  ultimately show ?thesis using k' l by blast
qed

lemma schedule_switch:
  assumes inv: "core_inv {} k" and cur: "rt_current_thread k = t"
    and run: "\<And>u. tstat k u \<noteq> RT_THREAD_RUNNING"
    and t: "tlists k (Ready p) = t # r"
    and low: "\<And>q u. u \<in> set (tlists k (Ready q)) \<Longrightarrow> p \<le> q"
  shows "\<exists>k'. switch_to t k = Some k' \<and> sched_inv k' \<and> sched_frame k k' \<and> top_running k'
     \<and> rt_current_thread k' = t \<and> tlists k' = (tlists k)(Ready p := r) \<and> stat_moves k k'"
proof -
  have tp: "t \<in> set (tlists k (Ready p))" using t by simp
  have "t \<noteq> RT_NULL" using core_invD(10) [OF inv] tp by metis
  moreover have "prio_ok (threads k t)" using core_invD(3,9) [OF inv] tp by blast
  ultimately obtain k' where k': "switch_to t k = Some k'" "core_inv {} k'" "sched_frame k k'"
    "rt_current_thread k' = t" "tlists k' = fam_remove t (tlists k)"
    "tstat k' t = RT_THREAD_RUNNING" "\<forall>u. u \<noteq> t \<longrightarrow> tstat k' u = tstat k u"
    using switch_to_ok [OF inv] cur by metis
  have l: "tlists k' = (tlists k)(Ready p := r)"
  proof
    fix h
    have "t \<notin> set r" using list_family_distinct [OF core_invD(1) [OF inv], of "Ready p"] t by simp
    moreover have "t \<notin> set (tlists k h)" if "h \<noteq> Ready p"
      using list_family_unique [OF core_invD(1) [OF inv] tp] that by blast
    ultimately show "tlists k' h = ((tlists k)(Ready p := r)) h"
      using t by (simp add: k'(5) fam_remove_def)
  qed
  have out: "\<not> on_ready k' t"
    using remove_detaches [of t "tlists k"] detached_not_on [of t k'] k'(5)
    by (simp add: on_ready_def)
  have one: "u = t" if "tstat k' u = RT_THREAD_RUNNING" for u
    using k'(7) run [of u] that by auto
  have "sched_inv k'" using k'(2,4) one out by (auto simp: sched_inv_def)
  moreover have "top_running k'"
    unfolding top_running_def
  proof (intro conjI allI impI)
    fix u assume u: "tstat k' u = RT_THREAD_READY"
    have "u \<in> set (tlists k (Ready (tprio k u)))"
      using ready_in_frame [OF k'(2,3) u] by (simp add: k'(5) fam_remove_def)
    with low have "p \<le> tprio k u" by blast
    then show "tprio k' (rt_current_thread k') \<le> tprio k' u"
      using core_invD(2) [OF inv tp] k'(3,4) by (simp add: frame_tprio)
  qed (simp add: k')
  moreover have "stat_moves k k'"
    by (rule stat_moves_one [of _ t]) (use k'(6,7) core_invD(3) [OF inv tp] in auto)
  ultimately show ?thesis using k' l by blast
qed

lemma schedule_preempt:
  assumes inv: "sched_inv k" and cur: "rt_current_thread k \<noteq> RT_NULL"
    and run: "tstat k (rt_current_thread k) = RT_THREAD_RUNNING"
    and t: "tlists k (Ready p) = t # r" "t \<noteq> rt_current_thread k"
    and low: "\<And>q u. u \<in> set (tlists k (Ready q)) \<Longrightarrow> p \<le> q"
    and le: "p \<le> tprio k (rt_current_thread k)"
    and k1: "k1 = k\<lparr>rt_current_priority := of_nat p, rt_current_thread := t\<rparr>"
  shows "\<exists>k'. rt_schedule_insert_thread (rt_current_thread k) k1 \<bind> (\<lambda>k. switch_to t k) = Some k'
     \<and> sched_inv k' \<and> sched_frame k k' \<and> top_running k' \<and> rt_current_thread k' = t \<and> stat_moves k k'
     \<and> tlists k' = (seq_insert_before (Ready (tprio k (rt_current_thread k))) (rt_current_thread k)
         (tlists k)) (Ready p := (if tprio k (rt_current_thread k) = p
            then r @ [rt_current_thread k] else r))"
proof -
  let ?c = "rt_current_thread k"
  have c1: "core_inv {} k1"
    using sched_inv_core [OF inv] by (subst core_inv_cong [where k = k]) (simp_all add: k1)
  have det: "seq_detached ?c (tlists k1)"
    using not_listed [OF sched_inv_core [OF inv]] run by (simp add: k1)
  have pok: "prio_ok (threads k1 ?c)"
    using core_invD(9) [OF sched_inv_core [OF inv]] run by (simp add: k1)
  have st: "tstat k1 u = tstat k u" for u by (simp add: k1 tstat_def)
  from core_insert_thread [OF c1 det cur _ pok] t(2)
  obtain k2 where k2: "rt_schedule_insert_thread ?c k1 = Some k2" "core_inv {} k2" "sched_frame k1 k2"
    "tlists k2 = seq_insert_before (Ready (tprio k ?c)) ?c (tlists k)"
    "tstat k2 ?c = RT_THREAD_READY" "\<forall>u. u \<noteq> ?c \<longrightarrow> tstat k2 u = tstat k u"
    "rt_current_thread k2 = t"
    by (auto simp: k1 tstat_def)
  have norun: "tstat k2 u \<noteq> RT_THREAD_RUNNING" for u
    using inv k2(5,6) by (cases "u = ?c") (auto simp: sched_inv_def)
  have t2: "tlists k2 (Ready p) = t # (if tprio k ?c = p then r @ [?c] else r)"
    using t(1) by (auto simp: k2(4) seq_insert_before_def)
  have low2: "p \<le> q" if "u \<in> set (tlists k2 (Ready q))" for q u
    using that low le by (auto simp: k2(4) seq_insert_before_def split: if_splits)
  obtain k' where k': "switch_to t k2 = Some k'" "sched_inv k'" "sched_frame k2 k'" "top_running k'"
    "rt_current_thread k' = t" "stat_moves k2 k'"
    "tlists k' = (tlists k2)(Ready p := (if tprio k ?c = p then r @ [?c] else r))"
    using schedule_switch [OF k2(2,7) norun t2] low2 by blast
  have "stat_moves k k2" by (rule stat_moves_one [of _ ?c]) (use k2(5,6) run in auto)
  then have "stat_moves k k'" using k'(6) by (rule stat_moves_trans)
  moreover
  have "sched_frame k k'"
    using sched_frame_trans [OF k2(3) k'(3)] unfolding k1 by (rule sched_frame_current)
  ultimately show ?thesis using k' k2 by simp
qed

lemma rt_schedule_ok:
  assumes inv: "sched_inv k" and cur: "rt_current_thread k \<noteq> RT_NULL"
  shows "\<exists>k'. rt_schedule k = Some k' \<and> sched_inv k' \<and> sched_frame k k'
     \<and> (scheduler_lock_nest k = 0 \<and>
          (tstat k (rt_current_thread k) = RT_THREAD_RUNNING \<or> (\<exists>t. on_ready k t)) \<longrightarrow> top_running k')
     \<and> rt_current_thread k' \<noteq> RT_NULL
     \<and> (\<forall>x. tlists k' (Waiters x) = tlists k (Waiters x) \<and> tlists k' (Senders x) = tlists k (Senders x))
     \<and> tlists k' Defunct = tlists k Defunct \<and> stat_moves k k'"
proof (cases "scheduler_lock_nest k = 0 \<and> ready_priority_group k \<noteq> 0")
  case False
  have c: "core_inv {} k" using inv by (rule sched_inv_core)
  have "top_running k" if "scheduler_lock_nest k = 0"
    "tstat k (rt_current_thread k) = RT_THREAD_RUNNING \<or> (\<exists>t. on_ready k t)"
    using False that group_zero [OF c] core_invD(4) [OF c] by (auto simp: top_running_def)
  with False inv cur show ?thesis by (auto simp: rt_schedule_def)
next
  case True
  then have on: "scheduler_lock_nest k = 0" "ready_priority_group k \<noteq> 0" by auto
  let ?c = "rt_current_thread k"
  have c: "core_inv {} k" using inv by (rule sched_inv_core)
  obtain t p r where t: "get_highest_priority_thread k = Some (t, p)" "tlists k (Ready p) = t # r"
    and low: "\<And>q u. u \<in> set (tlists k (Ready q)) \<Longrightarrow> p \<le> q"
    using get_highest_ok [OF c on(2)] by blast
  have "on_ready k t" unfolding on_ready_def using t(2) by (metis list.set_intros(1))
  then have ne: "t \<noteq> ?c" using inv by (auto simp: sched_inv_def)
  have t0: "t \<noteq> RT_NULL" using core_invD(10) [OF c, of "Ready p"] t(2) by auto
  let ?k1 = "k\<lparr>rt_current_priority := of_nat p, rt_current_thread := t\<rparr>"
  note cases = rt_schedule_cases [OF inv cur on t(1)]
  consider (idle) "tstat k ?c \<noteq> RT_THREAD_RUNNING"
    | (stay) "tstat k ?c = RT_THREAD_RUNNING" "tprio k ?c < p"
    | (preempt) "tstat k ?c = RT_THREAD_RUNNING" "p \<le> tprio k ?c" by linarith
  then show ?thesis
  proof cases
    case idle
    have "core_inv {} ?k1" using c by (subst core_inv_cong [where k = k]) simp_all
    moreover have "tstat ?k1 u \<noteq> RT_THREAD_RUNNING" for u
      using inv idle by (auto simp: sched_inv_def tstat_def)
    ultimately obtain k' where "switch_to t ?k1 = Some k'" "sched_inv k'" "sched_frame ?k1 k'"
      "top_running k'" "stat_moves k k'" "rt_current_thread k' = t" "tlists k' = (tlists k)(Ready p := r)"
      using schedule_switch [of ?k1 t p r] t(2) low by (auto simp: stat_moves_def tstat_def)
    with idle cases t0 show ?thesis by (auto dest: sched_frame_current)
  next
    case stay
    then obtain k' where "switch_to ?c k = Some k'" "sched_inv k'" "sched_frame k k'"
      "top_running k'" "rt_current_thread k' = ?c" "tlists k' = tlists k" "stat_moves k k'"
      using schedule_stay [OF inv cur] low by (meson less_imp_le less_le_trans)
    with stay cases cur show ?thesis by auto
  next
    case preempt
    then obtain k' where k': "rt_schedule_insert_thread ?c ?k1 \<bind> (\<lambda>k. switch_to t k) = Some k'"
      "sched_inv k'" "sched_frame k k'" "top_running k'" "rt_current_thread k' = t" "stat_moves k k'"
      "tlists k' = (seq_insert_before (Ready (tprio k ?c)) ?c (tlists k))
         (Ready p := (if tprio k ?c = p then r @ [?c] else r))"
      using schedule_preempt [OF inv cur preempt(1) t(2) ne _ preempt(2) refl] low by blast
    then have "rt_schedule k = Some k'" using cases preempt by simp
    with k' t0 show ?thesis by (simp add: seq_insert_before_def)
  qed
qed

subsection \<open>Fields the invariant does not read\<close>

lemma sched_inv_cong:
  "threads k' = threads k \<Longrightarrow> tlists k' = tlists k \<Longrightarrow>
     ready_priority_group k' = ready_priority_group k \<Longrightarrow>
     rt_current_thread k' = rt_current_thread k \<Longrightarrow> sched_inv k' \<longleftrightarrow> sched_inv k"
  using core_inv_cong [of k' k "{}"] by (simp add: sched_inv_def tstat_def on_ready_def)

lemma sched_inv_upd [simp]:
  "sched_inv (k\<lparr>objs := a1\<rparr>) = sched_inv k"
  "sched_inv (k\<lparr>object_list := a2\<rparr>) = sched_inv k"
  "sched_inv (k\<lparr>scheduler_lock_nest := a3\<rparr>) = sched_inv k"
  "sched_inv (k\<lparr>rt_current_priority := a4\<rparr>) = sched_inv k"
  "sched_inv (k\<lparr>interrupt_nest := a5\<rparr>) = sched_inv k"
  "sched_inv (k\<lparr>timers := a6\<rparr>) = sched_inv k"
  "sched_inv (k\<lparr>timer_list := a7\<rparr>) = sched_inv k"
  "sched_inv (k\<lparr>rt_tick := a8\<rparr>) = sched_inv k"
  "sched_inv (k\<lparr>rt_errno := a9\<rparr>) = sched_inv k"
  "sched_inv (k\<lparr>sems := b1\<rparr>) = sched_inv k"
  "sched_inv (k\<lparr>mutexes := b2\<rparr>) = sched_inv k"
  "sched_inv (k\<lparr>events := b3\<rparr>) = sched_inv k"
  "sched_inv (k\<lparr>mailboxes := b4\<rparr>) = sched_inv k"
  "sched_inv (k\<lparr>mqs := b5\<rparr>) = sched_inv k"
  "sched_inv (k\<lparr>mempools := b6\<rparr>) = sched_inv k"
  "sched_inv (k\<lparr>pmem := b7\<rparr>) = sched_inv k"
  "sched_inv (k\<lparr>bmem := b8\<rparr>) = sched_inv k"
  by (rule sched_inv_cong; simp)+

text \<open>Nor does it read a thread's error code, events or time slice.\<close>

lemma sched_inv_thread:
  assumes "sched_inv k" "stat th = stat (threads k t)"
    "current_priority th = current_priority (threads k t)"
    "number_mask th = number_mask (threads k t)"
  shows "sched_inv (k\<lparr>threads := (threads k)(t := th)\<rparr>)"
proof -
  let ?k = "k\<lparr>threads := (threads k)(t := th)\<rparr>"
  have "tstat ?k u = tstat k u" "tprio ?k u = tprio k u"
    "prio_ok (threads ?k u) = prio_ok (threads k u)" for u
    using assms(2-4) by (auto simp: tstat_def prio_ok_def)
  moreover have "on_ready ?k u = on_ready k u" for u by (simp add: on_ready_def)
  ultimately show ?thesis using assms(1) unfolding sched_inv_def core_inv_def by simp
qed

end
