(* ===== verification/RT_Object.thy ===== *)
theory RT_Object
  imports RT_Scheduler
begin

text \<open>
  The kernel object system of \<^verbatim>\<open>src/object.c\<close>: typed, named objects on one list per class.
  Allocation and release of object memory go through \<^verbatim>\<open>rt_malloc\<close> and \<^verbatim>\<open>rt_free\<close>, which are
  arguments here (a heap keeps its own state inside the kernel state it is given); the size of
  each structure is laid out by the compiler and an argument too.

  \<^verbatim>\<open>rt_exit_critical\<close> may let another thread run before it returns; the statements after it are
  applied to the state it leaves.
\<close>

subsection \<open>Operations\<close>

definition rt_object_container :: "u8 list" where
  "rt_object_container =
     [RT_Object_Class_Thread, RT_Object_Class_Semaphore, RT_Object_Class_Mutex,
      RT_Object_Class_Event, RT_Object_Class_MailBox, RT_Object_Class_MessageQueue,
      RT_Object_Class_MemHeap, RT_Object_Class_MemPool, RT_Object_Class_Device,
      RT_Object_Class_Timer]"

text \<open>The container entry of a class, or \<open>None\<close> for \<^verbatim>\<open>RT_NULL\<close>; an entry is named by its class.\<close>

definition rt_object_get_information :: "u8 \<Rightarrow> u8 option" where
  "rt_object_get_information type = find (\<lambda>c. c = type) rt_object_container"

definition rt_object_init :: "ptr \<Rightarrow> u8 \<Rightarrow> string \<Rightarrow> kernel \<Rightarrow> kernel option" where
  "rt_object_init object type nm k = do {
     information \<leftarrow> rt_object_get_information type;
     let k = rt_enter_critical k;
     RT_ASSERT (\<forall>obj \<in> set (object_list k information). obj \<noteq> object);
     k \<leftarrow> rt_exit_critical k;
     let k = upd_obj object (\<lambda>ob. ob\<lparr>otype := type OR RT_Object_Class_Static\<rparr>) k;
     let k = upd_obj object (\<lambda>ob. ob\<lparr>name := rt_strncpy nm RT_NAME_MAX\<rparr>) k;
     Some (k\<lparr>object_list := seq_insert_after information object (object_list k)\<rparr>)
   }"

definition rt_object_detach :: "ptr \<Rightarrow> kernel \<Rightarrow> kernel option" where
  "rt_object_detach object k = do {
     RT_ASSERT (object \<noteq> RT_NULL);
     let k = upd_obj object (\<lambda>ob. ob\<lparr>otype := 0\<rparr>) k;
     Some (k\<lparr>object_list := fam_remove object (object_list k)\<rparr>)
   }"

text \<open>
  The cleared structure of a class. \<open>thread_timer\<close> is the address of a part of the structure,
  not a field in memory: it stays.
\<close>

definition zero_structure :: "u8 \<Rightarrow> ptr \<Rightarrow> kernel \<Rightarrow> kernel" where
  "zero_structure type a k =
     (let k = upd_obj a (\<lambda>_. \<lparr>name = replicate RT_NAME_MAX NUL, otype = 0, flag = 0\<rparr>) k in
      if type = RT_Object_Class_Thread then
        upd_thread a (\<lambda>th. \<lparr>entry = 0, parameter = 0, sp = 0, stack_addr = 0, stack_size = 0,
          error = 0, stat = 0, current_priority = 0, init_priority = 0, number_mask = 0,
          event_set = 0, event_info = 0, init_tick = 0, remaining_tick = 0,
          thread_timer = thread_timer th, cleanup = 0, user_data = 0\<rparr>) k
      else if type = RT_Object_Class_Semaphore then upd_sem a (\<lambda>_. \<lparr>sem_value = 0\<rparr>) k
      else if type = RT_Object_Class_Mutex then
        upd_mutex a (\<lambda>_. \<lparr>mutex_value = 0, original_priority = 0, hold = 0, owner = 0\<rparr>) k
      else if type = RT_Object_Class_Event then upd_event a (\<lambda>_. \<lparr>event_bits = 0\<rparr>) k
      else if type = RT_Object_Class_MailBox then
        upd_mb a (\<lambda>_. \<lparr>mb_pool = RT_NULL, mb_size = 0, mb_entry = 0, in_offset = 0, out_offset = 0\<rparr>) k
      else if type = RT_Object_Class_MessageQueue then
        upd_mq a (\<lambda>_. \<lparr>mq_pool = 0, msg_size = 0, max_msgs = 0, mq_entry = 0, msg_queue_head = 0,
          msg_queue_tail = 0, msg_queue_free = 0\<rparr>) k
      else if type = RT_Object_Class_MemPool then
        upd_mp a (\<lambda>_. \<lparr>start_address = 0, mp_size = 0, block_size = 0, block_list = 0,
          block_total_count = 0, block_free_count = 0, suspend_thread_count = 0\<rparr>) k
      else if type = RT_Object_Class_Timer then
        upd_timer a (\<lambda>_. \<lparr>tm_func = App_timeout RT_NULL, tm_parameter = 0, tm_init_tick = 0,
          timeout_tick = 0\<rparr>) k
      else k)"

definition rt_object_allocate ::
  "(u32 \<Rightarrow> kernel \<Rightarrow> ptr \<times> kernel) \<Rightarrow> (u8 \<Rightarrow> u32) \<Rightarrow> u8 \<Rightarrow> string \<Rightarrow> kernel \<Rightarrow> (ptr \<times> kernel) option" where
  "rt_object_allocate malloc size_of type nm k = do {
     RT_DEBUG_NOT_IN_INTERRUPT k;
     information \<leftarrow> rt_object_get_information type;
     let (object, k) = malloc (size_of information) k;
     if object = RT_NULL then Some (RT_NULL, k)
     else do {
       let k = zero_structure type object k;
       let k = upd_obj object (\<lambda>ob. ob\<lparr>otype := type\<rparr>) k;
       let k = upd_obj object (\<lambda>ob. ob\<lparr>flag := 0\<rparr>) k;
       let k = upd_obj object (\<lambda>ob. ob\<lparr>name := rt_strncpy nm RT_NAME_MAX\<rparr>) k;
       Some (object, k\<lparr>object_list := seq_insert_after information object (object_list k)\<rparr>)
     }
   }"

definition rt_object_delete :: "(ptr \<Rightarrow> kernel \<Rightarrow> kernel) \<Rightarrow> ptr \<Rightarrow> kernel \<Rightarrow> kernel option" where
  "rt_object_delete free object k = do {
     RT_ASSERT (object \<noteq> RT_NULL);
     RT_ASSERT (otype (objs k object) AND RT_Object_Class_Static = 0);
     let k = upd_obj object (\<lambda>ob. ob\<lparr>otype := 0\<rparr>) k;
     let k = k\<lparr>object_list := fam_remove object (object_list k)\<rparr>;
     Some (free object k)
   }"

definition rt_object_is_systemobject :: "ptr \<Rightarrow> kernel \<Rightarrow> bool option" where
  "rt_object_is_systemobject object k = do {
     RT_ASSERT (object \<noteq> RT_NULL);
     if otype (objs k object) AND RT_Object_Class_Static \<noteq> 0 then Some True else Some False
   }"

definition rt_object_get_type :: "ptr \<Rightarrow> kernel \<Rightarrow> u8 option" where
  "rt_object_get_type object k = do {
     RT_ASSERT (object \<noteq> RT_NULL);
     Some (otype (objs k object) AND NOT RT_Object_Class_Static)
   }"

text \<open>The assertions on an object's class and kind that open most operations.\<close>

definition ASSERT_TYPE :: "ptr \<Rightarrow> u8 \<Rightarrow> kernel \<Rightarrow> unit option" where
  "ASSERT_TYPE object type k = do {
     t \<leftarrow> rt_object_get_type object k;
     RT_ASSERT (t = type)
   }"

definition ASSERT_SYSTEM :: "ptr \<Rightarrow> bool \<Rightarrow> kernel \<Rightarrow> unit option" where
  "ASSERT_SYSTEM object b k = do {
     s \<leftarrow> rt_object_is_systemobject object k;
     RT_ASSERT (s = b)
   }"

definition rt_object_find :: "string option \<Rightarrow> u8 \<Rightarrow> kernel \<Rightarrow> (ptr \<times> kernel) option" where
  "rt_object_find nm type k =
     (case nm of
        None \<Rightarrow> Some (RT_NULL, k)
      | Some nm \<Rightarrow>
        if type > RT_Object_Class_Unknown then Some (RT_NULL, k)
        else do {
          RT_DEBUG_NOT_IN_INTERRUPT k;
          let k = rt_enter_critical k;
          information \<leftarrow> rt_object_get_information type;
          let object = (case find (\<lambda>ob. rt_strncmp (name (objs k ob)) nm RT_NAME_MAX = 0)
             (object_list k information) of None \<Rightarrow> RT_NULL | Some ob \<Rightarrow> ob);
          k \<leftarrow> rt_exit_critical k;
          Some (object, k)
        })"

subsection \<open>Classes of objects\<close>

definition is_class :: "kernel \<Rightarrow> ptr \<Rightarrow> u8 \<Rightarrow> bool" where
  "is_class k a type \<longleftrightarrow> a \<noteq> RT_NULL \<and> otype (objs k a) AND NOT RT_Object_Class_Static = type"

lemma ASSERT_TYPE_Some [simp]: "ASSERT_TYPE a type k = Some u \<longleftrightarrow> is_class k a type"
  by (simp add: ASSERT_TYPE_def rt_object_get_type_def is_class_def)

lemma ASSERT_TYPE_bind [simp]:
  "ASSERT_TYPE a type k \<bind> f = (if is_class k a type then f () else None)"
  by (simp add: ASSERT_TYPE_def rt_object_get_type_def is_class_def)

lemma ASSERT_SYSTEM_bind [simp]:
  "ASSERT_SYSTEM a b k \<bind> f =
     (if a \<noteq> RT_NULL \<and> (otype (objs k a) AND RT_Object_Class_Static \<noteq> 0) = b then f () else None)"
  by (simp add: ASSERT_SYSTEM_def rt_object_is_systemobject_def)

lemma is_class_cong: "objs k' = objs k \<Longrightarrow> is_class k' a type = is_class k a type"
  by (simp add: is_class_def)

lemma static_type:
  "(type OR 0x80) AND NOT 0x80 = type AND NOT (0x80 :: u8)" "(type OR 0x80) AND 0x80 = (0x80 :: u8)"
  by (rule bit_word_eqI, auto simp: bit_simps)+

subsection \<open>The scheduler invariant\<close>

lemma exit_critical_ok:
  assumes "sched_inv k"
  shows "\<exists>k'. rt_exit_critical k = Some k' \<and> sched_inv k'
     \<and> sched_frame (k\<lparr>scheduler_lock_nest := scheduler_lock_nest k'\<rparr>) k'
     \<and> (\<forall>x. tlists k' (Waiters x) = tlists k (Waiters x) \<and> tlists k' (Senders x) = tlists k (Senders x))
     \<and> tlists k' Defunct = tlists k Defunct"
proof -
  let ?a = "k\<lparr>scheduler_lock_nest := scheduler_lock_nest k - 1\<rparr>"
  let ?z = "k\<lparr>scheduler_lock_nest := 0\<rparr>"
  have z: "sched_inv ?z" "sched_inv ?a" using assms by simp_all
  show ?thesis
  proof (cases "sint (scheduler_lock_nest k - 1) \<le> 0 \<and> rt_current_thread k \<noteq> RT_NULL")
    case True
    then obtain k' where "rt_schedule ?z = Some k'" "sched_inv k'" "sched_frame ?z k'"
      "\<forall>x. tlists k' (Waiters x) = tlists ?z (Waiters x) \<and> tlists k' (Senders x) = tlists ?z (Senders x)"
      "tlists k' Defunct = tlists ?z Defunct"
      using rt_schedule_ok [OF z(1)] by auto
    moreover from this have "scheduler_lock_nest k' = 0"
      using sched_frame_fields(3) by fastforce
    ultimately show ?thesis using True by (simp add: rt_exit_critical_def)
  next
    case False
    with z show ?thesis by (auto simp: rt_exit_critical_def Let_def)
  qed
qed

subsection \<open>Registering, finding and removing objects\<close>

definition obj_inv :: "kernel \<Rightarrow> bool" where
  "obj_inv k \<longleftrightarrow> list_family (object_list k) \<and> RT_NULL \<notin> fam_nodes (object_list k)"

text \<open>
  What \<open>rt_object_init\<close> leaves, up to the scheduling that \<open>rt_exit_critical\<close> may have done.
\<close>

lemma rt_object_init_ok:
  assumes "sched_inv k" "type \<in> set rt_object_container" "object \<notin> set (object_list k type)"
  shows "\<exists>k0 k'. rt_object_init object type nm k = Some k' \<and> sched_inv k'
     \<and> (\<forall>x. tlists k' (Waiters x) = tlists k (Waiters x) \<and> tlists k' (Senders x) = tlists k (Senders x))
     \<and> sched_frame (k\<lparr>scheduler_lock_nest := scheduler_lock_nest k0\<rparr>) k0
     \<and> k' = k0\<lparr>objs := (objs k)(object := (objs k object)
                \<lparr>otype := type OR RT_Object_Class_Static, name := rt_strncpy nm RT_NAME_MAX\<rparr>),
              object_list := seq_insert_after type object (object_list k)\<rparr>"
proof -
  have info: "rt_object_get_information type = Some type"
    using assms(2) by (auto simp: rt_object_get_information_def find_Some_iff in_set_conv_nth
        find_None_iff rt_object_container_def split: option.splits)
  obtain k0 where k0: "rt_exit_critical (rt_enter_critical k) = Some k0" "sched_inv k0"
    "sched_frame ((rt_enter_critical k)\<lparr>scheduler_lock_nest := scheduler_lock_nest k0\<rparr>) k0"
    "\<forall>x. tlists k0 (Waiters x) = tlists k (Waiters x) \<and> tlists k0 (Senders x) = tlists k (Senders x)"
    using exit_critical_ok [of "rt_enter_critical k"] assms(1) by (auto simp: rt_enter_critical_def)
  have f: "objs k0 = objs k" "object_list k0 = object_list k"
    using sched_frame_fields(1,2) [OF k0(3)] by (simp_all add: rt_enter_critical_def)
  have "rt_object_init object type nm k = Some (k0\<lparr>objs := (objs k)(object :=
      (objs k object)\<lparr>otype := type OR RT_Object_Class_Static, name := rt_strncpy nm RT_NAME_MAX\<rparr>),
      object_list := seq_insert_after type object (object_list k)\<rparr>)"
    using assms(3) info k0(1) f by (auto simp: rt_object_init_def upd_obj_def rt_enter_critical_def)
  with k0 f show ?thesis by (auto simp: rt_enter_critical_def)
qed

lemma rt_object_find_eq:
  assumes "sched_inv k" "type \<in> set rt_object_container" "interrupt_nest k = 0"
  shows "\<exists>k'. rt_object_find (Some nm) type k =
       Some (case find (\<lambda>ob. rt_strncmp (name (objs k ob)) nm RT_NAME_MAX = 0) (object_list k type)
         of None \<Rightarrow> RT_NULL | Some ob \<Rightarrow> ob, k')
     \<and> sched_inv k' \<and> objs k' = objs k \<and> object_list k' = object_list k"
proof -
  have info: "rt_object_get_information type = Some type" "\<not> type > RT_Object_Class_Unknown"
    using assms(2) by (auto simp: rt_object_get_information_def rt_object_container_def)
  obtain k0 where k0: "rt_exit_critical (rt_enter_critical k) = Some k0" "sched_inv k0"
    "sched_frame ((rt_enter_critical k)\<lparr>scheduler_lock_nest := scheduler_lock_nest k0\<rparr>) k0"
    using exit_critical_ok [of "rt_enter_critical k"] assms(1) by (auto simp: rt_enter_critical_def)
  then show ?thesis
    using info assms(3) sched_frame_fields(1,2) [OF k0(3)]
    by (auto simp: rt_object_find_def RT_DEBUG_NOT_IN_INTERRUPT_def Let_def rt_enter_critical_def)
qed

text \<open>A removed object is not found again.\<close>

lemma detach_not_listed:
  "rt_object_detach object k = Some k' \<Longrightarrow> object \<notin> set (object_list k' type)
     \<and> otype (objs k' object) = 0"
  by (auto simp: rt_object_detach_def upd_obj_def fam_remove_def)

lemma rt_object_detach_inv:
  "sched_inv k \<Longrightarrow> obj_inv k \<Longrightarrow> rt_object_detach object k = Some k' \<Longrightarrow> sched_inv k' \<and> obj_inv k'"
  by (auto simp: rt_object_detach_def upd_obj_def obj_inv_def list_family_remove fam_nodes_remove)

lemma obj_inv_init:
  "obj_inv k \<Longrightarrow> object \<noteq> RT_NULL \<Longrightarrow> object \<notin> fam_nodes (object_list k) \<Longrightarrow>
     obj_inv (k\<lparr>object_list := seq_insert_after type object (object_list k)\<rparr>)"
  using seqs.rep_insert_after [of "object_list k" "object_list k" object type]
  by (auto simp: obj_inv_def seq_detached_def seq_insert_after_def in_fam_nodes)

text \<open>Every list of the container holds objects of its class only.\<close>

definition obj_typed :: "kernel \<Rightarrow> bool" where
  "obj_typed k \<longleftrightarrow> (\<forall>c. \<forall>ob \<in> set (object_list k c). is_class k ob c)"

lemma container_class: "type \<in> set rt_object_container \<Longrightarrow> type AND NOT 0x80 = type"
  by (auto simp: rt_object_container_def)

lemma obj_typed_init:
  assumes "obj_typed k" "type \<in> set rt_object_container" "object \<noteq> RT_NULL" "object \<notin> fam_nodes (object_list k)"
  shows "obj_typed (k\<lparr>objs := (objs k)(object := (objs k object)\<lparr>otype := type OR RT_Object_Class_Static, name := nm\<rparr>),
     object_list := seq_insert_after type object (object_list k)\<rparr>)"
  using assms container_class [OF assms(2)] static_type(1) [of type]
  by (auto simp: obj_typed_def is_class_def seq_insert_after_def in_fam_nodes)

lemma obj_typed_detach: "obj_typed k \<Longrightarrow> rt_object_detach object k = Some k' \<Longrightarrow> obj_typed k'"
  by (auto simp: rt_object_detach_def upd_obj_def obj_typed_def is_class_def fam_remove_def)

end
