(* ===== verification/RT_Timer.thy ===== *)
theory RT_Timer
  imports RT_Object
begin

text \<open>
  Hard timers of \<^verbatim>\<open>src/timer.c\<close> with the default of one skip-list level: the active timers are
  one list in the order of their timeout ticks. Ticks are 32-bit and wrap around, the code
  compares them by the sign of their difference; the invariant \<open>timer_inv\<close> says in which window
  of ticks that comparison orders the list.
\<close>

subsection \<open>Operations\<close>

definition timer_remove :: "ptr \<Rightarrow> kernel \<Rightarrow> kernel" where
  "timer_remove timer k = k\<lparr>timer_list := removeAll timer (timer_list k)\<rparr>"

text \<open>
  Clearing the list node of a timer that is still on the list would leave its neighbours with
  dangling links: undefined, hence the guard.
\<close>

definition timer_init_fields :: "ptr \<Rightarrow> timeout_func \<Rightarrow> ptr \<Rightarrow> u32 \<Rightarrow> u8 \<Rightarrow> kernel \<Rightarrow> kernel option" where
  "timer_init_fields timer timeout param time fl k = do {
     let k = upd_obj timer (\<lambda>ob. ob\<lparr>flag := fl\<rparr>) k;
     let k = upd_obj timer (\<lambda>ob. ob\<lparr>flag := flag ob AND NOT RT_TIMER_FLAG_ACTIVATED\<rparr>) k;
     let k = upd_timer timer (\<lambda>t. t\<lparr>tm_func := timeout, tm_parameter := param\<rparr>) k;
     let k = upd_timer timer (\<lambda>t. t\<lparr>timeout_tick := 0, tm_init_tick := time\<rparr>) k;
     C_GUARD (timer \<notin> set (timer_list k));
     Some k
   }"

definition rt_timer_list_next_timeout :: "kernel \<Rightarrow> u32" where
  "rt_timer_list_next_timeout k =
     (case timer_list k of [] \<Rightarrow> RT_TICK_MAX | t # _ \<Rightarrow> timeout_tick (timers k t))"

definition rt_timer_next_timeout_tick :: "kernel \<Rightarrow> u32" where
  "rt_timer_next_timeout_tick k = rt_timer_list_next_timeout k"

definition rt_system_timer_init :: "kernel \<Rightarrow> kernel" where
  "rt_system_timer_init k = k\<lparr>timer_list := []\<rparr>"

definition rt_timer_init ::
  "ptr \<Rightarrow> string \<Rightarrow> timeout_func \<Rightarrow> ptr \<Rightarrow> u32 \<Rightarrow> u8 \<Rightarrow> kernel \<Rightarrow> kernel option" where
  "rt_timer_init timer nm timeout param time fl k = do {
     RT_ASSERT (timer \<noteq> RT_NULL);
     k \<leftarrow> rt_object_init timer RT_Object_Class_Timer nm k;
     timer_init_fields timer timeout param time fl k
   }"

definition rt_timer_detach :: "ptr \<Rightarrow> kernel \<Rightarrow> (err \<times> kernel) option" where
  "rt_timer_detach timer k = do {
     RT_ASSERT (timer \<noteq> RT_NULL);
     ASSERT_TYPE timer RT_Object_Class_Timer k;
     ASSERT_SYSTEM timer True k;
     let k = timer_remove timer k;
     k \<leftarrow> rt_object_detach timer k;
     Some (RT_EOK, k)
   }"

definition rt_timer_create ::
  "(u32 \<Rightarrow> kernel \<Rightarrow> ptr \<times> kernel) \<Rightarrow> (u8 \<Rightarrow> u32) \<Rightarrow> string \<Rightarrow> timeout_func \<Rightarrow> ptr \<Rightarrow> u32 \<Rightarrow> u8 \<Rightarrow>
     kernel \<Rightarrow> (ptr \<times> kernel) option" where
  "rt_timer_create malloc size_of nm timeout param time fl k = do {
     (timer, k) \<leftarrow> rt_object_allocate malloc size_of RT_Object_Class_Timer nm k;
     if timer = RT_NULL then Some (RT_NULL, k)
     else do {
       k \<leftarrow> timer_init_fields timer timeout param time fl k;
       Some (timer, k)
     }
   }"

definition rt_timer_delete :: "(ptr \<Rightarrow> kernel \<Rightarrow> kernel) \<Rightarrow> ptr \<Rightarrow> kernel \<Rightarrow> (err \<times> kernel) option" where
  "rt_timer_delete free timer k = do {
     RT_ASSERT (timer \<noteq> RT_NULL);
     ASSERT_TYPE timer RT_Object_Class_Timer k;
     ASSERT_SYSTEM timer False k;
     let k = timer_remove timer k;
     k \<leftarrow> rt_object_delete free timer k;
     Some (RT_EOK, k)
   }"

text \<open>
  The search of \<^verbatim>\<open>rt_timer_start\<close>: past every timer that is due no later than the new one, up to
  the first with a positive distance below half the tick range.
\<close>

fun timer_insert :: "(ptr \<Rightarrow> u32) \<Rightarrow> ptr \<Rightarrow> ptr list \<Rightarrow> ptr list" where
  "timer_insert tick timer [] = [timer]"
| "timer_insert tick timer (t # ts) =
     (if tick t - tick timer = 0 then t # timer_insert tick timer ts
      else if tick t - tick timer < RT_TICK_MAX div 2 then timer # t # ts
      else t # timer_insert tick timer ts)"

definition rt_timer_start :: "ptr \<Rightarrow> kernel \<Rightarrow> (err \<times> kernel) option" where
  "rt_timer_start timer k = do {
     RT_ASSERT (timer \<noteq> RT_NULL);
     ASSERT_TYPE timer RT_Object_Class_Timer k;
     let k = timer_remove timer k;
     let k = upd_obj timer (\<lambda>ob. ob\<lparr>flag := flag ob AND NOT RT_TIMER_FLAG_ACTIVATED\<rparr>) k;
     RT_ASSERT (tm_init_tick (timers k timer) < RT_TICK_MAX div 2);
     let k = upd_timer timer (\<lambda>t. t\<lparr>timeout_tick := rt_tick k + tm_init_tick t\<rparr>) k;
     let k = k\<lparr>timer_list := timer_insert (timeout_tick \<circ> timers k) timer (timer_list k)\<rparr>;
     let k = upd_obj timer (\<lambda>ob. ob\<lparr>flag := flag ob OR RT_TIMER_FLAG_ACTIVATED\<rparr>) k;
     Some (RT_EOK, k)
   }"

definition rt_timer_stop :: "ptr \<Rightarrow> kernel \<Rightarrow> (err \<times> kernel) option" where
  "rt_timer_stop timer k = do {
     RT_ASSERT (timer \<noteq> RT_NULL);
     ASSERT_TYPE timer RT_Object_Class_Timer k;
     if flag (objs k timer) AND RT_TIMER_FLAG_ACTIVATED = 0 then Some (- RT_ERROR, k)
     else do {
       let k = timer_remove timer k;
       let k = upd_obj timer (\<lambda>ob. ob\<lparr>flag := flag ob AND NOT RT_TIMER_FLAG_ACTIVATED\<rparr>) k;
       Some (RT_EOK, k)
     }
   }"

datatype timer_cmd = Get_time | Set_time u32 | Set_oneshot | Set_periodic | Other_timer_cmd

text \<open>\<^verbatim>\<open>RT_TIMER_CTRL_GET_TIME\<close> writes through its argument: the second component of the result.\<close>

definition rt_timer_control :: "ptr \<Rightarrow> timer_cmd \<Rightarrow> kernel \<Rightarrow> (err \<times> u32 option \<times> kernel) option" where
  "rt_timer_control timer cmd k = do {
     RT_ASSERT (timer \<noteq> RT_NULL);
     ASSERT_TYPE timer RT_Object_Class_Timer k;
     (case cmd of
        Get_time \<Rightarrow> Some (RT_EOK, Some (tm_init_tick (timers k timer)), k)
      | Set_time arg \<Rightarrow> Some (RT_EOK, None, upd_timer timer (\<lambda>t. t\<lparr>tm_init_tick := arg\<rparr>) k)
      | Set_oneshot \<Rightarrow>
          Some (RT_EOK, None,
            upd_obj timer (\<lambda>ob. ob\<lparr>flag := flag ob AND NOT RT_TIMER_FLAG_PERIODIC\<rparr>) k)
      | Set_periodic \<Rightarrow>
          Some (RT_EOK, None, upd_obj timer (\<lambda>ob. ob\<lparr>flag := flag ob OR RT_TIMER_FLAG_PERIODIC\<rparr>) k)
      | Other_timer_cmd \<Rightarrow> Some (RT_EOK, None, k))
   }"

text \<open>
  The loop of \<^verbatim>\<open>rt_timer_check\<close>. A timeout function may start timers again, so the loop is not
  bounded by the list; it runs on fuel, and \<open>timer_check_ok\<close> gives the fuel that is
  enough. \<open>call f p\<close> is the call of timeout function \<open>f\<close> with parameter \<open>p\<close>.
\<close>

fun timer_check_loop ::
  "(timeout_func \<Rightarrow> ptr \<Rightarrow> kernel \<Rightarrow> kernel option) \<Rightarrow> nat \<Rightarrow> u32 \<Rightarrow> kernel \<Rightarrow> kernel option" where
  "timer_check_loop call 0 current_tick k = None"
| "timer_check_loop call (Suc fuel) current_tick k =
     (case timer_list k of
        [] \<Rightarrow> Some k
      | t # _ \<Rightarrow>
        if current_tick - timeout_tick (timers k t) < RT_TICK_MAX div 2 then do {
          let k = timer_remove t k;
          k \<leftarrow> call (tm_func (timers k t)) (tm_parameter (timers k t)) k;
          let current_tick = rt_tick k;
          if flag (objs k t) AND RT_TIMER_FLAG_PERIODIC \<noteq> 0
             \<and> flag (objs k t) AND RT_TIMER_FLAG_ACTIVATED \<noteq> 0 then do {
            let k = upd_obj t (\<lambda>ob. ob\<lparr>flag := flag ob AND NOT RT_TIMER_FLAG_ACTIVATED\<rparr>) k;
            (_, k) \<leftarrow> rt_timer_start t k;
            timer_check_loop call fuel current_tick k
          }
          else
            timer_check_loop call fuel current_tick
              (upd_obj t (\<lambda>ob. ob\<lparr>flag := flag ob AND NOT RT_TIMER_FLAG_ACTIVATED\<rparr>) k)
        }
        else Some k)"

definition rt_timer_check ::
  "(timeout_func \<Rightarrow> ptr \<Rightarrow> kernel \<Rightarrow> kernel option) \<Rightarrow> nat \<Rightarrow> kernel \<Rightarrow> kernel option" where
  "rt_timer_check call fuel k = timer_check_loop call fuel (rt_tick k) k"

subsection \<open>Order of the timer list\<close>

text \<open>
  \<open>due b k t\<close> is the distance from tick \<open>b\<close> to the timeout of \<open>t\<close>, modulo the wrap-around.
\<close>

definition due :: "u32 \<Rightarrow> kernel \<Rightarrow> ptr \<Rightarrow> nat" where
  "due b k t = unat (timeout_tick (timers k t) - b)"

text \<open>
  Seen from a tick \<open>b\<close> that is the present tick or the one before it (inside the tick
  interrupt, before the check has run): the list is ordered by distance, all timeouts lie less
  than half the tick range ahead, and the timers on the list are active timer objects.
\<close>

definition timer_inv :: "u32 \<Rightarrow> kernel \<Rightarrow> bool" where
  "timer_inv b k \<longleftrightarrow> unat (rt_tick k - b) \<le> 1 \<and> distinct (timer_list k)
     \<and> sorted_wrt (\<lambda>s t. due b k s \<le> due b k t) (timer_list k)
     \<and> (\<forall>t \<in> set (timer_list k). due b k t < 0x7fffffff + unat (rt_tick k - b)
          \<and> is_class k t RT_Object_Class_Timer
          \<and> flag (objs k t) AND RT_TIMER_FLAG_ACTIVATED \<noteq> 0)"

lemma unat_minus_cases:
  "unat (a - c :: u32) = (if unat c \<le> unat a then unat a - unat c else 2 ^ 32 + unat a - unat c)"
  using unat_sub_if' [of a c] by (auto simp: )

lemma tick_compare:
  fixes a c b :: u32
  assumes "unat (a - b) < 0x7fffffff + l" "l \<le> unat (c - b)" "unat (c - b) < 0x7fffffff + l" "l \<le> 1"
  shows "a - c = 0 \<or> \<not> a - c < 0x7fffffff \<longleftrightarrow> unat (a - b) \<le> unat (c - b)"
proof -
  have ac: "a - c = (a - b) - (c - b)" by simp
  have z: "a - c = 0 \<longleftrightarrow> unat (a - b) = unat (c - b)" by (simp add: word_unat_eq_iff [symmetric])
  have "a - c < 0x7fffffff \<longleftrightarrow> unat (a - c) < 0x7fffffff" by (simp add: word_less_nat_alt)
  also have "\<dots> \<longleftrightarrow> unat (c - b) \<le> unat (a - b)"
    unfolding ac unat_minus_cases [of "a - b" "c - b"] using assms by auto
  finally show ?thesis using z by linarith
qed

text \<open>The search puts a timer behind all timers due no later: stable insertion.\<close>

lemma timer_insert_eq:
  assumes "\<And>t. t \<in> set ts \<Longrightarrow> tick t - tick x = 0 \<or> \<not> tick t - tick x < RT_TICK_MAX div 2 \<longleftrightarrow> P t"
  shows "timer_insert tick x ts = takeWhile P ts @ x # dropWhile P ts"
  using assms by (induction ts) auto

lemma sorted_takeWhile_insert:
  assumes "sorted_wrt (\<lambda>s t. d s \<le> (d t :: nat)) ts"
  shows "sorted_wrt (\<lambda>s t. d s \<le> d t) (takeWhile (\<lambda>t. d t \<le> d x) ts @ x # dropWhile (\<lambda>t. d t \<le> d x) ts)"
  using assms
proof (induction ts)
  case (Cons t ts)
  show ?case
  proof (cases "d t \<le> d x")
    case True
    have "d t \<le> d s" if "s \<in> set (takeWhile (\<lambda>t. d t \<le> d x) ts) \<union> set (dropWhile (\<lambda>t. d t \<le> d x) ts)" for s
      using that Cons.prems by (auto dest: set_takeWhileD set_dropWhileD)
    with Cons True show ?thesis by auto
  qed (use Cons.prems in auto)
qed simp

lemma set_takeWhile_insert: "set (takeWhile P ts @ x # dropWhile P ts) = insert x (set ts)"
  using set_append [of "takeWhile P ts" "dropWhile P ts"] by auto

lemma distinct_takeWhile_insert:
  "distinct ts \<Longrightarrow> x \<notin> set ts \<Longrightarrow> distinct (takeWhile P ts @ x # dropWhile P ts)"
  using distinct_append [of "takeWhile P ts" "dropWhile P ts"]
  by (auto dest: set_takeWhileD set_dropWhileD)

subsection \<open>What starting and stopping do\<close>

lemma flag_bits [simp]:
  "(f OR 1) AND 1 = (1 :: u8)" "(f AND NOT 1) AND 1 = (0 :: u8)" "(f AND - 2) AND 1 = (0 :: u8)"
  "(f AND - 2) OR 1 = f OR (1 :: u8)"
  by (rule bit_word_eqI, auto simp: bit_simps)+

lemma timer_start_eq:
  assumes "is_class k x RT_Object_Class_Timer" "tm_init_tick (timers k x) < 0x7fffffff"
  shows "rt_timer_start x k = Some (RT_EOK, k\<lparr>
     objs := (objs k)(x := (objs k x)\<lparr>flag := flag (objs k x) OR RT_TIMER_FLAG_ACTIVATED\<rparr>),
     timers := (timers k)(x := (timers k x)\<lparr>timeout_tick := rt_tick k + tm_init_tick (timers k x)\<rparr>),
     timer_list := timer_insert (timeout_tick \<circ> (timers k)(x := (timers k x)
        \<lparr>timeout_tick := rt_tick k + tm_init_tick (timers k x)\<rparr>)) x (removeAll x (timer_list k))\<rparr>)"
  using assms by (auto simp: rt_timer_start_def timer_remove_def upd_defs is_class_def Let_def)

lemma timer_start_inv:
  assumes inv: "timer_inv b k" and x: "is_class k x RT_Object_Class_Timer"
    "tm_init_tick (timers k x) < 0x7fffffff" and r: "rt_timer_start x k = Some (e, k')"
  shows "timer_inv b k' \<and> e = RT_EOK \<and> set (timer_list k') = insert x (set (timer_list k))
     \<and> (let P = (\<lambda>t. due b k t \<le> unat (rt_tick k - b) + unat (tm_init_tick (timers k x)));
          ts = removeAll x (timer_list k)
        in timer_list k' = takeWhile P ts @ x # dropWhile P ts)"
proof -
  let ?l = "unat (rt_tick k - b)" and ?i = "unat (tm_init_tick (timers k x))"
  let ?ts = "removeAll x (timer_list k)"
  let ?T = "(timers k)(x := (timers k x)\<lparr>timeout_tick := rt_tick k + tm_init_tick (timers k x)\<rparr>)"
  let ?P = "\<lambda>t. due b k t \<le> ?l + ?i"
  have k': "e = RT_EOK" "timers k' = ?T" "rt_tick k' = rt_tick k"
    "objs k' = (objs k)(x := (objs k x)\<lparr>flag := flag (objs k x) OR RT_TIMER_FLAG_ACTIVATED\<rparr>)"
    "timer_list k' = timer_insert (timeout_tick \<circ> ?T) x ?ts"
    using r timer_start_eq [OF x] by auto
  have l: "?l \<le> 1" using inv by (simp add: timer_inv_def)
  have i: "?i < 0x7fffffff" using x(2) by (simp add: word_less_nat_alt)
  have dx: "due b k' x = ?l + ?i"
  proof -
    have "unat (rt_tick k - b + tm_init_tick (timers k x)) = ?l + ?i"
      using l i by (subst unat_add_lem [THEN iffD1]) auto
    then show ?thesis by (simp add: due_def k'(2) algebra_simps)
  qed
  have dt: "due b k' t = due b k t" if "t \<noteq> x" for t using that by (simp add: due_def k'(2))
  have lt: "due b k t < 0x7fffffff + ?l" if "t \<in> set (timer_list k)" for t
    using inv that by (simp add: timer_inv_def)
  have cmp: "timeout_tick (?T t) - timeout_tick (?T x) = 0
      \<or> \<not> timeout_tick (?T t) - timeout_tick (?T x) < RT_TICK_MAX div 2 \<longleftrightarrow> ?P t"
    if "t \<in> set ?ts" for t
    using tick_compare [of "timeout_tick (?T t)" b ?l "timeout_tick (?T x)"] that lt [of t] l i dx dt [of t]
    by (auto simp: due_def k'(2))
  have ins: "timer_list k' = takeWhile ?P ?ts @ x # dropWhile ?P ?ts"
    unfolding k'(5) by (rule timer_insert_eq) (use cmp in simp)
  have P: "takeWhile ?P ?ts = takeWhile (\<lambda>t. due b k' t \<le> due b k' x) ?ts"
    "dropWhile ?P ?ts = dropWhile (\<lambda>t. due b k' t \<le> due b k' x) ?ts"
    by (rule takeWhile_cong dropWhile_cong; use dx dt in auto)+
  have st: "sorted_wrt (\<lambda>s t. due b k' s \<le> due b k' t) ?ts"
  proof -
    have "sorted_wrt (\<lambda>s t. due b k s \<le> due b k t) ?ts"
      using inv unfolding timer_inv_def removeAll_filter_not_eq by (auto intro: sorted_wrt_filter)
    then show ?thesis by (rule sorted_wrt_mono_rel [rotated]) (use dt in auto)
  qed
  have "sorted_wrt (\<lambda>s t. due b k' s \<le> due b k' t) (timer_list k')"
    unfolding ins P by (rule sorted_takeWhile_insert [OF st])
  moreover have "distinct (timer_list k')"
    unfolding ins using inv by (intro distinct_takeWhile_insert) (auto simp: timer_inv_def distinct_removeAll)
  moreover have set: "set (timer_list k') = insert x (set (timer_list k))"
    unfolding ins set_takeWhile_insert by auto
  moreover have "due b k' t < 0x7fffffff + ?l \<and> is_class k' t RT_Object_Class_Timer
      \<and> flag (objs k' t) AND RT_TIMER_FLAG_ACTIVATED \<noteq> 0" if "t \<in> set (timer_list k')" for t
    using that inv x i dx dt [of t] l unfolding set
    by (cases "t = x") (auto simp: timer_inv_def is_class_def k'(4))
  ultimately show ?thesis using ins k' l by (simp add: timer_inv_def)
qed

lemma timer_stop_eq:
  assumes "is_class k x RT_Object_Class_Timer"
  shows "rt_timer_stop x k =
     (if flag (objs k x) AND RT_TIMER_FLAG_ACTIVATED = 0 then Some (- RT_ERROR, k)
      else Some (RT_EOK, k\<lparr>timer_list := removeAll x (timer_list k), objs := (objs k)
        (x := (objs k x)\<lparr>flag := flag (objs k x) AND NOT RT_TIMER_FLAG_ACTIVATED\<rparr>)\<rparr>))"
  using assms by (auto simp: rt_timer_stop_def timer_remove_def upd_defs is_class_def)

lemma timer_remove_inv:
  assumes inv: "timer_inv b k"
  shows "timer_inv b (k\<lparr>timer_list := removeAll x (timer_list k), objs := (objs k)
        (x := (objs k x)\<lparr>flag := f\<rparr>)\<rparr>)"
proof -
  have "sorted_wrt (\<lambda>s t. due b k s \<le> due b k t) (removeAll x (timer_list k))"
    using inv unfolding timer_inv_def removeAll_filter_not_eq by (auto intro: sorted_wrt_filter)
  with inv show ?thesis
    by (auto simp: timer_inv_def distinct_removeAll due_def is_class_def)
qed

lemma timer_stop_inv:
  assumes inv: "timer_inv b k" and x: "is_class k x RT_Object_Class_Timer"
  shows "\<exists>e k'. rt_timer_stop x k = Some (e, k') \<and> timer_inv b k' \<and> x \<notin> set (timer_list k')
     \<and> flag (objs k' x) AND RT_TIMER_FLAG_ACTIVATED = 0
     \<and> k' = k\<lparr>timer_list := removeAll x (timer_list k), objs := (objs k)
         (x := (objs k x)\<lparr>flag := flag (objs k x) AND NOT RT_TIMER_FLAG_ACTIVATED\<rparr>)\<rparr>"
proof (cases "flag (objs k x) AND RT_TIMER_FLAG_ACTIVATED = 0")
  case True
  then have "x \<notin> set (timer_list k)" using inv by (auto simp: timer_inv_def)
  moreover have "flag (objs k x) AND NOT RT_TIMER_FLAG_ACTIVATED = flag (objs k x)"
  proof (rule bit_word_eqI)
    fix n have "\<not> bit (flag (objs k x) AND 1) n" using True by simp
    then show "bit (flag (objs k x) AND NOT RT_TIMER_FLAG_ACTIVATED) n = bit (flag (objs k x)) n"
      by (auto simp: bit_simps dest: bit_imp_le_length)
  qed
  ultimately show ?thesis using True inv timer_stop_eq [OF x] by simp
next
  case False
  then show ?thesis using timer_remove_inv [OF inv] timer_stop_eq [OF x] by simp
qed

subsection \<open>The tick check\<close>

lemma tick_due:
  fixes c a b :: u32
  assumes "unat (a - b) < 0x7fffffff + unat (c - b)" "unat (c - b) \<le> 1"
  shows "c - a < RT_TICK_MAX div 2 \<longleftrightarrow> unat (a - b) \<le> unat (c - b)"
proof -
  have "c - a = (c - b) - (a - b)" by simp
  then have u: "unat (c - a) = (if unat (a - b) \<le> unat (c - b) then unat (c - b) - unat (a - b)
      else 2 ^ 32 + unat (c - b) - unat (a - b))"
    using unat_minus_cases [of "c - b" "a - b"] by simp
  have "c - a < RT_TICK_MAX div 2 \<longleftrightarrow> unat (c - a) < 0x7fffffff" by (simp add: word_less_nat_alt)
  then show ?thesis using u assms by auto
qed

text \<open>
  What the tick check needs of the timeout functions: under a condition \<open>I\<close> on the kernel state
  each call returns, leaves the timers and the tick alone and establishes \<open>I\<close> again, also after
  the check has cleared the timer's flag or started it anew. Periodic timers have a period. The
  relation \<open>R\<close> accumulates what the calls do.
\<close>

locale timeout_calls =
  fixes call :: "timeout_func \<Rightarrow> ptr \<Rightarrow> kernel \<Rightarrow> kernel option"
    and I :: "kernel \<Rightarrow> bool" and R :: "kernel \<Rightarrow> kernel \<Rightarrow> bool" and b :: u32
  assumes R_refl: "R k k" and R_trans: "R k k' \<Longrightarrow> R k' k'' \<Longrightarrow> R k k''"
    and I_timer: "I k \<Longrightarrow> timer_inv b k"
    and I_period: "I k \<Longrightarrow> t \<in> set (timer_list k) \<Longrightarrow> flag (objs k t) AND RT_TIMER_FLAG_PERIODIC \<noteq> 0 \<Longrightarrow>
      0 < tm_init_tick (timers k t) \<and> tm_init_tick (timers k t) < 0x7fffffff"
    and call_ok: "I k \<Longrightarrow> timer_list k = t # r \<Longrightarrow> due b k t \<le> unat (rt_tick k - b) \<Longrightarrow>
      \<exists>k'. call (tm_func (timers k t)) (tm_parameter (timers k t)) (timer_remove t k) = Some k'
         \<and> timers k' = timers k \<and> objs k' = objs k \<and> timer_list k' = r \<and> rt_tick k' = rt_tick k
         \<and> I (upd_obj t (\<lambda>ob. ob\<lparr>flag := flag ob AND NOT RT_TIMER_FLAG_ACTIVATED\<rparr>) k')
         \<and> R k (upd_obj t (\<lambda>ob. ob\<lparr>flag := flag ob AND NOT RT_TIMER_FLAG_ACTIVATED\<rparr>) k')
         \<and> (\<forall>e k''. flag (objs k t) AND RT_TIMER_FLAG_PERIODIC \<noteq> 0 \<longrightarrow> rt_timer_start t
              (upd_obj t (\<lambda>ob. ob\<lparr>flag := flag ob AND NOT RT_TIMER_FLAG_ACTIVATED\<rparr>) k') = Some (e, k'')
              \<longrightarrow> I k'' \<and> R k k'')"
begin

definition now_due :: "kernel \<Rightarrow> ptr set" where
  "now_due k = {t \<in> set (timer_list k). due b k t \<le> unat (rt_tick k - b)}"

lemma finite_now_due [simp]: "finite (now_due k)"
  by (simp add: now_due_def)

lemma loop_step:
  assumes "I k" "timer_list k = t # r"
  shows "rt_tick k - timeout_tick (timers k t) < RT_TICK_MAX div 2 \<longleftrightarrow> t \<in> now_due k"
  using I_timer [OF assms(1)] assms(2) tick_due [of "timeout_tick (timers k t)" b "rt_tick k"]
  by (auto simp: timer_inv_def now_due_def due_def)

lemma not_due_rest:
  assumes "I k" "timer_list k = t # r" "t \<notin> now_due k"
  shows "now_due k = {}"
  using I_timer [OF assms(1)] assms(2,3) by (force simp: timer_inv_def now_due_def)

lemma restart:
  assumes "I k" "timer_list k = t # r" "t \<in> now_due k"
    and per: "flag (objs k t) AND RT_TIMER_FLAG_PERIODIC \<noteq> 0"
    and k1: "timers k1 = timers k" "objs k1 = objs k" "timer_list k1 = r" "rt_tick k1 = rt_tick k"
    and k2: "k2 = upd_obj t (\<lambda>ob. ob\<lparr>flag := flag ob AND NOT RT_TIMER_FLAG_ACTIVATED\<rparr>) k1" "I k2"
  shows "\<exists>k3. rt_timer_start t k2 = Some (RT_EOK, k3) \<and> rt_tick k3 = rt_tick k
     \<and> now_due k3 = now_due k - {t}"
proof -
  have inv: "timer_inv b k" by (rule I_timer [OF assms(1)])
  have cls: "is_class k2 t RT_Object_Class_Timer"
    using inv assms(2) k1 k2(1) by (auto simp: timer_inv_def is_class_def upd_obj_def)
  have tick: "0 < tm_init_tick (timers k2 t)" "tm_init_tick (timers k2 t) < 0x7fffffff"
    using I_period [OF assms(1) _ per] assms(2) k1 k2(1) by (auto simp: upd_obj_def)
  obtain k3 where k3: "rt_timer_start t k2 = Some (RT_EOK, k3)"
    "timers k3 = (timers k2)(t := (timers k2 t)\<lparr>timeout_tick := rt_tick k2 + tm_init_tick (timers k2 t)\<rparr>)"
    "rt_tick k3 = rt_tick k2"
    using timer_start_eq [OF cls tick(2)] by auto
  have set: "set (timer_list k3) = insert t (set r)"
    using timer_start_inv [OF I_timer [OF k2(2)] cls tick(2) k3(1)] k1 k2(1) by (simp add: upd_obj_def)
  have l: "unat (rt_tick k - b) \<le> 1" using inv by (simp add: timer_inv_def)
  have "due b k3 t = unat (rt_tick k - b + tm_init_tick (timers k2 t))"
    using k1 k2(1) by (simp add: due_def k3(2) upd_obj_def algebra_simps)
  also have "\<dots> = unat (rt_tick k - b) + unat (tm_init_tick (timers k2 t))"
    using l tick(2) by (subst unat_add_lem [THEN iffD1]) (auto simp: word_less_nat_alt)
  finally have "unat (rt_tick k - b) < due b k3 t"
    using tick(1) by (simp add: word_less_nat_alt)
  moreover have "due b k3 u = due b k u" if "u \<noteq> t" for u
    using that k1 k2(1) by (simp add: due_def k3(2) upd_obj_def)
  moreover have "t \<notin> set r" "rt_tick k3 = rt_tick k"
    using inv assms(2) k1 k2(1) k3(3) by (auto simp: timer_inv_def upd_obj_def)
  ultimately have "u \<in> now_due k3 \<longleftrightarrow> u \<in> now_due k - {t}" for u
    using set assms(2) by (cases "u = t") (simp_all add: now_due_def)
  then have "now_due k3 = now_due k - {t}" by blast
  with k3 k1 k2(1) show ?thesis by (auto simp: upd_obj_def)
qed

lemma check_loop:
  assumes "I k" "card (now_due k) < fuel"
  shows "\<exists>k'. timer_check_loop call fuel (rt_tick k) k = Some k' \<and> I k' \<and> rt_tick k' = rt_tick k
     \<and> now_due k' = {} \<and> R k k'"
  using assms
proof (induction fuel arbitrary: k)
  case (Suc fuel)
  show ?case
  proof (cases "timer_list k")
    case Nil
    with Suc.prems R_refl show ?thesis by (simp add: now_due_def)
  next
    case (Cons t r)
    show ?thesis
    proof (cases "t \<in> now_due k")
      case False
      with Suc.prems Cons not_due_rest [OF Suc.prems(1) Cons] loop_step [OF Suc.prems(1) Cons]
        R_refl show ?thesis by simp
    next
      case True
      let ?clr = "upd_obj t (\<lambda>ob. ob\<lparr>flag := flag ob AND NOT RT_TIMER_FLAG_ACTIVATED\<rparr>)"
      obtain k1 where k1: "call (tm_func (timers k t)) (tm_parameter (timers k t)) (timer_remove t k) = Some k1"
        "timers k1 = timers k" "objs k1 = objs k" "timer_list k1 = r" "rt_tick k1 = rt_tick k" "I (?clr k1)"
        "R k (?clr k1)"
        and restart_I: "\<And>e k''. flag (objs k t) AND RT_TIMER_FLAG_PERIODIC \<noteq> 0 \<Longrightarrow>
          rt_timer_start t (?clr k1) = Some (e, k'') \<Longrightarrow> I k'' \<and> R k k''"
        using call_ok [OF Suc.prems(1) Cons] True unfolding now_due_def by blast
      have less: "card (now_due k - {t}) < fuel" 
        using Suc.prems(2) card_Suc_Diff1 [OF finite_now_due True] by simp
      have fire: "rt_tick k - timeout_tick (timers k t) < RT_TICK_MAX div 2"
        using loop_step [OF Suc.prems(1) Cons] True by simp
      have act: "flag (objs k t) AND RT_TIMER_FLAG_ACTIVATED \<noteq> 0"
        using I_timer [OF Suc.prems(1)] Cons by (simp add: timer_inv_def)
      have rem: "timers (timer_remove t k) = timers k" by (simp add: timer_remove_def)
      show ?thesis
      proof (cases "flag (objs k t) AND RT_TIMER_FLAG_PERIODIC \<noteq> 0")
        case per: True
        obtain k3 where k3: "rt_timer_start t (?clr k1) = Some (RT_EOK, k3)" "rt_tick k3 = rt_tick k"
          "now_due k3 = now_due k - {t}"
          using restart [OF Suc.prems(1) Cons True per k1(2-5) refl k1(6)] by blast
        then obtain k' where k': "timer_check_loop call fuel (rt_tick k) k3 = Some k'" "I k'"
          "rt_tick k' = rt_tick k" "now_due k' = {}" "R k3 k'"
          using Suc.IH [OF restart_I [OF per k3(1), THEN conjunct1]] less by auto
        have "R k k'" using restart_I [OF per k3(1)] k'(5) by (blast intro: R_trans)
        with k' show ?thesis using Cons fire act per k1 k3 rem by simp
      next
        case False
        have "now_due (?clr k1) = now_due k - {t}"
          using I_timer [OF Suc.prems(1)] Cons k1
          by (auto simp: now_due_def upd_obj_def due_def timer_inv_def)
        then obtain k' where k': "timer_check_loop call fuel (rt_tick k) (?clr k1) = Some k'" "I k'"
          "rt_tick k' = rt_tick k" "now_due k' = {}" "R (?clr k1) k'"
          using Suc.IH [OF k1(6)] less k1(5) by (auto simp: upd_obj_def)
        have "R k k'" using k1(7) k'(5) by (rule R_trans)
        with k' show ?thesis using Cons fire False k1 rem by simp
      qed
    qed
  qed
qed simp

lemma check_ok:
  assumes "I k" "length (timer_list k) < fuel"
  shows "\<exists>k'. rt_timer_check call fuel k = Some k' \<and> I k' \<and> rt_tick k' = rt_tick k
     \<and> (\<forall>t \<in> set (timer_list k'). unat (rt_tick k - b) < due b k' t) \<and> R k k'"
proof -
  have "card (now_due k) \<le> card (set (timer_list k))"
    by (rule card_mono) (auto simp: now_due_def)
  also have "\<dots> \<le> length (timer_list k)" by (rule card_length)
  finally have "card (now_due k) < fuel" using assms(2) by simp
  from check_loop [OF assms(1) this] show ?thesis
    by (fastforce simp: rt_timer_check_def now_due_def)
qed

end

end
