(* ===== verification/RT_Memory.thy ===== *)
theory RT_Memory
  imports RT_Kernel
begin

text \<open>
  The memory routines of \<^verbatim>\<open>src/kservice.c\<close> on byte memory: \<^verbatim>\<open>rt_memset\<close>, \<^verbatim>\<open>rt_memcpy\<close> (in the
  word-wise version that is compiled without \<^verbatim>\<open>RT_USING_TINY_SIZE\<close>) and \<^verbatim>\<open>rt_memmove\<close>. Words are
  four bytes, stored in little-endian order as on the target. The reference definitions
  \<open>filled\<close> and \<open>copied\<close> say what the memory holds afterwards; each routine is proved equal to its
  reference where C's contract allows the call.
\<close>

type_synonym mem = "ptr \<Rightarrow> u8"

subsection \<open>Words in memory\<close>

definition store32 :: "ptr \<Rightarrow> u32 \<Rightarrow> mem \<Rightarrow> mem" where
  "store32 a w m = m(a := ucast w, a + 1 := ucast (drop_bit 8 w), a + 2 := ucast (drop_bit 16 w),
     a + 3 := ucast (drop_bit 24 w))"

definition load32 :: "ptr \<Rightarrow> mem \<Rightarrow> u32" where
  "load32 a m = ucast (m a) OR push_bit 8 (ucast (m (a + 1))) OR push_bit 16 (ucast (m (a + 2)))
     OR push_bit 24 (ucast (m (a + 3)))"

definition aligned32 :: "ptr \<Rightarrow> bool" where
  "aligned32 a \<longleftrightarrow> a mod 4 = 0"

subsection \<open>Operations\<close>

fun set_bytes :: "u8 \<Rightarrow> ptr \<Rightarrow> nat \<Rightarrow> mem \<Rightarrow> mem" where
  "set_bytes d a 0 m = m"
| "set_bytes d a (Suc count) m = set_bytes d (a + 1) count (m(a := d))"

fun set_words :: "u32 \<Rightarrow> ptr \<Rightarrow> nat \<Rightarrow> mem \<Rightarrow> ptr \<times> nat \<times> mem" where
  "set_words buffer a count m =
     (if count \<ge> 4 then set_words buffer (a + 4) (count - 4) (store32 a buffer m)
      else (a, count, m))"

fun set_blocks :: "u32 \<Rightarrow> ptr \<Rightarrow> nat \<Rightarrow> mem \<Rightarrow> ptr \<times> nat \<times> mem" where
  "set_blocks buffer a count m =
     (if count \<ge> 4 * 4 then
        set_blocks buffer (a + 16) (count - 16)
          (store32 (a + 12) buffer (store32 (a + 8) buffer (store32 (a + 4) buffer (store32 a buffer m))))
      else (a, count, m))"

definition set_buffer :: "u8 \<Rightarrow> u32" where
  "set_buffer c = (let d = ucast c; buffer = push_bit 8 d OR d in buffer OR push_bit 16 buffer)"

definition rt_memset :: "ptr \<Rightarrow> u8 \<Rightarrow> nat \<Rightarrow> mem \<Rightarrow> mem" where
  "rt_memset s c count m =
     (if \<not> count < 4 \<and> aligned32 s then
        (let (a, count, m) = set_blocks (set_buffer c) s count m;
             (a, count, m) = set_words (set_buffer c) a count m
         in set_bytes c a count m)
      else set_bytes c s count m)"

fun copy_bytes :: "ptr \<Rightarrow> ptr \<Rightarrow> nat \<Rightarrow> mem \<Rightarrow> mem" where
  "copy_bytes dst src 0 m = m"
| "copy_bytes dst src (Suc len) m = copy_bytes (dst + 1) (src + 1) len (m(dst := m src))"

definition copy_word :: "ptr \<Rightarrow> ptr \<Rightarrow> mem \<Rightarrow> mem" where
  "copy_word dst src m = store32 dst (load32 src m) m"

fun copy_words :: "ptr \<Rightarrow> ptr \<Rightarrow> nat \<Rightarrow> mem \<Rightarrow> ptr \<times> ptr \<times> nat \<times> mem" where
  "copy_words dst src len m =
     (if len \<ge> 4 then copy_words (dst + 4) (src + 4) (len - 4) (copy_word dst src m)
      else (dst, src, len, m))"

fun copy_blocks :: "ptr \<Rightarrow> ptr \<Rightarrow> nat \<Rightarrow> mem \<Rightarrow> ptr \<times> ptr \<times> nat \<times> mem" where
  "copy_blocks dst src len m =
     (if len \<ge> 16 then
        copy_blocks (dst + 16) (src + 16) (len - 16)
          (copy_word (dst + 12) (src + 12) (copy_word (dst + 8) (src + 8)
            (copy_word (dst + 4) (src + 4) (copy_word dst src m))))
      else (dst, src, len, m))"

text \<open>\<^verbatim>\<open>rt_memcpy\<close> counts in a signed \<^verbatim>\<open>int\<close>: lengths from \<open>2 ^ 31\<close> on are not copies.\<close>

definition rt_memcpy :: "ptr \<Rightarrow> ptr \<Rightarrow> nat \<Rightarrow> mem \<Rightarrow> mem option" where
  "rt_memcpy dst src count m = do {
     C_GUARD (count < 2 ^ 31);
     Some (if \<not> count < 16 \<and> aligned32 src \<and> aligned32 dst then
        (let (dst, src, len, m) = copy_blocks dst src count m;
             (dst, src, len, m) = copy_words dst src len m
         in copy_bytes dst src len m)
      else copy_bytes dst src count m)
   }"

fun copy_back :: "ptr \<Rightarrow> ptr \<Rightarrow> nat \<Rightarrow> mem \<Rightarrow> mem" where
  "copy_back dst src 0 m = m"
| "copy_back dst src (Suc n) m = copy_back dst src n (m(dst + n := m (src + n)))"

definition rt_memmove :: "ptr \<Rightarrow> ptr \<Rightarrow> nat \<Rightarrow> mem \<Rightarrow> mem" where
  "rt_memmove dst src n m =
     (if src < dst \<and> dst < src + n then copy_back dst src n m else copy_bytes dst src n m)"

declare set_words.simps [simp del] set_blocks.simps [simp del]
  copy_words.simps [simp del] copy_blocks.simps [simp del]

subsection \<open>Reference definitions\<close>

definition filled :: "ptr \<Rightarrow> u8 \<Rightarrow> nat \<Rightarrow> mem \<Rightarrow> mem" where
  "filled a d n m = (\<lambda>x. if a \<le> x \<and> x < a + n then d else m x)"

definition copied :: "ptr \<Rightarrow> ptr \<Rightarrow> nat \<Rightarrow> mem \<Rightarrow> mem" where
  "copied dst src n m = (\<lambda>x. if dst \<le> x \<and> x < dst + n then m (src + (x - dst)) else m x)"

lemma div_mod_less_block:
  "(b :: nat) \<le> n \<Longrightarrow> 0 < b \<Longrightarrow> n div b = Suc ((n - b) div b)" "b \<le> n \<Longrightarrow> (n - b) mod b = n mod b"
  by (simp_all add: le_div_geq le_mod_geq)

subsection \<open>Filling\<close>

lemma filled_0 [simp]: "filled a d 0 m = m"
  by (rule ext) (auto simp: filled_def)

lemma filled_append: "filled (a + n) d n' (filled a d n m) = filled a d (n + n') m"
  by (auto simp: filled_def)

lemma filled_one: "m(a := d) = filled a d 1 m"
  by (auto simp: filled_def)

lemma set_bytes_filled: "set_bytes d a n m = filled a d n m"
proof (induction n arbitrary: a m)
  case (Suc n)
  then show ?case using filled_append [of a 1 d n m] by (simp add: filled_one)
qed simp

lemma set_buffer_bytes:
  "ucast (set_buffer c) = c" "ucast (drop_bit 8 (set_buffer c)) = c"
  "ucast (drop_bit 16 (set_buffer c)) = c" "ucast (drop_bit 24 (set_buffer c)) = c"
  by (rule bit_word_eqI, auto simp: set_buffer_def Let_def bit_simps dest: bit_imp_le_length)+

lemma store_buffer: "store32 a (set_buffer c) m = filled a c 4 m"
  by (auto simp: store32_def set_buffer_bytes filled_def)

lemma set_words_filled:
  "set_words (set_buffer c) a n m = (a + 4 * (n div 4), n mod 4, filled a c (4 * (n div 4)) m)"
proof (induction n arbitrary: a m rule: less_induct)
  case (less n)
  show ?case
  proof (cases "n \<ge> 4")
    case True
    then have d: "n div 4 = Suc ((n - 4) div 4)" "(n - 4) mod 4 = n mod 4"
      by (simp_all add: div_mod_less_block)
    show ?thesis
      using True less.IH [of "n - 4" "a + 4"] filled_append [of a 4 c "4 * ((n - 4) div 4)" m]
      by (subst set_words.simps) (simp add: d store_buffer)
  qed (subst set_words.simps, simp)
qed

lemma set_blocks_filled:
  "set_blocks (set_buffer c) a n m = (a + 16 * (n div 16), n mod 16, filled a c (16 * (n div 16)) m)"
proof (induction n arbitrary: a m rule: less_induct)
  case (less n)
  show ?case
  proof (cases "n \<ge> 16")
    case True
    then have d: "n div 16 = Suc ((n - 16) div 16)" "(n - 16) mod 16 = n mod 16"
      by (simp_all add: div_mod_less_block)
    have four: "filled (a + 12) c 4 (filled (a + 8) c 4 (filled (a + 4) c 4 (filled a c 4 m))) = filled a c 16 m"
      using filled_append [of a 4 c 4 m] filled_append [of a 8 c 4 m] filled_append [of a 12 c 4 m] by simp
    show ?thesis
      using True less.IH [of "n - 16" "a + 16"] filled_append [of a 16 c "16 * ((n - 16) div 16)" m]
      by (subst set_blocks.simps) (simp add: d store_buffer four)
  qed (subst set_blocks.simps, simp)
qed

lemma rt_memset_filled: "rt_memset s c count m = filled s c count m"
proof -
  let ?q = "16 * (count div 16)" and ?r = "count mod 16"
  have "?q + ?r = count" "4 * (?r div 4) + ?r mod 4 = ?r" by simp_all
  then show ?thesis
    using filled_append [of s ?q c "4 * (?r div 4)" m]
      filled_append [of s "?q + 4 * (?r div 4)" c "?r mod 4" m]
    by (simp add: rt_memset_def set_blocks_filled set_words_filled set_bytes_filled add.assoc)
qed

subsection \<open>Copying\<close>

lemma copied_0 [simp]: "copied d s 0 m = m"
  by (rule ext) (auto simp: copied_def)

text \<open>Copying upwards in pieces is right if the source is not overwritten before it is read.\<close>

definition up_safe :: "ptr \<Rightarrow> ptr \<Rightarrow> nat \<Rightarrow> bool" where
  "up_safe d s n \<longleftrightarrow> d \<le> s \<or> s + n \<le> d"

lemma copied_append:
  assumes "up_safe d s (n + n')"
  shows "copied (d + n) (s + n) n' (copied d s n m) = copied d s (n + n') m"
proof
  fix x
  consider "x < d + n" | "d + n + n' \<le> x" | "d + n \<le> x" "x < d + n + n'" by linarith
  then show "copied (d + n) (s + n) n' (copied d s n m) x = copied d s (n + n') m x"
  proof cases
    case 3
    then have "s + n + (x - (d + n)) = s + (x - d)" by linarith
    moreover have "\<not> (d \<le> s + (x - d) \<and> s + (x - d) < d + n)"
      using 3 assms unfolding up_safe_def by arith
    ultimately have "copied (d + n) (s + n) n' (copied d s n m) x = m (s + (x - d))"
      using 3 unfolding copied_def by presburger
    then show ?thesis using 3 by (simp add: copied_def)
  qed (simp_all add: copied_def)
qed

lemma copied_one: "m(d := m s) = copied d s 1 m"
  by (auto simp: copied_def)

lemma up_safe_shift: "up_safe d s (k + n) \<Longrightarrow> up_safe (d + k) (s + k) n"
  by (auto simp: up_safe_def)

lemma up_safe_less: "up_safe d s n \<Longrightarrow> n' \<le> n \<Longrightarrow> up_safe d s n'"
  by (auto simp: up_safe_def)

lemma copy_bytes_copied: "up_safe d s n \<Longrightarrow> copy_bytes d s n m = copied d s n m"
proof (induction n arbitrary: d s m)
  case (Suc n)
  then show ?case
    using copied_append [of d s 1 n m] up_safe_shift [of d s 1 n] by (simp add: copied_one)
qed simp

lemma load32_bytes:
  "ucast (load32 a m) = m a" "ucast (drop_bit 8 (load32 a m)) = m (a + 1)"
  "ucast (drop_bit 16 (load32 a m)) = m (a + 2)" "ucast (drop_bit 24 (load32 a m)) = m (a + 3)"
  by (rule bit_word_eqI, auto simp: load32_def bit_simps dest: bit_imp_le_length)+

lemma less_4_cases: "dst \<le> x \<Longrightarrow> x < dst + 4 \<Longrightarrow> x = dst \<or> x = dst + 1 \<or> x = dst + 2 \<or> x = dst + (3::nat)"
  by linarith

lemma copy_word_copied: "copy_word d s m = copied d s 4 m"
proof
  fix x
  show "copy_word d s m x = copied d s 4 m x"
    using less_4_cases [of d x]
    by (cases "d \<le> x \<and> x < d + 4") (auto simp: copy_word_def store32_def load32_bytes copied_def)
qed

lemma copy_words_copied:
  "up_safe d s n \<Longrightarrow> copy_words d s n m =
     (d + 4 * (n div 4), s + 4 * (n div 4), n mod 4, copied d s (4 * (n div 4)) m)"
proof (induction n arbitrary: d s m rule: less_induct)
  case (less n)
  show ?case
  proof (cases "n \<ge> 4")
    case True
    then have d: "n div 4 = Suc ((n - 4) div 4)" "(n - 4) mod 4 = n mod 4"
      by (simp_all add: div_mod_less_block)
    have "4 + 4 * ((n - 4) div 4) \<le> n" using True by linarith
    then have "copied (d + 4) (s + 4) (4 * ((n - 4) div 4)) (copied d s 4 m)
        = copied d s (4 + 4 * ((n - 4) div 4)) m"
      using less.prems by (intro copied_append) (rule up_safe_less)
    moreover have "up_safe (d + 4) (s + 4) (n - 4)"
      using True less.prems up_safe_shift [of d s 4 "n - 4"] by simp
    ultimately show ?thesis
      using True less.IH [of "n - 4" "d + 4" "s + 4"]
      by (subst copy_words.simps) (simp add: d copy_word_copied)
  qed (subst copy_words.simps, simp)
qed

lemma copied_four:
  assumes "up_safe d s 16"
  shows "copied (d + 12) (s + 12) 4 (copied (d + 8) (s + 8) 4 (copied (d + 4) (s + 4) 4 (copied d s 4 m)))
    = copied d s 16 m"
proof -
  have "up_safe d s 8" "up_safe d s 12" using assms by (auto elim: up_safe_less)
  then show ?thesis
    using copied_append [of d s 4 4 m] copied_append [of d s 8 4 m] copied_append [of d s 12 4 m] assms
    by simp
qed

lemma copy_blocks_copied:
  "up_safe d s n \<Longrightarrow> copy_blocks d s n m =
     (d + 16 * (n div 16), s + 16 * (n div 16), n mod 16, copied d s (16 * (n div 16)) m)"
proof (induction n arbitrary: d s m rule: less_induct)
  case (less n)
  show ?case
  proof (cases "n \<ge> 16")
    case True
    then have d: "n div 16 = Suc ((n - 16) div 16)" "(n - 16) mod 16 = n mod 16"
      by (simp_all add: div_mod_less_block)
    have "16 + 16 * ((n - 16) div 16) \<le> n" using True by linarith
    then have "copied (d + 16) (s + 16) (16 * ((n - 16) div 16)) (copied d s 16 m)
        = copied d s (16 + 16 * ((n - 16) div 16)) m"
      using less.prems by (intro copied_append) (rule up_safe_less)
    moreover have "up_safe (d + 16) (s + 16) (n - 16)"
      using True less.prems up_safe_shift [of d s 16 "n - 16"] by simp
    moreover have "up_safe d s 16" using True less.prems by (rule up_safe_less [rotated])
    ultimately show ?thesis
      using True less.IH [of "n - 16" "d + 16" "s + 16"]
      by (subst copy_blocks.simps) (simp add: d copy_word_copied copied_four)
  qed (subst copy_blocks.simps, simp)
qed

lemma rt_memcpy_copied:
  assumes "up_safe d s n" "n < 2 ^ 31"
  shows "rt_memcpy d s n m = Some (copied d s n m)"
proof -
  let ?q = "16 * (n div 16)" and ?r = "n mod 16"
  let ?w = "4 * (?r div 4)" and ?b = "?r mod 4"
  have n: "?q + ?r = n" "?w + ?b = ?r" by simp_all
  have s1: "up_safe (d + ?q) (s + ?q) ?r" using assms(1) n(1) by (intro up_safe_shift) (simp only: n)
  have s2: "up_safe (d + ?q + ?w) (s + ?q + ?w) ?b"
    by (rule up_safe_shift) (use s1 n(2) in simp)
  have "?q + ?w \<le> n" using n by linarith
  then have "copied (d + ?q) (s + ?q) ?w (copied d s ?q m) = copied d s (?q + ?w) m"
    using assms(1) by (intro copied_append) (rule up_safe_less)
  moreover have "copied (d + (?q + ?w)) (s + (?q + ?w)) ?b (copied d s (?q + ?w) m) = copied d s (?q + ?w + ?b) m"
    using assms(1) n by (intro copied_append) (metis add.assoc)
  moreover have "?q + ?w + ?b = n" using n by linarith
  ultimately show ?thesis
    using assms s1 s2
    by (simp add: rt_memcpy_def copy_blocks_copied copy_words_copied copy_bytes_copied add.assoc)
qed

lemma copy_back_copied: "s < d \<Longrightarrow> copy_back d s n m = copied d s n m"
proof (induction n arbitrary: m)
  case (Suc n)
  have "copied d s n (m(d + n := m (s + n))) = copied d s (Suc n) m"
    using Suc.prems by (fastforce simp: copied_def)
  with Suc show ?case by simp
qed simp

lemma rt_memmove_copied: "rt_memmove d s n m = copied d s n m"
  using copy_bytes_copied [of d s n m]
  by (auto simp: rt_memmove_def copy_back_copied up_safe_def)

end
