(* ===== verification/RT_KInv.thy ===== *)
theory RT_KInv
  imports RT_Thread
begin

text \<open>
  The kernel invariant \<open>kinv\<close> and its preservation by the steps every blocking operation is made
  of: suspending a thread, resuming it, arming its timer, scheduling, and the tick interrupt.
\<close>

subsection \<open>The invariant\<close>

definition live :: "kernel \<Rightarrow> ptr \<Rightarrow> bool" where
  "live k t \<longleftrightarrow> tstat k t \<in> {RT_THREAD_READY, RT_THREAD_SUSPEND, RT_THREAD_RUNNING}"

text \<open>
  A started thread is a thread object, and the timer in its structure a static one-shot timer
  object that calls \<^verbatim>\<open>rt_thread_timeout\<close> for it.
\<close>

definition own_timer :: "kernel \<Rightarrow> ptr \<Rightarrow> bool" where
  "own_timer k t \<longleftrightarrow> (let x = thread_timer (threads k t) in
     is_class k t RT_Object_Class_Thread \<and> is_class k x RT_Object_Class_Timer
     \<and> otype (objs k x) AND RT_Object_Class_Static \<noteq> 0
     \<and> flag (objs k x) AND RT_TIMER_FLAG_PERIODIC = 0
     \<and> tm_func (timers k x) = Rt_thread_timeout \<and> tm_parameter (timers k x) = t)"

text \<open>The timer of a thread is active only while the thread is suspended.\<close>

definition timers_wait :: "kernel \<Rightarrow> bool" where
  "timers_wait k \<longleftrightarrow> (\<forall>x \<in> set (timer_list k). tm_func (timers k x) = Rt_thread_timeout \<longrightarrow>
     tstat k (tm_parameter (timers k x)) = RT_THREAD_SUSPEND
     \<and> thread_timer (threads k (tm_parameter (timers k x))) = x)"

definition kinv :: "u32 \<Rightarrow> kernel \<Rightarrow> bool" where
  "kinv b k \<longleftrightarrow> sched_inv k \<and> timer_inv b k \<and> (\<forall>t. live k t \<longrightarrow> own_timer k t) \<and> timers_wait k"

lemma moved_live: "stat_moved k k' t \<Longrightarrow> live k' t \<longleftrightarrow> live k t"
  by (auto simp: stat_moved_def live_def)

lemma kinvD:
  assumes "kinv b k"
  shows "sched_inv k" "timer_inv b k" "live k t \<Longrightarrow> own_timer k t" "timers_wait k"
  using assms unfolding kinv_def by blast+

lemma own_timerD:
  assumes "own_timer k t"
  shows "is_class k t RT_Object_Class_Thread"
    and "is_class k (thread_timer (threads k t)) RT_Object_Class_Timer"
    and "otype (objs k (thread_timer (threads k t))) AND RT_Object_Class_Static \<noteq> 0"
    and "flag (objs k (thread_timer (threads k t))) AND RT_TIMER_FLAG_PERIODIC = 0"
    and "tm_func (timers k (thread_timer (threads k t))) = Rt_thread_timeout"
    and "tm_parameter (timers k (thread_timer (threads k t))) = t"
    and "t \<noteq> RT_NULL"
  using assms by (auto simp: own_timer_def Let_def is_class_def)

lemma own_timer_inj:
  "own_timer k t \<Longrightarrow> own_timer k u \<Longrightarrow> thread_timer (threads k t) = thread_timer (threads k u) \<Longrightarrow> t = u"
  by (metis own_timerD(6))

subsection \<open>What a step may change\<close>

text \<open>
  The steps below change thread states and error codes, thread lists, the choice of the current
  thread, the active timers and their flags and times. Everything else stays: names and classes,
  priorities and events, the periods of periodic timers, the IPC objects and the memory.
\<close>

definition thread_same :: "rt_thread \<Rightarrow> rt_thread \<Rightarrow> bool" where
  "thread_same a b \<longleftrightarrow> b\<lparr>stat := 0, error := 0\<rparr> = a\<lparr>stat := 0, error := 0\<rparr>"

definition kframe :: "kernel \<Rightarrow> kernel \<Rightarrow> bool" where
  "kframe k k' \<longleftrightarrow>
     k'\<lparr>threads := threads k, tlists := tlists k, ready_priority_group := ready_priority_group k,
        rt_current_thread := rt_current_thread k, rt_current_priority := rt_current_priority k,
        objs := objs k, timers := timers k, timer_list := timer_list k\<rparr> = k
     \<and> (\<forall>t. thread_same (threads k t) (threads k' t))
     \<and> (\<forall>a. (objs k' a)\<lparr>flag := 0\<rparr> = (objs k a)\<lparr>flag := 0\<rparr>
          \<and> flag (objs k' a) AND RT_TIMER_FLAG_PERIODIC = flag (objs k a) AND RT_TIMER_FLAG_PERIODIC
          \<and> tm_func (timers k' a) = tm_func (timers k a)
          \<and> tm_parameter (timers k' a) = tm_parameter (timers k a)
          \<and> (flag (objs k a) AND RT_TIMER_FLAG_PERIODIC \<noteq> 0 \<longrightarrow> tm_init_tick (timers k' a) = tm_init_tick (timers k a))
          \<and> (is_class k a RT_Object_Class_Timer \<or> objs k' a = objs k a))"

lemma thread_same_refl [simp]: "thread_same a a" "thread_same a (a\<lparr>stat := s\<rparr>)"
  "thread_same a (a\<lparr>error := e\<rparr>)" "thread_same a (a\<lparr>stat := s, error := e\<rparr>)"
  by (simp_all add: thread_same_def)

lemma thread_same_fields:
  assumes "thread_same a b"
  shows "current_priority b = current_priority a" "init_priority b = init_priority a"
    "number_mask b = number_mask a" "event_set b = event_set a" "event_info b = event_info a"
    "init_tick b = init_tick a" "remaining_tick b = remaining_tick a"
    "thread_timer b = thread_timer a" "cleanup b = cleanup a"
  using assms by (cases a; cases b; simp add: thread_same_def)+

lemma thread_same_stat: "same_but_stat a b \<Longrightarrow> thread_same a b"
  by (cases a; cases b; simp add: thread_same_def same_but_stat_def)

lemma kframe_fields:
  assumes "kframe k k'"
  shows "object_list k' = object_list k" "scheduler_lock_nest k' = scheduler_lock_nest k"
    "interrupt_nest k' = interrupt_nest k" "rt_tick k' = rt_tick k"
    "rt_errno k' = rt_errno k" "sems k' = sems k" "mutexes k' = mutexes k" "events k' = events k"
    "mailboxes k' = mailboxes k" "mqs k' = mqs k" "mempools k' = mempools k"
    "pmem k' = pmem k" "bmem k' = bmem k"
  using assms by (cases k; cases k'; simp add: kframe_def)+

lemma kframe_parts:
  assumes "kframe k k'"
  shows "thread_same (threads k t) (threads k' t)"
    "otype (objs k' a) = otype (objs k a)" "name (objs k' a) = name (objs k a)"
    "flag (objs k' a) AND RT_TIMER_FLAG_PERIODIC = flag (objs k a) AND RT_TIMER_FLAG_PERIODIC"
    "tm_func (timers k' a) = tm_func (timers k a)"
    "tm_parameter (timers k' a) = tm_parameter (timers k a)"
    "\<not> is_class k a RT_Object_Class_Timer \<Longrightarrow> objs k' a = objs k a"
    "flag (objs k a) AND RT_TIMER_FLAG_PERIODIC \<noteq> 0 \<Longrightarrow> tm_init_tick (timers k' a) = tm_init_tick (timers k a)"
proof -
  have "(objs k' a)\<lparr>flag := 0\<rparr> = (objs k a)\<lparr>flag := 0\<rparr>" using assms by (simp add: kframe_def)
  then show "otype (objs k' a) = otype (objs k a)" "name (objs k' a) = name (objs k a)"
    by (cases "objs k a"; cases "objs k' a"; simp)+
qed (use assms in \<open>auto simp: kframe_def\<close>)

lemma kframe_refl [simp]: "kframe k k"
  by (simp add: kframe_def)

lemma kframe_class: "kframe k k' \<Longrightarrow> is_class k' a c = is_class k a c"
  using kframe_parts(2) [of k k' a] by (simp add: is_class_def)

lemma kframe_trans:
  assumes a: "kframe k k'" and c: "kframe k' k''"
  shows "kframe k k''"
proof -
  have "is_class k a RT_Object_Class_Timer \<or> objs k'' a = objs k a" for a
    using kframe_parts(7) [OF a, of a] kframe_parts(7) [OF c, of a] kframe_class [OF a] by metis
  moreover have "k''\<lparr>threads := threads k, tlists := tlists k, ready_priority_group := ready_priority_group k,
        rt_current_thread := rt_current_thread k, rt_current_priority := rt_current_priority k,
        objs := objs k, timers := timers k, timer_list := timer_list k\<rparr> = k"
    using a c unfolding kframe_def by (cases k; cases k'; cases k'') auto
  moreover have "thread_same (threads k t) (threads k'' t)" for t
    using kframe_parts(1) [OF a, of t] kframe_parts(1) [OF c, of t] by (simp add: thread_same_def)
  ultimately show ?thesis using a c unfolding kframe_def by simp
qed

lemma sched_frame_kframe: "sched_frame k k' \<Longrightarrow> kframe k k'"
  using sched_frame_fields(1,5) [of k k'] sched_frame_fields(17) [of k k'] thread_same_stat
  unfolding sched_frame_def kframe_def by (cases k; cases k') auto

lemma kframe_obj: "kframe k k' \<Longrightarrow> is_class k a c \<Longrightarrow> c \<noteq> RT_Object_Class_Timer \<Longrightarrow> objs k' a = objs k a"
  using kframe_parts(7) [of k k' a] by (auto simp: is_class_def)

lemma kframe_own: "kframe k k' \<Longrightarrow> own_timer k' t = own_timer k t"
  using thread_same_fields(8) [OF kframe_parts(1) [of k k' t]]
  by (simp add: own_timer_def Let_def kframe_class kframe_parts)

text \<open>Preservation of the invariant, from what a step does to states and active timers.\<close>

lemma kinv_step:
  assumes inv: "kinv b k" and fr: "kframe k k'" and s: "sched_inv k'" and t: "timer_inv b k'"
    and live: "\<And>u. live k' u \<Longrightarrow> own_timer k u"
    and wait: "\<And>x. x \<in> set (timer_list k') \<Longrightarrow> tm_func (timers k x) = Rt_thread_timeout \<Longrightarrow>
       tstat k' (tm_parameter (timers k x)) = RT_THREAD_SUSPEND
       \<and> thread_timer (threads k (tm_parameter (timers k x))) = x"
  shows "kinv b k'"
proof -
  have "timers_wait k'"
    unfolding timers_wait_def kframe_parts(5,6) [OF fr]
    using wait thread_same_fields(8) [OF kframe_parts(1) [OF fr]] by auto
  with s t live kframe_own [OF fr] show ?thesis by (simp add: kinv_def)
qed

lemma timer_inv_cong:
  "timer_list k' = timer_list k \<Longrightarrow> timers k' = timers k \<Longrightarrow> objs k' = objs k \<Longrightarrow>
     rt_tick k' = rt_tick k \<Longrightarrow> timer_inv b k' = timer_inv b k"
  by (simp add: timer_inv_def due_def is_class_def)

lemma waitD:
  "kinv b k \<Longrightarrow> x \<in> set (timer_list k) \<Longrightarrow> tm_func (timers k x) = Rt_thread_timeout \<Longrightarrow>
     tstat k (tm_parameter (timers k x)) = RT_THREAD_SUSPEND
     \<and> thread_timer (threads k (tm_parameter (timers k x))) = x"
  by (simp add: kinv_def timers_wait_def)

text \<open>Of a thread that is not suspended the timer is not active.\<close>

lemma timer_off:
  assumes "kinv b k" "live k t" "tstat k t \<noteq> RT_THREAD_SUSPEND"
  shows "thread_timer (threads k t) \<notin> set (timer_list k)"
  using waitD [OF assms(1), of "thread_timer (threads k t)"] own_timerD(5,6) [OF kinvD(3) [OF assms(1,2)]]
    assms(3) by auto

lemma kinv_step_one:
  assumes inv: "kinv b k" and fr: "kframe k k'" and s: "sched_inv k'" and t: "timer_inv b k'"
    and l: "live k t" and st: "\<And>u. tstat k' u = (if u = t then s else tstat k u)"
    and on: "set (timer_list k') \<subseteq> insert (thread_timer (threads k t)) (set (timer_list k))"
    and off: "s \<noteq> RT_THREAD_SUSPEND \<Longrightarrow> thread_timer (threads k t) \<notin> set (timer_list k')"
  shows "kinv b k'"
proof (rule kinv_step [OF inv fr s t])
  fix u assume "live k' u"
  then show "own_timer k u" using kinvD(3) [OF inv, of u] kinvD(3) [OF inv l] st [of u]
    by (cases "u = t") (auto simp: live_def)
next
  fix x assume x: "x \<in> set (timer_list k')" "tm_func (timers k x) = Rt_thread_timeout"
  note own = own_timerD [OF kinvD(3) [OF inv l]]
  show "tstat k' (tm_parameter (timers k x)) = RT_THREAD_SUSPEND
      \<and> thread_timer (threads k (tm_parameter (timers k x))) = x"
  proof (cases "x = thread_timer (threads k t)")
    case True
    with x off own(6) st [of t] show ?thesis by auto
  next
    case False
    with x on have "x \<in> set (timer_list k)" by auto
    from waitD [OF inv this x(2)] False st show ?thesis by auto
  qed
qed

subsection \<open>Scheduling\<close>

lemma kinv_schedule:
  assumes inv: "kinv b k" and cur: "rt_current_thread k \<noteq> RT_NULL"
  shows "\<exists>k'. rt_schedule k = Some k' \<and> kinv b k' \<and> kframe k k' \<and> stat_moves k k'
     \<and> rt_current_thread k' \<noteq> RT_NULL
     \<and> (scheduler_lock_nest k = 0 \<and>
          (tstat k (rt_current_thread k) = RT_THREAD_RUNNING \<or> (\<exists>t. on_ready k t)) \<longrightarrow> top_running k')
     \<and> (\<forall>x. tlists k' (Waiters x) = tlists k (Waiters x) \<and> tlists k' (Senders x) = tlists k (Senders x))
     \<and> tlists k' Defunct = tlists k Defunct
     \<and> (\<forall>t. error (threads k' t) = error (threads k t))
     \<and> timers k' = timers k \<and> timer_list k' = timer_list k \<and> objs k' = objs k"
proof -
  obtain k' where k': "rt_schedule k = Some k'" "sched_inv k'" "sched_frame k k'" "stat_moves k k'"
    "rt_current_thread k' \<noteq> RT_NULL"
    "scheduler_lock_nest k = 0 \<and>
       (tstat k (rt_current_thread k) = RT_THREAD_RUNNING \<or> (\<exists>t. on_ready k t)) \<longrightarrow> top_running k'"
    "\<forall>x. tlists k' (Waiters x) = tlists k (Waiters x) \<and> tlists k' (Senders x) = tlists k (Senders x)"
    "tlists k' Defunct = tlists k Defunct"
    using rt_schedule_ok [OF kinvD(1) [OF inv] cur] by blast
  note fr = sched_frame_fields [OF k'(3)]
  have "timer_inv b k'" using kinvD(2) [OF inv] timer_inv_cong [of k' k b] fr(1,5-7) by simp
  moreover have "own_timer k u" if "live k' u" for u
  proof -
    have "live k u" using k'(4) that unfolding stat_moves_def live_def by (auto dest!: spec [of _ u])
    then show ?thesis by (rule kinvD(3) [OF inv])
  qed
  ultimately have "kinv b k'"
    using kinv_step [OF inv sched_frame_kframe [OF k'(3)] k'(2)] waitD [OF inv] fr(6)
      stat_moves_iff(1) [OF k'(4)] by simp
  with k' fr(1,5,6) sched_frame_kframe [OF k'(3)] same_but_stat_fields(1) [OF fr(17)]
  show ?thesis by blast
qed

subsection \<open>Suspending and resuming\<close>

text \<open>Taking a thread off its list, into a state in which it is on none.\<close>

lemma sched_take_off:
  assumes inv: "sched_inv k" and t: "t \<noteq> RT_NULL" "prio_ok (threads k t)"
    and s: "s AND 15 = RT_THREAD_SUSPEND \<or> s AND 15 = RT_THREAD_CLOSE"
  shows "\<exists>k0. rt_schedule_remove_thread t k = Some k0 \<and> threads k0 = threads k
     \<and> sched_inv (upd_thread t (\<lambda>th. th\<lparr>stat := s\<rparr>) k0)
     \<and> sched_frame k (upd_thread t (\<lambda>th. th\<lparr>stat := s\<rparr>) k0)
     \<and> tlists k0 = fam_remove t (tlists k) \<and> rt_current_thread k0 = rt_current_thread k"
proof -
  let ?l = "fam_remove t (tlists k)"
  let ?g = "if ?l (Ready (tprio k t)) = [] then ready_priority_group k AND NOT (push_bit (tprio k t) 1)
       else ready_priority_group k"
  let ?k = "k\<lparr>tlists := ?l, ready_priority_group := ?g\<rparr>"
  let ?th = "threads k t\<lparr>stat := s\<rparr>"
  have "core_inv {t} ?k" using core_remove [OF sched_inv_core [OF inv] t(2) refl refl] by simp
  then have "core_inv {} (?k\<lparr>threads := (threads ?k)(t := ?th)\<rparr>)"
    by (rule core_upd_thread) (use t s remove_detaches [of t "tlists k"] in \<open>auto simp: prio_ok_def\<close>)
  then have "sched_inv (?k\<lparr>threads := (threads ?k)(t := ?th)\<rparr>)"
    using inv s by (auto simp: sched_inv_def tstat_def on_ready_def fam_remove_def)
  then show ?thesis
    using remove_thread_eq [OF t] by (simp add: upd_thread_def sched_frame_def)
qed

lemma live_prio: "kinv b k \<Longrightarrow> live k t \<Longrightarrow> prio_ok (threads k t)"
  using core_invD(9) [OF sched_inv_core [OF kinvD(1)], of b k t] by (auto simp: live_def)

lemma tstat_upd: "tstat (upd_thread t f k) u = (if u = t then stat (f (threads k t)) AND 15 else tstat k u)"
  by (simp add: tstat_def upd_thread_def)

text \<open>Stopping the timer of a live thread, whatever it was doing.\<close>

lemma stop_own:
  assumes "timer_inv b k" "is_class k x RT_Object_Class_Timer"
  shows "\<exists>e k'. rt_timer_stop x k = Some (e, k') \<and> timer_inv b k' \<and> kframe k k'
     \<and> timer_list k' = removeAll x (timer_list k) \<and> threads k' = threads k \<and> tlists k' = tlists k
     \<and> ready_priority_group k' = ready_priority_group k \<and> rt_current_thread k' = rt_current_thread k
     \<and> timers k' = timers k"
proof -
  obtain e k' where k': "rt_timer_stop x k = Some (e, k')" "timer_inv b k'"
    "k' = k\<lparr>timer_list := removeAll x (timer_list k), objs := (objs k)
         (x := (objs k x)\<lparr>flag := flag (objs k x) AND NOT RT_TIMER_FLAG_ACTIVATED\<rparr>)\<rparr>"
    using timer_stop_inv [OF assms] by blast
  have "(flag (objs k x) AND NOT RT_TIMER_FLAG_ACTIVATED) AND RT_TIMER_FLAG_PERIODIC
      = flag (objs k x) AND RT_TIMER_FLAG_PERIODIC"
    by (rule bit_word_eqI) (auto simp: bit_simps bit_2_iff)
  then have "kframe k k'" using assms(2) by (simp add: kframe_def k'(3))
  with k' show ?thesis by simp
qed

lemma suspend_ok:
  assumes inv: "kinv b k" and t: "tstat k t \<in> {RT_THREAD_READY, RT_THREAD_RUNNING}"
  shows "\<exists>k'. rt_thread_suspend t k = Some (RT_EOK, k') \<and> kinv b k' \<and> kframe k k'
     \<and> tstat k' t = RT_THREAD_SUSPEND \<and> (\<forall>u. u \<noteq> t \<longrightarrow> tstat k' u = tstat k u)
     \<and> tlists k' = fam_remove t (tlists k) \<and> timer_list k' = timer_list k \<and> timers k' = timers k
     \<and> rt_current_thread k' = rt_current_thread k
     \<and> (\<forall>u. error (threads k' u) = error (threads k u))"
proof -
  have lt: "live k t" using t by (auto simp: live_def)
  note own = own_timerD [OF kinvD(3) [OF inv lt]]
  let ?s = "RT_THREAD_SUSPEND OR (stat (threads k t) AND NOT RT_THREAD_STAT_MASK)"
  obtain k0 where k0: "rt_schedule_remove_thread t k = Some k0" "threads k0 = threads k"
    "sched_inv (upd_thread t (\<lambda>th. th\<lparr>stat := ?s\<rparr>) k0)"
    "sched_frame k (upd_thread t (\<lambda>th. th\<lparr>stat := ?s\<rparr>) k0)" "tlists k0 = fam_remove t (tlists k)"
    "rt_current_thread k0 = rt_current_thread k"
    using sched_take_off [OF kinvD(1) [OF inv] own(7) live_prio [OF inv lt], of ?s] by auto
  let ?k1 = "upd_thread t (\<lambda>th. th\<lparr>stat := ?s\<rparr>) k0"
  let ?x = "thread_timer (threads k t)"
  note fr = sched_frame_fields [OF k0(4)]
  have ti: "timer_inv b ?k1" using kinvD(2) [OF inv] timer_inv_cong [of ?k1 k b] fr(1,5-7) by simp
  have xc: "is_class ?k1 ?x RT_Object_Class_Timer" using own(2) fr(1) by (simp add: is_class_def)
  obtain e k' where k': "rt_timer_stop ?x ?k1 = Some (e, k')" "timer_inv b k'" "kframe ?k1 k'"
    "timer_list k' = removeAll ?x (timer_list ?k1)" "threads k' = threads ?k1" "tlists k' = tlists ?k1"
    "ready_priority_group k' = ready_priority_group ?k1" "rt_current_thread k' = rt_current_thread ?k1"
    "timers k' = timers ?k1"
    using stop_own [OF ti xc] by blast
  have frame: "kframe k k'" using sched_frame_kframe [OF k0(4)] k'(3) by (rule kframe_trans)
  have tl: "timer_list k' = timer_list k" using k'(4) fr(6) timer_off [OF inv lt] t by auto
  have st: "tstat k' u = (if u = t then RT_THREAD_SUSPEND else tstat k u)" for u
    using k0(2) by (simp add: tstat_def k'(5) upd_thread_def)
  have si: "sched_inv k'" using k0(3) sched_inv_cong [OF k'(5-8)] by simp
  have "kinv b k'"
    by (rule kinv_step_one [OF inv frame si k'(2) lt st]) (use tl in auto)
  moreover have "rt_thread_suspend t k = Some (RT_EOK, k')"
    using own(1,7) t k0(1,2) k'(1) inv
    by (auto simp: rt_thread_suspend_def tstat_def rt_thread_self_def upd_thread_def
        kinv_def sched_inv_def Let_def)
  moreover have "error (threads k' u) = error (threads k u)" for u
    using k0(2) by (simp add: k'(5) upd_thread_def)
  ultimately show ?thesis using frame st tl k'(6,8,9) k0(5,6) fr(5) by (simp add: upd_thread_def)
qed

lemma suspend_refused:
  assumes "is_class k t RT_Object_Class_Thread" "tstat k t \<notin> {RT_THREAD_READY, RT_THREAD_RUNNING}"
  shows "rt_thread_suspend t k = Some (- RT_ERROR, k)"
  using assms by (auto simp: rt_thread_suspend_def tstat_def is_class_def)

lemma detached_fam_remove: "seq_detached t (fam_remove t f)"
  by (rule remove_detaches)

text \<open>A thread that is not ready leaves its list without any other change to the scheduler.\<close>

lemma sched_unlink_unready:
  assumes inv: "sched_inv k" and t: "tstat k t \<noteq> RT_THREAD_READY"
  shows "sched_inv (tlist_remove t k)"
proof -
  have "t \<notin> set (tlists k (Ready p))" for p
    using core_invD(3) [OF sched_inv_core [OF inv], of t p] t by auto
  then have r: "fam_remove t (tlists k) (Ready p) = tlists k (Ready p)" for p
    by (simp add: fam_remove_def)
  have sub: "set (fam_remove t (tlists k) h) \<subseteq> set (tlists k h)" for h by (auto simp: fam_remove_def)
  have "core_inv {} (k\<lparr>tlists := fam_remove t (tlists k)\<rparr>)"
    unfolding core_inv_def
    using core_invD [OF sched_inv_core [OF inv]] list_family_remove [of "tlists k" t] sub
    by (simp add: r tstat_def on_ready_def) blast
  then show ?thesis
    using inv by (simp add: sched_inv_def tlist_remove_def tstat_def on_ready_def r)
qed

lemma sched_unlink: "sched_inv k \<Longrightarrow> tstat k t = RT_THREAD_SUSPEND \<Longrightarrow> sched_inv (tlist_remove t k)"
  by (rule sched_unlink_unready) auto

lemma resume_ok:
  assumes inv: "kinv b k" and t: "tstat k t = RT_THREAD_SUSPEND"
  shows "\<exists>k'. rt_thread_resume t k = Some (RT_EOK, k') \<and> kinv b k' \<and> kframe k k'
     \<and> tstat k' t = (if t = rt_current_thread k then RT_THREAD_RUNNING else RT_THREAD_READY)
     \<and> (\<forall>u. u \<noteq> t \<longrightarrow> tstat k' u = tstat k u)
     \<and> tlists k' = (if t = rt_current_thread k then fam_remove t (tlists k)
         else seq_insert_before (Ready (tprio k t)) t (fam_remove t (tlists k)))
     \<and> rt_current_thread k' = rt_current_thread k
     \<and> timer_list k' = removeAll (thread_timer (threads k t)) (timer_list k)
     \<and> (\<forall>u. error (threads k' u) = error (threads k u))"
proof -
  have lt: "live k t" using t by (auto simp: live_def)
  note own = own_timerD [OF kinvD(3) [OF inv lt]]
  let ?x = "thread_timer (threads k t)" and ?k0 = "tlist_remove t k"
  have si: "sched_inv ?k0" by (rule sched_unlink [OF kinvD(1) [OF inv] t])
  have ti: "timer_inv b ?k0"
    using kinvD(2) [OF inv] timer_inv_cong [of ?k0 k b] by (simp add: tlist_remove_def)
  have fr0: "kframe k ?k0" by (simp add: kframe_def tlist_remove_def)
  have xc: "is_class ?k0 ?x RT_Object_Class_Timer" using own(2) by (simp add: is_class_def tlist_remove_def)
  obtain e k1 where k1: "rt_timer_stop ?x ?k0 = Some (e, k1)" "timer_inv b k1" "kframe ?k0 k1"
    "timer_list k1 = removeAll ?x (timer_list ?k0)" "threads k1 = threads ?k0" "tlists k1 = tlists ?k0"
    "ready_priority_group k1 = ready_priority_group ?k0" "rt_current_thread k1 = rt_current_thread ?k0"
    "timers k1 = timers ?k0"
    using stop_own [OF ti xc] by blast
  have th1: "threads k1 = threads k" by (simp add: k1(5) tlist_remove_def)
  have l1: "tlists k1 = fam_remove t (tlists k)" by (simp add: k1(6) tlist_remove_def)
  have si1: "sched_inv k1" using si sched_inv_cong [OF k1(5-8)] by simp
  have c1: "rt_current_thread k1 = rt_current_thread k" by (simp add: k1(8) tlist_remove_def)
  obtain k' where k': "rt_schedule_insert_thread t k1 = Some k'" "sched_inv k'" "sched_frame k1 k'"
    "rt_current_thread k' = rt_current_thread k1"
    "tlists k' = (if t = rt_current_thread k1 then tlists k1
         else seq_insert_before (Ready (tprio k1 t)) t (tlists k1))"
    "tstat k' t = (if t = rt_current_thread k1 then RT_THREAD_RUNNING else RT_THREAD_READY)"
    "\<forall>u. u \<noteq> t \<longrightarrow> tstat k' u = tstat k1 u"
    using schedule_insert_thread_inv [OF si1, of t] remove_detaches [of t "tlists k"] l1 th1 own(7)
      live_prio [OF inv lt] by auto
  note fr = sched_frame_fields [OF k'(3)]
  have frame: "kframe k k'"
    using kframe_trans [OF kframe_trans [OF fr0 k1(3)] sched_frame_kframe [OF k'(3)]] .
  have ti': "timer_inv b k'" using k1(2) timer_inv_cong [of k' k1 b] fr(1,5-7) by simp
  have tl: "timer_list k' = removeAll ?x (timer_list k)" using fr(6) k1(4) by (simp add: tlist_remove_def)
  let ?s = "if t = rt_current_thread k then RT_THREAD_RUNNING else RT_THREAD_READY"
  have st: "tstat k' u = (if u = t then ?s else tstat k u)" for u
    using k'(6,7) c1 th1 by (simp add: tstat_def)
  have "kinv b k'"
    by (rule kinv_step_one [OF inv frame k'(2) ti' lt st]) (use tl in auto)
  moreover have "rt_thread_resume t k = Some (RT_EOK, k')"
    using own(1,7) t k1(1) k'(1)
    by (simp add: rt_thread_resume_def tstat_def tlist_remove_def Let_def)
  moreover have "error (threads k' u) = error (threads k u)" for u
    using same_but_stat_fields(1) [OF fr(17), of u] th1 by simp
  ultimately show ?thesis using frame st tl k'(4,5) c1 l1 th1 by simp
qed

lemma resume_refused:
  assumes "is_class k t RT_Object_Class_Thread" "tstat k t \<noteq> RT_THREAD_SUSPEND"
  shows "rt_thread_resume t k = Some (- RT_ERROR, k)"
  using assms by (auto simp: rt_thread_resume_def tstat_def is_class_def)

subsection \<open>Arming the timer of a suspended thread\<close>

lemma arm_ok:
  assumes inv: "kinv b k" and t: "tstat k t = RT_THREAD_SUSPEND" and tick: "tick < 0x7fffffff"
  shows "\<exists>k'. arm_timer t tick k = Some k' \<and> kinv b k' \<and> kframe k k'
     \<and> threads k' = threads k \<and> tlists k' = tlists k \<and> rt_current_thread k' = rt_current_thread k
     \<and> set (timer_list k') = insert (thread_timer (threads k t)) (set (timer_list k))
     \<and> timeout_tick (timers k' (thread_timer (threads k t))) = rt_tick k + tick
     \<and> (\<forall>x. x \<noteq> thread_timer (threads k t) \<longrightarrow> timers k' x = timers k x)"
proof -
  have lt: "live k t" using t by (auto simp: live_def)
  note own = own_timerD [OF kinvD(3) [OF inv lt]]
  let ?x = "thread_timer (threads k t)"
  let ?k0 = "upd_timer ?x (\<lambda>tm. tm\<lparr>tm_init_tick := tick\<rparr>) k"
  have "due b ?k0 u = due b k u" for u by (simp add: due_def upd_timer_def)
  then have ti: "timer_inv b ?k0" using kinvD(2) [OF inv]
    unfolding timer_inv_def by (simp add: upd_timer_def is_class_def)
  have xc: "is_class ?k0 ?x RT_Object_Class_Timer" using own(2) by (simp add: is_class_def upd_timer_def)
  have it: "tm_init_tick (timers ?k0 ?x) < 0x7fffffff" using tick by (simp add: upd_timer_def)
  obtain k' where k': "rt_timer_start ?x ?k0 = Some (RT_EOK, k')"
    "k' = ?k0\<lparr>objs := (objs k)(?x := (objs k ?x)\<lparr>flag := flag (objs k ?x) OR RT_TIMER_FLAG_ACTIVATED\<rparr>),
       timers := (timers ?k0)(?x := (timers ?k0 ?x)\<lparr>timeout_tick := rt_tick k + tick\<rparr>),
       timer_list := timer_list k'\<rparr>"
    using timer_start_eq [OF xc it] by (auto simp: upd_timer_def)
  have ti': "timer_inv b k'" and set: "set (timer_list k') = insert ?x (set (timer_list k))"
    using timer_start_inv [OF ti xc it k'(1)] by (auto simp: upd_timer_def)
  have k'': "threads k' = threads k" "tlists k' = tlists k" "rt_current_thread k' = rt_current_thread k"
    "ready_priority_group k' = ready_priority_group k"
    "timers k' = (timers k)(?x := (timers k ?x)\<lparr>tm_init_tick := tick, timeout_tick := rt_tick k + tick\<rparr>)"
    by (subst k'(2), simp add: upd_timer_def)+
  have "(flag (objs k ?x) OR RT_TIMER_FLAG_ACTIVATED) AND RT_TIMER_FLAG_PERIODIC
      = flag (objs k ?x) AND RT_TIMER_FLAG_PERIODIC"
    by (rule bit_word_eqI) (auto simp: bit_simps bit_2_iff bit_1_iff)
  then have frame: "kframe k k'"
    by (subst k'(2)) (use own(2,4) in \<open>simp add: kframe_def upd_timer_def\<close>)
  have si: "sched_inv k'" using kinvD(1) [OF inv] sched_inv_cong [OF k''(1,2,4,3)] by simp
  have st: "tstat k' u = (if u = t then RT_THREAD_SUSPEND else tstat k u)" for u
    using k''(1) t by (simp add: tstat_def)
  have "kinv b k'"
    by (rule kinv_step_one [OF inv frame si ti' lt st]) (use set in auto)
  moreover have "arm_timer t tick k = Some k'"
    using own(2) k'(1) by (simp add: arm_timer_def rt_timer_control_def upd_timer_def is_class_def Let_def)
  ultimately show ?thesis using frame set k'' by simp
qed

subsection \<open>Changing a priority\<close>

abbreviation (input) with_prio :: "ptr \<Rightarrow> u8 \<Rightarrow> kernel \<Rightarrow> kernel" where
  "with_prio t p k \<equiv> k\<lparr>threads := (threads k)(t := (threads k t)
     \<lparr>current_priority := p, number_mask := push_bit (unat p) 1\<rparr>)\<rparr>"

lemma thread_same_prio:
  "thread_same a b \<Longrightarrow> thread_same (a\<lparr>current_priority := p, number_mask := q\<rparr>) (b\<lparr>current_priority := p, number_mask := q\<rparr>)"
  by (cases a; cases b) (simp add: thread_same_def)

lemma kframe_with_prio: "kframe k k' \<Longrightarrow> kframe (with_prio t p k) (with_prio t p k')"
  unfolding kframe_def is_class_def by (cases k; cases k') (auto simp: thread_same_prio)

lemma with_prio_same: "prio_ok (threads k t) \<Longrightarrow> with_prio t (current_priority (threads k t)) k = k"
  by (simp add: prio_ok_def fun_upd_idem)

lemma set_priority_eq: "unat p < 32 \<Longrightarrow> set_priority t p k = Some (with_prio t p k)"
  by (simp add: set_priority_def upd_thread_def)

lemma sched_with_prio:
  assumes inv: "sched_inv k" and t: "tstat k t \<noteq> RT_THREAD_READY" and p: "unat p < 32"
  shows "sched_inv (with_prio t p k)"
proof -
  let ?k = "with_prio t p k"
  note c = core_invD [OF sched_inv_core [OF inv]]
  have st: "tstat ?k u = tstat k u" for u by (simp add: tstat_def)
  have pr: "tprio ?k u = tprio k u" if "u \<noteq> t" for u using that by simp
  have po: "prio_ok (threads ?k u)" if "prio_ok (threads k u)" for u using that p by (simp add: prio_ok_def)
  have on: "on_ready ?k u = on_ready k u" for u by (simp add: on_ready_def)
  have "tprio ?k u = q" if "u \<in> set (tlists k (Ready q))" for u q
    using c(2,3) [OF that] t pr [of u] by metis
  then have "core_inv {} ?k"
    unfolding core_inv_def using c(1,3-11) po st on by simp
  then show ?thesis using inv st on by (simp add: sched_inv_def)
qed

lemma core_with_prio:
  assumes "core_inv {t} k" "seq_detached t (tlists k)" "t \<noteq> RT_NULL" "unat p < 32"
  shows "core_inv {t} (with_prio t p k)"
  by (rule core_upd_thread [OF assms(1-3)]) (use assms(4) in \<open>auto simp: prio_ok_def\<close>)

text \<open>For a ready thread: off its list, new priority, onto the list of that priority.\<close>

lemma ready_change_prio:
  assumes inv: "sched_inv k" and t: "tstat k t = RT_THREAD_READY" and p: "unat p < 32"
  shows "\<exists>k0 k'. rt_schedule_remove_thread t k = Some k0 \<and> set_priority t p k0 = Some (with_prio t p k0)
     \<and> rt_schedule_insert_thread t (with_prio t p k0) = Some k' \<and> sched_inv k'
     \<and> sched_frame (with_prio t p k) k' \<and> rt_current_thread k' = rt_current_thread k
     \<and> (\<forall>u. tstat k' u = tstat k u) \<and> tlists k' = seq_insert_before (Ready (unat p)) t (fam_remove t (tlists k))"
proof -
  have c: "core_inv {} k" using inv by (rule sched_inv_core)
  have po: "prio_ok (threads k t)" using core_invD(9) [OF c, of t] t by blast
  have t0: "t \<noteq> RT_NULL"
  proof
    assume "t = RT_NULL"
    with core_invD(11) [OF c] t show False by simp
  qed
  have nc: "t \<noteq> rt_current_thread k"
    using core_invD(4) [OF c, of t] t inv by (auto simp: sched_inv_def)
  let ?l = "fam_remove t (tlists k)"
  let ?g = "if ?l (Ready (tprio k t)) = [] then ready_priority_group k AND NOT (push_bit (tprio k t) 1)
       else ready_priority_group k"
  let ?k0 = "k\<lparr>tlists := ?l, ready_priority_group := ?g\<rparr>"
  let ?k1 = "with_prio t p ?k0"
  have c0: "core_inv {t} ?k0" using core_remove [OF c po refl refl] by simp
  have det: "seq_detached t (tlists ?k0)" using remove_detaches [of t "tlists k"] by simp
  have c1: "core_inv {t} ?k1" by (rule core_with_prio [OF c0 det t0 p])
  have det1: "seq_detached t (tlists ?k1)" using remove_detaches [of t "tlists k"] by simp
  have po1: "prio_ok (threads ?k1 t)" using p by (simp add: prio_ok_def)
  have nc1: "t \<noteq> rt_current_thread ?k1" using nc by simp
  obtain k' where k': "rt_schedule_insert_thread t ?k1 = Some k'" "core_inv {} k'" "sched_frame ?k1 k'"
    "tlists k' = seq_insert_before (Ready (tprio ?k1 t)) t (tlists ?k1)" "tstat k' t = RT_THREAD_READY"
    "\<forall>u. u \<noteq> t \<longrightarrow> tstat k' u = tstat ?k1 u" "rt_current_thread k' = rt_current_thread ?k1"
    using core_insert_thread [OF c1 det1 t0 nc1 po1] by blast
  have st: "tstat k' u = tstat k u" for u using k'(5,6) t by (cases "u = t") (simp_all add: tstat_def)
  have l': "tlists k' = seq_insert_before (Ready (unat p)) t ?l" using k'(4) by simp
  have "\<not> on_ready k' (rt_current_thread k)"
    using inv nc by (auto simp: sched_inv_def on_ready_def l' seq_insert_before_def fam_remove_def)
  then have "sched_inv k'" using inv k'(2,7) st by (simp add: sched_inv_def)
  moreover have "sched_frame (with_prio t p k) ?k1" by (simp add: sched_frame_def)
  then have "sched_frame (with_prio t p k) k'" using k'(3) by (rule sched_frame_trans)
  ultimately show ?thesis
    using remove_thread_eq [OF t0 po] set_priority_eq [OF p] k'(1,7) st l'
    by (intro exI [of _ ?k0] exI [of _ k']) simp
qed

lemma change_prio_ok:
  assumes inv: "kinv b k" and t: "live k t" and p: "unat p < 32"
  shows "\<exists>k'. rt_thread_control t (Change_priority p) k = Some (RT_EOK, k') \<and> kinv b k'
     \<and> kframe (with_prio t p k) k' \<and> (\<forall>u. tstat k' u = tstat k u)
     \<and> (\<forall>h. (\<forall>q. h \<noteq> Ready q) \<longrightarrow> tlists k' h = tlists k h)
     \<and> (\<forall>u. error (threads k' u) = error (threads k u))
     \<and> rt_current_thread k' = rt_current_thread k \<and> timers k' = timers k \<and> timer_list k' = timer_list k \<and> objs k' = objs k"
proof -
  note own = own_timerD [OF kinvD(3) [OF inv t]]
  have fin: "kinv b k'" if si: "sched_inv k'" and fr: "sched_frame (with_prio t p k) k'" and st: "\<forall>u. tstat k' u = tstat k u" for k'
  proof -
    note f = sched_frame_fields [OF fr]
    have "thread_timer (threads k' u) = thread_timer (threads k u)" for u
      using same_but_stat_fields(9) [OF f(17), of u] by simp
    then show ?thesis
      using inv si st f(1,5-7)
      by (simp add: kinv_def timer_inv_def due_def live_def own_timer_def timers_wait_def is_class_def)
  qed
  show ?thesis
  proof (cases "tstat k t = RT_THREAD_READY")
    case False
    let ?k = "with_prio t p k"
    have "rt_thread_control t (Change_priority p) k = Some (RT_EOK, ?k)"
      using False own(1,7) set_priority_eq [OF p] by (simp add: rt_thread_control_def tstat_def)
    moreover have st: "\<forall>u. tstat ?k u = tstat k u" by (simp add: tstat_def)
    moreover have "kinv b ?k"
      by (rule fin [OF sched_with_prio [OF kinvD(1) [OF inv] False p] sched_frame_refl st])
    ultimately show ?thesis by simp
  next
    case True
    obtain k0 k' where k': "rt_schedule_remove_thread t k = Some k0" "set_priority t p k0 = Some (with_prio t p k0)"
      "rt_schedule_insert_thread t (with_prio t p k0) = Some k'" "sched_inv k'"
      "sched_frame (with_prio t p k) k'" "rt_current_thread k' = rt_current_thread k"
      "\<forall>u. tstat k' u = tstat k u" "tlists k' = seq_insert_before (Ready (unat p)) t (fam_remove t (tlists k))"
      using ready_change_prio [OF kinvD(1) [OF inv] True p] by blast
    have "rt_thread_control t (Change_priority p) k = Some (RT_EOK, k')"
      using True own(1,7) k'(1-3) by (simp add: rt_thread_control_def tstat_def)
    moreover have "tlists k' h = tlists k h" if "\<forall>q. h \<noteq> Ready q" for h
    proof -
      have "t \<notin> set (tlists k h)"
        using that True core_invD(5-7) [OF sched_inv_core [OF kinvD(1) [OF inv]], of t] by (cases h) auto
      then show ?thesis using that by (simp add: k'(8) seq_insert_before_def fam_remove_def)
    qed
    ultimately show ?thesis
      using fin [OF k'(4,5,7)] k'(6,7) sched_frame_kframe [OF k'(5)] sched_frame_fields(1,5,6) [OF k'(5)]
        same_but_stat_fields(1) [OF sched_frame_fields(17) [OF k'(5)]] by auto
  qed
qed

text \<open>The invariant does not read a thread's other fields.\<close>

lemma kinv_upd_thread:
  assumes "kinv b k" "stat th = stat (threads k t)" "current_priority th = current_priority (threads k t)"
    "number_mask th = number_mask (threads k t)" "thread_timer th = thread_timer (threads k t)"
  shows "kinv b (k\<lparr>threads := (threads k)(t := th)\<rparr>)"
proof -
  let ?k = "k\<lparr>threads := (threads k)(t := th)\<rparr>"
  have st: "tstat ?k u = tstat k u" "thread_timer (threads ?k u) = thread_timer (threads k u)" for u
    using assms by (simp_all add: tstat_def)
  have "sched_inv ?k" by (rule sched_inv_thread [OF kinvD(1) [OF assms(1)] assms(2-4)])
  moreover have "timer_inv b ?k" using kinvD(2) [OF assms(1)] by (simp add: timer_inv_def due_def is_class_def)
  moreover have "own_timer ?k u = own_timer k u" for u
    using st(2) by (simp add: own_timer_def is_class_def Let_def)
  moreover have "timers_wait ?k = timers_wait k" using st by (simp add: timers_wait_def)
  ultimately show ?thesis using assms(1) st by (simp add: kinv_def live_def)
qed

end
