(* ===== verification/RT_Tick.thy ===== *)
theory RT_Tick
  imports RT_KInv
begin

text \<open>
  The tick interrupt: \<^verbatim>\<open>rt_tick_increase\<close> with \<^verbatim>\<open>rt_timer_check\<close> and \<^verbatim>\<open>rt_thread_timeout\<close>. The
  contract \<open>timeout_calls\<close> of the tick check is discharged here for the kernel's own timeout
  function, next to timeout functions of the application that leave the kernel structures alone.
  Sleeping and its timed wake-up follow.
\<close>

subsection \<open>A timeout\<close>

lemma timeout_ok:
  assumes inv: "kinv b k" and t: "tstat k t = RT_THREAD_SUSPEND"
    and off: "thread_timer (threads k t) \<notin> set (timer_list k)" and cur: "rt_current_thread k \<noteq> RT_NULL"
  shows "\<exists>k'. rt_thread_timeout t k = Some k' \<and> kinv b k' \<and> kframe k k'
     \<and> timers k' = timers k \<and> objs k' = objs k \<and> timer_list k' = timer_list k
     \<and> rt_current_thread k' \<noteq> RT_NULL \<and> tstat k' t \<in> {RT_THREAD_READY, RT_THREAD_RUNNING}
     \<and> error (threads k' t) = - RT_ETIMEOUT
     \<and> (\<forall>u. u \<noteq> t \<longrightarrow> error (threads k' u) = error (threads k u) \<and> (tstat k' u = tstat k u
          \<or> tstat k u \<in> {RT_THREAD_READY, RT_THREAD_RUNNING}
             \<and> tstat k' u \<in> {RT_THREAD_READY, RT_THREAD_RUNNING}))
     \<and> (\<forall>x. tlists k' (Waiters x) = removeAll t (tlists k (Waiters x)))
     \<and> (scheduler_lock_nest k = 0 \<longrightarrow> top_running k')"
proof -
  have lt: "live k t" using t by (auto simp: live_def)
  note own = own_timerD [OF kinvD(3) [OF inv lt]]
  let ?e = "upd_thread t (\<lambda>th. th\<lparr>error := - RT_ETIMEOUT\<rparr>) k"
  let ?k0 = "tlist_remove t ?e"
  have "sched_inv ?e"
    unfolding upd_thread_def by (rule sched_inv_thread [OF kinvD(1) [OF inv]]) auto
  then have si: "sched_inv ?k0" by (rule sched_unlink) (use t in \<open>simp add: tstat_def upd_thread_def\<close>)
  have det: "seq_detached t (tlists ?k0)" using remove_detaches by (simp add: tlist_remove_def)
  have po: "prio_ok (threads ?k0 t)"
    using live_prio [OF inv lt] by (simp add: tlist_remove_def upd_thread_def prio_ok_def)
  obtain k1 where k1: "rt_schedule_insert_thread t ?k0 = Some k1" "sched_inv k1" "sched_frame ?k0 k1"
    "rt_current_thread k1 = rt_current_thread ?k0"
    "tstat k1 t = (if t = rt_current_thread ?k0 then RT_THREAD_RUNNING else RT_THREAD_READY)"
    "\<forall>u. u \<noteq> t \<longrightarrow> tstat k1 u = tstat ?k0 u"
    "tlists k1 = (if t = rt_current_thread ?k0 then tlists ?k0
         else seq_insert_before (Ready (tprio ?k0 t)) t (tlists ?k0))"
    using schedule_insert_thread_inv [OF si det own(7) po] by blast
  note fr1 = sched_frame_fields [OF k1(3)]
  have er1: "error (threads k1 u) = (if u = t then - RT_ETIMEOUT else error (threads k u))" for u
    using same_but_stat_fields(1) [OF fr1(17), of u] by (simp add: tlist_remove_def upd_thread_def)
  have f0: "kframe k ?k0" by (simp add: kframe_def tlist_remove_def upd_thread_def)
  have f1: "kframe k k1" using kframe_trans [OF f0 sched_frame_kframe [OF k1(3)]] .
  have same: "timers k1 = timers k" "objs k1 = objs k" "timer_list k1 = timer_list k" "rt_tick k1 = rt_tick k"
    "rt_current_thread k1 = rt_current_thread k"
    using fr1(1,5-7) k1(4) by (simp_all add: tlist_remove_def upd_thread_def)
  have st: "tstat k1 u = (if u = t then tstat k1 t else tstat k u)" for u
    using k1(6) by (simp add: tlist_remove_def upd_thread_def tstat_def)
  have "timer_inv b k1" using kinvD(2) [OF inv] timer_inv_cong [of k1 k b] same by simp
  from kinv_step_one [OF inv f1 k1(2) this lt st]
  have "kinv b k1" using off by (auto simp: same)
  then obtain k' where k': "rt_schedule k1 = Some k'" "kinv b k'" "kframe k1 k'" "stat_moves k1 k'"
    "rt_current_thread k' \<noteq> RT_NULL" "\<forall>t. error (threads k' t) = error (threads k1 t)"
    "timers k' = timers k1" "timer_list k' = timer_list k1" "objs k' = objs k1"
    "\<forall>x. tlists k' (Waiters x) = tlists k1 (Waiters x)"
    "scheduler_lock_nest k1 = 0 \<and>
       (tstat k1 (rt_current_thread k1) = RT_THREAD_RUNNING \<or> (\<exists>t. on_ready k1 t)) \<longrightarrow> top_running k'"
    using kinv_schedule [of b k1] cur same(5) by auto
  have top: "scheduler_lock_nest k = 0 \<longrightarrow> top_running k'"
    using k'(11) k1(4,5) core_invD(4) [OF sched_inv_core [OF k1(2)], of t] kframe_fields(2) [OF f1]
    by (auto split: if_splits)
  have wl: "tlists k' (Waiters x) = removeAll t (tlists k (Waiters x))" for x
    using k'(10) by (simp add: k1(7) seq_insert_before_def tlist_remove_def upd_thread_def fam_remove_def)
  have "tstat k' t \<in> {RT_THREAD_READY, RT_THREAD_RUNNING}"
    using k'(4) k1(5) by (auto simp: stat_moves_def dest!: spec [of _ t] split: if_splits)
  moreover have "tstat k' u = tstat k u \<or> tstat k u \<in> {RT_THREAD_READY, RT_THREAD_RUNNING}
      \<and> tstat k' u \<in> {RT_THREAD_READY, RT_THREAD_RUNNING}" if "u \<noteq> t" for u
    using k'(4) st [of u] that unfolding stat_moves_def by (auto dest!: spec [of _ u])
  moreover have "rt_thread_timeout t k = Some k'"
    using own(1,7) t k1(1) k'(1)
    by (simp add: rt_thread_timeout_def tstat_def is_class_def upd_thread_def Let_def)
  ultimately show ?thesis using k' same er1 wl top kframe_trans [OF f1 k'(3)] by simp
qed

subsection \<open>The contract of the tick check\<close>

text \<open>A timeout function of the application that works on application memory only.\<close>

definition app_ok :: "(ptr \<Rightarrow> ptr \<Rightarrow> kernel \<Rightarrow> kernel option) \<Rightarrow> ptr \<Rightarrow> ptr \<Rightarrow> bool" where
  "app_ok app a p \<longleftrightarrow> (\<forall>k. \<exists>m. app a p k = Some (k\<lparr>bmem := m\<rparr>))"

definition tick_inv :: "(ptr \<Rightarrow> ptr \<Rightarrow> kernel \<Rightarrow> kernel option) \<Rightarrow> u32 \<Rightarrow> kernel \<Rightarrow> bool" where
  "tick_inv app b k \<longleftrightarrow> kinv b k \<and> rt_current_thread k \<noteq> RT_NULL
     \<and> (\<forall>x \<in> set (timer_list k).
          (flag (objs k x) AND RT_TIMER_FLAG_PERIODIC \<noteq> 0 \<longrightarrow>
             0 < tm_init_tick (timers k x) \<and> tm_init_tick (timers k x) < 0x7fffffff)
        \<and> (\<forall>a. tm_func (timers k x) = App_timeout a \<longrightarrow> app_ok app a (tm_parameter (timers k x))))"

text \<open>
  What a check does to the threads: a suspended thread stays as it is, or its timer was active
  and due and it is now ready or running with a timeout error.
\<close>

definition thread_wakes :: "u32 \<Rightarrow> kernel \<Rightarrow> kernel \<Rightarrow> ptr \<Rightarrow> bool" where
  "thread_wakes b k k' t \<longleftrightarrow> (let x = thread_timer (threads k t) in
     if tstat k t = RT_THREAD_SUSPEND then
       tstat k' t = RT_THREAD_SUSPEND \<and> error (threads k' t) = error (threads k t)
         \<and> (x \<in> set (timer_list k') \<longleftrightarrow> x \<in> set (timer_list k))
         \<and> timeout_tick (timers k' x) = timeout_tick (timers k x)
       \<or> tstat k' t \<in> {RT_THREAD_READY, RT_THREAD_RUNNING} \<and> error (threads k' t) = - RT_ETIMEOUT
         \<and> x \<in> set (timer_list k) \<and> due b k x \<le> unat (rt_tick k - b)
     else error (threads k' t) = error (threads k t) \<and> (tstat k' t = tstat k t
       \<or> tstat k t \<in> {RT_THREAD_READY, RT_THREAD_RUNNING} \<and> tstat k' t \<in> {RT_THREAD_READY, RT_THREAD_RUNNING}))"

definition wakes :: "u32 \<Rightarrow> kernel \<Rightarrow> kernel \<Rightarrow> bool" where
  "wakes b k k' \<longleftrightarrow> kframe (k\<lparr>bmem := bmem k'\<rparr>) k' \<and> (\<forall>t. thread_wakes b k k' t)
     \<and> (\<forall>x. set (tlists k' (Waiters x)) \<subseteq> set (tlists k (Waiters x)))
     \<and> (scheduler_lock_nest k = 0 \<longrightarrow> top_running k \<longrightarrow> top_running k')"

lemma kframe_bmem: "kframe k k' \<Longrightarrow> kframe (k\<lparr>bmem := m\<rparr>) (k'\<lparr>bmem := m\<rparr>)"
  unfolding kframe_def is_class_def by (cases k; cases k') auto

lemma top_running_cong:
  "threads k' = threads k \<Longrightarrow> rt_current_thread k' = rt_current_thread k \<Longrightarrow> top_running k' = top_running k"
  by (simp add: top_running_def tstat_def)

lemma wakes_refl: "wakes b k k"
  by (simp add: wakes_def thread_wakes_def Let_def)

lemma wakes_frame_trans:
  assumes "kframe (k\<lparr>bmem := bmem k'\<rparr>) k'" "kframe (k'\<lparr>bmem := bmem k''\<rparr>) k''"
  shows "kframe (k\<lparr>bmem := bmem k''\<rparr>) k''"
  using kframe_bmem [OF assms(1), of "bmem k''"] assms(2) by (auto intro: kframe_trans)

lemma thread_wakes_trans:
  assumes "thread_wakes b k k' t" "thread_wakes b k' k'' t"
    and "thread_timer (threads k' t) = thread_timer (threads k t)" "rt_tick k' = rt_tick k"
  shows "thread_wakes b k k'' t"
  using assms unfolding thread_wakes_def Let_def due_def by (auto split: if_splits)

lemma wakes_trans:
  assumes a: "wakes b k k'" and c: "wakes b k' k''"
  shows "wakes b k k''"
proof -
  have f: "kframe (k\<lparr>bmem := bmem k'\<rparr>) k'" "kframe (k'\<lparr>bmem := bmem k''\<rparr>) k''"
    using a c by (simp_all add: wakes_def)
  have "thread_timer (threads k' t) = thread_timer (threads k t)" for t
    using thread_same_fields(8) [OF kframe_parts(1) [OF f(1)]] by simp
  moreover have "rt_tick k' = rt_tick k" using kframe_fields(4) [OF f(1)] by simp
  ultimately have "thread_wakes b k k'' t" for t
    using a c thread_wakes_trans [of b k k' t k''] by (simp add: wakes_def)
  moreover have "scheduler_lock_nest k' = scheduler_lock_nest k" using kframe_fields(2) [OF f(1)] by simp
  ultimately show ?thesis using a c wakes_frame_trans [OF f] unfolding wakes_def by (metis order_trans)
qed

text \<open>Taking a timer off the list, and clearing the flag of a timer that is off.\<close>

abbreviation (input) clear_active :: "ptr \<Rightarrow> kernel \<Rightarrow> kernel" where
  "clear_active x \<equiv> upd_obj x (\<lambda>ob. ob\<lparr>flag := flag ob AND NOT RT_TIMER_FLAG_ACTIVATED\<rparr>)"

lemma clear_active_frame:
  assumes "is_class k x RT_Object_Class_Timer"
  shows "kframe k (clear_active x k)"
proof -
  have "(flag (objs k x) AND NOT RT_TIMER_FLAG_ACTIVATED) AND RT_TIMER_FLAG_PERIODIC
      = flag (objs k x) AND RT_TIMER_FLAG_PERIODIC"
    by (rule bit_word_eqI) (auto simp: bit_simps bit_2_iff)
  then show ?thesis using assms by (simp add: kframe_def upd_obj_def)
qed

lemma kinv_timer_remove:
  assumes "kinv b k"
  shows "kinv b (timer_remove x k)" and "kframe k (timer_remove x k)"
proof -
  have "objs k = (objs k)(x := (objs k x)\<lparr>flag := flag (objs k x)\<rparr>)" by simp
  then have "timer_inv b (timer_remove x k)"
    using timer_remove_inv [OF kinvD(2) [OF assms], of x "flag (objs k x)"] timer_inv_cong
    by (simp add: timer_remove_def)
  then show "kinv b (timer_remove x k)"
    using assms by (auto simp: kinv_def timer_remove_def live_def own_timer_def timers_wait_def
        tstat_def is_class_def Let_def)
  show "kframe k (timer_remove x k)" by (simp add: kframe_def timer_remove_def)
qed

lemma kinv_clear_active:
  assumes inv: "kinv b k" and x: "x \<notin> set (timer_list k)" "is_class k x RT_Object_Class_Timer"
  shows "kinv b (clear_active x k)"
proof (rule kinv_step [OF inv clear_active_frame [OF x(2)]])
  show "sched_inv (clear_active x k)" using kinvD(1) [OF inv] by (simp add: upd_obj_def)
  show "timer_inv b (clear_active x k)"
    using timer_remove_inv [OF kinvD(2) [OF inv], of x "flag (objs k x) AND NOT RT_TIMER_FLAG_ACTIVATED"] x
    by (simp add: upd_obj_def)
  show "own_timer k u" if "live (clear_active x k) u" for u
    using that kinvD(3) [OF inv, of u] by (simp add: live_def upd_obj_def tstat_def)
qed (use waitD [OF inv] in \<open>simp add: upd_obj_def tstat_def\<close>)

lemma tick_inv_frame:
  assumes "tick_inv app b k" "kinv b k'" "rt_current_thread k' \<noteq> RT_NULL" "set (timer_list k') \<subseteq> set (timer_list k)"
    and "\<And>x. x \<in> set (timer_list k') \<Longrightarrow> tm_init_tick (timers k' x) = tm_init_tick (timers k x)
       \<and> tm_func (timers k' x) = tm_func (timers k x) \<and> tm_parameter (timers k' x) = tm_parameter (timers k x)
       \<and> flag (objs k' x) AND RT_TIMER_FLAG_PERIODIC = flag (objs k x) AND RT_TIMER_FLAG_PERIODIC"
  shows "tick_inv app b k'"
  using assms unfolding tick_inv_def by (metis subsetD)

lemma call_thread:
  assumes inv: "tick_inv app b k" and tl: "timer_list k = x # r"
    and due: "due b k x \<le> unat (rt_tick k - b)" and f: "tm_func (timers k x) = Rt_thread_timeout"
  shows "\<exists>k'. rt_thread_timeout (tm_parameter (timers k x)) (timer_remove x k) = Some k'
     \<and> timers k' = timers k \<and> objs k' = objs k \<and> timer_list k' = r \<and> rt_tick k' = rt_tick k
     \<and> tick_inv app b (clear_active x k') \<and> wakes b k (clear_active x k')
     \<and> flag (objs k x) AND RT_TIMER_FLAG_PERIODIC = 0"
proof -
  let ?t = "tm_parameter (timers k x)" and ?k0 = "timer_remove x k"
  have ki: "kinv b k" and cur: "rt_current_thread k \<noteq> RT_NULL" using inv by (simp_all add: tick_inv_def)
  have xl: "x \<in> set (timer_list k)" using tl by simp
  note w = waitD [OF ki xl f]
  have lt: "live k ?t" using w by (simp add: live_def)
  note own = own_timerD [OF kinvD(3) [OF ki lt]]
  have r: "removeAll x (timer_list k) = r" "x \<notin> set r"
    using kinvD(2) [OF ki] tl by (auto simp: timer_inv_def)
  have k0: "timer_list ?k0 = r" "timers ?k0 = timers k" "objs ?k0 = objs k" "threads ?k0 = threads k"
    "rt_tick ?k0 = rt_tick k" "rt_current_thread ?k0 = rt_current_thread k" "tstat ?k0 u = tstat k u" for u
    using r by (simp_all add: timer_remove_def tstat_def)
  obtain k' where k': "rt_thread_timeout ?t ?k0 = Some k'" "kinv b k'" "kframe ?k0 k'"
    "timers k' = timers ?k0" "objs k' = objs ?k0" "timer_list k' = timer_list ?k0"
    "rt_current_thread k' \<noteq> RT_NULL" "tstat k' ?t \<in> {RT_THREAD_READY, RT_THREAD_RUNNING}"
    "error (threads k' ?t) = - RT_ETIMEOUT"
    "\<forall>u. u \<noteq> ?t \<longrightarrow> error (threads k' u) = error (threads ?k0 u) \<and> (tstat k' u = tstat ?k0 u
          \<or> tstat ?k0 u \<in> {RT_THREAD_READY, RT_THREAD_RUNNING}
             \<and> tstat k' u \<in> {RT_THREAD_READY, RT_THREAD_RUNNING})"
    "\<forall>y. tlists k' (Waiters y) = removeAll ?t (tlists ?k0 (Waiters y))"
    "scheduler_lock_nest ?k0 = 0 \<longrightarrow> top_running k'"
    using timeout_ok [OF kinv_timer_remove(1) [OF ki], of x ?t] w r k0 cur by auto
  have xc: "is_class k' x RT_Object_Class_Timer"
    using kinvD(2) [OF ki] xl k'(5) k0(3) by (simp add: timer_inv_def is_class_def)
  have fr: "kframe k (clear_active x k')"
    using kframe_trans [OF kframe_trans [OF kinv_timer_remove(2) [OF ki] k'(3)] clear_active_frame [OF xc]] .
  have kc: "kinv b (clear_active x k')" using kinv_clear_active [OF k'(2) _ xc] k'(6) k0(1) r(2) by simp
  have cl: "timer_list (clear_active x k') = r" "timers (clear_active x k') = timers k"
    "threads (clear_active x k') = threads k'" "tstat (clear_active x k') u = tstat k' u"
    "bmem (clear_active x k') = bmem k" for u
    using k'(4,6) k0 kframe_fields(13) [OF k'(3)] by (auto simp: upd_obj_def tstat_def timer_remove_def)
  have "tick_inv app b (clear_active x k')"
    by (rule tick_inv_frame [OF inv kc])
      (use k'(7) cl tl kframe_parts(4) [OF fr] in \<open>auto simp: upd_obj_def\<close>)
  moreover have tw: "thread_wakes b k (clear_active x k') u" for u
  proof (cases "u = ?t")
    case True
    then show ?thesis using w due xl k'(8,9) cl by (simp add: thread_wakes_def)
  next
    case False
    have "thread_timer (threads k u) \<noteq> x" if "tstat k u = RT_THREAD_SUSPEND"
      using own_timerD(6) [OF kinvD(3) [OF ki, of u]] that False by (auto simp: live_def)
    then show ?thesis using False k'(10) k0 cl tl by (auto simp: thread_wakes_def Let_def)
  qed
  moreover have "wakes b k (clear_active x k')"
    using fr cl(5) tw k'(11,12) top_running_cong [of "clear_active x k'" k']
    by (auto simp: wakes_def upd_obj_def timer_remove_def)
  ultimately show ?thesis using k'(1,4-6) k0 own(4) w by (simp add: kframe_fields(4) [OF k'(3)])
qed

lemma kinv_app_start:
  assumes inv: "kinv b k" and x: "is_class k x RT_Object_Class_Timer" "tm_init_tick (timers k x) < 0x7fffffff"
    and app: "tm_func (timers k x) \<noteq> Rt_thread_timeout" and r: "rt_timer_start x k = Some (e, k')"
  shows "kinv b k' \<and> kframe k k' \<and> set (timer_list k') = insert x (set (timer_list k))
     \<and> (\<forall>y. y \<noteq> x \<longrightarrow> timers k' y = timers k y) \<and> tm_init_tick (timers k' x) = tm_init_tick (timers k x)
     \<and> threads k' = threads k \<and> rt_current_thread k' = rt_current_thread k \<and> tlists k' = tlists k"
proof -
  have k': "k' = k\<lparr>objs := (objs k)(x := (objs k x)\<lparr>flag := flag (objs k x) OR RT_TIMER_FLAG_ACTIVATED\<rparr>),
     timers := (timers k)(x := (timers k x)\<lparr>timeout_tick := rt_tick k + tm_init_tick (timers k x)\<rparr>),
     timer_list := timer_list k'\<rparr>"
    using timer_start_eq [OF x] r by auto
  have f: "threads k' = threads k" "tlists k' = tlists k" "ready_priority_group k' = ready_priority_group k"
    "rt_current_thread k' = rt_current_thread k"
    "timers k' = (timers k)(x := (timers k x)\<lparr>timeout_tick := rt_tick k + tm_init_tick (timers k x)\<rparr>)"
    by (subst k', simp)+
  have ti: "timer_inv b k'" and set: "set (timer_list k') = insert x (set (timer_list k))"
    using timer_start_inv [OF kinvD(2) [OF inv] x r] by blast+
  have "(flag (objs k x) OR RT_TIMER_FLAG_ACTIVATED) AND RT_TIMER_FLAG_PERIODIC
      = flag (objs k x) AND RT_TIMER_FLAG_PERIODIC"
    by (rule bit_word_eqI) (auto simp: bit_simps bit_2_iff bit_1_iff)
  then have frame: "kframe k k'" by (subst k') (use x(1) in \<open>simp add: kframe_def\<close>)
  have si: "sched_inv k'" using kinvD(1) [OF inv] sched_inv_cong [OF f(1-4)] by simp
  have st: "tstat k' u = tstat k u" for u by (simp add: tstat_def f)
  have "kinv b k'"
    by (rule kinv_step [OF inv frame si ti])
      (use app set waitD [OF inv] kinvD(3) [OF inv] in \<open>auto simp: st live_def\<close>)
  then show ?thesis using frame set f by simp
qed

lemma thread_wakes_still:
  assumes "\<And>t. tstat k t = RT_THREAD_SUSPEND \<Longrightarrow> thread_timer (threads k t) \<noteq> x"
    and "threads k' = threads k" "\<And>y. y \<noteq> x \<Longrightarrow> timers k' y = timers k y"
    and "\<And>y. y \<noteq> x \<Longrightarrow> y \<in> set (timer_list k') \<longleftrightarrow> y \<in> set (timer_list k)"
  shows "thread_wakes b k k' t"
  using assms by (auto simp: thread_wakes_def Let_def tstat_def)

lemma call_app:
  assumes inv: "tick_inv app b k" and tl: "timer_list k = x # r" and f: "tm_func (timers k x) = App_timeout a"
  shows "\<exists>k'. app a (tm_parameter (timers k x)) (timer_remove x k) = Some k'
     \<and> timers k' = timers k \<and> objs k' = objs k \<and> timer_list k' = r \<and> rt_tick k' = rt_tick k
     \<and> tick_inv app b (clear_active x k') \<and> wakes b k (clear_active x k')
     \<and> (\<forall>e k''. flag (objs k x) AND RT_TIMER_FLAG_PERIODIC \<noteq> 0 \<longrightarrow>
          rt_timer_start x (clear_active x k') = Some (e, k'') \<longrightarrow> tick_inv app b k'' \<and> wakes b k k'')"
proof -
  have ki: "kinv b k" and cur: "rt_current_thread k \<noteq> RT_NULL" using inv by (simp_all add: tick_inv_def)
  have "app_ok app a (tm_parameter (timers k x))" using inv f tl by (simp add: tick_inv_def)
  then obtain m where m: "app a (tm_parameter (timers k x)) (timer_remove x k) = Some ((timer_remove x k)\<lparr>bmem := m\<rparr>)"
    unfolding app_ok_def by blast
  let ?k' = "(timer_remove x k)\<lparr>bmem := m\<rparr>"
  let ?c = "clear_active x ?k'"
  have r: "removeAll x (timer_list k) = r" "x \<notin> set r"
    using kinvD(2) [OF ki] tl by (auto simp: timer_inv_def)
  have k0: "kinv b (timer_remove x k)" by (rule kinv_timer_remove(1) [OF ki])
  have cong: "kinv b (q\<lparr>bmem := m\<rparr>) = kinv b q" for q
    by (simp add: kinv_def timer_inv_def due_def live_def own_timer_def timers_wait_def tstat_def is_class_def)
  have xl: "x \<in> set (timer_list k)" using tl by simp
  have xc': "is_class ?k' x RT_Object_Class_Timer"
    using kinvD(2) [OF ki] xl by (simp add: timer_inv_def is_class_def timer_remove_def)
  have kc: "kinv b ?c"
    by (rule kinv_clear_active [OF _ _ xc']) (use k0 cong r in \<open>simp_all add: timer_remove_def\<close>)
  have fr: "kframe (k\<lparr>bmem := m\<rparr>) ?c"
    using kframe_trans [OF kframe_bmem [OF kinv_timer_remove(2) [OF ki]] clear_active_frame [OF xc']] .
  have c: "timer_list ?c = r" "timers ?c = timers k" "threads ?c = threads k" "bmem ?c = m"
    "rt_current_thread ?c = rt_current_thread k" "rt_tick ?c = rt_tick k" "tlists ?c = tlists k"
    using r by (simp_all add: upd_obj_def timer_remove_def)
  have other: "thread_timer (threads k t) \<noteq> x" if "tstat k t = RT_THREAD_SUSPEND" for t
    using own_timerD(5) [OF kinvD(3) [OF ki, of t]] that f by (auto simp: live_def)
  have ti: "tick_inv app b ?c"
    by (rule tick_inv_frame [OF inv kc])
      (use c cur tl kframe_parts(4) [OF fr] in \<open>auto simp: upd_obj_def\<close>)
  have wk: "wakes b k ?c"
    using fr c(4) thread_wakes_still [of k x ?c, OF other c(3)] c(1,2,7) tl top_running_cong [OF c(3,5)]
    by (auto simp: wakes_def)
  have "tick_inv app b k'' \<and> wakes b k k''"
    if per: "flag (objs k x) AND RT_TIMER_FLAG_PERIODIC \<noteq> 0" and s: "rt_timer_start x ?c = Some (e, k'')" for e k''
  proof -
    have xc: "is_class ?c x RT_Object_Class_Timer"
      using kinvD(2) [OF ki] xl kframe_parts(2) [OF fr, of x] by (simp add: timer_inv_def is_class_def)
    have it: "0 < tm_init_tick (timers ?c x)" "tm_init_tick (timers ?c x) < 0x7fffffff"
      using inv per xl c(2) by (simp_all add: tick_inv_def)
    have app: "tm_func (timers ?c x) \<noteq> Rt_thread_timeout" using f c(2) by simp
    note q = kinv_app_start [OF kc xc it(2) app s]
    have fr2: "kframe (k\<lparr>bmem := m\<rparr>) k''" using kframe_trans [OF fr] q by blast
    have b2: "bmem k'' = m" using kframe_fields(13) [OF fr2] by simp
    have i2: "tm_init_tick (timers k'' y) = tm_init_tick (timers k y)" for y
      using q c(2) by (cases "y = x") auto
    have "tick_inv app b k''"
      by (rule tick_inv_frame [OF inv])
        (use q c cur tl kframe_parts(4-6) [OF fr2] i2 in auto)
    moreover have "wakes b k k''"
      using fr2 b2 thread_wakes_still [of k x k'', OF other] q c tl top_running_cong [of k'' k] by (auto simp: wakes_def)
    ultimately show ?thesis by blast
  qed
  with m ti wk c show ?thesis by (auto simp: timer_remove_def r)
qed

interpretation tick: timeout_calls "timeout_call app" "tick_inv app b" "wakes b" b for app b
proof
  fix k t r
  assume "tick_inv app b k" "timer_list k = t # r" "due b k t \<le> unat (rt_tick k - b)"
  then show "\<exists>k'. timeout_call app (tm_func (timers k t)) (tm_parameter (timers k t)) (timer_remove t k) = Some k'
      \<and> timers k' = timers k \<and> objs k' = objs k \<and> timer_list k' = r \<and> rt_tick k' = rt_tick k
      \<and> tick_inv app b (clear_active t k') \<and> wakes b k (clear_active t k')
      \<and> (\<forall>e k''. flag (objs k t) AND RT_TIMER_FLAG_PERIODIC \<noteq> 0 \<longrightarrow>
           rt_timer_start t (clear_active t k') = Some (e, k'') \<longrightarrow> tick_inv app b k'' \<and> wakes b k k'')"
    using call_thread [of app b k t r] call_app [of app b k t r]
    by (cases "tm_func (timers k t)") (auto simp: timeout_call_def)
qed (auto simp: wakes_refl tick_inv_def dest: kinvD(2) intro: wakes_trans)

subsection \<open>The tick interrupt\<close>

text \<open>After the check of a new tick the invariant holds seen from that tick.\<close>

lemma timer_inv_rebase:
  assumes inv: "timer_inv b k" and tk: "rt_tick k = b + 1" and late: "\<forall>x \<in> set (timer_list k). 1 < due b k x"
  shows "timer_inv (rt_tick k) k"
proof -
  have d: "due (rt_tick k) k x = due b k x - 1" if "x \<in> set (timer_list k)" for x
  proof -
    have "due (rt_tick k) k x = unat ((timeout_tick (timers k x) - b) - 1)"
      by (simp add: due_def tk algebra_simps)
    moreover have "timeout_tick (timers k x) - b \<noteq> 0" using late that by (auto simp: due_def)
    ultimately show ?thesis by (simp add: unat_minus_one due_def)
  qed
  have l: "unat (rt_tick k - b) = 1" by (simp add: tk)
  have "sorted_wrt (\<lambda>s t. due (rt_tick k) k s \<le> due (rt_tick k) k t) (timer_list k)"
    using inv d by (auto simp: timer_inv_def intro: sorted_wrt_mono_rel [rotated])
  with inv d l late show ?thesis by (auto simp: timer_inv_def)
qed

lemma tick_inv_upd_thread:
  assumes "tick_inv app b k" "stat th = stat (threads k t)" "current_priority th = current_priority (threads k t)"
    "number_mask th = number_mask (threads k t)" "thread_timer th = thread_timer (threads k t)"
  shows "tick_inv app b (k\<lparr>threads := (threads k)(t := th)\<rparr>)"
  using assms sched_inv_thread [of k th t]
  by (auto simp: tick_inv_def kinv_def timer_inv_def due_def live_def own_timer_def timers_wait_def
      tstat_def is_class_def Let_def)

text \<open>
  Beside the wake-ups a tick changes the time slice of the current thread and application memory;
  wait lists only lose threads, and a running thread of highest priority is not left waiting.
\<close>

definition tick_effect :: "kernel \<Rightarrow> kernel \<Rightarrow> bool" where
  "tick_effect k k' \<longleftrightarrow>
     (\<exists>n. kframe (k\<lparr>rt_tick := rt_tick k', threads := (threads k)
        (rt_current_thread k := (threads k (rt_current_thread k))\<lparr>remaining_tick := n\<rparr>), bmem := bmem k'\<rparr>) k')
     \<and> (\<forall>x. set (tlists k' (Waiters x)) \<subseteq> set (tlists k (Waiters x)))
     \<and> (scheduler_lock_nest k = 0 \<longrightarrow> top_running k \<longrightarrow> top_running k')
     \<and> (\<forall>t. tstat k t \<in> {RT_THREAD_READY, RT_THREAD_RUNNING} \<longrightarrow> tstat k' t \<in> {RT_THREAD_READY, RT_THREAD_RUNNING})"

lemma tick_effect_wakes:
  assumes f: "kframe (k\<lparr>rt_tick := rt_tick j, threads := (threads k)
        (rt_current_thread k := (threads k (rt_current_thread k))\<lparr>remaining_tick := n\<rparr>)\<rparr>) j"
    and w: "wakes b j k'" and l: "\<And>x. tlists j (Waiters x) = tlists k (Waiters x)"
    and t: "scheduler_lock_nest k = 0 \<Longrightarrow> top_running k \<Longrightarrow> top_running j"
    and m: "\<And>t. tstat k t \<in> {RT_THREAD_READY, RT_THREAD_RUNNING} \<Longrightarrow> tstat j t \<in> {RT_THREAD_READY, RT_THREAD_RUNNING}"
  shows "tick_effect k k'"
proof -
  have "kframe (j\<lparr>bmem := bmem k'\<rparr>) k'" using w by (simp add: wakes_def)
  then have "rt_tick k' = rt_tick j" and "kframe (k\<lparr>rt_tick := rt_tick j, threads := (threads k)
        (rt_current_thread k := (threads k (rt_current_thread k))\<lparr>remaining_tick := n\<rparr>), bmem := bmem k'\<rparr>) k'"
    using kframe_trans [OF kframe_bmem [OF f, of "bmem k'"]] kframe_fields(4) [of "j\<lparr>bmem := bmem k'\<rparr>" k'] by simp_all
  moreover have "scheduler_lock_nest j = scheduler_lock_nest k" using kframe_fields(2) [OF f] by simp
  moreover have "tstat k' t \<in> {RT_THREAD_READY, RT_THREAD_RUNNING}" if "tstat k t \<in> {RT_THREAD_READY, RT_THREAD_RUNNING}" for t
  proof -
    have "thread_wakes b j k' t" using w by (simp add: wakes_def)
    then show ?thesis using m [OF that] by (auto simp: thread_wakes_def Let_def split: if_splits)
  qed
  ultimately show ?thesis using w l t unfolding tick_effect_def wakes_def by auto
qed

lemma tick_increase_ok:
  assumes inv: "tick_inv app (rt_tick k) k" and fuel: "length (timer_list k) < fuel"
  shows "\<exists>k'. rt_tick_increase app fuel k = Some k' \<and> tick_inv app (rt_tick k') k' \<and> rt_tick k' = rt_tick k + 1
     \<and> (\<forall>t. tstat k t = RT_THREAD_SUSPEND \<longrightarrow>
          (let x = thread_timer (threads k t) in
           if x \<in> set (timer_list k) \<and> timeout_tick (timers k x) - rt_tick k \<le> 1
           then tstat k' t \<in> {RT_THREAD_READY, RT_THREAD_RUNNING} \<and> error (threads k' t) = - RT_ETIMEOUT
           else tstat k' t = RT_THREAD_SUSPEND \<and> error (threads k' t) = error (threads k t)
             \<and> thread_timer (threads k' t) = x \<and> (x \<in> set (timer_list k') \<longleftrightarrow> x \<in> set (timer_list k))
             \<and> timeout_tick (timers k' x) = timeout_tick (timers k x)))
     \<and> tick_effect k k'"
proof -
  let ?b = "rt_tick k" and ?c = "rt_current_thread k"
  let ?k1 = "k\<lparr>rt_tick := rt_tick k + 1\<rparr>"
  let ?k2 = "upd_thread ?c (\<lambda>th. th\<lparr>remaining_tick := remaining_tick th - 1\<rparr>) ?k1"
  let ?k3 = "upd_thread ?c (\<lambda>th. th\<lparr>remaining_tick := init_tick th\<rparr>) ?k2"
  have cur: "?c \<noteq> RT_NULL" using inv by (simp add: tick_inv_def)
  have "timer_inv ?b ?k1"
    using inv by (auto simp: tick_inv_def kinv_def timer_inv_def due_def is_class_def)
  then have i1: "tick_inv app ?b ?k1"
    using inv by (simp add: tick_inv_def kinv_def live_def own_timer_def timers_wait_def tstat_def is_class_def)
  have i2: "tick_inv app ?b ?k2" "tick_inv app ?b ?k3"
    unfolding upd_thread_def by (rule tick_inv_upd_thread; (rule tick_inv_upd_thread)?; use i1 in simp)+
  have rt: "rt_current_thread ?k2 = ?c" "rt_current_thread ?k3 = ?c" by (simp_all add: upd_thread_def)
  obtain k4 where k4: "(if remaining_tick (threads ?k2 ?c) = 0 then rt_schedule ?k3 else Some ?k2) = Some k4"
    and i4: "tick_inv app ?b k4" and st4: "\<And>t. tstat k t = RT_THREAD_SUSPEND \<longleftrightarrow> tstat k4 t = RT_THREAD_SUSPEND"
    and er4: "\<And>t. error (threads k4 t) = error (threads k t)"
    and tm4: "\<And>t. thread_timer (threads k4 t) = thread_timer (threads k t)" "timers k4 = timers k"
      "timer_list k4 = timer_list k" "rt_tick k4 = ?b + 1"
    and ef4: "\<And>k'. wakes ?b k4 k' \<Longrightarrow> tick_effect k k'"
  proof (cases "remaining_tick (threads ?k2 ?c) = 0")
    case False
    have "tick_effect k q" if "wakes ?b ?k2 q" for q
      by (rule tick_effect_wakes [OF _ that, where n = "remaining_tick (threads k ?c) - 1"])
        (auto simp: upd_thread_def top_running_def tstat_def)
    with False i2 show ?thesis
      by (intro that [of ?k2]) (simp_all add: upd_thread_def tstat_def)
  next
    case True
    obtain q where q: "rt_schedule ?k3 = Some q" "kinv ?b q" "kframe ?k3 q" "stat_moves ?k3 q"
      "rt_current_thread q \<noteq> RT_NULL" "\<forall>t. error (threads q t) = error (threads ?k3 t)"
      "timers q = timers ?k3" "timer_list q = timer_list ?k3" "objs q = objs ?k3"
      "\<forall>x. tlists q (Waiters x) = tlists ?k3 (Waiters x)"
      "scheduler_lock_nest ?k3 = 0 \<and> tstat ?k3 (rt_current_thread ?k3) = RT_THREAD_RUNNING \<longrightarrow> top_running q"
      using kinv_schedule [of ?b ?k3] i2(2) cur rt by (auto simp: tick_inv_def)
    have s3: "tstat ?k3 t = tstat k t" for t by (simp add: upd_thread_def tstat_def)
    have mv: "tstat q t \<in> {RT_THREAD_READY, RT_THREAD_RUNNING}" if "tstat k t \<in> {RT_THREAD_READY, RT_THREAD_RUNNING}" for t
      using q(4) that unfolding stat_moves_def s3 by (metis insert_iff)
    have tr: "top_running q" if "scheduler_lock_nest k = 0" "top_running k"
      using q(11) that s3 rt by (simp add: top_running_def upd_thread_def)
    have "tick_effect k q'" if "wakes ?b q q'" for q'
      by (rule tick_effect_wakes [OF _ that, where n = "init_tick (threads k ?c)"])
        (use q(3,10) kframe_fields(4) [OF q(3)] tr mv in \<open>auto simp: upd_thread_def\<close>)
    moreover
    have "tick_inv app ?b q" by (rule tick_inv_frame [OF i2(2) q(2,5)]) (use q in auto)
    ultimately show ?thesis
      using that [of q] True q(1,6-8) stat_moves_iff(1) [OF q(4)] kframe_fields(4) [OF q(3)]
        thread_same_fields(8) [OF kframe_parts(1) [OF q(3)]]
      by (simp add: upd_thread_def tstat_def)
  qed
  obtain k' where k': "rt_timer_check (timeout_call app) fuel k4 = Some k'" "tick_inv app ?b k'"
    "rt_tick k' = rt_tick k4" "\<forall>t \<in> set (timer_list k'). unat (rt_tick k4 - ?b) < due ?b k' t" "wakes ?b k4 k'"
    using tick.check_ok [OF i4, of fuel] fuel tm4 by auto
  have l: "unat (rt_tick k4 - ?b) = 1" by (simp add: tm4)
  have "timer_inv (rt_tick k') k'"
    by (rule timer_inv_rebase [where b = ?b]) (use k' l tm4 in \<open>auto simp: tick_inv_def kinv_def\<close>)
  then have "tick_inv app (rt_tick k') k'" using k'(2) by (simp add: tick_inv_def kinv_def)
  moreover have "rt_tick_increase app fuel k = Some k'"
    using k4 k'(1) cur
    by (auto simp: rt_tick_increase_def rt_thread_self_def rt_thread_yield_def upd_thread_def Let_def
        split: if_splits)
  moreover have "let x = thread_timer (threads k t) in
      if x \<in> set (timer_list k) \<and> timeout_tick (timers k x) - rt_tick k \<le> 1
      then tstat k' t \<in> {RT_THREAD_READY, RT_THREAD_RUNNING} \<and> error (threads k' t) = - RT_ETIMEOUT
      else tstat k' t = RT_THREAD_SUSPEND \<and> error (threads k' t) = error (threads k t)
        \<and> thread_timer (threads k' t) = x \<and> (x \<in> set (timer_list k') \<longleftrightarrow> x \<in> set (timer_list k))
        \<and> timeout_tick (timers k' x) = timeout_tick (timers k x)"
    if "tstat k t = RT_THREAD_SUSPEND" for t
  proof -
    let ?x = "thread_timer (threads k t)"
    have w: "thread_wakes ?b k4 k' t" using k'(5) by (simp add: wakes_def)
    have d: "timeout_tick (timers k ?x) - rt_tick k \<le> 1 \<longleftrightarrow> due ?b k4 ?x \<le> 1"
      by (simp add: due_def tm4 word_le_nat_alt)
    have tt: "thread_timer (threads k' t) = ?x"
      using k'(5) thread_same_fields(8) [OF kframe_parts(1), of "k4\<lparr>bmem := bmem k'\<rparr>" k' t] tm4(1)
      by (simp add: wakes_def)
    have "1 < due ?b k' ?x" if "?x \<in> set (timer_list k')" using k'(4) l that by auto
    with w d tt l st4 [of t] that show ?thesis
      by (auto simp: thread_wakes_def Let_def tm4 er4 due_def)
  qed
  moreover have "tick_effect k k'" by (rule ef4 [OF k'(5)])
  ultimately show ?thesis using k'(3) tm4 by auto
qed

text \<open>The clock interrupt with fuel enough for the timers that are active, and a number of ticks in a row.\<close>

definition tick_isr :: "(ptr \<Rightarrow> ptr \<Rightarrow> kernel \<Rightarrow> kernel option) \<Rightarrow> kernel \<Rightarrow> kernel option" where
  "tick_isr app k = rt_tick_increase app (Suc (length (timer_list k))) k"

primrec ticks :: "(ptr \<Rightarrow> ptr \<Rightarrow> kernel \<Rightarrow> kernel option) \<Rightarrow> nat \<Rightarrow> kernel \<Rightarrow> kernel option" where
  "ticks app 0 k = Some k"
| "ticks app (Suc n) k = tick_isr app k \<bind> (\<lambda>k. ticks app n k)"

lemma ticks_suspended:
  assumes "tick_inv app (rt_tick k) k" "tstat k t = RT_THREAD_SUSPEND" "x = thread_timer (threads k t)"
    "x \<in> set (timer_list k)" "n < unat (timeout_tick (timers k x) - rt_tick k)"
  shows "\<exists>k'. ticks app n k = Some k' \<and> tick_inv app (rt_tick k') k' \<and> rt_tick k' = rt_tick k + of_nat n
     \<and> tstat k' t = RT_THREAD_SUSPEND \<and> thread_timer (threads k' t) = x \<and> x \<in> set (timer_list k')
     \<and> timeout_tick (timers k' x) = timeout_tick (timers k x)"
  using assms
proof (induction n arbitrary: k)
  case (Suc n)
  let ?d = "timeout_tick (timers k x) - rt_tick k"
  have d: "\<not> ?d \<le> 1" using Suc.prems(5) by (simp add: word_le_nat_alt)
  obtain k1 where k1: "tick_isr app k = Some k1" "tick_inv app (rt_tick k1) k1" "rt_tick k1 = rt_tick k + 1"
    "tstat k1 t = RT_THREAD_SUSPEND" "thread_timer (threads k1 t) = x" "x \<in> set (timer_list k1)"
    "timeout_tick (timers k1 x) = timeout_tick (timers k x)"
    using tick_increase_ok [OF Suc.prems(1), of "Suc (length (timer_list k))"] d Suc.prems(2-4)
    by (fastforce simp: tick_isr_def Let_def)
  have "?d \<noteq> 0" using d by auto
  then have "unat (timeout_tick (timers k1 x) - rt_tick k1) = unat ?d - 1"
    using unat_minus_one [of ?d] by (simp add: k1 algebra_simps)
  then have "n < unat (timeout_tick (timers k1 x) - rt_tick k1)" using Suc.prems(5) by simp
  from Suc.IH [OF k1(2,4) _ k1(6) this] k1 show ?case by (auto simp: algebra_simps)
qed simp

lemma ticks_append: "ticks app (m + n) k = ticks app m k \<bind> (\<lambda>k. ticks app n k)"
  by (induction m arbitrary: k) (simp_all add: Option.bind_assoc)

end
