(* ===== verification/RT_IPC.thy ===== *)
theory RT_IPC
  imports RT_Tick
begin

text \<open>
  What the IPC objects of \<^verbatim>\<open>src/ipc.c\<close> share: the list of waiting threads, in arrival order
  (\<^verbatim>\<open>RT_IPC_FLAG_FIFO\<close>) or by priority (\<^verbatim>\<open>RT_IPC_FLAG_PRIO\<close>), joining it, waking the first
  thread and waking all. A blocking call ends in \<open>Blocked\<close> at its \<^verbatim>\<open>rt_schedule\<close>; what the C
  function does when the thread runs again is a separate definition.
\<close>

datatype outcome = Done err | Blocked

text \<open>The same for the calls that allocate: a block (\<open>RT_NULL\<close> if there is none), or the thread waits.\<close>

datatype alloc_outcome = Block ptr | Waiting

subsection \<open>Operations\<close>

text \<open>Initialising the list head of threads that are still linked to it would strand them.\<close>

definition rt_ipc_object_init :: "ptr \<Rightarrow> kernel \<Rightarrow> kernel option" where
  "rt_ipc_object_init ipc k = do {
     C_GUARD (tlist_isempty (Waiters ipc) k);
     Some (tlist_init (Waiters ipc) k)
   }"

text \<open>
  \<^verbatim>\<open>rt_thread_suspend\<close> refuses threads that are neither ready nor running and its result is not
  looked at: linking such a thread while it is on another list would break both lists, hence
  the guard.
\<close>

definition rt_ipc_list_suspend :: "tlist_head \<Rightarrow> ptr \<Rightarrow> u8 \<Rightarrow> kernel \<Rightarrow> kernel option" where
  "rt_ipc_list_suspend list thread fl k = do {
     (_, k) \<leftarrow> rt_thread_suspend thread k;
     C_GUARD (seq_detached thread (tlists k));
     if fl = RT_IPC_FLAG_FIFO then Some (tlist_insert_before list thread k)
     else if fl = RT_IPC_FLAG_PRIO then
       (case find (\<lambda>sthread. current_priority (threads k thread) < current_priority (threads k sthread))
          (tlists k list) of
          Some sthread \<Rightarrow> Some (tlist_insert_before_node sthread thread k)
        | None \<Rightarrow> Some (tlist_insert_before list thread k))
     else Some k
   }"

definition rt_ipc_list_resume :: "tlist_head \<Rightarrow> kernel \<Rightarrow> kernel option" where
  "rt_ipc_list_resume list k = do {
     thread \<leftarrow> tlist_first list k;
     (_, k) \<leftarrow> rt_thread_resume thread k;
     Some k
   }"

text \<open>The loop ends when the list is empty; it would not end if a listed thread were not suspended.\<close>

partial_function (option) rt_ipc_list_resume_all :: "tlist_head \<Rightarrow> kernel \<Rightarrow> kernel option" where
  "rt_ipc_list_resume_all list k =
     (if tlist_isempty list k then Some k
      else do {
        thread \<leftarrow> tlist_first list k;
        r \<leftarrow> rt_thread_resume thread (upd_thread thread (\<lambda>th. th\<lparr>error := - RT_ERROR\<rparr>) k);
        rt_ipc_list_resume_all list (snd r)
      })"

text \<open>
  The common part of the blocking calls: the current thread joins the wait list and its timer is
  armed if the call has a time limit. The processor is given up next.
\<close>

definition ipc_wait :: "tlist_head \<Rightarrow> u8 \<Rightarrow> 32 word \<Rightarrow> kernel \<Rightarrow> kernel option" where
  "ipc_wait list fl time k = do {
     let thread = rt_thread_self k;
     k \<leftarrow> rt_ipc_list_suspend list thread fl k;
     if sint time > 0 then arm_timer thread time k else Some k
   }"

text \<open>
  What is left of a time limit when a thread runs again before its timeout: \<^verbatim>\<open>timeout -= tick_delta\<close>
  in the loops of mailboxes, message queues and memory pools.
\<close>

definition time_left :: "32 word \<Rightarrow> u32 \<Rightarrow> u32 \<Rightarrow> 32 word" where
  "time_left timeout start now =
     (if 0 < sint timeout then
        (let timeout = timeout - (now - start) in if sint timeout < 0 then 0 else timeout)
      else timeout)"

subsection \<open>Joining a wait list\<close>

text \<open>The order of a wait list: arrival, or priority with arrival among equals.\<close>

definition enqueue :: "u8 \<Rightarrow> (ptr \<Rightarrow> u8) \<Rightarrow> ptr \<Rightarrow> ptr list \<Rightarrow> ptr list" where
  "enqueue fl prio t q =
     (if fl = RT_IPC_FLAG_PRIO
      then takeWhile (\<lambda>s. prio s \<le> prio t) q @ t # dropWhile (\<lambda>s. prio s \<le> prio t) q
      else q @ [t])"

lemma set_enqueue: "set (enqueue fl prio t q) = insert t (set q)"
  using set_takeWhile_insert [of "\<lambda>s. prio s \<le> prio t" q t] by (simp add: enqueue_def)

lemma distinct_enqueue: "distinct q \<Longrightarrow> t \<notin> set q \<Longrightarrow> distinct (enqueue fl prio t q)"
  using distinct_takeWhile_insert [of q t] by (simp add: enqueue_def)

lemma sorted_enqueue:
  assumes "sorted_wrt (\<lambda>s u. prio s \<le> prio u) q" "fl = RT_IPC_FLAG_PRIO"
  shows "sorted_wrt (\<lambda>s u. prio s \<le> prio u) (enqueue fl prio t q)"
proof -
  have "sorted_wrt (\<lambda>s u. unat (prio s) \<le> unat (prio u)) q"
    using assms(1) by (simp add: word_le_nat_alt)
  from sorted_takeWhile_insert [OF this, of t] show ?thesis
    using assms(2) by (simp add: enqueue_def word_le_nat_alt)
qed

lemma find_split:
  "find P q = Some s \<Longrightarrow> \<exists>ys. q = takeWhile (\<lambda>x. \<not> P x) q @ s # ys \<and> dropWhile (\<lambda>x. \<not> P x) q = s # ys"
  by (induction q) (auto split: if_splits)

text \<open>The search of the priority case finds the place of \<open>enqueue\<close>.\<close>

lemma prio_insert_eq:
  assumes "list_family f" "seq_detached t f"
  shows "(case find (\<lambda>s. prio t < prio s) (f l) of
       Some s \<Rightarrow> seq_insert_before_node s t f | None \<Rightarrow> seq_insert_before l t f)
     = f(l := enqueue RT_IPC_FLAG_PRIO (prio :: ptr \<Rightarrow> u8) t (f l))"
proof (cases "find (\<lambda>s. prio t < prio s) (f l)")
  case None
  then have "\<forall>s \<in> set (f l). prio s \<le> prio t" by (auto simp: find_None_iff not_less)
  then have tw: "takeWhile (\<lambda>s. prio s \<le> prio t) (f l) = f l" "dropWhile (\<lambda>s. prio s \<le> prio t) (f l) = []"
    by (simp_all add: takeWhile_eq_all_conv)
  show ?thesis unfolding None by (simp add: seq_insert_before_def enqueue_def tw)
next
  case (Some s)
  obtain ys where ys: "f l = takeWhile (\<lambda>s. prio s \<le> prio t) (f l) @ s # ys"
    "dropWhile (\<lambda>s. prio s \<le> prio t) (f l) = s # ys"
    using find_split [OF Some] by (auto simp: not_less)
  have "seq_insert_before_node s t f = f(l := takeWhile (\<lambda>s. prio s \<le> prio t) (f l) @ t # s # ys)"
    using seq_insert_before_node_eq [OF assms(1) ys(1)] by simp
  with Some ys(2) show ?thesis by (simp add: enqueue_def)
qed

definition is_wait :: "tlist_head \<Rightarrow> bool" where
  "is_wait l \<longleftrightarrow> (case l of Waiters _ \<Rightarrow> True | Senders _ \<Rightarrow> True | _ \<Rightarrow> False)"

lemma is_wait_simps [simp]: "is_wait (Waiters a)" "is_wait (Senders a)" "\<not> is_wait (Ready p)" "\<not> is_wait Defunct"
  by (simp_all add: is_wait_def)

lemma sched_join:
  assumes inv: "sched_inv k" and t: "tstat k t = RT_THREAD_SUSPEND" "seq_detached t (tlists k)"
    and l: "is_wait l" and q: "set q = insert t (set (tlists k l))" "distinct q"
  shows "sched_inv (k\<lparr>tlists := (tlists k)(l := q)\<rparr>)"
proof -
  let ?k = "k\<lparr>tlists := (tlists k)(l := q)\<rparr>"
  note c = core_invD [OF sched_inv_core [OF inv]]
  have t0: "t \<noteq> RT_NULL"
  proof
    assume "t = RT_NULL"
    with c(11) t(1) show False by simp
  qed
  have out: "t \<notin> set (tlists k h)" for h using t(2) by (rule detached_not_on)
  have fam: "list_family ((tlists k)(l := q))"
    using c(1) q out by (fastforce simp: list_family_def)
  have ready: "((tlists k)(l := q)) (Ready p) = tlists k (Ready p)" "((tlists k)(l := q)) Defunct = tlists k Defunct" for p
    using l by auto
  have w: "tstat k u = RT_THREAD_SUSPEND" if "u \<in> set (((tlists k)(l := q)) (Waiters x))" for u x
    using that c(5) [of u x] q(1) t(1) by (cases "Waiters x = l") auto
  have s: "tstat k u = RT_THREAD_SUSPEND" if "u \<in> set (((tlists k)(l := q)) (Senders x))" for u x
    using that c(6) [of u x] q(1) t(1) by (cases "Senders x = l") auto
  have n: "RT_NULL \<notin> set (((tlists k)(l := q)) h)" for h
    using c(10) [of h] c(10) [of l] q(1) t0 by (cases "h = l") auto
  have "core_inv {} ?k"
    unfolding core_inv_def
    using fam c(2-4,7-9,11) w s n ready by (simp add: tstat_def on_ready_def del: fun_upd_apply)
  then show ?thesis
    using inv ready by (simp add: sched_inv_def tstat_def on_ready_def del: fun_upd_apply)
qed

text \<open>
  The state behind \<^verbatim>\<open>rt_thread_suspend\<close> with the thread \<open>c\<close> linked into the list \<open>l\<close>, which is then
  \<open>q\<close>: the IPC objects and the memory pools differ in the place they choose only.
\<close>

definition joins :: "kernel \<Rightarrow> ptr \<Rightarrow> tlist_head \<Rightarrow> ptr list \<Rightarrow> kernel \<Rightarrow> bool" where
  "joins k c l q k' \<longleftrightarrow> kframe k k' \<and> tstat k' c = RT_THREAD_SUSPEND \<and> (\<forall>u. u \<noteq> c \<longrightarrow> tstat k' u = tstat k u)
     \<and> tlists k' = (tlists k)(l := q) \<and> rt_current_thread k' = rt_current_thread k
     \<and> (\<forall>u. error (threads k' u) = error (threads k u))"

lemma suspend_join_ok:
  assumes inv: "kinv b k" and t: "tstat k t = RT_THREAD_RUNNING"
    and l: "is_wait l" and q: "set q = insert t (set (tlists k l))" "distinct q"
  shows "\<exists>k1. rt_thread_suspend t k = Some (RT_EOK, k1) \<and> kframe k k1 \<and> seq_detached t (tlists k1) \<and> tlists k1 = tlists k
     \<and> kinv b (k1\<lparr>tlists := (tlists k)(l := q)\<rparr>) \<and> joins k t l q (k1\<lparr>tlists := (tlists k)(l := q)\<rparr>)
     \<and> timer_list k1 = timer_list k \<and> timers k1 = timers k"
proof -
  have det: "seq_detached t (tlists k)"
    using not_listed [OF sched_inv_core [OF kinvD(1) [OF inv]]] t by simp
  obtain k1 where k1: "rt_thread_suspend t k = Some (RT_EOK, k1)" "kinv b k1" "kframe k k1"
    "tstat k1 t = RT_THREAD_SUSPEND" "\<forall>u. u \<noteq> t \<longrightarrow> tstat k1 u = tstat k u"
    "tlists k1 = tlists k" "timer_list k1 = timer_list k" "timers k1 = timers k"
    "rt_current_thread k1 = rt_current_thread k" "\<forall>u. error (threads k1 u) = error (threads k u)"
    using suspend_ok [OF inv, of t] t fam_remove_detached [OF det] by auto
  let ?k' = "k1\<lparr>tlists := (tlists k)(l := q)\<rparr>"
  have "sched_inv ?k'" using sched_join [OF kinvD(1) [OF k1(2)] k1(4) _ l] det k1(6) q by simp
  then have inv': "kinv b ?k'"
    using k1(2) by (simp add: kinv_def timer_inv_def due_def live_def own_timer_def timers_wait_def tstat_def is_class_def)
  have fr: "kframe k ?k'" using k1(3) unfolding kframe_def by (cases k; cases k1) simp
  with inv' k1 det show ?thesis by (simp add: joins_def tstat_def)
qed

lemma ipc_suspend_ok:
  assumes inv: "kinv b k" and t: "tstat k t = RT_THREAD_RUNNING"
    and l: "is_wait l" and fl: "fl = RT_IPC_FLAG_FIFO \<or> fl = RT_IPC_FLAG_PRIO"
    and q: "q = enqueue fl (\<lambda>s. current_priority (threads k s)) t (tlists k l)"
  shows "\<exists>k'. rt_ipc_list_suspend l t fl k = Some k' \<and> kinv b k' \<and> joins k t l q k'
     \<and> timer_list k' = timer_list k \<and> timers k' = timers k"
proof -
  have fam: "list_family (tlists k)" using core_invD(1) [OF sched_inv_core [OF kinvD(1) [OF inv]]] .
  have det: "seq_detached t (tlists k)"
    using not_listed [OF sched_inv_core [OF kinvD(1) [OF inv]]] t by simp
  have "set q = insert t (set (tlists k l))" "distinct q"
    using set_enqueue [of fl _ t] distinct_enqueue [of "tlists k l" t fl] list_family_distinct [OF fam]
      detached_not_on [OF det] by (simp_all add: q)
  then obtain k1 where k1: "rt_thread_suspend t k = Some (RT_EOK, k1)" "kframe k k1" "tlists k1 = tlists k"
    "kinv b (k1\<lparr>tlists := (tlists k)(l := q)\<rparr>)" "joins k t l q (k1\<lparr>tlists := (tlists k)(l := q)\<rparr>)"
    "timer_list k1 = timer_list k" "timers k1 = timers k"
    using suspend_join_ok [OF inv t l] by blast
  have pr: "current_priority (threads k1 s) = current_priority (threads k s)" for s
    using thread_same_fields(1) [OF kframe_parts(1) [OF k1(2)]] .
  have "rt_ipc_list_suspend l t fl k = Some (k1\<lparr>tlists := (tlists k)(l := q)\<rparr>)"
    using fl prio_insert_eq [OF fam det, where l = l and prio = "\<lambda>s. current_priority (threads k s)"] k1(1,3) det
    by (auto simp: rt_ipc_list_suspend_def tlist_defs pr seq_insert_before_def enqueue_def q
        split: option.splits)
  with k1 show ?thesis by simp
qed

abbreviation (input) RT_WAITING_FOREVER :: "32 word" where "RT_WAITING_FOREVER \<equiv> - 1"

text \<open>The wait of a call with a time limit: positive limits below half the tick range, or for ever.\<close>

definition wait_time_ok :: "32 word \<Rightarrow> bool" where
  "wait_time_ok time \<longleftrightarrow> time \<noteq> 0 \<and> time \<noteq> 0x7fffffff"

lemma sint_pos_less: "0 < sint (w :: u32) \<Longrightarrow> w < 0x80000000"
proof -
  assume "0 < sint w"
  then have "\<not> bit w 31" using bit_last_iff [of w] by simp
  then have "\<not> bit (uint w) 31" by (simp add: bit_uint_iff)
  then have "even (uint w div 2 ^ 31)" by (simp add: bit_iff_odd)
  moreover have "0 \<le> uint w" "uint w < 2 ^ 32" using uint_bounded [of w] by simp_all
  moreover have "uint w div 2 ^ 31 = 1" if "2 ^ 31 \<le> uint w" "uint w < 2 ^ 32"
    by (rule int_div_pos_eq [where r = "uint w - 2 ^ 31"]) (use that in auto)
  ultimately have "uint w < 2 ^ 31" by (metis not_less odd_one)
  then show ?thesis by (simp add: word_less_def)
qed

lemma time_left_ok:
  assumes "wait_time_ok timeout" "0 < sint timeout" "now - start \<le> timeout"
  shows "time_left timeout start now = timeout - (now - start)"
    "0 \<le> sint (time_left timeout start now)" 
    "now - start < timeout \<Longrightarrow> wait_time_ok (time_left timeout start now)"
proof -
  let ?d = "now - start"
  have lt: "timeout < 0x80000000" by (rule sint_pos_less [OF assms(2)])
  have u: "unat (timeout - ?d) = unat timeout - unat ?d" by (rule unat_sub [OF assms(3)])
  have "timeout - ?d < 0x80000000" using lt u by (simp add: word_less_nat_alt)
  from sint_nonneg [OF this] have "0 \<le> sint (timeout - ?d)" by simp
  then show e: "time_left timeout start now = timeout - ?d" "0 \<le> sint (time_left timeout start now)"
    using assms(2) by (auto simp: time_left_def Let_def)
  show "wait_time_ok (time_left timeout start now)" if "?d < timeout"
  proof -
    have "unat timeout < 0x7fffffff" using lt assms(1)
      by (auto simp: wait_time_ok_def word_less_nat_alt word_unat_eq_iff)
    then show ?thesis using u that unfolding e(1)
      by (auto simp: wait_time_ok_def word_less_nat_alt word_unat_eq_iff)
  qed
qed

lemma wait_time_tick: "wait_time_ok time \<Longrightarrow> 0 < sint time \<Longrightarrow> time < 0x7fffffff"
  using sint_pos_less [of time] unfolding wait_time_ok_def
  by (simp add: word_less_nat_alt word_unat_eq_iff)

text \<open>The timer of a wait: due after the time limit, or left alone.\<close>

definition timer_set :: "kernel \<Rightarrow> ptr \<Rightarrow> 32 word \<Rightarrow> kernel \<Rightarrow> bool" where
  "timer_set k c time k' \<longleftrightarrow>
     (if 0 < sint time then thread_timer (threads k c) \<in> set (timer_list k')
          \<and> timeout_tick (timers k' (thread_timer (threads k c))) = rt_tick k + time
      else timer_list k' = timer_list k \<and> timers k' = timers k)"

lemma timed_join_ok:
  assumes inv: "kinv b k1" and j: "joins k c l q k1" and tm: "timer_list k1 = timer_list k" "timers k1 = timers k"
    and time: "wait_time_ok time"
  shows "\<exists>k2. (if 0 < sint time then arm_timer c time k1 else Some k1) = Some k2 \<and> kinv b k2 \<and> joins k c l q k2
     \<and> timer_set k c time k2"
proof (cases "0 < sint time")
  case True
  have j': "kframe k k1" "tstat k1 c = RT_THREAD_SUSPEND" using j by (simp_all add: joins_def)
  have x: "thread_timer (threads k1 c) = thread_timer (threads k c)" "rt_tick k1 = rt_tick k"
    using thread_same_fields(8) [OF kframe_parts(1) [OF j'(1)]] kframe_fields(4) [OF j'(1)] by auto
  obtain k2 where k2: "arm_timer c time k1 = Some k2" "kinv b k2" "kframe k1 k2" "threads k2 = threads k1"
    "tlists k2 = tlists k1" "rt_current_thread k2 = rt_current_thread k1"
    "set (timer_list k2) = insert (thread_timer (threads k1 c)) (set (timer_list k1))"
    "timeout_tick (timers k2 (thread_timer (threads k1 c))) = rt_tick k1 + time"
    using arm_ok [OF inv j'(2) wait_time_tick [OF time True]] by blast
  moreover have "tstat k2 u = tstat k1 u" for u using k2(4) by (simp add: tstat_def)
  ultimately have "joins k c l q k2" using j kframe_trans [OF j'(1) k2(3)] by (simp add: joins_def)
  with True k2 x show ?thesis by (simp add: timer_set_def)
next
  case False
  with assms show ?thesis by (simp add: timer_set_def)
qed

lemma join_block_ok:
  assumes inv: "kinv b k1" and j: "joins k c l q k1" and tm: "timer_set k c time k1" and l: "is_wait l"
    and cur: "rt_current_thread k \<noteq> RT_NULL"
  shows "\<exists>k'. rt_schedule k1 = Some k' \<and> kinv b k' \<and> kframe k k' \<and> tstat k' c = RT_THREAD_SUSPEND
     \<and> (\<forall>u. u \<noteq> c \<longrightarrow> stat_moved k k' u) \<and> tlists k' l = q
     \<and> (\<forall>h. is_wait h \<longrightarrow> h \<noteq> l \<longrightarrow> tlists k' h = tlists k h)
     \<and> rt_current_thread k' \<noteq> RT_NULL \<and> (\<forall>u. error (threads k' u) = error (threads k u))
     \<and> timer_set k c time k' \<and> (scheduler_lock_nest k = 0 \<and> (\<exists>t. on_ready k t) \<longrightarrow> top_running k')"
proof -
  have k1: "kframe k k1" "tstat k1 c = RT_THREAD_SUSPEND" "\<forall>u. u \<noteq> c \<longrightarrow> tstat k1 u = tstat k u"
    "tlists k1 = (tlists k)(l := q)" "rt_current_thread k1 = rt_current_thread k"
    "\<forall>u. error (threads k1 u) = error (threads k u)"
    using j by (simp_all add: joins_def)
  obtain k' where k': "rt_schedule k1 = Some k'" "kinv b k'" "kframe k1 k'" "stat_moves k1 k'"
    "rt_current_thread k' \<noteq> RT_NULL"
    "scheduler_lock_nest k1 = 0 \<and>
       (tstat k1 (rt_current_thread k1) = RT_THREAD_RUNNING \<or> (\<exists>t. on_ready k1 t)) \<longrightarrow> top_running k'"
    "\<forall>x. tlists k' (Waiters x) = tlists k1 (Waiters x) \<and> tlists k' (Senders x) = tlists k1 (Senders x)"
    "\<forall>t. error (threads k' t) = error (threads k1 t)"
    "timers k' = timers k1" "timer_list k' = timer_list k1"
    using kinv_schedule [OF inv] k1(5) cur by auto
  have w: "tlists k' h = tlists k1 h" if "is_wait h" for h
    using that k'(7) by (cases h) auto
  have r: "on_ready k1 t" if "on_ready k t" for t
    using that l by (auto simp: on_ready_def k1(4))
  have st: "tstat k' c = RT_THREAD_SUSPEND" using stat_moves_iff(1) [OF k'(4), of c] k1(2) by simp
  have "scheduler_lock_nest k1 = scheduler_lock_nest k" by (rule kframe_fields(2) [OF k1(1)])
  then have top: "scheduler_lock_nest k = 0 \<and> (\<exists>t. on_ready k t) \<longrightarrow> top_running k'" using k'(6) r by auto
  have tm': "timer_set k c time k'" using tm k'(9,10) by (simp add: timer_set_def)
  have li: "tlists k' l = q" "\<forall>h. is_wait h \<longrightarrow> h \<noteq> l \<longrightarrow> tlists k' h = tlists k h"
    using w l by (simp_all add: k1(4))
  have er: "\<forall>u. error (threads k' u) = error (threads k u)" using k'(8) k1(6) by simp
  have su': "\<forall>u. u \<noteq> c \<longrightarrow> stat_moved k k' u"
    using stat_moves_moved [OF k'(4)] k1(3) by (auto intro: stat_moved_pre)
  show ?thesis
    by (intro exI conjI) (fact k'(1) k'(2) kframe_trans [OF k1(1) k'(3)] st su' li(1) li(2) k'(5) er tm' top)+
qed

text \<open>The whole of a blocking wait, up to the switch to the next thread.\<close>

lemma ipc_block_ok:
  assumes inv: "kinv b k" and c: "c = rt_current_thread k" "tstat k c = RT_THREAD_RUNNING"
    and l: "is_wait l" and fl: "fl = RT_IPC_FLAG_FIFO \<or> fl = RT_IPC_FLAG_PRIO" and time: "wait_time_ok time"
  shows "\<exists>k1 k'. ipc_wait l fl time k = Some k1 \<and> rt_schedule k1 = Some k' \<and> kinv b k' \<and> kframe k k'
     \<and> tstat k' c = RT_THREAD_SUSPEND
     \<and> (\<forall>u. u \<noteq> c \<longrightarrow> stat_moved k k' u)
     \<and> tlists k' l = enqueue fl (\<lambda>s. current_priority (threads k s)) c (tlists k l)
     \<and> (\<forall>h. is_wait h \<longrightarrow> h \<noteq> l \<longrightarrow> tlists k' h = tlists k h)
     \<and> rt_current_thread k' \<noteq> RT_NULL \<and> (\<forall>u. error (threads k' u) = error (threads k u))
     \<and> (if 0 < sint time then thread_timer (threads k c) \<in> set (timer_list k')
            \<and> timeout_tick (timers k' (thread_timer (threads k c))) = rt_tick k + time
        else timer_list k' = timer_list k \<and> timers k' = timers k)
     \<and> (scheduler_lock_nest k = 0 \<and> (\<exists>t. on_ready k t) \<longrightarrow> top_running k')"
proof -
  let ?q = "enqueue fl (\<lambda>s. current_priority (threads k s)) c (tlists k l)"
  obtain k0 where k0: "rt_ipc_list_suspend l c fl k = Some k0" "kinv b k0" "joins k c l ?q k0"
    "timer_list k0 = timer_list k" "timers k0 = timers k"
    using ipc_suspend_ok [OF inv c(2) l fl refl] by blast
  obtain k1 where k1: "(if 0 < sint time then arm_timer c time k0 else Some k0) = Some k1" "kinv b k1"
    "joins k c l ?q k1" "timer_set k c time k1"
    using timed_join_ok [OF k0(2-5) time] by blast
  have "ipc_wait l fl time k = Some k1"
    using k0(1) k1(1) c(1) by (auto simp: ipc_wait_def rt_thread_self_def split: if_splits)
  moreover have "rt_current_thread k \<noteq> RT_NULL"
    using own_timerD(7) [OF kinvD(3) [OF inv, of c]] c by (simp add: live_def)
  ultimately show ?thesis using join_block_ok [OF k1(2-4) l] unfolding timer_set_def by blast
qed

lemma kinv_error:
  assumes "kinv b k"
  shows "kinv b (upd_thread t (\<lambda>th. th\<lparr>error := e\<rparr>) k)" and "kframe k (upd_thread t (\<lambda>th. th\<lparr>error := e\<rparr>) k)"
proof -
  show fr: "kframe k (upd_thread t (\<lambda>th. th\<lparr>error := e\<rparr>) k)" by (simp add: kframe_def upd_thread_def)
  have st: "tstat (upd_thread t (\<lambda>th. th\<lparr>error := e\<rparr>) k) u = tstat k u" for u
    by (simp add: tstat_def upd_thread_def)
  show "kinv b (upd_thread t (\<lambda>th. th\<lparr>error := e\<rparr>) k)"
  proof (rule kinv_step [OF assms fr])
    show "sched_inv (upd_thread t (\<lambda>th. th\<lparr>error := e\<rparr>) k)"
      unfolding upd_thread_def by (rule sched_inv_thread [OF kinvD(1) [OF assms]]) auto
    show "timer_inv b (upd_thread t (\<lambda>th. th\<lparr>error := e\<rparr>) k)"
      using kinvD(2) [OF assms] timer_inv_cong by (simp add: upd_thread_def timer_inv_def due_def is_class_def)
  qed (use kinvD(3) [OF assms] waitD [OF assms] in \<open>simp_all add: st live_def, simp_all add: upd_thread_def\<close>)
qed

lemma upd_thread_frame [simp]:
  "objs (upd_thread t f k) = objs k" "tlists (upd_thread t f k) = tlists k"
  "rt_current_thread (upd_thread t f k) = rt_current_thread k" "timers (upd_thread t f k) = timers k"
  "timer_list (upd_thread t f k) = timer_list k" "rt_tick (upd_thread t f k) = rt_tick k"
  "interrupt_nest (upd_thread t f k) = interrupt_nest k"
  "scheduler_lock_nest (upd_thread t f k) = scheduler_lock_nest k"
  "sems (upd_thread t f k) = sems k" "mutexes (upd_thread t f k) = mutexes k"
  "events (upd_thread t f k) = events k" "mailboxes (upd_thread t f k) = mailboxes k"
  "mqs (upd_thread t f k) = mqs k" "mempools (upd_thread t f k) = mempools k"
  "pmem (upd_thread t f k) = pmem k" "bmem (upd_thread t f k) = bmem k"
  by (simp_all add: upd_thread_def)

lemma running_not_null: "kinv b k \<Longrightarrow> tstat k c = RT_THREAD_RUNNING \<Longrightarrow> c \<noteq> RT_NULL"
  using own_timerD(7) [OF kinvD(3), of b k c] by (simp add: live_def)

text \<open>The same behind the reset of the thread's error code, as the calls do it.\<close>

abbreviation (input) reset_error :: "ptr \<Rightarrow> kernel \<Rightarrow> kernel" where
  "reset_error c \<equiv> upd_thread c (\<lambda>th. th\<lparr>error := RT_EOK\<rparr>)"

lemma ipc_block_reset_ok:
  assumes inv: "kinv b k" and c: "c = rt_current_thread k" "tstat k c = RT_THREAD_RUNNING"
    and l: "is_wait l" and fl: "fl = RT_IPC_FLAG_FIFO \<or> fl = RT_IPC_FLAG_PRIO" and time: "wait_time_ok time"
  shows "\<exists>k1 k'. ipc_wait l fl time (reset_error c k) = Some k1 \<and> rt_schedule k1 = Some k' \<and> kinv b k' \<and> kframe k k'
     \<and> tstat k' c = RT_THREAD_SUSPEND \<and> error (threads k' c) = RT_EOK
     \<and> (\<forall>u. u \<noteq> c \<longrightarrow> stat_moved k k' u \<and> error (threads k' u) = error (threads k u))
     \<and> tlists k' l = enqueue fl (\<lambda>s. current_priority (threads k s)) c (tlists k l)
     \<and> (\<forall>h. is_wait h \<longrightarrow> h \<noteq> l \<longrightarrow> tlists k' h = tlists k h)
     \<and> rt_current_thread k' \<noteq> RT_NULL
     \<and> (if 0 < sint time then thread_timer (threads k c) \<in> set (timer_list k')
            \<and> timeout_tick (timers k' (thread_timer (threads k c))) = rt_tick k + time
        else timer_list k' = timer_list k \<and> timers k' = timers k)
     \<and> (scheduler_lock_nest k = 0 \<and> (\<exists>t. on_ready k t) \<longrightarrow> top_running k')"
proof -
  let ?e = "reset_error c k"
  have e: "kinv b ?e" "kframe k ?e" using kinv_error [OF inv] by auto
  have ef: "rt_current_thread ?e = rt_current_thread k" "tstat ?e u = tstat k u"
    "tlists ?e = tlists k" "current_priority (threads ?e u) = current_priority (threads k u)"
    "thread_timer (threads ?e u) = thread_timer (threads k u)" "rt_tick ?e = rt_tick k"
    "error (threads ?e u) = (if u = c then RT_EOK else error (threads k u))"
    "scheduler_lock_nest ?e = scheduler_lock_nest k"
    "timer_list ?e = timer_list k" "timers ?e = timers k" "on_ready ?e u = on_ready k u" for u
    by (simp_all add: upd_thread_def tstat_def on_ready_def)
  obtain k1 k' where k': "ipc_wait l fl time ?e = Some k1" "rt_schedule k1 = Some k'" "kinv b k'" "kframe ?e k'"
    "tstat k' c = RT_THREAD_SUSPEND" "\<forall>u. u \<noteq> c \<longrightarrow> stat_moved ?e k' u"
    "tlists k' l = enqueue fl (\<lambda>s. current_priority (threads k s)) c (tlists k l)"
    "\<forall>h. is_wait h \<longrightarrow> h \<noteq> l \<longrightarrow> tlists k' h = tlists k h" "rt_current_thread k' \<noteq> RT_NULL"
    "\<forall>u. error (threads k' u) = (if u = c then RT_EOK else error (threads k u))"
    "if 0 < sint time then thread_timer (threads k c) \<in> set (timer_list k')
            \<and> timeout_tick (timers k' (thread_timer (threads k c))) = rt_tick k + time
        else timer_list k' = timer_list k \<and> timers k' = timers k"
    "scheduler_lock_nest k = 0 \<and> (\<exists>t. on_ready k t) \<longrightarrow> top_running k'"
    using ipc_block_ok [OF e(1), of c l fl time] c l fl time unfolding ef by blast
  moreover have "kframe k k'" by (rule kframe_trans [OF e(2) k'(4)])
  moreover have "\<forall>u. u \<noteq> c \<longrightarrow> stat_moved k k' u" using k'(6) ef(2) by (simp add: stat_moved_def)
  ultimately show ?thesis by (intro exI [of _ k1] exI [of _ k']) simp
qed

text \<open>The effect of a wait, as one relation between the states.\<close>

definition waits :: "tlist_head \<Rightarrow> u8 \<Rightarrow> 32 word \<Rightarrow> kernel \<Rightarrow> kernel \<Rightarrow> bool" where
  "waits l fl time k k' \<longleftrightarrow> (let c = rt_current_thread k in
     tstat k' c = RT_THREAD_SUSPEND \<and> error (threads k' c) = RT_EOK
     \<and> tlists k' l = enqueue fl (\<lambda>t. current_priority (threads k t)) c (tlists k l)
     \<and> (\<forall>h. is_wait h \<longrightarrow> h \<noteq> l \<longrightarrow> tlists k' h = tlists k h)
     \<and> (if 0 < sint time then thread_timer (threads k c) \<in> set (timer_list k')
            \<and> timeout_tick (timers k' (thread_timer (threads k c))) = rt_tick k + time
        else timer_list k' = timer_list k \<and> timers k' = timers k)
     \<and> (scheduler_lock_nest k = 0 \<and> (\<exists>t. on_ready k t) \<longrightarrow> top_running k'))"

lemma ipc_waits:
  assumes inv: "kinv b k" and c: "tstat k (rt_current_thread k) = RT_THREAD_RUNNING"
    and l: "is_wait l" and fl: "fl = RT_IPC_FLAG_FIFO \<or> fl = RT_IPC_FLAG_PRIO" and time: "wait_time_ok time"
  shows "\<exists>k1 k'. ipc_wait l fl time (reset_error (rt_current_thread k) k) = Some k1 \<and> rt_schedule k1 = Some k'
     \<and> kinv b k' \<and> kframe k k' \<and> waits l fl time k k'"
  using ipc_block_reset_ok [OF inv refl c l fl time] unfolding waits_def Let_def by blast

subsection \<open>Waking threads\<close>

lemma waiter_suspended: "sched_inv k \<Longrightarrow> is_wait l \<Longrightarrow> t \<in> set (tlists k l) \<Longrightarrow> tstat k t = RT_THREAD_SUSPEND"
  using core_invD(5,6) [OF sched_inv_core, of k t] by (cases l) auto

lemma ipc_resume_ok:
  assumes inv: "kinv b k" and l: "is_wait l" "tlists k l = t # r"
  shows "\<exists>k'. rt_ipc_list_resume l k = Some k' \<and> kinv b k' \<and> kframe k k'
     \<and> tstat k' t \<in> {RT_THREAD_READY, RT_THREAD_RUNNING} \<and> (\<forall>u. u \<noteq> t \<longrightarrow> tstat k' u = tstat k u)
     \<and> tlists k' l = r \<and> (\<forall>h. is_wait h \<longrightarrow> h \<noteq> l \<longrightarrow> tlists k' h = tlists k h)
     \<and> rt_current_thread k' = rt_current_thread k
     \<and> timer_list k' = removeAll (thread_timer (threads k t)) (timer_list k)
     \<and> (\<forall>u. error (threads k' u) = error (threads k u))
     \<and> (t \<noteq> rt_current_thread k \<longrightarrow> on_ready k' t)"
proof -
  have tl: "t \<in> set (tlists k l)" using l(2) by simp
  have st: "tstat k t = RT_THREAD_SUSPEND" by (rule waiter_suspended [OF kinvD(1) [OF inv] l(1) tl])
  have fam: "list_family (tlists k)" using core_invD(1) [OF sched_inv_core [OF kinvD(1) [OF inv]]] .
  have r: "fam_remove t (tlists k) l = r"
    using l(2) list_family_distinct [OF fam, of l] by (simp add: fam_remove_def)
  have o: "fam_remove t (tlists k) h = tlists k h" if "h \<noteq> l" for h
    using list_family_unique [OF fam tl, of h] that by (auto simp: fam_remove_def intro!: removeAll_notin)
  obtain k' where k': "rt_thread_resume t k = Some (RT_EOK, k')" "kinv b k'" "kframe k k'"
    "tstat k' t = (if t = rt_current_thread k then RT_THREAD_RUNNING else RT_THREAD_READY)"
    "\<forall>u. u \<noteq> t \<longrightarrow> tstat k' u = tstat k u"
    "tlists k' = (if t = rt_current_thread k then fam_remove t (tlists k)
         else seq_insert_before (Ready (tprio k t)) t (fam_remove t (tlists k)))"
    "rt_current_thread k' = rt_current_thread k"
    "timer_list k' = removeAll (thread_timer (threads k t)) (timer_list k)"
    "\<forall>u. error (threads k' u) = error (threads k u)"
    using resume_ok [OF inv st] by blast
  have "rt_ipc_list_resume l k = Some k'"
    using l(2) k'(1) by (simp add: rt_ipc_list_resume_def tlist_first_def)
  moreover have "tlists k' h = fam_remove t (tlists k) h" if "is_wait h" for h
    using that k'(6) by (auto simp: seq_insert_before_def)
  moreover have "on_ready k' t" if "t \<noteq> rt_current_thread k"
    using that k'(6) by (auto simp: on_ready_def seq_insert_before_def)
  ultimately show ?thesis using k' l(1) r o by auto
qed

text \<open>Waking the first thread of a list and giving up the processor to a more urgent one.\<close>

lemma ipc_wake_ok:
  assumes inv: "kinv b k" and l: "is_wait l" "tlists k l = t # q" and cur: "rt_current_thread k \<noteq> RT_NULL"
  shows "\<exists>k1 k'. rt_ipc_list_resume l k = Some k1 \<and> rt_schedule k1 = Some k' \<and> kinv b k' \<and> kframe k k'
     \<and> tstat k' t \<in> {RT_THREAD_READY, RT_THREAD_RUNNING}
     \<and> (\<forall>u. u \<noteq> t \<longrightarrow> stat_moved k k' u)
     \<and> tlists k' l = q \<and> (\<forall>h. is_wait h \<longrightarrow> h \<noteq> l \<longrightarrow> tlists k' h = tlists k h)
     \<and> (\<forall>u. error (threads k' u) = error (threads k u))
     \<and> thread_timer (threads k t) \<notin> set (timer_list k')
     \<and> rt_current_thread k' \<noteq> RT_NULL
     \<and> (scheduler_lock_nest k = 0 \<longrightarrow> top_running k')"
proof -
  obtain k1 where k1: "rt_ipc_list_resume l k = Some k1" "kinv b k1" "kframe k k1"
    "tstat k1 t \<in> {RT_THREAD_READY, RT_THREAD_RUNNING}" "\<forall>u. u \<noteq> t \<longrightarrow> tstat k1 u = tstat k u"
    "tlists k1 l = q" "\<forall>h. is_wait h \<longrightarrow> h \<noteq> l \<longrightarrow> tlists k1 h = tlists k h"
    "rt_current_thread k1 = rt_current_thread k"
    "timer_list k1 = removeAll (thread_timer (threads k t)) (timer_list k)"
    "\<forall>u. error (threads k1 u) = error (threads k u)" "t \<noteq> rt_current_thread k \<longrightarrow> on_ready k1 t"
    using ipc_resume_ok [OF inv l] by blast
  obtain k' where k': "rt_schedule k1 = Some k'" "kinv b k'" "kframe k1 k'" "stat_moves k1 k'"
    "rt_current_thread k' \<noteq> RT_NULL"
    "scheduler_lock_nest k1 = 0 \<and>
       (tstat k1 (rt_current_thread k1) = RT_THREAD_RUNNING \<or> (\<exists>t. on_ready k1 t)) \<longrightarrow> top_running k'"
    "\<forall>x. tlists k' (Waiters x) = tlists k1 (Waiters x) \<and> tlists k' (Senders x) = tlists k1 (Senders x)"
    "\<forall>t. error (threads k' t) = error (threads k1 t)" "timer_list k' = timer_list k1"
    using kinv_schedule [OF k1(2)] k1(8) cur by auto
  have wl: "tlists k' h = tlists k1 h" if "is_wait h" for h using that k'(7) by (cases h) auto
  have t1: "tstat k1 (rt_current_thread k) = RT_THREAD_RUNNING" if "t = rt_current_thread k"
  proof -
    have "\<not> on_ready k1 t"
      using kinvD(1) [OF k1(2)] that k1(8) by (simp add: sched_inv_def)
    then have "tstat k1 t \<noteq> RT_THREAD_READY"
      using core_invD(4) [OF sched_inv_core [OF kinvD(1) [OF k1(2)]], of t] by auto
    then show ?thesis using k1(4) that by simp
  qed
  have top: "scheduler_lock_nest k = 0 \<longrightarrow> top_running k'"
    using k'(6) t1 k1(8,11) kframe_fields(2) [OF k1(3)] by auto
  have tt: "tstat k' t \<in> {RT_THREAD_READY, RT_THREAD_RUNNING}"
    using k'(4) k1(4) unfolding stat_moves_def by (auto dest!: spec [of _ t])
  have tu: "\<forall>u. u \<noteq> t \<longrightarrow> stat_moved k k' u"
    using stat_moves_moved [OF k'(4)] k1(5) by (auto intro: stat_moved_pre)
  have li: "tlists k' l = q" "\<forall>h. is_wait h \<longrightarrow> h \<noteq> l \<longrightarrow> tlists k' h = tlists k h"
    using wl l(1) k1(6,7) by simp_all
  have er: "\<forall>u. error (threads k' u) = error (threads k u)" using k'(8) k1(10) by simp
  have tm: "thread_timer (threads k t) \<notin> set (timer_list k')" by (simp add: k'(9) k1(9))
  show ?thesis
    by (intro exI conjI) (fact k1(1) k'(1) k'(2) kframe_trans [OF k1(3) k'(3)] tt tu li er tm k'(5) top)+
qed

text \<open>What a call does behind its put or get: the first thread of the other side is woken, if any.\<close>

definition wakes_first :: "tlist_head \<Rightarrow> kernel \<Rightarrow> kernel \<Rightarrow> bool" where
  "wakes_first l k k' \<longleftrightarrow> (case tlists k l of
       [] \<Rightarrow> tlists k' l = [] \<and> (\<forall>u. tstat k' u = tstat k u)
     | t # q \<Rightarrow> tlists k' l = q \<and> tstat k' t \<in> {RT_THREAD_READY, RT_THREAD_RUNNING}
          \<and> thread_timer (threads k t) \<notin> set (timer_list k')
          \<and> (\<forall>u. u \<noteq> t \<longrightarrow> stat_moved k k' u)
          \<and> (scheduler_lock_nest k = 0 \<longrightarrow> top_running k'))
     \<and> (\<forall>h. is_wait h \<longrightarrow> h \<noteq> l \<longrightarrow> tlists k' h = tlists k h)
     \<and> (\<forall>u. error (threads k' u) = error (threads k u))
     \<and> rt_current_thread k' \<noteq> RT_NULL"

lemma wakes_first_cong:
  assumes "tlists j = tlists k" "threads j = threads k" "scheduler_lock_nest j = scheduler_lock_nest k"
  shows "wakes_first l j k' = wakes_first l k k'"
  using assms by (simp add: wakes_first_def tstat_def stat_moved_def split: list.splits)

lemma wake_ok:
  assumes inv: "kinv b k" and cur: "rt_current_thread k \<noteq> RT_NULL" and l: "is_wait l"
  shows "\<exists>k'. (if \<not> tlist_isempty l k then do {
         k \<leftarrow> rt_ipc_list_resume l k;
         k \<leftarrow> rt_schedule k;
         Some (r, k)
       } else Some (r, k)) = Some (r, k') \<and> kinv b k' \<and> kframe k k' \<and> wakes_first l k k'"
proof (cases "tlists k l")
  case Nil
  then show ?thesis using inv cur by (auto simp: tlist_isempty_def wakes_first_def)
next
  case (Cons t q)
  obtain k1 k' where k': "rt_ipc_list_resume l k = Some k1" "rt_schedule k1 = Some k'" "kinv b k'"
    "kframe k k'" "tstat k' t \<in> {RT_THREAD_READY, RT_THREAD_RUNNING}" "\<forall>u. u \<noteq> t \<longrightarrow> stat_moved k k' u"
    "tlists k' l = q" "\<forall>h. is_wait h \<longrightarrow> h \<noteq> l \<longrightarrow> tlists k' h = tlists k h"
    "\<forall>u. error (threads k' u) = error (threads k u)" "thread_timer (threads k t) \<notin> set (timer_list k')"
    "rt_current_thread k' \<noteq> RT_NULL" "scheduler_lock_nest k = 0 \<longrightarrow> top_running k'"
    using ipc_wake_ok [OF inv l Cons cur] by blast
  then have "wakes_first l k k'" by (simp add: wakes_first_def Cons)
  with k' Cons show ?thesis by (auto simp: tlist_isempty_def)
qed

text \<open>Waking all: the loop ends, everybody on the list is ready again with an error.\<close>

lemma ipc_resume_all_ok:
  assumes "kinv b k" "is_wait l"
  shows "\<exists>k'. rt_ipc_list_resume_all l k = Some k' \<and> kinv b k' \<and> kframe k k' \<and> tlists k' l = []
     \<and> (\<forall>t \<in> set (tlists k l). tstat k' t \<in> {RT_THREAD_READY, RT_THREAD_RUNNING} \<and> error (threads k' t) = - RT_ERROR)
     \<and> (\<forall>t. t \<notin> set (tlists k l) \<longrightarrow> tstat k' t = tstat k t \<and> error (threads k' t) = error (threads k t))
     \<and> (\<forall>h. is_wait h \<longrightarrow> h \<noteq> l \<longrightarrow> tlists k' h = tlists k h)
     \<and> rt_current_thread k' = rt_current_thread k"
  using assms
proof (induction "tlists k l" arbitrary: k)
  case Nil
  then show ?case by (subst rt_ipc_list_resume_all.simps) (simp add: tlist_isempty_def)
next
  case (Cons t r)
  let ?e = "upd_thread t (\<lambda>th. th\<lparr>error := - RT_ERROR\<rparr>) k"
  have e: "kinv b ?e" "kframe k ?e" using kinv_error [OF Cons.prems(1)] by auto
  have el: "tlists ?e = tlists k" "rt_current_thread ?e = rt_current_thread k" "tstat ?e u = tstat k u"
    "error (threads ?e u) = (if u = t then - RT_ERROR else error (threads k u))" for u
    by (simp_all add: upd_thread_def tstat_def)
  have tr: "t \<notin> set r"
    using list_family_distinct [OF core_invD(1) [OF sched_inv_core [OF kinvD(1) [OF Cons.prems(1)]]], of l]
      Cons.hyps(2) by (metis distinct.simps(2))
  have e1: "tlists ?e l = t # r" using Cons.hyps(2) by (simp add: el)
  obtain k1 where k1: "rt_ipc_list_resume l ?e = Some k1" "kinv b k1" "kframe ?e k1"
    "tstat k1 t \<in> {RT_THREAD_READY, RT_THREAD_RUNNING}" "\<forall>u. u \<noteq> t \<longrightarrow> tstat k1 u = tstat ?e u"
    "tlists k1 l = r" "\<forall>h. is_wait h \<longrightarrow> h \<noteq> l \<longrightarrow> tlists k1 h = tlists ?e h"
    "rt_current_thread k1 = rt_current_thread ?e" "\<forall>u. error (threads k1 u) = error (threads ?e u)"
    using ipc_resume_ok [OF e(1) Cons.prems(2) e1] by blast
  obtain k' where k': "rt_ipc_list_resume_all l k1 = Some k'" "kinv b k'" "kframe k1 k'" "tlists k' l = []"
    "\<forall>t \<in> set r. tstat k' t \<in> {RT_THREAD_READY, RT_THREAD_RUNNING} \<and> error (threads k' t) = - RT_ERROR"
    "\<forall>t. t \<notin> set r \<longrightarrow> tstat k' t = tstat k1 t \<and> error (threads k' t) = error (threads k1 t)"
    "\<forall>h. is_wait h \<longrightarrow> h \<noteq> l \<longrightarrow> tlists k' h = tlists k1 h" "rt_current_thread k' = rt_current_thread k1"
    using Cons.hyps(1) [of k1] k1(2,6) Cons.prems(2) by auto
  have "tlist_first l k = Some t" using Cons.hyps(2) [symmetric] by (simp add: tlist_first_def)
  moreover have "\<exists>x. rt_thread_resume t ?e = Some (x, k1)"
    using k1(1) e1 by (auto simp: rt_ipc_list_resume_def tlist_first_def opt_simps)
  ultimately have "rt_ipc_list_resume_all l k = Some k'"
    using k'(1) Cons.hyps(2) [symmetric]
    by (subst rt_ipc_list_resume_all.simps) (auto simp: tlist_isempty_def)
  moreover have "kframe k k'" using kframe_trans [OF kframe_trans [OF e(2) k1(3)] k'(3)] .
  moreover have "\<forall>u \<in> set (tlists k l). tstat k' u \<in> {RT_THREAD_READY, RT_THREAD_RUNNING}
      \<and> error (threads k' u) = - RT_ERROR"
    using k'(5,6) k1(4,9) el(4) tr Cons.hyps(2) [symmetric] by simp
  moreover have "\<forall>u. u \<notin> set (tlists k l) \<longrightarrow> tstat k' u = tstat k u \<and> error (threads k' u) = error (threads k u)"
    using k'(6) k1(5,9) el(3,4) Cons.hyps(2) [symmetric] by simp
  ultimately show ?case using k'(2,4,7,8) k1(7,8) el(1,2) by simp
qed

end
