(* ===== verification/RT_Example.thy ===== *)
theory RT_Example
  imports RT_IPC
begin

text \<open>
  A concrete running system, at which the general theorems are applied. Thread 1 runs, with
  priority 6 lent by thread 5 that waits for mutex 33; thread 2 (priority 12) is ready and owns
  mutex 31, thread 3 (priority 5) waits for semaphore 20 until tick 150, thread 4 (priority 7)
  sleeps until tick 101, thread 6 (priority 9) waits for both of the events 1 and 2 of event set
  41, of which event 1 has happened, thread 7 (priority 8) waits for mail in the empty mailbox 50.
  Mailbox 51 is full with the mails 8 and 7; message queue 60 holds one message and has room for
  one more; memory pool 70 has one free and one used block, pool 71 none free. Thread 1 also owns mutex 32, mutex 30 is free, semaphore 21 has two
  tokens. The tick is 100.
\<close>

definition ex_obj :: "u8 \<Rightarrow> u8 \<Rightarrow> rt_object" where
  "ex_obj ty fl = \<lparr>name = [], otype = ty, flag = fl\<rparr>"

definition ex_thread :: "u8 \<Rightarrow> u8 \<Rightarrow> ptr \<Rightarrow> rt_thread" where
  "ex_thread p s x = \<lparr>entry = 0, parameter = 0, sp = 0, stack_addr = 0, stack_size = 0, error = 0,
     stat = s, current_priority = p, init_priority = p, number_mask = push_bit (unat p) 1,
     event_set = 0, event_info = 0, init_tick = 5, remaining_tick = 5, thread_timer = x,
     cleanup = 0, user_data = 0\<rparr>"

definition ex_timer :: "ptr \<Rightarrow> u32 \<Rightarrow> rt_timer" where
  "ex_timer t tick = \<lparr>tm_func = Rt_thread_timeout, tm_parameter = t, tm_init_tick = 10, timeout_tick = tick\<rparr>"

definition demo :: kernel where
  "demo = \<lparr>
     objs = (\<lambda>_. ex_obj 0 0)(1 := ex_obj 0x81 0, 2 := ex_obj 0x81 0, 3 := ex_obj 0x81 0, 4 := ex_obj 0x81 0,
       5 := ex_obj 0x81 0, 15 := ex_obj 0x8a 0, 32 := ex_obj 0x83 0, 33 := ex_obj 0x83 1,
       6 := ex_obj 0x81 0, 16 := ex_obj 0x8a 0, 7 := ex_obj 0x81 0, 17 := ex_obj 0x8a 0, 41 := ex_obj 0x84 0,
       11 := ex_obj 0x8a 0, 12 := ex_obj 0x8a 0, 13 := ex_obj 0x8a 1, 14 := ex_obj 0x8a 1,
       20 := ex_obj 0x82 0, 21 := ex_obj 0x82 1, 30 := ex_obj 0x83 1, 31 := ex_obj 0x83 0,
       40 := ex_obj 0x84 0, 50 := ex_obj 0x85 0, 51 := ex_obj 0x85 1, 60 := ex_obj 0x86 0,
       70 := ex_obj 0x88 0, 71 := ex_obj 0x88 0),
     object_list = (\<lambda>_. []),
     threads = (\<lambda>_. ex_thread 0 0 0)(1 := ex_thread 6 3 11, 2 := ex_thread 12 1 12, 3 := ex_thread 5 2 13,
       4 := ex_thread 7 2 14, 5 := ex_thread 6 2 15,
       6 := (ex_thread 9 2 16)\<lparr>event_set := 3, event_info := 5\<rparr>, 7 := ex_thread 8 2 17),
     tlists = (\<lambda>_. [])(Ready 12 := [2], Waiters 20 := [3], Waiters 33 := [5], Waiters 41 := [6], Waiters 50 := [7]),
     ready_priority_group = 0x1000,
     scheduler_lock_nest = 0, rt_current_thread = 1, rt_current_priority = 6, interrupt_nest = 0,
     timers = (\<lambda>_. ex_timer 0 0)(11 := ex_timer 1 0, 12 := ex_timer 2 0, 13 := ex_timer 3 150, 14 := ex_timer 4 101,
       15 := ex_timer 5 0, 16 := ex_timer 6 0, 17 := ex_timer 7 0),
     timer_list = [14, 13], rt_tick = 100, rt_errno = 0,
     sems = (\<lambda>_. \<lparr>sem_value = 0\<rparr>)(21 := \<lparr>sem_value = 2\<rparr>),
     mutexes = (\<lambda>_. \<lparr>mutex_value = 1, original_priority = 0xff, hold = 0, owner = 0\<rparr>)
       (31 := \<lparr>mutex_value = 0, original_priority = 12, hold = 1, owner = 2\<rparr>,
        32 := \<lparr>mutex_value = 0, original_priority = 15, hold = 1, owner = 1\<rparr>,
        33 := \<lparr>mutex_value = 0, original_priority = 15, hold = 1, owner = 1\<rparr>),
     events = (\<lambda>_. \<lparr>event_bits = 0\<rparr>)(41 := \<lparr>event_bits = 1\<rparr>),
     mailboxes = (\<lambda>_. \<lparr>mb_pool = 2000, mb_size = 2, mb_entry = 0, in_offset = 0, out_offset = 0\<rparr>)
       (51 := \<lparr>mb_pool = 2100, mb_size = 2, mb_entry = 2, in_offset = 1, out_offset = 1\<rparr>),
     mqs = (\<lambda>_. \<lparr>mq_pool = 3000, msg_size = 4, max_msgs = 2, mq_entry = 1, msg_queue_head = 3000,
       msg_queue_tail = 3000, msg_queue_free = 3008\<rparr>),
     mempools = (\<lambda>_. \<lparr>start_address = 4000, mp_size = 24, block_size = 8, block_list = 4000,
       block_total_count = 2, block_free_count = 1, suspend_thread_count = 0\<rparr>)
       (71 := \<lparr>start_address = 5000, mp_size = 12, block_size = 8, block_list = 0,
         block_total_count = 1, block_free_count = 0, suspend_thread_count = 0\<rparr>),
     pmem = (\<lambda>_. 0)(2100 := 7, 2104 := 8, 4012 := 70, 5000 := 71), bmem = (\<lambda>a. of_nat a)\<rparr>"

lemma demo_fields [simp]:
  "tlists demo = (\<lambda>_. [])(Ready 12 := [2], Waiters 20 := [3], Waiters 33 := [5], Waiters 41 := [6], Waiters 50 := [7])" "rt_current_thread demo = 1"
  "timer_list demo = [14, 13]" "rt_tick demo = 100" "interrupt_nest demo = 0" "scheduler_lock_nest demo = 0"
  "ready_priority_group demo = 0x1000"
  by (simp_all add: demo_def)

lemma demo_thread [simp]:
  "threads demo t = (if t = 1 then ex_thread 6 3 11 else if t = 2 then ex_thread 12 1 12
     else if t = 3 then ex_thread 5 2 13 else if t = 4 then ex_thread 7 2 14
     else if t = 5 then ex_thread 6 2 15
     else if t = 6 then (ex_thread 9 2 16)\<lparr>event_set := 3, event_info := 5\<rparr>
     else if t = 7 then ex_thread 8 2 17 else ex_thread 0 0 0)"
  by (simp add: demo_def)

lemma ex_thread_simps [simp]:
  "stat (ex_thread p s x) = s" "current_priority (ex_thread p s x) = p"
  "number_mask (ex_thread p s x) = push_bit (unat p) 1" "thread_timer (ex_thread p s x) = x"
  "error (ex_thread p s x) = 0"
  by (simp_all add: ex_thread_def)

lemma demo_stat:
  "tstat demo t = (if t = 1 then 3 else if t = 2 then 1 else if t = 3 then 2 else if t = 4 then 2
     else if t = 5 then 2 else if t = 6 then 2 else if t = 7 then 2 else 0)"
  by (simp add: tstat_def)

lemma group_4096: "bit (0x1000 :: u32) p \<longleftrightarrow> p = 12"
proof -
  have e: "(0x1000 :: u32) = push_bit 12 1" by simp
  show ?thesis unfolding e bit_push_bit_iff by (auto simp: bit_1_iff)
qed

lemma demo_sched: "sched_inv demo"
proof -
  have "list_family (tlists demo)" by (auto simp: list_family_def)
  moreover have "prio_ok (threads demo t)"
    if "tstat demo t = 1 \<or> tstat demo t = 2 \<or> tstat demo t = 3" for t
    using that by (auto simp: demo_stat prio_ok_def split: if_splits)
  ultimately have "core_inv {} demo"
    unfolding core_inv_def by (simp add: demo_stat on_ready_def group_4096 del: bit_numeral_word_iff)
  then show ?thesis by (auto simp: sched_inv_def demo_stat on_ready_def split: if_splits)
qed

lemma demo_kinv: "kinv 100 demo"
proof -
  have "timer_inv 100 demo"
    by (auto simp: timer_inv_def due_def is_class_def demo_def ex_obj_def ex_timer_def)
  moreover have "own_timer demo t" if "live demo t" for t
  proof -
    have "t \<in> {1, 2, 3, 4, 5, 6, 7}" using that by (auto simp: live_def demo_stat split: if_splits)
    then show ?thesis
      by (auto simp: own_timer_def is_class_def ex_obj_def ex_timer_def ex_thread_def demo_def)
  qed
  moreover have "timers_wait demo"
    unfolding timers_wait_def by (auto simp: tstat_def) (auto simp: demo_def ex_timer_def ex_thread_def)
  ultimately show ?thesis using demo_sched by (simp add: kinv_def)
qed

end
