(* ===== verification/RT_Semaphore.thy ===== *)
theory RT_Semaphore
  imports RT_Example
begin

text \<open>
  Counting semaphores (\<^verbatim>\<open>rt_sem_*\<close> of \<^verbatim>\<open>src/ipc.c\<close>). The abstract semaphore is a count with a
  queue of waiting threads; taking and releasing refine its operations, in every branch.
\<close>

subsection \<open>Operations\<close>

definition rt_sem_init :: "ptr \<Rightarrow> string \<Rightarrow> u32 \<Rightarrow> u8 \<Rightarrow> kernel \<Rightarrow> (err \<times> kernel) option" where
  "rt_sem_init sem nm val fl k = do {
     RT_ASSERT (sem \<noteq> RT_NULL);
     RT_ASSERT (val < 0x10000);
     k \<leftarrow> rt_object_init sem RT_Object_Class_Semaphore nm k;
     k \<leftarrow> rt_ipc_object_init sem k;
     let k = upd_sem sem (\<lambda>s. s\<lparr>sem_value := ucast val\<rparr>) k;
     let k = upd_obj sem (\<lambda>ob. ob\<lparr>flag := fl\<rparr>) k;
     Some (RT_EOK, k)
   }"

definition rt_sem_detach :: "ptr \<Rightarrow> kernel \<Rightarrow> (err \<times> kernel) option" where
  "rt_sem_detach sem k = do {
     RT_ASSERT (sem \<noteq> RT_NULL);
     ASSERT_TYPE sem RT_Object_Class_Semaphore k;
     ASSERT_SYSTEM sem True k;
     k \<leftarrow> rt_ipc_list_resume_all (Waiters sem) k;
     k \<leftarrow> rt_object_detach sem k;
     Some (RT_EOK, k)
   }"

definition rt_sem_create ::
  "(u32 \<Rightarrow> kernel \<Rightarrow> ptr \<times> kernel) \<Rightarrow> (u8 \<Rightarrow> u32) \<Rightarrow> string \<Rightarrow> u32 \<Rightarrow> u8 \<Rightarrow> kernel \<Rightarrow> (ptr \<times> kernel) option" where
  "rt_sem_create malloc size_of nm val fl k = do {
     RT_DEBUG_NOT_IN_INTERRUPT k;
     RT_ASSERT (val < 0x10000);
     (sem, k) \<leftarrow> rt_object_allocate malloc size_of RT_Object_Class_Semaphore nm k;
     if sem = RT_NULL then Some (sem, k)
     else do {
       k \<leftarrow> rt_ipc_object_init sem k;
       let k = upd_sem sem (\<lambda>s. s\<lparr>sem_value := ucast val\<rparr>) k;
       let k = upd_obj sem (\<lambda>ob. ob\<lparr>flag := fl\<rparr>) k;
       Some (sem, k)
     }
   }"

definition rt_sem_delete :: "(ptr \<Rightarrow> kernel \<Rightarrow> kernel) \<Rightarrow> ptr \<Rightarrow> kernel \<Rightarrow> (err \<times> kernel) option" where
  "rt_sem_delete free sem k = do {
     RT_DEBUG_NOT_IN_INTERRUPT k;
     RT_ASSERT (sem \<noteq> RT_NULL);
     ASSERT_TYPE sem RT_Object_Class_Semaphore k;
     ASSERT_SYSTEM sem False k;
     k \<leftarrow> rt_ipc_list_resume_all (Waiters sem) k;
     k \<leftarrow> rt_object_delete free sem k;
     Some (RT_EOK, k)
   }"

definition rt_sem_take :: "ptr \<Rightarrow> 32 word \<Rightarrow> kernel \<Rightarrow> (outcome \<times> kernel) option" where
  "rt_sem_take sem time k = do {
     RT_ASSERT (sem \<noteq> RT_NULL);
     ASSERT_TYPE sem RT_Object_Class_Semaphore k;
     if sem_value (sems k sem) > 0 then
       Some (Done RT_EOK, upd_sem sem (\<lambda>s. s\<lparr>sem_value := sem_value s - 1\<rparr>) k)
     else if time = 0 then Some (Done (- RT_ETIMEOUT), k)
     else do {
       RT_DEBUG_IN_THREAD_CONTEXT k;
       let thread = rt_thread_self k;
       let k = upd_thread thread (\<lambda>th. th\<lparr>error := RT_EOK\<rparr>) k;
       k \<leftarrow> ipc_wait (Waiters sem) (flag (objs k sem)) time k;
       k \<leftarrow> rt_schedule k;
       Some (Blocked, k)
     }
   }"

definition rt_sem_take_resume :: "ptr \<Rightarrow> kernel \<Rightarrow> err" where
  "rt_sem_take_resume thread k =
     (if error (threads k thread) \<noteq> RT_EOK then error (threads k thread) else RT_EOK)"

definition rt_sem_trytake :: "ptr \<Rightarrow> kernel \<Rightarrow> (outcome \<times> kernel) option" where
  "rt_sem_trytake sem k = rt_sem_take sem 0 k"

definition rt_sem_release :: "ptr \<Rightarrow> kernel \<Rightarrow> (err \<times> kernel) option" where
  "rt_sem_release sem k = do {
     RT_ASSERT (sem \<noteq> RT_NULL);
     ASSERT_TYPE sem RT_Object_Class_Semaphore k;
     if \<not> tlist_isempty (Waiters sem) k then do {
       k \<leftarrow> rt_ipc_list_resume (Waiters sem) k;
       k \<leftarrow> rt_schedule k;
       Some (RT_EOK, k)
     }
     else Some (RT_EOK, upd_sem sem (\<lambda>s. s\<lparr>sem_value := sem_value s + 1\<rparr>) k)
   }"

definition rt_sem_control :: "ptr \<Rightarrow> int \<Rightarrow> u32 \<Rightarrow> kernel \<Rightarrow> (err \<times> kernel) option" where
  "rt_sem_control sem cmd arg k = do {
     RT_ASSERT (sem \<noteq> RT_NULL);
     ASSERT_TYPE sem RT_Object_Class_Semaphore k;
     if cmd = RT_IPC_CMD_RESET then do {
       k \<leftarrow> rt_ipc_list_resume_all (Waiters sem) k;
       let k = upd_sem sem (\<lambda>s. s\<lparr>sem_value := ucast arg\<rparr>) k;
       k \<leftarrow> rt_schedule k;
       Some (RT_EOK, k)
     }
     else Some (- RT_ERROR, k)
   }"

subsection \<open>The abstract semaphore\<close>

type_synonym asem = "nat \<times> ptr list"

definition abs_sem :: "kernel \<Rightarrow> ptr \<Rightarrow> asem" where
  "abs_sem k s = (unat (sem_value (sems k s)), tlists k (Waiters s))"

text \<open>
  \<open>a_take\<close>: one token, or a place in the queue; \<open>a_release\<close>: the token goes to the first waiter
  without passing through the count. The count is kept modulo \<open>2 ^ 16\<close>.
\<close>

definition a_take :: "(ptr list \<Rightarrow> ptr list) \<Rightarrow> asem \<Rightarrow> bool \<times> asem" where
  "a_take join a = (case a of (n, q) \<Rightarrow> if 0 < n then (True, (n - 1, q)) else (False, (n, join q)))"

definition a_release :: "asem \<Rightarrow> ptr option \<times> asem" where
  "a_release a = (case a of (n, t # q) \<Rightarrow> (Some t, (n, q)) | (n, []) \<Rightarrow> (None, ((n + 1) mod 2 ^ 16, [])))"

definition sem_ok :: "kernel \<Rightarrow> ptr \<Rightarrow> bool" where
  "sem_ok k s \<longleftrightarrow> is_class k s RT_Object_Class_Semaphore
     \<and> (flag (objs k s) = RT_IPC_FLAG_FIFO \<or> flag (objs k s) = RT_IPC_FLAG_PRIO)
     \<and> (0 < sem_value (sems k s) \<longrightarrow> tlists k (Waiters s) = [])"

lemma unat_dec: "0 < (x :: 'a::len word) \<Longrightarrow> unat (x - 1) = unat x - 1"
  by (rule unat_minus_one) auto

lemma kinv_sems [simp]: "kinv b (k\<lparr>sems := x\<rparr>) = kinv b k"
  by (simp add: kinv_def timer_inv_def due_def live_def own_timer_def timers_wait_def tstat_def is_class_def)

subsection \<open>Taking\<close>

lemma sem_take_available:
  assumes "is_class k s RT_Object_Class_Semaphore" "0 < sem_value (sems k s)"
  shows "rt_sem_take s time k = Some (Done RT_EOK, upd_sem s (\<lambda>x. x\<lparr>sem_value := sem_value x - 1\<rparr>) k)"
  using assms by (simp add: rt_sem_take_def is_class_def)

lemma sem_take_empty:
  assumes "is_class k s RT_Object_Class_Semaphore" "sem_value (sems k s) = 0"
  shows "rt_sem_take s 0 k = Some (Done (- RT_ETIMEOUT), k)"
  using assms by (simp add: rt_sem_take_def is_class_def)

lemma sem_ok_frame:
  assumes "sem_ok k s" "kframe k k'" "sem_value (sems k s) = 0"
  shows "sem_ok k' s"
  using assms kframe_obj [OF assms(2), of s RT_Object_Class_Semaphore] kframe_class [OF assms(2)]
    kframe_fields(6) [OF assms(2)] by (simp add: sem_ok_def)

lemma sem_take_blocks:
  assumes inv: "kinv b k" and s: "sem_ok k s" "sem_value (sems k s) = 0"
    and c: "c = rt_current_thread k" "tstat k c = RT_THREAD_RUNNING" "interrupt_nest k = 0"
    and time: "wait_time_ok time"
  shows "\<exists>k'. rt_sem_take s time k = Some (Blocked, k') \<and> kinv b k' \<and> kframe k k' \<and> sem_ok k' s
     \<and> tstat k' c = RT_THREAD_SUSPEND \<and> error (threads k' c) = RT_EOK
     \<and> tlists k' (Waiters s) = enqueue (flag (objs k s)) (\<lambda>t. current_priority (threads k t)) c (tlists k (Waiters s))
     \<and> (\<forall>h. is_wait h \<longrightarrow> h \<noteq> Waiters s \<longrightarrow> tlists k' h = tlists k h)
     \<and> (if 0 < sint time then thread_timer (threads k c) \<in> set (timer_list k')
            \<and> timeout_tick (timers k' (thread_timer (threads k c))) = rt_tick k + time
        else timer_list k' = timer_list k \<and> timers k' = timers k)
     \<and> (scheduler_lock_nest k = 0 \<and> (\<exists>t. on_ready k t) \<longrightarrow> top_running k')
     \<and> (\<forall>u. u \<noteq> c \<longrightarrow> stat_moved k k' u)"
proof -
  have fl: "flag (objs k s) = RT_IPC_FLAG_FIFO \<or> flag (objs k s) = RT_IPC_FLAG_PRIO"
    using s(1) by (simp add: sem_ok_def)
  obtain k1 k' where k': "ipc_wait (Waiters s) (flag (objs k s)) time (reset_error c k) = Some k1"
    "rt_schedule k1 = Some k'" "kinv b k'" "kframe k k'" "tstat k' c = RT_THREAD_SUSPEND"
    "error (threads k' c) = RT_EOK"
    "tlists k' (Waiters s) = enqueue (flag (objs k s)) (\<lambda>t. current_priority (threads k t)) c (tlists k (Waiters s))"
    "\<forall>h. is_wait h \<longrightarrow> h \<noteq> Waiters s \<longrightarrow> tlists k' h = tlists k h"
    "if 0 < sint time then thread_timer (threads k c) \<in> set (timer_list k')
            \<and> timeout_tick (timers k' (thread_timer (threads k c))) = rt_tick k + time
        else timer_list k' = timer_list k \<and> timers k' = timers k"
    "scheduler_lock_nest k = 0 \<and> (\<exists>t. on_ready k t) \<longrightarrow> top_running k'" "\<forall>u. u \<noteq> c \<longrightarrow> stat_moved k k' u"
    using ipc_block_reset_ok [OF inv c(1,2) is_wait_simps(1) fl time] by blast
  have o: "objs (reset_error c k) = objs k" by (simp add: upd_thread_def)
  have "rt_sem_take s time k = Some (Blocked, k')"
    using s time c running_not_null [OF inv c(2)] k'(1,2)
    by (simp add: rt_sem_take_def rt_thread_self_def RT_DEBUG_IN_THREAD_CONTEXT_def
        RT_DEBUG_NOT_IN_INTERRUPT_def sem_ok_def is_class_def wait_time_ok_def o Let_def)
  with k' sem_ok_frame [OF s(1) k'(4) s(2)] show ?thesis by blast
qed

subsection \<open>Releasing\<close>

lemma sem_release_count:
  assumes "is_class k s RT_Object_Class_Semaphore" "tlists k (Waiters s) = []"
  shows "rt_sem_release s k = Some (RT_EOK, upd_sem s (\<lambda>x. x\<lparr>sem_value := sem_value x + 1\<rparr>) k)"
  using assms by (simp add: rt_sem_release_def is_class_def tlist_isempty_def)

lemma sem_release_wakes:
  assumes inv: "kinv b k" and s: "sem_ok k s" "tlists k (Waiters s) = t # q"
    and cur: "rt_current_thread k \<noteq> RT_NULL"
  shows "\<exists>k'. rt_sem_release s k = Some (RT_EOK, k') \<and> kinv b k' \<and> kframe k k' \<and> sem_ok k' s
     \<and> tstat k' t \<in> {RT_THREAD_READY, RT_THREAD_RUNNING}
     \<and> (\<forall>u. u \<noteq> t \<longrightarrow> stat_moved k k' u)
     \<and> tlists k' (Waiters s) = q \<and> (\<forall>h. is_wait h \<longrightarrow> h \<noteq> Waiters s \<longrightarrow> tlists k' h = tlists k h)
     \<and> (\<forall>u. error (threads k' u) = error (threads k u))
     \<and> thread_timer (threads k t) \<notin> set (timer_list k')
     \<and> (scheduler_lock_nest k = 0 \<longrightarrow> top_running k')"
proof -
  obtain k1 k' where k': "rt_ipc_list_resume (Waiters s) k = Some k1" "rt_schedule k1 = Some k'" "kinv b k'"
    "kframe k k'" "tstat k' t \<in> {RT_THREAD_READY, RT_THREAD_RUNNING}" "\<forall>u. u \<noteq> t \<longrightarrow> stat_moved k k' u"
    "tlists k' (Waiters s) = q" "\<forall>h. is_wait h \<longrightarrow> h \<noteq> Waiters s \<longrightarrow> tlists k' h = tlists k h"
    "\<forall>u. error (threads k' u) = error (threads k u)" "thread_timer (threads k t) \<notin> set (timer_list k')"
    "scheduler_lock_nest k = 0 \<longrightarrow> top_running k'"
    using ipc_wake_ok [OF inv is_wait_simps(1) s(2) cur] by blast
  have v0: "sem_value (sems k s) = 0" using s by (auto simp: sem_ok_def word_gt_0)
  have "rt_sem_release s k = Some (RT_EOK, k')"
    using s k'(1,2) by (simp add: rt_sem_release_def sem_ok_def is_class_def tlist_isempty_def)
  with k' sem_ok_frame [OF s(1) k'(4) v0] show ?thesis by blast
qed

subsection \<open>Semaphores as locks\<close>

text \<open>A semaphore of value 1 guards a heap and is free: nobody is inside. Taking and releasing it then
  leaves the kernel as it was.\<close>

definition heap_free :: "kernel \<Rightarrow> ptr \<Rightarrow> bool" where
  "heap_free k hs \<longleftrightarrow> is_class k hs RT_Object_Class_Semaphore \<and> sem_value (sems k hs) = 1
     \<and> tlists k (Waiters hs) = [] \<and> interrupt_nest k = 0"

lemma heap_lock:
  assumes "heap_free k hs"
  obtains k1 where "rt_sem_take hs time k = Some (Done RT_EOK, k1)" "rt_sem_release hs k1 = Some (RT_EOK, k)"
    "RT_DEBUG_NOT_IN_INTERRUPT k = Some ()" "k1\<lparr>sems := sems k\<rparr> = k"
proof -
  let ?k = "upd_sem hs (\<lambda>x. x\<lparr>sem_value := sem_value x - 1\<rparr>) k"
  have "(sems k)(hs := (sems k hs)\<lparr>sem_value := 1\<rparr>) = sems k" using assms by (auto simp: heap_free_def)
  then have e: "upd_sem hs (\<lambda>x. x\<lparr>sem_value := sem_value x + 1\<rparr>) ?k = k"
    using assms by (simp add: heap_free_def upd_sem_def)
  have "is_class ?k hs RT_Object_Class_Semaphore" "tlists ?k (Waiters hs) = []"
    using assms by (simp_all add: heap_free_def upd_sem_def is_class_def)
  from sem_release_count [OF this] e have "rt_sem_release hs ?k = Some (RT_EOK, k)" by simp
  moreover have "rt_sem_take hs time k = Some (Done RT_EOK, ?k)"
    using assms sem_take_available [of k hs time] by (simp add: heap_free_def)
  ultimately show ?thesis
    using that [of ?k] assms by (simp add: heap_free_def RT_DEBUG_NOT_IN_INTERRUPT_def upd_sem_def)
qed

lemma sem_init_lock:
  assumes "sched_inv k" "hs \<noteq> RT_NULL" "hs \<notin> set (object_list k RT_Object_Class_Semaphore)" "interrupt_nest k = 0" "tlists k (Waiters hs) = []"
  shows "\<exists>k'. rt_sem_init hs nm 1 RT_IPC_FLAG_FIFO k = Some (RT_EOK, k') \<and> heap_free k' hs \<and> (\<forall>x. x \<noteq> hs \<longrightarrow> objs k' x = objs k x)"
proof -
  have tc: "RT_Object_Class_Semaphore \<in> set rt_object_container" by (simp add: rt_object_container_def)
  obtain k0 k1 where k1: "rt_object_init hs RT_Object_Class_Semaphore nm k = Some k1"
    "\<forall>x. tlists k1 (Waiters x) = tlists k (Waiters x)"
    "sched_frame (k\<lparr>scheduler_lock_nest := scheduler_lock_nest k0\<rparr>) k0"
    "k1 = k0\<lparr>objs := (objs k)(hs := (objs k hs)\<lparr>otype := RT_Object_Class_Semaphore OR RT_Object_Class_Static,
        name := rt_strncpy nm RT_NAME_MAX\<rparr>), object_list := seq_insert_after RT_Object_Class_Semaphore hs (object_list k)\<rparr>"
    using rt_object_init_ok [OF assms(1) tc assms(3)] by blast
  define k' where "k' = upd_obj hs (\<lambda>ob. ob\<lparr>flag := RT_IPC_FLAG_FIFO\<rparr>) (upd_sem hs (\<lambda>s. s\<lparr>sem_value := 1\<rparr>) (tlist_init (Waiters hs) k1))"
  have s: "rt_sem_init hs nm 1 0 k = Some (RT_EOK, k')"
    using assms(2,5) k1(1,2) by (simp add: rt_sem_init_def rt_ipc_object_init_def tlist_isempty_def C_GUARD_def k'_def)
  have "heap_free k' hs" "\<forall>x. x \<noteq> hs \<longrightarrow> objs k' x = objs k x" using sched_frame_fields(4) [OF k1(3)] assms(2,4)
    by (simp_all add: heap_free_def is_class_def k'_def upd_obj_def upd_sem_def tlist_init_def k1(4))
  then show ?thesis using s by simp
qed

subsection \<open>Refinement of the abstract semaphore\<close>

text \<open>C6: \<^verbatim>\<open>rt_sem_take\<close> by the running thread, with a legal time limit, refines the abstract
  semaphore: it takes a token and returns \<^verbatim>\<open>RT_EOK\<close>, or, if there is none, the caller is suspended in
  the queue (in arrival or priority order) with a cleared error code and the timer armed for a
  finite limit; the kernel invariant is kept, nothing but scheduling state changes besides the
  count, and with a ready thread the processor goes to one of highest priority.\<close>

theorem sem_take_refines:
  assumes "kinv b k" "sem_ok k s" "c = rt_current_thread k" "tstat k c = RT_THREAD_RUNNING"
    "interrupt_nest k = 0" "wait_time_ok time"
  shows "\<exists>out k'. rt_sem_take s time k = Some (out, k') \<and> kinv b k' \<and> sem_ok k' s
     \<and> kframe (k\<lparr>sems := sems k'\<rparr>) k'
     \<and> (out = Done RT_EOK, abs_sem k' s) =
         a_take (enqueue (flag (objs k s)) (\<lambda>t. current_priority (threads k t)) c) (abs_sem k s)
     \<and> (out \<noteq> Done RT_EOK \<longrightarrow> out = Blocked \<and> tstat k' c = RT_THREAD_SUSPEND
          \<and> rt_sem_take_resume c k' = RT_EOK
          \<and> (0 < sint time \<longrightarrow> thread_timer (threads k c) \<in> set (timer_list k')
                \<and> timeout_tick (timers k' (thread_timer (threads k c))) = rt_tick k + time)
          \<and> (scheduler_lock_nest k = 0 \<and> (\<exists>t. on_ready k t) \<longrightarrow> top_running k'))"
proof (cases "sem_value (sems k s) = 0")
  case True
  then obtain k' where "rt_sem_take s time k = Some (Blocked, k')" "kinv b k'" "kframe k k'" "sem_ok k' s"
    "tstat k' c = RT_THREAD_SUSPEND" "error (threads k' c) = RT_EOK"
    "tlists k' (Waiters s) = enqueue (flag (objs k s)) (\<lambda>t. current_priority (threads k t)) c (tlists k (Waiters s))"
    "if 0 < sint time then thread_timer (threads k c) \<in> set (timer_list k')
            \<and> timeout_tick (timers k' (thread_timer (threads k c))) = rt_tick k + time
        else timer_list k' = timer_list k \<and> timers k' = timers k"
    "scheduler_lock_nest k = 0 \<and> (\<exists>t. on_ready k t) \<longrightarrow> top_running k'"
    using sem_take_blocks [OF assms(1,2) True assms(3-6)] by blast
  then show ?thesis
    using True kframe_fields(6) [of k k'] by (simp add: abs_sem_def a_take_def rt_sem_take_resume_def)
next
  case False
  then have v: "0 < sem_value (sems k s)" by (simp add: word_gt_0)
  moreover have "unat (sem_value (sems k s) - 1) = unat (sem_value (sems k s)) - 1" by (rule unat_dec [OF v])
  ultimately show ?thesis
    using assms(1,2) sem_take_available [OF _ v, of time]
    by (auto simp: sem_ok_def upd_sem_def abs_sem_def a_take_def is_class_def unat_gt_0)
qed

theorem sem_take_refines_witness:
  "\<exists>out k'. rt_sem_take 20 7 demo = Some (out, k') \<and> out = Blocked \<and> abs_sem k' 20 = (0, [3, 1])"
proof -
  have ok: "sem_ok demo 20" by (simp add: sem_ok_def is_class_def demo_def ex_obj_def)
  have "\<exists>out k'. rt_sem_take 20 7 demo = Some (out, k')
     \<and> (out = Done RT_EOK, abs_sem k' 20) = a_take (enqueue (flag (objs demo 20)) (\<lambda>t. current_priority (threads demo t)) 1) (abs_sem demo 20)
     \<and> (out \<noteq> Done RT_EOK \<longrightarrow> out = Blocked)"
    using sem_take_refines [OF demo_kinv ok, of 1 7] by (auto simp: demo_stat wait_time_ok_def)
  moreover have "abs_sem demo 20 = (0, [3])" by (simp add: abs_sem_def) (simp add: demo_def)
  moreover have "flag (objs demo 20) = 0" by (simp add: demo_def ex_obj_def)
  ultimately show ?thesis by (auto simp: a_take_def enqueue_def)
qed

text \<open>C7: \<^verbatim>\<open>rt_sem_release\<close> refines the abstract semaphore: with waiters, the first one in the queue is
  made ready with its timer stopped and its own error code kept (its \<^verbatim>\<open>rt_sem_take\<close> returns
  \<^verbatim>\<open>RT_EOK\<close> if it was waiting without error) and the count stays; without, the count grows by one
  modulo \<open>2 ^ 16\<close>. Unless the scheduler is locked a thread of highest priority runs afterwards.\<close>

theorem sem_release_refines:
  assumes "kinv b k" "sem_ok k s" "rt_current_thread k \<noteq> RT_NULL"
  shows "\<exists>k'. rt_sem_release s k = Some (RT_EOK, k') \<and> kinv b k' \<and> sem_ok k' s
     \<and> kframe (k\<lparr>sems := sems k'\<rparr>) k'
     \<and> abs_sem k' s = snd (a_release (abs_sem k s))
     \<and> (\<forall>t. fst (a_release (abs_sem k s)) = Some t \<longrightarrow>
          tstat k t = RT_THREAD_SUSPEND \<and> tstat k' t \<in> {RT_THREAD_READY, RT_THREAD_RUNNING}
          \<and> thread_timer (threads k t) \<notin> set (timer_list k')
          \<and> rt_sem_take_resume t k' = error (threads k t)
          \<and> (scheduler_lock_nest k = 0 \<longrightarrow> top_running k'))"
proof (cases "tlists k (Waiters s)")
  case Nil
  have "unat (sem_value (sems k s) + 1) = (unat (sem_value (sems k s)) + 1) mod 2 ^ 16"
    by (simp add: unat_word_ariths)
  then show ?thesis
    using assms(1,2) sem_release_count [OF _ Nil] Nil
    by (auto simp: sem_ok_def upd_sem_def abs_sem_def a_release_def is_class_def)
next
  case (Cons t q)
  obtain k' where k': "rt_sem_release s k = Some (RT_EOK, k')" "kinv b k'" "kframe k k'" "sem_ok k' s"
    "tstat k' t \<in> {RT_THREAD_READY, RT_THREAD_RUNNING}" "tlists k' (Waiters s) = q"
    "\<forall>u. error (threads k' u) = error (threads k u)" "thread_timer (threads k t) \<notin> set (timer_list k')"
    "scheduler_lock_nest k = 0 \<longrightarrow> top_running k'"
    using sem_release_wakes [OF assms(1,2) Cons assms(3)] by blast
  have "tstat k t = RT_THREAD_SUSPEND"
    by (rule waiter_suspended [OF kinvD(1) [OF assms(1)] is_wait_simps(1) [of s]]) (simp add: Cons)
  then show ?thesis
    using k' Cons kframe_fields(6) [OF k'(3)] by (auto simp: abs_sem_def a_release_def rt_sem_take_resume_def)
qed

theorem sem_release_refines_witness:
  "\<exists>k'. rt_sem_release 20 demo = Some (RT_EOK, k') \<and> abs_sem k' 20 = (0, []) \<and> rt_sem_take_resume 3 k' = RT_EOK"
proof -
  have ok: "sem_ok demo 20" by (simp add: sem_ok_def is_class_def demo_def ex_obj_def)
  have a: "abs_sem demo 20 = (0, [3])" by (simp add: abs_sem_def) (simp add: demo_def)
  show ?thesis using sem_release_refines [OF demo_kinv ok] by (auto simp: a a_release_def)
qed

end
