(* ===== verification/RT_Mutex.thy ===== *)
theory RT_Mutex
  imports RT_Example
begin

text \<open>
  Mutexes with ownership, recursion and priority inheritance (\<^verbatim>\<open>rt_mutex_*\<close> of \<^verbatim>\<open>src/ipc.c\<close>).
  The thread that has to wait lends its priority to the owner; the release gives the owner its
  original priority back and hands the mutex to the first waiter.
\<close>

subsection \<open>Operations\<close>

definition mutex_init_fields :: "ptr \<Rightarrow> u8 \<Rightarrow> kernel \<Rightarrow> kernel option" where
  "mutex_init_fields mutex fl k = do {
     k \<leftarrow> rt_ipc_object_init mutex k;
     let k = upd_mutex mutex (\<lambda>_. \<lparr>mutex_value = 1, original_priority = 0xFF, hold = 0, owner = RT_NULL\<rparr>) k;
     Some (upd_obj mutex (\<lambda>ob. ob\<lparr>flag := fl\<rparr>) k)
   }"

definition rt_mutex_init :: "ptr \<Rightarrow> string \<Rightarrow> u8 \<Rightarrow> kernel \<Rightarrow> (err \<times> kernel) option" where
  "rt_mutex_init mutex nm fl k = do {
     RT_ASSERT (mutex \<noteq> RT_NULL);
     k \<leftarrow> rt_object_init mutex RT_Object_Class_Mutex nm k;
     k \<leftarrow> mutex_init_fields mutex fl k;
     Some (RT_EOK, k)
   }"

definition rt_mutex_detach :: "ptr \<Rightarrow> kernel \<Rightarrow> (err \<times> kernel) option" where
  "rt_mutex_detach mutex k = do {
     RT_ASSERT (mutex \<noteq> RT_NULL);
     ASSERT_TYPE mutex RT_Object_Class_Mutex k;
     ASSERT_SYSTEM mutex True k;
     k \<leftarrow> rt_ipc_list_resume_all (Waiters mutex) k;
     k \<leftarrow> rt_object_detach mutex k;
     Some (RT_EOK, k)
   }"

definition rt_mutex_create ::
  "(u32 \<Rightarrow> kernel \<Rightarrow> ptr \<times> kernel) \<Rightarrow> (u8 \<Rightarrow> u32) \<Rightarrow> string \<Rightarrow> u8 \<Rightarrow> kernel \<Rightarrow> (ptr \<times> kernel) option" where
  "rt_mutex_create malloc size_of nm fl k = do {
     RT_DEBUG_NOT_IN_INTERRUPT k;
     (mutex, k) \<leftarrow> rt_object_allocate malloc size_of RT_Object_Class_Mutex nm k;
     if mutex = RT_NULL then Some (mutex, k)
     else do {
       k \<leftarrow> mutex_init_fields mutex fl k;
       Some (mutex, k)
     }
   }"

definition rt_mutex_delete :: "(ptr \<Rightarrow> kernel \<Rightarrow> kernel) \<Rightarrow> ptr \<Rightarrow> kernel \<Rightarrow> (err \<times> kernel) option" where
  "rt_mutex_delete free mutex k = do {
     RT_DEBUG_NOT_IN_INTERRUPT k;
     RT_ASSERT (mutex \<noteq> RT_NULL);
     ASSERT_TYPE mutex RT_Object_Class_Mutex k;
     ASSERT_SYSTEM mutex False k;
     k \<leftarrow> rt_ipc_list_resume_all (Waiters mutex) k;
     k \<leftarrow> rt_object_delete free mutex k;
     Some (RT_EOK, k)
   }"

text \<open>\<^verbatim>\<open>rt_mutex_take\<close> from its label \<^verbatim>\<open>__again\<close> on.\<close>

definition mutex_take_again :: "ptr \<Rightarrow> 32 word \<Rightarrow> kernel \<Rightarrow> (outcome \<times> kernel) option" where
  "mutex_take_again mutex time k = do {
     let thread = rt_thread_self k;
     if mutex_value (mutexes k mutex) > 0 then
       Some (Done RT_EOK, upd_mutex mutex (\<lambda>m. m\<lparr>mutex_value := mutex_value m - 1, owner := thread,
         original_priority := current_priority (threads k thread), hold := hold m + 1\<rparr>) k)
     else if time = 0 then
       Some (Done (- RT_ETIMEOUT), upd_thread thread (\<lambda>th. th\<lparr>error := - RT_ETIMEOUT\<rparr>) k)
     else do {
       let own = owner (mutexes k mutex);
       C_GUARD (own \<noteq> RT_NULL);
       k \<leftarrow> (if current_priority (threads k thread) < current_priority (threads k own) then do {
              (_, k) \<leftarrow> rt_thread_control own (Change_priority (current_priority (threads k thread))) k;
              Some k
            }
            else Some k);
       k \<leftarrow> ipc_wait (Waiters mutex) (flag (objs k mutex)) time k;
       k \<leftarrow> rt_schedule k;
       Some (Blocked, k)
     }
   }"

definition rt_mutex_take :: "ptr \<Rightarrow> 32 word \<Rightarrow> kernel \<Rightarrow> (outcome \<times> kernel) option" where
  "rt_mutex_take mutex time k = do {
     RT_DEBUG_IN_THREAD_CONTEXT k;
     RT_ASSERT (mutex \<noteq> RT_NULL);
     ASSERT_TYPE mutex RT_Object_Class_Mutex k;
     let thread = rt_thread_self k;
     let k = upd_thread thread (\<lambda>th. th\<lparr>error := RT_EOK\<rparr>) k;
     if owner (mutexes k mutex) = thread then
       Some (Done RT_EOK, upd_mutex mutex (\<lambda>m. m\<lparr>hold := hold m + 1\<rparr>) k)
     else mutex_take_again mutex time k
   }"

text \<open>The thread is running again: an error is returned, an interrupted wait starts over.\<close>

definition rt_mutex_take_resume :: "ptr \<Rightarrow> 32 word \<Rightarrow> kernel \<Rightarrow> (outcome \<times> kernel) option" where
  "rt_mutex_take_resume mutex time k =
     (let e = error (threads k (rt_thread_self k)) in
      if e \<noteq> RT_EOK then
        if e = - RT_EINTR then mutex_take_again mutex time k else Some (Done e, k)
      else Some (Done RT_EOK, k))"

definition rt_mutex_release :: "ptr \<Rightarrow> kernel \<Rightarrow> (err \<times> kernel) option" where
  "rt_mutex_release mutex k = do {
     RT_ASSERT (mutex \<noteq> RT_NULL);
     ASSERT_TYPE mutex RT_Object_Class_Mutex k;
     RT_DEBUG_IN_THREAD_CONTEXT k;
     let thread = rt_thread_self k;
     if thread \<noteq> owner (mutexes k mutex) then
       Some (- RT_ERROR, upd_thread thread (\<lambda>th. th\<lparr>error := - RT_ERROR\<rparr>) k)
     else do {
       let k = upd_mutex mutex (\<lambda>m. m\<lparr>hold := hold m - 1\<rparr>) k;
       if hold (mutexes k mutex) = 0 then do {
         let own = owner (mutexes k mutex);
         let orig = original_priority (mutexes k mutex);
         k \<leftarrow> (if orig \<noteq> current_priority (threads k own) then do {
                (_, k) \<leftarrow> rt_thread_control own (Change_priority orig) k;
                Some k
              }
              else Some k);
         if \<not> tlist_isempty (Waiters mutex) k then do {
           thread \<leftarrow> tlist_first (Waiters mutex) k;
           let k = upd_mutex mutex (\<lambda>m. m\<lparr>owner := thread,
             original_priority := current_priority (threads k thread), hold := hold m + 1\<rparr>) k;
           k \<leftarrow> rt_ipc_list_resume (Waiters mutex) k;
           k \<leftarrow> rt_schedule k;
           Some (RT_EOK, k)
         }
         else Some (RT_EOK, upd_mutex mutex (\<lambda>m. m\<lparr>mutex_value := mutex_value m + 1, owner := RT_NULL,
           original_priority := 0xff\<rparr>) k)
       }
       else Some (RT_EOK, k)
     }
   }"

definition rt_mutex_control :: "ptr \<Rightarrow> int \<Rightarrow> kernel \<Rightarrow> err option" where
  "rt_mutex_control mutex cmd k = do {
     RT_ASSERT (mutex \<noteq> RT_NULL);
     ASSERT_TYPE mutex RT_Object_Class_Mutex k;
     Some (- RT_ERROR)
   }"

subsection \<open>Invariant\<close>

text \<open>
  A free mutex has the value 1 and no waiters; a held one the value 0, a live owner and an
  original priority to return to.
\<close>

definition mutex_ok :: "kernel \<Rightarrow> ptr \<Rightarrow> bool" where
  "mutex_ok k m \<longleftrightarrow> is_class k m RT_Object_Class_Mutex
     \<and> (flag (objs k m) = RT_IPC_FLAG_FIFO \<or> flag (objs k m) = RT_IPC_FLAG_PRIO)
     \<and> (if owner (mutexes k m) = RT_NULL
        then mutex_value (mutexes k m) = 1 \<and> hold (mutexes k m) = 0 \<and> tlists k (Waiters m) = []
        else mutex_value (mutexes k m) = 0 \<and> 0 < hold (mutexes k m) \<and> live k (owner (mutexes k m))
          \<and> unat (original_priority (mutexes k m)) < 32 \<and> owner (mutexes k m) \<notin> set (tlists k (Waiters m)))"

lemma kinv_mutexes [simp]: "kinv b (k\<lparr>mutexes := x\<rparr>) = kinv b k"
  by (simp add: kinv_def timer_inv_def due_def live_def own_timer_def timers_wait_def tstat_def is_class_def)

lemma upd_mutex_frame [simp]:
  "objs (upd_mutex m f k) = objs k" "tlists (upd_mutex m f k) = tlists k" "threads (upd_mutex m f k) = threads k"
  "rt_current_thread (upd_mutex m f k) = rt_current_thread k" "tstat (upd_mutex m f k) t = tstat k t"
  "kinv b (upd_mutex m f k) = kinv b k" "scheduler_lock_nest (upd_mutex m f k) = scheduler_lock_nest k"
  "on_ready (upd_mutex m f k) t = on_ready k t" "timer_list (upd_mutex m f k) = timer_list k"
  "is_class (upd_mutex m f k) t c = is_class k t c"
  by (simp_all add: upd_mutex_def tstat_def on_ready_def is_class_def)

lemma upd_mutex_const: "f (mutexes k m) = x \<Longrightarrow> upd_mutex m f k = upd_mutex m (\<lambda>_. x) k"
  by (simp add: upd_mutex_def)

subsection \<open>Taking\<close>

lemma live_running: "tstat k t = RT_THREAD_RUNNING \<Longrightarrow> live k t"
  by (simp add: live_def)

lemma mutex_take_free_eq:
  assumes inv: "kinv b k" and m: "mutex_ok k m" "owner (mutexes k m) = RT_NULL"
    and c: "c = rt_current_thread k" "tstat k c = RT_THREAD_RUNNING" "interrupt_nest k = 0"
  shows "rt_mutex_take m time k = Some (Done RT_EOK, upd_mutex m (\<lambda>_. \<lparr>mutex_value = 0,
     original_priority = current_priority (threads k c), hold = 1, owner = c\<rparr>) (reset_error c k))"
proof -
  have c0: "c \<noteq> RT_NULL" by (rule running_not_null [OF inv c(2)])
  let ?m = "\<lparr>mutex_value = 0, original_priority = current_priority (threads k c), hold = 1, owner = c\<rparr>"
  let ?k = "upd_mutex m (\<lambda>_. ?m) (reset_error c k)"
  have mm: "(mutexes k m)\<lparr>mutex_value := mutex_value (mutexes k m) - 1, owner := c,
      original_priority := current_priority (threads k c), hold := hold (mutexes k m) + 1\<rparr> = ?m"
    using m by (intro rt_mutex.equality) (simp_all add: mutex_ok_def)
  have mv: "0 < mutex_value (mutexes k m)" using m by (simp add: mutex_ok_def)
  have cur: "rt_thread_self (reset_error c k) = c" "rt_thread_self k = c"
    using c(1) by (simp_all add: rt_thread_self_def)
  have "upd_mutex m (\<lambda>x. x\<lparr>mutex_value := mutex_value x - 1, owner := c,
      original_priority := current_priority (threads (reset_error c k) c), hold := hold x + 1\<rparr>) (reset_error c k) = ?k"
    by (rule upd_mutex_const) (simp add: mm [symmetric], simp add: upd_thread_def)
  then have "mutex_take_again m time (reset_error c k) = Some (Done RT_EOK, ?k)"
    unfolding mutex_take_again_def cur using mv by simp
  then show ?thesis
    using m(1,2) c c0 unfolding rt_mutex_take_def cur Let_def
    by (simp add: mutex_ok_def is_class_def RT_DEBUG_IN_THREAD_CONTEXT_def RT_DEBUG_NOT_IN_INTERRUPT_def)
qed

lemma mutex_take_free:
  assumes inv: "kinv b k" and m: "mutex_ok k m" "owner (mutexes k m) = RT_NULL"
    and c: "c = rt_current_thread k" "tstat k c = RT_THREAD_RUNNING" "interrupt_nest k = 0"
  shows "\<exists>k'. rt_mutex_take m time k = Some (Done RT_EOK, k') \<and> kinv b k' \<and> mutex_ok k' m
     \<and> mutexes k' m = \<lparr>mutex_value = 0, original_priority = current_priority (threads k c), hold = 1, owner = c\<rparr>
     \<and> kframe (k\<lparr>mutexes := mutexes k'\<rparr>) k'"
proof -
  have c0: "c \<noteq> RT_NULL" by (rule running_not_null [OF inv c(2)])
  have po: "unat (current_priority (threads k c)) < 32"
    using live_prio [OF inv live_running [OF c(2)]] by (simp add: prio_ok_def)
  let ?m = "\<lparr>mutex_value = 0, original_priority = current_priority (threads k c), hold = 1, owner = c\<rparr>"
  let ?k = "upd_mutex m (\<lambda>_. ?m) (reset_error c k)"
  have "kinv b ?k" using kinv_error(1) [OF inv] by simp
  moreover have "mutex_ok ?k m"
    using m c c0 po by (simp add: mutex_ok_def is_class_def upd_mutex_def upd_thread_def live_def tstat_def)
  moreover have "kframe (k\<lparr>mutexes := mutexes ?k\<rparr>) ?k"
    by (simp add: kframe_def upd_mutex_def upd_thread_def is_class_def)
  ultimately show ?thesis using mutex_take_free_eq [OF inv m c, of time] by (auto simp: upd_mutex_def)
qed

lemma mutex_take_again_owner:
  assumes inv: "kinv b k" and m: "mutex_ok k m" "owner (mutexes k m) = c"
    and c: "c = rt_current_thread k" "tstat k c = RT_THREAD_RUNNING" "interrupt_nest k = 0"
    and h: "hold (mutexes k m) < 255"
  shows "\<exists>k'. rt_mutex_take m time k = Some (Done RT_EOK, k') \<and> kinv b k' \<and> mutex_ok k' m
     \<and> mutexes k' m = (mutexes k m)\<lparr>hold := hold (mutexes k m) + 1\<rparr>
     \<and> kframe (k\<lparr>mutexes := mutexes k'\<rparr>) k'"
proof -
  have c0: "c \<noteq> RT_NULL" by (rule running_not_null [OF inv c(2)])
  let ?k = "upd_mutex m (\<lambda>x. x\<lparr>hold := hold x + 1\<rparr>) (reset_error c k)"
  have cur: "rt_thread_self k = c" using c(1) by (simp add: rt_thread_self_def)
  have h1: "0 < hold (mutexes k m) + 1"
    using h unat_add_lem [of "hold (mutexes k m)" 1] by (simp add: word_less_nat_alt)
  have "rt_mutex_take m time k = Some (Done RT_EOK, ?k)"
    using m c c0 unfolding rt_mutex_take_def cur Let_def
    by (simp add: mutex_ok_def is_class_def RT_DEBUG_IN_THREAD_CONTEXT_def RT_DEBUG_NOT_IN_INTERRUPT_def)
  moreover have "kinv b ?k" using kinv_error(1) [OF inv] by simp
  moreover have "mutex_ok ?k m"
    using m c0 h1 by (auto simp: mutex_ok_def is_class_def upd_mutex_def upd_thread_def live_def tstat_def)
  moreover have "kframe (k\<lparr>mutexes := mutexes ?k\<rparr>) ?k"
    by (simp add: kframe_def upd_mutex_def upd_thread_def is_class_def)
  ultimately show ?thesis by (auto simp: upd_mutex_def)
qed

text \<open>Lending the priority: afterwards the owner has the better of the two priorities.\<close>

lemma lend_priority_ok:
  assumes inv: "kinv b k" and o: "live k x" and c: "live k c" "c \<noteq> x"
    and p: "p = min (current_priority (threads k c)) (current_priority (threads k x))"
  shows "\<exists>k'. (if current_priority (threads k c) < current_priority (threads k x) then do {
              (_, k) \<leftarrow> rt_thread_control x (Change_priority (current_priority (threads k c))) k;
              Some k
            }
            else Some k) = Some k' \<and> kinv b k' \<and> kframe (with_prio x p k) k' \<and> (\<forall>u. tstat k' u = tstat k u)
     \<and> (\<forall>h. (\<forall>q. h \<noteq> Ready q) \<longrightarrow> tlists k' h = tlists k h)
     \<and> (\<forall>u. error (threads k' u) = error (threads k u))
     \<and> rt_current_thread k' = rt_current_thread k \<and> timers k' = timers k \<and> timer_list k' = timer_list k \<and> objs k' = objs k"
proof (cases "current_priority (threads k c) < current_priority (threads k x)")
  case True
  have "unat (current_priority (threads k c)) < 32" using live_prio [OF inv c(1)] by (simp add: prio_ok_def)
  from change_prio_ok [OF inv o this] True p show ?thesis by (auto simp: min_def)
next
  case False
  then have "p = current_priority (threads k x)" using p by (simp add: min_def)
  with with_prio_same [OF live_prio [OF inv o]] have "with_prio x p k = k" by simp
  with False inv show ?thesis by simp
qed

lemma mutex_take_blocks:
  assumes inv: "kinv b k" and m: "mutex_ok k m" "owner (mutexes k m) = x" "x \<noteq> RT_NULL" "x \<noteq> c"
    and c: "c = rt_current_thread k" "tstat k c = RT_THREAD_RUNNING" "interrupt_nest k = 0"
    and time: "wait_time_ok time"
    and p: "p = min (current_priority (threads k c)) (current_priority (threads k x))"
  shows "\<exists>k'. rt_mutex_take m time k = Some (Blocked, k') \<and> kinv b k' \<and> kframe (with_prio x p k) k' \<and> mutex_ok k' m
     \<and> tstat k' c = RT_THREAD_SUSPEND \<and> error (threads k' c) = RT_EOK
     \<and> tlists k' (Waiters m) = enqueue (flag (objs k m)) (\<lambda>t. current_priority (threads k' t)) c (tlists k (Waiters m))
     \<and> (0 < sint time \<longrightarrow> thread_timer (threads k c) \<in> set (timer_list k')
            \<and> timeout_tick (timers k' (thread_timer (threads k c))) = rt_tick k + time)"
proof -
  let ?e = "reset_error c k"
  have e: "kinv b ?e" "kframe k ?e" using kinv_error [OF inv] by auto
  have cc: "x \<noteq> c" "c \<noteq> RT_NULL" using m(4) running_not_null [OF inv c(2)] by auto
  have st: "tstat ?e u = tstat k u" "current_priority (threads ?e u) = current_priority (threads k u)" for u
    by (simp_all add: upd_thread_def tstat_def)
  have lx: "live ?e x" "live ?e c" using m c(2) by (auto simp: mutex_ok_def live_def st)
  obtain k1 where k1: "(if current_priority (threads ?e c) < current_priority (threads ?e x) then do {
              (_, k) \<leftarrow> rt_thread_control x (Change_priority (current_priority (threads ?e c))) ?e;
              Some k
            }
            else Some ?e) = Some k1" "kinv b k1" "kframe (with_prio x p ?e) k1" "\<forall>u. tstat k1 u = tstat ?e u"
    "\<forall>h. (\<forall>q. h \<noteq> Ready q) \<longrightarrow> tlists k1 h = tlists ?e h"
    "\<forall>u. error (threads k1 u) = error (threads ?e u)" "rt_current_thread k1 = rt_current_thread ?e" "objs k1 = objs ?e"
    using lend_priority_ok [OF e(1) lx, of p] cc(1) p by (auto simp: st)
  have fl: "flag (objs k m) = RT_IPC_FLAG_FIFO \<or> flag (objs k m) = RT_IPC_FLAG_PRIO"
    using m(1) by (simp add: mutex_ok_def)
  have c1: "c = rt_current_thread k1" "tstat k1 c = RT_THREAD_RUNNING" using c k1(4,7) st by simp_all
  obtain k2 k' where k': "ipc_wait (Waiters m) (flag (objs k m)) time k1 = Some k2" "rt_schedule k2 = Some k'"
    "kinv b k'" "kframe k1 k'" "tstat k' c = RT_THREAD_SUSPEND"
    "tlists k' (Waiters m) = enqueue (flag (objs k m)) (\<lambda>t. current_priority (threads k1 t)) c (tlists k1 (Waiters m))"
    "\<forall>u. error (threads k' u) = error (threads k1 u)"
    "if 0 < sint time then thread_timer (threads k1 c) \<in> set (timer_list k')
            \<and> timeout_tick (timers k' (thread_timer (threads k1 c))) = rt_tick k1 + time
        else timer_list k' = timer_list k1 \<and> timers k' = timers k1"
    "\<forall>u. u \<noteq> c \<longrightarrow> stat_moved k1 k' u"
    using ipc_block_ok [OF k1(2) c1 is_wait_simps(1) fl time] by blast
  have fr1: "kframe (with_prio x p k) k1" by (rule kframe_trans [OF kframe_with_prio [OF e(2)] k1(3)])
  have fr: "kframe (with_prio x p k) k'" by (rule kframe_trans [OF fr1 k'(4)])
  have pr: "current_priority (threads k1 t) = current_priority (threads k' t)" for t
    using thread_same_fields(1) [OF kframe_parts(1) [OF k'(4)]] by simp
  have tk: "rt_tick k1 = rt_tick k" "thread_timer (threads k1 c) = thread_timer (threads k c)"
    "mutexes k' = mutexes k"
    using kframe_fields(4) [OF fr1] thread_same_fields(8) [OF kframe_parts(1) [OF fr1], of c] kframe_fields(7) [OF fr]
    by auto
  have cls: "is_class k m RT_Object_Class_Mutex" "mutex_value (mutexes k m) = 0"
    using m by (simp_all add: mutex_ok_def)
  have cur: "rt_thread_self k = c" "rt_thread_self ?e = c" using c(1) by (simp_all add: rt_thread_self_def)
  have "mutex_take_again m time ?e = Some (Blocked, k')"
    using k1(1,8) k'(1,2) cls(2) m(2,3) time
    unfolding mutex_take_again_def cur by (simp add: wait_time_ok_def Let_def)
  then have "rt_mutex_take m time k = Some (Blocked, k')"
    using cls(1) m(2) c cc unfolding rt_mutex_take_def cur Let_def
    by (simp add: is_class_def RT_DEBUG_IN_THREAD_CONTEXT_def RT_DEBUG_NOT_IN_INTERRUPT_def)
  moreover have ob: "objs k' m = objs k m"
    using kframe_obj [OF fr, of m RT_Object_Class_Mutex] cls(1) by (simp add: is_class_def)
  moreover have wl: "tlists k1 (Waiters m) = tlists k (Waiters m)" using k1(5) by simp
  moreover have "mutex_ok k' m"
  proof -
    have "live k x" using m by (simp add: mutex_ok_def)
    then have "live k' x" using moved_live [of k1 k' x] k'(9) cc(1) k1(4) st by (simp add: live_def)
    then show ?thesis
      using m cc(1) k'(6) wl by (simp add: mutex_ok_def is_class_def ob tk set_enqueue)
  qed
  moreover have "error (threads k' c) = RT_EOK" using k'(7) k1(6) by (simp add: upd_thread_def)
  moreover have "0 < sint time \<longrightarrow> thread_timer (threads k c) \<in> set (timer_list k')
      \<and> timeout_tick (timers k' (thread_timer (threads k c))) = rt_tick k + time"
    using k'(8) unfolding tk(1,2) by auto
  ultimately show ?thesis using k'(3,5,6) fr pr by simp
qed

subsection \<open>Releasing\<close>

lemma mutex_release_not_owner:
  assumes "is_class k m RT_Object_Class_Mutex" "rt_current_thread k \<noteq> owner (mutexes k m)"
    "rt_current_thread k \<noteq> RT_NULL" "interrupt_nest k = 0"
  shows "rt_mutex_release m k =
     Some (- RT_ERROR, upd_thread (rt_current_thread k) (\<lambda>th. th\<lparr>error := - RT_ERROR\<rparr>) k)"
  using assms by (simp add: rt_mutex_release_def rt_thread_self_def is_class_def
      RT_DEBUG_IN_THREAD_CONTEXT_def RT_DEBUG_NOT_IN_INTERRUPT_def)

lemma mutex_release_held:
  assumes inv: "kinv b k" and m: "mutex_ok k m" "owner (mutexes k m) = c" "1 < hold (mutexes k m)"
    and c: "c = rt_current_thread k" "c \<noteq> RT_NULL" "interrupt_nest k = 0"
  shows "rt_mutex_release m k = Some (RT_EOK, upd_mutex m (\<lambda>x. x\<lparr>hold := hold x - 1\<rparr>) k)
     \<and> mutex_ok (upd_mutex m (\<lambda>x. x\<lparr>hold := hold x - 1\<rparr>) k) m"
proof -
  have h: "hold (mutexes k m) - 1 \<noteq> 0" using m(3) by auto
  have "rt_mutex_release m k = Some (RT_EOK, upd_mutex m (\<lambda>x. x\<lparr>hold := hold x - 1\<rparr>) k)"
    using m c h unfolding rt_mutex_release_def rt_thread_self_def
    by (simp add: mutex_ok_def is_class_def RT_DEBUG_IN_THREAD_CONTEXT_def RT_DEBUG_NOT_IN_INTERRUPT_def upd_mutex_def)
  moreover have "mutex_ok (upd_mutex m (\<lambda>x. x\<lparr>hold := hold x - 1\<rparr>) k) m"
    using m(1,2) c(2) h
    by (simp add: mutex_ok_def is_class_def) (simp add: upd_mutex_def live_def tstat_def word_gt_0)
  ultimately show ?thesis by blast
qed

text \<open>Giving the original priority back.\<close>

lemma restore_priority_ok:
  assumes inv: "kinv b k" and o: "live k x" and p: "unat p < 32"
  shows "\<exists>k'. (if p \<noteq> current_priority (threads k x) then do {
              (_, k) \<leftarrow> rt_thread_control x (Change_priority p) k;
              Some k
            }
            else Some k) = Some k' \<and> kinv b k' \<and> kframe (with_prio x p k) k' \<and> (\<forall>u. tstat k' u = tstat k u)
     \<and> (\<forall>h. (\<forall>q. h \<noteq> Ready q) \<longrightarrow> tlists k' h = tlists k h)
     \<and> (\<forall>u. error (threads k' u) = error (threads k u)) \<and> rt_current_thread k' = rt_current_thread k"
proof (cases "p = current_priority (threads k x)")
  case False
  with change_prio_ok [OF inv o p] show ?thesis by auto
next
  case True
  with with_prio_same [OF live_prio [OF inv o]] inv show ?thesis by simp
qed

lemma kframe_mutexes:
  "kframe (with_prio c p (k\<lparr>mutexes := y\<rparr>)) k' \<Longrightarrow> kframe (with_prio c p (k\<lparr>mutexes := x\<rparr>)) (k'\<lparr>mutexes := x\<rparr>)"
  unfolding kframe_def is_class_def by (cases k; cases k') auto

text \<open>The last release: priority back, then the mutex is free or belongs to the first waiter.\<close>

lemma mutex_release_last:
  assumes inv: "kinv b k" and m: "mutex_ok k m" "owner (mutexes k m) = c" "hold (mutexes k m) = 1"
    and c: "c = rt_current_thread k" "tstat k c = RT_THREAD_RUNNING" "interrupt_nest k = 0"
    and p: "p = original_priority (mutexes k m)"
  shows "\<exists>k2. kinv b k2 \<and> kframe (with_prio c p (k\<lparr>mutexes := mutexes k2\<rparr>)) k2
     \<and> mutexes k2 = (mutexes k)(m := (mutexes k m)\<lparr>hold := 0\<rparr>)
     \<and> (\<forall>u. tstat k2 u = tstat k u) \<and> (\<forall>h. (\<forall>q. h \<noteq> Ready q) \<longrightarrow> tlists k2 h = tlists k h)
     \<and> (\<forall>u. error (threads k2 u) = error (threads k u)) \<and> rt_current_thread k2 = c
     \<and> rt_mutex_release m k =
         (if \<not> tlist_isempty (Waiters m) k2 then do {
           thread \<leftarrow> tlist_first (Waiters m) k2;
           let k = upd_mutex m (\<lambda>x. x\<lparr>owner := thread,
             original_priority := current_priority (threads k2 thread), hold := hold x + 1\<rparr>) k2;
           k \<leftarrow> rt_ipc_list_resume (Waiters m) k;
           k \<leftarrow> rt_schedule k;
           Some (RT_EOK, k)
         }
         else Some (RT_EOK, upd_mutex m (\<lambda>x. x\<lparr>mutex_value := mutex_value x + 1, owner := RT_NULL,
           original_priority := 0xff\<rparr>) k2))"
proof -
  have c0: "c \<noteq> RT_NULL" by (rule running_not_null [OF inv c(2)])
  let ?k1 = "upd_mutex m (\<lambda>x. x\<lparr>hold := hold x - 1\<rparr>) k"
  have mx: "mutexes ?k1 = (mutexes k)(m := (mutexes k m)\<lparr>hold := 0\<rparr>)" using m(3) by (simp add: upd_mutex_def)
  have k1: "kinv b ?k1" "live ?k1 c" using inv live_running [OF c(2)] by (simp_all add: live_def)
  have p32: "unat p < 32" using m c0 p by (auto simp: mutex_ok_def)
  obtain k2 where k2: "(if p \<noteq> current_priority (threads ?k1 c) then do {
              (_, k) \<leftarrow> rt_thread_control c (Change_priority p) ?k1;
              Some k
            }
            else Some ?k1) = Some k2" "kinv b k2" "kframe (with_prio c p ?k1) k2" "\<forall>u. tstat k2 u = tstat ?k1 u"
     "\<forall>h. (\<forall>q. h \<noteq> Ready q) \<longrightarrow> tlists k2 h = tlists ?k1 h"
     "\<forall>u. error (threads k2 u) = error (threads ?k1 u)" "rt_current_thread k2 = rt_current_thread ?k1"
    using restore_priority_ok [OF k1 p32] by blast
  have m2: "mutexes k2 = mutexes ?k1" using kframe_fields(7) [OF k2(3)] by simp
  have fr: "kframe (with_prio c p (k\<lparr>mutexes := mutexes k2\<rparr>)) k2"
    using k2(3) unfolding m2 by (simp add: upd_mutex_def)
  have cls: "is_class k m RT_Object_Class_Mutex" using m(1) by (simp add: mutex_ok_def)
  have cur: "rt_thread_self k = c" using c(1) by (simp add: rt_thread_self_def)
  have own: "owner (mutexes ?k1 m) = c" "hold (mutexes ?k1 m) = 0" "original_priority (mutexes ?k1 m) = p"
    using m(2) p by (simp_all add: mx)
  have "rt_mutex_release m k =
         (if \<not> tlist_isempty (Waiters m) k2 then do {
           thread \<leftarrow> tlist_first (Waiters m) k2;
           let k = upd_mutex m (\<lambda>x. x\<lparr>owner := thread,
             original_priority := current_priority (threads k2 thread), hold := hold x + 1\<rparr>) k2;
           k \<leftarrow> rt_ipc_list_resume (Waiters m) k;
           k \<leftarrow> rt_schedule k;
           Some (RT_EOK, k)
         }
         else Some (RT_EOK, upd_mutex m (\<lambda>x. x\<lparr>mutex_value := mutex_value x + 1, owner := RT_NULL,
           original_priority := 0xff\<rparr>) k2))"
    unfolding rt_mutex_release_def cur Let_def own
    using cls c0 c m(2) k2(1)
    by (simp add: is_class_def RT_DEBUG_IN_THREAD_CONTEXT_def RT_DEBUG_NOT_IN_INTERRUPT_def)
  then show ?thesis using k2 fr mx m2 c(1) by (intro exI [of _ k2]) simp
qed

lemma mutex_release_free:
  assumes inv: "kinv b k" and m: "mutex_ok k m" "owner (mutexes k m) = c" "hold (mutexes k m) = 1"
    and c: "c = rt_current_thread k" "tstat k c = RT_THREAD_RUNNING" "interrupt_nest k = 0"
    and p: "p = original_priority (mutexes k m)" and w: "tlists k (Waiters m) = []"
  shows "\<exists>k'. rt_mutex_release m k = Some (RT_EOK, k') \<and> kinv b k' \<and> mutex_ok k' m
     \<and> kframe (with_prio c p (k\<lparr>mutexes := mutexes k'\<rparr>)) k' \<and> owner (mutexes k' m) = RT_NULL
     \<and> (\<forall>u. tstat k' u = tstat k u)"
proof -
  obtain k2 where k2: "kinv b k2" "kframe (with_prio c p (k\<lparr>mutexes := mutexes k2\<rparr>)) k2"
    "mutexes k2 = (mutexes k)(m := (mutexes k m)\<lparr>hold := 0\<rparr>)"
    "\<forall>u. tstat k2 u = tstat k u" "\<forall>h. (\<forall>q. h \<noteq> Ready q) \<longrightarrow> tlists k2 h = tlists k h" "rt_current_thread k2 = c"
    "rt_mutex_release m k = (if \<not> tlist_isempty (Waiters m) k2 then do {
           thread \<leftarrow> tlist_first (Waiters m) k2;
           let k = upd_mutex m (\<lambda>x. x\<lparr>owner := thread,
             original_priority := current_priority (threads k2 thread), hold := hold x + 1\<rparr>) k2;
           k \<leftarrow> rt_ipc_list_resume (Waiters m) k;
           k \<leftarrow> rt_schedule k;
           Some (RT_EOK, k)
         }
         else Some (RT_EOK, upd_mutex m (\<lambda>x. x\<lparr>mutex_value := mutex_value x + 1, owner := RT_NULL,
           original_priority := 0xff\<rparr>) k2))"
    using mutex_release_last [OF inv m c p] by blast
  let ?k' = "upd_mutex m (\<lambda>x. x\<lparr>mutex_value := mutex_value x + 1, owner := RT_NULL, original_priority := 0xff\<rparr>) k2"
  have w2: "tlists k2 (Waiters m) = []" using k2(5) w by simp
  have "rt_mutex_release m k = Some (RT_EOK, ?k')" using k2(7) w2 by (simp add: tlist_isempty_def)
  moreover have "kframe (with_prio c p (k\<lparr>mutexes := mutexes ?k'\<rparr>)) ?k'"
    using kframe_mutexes [OF k2(2), of "mutexes ?k'"] by (simp add: upd_mutex_def)
  moreover have "objs k2 m = objs k m"
    using kframe_obj [OF k2(2), of m RT_Object_Class_Mutex] m(1) by (simp add: is_class_def mutex_ok_def)
  then have "mutex_ok ?k' m"
    using m running_not_null [OF inv c(2)] w2
    by (simp add: mutex_ok_def is_class_def) (simp add: upd_mutex_def k2(3))
  moreover have "owner (mutexes ?k' m) = RT_NULL" by (simp add: upd_mutex_def)
  ultimately show ?thesis using k2(1,4) by (intro exI [of _ ?k']) simp
qed

text \<open>
  A short critical section: the mutex was free, the owner's priority is the one it had and nobody
  waits. The release then only frees the mutex.
\<close>

lemma mutex_release_eq:
  assumes "is_class k m RT_Object_Class_Mutex" "interrupt_nest k = 0" "rt_current_thread k \<noteq> RT_NULL"
    "mutexes k m = \<lparr>mutex_value = 0, original_priority = current_priority (threads k (rt_current_thread k)), hold = 1,
       owner = rt_current_thread k\<rparr>" "tlists k (Waiters m) = []"
  shows "rt_mutex_release m k = Some (RT_EOK, upd_mutex m (\<lambda>_. \<lparr>mutex_value = 1, original_priority = 0xff, hold = 0,
     owner = RT_NULL\<rparr>) k)"
  using assms unfolding rt_mutex_release_def rt_thread_self_def
  by (simp add: is_class_def RT_DEBUG_IN_THREAD_CONTEXT_def RT_DEBUG_NOT_IN_INTERRUPT_def upd_mutex_def tlist_isempty_def Let_def)

lemma mutex_release_handover:
  assumes inv: "kinv b k" and m: "mutex_ok k m" "owner (mutexes k m) = c" "hold (mutexes k m) = 1"
    and c: "c = rt_current_thread k" "tstat k c = RT_THREAD_RUNNING" "interrupt_nest k = 0"
    and p: "p = original_priority (mutexes k m)" and w: "tlists k (Waiters m) = t # q"
  shows "\<exists>k'. rt_mutex_release m k = Some (RT_EOK, k') \<and> kinv b k' \<and> mutex_ok k' m
     \<and> kframe (with_prio c p (k\<lparr>mutexes := mutexes k'\<rparr>)) k'
     \<and> mutexes k' m = \<lparr>mutex_value = 0, original_priority = current_priority (threads k t), hold = 1, owner = t\<rparr>
     \<and> tstat k' t \<in> {RT_THREAD_READY, RT_THREAD_RUNNING} \<and> error (threads k' t) = error (threads k t)
     \<and> tlists k' (Waiters m) = q \<and> thread_timer (threads k t) \<notin> set (timer_list k')
     \<and> (scheduler_lock_nest k = 0 \<longrightarrow> top_running k')"
proof -
  obtain k2 where k2: "kinv b k2" "kframe (with_prio c p (k\<lparr>mutexes := mutexes k2\<rparr>)) k2"
    "mutexes k2 = (mutexes k)(m := (mutexes k m)\<lparr>hold := 0\<rparr>)"
    "\<forall>u. tstat k2 u = tstat k u" "\<forall>h. (\<forall>q. h \<noteq> Ready q) \<longrightarrow> tlists k2 h = tlists k h"
    "\<forall>u. error (threads k2 u) = error (threads k u)" "rt_current_thread k2 = c"
    "rt_mutex_release m k = (if \<not> tlist_isempty (Waiters m) k2 then do {
           thread \<leftarrow> tlist_first (Waiters m) k2;
           let k = upd_mutex m (\<lambda>x. x\<lparr>owner := thread,
             original_priority := current_priority (threads k2 thread), hold := hold x + 1\<rparr>) k2;
           k \<leftarrow> rt_ipc_list_resume (Waiters m) k;
           k \<leftarrow> rt_schedule k;
           Some (RT_EOK, k)
         }
         else Some (RT_EOK, upd_mutex m (\<lambda>x. x\<lparr>mutex_value := mutex_value x + 1, owner := RT_NULL,
           original_priority := 0xff\<rparr>) k2))"
    using mutex_release_last [OF inv m c p] by blast
  have c0: "c \<noteq> RT_NULL" by (rule running_not_null [OF inv c(2)])
  have w2: "tlists k2 (Waiters m) = t # q" using k2(5) w by simp
  have ts: "tstat k t = RT_THREAD_SUSPEND"
    by (rule waiter_suspended [OF kinvD(1) [OF inv] is_wait_simps(1) [of m]]) (simp add: w)
  have tc: "t \<noteq> c" using ts c(2) by auto
  have pt: "current_priority (threads k2 t) = current_priority (threads k t)"
    "thread_timer (threads k2 t) = thread_timer (threads k t)"
    using thread_same_fields(1,8) [OF kframe_parts(1) [OF k2(2), of t]] tc by auto
  let ?m = "\<lparr>mutex_value = 0, original_priority = current_priority (threads k t), hold = 1, owner = t\<rparr>"
  let ?k3 = "upd_mutex m (\<lambda>x. x\<lparr>owner := t, original_priority := current_priority (threads k2 t), hold := hold x + 1\<rparr>) k2"
  have m0: "mutex_value (mutexes k m) = 0" using m c0 by (auto simp: mutex_ok_def)
  have m3: "mutexes ?k3 m = ?m"
    using m0 pt(1) by (intro rt_mutex.equality) (simp_all add: upd_mutex_def k2(3))
  have w3: "tlists ?k3 (Waiters m) = t # q" using w2 by simp
  have i3: "kinv b ?k3" using k2(1) by simp
  have cur3: "rt_current_thread ?k3 \<noteq> RT_NULL" using k2(7) c0 by simp
  obtain k4 k' where k': "rt_ipc_list_resume (Waiters m) ?k3 = Some k4" "rt_schedule k4 = Some k'" "kinv b k'"
    "kframe ?k3 k'" "tstat k' t \<in> {RT_THREAD_READY, RT_THREAD_RUNNING}" "tlists k' (Waiters m) = q"
    "\<forall>u. error (threads k' u) = error (threads ?k3 u)" "thread_timer (threads ?k3 t) \<notin> set (timer_list k')"
    "scheduler_lock_nest ?k3 = 0 \<longrightarrow> top_running k'"
    using ipc_wake_ok [OF i3 is_wait_simps(1) w3 cur3] by blast
  have rel: "rt_mutex_release m k = Some (RT_EOK, k')"
    using k2(8) w2 k'(1,2) by (simp add: tlist_isempty_def tlist_first_def Let_def)
  have m': "mutexes k' = mutexes ?k3" by (rule kframe_fields(7) [OF k'(4)])
  have "kframe (with_prio c p (k\<lparr>mutexes := mutexes k'\<rparr>)) ?k3"
    using kframe_mutexes [OF k2(2), of "mutexes k'"] unfolding m' by (simp add: upd_mutex_def)
  then have fr: "kframe (with_prio c p (k\<lparr>mutexes := mutexes k'\<rparr>)) k'"
    using kframe_trans [OF _ k'(4)] by blast
  have ob: "objs k' m = objs k m"
    using kframe_obj [OF fr, of m RT_Object_Class_Mutex] m(1) by (simp add: is_class_def mutex_ok_def)
  have tq: "t \<notin> set q"
    using list_family_distinct [OF core_invD(1) [OF sched_inv_core [OF kinvD(1) [OF inv]]], of "Waiters m"] w by simp
  have pr: "prio_ok (threads k t)" by (rule live_prio [OF inv]) (simp add: live_def ts)
  have t0: "t \<noteq> RT_NULL" using core_invD(10) [OF sched_inv_core [OF kinvD(1) [OF inv]], of "Waiters m"] w by auto
  have "live k' t" using k'(5) by (auto simp: live_def)
  then have "mutex_ok k' m"
    using m(1) t0 tq pr k'(6) by (simp add: mutex_ok_def is_class_def ob m' m3 prio_ok_def)
  moreover have "thread_timer (threads k t) \<notin> set (timer_list k')" using k'(8) pt(2) by simp
  moreover have "scheduler_lock_nest k = 0 \<longrightarrow> top_running k'"
    using k'(9) kframe_fields(2) [OF k2(2)] by simp
  moreover have "error (threads k' t) = error (threads k t)" using k'(7) k2(6) by simp
  ultimately show ?thesis using rel k'(3,5,6) fr m' m3 by simp
qed

subsection \<open>What a mutex guarantees\<close>

text \<open>C4: \<^verbatim>\<open>rt_mutex_take\<close> by the running thread: its own mutex is held once more, a free one becomes
  its property; for the mutex of another thread it waits in the queue while the owner keeps the
  mutex and runs at the better of the two priorities (priority inheritance). The invariants of
  kernel and mutex are kept in every case.\<close>

theorem mutex_take_spec:
  assumes "kinv b k" "mutex_ok k m" "c = rt_current_thread k" "tstat k c = RT_THREAD_RUNNING"
    "interrupt_nest k = 0" "wait_time_ok time" "hold (mutexes k m) < 255"
  shows "\<exists>out k'. rt_mutex_take m time k = Some (out, k') \<and> kinv b k' \<and> mutex_ok k' m
     \<and> (let x = owner (mutexes k m) in
        if x = c then out = Done RT_EOK \<and> mutexes k' m = (mutexes k m)\<lparr>hold := hold (mutexes k m) + 1\<rparr>
        else if x = RT_NULL then out = Done RT_EOK \<and> mutexes k' m =
          \<lparr>mutex_value = 0, original_priority = current_priority (threads k c), hold = 1, owner = c\<rparr>
        else out = Blocked \<and> mutexes k' = mutexes k \<and> tstat k' c = RT_THREAD_SUSPEND
          \<and> set (tlists k' (Waiters m)) = insert c (set (tlists k (Waiters m)))
          \<and> current_priority (threads k' x) = min (current_priority (threads k c)) (current_priority (threads k x))
          \<and> (\<forall>u. u \<noteq> x \<longrightarrow> current_priority (threads k' u) = current_priority (threads k u)))"
proof -
  let ?x = "owner (mutexes k m)"
  consider "?x = c" | "?x \<noteq> c" "?x = RT_NULL" | "?x \<noteq> c" "?x \<noteq> RT_NULL" by blast
  then show ?thesis
  proof cases
    case 1
    with mutex_take_again_owner [OF assms(1,2) 1 assms(3-5,7), of time] show ?thesis by auto
  next
    case 2
    with mutex_take_free [OF assms(1,2) 2(2) assms(3-5), of time] show ?thesis by auto
  next
    case 3
    let ?p = "min (current_priority (threads k c)) (current_priority (threads k ?x))"
    obtain k' where k': "rt_mutex_take m time k = Some (Blocked, k')" "kinv b k'" "kframe (with_prio ?x ?p k) k'"
      "mutex_ok k' m" "tstat k' c = RT_THREAD_SUSPEND"
      "tlists k' (Waiters m) = enqueue (flag (objs k m)) (\<lambda>t. current_priority (threads k' t)) c (tlists k (Waiters m))"
      using mutex_take_blocks [OF assms(1,2) refl 3(2,1) assms(3-6) refl] by blast
    have pr: "current_priority (threads k' u) = (if u = ?x then ?p else current_priority (threads k u))" for u
      using thread_same_fields(1) [OF kframe_parts(1) [OF k'(3), of u]] by auto
    have "mutexes k' = mutexes k" using kframe_fields(7) [OF k'(3)] by simp
    with 3 k' pr show ?thesis by (simp add: Let_def set_enqueue)
  qed
qed

lemma demo_mutexes:
  "objs demo 31 = ex_obj 0x83 0" "objs demo 32 = ex_obj 0x83 0" "objs demo 33 = ex_obj 0x83 1"
  "mutexes demo 31 = \<lparr>mutex_value = 0, original_priority = 12, hold = 1, owner = 2\<rparr>"
  "mutexes demo 32 = \<lparr>mutex_value = 0, original_priority = 15, hold = 1, owner = 1\<rparr>"
  "mutexes demo 33 = \<lparr>mutex_value = 0, original_priority = 15, hold = 1, owner = 1\<rparr>"
  by (simp_all add: demo_def)

lemma demo_mutex_ok: "mutex_ok demo 31" "mutex_ok demo 32" "mutex_ok demo 33"
  by (simp_all add: mutex_ok_def is_class_def live_def demo_stat demo_mutexes ex_obj_def)

theorem mutex_take_spec_witness:
  "\<exists>k'. rt_mutex_take 31 (- 1) demo = Some (Blocked, k') \<and> current_priority (threads k' 2) = 6
     \<and> current_priority (threads demo 2) = 12"
proof -
  have o: "owner (mutexes demo 31) = 2" "hold (mutexes demo 31) = 1" by (simp_all add: demo_def)
  show ?thesis
    using mutex_take_spec [OF demo_kinv demo_mutex_ok(1), of 1 "- 1"]
    by (auto simp: demo_stat wait_time_ok_def Let_def o)
qed

lemma mutex_last_hold: "mutex_ok k m \<Longrightarrow> owner (mutexes k m) \<noteq> RT_NULL \<Longrightarrow> \<not> 1 < hold (mutexes k m) \<Longrightarrow> hold (mutexes k m) = 1"
  by (auto simp: mutex_ok_def word_less_nat_alt word_unat_eq_iff)

lemma mutex_ok_error:
  assumes "mutex_ok k m"
  shows "mutex_ok (upd_thread c (\<lambda>th. th\<lparr>error := x\<rparr>) k) m"
proof -
  have "live (upd_thread c (\<lambda>th. th\<lparr>error := x\<rparr>) k) u = live k u" for u by (simp add: live_def tstat_def upd_thread_def)
  with assms show ?thesis by (simp add: mutex_ok_def is_class_def)
qed

text \<open>C5: \<^verbatim>\<open>rt_mutex_release\<close> by the owner: it undoes one take; the last one restores the owner's
  original priority and either frees the mutex or hands it to the first waiter, which is made
  ready with its timer stopped. Anybody else gets \<^verbatim>\<open>-RT_ERROR\<close> and the mutex is untouched.\<close>

theorem mutex_release_spec:
  assumes "kinv b k" "mutex_ok k m" "c = rt_current_thread k" "tstat k c = RT_THREAD_RUNNING" "interrupt_nest k = 0"
  shows "\<exists>e k'. rt_mutex_release m k = Some (e, k') \<and> kinv b k' \<and> mutex_ok k' m
     \<and> (if owner (mutexes k m) \<noteq> c then e = - RT_ERROR \<and> mutexes k' = mutexes k
        else if 1 < hold (mutexes k m) then
          e = RT_EOK \<and> mutexes k' m = (mutexes k m)\<lparr>hold := hold (mutexes k m) - 1\<rparr>
        else e = RT_EOK \<and> current_priority (threads k' c) = original_priority (mutexes k m)
          \<and> (case tlists k (Waiters m) of
               [] \<Rightarrow> owner (mutexes k' m) = RT_NULL
             | t # q \<Rightarrow> owner (mutexes k' m) = t \<and> hold (mutexes k' m) = 1 \<and> tlists k' (Waiters m) = q
                 \<and> tstat k' t \<in> {RT_THREAD_READY, RT_THREAD_RUNNING}
                 \<and> thread_timer (threads k t) \<notin> set (timer_list k') \<and> error (threads k' t) = error (threads k t)))"
proof -
  have c0: "c \<noteq> RT_NULL" by (rule running_not_null [OF assms(1,4)])
  have cls: "is_class k m RT_Object_Class_Mutex" using assms(2) by (simp add: mutex_ok_def)
  consider (other) "owner (mutexes k m) \<noteq> c" | (held) "owner (mutexes k m) = c" "1 < hold (mutexes k m)"
    | (last) "owner (mutexes k m) = c" "hold (mutexes k m) = 1"
    using mutex_last_hold [OF assms(2)] c0 by blast
  then show ?thesis
  proof cases
    case other
    let ?k = "upd_thread c (\<lambda>th. th\<lparr>error := - RT_ERROR\<rparr>) k"
    have "rt_mutex_release m k = Some (- RT_ERROR, ?k)"
      using mutex_release_not_owner [OF cls] other assms(3,5) c0 by auto
    moreover have "mutex_ok ?k m" by (rule mutex_ok_error [OF assms(2)])
    ultimately show ?thesis using other kinv_error(1) [OF assms(1)] by simp
  next
    case held
    with mutex_release_held [OF assms(1,2) held assms(3) c0 assms(5)] assms(1)
    show ?thesis by (simp add: upd_mutex_def)
  next
    case last
    let ?p = "original_priority (mutexes k m)"
    have pr: "current_priority (threads k' c) = ?p" if "kframe (with_prio c ?p (k\<lparr>mutexes := y\<rparr>)) k'" for k' y
      using thread_same_fields(1) [OF kframe_parts(1) [OF that, of c]] by simp
    show ?thesis
    proof (cases "tlists k (Waiters m)")
      case Nil
      with mutex_release_free [OF assms(1,2) last assms(3-5) refl] last pr show ?thesis by fastforce
    next
      case (Cons t q)
      with mutex_release_handover [OF assms(1,2) last assms(3-5) refl Cons] last pr show ?thesis by fastforce
    qed
  qed
qed

theorem mutex_release_spec_witness:
  "\<exists>k'. rt_mutex_release 33 demo = Some (RT_EOK, k') \<and> owner (mutexes k' 33) = 5
     \<and> current_priority (threads k' 1) = 15"
proof -
  have o: "owner (mutexes demo 33) = 1" "hold (mutexes demo 33) = 1" "original_priority (mutexes demo 33) = 15"
    by (simp_all add: demo_def)
  show ?thesis
    using mutex_release_spec [OF demo_kinv demo_mutex_ok(3), of 1] by (auto simp: demo_stat o)
qed

text \<open>Releasing a mutex that nobody waits for restores the owner's original priority but does not
  call the scheduler: if a ready thread beats that priority, the releasing thread keeps running
  ahead of it.\<close>

lemma mutex_release_keeps_running:
  assumes "kinv b k" "mutex_ok k m" "owner (mutexes k m) = c" "hold (mutexes k m) = 1"
    "c = rt_current_thread k" "tstat k c = RT_THREAD_RUNNING" "interrupt_nest k = 0" "tlists k (Waiters m) = []"
    "tstat k u = RT_THREAD_READY" "tprio k u < unat (original_priority (mutexes k m))"
  shows "\<exists>k'. rt_mutex_release m k = Some (RT_EOK, k') \<and> rt_current_thread k' = c
     \<and> tstat k' c = RT_THREAD_RUNNING \<and> tstat k' u = RT_THREAD_READY \<and> tprio k' u < tprio k' c"
proof -
  let ?p = "original_priority (mutexes k m)"
  obtain k' where k': "rt_mutex_release m k = Some (RT_EOK, k')" "kinv b k'"
    "kframe (with_prio c ?p (k\<lparr>mutexes := mutexes k'\<rparr>)) k'" "\<forall>u. tstat k' u = tstat k u"
    using mutex_release_free [OF assms(1-7) refl assms(8)] by blast
  have uc: "u \<noteq> c" using assms(6,9) by auto
  have "tprio k' c = unat ?p" "tprio k' u = tprio k u"
    using thread_same_fields(1) [OF kframe_parts(1) [OF k'(3), of c]]
      thread_same_fields(1) [OF kframe_parts(1) [OF k'(3), of u]] uc by auto
  moreover have "tstat k' c = RT_THREAD_RUNNING" using k'(4) assms(6) by simp
  moreover have "rt_current_thread k' = c"
    using kinvD(1) [OF k'(2)] calculation(3) by (simp add: sched_inv_def)
  ultimately show ?thesis using k'(1,4) assms(9,10) by simp
qed

end
