(* ===== verification/RT_Event.thy ===== *)
theory RT_Event
  imports RT_Example
begin

text \<open>
  Event sets (\<^verbatim>\<open>rt_event_*\<close> of \<^verbatim>\<open>src/ipc.c\<close>): 32 event bits; a receiver waits until all
  (\<^verbatim>\<open>RT_EVENT_FLAG_AND\<close>) or some (\<^verbatim>\<open>RT_EVENT_FLAG_OR\<close>) of its bits are set, and may clear them.
  \<open>event_scan\<close> says what a send does to the waiting threads; the invariant \<open>event_ok\<close> says that
  nobody waits for bits that are there.
\<close>

subsection \<open>Operations\<close>

definition rt_event_init :: "ptr \<Rightarrow> string \<Rightarrow> u8 \<Rightarrow> kernel \<Rightarrow> (err \<times> kernel) option" where
  "rt_event_init event nm fl k = do {
     RT_ASSERT (event \<noteq> RT_NULL);
     k \<leftarrow> rt_object_init event RT_Object_Class_Event nm k;
     let k = upd_obj event (\<lambda>ob. ob\<lparr>flag := fl\<rparr>) k;
     k \<leftarrow> rt_ipc_object_init event k;
     Some (RT_EOK, upd_event event (\<lambda>e. e\<lparr>event_bits := 0\<rparr>) k)
   }"

definition rt_event_detach :: "ptr \<Rightarrow> kernel \<Rightarrow> (err \<times> kernel) option" where
  "rt_event_detach event k = do {
     RT_ASSERT (event \<noteq> RT_NULL);
     ASSERT_TYPE event RT_Object_Class_Event k;
     ASSERT_SYSTEM event True k;
     k \<leftarrow> rt_ipc_list_resume_all (Waiters event) k;
     k \<leftarrow> rt_object_detach event k;
     Some (RT_EOK, k)
   }"

definition rt_event_create ::
  "(u32 \<Rightarrow> kernel \<Rightarrow> ptr \<times> kernel) \<Rightarrow> (u8 \<Rightarrow> u32) \<Rightarrow> string \<Rightarrow> u8 \<Rightarrow> kernel \<Rightarrow> (ptr \<times> kernel) option" where
  "rt_event_create malloc size_of nm fl k = do {
     RT_DEBUG_NOT_IN_INTERRUPT k;
     (event, k) \<leftarrow> rt_object_allocate malloc size_of RT_Object_Class_Event nm k;
     if event = RT_NULL then Some (event, k)
     else do {
       let k = upd_obj event (\<lambda>ob. ob\<lparr>flag := fl\<rparr>) k;
       k \<leftarrow> rt_ipc_object_init event k;
       Some (event, upd_event event (\<lambda>e. e\<lparr>event_bits := 0\<rparr>) k)
     }
   }"

definition rt_event_delete :: "(ptr \<Rightarrow> kernel \<Rightarrow> kernel) \<Rightarrow> ptr \<Rightarrow> kernel \<Rightarrow> (err \<times> kernel) option" where
  "rt_event_delete free event k = do {
     RT_ASSERT (event \<noteq> RT_NULL);
     ASSERT_TYPE event RT_Object_Class_Event k;
     ASSERT_SYSTEM event False k;
     RT_DEBUG_NOT_IN_INTERRUPT k;
     k \<leftarrow> rt_ipc_list_resume_all (Waiters event) k;
     k \<leftarrow> rt_object_delete free event k;
     Some (RT_EOK, k)
   }"

text \<open>
  The walk over the waiting threads. The next node is read before a thread is resumed, and
  resuming a thread unlinks only that thread: the walk sees the threads that were on the list.
\<close>

fun event_send_loop :: "ptr \<Rightarrow> ptr list \<Rightarrow> bool \<Rightarrow> kernel \<Rightarrow> (bool \<times> kernel) option" where
  "event_send_loop event [] need_schedule k = Some (need_schedule, k)"
| "event_send_loop event (thread # n) need_schedule k =
     (let th = threads k thread; evs = event_bits (events k event);
          (ok, k) =
            (if event_info th AND RT_EVENT_FLAG_AND \<noteq> 0 then (event_set th AND evs = event_set th, k)
             else if event_info th AND RT_EVENT_FLAG_OR \<noteq> 0 then
               if event_set th AND evs \<noteq> 0
               then (True, upd_thread thread (\<lambda>th. th\<lparr>event_set := event_set th AND evs\<rparr>) k)
               else (False, k)
             else (False, k))
      in if ok then
           (let k = (if event_info (threads k thread) AND RT_EVENT_FLAG_CLEAR \<noteq> 0
                     then upd_event event (\<lambda>e. e\<lparr>event_bits :=
                       event_bits e AND NOT (event_set (threads k thread))\<rparr>) k
                     else k)
            in rt_thread_resume thread k \<bind> (\<lambda>r. event_send_loop event n True (snd r)))
         else event_send_loop event n need_schedule k)"

definition rt_event_send :: "ptr \<Rightarrow> u32 \<Rightarrow> kernel \<Rightarrow> (err \<times> kernel) option" where
  "rt_event_send event evs k = do {
     RT_ASSERT (event \<noteq> RT_NULL);
     ASSERT_TYPE event RT_Object_Class_Event k;
     if evs = 0 then Some (- RT_ERROR, k)
     else do {
       let k = upd_event event (\<lambda>e. e\<lparr>event_bits := event_bits e OR evs\<rparr>) k;
       (need_schedule, k) \<leftarrow> event_send_loop event (tlists k (Waiters event)) False k;
       k \<leftarrow> (if need_schedule then rt_schedule k else Some k);
       Some (RT_EOK, k)
     }
   }"

text \<open>
  The second component of the result is what is stored through \<^verbatim>\<open>recved\<close>; \<open>recved\<close> says whether
  the caller passed a pointer.
\<close>

definition rt_event_recv ::
  "ptr \<Rightarrow> u32 \<Rightarrow> u8 \<Rightarrow> 32 word \<Rightarrow> bool \<Rightarrow> kernel \<Rightarrow> (outcome \<times> u32 option \<times> kernel) option" where
  "rt_event_recv event evs opt timeout recved k = do {
     RT_DEBUG_IN_THREAD_CONTEXT k;
     RT_ASSERT (event \<noteq> RT_NULL);
     ASSERT_TYPE event RT_Object_Class_Event k;
     if evs = 0 then Some (Done (- RT_ERROR), None, k)
     else do {
       let thread = rt_thread_self k;
       let k = upd_thread thread (\<lambda>th. th\<lparr>error := RT_EOK\<rparr>) k;
       ok \<leftarrow> (if opt AND RT_EVENT_FLAG_AND \<noteq> 0 then Some (event_bits (events k event) AND evs = evs)
             else if opt AND RT_EVENT_FLAG_OR \<noteq> 0 then Some (event_bits (events k event) AND evs \<noteq> 0)
             else None);
       if ok then
         (let r = (if recved then Some (event_bits (events k event) AND evs) else None);
              k = (if opt AND RT_EVENT_FLAG_CLEAR \<noteq> 0
                   then upd_event event (\<lambda>e. e\<lparr>event_bits := event_bits e AND NOT evs\<rparr>) k else k)
          in Some (Done (error (threads k thread)), r, k))
       else if timeout = 0 then
         (let k = upd_thread thread (\<lambda>th. th\<lparr>error := - RT_ETIMEOUT\<rparr>) k
          in Some (Done (error (threads k thread)), None, k))
       else do {
         let k = upd_thread thread (\<lambda>th. th\<lparr>event_set := evs, event_info := opt\<rparr>) k;
         k \<leftarrow> ipc_wait (Waiters event) (flag (objs k event)) timeout k;
         k \<leftarrow> rt_schedule k;
         Some (Blocked, None, k)
       }
     }
   }"

definition rt_event_recv_resume :: "ptr \<Rightarrow> bool \<Rightarrow> kernel \<Rightarrow> err \<times> u32 option" where
  "rt_event_recv_resume thread recved k =
     (if error (threads k thread) \<noteq> RT_EOK then (error (threads k thread), None)
      else (error (threads k thread), if recved then Some (event_set (threads k thread)) else None))"

definition rt_event_control :: "ptr \<Rightarrow> int \<Rightarrow> kernel \<Rightarrow> (err \<times> kernel) option" where
  "rt_event_control event cmd k = do {
     RT_ASSERT (event \<noteq> RT_NULL);
     ASSERT_TYPE event RT_Object_Class_Event k;
     if cmd = RT_IPC_CMD_RESET then do {
       k \<leftarrow> rt_ipc_list_resume_all (Waiters event) k;
       let k = upd_event event (\<lambda>e. e\<lparr>event_bits := 0\<rparr>) k;
       k \<leftarrow> rt_schedule k;
       Some (RT_EOK, k)
     }
     else Some (- RT_ERROR, k)
   }"

subsection \<open>The abstract scan\<close>

definition sat :: "u32 \<Rightarrow> u8 \<Rightarrow> u32 \<Rightarrow> bool" where
  "sat evs opt bits \<longleftrightarrow>
     (if opt AND RT_EVENT_FLAG_AND \<noteq> 0 then evs AND bits = evs
      else opt AND RT_EVENT_FLAG_OR \<noteq> 0 \<and> evs AND bits \<noteq> 0)"

definition received :: "u32 \<Rightarrow> u8 \<Rightarrow> u32 \<Rightarrow> u32" where
  "received evs opt bits = (if opt AND RT_EVENT_FLAG_AND \<noteq> 0 then evs else evs AND bits)"

definition consume :: "u32 \<Rightarrow> u8 \<Rightarrow> u32 \<Rightarrow> u32" where
  "consume evs opt bits =
     (if opt AND RT_EVENT_FLAG_CLEAR \<noteq> 0 then bits AND NOT (received evs opt bits) else bits)"

text \<open>Bits left, threads that go on waiting, threads woken with the bits they receive.\<close>

fun event_scan :: "(ptr \<Rightarrow> u32) \<Rightarrow> (ptr \<Rightarrow> u8) \<Rightarrow> u32 \<Rightarrow> ptr list \<Rightarrow> u32 \<times> ptr list \<times> (ptr \<times> u32) list" where
  "event_scan S T bits [] = (bits, [], [])"
| "event_scan S T bits (t # ts) =
     (if sat (S t) (T t) bits then
        (let (b', keep, woken) = event_scan S T (consume (S t) (T t) bits) ts
         in (b', keep, (t, received (S t) (T t) bits) # woken))
      else
        (let (b', keep, woken) = event_scan S T bits ts in (b', t # keep, woken)))"

lemma sat_mono:
  assumes "\<not> sat s opt b" "b' AND b = b'"
  shows "\<not> sat s opt b'"
proof -
  have sub: "b' AND x = b' AND (b AND x)" for x using assms(2) by (metis and.assoc)
  have "s AND b = s" if "s AND b' = s"
  proof -
    have "s AND b = (s AND b') AND b" by (simp add: that)
    also have "\<dots> = s AND (b' AND b)" by (simp add: and.assoc)
    finally show ?thesis using assms(2) that by simp
  qed
  moreover have "s AND b \<noteq> 0" if "s AND b' \<noteq> 0"
  proof
    assume "s AND b = 0"
    then have "s AND b' = b' AND 0" using sub [of s] by (metis and.commute)
    with that show False by simp
  qed
  ultimately show ?thesis using assms(1) by (auto simp: sat_def split: if_splits)
qed

lemma and_sub_trans: "a AND b = a \<Longrightarrow> b AND c = b \<Longrightarrow> a AND c = (a :: 'a::len word)"
  by (metis and.assoc)

lemma consume_sub: "consume s opt b AND b = consume s opt b"
  by (simp add: consume_def and.assoc and.left_commute) (metis and.assoc and.commute and.idem)

lemma event_scan_sub: "event_scan S T b ts = (b', keep, woken) \<Longrightarrow> b' AND b = b'"
proof (induction ts arbitrary: b b' keep woken)
  case (Cons t ts)
  show ?case
  proof (cases "sat (S t) (T t) b")
    case True
    then obtain kp w where r: "event_scan S T (consume (S t) (T t) b) ts = (b', kp, w)"
      using Cons.prems by (auto split: prod.splits)
    show ?thesis by (rule and_sub_trans [OF Cons.IH [OF r] consume_sub])
  next
    case False
    with Cons show ?thesis by (auto split: prod.splits)
  qed
qed simp

text \<open>Who goes on waiting is not satisfied by the bits that are left.\<close>

lemma event_scan_keep:
  "event_scan S T b ts = (b', keep, woken) \<Longrightarrow> \<forall>t \<in> set keep. \<not> sat (S t) (T t) b'"
proof (induction ts arbitrary: b b' keep woken)
  case (Cons t ts)
  show ?case
  proof (cases "sat (S t) (T t) b")
    case True
    with Cons show ?thesis by (auto split: prod.splits)
  next
    case False
    then obtain kp where r: "event_scan S T b ts = (b', kp, woken)" "keep = t # kp"
      using Cons.prems by (auto split: prod.splits)
    with sat_mono [OF False event_scan_sub [OF r(1)]] Cons.IH [OF r(1)] show ?thesis by simp
  qed
qed simp

lemma event_scan_parts:
  "event_scan S T b ts = (b', keep, woken) \<Longrightarrow> distinct ts \<Longrightarrow> set keep \<union> fst ` set woken = set ts
     \<and> distinct keep \<and> set keep \<inter> fst ` set woken = {}"
proof (induction ts arbitrary: b b' keep woken)
  case (Cons t ts)
  show ?case
  proof (cases "sat (S t) (T t) b")
    case True
    then obtain w where r: "event_scan S T (consume (S t) (T t) b) ts = (b', keep, w)"
      "woken = (t, received (S t) (T t) b) # w"
      using Cons.prems by (auto split: prod.splits)
    have "set keep \<union> fst ` set w = set ts" "distinct keep" "set keep \<inter> fst ` set w = {}"
      using Cons.IH [OF r(1)] Cons.prems(2) by auto
    moreover from this have "t \<notin> set keep" using Cons.prems(2) by auto
    ultimately show ?thesis using r(2) by auto
  next
    case False
    then obtain kp where r: "event_scan S T b ts = (b', kp, woken)" "keep = t # kp"
      using Cons.prems by (auto split: prod.splits)
    have "set kp \<union> fst ` set woken = set ts" "distinct kp" "set kp \<inter> fst ` set woken = {}"
      using Cons.IH [OF r(1)] Cons.prems(2) by auto
    moreover from this have "t \<notin> set kp" "t \<notin> fst ` set woken" using Cons.prems(2) by auto
    ultimately show ?thesis using r(2) by auto
  qed
qed simp

subsection \<open>Sending\<close>

text \<open>
  What a send may change besides scheduling state: the event's bits and the event sets of threads.
\<close>

definition event_frame :: "kernel \<Rightarrow> kernel \<Rightarrow> bool" where
  "event_frame k k' \<longleftrightarrow>
     kframe (k\<lparr>threads := (\<lambda>u. (threads k u)\<lparr>event_set := event_set (threads k' u)\<rparr>), events := events k'\<rparr>) k'"

lemma event_frame_refl [simp]: "event_frame k k"
  by (simp add: event_frame_def)

lemma thread_same_event:
  "thread_same (a\<lparr>event_set := s0\<rparr>) b \<Longrightarrow> thread_same (a\<lparr>event_set := s\<rparr>) (b\<lparr>event_set := s\<rparr>)"
  by (cases a; cases b) (simp add: thread_same_def)

lemma event_frame_trans:
  assumes a: "event_frame k k'" and c: "event_frame k' k''"
  shows "event_frame k k''"
proof -
  let ?u = "\<lambda>k m. k\<lparr>threads := (\<lambda>u. (threads k u)\<lparr>event_set := event_set (threads m u)\<rparr>), events := events m\<rparr>"
  have "kframe (?u k k'') (?u k' k'')"
    using a unfolding event_frame_def kframe_def is_class_def
    by (cases k; cases k'; cases k'') (auto dest: thread_same_event)
  then show ?thesis using c unfolding event_frame_def by (rule kframe_trans)
qed

lemma kframe_event_frame: "kframe k k' \<Longrightarrow> event_frame k k'"
  using thread_same_fields(4) [OF kframe_parts(1) [of k k']] kframe_fields(8) [of k k']
  by (simp add: event_frame_def)

lemma kinv_events [simp]: "kinv b (k\<lparr>events := x\<rparr>) = kinv b k"
  by (simp add: kinv_def timer_inv_def due_def live_def own_timer_def timers_wait_def tstat_def is_class_def)

text \<open>One satisfied waiter.\<close>

definition event_wake :: "ptr \<Rightarrow> ptr \<Rightarrow> kernel \<Rightarrow> kernel" where
  "event_wake event t k =
     (let th = threads k t; bits = event_bits (events k event) in
      k\<lparr>threads := (threads k)(t := th\<lparr>event_set := received (event_set th) (event_info th) bits\<rparr>),
        events := (events k)(event := (events k event)\<lparr>event_bits := consume (event_set th) (event_info th) bits\<rparr>)\<rparr>)"

lemma event_send_loop_Cons:
  "event_send_loop event (t # ts) ns k =
     (if sat (event_set (threads k t)) (event_info (threads k t)) (event_bits (events k event)) then
        rt_thread_resume t (event_wake event t k) \<bind> (\<lambda>r. event_send_loop event ts True (snd r))
      else event_send_loop event ts ns k)"
  by (auto simp: sat_def event_wake_def received_def consume_def Let_def upd_thread_def upd_event_def fun_upd_idem)

declare event_send_loop.simps(2) [simp del]

lemma event_wake_ok:
  assumes inv: "kinv b k"
  shows "kinv b (event_wake e t k)" and "event_frame k (event_wake e t k)"
proof -
  show "kinv b (event_wake e t k)"
    unfolding event_wake_def Let_def using kinv_upd_thread [OF inv] by simp
  show "event_frame k (event_wake e t k)"
    by (simp add: event_frame_def kframe_def event_wake_def Let_def is_class_def)
qed

lemma event_scan_cong:
  "(\<And>t. t \<in> set ts \<Longrightarrow> S t = S' t \<and> T t = T' t) \<Longrightarrow> event_scan S T b ts = event_scan S' T' b ts"
  by (induction ts arbitrary: b) simp_all

lemma event_frame_fields:
  assumes "event_frame k k'"
  shows "event_info (threads k' u) = event_info (threads k u)"
    "current_priority (threads k' u) = current_priority (threads k u)"
    "thread_timer (threads k' u) = thread_timer (threads k u)"
    "scheduler_lock_nest k' = scheduler_lock_nest k" "is_class k' a c = is_class k a c"
    "is_class k a c \<Longrightarrow> c \<noteq> RT_Object_Class_Timer \<Longrightarrow> objs k' a = objs k a"
proof -
  let ?k = "k\<lparr>threads := (\<lambda>u. (threads k u)\<lparr>event_set := event_set (threads k' u)\<rparr>), events := events k'\<rparr>"
  have f: "kframe ?k k'" using assms by (simp add: event_frame_def)
  show "event_info (threads k' u) = event_info (threads k u)"
    "current_priority (threads k' u) = current_priority (threads k u)"
    "thread_timer (threads k' u) = thread_timer (threads k u)"
    using thread_same_fields(1,5,8) [OF kframe_parts(1) [OF f, of u]] by simp_all
  show "scheduler_lock_nest k' = scheduler_lock_nest k" using kframe_fields(2) [OF f] by simp
  show "is_class k' a c = is_class k a c" using kframe_class [OF f] by (simp add: is_class_def)
  show "is_class k a c \<Longrightarrow> c \<noteq> RT_Object_Class_Timer \<Longrightarrow> objs k' a = objs k a"
    using kframe_obj [OF f, of a c] by (simp add: is_class_def)
qed

text \<open>Waking one satisfied waiter.\<close>

lemma event_wake_resume:
  assumes inv: "kinv b k" and w: "tlists k (Waiters e) = pre @ t # ts"
  shows "\<exists>k2. rt_thread_resume t (event_wake e t k) = Some (RT_EOK, k2) \<and> kinv b k2 \<and> event_frame k k2
     \<and> tlists k2 (Waiters e) = pre @ ts \<and> (\<forall>h. is_wait h \<longrightarrow> h \<noteq> Waiters e \<longrightarrow> tlists k2 h = tlists k h)
     \<and> tstat k2 t \<in> {RT_THREAD_READY, RT_THREAD_RUNNING} \<and> (\<forall>u. u \<noteq> t \<longrightarrow> tstat k2 u = tstat k u)
     \<and> event_set (threads k2 t) = received (event_set (threads k t)) (event_info (threads k t)) (event_bits (events k e))
     \<and> event_bits (events k2 e) = consume (event_set (threads k t)) (event_info (threads k t)) (event_bits (events k e))
     \<and> (\<forall>u. u \<noteq> t \<longrightarrow> event_set (threads k2 u) = event_set (threads k u))
     \<and> (\<forall>x. x \<noteq> e \<longrightarrow> events k2 x = events k x)
     \<and> (\<forall>u. error (threads k2 u) = error (threads k u)) \<and> rt_current_thread k2 = rt_current_thread k"
proof -
  let ?k1 = "event_wake e t k"
  have k1: "kinv b ?k1" "event_frame k ?k1" by (rule event_wake_ok [OF inv])+
  have k1f: "tlists ?k1 = tlists k" "tstat ?k1 u = tstat k u" "rt_current_thread ?k1 = rt_current_thread k"
    "error (threads ?k1 u) = error (threads k u)" for u
    by (simp_all add: event_wake_def Let_def tstat_def)
  have t: "t \<in> set (tlists k (Waiters e))" using w by simp
  have ts: "tstat ?k1 t = RT_THREAD_SUSPEND"
    using waiter_suspended [OF kinvD(1) [OF inv] is_wait_simps(1) t] k1f by simp
  have fam: "list_family (tlists k)" using core_invD(1) [OF sched_inv_core [OF kinvD(1) [OF inv]]] .
  have r: "fam_remove t (tlists k) (Waiters e) = pre @ ts"
    using w list_family_distinct [OF fam, of "Waiters e"] by (simp add: fam_remove_def)
  have o: "fam_remove t (tlists k) h = tlists k h" if "h \<noteq> Waiters e" for h
    using list_family_unique [OF fam t, of h] that by (auto simp: fam_remove_def intro!: removeAll_notin)
  obtain k2 where k2: "rt_thread_resume t ?k1 = Some (RT_EOK, k2)" "kinv b k2" "kframe ?k1 k2"
    "tstat k2 t = (if t = rt_current_thread ?k1 then RT_THREAD_RUNNING else RT_THREAD_READY)"
    "\<forall>u. u \<noteq> t \<longrightarrow> tstat k2 u = tstat ?k1 u"
    "tlists k2 = (if t = rt_current_thread ?k1 then fam_remove t (tlists ?k1)
         else seq_insert_before (Ready (tprio ?k1 t)) t (fam_remove t (tlists ?k1)))"
    "rt_current_thread k2 = rt_current_thread ?k1" "\<forall>u. error (threads k2 u) = error (threads ?k1 u)"
    using resume_ok [OF k1(1) ts] by blast
  have l2: "tlists k2 h = fam_remove t (tlists k) h" if "is_wait h" for h
    using that k2(6) k1f(1) by (auto simp: seq_insert_before_def)
  have es: "event_set (threads k2 u) = event_set (threads ?k1 u)" for u
    using thread_same_fields(4) [OF kframe_parts(1) [OF k2(3), of u]] .
  have ev: "events k2 = events ?k1" by (rule kframe_fields(8) [OF k2(3)])
  have "event_frame k k2" using event_frame_trans [OF k1(2) kframe_event_frame [OF k2(3)]] .
  moreover have "event_set (threads k2 t) = received (event_set (threads k t)) (event_info (threads k t)) (event_bits (events k e))"
    "event_bits (events k2 e) = consume (event_set (threads k t)) (event_info (threads k t)) (event_bits (events k e))"
    "\<forall>u. u \<noteq> t \<longrightarrow> event_set (threads k2 u) = event_set (threads k u)" "\<forall>x. x \<noteq> e \<longrightarrow> events k2 x = events k x"
    unfolding es ev by (simp_all add: event_wake_def Let_def)
  moreover have "tlists k2 (Waiters e) = pre @ ts" "\<forall>h. is_wait h \<longrightarrow> h \<noteq> Waiters e \<longrightarrow> tlists k2 h = tlists k h"
    using l2 r o by simp_all
  ultimately show ?thesis using k2(1,2,4,5,7,8) k1f by auto
qed

text \<open>The walk does what the abstract scan says.\<close>

lemma event_send_loop_ok:
  assumes "kinv b k" "tlists k (Waiters e) = pre @ ts"
    "event_scan (\<lambda>t. event_set (threads k t)) (\<lambda>t. event_info (threads k t)) (event_bits (events k e)) ts = (b', keep, woken)"
  shows "\<exists>k'. event_send_loop e ts ns k = Some (ns \<or> woken \<noteq> [], k') \<and> kinv b k' \<and> event_frame k k'
     \<and> event_bits (events k' e) = b' \<and> tlists k' (Waiters e) = pre @ keep
     \<and> (\<forall>h. is_wait h \<longrightarrow> h \<noteq> Waiters e \<longrightarrow> tlists k' h = tlists k h)
     \<and> (\<forall>t r. (t, r) \<in> set woken \<longrightarrow> event_set (threads k' t) = r \<and> tstat k' t \<in> {RT_THREAD_READY, RT_THREAD_RUNNING})
     \<and> (\<forall>u. u \<notin> fst ` set woken \<longrightarrow> event_set (threads k' u) = event_set (threads k u) \<and> tstat k' u = tstat k u)
     \<and> (\<forall>x. x \<noteq> e \<longrightarrow> events k' x = events k x)
     \<and> (\<forall>u. error (threads k' u) = error (threads k u)) \<and> rt_current_thread k' = rt_current_thread k"
  using assms
proof (induction ts arbitrary: pre ns k b' keep woken)
  case Nil
  then show ?case by simp
next
  case (Cons t ts)
  let ?S = "\<lambda>k t. event_set (threads k t)" and ?T = "\<lambda>k t. event_info (threads k t)"
  have dist: "distinct (pre @ t # ts)"
    using list_family_distinct [OF core_invD(1) [OF sched_inv_core [OF kinvD(1) [OF Cons.prems(1)]]], of "Waiters e"]
      Cons.prems(2) by simp
  show ?case
  proof (cases "sat (?S k t) (?T k t) (event_bits (events k e))")
    case False
    then obtain kp where kp: "event_scan (?S k) (?T k) (event_bits (events k e)) ts = (b', kp, woken)" "keep = t # kp"
      using Cons.prems(3) by (auto split: prod.splits)
    have w: "tlists k (Waiters e) = (pre @ [t]) @ ts" using Cons.prems(2) by simp
    from Cons.IH [OF Cons.prems(1) w kp(1), of ns] False kp(2) show ?thesis
      by (simp add: event_send_loop_Cons)
  next
    case True
    then obtain wk where wk: "event_scan (?S k) (?T k) (consume (?S k t) (?T k t) (event_bits (events k e))) ts = (b', keep, wk)"
      "woken = (t, received (?S k t) (?T k t) (event_bits (events k e))) # wk"
      using Cons.prems(3) by (auto split: prod.splits)
    obtain k2 where k2: "rt_thread_resume t (event_wake e t k) = Some (RT_EOK, k2)" "kinv b k2" "event_frame k k2"
      "tlists k2 (Waiters e) = pre @ ts" "\<forall>h. is_wait h \<longrightarrow> h \<noteq> Waiters e \<longrightarrow> tlists k2 h = tlists k h"
      "tstat k2 t \<in> {RT_THREAD_READY, RT_THREAD_RUNNING}" "\<forall>u. u \<noteq> t \<longrightarrow> tstat k2 u = tstat k u"
      "?S k2 t = received (?S k t) (?T k t) (event_bits (events k e))"
      "event_bits (events k2 e) = consume (?S k t) (?T k t) (event_bits (events k e))"
      "\<forall>u. u \<noteq> t \<longrightarrow> ?S k2 u = ?S k u" "\<forall>x. x \<noteq> e \<longrightarrow> events k2 x = events k x"
      "\<forall>u. error (threads k2 u) = error (threads k u)" "rt_current_thread k2 = rt_current_thread k"
      using event_wake_resume [OF Cons.prems(1,2)] by blast
    have "?S k2 u = ?S k u \<and> ?T k2 u = ?T k u" if "u \<in> set ts" for u
      using k2(10) dist that event_frame_fields(1) [OF k2(3), of u] by auto
    then have "event_scan (?S k2) (?T k2) x ts = event_scan (?S k) (?T k) x ts" for x by (rule event_scan_cong)
    then have "event_scan (?S k2) (?T k2) (event_bits (events k2 e)) ts = (b', keep, wk)"
      using wk(1) k2(9) by simp
    from Cons.IH [OF k2(2,4) this, of True]
    obtain k' where k': "event_send_loop e ts True k2 = Some (True, k')" "kinv b k'" "event_frame k2 k'"
      "event_bits (events k' e) = b'" "tlists k' (Waiters e) = pre @ keep"
      "\<forall>h. is_wait h \<longrightarrow> h \<noteq> Waiters e \<longrightarrow> tlists k' h = tlists k2 h"
      "\<forall>t r. (t, r) \<in> set wk \<longrightarrow> ?S k' t = r \<and> tstat k' t \<in> {RT_THREAD_READY, RT_THREAD_RUNNING}"
      "\<forall>u. u \<notin> fst ` set wk \<longrightarrow> ?S k' u = ?S k2 u \<and> tstat k' u = tstat k2 u"
      "\<forall>x. x \<noteq> e \<longrightarrow> events k' x = events k2 x" "\<forall>u. error (threads k' u) = error (threads k2 u)"
      "rt_current_thread k' = rt_current_thread k2" by auto
    have tw: "t \<notin> fst ` set wk" using event_scan_parts [OF wk(1)] dist by auto
    have l: "event_send_loop e (t # ts) ns k = Some (ns \<or> woken \<noteq> [], k')"
      using True k2(1) k'(1) wk(2) by (simp add: event_send_loop_Cons)
    have a: "\<forall>t r. (t, r) \<in> set woken \<longrightarrow> ?S k' t = r \<and> tstat k' t \<in> {RT_THREAD_READY, RT_THREAD_RUNNING}"
      using k'(7,8) tw k2(6,8) wk(2) by auto
    have c: "\<forall>u. u \<notin> fst ` set woken \<longrightarrow> ?S k' u = ?S k u \<and> tstat k' u = tstat k u"
      using k'(8) k2(7,10) wk(2) by simp
    have f: "event_frame k k'" by (rule event_frame_trans [OF k2(3) k'(3)])
    show ?thesis
      using l k'(2) f k'(4,5) a c k'(6,9,10,11) k2(5,11,12,13) by simp
  qed
qed

subsection \<open>No lost wake-ups\<close>

text \<open>Nobody waits for events that have happened.\<close>

definition event_ok :: "kernel \<Rightarrow> ptr \<Rightarrow> bool" where
  "event_ok k e \<longleftrightarrow> is_class k e RT_Object_Class_Event
     \<and> (flag (objs k e) = RT_IPC_FLAG_FIFO \<or> flag (objs k e) = RT_IPC_FLAG_PRIO)
     \<and> (\<forall>t \<in> set (tlists k (Waiters e)).
          \<not> sat (event_set (threads k t)) (event_info (threads k t)) (event_bits (events k e)))"

lemma woken_schedulable:
  assumes "sched_inv k" "tstat k t \<in> {RT_THREAD_READY, RT_THREAD_RUNNING}"
  shows "tstat k (rt_current_thread k) = RT_THREAD_RUNNING \<or> (\<exists>t. on_ready k t)"
proof (cases "tstat k t = RT_THREAD_READY")
  case True
  then show ?thesis using core_invD(4) [OF sched_inv_core [OF assms(1)], of t] by auto
next
  case False
  then show ?thesis using assms by (auto simp: sched_inv_def)
qed

text \<open>The scan of the waiting threads, before the call of the scheduler: the event keeps its contract.\<close>

lemma event_send_scan:
  assumes inv: "kinv b k" and ok: "event_ok k e"
    and scan: "event_scan (\<lambda>t. event_set (threads k t)) (\<lambda>t. event_info (threads k t))
      (event_bits (events k e) OR evs) (tlists k (Waiters e)) = (b', keep, woken)"
  obtains k2 where "event_send_loop e (tlists k (Waiters e)) False (upd_event e (\<lambda>x. x\<lparr>event_bits := event_bits x OR evs\<rparr>) k) = Some (woken \<noteq> [], k2)"
    "kinv b k2" "event_ok k2 e" "event_bits (events k2 e) = b'" "tlists k2 (Waiters e) = keep"
    "\<forall>t r. (t, r) \<in> set woken \<longrightarrow> event_set (threads k2 t) = r \<and> tstat k2 t \<in> {RT_THREAD_READY, RT_THREAD_RUNNING}"
    "\<forall>u. error (threads k2 u) = error (threads k u)" "rt_current_thread k2 = rt_current_thread k"
    "scheduler_lock_nest k2 = scheduler_lock_nest k"
proof -
  let ?k1 = "upd_event e (\<lambda>x. x\<lparr>event_bits := event_bits x OR evs\<rparr>) k"
  have k1: "kinv b ?k1" "tlists ?k1 = tlists k" "threads ?k1 = threads k" "rt_current_thread ?k1 = rt_current_thread k"
    "event_bits (events ?k1 e) = event_bits (events k e) OR evs" "objs ?k1 = objs k"
    "scheduler_lock_nest ?k1 = scheduler_lock_nest k"
    using inv by (simp_all add: upd_event_def)
  obtain k2 where k2: "event_send_loop e (tlists k (Waiters e)) False ?k1 = Some (woken \<noteq> [], k2)" "kinv b k2"
    "event_frame ?k1 k2" "event_bits (events k2 e) = b'" "tlists k2 (Waiters e) = keep"
    "\<forall>t r. (t, r) \<in> set woken \<longrightarrow> event_set (threads k2 t) = r \<and> tstat k2 t \<in> {RT_THREAD_READY, RT_THREAD_RUNNING}"
    "\<forall>u. u \<notin> fst ` set woken \<longrightarrow> event_set (threads k2 u) = event_set (threads k u)"
    "\<forall>u. error (threads k2 u) = error (threads k u)" "rt_current_thread k2 = rt_current_thread k"
    using event_send_loop_ok [OF k1(1), of e "[]" "tlists k (Waiters e)" b' keep woken False] scan k1 by auto
  have cls: "is_class k e RT_Object_Class_Event" using ok by (simp add: event_ok_def)
  have dist: "distinct (tlists k (Waiters e))"
    using list_family_distinct [OF core_invD(1) [OF sched_inv_core [OF kinvD(1) [OF inv]]]] .
  have ok2: "event_ok k2 e"
  proof -
    have "objs k2 e = objs k e"
      using event_frame_fields(6) [OF k2(3), of e RT_Object_Class_Event] cls k1(6) by (simp add: is_class_def)
    moreover have "\<not> sat (event_set (threads k2 t)) (event_info (threads k2 t)) b'" if "t \<in> set keep" for t
    proof -
      have "t \<notin> fst ` set woken" using event_scan_parts [OF scan dist] that by auto
      then show ?thesis
        using event_scan_keep [OF scan] that k2(7) event_frame_fields(1) [OF k2(3), of t] k1(3) by simp
    qed
    ultimately show ?thesis using ok k2(4,5) by (simp add: event_ok_def is_class_def)
  qed
  show thesis using that [OF k2(1,2) ok2 k2(4-6,8,9)] event_frame_fields(4) [OF k2(3)] k1(7) by simp
qed

text \<open>C8: \<^verbatim>\<open>rt_event_send\<close> wakes exactly the waiters that the abstract scan over the queue wakes, each
  with the events it receives, and keeps the others waiting in order; afterwards nobody waits for
  bits that are set (no lost wake-up), the bits consumed by clearing receivers are gone, and if
  somebody was woken a thread of highest priority runs.\<close>

theorem event_send_refines:
  assumes inv: "kinv b k" and ok: "event_ok k e" and evs: "evs \<noteq> 0" and cur: "rt_current_thread k \<noteq> RT_NULL"
    and scan: "event_scan (\<lambda>t. event_set (threads k t)) (\<lambda>t. event_info (threads k t))
      (event_bits (events k e) OR evs) (tlists k (Waiters e)) = (b', keep, woken)"
  shows "\<exists>k'. rt_event_send e evs k = Some (RT_EOK, k') \<and> kinv b k' \<and> event_ok k' e
     \<and> event_bits (events k' e) = b' \<and> tlists k' (Waiters e) = keep
     \<and> (\<forall>t r. (t, r) \<in> set woken \<longrightarrow> tstat k' t \<in> {RT_THREAD_READY, RT_THREAD_RUNNING}
          \<and> (error (threads k t) = RT_EOK \<longrightarrow> rt_event_recv_resume t True k' = (RT_EOK, Some r)))
     \<and> (woken \<noteq> [] \<and> scheduler_lock_nest k = 0 \<longrightarrow> top_running k')"
proof -
  obtain k2 where k2: "event_send_loop e (tlists k (Waiters e)) False (upd_event e (\<lambda>x. x\<lparr>event_bits := event_bits x OR evs\<rparr>) k) = Some (woken \<noteq> [], k2)"
    "kinv b k2" "event_ok k2 e" "event_bits (events k2 e) = b'" "tlists k2 (Waiters e) = keep"
    "\<forall>t r. (t, r) \<in> set woken \<longrightarrow> event_set (threads k2 t) = r \<and> tstat k2 t \<in> {RT_THREAD_READY, RT_THREAD_RUNNING}"
    "\<forall>u. error (threads k2 u) = error (threads k u)" "rt_current_thread k2 = rt_current_thread k"
    "scheduler_lock_nest k2 = scheduler_lock_nest k"
    by (rule event_send_scan [OF inv ok scan])
  have cls: "is_class k e RT_Object_Class_Event" using ok by (simp add: event_ok_def)
  have send: "rt_event_send e evs k = Some (RT_EOK, k')"
    if "(if woken \<noteq> [] then rt_schedule k2 else Some k2) = Some k'" for k'
    using cls evs k2(1) that by (simp add: rt_event_send_def is_class_def upd_event_def Let_def)
  show ?thesis
  proof (cases "woken = []")
    case True
    with send k2 show ?thesis by auto
  next
    case False
    then obtain t r where tr: "(t, r) \<in> set woken" by (cases woken) auto
    obtain k' where k': "rt_schedule k2 = Some k'" "kinv b k'" "kframe k2 k'" "stat_moves k2 k'"
      "scheduler_lock_nest k2 = 0 \<and>
        (tstat k2 (rt_current_thread k2) = RT_THREAD_RUNNING \<or> (\<exists>t. on_ready k2 t)) \<longrightarrow> top_running k'"
      "\<forall>x. tlists k' (Waiters x) = tlists k2 (Waiters x) \<and> tlists k' (Senders x) = tlists k2 (Senders x)"
      "\<forall>t. error (threads k' t) = error (threads k2 t)" "objs k' = objs k2"
      using kinv_schedule [OF k2(2)] k2(8) cur by auto
    have same: "event_set (threads k' t) = event_set (threads k2 t)" "event_info (threads k' t) = event_info (threads k2 t)"
      "events k' = events k2" for t
      using thread_same_fields(4,5) [OF kframe_parts(1) [OF k'(3), of t]] kframe_fields(8) [OF k'(3)] by auto
    have "event_ok k' e" using k2(3) k'(6,8) same by (simp add: event_ok_def is_class_def)
    moreover have "tstat k' t \<in> {RT_THREAD_READY, RT_THREAD_RUNNING}"
      if "(t, r) \<in> set woken" for t r
    proof -
      have "tstat k2 t \<in> {RT_THREAD_READY, RT_THREAD_RUNNING}" using k2(6) that by blast
      then show ?thesis using stat_moves_moved [OF k'(4), of t] by (auto simp: stat_moved_def)
    qed
    moreover have "rt_event_recv_resume t True k' = (RT_EOK, Some r)"
      if "(t, r) \<in> set woken" "error (threads k t) = RT_EOK" for t r
      using k2(6,7) k'(7) same(1) that by (simp add: rt_event_recv_resume_def)
    moreover have "scheduler_lock_nest k = 0 \<longrightarrow> top_running k'"
      using k'(5) woken_schedulable [OF kinvD(1) [OF k2(2)], of t] k2(6,9) tr by auto
    ultimately show ?thesis
      using send False k'(1,2,6) k2(4,5) same(3) by (intro exI [of _ k']) simp
  qed
qed

lemma demo_event_ok: "event_ok demo 41" "events demo 41 = \<lparr>event_bits = 1\<rparr>" "flag (objs demo 41) = 0"
proof -
  show b: "events demo 41 = \<lparr>event_bits = 1\<rparr>" "flag (objs demo 41) = 0" by (simp_all add: demo_def ex_obj_def)
  have "is_class demo 41 RT_Object_Class_Event" by (simp add: is_class_def demo_def ex_obj_def)
  then show "event_ok demo 41" using b by (simp add: event_ok_def sat_def)
qed

theorem event_send_refines_witness:
  "\<exists>k'. rt_event_send 41 2 demo = Some (RT_EOK, k') \<and> event_bits (events k' 41) = 0
     \<and> rt_event_recv_resume 6 True k' = (RT_EOK, Some 3)"
proof -
  have scan: "event_scan (\<lambda>t. event_set (threads demo t)) (\<lambda>t. event_info (threads demo t))
      (event_bits (events demo 41) OR 2) (tlists demo (Waiters 41)) = (0, [], [(6, 3)])"
    by (simp add: demo_event_ok sat_def consume_def received_def)
  show ?thesis
    using event_send_refines [OF demo_kinv demo_event_ok(1) _ _ scan] by auto
qed

subsection \<open>Receiving\<close>

lemma event_recv_eq:
  assumes cls: "is_class k e RT_Object_Class_Event" and evs: "evs \<noteq> 0"
    and c: "c = rt_current_thread k" "c \<noteq> RT_NULL" "interrupt_nest k = 0"
    and opt: "opt AND RT_EVENT_FLAG_AND \<noteq> 0 \<or> opt AND RT_EVENT_FLAG_OR \<noteq> 0"
  shows "rt_event_recv e evs opt timeout True k =
      (let k1 = reset_error c k; bits = event_bits (events k e) in
       if sat evs opt bits then
         (let k' = (if opt AND RT_EVENT_FLAG_CLEAR \<noteq> 0
                   then upd_event e (\<lambda>e. e\<lparr>event_bits := event_bits e AND NOT evs\<rparr>) k1 else k1)
          in Some (Done (error (threads k' c)), Some (bits AND evs), k'))
       else if timeout = 0 then
         (let k' = upd_thread c (\<lambda>th. th\<lparr>error := - RT_ETIMEOUT\<rparr>) k1
          in Some (Done (error (threads k' c)), None, k'))
       else do {
         let k = upd_thread c (\<lambda>th. th\<lparr>event_set := evs, event_info := opt\<rparr>) k1;
         k \<leftarrow> ipc_wait (Waiters e) (flag (objs k e)) timeout k;
         k \<leftarrow> rt_schedule k;
         Some (Blocked, None, k)
       })"
proof -
  let ?bits = "event_bits (events k e)"
  have self: "rt_thread_self k = c" using c(1) by (simp add: rt_thread_self_def)
  have s: "(if opt AND RT_EVENT_FLAG_AND \<noteq> 0 then Some (event_bits (events (reset_error c k) e) AND evs = evs)
      else if opt AND RT_EVENT_FLAG_OR \<noteq> 0 then Some (event_bits (events (reset_error c k) e) AND evs \<noteq> 0) else None)
      = Some (sat evs opt ?bits)"
    using opt by (auto simp: sat_def and.commute)
  show ?thesis
    using cls evs c unfolding rt_event_recv_def self Let_def s
    by (simp add: RT_DEBUG_IN_THREAD_CONTEXT_def RT_DEBUG_NOT_IN_INTERRUPT_def is_class_def)
qed

lemma event_ok_thread:
  assumes "event_ok k e" "tlists k' = tlists k" "objs k' = objs k" "event_bits (events k' e) AND event_bits (events k e) = event_bits (events k' e)"
    "\<And>t. event_set (threads k' t) = event_set (threads k t) \<and> event_info (threads k' t) = event_info (threads k t)"
  shows "event_ok k' e"
  using assms sat_mono [OF _ assms(4)] by (simp add: event_ok_def is_class_def)

lemma consume_received:
  assumes "sat s opt bits"
  shows "received s opt bits = bits AND s" "opt AND RT_EVENT_FLAG_CLEAR \<noteq> 0 \<Longrightarrow> consume s opt bits = bits AND NOT s"
proof -
  have n: "bits AND NOT (s AND bits) = bits AND NOT s" by (rule bit_word_eqI) (auto simp: bit_simps)
  show "received s opt bits = bits AND s" using assms by (auto simp: received_def sat_def and.commute)
  show "consume s opt bits = bits AND NOT s" if "opt AND RT_EVENT_FLAG_CLEAR \<noteq> 0"
    using that n by (simp add: consume_def received_def)
qed

lemma event_recv_blocks:
  assumes inv: "kinv b k" and ok: "event_ok k e"
    and c: "c = rt_current_thread k" "tstat k c = RT_THREAD_RUNNING"
    and ns: "\<not> sat evs opt (event_bits (events k e))" and time: "wait_time_ok timeout"
    and k1: "k1 = upd_thread c (\<lambda>th. th\<lparr>event_set := evs, event_info := opt\<rparr>) (reset_error c k)"
  shows "\<exists>k2 k'. ipc_wait (Waiters e) (flag (objs k1 e)) timeout k1 = Some k2 \<and> rt_schedule k2 = Some k'
     \<and> kinv b k' \<and> event_ok k' e \<and> events k' = events k \<and> tstat k' c = RT_THREAD_SUSPEND
     \<and> tlists k' (Waiters e) = enqueue (flag (objs k e)) (\<lambda>t. current_priority (threads k t)) c (tlists k (Waiters e))
     \<and> event_set (threads k' c) = evs \<and> event_info (threads k' c) = opt
     \<and> (0 < sint timeout \<longrightarrow> thread_timer (threads k c) \<in> set (timer_list k')
          \<and> timeout_tick (timers k' (thread_timer (threads k c))) = rt_tick k + timeout)"
proof -
  have i0: "kinv b (reset_error c k)" by (rule kinv_error(1) [OF inv])
  have i1: "kinv b k1" unfolding k1 upd_thread_def [of c "\<lambda>th. th\<lparr>event_set := evs, event_info := opt\<rparr>"]
    by (rule kinv_upd_thread [OF i0]) simp_all
  have f: "rt_current_thread k1 = rt_current_thread k" "tstat k1 u = tstat k u" "objs k1 = objs k" "events k1 = events k"
    "tlists k1 = tlists k" "current_priority (threads k1 u) = current_priority (threads k u)"
    "thread_timer (threads k1 u) = thread_timer (threads k u)" "rt_tick k1 = rt_tick k"
    "event_set (threads k1 u) = (if u = c then evs else event_set (threads k u))"
    "event_info (threads k1 u) = (if u = c then opt else event_info (threads k u))" for u
    by (simp_all add: k1, simp_all add: upd_thread_def tstat_def)
  have fl: "flag (objs k e) = RT_IPC_FLAG_FIFO \<or> flag (objs k e) = RT_IPC_FLAG_PRIO" using ok by (simp add: event_ok_def)
  have run: "c = rt_current_thread k1" "tstat k1 c = RT_THREAD_RUNNING" using c by (simp_all add: f)
  obtain k2 k' where k': "ipc_wait (Waiters e) (flag (objs k e)) timeout k1 = Some k2" "rt_schedule k2 = Some k'"
    "kinv b k'" "kframe k1 k'" "tstat k' c = RT_THREAD_SUSPEND"
    "tlists k' (Waiters e) = enqueue (flag (objs k e)) (\<lambda>t. current_priority (threads k t)) c (tlists k (Waiters e))"
    "if 0 < sint timeout then thread_timer (threads k c) \<in> set (timer_list k')
            \<and> timeout_tick (timers k' (thread_timer (threads k c))) = rt_tick k + timeout
        else timer_list k' = timer_list k1 \<and> timers k' = timers k1"
    using ipc_block_ok [OF i1 run is_wait_simps(1) fl time] unfolding f by blast
  have g: "event_set (threads k' u) = event_set (threads k1 u)" "event_info (threads k' u) = event_info (threads k1 u)"
    "events k' = events k" "objs k' e = objs k e" for u
    using thread_same_fields(4,5) [OF kframe_parts(1) [OF k'(4), of u]] kframe_fields(8) [OF k'(4)]
      kframe_obj [OF k'(4), of e RT_Object_Class_Event] ok f by (auto simp: event_ok_def is_class_def)
  have "event_ok k' e"
    using ok ns by (auto simp: event_ok_def is_class_def g f k'(6) set_enqueue)
  then show ?thesis using k' g f by (intro exI [of _ k2] exI [of _ k']) (simp split: if_splits)
qed

text \<open>C9: \<^verbatim>\<open>rt_event_recv\<close> by the running thread: if the wanted events are there it returns them at
  once, clearing them when asked to; otherwise it waits in the queue with its wish recorded and
  the timer armed for a finite limit, or returns \<^verbatim>\<open>-RT_ETIMEOUT\<close> if it may not wait. It never waits
  for events that are already set.\<close>

theorem event_recv_spec:
  assumes inv: "kinv b k" and ok: "event_ok k e" and evs: "evs \<noteq> 0"
    and c: "c = rt_current_thread k" "tstat k c = RT_THREAD_RUNNING" "interrupt_nest k = 0"
    and opt: "opt AND RT_EVENT_FLAG_AND \<noteq> 0 \<or> opt AND RT_EVENT_FLAG_OR \<noteq> 0"
    and time: "timeout = 0 \<or> wait_time_ok timeout"
  shows "\<exists>out r k'. rt_event_recv e evs opt timeout True k = Some (out, r, k') \<and> kinv b k' \<and> event_ok k' e
     \<and> (if sat evs opt (event_bits (events k e)) then
          out = Done RT_EOK \<and> r = Some (received evs opt (event_bits (events k e)))
          \<and> event_bits (events k' e) = consume evs opt (event_bits (events k e))
        else if timeout = 0 then out = Done (- RT_ETIMEOUT) \<and> r = None \<and> events k' = events k
        else out = Blocked \<and> events k' = events k \<and> tstat k' c = RT_THREAD_SUSPEND
          \<and> tlists k' (Waiters e) = enqueue (flag (objs k e)) (\<lambda>t. current_priority (threads k t)) c (tlists k (Waiters e))
          \<and> event_set (threads k' c) = evs \<and> event_info (threads k' c) = opt
          \<and> (0 < sint timeout \<longrightarrow> thread_timer (threads k c) \<in> set (timer_list k')
               \<and> timeout_tick (timers k' (thread_timer (threads k c))) = rt_tick k + timeout))"
proof -
  let ?bits = "event_bits (events k e)"
  have c0: "c \<noteq> RT_NULL" by (rule running_not_null [OF inv c(2)])
  have cls: "is_class k e RT_Object_Class_Event" using ok by (auto simp: event_ok_def)
  note recv = event_recv_eq [OF cls evs c(1) c0 c(3) opt, of timeout]
  consider (now) "sat evs opt ?bits" | (poll) "\<not> sat evs opt ?bits" "timeout = 0"
    | (block) "\<not> sat evs opt ?bits" "timeout \<noteq> 0" by blast
  then show ?thesis
  proof cases
    case now
    let ?k' = "if opt AND RT_EVENT_FLAG_CLEAR \<noteq> 0
      then upd_event e (\<lambda>e. e\<lparr>event_bits := event_bits e AND NOT evs\<rparr>) (reset_error c k) else reset_error c k"
    have bits: "event_bits (events ?k' e) = consume evs opt ?bits"
      using consume_received(2) [OF now] by (auto simp: upd_event_def consume_def)
    have "event_ok ?k' e"
      by (rule event_ok_thread [OF ok])
        (use consume_sub [of evs opt ?bits] bits in \<open>auto simp: upd_event_def upd_thread_def\<close>)
    moreover have "kinv b ?k'" using kinv_error(1) [OF inv] by (simp add: upd_event_def)
    moreover have "error (threads ?k' c) = RT_EOK" by (simp add: upd_event_def upd_thread_def)
    ultimately show ?thesis using now recv bits consume_received(1) [OF now] by (simp add: Let_def)
  next
    case poll
    let ?k' = "upd_thread c (\<lambda>th. th\<lparr>error := - RT_ETIMEOUT\<rparr>) (reset_error c k)"
    have "kinv b ?k'" by (rule kinv_error(1) [OF kinv_error(1) [OF inv]])
    moreover have "event_ok ?k' e" by (rule event_ok_thread [OF ok]) (simp_all, simp add: upd_thread_def)
    moreover have "error (threads ?k' c) = - RT_ETIMEOUT" by (simp add: upd_thread_def)
    ultimately show ?thesis using poll recv by (simp add: Let_def)
  next
    case block
    then have t: "wait_time_ok timeout" using time by simp
    show ?thesis using event_recv_blocks [OF inv ok c(1,2) block(1) t refl] recv block by (auto simp: Let_def)
  qed
qed

theorem event_recv_spec_witness:
  "(\<exists>r k'. rt_event_recv 41 1 6 0 True demo = Some (Done RT_EOK, r, k') \<and> r = Some 1 \<and> event_bits (events k' 41) = 0)
   \<and> (\<exists>r k'. rt_event_recv 41 2 2 9 True demo = Some (Blocked, r, k') \<and> tlists k' (Waiters 41) = [6, 1])"
proof
  show "\<exists>r k'. rt_event_recv 41 1 6 0 True demo = Some (Done RT_EOK, r, k') \<and> r = Some 1 \<and> event_bits (events k' 41) = 0"
    using event_recv_spec [OF demo_kinv demo_event_ok(1), of 1 1 6 0]
    by (auto simp: demo_stat demo_event_ok sat_def consume_def received_def)
  show "\<exists>r k'. rt_event_recv 41 2 2 9 True demo = Some (Blocked, r, k') \<and> tlists k' (Waiters 41) = [6, 1]"
    using event_recv_spec [OF demo_kinv demo_event_ok(1), of 2 1 2 9]
    by (auto simp: demo_stat demo_event_ok sat_def wait_time_ok_def enqueue_def)
qed

end
