(* ===== verification/RT_Fifo.thy ===== *)
theory RT_Fifo
  imports RT_Prelude
begin

text \<open>
  The contract of a bounded first-in-first-out buffer, which mailboxes, message queues and ring
  buffers provide to the threads that communicate through them: a put succeeds exactly while
  there is room, a get exactly while there is content, in order. What clients rely on is proved
  here once: over any history of puts and gets, what went in comes out, in order, nothing lost
  and nothing duplicated.
\<close>

datatype 'a fifo_op = Put 'a | Get

text \<open>A history: what was accepted, what was received, and the final state.\<close>

fun fifo_run :: "('a \<Rightarrow> 's \<Rightarrow> (bool \<times> 's) option) \<Rightarrow> ('s \<Rightarrow> ('a option \<times> 's) option)
     \<Rightarrow> 'a fifo_op list \<Rightarrow> 's \<Rightarrow> ('a list \<times> 'a list \<times> 's) option" where
  "fifo_run put get [] s = Some ([], [], s)"
| "fifo_run put get (Put x # ops) s = do {
     (ok, s) \<leftarrow> put x s;
     (acc, rec, s) \<leftarrow> fifo_run put get ops s;
     Some (if ok then x # acc else acc, rec, s)
   }"
| "fifo_run put get (Get # ops) s = do {
     (r, s) \<leftarrow> get s;
     (acc, rec, s) \<leftarrow> fifo_run put get ops s;
     Some (acc, (case r of None \<Rightarrow> rec | Some y \<Rightarrow> y # rec), s)
   }"

locale bounded_fifo =
  fixes inv :: "'s \<Rightarrow> bool" and cap :: "'s \<Rightarrow> nat" and content :: "'s \<Rightarrow> 'a list"
    and put :: "'a \<Rightarrow> 's \<Rightarrow> (bool \<times> 's) option" and get :: "'s \<Rightarrow> ('a option \<times> 's) option"
  assumes bounded: "inv s \<Longrightarrow> length (content s) \<le> cap s"
    and put_room: "inv s \<Longrightarrow> length (content s) < cap s \<Longrightarrow>
      \<exists>s'. put x s = Some (True, s') \<and> inv s' \<and> cap s' = cap s \<and> content s' = content s @ [x]"
    and put_full: "inv s \<Longrightarrow> length (content s) = cap s \<Longrightarrow>
      \<exists>s'. put x s = Some (False, s') \<and> inv s' \<and> cap s' = cap s \<and> content s' = content s"
    and get_item: "inv s \<Longrightarrow> content s = y # ys \<Longrightarrow>
      \<exists>s'. get s = Some (Some y, s') \<and> inv s' \<and> cap s' = cap s \<and> content s' = ys"
    and get_empty: "inv s \<Longrightarrow> content s = [] \<Longrightarrow>
      \<exists>s'. get s = Some (None, s') \<and> inv s' \<and> cap s' = cap s \<and> content s' = []"
begin

lemma put_cases:
  assumes "inv s"
  shows "\<exists>s'. put x s = Some (length (content s) < cap s, s') \<and> inv s' \<and> cap s' = cap s
     \<and> content s' = (if length (content s) < cap s then content s @ [x] else content s)"
  using bounded [OF assms] put_room [OF assms] put_full [OF assms]
  by (cases "length (content s) < cap s") auto

lemma get_cases:
  assumes "inv s"
  shows "\<exists>r s'. get s = Some (r, s') \<and> inv s' \<and> cap s' = cap s
     \<and> content s = (case r of None \<Rightarrow> [] | Some y \<Rightarrow> y # content s') \<and> (r = None \<longrightarrow> content s' = [])"
  using get_item [OF assms] get_empty [OF assms] by (cases "content s") auto

lemma fifo_history:
  assumes "inv s"
  shows "\<exists>acc rec s'. fifo_run put get ops s = Some (acc, rec, s') \<and> inv s' \<and> cap s' = cap s
     \<and> content s @ acc = rec @ content s'"
  using assms
proof (induction ops arbitrary: s)
  case (Cons c ops)
  show ?case
  proof (cases c)
    case (Put x)
    obtain s1 where s1: "put x s = Some (length (content s) < cap s, s1)" "inv s1" "cap s1 = cap s"
      "content s1 = (if length (content s) < cap s then content s @ [x] else content s)"
      using put_cases [OF Cons.prems] by blast
    with Cons.IH [OF s1(2)] Put show ?thesis by (auto split: if_splits)
  next
    case Get
    obtain r s1 where s1: "get s = Some (r, s1)" "inv s1" "cap s1 = cap s"
      "content s = (case r of None \<Rightarrow> [] | Some y \<Rightarrow> y # content s1)" "r = None \<longrightarrow> content s1 = []"
      using get_cases [OF Cons.prems] by blast
    with Cons.IH [OF s1(2)] Get show ?thesis by (auto split: option.splits)
  qed
qed simp

end

end
