(* ===== verification/RT_Mailbox.thy ===== *)
theory RT_Mailbox
  imports RT_Example RT_Fifo
begin

text \<open>
  Mailboxes (\<^verbatim>\<open>rt_mb_*\<close> of \<^verbatim>\<open>src/ipc.c\<close>): a ring of machine words with two wait lists, one of
  receivers (\<^verbatim>\<open>parent.suspend_thread\<close>) and one of senders. The ring is read as the list of its
  mails, and both operations refine a bounded queue.

  A call that has to wait ends in \<open>Blocked\<close>; the loop of the C function goes on in \<open>_resume\<close> when
  the thread runs again, with the local variables \<^verbatim>\<open>timeout\<close> and \<^verbatim>\<open>tick_delta\<close> (the tick at which
  the wait began) as arguments.
\<close>

subsection \<open>Operations\<close>

definition rt_mb_init :: "ptr \<Rightarrow> string \<Rightarrow> ptr \<Rightarrow> u32 \<Rightarrow> u8 \<Rightarrow> kernel \<Rightarrow> (err \<times> kernel) option" where
  "rt_mb_init mb nm msgpool sz fl k = do {
     RT_ASSERT (mb \<noteq> RT_NULL);
     k \<leftarrow> rt_object_init mb RT_Object_Class_MailBox nm k;
     let k = upd_obj mb (\<lambda>ob. ob\<lparr>flag := fl\<rparr>) k;
     k \<leftarrow> rt_ipc_object_init mb k;
     let k = upd_mb mb (\<lambda>_. \<lparr>mb_pool = msgpool, mb_size = ucast sz, mb_entry = 0, in_offset = 0, out_offset = 0\<rparr>) k;
     C_GUARD (tlist_isempty (Senders mb) k);
     Some (RT_EOK, tlist_init (Senders mb) k)
   }"

definition rt_mb_detach :: "ptr \<Rightarrow> kernel \<Rightarrow> (err \<times> kernel) option" where
  "rt_mb_detach mb k = do {
     RT_ASSERT (mb \<noteq> RT_NULL);
     ASSERT_TYPE mb RT_Object_Class_MailBox k;
     ASSERT_SYSTEM mb True k;
     k \<leftarrow> rt_ipc_list_resume_all (Waiters mb) k;
     k \<leftarrow> rt_ipc_list_resume_all (Senders mb) k;
     k \<leftarrow> rt_object_detach mb k;
     Some (RT_EOK, k)
   }"

definition rt_mb_create ::
  "(u32 \<Rightarrow> kernel \<Rightarrow> ptr \<times> kernel) \<Rightarrow> (ptr \<Rightarrow> kernel \<Rightarrow> kernel) \<Rightarrow> (u8 \<Rightarrow> u32) \<Rightarrow> string \<Rightarrow> u32 \<Rightarrow> u8 \<Rightarrow> kernel
     \<Rightarrow> (ptr \<times> kernel) option" where
  "rt_mb_create malloc free size_of nm sz fl k = do {
     RT_DEBUG_NOT_IN_INTERRUPT k;
     (mb, k) \<leftarrow> rt_object_allocate malloc size_of RT_Object_Class_MailBox nm k;
     if mb = RT_NULL then Some (mb, k)
     else do {
       let k = upd_obj mb (\<lambda>ob. ob\<lparr>flag := fl\<rparr>) k;
       k \<leftarrow> rt_ipc_object_init mb k;
       let k = upd_mb mb (\<lambda>m. m\<lparr>mb_size := ucast sz\<rparr>) k;
       let (pool, k) = malloc (ucast (mb_size (mailboxes k mb)) * 4) k;
       let k = upd_mb mb (\<lambda>m. m\<lparr>mb_pool := pool\<rparr>) k;
       if pool = RT_NULL then do {
         k \<leftarrow> rt_object_delete free mb k;
         Some (RT_NULL, k)
       }
       else do {
         let k = upd_mb mb (\<lambda>m. m\<lparr>mb_entry := 0, in_offset := 0, out_offset := 0\<rparr>) k;
         C_GUARD (tlist_isempty (Senders mb) k);
         Some (mb, tlist_init (Senders mb) k)
       }
     }
   }"

definition rt_mb_delete :: "(ptr \<Rightarrow> kernel \<Rightarrow> kernel) \<Rightarrow> ptr \<Rightarrow> kernel \<Rightarrow> (err \<times> kernel) option" where
  "rt_mb_delete free mb k = do {
     RT_DEBUG_NOT_IN_INTERRUPT k;
     RT_ASSERT (mb \<noteq> RT_NULL);
     ASSERT_TYPE mb RT_Object_Class_MailBox k;
     ASSERT_SYSTEM mb False k;
     k \<leftarrow> rt_ipc_list_resume_all (Waiters mb) k;
     k \<leftarrow> rt_ipc_list_resume_all (Senders mb) k;
     let k = free (mb_pool (mailboxes k mb)) k;
     k \<leftarrow> rt_object_delete free mb k;
     Some (RT_EOK, k)
   }"

text \<open>The accesses to the ring: \<^verbatim>\<open>msg_pool[offset]\<close> is the word \<open>4 * offset\<close> bytes into the pool.\<close>

definition mb_put :: "ptr \<Rightarrow> ptr \<Rightarrow> kernel \<Rightarrow> kernel" where
  "mb_put mb v k =
     (let m = mailboxes k mb;
          k = k\<lparr>pmem := (pmem k)(mb_pool m + 4 * unat (in_offset m) := v)\<rparr>;
          k = upd_mb mb (\<lambda>m. m\<lparr>in_offset := in_offset m + 1\<rparr>) k;
          k = (if mb_size (mailboxes k mb) \<le> in_offset (mailboxes k mb)
               then upd_mb mb (\<lambda>m. m\<lparr>in_offset := 0\<rparr>) k else k)
      in upd_mb mb (\<lambda>m. m\<lparr>mb_entry := mb_entry m + 1\<rparr>) k)"

definition mb_get :: "ptr \<Rightarrow> kernel \<Rightarrow> ptr \<times> kernel" where
  "mb_get mb k =
     (let m = mailboxes k mb;
          v = pmem k (mb_pool m + 4 * unat (out_offset m));
          k = upd_mb mb (\<lambda>m. m\<lparr>out_offset := out_offset m + 1\<rparr>) k;
          k = (if mb_size (mailboxes k mb) \<le> out_offset (mailboxes k mb)
               then upd_mb mb (\<lambda>m. m\<lparr>out_offset := 0\<rparr>) k else k)
      in (v, upd_mb mb (\<lambda>m. m\<lparr>mb_entry := mb_entry m - 1\<rparr>) k))"

text \<open>From the test of the loop on; the loop is left or the thread waits.\<close>

definition mb_send_loop :: "ptr \<Rightarrow> ptr \<Rightarrow> 32 word \<Rightarrow> kernel \<Rightarrow> (outcome \<times> kernel) option" where
  "mb_send_loop mb v timeout k = do {
     let thread = rt_thread_self k;
     if mb_entry (mailboxes k mb) = mb_size (mailboxes k mb) then do {
       C_GUARD (thread \<noteq> RT_NULL);
       let k = upd_thread thread (\<lambda>th. th\<lparr>error := RT_EOK\<rparr>) k;
       if timeout = 0 then Some (Done (- RT_EFULL), k)
       else do {
         RT_DEBUG_IN_THREAD_CONTEXT k;
         k \<leftarrow> ipc_wait (Senders mb) (flag (objs k mb)) timeout k;
         k \<leftarrow> rt_schedule k;
         Some (Blocked, k)
       }
     }
     else do {
       let k = mb_put mb v k;
       if \<not> tlist_isempty (Waiters mb) k then do {
         k \<leftarrow> rt_ipc_list_resume (Waiters mb) k;
         k \<leftarrow> rt_schedule k;
         Some (Done RT_EOK, k)
       }
       else Some (Done RT_EOK, k)
     }
   }"

definition rt_mb_send_wait :: "ptr \<Rightarrow> ptr \<Rightarrow> 32 word \<Rightarrow> kernel \<Rightarrow> (outcome \<times> kernel) option" where
  "rt_mb_send_wait mb v timeout k = do {
     RT_ASSERT (mb \<noteq> RT_NULL);
     ASSERT_TYPE mb RT_Object_Class_MailBox k;
     if mb_entry (mailboxes k mb) = mb_size (mailboxes k mb) \<and> timeout = 0 then Some (Done (- RT_EFULL), k)
     else mb_send_loop mb v timeout k
   }"

definition rt_mb_send_wait_resume :: "ptr \<Rightarrow> ptr \<Rightarrow> 32 word \<Rightarrow> u32 \<Rightarrow> kernel \<Rightarrow> (outcome \<times> kernel) option" where
  "rt_mb_send_wait_resume mb v timeout tick_delta k =
     (let e = error (threads k (rt_thread_self k)) in
      if e \<noteq> RT_EOK then Some (Done e, k)
      else mb_send_loop mb v (time_left timeout tick_delta (rt_tick_get k)) k)"

definition rt_mb_send :: "ptr \<Rightarrow> ptr \<Rightarrow> kernel \<Rightarrow> (outcome \<times> kernel) option" where
  "rt_mb_send mb v k = rt_mb_send_wait mb v 0 k"

text \<open>The second component of the result is what is stored through \<^verbatim>\<open>value\<close>.\<close>

definition mb_recv_loop :: "ptr \<Rightarrow> 32 word \<Rightarrow> kernel \<Rightarrow> (outcome \<times> ptr option \<times> kernel) option" where
  "mb_recv_loop mb timeout k = do {
     let thread = rt_thread_self k;
     if mb_entry (mailboxes k mb) = 0 then do {
       C_GUARD (thread \<noteq> RT_NULL);
       let k = upd_thread thread (\<lambda>th. th\<lparr>error := RT_EOK\<rparr>) k;
       if timeout = 0 then
         Some (Done (- RT_ETIMEOUT), None, upd_thread thread (\<lambda>th. th\<lparr>error := - RT_ETIMEOUT\<rparr>) k)
       else do {
         RT_DEBUG_IN_THREAD_CONTEXT k;
         k \<leftarrow> ipc_wait (Waiters mb) (flag (objs k mb)) timeout k;
         k \<leftarrow> rt_schedule k;
         Some (Blocked, None, k)
       }
     }
     else do {
       let (v, k) = mb_get mb k;
       if \<not> tlist_isempty (Senders mb) k then do {
         k \<leftarrow> rt_ipc_list_resume (Senders mb) k;
         k \<leftarrow> rt_schedule k;
         Some (Done RT_EOK, Some v, k)
       }
       else Some (Done RT_EOK, Some v, k)
     }
   }"

definition rt_mb_recv :: "ptr \<Rightarrow> 32 word \<Rightarrow> kernel \<Rightarrow> (outcome \<times> ptr option \<times> kernel) option" where
  "rt_mb_recv mb timeout k = do {
     RT_ASSERT (mb \<noteq> RT_NULL);
     ASSERT_TYPE mb RT_Object_Class_MailBox k;
     if mb_entry (mailboxes k mb) = 0 \<and> timeout = 0 then Some (Done (- RT_ETIMEOUT), None, k)
     else mb_recv_loop mb timeout k
   }"

definition rt_mb_recv_resume :: "ptr \<Rightarrow> 32 word \<Rightarrow> u32 \<Rightarrow> kernel \<Rightarrow> (outcome \<times> ptr option \<times> kernel) option" where
  "rt_mb_recv_resume mb timeout tick_delta k =
     (let e = error (threads k (rt_thread_self k)) in
      if e \<noteq> RT_EOK then Some (Done e, None, k)
      else mb_recv_loop mb (time_left timeout tick_delta (rt_tick_get k)) k)"

definition rt_mb_control :: "ptr \<Rightarrow> int \<Rightarrow> kernel \<Rightarrow> (err \<times> kernel) option" where
  "rt_mb_control mb cmd k = do {
     RT_ASSERT (mb \<noteq> RT_NULL);
     ASSERT_TYPE mb RT_Object_Class_MailBox k;
     if cmd = RT_IPC_CMD_RESET then do {
       k \<leftarrow> rt_ipc_list_resume_all (Waiters mb) k;
       k \<leftarrow> rt_ipc_list_resume_all (Senders mb) k;
       let k = upd_mb mb (\<lambda>m. m\<lparr>mb_entry := 0, in_offset := 0, out_offset := 0\<rparr>) k;
       k \<leftarrow> rt_schedule k;
       Some (RT_EOK, k)
     }
     else Some (- RT_ERROR, k)
   }"

subsection \<open>The ring as a list of mails\<close>

definition mails :: "kernel \<Rightarrow> ptr \<Rightarrow> ptr list" where
  "mails k mb = (let m = mailboxes k mb in
     map (\<lambda>i. pmem k (mb_pool m + 4 * ((unat (out_offset m) + i) mod unat (mb_size m)))) [0..<unat (mb_entry m)])"

definition ring_ok :: "rt_mailbox \<Rightarrow> bool" where
  "ring_ok m \<longleftrightarrow> in_offset m < mb_size m \<and> out_offset m < mb_size m \<and> mb_entry m \<le> mb_size m
     \<and> unat (in_offset m) = (unat (out_offset m) + unat (mb_entry m)) mod unat (mb_size m)"

definition mb_ok :: "kernel \<Rightarrow> ptr \<Rightarrow> bool" where
  "mb_ok k mb \<longleftrightarrow> is_class k mb RT_Object_Class_MailBox
     \<and> (flag (objs k mb) = RT_IPC_FLAG_FIFO \<or> flag (objs k mb) = RT_IPC_FLAG_PRIO)
     \<and> ring_ok (mailboxes k mb)"

lemma kinv_mailboxes [simp]: "kinv b (k\<lparr>pmem := p, mailboxes := x\<rparr>) = kinv b k"
  by (simp add: kinv_def timer_inv_def due_def live_def own_timer_def timers_wait_def tstat_def is_class_def)

lemma mb_put_eq:
  "mb_put mb v k = (let m = mailboxes k mb; i = in_offset m in
     k\<lparr>pmem := (pmem k)(mb_pool m + 4 * unat i := v),
       mailboxes := (mailboxes k)(mb := m\<lparr>in_offset := (if mb_size m \<le> i + 1 then 0 else i + 1),
         mb_entry := mb_entry m + 1\<rparr>)\<rparr>)"
  by (simp add: mb_put_def upd_mb_def Let_def)

lemma mb_get_eq:
  "mb_get mb k = (let m = mailboxes k mb; i = out_offset m in
     (pmem k (mb_pool m + 4 * unat i),
      k\<lparr>mailboxes := (mailboxes k)(mb := m\<lparr>out_offset := (if mb_size m \<le> i + 1 then 0 else i + 1),
         mb_entry := mb_entry m - 1\<rparr>)\<rparr>))"
  by (simp add: mb_get_def upd_mb_def Let_def)

lemma length_mails [simp]: "length (mails k mb) = unat (mb_entry (mailboxes k mb))"
  by (simp add: mails_def Let_def)

lemma mb_put_ok:
  assumes ring: "ring_ok (mailboxes k mb)" and room: "mb_entry (mailboxes k mb) \<noteq> mb_size (mailboxes k mb)"
  shows "ring_ok (mailboxes (mb_put mb v k) mb)" "mails (mb_put mb v k) mb = mails k mb @ [v]"
proof -
  let ?m = "mailboxes k mb"
  let ?i = "unat (in_offset ?m)" and ?o = "unat (out_offset ?m)" and ?n = "unat (mb_size ?m)" and ?e = "unat (mb_entry ?m)"
  have r: "in_offset ?m < mb_size ?m" "out_offset ?m < mb_size ?m" "?i = (?o + ?e) mod ?n" "mb_entry ?m < mb_size ?m"
    using ring room by (auto simp: ring_ok_def)
  have e: "unat (mb_entry ?m + 1) = ?e + 1" by (rule unat_Suc_less [OF r(4)])
  have "mb_entry ?m + 1 \<le> mb_size ?m" using e r(4) by (simp add: word_le_nat_alt word_less_nat_alt)
  then show "ring_ok (mailboxes (mb_put mb v k) mb)"
    using offset_step [OF r(1)] r(2) r(3) e by (simp add: ring_ok_def mb_put_eq Let_def mod_Suc_eq)
  have "?e < ?n" using r(4) by (simp add: word_less_nat_alt)
  then have "(?o + j) mod ?n \<noteq> ?i" if "j < ?e" for j using ring_slot [OF that] r(3) by simp
  then show "mails (mb_put mb v k) mb = mails k mb @ [v]"
    using r(3) by (simp add: mails_def mb_put_eq Let_def e)
qed

lemma mb_get_ok:
  assumes ring: "ring_ok (mailboxes k mb)" and some: "mb_entry (mailboxes k mb) \<noteq> 0"
    and g: "mb_get mb k = (v, k')"
  shows "ring_ok (mailboxes k' mb)" "mails k mb = v # mails k' mb"
proof -
  let ?m = "mailboxes k mb"
  let ?i = "unat (in_offset ?m)" and ?o = "unat (out_offset ?m)" and ?n = "unat (mb_size ?m)" and ?e = "unat (mb_entry ?m)"
  have r: "in_offset ?m < mb_size ?m" "out_offset ?m < mb_size ?m" "?i = (?o + ?e) mod ?n" "mb_entry ?m \<le> mb_size ?m"
    using ring by (auto simp: ring_ok_def)
  have e: "unat (mb_entry ?m - 1) = ?e - 1" by (rule unat_minus_one [OF some])
  have e0: "0 < ?e" using some by (simp add: unat_gt_0)
  have k': "mailboxes k' mb = ?m\<lparr>out_offset := (if mb_size ?m \<le> out_offset ?m + 1 then 0 else out_offset ?m + 1),
         mb_entry := mb_entry ?m - 1\<rparr>" "pmem k' = pmem k" "v = pmem k (mb_pool ?m + 4 * ?o)"
    using g by (auto simp: mb_get_eq Let_def)
  have o: "unat (out_offset (mailboxes k' mb)) = (?o + 1) mod ?n" "out_offset (mailboxes k' mb) < mb_size ?m"
    using offset_step [OF r(2)] by (simp_all add: k'(1))
  have "mb_entry ?m - 1 \<le> mb_size ?m" using e r(4) by (simp add: word_le_nat_alt)
  moreover have "((?o + 1) mod ?n + (?e - 1)) mod ?n = ?i"
    using mod_add_left_eq [of "?o + 1" ?n "?e - 1"] r(3) e0 by simp
  ultimately show "ring_ok (mailboxes k' mb)" using o r(1) e by (simp add: ring_ok_def k'(1))
  have "?o < ?n" using r(2) by (simp add: word_less_nat_alt)
  then have h: "pmem k (mb_pool ?m + 4 * ((?o + 0) mod ?n)) = v" using k'(3) by simp
  have t: "((?o + 1) mod ?n + j) mod ?n = (?o + Suc j) mod ?n" for j by (simp add: mod_add_left_eq)
  have "[0..<?e] = 0 # map Suc [0..<?e - 1]" using upt_conv_Cons [OF e0] e0 by (simp add: map_Suc_upt)
  then show "mails k mb = v # mails k' mb"
    using h t o(1) by (simp add: mails_def Let_def k'(1,2) e)
qed

subsection \<open>The operations on a mailbox\<close>

lemma kframe_mb:
  assumes "kframe (k\<lparr>pmem := p, mailboxes := x\<rparr>) k'"
  shows "mailboxes k' = x" "pmem k' = p" "is_class k' a c = is_class k a c"
    "is_class k a c \<Longrightarrow> c \<noteq> RT_Object_Class_Timer \<Longrightarrow> objs k' a = objs k a"
  using kframe_fields(9,12) [OF assms] kframe_class [OF assms, of a c] kframe_obj [OF assms, of a c]
  by (simp_all add: is_class_def)

lemma mb_ok_frame:
  assumes "mb_ok k mb" "kframe (k\<lparr>pmem := p, mailboxes := x\<rparr>) k'" "ring_ok (x mb)"
  shows "mb_ok k' mb"
  using assms kframe_mb(1) [OF assms(2)] kframe_mb(3,4) [OF assms(2), of mb RT_Object_Class_MailBox] by (simp add: mb_ok_def)

lemma mails_cong: "mailboxes k' = mailboxes k \<Longrightarrow> pmem k' = pmem k \<Longrightarrow> mails k' = mails k"
  by (simp add: mails_def fun_eq_iff)

lemma mb_send_room:
  assumes inv: "kinv b k" and mb: "mb_ok k mb" "mb_entry (mailboxes k mb) \<noteq> mb_size (mailboxes k mb)"
    and cur: "rt_current_thread k \<noteq> RT_NULL"
  shows "\<exists>k'. rt_mb_send_wait mb v timeout k = Some (Done RT_EOK, k') \<and> mb_send_loop mb v timeout k = Some (Done RT_EOK, k')
     \<and> kinv b k' \<and> mb_ok k' mb
     \<and> kframe (k\<lparr>pmem := pmem k', mailboxes := mailboxes k'\<rparr>) k' \<and> (\<forall>x. x \<noteq> mb \<longrightarrow> mailboxes k' x = mailboxes k x)
     \<and> mb_size (mailboxes k' mb) = mb_size (mailboxes k mb)
     \<and> mails k' mb = mails k mb @ [v] \<and> wakes_first (Waiters mb) k k'"
proof -
  let ?p = "mb_put mb v k"
  have p: "?p = k\<lparr>pmem := pmem ?p, mailboxes := mailboxes ?p\<rparr>" by (simp add: mb_put_eq Let_def)
  have ip: "kinv b ?p" by (subst p) (simp add: inv)
  have fields: "rt_current_thread ?p = rt_current_thread k" "tlists ?p = tlists k" "threads ?p = threads k"
    "scheduler_lock_nest ?p = scheduler_lock_nest k" "objs ?p = objs k"
    by (simp_all add: mb_put_eq Let_def)
  have cp: "rt_current_thread ?p \<noteq> RT_NULL" using cur fields(1) by simp
  obtain k' where k': "(if \<not> tlist_isempty (Waiters mb) ?p then do {
         k \<leftarrow> rt_ipc_list_resume (Waiters mb) ?p;
         k \<leftarrow> rt_schedule k;
         Some (Done RT_EOK, k)
       } else Some (Done RT_EOK, ?p)) = Some (Done RT_EOK, k')" "kinv b k'" "kframe ?p k'" "wakes_first (Waiters mb) ?p k'"
    using wake_ok [OF ip cp is_wait_simps(1) [of mb], of "Done RT_EOK"] by (elim exE conjE) (rule that)
  have m: "mailboxes k' = mailboxes ?p" "pmem k' = pmem ?p" using kframe_fields(9,12) [OF k'(3)] by simp_all
  have fr: "kframe (k\<lparr>pmem := pmem k', mailboxes := mailboxes k'\<rparr>) k'" unfolding m p [symmetric] by (rule k'(3))
  have l: "mb_send_loop mb v timeout k = Some (Done RT_EOK, k')"
    using mb(2) k'(1) by (simp add: mb_send_loop_def Let_def)
  then have "rt_mb_send_wait mb v timeout k = Some (Done RT_EOK, k')"
    using mb by (simp add: rt_mb_send_wait_def mb_ok_def is_class_def)
  moreover have "mb_ok k' mb"
    using mb_ok_frame [OF mb(1) fr] mb_put_ok(1) [OF _ mb(2)] mb(1) m(1) by (simp add: mb_ok_def)
  moreover have "mails k' mb = mails k mb @ [v]"
    using mails_cong [OF m] mb_put_ok(2) [OF _ mb(2)] mb(1) by (simp add: mb_ok_def)
  moreover have "wakes_first (Waiters mb) k k'" using k'(4) wakes_first_cong [OF fields(2-4)] by simp
  moreover have "\<forall>x. x \<noteq> mb \<longrightarrow> mailboxes k' x = mailboxes k x" "mb_size (mailboxes k' mb) = mb_size (mailboxes k mb)"
    by (simp_all add: m mb_put_eq Let_def)
  ultimately show ?thesis using l k'(2) fr by blast
qed

lemma mb_recv_mail:
  assumes inv: "kinv b k" and mb: "mb_ok k mb" "mb_entry (mailboxes k mb) \<noteq> 0"
    and cur: "rt_current_thread k \<noteq> RT_NULL"
  shows "\<exists>v k'. rt_mb_recv mb timeout k = Some (Done RT_EOK, Some v, k') \<and> mb_recv_loop mb timeout k = Some (Done RT_EOK, Some v, k')
     \<and> kinv b k' \<and> mb_ok k' mb
     \<and> kframe (k\<lparr>pmem := pmem k', mailboxes := mailboxes k'\<rparr>) k' \<and> (\<forall>x. x \<noteq> mb \<longrightarrow> mailboxes k' x = mailboxes k x)
     \<and> mb_size (mailboxes k' mb) = mb_size (mailboxes k mb)
     \<and> pmem k' = pmem k \<and> mails k mb = v # mails k' mb \<and> wakes_first (Senders mb) k k'"
proof -
  obtain v p where g: "mb_get mb k = (v, p)" by fastforce
  have p: "p = k\<lparr>pmem := pmem p, mailboxes := mailboxes p\<rparr>" using g by (auto simp: mb_get_eq Let_def)
  have ip: "kinv b p" by (subst p) (simp add: inv)
  have fields: "rt_current_thread p = rt_current_thread k" "tlists p = tlists k" "threads p = threads k"
    "scheduler_lock_nest p = scheduler_lock_nest k" "objs p = objs k" "pmem p = pmem k"
    "mb_size (mailboxes p mb) = mb_size (mailboxes k mb)" "x \<noteq> mb \<Longrightarrow> mailboxes p x = mailboxes k x" for x
    using g by (auto simp: mb_get_eq Let_def)
  have cp: "rt_current_thread p \<noteq> RT_NULL" using cur fields(1) by simp
  obtain k' where k': "(if \<not> tlist_isempty (Senders mb) p then do {
         k \<leftarrow> rt_ipc_list_resume (Senders mb) p;
         k \<leftarrow> rt_schedule k;
         Some ((Done RT_EOK, Some v), k)
       } else Some ((Done RT_EOK, Some v), p)) = Some ((Done RT_EOK, Some v), k')" "kinv b k'" "kframe p k'"
     "wakes_first (Senders mb) p k'"
    using wake_ok [OF ip cp is_wait_simps(2) [of mb], of "(Done RT_EOK, Some v)"] by (elim exE conjE) (rule that)
  have m: "mailboxes k' = mailboxes p" "pmem k' = pmem p" using kframe_fields(9,12) [OF k'(3)] by simp_all
  have fr: "kframe (k\<lparr>pmem := pmem k', mailboxes := mailboxes k'\<rparr>) k'" unfolding m p [symmetric] by (rule k'(3))
  have l: "mb_recv_loop mb timeout k = Some (Done RT_EOK, Some v, k')"
    using mb(2) k'(1) by (auto simp: mb_recv_loop_def Let_def g opt_simps split: if_splits)
  then have "rt_mb_recv mb timeout k = Some (Done RT_EOK, Some v, k')"
    using mb by (simp add: rt_mb_recv_def mb_ok_def is_class_def)
  moreover have "mb_ok k' mb"
    using mb_ok_frame [OF mb(1) fr] mb_get_ok(1) [OF _ mb(2) g] mb(1) m(1) by (simp add: mb_ok_def)
  moreover have "mails k mb = v # mails k' mb"
    using mails_cong [OF m] mb_get_ok(2) [OF _ mb(2) g] mb(1) by (simp add: mb_ok_def)
  moreover have "wakes_first (Senders mb) k k'" using k'(4) wakes_first_cong [OF fields(2-4)] by simp
  moreover have "\<forall>x. x \<noteq> mb \<longrightarrow> mailboxes k' x = mailboxes k x"
    "mb_size (mailboxes k' mb) = mb_size (mailboxes k mb)" by (simp_all add: m fields)
  ultimately show ?thesis using l k'(2) fr m(2) fields(6) by auto
qed

lemma mb_send_blocks:
  assumes inv: "kinv b k" and mb: "mb_ok k mb" "mb_entry (mailboxes k mb) = mb_size (mailboxes k mb)"
    and c: "tstat k (rt_current_thread k) = RT_THREAD_RUNNING" "interrupt_nest k = 0" and time: "wait_time_ok timeout"
  shows "\<exists>k'. rt_mb_send_wait mb v timeout k = Some (Blocked, k') \<and> mb_send_loop mb v timeout k = Some (Blocked, k')
     \<and> kinv b k' \<and> kframe k k' \<and> mb_ok k' mb \<and> waits (Senders mb) (flag (objs k mb)) timeout k k'"
proof -
  obtain k1 k' where k': "ipc_wait (Senders mb) (flag (objs k mb)) timeout (reset_error (rt_current_thread k) k) = Some k1"
    "rt_schedule k1 = Some k'" "kinv b k'" "kframe k k'" "waits (Senders mb) (flag (objs k mb)) timeout k k'"
    using ipc_waits [OF inv c(1) is_wait_simps(2) _ time] mb(1) unfolding mb_ok_def by blast
  have l: "mb_send_loop mb v timeout k = Some (Blocked, k')"
    using mb(2) c running_not_null [OF inv c(1)] k'(1,2) time
    by (simp add: mb_send_loop_def Let_def rt_thread_self_def RT_DEBUG_IN_THREAD_CONTEXT_def
        RT_DEBUG_NOT_IN_INTERRUPT_def wait_time_ok_def)
  moreover have "rt_mb_send_wait mb v timeout k = Some (Blocked, k')"
    using mb l time by (simp add: rt_mb_send_wait_def mb_ok_def is_class_def wait_time_ok_def)
  moreover have "mb_ok k' mb"
    using mb(1) kframe_fields(9) [OF k'(4)] kframe_class [OF k'(4)] kframe_obj [OF k'(4), of mb RT_Object_Class_MailBox]
    by (simp add: mb_ok_def)
  ultimately show ?thesis using k' by blast
qed

lemma mb_recv_blocks:
  assumes inv: "kinv b k" and mb: "mb_ok k mb" "mb_entry (mailboxes k mb) = 0"
    and c: "tstat k (rt_current_thread k) = RT_THREAD_RUNNING" "interrupt_nest k = 0" and time: "wait_time_ok timeout"
  shows "\<exists>k'. rt_mb_recv mb timeout k = Some (Blocked, None, k') \<and> mb_recv_loop mb timeout k = Some (Blocked, None, k')
     \<and> kinv b k' \<and> kframe k k' \<and> mb_ok k' mb \<and> waits (Waiters mb) (flag (objs k mb)) timeout k k'"
proof -
  obtain k1 k' where k': "ipc_wait (Waiters mb) (flag (objs k mb)) timeout (reset_error (rt_current_thread k) k) = Some k1"
    "rt_schedule k1 = Some k'" "kinv b k'" "kframe k k'" "waits (Waiters mb) (flag (objs k mb)) timeout k k'"
    using ipc_waits [OF inv c(1) is_wait_simps(1) _ time] mb(1) unfolding mb_ok_def by blast
  have l: "mb_recv_loop mb timeout k = Some (Blocked, None, k')"
    using mb(2) c running_not_null [OF inv c(1)] k'(1,2) time
    by (simp add: mb_recv_loop_def Let_def rt_thread_self_def RT_DEBUG_IN_THREAD_CONTEXT_def
        RT_DEBUG_NOT_IN_INTERRUPT_def wait_time_ok_def)
  moreover have "rt_mb_recv mb timeout k = Some (Blocked, None, k')"
    using mb l time by (simp add: rt_mb_recv_def mb_ok_def is_class_def wait_time_ok_def)
  moreover have "mb_ok k' mb"
    using mb(1) kframe_fields(9) [OF k'(4)] kframe_class [OF k'(4)] kframe_obj [OF k'(4), of mb RT_Object_Class_MailBox]
    by (simp add: mb_ok_def)
  ultimately show ?thesis using k' by blast
qed

subsection \<open>A mailbox is a bounded queue\<close>

definition mb_inv :: "ptr \<Rightarrow> kernel \<Rightarrow> bool" where
  "mb_inv mb k \<longleftrightarrow> (\<exists>b. kinv b k) \<and> mb_ok k mb \<and> rt_current_thread k \<noteq> RT_NULL"

definition mb_cap :: "ptr \<Rightarrow> kernel \<Rightarrow> nat" where
  "mb_cap mb k = unat (mb_size (mailboxes k mb))"

text \<open>The two calls without waiting, as put and get.\<close>

definition mb_offer :: "ptr \<Rightarrow> ptr \<Rightarrow> kernel \<Rightarrow> (bool \<times> kernel) option" where
  "mb_offer mb v k = do {
     (out, k) \<leftarrow> rt_mb_send mb v k;
     Some (out = Done RT_EOK, k)
   }"

definition mb_poll :: "ptr \<Rightarrow> kernel \<Rightarrow> (ptr option \<times> kernel) option" where
  "mb_poll mb k = do {
     (out, v, k) \<leftarrow> rt_mb_recv mb 0 k;
     Some (v, k)
   }"

lemma mb_full_iff: "ring_ok (mailboxes k mb) \<Longrightarrow>
    length (mails k mb) < mb_cap mb k \<longleftrightarrow> mb_entry (mailboxes k mb) \<noteq> mb_size (mailboxes k mb)"
  by (auto simp: ring_ok_def mb_cap_def word_le_nat_alt word_unat_eq_iff)

lemma mb_offer_ok:
  assumes "mb_inv mb k" "length (mails k mb) < mb_cap mb k"
  shows "\<exists>k'. mb_offer mb v k = Some (True, k') \<and> mb_inv mb k' \<and> mb_cap mb k' = mb_cap mb k \<and> mails k' mb = mails k mb @ [v]"
proof -
  obtain b where b: "kinv b k" "mb_ok k mb" "rt_current_thread k \<noteq> RT_NULL" using assms(1) by (auto simp: mb_inv_def)
  have n: "mb_entry (mailboxes k mb) \<noteq> mb_size (mailboxes k mb)"
    using assms(2) mb_full_iff [of k mb] b(2) by (simp add: mb_ok_def)
  obtain k' where "rt_mb_send_wait mb v 0 k = Some (Done RT_EOK, k')" "kinv b k'" "mb_ok k' mb"
    "mb_size (mailboxes k' mb) = mb_size (mailboxes k mb)" "mails k' mb = mails k mb @ [v]" "wakes_first (Waiters mb) k k'"
    using mb_send_room [OF b(1,2) n b(3), of v 0] by blast
  then show ?thesis by (auto simp: mb_offer_def rt_mb_send_def mb_inv_def mb_cap_def wakes_first_def)
qed

lemma mb_poll_ok:
  assumes "mb_inv mb k" "mails k mb = v # vs"
  shows "\<exists>k'. mb_poll mb k = Some (Some v, k') \<and> mb_inv mb k' \<and> mb_cap mb k' = mb_cap mb k \<and> mails k' mb = vs"
proof -
  obtain b where b: "kinv b k" "mb_ok k mb" "rt_current_thread k \<noteq> RT_NULL" using assms(1) by (auto simp: mb_inv_def)
  have n: "mb_entry (mailboxes k mb) \<noteq> 0" using length_mails [of k mb] assms(2) by auto
  obtain v' k' where "rt_mb_recv mb 0 k = Some (Done RT_EOK, Some v', k')" "kinv b k'" "mb_ok k' mb"
    "mb_size (mailboxes k' mb) = mb_size (mailboxes k mb)" "mails k mb = v' # mails k' mb" "wakes_first (Senders mb) k k'"
    using mb_recv_mail [OF b(1,2) n b(3), of 0] by blast
  then show ?thesis using assms(2) by (auto simp: mb_poll_def mb_inv_def mb_cap_def wakes_first_def)
qed

interpretation mbq: bounded_fifo "mb_inv mb" "mb_cap mb" "\<lambda>k. mails k mb" "mb_offer mb" "mb_poll mb"
  for mb
proof unfold_locales
  fix k v
  assume inv: "mb_inv mb k"
  then have ok: "is_class k mb RT_Object_Class_MailBox" "ring_ok (mailboxes k mb)"
    by (simp_all add: mb_inv_def mb_ok_def)
  show "length (mails k mb) \<le> mb_cap mb k"
    using ok(2) by (simp add: ring_ok_def mb_cap_def word_le_nat_alt)
  show "\<exists>k'. mb_offer mb v k = Some (True, k') \<and> mb_inv mb k' \<and> mb_cap mb k' = mb_cap mb k \<and> mails k' mb = mails k mb @ [v]"
    if "length (mails k mb) < mb_cap mb k" by (rule mb_offer_ok [OF inv that])
  show "\<exists>k'. mb_offer mb v k = Some (False, k') \<and> mb_inv mb k' \<and> mb_cap mb k' = mb_cap mb k \<and> mails k' mb = mails k mb"
    if "length (mails k mb) = mb_cap mb k"
    using that mb_full_iff [OF ok(2)] inv ok(1)
    by (simp add: mb_offer_def rt_mb_send_def rt_mb_send_wait_def is_class_def)
  show "\<exists>k'. mb_poll mb k = Some (Some v, k') \<and> mb_inv mb k' \<and> mb_cap mb k' = mb_cap mb k \<and> mails k' mb = vs"
    if "mails k mb = v # vs" for vs by (rule mb_poll_ok [OF inv that])
  show "\<exists>k'. mb_poll mb k = Some (None, k') \<and> mb_inv mb k' \<and> mb_cap mb k' = mb_cap mb k \<and> mails k' mb = []"
    if "mails k mb = []"
  proof -
    have "mb_entry (mailboxes k mb) = 0" using length_mails [of k mb] that by (simp add: unat_eq_0)
    then show ?thesis using that inv ok(1) by (simp add: mb_poll_def rt_mb_recv_def is_class_def)
  qed
qed

subsection \<open>What a mailbox guarantees\<close>

text \<open>C18: \<^verbatim>\<open>rt_mb_send_wait\<close>: with room the mail is appended and the first waiting receiver is woken; a
  full mailbox refuses at once (\<^verbatim>\<open>-RT_EFULL\<close>, nothing changed) or makes the caller wait among the
  senders, with its timer armed. The kernel invariant is kept and no other mailbox is touched.\<close>

theorem mb_send_spec:
  assumes "kinv b k" "mb_ok k mb" "rt_current_thread k \<noteq> RT_NULL"
    "timeout = 0 \<or> wait_time_ok timeout \<and> tstat k (rt_current_thread k) = RT_THREAD_RUNNING \<and> interrupt_nest k = 0"
  shows "\<exists>out k'. rt_mb_send_wait mb v timeout k = Some (out, k') \<and> kinv b k' \<and> mb_ok k' mb
     \<and> (\<forall>x. x \<noteq> mb \<longrightarrow> mailboxes k' x = mailboxes k x)
     \<and> kframe (k\<lparr>pmem := pmem k', mailboxes := mailboxes k'\<rparr>) k'
     \<and> (if length (mails k mb) < mb_cap mb k
        then out = Done RT_EOK \<and> mails k' mb = mails k mb @ [v] \<and> wakes_first (Waiters mb) k k'
        else mails k' mb = mails k mb
           \<and> (if timeout = 0 then out = Done (- RT_EFULL) \<and> k' = k
              else out = Blocked \<and> waits (Senders mb) (flag (objs k mb)) timeout k k'))"
proof (cases "length (mails k mb) < mb_cap mb k")
  case True
  then have "mb_entry (mailboxes k mb) \<noteq> mb_size (mailboxes k mb)"
    using mb_full_iff [of k mb] assms(2) by (simp add: mb_ok_def)
  with mb_send_room [OF assms(1,2) _ assms(3), of v timeout] True show ?thesis by auto
next
  case False
  then have full: "mb_entry (mailboxes k mb) = mb_size (mailboxes k mb)"
    using mb_full_iff [of k mb] assms(2) by (simp add: mb_ok_def)
  show ?thesis
  proof (cases "timeout = 0")
    case True
    with False full assms(1,2) show ?thesis by (auto simp: rt_mb_send_wait_def mb_ok_def is_class_def)
  next
    case nz: False
    then obtain k' where k': "rt_mb_send_wait mb v timeout k = Some (Blocked, k')" "kinv b k'" "kframe k k'" "mb_ok k' mb"
      "waits (Senders mb) (flag (objs k mb)) timeout k k'"
      using mb_send_blocks [OF assms(1,2) full, of timeout v] assms(4) by blast
    have "mailboxes k' = mailboxes k" "pmem k' = pmem k" using kframe_fields(9,12) [OF k'(3)] by simp_all
    with k' False nz mails_cong [of k' k] show ?thesis by auto
  qed
qed

lemma demo_mailboxes:
  "mb_ok demo 50" "mb_ok demo 51" "mails demo 50 = []" "mails demo 51 = [8, 7]" "mb_cap 50 demo = 2" "mb_cap 51 demo = 2"
  "flag (objs demo 51) = 1"
  by (simp_all add: mb_ok_def ring_ok_def mails_def mb_cap_def is_class_def demo_def ex_obj_def upt_rec)

theorem mb_send_spec_witness:
  "\<exists>k'. rt_mb_send_wait 50 77 0 demo = Some (Done RT_EOK, k') \<and> mails k' 50 = [77] \<and> tlists k' (Waiters 50) = []
     \<and> tstat k' 7 \<in> {RT_THREAD_READY, RT_THREAD_RUNNING}"
  using mb_send_spec [OF demo_kinv demo_mailboxes(1), of 0 77]
  by (auto simp: demo_mailboxes wakes_first_def)

text \<open>C19: \<^verbatim>\<open>rt_mb_recv\<close>: the oldest mail is taken and the first waiting sender is woken; an empty mailbox
  ends the call at once (\<^verbatim>\<open>-RT_ETIMEOUT\<close>, nothing changed) or makes the caller wait among the
  receivers.\<close>

theorem mb_recv_spec:
  assumes "kinv b k" "mb_ok k mb" "rt_current_thread k \<noteq> RT_NULL"
    "timeout = 0 \<or> wait_time_ok timeout \<and> tstat k (rt_current_thread k) = RT_THREAD_RUNNING \<and> interrupt_nest k = 0"
  shows "\<exists>out r k'. rt_mb_recv mb timeout k = Some (out, r, k') \<and> kinv b k' \<and> mb_ok k' mb
     \<and> (\<forall>x. x \<noteq> mb \<longrightarrow> mailboxes k' x = mailboxes k x) \<and> pmem k' = pmem k
     \<and> kframe (k\<lparr>pmem := pmem k', mailboxes := mailboxes k'\<rparr>) k'
     \<and> (case mails k mb of
          v # vs \<Rightarrow> out = Done RT_EOK \<and> r = Some v \<and> mails k' mb = vs \<and> wakes_first (Senders mb) k k'
        | [] \<Rightarrow> r = None \<and> mails k' mb = []
            \<and> (if timeout = 0 then out = Done (- RT_ETIMEOUT) \<and> k' = k
               else out = Blocked \<and> waits (Waiters mb) (flag (objs k mb)) timeout k k'))"
proof (cases "mb_entry (mailboxes k mb) = 0")
  case False
  with mb_recv_mail [OF assms(1,2) _ assms(3), of timeout] show ?thesis by fastforce
next
  case empty: True
  then have nil: "mails k mb = []" by (simp add: mails_def)
  show ?thesis
  proof (cases "timeout = 0")
    case True
    with nil empty assms(1,2) show ?thesis by (auto simp: rt_mb_recv_def mb_ok_def is_class_def)
  next
    case nz: False
    then obtain k' where k': "rt_mb_recv mb timeout k = Some (Blocked, None, k')" "kinv b k'" "kframe k k'" "mb_ok k' mb"
      "waits (Waiters mb) (flag (objs k mb)) timeout k k'"
      using mb_recv_blocks [OF assms(1,2) empty, of timeout] assms(4) by blast
    have "mailboxes k' = mailboxes k" "pmem k' = pmem k" using kframe_fields(9,12) [OF k'(3)] by simp_all
    with k' nil nz mails_cong [of k' k] show ?thesis by auto
  qed
qed

theorem mb_recv_spec_witness:
  "\<exists>k'. rt_mb_recv 51 0 demo = Some (Done RT_EOK, Some 8, k') \<and> mails k' 51 = [7]"
  using mb_recv_spec [OF demo_kinv demo_mailboxes(2), of 0] by (auto simp: demo_mailboxes)

text \<open>C20: Over any history of sends and receives on a mailbox, what was in it followed by what was
  accepted is what was received followed by what is still in it: nothing is lost, duplicated or
  reordered.\<close>

theorem mailbox_history:
  assumes "kinv b k" "mb_ok k mb" "rt_current_thread k \<noteq> RT_NULL"
  shows "\<exists>acc rec k'. fifo_run (mb_offer mb) (mb_poll mb) ops k = Some (acc, rec, k')
     \<and> (\<exists>b. kinv b k') \<and> mb_ok k' mb \<and> mb_cap mb k' = mb_cap mb k
     \<and> mails k mb @ acc = rec @ mails k' mb"
  using mbq.fifo_history [of mb k ops] assms by (auto simp: mb_inv_def)

theorem mailbox_history_witness:
  "\<exists>acc rec k'. fifo_run (mb_offer 51) (mb_poll 51) [Get, Put 9, Get, Put 5] demo = Some (acc, rec, k')
     \<and> [8, 7] @ acc = rec @ mails k' 51"
  using mailbox_history [OF demo_kinv demo_mailboxes(2), of "[Get, Put 9, Get, Put 5]"]
  by (auto simp: demo_mailboxes)

text \<open>A sender that was woken but finds the mailbox full again before its time is up waits again
  with what is left of its limit: its timer is due at the same tick as before, so the call never
  waits longer than asked. With its time used up it gets \<^verbatim>\<open>-RT_EFULL\<close>, with an error that error.\<close>

lemma mb_send_deadline:
  assumes "kinv b k" "mb_ok k mb" "tstat k (rt_current_thread k) = RT_THREAD_RUNNING" "interrupt_nest k = 0"
    "length (mails k mb) = mb_cap mb k" "wait_time_ok timeout" "0 < sint timeout" "rt_tick k - start \<le> timeout"
  shows "\<exists>out k'. rt_mb_send_wait_resume mb v timeout start k = Some (out, k') \<and> kinv b k' \<and> mails k' mb = mails k mb
     \<and> (if error (threads k (rt_current_thread k)) \<noteq> RT_EOK
        then out = Done (error (threads k (rt_current_thread k))) \<and> k' = k
        else if rt_tick k - start = timeout then out = Done (- RT_EFULL)
        else out = Blocked \<and> thread_timer (threads k (rt_current_thread k)) \<in> set (timer_list k')
           \<and> timeout_tick (timers k' (thread_timer (threads k (rt_current_thread k)))) = start + timeout)"
proof -
  let ?t = "time_left timeout start (rt_tick k)"
  have full: "mb_entry (mailboxes k mb) = mb_size (mailboxes k mb)"
    using mb_full_iff [of k mb] assms(2,5) by (simp add: mb_ok_def)
  have t: "?t = timeout - (rt_tick k - start)" by (rule time_left_ok(1) [OF assms(6-8)])
  consider "error (threads k (rt_current_thread k)) \<noteq> RT_EOK"
    | "error (threads k (rt_current_thread k)) = RT_EOK" "rt_tick k - start = timeout"
    | "error (threads k (rt_current_thread k)) = RT_EOK" "rt_tick k - start \<noteq> timeout" by blast
  then show ?thesis
  proof cases
    case 1
    then show ?thesis using assms(1) by (simp add: rt_mb_send_wait_resume_def rt_thread_self_def)
  next
    case 2
    let ?k = "reset_error (rt_current_thread k) k"
    have "mb_send_loop mb v ?t k = Some (Done (- RT_EFULL), ?k)"
      using 2 t full running_not_null [OF assms(1,3)] by (simp add: mb_send_loop_def rt_thread_self_def Let_def)
    moreover have "mails ?k mb = mails k mb" using mails_cong [of ?k k] by simp
    ultimately show ?thesis
      using 2 kinv_error(1) [OF assms(1)] by (simp add: rt_mb_send_wait_resume_def rt_thread_self_def rt_tick_get_def)
  next
    case 3
    then have lt: "rt_tick k - start < timeout" using assms(8) by simp
    have ok: "wait_time_ok ?t" by (rule time_left_ok(3) [OF assms(6-8) lt])
    have pos: "0 < sint ?t"
    proof -
      have "sint ?t \<noteq> 0" using ok signed_word_eqI [of ?t 0] by (auto simp: wait_time_ok_def)
      then show ?thesis using time_left_ok(2) [OF assms(6-8)] by simp
    qed
    obtain k' where k': "mb_send_loop mb v ?t k = Some (Blocked, k')" "kinv b k'" "kframe k k'"
      "waits (Senders mb) (flag (objs k mb)) ?t k k'"
      using mb_send_blocks [OF assms(1,2) full assms(3,4) ok] by blast
    have "mails k' mb = mails k mb" using mails_cong [of k' k] kframe_fields(9,12) [OF k'(3)] by simp
    moreover have "rt_tick k + ?t = start + timeout" by (simp add: t)
    ultimately show ?thesis
      using k' 3 pos by (simp add: rt_mb_send_wait_resume_def rt_thread_self_def rt_tick_get_def waits_def Let_def)
  qed
qed

end
