(* ===== verification/RT_MsgQueue.thy ===== *)
theory RT_MsgQueue
  imports RT_Example RT_Memory
begin

text \<open>
  Message queues (\<^verbatim>\<open>rt_mq_*\<close> of \<^verbatim>\<open>src/ipc.c\<close>). The pool is an array of slots, each a link word and
  \<^verbatim>\<open>msg_size\<close> bytes; the slots are linked into a free list and a queue with a tail pointer. The
  links live in \<open>pmem\<close>, the bodies, four bytes behind, in \<open>bmem\<close>. Sending and receiving enable
  interrupts while they copy a body: a slot that is on neither list then is \<^emph>\<open>in flight\<close>, and the
  invariant counts such slots, so that each part of the calls is an atomic step that keeps it.
\<close>

subsection \<open>Operations\<close>

abbreviation (input) MQ_HDR :: nat where "MQ_HDR \<equiv> 4"

definition mq_slot :: "rt_messagequeue \<Rightarrow> nat \<Rightarrow> ptr" where
  "mq_slot m i = mq_pool m + unat (of_nat i * (ucast (msg_size m) + 4) :: u32)"

text \<open>The loop that links all slots into the free list, from slot \<open>temp\<close> on.\<close>

fun mq_free_loop :: "ptr \<Rightarrow> nat \<Rightarrow> nat \<Rightarrow> kernel \<Rightarrow> kernel" where
  "mq_free_loop mq temp 0 k = k"
| "mq_free_loop mq temp (Suc n) k =
     (let head = mq_slot (mqs k mq) temp;
          k = k\<lparr>pmem := (pmem k)(head := msg_queue_free (mqs k mq))\<rparr>;
          k = upd_mq mq (\<lambda>m. m\<lparr>msg_queue_free := head\<rparr>) k
      in mq_free_loop mq (Suc temp) n k)"

definition mq_init_lists :: "ptr \<Rightarrow> kernel \<Rightarrow> kernel" where
  "mq_init_lists mq k =
     (let k = upd_mq mq (\<lambda>m. m\<lparr>msg_queue_head := RT_NULL, msg_queue_tail := RT_NULL, msg_queue_free := RT_NULL\<rparr>) k;
          k = mq_free_loop mq 0 (unat (max_msgs (mqs k mq))) k
      in upd_mq mq (\<lambda>m. m\<lparr>mq_entry := 0\<rparr>) k)"

definition rt_mq_init :: "ptr \<Rightarrow> string \<Rightarrow> ptr \<Rightarrow> u32 \<Rightarrow> u32 \<Rightarrow> u8 \<Rightarrow> kernel \<Rightarrow> (err \<times> kernel) option" where
  "rt_mq_init mq nm msgpool msz pool_size fl k = do {
     RT_ASSERT (mq \<noteq> RT_NULL);
     k \<leftarrow> rt_object_init mq RT_Object_Class_MessageQueue nm k;
     let k = upd_obj mq (\<lambda>ob. ob\<lparr>flag := fl\<rparr>) k;
     k \<leftarrow> rt_ipc_object_init mq k;
     let k = upd_mq mq (\<lambda>m. m\<lparr>mq_pool := msgpool, msg_size := ucast (RT_ALIGN msz RT_ALIGN_SIZE)\<rparr>) k;
     let k = upd_mq mq (\<lambda>m. m\<lparr>max_msgs := ucast (pool_size div (ucast (msg_size m) + 4))\<rparr>) k;
     Some (RT_EOK, mq_init_lists mq k)
   }"

definition rt_mq_detach :: "ptr \<Rightarrow> kernel \<Rightarrow> (err \<times> kernel) option" where
  "rt_mq_detach mq k = do {
     RT_ASSERT (mq \<noteq> RT_NULL);
     ASSERT_TYPE mq RT_Object_Class_MessageQueue k;
     ASSERT_SYSTEM mq True k;
     k \<leftarrow> rt_ipc_list_resume_all (Waiters mq) k;
     k \<leftarrow> rt_object_detach mq k;
     Some (RT_EOK, k)
   }"

definition rt_mq_delete :: "(ptr \<Rightarrow> kernel \<Rightarrow> kernel) \<Rightarrow> ptr \<Rightarrow> kernel \<Rightarrow> (err \<times> kernel) option" where
  "rt_mq_delete free mq k = do {
     RT_DEBUG_NOT_IN_INTERRUPT k;
     RT_ASSERT (mq \<noteq> RT_NULL);
     ASSERT_TYPE mq RT_Object_Class_MessageQueue k;
     ASSERT_SYSTEM mq False k;
     k \<leftarrow> rt_ipc_list_resume_all (Waiters mq) k;
     let k = free (mq_pool (mqs k mq)) k;
     k \<leftarrow> rt_object_delete free mq k;
     Some (RT_EOK, k)
   }"

definition rt_mq_create ::
  "(u32 \<Rightarrow> kernel \<Rightarrow> ptr \<times> kernel) \<Rightarrow> (ptr \<Rightarrow> kernel \<Rightarrow> kernel) \<Rightarrow> (u8 \<Rightarrow> u32) \<Rightarrow> string \<Rightarrow> u32 \<Rightarrow> u32 \<Rightarrow> u8 \<Rightarrow> kernel
     \<Rightarrow> (ptr \<times> kernel) option" where
  "rt_mq_create malloc free size_of nm msz maxm fl k = do {
     RT_DEBUG_NOT_IN_INTERRUPT k;
     (mq, k) \<leftarrow> rt_object_allocate malloc size_of RT_Object_Class_MessageQueue nm k;
     if mq = RT_NULL then Some (mq, k)
     else do {
       let k = upd_obj mq (\<lambda>ob. ob\<lparr>flag := fl\<rparr>) k;
       k \<leftarrow> rt_ipc_object_init mq k;
       let k = upd_mq mq (\<lambda>m. m\<lparr>msg_size := ucast (RT_ALIGN msz RT_ALIGN_SIZE), max_msgs := ucast maxm\<rparr>) k;
       let (pool, k) = malloc ((ucast (msg_size (mqs k mq)) + 4) * ucast (max_msgs (mqs k mq))) k;
       let k = upd_mq mq (\<lambda>m. m\<lparr>mq_pool := pool\<rparr>) k;
       if pool = RT_NULL then do {
         (_, k) \<leftarrow> rt_mq_delete free mq k;
         Some (RT_NULL, k)
       }
       else Some (mq, mq_init_lists mq k)
     }
   }"

text \<open>Sending: a slot is taken from the free list; the body is copied; the slot is linked.\<close>

definition mq_take_free :: "ptr \<Rightarrow> kernel \<Rightarrow> ptr \<times> kernel" where
  "mq_take_free mq k =
     (let msg = msg_queue_free (mqs k mq) in
      if msg = RT_NULL then (msg, k)
      else (msg, upd_mq mq (\<lambda>m. m\<lparr>msg_queue_free := pmem k msg\<rparr>) k))"

definition mq_copy_in :: "ptr \<Rightarrow> ptr \<Rightarrow> u32 \<Rightarrow> kernel \<Rightarrow> kernel option" where
  "mq_copy_in msg buffer sz k = do {
     m \<leftarrow> rt_memcpy (msg + MQ_HDR) buffer (unat sz) (bmem k);
     Some (k\<lparr>bmem := m\<rparr>)
   }"

definition mq_link_tail :: "ptr \<Rightarrow> ptr \<Rightarrow> kernel \<Rightarrow> kernel" where
  "mq_link_tail mq msg k =
     (let tail = msg_queue_tail (mqs k mq);
          k = (if tail \<noteq> RT_NULL then k\<lparr>pmem := (pmem k)(tail := msg)\<rparr> else k);
          k = upd_mq mq (\<lambda>m. m\<lparr>msg_queue_tail := msg\<rparr>) k;
          k = (if msg_queue_head (mqs k mq) = RT_NULL then upd_mq mq (\<lambda>m. m\<lparr>msg_queue_head := msg\<rparr>) k else k)
      in upd_mq mq (\<lambda>m. m\<lparr>mq_entry := mq_entry m + 1\<rparr>) k)"

definition mq_link_head :: "ptr \<Rightarrow> ptr \<Rightarrow> kernel \<Rightarrow> kernel" where
  "mq_link_head mq msg k =
     (let k = k\<lparr>pmem := (pmem k)(msg := msg_queue_head (mqs k mq))\<rparr>;
          k = upd_mq mq (\<lambda>m. m\<lparr>msg_queue_head := msg\<rparr>) k;
          k = (if msg_queue_tail (mqs k mq) = RT_NULL then upd_mq mq (\<lambda>m. m\<lparr>msg_queue_tail := msg\<rparr>) k else k)
      in upd_mq mq (\<lambda>m. m\<lparr>mq_entry := mq_entry m + 1\<rparr>) k)"

definition mq_wake :: "ptr \<Rightarrow> kernel \<Rightarrow> (err \<times> kernel) option" where
  "mq_wake mq k =
     (if \<not> tlist_isempty (Waiters mq) k then do {
        k \<leftarrow> rt_ipc_list_resume (Waiters mq) k;
        k \<leftarrow> rt_schedule k;
        Some (RT_EOK, k)
      }
      else Some (RT_EOK, k))"

definition rt_mq_send :: "ptr \<Rightarrow> ptr \<Rightarrow> u32 \<Rightarrow> kernel \<Rightarrow> (err \<times> kernel) option" where
  "rt_mq_send mq buffer sz k = do {
     RT_ASSERT (mq \<noteq> RT_NULL);
     ASSERT_TYPE mq RT_Object_Class_MessageQueue k;
     RT_ASSERT (buffer \<noteq> RT_NULL);
     RT_ASSERT (sz \<noteq> 0);
     if sz > ucast (msg_size (mqs k mq)) then Some (- RT_ERROR, k)
     else do {
       let (msg, k) = mq_take_free mq k;
       if msg = RT_NULL then Some (- RT_EFULL, k)
       else do {
         let k = k\<lparr>pmem := (pmem k)(msg := RT_NULL)\<rparr>;
         k \<leftarrow> mq_copy_in msg buffer sz k;
         mq_wake mq (mq_link_tail mq msg k)
       }
     }
   }"

definition rt_mq_urgent :: "ptr \<Rightarrow> ptr \<Rightarrow> u32 \<Rightarrow> kernel \<Rightarrow> (err \<times> kernel) option" where
  "rt_mq_urgent mq buffer sz k = do {
     RT_ASSERT (mq \<noteq> RT_NULL);
     ASSERT_TYPE mq RT_Object_Class_MessageQueue k;
     RT_ASSERT (buffer \<noteq> RT_NULL);
     RT_ASSERT (sz \<noteq> 0);
     if sz > ucast (msg_size (mqs k mq)) then Some (- RT_ERROR, k)
     else do {
       let (msg, k) = mq_take_free mq k;
       if msg = RT_NULL then Some (- RT_EFULL, k)
       else do {
         k \<leftarrow> mq_copy_in msg buffer sz k;
         mq_wake mq (mq_link_head mq msg k)
       }
     }
   }"

text \<open>Receiving: the first slot leaves the queue; the body is copied; the slot is free again.\<close>

definition mq_unlink :: "ptr \<Rightarrow> kernel \<Rightarrow> (ptr \<times> kernel) option" where
  "mq_unlink mq k = do {
     let msg = msg_queue_head (mqs k mq);
     C_GUARD (msg \<noteq> RT_NULL);
     let k = upd_mq mq (\<lambda>m. m\<lparr>msg_queue_head := pmem k msg\<rparr>) k;
     let k = (if msg_queue_tail (mqs k mq) = msg then upd_mq mq (\<lambda>m. m\<lparr>msg_queue_tail := RT_NULL\<rparr>) k else k);
     Some (msg, k)
   }"

definition mq_put_free :: "ptr \<Rightarrow> ptr \<Rightarrow> kernel \<Rightarrow> kernel" where
  "mq_put_free mq msg k =
     upd_mq mq (\<lambda>m. m\<lparr>msg_queue_free := msg\<rparr>) (k\<lparr>pmem := (pmem k)(msg := msg_queue_free (mqs k mq))\<rparr>)"

definition mq_recv_loop :: "ptr \<Rightarrow> ptr \<Rightarrow> u32 \<Rightarrow> 32 word \<Rightarrow> kernel \<Rightarrow> (outcome \<times> kernel) option" where
  "mq_recv_loop mq buffer sz timeout k = do {
     let thread = rt_thread_self k;
     if mq_entry (mqs k mq) = 0 then do {
       RT_DEBUG_IN_THREAD_CONTEXT k;
       let k = upd_thread thread (\<lambda>th. th\<lparr>error := RT_EOK\<rparr>) k;
       if timeout = 0 then
         Some (Done (- RT_ETIMEOUT), upd_thread thread (\<lambda>th. th\<lparr>error := - RT_ETIMEOUT\<rparr>) k)
       else do {
         k \<leftarrow> ipc_wait (Waiters mq) (flag (objs k mq)) timeout k;
         k \<leftarrow> rt_schedule k;
         Some (Blocked, k)
       }
     }
     else do {
       (msg, k) \<leftarrow> mq_unlink mq k;
       let k = upd_mq mq (\<lambda>m. m\<lparr>mq_entry := mq_entry m - 1\<rparr>) k;
       let n = (if sz > ucast (msg_size (mqs k mq)) then ucast (msg_size (mqs k mq)) else sz);
       m \<leftarrow> rt_memcpy buffer (msg + MQ_HDR) (unat n) (bmem k);
       let k = k\<lparr>bmem := m\<rparr>;
       Some (Done RT_EOK, mq_put_free mq msg k)
     }
   }"

definition rt_mq_recv :: "ptr \<Rightarrow> ptr \<Rightarrow> u32 \<Rightarrow> 32 word \<Rightarrow> kernel \<Rightarrow> (outcome \<times> kernel) option" where
  "rt_mq_recv mq buffer sz timeout k = do {
     RT_ASSERT (mq \<noteq> RT_NULL);
     ASSERT_TYPE mq RT_Object_Class_MessageQueue k;
     RT_ASSERT (buffer \<noteq> RT_NULL);
     RT_ASSERT (sz \<noteq> 0);
     if mq_entry (mqs k mq) = 0 \<and> timeout = 0 then Some (Done (- RT_ETIMEOUT), k)
     else mq_recv_loop mq buffer sz timeout k
   }"

definition rt_mq_recv_resume :: "ptr \<Rightarrow> ptr \<Rightarrow> u32 \<Rightarrow> 32 word \<Rightarrow> u32 \<Rightarrow> kernel \<Rightarrow> (outcome \<times> kernel) option" where
  "rt_mq_recv_resume mq buffer sz timeout tick_delta k =
     (let e = error (threads k (rt_thread_self k)) in
      if e \<noteq> RT_EOK then Some (Done e, k)
      else mq_recv_loop mq buffer sz (time_left timeout tick_delta (rt_tick_get k)) k)"

partial_function (option) mq_drain :: "ptr \<Rightarrow> kernel \<Rightarrow> kernel option" where
  "mq_drain mq k =
     (if msg_queue_head (mqs k mq) = RT_NULL then Some k
      else do {
        r \<leftarrow> mq_unlink mq k;
        mq_drain mq (mq_put_free mq (fst r) (snd r))
      })"

definition rt_mq_control :: "ptr \<Rightarrow> int \<Rightarrow> kernel \<Rightarrow> (err \<times> kernel) option" where
  "rt_mq_control mq cmd k = do {
     RT_ASSERT (mq \<noteq> RT_NULL);
     ASSERT_TYPE mq RT_Object_Class_MessageQueue k;
     if cmd = RT_IPC_CMD_RESET then do {
       k \<leftarrow> rt_ipc_list_resume_all (Waiters mq) k;
       k \<leftarrow> mq_drain mq k;
       let k = upd_mq mq (\<lambda>m. m\<lparr>mq_entry := 0\<rparr>) k;
       k \<leftarrow> rt_schedule k;
       Some (RT_EOK, k)
     }
     else Some (- RT_ERROR, k)
   }"

subsection \<open>The lists of slots\<close>

definition mq_slots :: "rt_messagequeue \<Rightarrow> ptr list" where
  "mq_slots m = map (\<lambda>i. mq_pool m + i * (unat (msg_size m) + MQ_HDR)) [0..<unat (max_msgs m)]"

text \<open>The free list \<open>fs\<close>, the queue \<open>qs\<close> and the slots \<open>X\<close> in flight are all slots of the pool.\<close>

definition mq_lists :: "(ptr \<Rightarrow> ptr) \<Rightarrow> rt_messagequeue \<Rightarrow> ptr list \<Rightarrow> ptr list \<Rightarrow> ptr list \<Rightarrow> bool" where
  "mq_lists pm m X fs qs \<longleftrightarrow> linked pm (msg_queue_free m) fs \<and> linked pm (msg_queue_head m) qs
     \<and> distinct (X @ fs @ qs) \<and> set (X @ fs @ qs) = set (mq_slots m) \<and> mq_pool m \<noteq> RT_NULL
     \<and> msg_queue_tail m = (if qs = [] then RT_NULL else last qs) \<and> unat (mq_entry m) = length qs"

lemma length_mq_slots [simp]: "length (mq_slots m) = unat (max_msgs m)"
  by (simp add: mq_slots_def)

lemma distinct_mq_slots: "distinct (mq_slots m)"
  by (simp add: mq_slots_def distinct_map inj_on_def)

lemma mq_slot_not_null: "mq_pool m \<noteq> RT_NULL \<Longrightarrow> a \<in> set (mq_slots m) \<Longrightarrow> a \<noteq> RT_NULL"
  by (auto simp: mq_slots_def)

lemma mq_listsD:
  assumes "mq_lists pm m X fs qs"
  shows "linked pm (msg_queue_free m) fs" "linked pm (msg_queue_head m) qs" "distinct (X @ fs @ qs)"
    "set (X @ fs @ qs) = set (mq_slots m)" "mq_pool m \<noteq> RT_NULL"
    "msg_queue_tail m = (if qs = [] then RT_NULL else last qs)" "unat (mq_entry m) = length qs"
    "length X + length fs + length qs = unat (max_msgs m)"
proof -
  show "length X + length fs + length qs = unat (max_msgs m)"
    using assms distinct_card [of "X @ fs @ qs"] distinct_card [OF distinct_mq_slots [of m]]
    by (simp add: mq_lists_def)
qed (use assms in \<open>auto simp: mq_lists_def\<close>)

lemma mq_listsI:
  assumes "linked pm (msg_queue_free m) fs" "linked pm (msg_queue_head m) qs" "distinct (X @ fs @ qs)"
    "set (X @ fs @ qs) = set (mq_slots m)" "mq_pool m \<noteq> RT_NULL"
    "msg_queue_tail m = (if qs = [] then RT_NULL else last qs)" "unat (mq_entry m) = length qs"
  shows "mq_lists pm m X fs qs"
  using assms by (simp add: mq_lists_def)

lemma mq_slots_upd [simp]:
  "mq_slots (m\<lparr>msg_queue_free := x\<rparr>) = mq_slots m" "mq_slots (m\<lparr>msg_queue_head := x\<rparr>) = mq_slots m"
  "mq_slots (m\<lparr>msg_queue_tail := x\<rparr>) = mq_slots m" "mq_slots (m\<lparr>mq_entry := e\<rparr>) = mq_slots m"
  by (simp_all add: mq_slots_def)

lemma mq_lists_take:
  assumes "mq_lists pm m X (a # fs) qs"
  shows "mq_lists pm (m\<lparr>msg_queue_free := pm a\<rparr>) (a # X) fs qs"
  using assms by (auto simp: mq_lists_def)

lemma mq_lists_flight:
  assumes "mq_lists pm m X fs qs" "a \<in> set X"
  shows "mq_lists (pm(a := v)) m X fs qs"
proof -
  have "a \<notin> set fs" "a \<notin> set qs" using assms by (auto simp: mq_lists_def)
  then show ?thesis using assms(1) by (simp add: mq_lists_def)
qed

lemma mq_lists_give:
  assumes "mq_lists pm m (a # X) fs qs"
  shows "mq_lists (pm(a := msg_queue_free m)) (m\<lparr>msg_queue_free := a\<rparr>) X (a # fs) qs"
  using assms mq_slot_not_null [of m a] by (auto simp: mq_lists_def)

lemma mq_entry_less:
  assumes "mq_lists pm m (a # X) fs qs"
  shows "unat (mq_entry m + 1) = Suc (length qs)"
proof -
  have "mq_entry m < max_msgs m" using mq_listsD(7,8) [OF assms] by (simp add: word_less_nat_alt)
  then show ?thesis using unat_Suc_less [of "mq_entry m" "max_msgs m"] mq_listsD(7) [OF assms] by simp
qed

lemma mq_lists_tail:
  assumes l: "mq_lists pm m (a # X) fs qs" and a: "pm a = RT_NULL"
  shows "mq_lists (if msg_queue_tail m \<noteq> RT_NULL then pm(msg_queue_tail m := a) else pm)
     (m\<lparr>msg_queue_tail := a, msg_queue_head := (if msg_queue_head m = RT_NULL then a else msg_queue_head m),
        mq_entry := mq_entry m + 1\<rparr>) X fs (qs @ [a])"
proof -
  note d = mq_listsD [OF l]
  have a0: "a \<noteq> RT_NULL" using mq_slot_not_null [OF d(5)] d(4) by auto
  have e: "unat (mq_entry m + 1) = Suc (length qs)" by (rule mq_entry_less [OF l])
  show ?thesis
  proof (cases qs)
    case Nil
    then show ?thesis using d(1-6) a a0 e by (intro mq_listsI) auto
  next
    case (Cons q qs')
    have lq: "last qs \<in> set qs" using Cons by simp
    have l0: "last qs \<noteq> RT_NULL" using mq_slot_not_null [OF d(5), of "last qs"] d(4) lq by auto
    have h: "msg_queue_head m \<noteq> RT_NULL" using Cons d(2) by auto
    have t: "msg_queue_tail m = last qs" using d(6) Cons by simp
    have "linked (pm(last qs := a)) (msg_queue_head m) (qs @ [a])"
      using linked_snoc [OF d(2) _ _ a a0] Cons d(3) by auto
    moreover have "last qs \<notin> set fs" using lq d(3) by auto
    moreover have "set (X @ fs @ qs @ [a]) = set (mq_slots m)" using d(4) by auto
    moreover have "distinct (X @ fs @ qs @ [a])" using d(3) by auto
    ultimately show ?thesis using d(1,5) e h l0 unfolding t by (intro mq_listsI) simp_all
  qed
qed

lemma mq_lists_head:
  assumes l: "mq_lists pm m (a # X) fs qs"
  shows "mq_lists (pm(a := msg_queue_head m))
     (m\<lparr>msg_queue_head := a, msg_queue_tail := (if msg_queue_tail m = RT_NULL then a else msg_queue_tail m),
        mq_entry := mq_entry m + 1\<rparr>) X fs (a # qs)"
proof -
  note d = mq_listsD [OF l]
  have a0: "a \<noteq> RT_NULL" using mq_slot_not_null [OF d(5)] d(4) by auto
  have "last qs \<noteq> RT_NULL" if "qs \<noteq> []"
    using mq_slot_not_null [OF d(5), of "last qs"] last_in_set [OF that] unfolding d(4) [symmetric] by simp
  then have t: "(if msg_queue_tail m = RT_NULL then a else msg_queue_tail m) = last (a # qs)" using d(6) by auto
  have "a \<notin> set fs" "a \<notin> set qs" "distinct (X @ fs @ a # qs)" using d(3) by auto
  moreover have "set (X @ fs @ a # qs) = set (mq_slots m)" using d(4) by auto
  ultimately show ?thesis unfolding t using d(1,2,5) a0 mq_entry_less [OF l] by (intro mq_listsI) simp_all
qed

lemma mq_lists_unlink:
  assumes l: "mq_lists pm m X fs (a # qs)"
  shows "mq_lists pm (m\<lparr>msg_queue_head := pm a,
     msg_queue_tail := (if msg_queue_tail m = a then RT_NULL else msg_queue_tail m), mq_entry := mq_entry m - 1\<rparr>) (a # X) fs qs"
proof -
  note d = mq_listsD [OF l]
  have "mq_entry m \<noteq> 0" using d(7) by auto
  then have e: "unat (mq_entry m - 1) = length qs" using unat_minus_one [of "mq_entry m"] d(7) by simp
  have "last qs \<noteq> a" if "qs \<noteq> []" using that d(3) last_in_set [OF that] by auto
  then have t: "(if msg_queue_tail m = a then RT_NULL else msg_queue_tail m) = (if qs = [] then RT_NULL else last qs)"
    using d(6) by auto
  have "set (a # X @ fs @ qs) = set (mq_slots m)" "distinct (a # X @ fs @ qs)" using d(3,4) by auto
  then show ?thesis unfolding t using d(1,2,5) e by (intro mq_listsI) simp_all
qed

subsection \<open>Messages\<close>

definition mq_body :: "(ptr \<Rightarrow> u8) \<Rightarrow> rt_messagequeue \<Rightarrow> ptr \<Rightarrow> u8 list" where
  "mq_body bm m a = map (\<lambda>i. bm (a + MQ_HDR + i)) [0..<unat (msg_size m)]"

definition messages :: "kernel \<Rightarrow> ptr \<Rightarrow> u8 list list" where
  "messages k mq = (let m = mqs k mq in
     map (mq_body (bmem k) m) (follow (pmem k) (msg_queue_head m) (unat (mq_entry m))))"

definition bytes_at :: "(ptr \<Rightarrow> u8) \<Rightarrow> ptr \<Rightarrow> nat \<Rightarrow> u8 list" where
  "bytes_at bm a n = map (\<lambda>i. bm (a + i)) [0..<n]"

definition mq_ok :: "kernel \<Rightarrow> ptr \<Rightarrow> bool" where
  "mq_ok k mq \<longleftrightarrow> is_class k mq RT_Object_Class_MessageQueue
     \<and> (flag (objs k mq) = RT_IPC_FLAG_FIFO \<or> flag (objs k mq) = RT_IPC_FLAG_PRIO)
     \<and> (\<exists>fs qs. mq_lists (pmem k) (mqs k mq) [] fs qs)"

text \<open>A buffer of the application lies outside the pool.\<close>

definition outside_pool :: "rt_messagequeue \<Rightarrow> ptr \<Rightarrow> nat \<Rightarrow> bool" where
  "outside_pool m x n \<longleftrightarrow> x + n \<le> mq_pool m \<or> mq_pool m + unat (max_msgs m) * (unat (msg_size m) + MQ_HDR) \<le> x"

lemma mq_ok_lists:
  "mq_ok k mq \<Longrightarrow> objs k' = objs k \<Longrightarrow> mq_lists (pmem k') (mqs k' mq) [] fs qs \<Longrightarrow> mq_ok k' mq"
  unfolding mq_ok_def is_class_def by auto

lemma messages_eq:
  "mq_lists (pmem k) (mqs k mq) X fs qs \<Longrightarrow> messages k mq = map (mq_body (bmem k) (mqs k mq)) qs"
  using mq_listsD(2,7) [of "pmem k" "mqs k mq" X fs qs] linked_follow by (fastforce simp: messages_def Let_def)

lemma mq_slot_bounds:
  assumes "a \<in> set (mq_slots m)"
  shows "mq_pool m \<le> a" "a + (unat (msg_size m) + MQ_HDR) \<le> mq_pool m + unat (max_msgs m) * (unat (msg_size m) + MQ_HDR)"
proof -
  obtain i where i: "i < unat (max_msgs m)" "a = mq_pool m + i * (unat (msg_size m) + MQ_HDR)"
    using assms by (auto simp: mq_slots_def)
  have "Suc i * (unat (msg_size m) + MQ_HDR) \<le> unat (max_msgs m) * (unat (msg_size m) + MQ_HDR)"
    using i(1) by (intro mult_le_mono1) simp
  then show "mq_pool m \<le> a" "a + (unat (msg_size m) + MQ_HDR) \<le> mq_pool m + unat (max_msgs m) * (unat (msg_size m) + MQ_HDR)"
    using i(2) by simp_all
qed

lemma mq_slots_apart:
  assumes "a \<in> set (mq_slots m)" "c \<in> set (mq_slots m)" "a \<noteq> c"
  shows "a + (unat (msg_size m) + MQ_HDR) \<le> c \<or> c + (unat (msg_size m) + MQ_HDR) \<le> a"
proof -
  let ?w = "unat (msg_size m) + MQ_HDR"
  obtain i j where ij: "a = mq_pool m + i * ?w" "c = mq_pool m + j * ?w" "i \<noteq> j"
    using assms by (auto simp: mq_slots_def)
  have "Suc i * ?w \<le> j * ?w" if "i < j" using that by (intro mult_le_mono1) simp
  moreover have "Suc j * ?w \<le> i * ?w" if "j < i" using that by (intro mult_le_mono1) simp
  ultimately show ?thesis using ij by (cases "i < j") auto
qed

lemma mq_body_other:
  assumes "a \<in> set (mq_slots m)" "c \<in> set (mq_slots m)" "a \<noteq> c" "n \<le> unat (msg_size m)"
  shows "mq_body (copied (a + MQ_HDR) src n bm) m c = mq_body bm m c"
  using mq_slots_apart [OF assms(1-3)] assms(4) by (auto simp: mq_body_def copied_def)

lemma mq_body_copied:
  assumes "n \<le> unat (msg_size m)"
  shows "take n (mq_body (copied (a + MQ_HDR) src n bm) m a) = bytes_at bm src n"
  using assms by (auto simp: mq_body_def bytes_at_def copied_def take_map)

lemma mq_body_outside:
  assumes "a \<in> set (mq_slots m)" "outside_pool m x n"
  shows "mq_body (copied x src n bm) m a = mq_body bm m a"
  using mq_slot_bounds [OF assms(1)] assms(2) by (auto simp: mq_body_def copied_def outside_pool_def)

lemma mq_body_cong: "msg_size m' = msg_size m \<Longrightarrow> mq_body bm m' = mq_body bm m"
  by (simp add: mq_body_def fun_eq_iff)

lemma mq_memcpy_in:
  assumes "a \<in> set (mq_slots m)" "outside_pool m x n" "n \<le> unat (msg_size m)"
  shows "rt_memcpy (a + MQ_HDR) x n bm = Some (copied (a + MQ_HDR) x n bm)"
proof -
  have "unat (msg_size m) < 2 ^ 16" using unsigned_less [of "msg_size m"] by simp
  then show ?thesis
    using mq_slot_bounds [OF assms(1)] assms(2,3)
    by (intro rt_memcpy_copied) (auto simp: outside_pool_def up_safe_def)
qed

lemma mq_memcpy_out:
  assumes "a \<in> set (mq_slots m)" "outside_pool m x n" "n \<le> unat (msg_size m)"
  shows "rt_memcpy x (a + MQ_HDR) n bm = Some (copied x (a + MQ_HDR) n bm)"
proof -
  have "unat (msg_size m) < 2 ^ 16" using unsigned_less [of "msg_size m"] by simp
  then show ?thesis
    using mq_slot_bounds [OF assms(1)] assms(2,3)
    by (intro rt_memcpy_copied) (auto simp: outside_pool_def up_safe_def)
qed

lemma kinv_mqs [simp]: "kinv b (k\<lparr>mqs := x, pmem := p, bmem := q\<rparr>) = kinv b k"
  by (simp add: kinv_def timer_inv_def due_def live_def own_timer_def timers_wait_def tstat_def is_class_def)

lemma mq_wake_ok:
  assumes inv: "kinv b k" and k3: "k3 = k\<lparr>mqs := (mqs k)(mq := m), pmem := p, bmem := q\<rparr>"
    and cur: "rt_current_thread k \<noteq> RT_NULL" and ok: "mq_ok k mq" and l: "mq_lists p m [] fs qs"
  shows "\<exists>k'. mq_wake mq k3 = Some (RT_EOK, k') \<and> kinv b k' \<and> mq_ok k' mq
     \<and> kframe (k\<lparr>mqs := (mqs k)(mq := m), pmem := p, bmem := q\<rparr>) k'
     \<and> messages k' mq = map (mq_body q m) qs \<and> wakes_first (Waiters mq) k k'"
proof -
  have i3: "kinv b k3" unfolding k3 by (simp add: inv)
  have c3: "rt_current_thread k3 \<noteq> RT_NULL" using cur k3 by simp
  obtain k' where k': "mq_wake mq k3 = Some (RT_EOK, k')" "kinv b k'" "kframe k3 k'" "wakes_first (Waiters mq) k3 k'"
    using wake_ok [OF i3 c3 is_wait_simps(1) [of mq], of RT_EOK, folded mq_wake_def] by blast
  have f: "mqs k' mq = m" "pmem k' = p" "bmem k' = q"
    using kframe_fields(10,12,13) [OF k'(3)] by (simp_all add: k3)
  have w: "wakes_first (Waiters mq) k k'" using k'(4) wakes_first_cong [of k3 k] by (simp add: k3)
  have "is_class k3 mq RT_Object_Class_MessageQueue" "objs k3 = objs k"
    using ok by (simp_all add: k3 mq_ok_def is_class_def)
  then have "mq_ok k' mq"
    using ok kframe_class [OF k'(3), of mq RT_Object_Class_MessageQueue]
      kframe_obj [OF k'(3), of mq RT_Object_Class_MessageQueue] l f
    by (auto simp: mq_ok_def)
  moreover have "messages k' mq = map (mq_body q m) qs" using messages_eq [of k' mq "[]" fs qs] l f by simp
  ultimately show ?thesis using k'(1,2,3) w unfolding k3 by blast
qed

text \<open>The free list and the full queue.\<close>

lemma mq_free_null:
  assumes "mq_lists pm m [] fs qs"
  shows "msg_queue_free m = RT_NULL \<longleftrightarrow> length qs = unat (max_msgs m)"
  using mq_listsD(1,8) [OF assms] by (cases fs) auto

lemma mq_take_eq:
  assumes "mq_lists (pmem k) (mqs k mq) [] fs qs" "length qs < unat (max_msgs (mqs k mq))"
  shows "\<exists>a fs'. fs = a # fs' \<and> a \<in> set (mq_slots (mqs k mq)) \<and> a \<noteq> RT_NULL \<and> a \<notin> set qs
     \<and> mq_take_free mq k = (a, k\<lparr>mqs := (mqs k)(mq := (mqs k mq)\<lparr>msg_queue_free := pmem k a\<rparr>)\<rparr>)"
proof -
  note d = mq_listsD [OF assms(1)]
  obtain a fs' where fs: "fs = a # fs'" using d(8) assms(2) by (cases fs) auto
  have a: "a \<in> set (mq_slots (mqs k mq))" unfolding d(4) [symmetric] by (simp add: fs)
  have "msg_queue_free (mqs k mq) = a" "a \<noteq> RT_NULL" "a \<notin> set qs" using d(1,3) fs by auto
  with a fs show ?thesis by (auto simp: mq_take_free_def upd_mq_def)
qed

lemma mq_queue_slots: "mq_lists pm m X fs qs \<Longrightarrow> set qs \<subseteq> set (mq_slots m)"
  using mq_listsD(4) [of pm m X fs qs] by auto

lemma mq_guards:
  assumes "mq_ok k mq" "buffer \<noteq> RT_NULL" "sz \<noteq> 0"
  shows "mq \<noteq> RT_NULL" "ASSERT_TYPE mq RT_Object_Class_MessageQueue k = Some ()"
  using assms by (simp_all add: mq_ok_def is_class_def)

lemma map_body_other:
  assumes "a \<in> set (mq_slots m)" "set qs \<subseteq> set (mq_slots m)" "a \<notin> set qs" "n \<le> unat (msg_size m)" "msg_size m' = msg_size m"
  shows "map (mq_body (copied (a + MQ_HDR) src n bm) m') qs = map (mq_body bm m) qs"
proof (rule map_cong [OF refl])
  fix c assume "c \<in> set qs"
  then have "c \<in> set (mq_slots m)" "a \<noteq> c" using assms(2,3) by auto
  with mq_body_other [OF assms(1) this assms(4)] mq_body_cong [OF assms(5)]
  show "mq_body (copied (a + MQ_HDR) src n bm) m' c = mq_body bm m c" by simp
qed

lemma mq_send_room:
  assumes inv: "kinv b k" and ok: "mq_ok k mq" and cur: "rt_current_thread k \<noteq> RT_NULL"
    and buf: "buffer \<noteq> RT_NULL" "sz \<noteq> 0" "outside_pool (mqs k mq) buffer (unat sz)" "unat sz \<le> unat (msg_size (mqs k mq))"
    and room: "length (messages k mq) < unat (max_msgs (mqs k mq))"
  shows "\<exists>x k'. rt_mq_send mq buffer sz k = Some (RT_EOK, k') \<and> kinv b k' \<and> mq_ok k' mq
     \<and> kframe (k\<lparr>mqs := mqs k', pmem := pmem k', bmem := bmem k'\<rparr>) k'
     \<and> messages k' mq = messages k mq @ [x] \<and> take (unat sz) x = bytes_at (bmem k) buffer (unat sz)
     \<and> wakes_first (Waiters mq) k k'"
proof -
  let ?m = "mqs k mq"
  obtain fs qs where l: "mq_lists (pmem k) ?m [] fs qs" using ok by (auto simp: mq_ok_def)
  have ms: "messages k mq = map (mq_body (bmem k) ?m) qs" by (rule messages_eq [OF l])
  obtain a fs' where a: "fs = a # fs'" "a \<in> set (mq_slots ?m)" "a \<noteq> RT_NULL" "a \<notin> set qs"
    "mq_take_free mq k = (a, k\<lparr>mqs := (mqs k)(mq := ?m\<lparr>msg_queue_free := pmem k a\<rparr>)\<rparr>)"
    using mq_take_eq [OF l] room ms by auto
  let ?bm = "copied (a + MQ_HDR) buffer (unat sz) (bmem k)" and ?pm = "(pmem k)(a := RT_NULL)"
  let ?m1 = "?m\<lparr>msg_queue_free := pmem k a\<rparr>"
  let ?pm2 = "if msg_queue_tail ?m1 \<noteq> RT_NULL then ?pm(msg_queue_tail ?m1 := a) else ?pm"
  let ?m2 = "?m1\<lparr>msg_queue_tail := a, msg_queue_head := (if msg_queue_head ?m1 = RT_NULL then a else msg_queue_head ?m1),
    mq_entry := mq_entry ?m1 + 1\<rparr>"
  have "mq_lists (pmem k) ?m1 [a] fs' qs" using mq_lists_take [of "pmem k" ?m "[]" a fs' qs] l a(1) by simp
  then have "mq_lists ?pm ?m1 [a] fs' qs" by (rule mq_lists_flight) simp
  then have l2: "mq_lists ?pm2 ?m2 [] fs' (qs @ [a])" by (rule mq_lists_tail) simp
  let ?k3 = "k\<lparr>mqs := (mqs k)(mq := ?m2), pmem := ?pm2, bmem := ?bm\<rparr>"
  obtain k' where k': "mq_wake mq ?k3 = Some (RT_EOK, k')" "kinv b k'" "mq_ok k' mq" "kframe ?k3 k'"
    "messages k' mq = map (mq_body ?bm ?m2) (qs @ [a])" "wakes_first (Waiters mq) k k'"
    using mq_wake_ok [OF inv refl cur ok l2, of ?bm] by blast
  have link: "mq_link_tail mq a (k\<lparr>mqs := (mqs k)(mq := ?m1), pmem := ?pm, bmem := ?bm\<rparr>) = ?k3"
    by (cases "msg_queue_tail ?m = RT_NULL"; cases "msg_queue_head ?m = RT_NULL") (simp_all add: mq_link_tail_def upd_mq_def Let_def)
  have size: "\<not> sz > ucast (msg_size ?m)" using buf(4) by (simp add: word_less_nat_alt)
  have "rt_mq_send mq buffer sz k = Some (RT_EOK, k')"
    using mq_guards [OF ok buf(1,2)] buf(1,2) size a(3,5) mq_memcpy_in [OF a(2) buf(3,4)] k'(1) link
    by (simp add: rt_mq_send_def mq_copy_in_def)
  moreover have "map (mq_body ?bm ?m2) qs = messages k mq"
    unfolding ms by (rule map_body_other [OF a(2) mq_queue_slots [OF l] a(4) buf(4)]) simp
  moreover have "take (unat sz) (mq_body ?bm ?m2 a) = bytes_at (bmem k) buffer (unat sz)"
    using mq_body_copied [OF buf(4)] mq_body_cong [of ?m2 ?m] by simp
  moreover have "kframe (k\<lparr>mqs := mqs k', pmem := pmem k', bmem := bmem k'\<rparr>) k'"
    using k'(4) kframe_fields(10,12,13) [OF k'(4)] by simp
  ultimately show ?thesis using k' by auto
qed

lemma mq_urgent_room:
  assumes inv: "kinv b k" and ok: "mq_ok k mq" and cur: "rt_current_thread k \<noteq> RT_NULL"
    and buf: "buffer \<noteq> RT_NULL" "sz \<noteq> 0" "outside_pool (mqs k mq) buffer (unat sz)" "unat sz \<le> unat (msg_size (mqs k mq))"
    and room: "length (messages k mq) < unat (max_msgs (mqs k mq))"
  shows "\<exists>x k'. rt_mq_urgent mq buffer sz k = Some (RT_EOK, k') \<and> kinv b k' \<and> mq_ok k' mq
     \<and> kframe (k\<lparr>mqs := mqs k', pmem := pmem k', bmem := bmem k'\<rparr>) k'
     \<and> messages k' mq = x # messages k mq \<and> take (unat sz) x = bytes_at (bmem k) buffer (unat sz)
     \<and> wakes_first (Waiters mq) k k'"
proof -
  let ?m = "mqs k mq"
  obtain fs qs where l: "mq_lists (pmem k) ?m [] fs qs" using ok by (auto simp: mq_ok_def)
  have ms: "messages k mq = map (mq_body (bmem k) ?m) qs" by (rule messages_eq [OF l])
  obtain a fs' where a: "fs = a # fs'" "a \<in> set (mq_slots ?m)" "a \<noteq> RT_NULL" "a \<notin> set qs"
    "mq_take_free mq k = (a, k\<lparr>mqs := (mqs k)(mq := ?m\<lparr>msg_queue_free := pmem k a\<rparr>)\<rparr>)"
    using mq_take_eq [OF l] room ms by auto
  let ?bm = "copied (a + MQ_HDR) buffer (unat sz) (bmem k)"
  let ?m1 = "?m\<lparr>msg_queue_free := pmem k a\<rparr>"
  let ?pm2 = "(pmem k)(a := msg_queue_head ?m1)"
  let ?m2 = "?m1\<lparr>msg_queue_head := a, msg_queue_tail := (if msg_queue_tail ?m1 = RT_NULL then a else msg_queue_tail ?m1),
    mq_entry := mq_entry ?m1 + 1\<rparr>"
  have "mq_lists (pmem k) ?m1 [a] fs' qs" using mq_lists_take [of "pmem k" ?m "[]" a fs' qs] l a(1) by simp
  then have l2: "mq_lists ?pm2 ?m2 [] fs' (a # qs)" by (rule mq_lists_head)
  let ?k3 = "k\<lparr>mqs := (mqs k)(mq := ?m2), pmem := ?pm2, bmem := ?bm\<rparr>"
  obtain k' where k': "mq_wake mq ?k3 = Some (RT_EOK, k')" "kinv b k'" "mq_ok k' mq" "kframe ?k3 k'"
    "messages k' mq = map (mq_body ?bm ?m2) (a # qs)" "wakes_first (Waiters mq) k k'"
    using mq_wake_ok [OF inv refl cur ok l2, of ?bm] by blast
  have link: "mq_link_head mq a (k\<lparr>mqs := (mqs k)(mq := ?m1), bmem := ?bm\<rparr>) = ?k3"
    by (cases "msg_queue_tail ?m = RT_NULL") (simp_all add: mq_link_head_def upd_mq_def Let_def)
  have size: "\<not> sz > ucast (msg_size ?m)" using buf(4) by (simp add: word_less_nat_alt)
  have "rt_mq_urgent mq buffer sz k = Some (RT_EOK, k')"
    using mq_guards [OF ok buf(1,2)] buf(1,2) size a(3,5) mq_memcpy_in [OF a(2) buf(3,4)] k'(1) link
    by (simp add: rt_mq_urgent_def mq_copy_in_def)
  moreover have "map (mq_body ?bm ?m2) qs = messages k mq"
    unfolding ms by (rule map_body_other [OF a(2) mq_queue_slots [OF l] a(4) buf(4)]) simp
  moreover have "take (unat sz) (mq_body ?bm ?m2 a) = bytes_at (bmem k) buffer (unat sz)"
    using mq_body_copied [OF buf(4)] mq_body_cong [of ?m2 ?m] by simp
  moreover have "kframe (k\<lparr>mqs := mqs k', pmem := pmem k', bmem := bmem k'\<rparr>) k'"
    using k'(4) kframe_fields(10,12,13) [OF k'(4)] by simp
  ultimately show ?thesis using k' by auto
qed

subsection \<open>Receiving\<close>

lemma mq_recv_message:
  assumes inv: "kinv b k" and ok: "mq_ok k mq" and ms: "messages k mq = x # xs"
    and n: "n = min (unat sz) (unat (msg_size (mqs k mq)))" and buf: "outside_pool (mqs k mq) buffer n"
  shows "\<exists>k'. mq_recv_loop mq buffer sz timeout k = Some (Done RT_EOK, k') \<and> kinv b k' \<and> mq_ok k' mq
     \<and> k' = k\<lparr>mqs := mqs k', pmem := pmem k', bmem := bmem k'\<rparr> \<and> messages k' mq = xs
     \<and> bytes_at (bmem k') buffer n = take n x \<and> (\<forall>y. y \<notin> {buffer..<buffer + n} \<longrightarrow> bmem k' y = bmem k y)"
proof -
  let ?m = "mqs k mq"
  obtain fs qs0 where l: "mq_lists (pmem k) ?m [] fs qs0" using ok by (auto simp: mq_ok_def)
  have ms': "map (mq_body (bmem k) ?m) qs0 = x # xs" using messages_eq [OF l] ms by simp
  then obtain a qs where qs: "qs0 = a # qs" "x = mq_body (bmem k) ?m a" "xs = map (mq_body (bmem k) ?m) qs" by auto
  note d = mq_listsD [OF l]
  have a: "a \<in> set (mq_slots ?m)" "set qs \<subseteq> set (mq_slots ?m)" using mq_queue_slots [OF l] qs(1) by auto
  have a0: "a \<noteq> RT_NULL" "msg_queue_head ?m = a" using d(2) qs(1) by auto
  have e0: "mq_entry ?m \<noteq> 0" using d(7) qs(1) by auto
  let ?bm = "copied buffer (a + MQ_HDR) n (bmem k)"
  let ?m1 = "?m\<lparr>msg_queue_head := pmem k a, msg_queue_tail := (if msg_queue_tail ?m = a then RT_NULL else msg_queue_tail ?m),
    mq_entry := mq_entry ?m - 1\<rparr>"
  let ?k = "k\<lparr>mqs := (mqs k)(mq := ?m1\<lparr>msg_queue_free := a\<rparr>), pmem := (pmem k)(a := msg_queue_free ?m1), bmem := ?bm\<rparr>"
  have "mq_lists (pmem k) ?m1 [a] fs qs" using mq_lists_unlink [of "pmem k" ?m "[]" fs a qs] l qs(1) by simp
  then have l2: "mq_lists ((pmem k)(a := msg_queue_free ?m1)) (?m1\<lparr>msg_queue_free := a\<rparr>) [] (a # fs) qs"
    by (rule mq_lists_give)
  have u: "mq_unlink mq k = Some (a, k\<lparr>mqs := (mqs k)(mq := ?m\<lparr>msg_queue_head := pmem k a,
      msg_queue_tail := (if msg_queue_tail ?m = a then RT_NULL else msg_queue_tail ?m)\<rparr>)\<rparr>)"
    using a0 by (simp add: mq_unlink_def upd_mq_def Let_def)
  have n': "unat (if sz > ucast (msg_size ?m) then ucast (msg_size ?m) else sz) = n"
    by (simp add: n word_less_nat_alt min_def)
  have "rt_memcpy buffer (a + MQ_HDR) n (bmem k) = Some ?bm"
    by (rule mq_memcpy_out [OF a(1) buf]) (simp add: n)
  then have r: "mq_recv_loop mq buffer sz timeout k = Some (Done RT_EOK, ?k)"
    using e0 u n' by (cases "sz > ucast (msg_size ?m)") (simp_all add: mq_recv_loop_def upd_mq_def mq_put_free_def Let_def)
  have m2: "messages ?k mq = xs"
  proof -
    have "messages ?k mq = map (mq_body ?bm (?m1\<lparr>msg_queue_free := a\<rparr>)) qs"
      using messages_eq [of ?k mq "[]" "a # fs" qs] l2 by simp
    also have "\<dots> = map (mq_body (bmem k) ?m) qs"
      using mq_body_outside [OF _ buf] a(2) mq_body_cong [of "?m1\<lparr>msg_queue_free := a\<rparr>" ?m]
      by (intro map_cong [OF refl]) (simp add: subset_iff)
    finally show ?thesis using qs(3) by simp
  qed
  have "mq_ok ?k mq" using l2 by (intro mq_ok_lists [OF ok, where fs = "a # fs" and qs = qs]) simp_all
  moreover have "bytes_at ?bm buffer n = take n x"
    by (simp add: bytes_at_def copied_def qs(2) mq_body_def take_map n min_def)
  moreover have "\<forall>y. y \<notin> {buffer..<buffer + n} \<longrightarrow> ?bm y = bmem k y" by (auto simp: copied_def)
  ultimately show ?thesis using r inv m2 by (intro exI [of _ ?k]) simp
qed

lemma mq_recv_blocks:
  assumes inv: "kinv b k" and ok: "mq_ok k mq" and ms: "messages k mq = []"
    and c: "tstat k (rt_current_thread k) = RT_THREAD_RUNNING" "interrupt_nest k = 0" and time: "wait_time_ok timeout"
  shows "\<exists>k'. mq_recv_loop mq buffer sz timeout k = Some (Blocked, k')
     \<and> kinv b k' \<and> kframe k k' \<and> mq_ok k' mq \<and> messages k' mq = [] \<and> waits (Waiters mq) (flag (objs k mq)) timeout k k'"
proof -
  have e: "mq_entry (mqs k mq) = 0"
  proof -
    obtain fs qs where l: "mq_lists (pmem k) (mqs k mq) [] fs qs" using ok by (auto simp: mq_ok_def)
    then show ?thesis using messages_eq [OF l] mq_listsD(7) [OF l] ms by (simp add: unat_eq_0)
  qed
  obtain k1 k' where k': "ipc_wait (Waiters mq) (flag (objs k mq)) timeout (reset_error (rt_current_thread k) k) = Some k1"
    "rt_schedule k1 = Some k'" "kinv b k'" "kframe k k'" "waits (Waiters mq) (flag (objs k mq)) timeout k k'"
    using ipc_waits [OF inv c(1) is_wait_simps(1) _ time] ok unfolding mq_ok_def by blast
  have "mq_recv_loop mq buffer sz timeout k = Some (Blocked, k')"
    using e c running_not_null [OF inv c(1)] k'(1,2) time
    by (simp add: mq_recv_loop_def Let_def rt_thread_self_def RT_DEBUG_IN_THREAD_CONTEXT_def
        RT_DEBUG_NOT_IN_INTERRUPT_def wait_time_ok_def)
  moreover have "mqs k' = mqs k" "pmem k' = pmem k" "bmem k' = bmem k"
    using kframe_fields(10,12,13) [OF k'(4)] by simp_all
  moreover from this have "mq_ok k' mq" "messages k' mq = []"
    using ok ms kframe_class [OF k'(4)] kframe_obj [OF k'(4), of mq RT_Object_Class_MessageQueue]
    by (simp_all add: mq_ok_def messages_def)
  ultimately show ?thesis using k' by blast
qed

subsection \<open>Initialisation\<close>

lemma mq_slot_eq:
  assumes "i * (unat (msg_size m) + MQ_HDR) < 2 ^ 32"
  shows "mq_slot m i = mq_pool m + i * (unat (msg_size m) + MQ_HDR)"
proof -
  have "of_nat i * (ucast (msg_size m) + 4) = (of_nat (i * (unat (msg_size m) + 4)) :: u32)" by simp
  then have "unat (of_nat i * (ucast (msg_size m) + 4) :: u32) = i * (unat (msg_size m) + 4)"
    using assms by (simp only:) (simp only: unat_of_nat, simp)
  then show ?thesis by (simp add: mq_slot_def)
qed

lemma mq_free_loop_ok:
  assumes "linked (pmem k) (msg_queue_free (mqs k mq)) (rev (map (\<lambda>i. p + i * w) [0..<t]))"
    "p = mq_pool (mqs k mq)" "w = unat (msg_size (mqs k mq)) + MQ_HDR" "p \<noteq> RT_NULL" "(t + n) * w < 2 ^ 32"
  shows "\<exists>pm f. mq_free_loop mq t n k = k\<lparr>mqs := (mqs k)(mq := (mqs k mq)\<lparr>msg_queue_free := f\<rparr>), pmem := pm\<rparr>
     \<and> linked pm f (rev (map (\<lambda>i. p + i * w) [0..<t + n]))"
  using assms
proof (induction n arbitrary: t k)
  case 0
  then show ?case by (intro exI [of _ "pmem k"] exI [of _ "msg_queue_free (mqs k mq)"]) simp
next
  case (Suc n)
  let ?h = "p + t * w"
  let ?k = "k\<lparr>mqs := (mqs k)(mq := (mqs k mq)\<lparr>msg_queue_free := ?h\<rparr>), pmem := (pmem k)(?h := msg_queue_free (mqs k mq))\<rparr>"
  have tw: "t * w < 2 ^ 32" using Suc.prems(5) mult_le_mono1 [of t "t + Suc n" w] by linarith
  then have s: "mq_slot (mqs k mq) t = ?h" using mq_slot_eq [of t "mqs k mq"] Suc.prems(2,3) by simp
  have "?h \<notin> set (rev (map (\<lambda>i. p + i * w) [0..<t]))" using Suc.prems(3) by auto
  then have l: "linked (pmem ?k) (msg_queue_free (mqs ?k mq)) (rev (map (\<lambda>i. p + i * w) [0..<Suc t]))"
    using Suc.prems(1,4) by simp
  have f: "p = mq_pool (mqs ?k mq)" "w = unat (msg_size (mqs ?k mq)) + MQ_HDR" "(Suc t + n) * w < 2 ^ 32"
    using Suc.prems(2,3,5) by simp_all
  from Suc.IH [OF l f(1,2) Suc.prems(4) f(3)]
  obtain pm f where r: "mq_free_loop mq (Suc t) n ?k = ?k\<lparr>mqs := (mqs ?k)(mq := (mqs ?k mq)\<lparr>msg_queue_free := f\<rparr>), pmem := pm\<rparr>"
    and lf: "linked pm f (rev (map (\<lambda>i. p + i * w) [0..<Suc t + n]))" by blast
  have "upd_mq mq (\<lambda>m. m\<lparr>msg_queue_free := ?h\<rparr>) (k\<lparr>pmem := (pmem k)(?h := msg_queue_free (mqs k mq))\<rparr>) = ?k"
    by (simp add: upd_mq_def)
  then have "mq_free_loop mq t (Suc n) k = mq_free_loop mq (Suc t) n ?k" by (simp only: mq_free_loop.simps s Let_def)
  also have "\<dots> = k\<lparr>mqs := (mqs k)(mq := (mqs k mq)\<lparr>msg_queue_free := f\<rparr>), pmem := pm\<rparr>"
    unfolding r by simp
  finally have "mq_free_loop mq t (Suc n) k = k\<lparr>mqs := (mqs k)(mq := (mqs k mq)\<lparr>msg_queue_free := f\<rparr>), pmem := pm\<rparr>" .
  moreover have "linked pm f (rev (map (\<lambda>i. p + i * w) [0..<t + Suc n]))" using lf by (simp only: add_Suc add_Suc_right)
  ultimately show ?case by blast
qed

lemma mq_init_lists_ok:
  assumes "mq_pool (mqs k mq) \<noteq> RT_NULL" "unat (max_msgs (mqs k mq)) * (unat (msg_size (mqs k mq)) + MQ_HDR) < 2 ^ 32"
  shows "\<exists>m pm. mq_init_lists mq k = k\<lparr>mqs := (mqs k)(mq := m), pmem := pm\<rparr>
     \<and> mq_pool m = mq_pool (mqs k mq) \<and> msg_size m = msg_size (mqs k mq) \<and> max_msgs m = max_msgs (mqs k mq)
     \<and> mq_lists pm m [] (rev (mq_slots m)) []"
proof -
  let ?m = "(mqs k mq)\<lparr>msg_queue_head := RT_NULL, msg_queue_tail := RT_NULL, msg_queue_free := RT_NULL\<rparr>"
  let ?k = "k\<lparr>mqs := (mqs k)(mq := ?m)\<rparr>"
  obtain pm f where f: "mq_free_loop mq 0 (unat (max_msgs ?m)) ?k = ?k\<lparr>mqs := (mqs ?k)(mq := (mqs ?k mq)\<lparr>msg_queue_free := f\<rparr>), pmem := pm\<rparr>"
    "linked pm f (rev (map (\<lambda>i. mq_pool ?m + i * (unat (msg_size ?m) + MQ_HDR)) [0..<unat (max_msgs ?m)]))"
  proof -
    have "linked (pmem ?k) (msg_queue_free (mqs ?k mq)) (rev (map (\<lambda>i. mq_pool ?m + i * (unat (msg_size ?m) + MQ_HDR)) [0..<0]))"
      by simp
    from mq_free_loop_ok [OF this, of "unat (max_msgs ?m)"] assms that show thesis by auto
  qed
  let ?m' = "?m\<lparr>msg_queue_free := f, mq_entry := 0\<rparr>"
  have "mq_lists pm ?m' [] (rev (mq_slots ?m')) []"
    using f(2) assms(1) distinct_mq_slots [of ?m'] by (intro mq_listsI) (simp_all add: mq_slots_def)
  then show ?thesis using f(1) by (intro exI [of _ ?m'] exI [of _ pm]) (simp add: mq_init_lists_def upd_mq_def Let_def)
qed

subsection \<open>Reset\<close>

lemma kinv_mqs_pmem [simp]: "kinv b (k\<lparr>mqs := x, pmem := p\<rparr>) = kinv b k" "kinv b (k\<lparr>mqs := x\<rparr>) = kinv b k"
  by (simp_all add: kinv_def timer_inv_def due_def live_def own_timer_def timers_wait_def tstat_def is_class_def)

lemma mq_drain_ok:
  assumes "mq_lists (pmem k) ((mqs k mq)\<lparr>mq_entry := of_nat (length qs)\<rparr>) [] fs qs"
  shows "\<exists>m pm fs'. mq_drain mq k = Some (k\<lparr>mqs := (mqs k)(mq := m), pmem := pm\<rparr>)
     \<and> mq_pool m = mq_pool (mqs k mq) \<and> msg_size m = msg_size (mqs k mq) \<and> max_msgs m = max_msgs (mqs k mq)
     \<and> mq_lists pm (m\<lparr>mq_entry := 0\<rparr>) [] fs' []"
  using assms
proof (induction qs arbitrary: k fs)
  case Nil
  have "msg_queue_head (mqs k mq) = RT_NULL" using mq_listsD(2) [OF Nil] by simp
  then have "mq_drain mq k = Some k" by (subst mq_drain.simps) simp
  with Nil show ?case by (intro exI [of _ "mqs k mq"] exI [of _ "pmem k"] exI [of _ fs]) simp
next
  case (Cons a qs)
  let ?m = "mqs k mq"
  let ?n = "?m\<lparr>mq_entry := of_nat (length (a # qs))\<rparr>"
  have a: "msg_queue_head ?m = a" "a \<noteq> RT_NULL" using mq_listsD(2) [OF Cons.prems] by auto
  let ?t = "if msg_queue_tail ?m = a then RT_NULL else msg_queue_tail ?m"
  let ?m1 = "?m\<lparr>msg_queue_head := pmem k a, msg_queue_tail := ?t, msg_queue_free := a\<rparr>"
  let ?k = "k\<lparr>mqs := (mqs k)(mq := ?m1), pmem := (pmem k)(a := msg_queue_free ?m)\<rparr>"
  have step: "mq_drain mq k = mq_drain mq ?k"
  proof -
    have "mq_unlink mq k = Some (a, k\<lparr>mqs := (mqs k)(mq := ?m\<lparr>msg_queue_head := pmem k a, msg_queue_tail := ?t\<rparr>)\<rparr>)"
      using a by (simp add: mq_unlink_def upd_mq_def Let_def)
    moreover have "mq_put_free mq a (k\<lparr>mqs := (mqs k)(mq := ?m\<lparr>msg_queue_head := pmem k a, msg_queue_tail := ?t\<rparr>)\<rparr>) = ?k"
      by (simp add: mq_put_free_def upd_mq_def)
    ultimately show ?thesis using a by (subst mq_drain.simps) simp
  qed
  let ?e = "?n\<lparr>msg_queue_head := pmem k a, msg_queue_tail := (if msg_queue_tail ?n = a then RT_NULL else msg_queue_tail ?n),
    mq_entry := mq_entry ?n - 1\<rparr>"
  have "mq_lists (pmem k) ?e [a] fs qs" by (rule mq_lists_unlink [OF Cons.prems])
  then have "mq_lists ((pmem k)(a := msg_queue_free ?e)) (?e\<lparr>msg_queue_free := a\<rparr>) [] (a # fs) qs" by (rule mq_lists_give)
  moreover have "?e\<lparr>msg_queue_free := a\<rparr> = (mqs ?k mq)\<lparr>mq_entry := of_nat (length qs)\<rparr>"
    "(pmem k)(a := msg_queue_free ?e) = pmem ?k" by simp_all
  ultimately have "mq_lists (pmem ?k) ((mqs ?k mq)\<lparr>mq_entry := of_nat (length qs)\<rparr>) [] (a # fs) qs" by (simp only:)
  from Cons.IH [OF this]
  obtain m pm fs' where r: "mq_drain mq ?k = Some (?k\<lparr>mqs := (mqs ?k)(mq := m), pmem := pm\<rparr>)"
    "mq_pool m = mq_pool (mqs ?k mq)" "msg_size m = msg_size (mqs ?k mq)" "max_msgs m = max_msgs (mqs ?k mq)"
    "mq_lists pm (m\<lparr>mq_entry := 0\<rparr>) [] fs' []" by blast
  have "mq_drain mq k = Some (k\<lparr>mqs := (mqs k)(mq := m), pmem := pm\<rparr>)" unfolding step r(1) by simp
  moreover have "mq_pool m = mq_pool ?m" "msg_size m = msg_size ?m" "max_msgs m = max_msgs ?m" using r(2-4) by simp_all
  ultimately show ?case using r(5) by blast
qed

subsection \<open>What a message queue guarantees\<close>

text \<open>C21: \<^verbatim>\<open>rt_mq_send\<close>: a message longer than the queue's message size is refused with \<^verbatim>\<open>-RT_ERROR\<close>, a full
  queue refuses with \<^verbatim>\<open>-RT_EFULL\<close>, both without any change; otherwise the bytes of the buffer are
  the head of a new last message, and the first waiting receiver is woken. Free list, queue and
  pool stay consistent.\<close>

theorem mq_send_spec:
  assumes "kinv b k" "mq_ok k mq" "rt_current_thread k \<noteq> RT_NULL" "buffer \<noteq> RT_NULL" "sz \<noteq> 0"
    "outside_pool (mqs k mq) buffer (unat sz)"
  shows "\<exists>e k'. rt_mq_send mq buffer sz k = Some (e, k') \<and> kinv b k' \<and> mq_ok k' mq
     \<and> (if unat (msg_size (mqs k mq)) < unat sz then e = - RT_ERROR \<and> k' = k
        else if length (messages k mq) = unat (max_msgs (mqs k mq)) then e = - RT_EFULL \<and> k' = k
        else e = RT_EOK \<and> kframe (k\<lparr>mqs := mqs k', pmem := pmem k', bmem := bmem k'\<rparr>) k'
          \<and> wakes_first (Waiters mq) k k'
          \<and> (\<exists>x. messages k' mq = messages k mq @ [x] \<and> take (unat sz) x = bytes_at (bmem k) buffer (unat sz)))"
proof -
  obtain fs qs where l: "mq_lists (pmem k) (mqs k mq) [] fs qs" using assms(2) by (auto simp: mq_ok_def)
  have n: "length (messages k mq) = length qs" using messages_eq [OF l] by simp
  have c: "is_class k mq RT_Object_Class_MessageQueue" "mq \<noteq> RT_NULL" using assms(2) by (auto simp: mq_ok_def is_class_def)
  consider "unat (msg_size (mqs k mq)) < unat sz"
    | "\<not> unat (msg_size (mqs k mq)) < unat sz" "length qs = unat (max_msgs (mqs k mq))"
    | "unat sz \<le> unat (msg_size (mqs k mq))" "length qs < unat (max_msgs (mqs k mq))"
    using mq_listsD(8) [OF l] by linarith
  then show ?thesis
  proof cases
    case 1
    then show ?thesis using c assms(1,2,4,5) by (simp add: rt_mq_send_def word_less_nat_alt)
  next
    case 2
    then have "msg_queue_free (mqs k mq) = RT_NULL" using mq_free_null [OF l] by simp
    with 2 n show ?thesis using c assms(1,2,4,5) by (simp add: rt_mq_send_def mq_take_free_def word_less_nat_alt)
  next
    case 3
    then show ?thesis using mq_send_room [OF assms(1-6)] n by auto
  qed
qed

lemma demo_mq: "mq_ok demo 60" "messages demo 60 = [[188, 189, 190, 191]]" "mqs demo 60 = \<lparr>mq_pool = 3000, msg_size = 4, max_msgs = 2, mq_entry = 1, msg_queue_head = 3000,
       msg_queue_tail = 3000, msg_queue_free = 3008\<rparr>" "bmem demo = of_nat"
proof -
  have "mq_lists (pmem demo) (mqs demo 60) [] [3008] [3000]"
    by (simp add: mq_lists_def mq_slots_def demo_def upt_rec insert_commute)
  then show "mq_ok demo 60" by (auto simp: mq_ok_def is_class_def demo_def ex_obj_def)
qed (simp_all add: messages_def mq_body_def demo_def upt_rec fun_eq_iff)

theorem mq_send_spec_witness:
  "\<exists>x k'. rt_mq_send 60 8000 3 demo = Some (RT_EOK, k') \<and> messages k' 60 = [[188, 189, 190, 191], x] \<and> take 3 x = [64, 65, 66]"
  using mq_send_spec [OF demo_kinv demo_mq(1), of 8000 3]
  by (auto simp: demo_mq outside_pool_def bytes_at_def upt_rec)

text \<open>C22: \<^verbatim>\<open>rt_mq_recv\<close>: the oldest message is copied to the buffer, cut to the shorter of the two sizes,
  no other byte outside is written, and its slot is free again; on an empty queue the call ends
  with \<^verbatim>\<open>-RT_ETIMEOUT\<close> and no change, or waits.\<close>

theorem mq_recv_spec:
  assumes "kinv b k" "mq_ok k mq" "buffer \<noteq> RT_NULL" "sz \<noteq> 0" "n = min (unat sz) (unat (msg_size (mqs k mq)))"
    "outside_pool (mqs k mq) buffer n"
    "timeout = 0 \<or> wait_time_ok timeout \<and> tstat k (rt_current_thread k) = RT_THREAD_RUNNING \<and> interrupt_nest k = 0"
  shows "\<exists>out k'. rt_mq_recv mq buffer sz timeout k = Some (out, k') \<and> kinv b k' \<and> mq_ok k' mq
     \<and> (case messages k mq of
          x # xs \<Rightarrow> out = Done RT_EOK \<and> messages k' mq = xs \<and> bytes_at (bmem k') buffer n = take n x
            \<and> (\<forall>y. y \<notin> {buffer..<buffer + n} \<longrightarrow> bmem k' y = bmem k y)
            \<and> k' = k\<lparr>mqs := mqs k', pmem := pmem k', bmem := bmem k'\<rparr>
        | [] \<Rightarrow> messages k' mq = []
            \<and> (if timeout = 0 then out = Done (- RT_ETIMEOUT) \<and> k' = k
               else out = Blocked \<and> waits (Waiters mq) (flag (objs k mq)) timeout k k'))"
proof -
  obtain fs qs where l: "mq_lists (pmem k) (mqs k mq) [] fs qs" using assms(2) by (auto simp: mq_ok_def)
  have e: "mq_entry (mqs k mq) = 0 \<longleftrightarrow> messages k mq = []"
    using messages_eq [OF l] mq_listsD(7) [OF l] by (auto simp: unat_eq_0)
  have c: "is_class k mq RT_Object_Class_MessageQueue" "mq \<noteq> RT_NULL" using assms(2) by (auto simp: mq_ok_def is_class_def)
  show ?thesis
  proof (cases "messages k mq")
    case (Cons x xs)
    then have "rt_mq_recv mq buffer sz timeout k = mq_recv_loop mq buffer sz timeout k"
      using e c assms(3,4) by (simp add: rt_mq_recv_def)
    with Cons mq_recv_message [OF assms(1,2) Cons assms(5,6), of timeout] show ?thesis by auto
  next
    case Nil
    show ?thesis
    proof (cases "timeout = 0")
      case True
      then show ?thesis using Nil e c assms(1-4) by (simp add: rt_mq_recv_def)
    next
      case False
      then obtain k' where k': "mq_recv_loop mq buffer sz timeout k = Some (Blocked, k')" "kinv b k'" "mq_ok k' mq"
        "messages k' mq = []" "waits (Waiters mq) (flag (objs k mq)) timeout k k'"
        using mq_recv_blocks [OF assms(1,2) Nil] assms(7) by blast
      then show ?thesis using Nil False c assms(3,4) by (simp add: rt_mq_recv_def)
    qed
  qed
qed

theorem mq_recv_spec_witness:
  "\<exists>k'. rt_mq_recv 60 8000 3 0 demo = Some (Done RT_EOK, k') \<and> messages k' 60 = [] \<and> bytes_at (bmem k') 8000 3 = [188, 189, 190]"
  using mq_recv_spec [OF demo_kinv demo_mq(1), of 8000 3 3 0]
  by (auto simp: demo_mq outside_pool_def)

text \<open>Resetting a message queue with \<^verbatim>\<open>rt_mq_control\<close> terminates: all messages are dropped, all slots are
  free, and every waiting receiver is woken with the error \<^verbatim>\<open>-RT_ERROR\<close>.\<close>

lemma mq_reset_spec:
  assumes "kinv b k" "mq_ok k mq" "rt_current_thread k \<noteq> RT_NULL"
  shows "\<exists>k'. rt_mq_control mq RT_IPC_CMD_RESET k = Some (RT_EOK, k') \<and> kinv b k' \<and> mq_ok k' mq \<and> messages k' mq = []
     \<and> tlists k' (Waiters mq) = []
     \<and> (\<forall>t \<in> set (tlists k (Waiters mq)). tstat k' t \<in> {RT_THREAD_READY, RT_THREAD_RUNNING} \<and> error (threads k' t) = - RT_ERROR)"
proof -
  obtain k1 where k1: "rt_ipc_list_resume_all (Waiters mq) k = Some k1" "kinv b k1" "kframe k k1" "tlists k1 (Waiters mq) = []"
    "\<forall>t \<in> set (tlists k (Waiters mq)). tstat k1 t \<in> {RT_THREAD_READY, RT_THREAD_RUNNING} \<and> error (threads k1 t) = - RT_ERROR"
    "rt_current_thread k1 = rt_current_thread k"
    using ipc_resume_all_ok [OF assms(1) is_wait_simps(1)] by blast
  have f: "mqs k1 = mqs k" "pmem k1 = pmem k" using kframe_fields(10,12) [OF k1(3)] by simp_all
  obtain fs qs where l: "mq_lists (pmem k) (mqs k mq) [] fs qs" using assms(2) by (auto simp: mq_ok_def)
  have "of_nat (length qs) = mq_entry (mqs k mq)" using mq_listsD(7) [OF l] by (metis of_nat_unat ucast_id)
  then have "(mqs k1 mq)\<lparr>mq_entry := of_nat (length qs)\<rparr> = mqs k mq" by (simp add: f)
  with l have "mq_lists (pmem k1) ((mqs k1 mq)\<lparr>mq_entry := of_nat (length qs)\<rparr>) [] fs qs" by (simp only: f)
  from mq_drain_ok [OF this]
  obtain m pm fs' where d: "mq_drain mq k1 = Some (k1\<lparr>mqs := (mqs k1)(mq := m), pmem := pm\<rparr>)" "mq_lists pm (m\<lparr>mq_entry := 0\<rparr>) [] fs' []"
    by blast
  let ?k2 = "k1\<lparr>mqs := (mqs k1)(mq := m\<lparr>mq_entry := 0\<rparr>), pmem := pm\<rparr>"
  have i2: "kinv b ?k2" using k1(2) by simp
  have r2: "rt_current_thread ?k2 \<noteq> RT_NULL" using k1(6) assms(3) by simp
  obtain k' where k': "rt_schedule ?k2 = Some k'" "kinv b k'" "kframe ?k2 k'" "stat_moves ?k2 k'"
    "\<forall>x. tlists k' (Waiters x) = tlists ?k2 (Waiters x) \<and> tlists k' (Senders x) = tlists ?k2 (Senders x)"
    "\<forall>t. error (threads k' t) = error (threads ?k2 t)"
    using kinv_schedule [OF i2 r2] by blast
  have c: "is_class k mq RT_Object_Class_MessageQueue" "mq \<noteq> RT_NULL" using assms(2) by (auto simp: mq_ok_def is_class_def)
  have "upd_mq mq (\<lambda>m. m\<lparr>mq_entry := 0\<rparr>) (k1\<lparr>mqs := (mqs k1)(mq := m), pmem := pm\<rparr>) = ?k2" by (simp add: upd_mq_def)
  then have "rt_mq_control mq RT_IPC_CMD_RESET k = Some (RT_EOK, k')"
    using c k1(1) d(1) k'(1) by (simp add: rt_mq_control_def)
  moreover have l': "mq_lists (pmem k') (mqs k' mq) [] fs' []" using kframe_fields(10,12) [OF k'(3)] d(2) by simp
  moreover have "mq_ok k' mq"
  proof -
    have o: "objs k1 mq = objs k mq" using kframe_obj [OF k1(3) c(1)] by simp
    moreover have "objs k' mq = objs ?k2 mq"
      by (rule kframe_obj [OF k'(3), where c = RT_Object_Class_MessageQueue]) (use c o in \<open>simp_all add: is_class_def\<close>)
    ultimately show ?thesis using assms(2) l' by (auto simp: mq_ok_def is_class_def)
  qed
  moreover have "tstat k' t \<in> {RT_THREAD_READY, RT_THREAD_RUNNING} \<and> error (threads k' t) = - RT_ERROR"
    if "t \<in> set (tlists k (Waiters mq))" for t
  proof -
    have "tstat ?k2 t = tstat k1 t" by (simp add: tstat_def)
    then show ?thesis using k1(5) k'(6) that stat_moves_moved [OF k'(4), of t] by (auto simp: stat_moved_def)
  qed
  ultimately show ?thesis using k'(2,5) k1(4) messages_eq [OF l'] by simp
qed

text \<open>\<^verbatim>\<open>rt_mq_init\<close> over a buffer of \<open>psz\<close> bytes leaves an empty, well-formed queue of as many slots as
  fit, every slot inside the buffer, provided the aligned message size and the number of slots fit
  the 16-bit fields that hold them.\<close>

lemma mq_init_spec:
  assumes "sched_inv k" "mq \<noteq> RT_NULL" "mq \<notin> set (object_list k RT_Object_Class_MessageQueue)" "tlists k (Waiters mq) = []"
    "pool \<noteq> RT_NULL" "w = RT_ALIGN msz 4" "w < 0x10000" "unat psz div (unat w + 4) < 0x10000"
    "fl = RT_IPC_FLAG_FIFO \<or> fl = RT_IPC_FLAG_PRIO"
  shows "\<exists>k'. rt_mq_init mq nm pool msz psz fl k = Some (RT_EOK, k') \<and> mq_ok k' mq \<and> messages k' mq = []
     \<and> unat (max_msgs (mqs k' mq)) = unat psz div (unat w + 4)
     \<and> (\<forall>a \<in> set (mq_slots (mqs k' mq)). pool \<le> a \<and> a + (unat w + 4) \<le> pool + unat psz)"
proof -
  have tc: "RT_Object_Class_MessageQueue \<in> set rt_object_container" by (simp add: rt_object_container_def)
  obtain k0 k1 where k1: "rt_object_init mq RT_Object_Class_MessageQueue nm k = Some k1"
    "sched_frame (k\<lparr>scheduler_lock_nest := scheduler_lock_nest k0\<rparr>) k0"
    "k1 = k0\<lparr>objs := (objs k)(mq := (objs k mq)\<lparr>otype := RT_Object_Class_MessageQueue OR RT_Object_Class_Static,
        name := rt_strncpy nm RT_NAME_MAX\<rparr>), object_list := seq_insert_after RT_Object_Class_MessageQueue mq (object_list k)\<rparr>"
    "\<forall>x. tlists k1 (Waiters x) = tlists k (Waiters x)"
    using rt_object_init_ok [OF assms(1) tc assms(3)] by blast
  let ?k3 = "tlist_init (Waiters mq) (upd_obj mq (\<lambda>ob. ob\<lparr>flag := fl\<rparr>) k1)"
  let ?n = "psz div (ucast (ucast w :: u16) + 4)"
  let ?m = "(mqs k1 mq)\<lparr>mq_pool := pool, msg_size := ucast w, max_msgs := ucast ?n\<rparr>"
  let ?k4 = "?k3\<lparr>mqs := (mqs k1)(mq := ?m)\<rparr>"
  have uw: "unat (ucast w :: u16) = unat w" by (rule unat_trunc16 [OF assms(7)])
  have "unat (ucast (ucast w :: u16) + 4 :: u32) = unat w + 4"
    using unat_add_lem [of "ucast (ucast w :: u16) :: u32" 4] assms(7) uw by (simp add: word_less_nat_alt)
  then have un: "unat ?n = unat psz div (unat w + 4)" by (simp add: unat_div)
  have um: "unat (max_msgs ?m) = unat psz div (unat w + 4)"
    using unat_trunc16 [of ?n] un assms(8) by (simp add: word_less_nat_alt)
  have fit: "unat (max_msgs ?m) * (unat (msg_size ?m) + MQ_HDR) \<le> unat psz" using um uw by simp
  have fit32: "unat (max_msgs ?m) * (unat (msg_size ?m) + MQ_HDR) < 2 ^ 32"
    using fit unsigned_less [of psz, where 'a = nat] by simp
  have "mq_pool (mqs ?k4 mq) \<noteq> RT_NULL" using assms(5) by simp
  with mq_init_lists_ok [of ?k4 mq] fit32
  obtain m pm where m: "mq_init_lists mq ?k4 = ?k4\<lparr>mqs := (mqs ?k4)(mq := m), pmem := pm\<rparr>"
    "mq_pool m = pool" "msg_size m = ucast w" "max_msgs m = max_msgs ?m" "mq_lists pm m [] (rev (mq_slots m)) []"
    by auto
  let ?k = "?k4\<lparr>mqs := (mqs ?k4)(mq := m), pmem := pm\<rparr>"
  have "rt_mq_init mq nm pool msz psz fl k = Some (RT_EOK, mq_init_lists mq ?k4)"
    using assms(2,4,6) k1(1,4)
    by (simp add: rt_mq_init_def rt_ipc_object_init_def tlist_isempty_def upd_mq_def upd_obj_def tlist_init_def)
  then have r: "rt_mq_init mq nm pool msz psz fl k = Some (RT_EOK, ?k)" by (simp only: m(1))
  have l: "mq_lists (pmem ?k) (mqs ?k mq) [] (rev (mq_slots m)) []" using m(5) by simp
  have "is_class ?k mq RT_Object_Class_MessageQueue" "flag (objs ?k mq) = fl"
    using assms(2) by (simp_all add: is_class_def k1(3) upd_obj_def tlist_init_def)
  then have "mq_ok ?k mq" unfolding mq_ok_def using assms(9) l by blast
  moreover have "messages ?k mq = []" using messages_eq [OF l] by simp
  moreover have "pool \<le> a \<and> a + (unat w + 4) \<le> pool + unat psz" if "a \<in> set (mq_slots (mqs ?k mq))" for a
    using mq_slot_bounds [OF that] m(2-4) fit uw by simp
  ultimately show ?thesis using r m(4) um by (intro exI [of _ ?k]) simp
qed

end
