(* ===== verification/RT_Mempool.thy ===== *)
theory RT_Mempool
  imports RT_Example
begin

text \<open>
  Memory pools (\<^verbatim>\<open>src/mempool.c\<close>): blocks of one size, each behind a link word. The link word of a
  free block points to the next free block, that of an allocated block to its pool; \<^verbatim>\<open>rt_mp_free\<close>
  relies on that to find the pool. Threads that wait for a block stand in the pool's list, the
  latest first, and are counted in \<^verbatim>\<open>suspend_thread_count\<close>.
\<close>

subsection \<open>Operations\<close>

abbreviation (input) MP_HDR :: nat where "MP_HDR \<equiv> 4"

text \<open>\<^verbatim>\<open>offset * (block_size + sizeof(rt_uint8_t *))\<close> from the start.\<close>

definition mp_block :: "ptr \<Rightarrow> u32 \<Rightarrow> nat \<Rightarrow> ptr" where
  "mp_block start bs offset = start + unat (of_nat offset * (bs + 4))"

fun mp_link_loop :: "ptr \<Rightarrow> u32 \<Rightarrow> nat \<Rightarrow> nat \<Rightarrow> (ptr \<Rightarrow> ptr) \<Rightarrow> (ptr \<Rightarrow> ptr)" where
  "mp_link_loop start bs offset 0 m = m"
| "mp_link_loop start bs offset (Suc n) m =
     mp_link_loop start bs (Suc offset) n (m(mp_block start bs offset := mp_block start bs (Suc offset)))"

text \<open>
  The loop and the store behind it that ends the list. With no block at all that store would go
  to an address before the pool; the guard excludes it.
\<close>

definition mp_link_blocks :: "ptr \<Rightarrow> kernel \<Rightarrow> kernel option" where
  "mp_link_blocks mp k = do {
     let p = mempools k mp;
     let n = unat (block_total_count p);
     let m = mp_link_loop (start_address p) (block_size p) 0 n (pmem k);
     C_GUARD (n \<noteq> 0);
     let m = m(mp_block (start_address p) (block_size p) (n - 1) := RT_NULL);
     Some (upd_mp mp (\<lambda>p. p\<lparr>block_list := start_address p\<rparr>) (k\<lparr>pmem := m\<rparr>))
   }"

definition rt_mp_init :: "ptr \<Rightarrow> string \<Rightarrow> ptr \<Rightarrow> u32 \<Rightarrow> u32 \<Rightarrow> kernel \<Rightarrow> (err \<times> kernel) option" where
  "rt_mp_init mp nm start sz bs k = do {
     RT_ASSERT (mp \<noteq> RT_NULL);
     RT_ASSERT (start \<noteq> RT_NULL);
     RT_ASSERT (sz > 0 \<and> bs > 0);
     k \<leftarrow> rt_object_init mp RT_Object_Class_MemPool nm k;
     let k = upd_mp mp (\<lambda>p. p\<lparr>start_address := start, mp_size := RT_ALIGN_DOWN sz RT_ALIGN_SIZE\<rparr>) k;
     let bs = RT_ALIGN bs RT_ALIGN_SIZE;
     let k = upd_mp mp (\<lambda>p. p\<lparr>block_size := bs\<rparr>) k;
     C_GUARD (bs + 4 \<noteq> 0);
     let k = upd_mp mp (\<lambda>p. p\<lparr>block_total_count := mp_size p div (block_size p + 4)\<rparr>) k;
     let k = upd_mp mp (\<lambda>p. p\<lparr>block_free_count := block_total_count p\<rparr>) k;
     C_GUARD (tlist_isempty (Waiters mp) k);
     let k = tlist_init (Waiters mp) k;
     let k = upd_mp mp (\<lambda>p. p\<lparr>suspend_thread_count := 0\<rparr>) k;
     k \<leftarrow> mp_link_blocks mp k;
     Some (RT_EOK, k)
   }"

partial_function (option) mp_resume_all :: "ptr \<Rightarrow> kernel \<Rightarrow> kernel option" where
  "mp_resume_all mp k =
     (if tlist_isempty (Waiters mp) k then Some k
      else do {
        thread \<leftarrow> tlist_first (Waiters mp) k;
        r \<leftarrow> rt_thread_resume thread (upd_thread thread (\<lambda>th. th\<lparr>error := - RT_ERROR\<rparr>) k);
        mp_resume_all mp (upd_mp mp (\<lambda>p. p\<lparr>suspend_thread_count := suspend_thread_count p - 1\<rparr>) (snd r))
      })"

definition rt_mp_detach :: "ptr \<Rightarrow> kernel \<Rightarrow> (err \<times> kernel) option" where
  "rt_mp_detach mp k = do {
     RT_ASSERT (mp \<noteq> RT_NULL);
     ASSERT_TYPE mp RT_Object_Class_MemPool k;
     ASSERT_SYSTEM mp True k;
     k \<leftarrow> mp_resume_all mp k;
     k \<leftarrow> rt_object_detach mp k;
     Some (RT_EOK, k)
   }"

definition rt_mp_create ::
  "(u32 \<Rightarrow> kernel \<Rightarrow> ptr \<times> kernel) \<Rightarrow> (ptr \<Rightarrow> kernel \<Rightarrow> kernel) \<Rightarrow> (u8 \<Rightarrow> u32) \<Rightarrow> string \<Rightarrow> u32 \<Rightarrow> u32 \<Rightarrow> kernel
     \<Rightarrow> (ptr \<times> kernel) option" where
  "rt_mp_create malloc free size_of nm count bs k = do {
     RT_DEBUG_NOT_IN_INTERRUPT k;
     RT_ASSERT (count > 0 \<and> bs > 0);
     (mp, k) \<leftarrow> rt_object_allocate malloc size_of RT_Object_Class_MemPool nm k;
     if mp = RT_NULL then Some (RT_NULL, k)
     else do {
       let bs = RT_ALIGN bs RT_ALIGN_SIZE;
       let k = upd_mp mp (\<lambda>p. p\<lparr>block_size := bs, mp_size := (bs + 4) * count\<rparr>) k;
       let (start, k) = malloc ((bs + 4) * count) k;
       let k = upd_mp mp (\<lambda>p. p\<lparr>start_address := start\<rparr>) k;
       if start = RT_NULL then do {
         k \<leftarrow> rt_object_delete free mp k;
         Some (RT_NULL, k)
       }
       else do {
         let k = upd_mp mp (\<lambda>p. p\<lparr>block_total_count := count, block_free_count := count\<rparr>) k;
         C_GUARD (tlist_isempty (Waiters mp) k);
         let k = tlist_init (Waiters mp) k;
         let k = upd_mp mp (\<lambda>p. p\<lparr>suspend_thread_count := 0\<rparr>) k;
         k \<leftarrow> mp_link_blocks mp k;
         Some (mp, k)
       }
     }
   }"

definition rt_mp_delete :: "(ptr \<Rightarrow> kernel \<Rightarrow> kernel) \<Rightarrow> ptr \<Rightarrow> kernel \<Rightarrow> (err \<times> kernel) option" where
  "rt_mp_delete free mp k = do {
     RT_DEBUG_NOT_IN_INTERRUPT k;
     RT_ASSERT (mp \<noteq> RT_NULL);
     ASSERT_TYPE mp RT_Object_Class_MemPool k;
     ASSERT_SYSTEM mp False k;
     k \<leftarrow> mp_resume_all mp k;
     let k = free (start_address (mempools k mp)) k;
     k \<leftarrow> rt_object_delete free mp k;
     Some (RT_EOK, k)
   }"

definition mp_alloc_loop :: "ptr \<Rightarrow> 32 word \<Rightarrow> kernel \<Rightarrow> (alloc_outcome \<times> kernel) option" where
  "mp_alloc_loop mp time k = do {
     let thread = rt_thread_self k;
     if block_free_count (mempools k mp) = 0 then
       if time = 0 then Some (Block RT_NULL, rt_set_errno (- RT_ETIMEOUT) k)
       else do {
         RT_DEBUG_NOT_IN_INTERRUPT k;
         C_GUARD (thread \<noteq> RT_NULL);
         let k = upd_thread thread (\<lambda>th. th\<lparr>error := RT_EOK\<rparr>) k;
         (_, k) \<leftarrow> rt_thread_suspend thread k;
         C_GUARD (seq_detached thread (tlists k));
         let k = tlist_insert_after (Waiters mp) thread k;
         let k = upd_mp mp (\<lambda>p. p\<lparr>suspend_thread_count := suspend_thread_count p + 1\<rparr>) k;
         k \<leftarrow> (if sint time > 0 then arm_timer thread time k else Some k);
         k \<leftarrow> rt_schedule k;
         Some (Waiting, k)
       }
     else do {
       let k = upd_mp mp (\<lambda>p. p\<lparr>block_free_count := block_free_count p - 1\<rparr>) k;
       let block_ptr = block_list (mempools k mp);
       RT_ASSERT (block_ptr \<noteq> RT_NULL);
       let k = upd_mp mp (\<lambda>p. p\<lparr>block_list := pmem k block_ptr\<rparr>) k;
       let k = k\<lparr>pmem := (pmem k)(block_ptr := mp)\<rparr>;
       Some (Block (block_ptr + MP_HDR), k)
     }
   }"

definition rt_mp_alloc :: "ptr \<Rightarrow> 32 word \<Rightarrow> kernel \<Rightarrow> (alloc_outcome \<times> kernel) option" where
  "rt_mp_alloc mp time k = do {
     RT_ASSERT (mp \<noteq> RT_NULL);
     mp_alloc_loop mp time k
   }"

definition rt_mp_alloc_resume :: "ptr \<Rightarrow> 32 word \<Rightarrow> u32 \<Rightarrow> kernel \<Rightarrow> (alloc_outcome \<times> kernel) option" where
  "rt_mp_alloc_resume mp time before_sleep k =
     (if error (threads k (rt_thread_self k)) \<noteq> RT_EOK then Some (Block RT_NULL, k)
      else mp_alloc_loop mp (time_left time before_sleep (rt_tick_get k)) k)"

definition rt_mp_free :: "ptr \<Rightarrow> kernel \<Rightarrow> kernel option" where
  "rt_mp_free block k =
     (if block = RT_NULL then Some k
      else do {
        let block_ptr = block - MP_HDR;
        let mp = pmem k block_ptr;
        C_GUARD (mp \<noteq> RT_NULL);
        let k = upd_mp mp (\<lambda>p. p\<lparr>block_free_count := block_free_count p + 1\<rparr>) k;
        let k = k\<lparr>pmem := (pmem k)(block_ptr := block_list (mempools k mp))\<rparr>;
        let k = upd_mp mp (\<lambda>p. p\<lparr>block_list := block_ptr\<rparr>) k;
        if suspend_thread_count (mempools k mp) > 0 then do {
          thread \<leftarrow> tlist_first (Waiters mp) k;
          let k = upd_thread thread (\<lambda>th. th\<lparr>error := RT_EOK\<rparr>) k;
          (_, k) \<leftarrow> rt_thread_resume thread k;
          let k = upd_mp mp (\<lambda>p. p\<lparr>suspend_thread_count := suspend_thread_count p - 1\<rparr>) k;
          rt_schedule k
        }
        else Some k
      })"

subsection \<open>Free and used blocks\<close>

definition mp_blocks :: "rt_mempool \<Rightarrow> ptr list" where
  "mp_blocks p = map (\<lambda>i. start_address p + i * (unat (block_size p) + MP_HDR)) [0..<unat (block_total_count p)]"

definition mp_free_list :: "kernel \<Rightarrow> ptr \<Rightarrow> ptr list" where
  "mp_free_list k mp = follow (pmem k) (block_list (mempools k mp)) (unat (block_free_count (mempools k mp)))"

definition mp_lists :: "(ptr \<Rightarrow> ptr) \<Rightarrow> ptr \<Rightarrow> rt_mempool \<Rightarrow> ptr list \<Rightarrow> bool" where
  "mp_lists pm mp p fs \<longleftrightarrow> linked pm (block_list p) fs \<and> distinct fs \<and> set fs \<subseteq> set (mp_blocks p)
     \<and> unat (block_free_count p) = length fs \<and> mp \<noteq> RT_NULL \<and> start_address p \<noteq> RT_NULL
     \<and> (\<forall>x \<in> set (mp_blocks p) - set fs. pm x = mp)"

definition mp_ok :: "kernel \<Rightarrow> ptr \<Rightarrow> bool" where
  "mp_ok k mp \<longleftrightarrow> (\<exists>fs. mp_lists (pmem k) mp (mempools k mp) fs)
     \<and> unat (suspend_thread_count (mempools k mp)) = length (tlists k (Waiters mp))"

lemma mp_free_list_eq: "mp_lists (pmem k) mp (mempools k mp) fs \<Longrightarrow> mp_free_list k mp = fs"
  using linked_follow [of "pmem k" "block_list (mempools k mp)" fs] by (simp add: mp_lists_def mp_free_list_def)

lemma mp_ok_eq: "mp_ok k mp \<longleftrightarrow> mp_lists (pmem k) mp (mempools k mp) (mp_free_list k mp)
     \<and> unat (suspend_thread_count (mempools k mp)) = length (tlists k (Waiters mp))"
  using mp_free_list_eq unfolding mp_ok_def by metis

lemma mp_blocks_upd [simp]:
  "mp_blocks (p\<lparr>block_free_count := c\<rparr>) = mp_blocks p" "mp_blocks (p\<lparr>block_list := b\<rparr>) = mp_blocks p"
  "mp_blocks (p\<lparr>suspend_thread_count := n\<rparr>) = mp_blocks p"
  by (simp_all add: mp_blocks_def)

lemma distinct_mp_blocks: "distinct (mp_blocks p)"
  by (simp add: mp_blocks_def distinct_map inj_on_def)

lemma mp_lists_suspend [simp]: "mp_lists pm mp (p\<lparr>suspend_thread_count := n\<rparr>) fs = mp_lists pm mp p fs"
  by (simp add: mp_lists_def)

lemma mp_block_not_null: "mp_lists pm mp p fs \<Longrightarrow> x \<in> set (mp_blocks p) \<Longrightarrow> x \<noteq> RT_NULL"
  by (auto simp: mp_lists_def mp_blocks_def)

lemma mp_lists_pop:
  assumes "mp_lists pm mp p (x # fs)"
  shows "mp_lists (pm(x := mp)) mp (p\<lparr>block_free_count := block_free_count p - 1, block_list := pm x\<rparr>) fs"
proof -
  have "block_free_count p \<noteq> 0" using assms by (auto simp: mp_lists_def)
  then have "unat (block_free_count p - 1) = length fs" using unat_minus_one assms by (fastforce simp: mp_lists_def)
  then show ?thesis using assms by (auto simp: mp_lists_def)
qed

lemma mp_lists_push:
  assumes l: "mp_lists pm mp p fs" and x: "x \<in> set (mp_blocks p)" "x \<notin> set fs"
  shows "mp_lists (pm(x := block_list p)) mp (p\<lparr>block_free_count := block_free_count p + 1, block_list := x\<rparr>) (x # fs)"
proof -
  have "card (set (x # fs)) \<le> card (set (mp_blocks p))" using l x by (intro card_mono) (auto simp: mp_lists_def)
  then have "Suc (length fs) \<le> unat (block_total_count p)"
    using l x distinct_card [of "x # fs"] distinct_card [OF distinct_mp_blocks [of p]] by (simp add: mp_lists_def mp_blocks_def)
  then have "block_free_count p < block_total_count p" using l by (simp add: mp_lists_def word_less_nat_alt)
  then have "unat (block_free_count p + 1) = Suc (length fs)"
    using unat_Suc_less [of "block_free_count p" "block_total_count p"] l by (simp add: mp_lists_def)
  then show ?thesis using l x mp_block_not_null [OF l x(1)] by (auto simp: mp_lists_def)
qed

lemma kinv_mempools [simp]: "kinv b (k\<lparr>mempools := x, pmem := p\<rparr>) = kinv b k" "kinv b (k\<lparr>mempools := x\<rparr>) = kinv b k"
  by (simp_all add: kinv_def timer_inv_def due_def live_def own_timer_def timers_wait_def tstat_def is_class_def)

subsection \<open>Allocating\<close>

lemma mp_alloc_block:
  assumes "mp_ok k mp" "mp_free_list k mp = x # fs"
  shows "\<exists>p. mp_alloc_loop mp time k = Some (Block (x + MP_HDR), k\<lparr>mempools := (mempools k)(mp := p), pmem := (pmem k)(x := mp)\<rparr>)
     \<and> mp_lists ((pmem k)(x := mp)) mp p fs \<and> mp_blocks p = mp_blocks (mempools k mp)
     \<and> suspend_thread_count p = suspend_thread_count (mempools k mp)"
proof -
  let ?p = "mempools k mp"
  have l: "mp_lists (pmem k) mp ?p (x # fs)" using assms by (simp add: mp_ok_eq)
  have nz: "block_free_count ?p \<noteq> 0" "block_list ?p = x" "x \<noteq> RT_NULL" using l by (auto simp: mp_lists_def)
  let ?q = "?p\<lparr>block_free_count := block_free_count ?p - 1, block_list := pmem k x\<rparr>"
  have "mp_alloc_loop mp time k = Some (Block (x + MP_HDR), k\<lparr>mempools := (mempools k)(mp := ?q), pmem := (pmem k)(x := mp)\<rparr>)"
    using nz by (simp add: mp_alloc_loop_def upd_mp_def Let_def)
  with mp_lists_pop [OF l] show ?thesis by (intro exI [of _ ?q]) simp
qed

lemma kframe_mempools: "kframe k k' \<Longrightarrow> kframe (k\<lparr>mempools := m\<rparr>) (k'\<lparr>mempools := m\<rparr>)"
  unfolding kframe_def is_class_def by (cases k; cases k') simp

lemma joins_mempools: "joins k c l q k' \<Longrightarrow> joins (k\<lparr>mempools := m\<rparr>) c l q (k'\<lparr>mempools := m\<rparr>)"
  using kframe_mempools [of k k' m] by (simp add: joins_def tstat_def)

lemma mp_alloc_waits:
  assumes inv: "kinv b k" and ok: "mp_ok k mp" "mp_free_list k mp = []"
    and c: "c = rt_current_thread k" "tstat k c = RT_THREAD_RUNNING" "interrupt_nest k = 0" and time: "wait_time_ok time"
    and few: "length (tlists k (Waiters mp)) + 1 < 2 ^ 32"
  shows "\<exists>k'. mp_alloc_loop mp time k = Some (Waiting, k') \<and> kinv b k' \<and> mp_ok k' mp \<and> mp_free_list k' mp = []
     \<and> kframe (k\<lparr>mempools := mempools k'\<rparr>) k' \<and> tstat k' c = RT_THREAD_SUSPEND \<and> error (threads k' c) = RT_EOK
     \<and> tlists k' (Waiters mp) = c # tlists k (Waiters mp) \<and> timer_set k c time k'
     \<and> rt_current_thread k' \<noteq> RT_NULL \<and> mp_blocks (mempools k' mp) = mp_blocks (mempools k mp)"
proof -
  let ?l = "Waiters mp" and ?e = "reset_error c k"
  let ?q = "c # tlists k ?l"
  let ?M = "(mempools k)(mp := (mempools k mp)\<lparr>suspend_thread_count := suspend_thread_count (mempools k mp) + 1\<rparr>)"
  have e: "kinv b ?e" "kframe k ?e" using kinv_error [OF inv] by auto
  have te: "tstat ?e c = RT_THREAD_RUNNING" using c(2) by (simp add: tstat_def upd_thread_def)
  have c0: "c \<noteq> RT_NULL" by (rule running_not_null [OF inv c(2)])
  have det: "seq_detached c (tlists k)"
    using not_listed [OF sched_inv_core [OF kinvD(1) [OF inv]]] c(2) by simp
  have fam: "list_family (tlists k)" using core_invD(1) [OF sched_inv_core [OF kinvD(1) [OF inv]]] .
  have q: "set ?q = insert c (set (tlists ?e ?l))" "distinct ?q"
    using detached_not_on [OF det] list_family_distinct [OF fam] by simp_all
  obtain k1 where k1: "rt_thread_suspend c ?e = Some (RT_EOK, k1)" "seq_detached c (tlists k1)" "tlists k1 = tlists k"
    "kinv b (k1\<lparr>tlists := (tlists k)(?l := ?q)\<rparr>)" "joins ?e c ?l ?q (k1\<lparr>tlists := (tlists k)(?l := ?q)\<rparr>)"
    "timer_list k1 = timer_list k" "timers k1 = timers k" "kframe ?e k1"
    using suspend_join_ok [OF e(1) te is_wait_simps(1) q] by auto
  have mk: "mempools k1 = mempools k" using kframe_fields(11) [OF k1(8)] by simp
  let ?j = "k1\<lparr>tlists := (tlists k)(?l := ?q)\<rparr>\<lparr>mempools := ?M\<rparr>" and ?b = "?e\<lparr>mempools := ?M\<rparr>"
  have j: "kinv b ?j" "joins ?b c ?l ?q ?j" using k1(4) joins_mempools [OF k1(5)] by simp_all
  have "timer_list ?j = timer_list ?b" "timers ?j = timers ?b" using k1(6,7) by simp_all
  from timed_join_ok [OF j this time]
  obtain k2 where k2: "(if 0 < sint time then arm_timer c time ?j else Some ?j) = Some k2" "kinv b k2"
    "joins ?b c ?l ?q k2" "timer_set ?b c time k2" by blast
  have "rt_current_thread ?b \<noteq> RT_NULL" using c0 c(1) by simp
  from join_block_ok [OF k2(2-4) is_wait_simps(1) this]
  obtain k' where k': "rt_schedule k2 = Some k'" "kinv b k'" "kframe ?b k'" "tstat k' c = RT_THREAD_SUSPEND"
    "tlists k' ?l = ?q" "\<forall>u. error (threads k' u) = error (threads ?b u)" "timer_set ?b c time k'"
    "rt_current_thread k' \<noteq> RT_NULL" by blast
  have fc: "block_free_count (mempools k mp) = 0"
    using ok by (auto simp: mp_ok_eq mp_lists_def unat_eq_0)
  have t0: "time \<noteq> 0" using time by (simp add: wait_time_ok_def)
  have a: "upd_mp mp (\<lambda>p. p\<lparr>suspend_thread_count := suspend_thread_count p + 1\<rparr>) (tlist_insert_after ?l c k1) = ?j"
    using k1(2,3) mk by (simp add: upd_mp_def tlist_insert_after_def seq_insert_after_def)
  have ra: "mp_alloc_loop mp time k = Some (Waiting, k')"
    using fc t0 c(1,3) c0 k1(1,2) a k2(1) k'(1)
    by (cases "0 < sint time") (simp_all add: mp_alloc_loop_def rt_thread_self_def RT_DEBUG_NOT_IN_INTERRUPT_def Let_def)
  have m': "mempools k' = ?M" "pmem k' = pmem k" using kframe_fields(11,12) [OF k'(3)] by simp_all
  have l: "mp_lists (pmem k') mp (mempools k' mp) []" using ok by (simp add: mp_ok_eq m')
  have cnt: "unat (suspend_thread_count (mempools k mp) + 1) = Suc (length (tlists k ?l))"
    using ok(1) few unat_add_lem [of "suspend_thread_count (mempools k mp)" 1] by (simp add: mp_ok_eq)
  have "mp_ok k' mp" using l cnt k'(5) mp_free_list_eq [OF l] by (auto simp: mp_ok_eq m')
  moreover have "kframe (k\<lparr>mempools := mempools k'\<rparr>) k'"
    using kframe_trans [OF kframe_mempools [OF e(2)] k'(3)] by (simp add: m')
  moreover have "timer_set k c time k'" using k'(7) by (simp add: timer_set_def upd_thread_def split: if_splits)
  moreover have "error (threads k' c) = RT_EOK" using k'(6) by (simp add: upd_thread_def)
  moreover have "mp_blocks (mempools k' mp) = mp_blocks (mempools k mp)" by (simp add: m')
  ultimately show ?thesis using ra k' mp_free_list_eq [OF l] by blast
qed

subsection \<open>Freeing\<close>

lemma mp_free_eq:
  assumes ok: "mp_ok k mp" and x: "x \<in> set (mp_blocks (mempools k mp))" "x \<notin> set (mp_free_list k mp)"
  shows "\<exists>p. mp_lists ((pmem k)(x := block_list (mempools k mp))) mp p (x # mp_free_list k mp)
     \<and> suspend_thread_count p = suspend_thread_count (mempools k mp) \<and> mp_blocks p = mp_blocks (mempools k mp)
     \<and> rt_mp_free (x + MP_HDR) k =
        (let k = k\<lparr>mempools := (mempools k)(mp := p), pmem := (pmem k)(x := block_list (mempools k mp))\<rparr> in
         if suspend_thread_count (mempools k mp) > 0 then do {
          thread \<leftarrow> tlist_first (Waiters mp) k;
          let k = upd_thread thread (\<lambda>th. th\<lparr>error := RT_EOK\<rparr>) k;
          (_, k) \<leftarrow> rt_thread_resume thread k;
          let k = upd_mp mp (\<lambda>p. p\<lparr>suspend_thread_count := suspend_thread_count p - 1\<rparr>) k;
          rt_schedule k
        }
        else Some k)"
proof -
  let ?p = "mempools k mp"
  have l: "mp_lists (pmem k) mp ?p (mp_free_list k mp)" using ok by (simp add: mp_ok_eq)
  have pm: "pmem k x = mp" "mp \<noteq> RT_NULL" using l x by (auto simp: mp_lists_def)
  let ?q = "?p\<lparr>block_free_count := block_free_count ?p + 1, block_list := x\<rparr>"
  let ?k = "k\<lparr>mempools := (mempools k)(mp := ?q), pmem := (pmem k)(x := block_list ?p)\<rparr>"
  have "upd_mp mp (\<lambda>p. p\<lparr>block_list := x\<rparr>) (upd_mp mp (\<lambda>p. p\<lparr>block_free_count := block_free_count p + 1\<rparr>) k
      \<lparr>pmem := (pmem k)(x := block_list ?p)\<rparr>) = ?k" by (simp add: upd_mp_def)
  moreover have "block_list (mempools (upd_mp mp (\<lambda>p. p\<lparr>block_free_count := block_free_count p + 1\<rparr>) k) mp) = block_list ?p"
    "pmem (upd_mp mp (\<lambda>p. p\<lparr>block_free_count := block_free_count p + 1\<rparr>) k) = pmem k" by (simp_all add: upd_mp_def)
  ultimately show ?thesis using mp_lists_push [OF l x] pm
    by (intro exI [of _ ?q]) (simp add: rt_mp_free_def Let_def)
qed

lemma mp_free_wakes:
  assumes inv: "kinv b k" and ok: "mp_ok k mp" and x: "x \<in> set (mp_blocks (mempools k mp))" "x \<notin> set (mp_free_list k mp)"
    and cur: "rt_current_thread k \<noteq> RT_NULL" and w: "tlists k (Waiters mp) = t # q"
  shows "\<exists>k'. rt_mp_free (x + MP_HDR) k = Some k' \<and> kinv b k' \<and> mp_ok k' mp \<and> mp_free_list k' mp = x # mp_free_list k mp
     \<and> kframe (k\<lparr>mempools := mempools k', pmem := pmem k'\<rparr>) k' \<and> mp_blocks (mempools k' mp) = mp_blocks (mempools k mp)
     \<and> tstat k' t \<in> {RT_THREAD_READY, RT_THREAD_RUNNING} \<and> error (threads k' t) = RT_EOK \<and> tlists k' (Waiters mp) = q"
proof -
  let ?pm = "(pmem k)(x := block_list (mempools k mp))"
  obtain p where p: "mp_lists ?pm mp p (x # mp_free_list k mp)"
     "suspend_thread_count p = suspend_thread_count (mempools k mp)" "mp_blocks p = mp_blocks (mempools k mp)"
     "rt_mp_free (x + MP_HDR) k =
        (let k = k\<lparr>mempools := (mempools k)(mp := p), pmem := ?pm\<rparr> in
         if suspend_thread_count (mempools k mp) > 0 then do {
          thread \<leftarrow> tlist_first (Waiters mp) k;
          let k = upd_thread thread (\<lambda>th. th\<lparr>error := RT_EOK\<rparr>) k;
          (_, k) \<leftarrow> rt_thread_resume thread k;
          let k = upd_mp mp (\<lambda>p. p\<lparr>suspend_thread_count := suspend_thread_count p - 1\<rparr>) k;
          rt_schedule k
        }
        else Some k)"
    using mp_free_eq [OF ok x] by blast
  let ?k1 = "k\<lparr>mempools := (mempools k)(mp := p), pmem := ?pm\<rparr>"
  let ?k2 = "upd_thread t (\<lambda>th. th\<lparr>error := RT_EOK\<rparr>) ?k1"
  have cnt: "unat (suspend_thread_count (mempools k mp)) = Suc (length q)" using ok w by (simp add: mp_ok_eq)
  then have c0: "suspend_thread_count p \<noteq> 0" using p(2) by auto
  have i1: "kinv b ?k1" using inv by simp
  have i2: "kinv b ?k2" "kframe ?k1 ?k2" using kinv_error [OF i1] by auto
  have w2: "tlists ?k2 (Waiters mp) = t # q" using w by simp
  obtain k3 where k3: "rt_ipc_list_resume (Waiters mp) ?k2 = Some k3" "kinv b k3" "kframe ?k2 k3"
     "tstat k3 t \<in> {RT_THREAD_READY, RT_THREAD_RUNNING}" "tlists k3 (Waiters mp) = q"
     "rt_current_thread k3 = rt_current_thread ?k2" "\<forall>u. error (threads k3 u) = error (threads ?k2 u)"
    using ipc_resume_ok [OF i2(1) is_wait_simps(1) w2] by blast
  have r3: "\<exists>e. rt_thread_resume t ?k2 = Some (e, k3)"
    using k3(1) w2 by (auto simp: rt_ipc_list_resume_def tlist_first_def opt_simps)
  have mk3: "mempools k3 = (mempools k)(mp := p)" "pmem k3 = ?pm"
    using kframe_fields(11,12) [OF kframe_trans [OF i2(2) k3(3)]] by simp_all
  let ?p4 = "p\<lparr>suspend_thread_count := suspend_thread_count p - 1\<rparr>"
  let ?k4 = "k3\<lparr>mempools := (mempools k)(mp := ?p4)\<rparr>"
  have r4: "rt_current_thread ?k4 \<noteq> RT_NULL" using k3(6) cur by simp
  have i4: "kinv b ?k4" using k3(2) by simp
  obtain k' where k': "rt_schedule ?k4 = Some k'" "kinv b k'" "kframe ?k4 k'" "stat_moves ?k4 k'"
    "\<forall>x. tlists k' (Waiters x) = tlists ?k4 (Waiters x) \<and> tlists k' (Senders x) = tlists ?k4 (Senders x)"
    "\<forall>t. error (threads k' t) = error (threads ?k4 t)"
    using kinv_schedule [OF i4 r4] by blast
  have "rt_mp_free (x + MP_HDR) k = Some k'"
    using p(4) c0 w r3 k'(1) mk3(1) by (auto simp: Let_def tlist_first_def upd_mp_def word_gt_0)
  moreover have m': "mempools k' mp = ?p4" "pmem k' = ?pm" "mempools k' = (mempools k)(mp := ?p4)"
    using kframe_fields(11,12) [OF k'(3)] mk3 by simp_all
  moreover have l': "mp_lists (pmem k') mp (mempools k' mp) (x # mp_free_list k mp)" using p(1) by (simp add: m')
  moreover have "unat (suspend_thread_count p - 1) = length q" using unat_minus_one [OF c0] cnt p(2) by simp
  moreover have wk: "tlists k' (Waiters mp) = q" using k'(5) k3(5) by simp
  moreover have "tstat ?k4 t = tstat k3 t" by (simp add: tstat_def)
  then have "tstat k' t \<in> {RT_THREAD_READY, RT_THREAD_RUNNING}"
    using stat_moves_moved [OF k'(4), of t] k3(4) by (auto simp: stat_moved_def)
  moreover have "error (threads k' t) = RT_EOK" using k'(6) k3(7) by (simp add: upd_thread_def)
  moreover have "kframe (k\<lparr>mempools := mempools k', pmem := pmem k'\<rparr>) k'"
  proof -
    have "kframe (?k1\<lparr>mempools := (mempools k)(mp := ?p4)\<rparr>) k'"
      by (rule kframe_trans [OF kframe_mempools [OF kframe_trans [OF i2(2) k3(3)]] k'(3)])
    moreover have "?k1\<lparr>mempools := (mempools k)(mp := ?p4)\<rparr> = k\<lparr>mempools := (mempools k)(mp := ?p4), pmem := ?pm\<rparr>" by simp
    ultimately show ?thesis unfolding m' by (simp only:)
  qed
  ultimately show ?thesis using k'(2) mp_free_list_eq [OF l'] p(3) by (auto simp: mp_ok_eq)
qed

subsection \<open>Initialisation\<close>

lemma mp_link_loop_eq:
  assumes "\<And>i. i \<le> o1 + n \<Longrightarrow> mp_block start bs i = start + i * w"
  shows "mp_link_loop start bs o1 n m = (\<lambda>a. if a \<in> (\<lambda>i. start + i * w) ` {o1..<o1 + n} then a + w else m a)"
  using assms
proof (induction n arbitrary: o1 m)
  case (Suc n)
  have e: "mp_block start bs o1 = start + o1 * w" "mp_block start bs (Suc o1) = start + o1 * w + w"
    using Suc.prems [of o1] Suc.prems [of "Suc o1"] by simp_all
  have "mp_link_loop start bs (Suc o1) n m' =
     (\<lambda>a. if a \<in> (\<lambda>i. start + i * w) ` {Suc o1..<Suc o1 + n} then a + w else m' a)" for m'
    by (rule Suc.IH) (use Suc.prems in auto)
  moreover have "{o1..<o1 + Suc n} = insert o1 {Suc o1..<Suc o1 + n}" by auto
  ultimately show ?case by (simp add: e fun_eq_iff)
qed simp

lemma linked_blocks:
  assumes "\<And>i. Suc i < n \<Longrightarrow> m (B i) = B (Suc i)" "m (B (n - 1)) = RT_NULL" "\<And>i. B i \<noteq> RT_NULL" "j < n"
  shows "linked m (B j) (map B [j..<n])"
  using assms(4)
proof (induction "n - j" arbitrary: j)
  case (Suc d)
  show ?case
  proof (cases "Suc j < n")
    case True
    then have "linked m (B (Suc j)) (map B [Suc j..<n])" using Suc by simp
    with True assms(1,3) Suc.prems show ?thesis by (simp add: upt_conv_Cons)
  next
    case False
    then have "n = Suc j" using Suc.prems by simp
    with assms(2,3) show ?thesis by simp
  qed
qed simp

lemma mp_link_blocks_ok:
  assumes n: "n = unat (block_total_count (mempools k mp))" "0 < n"
    and w: "w = unat (block_size (mempools k mp)) + MP_HDR" "n * w < 2 ^ 32" "unat (block_size (mempools k mp)) + MP_HDR < 2 ^ 32"
    and s: "start_address (mempools k mp) \<noteq> RT_NULL" "mp \<noteq> RT_NULL"
    and fc: "block_free_count (mempools k mp) = block_total_count (mempools k mp)"
  shows "\<exists>pm. mp_link_blocks mp k = Some (k\<lparr>mempools := (mempools k)(mp := (mempools k mp)
        \<lparr>block_list := start_address (mempools k mp)\<rparr>), pmem := pm\<rparr>)
     \<and> mp_lists pm mp ((mempools k mp)\<lparr>block_list := start_address (mempools k mp)\<rparr>) (mp_blocks (mempools k mp))"
proof -
  let ?p = "mempools k mp"
  let ?B = "\<lambda>i. start_address ?p + i * w"
  have u: "unat (block_size ?p + 4) = w" using unat_add_lem [of "block_size ?p" 4] w by simp
  have b: "mp_block (start_address ?p) (block_size ?p) i = ?B i" if "i \<le> n" for i
  proof -
    have "i * w < 2 ^ 32" using that w(2) mult_le_mono1 [of i n w] by linarith
    moreover have "of_nat i * (block_size ?p + 4) = of_nat (i * w)" using u by (metis of_nat_mult of_nat_unat ucast_id)
    moreover have "unat (of_nat (i * w) :: u32) = i * w" using calculation(1) by (simp only: unat_of_nat) simp
    ultimately show ?thesis unfolding mp_block_def by (simp only:)
  qed
  let ?m = "(mp_link_loop (start_address ?p) (block_size ?p) 0 n (pmem k))(?B (n - 1) := RT_NULL)"
  have e: "mp_link_loop (start_address ?p) (block_size ?p) 0 n (pmem k) =
     (\<lambda>a. if a \<in> ?B ` {0..<0 + n} then a + w else pmem k a)"
    by (rule mp_link_loop_eq) (use b in auto)
  have link: "linked ?m (?B 0) (map ?B [0..<n])"
  proof (rule linked_blocks)
    show "?m (?B i) = ?B (Suc i)" if "Suc i < n" for i using that w(1) n(2) by (auto simp: e)
  qed (use s n in auto)
  have bl: "mp_blocks ?p = map ?B [0..<n]" by (simp add: mp_blocks_def w n)
  have "mp_link_blocks mp k = Some (k\<lparr>mempools := (mempools k)(mp := ?p\<lparr>block_list := start_address ?p\<rparr>), pmem := ?m\<rparr>)"
    using n b [of "n - 1"] by (simp add: mp_link_blocks_def upd_mp_def Let_def)
  moreover have "mp_lists ?m mp (?p\<lparr>block_list := start_address ?p\<rparr>) (mp_blocks ?p)"
    using link distinct_mp_blocks [of ?p] s fc n by (simp add: mp_lists_def bl)
  ultimately show ?thesis by blast
qed

subsection \<open>What a memory pool guarantees\<close>

text \<open>C23: \<^verbatim>\<open>rt_mp_alloc\<close>: the first free block is handed out, marked with its pool and off the free list,
  so no block is handed out twice; without a free block the call ends with \<^verbatim>\<open>RT_NULL\<close>, or the
  thread waits at the head of the pool's list with its timer armed.\<close>

theorem mp_alloc_spec:
  assumes "kinv b k" "mp_ok k mp" "length (tlists k (Waiters mp)) + 1 < 2 ^ 32"
    "time = 0 \<or> wait_time_ok time \<and> tstat k (rt_current_thread k) = RT_THREAD_RUNNING \<and> interrupt_nest k = 0"
  shows "\<exists>out k'. rt_mp_alloc mp time k = Some (out, k') \<and> kinv b k' \<and> mp_ok k' mp
     \<and> (case mp_free_list k mp of
          x # fs \<Rightarrow> out = Block (x + MP_HDR) \<and> mp_free_list k' mp = fs \<and> x \<in> set (mp_blocks (mempools k mp)) - set fs
            \<and> pmem k' = (pmem k)(x := mp) \<and> k' = k\<lparr>mempools := mempools k', pmem := pmem k'\<rparr>
        | [] \<Rightarrow> mp_free_list k' mp = []
            \<and> (if time = 0 then out = Block RT_NULL
               else out = Waiting \<and> tstat k' (rt_current_thread k) = RT_THREAD_SUSPEND
                 \<and> tlists k' (Waiters mp) = rt_current_thread k # tlists k (Waiters mp)
                 \<and> timer_set k (rt_current_thread k) time k'))"
proof (cases "mp_free_list k mp")
  case (Cons x fs)
  have l: "mp_lists (pmem k) mp (mempools k mp) (x # fs)" using assms(2) Cons by (simp add: mp_ok_eq)
  obtain p where p: "mp_alloc_loop mp time k = Some (Block (x + MP_HDR), k\<lparr>mempools := (mempools k)(mp := p), pmem := (pmem k)(x := mp)\<rparr>)"
    "mp_lists ((pmem k)(x := mp)) mp p fs" "suspend_thread_count p = suspend_thread_count (mempools k mp)"
    using mp_alloc_block [OF assms(2) Cons] by blast
  let ?k = "k\<lparr>mempools := (mempools k)(mp := p), pmem := (pmem k)(x := mp)\<rparr>"
  have f: "mp_free_list ?k mp = fs" using mp_free_list_eq [of ?k mp fs] p(2) by simp
  then have "mp_ok ?k mp" using p(2,3) assms(2) by (simp add: mp_ok_eq)
  moreover have "x \<in> set (mp_blocks (mempools k mp)) - set fs" "mp \<noteq> RT_NULL" using l by (auto simp: mp_lists_def)
  ultimately show ?thesis
    using p(1) f Cons assms(1) by (intro exI [of _ "Block (x + MP_HDR)"] exI [of _ ?k]) (simp add: rt_mp_alloc_def)
next
  case Nil
  then have fc: "block_free_count (mempools k mp) = 0" "mp \<noteq> RT_NULL"
    using assms(2) by (auto simp: mp_ok_eq mp_lists_def unat_eq_0)
  show ?thesis
  proof (cases "time = 0")
    case True
    let ?k = "rt_set_errno (- RT_ETIMEOUT) k"
    have f: "mempools ?k = mempools k" "pmem ?k = pmem k" "tlists ?k = tlists k"
      by (simp_all add: rt_set_errno_def upd_thread_def)
    have "kinv b (k\<lparr>rt_errno := - RT_ETIMEOUT\<rparr>)"
      using assms(1) by (simp add: kinv_def timer_inv_def due_def live_def own_timer_def timers_wait_def tstat_def is_class_def)
    then have "kinv b ?k" using kinv_error(1) [OF assms(1)] by (simp add: rt_set_errno_def)
    moreover have "mp_free_list ?k mp = []" using Nil f by (simp add: mp_free_list_def)
    moreover have "mp_ok ?k mp" using assms(2) f by (simp add: mp_ok_def)
    moreover have "rt_mp_alloc mp time k = Some (Block RT_NULL, ?k)"
      using fc True by (simp add: rt_mp_alloc_def mp_alloc_loop_def)
    ultimately show ?thesis using Nil True by simp
  next
    case False
    then obtain k' where "mp_alloc_loop mp time k = Some (Waiting, k')" "kinv b k'" "mp_ok k' mp" "mp_free_list k' mp = []"
      "tstat k' (rt_current_thread k) = RT_THREAD_SUSPEND"
      "tlists k' (Waiters mp) = rt_current_thread k # tlists k (Waiters mp)" "timer_set k (rt_current_thread k) time k'"
      using mp_alloc_waits [OF assms(1,2) Nil refl _ _ _ assms(3)] assms(4) by blast
    then show ?thesis using Nil False fc(2) by (simp add: rt_mp_alloc_def)
  qed
qed

lemma demo_mp:
  "mp_ok demo 70" "mp_free_list demo 70 = [4000]" "mp_blocks (mempools demo 70) = [4000, 4012]"
  "mp_ok demo 71" "mp_free_list demo 71 = []" "mp_blocks (mempools demo 71) = [5000]" "pmem demo 5000 = 71"
proof -
  have "mp_lists (pmem demo) 70 (mempools demo 70) [4000]" "mp_lists (pmem demo) 71 (mempools demo 71) []"
    by (simp_all add: mp_lists_def mp_blocks_def demo_def upt_rec)
  then show "mp_ok demo 70" "mp_ok demo 71" "mp_free_list demo 70 = [4000]" "mp_free_list demo 71 = []"
    using mp_free_list_eq by (auto simp: mp_ok_def) (simp_all add: demo_def)
qed (simp_all add: mp_blocks_def demo_def upt_rec)

theorem mp_alloc_spec_witness:
  "(\<exists>k'. rt_mp_alloc 70 0 demo = Some (Block 4004, k') \<and> mp_free_list k' 70 = [])
     \<and> (\<exists>k'. rt_mp_alloc 71 10 demo = Some (Waiting, k') \<and> tlists k' (Waiters 71) = [1])"
  using mp_alloc_spec [OF demo_kinv demo_mp(1), of 0] mp_alloc_spec [OF demo_kinv demo_mp(4), of 10]
  by (auto simp: demo_mp demo_stat wait_time_ok_def)

text \<open>C24: \<^verbatim>\<open>rt_mp_free\<close> of a block that is in use finds its pool, puts the block at the head of the free
  list, and wakes the thread at the head of the pool's wait list, if there is one.\<close>

theorem mp_free_spec:
  assumes "kinv b k" "mp_ok k mp" "x \<in> set (mp_blocks (mempools k mp))" "x \<notin> set (mp_free_list k mp)"
    "rt_current_thread k \<noteq> RT_NULL"
  shows "\<exists>k'. rt_mp_free (x + MP_HDR) k = Some k' \<and> kinv b k' \<and> mp_ok k' mp \<and> mp_free_list k' mp = x # mp_free_list k mp
     \<and> (case tlists k (Waiters mp) of
          [] \<Rightarrow> k' = k\<lparr>mempools := mempools k', pmem := pmem k'\<rparr>
        | t # q \<Rightarrow> tlists k' (Waiters mp) = q \<and> tstat k' t \<in> {RT_THREAD_READY, RT_THREAD_RUNNING}
            \<and> error (threads k' t) = RT_EOK)"
proof (cases "tlists k (Waiters mp)")
  case (Cons t q)
  with mp_free_wakes [OF assms Cons] show ?thesis by auto
next
  case Nil
  obtain p where p: "mp_lists ((pmem k)(x := block_list (mempools k mp))) mp p (x # mp_free_list k mp)"
     "suspend_thread_count p = suspend_thread_count (mempools k mp)"
     "rt_mp_free (x + MP_HDR) k =
        (let k = k\<lparr>mempools := (mempools k)(mp := p), pmem := (pmem k)(x := block_list (mempools k mp))\<rparr> in
         if suspend_thread_count (mempools k mp) > 0 then do {
          thread \<leftarrow> tlist_first (Waiters mp) k;
          let k = upd_thread thread (\<lambda>th. th\<lparr>error := RT_EOK\<rparr>) k;
          (_, k) \<leftarrow> rt_thread_resume thread k;
          let k = upd_mp mp (\<lambda>p. p\<lparr>suspend_thread_count := suspend_thread_count p - 1\<rparr>) k;
          rt_schedule k
        }
        else Some k)"
    using mp_free_eq [OF assms(2-4)] by blast
  have c: "unat (suspend_thread_count (mempools k mp)) = 0" using assms(2) Nil by (simp add: mp_ok_eq)
  let ?k = "k\<lparr>mempools := (mempools k)(mp := p), pmem := (pmem k)(x := block_list (mempools k mp))\<rparr>"
  have r: "rt_mp_free (x + MP_HDR) k = Some ?k" using p(2,3) c by (simp add: Let_def unat_eq_0)
  have f: "mp_free_list ?k mp = x # mp_free_list k mp" using mp_free_list_eq [of ?k mp "x # mp_free_list k mp"] p(1) by simp
  then have "mp_ok ?k mp" using p(1,2) c Nil by (simp add: mp_ok_eq)
  then show ?thesis using r f Nil assms(1) by (intro exI [of _ ?k]) simp
qed

theorem mp_free_spec_witness: "\<exists>k'. rt_mp_free 4016 demo = Some k' \<and> mp_free_list k' 70 = [4012, 4000]"
  using mp_free_spec [OF demo_kinv demo_mp(1), of 4012] by (auto simp: demo_mp)

text \<open>Allocating a block and freeing it again with nobody waiting restores the state exactly.\<close>

lemma mp_alloc_free:
  assumes "mp_ok k mp" "mp_free_list k mp \<noteq> []" "tlists k (Waiters mp) = []"
  shows "\<exists>x k1. rt_mp_alloc mp time k = Some (Block x, k1) \<and> rt_mp_free x k1 = Some k"
proof -
  obtain x fs where fs: "mp_free_list k mp = x # fs" using assms(2) by (cases "mp_free_list k mp") auto
  let ?p = "mempools k mp"
  have l: "mp_lists (pmem k) mp ?p (x # fs)" using assms(1) fs by (simp add: mp_ok_eq)
  have nz: "block_free_count ?p \<noteq> 0" "block_list ?p = x" "x \<noteq> RT_NULL" "mp \<noteq> RT_NULL" using l by (auto simp: mp_lists_def)
  have c: "suspend_thread_count ?p = 0" using assms(1,3) by (simp add: mp_ok_eq unat_eq_0)
  let ?k1 = "k\<lparr>mempools := (mempools k)(mp := ?p\<lparr>block_free_count := block_free_count ?p - 1, block_list := pmem k x\<rparr>),
    pmem := (pmem k)(x := mp)\<rparr>"
  have "rt_mp_alloc mp time k = Some (Block (x + MP_HDR), ?k1)"
    using nz by (simp add: rt_mp_alloc_def mp_alloc_loop_def upd_mp_def Let_def)
  moreover have "?p\<lparr>block_free_count := block_free_count ?p, block_list := x\<rparr> = ?p" using nz(2) by simp
  then have "rt_mp_free (x + MP_HDR) ?k1 = Some k"
    using nz(4) c by (simp add: rt_mp_free_def upd_mp_def Let_def)
  ultimately show ?thesis by blast
qed

text \<open>\<^verbatim>\<open>rt_mp_init\<close> over \<open>sz\<close> bytes with room for at least one block leaves a well-formed pool with all
  its blocks free, in address order, and every block inside the given area.\<close>

lemma mp_init_spec:
  assumes "sched_inv k" "mp \<noteq> RT_NULL" "mp \<notin> set (object_list k RT_Object_Class_MemPool)" "tlists k (Waiters mp) = []"
    "start \<noteq> RT_NULL" "0 < bs" "w = RT_ALIGN bs 4" "unat w + 4 \<le> unat (RT_ALIGN_DOWN sz 4)"
  shows "\<exists>k'. rt_mp_init mp nm start sz bs k = Some (RT_EOK, k') \<and> mp_ok k' mp
     \<and> mp_free_list k' mp = mp_blocks (mempools k' mp)
     \<and> length (mp_blocks (mempools k' mp)) = unat (RT_ALIGN_DOWN sz 4) div (unat w + 4)
     \<and> (\<forall>x \<in> set (mp_blocks (mempools k' mp)). start \<le> x \<and> x + (unat w + 4) \<le> start + unat (RT_ALIGN_DOWN sz 4))"
proof -
  let ?s = "RT_ALIGN_DOWN sz 4"
  have tc: "RT_Object_Class_MemPool \<in> set rt_object_container" by (simp add: rt_object_container_def)
  obtain k1 where k1: "rt_object_init mp RT_Object_Class_MemPool nm k = Some k1"
    "\<forall>x. tlists k1 (Waiters x) = tlists k (Waiters x)"
    using rt_object_init_ok [OF assms(1) tc assms(3)] by blast
  have s0: "0 < sz" using assms(8) by (auto simp: RT_ALIGN_DOWN_def word_gt_0)
  have wr: "unat w + 4 < 2 ^ 32" using assms(8) unsigned_less [of ?s, where 'a = nat] by simp
  then have u: "unat (w + 4) = unat w + 4" using unat_add_lem [of w 4] by simp
  let ?n = "?s div (w + 4)"
  have un: "unat ?n = unat ?s div (unat w + 4)" by (simp add: unat_div u)
  let ?p = "(mempools k1 mp)\<lparr>start_address := start, mp_size := ?s, block_size := w, block_total_count := ?n,
    block_free_count := ?n, suspend_thread_count := 0\<rparr>"
  let ?k = "(tlist_init (Waiters mp) k1)\<lparr>mempools := (mempools k1)(mp := ?p)\<rparr>"
  have n0: "0 < unat ?n" using assms(8) by (simp add: un div_greater_zero_iff)
  have fit: "unat ?n * (unat w + 4) \<le> unat ?s" by (simp add: un)
  have fit32: "unat ?n * (unat w + 4) < 2 ^ 32" using fit unsigned_less [of ?s, where 'a = nat] by simp
  obtain pm where pm: "mp_link_blocks mp ?k = Some (?k\<lparr>mempools := (mempools ?k)(mp := (mempools ?k mp)
        \<lparr>block_list := start_address (mempools ?k mp)\<rparr>), pmem := pm\<rparr>)"
     "mp_lists pm mp ((mempools ?k mp)\<lparr>block_list := start_address (mempools ?k mp)\<rparr>) (mp_blocks (mempools ?k mp))"
    using mp_link_blocks_ok [of "unat ?n" ?k mp "unat w + 4"] n0 fit32 wr assms(2,5) by auto
  let ?k' = "?k\<lparr>mempools := (mempools k1)(mp := ?p\<lparr>block_list := start\<rparr>), pmem := pm\<rparr>"
  have w4: "w + 4 \<noteq> 0" using u by auto
  have e: "?k\<lparr>mempools := (mempools ?k)(mp := (mempools ?k mp)\<lparr>block_list := start_address (mempools ?k mp)\<rparr>), pmem := pm\<rparr> = ?k'"
    by simp
  have "rt_mp_init mp nm start sz bs k = mp_link_blocks mp ?k \<bind> (\<lambda>k. Some (RT_EOK, k))"
    using assms(2,4-7) s0 k1 w4
    by (simp add: rt_mp_init_def tlist_isempty_def upd_mp_def tlist_init_def Let_def)
  then have r: "rt_mp_init mp nm start sz bs k = Some (RT_EOK, ?k')" unfolding pm(1) e by simp
  have l: "mp_lists (pmem ?k') mp (mempools ?k' mp) (mp_blocks (mempools ?k' mp))" using pm(2) by simp
  have "tlists ?k' (Waiters mp) = []" by (simp add: tlist_init_def)
  then have ok: "mp_ok ?k' mp" using l mp_free_list_eq [OF l] by (simp add: mp_ok_eq)
  have "start \<le> x \<and> x + (unat w + 4) \<le> start + unat ?s" if xb: "x \<in> set (mp_blocks (mempools ?k' mp))" for x
  proof -
    obtain i where i: "x = start + i * (unat w + 4)" "i < unat ?n" using xb by (auto simp: mp_blocks_def)
    then have "Suc i * (unat w + 4) \<le> unat ?n * (unat w + 4)" by (intro mult_le_mono1) simp
    then show ?thesis using fit i(1) by simp
  qed
  moreover have "length (mp_blocks (mempools ?k' mp)) = unat ?s div (unat w + 4)" by (simp add: mp_blocks_def un)
  ultimately show ?thesis using r ok mp_free_list_eq [OF l] by blast
qed

text \<open>C25: A thread that gives up waiting for a block leaves \<^verbatim>\<open>suspend_thread_count\<close> as it was: when the
  timeout wakes the only waiting thread, the next \<^verbatim>\<open>rt_mp_free\<close> of a block of the pool finds the
  count above zero and takes the empty list's head for a thread.\<close>

theorem mp_timeout_miscounts:
  assumes "kinv b k" "mp_ok k mp" "tlists k (Waiters mp) = [t]"
    "rt_current_thread k \<noteq> RT_NULL" "x \<in> set (mp_blocks (mempools k mp))" "x \<notin> set (mp_free_list k mp)"
  shows "\<exists>k'. rt_thread_timeout t (timer_remove (thread_timer (threads k t)) k) = Some k' \<and> kinv b k' \<and> tlists k' (Waiters mp) = []
     \<and> suspend_thread_count (mempools k' mp) = 1 \<and> rt_mp_free (x + MP_HDR) k' = None"
proof -
  have "tstat k t = RT_THREAD_SUSPEND"
    by (rule waiter_suspended [OF kinvD(1) [OF assms(1)] is_wait_simps(1) [of mp]]) (simp add: assms(3))
  let ?k = "timer_remove (thread_timer (threads k t)) k"
  have i: "kinv b ?k" "kframe k ?k" using kinv_timer_remove [OF assms(1)] by simp_all
  have r: "tstat ?k t = RT_THREAD_SUSPEND" "rt_current_thread ?k \<noteq> RT_NULL" "tlists ?k = tlists k"
    "thread_timer (threads ?k t) \<notin> set (timer_list ?k)"
    using \<open>tstat k t = RT_THREAD_SUSPEND\<close> assms(4) by (simp_all add: timer_remove_def tstat_def)
  from timeout_ok [OF i(1) r(1,4,2)]
  obtain k' where k': "rt_thread_timeout t ?k = Some k'" "kinv b k'" "kframe ?k k'"
    "\<forall>x. tlists k' (Waiters x) = removeAll t (tlists k (Waiters x))" unfolding r(3) by blast
  have f: "mempools k' = mempools k" "pmem k' = pmem k" using kframe_fields(11,12) [OF kframe_trans [OF i(2) k'(3)]] by simp_all
  have w: "tlists k' (Waiters mp) = []" using k'(4) assms(3) by simp
  have "unat (suspend_thread_count (mempools k mp)) = 1" using assms(2,3) by (simp add: mp_ok_eq)
  then have c: "suspend_thread_count (mempools k' mp) = 1" using f(1) by (simp add: word_unat_eq_iff)
  have "pmem k x = mp" "mp \<noteq> RT_NULL" using assms(2,5,6) by (auto simp: mp_ok_eq mp_lists_def)
  then have "rt_mp_free (x + MP_HDR) k' = None"
    using c w f by (simp add: rt_mp_free_def Let_def upd_mp_def tlist_first_def)
  with k' w c show ?thesis by blast
qed

theorem mp_timeout_miscounts_witness:
  "\<exists>k k'. rt_mp_alloc 71 10 demo = Some (Waiting, k) \<and> rt_thread_timeout 1 (timer_remove 11 k) = Some k' \<and> rt_mp_free 5004 k' = None"
proof -
  obtain k where k: "mp_alloc_loop 71 10 demo = Some (Waiting, k)" "kinv 100 k" "mp_ok k 71" "mp_free_list k 71 = []"
    "kframe (demo\<lparr>mempools := mempools k\<rparr>) k" "tlists k (Waiters 71) = [1]"
    "rt_current_thread k \<noteq> RT_NULL" "mp_blocks (mempools k 71) = [5000]"
    using mp_alloc_waits [OF demo_kinv demo_mp(4,5) refl, of 10] by (auto simp: demo_stat wait_time_ok_def demo_mp(6))
  have x: "thread_timer (threads k 1) = 11" using thread_same_fields(8) [OF kframe_parts(1) [OF k(5), of 1]] by simp
  show ?thesis
    using mp_timeout_miscounts [OF k(2,3,6,7), of 5000] k(1,4,8) x by (auto simp: rt_mp_alloc_def)
qed

end
