(* ===== verification/RT_Heap.thy ===== *)
theory RT_Heap
  imports RT_Semaphore RT_Memory
begin

text \<open>
  The small memory manager (\<^verbatim>\<open>src/mem.c\<close>): the system heap is one area, cut into blocks that follow
  one another without gaps, each behind a \<^verbatim>\<open>struct heap_mem\<close>. A structure is found by its offset
  from \<^verbatim>\<open>heap_ptr\<close>, as the code's own \<^verbatim>\<open>next\<close> and \<^verbatim>\<open>prev\<close> fields do it; pointers to structures
  (\<^verbatim>\<open>lfree\<close>, \<^verbatim>\<open>heap_end\<close>, \<^verbatim>\<open>mem\<close>) are such offsets, and the block handed out is an address. The heap
  is read as the list of its segments, on which allocation is first fit and freeing merges
  neighbours.

  The semaphore \<^verbatim>\<open>heap_sem\<close> at address \<open>hs\<close> guards the heap. A call that has to wait for it ends
  in \<open>Waiting\<close>; its continuation is the \<open>_locked\<close> definition, whatever \<^verbatim>\<open>rt_sem_take\<close> returned, as
  the code does not look at it.
\<close>

subsection \<open>The heap\<close>

record heap_mem =
  magic :: u16
  used :: u16
  hm_next :: u32
  hm_prev :: u32

record heap =
  heap_ptr :: ptr
  heap_end :: u32
  lfree :: u32
  mem_size_aligned :: u32
  used_mem :: u32
  max_mem :: u32
  hmem :: "nat \<Rightarrow> heap_mem"

abbreviation (input) HEAP_MAGIC :: u16 where "HEAP_MAGIC \<equiv> 0x1ea0"
abbreviation (input) SIZEOF_STRUCT_MEM :: u32 where "SIZEOF_STRUCT_MEM \<equiv> 12"
abbreviation (input) MIN_SIZE_ALIGNED :: u32 where "MIN_SIZE_ALIGNED \<equiv> 12"

definition hm :: "heap \<Rightarrow> u32 \<Rightarrow> heap_mem" where
  "hm h p = hmem h (unat p)"

definition upd_hm :: "u32 \<Rightarrow> (heap_mem \<Rightarrow> heap_mem) \<Rightarrow> heap \<Rightarrow> heap" where
  "upd_hm p f h = h\<lparr>hmem := (hmem h)(unat p := f (hmem h (unat p)))\<rparr>"

subsection \<open>Operations\<close>

definition plug_next :: "u32 \<Rightarrow> heap \<Rightarrow> heap" where
  "plug_next mem h =
     (let nmem = hm_next (hm h mem)
      in if mem \<noteq> nmem \<and> used (hm h nmem) = 0 \<and> nmem \<noteq> heap_end h then
           (let h = (if lfree h = nmem then h\<lparr>lfree := mem\<rparr> else h);
                h = upd_hm mem (\<lambda>m. m\<lparr>hm_next := hm_next (hm h nmem)\<rparr>) h
            in upd_hm (hm_next (hm h nmem)) (\<lambda>m. m\<lparr>hm_prev := mem\<rparr>) h)
         else h)"

definition plug_prev :: "u32 \<Rightarrow> heap \<Rightarrow> heap" where
  "plug_prev mem h =
     (let pmem = hm_prev (hm h mem)
      in if pmem \<noteq> mem \<and> used (hm h pmem) = 0 then
           (let h = (if lfree h = mem then h\<lparr>lfree := pmem\<rparr> else h);
                h = upd_hm pmem (\<lambda>m. m\<lparr>hm_next := hm_next (hm h mem)\<rparr>) h
            in upd_hm (hm_next (hm h mem)) (\<lambda>m. m\<lparr>hm_prev := pmem\<rparr>) h)
         else h)"

definition plug_holes :: "u32 \<Rightarrow> heap \<Rightarrow> heap option" where
  "plug_holes mem h = do {
     RT_ASSERT (mem < heap_end h);
     RT_ASSERT (used (hm h mem) = 0);
     let h = plug_next mem h;
     Some (plug_prev mem h)
   }"

text \<open>Without room for two structures an error is printed and nothing is initialised.\<close>

definition rt_system_heap_init :: "ptr \<Rightarrow> u32 \<Rightarrow> u32 \<Rightarrow> kernel \<Rightarrow> heap \<Rightarrow> (kernel \<times> heap) option" where
  "rt_system_heap_init hs begin_addr end_addr k h = do {
     let begin_align = RT_ALIGN begin_addr RT_ALIGN_SIZE;
     let end_align = RT_ALIGN_DOWN end_addr RT_ALIGN_SIZE;
     RT_DEBUG_NOT_IN_INTERRUPT k;
     if end_align > 2 * SIZEOF_STRUCT_MEM \<and> end_align - 2 * SIZEOF_STRUCT_MEM \<ge> begin_align then do {
       let h = h\<lparr>mem_size_aligned := end_align - begin_align - 2 * SIZEOF_STRUCT_MEM\<rparr>;
       let h = h\<lparr>heap_ptr := unat begin_align\<rparr>;
       let e = mem_size_aligned h + SIZEOF_STRUCT_MEM;
       let h = upd_hm 0 (\<lambda>_. \<lparr>magic = HEAP_MAGIC, used = 0, hm_next = e, hm_prev = 0\<rparr>) h;
       let h = h\<lparr>heap_end := e\<rparr>;
       let h = upd_hm e (\<lambda>_. \<lparr>magic = HEAP_MAGIC, used = 1, hm_next = e, hm_prev = e\<rparr>) h;
       (_, k) \<leftarrow> rt_sem_init hs ''heap'' 1 RT_IPC_FLAG_FIFO k;
       Some (k, h\<lparr>lfree := 0\<rparr>)
     }
     else Some (k, h)
   }"

text \<open>The search for a free block that is large enough, from offset \<open>p\<close> on.\<close>

partial_function (option) malloc_loop :: "u32 \<Rightarrow> u32 \<Rightarrow> heap \<Rightarrow> u32 option option" where
  "malloc_loop sz p h =
     (if p < mem_size_aligned h - sz then
        if used (hm h p) = 0 \<and> hm_next (hm h p) - (p + SIZEOF_STRUCT_MEM) \<ge> sz then Some (Some p)
        else malloc_loop sz (hm_next (hm h p)) h
      else Some None)"

partial_function (option) lfree_loop :: "u32 \<Rightarrow> heap \<Rightarrow> u32 option" where
  "lfree_loop l h =
     (if used (hm h l) \<noteq> 0 \<and> l \<noteq> heap_end h then lfree_loop (hm_next (hm h l)) h else Some l)"

definition count_used :: "u32 \<Rightarrow> heap \<Rightarrow> heap" where
  "count_used n h =
     (let h = h\<lparr>used_mem := used_mem h + n\<rparr> in if max_mem h < used_mem h then h\<lparr>max_mem := used_mem h\<rparr> else h)"

text \<open>Marking the block at offset \<open>p\<close>, with its rest split off when it can hold a block of its own.\<close>

definition malloc_mark :: "u32 \<Rightarrow> u32 \<Rightarrow> heap \<Rightarrow> heap" where
  "malloc_mark sz p h =
     (let h = (if hm_next (hm h p) - (p + SIZEOF_STRUCT_MEM) \<ge> sz + SIZEOF_STRUCT_MEM + MIN_SIZE_ALIGNED then
                 (let p2 = p + SIZEOF_STRUCT_MEM + sz;
                      h = upd_hm p2 (\<lambda>_. \<lparr>magic = HEAP_MAGIC, used = 0, hm_next = hm_next (hm h p), hm_prev = p\<rparr>) h;
                      h = upd_hm p (\<lambda>m. m\<lparr>hm_next := p2, used := 1\<rparr>) h;
                      h = (if hm_next (hm h p2) \<noteq> mem_size_aligned h + SIZEOF_STRUCT_MEM
                           then upd_hm (hm_next (hm h p2)) (\<lambda>m. m\<lparr>hm_prev := p2\<rparr>) h else h)
                  in count_used (sz + SIZEOF_STRUCT_MEM) h)
               else
                 (let h = upd_hm p (\<lambda>m. m\<lparr>used := 1\<rparr>) h
                  in count_used (hm_next (hm h p) - p) h))
      in upd_hm p (\<lambda>m. m\<lparr>magic := HEAP_MAGIC\<rparr>) h)"

text \<open>Taking it: \<^verbatim>\<open>lfree\<close> moves on when it was the lowest free block.\<close>

definition malloc_take :: "u32 \<Rightarrow> u32 \<Rightarrow> heap \<Rightarrow> heap option" where
  "malloc_take sz p h = do {
     let h = malloc_mark sz p h;
     if p = lfree h then do {
       l \<leftarrow> lfree_loop (lfree h) h;
       RT_ASSERT (l = heap_end h \<or> used (hm h l) = 0);
       Some (h\<lparr>lfree := l\<rparr>)
     }
     else Some h
   }"

definition malloc_locked :: "ptr \<Rightarrow> u32 \<Rightarrow> kernel \<Rightarrow> heap \<Rightarrow> (alloc_outcome \<times> kernel \<times> heap) option" where
  "malloc_locked hs sz k h = do {
     r \<leftarrow> malloc_loop sz (lfree h) h;
     case r of
       None \<Rightarrow> do {
         (_, k) \<leftarrow> rt_sem_release hs k;
         Some (Block RT_NULL, k, h)
       }
     | Some p \<Rightarrow> do {
         h \<leftarrow> malloc_take sz p h;
         (_, k) \<leftarrow> rt_sem_release hs k;
         RT_ASSERT (unat p + unat SIZEOF_STRUCT_MEM + unat sz \<le> unat (heap_end h));
         RT_ASSERT ((heap_ptr h + unat p + unat SIZEOF_STRUCT_MEM) mod unat RT_ALIGN_SIZE = 0);
         RT_ASSERT ((heap_ptr h + unat p) mod unat RT_ALIGN_SIZE = 0);
         Some (Block (heap_ptr h + unat p + unat SIZEOF_STRUCT_MEM), k, h)
       }
   }"

definition rt_malloc :: "ptr \<Rightarrow> u32 \<Rightarrow> kernel \<Rightarrow> heap \<Rightarrow> (alloc_outcome \<times> kernel \<times> heap) option" where
  "rt_malloc hs sz k h =
     (if sz = 0 then Some (Block RT_NULL, k, h)
      else do {
        RT_DEBUG_NOT_IN_INTERRUPT k;
        let sz = RT_ALIGN sz RT_ALIGN_SIZE;
        if sz > mem_size_aligned h then Some (Block RT_NULL, k, h)
        else do {
          let sz = (if sz < MIN_SIZE_ALIGNED then MIN_SIZE_ALIGNED else sz);
          (out, k) \<leftarrow> rt_sem_take hs RT_WAITING_FOREVER k;
          if out = Blocked then Some (Waiting, k, h) else malloc_locked hs sz k h
        }
      })"

text \<open>Freeing the structure at offset \<open>mem\<close>, with the semaphore held.\<close>

definition free_mem :: "u32 \<Rightarrow> heap \<Rightarrow> heap option" where
  "free_mem mem h = do {
     RT_ASSERT (used (hm h mem) \<noteq> 0);
     RT_ASSERT (magic (hm h mem) = HEAP_MAGIC);
     let h = upd_hm mem (\<lambda>m. m\<lparr>used := 0, magic := HEAP_MAGIC\<rparr>) h;
     let h = (if mem < lfree h then h\<lparr>lfree := mem\<rparr> else h);
     let h = h\<lparr>used_mem := used_mem h - (hm_next (hm h mem) - mem)\<rparr>;
     plug_holes mem h
   }"

definition free_locked :: "ptr \<Rightarrow> u32 \<Rightarrow> kernel \<Rightarrow> heap \<Rightarrow> (outcome \<times> kernel \<times> heap) option" where
  "free_locked hs mem k h = do {
     h \<leftarrow> free_mem mem h;
     (_, k) \<leftarrow> rt_sem_release hs k;
     Some (Done RT_EOK, k, h)
   }"

text \<open>
  The address is inside the heap by the assertion; the structure in front of it must be too.
\<close>

definition rt_free :: "ptr \<Rightarrow> ptr \<Rightarrow> kernel \<Rightarrow> heap \<Rightarrow> (outcome \<times> kernel \<times> heap) option" where
  "rt_free hs rmem k h =
     (if rmem = RT_NULL then Some (Done RT_EOK, k, h)
      else do {
        RT_DEBUG_NOT_IN_INTERRUPT k;
        RT_ASSERT (rmem mod unat RT_ALIGN_SIZE = 0);
        RT_ASSERT (heap_ptr h \<le> rmem \<and> rmem < heap_ptr h + unat (heap_end h));
        C_GUARD (heap_ptr h + unat SIZEOF_STRUCT_MEM \<le> rmem);
        let mem = of_nat (rmem - unat SIZEOF_STRUCT_MEM - heap_ptr h);
        (out, k) \<leftarrow> rt_sem_take hs RT_WAITING_FOREVER k;
        if out = Blocked then Some (Blocked, k, h) else free_locked hs mem k h
      })"

definition rt_calloc :: "ptr \<Rightarrow> u32 \<Rightarrow> u32 \<Rightarrow> kernel \<Rightarrow> heap \<Rightarrow> (alloc_outcome \<times> kernel \<times> heap) option" where
  "rt_calloc hs count sz k h = do {
     (p, k, h) \<leftarrow> rt_malloc hs (count * sz) k h;
     case p of
       Waiting \<Rightarrow> Some (Waiting, k, h)
     | Block a \<Rightarrow>
         Some (p, if a \<noteq> RT_NULL then k\<lparr>bmem := rt_memset a 0 (unat (count * sz)) (bmem k)\<rparr> else k, h)
   }"

text \<open>Shrinking the block at offset \<open>p\<close> in place to \<open>newsize\<close> bytes, \<open>sz\<close> being what it has.\<close>

definition realloc_split :: "u32 \<Rightarrow> u32 \<Rightarrow> u32 \<Rightarrow> heap \<Rightarrow> heap option" where
  "realloc_split sz newsize p h = do {
     let h = h\<lparr>used_mem := used_mem h - (sz - newsize)\<rparr>;
     let p2 = p + SIZEOF_STRUCT_MEM + newsize;
     let h = upd_hm p2 (\<lambda>_. \<lparr>magic = HEAP_MAGIC, used = 0, hm_next = hm_next (hm h p), hm_prev = p\<rparr>) h;
     let h = upd_hm p (\<lambda>m. m\<lparr>hm_next := p2\<rparr>) h;
     let h = (if hm_next (hm h p2) \<noteq> mem_size_aligned h + SIZEOF_STRUCT_MEM
              then upd_hm (hm_next (hm h p2)) (\<lambda>m. m\<lparr>hm_prev := p2\<rparr>) h else h);
     plug_holes p2 h
   }"

text \<open>Growing: a new block, the contents copied, the old block freed.\<close>

definition realloc_move :: "ptr \<Rightarrow> ptr \<Rightarrow> u32 \<Rightarrow> u32 \<Rightarrow> kernel \<Rightarrow> heap \<Rightarrow> (alloc_outcome \<times> kernel \<times> heap) option" where
  "realloc_move hs rmem sz newsize k h = do {
     (nmem, k, h) \<leftarrow> rt_malloc hs newsize k h;
     case nmem of
       Waiting \<Rightarrow> Some (Waiting, k, h)
     | Block a \<Rightarrow>
         if a \<noteq> RT_NULL then do {
           m \<leftarrow> rt_memcpy a rmem (unat (if sz < newsize then sz else newsize)) (bmem k);
           (out, k, h) \<leftarrow> rt_free hs rmem (k\<lparr>bmem := m\<rparr>) h;
           Some (if out = Blocked then Waiting else nmem, k, h)
         }
         else Some (nmem, k, h)
   }"

definition realloc_locked :: "ptr \<Rightarrow> ptr \<Rightarrow> u32 \<Rightarrow> kernel \<Rightarrow> heap \<Rightarrow> (alloc_outcome \<times> kernel \<times> heap) option" where
  "realloc_locked hs rmem newsize k h =
     (if rmem < heap_ptr h \<or> rmem \<ge> heap_ptr h + unat (heap_end h) then do {
        (_, k) \<leftarrow> rt_sem_release hs k;
        Some (Block rmem, k, h)
      }
      else do {
        C_GUARD (heap_ptr h + unat SIZEOF_STRUCT_MEM \<le> rmem);
        let p = of_nat (rmem - unat SIZEOF_STRUCT_MEM - heap_ptr h);
        let sz = hm_next (hm h p) - p - SIZEOF_STRUCT_MEM;
        if sz = newsize then do {
          (_, k) \<leftarrow> rt_sem_release hs k;
          Some (Block rmem, k, h)
        }
        else if newsize + SIZEOF_STRUCT_MEM + MIN_SIZE_ALIGNED < sz then do {
          h \<leftarrow> realloc_split sz newsize p h;
          (_, k) \<leftarrow> rt_sem_release hs k;
          Some (Block rmem, k, h)
        }
        else do {
          (_, k) \<leftarrow> rt_sem_release hs k;
          realloc_move hs rmem sz newsize k h
        }
      })"

definition rt_realloc :: "ptr \<Rightarrow> ptr \<Rightarrow> u32 \<Rightarrow> kernel \<Rightarrow> heap \<Rightarrow> (alloc_outcome \<times> kernel \<times> heap) option" where
  "rt_realloc hs rmem newsize k h = do {
     RT_DEBUG_NOT_IN_INTERRUPT k;
     let newsize = RT_ALIGN newsize RT_ALIGN_SIZE;
     if newsize > mem_size_aligned h then Some (Block RT_NULL, k, h)
     else if newsize = 0 then do {
       (out, k, h) \<leftarrow> rt_free hs rmem k h;
       Some (if out = Blocked then Waiting else Block RT_NULL, k, h)
     }
     else if rmem = RT_NULL then rt_malloc hs newsize k h
     else do {
       (out, k) \<leftarrow> rt_sem_take hs RT_WAITING_FOREVER k;
       if out = Blocked then Some (Waiting, k, h) else realloc_locked hs rmem newsize k h
     }
   }"

definition rt_memory_info :: "heap \<Rightarrow> u32 \<times> u32 \<times> u32" where
  "rt_memory_info h = (mem_size_aligned h, used_mem h, max_mem h)"

subsection \<open>The heap as a list of segments\<close>

text \<open>
  A segment is a block with its structure: its extent and whether it is in use. The structures
  met from an offset on describe a list of segments when each is intact, says where the next one
  starts and knows where the previous one did.
\<close>

type_synonym segs = "(nat \<times> bool) list"

definition ext :: "segs \<Rightarrow> nat" where
  "ext ss = sum_list (map fst ss)"

fun last_off :: "nat \<Rightarrow> nat \<Rightarrow> segs \<Rightarrow> nat" where
  "last_off prv off [] = prv"
| "last_off prv off ((n, u) # ss) = last_off off (off + n) ss"

fun segments :: "(nat \<Rightarrow> heap_mem) \<Rightarrow> nat \<Rightarrow> nat \<Rightarrow> segs \<Rightarrow> bool" where
  "segments m off prv [] \<longleftrightarrow> True"
| "segments m off prv ((n, u) # ss) \<longleftrightarrow>
     magic (m off) = HEAP_MAGIC \<and> used (m off) = (if u then 1 else 0)
     \<and> unat (hm_next (m off)) = off + n \<and> unat (hm_prev (m off)) = prv
     \<and> 12 \<le> n \<and> 4 dvd n \<and> segments m (off + n) off ss"

lemma ext_simps [simp]: "ext [] = 0" "ext (s # ss) = fst s + ext ss" "ext (xs @ ys) = ext xs + ext ys"
  by (simp_all add: ext_def)

lemma segments_append [simp]:
  "segments m off prv (xs @ ys) \<longleftrightarrow>
     segments m off prv xs \<and> segments m (off + ext xs) (last_off prv off xs) ys"
  by (induction m off prv xs rule: segments.induct) (auto simp: add.assoc)

lemma last_off_append [simp]: "last_off prv off (xs @ ys) = last_off (last_off prv off xs) (off + ext xs) ys"
  by (induction prv off xs rule: last_off.induct) (auto simp: add.assoc)

lemma segments_frame:
  assumes "segments m off prv ss" "q < off \<or> off + ext ss \<le> q"
  shows "segments (m(q := v)) off prv ss"
  using assms by (induction m off prv ss rule: segments.induct) auto

lemma segments_set_prev:
  assumes "segments m off prv ss" "unat w = prv'"
  shows "segments (m(off := m off\<lparr>hm_prev := w\<rparr>)) off prv' ss"
proof (cases ss)
  case (Cons s ss')
  obtain n u where s: "s = (n, u)" by (cases s)
  have "segments m (off + n) off ss'" "0 < n" using assms(1) Cons s by auto
  then show ?thesis using assms Cons s segments_frame [of m "off + n" off ss' off] by auto
qed simp

lemma segments_aligned: "segments m off prv ss \<Longrightarrow> 4 dvd ext ss"
  by (induction m off prv ss rule: segments.induct) auto

lemma last_off_le: "segments m off prv ss \<Longrightarrow> ss \<noteq> [] \<Longrightarrow> off \<le> last_off prv off ss \<and> last_off prv off ss + 12 \<le> off + ext ss"
proof (induction m off prv ss rule: segments.induct)
  case (2 m off prv n u ss)
  then show ?case by (cases ss) auto
qed simp

text \<open>Cutting a segment in two, and fusing two neighbours: the writes that do it.\<close>

lemma segments_split:
  assumes s: "segments m off prv (as @ (n, u) # bs)" and p: "p = off + ext as"
    and a: "12 \<le> a" "4 dvd a" "a + 12 \<le> n"
    and w: "unat nx = p + n" "unat w = p" "unat w2 = p + a"
    and v: "magic v = HEAP_MAGIC" "used v = (if u' then 1 else 0)" "hm_next v = w2" "hm_prev v = hm_prev (m p)"
    and m': "m' = m(p + a := \<lparr>magic = HEAP_MAGIC, used = 0, hm_next = nx, hm_prev = w\<rparr>, p := v)"
  shows "segments (m'(p + n := m' (p + n)\<lparr>hm_prev := w2\<rparr>)) off prv (as @ (a, u') # (n - a, False) # bs)"
proof -
  have n: "4 dvd n" "p + n \<noteq> p" "p + n \<noteq> p + a" using s a by auto
  have as: "segments m off prv as" using s by simp
  have bs: "segments m (p + n) p bs" using s p by simp
  have pp: "unat (hm_prev (m p)) = last_off prv off as" using s p by simp
  have 1: "segments m' off prv as" unfolding m'
    by (intro segments_frame as) (use p a in auto)
  have 2: "segments m' (p + n) p bs" unfolding m'
    by (intro segments_frame bs) (use p a in auto)
  have 3: "segments (m'(p + n := m' (p + n)\<lparr>hm_prev := w2\<rparr>)) off prv as"
    by (rule segments_frame [OF 1]) (use p in auto)
  have 4: "segments (m'(p + n := m' (p + n)\<lparr>hm_prev := w2\<rparr>)) (p + n) (p + a) bs"
    by (rule segments_set_prev [OF 2 w(3)])
  have "4 dvd n - a" using n(1) a(2) by (rule dvd_diff_nat)
  then show ?thesis using 3 4 n a w v pp p by (simp add: m' add.assoc)
qed

text \<open>The code leaves the end of the heap alone when it cuts the last segment.\<close>

lemma segments_split_end:
  assumes s: "segments m 0 0 (as @ (n, u) # bs)" "ext (as @ (n, u) # bs) = unat (e :: u32)"
    and p: "unat p = ext as" "unat nx = unat p + n" "unat p2 = unat p + a"
    and a: "12 \<le> a" "4 dvd a" "a + 12 \<le> n"
    and v: "magic v = HEAP_MAGIC" "used v = (if u' then 1 else 0)" "hm_next v = p2" "hm_prev v = hm_prev (m (unat p))"
    and m': "m' = m(unat p2 := \<lparr>magic = HEAP_MAGIC, used = 0, hm_next = nx, hm_prev = p\<rparr>, unat p := v)"
  shows "segments (if nx = e then m' else m'(unat nx := m' (unat nx)\<lparr>hm_prev := p2\<rparr>)) 0 0
    (as @ (a, u') # (n - a, False) # bs)"
proof -
  have s': "segments (m'(unat p + n := m' (unat p + n)\<lparr>hm_prev := p2\<rparr>)) 0 0 (as @ (a, u') # (n - a, False) # bs)"
    by (rule segments_split [OF s(1) _ a p(2) refl p(3) v]) (use p m' in simp_all)
  show ?thesis
  proof (cases "nx = e")
    case False
    then show ?thesis using s' p(2) by simp
  next
    case True
    then have "0 + ext (as @ (a, u') # (n - a, False) # bs) \<le> unat p + n" using s(2) p(2) a(3) by simp
    from segments_frame [OF s' disjI2 [OF this], of "m' (unat p + n)"] show ?thesis
      by (simp only: True simp_thms if_True fun_upd_upd fun_upd_triv)
  qed
qed

lemma segments_fuse:
  assumes s: "segments m off prv (as @ (a, u) # (b, u2) # bs)" and p: "p = off + ext as"
    and w: "unat nx = p + a + b" "unat w = p"
    and m': "m' = m(p := m p\<lparr>hm_next := nx\<rparr>)"
  shows "segments (m'(p + a + b := m' (p + a + b)\<lparr>hm_prev := w\<rparr>)) off prv (as @ (a + b, u) # bs)"
proof -
  have n: "0 < a" "0 < b" using s by auto
  have as: "segments m off prv as" using s by simp
  have bs: "segments m (p + a + b) (p + a) bs" using s p by (simp add: add.assoc)
  have 1: "segments m' off prv as" unfolding m'
    by (intro segments_frame as) (use p in auto)
  have 2: "segments m' (p + a + b) (p + a) bs" unfolding m'
    by (intro segments_frame bs) (use p n in auto)
  have 3: "segments (m'(p + a + b := m' (p + a + b)\<lparr>hm_prev := w\<rparr>)) off prv as"
    by (rule segments_frame [OF 1]) (use p in auto)
  have 4: "segments (m'(p + a + b := m' (p + a + b)\<lparr>hm_prev := w\<rparr>)) (p + a + b) p bs"
    by (rule segments_set_prev [OF 2 w(2)])
  show ?thesis using 3 4 s n w p by (simp add: m' add.assoc)
qed

lemma segments_mark:
  assumes s: "segments m off prv (as @ (n, u) # bs)" and p: "p = off + ext as"
    and v: "magic v = HEAP_MAGIC" "used v = (if u' then 1 else 0)" "hm_next v = hm_next (m p)" "hm_prev v = hm_prev (m p)"
  shows "segments (m(p := v)) off prv (as @ (n, u') # bs)"
proof -
  have as: "segments m off prv as" using s by simp
  have bs: "segments m (p + n) p bs" using s p by simp
  have 1: "segments (m(p := v)) off prv as" by (rule segments_frame [OF as]) (use p in auto)
  have 2: "segments (m(p := v)) (p + n) p bs" by (rule segments_frame [OF bs]) (use s in auto)
  show ?thesis using 1 2 s v p by simp
qed

subsection \<open>The invariant\<close>

text \<open>
  \<open>xs\<close> are the segments below \<^verbatim>\<open>lfree\<close>, \<open>ys\<close> the ones from there on. No two free segments are
  neighbours, and \<^verbatim>\<open>used_mem\<close> counts the extent of the segments in use.
\<close>

definition heap_shape :: "heap \<Rightarrow> segs \<Rightarrow> segs \<Rightarrow> bool" where
  "heap_shape h xs ys \<longleftrightarrow> segments (hmem h) 0 0 (xs @ ys) \<and> ext (xs @ ys) = unat (heap_end h)
     \<and> unat (heap_end h) = unat (mem_size_aligned h) + 12 \<and> heap_ptr h + unat (heap_end h) + 12 < 2 ^ 32
     \<and> unat (lfree h) = ext xs
     \<and> successively (\<lambda>s t. snd s \<or> snd t) (xs @ ys) \<and> 4 dvd heap_ptr h
     \<and> used_mem h = of_nat (ext (filter snd (xs @ ys)))"

definition heap_inv :: "heap \<Rightarrow> segs \<Rightarrow> segs \<Rightarrow> bool" where
  "heap_inv h xs ys \<longleftrightarrow> heap_shape h xs ys \<and> (ys = [] \<or> \<not> snd (hd ys))"

definition same_heap :: "heap \<Rightarrow> heap \<Rightarrow> bool" where
  "same_heap h h' \<longleftrightarrow> heap_ptr h' = heap_ptr h \<and> heap_end h' = heap_end h \<and> mem_size_aligned h' = mem_size_aligned h"

lemmas heap_defs = heap_inv_def heap_shape_def

lemma upd_hm_simps [simp]:
  "hmem (upd_hm p f h) = (hmem h)(unat p := f (hmem h (unat p)))" "heap_ptr (upd_hm p f h) = heap_ptr h"
  "heap_end (upd_hm p f h) = heap_end h" "lfree (upd_hm p f h) = lfree h"
  "mem_size_aligned (upd_hm p f h) = mem_size_aligned h" "used_mem (upd_hm p f h) = used_mem h"
  "max_mem (upd_hm p f h) = max_mem h"
  by (simp_all add: upd_hm_def)

lemma count_used_simps [simp]:
  "hmem (count_used n h) = hmem h" "heap_ptr (count_used n h) = heap_ptr h"
  "heap_end (count_used n h) = heap_end h" "lfree (count_used n h) = lfree h"
  "mem_size_aligned (count_used n h) = mem_size_aligned h" "used_mem (count_used n h) = used_mem h + n"
  by (simp_all add: count_used_def Let_def)

text \<open>Offsets do not wrap inside the heap.\<close>

lemma unat_off:
  assumes "unat (p :: u32) + n \<le> unat (e :: u32)"
  shows "unat (p + of_nat n) = unat p + n"
proof -
  have "unat e < 2 ^ 32" using unsigned_less [of e, where 'a = nat] by simp
  then have "unat p + n < 2 ^ 32" using assms by linarith
  then show ?thesis by (simp add: unat_word_ariths unat_of_nat take_bit_nat_def)
qed

lemma unat_room:
  assumes "unat (nx :: u32) = unat p + n" "12 \<le> n"
  shows "unat (nx - (p + 12)) = n - 12" "unat (nx - p) = n" "unat (nx - p - 12) = n - 12"
proof -
  have 1: "unat (p + 12) = unat p + 12" using unat_off [of p 12 nx] assms by simp
  then have "p + 12 \<le> nx" using assms by (simp add: word_le_nat_alt)
  then show "unat (nx - (p + 12)) = n - 12" using unat_sub [of "p + 12" nx] 1 assms by simp
  then show "unat (nx - p - 12) = n - 12" by (simp add: diff_diff_add)
  have "p \<le> nx" using assms by (simp add: word_le_nat_alt)
  then show "unat (nx - p) = n" using unat_sub [of p nx] assms by simp
qed

lemma unat_nat_cast: "n < 2 ^ 32 \<Longrightarrow> unat (of_nat n :: u32) = n"
  by (simp add: unat_of_nat take_bit_nat_eq_self)

lemma word_nat_cast: "of_nat (unat w) = (w :: u32)"
  by simp

lemma heap_bound: "heap_shape h xs ys \<Longrightarrow> ext (xs @ ys) < 2 ^ 32"
  using unsigned_less [of "heap_end h", where 'a = nat] by (simp add: heap_shape_def)

lemma heap_inv_lfree:
  assumes "heap_inv h xs ys"
  shows "lfree h = heap_end h \<or> used (hm h (lfree h)) = 0"
  using assms by (cases ys) (auto simp: heap_defs hm_def word_unat_eq_iff)

subsection \<open>First fit\<close>

text \<open>
  The search takes the first free segment with room for \<open>n\<close> bytes; \<open>e\<close> is the offset of the end
  of the heap. What remains of the segment is cut off if it can hold a block of the minimal size.
\<close>

definition take_seg :: "nat \<Rightarrow> nat \<Rightarrow> segs" where
  "take_seg n m = (if n + 36 \<le> m then [(n + 12, True), (m - (n + 12), False)] else [(m, True)])"

fun alloc_segs :: "nat \<Rightarrow> nat \<Rightarrow> nat \<Rightarrow> segs \<Rightarrow> (nat \<times> segs) option" where
  "alloc_segs n e off [] = None"
| "alloc_segs n e off ((m, u) # ss) =
     (if off + n + 12 < e then
        if \<not> u \<and> n + 12 \<le> m then Some (off, take_seg n m @ ss)
        else map_option (\<lambda>(p, ss). (p, (m, u) # ss)) (alloc_segs n e (off + m) ss)
      else None)"

definition a_malloc :: "nat \<Rightarrow> nat \<Rightarrow> segs \<Rightarrow> segs \<Rightarrow> (nat \<times> segs \<times> segs) option" where
  "a_malloc n e xs ys = map_option (\<lambda>(p, zs). (p, xs @ takeWhile snd zs, dropWhile snd zs)) (alloc_segs n e (ext xs) ys)"

lemma alloc_segs_Some:
  assumes "alloc_segs n e off ys = Some (p, zs)"
  shows "\<exists>as m bs. ys = as @ (m, False) # bs \<and> zs = as @ take_seg n m @ bs \<and> p = off + ext as
     \<and> n + 12 \<le> m \<and> p + n + 12 < e \<and> (\<forall>s \<in> set as. snd s \<or> fst s < n + 12)"
  using assms
proof (induction n e off ys arbitrary: p zs rule: alloc_segs.induct)
  case (2 n e off m u ss)
  show ?case
  proof (cases "\<not> u \<and> n + 12 \<le> m")
    case True
    then show ?thesis using 2(2) by (intro exI [of _ "[]"]) (auto split: if_splits)
  next
    case False
    then have l: "off + n + 12 < e" using 2(2) by (auto split: if_splits)
    then obtain zs' where z: "alloc_segs n e (off + m) ss = Some (p, zs')" "zs = (m, u) # zs'"
      using 2(2) False by (auto split: if_splits)
    obtain as m' bs where "ss = as @ (m', False) # bs" "zs' = as @ take_seg n m' @ bs" "p = off + m + ext as"
      "n + 12 \<le> m'" "p + n + 12 < e" "\<forall>s \<in> set as. snd s \<or> fst s < n + 12"
      using 2(1) [OF l False z(1)] by blast
    then show ?thesis using False z(2) by (intro exI [of _ "(m, u) # as"]) auto
  qed
qed simp

lemma malloc_loop_first_fit:
  assumes "segments (hmem h) (unat p) prv ys" "unat p + ext ys = unat (heap_end h)"
    "unat (heap_end h) = unat (mem_size_aligned h) + 12" "sz \<le> mem_size_aligned h"
  shows "malloc_loop sz p h = Some (map_option (of_nat \<circ> fst) (alloc_segs (unat sz) (unat (heap_end h)) (unat p) ys))"
  using assms(1,2)
proof (induction ys arbitrary: p prv)
  case Nil
  have "\<not> p < mem_size_aligned h - sz" using Nil(2) assms(3,4) by (simp add: word_less_nat_alt unat_sub)
  then show ?case by (simp add: malloc_loop.simps)
next
  case (Cons s ss)
  obtain n u where s: "s = (n, u)" by (cases s)
  define nx where "nx = hm_next (hm h p)"
  have c: "p < mem_size_aligned h - sz \<longleftrightarrow> unat p + unat sz + 12 < unat (heap_end h)"
    using assms(3,4) by (simp add: word_less_nat_alt word_le_nat_alt unat_sub) linarith
  have nx: "unat nx = unat p + n" "12 \<le> n" "used (hm h p) = (if u then 1 else 0)"
    using Cons(2) by (simp_all add: s nx_def hm_def)
  have r: "sz \<le> nx - (p + 12) \<longleftrightarrow> unat sz + 12 \<le> n"
    unfolding word_le_nat_alt unat_room(1) [OF nx(1,2)] using nx(2) by linarith
  have "malloc_loop sz nx h = Some (map_option (of_nat \<circ> fst) (alloc_segs (unat sz) (unat (heap_end h)) (unat nx) ss))"
    by (rule Cons(1) [of _ "unat p"]) (use Cons(2,3) nx s in simp_all)
  then show ?case unfolding s
    by (subst malloc_loop.simps, fold nx_def) (simp add: c nx r option.map_comp o_def case_prod_unfold)
qed

lemma lfree_loop_next:
  assumes "segments (hmem h) (unat l) prv ys" "unat l + ext ys = unat (heap_end h)"
  shows "\<exists>l'. lfree_loop l h = Some l' \<and> unat l' = unat l + ext (takeWhile snd ys)"
  using assms
proof (induction ys arbitrary: l prv)
  case Nil
  then have "l = heap_end h" by (simp add: word_unat_eq_iff)
  then show ?case by (simp add: lfree_loop.simps)
next
  case (Cons s ss)
  obtain n u where s: "s = (n, u)" by (cases s)
  have nx: "unat (hm_next (hm h l)) = unat l + n" "used (hm h l) = (if u then 1 else 0)" "0 < n"
    using Cons(2) by (simp_all add: s hm_def)
  have "l \<noteq> heap_end h" using Cons(3) nx(3) by (auto simp: s)
  moreover have "\<exists>l'. lfree_loop (hm_next (hm h l)) h = Some l' \<and> unat l' = unat (hm_next (hm h l)) + ext (takeWhile snd ss)"
    by (rule Cons(1) [of _ "unat l"]) (use Cons(2,3) nx s in simp_all)
  ultimately show ?case using nx by (subst lfree_loop.simps) (simp add: s add.assoc)
qed

subsection \<open>Taking a block\<close>

lemma successively_mark:
  assumes "successively (\<lambda>s t. snd s \<or> snd t) (as @ (n, False) # bs)"
  shows "successively (\<lambda>s t. snd s \<or> snd t) (as @ take_seg k n @ bs)"
  using assms by (cases bs) (auto simp: take_seg_def successively_append_iff successively_Cons)

lemma ext_take_seg [simp]: "k + 12 \<le> n \<Longrightarrow> ext (take_seg k n) = n"
  by (simp add: take_seg_def)

lemma malloc_mark_same [simp]:
  "heap_ptr (malloc_mark sz p h) = heap_ptr h" "heap_end (malloc_mark sz p h) = heap_end h"
  "lfree (malloc_mark sz p h) = lfree h" "mem_size_aligned (malloc_mark sz p h) = mem_size_aligned h"
  by (simp_all add: malloc_mark_def Let_def)

lemma malloc_mark_segments:
  assumes s: "segments (hmem h) 0 0 (as @ (n, False) # bs)" "ext (as @ (n, False) # bs) = unat (heap_end h)"
    and e: "unat (heap_end h) = unat (mem_size_aligned h) + 12" "unat (heap_end h) + 12 < 2 ^ 32"
    and p: "unat p = ext as" and sz: "unat sz + 12 \<le> n" "4 dvd unat sz"
  shows "segments (hmem (malloc_mark sz p h)) 0 0 (as @ take_seg (unat sz) n @ bs)
    \<and> used_mem (malloc_mark sz p h) = used_mem h + of_nat (fst (hd (take_seg (unat sz) n)))"
proof -
  define nx p2 where "nx = hm_next (hm h p)" and "p2 = p + 12 + sz"
  have nx: "unat nx = unat p + n" "12 \<le> n" "magic (hm h p) = HEAP_MAGIC" "used (hm h p) = 0"
    using s p by (simp_all add: nx_def hm_def)
  have b: "unat p + n \<le> unat (heap_end h)" using s(2) p by simp
  have end1: "mem_size_aligned h + 12 = heap_end h"
    using unat_off [of "mem_size_aligned h" 12 "heap_end h"] e(1) by (simp add: word_unat_eq_iff)
  have p2: "unat p2 = unat p + (12 + unat sz)"
    using unat_off [of p "12 + unat sz" "heap_end h"] b sz by (simp add: p2_def add.assoc)
  have "unat sz + 24 < 2 ^ 32" using sz b e by linarith
  then have "unat (sz + 12 + 12) = unat sz + 24" by (simp add: unat_word_ariths)
  then have r: "sz + 12 + 12 \<le> nx - (p + 12) \<longleftrightarrow> unat sz + 36 \<le> n"
    unfolding word_le_nat_alt unat_room(1) [OF nx(1,2)] using nx(2) by linarith
  let ?m = "(hmem h)(unat p2 := \<lparr>magic = HEAP_MAGIC, used = 0, hm_next = nx, hm_prev = p\<rparr>,
      unat p := hm h p\<lparr>hm_next := p2, used := 1, magic := HEAP_MAGIC\<rparr>)"
  have ne: "unat p2 \<noteq> unat p" "unat nx \<noteq> unat p" using p2 nx by simp_all
  have f: "hm_next (hmem h (unat p)) = nx" by (simp add: nx_def hm_def)
  show ?thesis
  proof (cases "unat sz + 36 \<le> n")
    case False
    then have "\<not> sz + 12 + 12 \<le> nx - (p + 12)" using r by simp
    then have m: "malloc_mark sz p h = upd_hm p (\<lambda>m. m\<lparr>magic := HEAP_MAGIC\<rparr>)
        (count_used (nx - p) (upd_hm p (\<lambda>m. m\<lparr>used := 1\<rparr>) h))"
      by (simp add: malloc_mark_def Let_def nx_def) (simp add: hm_def)
    have "nx - p = of_nat n" using unat_room(2) [OF nx(1,2)] by (metis word_nat_cast)
    moreover have "segments (hmem (malloc_mark sz p h)) 0 0 (as @ (n, True) # bs)"
    proof -
      have "hmem (malloc_mark sz p h) = (hmem h)(unat p := hm h p\<lparr>used := 1, magic := HEAP_MAGIC\<rparr>)"
        by (simp add: m hm_def)
      then show ?thesis
        by (simp only:) (rule segments_mark [OF s(1)], use p in \<open>simp_all add: hm_def\<close>)
    qed
    ultimately show ?thesis using False by (simp add: take_seg_def m)
  next
    case True
    then have c: "sz + 12 + 12 \<le> nx - (p + 12)" using r by simp
    have m: "hmem (malloc_mark sz p h) = (if nx = heap_end h then ?m else ?m(unat nx := ?m (unat nx)\<lparr>hm_prev := p2\<rparr>))"
      and u: "used_mem (malloc_mark sz p h) = used_mem h + (sz + 12)"
      unfolding malloc_mark_def Let_def hm_def f p2_def [symmetric] if_P [OF c] using ne f end1 by (simp_all add: fun_upd_twist)
    have "segments (hmem (malloc_mark sz p h)) 0 0 (as @ (12 + unat sz, True) # (n - (12 + unat sz), False) # bs)"
      unfolding m by (rule segments_split_end [OF s p nx(1) p2 _ _ _ _ _ _ _ refl])
        (use True sz in \<open>simp_all add: hm_def\<close>)
    then show ?thesis using True u by (simp add: take_seg_def add.commute)
  qed
qed

lemma malloc_take_ok:
  assumes inv: "heap_inv h xs ys" and a: "alloc_segs (unat sz) (unat (heap_end h)) (ext xs) ys = Some (o', zs)"
    and sz: "4 dvd unat sz"
  shows "\<exists>h'. malloc_take sz (of_nat o') h = Some h' \<and> same_heap h h' \<and> heap_inv h' (xs @ takeWhile snd zs) (dropWhile snd zs)"
proof -
  obtain as n bs where ys: "ys = as @ (n, False) # bs" "zs = as @ take_seg (unat sz) n @ bs" "o' = ext xs + ext as"
    "unat sz + 12 \<le> n" using alloc_segs_Some [OF a] by blast
  define p h1 where "p = (of_nat o' :: u32)" and "h1 = malloc_mark sz p h"
  have i: "heap_shape h xs ys" "ys = [] \<or> \<not> snd (hd ys)" using inv by (simp_all add: heap_inv_def)
  have p: "unat p = ext (xs @ as)"
    unfolding p_def by (subst unat_nat_cast) (use heap_bound [OF i(1)] ys(1,3) in simp_all)
  have m: "segments (hmem h1) 0 0 (xs @ zs)" "used_mem h1 = used_mem h + of_nat (fst (hd (take_seg (unat sz) n)))"
    using malloc_mark_segments [of h "xs @ as" n bs p sz] i(1) p ys sz by (simp_all add: heap_shape_def h1_def)
  have "successively (\<lambda>s t. snd s \<or> snd t) (xs @ zs)"
    using successively_mark [of "xs @ as" n bs] i(1) ys by (simp add: heap_shape_def)
  moreover have "ext zs = ext ys" using ys by simp
  moreover have "used_mem h1 = of_nat (ext (filter snd (xs @ zs)))"
    using m(2) i(1) ys by (simp add: heap_shape_def take_seg_def)
  ultimately have s1: "heap_shape h1 xs zs" using m(1) i(1) by (simp add: heap_shape_def h1_def)
  show ?thesis
  proof (cases "as = []")
    case False
    then have "ext as \<noteq> 0" using i(1) ys(1) by (cases as) (auto simp: heap_shape_def)
    then have "p \<noteq> lfree h" using p i(1) by (auto simp: heap_shape_def)
    then have "malloc_take sz p h = Some h1" by (simp add: malloc_take_def h1_def)
    moreover have "\<not> snd (hd zs)" "zs \<noteq> []" using False i(2) ys by auto
    then have "takeWhile snd zs = []" "dropWhile snd zs = zs" by (cases zs, simp_all)+
    ultimately show ?thesis using s1 \<open>\<not> snd (hd zs)\<close> by (simp add: heap_inv_def same_heap_def h1_def p_def)
  next
    case True
    then have pl: "p = lfree h" using p i(1) by (simp add: heap_shape_def word_unat_eq_iff)
    have "segments (hmem h1) (unat (lfree h1)) (last_off 0 0 xs) zs" "unat (lfree h1) + ext zs = unat (heap_end h1)"
      using s1 by (simp_all add: heap_shape_def)
    then obtain l where l: "lfree_loop (lfree h1) h1 = Some l" "unat l = unat (lfree h1) + ext (takeWhile snd zs)"
      using lfree_loop_next by blast
    define h2 where "h2 = h1\<lparr>lfree := l\<rparr>"
    have s2: "heap_shape h2 (xs @ takeWhile snd zs) (dropWhile snd zs)"
      using s1 l(2) by (simp add: heap_shape_def h2_def del: segments_append filter_append)
    have "dropWhile snd zs = [] \<or> \<not> snd (hd (dropWhile snd zs))" using hd_dropWhile [of snd zs] by blast
    moreover from this have "l = heap_end h1 \<or> used (hm h1 l) = 0"
      using heap_inv_lfree [of h2 "xs @ takeWhile snd zs" "dropWhile snd zs"] s2 by (simp add: heap_inv_def h2_def hm_def)
    ultimately show ?thesis using s2 l(1) pl by (simp add: malloc_take_def heap_inv_def same_heap_def h1_def p_def h2_def)
  qed
qed

subsection \<open>Plugging holes\<close>

text \<open>The reference: neighbouring free segments are fused, everywhere.\<close>

fun coalesce :: "segs \<Rightarrow> segs" where
  "coalesce [] = []"
| "coalesce ((n, u) # ss) = (case coalesce ss of
     (m, False) # ss' \<Rightarrow> if u then (n, u) # (m, False) # ss' else (n + m, False) # ss'
   | r \<Rightarrow> (n, u) # r)"

abbreviation plugged :: "segs \<Rightarrow> bool" where
  "plugged \<equiv> successively (\<lambda>s t. snd s \<or> snd t)"

lemma coalesce_id: "plugged ss \<Longrightarrow> coalesce ss = ss"
proof (induction ss rule: coalesce.induct)
  case (2 n u ss)
  then show ?case by (cases ss) (auto simp: successively_Cons split: bool.splits)
qed simp

lemma coalesce_used: "coalesce ((n, True) # ss) = (n, True) # coalesce ss"
  by (auto split: list.splits bool.splits)

lemma coalesce_append:
  assumes "plugged as" "as = [] \<or> snd (last as)"
  shows "coalesce (as @ zs) = as @ coalesce zs"
  using assms
proof (induction as)
  case (Cons s as)
  obtain n u where s: "s = (n, u)" by (cases s)
  have ih: "coalesce (as @ zs) = as @ coalesce zs" using Cons by (auto simp: successively_Cons split: if_splits)
  show ?case
  proof (cases u)
    case True
    then show ?thesis using ih coalesce_used by (simp add: s del: coalesce.simps)
  next
    case False
    then obtain m as' where "as = (m, True) # as'" using Cons(2,3) by (cases as) (auto simp: s successively_Cons)
    then show ?thesis using ih False by (simp add: s del: coalesce.simps) (simp add: coalesce.simps(2) [of n] del: coalesce.simps)
  qed
qed simp

lemma plug_next_ok:
  assumes s: "segments (hmem h) 0 0 (as @ (n, False) # bs)" "ext (as @ (n, False) # bs) = unat (heap_end h)"
    and mem: "unat mem = ext as"
  shows "bs = (m, False) # cs \<Longrightarrow> segments (hmem (plug_next mem h)) 0 0 (as @ (n + m, False) # cs)
      \<and> lfree (plug_next mem h) = (if unat (lfree h) = ext as + n then mem else lfree h)"
    "bs = [] \<or> snd (hd bs) \<Longrightarrow> plug_next mem h = h"
proof -
  define nmem where "nmem = hm_next (hm h mem)"
  have n: "unat nmem = ext as + n" "12 \<le> n" using s mem by (simp_all add: nmem_def hm_def)
  have ne: "mem \<noteq> nmem" using n mem by auto
  show "plug_next mem h = h" if "bs = [] \<or> snd (hd bs)"
  proof (cases bs)
    case Nil
    then have "nmem = heap_end h" using n s(2) by (simp add: word_unat_eq_iff)
    then show ?thesis by (simp add: plug_next_def flip: nmem_def)
  next
    case (Cons t ts)
    then have "used (hm h nmem) = 1" using s(1) that n by (cases t) (simp add: hm_def)
    then show ?thesis by (simp add: plug_next_def flip: nmem_def)
  qed
  assume b: "bs = (m, False) # cs"
  define nx where "nx = hm_next (hm h nmem)"
  have nn: "used (hm h nmem) = 0" "unat nx = ext as + n + m" "12 \<le> m"
    using s(1) n b by (simp_all add: hm_def nx_def)
  have "nmem \<noteq> heap_end h" using n nn s(2) b by (auto simp: word_unat_eq_iff)
  then have e: "hmem (plug_next mem h) = (let m' = (hmem h)(ext as := hmem h (ext as)\<lparr>hm_next := nx\<rparr>)
       in m'(ext as + n + m := m' (ext as + n + m)\<lparr>hm_prev := mem\<rparr>))"
    "lfree (plug_next mem h) = (if lfree h = nmem then mem else lfree h)"
    using ne nn(1,2) n(2) unfolding plug_next_def nmem_def [symmetric]
    by (simp_all add: Let_def hm_def nx_def mem n(1))
  show "segments (hmem (plug_next mem h)) 0 0 (as @ (n + m, False) # cs)
      \<and> lfree (plug_next mem h) = (if unat (lfree h) = ext as + n then mem else lfree h)"
    using segments_fuse [OF s(1) [unfolded b] _ _ mem refl, of nx] nn(2) e n(1)
    by (simp add: Let_def word_unat_eq_iff)
qed

lemma plug_prev_ok:
  assumes s: "segments (hmem h) 0 0 (as @ (n, False) # bs)" and mem: "unat mem = ext as"
  shows "as = cs @ [(m, False)] \<Longrightarrow> segments (hmem (plug_prev mem h)) 0 0 (cs @ (m + n, False) # bs)
      \<and> unat (lfree (plug_prev mem h)) = (if lfree h = mem then ext cs else unat (lfree h))"
    "as = [] \<or> snd (last as) \<Longrightarrow> plug_prev mem h = h"
proof -
  define pmem where "pmem = hm_prev (hm h mem)"
  have p: "unat pmem = last_off 0 0 as" "12 \<le> n" using s mem by (simp_all add: pmem_def hm_def)
  show "plug_prev mem h = h" if "as = [] \<or> snd (last as)"
  proof (cases as rule: rev_cases)
    case Nil
    then have "pmem = mem" using p mem by (simp add: word_unat_eq_iff)
    then show ?thesis by (simp add: plug_prev_def flip: pmem_def)
  next
    case (snoc ts t)
    then have "used (hm h pmem) = 1" using s(1) that p by (cases t) (simp add: hm_def)
    then show ?thesis by (simp add: plug_prev_def flip: pmem_def)
  qed
  assume b: "as = cs @ [(m, False)]"
  define nx where "nx = hm_next (hm h mem)"
  have pn: "unat pmem = ext cs" "used (hm h pmem) = 0" "unat nx = ext cs + m + n" "12 \<le> m" "unat mem = ext cs + m"
    using s p mem b by (simp_all add: hm_def nx_def)
  have ne: "pmem \<noteq> mem" using pn by auto
  have e: "hmem (plug_prev mem h) = (let m' = (hmem h)(ext cs := hmem h (ext cs)\<lparr>hm_next := nx\<rparr>)
       in m'(ext cs + m + n := m' (ext cs + m + n)\<lparr>hm_prev := pmem\<rparr>))"
    "lfree (plug_prev mem h) = (if lfree h = mem then pmem else lfree h)"
    using ne pn(2-4) unfolding plug_prev_def pmem_def [symmetric]
    by (simp_all add: Let_def hm_def nx_def pn(1,5))
  have s': "segments (hmem h) 0 0 (cs @ (m, False) # (n, False) # bs)" using s b by (simp add: add.assoc)
  show "segments (hmem (plug_prev mem h)) 0 0 (cs @ (m + n, False) # bs)
      \<and> unat (lfree (plug_prev mem h)) = (if lfree h = mem then ext cs else unat (lfree h))"
    using segments_fuse [OF s' _ _ pn(1) refl, of nx] pn(1,3) e by (simp add: Let_def)
qed

lemma plug_same [simp]:
  "heap_ptr (plug_next mem h) = heap_ptr h" "heap_end (plug_next mem h) = heap_end h"
  "mem_size_aligned (plug_next mem h) = mem_size_aligned h" "used_mem (plug_next mem h) = used_mem h"
  "heap_ptr (plug_prev mem h) = heap_ptr h" "heap_end (plug_prev mem h) = heap_end h"
  "mem_size_aligned (plug_prev mem h) = mem_size_aligned h" "used_mem (plug_prev mem h) = used_mem h"
  by (simp_all add: plug_next_def plug_prev_def Let_def)

text \<open>
  After both sides are plugged the segments are the coalesced ones; \<open>as'\<close>, the segments below the
  resulting free one, are \<open>as\<close> without its last one if that was free.
\<close>

lemma plug_holes_ok:
  assumes s: "segments (hmem h) 0 0 (as @ (n, False) # bs)" "ext (as @ (n, False) # bs) = unat (heap_end h)"
    and mem: "unat mem = ext as" and ok: "plugged (as @ (n, True) # bs)"
  obtains h' as' N bs' where "plug_holes mem h = Some h'" "segments (hmem h') 0 0 (as' @ (N, False) # bs')"
    "coalesce (as @ (n, False) # bs) = as' @ (N, False) # bs'" "plugged (as' @ (N, False) # bs')"
    "as = as' \<or> (\<exists>m. as = as' @ [(m, False)])" "same_heap h h'" "used_mem h' = used_mem h"
    "lfree h = mem \<Longrightarrow> unat (lfree h') = ext as'" "unat (lfree h) < ext as \<Longrightarrow> unat (lfree h') = unat (lfree h)"
    "ext as < unat (lfree h) \<Longrightarrow> unat (lfree h') =
       (if bs \<noteq> [] \<and> \<not> snd (hd bs) \<and> unat (lfree h) = ext as + n then ext as' else unat (lfree h))"
    "filter snd (as' @ (N, False) # bs') = filter snd (as @ bs)" "ext (as' @ (N, False) # bs') = ext (as @ (n, False) # bs)"
proof -
  define h1 where "h1 = plug_next mem h"
  obtain n1 bs1 where f: "segments (hmem h1) 0 0 (as @ (n1, False) # bs1)" "n1 + ext bs1 = n + ext bs"
    "plugged (as @ (n1, True) # bs1)" "coalesce ((n, False) # bs) = (n1, False) # bs1"
    "lfree h1 = (if bs \<noteq> [] \<and> \<not> snd (hd bs) \<and> unat (lfree h) = ext as + n then mem else lfree h)"
    "bs1 = [] \<or> snd (hd bs1)" "filter snd bs1 = filter snd bs"
  proof (cases "bs = [] \<or> snd (hd bs)")
    case True
    moreover from this have "coalesce bs = bs" using ok by (intro coalesce_id) (auto simp: successively_append_iff successively_Cons)
    ultimately show ?thesis using that [of n bs] plug_next_ok(2) [OF s mem True] s ok
      by (cases bs) (auto simp: h1_def split: bool.splits)
  next
    case False
    then obtain m cs where b: "bs = (m, False) # cs" by (cases bs) auto
    have "coalesce ((m, False) # cs) = (m, False) # cs"
      using ok by (intro coalesce_id) (auto simp: b successively_append_iff successively_Cons)
    then show ?thesis using that [of "n + m" cs] plug_next_ok(1) [OF s mem b] ok
      by (auto simp: h1_def b successively_append_iff successively_Cons)
  qed
  have "mem < heap_end h" "used (hm h mem) = 0" using s mem by (simp_all add: word_less_nat_alt hm_def)
  then have r: "plug_holes mem h = Some (plug_prev mem h1)" by (simp add: plug_holes_def h1_def)
  have sm: "same_heap h (plug_prev mem h1)" "used_mem (plug_prev mem h1) = used_mem h"
    by (simp_all add: same_heap_def h1_def)
  have ok1: "plugged (cs @ (k, False) # bs1)" if "cs = [] \<or> snd (last cs)" "plugged cs" for cs k
    using that f(3,6) by (auto simp: successively_append_iff successively_Cons)
  show ?thesis
  proof (cases "as = [] \<or> snd (last as)")
    case True
    have pas: "plugged as" using ok by (simp add: successively_append_iff)
    have "coalesce (as @ (n, False) # bs) = as @ (n1, False) # bs1"
      using coalesce_append [OF pas True] f(4) by simp
    then show ?thesis
      using that [OF r] plug_prev_ok(2) [OF f(1) mem True] f(1,2,5,7) sm ok1 [OF True pas] mem
      by (auto split: if_splits)
  next
    case False
    then obtain cs m where b: "as = cs @ [(m, False)]" by (cases as rule: rev_cases) auto
    have c: "cs = [] \<or> snd (last cs)" and pcs: "plugged cs" using ok b by (auto simp: successively_append_iff)
    have co: "coalesce (as @ (n, False) # bs) = cs @ (m + n1, False) # bs1"
      using coalesce_append [OF pcs c, of "(m, False) # (n, False) # bs"] f(4) b
      by (simp add: coalesce.simps(2) [of m] del: coalesce.simps)
    show ?thesis
      by (rule that [OF r, of cs "m + n1" bs1])
        (use co plug_prev_ok(1) [OF f(1) mem b] f(2,5,7) sm ok1 [OF c pcs] mem b in \<open>auto split: if_splits\<close>)
  qed
qed

subsection \<open>Freeing\<close>

lemma segs_cut:
  assumes "xs @ ys = as @ (n, u) # bs"
  obtains cs where "xs = as @ (n, u) # cs" "bs = cs @ ys" | cs where "as = xs @ cs" "ys = cs @ (n, u) # bs"
  using assms by (auto simp: append_eq_append_conv2 Cons_eq_append_conv append_eq_Cons_conv)

lemma free_mem_ok:
  assumes inv: "heap_inv h xs ys" and ss: "xs @ ys = as @ (n, True) # bs" and mem: "unat mem = ext as"
  shows "\<exists>h' xs' ys'. free_mem mem h = Some h' \<and> same_heap h h' \<and> heap_inv h' xs' ys'
     \<and> xs' @ ys' = coalesce (as @ (n, False) # bs) \<and> (\<forall>s \<in> set xs'. s \<in> set xs)"
proof -
  have i: "segments (hmem h) 0 0 (as @ (n, True) # bs)" "ext (as @ (n, True) # bs) = unat (heap_end h)"
    "plugged (as @ (n, True) # bs)" "used_mem h = of_nat (ext (filter snd (as @ (n, True) # bs)))"
    using inv unfolding heap_defs ss by blast+
  have m: "used (hm h mem) \<noteq> 0" "magic (hm h mem) = HEAP_MAGIC" "unat (hm_next (hm h mem)) = unat mem + n" "12 \<le> n"
    using i(1) mem by (simp_all add: hm_def)
  have nw: "hm_next (hm h mem) - mem = of_nat n" using unat_room(2) [OF m(3,4)] by (metis word_nat_cast)
  define h1 where "h1 = (let h = upd_hm mem (\<lambda>m. m\<lparr>used := 0, magic := HEAP_MAGIC\<rparr>) h;
    h = (if mem < lfree h then h\<lparr>lfree := mem\<rparr> else h) in h\<lparr>used_mem := used_mem h - (hm_next (hm h mem) - mem)\<rparr>)"
  have f: "free_mem mem h = plug_holes mem h1" using m(1,2) by (simp add: free_mem_def h1_def Let_def)
  have h1: "hmem h1 = (hmem h)(unat mem := hm h mem\<lparr>used := 0, magic := HEAP_MAGIC\<rparr>)" "same_heap h h1"
    "lfree h1 = (if mem < lfree h then mem else lfree h)" "used_mem h1 = of_nat (ext (filter snd (as @ bs)))"
    using nw i(4) by (simp_all add: h1_def Let_def hm_def same_heap_def)
  have s1: "segments (hmem h1) 0 0 (as @ (n, False) # bs)" unfolding h1(1)
    by (rule segments_mark [OF i(1)]) (use mem in \<open>simp_all add: hm_def\<close>)
  have e1: "ext (as @ (n, False) # bs) = unat (heap_end h1)" using i(2) h1(2) by (simp add: same_heap_def)
  obtain h' as' N bs' where h': "plug_holes mem h1 = Some h'" "segments (hmem h') 0 0 (as' @ (N, False) # bs')"
    "coalesce (as @ (n, False) # bs) = as' @ (N, False) # bs'" "plugged (as' @ (N, False) # bs')"
    "as = as' \<or> (\<exists>m. as = as' @ [(m, False)])" "same_heap h1 h'" "used_mem h' = used_mem h1"
    "lfree h1 = mem \<Longrightarrow> unat (lfree h') = ext as'" "unat (lfree h1) < ext as \<Longrightarrow> unat (lfree h') = unat (lfree h1)"
    "filter snd (as' @ (N, False) # bs') = filter snd (as @ bs)" "ext (as' @ (N, False) # bs') = ext (as @ (n, False) # bs)"
    by (rule plug_holes_ok [OF s1 e1 mem i(3)]) blast
  have sh: "heap_shape h' us vs" if "us @ vs = as' @ (N, False) # bs'" "unat (lfree h') = ext us" for us vs
    unfolding heap_shape_def that(1)
    using h'(2,4,6,7,10,11) h1(2,4) e1 inv that(2) by (simp add: heap_defs same_heap_def)
  have sm: "same_heap h h'" using h1(2) h'(6) by (simp add: same_heap_def)
  have lf: "unat (lfree h) = ext xs" using inv by (simp add: heap_defs)
  show ?thesis
  proof (rule segs_cut [OF ss])
    fix cs assume c: "xs = as @ (n, True) # cs" "bs = cs @ ys"
    then have "lfree h1 = mem" using h1(3) lf mem m(4) by (simp add: word_less_nat_alt)
    then have "heap_inv h' as' ((N, False) # bs')" using h'(8) sh [of as' "(N, False) # bs'"] by (simp add: heap_inv_def)
    moreover have "\<forall>s \<in> set as'. s \<in> set xs" using h'(5) c by auto
    ultimately show ?thesis using f h'(1,3) sm by (metis append.simps)
  next
    fix cs assume c: "as = xs @ cs" "ys = cs @ (n, True) # bs"
    then have hd: "cs \<noteq> []" "\<not> snd (hd cs)" using inv by (cases cs; auto simp: heap_inv_def)+
    then have "0 < ext cs" using i(1) c by (cases cs) auto
    then have "lfree h1 = lfree h" "unat (lfree h1) < ext as" using h1(3) lf mem c by (auto simp: word_less_nat_alt)
    then have l: "unat (lfree h') = ext xs" using h'(9) lf by simp
    obtain ds where d: "as' = xs @ ds" "ds = [] \<or> hd ds = hd cs"
      using h'(5) c(1) hd(1) that [of cs] that [of "butlast cs"]
      by (cases cs rule: rev_cases) (auto simp: hd_append)
    then have "heap_inv h' xs (ds @ (N, False) # bs')"
      using sh [of xs "ds @ (N, False) # bs'"] l hd(2) by (auto simp: heap_inv_def hd_append)
    then show ?thesis using f h'(1,3) sm d(1) by auto
  qed
qed

subsection \<open>Behaviour of the allocator\<close>

lemma rt_malloc_unfold:
  assumes "heap_free k hs" "0 < sz" "RT_ALIGN sz 4 \<le> mem_size_aligned h"
  shows "rt_malloc hs sz k h = (case malloc_loop (req_size sz) (lfree h) h of None \<Rightarrow> None
    | Some None \<Rightarrow> Some (Block RT_NULL, k, h)
    | Some (Some p) \<Rightarrow> malloc_take (req_size sz) p h \<bind> (\<lambda>h.
         if unat p + 12 + unat (req_size sz) \<le> unat (heap_end h) \<and> (heap_ptr h + unat p + 12) mod 4 = 0
           \<and> (heap_ptr h + unat p) mod 4 = 0
         then Some (Block (heap_ptr h + unat p + 12), k, h) else None))"
proof -
  obtain k1 where k1: "rt_sem_take hs (- 1) k = Some (Done RT_EOK, k1)" "rt_sem_release hs k1 = Some (RT_EOK, k)"
    "RT_DEBUG_NOT_IN_INTERRUPT k = Some ()" by (rule heap_lock [OF assms(1)])
  have nz: "sz \<noteq> 0" "\<not> mem_size_aligned h < RT_ALIGN sz 4" using assms(2,3) by auto
  have "rt_malloc hs sz k h = malloc_locked hs (req_size sz) k1 h"
    using nz k1(1,3) by (simp add: rt_malloc_def req_size_def Let_def)
  then show ?thesis using k1(2) unfolding malloc_locked_def
    by (auto split: option.splits bind_splits)
qed

lemma alloc_segs_large: "e \<le> n + 12 \<Longrightarrow> alloc_segs n e off ys = None"
  by (cases ys) auto

lemma malloc_ok:
  assumes "heap_inv h xs ys" "heap_free k hs" "0 < sz" "sz \<le> 0xfffffffc" "12 \<le> mem_size_aligned h"
    and n: "n = unat (req_size sz)"
  shows "case a_malloc n (unat (heap_end h)) xs ys of
      None \<Rightarrow> rt_malloc hs sz k h = Some (Block RT_NULL, k, h)
    | Some (p, xs', ys') \<Rightarrow>
        (\<exists>h'. rt_malloc hs sz k h = Some (Block (heap_ptr h + p + 12), k, h') \<and> same_heap h h' \<and> heap_inv h' xs' ys')
        \<and> 4 dvd heap_ptr h + p + 12 \<and> unat sz \<le> n
        \<and> (\<exists>as m bs. xs @ ys = as @ (m, False) # bs \<and> ext as = p \<and> n + 12 \<le> m \<and> xs' @ ys' = as @ take_seg n m @ bs)"
proof (cases "mem_size_aligned h < RT_ALIGN sz 4")
  case True
  then have "unat (heap_end h) \<le> n + 12" using assms(1) by (auto simp: n req_size_def heap_defs word_less_nat_alt)
  then have "a_malloc n (unat (heap_end h)) xs ys = None" by (simp add: a_malloc_def alloc_segs_large)
  moreover have "RT_DEBUG_NOT_IN_INTERRUPT k = Some ()" by (rule heap_lock [OF assms(2)])
  ultimately show ?thesis using True assms(3) by (auto simp: rt_malloc_def)
next
  case False
  then have "req_size sz \<le> mem_size_aligned h" using assms(5) by (auto simp: req_size_def)
  then have l: "malloc_loop (req_size sz) (lfree h) h =
      Some (map_option (of_nat \<circ> fst) (alloc_segs n (unat (heap_end h)) (ext xs) ys))"
    using malloc_loop_first_fit [of h "lfree h" "last_off 0 0 xs" ys] assms(1) by (simp add: heap_defs n)
  note r = rt_malloc_unfold [OF assms(2,3), of h, OF leI [OF False], unfolded l]
  show ?thesis
  proof (cases "alloc_segs n (unat (heap_end h)) (ext xs) ys")
    case None
    then show ?thesis using r by (simp add: a_malloc_def)
  next
    case (Some x)
    obtain p zs where x: "x = (p, zs)" by (cases x)
    obtain as m bs where ys: "ys = as @ (m, False) # bs" "zs = as @ take_seg n m @ bs" "p = ext xs + ext as"
      "n + 12 \<le> m" "p + n + 12 < unat (heap_end h)" using alloc_segs_Some [OF Some [unfolded x]] by blast
    obtain h' where h': "malloc_take (req_size sz) (of_nat p) h = Some h'" "same_heap h h'"
      "heap_inv h' (xs @ takeWhile snd zs) (dropWhile snd zs)"
      using malloc_take_ok [OF assms(1), of "req_size sz" p zs] Some x req_size_ok [OF assms(4)] by (auto simp: n)
    have up: "unat (of_nat p :: u32) = p"
      by (rule unat_nat_cast) (use ys(5) unsigned_less [of "heap_end h", where 'a = nat] in simp)
    have al: "4 dvd heap_ptr h + p" using assms(1) segments_aligned [of "hmem h" 0 0 "xs @ as"] ys(1,3)
      by (simp add: heap_defs)
    then have al12: "4 dvd heap_ptr h + p + 12" by (rule dvd_add) simp
    have "rt_malloc hs sz k h = Some (Block (heap_ptr h + p + 12), k, h')"
      using r h'(1,2) Some x up al al12 ys(5) by (simp add: same_heap_def n mod_eq_0_iff_dvd)
    moreover have "\<exists>as m bs. xs @ ys = as @ (m, False) # bs \<and> ext as = p \<and> n + 12 \<le> m \<and> xs @ zs = as @ take_seg n m @ bs"
      using ys by (intro exI [of _ "xs @ as"]) auto
    ultimately show ?thesis
      using Some x h'(2,3) al12 req_size_ok(2) [OF assms(4)] by (simp add: a_malloc_def n)
  qed
qed

text \<open>The block in front of a segment in use is what \<^verbatim>\<open>rt_free\<close> accepts.\<close>

lemma block_addr:
  assumes "heap_inv h xs ys" "xs @ ys = as @ (n, True) # bs" "12 < n"
  shows "heap_ptr h + ext as + 12 < heap_ptr h + unat (heap_end h)" "(heap_ptr h + ext as + 12) mod 4 = 0"
    "unat (of_nat (ext as) :: u32) = ext as"
proof -
  have i: "segments (hmem h) 0 0 (as @ (n, True) # bs)" "ext (as @ (n, True) # bs) = unat (heap_end h)" "4 dvd heap_ptr h"
    using assms(1) unfolding heap_defs assms(2) by blast+
  have e: "ext as + n \<le> unat (heap_end h)" "4 dvd heap_ptr h" "segments (hmem h) 0 0 as"
    using i(1,3) by (simp_all add: i(2) [symmetric])
  then show "heap_ptr h + ext as + 12 < heap_ptr h + unat (heap_end h)" using assms(3) by simp
  have "4 dvd heap_ptr h + ext as" using e(2) segments_aligned [OF e(3)] by (rule dvd_add)
  then have "4 dvd heap_ptr h + ext as + 12" by (rule dvd_add) simp
  then show "(heap_ptr h + ext as + 12) mod 4 = 0" by simp
  show "unat (of_nat (ext as) :: u32) = ext as"
    by (rule unat_nat_cast) (use e(1) unsigned_less [of "heap_end h", where 'a = nat] in simp)
qed

lemma free_ok:
  assumes "heap_inv h xs ys" "heap_free k hs" "xs @ ys = as @ (n, True) # bs" "12 < n"
  shows "\<exists>h' xs' ys'. rt_free hs (heap_ptr h + ext as + 12) k h = Some (Done RT_EOK, k, h') \<and> same_heap h h'
     \<and> heap_inv h' xs' ys' \<and> xs' @ ys' = coalesce (as @ (n, False) # bs)
     \<and> ((\<forall>s \<in> set xs. snd s) \<longrightarrow> (\<forall>s \<in> set xs'. snd s))"
proof -
  obtain k1 where k1: "rt_sem_take hs (- 1) k = Some (Done RT_EOK, k1)" "rt_sem_release hs k1 = Some (RT_EOK, k)"
    "RT_DEBUG_NOT_IN_INTERRUPT k = Some ()" by (rule heap_lock [OF assms(2)])
  obtain h' xs' ys' where "free_mem (of_nat (ext as)) h = Some h'" "same_heap h h'" "heap_inv h' xs' ys'"
     "xs' @ ys' = coalesce (as @ (n, False) # bs)" "\<forall>s \<in> set xs'. s \<in> set xs"
    using free_mem_ok [OF assms(1,3) block_addr(3) [OF assms(1,3,4)]] by blast
  then show ?thesis
    using k1 block_addr(1,2) [OF assms(1,3,4)] by (intro exI) (auto simp: rt_free_def free_locked_def)
qed

lemma coalesce_fuse: "coalesce (as @ (a, False) # (b, False) # bs) = coalesce (as @ (a + b, False) # bs)"
  by (induction as) (auto split: list.splits bool.splits)

subsection \<open>Shrinking in place\<close>

lemma coalesce_head:
  assumes "plugged bs" "coalesce ((k, False) # bs) = (N, False) # bs'" "bs = cs @ ys" "cs \<noteq> [] \<or> bs = [] \<or> snd (hd bs)"
  obtains ds where "bs' = ds @ ys" "N + ext ds = k + ext cs"
proof (cases cs)
  case Nil
  then have "bs = [] \<or> snd (hd bs)" using assms(4) by simp
  then show ?thesis using that [of "[]"] Nil assms(2,3) coalesce_id [OF assms(1)] by (cases bs) (auto split: bool.splits)
next
  case (Cons c cs')
  obtain m u where c: "c = (m, u)" by (cases c)
  show ?thesis using that [of cs] that [of cs'] Cons c assms(2,3) coalesce_id [OF assms(1)] by (cases u) auto
qed

lemma realloc_split_ok:
  assumes inv: "heap_inv h xs ys" and ss: "xs @ ys = as @ (n, True) # bs" and p: "unat p = ext as"
    and w: "4 dvd unat w" "unat w + 24 < n - 12"
  shows "\<exists>h' xs' ys'. realloc_split (of_nat (n - 12)) w p h = Some h' \<and> same_heap h h' \<and> heap_inv h' xs' ys'
     \<and> xs' @ ys' = coalesce (as @ (unat w + 12, True) # (n - (unat w + 12), False) # bs)
     \<and> (unat (lfree h) > ext as \<and> (bs = [] \<or> snd (hd bs)) \<longrightarrow> lfree h' = lfree h)"
proof -
  let ?a = "unat w + 12"
  have i: "segments (hmem h) 0 0 (as @ (n, True) # bs)" "ext (as @ (n, True) # bs) = unat (heap_end h)"
    "plugged (as @ (n, True) # bs)" "used_mem h = of_nat (ext (filter snd (as @ (n, True) # bs)))"
    "unat (heap_end h) = unat (mem_size_aligned h) + 12" "unat (lfree h) = ext xs"
    using inv unfolding heap_defs ss by blast+
  define nx p2 where "nx = hm_next (hm h p)" and "p2 = p + 12 + w"
  have nx: "unat nx = unat p + n" using i(1) p by (simp add: nx_def hm_def)
  have p2: "unat p2 = unat p + ?a"
    using unat_off [of p ?a "heap_end h"] i(2) p w(2) by (simp add: p2_def ac_simps)
  have end1: "mem_size_aligned h + 12 = heap_end h"
    using unat_off [of "mem_size_aligned h" 12 "heap_end h"] i(5) by (simp add: word_unat_eq_iff)
  have ne: "unat p2 \<noteq> unat p" "unat nx \<noteq> unat p" using p2 nx w(2) by simp_all
  have f: "hm_next (hmem h (unat p)) = nx" by (simp add: nx_def hm_def)
  let ?m = "(hmem h)(unat p2 := \<lparr>magic = HEAP_MAGIC, used = 0, hm_next = nx, hm_prev = p\<rparr>,
      unat p := hm h p\<lparr>hm_next := p2\<rparr>)"
  define h1 where "h1 = h\<lparr>used_mem := used_mem h - (of_nat (n - 12) - w),
    hmem := (if nx = heap_end h then ?m else ?m(unat nx := ?m (unat nx)\<lparr>hm_prev := p2\<rparr>))\<rparr>"
  have r: "realloc_split (of_nat (n - 12)) w p h = plug_holes p2 h1"
    using ne f end1 unfolding realloc_split_def Let_def hm_def p2_def [symmetric]
    by (simp add: h1_def hm_def upd_hm_def fun_upd_twist)
  have s1: "segments (hmem h1) 0 0 ((as @ [(?a, True)]) @ (n - ?a, False) # bs)"
    using segments_split_end [OF i(1,2) p nx p2 _ _ _ _ _ _ _ refl, of "hm h p\<lparr>hm_next := p2\<rparr>" True] i(1) p w
    by (simp add: h1_def hm_def)
  have e1: "ext ((as @ [(?a, True)]) @ (n - ?a, False) # bs) = unat (heap_end h1)"
    using i(2) w(2) by (simp add: h1_def)
  have ok: "plugged ((as @ [(?a, True)]) @ (n - ?a, True) # bs)"
    using i(3) by (cases bs) (auto simp: successively_append_iff successively_Cons)
  have q: "unat p2 = ext (as @ [(?a, True)])" using p p2 by simp
  have nw: "(of_nat n :: u32) - 12 = of_nat (n - 12)" using w(2) by (simp add: of_nat_diff)
  have u1: "used_mem h1 = of_nat (ext (filter snd ((as @ [(?a, True)]) @ bs)))"
    using i(4) by (simp add: h1_def nw [symmetric])
  obtain h' as' N bs' where h': "plug_holes p2 h1 = Some h'" "segments (hmem h') 0 0 (as' @ (N, False) # bs')"
    "coalesce ((as @ [(?a, True)]) @ (n - ?a, False) # bs) = as' @ (N, False) # bs'" "plugged (as' @ (N, False) # bs')"
    "as @ [(?a, True)] = as' \<or> (\<exists>m. as @ [(?a, True)] = as' @ [(m, False)])" "same_heap h1 h'" "used_mem h' = used_mem h1"
    "unat (lfree h1) < ext (as @ [(?a, True)]) \<Longrightarrow> unat (lfree h') = unat (lfree h1)"
    "ext (as @ [(?a, True)]) < unat (lfree h1) \<Longrightarrow> unat (lfree h') =
       (if bs \<noteq> [] \<and> \<not> snd (hd bs) \<and> unat (lfree h1) = ext (as @ [(?a, True)]) + (n - ?a) then ext as' else unat (lfree h1))"
    "filter snd (as' @ (N, False) # bs') = filter snd ((as @ [(?a, True)]) @ bs)"
    "ext (as' @ (N, False) # bs') = ext ((as @ [(?a, True)]) @ (n - ?a, False) # bs)"
    by (rule plug_holes_ok [OF s1 e1 q ok]) blast
  have as': "as' = as @ [(?a, True)]" using h'(5) by simp
  have sm: "same_heap h h'" using h'(6) by (simp add: same_heap_def h1_def)
  have uh: "used_mem h' = of_nat (ext (filter snd (as' @ (N, False) # bs')))" unfolding h'(7,10) u1 ..
  have c: "ext (as' @ (N, False) # bs') = unat (heap_end h')" "unat (heap_end h') = unat (mem_size_aligned h') + 12"
    "heap_ptr h' + unat (heap_end h') + 12 < 2 ^ 32" "4 dvd heap_ptr h'"
    using inv sm h'(6,11) e1 by (simp_all add: heap_defs same_heap_def)
  have sh: "heap_shape h' us vs" if "us @ vs = as' @ (N, False) # bs'" "unat (lfree h') = ext us" for us vs
    unfolding heap_shape_def that(1) using h'(2,4) c uh that(2) by blast
  have lf: "lfree h1 = lfree h" by (simp add: h1_def)
  have fin: ?thesis if "heap_inv h' us vs" "us @ vs = as' @ (N, False) # bs'"
    "unat (lfree h) > ext as \<and> (bs = [] \<or> snd (hd bs)) \<longrightarrow> lfree h' = lfree h" for us vs
    using that r h'(1,3) sm by auto
  show ?thesis
  proof (rule segs_cut [OF ss])
    fix cs assume cs: "as = xs @ cs" "ys = cs @ (n, True) # bs"
    then have hd: "cs \<noteq> []" "\<not> snd (hd cs)" using inv by (cases cs; auto simp: heap_inv_def)+
    have "unat (lfree h') = ext xs" using h'(8) i(6) cs lf by simp
    then have "heap_inv h' xs (cs @ (?a, True) # (N, False) # bs')"
      using sh [of xs "cs @ (?a, True) # (N, False) # bs'"] hd as' cs(1) by (simp add: heap_inv_def)
    then show ?thesis using fin as' cs(1) i(6) by simp
  next
    fix cs assume cs: "xs = as @ (n, True) # cs" "bs = cs @ ys"
    have l: "unat (lfree h') = (if bs \<noteq> [] \<and> \<not> snd (hd bs) \<and> ext cs = 0 then ext as' else unat (lfree h))"
      using h'(9) i(6) cs lf w(2) by simp
    have "plugged (as @ [(?a, True)])" using ok by (simp add: successively_append_iff)
    from coalesce_append [OF this, of "(n - ?a, False) # bs"]
    have co: "coalesce ((n - ?a, False) # bs) = (N, False) # bs'" using h'(3) as' by (simp del: coalesce.simps)
    have pb: "plugged bs" using i(3) by (auto simp: successively_append_iff successively_Cons)
    have lx: "unat (lfree h) = ext as + n + ext cs" using i(6) cs by simp
    show ?thesis
    proof (cases "bs \<noteq> [] \<and> \<not> snd (hd bs) \<and> ext cs = 0")
      case True
      then show ?thesis using fin [of as' "(N, False) # bs'"] sh [of as' "(N, False) # bs'"] l by (simp add: heap_inv_def)
    next
      case False
      then obtain ds where ds: "bs' = ds @ ys" "N + ext ds = n - ?a + ext cs"
        using coalesce_head [OF pb co cs(2)] i(1) cs by (cases cs) auto
      have "unat (lfree h') = ext (as' @ (N, False) # ds)" using l False lx ds(2) as' w(2) by simp
      moreover have "lfree h' = lfree h" using l False by (simp add: word_unat_eq_iff)
      ultimately show ?thesis
        using fin [of "as' @ (N, False) # ds" ys] sh [of "as' @ (N, False) # ds" ys] ds(1) inv
        by (simp add: heap_inv_def)
    qed
  qed
qed

lemma realloc_shrink_ok:
  assumes "heap_inv h xs ys" "heap_free k hs" "xs @ ys = as @ (n, True) # bs"
    and w: "w = RT_ALIGN newsize 4" "0 < newsize" "newsize \<le> 0xfffffffc" "unat w + 24 < n - 12"
  shows "\<exists>h' xs' ys'. rt_realloc hs (heap_ptr h + ext as + 12) newsize k h = Some (Block (heap_ptr h + ext as + 12), k, h')
     \<and> same_heap h h' \<and> heap_inv h' xs' ys'
     \<and> xs' @ ys' = coalesce (as @ (unat w + 12, True) # (n - (unat w + 12), False) # bs)
     \<and> (unat (lfree h) > ext as \<and> (bs = [] \<or> snd (hd bs)) \<longrightarrow> lfree h' = lfree h)"
proof -
  obtain k1 where k1: "rt_sem_take hs (- 1) k = Some (Done RT_EOK, k1)" "rt_sem_release hs k1 = Some (RT_EOK, k)"
    "RT_DEBUG_NOT_IN_INTERRUPT k = Some ()" by (rule heap_lock [OF assms(2)])
  have n12: "12 < n" using w(4) by simp
  note b = block_addr [OF assms(1,3) n12]
  have i: "segments (hmem h) 0 0 (as @ (n, True) # bs)" "ext (as @ (n, True) # bs) = unat (heap_end h)"
    "unat (heap_end h) = unat (mem_size_aligned h) + 12"
    using assms(1) unfolding heap_defs assms(3) by blast+
  let ?p = "of_nat (ext as) :: u32"
  have nx: "unat (hm_next (hm h ?p)) = unat ?p + n" using i(1) b(3) by (simp add: hm_def)
  have sz: "hm_next (hm h ?p) - ?p - 12 = of_nat (n - 12)"
    using unat_room(3) [OF nx] n12 by (metis word_nat_cast less_imp_le)
  have un: "unat (of_nat (n - 12) :: u32) = n - 12" using unat_room(3) [OF nx] n12 sz by simp
  have uw: "unat w = (unat newsize + 3) div 4 * 4" using unat_align [OF w(3)] w(1) by simp
  have w4: "4 dvd unat w" "w \<noteq> 0" using uw w(2) by (auto simp: word_gt_0 unat_eq_0 [symmetric] simp del: unat_eq_0)
  have wm: "\<not> mem_size_aligned h < w" using w(4) i(2,3) by (simp add: word_less_nat_alt)
  have "unat (w + 24) = unat w + 24" using unat_off [of w 24 "heap_end h"] w(4) i(2) by simp
  then have c: "w \<noteq> of_nat (n - 12)" "w + 12 + 12 < of_nat (n - 12)"
    using un w(4) by (auto simp: word_less_nat_alt add.assoc)
  have "rt_realloc hs (heap_ptr h + ext as + 12) newsize k h = realloc_split (of_nat (n - 12)) w ?p h \<bind> (\<lambda>h'. Some (Block (heap_ptr h + ext as + 12), k, h'))"
    using k1 wm w4(2) w(1) b(1) c sz by (simp add: rt_realloc_def realloc_locked_def Let_def eq_commute [of _ w])
  moreover obtain h' xs' ys' where "realloc_split (of_nat (n - 12)) w ?p h = Some h'" "same_heap h h'" "heap_inv h' xs' ys'"
     "xs' @ ys' = coalesce (as @ (unat w + 12, True) # (n - (unat w + 12), False) # bs)"
     "unat (lfree h) > ext as \<and> (bs = [] \<or> snd (hd bs)) \<longrightarrow> lfree h' = lfree h"
    using realloc_split_ok [OF assms(1,3) b(3) w4(1) w(4)] by blast
  ultimately show ?thesis by (intro exI [of _ h'] exI [of _ xs'] exI [of _ ys']) simp
qed

subsection \<open>Two example heaps\<close>

text \<open>
  Two segments in use followed by a free one, and the same with the last one in use too; the heap's
  semaphore is 21.
\<close>

definition demo_hk :: kernel where
  "demo_hk = demo\<lparr>sems := (\<lambda>_. \<lparr>sem_value = 1\<rparr>)\<rparr>"

definition ex_hm :: "u16 \<Rightarrow> u32 \<Rightarrow> u32 \<Rightarrow> heap_mem" where
  "ex_hm u n p = \<lparr>magic = HEAP_MAGIC, used = u, hm_next = n, hm_prev = p\<rparr>"

definition demo_heap :: heap where
  "demo_heap = \<lparr>heap_ptr = 8192, heap_end = 136, lfree = 88, mem_size_aligned = 124, used_mem = 88, max_mem = 88,
     hmem = (\<lambda>_. ex_hm 1 136 136)(0 := ex_hm 1 64 0, 64 := ex_hm 1 88 0, 88 := ex_hm 0 136 64)\<rparr>"

definition full_heap :: heap where
  "full_heap = demo_heap\<lparr>lfree := 136, used_mem := 136, max_mem := 136, hmem := (hmem demo_heap)(88 := ex_hm 1 136 64)\<rparr>"

lemma demo_heap_fields:
  "heap_ptr demo_heap = 8192" "heap_end demo_heap = 136" "mem_size_aligned demo_heap = 124" "used_mem demo_heap = 88"
  by (simp_all add: demo_heap_def)

lemma demo_malloc: "a_malloc 12 136 [(64, True), (24, True)] [(48, False)] = Some (88, [(64, True), (24, True), (24, True)], [(24, False)])"
  by (simp add: a_malloc_def take_seg_def)

lemma demo_req: "0 < (5 :: u32)" "(5 :: u32) \<le> 0xfffffffc" "12 \<le> mem_size_aligned demo_heap" "12 = unat (req_size 5)"
  by (simp_all add: req_size_def RT_ALIGN_def demo_heap_fields)

lemma demo_heap_free: "heap_free demo_hk 21"
  by (simp add: heap_free_def demo_hk_def is_class_def) (simp add: demo_def ex_obj_def)

lemma demo_heap_inv: "heap_inv demo_heap [(64, True), (24, True)] [(48, False)]"
  by (simp add: heap_defs demo_heap_def ex_hm_def)

lemma full_heap_inv: "heap_inv full_heap [(64, True), (24, True), (48, True)] []"
  by (simp add: heap_defs full_heap_def demo_heap_def ex_hm_def)

subsection \<open>Properties\<close>

text \<open>C26: \<^verbatim>\<open>rt_malloc\<close> is first fit over the segments from \<^verbatim>\<open>lfree\<close> on: with the heap not in use by
  another thread it returns, for a request that does not wrap when rounded up, either no memory and
  the heap as it was, or a block that is aligned, has at least the requested size, lies in a segment
  that was free, and leaves all other segments alone; the heap invariant is kept, and the kernel
  state is unchanged.\<close>

theorem malloc_first_fit:
  assumes "heap_inv h xs ys" "heap_free k hs" "0 < sz" "sz \<le> 0xfffffffc" "12 \<le> mem_size_aligned h"
    and n: "n = unat (req_size sz)"
  shows "case a_malloc n (unat (heap_end h)) xs ys of
      None \<Rightarrow> rt_malloc hs sz k h = Some (Block RT_NULL, k, h)
    | Some (p, xs', ys') \<Rightarrow>
        (\<exists>h'. rt_malloc hs sz k h = Some (Block (heap_ptr h + p + 12), k, h') \<and> same_heap h h' \<and> heap_inv h' xs' ys')
        \<and> 4 dvd heap_ptr h + p + 12 \<and> unat sz \<le> n
        \<and> (\<exists>as m bs. xs @ ys = as @ (m, False) # bs \<and> ext as = p \<and> n + 12 \<le> m \<and> xs' @ ys' = as @ take_seg n m @ bs)"
  by (rule malloc_ok [OF assms])

theorem malloc_first_fit_witness:
  "\<exists>h'. rt_malloc 21 5 demo_hk demo_heap = Some (Block 8292, demo_hk, h')
     \<and> heap_inv h' [(64, True), (24, True), (24, True)] [(24, False)]"
proof -
  have e: "unat (heap_end demo_heap) = 136" by (simp add: demo_heap_fields)
  note r = malloc_first_fit [OF demo_heap_inv demo_heap_free demo_req, unfolded e demo_malloc option.case prod.case]
  show ?thesis using conjunct1 [OF r] by (auto simp: demo_heap_fields)
qed

text \<open>C27: \<^verbatim>\<open>rt_free\<close> of a block in use marks its segment free and fuses it with its free neighbours, so
  that no two free segments are adjacent; all assertions hold, the heap invariant is kept, and if
  \<^verbatim>\<open>lfree\<close> was the lowest free segment it still is.\<close>

theorem free_coalesces:
  assumes "heap_inv h xs ys" "heap_free k hs" "xs @ ys = as @ (n, True) # bs" "12 < n"
  shows "\<exists>h' xs' ys'. rt_free hs (heap_ptr h + ext as + 12) k h = Some (Done RT_EOK, k, h') \<and> same_heap h h'
     \<and> heap_inv h' xs' ys' \<and> xs' @ ys' = coalesce (as @ (n, False) # bs)
     \<and> ((\<forall>s \<in> set xs. snd s) \<longrightarrow> (\<forall>s \<in> set xs'. snd s))"
  by (rule free_ok [OF assms])

theorem free_coalesces_witness:
  "\<exists>h' xs' ys'. rt_free 21 8268 demo_hk demo_heap = Some (Done RT_EOK, demo_hk, h') \<and> heap_inv h' xs' ys'
     \<and> xs' @ ys' = [(64, True), (72, False)]"
  using free_coalesces [OF demo_heap_inv demo_heap_free, of "[(64, True)]" 24 "[(48, False)]"]
  by (auto simp: demo_heap_def)

text \<open>Freeing a block right after it was allocated restores the segments of the heap exactly: the
  part that was split off is fused again.\<close>

lemma malloc_free:
  assumes "heap_inv h xs ys" "heap_free k hs" "0 < sz" "sz \<le> 0xfffffffc" "12 \<le> mem_size_aligned h"
    and some: "rt_malloc hs sz k h = Some (Block a, k1, h1)" "a \<noteq> RT_NULL"
  shows "\<exists>h2 xs2 ys2. rt_free hs a k1 h1 = Some (Done RT_EOK, k, h2) \<and> heap_inv h2 xs2 ys2 \<and> xs2 @ ys2 = xs @ ys
     \<and> used_mem h2 = used_mem h"
proof -
  define n where "n = unat (req_size sz)"
  obtain p xs' ys' as m bs where r: "a = heap_ptr h + p + 12" "k1 = k" "same_heap h h1" "heap_inv h1 xs' ys'"
    "xs @ ys = as @ (m, False) # bs" "ext as = p" "n + 12 \<le> m" "xs' @ ys' = as @ take_seg n m @ bs"
    using malloc_ok [OF assms(1-5) n_def] some by (auto split: option.splits)
  have n12: "12 \<le> n" by (simp add: n_def req_size_def word_less_nat_alt)
  obtain l cs where cs: "take_seg n m @ bs = (l, True) # cs" "12 < l" "coalesce (as @ (l, False) # cs) = coalesce (as @ (m, False) # bs)"
  proof (cases "n + 36 \<le> m")
    case True
    then show ?thesis using that [of "n + 12" "(m - (n + 12), False) # bs"] coalesce_fuse [of as "n + 12"] n12
      by (simp add: take_seg_def)
  next
    case False
    then show ?thesis using that [of m bs] r(7) n12 by (simp add: take_seg_def)
  qed
  have "plugged (as @ (m, False) # bs)" using assms(1) r(5) by (simp add: heap_defs)
  then have c: "coalesce (as @ (l, False) # cs) = xs @ ys" using coalesce_id cs(3) r(5) by simp
  obtain h2 xs2 ys2 where "rt_free hs a k h1 = Some (Done RT_EOK, k, h2)" "heap_inv h2 xs2 ys2" "xs2 @ ys2 = xs @ ys"
    using free_ok [OF r(4) assms(2) r(8) [unfolded cs(1)] cs(2)] c r(1,3,6) by (auto simp: same_heap_def)
  moreover from this have "used_mem h2 = used_mem h" using assms(1) unfolding heap_defs by metis
  ultimately show ?thesis using r(2) by blast
qed

text \<open>\<^verbatim>\<open>rt_system_heap_init\<close> turns an area with room for two structures into a heap with one free
  segment that spans it up to the end structure, inside the aligned area, and with its semaphore
  free.\<close>

lemma heap_init_spec:
  assumes "sched_inv k" "hs \<noteq> RT_NULL" "hs \<notin> set (object_list k RT_Object_Class_Semaphore)" "interrupt_nest k = 0"
    "b \<le> 0xfffffffc" "unat (RT_ALIGN b 4) + 24 \<le> unat (RT_ALIGN_DOWN e 4)" "24 < RT_ALIGN_DOWN e 4" "used_mem h = 0" "tlists k (Waiters hs) = []"
  shows "\<exists>k' h'. rt_system_heap_init hs b e k h = Some (k', h') \<and> heap_free k' hs
     \<and> heap_inv h' [] [(unat (heap_end h'), False)] \<and> unat b \<le> heap_ptr h' \<and> heap_ptr h' + unat (heap_end h') + 12 \<le> unat e"
proof -
  let ?b = "RT_ALIGN b 4" and ?e = "RT_ALIGN_DOWN e 4"
  obtain k' where s: "rt_sem_init hs ''heap'' 1 0 k = Some (RT_EOK, k')" and f: "heap_free k' hs"
    using sem_init_lock [OF assms(1-4,9)] by auto
  have ba: "unat ?b = (unat b + 3) div 4 * 4" "unat ?e = unat e div 4 * 4" "unat ?e < 2 ^ 32"
    using unat_align [OF assms(5)] unat_align_down unsigned_less [of ?e, where 'a = nat] by simp_all
  define M where "M = ?e - ?b - 24"
  have "?b \<le> ?e" using assms(6) by (simp add: word_le_nat_alt)
  then have "unat (?e - ?b) = unat ?e - unat ?b" by (rule unat_sub)
  moreover from this have "24 \<le> ?e - ?b" using assms(6) by (simp add: word_le_nat_alt)
  ultimately have M: "unat M = unat ?e - unat ?b - 24" using unat_sub [of 24 "?e - ?b"] by (simp add: M_def)
  then have E: "unat (M + 12) = unat M + 12" using unat_off [of M 12 ?e] assms(6) by simp
  define h' where "h' = h\<lparr>mem_size_aligned := M, heap_ptr := unat ?b, heap_end := M + 12, lfree := 0,
    hmem := (hmem h)(0 := \<lparr>magic = HEAP_MAGIC, used = 0, hm_next = M + 12, hm_prev = 0\<rparr>,
      unat (M + 12) := \<lparr>magic = HEAP_MAGIC, used = 1, hm_next = M + 12, hm_prev = M + 12\<rparr>)\<rparr>"
  have c: "\<not> ?e \<le> 24" "?b \<le> ?e - 24"
    using assms(6,7) unat_sub [of 24 ?e] by (simp_all add: word_le_nat_alt word_less_nat_alt)
  have r: "rt_system_heap_init hs b e k h = Some (k', h')"
    using c assms(4) s by (simp add: rt_system_heap_init_def RT_DEBUG_NOT_IN_INTERRUPT_def Let_def not_le M_def [symmetric] h'_def upd_hm_def)
  have d: "4 dvd unat ?b" "4 dvd unat ?e" using ba by simp_all
  then have "4 dvd unat (M + 12)" unfolding E M using assms(6) by (simp add: dvd_diff_nat)
  then have "heap_inv h' [] [(unat (heap_end h'), False)]"
    using E M assms(6,8) ba(3) d(1) by (simp add: heap_defs h'_def)
  moreover have "unat b \<le> (unat b + 3) div 4 * 4" by presburger
  then have "unat b \<le> heap_ptr h'" "heap_ptr h' + unat (heap_end h') + 12 \<le> unat e"
    using ba E M assms(6) by (simp_all add: h'_def)
  ultimately show ?thesis using r f by blast
qed

text \<open>\<^verbatim>\<open>rt_realloc\<close> to a size that leaves more than 24 bytes over shrinks the block in place: it returns
  the same address, and the rest becomes a free segment that is fused with a free successor; the
  heap invariant is kept.\<close>

lemma realloc_shrinks:
  assumes "heap_inv h xs ys" "heap_free k hs" "xs @ ys = as @ (n, True) # bs"
    and w: "w = RT_ALIGN newsize 4" "0 < newsize" "newsize \<le> 0xfffffffc" "unat w + 24 < n - 12"
  shows "\<exists>h' xs' ys'. rt_realloc hs (heap_ptr h + ext as + 12) newsize k h = Some (Block (heap_ptr h + ext as + 12), k, h')
     \<and> same_heap h h' \<and> heap_inv h' xs' ys'
     \<and> xs' @ ys' = coalesce (as @ (unat w + 12, True) # (n - (unat w + 12), False) # bs)"
  using realloc_shrink_ok [OF assms] by blast

text \<open>Shrinking a block does not lower \<^verbatim>\<open>lfree\<close>: in a heap whose segments are all in use, the rest
  that \<^verbatim>\<open>rt_realloc\<close> frees stays out of the search, and every later \<^verbatim>\<open>rt_malloc\<close> fails, whatever its
  size, although a free segment exists.\<close>

lemma realloc_hides_rest:
  assumes "heap_inv h xs []" "heap_free k hs" "xs = as @ (n, True) # bs" "\<forall>s \<in> set xs. snd s"
    and w: "w = RT_ALIGN newsize 4" "0 < newsize" "newsize \<le> 0xfffffffc" "unat w + 24 < n - 12"
    and sz: "0 < sz" "sz \<le> 0xfffffffc"
  shows "\<exists>h' xs'. rt_realloc hs (heap_ptr h + ext as + 12) newsize k h = Some (Block (heap_ptr h + ext as + 12), k, h')
     \<and> heap_inv h' xs' [] \<and> (n - (unat w + 12), False) \<in> set xs'
     \<and> rt_malloc hs sz k h' = Some (Block RT_NULL, k, h')"
proof -
  have ss: "xs @ [] = as @ (n, True) # bs" and bs: "bs = [] \<or> snd (hd bs)" using assms(3,4) by (cases bs; simp)+
  let ?ss = "as @ (unat w + 12, True) # (n - (unat w + 12), False) # bs"
  obtain h' xs' ys' where h': "rt_realloc hs (heap_ptr h + ext as + 12) newsize k h = Some (Block (heap_ptr h + ext as + 12), k, h')"
     "same_heap h h'" "heap_inv h' xs' ys'" "xs' @ ys' = coalesce ?ss"
     "unat (lfree h) > ext as \<and> (bs = [] \<or> snd (hd bs)) \<longrightarrow> lfree h' = lfree h"
    using realloc_shrink_ok [OF assms(1,2) ss w] by blast
  have "unat (lfree h) = unat (heap_end h)" "unat (heap_end h) = unat (mem_size_aligned h) + 12"
    "unat (lfree h) = ext xs" using assms(1) by (simp_all add: heap_defs)
  then have l: "unat (lfree h') = unat (heap_end h')" "12 \<le> mem_size_aligned h'"
    using h'(2,5) bs assms(3) w(4) by (simp_all add: same_heap_def word_le_nat_alt)
  then have "ext ys' = 0" using h'(3) by (simp add: heap_defs)
  then have y: "ys' = []" using h'(3) by (cases ys') (auto simp: heap_defs)
  have "plugged ?ss" using assms(1,3) bs by (cases bs) (auto simp: heap_defs successively_append_iff successively_Cons)
  then have "xs' = ?ss" using h'(4) coalesce_id y by simp
  moreover have "rt_malloc hs sz k h' = Some (Block RT_NULL, k, h')"
    using malloc_ok [OF h'(3) assms(2) sz l(2) refl] y by (simp add: a_malloc_def)
  ultimately show ?thesis using h'(1,3) y by auto
qed

text \<open>The search bound is strict, so a block that would end exactly at the end of the heap is never
  handed out, and a fresh heap cannot give all of its \<^verbatim>\<open>mem_size_aligned\<close> bytes at once.\<close>

lemma malloc_exact_fit_fails:
  assumes "heap_inv h [] [(unat (heap_end h), False)]" "heap_free k hs" "12 \<le> mem_size_aligned h"
    "mem_size_aligned h \<le> 0xfffffffc"
  shows "rt_malloc hs (mem_size_aligned h) k h = Some (Block RT_NULL, k, h)"
proof -
  have e: "unat (heap_end h) = unat (mem_size_aligned h) + 12" using assms(1) by (simp add: heap_defs)
  have "0 < mem_size_aligned h" using assms(3) by (auto simp: word_gt_0)
  moreover have "alloc_segs (unat (req_size (mem_size_aligned h))) (unat (heap_end h)) 0 [(unat (heap_end h), False)] = None"
    by (rule alloc_segs_large) (use req_size_ok(2) [OF assms(4)] e in simp)
  ultimately show ?thesis using malloc_ok [OF assms(1,2) _ assms(4,3) refl] by (simp add: a_malloc_def)
qed

text \<open>The rounding of \<^verbatim>\<open>rt_malloc\<close> wraps: a request of more than \<open>2 ^ 32 - 4\<close> bytes is served like one
  of 12 bytes.\<close>

lemma malloc_huge_wraps:
  assumes "0xfffffffc < sz" "12 \<le> mem_size_aligned h"
  shows "rt_malloc hs sz k h = rt_malloc hs 12 k h"
proof -
  have "sz = 0xfffffffd \<or> sz = 0xfffffffe \<or> sz = 0xffffffff"
  proof -
    have "unat sz > 0xfffffffc" "unat sz < 2 ^ 32" using assms(1) unsigned_less [of sz, where 'a = nat]
      by (simp_all add: word_less_nat_alt)
    then have "unat sz = 0xfffffffd \<or> unat sz = 0xfffffffe \<or> unat sz = 0xffffffff" by simp linarith
    then show ?thesis by (auto simp: word_unat_eq_iff)
  qed
  then have "RT_ALIGN sz 4 = 0" "sz \<noteq> 0" by (auto simp: RT_ALIGN_def)
  moreover have "RT_ALIGN 12 4 = 12" by (simp add: RT_ALIGN_def)
  moreover have "\<not> mem_size_aligned h < 12" using assms(2) by simp
  ultimately show ?thesis by (simp add: rt_malloc_def Let_def)
qed

end
