(* ===== verification/RT_Ringbuffer.thy ===== *)
theory RT_Ringbuffer
  imports RT_Fifo RT_Memory
begin

text \<open>
  The byte ring buffer of the device drivers (\<^verbatim>\<open>components/drivers/src/ringbuffer.c\<close>). The read and
  write index carry a mirror bit each that flips when the index wraps; equal indices mean empty in
  the same mirror and full in different ones. The indices are 15-bit fields, the size a positive
  16-bit number. The structure is passed by value, so that the assertions on its address fall
  away; its bytes lie in byte memory. A ring buffer is a bounded queue of bytes.
\<close>

subsection \<open>Operations\<close>

record rt_ringbuffer =
  buffer_ptr :: ptr
  read_mirror :: bool
  read_index :: nat
  write_mirror :: bool
  write_index :: nat
  buffer_size :: int

datatype rt_ringbuffer_state = RT_RINGBUFFER_EMPTY | RT_RINGBUFFER_FULL | RT_RINGBUFFER_HALFFULL

text \<open>\<^verbatim>\<open>memcpy\<close> of the C library: its areas may not overlap.\<close>

definition c_memcpy :: "ptr \<Rightarrow> ptr \<Rightarrow> nat \<Rightarrow> mem \<Rightarrow> mem option" where
  "c_memcpy dst src n m = do {
     C_GUARD (n = 0 \<or> src + n \<le> dst \<or> dst + n \<le> src);
     Some (copied dst src n m)
   }"

definition rt_ringbuffer_status :: "rt_ringbuffer \<Rightarrow> rt_ringbuffer_state" where
  "rt_ringbuffer_status rb =
     (if read_index rb = write_index rb then
        if read_mirror rb = write_mirror rb then RT_RINGBUFFER_EMPTY else RT_RINGBUFFER_FULL
      else RT_RINGBUFFER_HALFFULL)"

definition rt_ringbuffer_data_len :: "rt_ringbuffer \<Rightarrow> int" where
  "rt_ringbuffer_data_len rb = (case rt_ringbuffer_status rb of
     RT_RINGBUFFER_EMPTY \<Rightarrow> 0
   | RT_RINGBUFFER_FULL \<Rightarrow> buffer_size rb
   | RT_RINGBUFFER_HALFFULL \<Rightarrow>
       if write_index rb > read_index rb then int (write_index rb) - int (read_index rb)
       else buffer_size rb - (int (read_index rb) - int (write_index rb)))"

definition rt_ringbuffer_space_len :: "rt_ringbuffer \<Rightarrow> int" where
  "rt_ringbuffer_space_len rb = buffer_size rb - rt_ringbuffer_data_len rb"

definition rt_ringbuffer_get_size :: "rt_ringbuffer \<Rightarrow> u16" where
  "rt_ringbuffer_get_size rb = of_int (buffer_size rb)"

definition rt_ringbuffer_init :: "rt_ringbuffer \<Rightarrow> ptr \<Rightarrow> u16 \<Rightarrow> rt_ringbuffer option" where
  "rt_ringbuffer_init rb pool sz = do {
     RT_ASSERT (sint sz > 0);
     Some (rb\<lparr>read_mirror := False, read_index := 0, write_mirror := False, write_index := 0,
       buffer_ptr := pool, buffer_size := sint sz AND NOT 3\<rparr>)
   }"

definition rt_ringbuffer_reset :: "rt_ringbuffer \<Rightarrow> rt_ringbuffer" where
  "rt_ringbuffer_reset rb = rb\<lparr>read_mirror := False, read_index := 0, write_mirror := False, write_index := 0\<rparr>"

text \<open>Writing \<open>len\<close> bytes at the write index, in one or two pieces.\<close>

definition rb_write :: "rt_ringbuffer \<Rightarrow> ptr \<Rightarrow> nat \<Rightarrow> mem \<Rightarrow> (rt_ringbuffer \<times> mem) option" where
  "rb_write rb ptr len m = do {
     let room = buffer_size rb - int (write_index rb);
     if room > int len then do {
       m \<leftarrow> c_memcpy (buffer_ptr rb + write_index rb) ptr len m;
       Some (rb\<lparr>write_index := (write_index rb + len) mod 2 ^ 15\<rparr>, m)
     }
     else do {
       C_GUARD (0 \<le> room);
       m \<leftarrow> c_memcpy (buffer_ptr rb + write_index rb) ptr (nat room) m;
       m \<leftarrow> c_memcpy (buffer_ptr rb) (ptr + nat room) (len - nat room) m;
       Some (rb\<lparr>write_mirror := \<not> write_mirror rb, write_index := (len - nat room) mod 2 ^ 15\<rparr>, m)
     }
   }"

definition rt_ringbuffer_put :: "rt_ringbuffer \<Rightarrow> ptr \<Rightarrow> u16 \<Rightarrow> mem \<Rightarrow> (nat \<times> rt_ringbuffer \<times> mem) option" where
  "rt_ringbuffer_put rb ptr len m = do {
     let sz = nat (rt_ringbuffer_space_len rb mod 2 ^ 16);
     if sz = 0 then Some (0, rb, m)
     else do {
       let len = (if sz < unat len then sz else unat len);
       (rb, m) \<leftarrow> rb_write rb ptr len m;
       Some (len, rb, m)
     }
   }"

text \<open>
  \<^verbatim>\<open>put_force\<close> writes whatever the space; when it overwrites old data the read index follows the
  write index, and its mirror bit flips if the write index wrapped.
\<close>

definition rt_ringbuffer_put_force :: "rt_ringbuffer \<Rightarrow> ptr \<Rightarrow> u16 \<Rightarrow> mem \<Rightarrow> (nat \<times> rt_ringbuffer \<times> mem) option" where
  "rt_ringbuffer_put_force rb ptr len m = do {
     let space_length = nat (rt_ringbuffer_space_len rb mod 2 ^ 16);
     let (ptr, len) = (if int (unat len) > buffer_size rb
           then (nat (int ptr + (int (unat len) - buffer_size rb)), nat (buffer_size rb mod 2 ^ 16))
           else (ptr, unat len));
     let wrap = \<not> buffer_size rb - int (write_index rb) > int len;
     (rb, m) \<leftarrow> rb_write rb ptr len m;
     let rb = (if len > space_length then
                 if wrap then rb\<lparr>read_mirror := \<not> read_mirror rb, read_index := write_index rb\<rparr>
                 else rb\<lparr>read_index := write_index rb\<rparr>
               else rb);
     Some (len, rb, m)
   }"

definition rt_ringbuffer_get :: "rt_ringbuffer \<Rightarrow> ptr \<Rightarrow> u16 \<Rightarrow> mem \<Rightarrow> (nat \<times> rt_ringbuffer \<times> mem) option" where
  "rt_ringbuffer_get rb ptr len m = do {
     let sz = nat (rt_ringbuffer_data_len rb mod 2 ^ 32);
     if sz = 0 then Some (0, rb, m)
     else do {
       let len = (if sz < unat len then sz mod 2 ^ 16 else unat len);
       let room = buffer_size rb - int (read_index rb);
       if room > int len then do {
         m \<leftarrow> c_memcpy ptr (buffer_ptr rb + read_index rb) len m;
         Some (len, rb\<lparr>read_index := (read_index rb + len) mod 2 ^ 15\<rparr>, m)
       }
       else do {
         C_GUARD (0 \<le> room);
         m \<leftarrow> c_memcpy ptr (buffer_ptr rb + read_index rb) (nat room) m;
         m \<leftarrow> c_memcpy (ptr + nat room) (buffer_ptr rb) (len - nat room) m;
         Some (len, rb\<lparr>read_mirror := \<not> read_mirror rb, read_index := (len - nat room) mod 2 ^ 15\<rparr>, m)
       }
     }
   }"

definition rt_ringbuffer_putchar :: "rt_ringbuffer \<Rightarrow> u8 \<Rightarrow> mem \<Rightarrow> (nat \<times> rt_ringbuffer \<times> mem) option" where
  "rt_ringbuffer_putchar rb ch m =
     (if rt_ringbuffer_space_len rb = 0 then Some (0, rb, m)
      else do {
        C_GUARD (int (write_index rb) < buffer_size rb);
        let m = m(buffer_ptr rb + write_index rb := ch);
        let rb = (if int (write_index rb) = buffer_size rb - 1
                  then rb\<lparr>write_mirror := \<not> write_mirror rb, write_index := 0\<rparr>
                  else rb\<lparr>write_index := (write_index rb + 1) mod 2 ^ 15\<rparr>);
        Some (1, rb, m)
      })"

definition rt_ringbuffer_putchar_force :: "rt_ringbuffer \<Rightarrow> u8 \<Rightarrow> mem \<Rightarrow> (nat \<times> rt_ringbuffer \<times> mem) option" where
  "rt_ringbuffer_putchar_force rb ch m = do {
     let old_state = rt_ringbuffer_status rb;
     C_GUARD (int (write_index rb) < buffer_size rb);
     let m = m(buffer_ptr rb + write_index rb := ch);
     let rb = (if int (write_index rb) = buffer_size rb - 1 then
                 (let rb = rb\<lparr>write_mirror := \<not> write_mirror rb, write_index := 0\<rparr>
                  in if old_state = RT_RINGBUFFER_FULL
                     then rb\<lparr>read_mirror := \<not> read_mirror rb, read_index := write_index rb\<rparr> else rb)
               else
                 (let rb = rb\<lparr>write_index := (write_index rb + 1) mod 2 ^ 15\<rparr>
                  in if old_state = RT_RINGBUFFER_FULL then rb\<lparr>read_index := write_index rb\<rparr> else rb));
     Some (1, rb, m)
   }"

text \<open>The byte read is the second component.\<close>

definition rt_ringbuffer_getchar :: "rt_ringbuffer \<Rightarrow> mem \<Rightarrow> (nat \<times> u8 option \<times> rt_ringbuffer) option" where
  "rt_ringbuffer_getchar rb m =
     (if rt_ringbuffer_data_len rb = 0 then Some (0, None, rb)
      else do {
        let ch = m (buffer_ptr rb + read_index rb);
        let rb = (if int (read_index rb) = buffer_size rb - 1
                  then rb\<lparr>read_mirror := \<not> read_mirror rb, read_index := 0\<rparr>
                  else rb\<lparr>read_index := (read_index rb + 1) mod 2 ^ 15\<rparr>);
        Some (1, Some ch, rb)
      })"

text \<open>
  Creation on the heap: \<open>malloc\<close> and \<open>free\<close> are the allocator, on its state \<open>'s\<close>; the structure takes
  12 bytes. The result is the address of the structure with its contents.
\<close>

definition rt_ringbuffer_create ::
  "(u32 \<Rightarrow> 's \<Rightarrow> ptr \<times> 's) \<Rightarrow> (ptr \<Rightarrow> 's \<Rightarrow> 's) \<Rightarrow> u16 \<Rightarrow> rt_ringbuffer \<Rightarrow> 's \<Rightarrow> (ptr \<times> rt_ringbuffer \<times> 's) option" where
  "rt_ringbuffer_create malloc free sz r s = do {
     RT_ASSERT (sz > 0);
     let sz = sz AND NOT 3;
     let (rb, s) = malloc 12 s;
     if rb = RT_NULL then Some (RT_NULL, r, s)
     else do {
       let (pool, s) = malloc (ucast sz) s;
       if pool = RT_NULL then Some (RT_NULL, r, free rb s)
       else do {
         r \<leftarrow> rt_ringbuffer_init r pool sz;
         Some (rb, r, s)
       }
     }
   }"

definition rt_ringbuffer_destroy :: "(ptr \<Rightarrow> 's \<Rightarrow> 's) \<Rightarrow> ptr \<Rightarrow> rt_ringbuffer \<Rightarrow> 's \<Rightarrow> 's option" where
  "rt_ringbuffer_destroy free rb r s = do {
     RT_ASSERT (rb \<noteq> RT_NULL);
     Some (free rb (free (buffer_ptr r) s))
   }"

subsection \<open>The ring and its contents\<close>

text \<open>
  A ring buffer with \<open>n\<close> bytes of data: the write index is \<open>n\<close> ahead of the read index around the
  ring, in the other mirror if it passed the end.
\<close>

definition rb_cap :: "rt_ringbuffer \<Rightarrow> nat" where
  "rb_cap rb = nat (buffer_size rb)"

lemma rb_cap_upd [simp]:
  "rb_cap (rb\<lparr>read_mirror := a\<rparr>) = rb_cap rb" "rb_cap (rb\<lparr>read_index := i\<rparr>) = rb_cap rb"
  "rb_cap (rb\<lparr>write_mirror := a\<rparr>) = rb_cap rb" "rb_cap (rb\<lparr>write_index := i\<rparr>) = rb_cap rb"
  by (simp_all add: rb_cap_def)

definition rb_ok :: "rt_ringbuffer \<Rightarrow> nat \<Rightarrow> bool" where
  "rb_ok rb n \<longleftrightarrow> 0 < buffer_size rb \<and> buffer_size rb < 2 ^ 15 \<and> read_index rb < rb_cap rb \<and> n \<le> rb_cap rb
     \<and> write_index rb = (read_index rb + n) mod rb_cap rb
     \<and> (read_mirror rb = write_mirror rb \<longleftrightarrow> read_index rb + n < rb_cap rb)"

definition rb_bytes :: "rt_ringbuffer \<Rightarrow> nat \<Rightarrow> mem \<Rightarrow> u8 list" where
  "rb_bytes rb n m = map (\<lambda>i. m (buffer_ptr rb + (read_index rb + i) mod rb_cap rb)) [0..<n]"

lemma mod_once: "i < n \<Longrightarrow> k \<le> n \<Longrightarrow> (i + k) mod n = (if i + k < n then i + k else i + k - n)"
  for i k n :: nat
  by (auto simp: mod_if)

lemma rb_len:
  assumes "rb_ok rb n"
  shows "rt_ringbuffer_data_len rb = int n" "rt_ringbuffer_space_len rb = int (rb_cap rb - n)"
proof -
  have i: "0 < buffer_size rb" "read_index rb < rb_cap rb" "n \<le> rb_cap rb" "int (rb_cap rb) = buffer_size rb"
    using assms by (auto simp: rb_ok_def rb_cap_def)
  have w: "write_index rb = (if read_index rb + n < rb_cap rb then read_index rb + n else read_index rb + n - rb_cap rb)"
    using assms mod_once [OF i(2,3)] by (simp add: rb_ok_def)
  have m: "read_mirror rb = write_mirror rb \<longleftrightarrow> read_index rb + n < rb_cap rb" using assms by (simp add: rb_ok_def)
  show l: "rt_ringbuffer_data_len rb = int n"
  proof (cases "read_index rb + n < rb_cap rb")
    case True
    then have "write_index rb = read_index rb + n" "read_mirror rb = write_mirror rb" using w m by simp_all
    then show ?thesis by (simp add: rt_ringbuffer_data_len_def rt_ringbuffer_status_def)
  next
    case False
    then have f: "write_index rb + rb_cap rb = read_index rb + n" "read_mirror rb \<noteq> write_mirror rb" using w m by simp_all
    then have "read_index rb = write_index rb \<longleftrightarrow> n = rb_cap rb" "\<not> write_index rb > read_index rb" using i(3) by linarith+
    then show ?thesis using f i(4) by (simp add: rt_ringbuffer_data_len_def rt_ringbuffer_status_def)
  qed
  show "rt_ringbuffer_space_len rb = int (rb_cap rb - n)"
    using i by (simp add: rt_ringbuffer_space_len_def l of_nat_diff)
qed

text \<open>How far slot \<open>s\<close> is ahead of slot \<open>w\<close> around a ring of \<open>c\<close> slots.\<close>

definition ahead :: "nat \<Rightarrow> nat \<Rightarrow> nat \<Rightarrow> nat" where
  "ahead c w s = (if w \<le> s then s - w else s + c - w)"

lemma ahead_add:
  assumes "w < c" "k < c"
  shows "ahead c w ((w + k) mod c) = k"
  using assms mod_once [of w c k] by (auto simp: ahead_def)

lemma rb_write_ok:
  assumes w: "write_index rb < rb_cap rb" "buffer_size rb < 2 ^ 15" and len: "len \<le> rb_cap rb"
    and src: "ptr + len \<le> buffer_ptr rb \<or> buffer_ptr rb + rb_cap rb \<le> ptr"
  shows "\<exists>m'. rb_write rb ptr len m = Some (rb\<lparr>write_mirror := (write_mirror rb = (write_index rb + len < rb_cap rb)),
        write_index := (write_index rb + len) mod rb_cap rb\<rparr>, m')
     \<and> (\<forall>s < rb_cap rb. m' (buffer_ptr rb + s) =
          (let d = ahead (rb_cap rb) (write_index rb) s in if d < len then m (ptr + d) else m (buffer_ptr rb + s)))
     \<and> (\<forall>x. x < buffer_ptr rb \<or> buffer_ptr rb + rb_cap rb \<le> x \<longrightarrow> m' x = m x)"
proof -
  define c b wi where "c = rb_cap rb" and "b = buffer_ptr rb" and "wi = write_index rb"
  note c = c_def [symmetric] b_def [symmetric] wi_def [symmetric]
  have s: "buffer_size rb = int c" "c < 2 ^ 15" "wi < c" using w by (auto simp: c_def wi_def rb_cap_def)
  show ?thesis
  proof (cases "wi + len < c")
    case True
    then have r: "int c - int wi > int len" by simp
    have "rb_write rb ptr len m = Some (rb\<lparr>write_index := wi + len\<rparr>, copied (b + wi) ptr len m)"
      using src r s True len unfolding rb_write_def c c_memcpy_def by (auto simp: c)
    moreover have "rb\<lparr>write_index := wi + len\<rparr> = rb\<lparr>write_mirror := (write_mirror rb = (wi + len < c)), write_index := (wi + len) mod c\<rparr>"
      using True by simp
    moreover have "copied (b + wi) ptr len m (b + x) = (let d = ahead c wi x in if d < len then m (ptr + d) else m (b + x))" if "x < c" for x
      using that True s(3) by (auto simp: copied_def ahead_def Let_def)
    moreover have "copied (b + wi) ptr len m x = m x" if "x < b \<or> b + c \<le> x" for x
      using that True by (auto simp: copied_def)
    ultimately show ?thesis unfolding c by auto
  next
    case False
    let ?r = "c - wi"
    let ?m = "copied b (ptr + ?r) (len - ?r) (copied (b + wi) ptr ?r m)"
    have r: "\<not> int c - int wi > int len" "0 \<le> int c - int wi" "nat (int c - int wi) = ?r" "len - ?r \<le> wi" "?r \<le> len"
      using False s len unfolding c by auto
    have wc: "(wi + len) mod c = len - ?r" "\<not> wi + len < c" using False s(3) len mod_once [of wi c len] by (auto simp: c)
    have g: "?r = 0 \<or> ptr + ?r \<le> b + wi \<or> b + wi + ?r \<le> ptr"
      "len - ?r = 0 \<or> ptr + ?r + (len - ?r) \<le> b \<or> b + (len - ?r) \<le> ptr + ?r"
      using src s(3) r(4,5) unfolding c by linarith+
    have "(len - ?r) mod 2 ^ 15 = len - ?r" using r(4) s(2,3) by simp
    then have "rb_write rb ptr len m = Some (rb\<lparr>write_mirror := \<not> write_mirror rb, write_index := len - ?r\<rparr>, ?m)"
      unfolding rb_write_def c c_memcpy_def using r(1-3) s(1) g by (simp add: c)
    moreover have "?m (b + x) = (let d = ahead c wi x in if d < len then m (ptr + d) else m (b + x))" if "x < c" for x
      using that src s(3) r(4,5) unfolding c by (auto simp: copied_def ahead_def Let_def ac_simps)
    moreover have "?m x = m x" if "x < b \<or> b + c \<le> x" for x
      using that r(4) s(3) by (auto simp: copied_def)
    ultimately show ?thesis unfolding c using wc by auto
  qed
qed

definition bytes_from :: "mem \<Rightarrow> ptr \<Rightarrow> nat \<Rightarrow> u8 list" where
  "bytes_from m a n = map (\<lambda>j. m (a + j)) [0..<n]"

lemma length_rb_bytes [simp]: "length (rb_bytes rb n m) = n"
  by (simp add: rb_bytes_def)

lemma rb_okD:
  assumes "rb_ok rb n"
  shows "read_index rb < rb_cap rb" "n \<le> rb_cap rb" "write_index rb = (read_index rb + n) mod rb_cap rb"
    "write_index rb < rb_cap rb" "buffer_size rb < 2 ^ 15" "buffer_size rb = int (rb_cap rb)"
  using assms by (auto simp: rb_ok_def rb_cap_def)

text \<open>Writing into the free part of the ring appends.\<close>

lemma rb_write_append:
  assumes ok: "rb_ok rb n" and len: "n + len \<le> rb_cap rb"
    and src: "ptr + len \<le> buffer_ptr rb \<or> buffer_ptr rb + rb_cap rb \<le> ptr"
  obtains rb' m' where "rb_write rb ptr len m = Some (rb', m')" "rb_ok rb' (n + len)" "rb_cap rb' = rb_cap rb"
    "buffer_ptr rb' = buffer_ptr rb" "rb_bytes rb' (n + len) m' = rb_bytes rb n m @ bytes_from m ptr len"
    "\<forall>x. x < buffer_ptr rb \<or> buffer_ptr rb + rb_cap rb \<le> x \<longrightarrow> m' x = m x"
proof -
  note i = rb_okD [OF ok]
  let ?c = "rb_cap rb" and ?ri = "read_index rb" and ?wi = "write_index rb"
  let ?rb = "rb\<lparr>write_mirror := (write_mirror rb = (?wi + len < ?c)), write_index := (?wi + len) mod ?c\<rparr>"
  obtain m' where m': "rb_write rb ptr len m = Some (?rb, m')"
    "\<And>s. s < ?c \<Longrightarrow> m' (buffer_ptr rb + s) =
       (let d = ahead ?c ?wi s in if d < len then m (ptr + d) else m (buffer_ptr rb + s))"
    "\<forall>x. x < buffer_ptr rb \<or> buffer_ptr rb + ?c \<le> x \<longrightarrow> m' x = m x"
    using rb_write_ok [OF i(4,5) _ src, of m] len by auto
  have cap: "rb_cap ?rb = ?c" by (simp add: rb_cap_def)
  have w: "(?wi + len) mod ?c = (?ri + (n + len)) mod ?c" by (simp add: i(3) mod_simps add.assoc)
  have "(read_mirror rb = (write_mirror rb = (?wi + len < ?c))) = (?ri + (n + len) < ?c)"
  proof (cases "?ri + n < ?c")
    case True
    then show ?thesis using ok i(3) by (auto simp: rb_ok_def add.assoc)
  next
    case False
    then have "?wi + len < ?c" using i(1,2,3) len mod_once [of ?ri ?c n] by simp
    then show ?thesis using ok False by (auto simp: rb_ok_def)
  qed
  then have ok': "rb_ok ?rb (n + len)" using ok len w by (simp add: rb_ok_def cap)
  have sl: "m' (buffer_ptr rb + (?ri + j) mod ?c) = (if j < n then m (buffer_ptr rb + (?ri + j) mod ?c) else m (ptr + (j - n)))"
    if j: "j < n + len" for j
  proof (cases "j < n")
    case True
    have "ahead ?c ?wi ((?ri + j) mod ?c) = j + ?c - n"
    proof -
      have "(?ri + j) mod ?c = (?wi + (j + ?c - n)) mod ?c"
      proof -
        have "?ri + n + (j + ?c - n) = ?ri + j + ?c" using i(2) by simp
        then show ?thesis unfolding i(3) by (simp only: mod_add_left_eq) simp
      qed
      then show ?thesis using ahead_add [OF i(4), of "j + ?c - n"] True i(2) by simp
    qed
    moreover have "\<not> j + ?c - n < len" using len i(2) by linarith
    ultimately show ?thesis using m'(2) [of "(?ri + j) mod ?c"] True i(1) by (simp add: Let_def)
  next
    case False
    have "?ri + j = ?ri + n + (j - n)" using False by simp
    then have "(?ri + j) mod ?c = (?wi + (j - n)) mod ?c" unfolding i(3) by (simp only: mod_add_left_eq)
    then have "ahead ?c ?wi ((?ri + j) mod ?c) = j - n" using ahead_add [OF i(4), of "j - n"] j len False by simp
    moreover have "j - n < len" using j False by simp
    ultimately show ?thesis using m'(2) [of "(?ri + j) mod ?c"] False i(1) by (simp add: Let_def)
  qed
  have "rb_bytes ?rb (n + len) m' = rb_bytes rb n m @ bytes_from m ptr len"
    by (rule nth_equalityI) (auto simp: rb_bytes_def bytes_from_def cap sl nth_append)
  then show ?thesis using that [OF m'(1) ok' cap _ _ m'(3)] by simp
qed

lemma put_ok:
  assumes ok: "rb_ok rb n" and k: "k = min (unat len) (rb_cap rb - n)"
    and src: "ptr + k \<le> buffer_ptr rb \<or> buffer_ptr rb + rb_cap rb \<le> ptr"
  shows "\<exists>rb' m'. rt_ringbuffer_put rb ptr len m = Some (k, rb', m') \<and> rb_ok rb' (n + k) \<and> rb_cap rb' = rb_cap rb
     \<and> buffer_ptr rb' = buffer_ptr rb \<and> rb_bytes rb' (n + k) m' = rb_bytes rb n m @ bytes_from m ptr k
     \<and> (\<forall>x. x < buffer_ptr rb \<or> buffer_ptr rb + rb_cap rb \<le> x \<longrightarrow> m' x = m x)"
proof (cases "rb_cap rb = n")
  case True
  then show ?thesis using ok k by (simp add: rt_ringbuffer_put_def rb_len [OF ok] bytes_from_def)
next
  case False
  note i = rb_okD [OF ok]
  have c: "rb_cap rb < 2 ^ 15" using i(5,6) by simp
  then have s: "nat (rt_ringbuffer_space_len rb mod 2 ^ 16) = rb_cap rb - n" by (simp add: rb_len [OF ok])
  have "(if rb_cap rb - n < unat len then rb_cap rb - n else unat len) = k" using k by auto
  then have p: "rt_ringbuffer_put rb ptr len m = rb_write rb ptr k m \<bind> (\<lambda>(rb, m). Some (k, rb, m))"
    unfolding rt_ringbuffer_put_def Let_def s using False i(2) by simp
  have "n + k \<le> rb_cap rb" using k i(2) by simp
  then obtain rb' m' where "rb_write rb ptr k m = Some (rb', m')" "rb_ok rb' (n + k)" "rb_cap rb' = rb_cap rb"
    "buffer_ptr rb' = buffer_ptr rb" "rb_bytes rb' (n + k) m' = rb_bytes rb n m @ bytes_from m ptr k"
    "\<forall>x. x < buffer_ptr rb \<or> buffer_ptr rb + rb_cap rb \<le> x \<longrightarrow> m' x = m x"
    by (rule rb_write_append [OF ok _ src, of m])
  then show ?thesis using p by auto
qed

text \<open>Advancing the read index by \<open>k\<close> drops the first \<open>k\<close> bytes.\<close>

definition rb_skip :: "nat \<Rightarrow> rt_ringbuffer \<Rightarrow> rt_ringbuffer" where
  "rb_skip k rb = rb\<lparr>read_mirror := (read_mirror rb = (read_index rb + k < rb_cap rb)),
     read_index := (read_index rb + k) mod rb_cap rb\<rparr>"

lemma rb_skip_ok:
  assumes ok: "rb_ok rb n" and k: "k \<le> n"
  shows "rb_ok (rb_skip k rb) (n - k)" "rb_cap (rb_skip k rb) = rb_cap rb" "buffer_ptr (rb_skip k rb) = buffer_ptr rb"
    "rb_bytes (rb_skip k rb) (n - k) m = drop k (rb_bytes rb n m)"
proof -
  note i = rb_okD [OF ok]
  show cap: "rb_cap (rb_skip k rb) = rb_cap rb" by (simp add: rb_skip_def rb_cap_def)
  show "buffer_ptr (rb_skip k rb) = buffer_ptr rb" by (simp add: rb_skip_def)
  have w: "(read_index rb + k) mod rb_cap rb + (n - k) < rb_cap rb \<longleftrightarrow>
      (read_index rb + k < rb_cap rb \<longrightarrow> read_index rb + n < rb_cap rb)"
    using mod_once [OF i(1), of k] k i(1,2) by (cases "read_index rb + k < rb_cap rb") auto
  have "write_index rb = ((read_index rb + k) mod rb_cap rb + (n - k)) mod rb_cap rb"
  proof -
    have "read_index rb + n = read_index rb + k + (n - k)" using k by simp
    then show ?thesis unfolding i(3) by (simp only: mod_add_left_eq)
  qed
  moreover have "((read_mirror rb = (read_index rb + k < rb_cap rb)) = write_mirror rb) \<longleftrightarrow>
      (read_index rb + k) mod rb_cap rb + (n - k) < rb_cap rb"
    using w ok k by (auto simp: rb_ok_def)
  moreover have "(read_index rb + k) mod rb_cap rb < rb_cap rb" using i(1) by simp
  moreover have "n - k \<le> rb_cap rb" using i(2) by simp
  ultimately show "rb_ok (rb_skip k rb) (n - k)" using ok k unfolding rb_ok_def cap by (simp add: rb_skip_def)
  show "rb_bytes (rb_skip k rb) (n - k) m = drop k (rb_bytes rb n m)"
    by (rule nth_equalityI) (auto simp: rb_bytes_def cap, simp add: rb_skip_def mod_simps add.assoc)
qed

lemma get_ok:
  assumes ok: "rb_ok rb n" and k: "k = min (unat len) n"
    and dst: "ptr + k \<le> buffer_ptr rb \<or> buffer_ptr rb + rb_cap rb \<le> ptr"
  shows "\<exists>m'. rt_ringbuffer_get rb ptr len m = Some (k, rb_skip k rb, m') \<and> bytes_from m' ptr k = take k (rb_bytes rb n m)
     \<and> (\<forall>x. x < ptr \<or> ptr + k \<le> x \<longrightarrow> m' x = m x)"
proof (cases "n = 0")
  case True
  then have "rb_skip 0 rb = rb" using rb_okD(1) [OF ok] by (simp add: rb_skip_def)
  then show ?thesis using True k by (simp add: rt_ringbuffer_get_def rb_len [OF ok] bytes_from_def)
next
  case False
  note i = rb_okD [OF ok]
  define c b ri where "c = rb_cap rb" and "b = buffer_ptr rb" and "ri = read_index rb"
  note c = c_def [symmetric] b_def [symmetric] ri_def [symmetric]
  have s: "buffer_size rb = int c" "c < 2 ^ 15" "ri < c" "n \<le> c" "k \<le> n" using i k by (auto simp: c_def ri_def)
  then have d: "nat (rt_ringbuffer_data_len rb mod 2 ^ 32) = n" by (simp add: rb_len [OF ok])
  have l: "(if n < unat len then n mod 2 ^ 16 else unat len) = k" using k s by auto
  have e: "bytes_from m' ptr k = take k (rb_bytes rb n m)" if "\<And>j. j < k \<Longrightarrow> m' (ptr + j) = m (b + (ri + j) mod c)" for m'
    by (rule nth_equalityI) (use that s(5) in \<open>auto simp: bytes_from_def rb_bytes_def c\<close>)
  show ?thesis
  proof (cases "ri + k < c")
    case True
    then have r: "int c - int ri > int k" by simp
    have g: "k = 0 \<or> b + ri + k \<le> ptr \<or> ptr + k \<le> b + ri" using dst True unfolding c by linarith
    let ?m = "copied ptr (b + ri) k m"
    have "rt_ringbuffer_get rb ptr len m = Some (k, rb_skip k rb, ?m)"
      unfolding rt_ringbuffer_get_def Let_def d l c c_memcpy_def using r g s True False by (simp add: rb_skip_def c)
    moreover have "bytes_from ?m ptr k = take k (rb_bytes rb n m)" by (rule e) (use True in \<open>simp add: copied_def add.assoc\<close>)
    ultimately show ?thesis by (auto simp: copied_def)
  next
    case wrap: False
    let ?r = "c - ri"
    let ?m = "copied (ptr + ?r) b (k - ?r) (copied ptr (b + ri) ?r m)"
    have r: "\<not> int c - int ri > int k" "0 \<le> int c - int ri" "nat (int c - int ri) = ?r" "k - ?r \<le> ri" "?r \<le> k"
      using wrap s by auto
    have wc: "(ri + k) mod c = k - ?r" "\<not> ri + k < c" using wrap s mod_once [of ri c k] by auto
    have g: "?r = 0 \<or> b + ri + ?r \<le> ptr \<or> ptr + ?r \<le> b + ri"
      "k - ?r = 0 \<or> b + (k - ?r) \<le> ptr + ?r \<or> ptr + ?r + (k - ?r) \<le> b"
      using dst s(3) r(4,5) unfolding c by linarith+
    have "(k - ?r) mod 2 ^ 15 = k - ?r" using r(4) s(2,3) by simp
    then have "rt_ringbuffer_get rb ptr len m = Some (k, rb_skip k rb, ?m)"
      unfolding rt_ringbuffer_get_def Let_def d l c c_memcpy_def using r(1-3) s(1) g False wc by (simp add: rb_skip_def c)
    moreover have "bytes_from ?m ptr k = take k (rb_bytes rb n m)"
    proof (rule e)
      fix j assume "j < k"
      then show "?m (ptr + j) = m (b + (ri + j) mod c)"
        using s dst r(4,5) mod_once [of ri c j] unfolding c by (auto simp: copied_def ac_simps)
    qed
    moreover have "?m x = m x" if "x < ptr \<or> ptr + k \<le> x" for x using that r(5) by (auto simp: copied_def)
    ultimately show ?thesis by blast
  qed
qed

subsection \<open>Single bytes: a bounded queue\<close>

lemma putchar_ok:
  assumes ok: "rb_ok rb n" and room: "n < rb_cap rb"
  shows "\<exists>rb'. rt_ringbuffer_putchar rb ch m = Some (1, rb', m(buffer_ptr rb + write_index rb := ch)) \<and> rb_ok rb' (n + 1)
     \<and> rb_cap rb' = rb_cap rb \<and> buffer_ptr rb' = buffer_ptr rb
     \<and> rb_bytes rb' (n + 1) (m(buffer_ptr rb + write_index rb := ch)) = rb_bytes rb n m @ [ch]"
proof -
  note i = rb_okD [OF ok]
  let ?c = "rb_cap rb" and ?ri = "read_index rb" and ?wi = "write_index rb"
  let ?rb = "rb\<lparr>write_mirror := (write_mirror rb = (?wi + 1 < ?c)), write_index := (?wi + 1) mod ?c\<rparr>"
  let ?m = "m(buffer_ptr rb + ?wi := ch)"
  have c: "?c < 2 ^ 15" using i(5,6) by simp
  have p: "rt_ringbuffer_putchar rb ch m = Some (1, ?rb, ?m)"
  proof (cases "?wi + 1 < ?c")
    case True
    then show ?thesis using i(4,6) room c by (simp add: rt_ringbuffer_putchar_def rb_len [OF ok] Let_def)
  next
    case False
    then have "?wi + 1 = ?c" using i(4) by simp
    then show ?thesis using i(4,6) room by (simp add: rt_ringbuffer_putchar_def rb_len [OF ok] Let_def)
  qed
  have w: "(?wi + 1) mod ?c = (?ri + (n + 1)) mod ?c" unfolding i(3) by (simp only: mod_add_left_eq add.assoc)
  have "(read_mirror rb = (write_mirror rb = (?wi + 1 < ?c))) = (?ri + (n + 1) < ?c)"
  proof (cases "?ri + n < ?c")
    case True
    then show ?thesis using ok i(3) by (auto simp: rb_ok_def)
  next
    case False
    then have "?wi + 1 < ?c" using i(1-3) room mod_once [of ?ri ?c n] by simp
    then show ?thesis using ok False by (auto simp: rb_ok_def)
  qed
  then have ok': "rb_ok ?rb (n + 1)" using ok room w by (simp add: rb_ok_def)
  have "(?ri + j) mod ?c \<noteq> ?wi" if "j < n" for j using ring_slot [OF that room, of ?ri] i(3) by simp
  then have "rb_bytes ?rb (n + 1) ?m = rb_bytes rb n m @ [ch]"
    using i(3) by (simp add: rb_bytes_def)
  then show ?thesis using p ok' by simp
qed

lemma getchar_ok:
  assumes ok: "rb_ok rb n" and n: "0 < n"
  shows "rt_ringbuffer_getchar rb m = Some (1, Some (hd (rb_bytes rb n m)), rb_skip 1 rb)"
proof -
  note i = rb_okD [OF ok]
  have c: "rb_cap rb < 2 ^ 15" using i(5,6) by simp
  have "hd (rb_bytes rb n m) = m (buffer_ptr rb + read_index rb)" using n i(1) by (simp add: rb_bytes_def upt_rec)
  then show ?thesis using i(1,6) n c
    by (cases "read_index rb + 1 < rb_cap rb")
      (auto simp: rt_ringbuffer_getchar_def rb_len [OF ok] rb_skip_def Let_def not_less le_Suc_eq)
qed

text \<open>Forcing a byte into a full ring is putting it after the oldest byte was dropped.\<close>

lemma putchar_force_eq:
  assumes ok: "rb_ok rb n"
  shows "rt_ringbuffer_putchar_force rb ch m = rt_ringbuffer_putchar (if n < rb_cap rb then rb else rb_skip 1 rb) ch m"
proof -
  note i = rb_okD [OF ok]
  have c: "rb_cap rb < 2 ^ 15" using i(5,6) by simp
  have st: "rt_ringbuffer_status rb = RT_RINGBUFFER_FULL \<longleftrightarrow> n = rb_cap rb"
  proof -
    have "rt_ringbuffer_data_len rb = int n" by (rule rb_len(1) [OF ok])
    then show ?thesis using ok i mod_once [OF i(1,2)] by (auto simp: rt_ringbuffer_status_def rb_ok_def split: if_splits)
  qed
  show ?thesis
  proof (cases "n < rb_cap rb")
    case True
    then show ?thesis using st i(4,6)
      by (simp add: rt_ringbuffer_putchar_force_def rt_ringbuffer_putchar_def rb_len [OF ok])
  next
    case False
    then have n: "n = rb_cap rb" using i(2) by simp
    then have w: "write_index rb = read_index rb" using i(1,3) by simp
    have s: "rt_ringbuffer_space_len (rb_skip 1 rb) = 1"
      using rb_len(2) [OF rb_skip_ok(1) [OF ok, of 1]] rb_skip_ok(2) [OF ok, of 1] n i(1) by simp
    show ?thesis
    proof (cases "read_index rb + 1 < rb_cap rb")
      case True
      then show ?thesis using st n i(1,6) w s c
        by (simp add: rt_ringbuffer_putchar_force_def rt_ringbuffer_putchar_def rb_skip_def)
    next
      case False
      then have "read_index rb + 1 = rb_cap rb" using i(1) by simp
      then show ?thesis using st n i(1,6) w s c
        by (simp add: rt_ringbuffer_putchar_force_def rt_ringbuffer_putchar_def rb_skip_def)
    qed
  qed
qed

text \<open>The queue that clients see: whether a byte was taken, and the byte received.\<close>

definition rb_inv :: "rt_ringbuffer \<times> mem \<Rightarrow> bool" where
  "rb_inv s \<longleftrightarrow> (\<exists>n. rb_ok (fst s) n)"

definition rb_content :: "rt_ringbuffer \<times> mem \<Rightarrow> u8 list" where
  "rb_content s = rb_bytes (fst s) (nat (rt_ringbuffer_data_len (fst s))) (snd s)"

definition rb_offer :: "u8 \<Rightarrow> rt_ringbuffer \<times> mem \<Rightarrow> (bool \<times> rt_ringbuffer \<times> mem) option" where
  "rb_offer ch s = do {
     (n, rb, m) \<leftarrow> rt_ringbuffer_putchar (fst s) ch (snd s);
     Some (n = 1, rb, m)
   }"

definition rb_poll :: "rt_ringbuffer \<times> mem \<Rightarrow> (u8 option \<times> rt_ringbuffer \<times> mem) option" where
  "rb_poll s = do {
     (n, ch, rb) \<leftarrow> rt_ringbuffer_getchar (fst s) (snd s);
     Some (ch, rb, snd s)
   }"

lemma rb_content_ok: "rb_ok rb n \<Longrightarrow> rb_content (rb, m) = rb_bytes rb n m"
  by (simp add: rb_content_def rb_len)

interpretation rbq: bounded_fifo rb_inv "\<lambda>s. rb_cap (fst s)" rb_content rb_offer rb_poll
proof unfold_locales
  fix s :: "rt_ringbuffer \<times> mem" and x y :: u8 and ys
  assume "rb_inv s"
  then obtain rb m n where s: "s = (rb, m)" "rb_ok rb n" by (cases s) (auto simp: rb_inv_def)
  note l = rb_content_ok [OF s(2), of m]
  show "length (rb_content s) \<le> rb_cap (fst s)" using rb_okD(2) [OF s(2)] by (simp add: s l)
  show "\<exists>s'. rb_offer x s = Some (True, s') \<and> rb_inv s' \<and> rb_cap (fst s') = rb_cap (fst s) \<and> rb_content s' = rb_content s @ [x]"
    if room: "length (rb_content s) < rb_cap (fst s)"
  proof -
    obtain rb' where "rt_ringbuffer_putchar rb x m = Some (1, rb', m(buffer_ptr rb + write_index rb := x))" "rb_ok rb' (n + 1)"
       "rb_cap rb' = rb_cap rb" "rb_bytes rb' (n + 1) (m(buffer_ptr rb + write_index rb := x)) = rb_bytes rb n m @ [x]"
      using putchar_ok [OF s(2), of x m] room by (auto simp: s l)
    then show ?thesis using rb_content_ok [of rb' "n + 1"] by (auto simp: rb_offer_def rb_inv_def s l)
  qed
  show "\<exists>s'. rb_offer x s = Some (False, s') \<and> rb_inv s' \<and> rb_cap (fst s') = rb_cap (fst s) \<and> rb_content s' = rb_content s"
    if "length (rb_content s) = rb_cap (fst s)"
    using that s by (auto simp: rb_offer_def rb_inv_def rt_ringbuffer_putchar_def rb_len [OF s(2)] l)
  show "\<exists>s'. rb_poll s = Some (Some y, s') \<and> rb_inv s' \<and> rb_cap (fst s') = rb_cap (fst s) \<and> rb_content s' = ys"
    if "rb_content s = y # ys"
  proof -
    have n: "0 < n" "hd (rb_bytes rb n m) = y" "drop 1 (rb_bytes rb n m) = ys"
      using that length_rb_bytes [of rb n m] by (auto simp: s l)
    note k = rb_skip_ok(1-3) [OF s(2), of 1] rb_skip_ok(4) [OF s(2), of 1 m]
    show ?thesis using getchar_ok [OF s(2) n(1), of m] n k rb_content_ok [of "rb_skip 1 rb" "n - 1" m]
      by (auto simp: rb_poll_def rb_inv_def s)
  qed
  show "\<exists>s'. rb_poll s = Some (None, s') \<and> rb_inv s' \<and> rb_cap (fst s') = rb_cap (fst s) \<and> rb_content s' = []"
    if "rb_content s = []"
  proof -
    have "n = 0" using that length_rb_bytes [of rb n m] by (simp add: s l)
    then show ?thesis using that s l by (auto simp: rb_poll_def rb_inv_def rt_ringbuffer_getchar_def rb_len [OF s(2)])
  qed
qed

lemma int_align_down: "x AND NOT 3 = x div 4 * 4" for x :: int
proof -
  have "x AND NOT 3 = x AND NOT (mask 2)" by (simp add: mask_eq_exp_minus_1)
  also have "\<dots> = push_bit 2 (drop_bit 2 x)"
  proof (rule bit_eqI)
    fix n
    have "2 \<le> n \<Longrightarrow> Suc (Suc (n - 2)) = n" by simp
    then show "bit (x AND NOT (mask 2)) n \<longleftrightarrow> bit (push_bit 2 (drop_bit 2 x)) n" by (auto simp: bit_simps not_less)
  qed
  finally show ?thesis by (simp add: push_bit_eq_mult drop_bit_eq_div)
qed

text \<open>Initialisation gives an empty ring from four bytes on; below, a ring with no slots.\<close>

lemma init_ok:
  assumes "4 \<le> sint sz"
  shows "\<exists>rb'. rt_ringbuffer_init rb pool sz = Some rb' \<and> rb_ok rb' 0 \<and> rb_cap rb' = nat (sint sz) div 4 * 4"
proof -
  have "sint sz < 2 ^ 15" using sint_lt [of sz] by simp
  moreover have "sint sz AND NOT 3 = sint sz div 4 * 4" by (rule int_align_down)
  moreover have "nat (sint sz div 4 * 4) = nat (sint sz) div 4 * 4" using assms by (simp add: nat_mult_distrib nat_div_distrib)
  ultimately show ?thesis using assms
    by (auto simp: rt_ringbuffer_init_def rb_ok_def rb_cap_def)
qed

subsection \<open>Properties\<close>

text \<open>An example: a ring of eight bytes at 100 with three bytes of data from slot 2 on.\<close>

definition demo_rb :: rt_ringbuffer where
  "demo_rb = \<lparr>buffer_ptr = 100, read_mirror = False, read_index = 2, write_mirror = False, write_index = 5, buffer_size = 8\<rparr>"

definition demo_mem :: mem where
  "demo_mem = (\<lambda>a. of_nat a)"

lemma demo_rb_ok: "rb_ok demo_rb 3"
  by (simp add: rb_ok_def rb_cap_def demo_rb_def)

text \<open>\<^verbatim>\<open>rt_ringbuffer_put\<close> of \<open>len\<close> bytes from an area outside the ring appends as many of them as there
  is space for, in order, returns their number, keeps what was there and writes nothing outside the
  ring; the indices and mirror bits stay consistent.\<close>

lemma ringbuffer_put:
  assumes "rb_ok rb n" "k = min (unat len) (rb_cap rb - n)"
    "ptr + k \<le> buffer_ptr rb \<or> buffer_ptr rb + rb_cap rb \<le> ptr"
  shows "\<exists>rb' m'. rt_ringbuffer_put rb ptr len m = Some (k, rb', m') \<and> rb_ok rb' (n + k) \<and> rb_cap rb' = rb_cap rb
     \<and> rb_bytes rb' (n + k) m' = rb_bytes rb n m @ bytes_from m ptr k
     \<and> (\<forall>x. x < buffer_ptr rb \<or> buffer_ptr rb + rb_cap rb \<le> x \<longrightarrow> m' x = m x)"
  using put_ok [OF assms] by blast

text \<open>What \<^verbatim>\<open>rt_ringbuffer_put\<close> stored, \<^verbatim>\<open>rt_ringbuffer_get\<close> returns: a get of as many bytes as an empty
  ring accepted from a put, into an area outside the ring, delivers exactly those bytes and leaves
  the ring empty.\<close>

lemma ringbuffer_put_get:
  assumes "rb_ok rb 0" "unat len \<le> rb_cap rb"
    "ptr + unat len \<le> buffer_ptr rb \<or> buffer_ptr rb + rb_cap rb \<le> ptr"
    "dst + unat len \<le> buffer_ptr rb \<or> buffer_ptr rb + rb_cap rb \<le> dst"
  shows "\<exists>rb1 m1 rb2 m2. rt_ringbuffer_put rb ptr len m = Some (unat len, rb1, m1)
     \<and> rt_ringbuffer_get rb1 dst len m1 = Some (unat len, rb2, m2)
     \<and> bytes_from m2 dst (unat len) = bytes_from m ptr (unat len) \<and> rb_ok rb2 0 \<and> rb_cap rb2 = rb_cap rb"
proof -
  obtain rb1 m1 where p: "rt_ringbuffer_put rb ptr len m = Some (unat len, rb1, m1)" "rb_ok rb1 (unat len)"
    "rb_cap rb1 = rb_cap rb" "buffer_ptr rb1 = buffer_ptr rb" "rb_bytes rb1 (unat len) m1 = bytes_from m ptr (unat len)"
    using put_ok [OF assms(1), of "unat len" len ptr m] assms(2,3) by (auto simp: rb_bytes_def)
  obtain m2 where "rt_ringbuffer_get rb1 dst len m1 = Some (unat len, rb_skip (unat len) rb1, m2)"
    "bytes_from m2 dst (unat len) = take (unat len) (rb_bytes rb1 (unat len) m1)"
    using get_ok [OF p(2), of "unat len" len dst m1] assms(4) p(3,4) by auto
  then show ?thesis using p rb_skip_ok [OF p(2) order_refl] by (auto simp: bytes_from_def)
qed

text \<open>C34: Over any history of \<^verbatim>\<open>rt_ringbuffer_putchar\<close> and \<^verbatim>\<open>rt_ringbuffer_getchar\<close> calls the bytes come out as
  they were accepted: none lost, none duplicated, in order.\<close>

theorem ringbuffer_history:
  assumes "rb_ok rb n"
  shows "\<exists>acc rec rb' m' n'. fifo_run rb_offer rb_poll ops (rb, m) = Some (acc, rec, rb', m') \<and> rb_ok rb' n'
     \<and> rb_cap rb' = rb_cap rb \<and> rb_bytes rb n m @ acc = rec @ rb_bytes rb' n' m'"
proof -
  have "rb_inv (rb, m)" using assms by (auto simp: rb_inv_def)
  then obtain acc rec s' where "fifo_run rb_offer rb_poll ops (rb, m) = Some (acc, rec, s')" "rb_inv s'"
    "rb_cap (fst s') = rb_cap rb" "rb_content (rb, m) @ acc = rec @ rb_content s'"
    using rbq.fifo_history [of "(rb, m)" ops] by auto
  then show ?thesis using rb_content_ok [OF assms] by (cases s') (fastforce simp: rb_inv_def rb_content_ok)
qed

theorem ringbuffer_history_witness:
  "\<exists>acc rec rb' m'. fifo_run rb_offer rb_poll [Put 7, Get, Get, Get, Get, Get] (demo_rb, demo_mem) = Some (acc, rec, rb', m')"
  using ringbuffer_history [OF demo_rb_ok, of "[Put 7, Get, Get, Get, Get, Get]" demo_mem] by blast

text \<open>\<^verbatim>\<open>rt_ringbuffer_putchar_force\<close> always stores the byte: behind the others while there is room, and in
  place of the oldest one when the ring is full.\<close>

lemma putchar_force_newest:
  assumes "rb_ok rb n"
  shows "\<exists>rb' m' n'. rt_ringbuffer_putchar_force rb ch m = Some (1, rb', m') \<and> rb_ok rb' n' \<and> rb_cap rb' = rb_cap rb
     \<and> rb_bytes rb' n' m' = (if n < rb_cap rb then rb_bytes rb n m else tl (rb_bytes rb n m)) @ [ch]"
proof (cases "n < rb_cap rb")
  case True
  then show ?thesis using putchar_ok [OF assms True, of ch m] putchar_force_eq [OF assms, of ch m] by auto
next
  case False
  note i = rb_okD [OF assms]
  have n: "1 \<le> n" "n - 1 < rb_cap (rb_skip 1 rb)" using False i(1,2) by (simp_all add: rb_skip_def)
  show ?thesis
    using putchar_ok [OF rb_skip_ok(1) [OF assms n(1)] n(2), of ch m] putchar_force_eq [OF assms, of ch m] False
      rb_skip_ok(2,3) [OF assms n(1)] rb_skip_ok(4) [OF assms n(1), of m] by (auto simp: drop_Suc)
qed

text \<open>\<^verbatim>\<open>rt_ringbuffer_put_force\<close> loses everything when it overwrites old data while its write index
  wraps and both indices are in the same mirror: the mirror bit of the read index is flipped along
  with the one of the write index, and the buffer that should be full of the newest bytes is
  reported empty.\<close>

lemma put_force_loses_all:
  assumes "rb_ok rb n" "read_mirror rb = write_mirror rb" "rb_cap rb - n < unat len" "unat len \<le> rb_cap rb"
    "ptr + unat len \<le> buffer_ptr rb \<or> buffer_ptr rb + rb_cap rb \<le> ptr"
  shows "\<exists>rb' m'. rt_ringbuffer_put_force rb ptr len m = Some (unat len, rb', m') \<and> rb_ok rb' 0
     \<and> rt_ringbuffer_data_len rb' = 0"
proof -
  note i = rb_okD [OF assms(1)]
  have wi: "write_index rb = read_index rb + n" using assms(1,2) i(3) by (simp add: rb_ok_def)
  then have wrap: "\<not> write_index rb + unat len < rb_cap rb" using assms(3) i(2) by linarith
  let ?rb = "rb\<lparr>write_mirror := (write_mirror rb = (write_index rb + unat len < rb_cap rb)),
        write_index := (write_index rb + unat len) mod rb_cap rb\<rparr>"
  obtain m' where m': "rb_write rb ptr (unat len) m = Some (?rb, m')"
    using rb_write_ok [OF i(4,5) assms(4,5), of m] by blast
  have s: "nat (rt_ringbuffer_space_len rb mod 2 ^ 16) = rb_cap rb - n" using i(5,6) by (simp add: rb_len [OF assms(1)])
  let ?rb' = "?rb\<lparr>read_mirror := \<not> read_mirror rb, read_index := (write_index rb + unat len) mod rb_cap rb\<rparr>"
  have a: "\<not> int (unat len) > buffer_size rb" "\<not> buffer_size rb - int (write_index rb) > int (unat len)"
    using assms(4) wrap i(6) by linarith+
  have "rt_ringbuffer_put_force rb ptr len m = Some (unat len, ?rb', m')"
    unfolding rt_ringbuffer_put_force_def Let_def s using m' assms(3) wrap a by simp
  moreover have "rb_ok ?rb' 0" using assms(1,2) wrap i(1) by (simp add: rb_ok_def)
  ultimately show ?thesis using rb_len(1) by fastforce
qed

end
