(* ===== verification/RT_Completion.thy ===== *)
theory RT_Completion
  imports RT_Example
begin

text \<open>
  Completions of the device drivers (\<^verbatim>\<open>components/drivers/src/completion.c\<close>): one thread waits until
  another thread or an interrupt handler reports that something is done. The list of the waiting
  thread is \<open>Waiters\<close> at the completion's address; its flag is passed and returned.
\<close>

subsection \<open>Waiting on a list of a driver\<close>

text \<open>
  The drivers' blocking calls suspend the current thread, append it to a list of their own and arm
  its timer. The effect is that of a wait on an IPC object in arrival order.
\<close>

definition drv_wait :: "tlist_head \<Rightarrow> 32 word \<Rightarrow> kernel \<Rightarrow> kernel option" where
  "drv_wait list timeout k = do {
     let thread = rt_thread_self k;
     let k = upd_thread thread (\<lambda>th. th\<lparr>error := RT_EOK\<rparr>) k;
     (_, k) \<leftarrow> rt_thread_suspend thread k;
     C_GUARD (seq_detached thread (tlists k));
     let k = tlist_insert_before list thread k;
     RT_DEBUG_NOT_IN_INTERRUPT k;
     k \<leftarrow> (if sint timeout > 0 then arm_timer thread timeout k else Some k);
     rt_schedule k
   }"

lemma drv_wait_ok:
  assumes inv: "kinv b k" and c: "tstat k (rt_current_thread k) = RT_THREAD_RUNNING" "interrupt_nest k = 0"
    and l: "is_wait l" and time: "wait_time_ok time"
  shows "\<exists>k'. drv_wait l time k = Some k' \<and> kinv b k' \<and> kframe k k' \<and> waits l RT_IPC_FLAG_FIFO time k k'
     \<and> rt_current_thread k' \<noteq> RT_NULL"
proof -
  let ?c = "rt_current_thread k" and ?k = "reset_error (rt_current_thread k) k"
  obtain k1 k' where k': "ipc_wait l RT_IPC_FLAG_FIFO time ?k = Some k1" "rt_schedule k1 = Some k'"
    "kinv b k'" "kframe k k'" "waits l RT_IPC_FLAG_FIFO time k k'"
    using ipc_waits [OF inv c(1) l disjI1 [OF refl] time] by blast
  have nn: "rt_current_thread k' \<noteq> RT_NULL"
    using ipc_block_reset_ok [OF inv refl c(1) l disjI1 [OF refl] time] k'(1,2) by auto
  have e: "rt_current_thread ?k = ?c" "interrupt_nest ?k = 0" by (simp_all add: upd_thread_def c(2))
  obtain k0 where k0: "rt_thread_suspend ?c ?k = Some k0" "seq_detached ?c (tlists (snd k0))"
    using k'(1) by (auto simp: ipc_wait_def rt_ipc_list_suspend_def rt_thread_self_def e Let_def Option.bind_eq_Some_conv split: if_splits)
  have n0: "interrupt_nest (snd k0) = 0"
  proof -
    have i: "kinv b ?k" "tstat ?k ?c = RT_THREAD_RUNNING" using kinv_error [OF inv] c(1) by (auto simp: tstat_def upd_thread_def)
    from suspend_ok [OF i(1), of ?c] i(2) obtain k2 where "rt_thread_suspend ?c ?k = Some (RT_EOK, k2)" "kframe ?k k2" by auto
    then show ?thesis using k0(1) kframe_fields(3) e(2) by simp
  qed
  have "drv_wait l time k = (ipc_wait l RT_IPC_FLAG_FIFO time ?k \<bind> rt_schedule)"
    using k0 n0 by (cases k0) (simp add: drv_wait_def ipc_wait_def rt_ipc_list_suspend_def rt_thread_self_def e
        RT_DEBUG_NOT_IN_INTERRUPT_def tlist_insert_before_def Let_def)
  then show ?thesis using k' nn by simp
qed

subsection \<open>Operations\<close>

abbreviation (input) RT_COMPLETED :: u32 where "RT_COMPLETED \<equiv> 1"
abbreviation (input) RT_UNCOMPLETED :: u32 where "RT_UNCOMPLETED \<equiv> 0"

definition rt_completion_init :: "ptr \<Rightarrow> kernel \<Rightarrow> (u32 \<times> kernel) option" where
  "rt_completion_init completion k = do {
     RT_ASSERT (completion \<noteq> RT_NULL);
     C_GUARD (tlist_isempty (Waiters completion) k);
     Some (RT_UNCOMPLETED, tlist_init (Waiters completion) k)
   }"

definition rt_completion_wait :: "ptr \<Rightarrow> 32 word \<Rightarrow> u32 \<Rightarrow> kernel \<Rightarrow> (outcome \<times> u32 \<times> kernel) option" where
  "rt_completion_wait completion timeout fl k = do {
     RT_ASSERT (completion \<noteq> RT_NULL);
     if fl \<noteq> RT_COMPLETED then do {
       RT_ASSERT (tlist_isempty (Waiters completion) k);
       if timeout = 0 then Some (Done (- RT_ETIMEOUT), fl, k)
       else do {
         k \<leftarrow> drv_wait (Waiters completion) timeout k;
         Some (Blocked, fl, k)
       }
     }
     else Some (Done RT_EOK, RT_UNCOMPLETED, k)
   }"

text \<open>Behind \<^verbatim>\<open>rt_schedule\<close>: the result and the flag, which is cleared in any case.\<close>

definition rt_completion_wait_resume :: "ptr \<Rightarrow> kernel \<Rightarrow> err \<times> u32" where
  "rt_completion_wait_resume thread k = (error (threads k thread), RT_UNCOMPLETED)"

definition rt_completion_done :: "ptr \<Rightarrow> u32 \<Rightarrow> kernel \<Rightarrow> (u32 \<times> kernel) option" where
  "rt_completion_done completion fl k = do {
     RT_ASSERT (completion \<noteq> RT_NULL);
     if fl = RT_COMPLETED then Some (fl, k)
     else do {
       let fl = RT_COMPLETED;
       if \<not> tlist_isempty (Waiters completion) k then do {
         thread \<leftarrow> tlist_first (Waiters completion) k;
         (_, k) \<leftarrow> rt_thread_resume thread k;
         k \<leftarrow> rt_schedule k;
         Some (fl, k)
       }
       else Some (fl, k)
     }
   }"

subsection \<open>Behaviour\<close>

lemma done_ok:
  assumes "kinv b k" "rt_current_thread k \<noteq> RT_NULL" "completion \<noteq> RT_NULL" "fl \<noteq> RT_COMPLETED"
  shows "\<exists>k'. rt_completion_done completion fl k = Some (RT_COMPLETED, k') \<and> kinv b k' \<and> kframe k k'
     \<and> wakes_first (Waiters completion) k k'"
proof -
  have "rt_completion_done completion fl k = (if \<not> tlist_isempty (Waiters completion) k then do {
         k \<leftarrow> rt_ipc_list_resume (Waiters completion) k;
         k \<leftarrow> rt_schedule k;
         Some (RT_COMPLETED, k)
       } else Some (RT_COMPLETED, k))"
    using assms(3,4) by (simp add: rt_completion_done_def rt_ipc_list_resume_def case_prod_unfold)
  then show ?thesis using wake_ok [OF assms(1,2), of "Waiters completion" RT_COMPLETED] by simp
qed

text \<open>A completion passes one event from \<^verbatim>\<open>rt_completion_done\<close> to \<^verbatim>\<open>rt_completion_wait\<close>, whichever comes
  first. If it is done first, a later wait returns \<^verbatim>\<open>RT_EOK\<close> at once and consumes the event. If the
  wait comes first, the waiter is suspended as the only one, with its timer armed, and the next
  done makes it ready with its timer stopped; it then returns \<^verbatim>\<open>RT_EOK\<close> and consumes the event.\<close>

lemma completion_handover:
  assumes "kinv b k" "tstat k (rt_current_thread k) = RT_THREAD_RUNNING" "interrupt_nest k = 0" "completion \<noteq> RT_NULL"
    "tlists k (Waiters completion) = []" "wait_time_ok timeout"
  shows "(\<exists>k'. rt_completion_done completion RT_UNCOMPLETED k = Some (RT_COMPLETED, k') \<and> kinv b k'
          \<and> rt_completion_wait completion timeout RT_COMPLETED k' = Some (Done RT_EOK, RT_UNCOMPLETED, k'))
     \<and> (\<exists>k1. rt_completion_wait completion timeout RT_UNCOMPLETED k = Some (Blocked, RT_UNCOMPLETED, k1) \<and> kinv b k1
          \<and> tlists k1 (Waiters completion) = [rt_current_thread k]
          \<and> (\<exists>k2. rt_completion_done completion RT_UNCOMPLETED k1 = Some (RT_COMPLETED, k2) \<and> kinv b k2
                \<and> tstat k2 (rt_current_thread k) \<in> {RT_THREAD_READY, RT_THREAD_RUNNING}
                \<and> tlists k2 (Waiters completion) = []
                \<and> rt_completion_wait_resume (rt_current_thread k) k2 = (RT_EOK, RT_UNCOMPLETED)))"
proof
  have cur: "rt_current_thread k \<noteq> RT_NULL" by (rule running_not_null [OF assms(1,2)])
  show "\<exists>k'. rt_completion_done completion RT_UNCOMPLETED k = Some (RT_COMPLETED, k') \<and> kinv b k'
          \<and> rt_completion_wait completion timeout RT_COMPLETED k' = Some (Done RT_EOK, RT_UNCOMPLETED, k')"
    using done_ok [OF assms(1) cur assms(4), of RT_UNCOMPLETED] assms(4) by (auto simp: rt_completion_wait_def)
  obtain k1 where k1: "drv_wait (Waiters completion) timeout k = Some k1" "kinv b k1"
    "waits (Waiters completion) RT_IPC_FLAG_FIFO timeout k k1" "rt_current_thread k1 \<noteq> RT_NULL"
    using drv_wait_ok [OF assms(1-3) is_wait_simps(1) assms(6)] by blast
  have w: "rt_completion_wait completion timeout RT_UNCOMPLETED k = Some (Blocked, RT_UNCOMPLETED, k1)"
    using assms(4,5,6) k1(1) by (auto simp: rt_completion_wait_def tlist_isempty_def wait_time_ok_def)
  have l: "tlists k1 (Waiters completion) = [rt_current_thread k]" "error (threads k1 (rt_current_thread k)) = RT_EOK"
    using k1(3) assms(5) by (simp_all add: waits_def Let_def enqueue_def)
  have "\<exists>k2. rt_completion_done completion RT_UNCOMPLETED k1 = Some (RT_COMPLETED, k2) \<and> kinv b k2
                \<and> tstat k2 (rt_current_thread k) \<in> {RT_THREAD_READY, RT_THREAD_RUNNING}
                \<and> tlists k2 (Waiters completion) = []
                \<and> rt_completion_wait_resume (rt_current_thread k) k2 = (RT_EOK, RT_UNCOMPLETED)"
    using done_ok [OF k1(2,4) assms(4), of RT_UNCOMPLETED] l
    by (auto simp: wakes_first_def rt_completion_wait_resume_def)
  then show "\<exists>k1. rt_completion_wait completion timeout RT_UNCOMPLETED k = Some (Blocked, RT_UNCOMPLETED, k1) \<and> kinv b k1
          \<and> tlists k1 (Waiters completion) = [rt_current_thread k]
          \<and> (\<exists>k2. rt_completion_done completion RT_UNCOMPLETED k1 = Some (RT_COMPLETED, k2) \<and> kinv b k2
                \<and> tstat k2 (rt_current_thread k) \<in> {RT_THREAD_READY, RT_THREAD_RUNNING}
                \<and> tlists k2 (Waiters completion) = []
                \<and> rt_completion_wait_resume (rt_current_thread k) k2 = (RT_EOK, RT_UNCOMPLETED))"
    using w k1(2) l(1) by blast
qed

end
