(* ===== verification/RT_DataQueue.thy ===== *)
theory RT_DataQueue
  imports RT_Completion
begin

text \<open>
  The data queue of the device drivers (\<^verbatim>\<open>components/drivers/src/dataqueue.c\<close>): a ring of pointers with
  sizes, and a list each of threads waiting to push (\<open>Senders\<close>) and to pop (\<open>Waiters\<close>) at the
  queue's address. The structure itself is passed and returned, with the entries of its array in
  \<open>dq_items\<close> and the address of the array, which is only compared with \<^verbatim>\<open>RT_NULL\<close>, in \<open>dq_array\<close>; the application's \<^verbatim>\<open>evt_notify\<close>
  callback is the argument \<open>notify\<close>, which is called when the field is set.
\<close>

subsection \<open>Operations\<close>

record rt_data_queue =
  dq_size :: u16
  lwm :: u16
  get_index :: u16
  put_index :: u16
  dq_array :: ptr
  dq_items :: "nat \<Rightarrow> ptr \<times> u32"
  evt_notify :: bool

abbreviation (input) RT_DATAQUEUE_EVENT_POP :: u32 where "RT_DATAQUEUE_EVENT_POP \<equiv> 1"
abbreviation (input) RT_DATAQUEUE_EVENT_PUSH :: u32 where "RT_DATAQUEUE_EVENT_PUSH \<equiv> 2"
abbreviation (input) RT_DATAQUEUE_EVENT_LWM :: u32 where "RT_DATAQUEUE_EVENT_LWM \<equiv> 3"

type_synonym dq_notify = "u32 \<Rightarrow> rt_data_queue \<Rightarrow> kernel \<Rightarrow> (rt_data_queue \<times> kernel) option"

definition dq_call :: "dq_notify \<Rightarrow> u32 \<Rightarrow> rt_data_queue \<Rightarrow> kernel \<Rightarrow> (rt_data_queue \<times> kernel) option" where
  "dq_call notify ev d k = (if evt_notify d then notify ev d k else Some (d, k))"

definition rt_data_queue_init ::
  "(u32 \<Rightarrow> kernel \<Rightarrow> ptr \<times> kernel) \<Rightarrow> ptr \<Rightarrow> u16 \<Rightarrow> u16 \<Rightarrow> bool \<Rightarrow> rt_data_queue \<Rightarrow> kernel \<Rightarrow> (err \<times> rt_data_queue \<times> kernel) option" where
  "rt_data_queue_init malloc queue sz low notify d k = do {
     RT_ASSERT (queue \<noteq> RT_NULL);
     let d = d\<lparr>evt_notify := notify, dq_size := sz, lwm := low, get_index := 0, put_index := 0\<rparr>;
     C_GUARD (tlist_isempty (Senders queue) k \<and> tlist_isempty (Waiters queue) k);
     let k = tlist_init (Waiters queue) (tlist_init (Senders queue) k);
     let (q, k) = malloc (8 * ucast sz) k;
     Some (if q = RT_NULL then - RT_ENOMEM else RT_EOK, d\<lparr>dq_array := q\<rparr>, k)
   }"

text \<open>The indices are promoted to \<^verbatim>\<open>int\<close> before they are subtracted.\<close>

definition dq_len :: "rt_data_queue \<Rightarrow> int" where
  "dq_len d = uint (put_index d) - uint (get_index d)"

text \<open>Storing an item, and waking the first thread that waits to pop.\<close>

definition dq_push_item :: "dq_notify \<Rightarrow> ptr \<Rightarrow> ptr \<Rightarrow> u32 \<Rightarrow> rt_data_queue \<Rightarrow> kernel \<Rightarrow> (outcome \<times> rt_data_queue \<times> kernel) option" where
  "dq_push_item notify queue data_ptr data_size d k = do {
     C_GUARD (dq_array d \<noteq> RT_NULL \<and> dq_size d \<noteq> 0);
     let i = unat (put_index d) mod unat (dq_size d);
     let d = d\<lparr>dq_items := (dq_items d)(i := (data_ptr, data_size)), put_index := put_index d + 1\<rparr>;
     if \<not> tlist_isempty (Waiters queue) k then do {
       thread \<leftarrow> tlist_first (Waiters queue) k;
       (_, k) \<leftarrow> rt_thread_resume thread k;
       k \<leftarrow> rt_schedule k;
       Some (Done RT_EOK, d, k)
     }
     else do {
       (d, k) \<leftarrow> dq_call notify RT_DATAQUEUE_EVENT_PUSH d k;
       Some (Done RT_EOK, d, k)
     }
   }"

definition rt_data_queue_push ::
  "dq_notify \<Rightarrow> ptr \<Rightarrow> ptr \<Rightarrow> u32 \<Rightarrow> 32 word \<Rightarrow> rt_data_queue \<Rightarrow> kernel \<Rightarrow> (outcome \<times> rt_data_queue \<times> kernel) option" where
  "rt_data_queue_push notify queue data_ptr data_size timeout d k = do {
     RT_ASSERT (queue \<noteq> RT_NULL);
     if dq_len d = uint (dq_size d) then
       if timeout = 0 then Some (Done (- RT_ETIMEOUT), d, k)
       else do {
         RT_DEBUG_NOT_IN_INTERRUPT k;
         k \<leftarrow> drv_wait (Senders queue) timeout k;
         Some (Blocked, d, k)
       }
     else dq_push_item notify queue data_ptr data_size d k
   }"

text \<open>
  The loop goes on when the thread runs again: with the same time limit as before, unless it was
  woken with an error.
\<close>

definition rt_data_queue_push_resume ::
  "dq_notify \<Rightarrow> ptr \<Rightarrow> ptr \<Rightarrow> u32 \<Rightarrow> 32 word \<Rightarrow> rt_data_queue \<Rightarrow> kernel \<Rightarrow> (outcome \<times> rt_data_queue \<times> kernel) option" where
  "rt_data_queue_push_resume notify queue data_ptr data_size timeout d k =
     (let e = error (threads k (rt_thread_self k))
      in if e \<noteq> RT_EOK then Some (Done e, d, k)
         else rt_data_queue_push notify queue data_ptr data_size timeout d k)"

definition dq_pop_item :: "dq_notify \<Rightarrow> ptr \<Rightarrow> rt_data_queue \<Rightarrow> kernel \<Rightarrow> (outcome \<times> (ptr \<times> u32) option \<times> rt_data_queue \<times> kernel) option" where
  "dq_pop_item notify queue d k = do {
     C_GUARD (dq_array d \<noteq> RT_NULL \<and> dq_size d \<noteq> 0);
     let x = dq_items d (unat (get_index d) mod unat (dq_size d));
     let d = d\<lparr>get_index := get_index d + 1\<rparr>;
     if dq_len d \<le> uint (lwm d) then do {
       k \<leftarrow> (if \<not> tlist_isempty (Senders queue) k then do {
               thread \<leftarrow> tlist_first (Senders queue) k;
               (_, k) \<leftarrow> rt_thread_resume thread k;
               rt_schedule k
             }
             else Some k);
       (d, k) \<leftarrow> dq_call notify RT_DATAQUEUE_EVENT_LWM d k;
       Some (Done RT_EOK, Some x, d, k)
     }
     else do {
       (d, k) \<leftarrow> dq_call notify RT_DATAQUEUE_EVENT_POP d k;
       Some (Done RT_EOK, Some x, d, k)
     }
   }"

text \<open>The item received, if any, is the second component.\<close>

definition rt_data_queue_pop ::
  "dq_notify \<Rightarrow> ptr \<Rightarrow> 32 word \<Rightarrow> rt_data_queue \<Rightarrow> kernel \<Rightarrow> (outcome \<times> (ptr \<times> u32) option \<times> rt_data_queue \<times> kernel) option" where
  "rt_data_queue_pop notify queue timeout d k = do {
     RT_ASSERT (queue \<noteq> RT_NULL);
     if get_index d = put_index d then
       if timeout = 0 then Some (Done (- RT_ETIMEOUT), None, d, k)
       else do {
         RT_DEBUG_NOT_IN_INTERRUPT k;
         k \<leftarrow> drv_wait (Waiters queue) timeout k;
         Some (Blocked, None, d, k)
       }
     else dq_pop_item notify queue d k
   }"

definition rt_data_queue_pop_resume ::
  "dq_notify \<Rightarrow> ptr \<Rightarrow> 32 word \<Rightarrow> rt_data_queue \<Rightarrow> kernel \<Rightarrow> (outcome \<times> (ptr \<times> u32) option \<times> rt_data_queue \<times> kernel) option" where
  "rt_data_queue_pop_resume notify queue timeout d k =
     (let e = error (threads k (rt_thread_self k))
      in if e \<noteq> RT_EOK then Some (Done e, None, d, k)
         else rt_data_queue_pop notify queue timeout d k)"

definition rt_data_queue_peak :: "ptr \<Rightarrow> rt_data_queue \<Rightarrow> (err \<times> (ptr \<times> u32) option) option" where
  "rt_data_queue_peak queue d = do {
     RT_ASSERT (queue \<noteq> RT_NULL);
     if get_index d = put_index d then Some (- RT_EEMPTY, None)
     else do {
       C_GUARD (dq_array d \<noteq> RT_NULL \<and> dq_size d \<noteq> 0);
       Some (RT_EOK, Some (dq_items d (unat (get_index d) mod unat (dq_size d))))
     }
   }"

text \<open>The two loops of the reset are those of \<^verbatim>\<open>rt_ipc_list_resume_all\<close>.\<close>

definition rt_data_queue_reset :: "ptr \<Rightarrow> kernel \<Rightarrow> kernel option" where
  "rt_data_queue_reset queue k = do {
     let k = rt_enter_critical k;
     k \<leftarrow> rt_ipc_list_resume_all (Waiters queue) k;
     k \<leftarrow> rt_ipc_list_resume_all (Senders queue) k;
     k \<leftarrow> rt_exit_critical k;
     rt_schedule k
   }"

subsection \<open>The queue\<close>

text \<open>
  As long as the put index has not wrapped around the queue is a bounded queue: the items from
  the get index up to the put index, at most \<^verbatim>\<open>size\<close> of them.
\<close>

definition dq_ok :: "rt_data_queue \<Rightarrow> bool" where
  "dq_ok d \<longleftrightarrow> dq_array d \<noteq> RT_NULL \<and> 0 < dq_size d \<and> get_index d \<le> put_index d \<and> unat (put_index d) - unat (get_index d) \<le> unat (dq_size d)"

definition dq_content :: "rt_data_queue \<Rightarrow> (ptr \<times> u32) list" where
  "dq_content d = map (\<lambda>i. dq_items d (i mod unat (dq_size d))) [unat (get_index d)..<unat (put_index d)]"

lemma dq_len_ok: "dq_ok d \<Longrightarrow> dq_len d = int (length (dq_content d))"
  by (simp add: dq_ok_def dq_len_def dq_content_def word_le_nat_alt of_nat_diff)

lemma dq_push_ok:
  assumes ok: "dq_ok d" and room: "length (dq_content d) < unat (dq_size d)" and wrap: "put_index d < 0xffff"
    and d': "d' = d\<lparr>dq_items := (dq_items d)(unat (put_index d) mod unat (dq_size d) := x), put_index := put_index d + 1\<rparr>"
  shows "dq_ok d' \<and> dq_content d' = dq_content d @ [x]"
proof -
  let ?n = "unat (dq_size d)" and ?p = "unat (put_index d)" and ?g = "unat (get_index d)"
  have p: "unat (put_index d') = ?p + 1" using unat_Suc_less [OF wrap] by (simp add: d')
  have g: "?g \<le> ?p" "?p - ?g < ?n" using ok room by (simp_all add: dq_ok_def dq_content_def word_le_nat_alt)
  have "i mod ?n \<noteq> ?p mod ?n" if "?g \<le> i" "i < ?p" for i
    using ring_slot [of "i - ?g" "?p - ?g" ?n ?g] that g by simp
  then have "dq_content d' = dq_content d @ [x]"
    using g(1) by (simp add: dq_content_def p) (simp add: d')
  then show ?thesis using ok p g by (simp add: dq_ok_def word_le_nat_alt) (simp add: d')
qed

lemma dq_pop_ok:
  assumes ok: "dq_ok d" and c: "dq_content d = x # xs"
  shows "dq_items d (unat (get_index d) mod unat (dq_size d)) = x" "get_index d \<noteq> put_index d"
    "dq_ok (d\<lparr>get_index := get_index d + 1\<rparr>)" "dq_content (d\<lparr>get_index := get_index d + 1\<rparr>) = xs"
proof -
  have "unat (get_index d) < unat (put_index d)" using c by (cases "unat (get_index d) < unat (put_index d)") (auto simp: dq_content_def)
  then have lt: "get_index d < put_index d" "[unat (get_index d)..<unat (put_index d)] = unat (get_index d) # [unat (get_index d) + 1..<unat (put_index d)]"
    by (simp_all add: word_less_nat_alt upt_conv_Cons)
  show "dq_items d (unat (get_index d) mod unat (dq_size d)) = x" using c lt(2) by (simp add: dq_content_def)
  show "get_index d \<noteq> put_index d" using lt(1) by auto
  have g: "unat (get_index d + 1) = unat (get_index d) + 1" by (rule unat_Suc_less [OF lt(1)])
  show "dq_ok (d\<lparr>get_index := get_index d + 1\<rparr>)" using ok lt(1) g by (auto simp: dq_ok_def word_le_nat_alt word_less_nat_alt)
  show "dq_content (d\<lparr>get_index := get_index d + 1\<rparr>) = xs" using c lt(2) g by (simp add: dq_content_def)
qed

subsection \<open>Properties\<close>

text \<open>\<^verbatim>\<open>rt_data_queue_push\<close> refines a bounded queue while the put index has not wrapped: with room the
  item is appended and the first thread waiting to pop is woken; a full queue is refused without a
  time limit, and otherwise the caller waits in the list of the pushing threads.\<close>

lemma dq_push_spec:
  assumes "kinv b k" "dq_ok d" "queue \<noteq> RT_NULL" "put_index d < 0xffff" "\<not> evt_notify d" "rt_current_thread k \<noteq> RT_NULL"
    "timeout = 0 \<or> wait_time_ok timeout \<and> tstat k (rt_current_thread k) = RT_THREAD_RUNNING \<and> interrupt_nest k = 0"
  shows "\<exists>out d' k'. rt_data_queue_push notify queue p n timeout d k = Some (out, d', k') \<and> kinv b k' \<and> dq_ok d'
     \<and> (if length (dq_content d) < unat (dq_size d)
        then out = Done RT_EOK \<and> dq_content d' = dq_content d @ [(p, n)] \<and> wakes_first (Waiters queue) k k'
        else d' = d \<and> (if timeout = 0 then out = Done (- RT_ETIMEOUT) \<and> k' = k
                       else out = Blocked \<and> waits (Senders queue) RT_IPC_FLAG_FIFO timeout k k'))"
proof (cases "length (dq_content d) < unat (dq_size d)")
  case True
  let ?d = "d\<lparr>dq_items := (dq_items d)(unat (put_index d) mod unat (dq_size d) := (p, n)), put_index := put_index d + 1\<rparr>"
  have "uint (dq_size d) = int (unat (dq_size d))" by simp
  then have "dq_len d \<noteq> uint (dq_size d)" using True unfolding dq_len_ok [OF assms(2)] by linarith
  moreover have "dq_size d \<noteq> 0" "dq_array d \<noteq> RT_NULL" using assms(2) by (auto simp: dq_ok_def)
  ultimately have "rt_data_queue_push notify queue p n timeout d k =
      (if \<not> tlist_isempty (Waiters queue) k then do {
         k \<leftarrow> rt_ipc_list_resume (Waiters queue) k;
         k \<leftarrow> rt_schedule k;
         Some ((Done RT_EOK, ?d), k)
       } else Some ((Done RT_EOK, ?d), k)) \<bind> (\<lambda>((out, d), k). Some (out, d, k))"
    using assms(3,5) by (simp add: rt_data_queue_push_def dq_push_item_def dq_call_def rt_ipc_list_resume_def case_prod_unfold)
  moreover obtain k' where "(if \<not> tlist_isempty (Waiters queue) k then do {
         k \<leftarrow> rt_ipc_list_resume (Waiters queue) k;
         k \<leftarrow> rt_schedule k;
         Some ((Done RT_EOK, ?d), k)
       } else Some ((Done RT_EOK, ?d), k)) = Some ((Done RT_EOK, ?d), k')" "kinv b k'" "wakes_first (Waiters queue) k k'"
    using wake_ok [OF assms(1,6), of "Waiters queue" "(Done RT_EOK, ?d)"] by auto
  ultimately show ?thesis using True dq_push_ok [OF assms(2) True assms(4) refl, of "(p, n)"] by simp
next
  case False
  then have full: "dq_len d = uint (dq_size d)"
    using assms(2) by (simp add: dq_len_ok dq_ok_def dq_content_def)
  show ?thesis
  proof (cases "timeout = 0")
    case True
    then show ?thesis using full assms(1-3) False by (simp add: rt_data_queue_push_def)
  next
    case wait: False
    then have c: "tstat k (rt_current_thread k) = RT_THREAD_RUNNING" "interrupt_nest k = 0" "wait_time_ok timeout"
      using assms(7) by auto
    obtain k' where "drv_wait (Senders queue) timeout k = Some k'" "kinv b k'" "waits (Senders queue) RT_IPC_FLAG_FIFO timeout k k'"
      using drv_wait_ok [OF assms(1) c(1,2) is_wait_simps(2) c(3)] by blast
    then show ?thesis using full assms(2,3) False wait c(2)
      by (simp add: rt_data_queue_push_def RT_DEBUG_NOT_IN_INTERRUPT_def)
  qed
qed

text \<open>An example queue of two slots that holds one item.\<close>

definition demo_dq :: rt_data_queue where
  "demo_dq = \<lparr>dq_size = 2, lwm = 1, get_index = 3, put_index = 4, dq_array = 96, dq_items = (\<lambda>_. (7, 1)), evt_notify = False\<rparr>"

lemma demo_dq_ok: "dq_ok demo_dq" "dq_content demo_dq = [(7, 1)]" "dq_size demo_dq = 2" "put_index demo_dq = 4"
    "\<not> evt_notify demo_dq"
  by (simp_all add: dq_ok_def dq_content_def demo_dq_def upt_rec)

text \<open>The test for a full queue compares the difference of the 16-bit indices as a signed number: once the
  put index has wrapped around and the get index has not, a full queue is not recognised, and
  \<^verbatim>\<open>rt_data_queue_push\<close> reports success while it overwrites the oldest item.\<close>

lemma dq_push_overwrites:
  assumes "put_index d = get_index d + dq_size d" "put_index d < get_index d" "unat (dq_size d) dvd 2 ^ 16"
    "\<not> evt_notify d" "tlists k (Waiters queue) = []" "queue \<noteq> RT_NULL"
    "dq_array d \<noteq> RT_NULL"
  shows "\<exists>d'. rt_data_queue_push notify queue p n timeout d k = Some (Done RT_EOK, d', k)
     \<and> rt_data_queue_peak queue d' = Some (RT_EOK, Some (p, n))"
proof -
  have z: "dq_size d \<noteq> 0" using assms(1,2) by auto
  have "dq_len d < 0" using assms(2) by (simp add: dq_len_def word_less_def)
  then have ne: "dq_len d \<noteq> uint (dq_size d)" using uint_ge_0 [of "dq_size d"] by linarith
  have "unat (put_index d) = (unat (get_index d) + unat (dq_size d)) mod 2 ^ 16"
    by (simp add: assms(1) unat_word_ariths)
  then have s: "unat (put_index d) mod unat (dq_size d) = unat (get_index d) mod unat (dq_size d)"
    using assms(3) by (simp add: mod_mod_cancel)
  let ?d = "d\<lparr>dq_items := (dq_items d)(unat (put_index d) mod unat (dq_size d) := (p, n)), put_index := put_index d + 1\<rparr>"
  have "rt_data_queue_push notify queue p n timeout d k = Some (Done RT_EOK, ?d, k)"
    using assms(4-7) z ne by (simp add: rt_data_queue_push_def dq_push_item_def dq_call_def tlist_isempty_def)
  moreover have "get_index d \<noteq> put_index d + 1"
  proof
    assume "get_index d = put_index d + 1"
    then have "dq_size d + 1 = 0" using assms(1) by (simp add: algebra_simps)
    then have "dq_size d = - 1" by (simp add: eq_neg_iff_add_eq_0)
    then have "unat (dq_size d) = 65535" by (simp add: unsigned_minus_1_eq_mask mask_eq_exp_minus_1)
    then show False using assms(3) by simp
  qed
  ultimately show ?thesis using z s assms(6,7) by (simp add: rt_data_queue_peak_def)
qed

end
