(* ===== verification/RT_WorkQueue.thy ===== *)
theory RT_WorkQueue
  imports RT_Semaphore
begin

text \<open>
  Work queues (\<^verbatim>\<open>components/drivers/src/workqueue.c\<close>): a thread that executes work items one after the
  other. A queue keeps the list of pending items and the item being executed; items and queues
  are found by address. A delayed item is submitted by a timer of its own; with the reference
  configuration it is a hard timer. The work functions of the application are not called here:
  the worker's loop is cut in its two steps, fetching an item and reporting it done.
\<close>

subsection \<open>State\<close>

record rt_work =
  work_func :: ptr
  work_data :: ptr
  work_flags :: u16
  work_type :: u16
  work_queue :: ptr
  work_timer :: ptr

record rt_workqueue =
  work_list :: "ptr list"
  work_current :: ptr
  wq_sem :: ptr
  work_thread :: ptr

record wq_state =
  works :: "ptr \<Rightarrow> rt_work"
  wqs :: "ptr \<Rightarrow> rt_workqueue"
  wk :: kernel

abbreviation (input) RT_WORK_STATE_PENDING :: u16 where "RT_WORK_STATE_PENDING \<equiv> 1"
abbreviation (input) RT_WORK_STATE_SUBMITTING :: u16 where "RT_WORK_STATE_SUBMITTING \<equiv> 2"
abbreviation (input) RT_WORK_TYPE_DELAYED :: u16 where "RT_WORK_TYPE_DELAYED \<equiv> 1"
abbreviation (input) RT_TIMER_FLAG_SOFT_TIMER :: u8 where "RT_TIMER_FLAG_SOFT_TIMER \<equiv> 4"
abbreviation (input) EINVAL :: err where "EINVAL \<equiv> 22"

definition upd_work :: "ptr \<Rightarrow> (rt_work \<Rightarrow> rt_work) \<Rightarrow> wq_state \<Rightarrow> wq_state" where
  "upd_work w f s = s\<lparr>works := (works s)(w := f (works s w))\<rparr>"

definition upd_wq :: "ptr \<Rightarrow> (rt_workqueue \<Rightarrow> rt_workqueue) \<Rightarrow> wq_state \<Rightarrow> wq_state" where
  "upd_wq q f s = s\<lparr>wqs := (wqs s)(q := f (wqs s q))\<rparr>"

text \<open>\<open>EINVAL\<close> is the C library's number. \<^verbatim>\<open>rt_list_remove\<close> of an item takes it off whatever list it is on.\<close>

definition work_unlink :: "ptr \<Rightarrow> wq_state \<Rightarrow> wq_state" where
  "work_unlink w s = s\<lparr>wqs := (\<lambda>q. (wqs s q)\<lparr>work_list := removeAll w (work_list (wqs s q))\<rparr>)\<rparr>"

subsection \<open>Operations\<close>

text \<open>Resuming the worker thread, whose result is not looked at, and scheduling.\<close>

definition wq_kick :: "ptr \<Rightarrow> wq_state \<Rightarrow> wq_state option" where
  "wq_kick q s = do {
     (_, k) \<leftarrow> rt_thread_resume (work_thread (wqs s q)) (wk s);
     k \<leftarrow> rt_schedule k;
     Some (s\<lparr>wk := k\<rparr>)
   }"

definition workqueue_submit_work :: "ptr \<Rightarrow> ptr \<Rightarrow> wq_state \<Rightarrow> (err \<times> wq_state) option" where
  "workqueue_submit_work q w s =
     (if work_flags (works s w) AND RT_WORK_STATE_PENDING \<noteq> 0 then Some (- RT_EBUSY, s)
      else if work_current (wqs s q) = w then Some (- RT_EBUSY, s)
      else do {
        let s = work_unlink w s;
        let s = upd_wq q (\<lambda>x. x\<lparr>work_list := work_list x @ [w]\<rparr>) s;
        let s = upd_work w (\<lambda>x. x\<lparr>work_flags := work_flags x OR RT_WORK_STATE_PENDING\<rparr>) s;
        s \<leftarrow> (if work_current (wqs s q) = RT_NULL then wq_kick q s else Some s);
        Some (RT_EOK, s)
      })"

definition workqueue_cancel_work :: "ptr \<Rightarrow> ptr \<Rightarrow> wq_state \<Rightarrow> err \<times> wq_state" where
  "workqueue_cancel_work q w s =
     (if work_current (wqs s q) = w then (- RT_EBUSY, s)
      else (let s = work_unlink w s
            in (RT_EOK, upd_work w (\<lambda>x. x\<lparr>work_flags := work_flags x AND NOT RT_WORK_STATE_PENDING\<rparr>) s)))"

text \<open>
  Cancelling a delayed item that is pending calls \<^verbatim>\<open>rt_workqueue_cancel_work\<close>, which calls back for
  delayed items; the two functions are one recursion here.
\<close>

partial_function (option) workqueue_cancel_delayed_work :: "ptr \<Rightarrow> wq_state \<Rightarrow> (err \<times> wq_state) option" where
  "workqueue_cancel_delayed_work w s =
     (if work_queue (works s w) = RT_NULL then Some (- EINVAL, s)
      else do {
        (ret, s) \<leftarrow>
          (if work_flags (works s w) AND RT_WORK_STATE_PENDING \<noteq> 0 then
             if work_type (works s w) AND RT_WORK_TYPE_DELAYED \<noteq> 0 then workqueue_cancel_delayed_work w s
             else Some (workqueue_cancel_work (work_queue (works s w)) w s)
           else if work_flags (works s w) AND RT_WORK_STATE_SUBMITTING \<noteq> 0 then do {
             (_, k) \<leftarrow> rt_timer_stop (work_timer (works s w)) (wk s);
             (_, k) \<leftarrow> rt_timer_detach (work_timer (works s w)) k;
             Some (RT_EOK, upd_work w (\<lambda>x. x\<lparr>work_flags := work_flags x AND NOT RT_WORK_STATE_SUBMITTING\<rparr>) (s\<lparr>wk := k\<rparr>))
           }
           else Some (RT_EOK, s));
        if ret \<noteq> RT_EOK then Some (ret, s)
        else Some (RT_EOK, upd_work w (\<lambda>x. x\<lparr>work_queue := RT_NULL,
               work_flags := work_flags x AND NOT RT_WORK_STATE_PENDING\<rparr>) s)
      })"

definition rt_workqueue_cancel_work :: "ptr \<Rightarrow> ptr \<Rightarrow> wq_state \<Rightarrow> (err \<times> wq_state) option" where
  "rt_workqueue_cancel_work q w s = do {
     RT_ASSERT (q \<noteq> RT_NULL);
     RT_ASSERT (w \<noteq> RT_NULL);
     if work_type (works s w) AND RT_WORK_TYPE_DELAYED \<noteq> 0 then workqueue_cancel_delayed_work w s
     else Some (workqueue_cancel_work q w s)
   }"

text \<open>\<open>h\<close> is the address of the timeout handler \<^verbatim>\<open>_delayed_work_timeout_handler\<close>.\<close>

definition workqueue_submit_delayed_work :: "ptr \<Rightarrow> ptr \<Rightarrow> ptr \<Rightarrow> u32 \<Rightarrow> wq_state \<Rightarrow> (err \<times> wq_state) option" where
  "workqueue_submit_delayed_work h q w tm s =
     (if work_queue (works s w) \<noteq> RT_NULL \<and> work_queue (works s w) \<noteq> q then Some (- RT_EINVAL, s)
      else do {
        (ret, s) \<leftarrow> (if work_queue (works s w) = q then workqueue_cancel_delayed_work w s else Some (RT_EOK, s));
        if ret < 0 then Some (ret, s)
        else do {
          let s = upd_work w (\<lambda>x. x\<lparr>work_queue := q\<rparr>) s;
          if tm = 0 then do {
            (_, s) \<leftarrow> workqueue_submit_work q w s;
            Some (ret, s)
          }
          else do {
            let s = upd_work w (\<lambda>x. x\<lparr>work_flags := work_flags x OR RT_WORK_STATE_SUBMITTING\<rparr>) s;
            k \<leftarrow> rt_timer_init (work_timer (works s w)) ''work'' (App_timeout h) w tm
              (RT_TIMER_FLAG_ONE_SHOT OR RT_TIMER_FLAG_SOFT_TIMER) (wk s);
            (_, k) \<leftarrow> rt_timer_start (work_timer (works s w)) k;
            Some (ret, s\<lparr>wk := k\<rparr>)
          }
        }
      })"

definition delayed_work_timeout_handler :: "ptr \<Rightarrow> wq_state \<Rightarrow> wq_state option" where
  "delayed_work_timeout_handler w s = do {
     (_, k) \<leftarrow> rt_timer_stop (work_timer (works s w)) (wk s);
     (_, k) \<leftarrow> rt_timer_detach (work_timer (works s w)) k;
     let s = upd_work w (\<lambda>x. x\<lparr>work_flags := work_flags x AND NOT RT_WORK_STATE_SUBMITTING\<rparr>) (s\<lparr>wk := k\<rparr>);
     (_, s) \<leftarrow> workqueue_submit_work (work_queue (works s w)) w s;
     Some s
   }"

definition rt_workqueue_dowork :: "ptr \<Rightarrow> ptr \<Rightarrow> wq_state \<Rightarrow> (err \<times> wq_state) option" where
  "rt_workqueue_dowork q w s = do {
     RT_ASSERT (q \<noteq> RT_NULL);
     RT_ASSERT (w \<noteq> RT_NULL);
     workqueue_submit_work q w s
   }"

definition rt_workqueue_submit_work :: "ptr \<Rightarrow> ptr \<Rightarrow> ptr \<Rightarrow> u32 \<Rightarrow> wq_state \<Rightarrow> (err \<times> wq_state) option" where
  "rt_workqueue_submit_work h q w time s = do {
     RT_ASSERT (q \<noteq> RT_NULL);
     RT_ASSERT (w \<noteq> RT_NULL);
     if work_type (works s w) AND RT_WORK_TYPE_DELAYED \<noteq> 0 then workqueue_submit_delayed_work h q w time s
     else workqueue_submit_work q w s
   }"

definition rt_workqueue_critical_work :: "ptr \<Rightarrow> ptr \<Rightarrow> wq_state \<Rightarrow> (err \<times> wq_state) option" where
  "rt_workqueue_critical_work q w s = do {
     RT_ASSERT (q \<noteq> RT_NULL);
     RT_ASSERT (w \<noteq> RT_NULL);
     if work_current (wqs s q) = w then Some (- RT_EBUSY, s)
     else do {
       let s = work_unlink w s;
       let s = upd_wq q (\<lambda>x. x\<lparr>work_list := work_list x @ [w]\<rparr>) s;
       s \<leftarrow> (if work_current (wqs s q) = RT_NULL then wq_kick q s else Some s);
       Some (RT_EOK, s)
     }
   }"

text \<open>The wait for the item being executed ends in \<open>Blocked\<close>; the flag is cleared when it is over.\<close>

definition rt_workqueue_cancel_work_sync :: "ptr \<Rightarrow> ptr \<Rightarrow> wq_state \<Rightarrow> (outcome \<times> wq_state) option" where
  "rt_workqueue_cancel_work_sync q w s = do {
     RT_ASSERT (q \<noteq> RT_NULL);
     RT_ASSERT (w \<noteq> RT_NULL);
     let clear = upd_work w (\<lambda>x. x\<lparr>work_flags := work_flags x AND NOT RT_WORK_STATE_PENDING\<rparr>);
     if work_current (wqs s q) = w then do {
       (out, k) \<leftarrow> rt_sem_take (wq_sem (wqs s q)) (- 1) (wk s);
       let s = s\<lparr>wk := k\<rparr>;
       if out = Blocked then Some (Blocked, s) else Some (Done RT_EOK, clear s)
     }
     else Some (Done RT_EOK, clear (work_unlink w s))
   }"

definition rt_workqueue_cancel_all_work :: "ptr \<Rightarrow> wq_state \<Rightarrow> (err \<times> wq_state) option" where
  "rt_workqueue_cancel_all_work q s = do {
     RT_ASSERT (q \<noteq> RT_NULL);
     let s = s\<lparr>wk := rt_enter_critical (wk s)\<rparr>;
     let s = upd_wq q (\<lambda>x. x\<lparr>work_list := []\<rparr>) s;
     k \<leftarrow> rt_exit_critical (wk s);
     Some (RT_EOK, s\<lparr>wk := k\<rparr>)
   }"

definition rt_work_init :: "ptr \<Rightarrow> ptr \<Rightarrow> ptr \<Rightarrow> wq_state \<Rightarrow> wq_state" where
  "rt_work_init w func data s =
     upd_work w (\<lambda>x. x\<lparr>work_func := func, work_data := data, work_flags := 0, work_type := 0\<rparr>) s"

definition rt_delayed_work_init :: "ptr \<Rightarrow> ptr \<Rightarrow> ptr \<Rightarrow> wq_state \<Rightarrow> wq_state" where
  "rt_delayed_work_init w func data s =
     upd_work w (\<lambda>x. x\<lparr>work_type := RT_WORK_TYPE_DELAYED\<rparr>) (rt_work_init w func data s)"

text \<open>
  \<open>sem_at\<close> gives the address of the semaphore inside the structure and \<open>ent\<close> that of the worker's
  entry function; \<open>wq_bytes\<close> is the size of the structure.
\<close>

definition rt_workqueue_create ::
  "(u32 \<Rightarrow> kernel \<Rightarrow> ptr \<times> kernel) \<Rightarrow> (ptr \<Rightarrow> kernel \<Rightarrow> kernel) \<Rightarrow> (u8 \<Rightarrow> u32) \<Rightarrow>
     (ptr \<Rightarrow> ptr \<Rightarrow> ptr \<Rightarrow> mem \<Rightarrow> ptr \<times> mem) \<Rightarrow> u32 \<Rightarrow> (ptr \<Rightarrow> ptr) \<Rightarrow> ptr \<Rightarrow> string \<Rightarrow> u16 \<Rightarrow> u8 \<Rightarrow>
     wq_state \<Rightarrow> (ptr \<times> wq_state) option" where
  "rt_workqueue_create malloc free size_of hw_stack_init wq_bytes sem_at ent nm stk_size priority s = do {
     let (queue, k) = malloc wq_bytes (wk s);
     let s = s\<lparr>wk := k\<rparr>;
     if queue = RT_NULL then Some (RT_NULL, s)
     else do {
       let s = upd_wq queue (\<lambda>x. x\<lparr>work_list := [], work_current := RT_NULL, wq_sem := sem_at queue\<rparr>) s;
       (_, k) \<leftarrow> rt_sem_init (sem_at queue) ''wqueue'' 0 RT_IPC_FLAG_FIFO (wk s);
       (thread, k) \<leftarrow> rt_thread_create malloc free size_of hw_stack_init nm ent queue (ucast stk_size) priority 10 k;
       let s = upd_wq queue (\<lambda>x. x\<lparr>work_thread := thread\<rparr>) (s\<lparr>wk := k\<rparr>);
       if thread = RT_NULL then Some (RT_NULL, s\<lparr>wk := free queue (wk s)\<rparr>)
       else do {
         (_, k) \<leftarrow> rt_thread_startup thread (wk s);
         Some (queue, s\<lparr>wk := k\<rparr>)
       }
     }
   }"

definition rt_workqueue_destroy :: "(ptr \<Rightarrow> kernel \<Rightarrow> kernel) \<Rightarrow> ptr \<Rightarrow> wq_state \<Rightarrow> (err \<times> wq_state) option" where
  "rt_workqueue_destroy free queue s = do {
     RT_ASSERT (queue \<noteq> RT_NULL);
     (_, k) \<leftarrow> rt_thread_delete (work_thread (wqs s queue)) (wk s);
     Some (RT_EOK, s\<lparr>wk := free queue k\<rparr>)
   }"

text \<open>
  The worker takes the first item of the list; taking one from an empty list follows the list head
  into no work item. When it finds the list empty it suspends itself first (result \<^verbatim>\<open>None\<close>), and
  continues with \<open>workqueue_take\<close> when it runs again, without testing the list.
\<close>

definition workqueue_take :: "ptr \<Rightarrow> wq_state \<Rightarrow> (ptr \<times> wq_state) option" where
  "workqueue_take q s = (case work_list (wqs s q) of
     [] \<Rightarrow> None
   | w # ws \<Rightarrow> do {
       let s = upd_wq q (\<lambda>x. x\<lparr>work_list := ws, work_current := w\<rparr>) s;
       Some (w, upd_work w (\<lambda>x. x\<lparr>work_flags := work_flags x AND NOT RT_WORK_STATE_PENDING\<rparr>) s)
     })"

definition workqueue_fetch :: "ptr \<Rightarrow> wq_state \<Rightarrow> (ptr option \<times> wq_state) option" where
  "workqueue_fetch q s =
     (if work_list (wqs s q) = [] then do {
        (_, k) \<leftarrow> rt_thread_suspend (rt_thread_self (wk s)) (wk s);
        k \<leftarrow> rt_schedule k;
        Some (None, s\<lparr>wk := k\<rparr>)
      }
      else do {
        (w, s) \<leftarrow> workqueue_take q s;
        Some (Some w, s)
      })"

text \<open>Reporting: release the semaphore for everybody that waits, and leave it at zero.\<close>

partial_function (option) work_completion_loop :: "ptr \<Rightarrow> kernel \<Rightarrow> (err \<times> kernel) option" where
  "work_completion_loop sem k = do {
     r \<leftarrow> rt_sem_trytake sem k;
     if fst r = Done (- RT_ETIMEOUT) then do {
       x \<leftarrow> rt_sem_release sem (snd r);
       work_completion_loop sem (snd x)
     }
     else if fst r = Done RT_EOK then Some (RT_EOK, snd r)
     else Some (- RT_ERROR, snd r)
   }"

definition workqueue_work_completion :: "ptr \<Rightarrow> wq_state \<Rightarrow> (err \<times> wq_state) option" where
  "workqueue_work_completion q s = do {
     let k = rt_enter_critical (wk s);
     (ret, k) \<leftarrow> work_completion_loop (wq_sem (wqs s q)) k;
     k \<leftarrow> rt_exit_critical k;
     Some (ret, s\<lparr>wk := k\<rparr>)
   }"

definition workqueue_finish :: "ptr \<Rightarrow> wq_state \<Rightarrow> wq_state option" where
  "workqueue_finish q s = do {
     let s = upd_wq q (\<lambda>x. x\<lparr>work_current := RT_NULL\<rparr>) s;
     (_, s) \<leftarrow> workqueue_work_completion q s;
     Some s
   }"

subsection \<open>Cancelling a pending delayed item\<close>

lemma cancel_delayed_pending:
  "workqueue_cancel_delayed_work w s = Some r \<Longrightarrow>
     \<not> (work_queue (works s w) \<noteq> RT_NULL \<and> work_flags (works s w) AND RT_WORK_STATE_PENDING \<noteq> 0
        \<and> work_type (works s w) AND RT_WORK_TYPE_DELAYED \<noteq> 0)"
proof (induction w s r rule: workqueue_cancel_delayed_work.raw_induct [rotated, consumes 1, case_names step])
  case (step f w s r)
  show ?case
  proof
    assume p: "work_queue (works s w) \<noteq> RT_NULL \<and> work_flags (works s w) AND RT_WORK_STATE_PENDING \<noteq> 0
        \<and> work_type (works s w) AND RT_WORK_TYPE_DELAYED \<noteq> 0"
    then obtain x where "f w s = Some x" using step(2) by (auto simp: Option.bind_eq_Some_conv)
    from step(1) [OF this] p show False by blast
  qed
qed

text \<open>C39: Cancelling a delayed work item that is pending in its queue never returns:
  \<^verbatim>\<open>_workqueue_cancel_delayed_work\<close> calls \<^verbatim>\<open>rt_workqueue_cancel_work\<close>, which for a delayed item calls
  \<^verbatim>\<open>_workqueue_cancel_delayed_work\<close> again in the same state. Submitting the item again, which cancels it
  first, does not return either.\<close>

theorem cancel_pending_diverges:
  assumes "work_queue (works s w) = q" "q \<noteq> RT_NULL" "work_flags (works s w) AND RT_WORK_STATE_PENDING \<noteq> 0"
    "work_type (works s w) AND RT_WORK_TYPE_DELAYED \<noteq> 0"
  shows "rt_workqueue_cancel_work q w s = None \<and> rt_workqueue_submit_work h q w tm s = None"
proof -
  have "workqueue_cancel_delayed_work w s = None"
    using cancel_delayed_pending [of w s] assms by (cases "workqueue_cancel_delayed_work w s") auto
  then show ?thesis
    using assms by (simp add: rt_workqueue_cancel_work_def rt_workqueue_submit_work_def workqueue_submit_delayed_work_def)
qed

definition demo_wq :: wq_state where
  "demo_wq = \<lparr>works = (\<lambda>_. \<lparr>work_func = 90, work_data = 0, work_flags = 1, work_type = 1, work_queue = 80, work_timer = 85\<rparr>),
     wqs = (\<lambda>_. \<lparr>work_list = [81], work_current = 0, wq_sem = 20, work_thread = 3\<rparr>), wk = demo\<rparr>"

theorem cancel_pending_diverges_witness: "rt_workqueue_cancel_work 80 81 demo_wq = None"
  using cancel_pending_diverges [of demo_wq 81 80] by (simp add: demo_wq_def)

text \<open>
  An item that is cancelled before the worker, already resumed by its submission, has run: the
  worker does not test its list again and takes an item from an empty list.
\<close>

lemma cancel_strands_worker:
  assumes "work_list (wqs s q) = [w]" "work_current (wqs s q) = RT_NULL" "q \<noteq> RT_NULL" "w \<noteq> RT_NULL"
    "work_type (works s w) AND RT_WORK_TYPE_DELAYED = 0"
  shows "\<exists>s'. rt_workqueue_cancel_work q w s = Some (RT_EOK, s') \<and> workqueue_take q s' = None"
  using assms by (simp add: rt_workqueue_cancel_work_def workqueue_cancel_work_def workqueue_take_def work_unlink_def upd_work_def)

subsection \<open>Reporting completion\<close>

text \<open>
  Releasing until a token can be taken: every waiter is released, and the semaphore ends at zero.
\<close>

lemma completion_loop_ok:
  assumes "kinv b k" "sem_ok k s" "sem_value (sems k s) = 0" "rt_current_thread k \<noteq> RT_NULL"
  shows "\<exists>k'. work_completion_loop s k = Some (RT_EOK, k') \<and> kinv b k' \<and> sem_ok k' s \<and> abs_sem k' s = (0, [])
     \<and> (\<forall>t \<in> set (tlists k (Waiters s)). tstat k' t \<in> {RT_THREAD_READY, RT_THREAD_RUNNING})
     \<and> (\<forall>u. tstat k u \<in> {RT_THREAD_READY, RT_THREAD_RUNNING} \<longrightarrow> tstat k' u \<in> {RT_THREAD_READY, RT_THREAD_RUNNING})"
  using assms
proof (induction "tlists k (Waiters s)" arbitrary: k)
  case Nil
  have c: "is_class k s RT_Object_Class_Semaphore" using Nil by (simp add: sem_ok_def)
  let ?k1 = "upd_sem s (\<lambda>x. x\<lparr>sem_value := sem_value x + 1\<rparr>) k"
  let ?k2 = "upd_sem s (\<lambda>x. x\<lparr>sem_value := sem_value x - 1\<rparr>) ?k1"
  have c1: "is_class ?k1 s RT_Object_Class_Semaphore" "0 < sem_value (sems ?k1 s)"
    using c Nil(4) by (simp_all add: upd_sem_def is_class_def)
  have l1: "work_completion_loop s ?k1 = Some (RT_EOK, ?k2)"
    using sem_take_available [OF c1, of 0] by (subst work_completion_loop.simps) (simp add: rt_sem_trytake_def)
  have "work_completion_loop s k = Some (RT_EOK, ?k2)"
    using sem_take_empty [OF c Nil(4)] sem_release_count [OF c Nil(1) [symmetric]] l1
    by (subst work_completion_loop.simps) (simp add: rt_sem_trytake_def)
  then show ?case using Nil by (auto simp: upd_sem_def sem_ok_def abs_sem_def is_class_def tstat_def)
next
  case (Cons t q)
  have l: "tlists k (Waiters s) = t # q" using Cons(2) by simp
  have c: "is_class k s RT_Object_Class_Semaphore" using Cons(4) by (simp add: sem_ok_def)
  obtain k1 where k1: "rt_sem_release s k = Some (RT_EOK, k1)" "kinv b k1" "kframe k k1" "wakes_first (Waiters s) k k1"
    using wake_ok [OF Cons(3,6) is_wait_simps(1), of s RT_EOK] c l
    by (auto simp: rt_sem_release_def is_class_def tlist_isempty_def)
  have w: "tstat k1 t \<in> {RT_THREAD_READY, RT_THREAD_RUNNING}" "tlists k1 (Waiters s) = q" "rt_current_thread k1 \<noteq> RT_NULL"
    "\<And>u. u \<noteq> t \<Longrightarrow> stat_moved k k1 u" using k1(4) by (simp_all add: wakes_first_def l)
  have ok1: "sem_ok k1 s" "sem_value (sems k1 s) = 0"
    using sem_ok_frame [OF Cons(4) k1(3) Cons(5)] kframe_fields(6) [OF k1(3)] Cons(5) by simp_all
  obtain k' where k': "work_completion_loop s k1 = Some (RT_EOK, k')" "kinv b k'" "sem_ok k' s" "abs_sem k' s = (0, [])"
    "\<forall>t \<in> set q. tstat k' t \<in> {RT_THREAD_READY, RT_THREAD_RUNNING}"
    "\<forall>u. tstat k1 u \<in> {RT_THREAD_READY, RT_THREAD_RUNNING} \<longrightarrow> tstat k' u \<in> {RT_THREAD_READY, RT_THREAD_RUNNING}"
    using Cons(1) [of k1] w(2,3) k1(2) ok1 by auto
  have "work_completion_loop s k = Some (RT_EOK, k')"
    using sem_take_empty [OF c Cons(5)] k1(1) k'(1) by (subst work_completion_loop.simps) (simp add: rt_sem_trytake_def)
  moreover have "tstat k1 u \<in> {RT_THREAD_READY, RT_THREAD_RUNNING}" if "tstat k u \<in> {RT_THREAD_READY, RT_THREAD_RUNNING}" for u
    using that w(1) w(4) [of u] by (cases "u = t") (auto simp: stat_moved_def)
  ultimately show ?case using k'(2-6) w(1) l by (intro exI [of _ k'] conjI ballI) auto
qed

end
