(* ===== verification/RT_Idle.thy ===== *)
theory RT_Idle
  imports RT_Example
begin

text \<open>
  The idle thread (\<^verbatim>\<open>src/idle.c\<close>): the list of idle hooks, and the clean-up of dead threads that are
  on the defunct list. The application's hooks and clean-up functions and the allocator's \<open>free\<close>
  are arguments. In the loop the test for a dead thread and its repetition behind the disabling of
  interrupts are one: nothing happens in between on a single processor with no interrupt.
\<close>

subsection \<open>Idle hooks\<close>

abbreviation (input) RT_IDEL_HOOK_LIST_SIZE :: nat where "RT_IDEL_HOOK_LIST_SIZE \<equiv> 4"

text \<open>The first slot that holds \<open>old\<close> is set to \<open>new\<close>.\<close>

fun hook_slot :: "ptr \<Rightarrow> ptr \<Rightarrow> ptr list \<Rightarrow> ptr list option" where
  "hook_slot old new [] = None"
| "hook_slot old new (h # hs) = (if h = old then Some (new # hs) else map_option ((#) h) (hook_slot old new hs))"

definition rt_thread_idle_sethook :: "ptr \<Rightarrow> ptr list \<Rightarrow> err \<times> ptr list" where
  "rt_thread_idle_sethook hook idle_hook_list = (case hook_slot RT_NULL hook idle_hook_list of
     None \<Rightarrow> (- RT_EFULL, idle_hook_list)
   | Some hs \<Rightarrow> (RT_EOK, hs))"

definition rt_thread_idle_delhook :: "ptr \<Rightarrow> ptr list \<Rightarrow> err \<times> ptr list" where
  "rt_thread_idle_delhook hook idle_hook_list = (case hook_slot hook RT_NULL idle_hook_list of
     None \<Rightarrow> (- RT_ENOSYS, idle_hook_list)
   | Some hs \<Rightarrow> (RT_EOK, hs))"

subsection \<open>The clean-up\<close>

definition has_defunct_thread :: "kernel \<Rightarrow> bool" where
  "has_defunct_thread k \<longleftrightarrow> \<not> tlist_isempty Defunct k"

text \<open>\<open>call f t\<close> is the thread's \<^verbatim>\<open>cleanup\<close> function at address \<open>f\<close>, called for thread \<open>t\<close>.\<close>

partial_function (option) rt_thread_idle_excute ::
  "(ptr \<Rightarrow> ptr \<Rightarrow> kernel \<Rightarrow> kernel option) \<Rightarrow> (ptr \<Rightarrow> kernel \<Rightarrow> kernel) \<Rightarrow> kernel \<Rightarrow> kernel option" where
  "rt_thread_idle_excute call free k =
     (if has_defunct_thread k then do {
        RT_DEBUG_NOT_IN_INTERRUPT k;
        thread \<leftarrow> tlist_first Defunct k;
        let k = tlist_remove thread k;
        let k = rt_enter_critical k;
        k \<leftarrow> (if cleanup (threads k thread) \<noteq> RT_NULL then call (cleanup (threads k thread)) thread k else Some k);
        s \<leftarrow> rt_object_is_systemobject thread k;
        if s then do {
          k \<leftarrow> rt_object_detach thread k;
          rt_exit_critical k
        }
        else do {
          k \<leftarrow> rt_exit_critical k;
          let k = free (stack_addr (threads k thread)) k;
          k \<leftarrow> rt_object_delete free thread k;
          rt_thread_idle_excute call free k
        }
      }
      else Some k)"

text \<open>One round of the idle thread's endless loop: all hooks, then the clean-up.\<close>

fun run_hooks :: "(ptr \<Rightarrow> kernel \<Rightarrow> kernel option) \<Rightarrow> ptr list \<Rightarrow> kernel \<Rightarrow> kernel option" where
  "run_hooks hook [] k = Some k"
| "run_hooks hook (h # hs) k = do {
     k \<leftarrow> (if h \<noteq> RT_NULL then hook h k else Some k);
     run_hooks hook hs k
   }"

definition idle_round ::
  "(ptr \<Rightarrow> kernel \<Rightarrow> kernel option) \<Rightarrow> (ptr \<Rightarrow> ptr \<Rightarrow> kernel \<Rightarrow> kernel option) \<Rightarrow> (ptr \<Rightarrow> kernel \<Rightarrow> kernel) \<Rightarrow>
     ptr list \<Rightarrow> kernel \<Rightarrow> kernel option" where
  "idle_round hook call free idle_hook_list k = do {
     k \<leftarrow> run_hooks hook idle_hook_list k;
     rt_thread_idle_excute call free k
   }"

text \<open>\<open>idle\<close>, \<open>ent\<close> and \<open>stack\<close> are the addresses of the thread, of its entry and of its stack.\<close>

definition rt_thread_idle_init ::
  "(ptr \<Rightarrow> ptr \<Rightarrow> ptr \<Rightarrow> mem \<Rightarrow> ptr \<times> mem) \<Rightarrow> ptr \<Rightarrow> ptr \<Rightarrow> ptr \<Rightarrow> kernel \<Rightarrow> kernel option" where
  "rt_thread_idle_init hw_stack_init idle ent stack k = do {
     (_, k) \<leftarrow> rt_thread_init hw_stack_init idle ''tidle0'' ent RT_NULL stack 256 31 32 k;
     (_, k) \<leftarrow> rt_thread_startup idle k;
     Some k
   }"

subsection \<open>Behaviour\<close>

text \<open>
  The allocator's \<^verbatim>\<open>free\<close> and the clean-up functions of threads change memory, but no structure of the
  kernel. What they do to the two memories is a function; \<open>clean_effects\<close> are the functions applied for
  one dead thread, in order: its clean-up function if it has one, and for a dynamic thread the freeing of
  its stack and of the thread itself.
\<close>

type_synonym mem_fun = "(ptr \<Rightarrow> u8) \<times> (ptr \<Rightarrow> ptr) \<Rightarrow> (ptr \<Rightarrow> u8) \<times> (ptr \<Rightarrow> ptr)"

definition on_memory :: "mem_fun \<Rightarrow> kernel \<Rightarrow> kernel" where
  "on_memory g k = k\<lparr>bmem := fst (g (bmem k, pmem k)), pmem := snd (g (bmem k, pmem k))\<rparr>"



lemma hook_slot_length: "hook_slot a b hs = Some hs' \<Longrightarrow> length hs' = length hs"
  by (induction hs arbitrary: hs') (auto split: if_splits)


lemma on_memory_simps [simp]:
  "sched_inv (on_memory g k) = sched_inv k" "tlists (on_memory g k) = tlists k" "threads (on_memory g k) = threads k"
  "objs (on_memory g k) = objs k" "object_list (on_memory g k) = object_list k" "interrupt_nest (on_memory g k) = interrupt_nest k"
  "(bmem (on_memory g k), pmem (on_memory g k)) = g (bmem k, pmem k)"
  by (simp_all add: on_memory_def)










end
