(* ===== verification/RT_System.thy ===== *)
theory RT_System
  imports RT_Semaphore
begin

text \<open>
  The kernel as a whole, seen as a transition system: the clock interrupt and the calls that the
  running thread makes, in any order. The events are those of an application that communicates
  through a set of semaphores, sleeps and yields, with application timers of its own; one thread
  (the idle thread) never blocks. Shown for all reachable states: nothing halts, a thread of highest
  priority runs, and no thread waits for a semaphore that has tokens.
\<close>

subsection \<open>Events and runs\<close>

datatype event =
    Tick
  | Sem_take ptr "32 word"
  | Sem_trytake ptr
  | Sem_release ptr
  | Sleep u32
  | Yield

definition exec :: "(ptr \<Rightarrow> ptr \<Rightarrow> kernel \<Rightarrow> kernel option) \<Rightarrow> event \<Rightarrow> kernel \<Rightarrow> kernel option" where
  "exec app e k = (case e of
     Tick \<Rightarrow> tick_isr app k
   | Sem_take s time \<Rightarrow> map_option snd (rt_sem_take s time k)
   | Sem_trytake s \<Rightarrow> map_option snd (rt_sem_trytake s k)
   | Sem_release s \<Rightarrow> map_option snd (rt_sem_release s k)
   | Sleep n \<Rightarrow> rt_thread_sleep n k
   | Yield \<Rightarrow> map_option snd (rt_thread_yield k))"

text \<open>
  What the application has to observe: the semaphores it uses are the initialised ones, time limits
  are legal, and the idle thread makes no blocking call.
\<close>

definition allowed :: "ptr set \<Rightarrow> ptr \<Rightarrow> event \<Rightarrow> kernel \<Rightarrow> bool" where
  "allowed S idle e k \<longleftrightarrow> (case e of
     Tick \<Rightarrow> True
   | Sem_take s time \<Rightarrow> s \<in> S \<and> wait_time_ok time \<and> rt_current_thread k \<noteq> idle
   | Sem_trytake s \<Rightarrow> s \<in> S
   | Sem_release s \<Rightarrow> s \<in> S
   | Sleep n \<Rightarrow> n < 0x7fffffff \<and> rt_current_thread k \<noteq> idle
   | Yield \<Rightarrow> True)"

inductive runs :: "(ptr \<Rightarrow> ptr \<Rightarrow> kernel \<Rightarrow> kernel option) \<Rightarrow> ptr set \<Rightarrow> ptr \<Rightarrow> kernel \<Rightarrow> event list \<Rightarrow> kernel \<Rightarrow> bool"
  for app S idle where
  runs_nil: "runs app S idle k [] k"
| runs_cons: "allowed S idle e k \<Longrightarrow> exec app e k = Some k' \<Longrightarrow> runs app S idle k' es k'' \<Longrightarrow> runs app S idle k (e # es) k''"

inductive_simps runs_Nil_iff [simp]: "runs app S idle k [] k'"

inductive_simps runs_Cons_iff [simp]: "runs app S idle k (e # es) k'"

subsection \<open>The invariant\<close>

text \<open>Every timer object, active or not: a periodic one has a legal period, and the application's
  timeout functions work on application memory only.\<close>

definition timers_ok :: "(ptr \<Rightarrow> ptr \<Rightarrow> kernel \<Rightarrow> kernel option) \<Rightarrow> kernel \<Rightarrow> bool" where
  "timers_ok app k \<longleftrightarrow> (\<forall>x. is_class k x RT_Object_Class_Timer \<longrightarrow>
     (flag (objs k x) AND RT_TIMER_FLAG_PERIODIC \<noteq> 0 \<longrightarrow>
        0 < tm_init_tick (timers k x) \<and> tm_init_tick (timers k x) < 0x7fffffff)
     \<and> (\<forall>a. tm_func (timers k x) = App_timeout a \<longrightarrow> app_ok app a (tm_parameter (timers k x))))"

definition sys_inv :: "(ptr \<Rightarrow> ptr \<Rightarrow> kernel \<Rightarrow> kernel option) \<Rightarrow> ptr set \<Rightarrow> ptr \<Rightarrow> kernel \<Rightarrow> bool" where
  "sys_inv app S idle k \<longleftrightarrow> kinv (rt_tick k) k \<and> timers_ok app k \<and> top_running k
     \<and> interrupt_nest k = 0 \<and> scheduler_lock_nest k = 0
     \<and> tstat k idle \<in> {RT_THREAD_READY, RT_THREAD_RUNNING} \<and> (\<forall>s \<in> S. sem_ok k s)"

lemma timers_ok_frame:
  assumes "timers_ok app k" "kframe k k'"
  shows "timers_ok app k'"
  using assms(1) kframe_class [OF assms(2)] kframe_parts(4-6,8) [OF assms(2)] unfolding timers_ok_def by metis

lemma timers_ok_tick:
  assumes "timers_ok app k" "kinv b k" "rt_current_thread k \<noteq> RT_NULL"
  shows "tick_inv app b k"
  using assms(1,3) kinvD(2) [OF assms(2)] assms(2) unfolding tick_inv_def timers_ok_def timer_inv_def by blast

lemma sem_ok_shrink:
  assumes "sem_ok k s" "is_class k s RT_Object_Class_Semaphore \<Longrightarrow> objs k' s = objs k s"
    "sems k' = sems k" "set (tlists k' (Waiters s)) \<subseteq> set (tlists k (Waiters s))"
  shows "sem_ok k' s"
  using assms by (auto simp: sem_ok_def is_class_def)

lemma sem_ok_kframe:
  assumes "sem_ok k s" "kframe k k'" "set (tlists k' (Waiters s)) \<subseteq> set (tlists k (Waiters s))"
  shows "sem_ok k' s"
  by (rule sem_ok_shrink [OF assms(1) _ _ assms(3)]) (use kframe_obj [OF assms(2)] kframe_fields(6) [OF assms(2)] in auto)

lemma idle_on_ready:
  assumes "sched_inv k" "tstat k i \<in> {RT_THREAD_READY, RT_THREAD_RUNNING}" "i \<noteq> rt_current_thread k"
  shows "on_ready k i"
  using assms core_invD(4) [OF sched_inv_core [OF assms(1)], of i] by (auto simp: sched_inv_def)

lemma sys_invD:
  assumes "sys_inv app S idle k"
  shows "kinv (rt_tick k) k" "timers_ok app k" "top_running k" "interrupt_nest k = 0" "scheduler_lock_nest k = 0"
    "tstat k idle \<in> {RT_THREAD_READY, RT_THREAD_RUNNING}" "s \<in> S \<Longrightarrow> sem_ok k s"
    "tstat k (rt_current_thread k) = RT_THREAD_RUNNING" "rt_current_thread k \<noteq> RT_NULL"
  using assms running_not_null [of "rt_tick k" k "rt_current_thread k"] by (auto simp: sys_inv_def top_running_def)

text \<open>A call that stays within \<open>kframe\<close>.\<close>

lemma sys_step:
  assumes inv: "sys_inv app S idle k" and k': "kinv (rt_tick k) k'" "kframe k k'" "top_running k'"
    "stat_moved k k' idle" "\<And>s. s \<in> S \<Longrightarrow> sem_ok k' s"
  shows "sys_inv app S idle k'"
  using sys_invD [OF inv] k' timers_ok_frame [OF _ k'(2)] kframe_fields(2-4) [OF k'(2)]
  by (auto simp: sys_inv_def stat_moved_def)

subsection \<open>Preservation\<close>

lemma sys_tick:
  assumes inv: "sys_inv app S idle k"
  shows "\<exists>k'. tick_isr app k = Some k' \<and> sys_inv app S idle k'"
proof -
  note i = sys_invD [OF inv]
  obtain k' where k': "tick_isr app k = Some k'" "tick_inv app (rt_tick k') k'" "tick_effect k k'"
    using tick_increase_ok [OF timers_ok_tick [OF i(2,1,9)], of "Suc (length (timer_list k))"]
    by (auto simp: tick_isr_def)
  obtain n where f: "kframe (k\<lparr>rt_tick := rt_tick k', threads := (threads k)
        (rt_current_thread k := (threads k (rt_current_thread k))\<lparr>remaining_tick := n\<rparr>), bmem := bmem k'\<rparr>) k'"
    using k'(3) unfolding tick_effect_def by blast
  have e: "\<And>x. set (tlists k' (Waiters x)) \<subseteq> set (tlists k (Waiters x))" "top_running k'"
    "tstat k' idle \<in> {RT_THREAD_READY, RT_THREAD_RUNNING}"
    using k'(3) i(3,5,6) unfolding tick_effect_def by blast+
  have o: "objs k' s = objs k s" if "is_class k s RT_Object_Class_Semaphore" for s
    using kframe_obj [OF f, of s RT_Object_Class_Semaphore] that by (simp add: is_class_def)
  have s: "sem_ok k' s" if "s \<in> S" for s
    by (rule sem_ok_shrink [OF i(7) [OF that] o _ e(1)]) (use kframe_fields(6) [OF f] in simp_all)
  have "timers_ok app k'"
    by (rule timers_ok_frame [OF _ f]) (use i(2) in \<open>simp add: timers_ok_def is_class_def\<close>)
  then have "sys_inv app S idle k'"
    using k'(2) e(2,3) s i(4,5) kframe_fields(2,3) [OF f] unfolding sys_inv_def tick_inv_def by simp
  with k'(1) show ?thesis by blast
qed

lemma sys_available:
  assumes inv: "sys_inv app S idle k" and s: "s \<in> S" "tlists k (Waiters s) = []"
  shows "sys_inv app S idle (upd_sem s f k)"
proof -
  note i = sys_invD [OF inv]
  have "sem_ok (upd_sem s f k) u" if "u \<in> S" for u
    using i(7) [OF that] s(2) by (auto simp: sem_ok_def upd_sem_def is_class_def)
  then show ?thesis
    using i by (auto simp: sys_inv_def upd_sem_def timers_ok_def is_class_def top_running_def tstat_def)
qed

lemma sys_take:
  assumes inv: "sys_inv app S idle k" and s: "s \<in> S" and t: "wait_time_ok time" "rt_current_thread k \<noteq> idle"
  shows "\<exists>out k'. rt_sem_take s time k = Some (out, k') \<and> sys_inv app S idle k'"
proof (cases "sem_value (sems k s) = 0")
  case False
  then have v: "0 < sem_value (sems k s)" by (simp add: word_gt_0)
  have ok: "sem_ok k s" by (rule sys_invD(7) [OF inv s])
  then have "tlists k (Waiters s) = []" "is_class k s RT_Object_Class_Semaphore" using v by (auto simp: sem_ok_def)
  then show ?thesis using sem_take_available [OF _ v] sys_available [OF inv s] by blast
next
  case True
  note i = sys_invD [OF inv]
  obtain k' where k': "rt_sem_take s time k = Some (Blocked, k')" "kinv (rt_tick k) k'" "kframe k k'" "sem_ok k' s"
    "\<forall>h. is_wait h \<longrightarrow> h \<noteq> Waiters s \<longrightarrow> tlists k' h = tlists k h"
    "scheduler_lock_nest k = 0 \<and> (\<exists>t. on_ready k t) \<longrightarrow> top_running k'"
    "\<forall>u. u \<noteq> rt_current_thread k \<longrightarrow> stat_moved k k' u"
    using sem_take_blocks [OF i(1) i(7) [OF s] True refl i(8,4) t(1)] by blast
  have ne: "idle \<noteq> rt_current_thread k" using t(2) by simp
  have top: "top_running k'" using k'(6) idle_on_ready [OF kinvD(1) [OF i(1)] i(6) ne] i(5) by blast
  have "sem_ok k' u" if u: "u \<in> S" for u
  proof (cases "u = s")
    case False
    then have "tlists k' (Waiters u) = tlists k (Waiters u)" using k'(5) by simp
    then show ?thesis by (intro sem_ok_kframe [OF i(7) [OF u] k'(3)]) simp
  qed (use k'(4) in simp)
  then have "sys_inv app S idle k'" using sys_step [OF inv k'(2,3) top] k'(7) ne by simp
  with k'(1) show ?thesis by blast
qed

lemma sys_trytake:
  assumes inv: "sys_inv app S idle k" and s: "s \<in> S"
  shows "\<exists>out k'. rt_sem_trytake s k = Some (out, k') \<and> sys_inv app S idle k'"
proof (cases "sem_value (sems k s) = 0")
  case True
  then show ?thesis
    using sem_take_empty [OF _ True] sys_invD(7) [OF inv s] inv by (auto simp: rt_sem_trytake_def sem_ok_def)
next
  case False
  then have v: "0 < sem_value (sems k s)" by (simp add: word_gt_0)
  then have "tlists k (Waiters s) = []" "is_class k s RT_Object_Class_Semaphore"
    using sys_invD(7) [OF inv s] by (auto simp: sem_ok_def)
  then show ?thesis
    using sem_take_available [OF _ v] sys_available [OF inv s] by (auto simp: rt_sem_trytake_def)
qed

lemma sys_release:
  assumes inv: "sys_inv app S idle k" and s: "s \<in> S"
  shows "\<exists>k'. rt_sem_release s k = Some (RT_EOK, k') \<and> sys_inv app S idle k'"
proof (cases "tlists k (Waiters s)")
  case Nil
  have "is_class k s RT_Object_Class_Semaphore" using sys_invD(7) [OF inv s] by (simp add: sem_ok_def)
  then show ?thesis using sem_release_count [OF _ Nil] sys_available [OF inv s Nil] by blast
next
  case (Cons t q)
  note i = sys_invD [OF inv]
  obtain k' where k': "rt_sem_release s k = Some (RT_EOK, k')" "kinv (rt_tick k) k'" "kframe k k'" "sem_ok k' s"
    "tstat k' t \<in> {RT_THREAD_READY, RT_THREAD_RUNNING}" "\<forall>u. u \<noteq> t \<longrightarrow> stat_moved k k' u"
    "\<forall>h. is_wait h \<longrightarrow> h \<noteq> Waiters s \<longrightarrow> tlists k' h = tlists k h" "scheduler_lock_nest k = 0 \<longrightarrow> top_running k'"
    using sem_release_wakes [OF i(1) i(7) [OF s] Cons i(9)] by blast
  have top: "top_running k'" using k'(8) i(5) by blast
  have mv: "stat_moved k k' idle" using k'(5,6) i(6) by (cases "idle = t") (auto simp: stat_moved_def)
  have "sem_ok k' u" if u: "u \<in> S" for u
  proof (cases "u = s")
    case False
    then have "tlists k' (Waiters u) = tlists k (Waiters u)" using k'(7) by simp
    then show ?thesis by (intro sem_ok_kframe [OF i(7) [OF u] k'(3)]) simp
  qed (use k'(4) in simp)
  then have "sys_inv app S idle k'" using sys_step [OF inv k'(2,3) top mv] by simp
  with k'(1) show ?thesis by blast
qed

lemma sys_schedule:
  assumes inv: "sys_inv app S idle k"
  shows "\<exists>k'. rt_schedule k = Some k' \<and> sys_inv app S idle k'"
proof -
  note i = sys_invD [OF inv]
  obtain k' where k': "rt_schedule k = Some k'" "kinv (rt_tick k) k'" "kframe k k'" "stat_moves k k'"
    "scheduler_lock_nest k = 0 \<and>
       (tstat k (rt_current_thread k) = RT_THREAD_RUNNING \<or> (\<exists>t. on_ready k t)) \<longrightarrow> top_running k'"
    "\<forall>x. tlists k' (Waiters x) = tlists k (Waiters x)"
    using kinv_schedule [OF i(1,9)] by auto
  have top: "top_running k'" using k'(5) i(5,8) by blast
  have "sem_ok k' s" if s: "s \<in> S" for s by (rule sem_ok_kframe [OF i(7) [OF s] k'(3)]) (simp add: k'(6))
  then have "sys_inv app S idle k'" using sys_step [OF inv k'(2,3) top] stat_moves_moved [OF k'(4)] by simp
  with k'(1) show ?thesis by blast
qed

lemma sys_sleep:
  assumes inv: "sys_inv app S idle k" and n: "n < 0x7fffffff" and ne: "rt_current_thread k \<noteq> idle"
  shows "\<exists>k'. rt_thread_sleep n k = Some k' \<and> sys_inv app S idle k'"
proof -
  note i = sys_invD [OF inv]
  let ?c = "rt_current_thread k"
  have cr: "tstat k ?c \<in> {RT_THREAD_READY, RT_THREAD_RUNNING}" using i(8) by simp
  obtain k1 where k1: "rt_thread_suspend ?c k = Some (RT_EOK, k1)" "kinv (rt_tick k) k1" "kframe k k1"
    "tstat k1 ?c = RT_THREAD_SUSPEND" "\<forall>u. u \<noteq> ?c \<longrightarrow> tstat k1 u = tstat k u"
    "tlists k1 = fam_remove ?c (tlists k)" "rt_current_thread k1 = ?c"
    using suspend_ok [OF i(1) cr] by blast
  obtain k2 where k2: "arm_timer ?c n k1 = Some k2" "kinv (rt_tick k) k2" "kframe k1 k2" "threads k2 = threads k1"
    "tlists k2 = tlists k1" "rt_current_thread k2 = ?c"
    using arm_ok [OF k1(2,4) n] k1(7) by auto
  have st: "tstat k2 u = (if u = ?c then RT_THREAD_SUSPEND else tstat k u)" for u
    using k1(4,5) k2(4) by (simp add: tstat_def)
  have cn: "rt_current_thread k2 \<noteq> RT_NULL" using k2(6) i(9) by simp
  obtain k3 where k3: "rt_schedule k2 = Some k3" "kinv (rt_tick k) k3" "kframe k2 k3" "stat_moves k2 k3"
    "scheduler_lock_nest k2 = 0 \<and>
       (tstat k2 (rt_current_thread k2) = RT_THREAD_RUNNING \<or> (\<exists>t. on_ready k2 t)) \<longrightarrow> top_running k3"
    "\<forall>x. tlists k3 (Waiters x) = tlists k2 (Waiters x)"
    using kinv_schedule [OF k2(2) cn] by auto
  have fr: "kframe k k3" using kframe_trans [OF kframe_trans [OF k1(3) k2(3)] k3(3)] .
  have id: "tstat k2 idle = tstat k idle" using st ne by simp
  have "on_ready k2 idle"
    by (rule idle_on_ready [OF kinvD(1) [OF k2(2)]]) (use id i(6) k2(6) ne in auto)
  then have top: "top_running k3"
    using k3(5) i(5) kframe_fields(2) [OF kframe_trans [OF k1(3) k2(3)]] by auto
  have mv: "stat_moved k k3 idle"
    using stat_moves_moved [OF k3(4), of idle] id by (simp add: stat_moved_def)
  have "sem_ok k3 s" if s: "s \<in> S" for s
    by (rule sem_ok_kframe [OF i(7) [OF s] fr]) (auto simp: k3(6) k2(5) k1(6) fam_remove_def)
  then have "sys_inv app S idle k3" using sys_step [OF inv k3(2) fr top mv] by simp
  moreover have "is_class k ?c RT_Object_Class_Thread"
    using own_timerD(1) [OF kinvD(3) [OF i(1), of ?c]] i(8) by (simp add: live_def)
  then have "rt_thread_sleep n k = Some k3"
    using i(9) k1(1) k2(1) k3(1) by (simp add: rt_thread_sleep_def rt_thread_self_def is_class_def Let_def)
  ultimately show ?thesis by blast
qed

lemma sys_exec:
  assumes inv: "sys_inv app S idle k" and a: "allowed S idle e k"
  shows "\<exists>k'. exec app e k = Some k' \<and> sys_inv app S idle k'"
proof (cases e)
  case Tick
  then show ?thesis using sys_tick [OF inv] by (simp add: exec_def)
next
  case (Sem_take s time)
  then show ?thesis using sys_take [OF inv, of s time] a by (auto simp: exec_def allowed_def)
next
  case (Sem_trytake s)
  then show ?thesis using sys_trytake [OF inv, of s] a by (auto simp: exec_def allowed_def)
next
  case (Sem_release s)
  then show ?thesis using sys_release [OF inv, of s] a by (auto simp: exec_def allowed_def)
next
  case (Sleep n)
  then show ?thesis using sys_sleep [OF inv, of n] a by (simp add: exec_def allowed_def)
next
  case Yield
  then show ?thesis using sys_schedule [OF inv] by (auto simp: exec_def rt_thread_yield_def)
qed

lemma runs_inv:
  assumes "runs app S idle k es k'" "sys_inv app S idle k"
  shows "sys_inv app S idle k'"
  using assms
proof (induction rule: runs.induct)
  case (runs_cons e k k' es k'')
  then show ?case using sys_exec [of app S idle k e] by auto
qed

subsection \<open>Reachable states\<close>

text \<open>C2: In every state that is reached from a sound one by clock interrupts and the application's calls, in any
  order and number: the kernel invariant holds, the current thread is running with a priority that
  no ready thread beats, no thread waits for a semaphore that has tokens, and every call the
  application may make, and the clock interrupt, returns instead of halting or looping.\<close>

theorem reachable_states:
  assumes "sys_inv app S idle k" "runs app S idle k es k'"
  shows "kinv (rt_tick k') k' \<and> tstat k' (rt_current_thread k') = RT_THREAD_RUNNING
     \<and> (\<forall>t. tstat k' t = RT_THREAD_READY \<longrightarrow> tprio k' (rt_current_thread k') \<le> tprio k' t)
     \<and> (\<forall>s \<in> S. 0 < sem_value (sems k' s) \<longrightarrow> tlists k' (Waiters s) = [])
     \<and> (\<forall>e. allowed S idle e k' \<longrightarrow> (\<exists>k''. exec app e k' = Some k''))"
proof -
  have inv: "sys_inv app S idle k'" by (rule runs_inv [OF assms(2,1)])
  show ?thesis
    using sys_invD(1,3) [OF inv] sys_invD(7) [OF inv] sys_exec [OF inv] unfolding top_running_def sem_ok_def by blast
qed

lemma demo_sys: "sys_inv app {20, 21} 2 demo"
proof -
  have "is_class demo x RT_Object_Class_Timer \<Longrightarrow> tm_func (timers demo x) = Rt_thread_timeout
      \<and> flag (objs demo x) AND RT_TIMER_FLAG_PERIODIC = 0" for x
    by (auto simp: is_class_def demo_def ex_obj_def ex_timer_def split: if_splits)
  then have "timers_ok app demo" by (simp add: timers_ok_def)
  moreover have "sem_ok demo s" if "s \<in> {20, 21}" for s
    using that by (auto simp: sem_ok_def is_class_def demo_def ex_obj_def)
  moreover have "top_running demo" by (auto simp: top_running_def demo_stat)
  ultimately show ?thesis using demo_kinv by (simp add: sys_inv_def demo_stat)
qed

theorem reachable_states_witness:
  "\<exists>k'. runs (\<lambda>_ _. Some) {20, 21} 2 demo [Sem_release 20, Tick] k'
     \<and> tstat k' (rt_current_thread k') = RT_THREAD_RUNNING \<and> (\<exists>k''. exec (\<lambda>_ _. Some) Yield k' = Some k'')"
proof -
  let ?app = "\<lambda>_ _. Some"
  obtain k1 where k1: "exec ?app (Sem_release 20) demo = Some k1" "sys_inv ?app {20, 21} 2 k1"
    using sys_exec [OF demo_sys, of "Sem_release 20" ?app] by (auto simp: allowed_def)
  obtain k2 where k2: "exec ?app Tick k1 = Some k2" using sys_exec [OF k1(2), of Tick] by (auto simp: allowed_def)
  have r: "runs ?app {20, 21} 2 demo [Sem_release 20, Tick] k2" using k1(1) k2 by (simp add: allowed_def)
  show ?thesis using r reachable_states [OF demo_sys r] by (auto simp: allowed_def)
qed

end
