(* ===== verification/RT_Device.thy ===== *)
theory RT_Device
  imports RT_Example
begin

text \<open>
  The device layer (\<^verbatim>\<open>src/device.c\<close>): named devices, opened and closed by reference count, whose
  operations are dispatched to the functions of a driver. The drivers are not part of the kernel:
  a driver function is found by its address, and what it does is an argument (\<open>driver\<close>).
\<close>

subsection \<open>State\<close>

record rt_device =
  dev_type :: nat
  dev_flag :: u16
  open_flag :: u16
  ref_count :: u8
  device_id :: u8
  rx_indicate :: ptr
  tx_complete :: ptr
  device_init :: ptr
  device_open :: ptr
  device_close :: ptr
  device_read :: ptr
  device_write :: ptr
  device_control :: ptr
  dev_user_data :: ptr

record dev_state =
  devices :: "ptr \<Rightarrow> rt_device"
  dk :: kernel

text \<open>
  The driver functions: their first argument is the address of the function, the second the device.
  A driver may keep data of its own; it extends the state record.
\<close>

record 'z driver =
  init_call :: "ptr \<Rightarrow> ptr \<Rightarrow> 'z dev_state_scheme \<Rightarrow> (err \<times> 'z dev_state_scheme) option"
  open_call :: "ptr \<Rightarrow> ptr \<Rightarrow> u16 \<Rightarrow> 'z dev_state_scheme \<Rightarrow> (err \<times> 'z dev_state_scheme) option"
  close_call :: "ptr \<Rightarrow> ptr \<Rightarrow> 'z dev_state_scheme \<Rightarrow> (err \<times> 'z dev_state_scheme) option"
  transfer_call :: "ptr \<Rightarrow> ptr \<Rightarrow> int \<Rightarrow> ptr \<Rightarrow> u32 \<Rightarrow> 'z dev_state_scheme \<Rightarrow> (u32 \<times> 'z dev_state_scheme) option"
  control_call :: "ptr \<Rightarrow> ptr \<Rightarrow> int \<Rightarrow> ptr \<Rightarrow> 'z dev_state_scheme \<Rightarrow> (err \<times> 'z dev_state_scheme) option"

abbreviation (input) RT_DEVICE_FLAG_STANDALONE :: u16 where "RT_DEVICE_FLAG_STANDALONE \<equiv> 0x008"
abbreviation (input) RT_DEVICE_FLAG_ACTIVATED :: u16 where "RT_DEVICE_FLAG_ACTIVATED \<equiv> 0x010"
abbreviation (input) RT_DEVICE_FLAG_STREAM :: u16 where "RT_DEVICE_FLAG_STREAM \<equiv> 0x040"
abbreviation (input) RT_DEVICE_OFLAG_CLOSE :: u16 where "RT_DEVICE_OFLAG_CLOSE \<equiv> 0x000"
abbreviation (input) RT_DEVICE_OFLAG_OPEN :: u16 where "RT_DEVICE_OFLAG_OPEN \<equiv> 0x008"
abbreviation (input) RT_DEVICE_OFLAG_MASK :: u16 where "RT_DEVICE_OFLAG_MASK \<equiv> 0xf0f"

definition upd_dev :: "ptr \<Rightarrow> (rt_device \<Rightarrow> rt_device) \<Rightarrow> 'z dev_state_scheme \<Rightarrow> 'z dev_state_scheme" where
  "upd_dev d f s = s\<lparr>devices := (devices s)(d := f (devices s d))\<rparr>"

subsection \<open>Registration\<close>

text \<open>Before the first thread runs, the scheduler is not locked for the search.\<close>

definition rt_device_find :: "string \<Rightarrow> kernel \<Rightarrow> (ptr \<times> kernel) option" where
  "rt_device_find nm k = do {
     let lock = (rt_thread_self k \<noteq> RT_NULL);
     let k = (if lock then rt_enter_critical k else k);
     information \<leftarrow> rt_object_get_information RT_Object_Class_Device;
     let object = (case find (\<lambda>ob. rt_strncmp (name (objs k ob)) nm RT_NAME_MAX = 0) (object_list k information) of
        None \<Rightarrow> RT_NULL | Some ob \<Rightarrow> ob);
     k \<leftarrow> (if lock then rt_exit_critical k else Some k);
     Some (object, k)
   }"

definition rt_device_register :: "ptr \<Rightarrow> string \<Rightarrow> u16 \<Rightarrow> 'z dev_state_scheme \<Rightarrow> (err \<times> 'z dev_state_scheme) option" where
  "rt_device_register dev nm flags s =
     (if dev = RT_NULL then Some (- RT_ERROR, s)
      else do {
        (found, k) \<leftarrow> rt_device_find nm (dk s);
        let s = s\<lparr>dk := k\<rparr>;
        if found \<noteq> RT_NULL then Some (- RT_ERROR, s)
        else do {
          k \<leftarrow> rt_object_init dev RT_Object_Class_Device nm (dk s);
          Some (RT_EOK, upd_dev dev (\<lambda>d. d\<lparr>dev_flag := flags, ref_count := 0, open_flag := 0\<rparr>) (s\<lparr>dk := k\<rparr>))
        }
      })"

definition rt_device_unregister :: "ptr \<Rightarrow> 'z dev_state_scheme \<Rightarrow> (err \<times> 'z dev_state_scheme) option" where
  "rt_device_unregister dev s = do {
     RT_ASSERT (dev \<noteq> RT_NULL);
     ASSERT_TYPE dev RT_Object_Class_Device (dk s);
     ASSERT_SYSTEM dev True (dk s);
     k \<leftarrow> rt_object_detach dev (dk s);
     Some (RT_EOK, s\<lparr>dk := k\<rparr>)
   }"

definition rt_device_init_all :: err where
  "rt_device_init_all = RT_EOK"

text \<open>\<open>dev_bytes\<close> is the size of the structure, which is cleared; the attached data is not.\<close>

definition rt_device_create :: "(u32 \<Rightarrow> kernel \<Rightarrow> ptr \<times> kernel) \<Rightarrow> u32 \<Rightarrow> nat \<Rightarrow> u32 \<Rightarrow> 'z dev_state_scheme \<Rightarrow> ptr \<times> 'z dev_state_scheme" where
  "rt_device_create malloc dev_bytes type attach_size s =
     (let sz = RT_ALIGN dev_bytes RT_ALIGN_SIZE + RT_ALIGN attach_size RT_ALIGN_SIZE;
          (device, k) = malloc sz (dk s);
          s = s\<lparr>dk := k\<rparr>
      in if device \<noteq> RT_NULL then
           (let s = s\<lparr>dk := upd_obj device (\<lambda>_. \<lparr>name = replicate RT_NAME_MAX NUL, otype = 0, flag = 0\<rparr>) (dk s)\<rparr>;
                s = upd_dev device (\<lambda>_. \<lparr>dev_type = type, dev_flag = 0, open_flag = 0, ref_count = 0, device_id = 0,
                  rx_indicate = RT_NULL, tx_complete = RT_NULL, device_init = RT_NULL, device_open = RT_NULL,
                  device_close = RT_NULL, device_read = RT_NULL, device_write = RT_NULL, device_control = RT_NULL,
                  dev_user_data = RT_NULL\<rparr>) s
            in (device, s))
         else (RT_NULL, s))"

definition rt_device_destroy :: "(ptr \<Rightarrow> kernel \<Rightarrow> kernel) \<Rightarrow> ptr \<Rightarrow> 'z dev_state_scheme \<Rightarrow> 'z dev_state_scheme option" where
  "rt_device_destroy free dev s = do {
     RT_ASSERT (dev \<noteq> RT_NULL);
     ASSERT_TYPE dev RT_Object_Class_Device (dk s);
     ASSERT_SYSTEM dev False (dk s);
     k \<leftarrow> rt_object_detach dev (dk s);
     Some (s\<lparr>dk := free dev k\<rparr>)
   }"

subsection \<open>Opening and closing\<close>

definition rt_device_init :: "'z driver \<Rightarrow> ptr \<Rightarrow> 'z dev_state_scheme \<Rightarrow> (err \<times> 'z dev_state_scheme) option" where
  "rt_device_init drv dev s = do {
     RT_ASSERT (dev \<noteq> RT_NULL);
     if device_init (devices s dev) \<noteq> RT_NULL \<and> dev_flag (devices s dev) AND RT_DEVICE_FLAG_ACTIVATED = 0 then do {
       (result, s) \<leftarrow> init_call drv (device_init (devices s dev)) dev s;
       if result \<noteq> RT_EOK then Some (result, s)
       else Some (result, upd_dev dev (\<lambda>d. d\<lparr>dev_flag := dev_flag d OR RT_DEVICE_FLAG_ACTIVATED\<rparr>) s)
     }
     else Some (RT_EOK, s)
   }"

text \<open>The first use of a device initialises it.\<close>

definition open_activate :: "'z driver \<Rightarrow> ptr \<Rightarrow> 'z dev_state_scheme \<Rightarrow> (err \<times> 'z dev_state_scheme) option" where
  "open_activate drv dev s =
     (if dev_flag (devices s dev) AND RT_DEVICE_FLAG_ACTIVATED = 0 then do {
        (result, s) \<leftarrow> (if device_init (devices s dev) \<noteq> RT_NULL
                        then init_call drv (device_init (devices s dev)) dev s else Some (RT_EOK, s));
        if result \<noteq> RT_EOK then Some (result, s)
        else Some (RT_EOK, upd_dev dev (\<lambda>d. d\<lparr>dev_flag := dev_flag d OR RT_DEVICE_FLAG_ACTIVATED\<rparr>) s)
      }
      else Some (RT_EOK, s))"

definition rt_device_open :: "'z driver \<Rightarrow> ptr \<Rightarrow> u16 \<Rightarrow> 'z dev_state_scheme \<Rightarrow> (err \<times> 'z dev_state_scheme) option" where
  "rt_device_open drv dev oflag s = do {
     RT_ASSERT (dev \<noteq> RT_NULL);
     ASSERT_TYPE dev RT_Object_Class_Device (dk s);
     (result, s) \<leftarrow> open_activate drv dev s;
     if result \<noteq> RT_EOK then Some (result, s)
     else if dev_flag (devices s dev) AND RT_DEVICE_FLAG_STANDALONE \<noteq> 0
          \<and> open_flag (devices s dev) AND RT_DEVICE_OFLAG_OPEN \<noteq> 0 then Some (- RT_EBUSY, s)
     else do {
       (result, s) \<leftarrow> (if device_open (devices s dev) \<noteq> RT_NULL
                       then open_call drv (device_open (devices s dev)) dev oflag s
                       else Some (RT_EOK, upd_dev dev (\<lambda>d. d\<lparr>open_flag := oflag AND RT_DEVICE_OFLAG_MASK\<rparr>) s));
       if result = RT_EOK \<or> result = - RT_ENOSYS then do {
         let s = upd_dev dev (\<lambda>d. d\<lparr>open_flag := open_flag d OR RT_DEVICE_OFLAG_OPEN\<rparr>) s;
         let s = upd_dev dev (\<lambda>d. d\<lparr>ref_count := ref_count d + 1\<rparr>) s;
         RT_ASSERT (ref_count (devices s dev) \<noteq> 0);
         Some (result, s)
       }
       else Some (result, s)
     }
   }"

definition rt_device_close :: "'z driver \<Rightarrow> ptr \<Rightarrow> 'z dev_state_scheme \<Rightarrow> (err \<times> 'z dev_state_scheme) option" where
  "rt_device_close drv dev s = do {
     RT_ASSERT (dev \<noteq> RT_NULL);
     ASSERT_TYPE dev RT_Object_Class_Device (dk s);
     if ref_count (devices s dev) = 0 then Some (- RT_ERROR, s)
     else do {
       let s = upd_dev dev (\<lambda>d. d\<lparr>ref_count := ref_count d - 1\<rparr>) s;
       if ref_count (devices s dev) \<noteq> 0 then Some (RT_EOK, s)
       else do {
         (result, s) \<leftarrow> (if device_close (devices s dev) \<noteq> RT_NULL
                         then close_call drv (device_close (devices s dev)) dev s else Some (RT_EOK, s));
         if result = RT_EOK \<or> result = - RT_ENOSYS
         then Some (result, upd_dev dev (\<lambda>d. d\<lparr>open_flag := RT_DEVICE_OFLAG_CLOSE\<rparr>) s)
         else Some (result, s)
       }
     }
   }"

subsection \<open>Transfer and control\<close>

definition rt_device_read :: "'z driver \<Rightarrow> ptr \<Rightarrow> int \<Rightarrow> ptr \<Rightarrow> u32 \<Rightarrow> 'z dev_state_scheme \<Rightarrow> (u32 \<times> 'z dev_state_scheme) option" where
  "rt_device_read drv dev pos buffer sz s = do {
     RT_ASSERT (dev \<noteq> RT_NULL);
     ASSERT_TYPE dev RT_Object_Class_Device (dk s);
     if ref_count (devices s dev) = 0 then Some (0, s\<lparr>dk := rt_set_errno (- RT_ERROR) (dk s)\<rparr>)
     else if device_read (devices s dev) \<noteq> RT_NULL
     then transfer_call drv (device_read (devices s dev)) dev pos buffer sz s
     else Some (0, s\<lparr>dk := rt_set_errno (- RT_ENOSYS) (dk s)\<rparr>)
   }"

definition rt_device_write :: "'z driver \<Rightarrow> ptr \<Rightarrow> int \<Rightarrow> ptr \<Rightarrow> u32 \<Rightarrow> 'z dev_state_scheme \<Rightarrow> (u32 \<times> 'z dev_state_scheme) option" where
  "rt_device_write drv dev pos buffer sz s = do {
     RT_ASSERT (dev \<noteq> RT_NULL);
     ASSERT_TYPE dev RT_Object_Class_Device (dk s);
     if ref_count (devices s dev) = 0 then Some (0, s\<lparr>dk := rt_set_errno (- RT_ERROR) (dk s)\<rparr>)
     else if device_write (devices s dev) \<noteq> RT_NULL
     then transfer_call drv (device_write (devices s dev)) dev pos buffer sz s
     else Some (0, s\<lparr>dk := rt_set_errno (- RT_ENOSYS) (dk s)\<rparr>)
   }"

definition rt_device_control :: "'z driver \<Rightarrow> ptr \<Rightarrow> int \<Rightarrow> ptr \<Rightarrow> 'z dev_state_scheme \<Rightarrow> (err \<times> 'z dev_state_scheme) option" where
  "rt_device_control drv dev cmd arg s = do {
     RT_ASSERT (dev \<noteq> RT_NULL);
     ASSERT_TYPE dev RT_Object_Class_Device (dk s);
     if device_control (devices s dev) \<noteq> RT_NULL then control_call drv (device_control (devices s dev)) dev cmd arg s
     else Some (- RT_ENOSYS, s)
   }"

definition rt_device_set_rx_indicate :: "ptr \<Rightarrow> ptr \<Rightarrow> 'z dev_state_scheme \<Rightarrow> (err \<times> 'z dev_state_scheme) option" where
  "rt_device_set_rx_indicate dev rx_ind s = do {
     RT_ASSERT (dev \<noteq> RT_NULL);
     ASSERT_TYPE dev RT_Object_Class_Device (dk s);
     Some (RT_EOK, upd_dev dev (\<lambda>d. d\<lparr>rx_indicate := rx_ind\<rparr>) s)
   }"

definition rt_device_set_tx_complete :: "ptr \<Rightarrow> ptr \<Rightarrow> 'z dev_state_scheme \<Rightarrow> (err \<times> 'z dev_state_scheme) option" where
  "rt_device_set_tx_complete dev tx_done s = do {
     RT_ASSERT (dev \<noteq> RT_NULL);
     ASSERT_TYPE dev RT_Object_Class_Device (dk s);
     Some (RT_EOK, upd_dev dev (\<lambda>d. d\<lparr>tx_complete := tx_done\<rparr>) s)
   }"

subsection \<open>Reference counting\<close>

text \<open>
  The contract between the device layer and a driver: as long as the invariant \<open>inv\<close> of the driver holds, which
  does not depend on the bookkeeping of the device layer, its functions return, keep the invariant, and
  leave the count of users alone, which belongs to the device layer. The open function may set the open flags; if it fails
  it leaves the bit \<^verbatim>\<open>RT_DEVICE_OFLAG_OPEN\<close> as it was, like the other functions. The close function is
  called only when the last user is gone.
\<close>

definition keeps :: "ptr \<Rightarrow> 'z dev_state_scheme \<Rightarrow> 'z dev_state_scheme \<Rightarrow> bool" where
  "keeps dev s s' \<longleftrightarrow> ref_count (devices s' dev) = ref_count (devices s dev)"

definition keeps_open :: "ptr \<Rightarrow> 'z dev_state_scheme \<Rightarrow> 'z dev_state_scheme \<Rightarrow> bool" where
  "keeps_open dev s s' \<longleftrightarrow> keeps dev s s'
     \<and> open_flag (devices s' dev) AND RT_DEVICE_OFLAG_OPEN = open_flag (devices s dev) AND RT_DEVICE_OFLAG_OPEN"

definition marked_open :: "ptr \<Rightarrow> 'z dev_state_scheme \<Rightarrow> bool" where
  "marked_open dev s \<longleftrightarrow> open_flag (devices s dev) AND RT_DEVICE_OFLAG_OPEN \<noteq> 0"

lemma upd_dev_simps [simp]:
  "devices (upd_dev d f s) = (devices s)(d := f (devices s d))" "dk (upd_dev d f s) = dk s"
  by (simp_all add: upd_dev_def)

lemma open_bit [simp]: "(x OR 8) AND 8 = (8 :: u16)"
  by (rule bit_word_eqI) (auto simp: bit_simps)

lemma count_up: "(w :: u8) \<noteq> 0xff \<Longrightarrow> w + 1 \<noteq> 0"
proof
  assume "w \<noteq> 0xff" "w + 1 = 0"
  then have "w = - 1" by (simp add: eq_neg_iff_add_eq_0)
  with \<open>w \<noteq> 0xff\<close> show False by simp
qed

locale device_driver =
  fixes drv :: "'z driver" and dev :: ptr and inv :: "'z dev_state_scheme \<Rightarrow> bool"
  assumes inv_device: "inv s \<Longrightarrow> is_class (dk s) dev RT_Object_Class_Device"
    and inv_activated: "inv s \<Longrightarrow> inv (upd_dev dev (\<lambda>d. d\<lparr>dev_flag := dev_flag d OR RT_DEVICE_FLAG_ACTIVATED\<rparr>) s)"
    and inv_open_flag: "inv s \<Longrightarrow> inv (upd_dev dev (\<lambda>d. d\<lparr>open_flag := f d\<rparr>) s)"
    and inv_count: "inv s \<Longrightarrow> inv (upd_dev dev (\<lambda>d. d\<lparr>ref_count := g d\<rparr>) s)"
    and init_returns: "inv s \<Longrightarrow> device_init (devices s dev) \<noteq> RT_NULL \<Longrightarrow>
      \<exists>e s'. init_call drv (device_init (devices s dev)) dev s = Some (e, s') \<and> inv s' \<and> keeps_open dev s s'"
    and open_returns: "inv s \<Longrightarrow> device_open (devices s dev) \<noteq> RT_NULL \<Longrightarrow>
      \<exists>e s'. open_call drv (device_open (devices s dev)) dev oflag s = Some (e, s') \<and> inv s' \<and> keeps dev s s'
         \<and> (e = RT_EOK \<or> e = - RT_ENOSYS \<or> keeps_open dev s s')"
    and close_returns: "inv s \<Longrightarrow> device_close (devices s dev) \<noteq> RT_NULL \<Longrightarrow> ref_count (devices s dev) = 0 \<Longrightarrow>
      \<exists>e s'. close_call drv (device_close (devices s dev)) dev s = Some (e, s') \<and> inv s' \<and> keeps_open dev s s'"
begin

lemma activate_ok:
  assumes "inv s"
  shows "\<exists>e s'. open_activate drv dev s = Some (e, s') \<and> inv s' \<and> keeps_open dev s s'"
proof (cases "device_init (devices s dev) = RT_NULL")
  case True
  then show ?thesis using assms inv_activated [OF assms] by (auto simp: open_activate_def keeps_open_def keeps_def)
next
  case False
  obtain e s' where "init_call drv (device_init (devices s dev)) dev s = Some (e, s')" "inv s'" "keeps_open dev s s'"
    using init_returns [OF assms False] by blast
  then show ?thesis using assms False inv_activated [of s'] by (auto simp: open_activate_def keeps_open_def keeps_def)
qed

text \<open>A device with users is marked open: opening and closing keep this, whatever the driver returns.\<close>

lemma open_ok:
  assumes "inv s" "ref_count (devices s dev) \<noteq> 0 \<longrightarrow> marked_open dev s" "ref_count (devices s dev) \<noteq> 0xff"
  shows "\<exists>e s'. rt_device_open drv dev oflag s = Some (e, s') \<and> inv s' \<and> (ref_count (devices s' dev) \<noteq> 0 \<longrightarrow> marked_open dev s')
     \<and> (ref_count (devices s' dev) = ref_count (devices s dev) + 1 \<and> (e = RT_EOK \<or> e = - RT_ENOSYS)
        \<or> ref_count (devices s' dev) = ref_count (devices s dev) \<and> e \<noteq> RT_EOK)"
proof -
  obtain e1 s1 where s1: "open_activate drv dev s = Some (e1, s1)" "inv s1" "keeps_open dev s s1"
    using activate_ok [OF assms(1)] by blast
  have r1: "ref_count (devices s1 dev) = ref_count (devices s dev)" "marked_open dev s1 = marked_open dev s"
    using s1(3) by (simp_all add: keeps_open_def keeps_def marked_open_def)
  obtain e2 s2 where s2: "(if device_open (devices s1 dev) \<noteq> RT_NULL
        then open_call drv (device_open (devices s1 dev)) dev oflag s1
        else Some (RT_EOK, upd_dev dev (\<lambda>d. d\<lparr>open_flag := oflag AND RT_DEVICE_OFLAG_MASK\<rparr>) s1)) = Some (e2, s2)"
    "inv s2" "keeps dev s1 s2" "e2 = RT_EOK \<or> e2 = - RT_ENOSYS \<or> keeps_open dev s1 s2"
    using open_returns [OF s1(2), of oflag] inv_open_flag [OF s1(2)] by (cases "device_open (devices s1 dev) = RT_NULL") (auto simp: keeps_def)
  let ?s3 = "upd_dev dev (\<lambda>d. d\<lparr>ref_count := ref_count d + 1\<rparr>) (upd_dev dev (\<lambda>d. d\<lparr>open_flag := open_flag d OR RT_DEVICE_OFLAG_OPEN\<rparr>) s2)"
  have r2: "ref_count (devices s2 dev) = ref_count (devices s dev)" "ref_count (devices s2 dev) + 1 \<noteq> 0"
    using s2(3) r1(1) count_up [OF assms(3)] by (simp_all add: keeps_def)
  have i3: "inv ?s3" by (rule inv_count [OF inv_open_flag [OF s2(2)]])
  have "rt_device_open drv dev oflag s =
      (if e1 \<noteq> RT_EOK then Some (e1, s1)
       else if dev_flag (devices s1 dev) AND RT_DEVICE_FLAG_STANDALONE \<noteq> 0 \<and> marked_open dev s1 then Some (- RT_EBUSY, s1)
       else if e2 = RT_EOK \<or> e2 = - RT_ENOSYS then Some (e2, ?s3) else Some (e2, s2))"
    using s1(1) s2(1) inv_device [OF assms(1)] r2(2) by (simp add: rt_device_open_def marked_open_def is_class_def)
  moreover have "e2 \<noteq> RT_EOK \<Longrightarrow> e2 \<noteq> - RT_ENOSYS \<Longrightarrow> marked_open dev s2 = marked_open dev s"
    using s2(4) r1(2) by (auto simp: keeps_open_def marked_open_def)
  ultimately show ?thesis using s1(2) s2(2) i3 r1 r2 assms(2) by (auto simp: marked_open_def)
qed

lemma close_ok:
  assumes "inv s" "ref_count (devices s dev) \<noteq> 0 \<longrightarrow> marked_open dev s"
  shows "\<exists>e s'. rt_device_close drv dev s = Some (e, s') \<and> inv s' \<and> (ref_count (devices s' dev) \<noteq> 0 \<longrightarrow> marked_open dev s')
     \<and> (if ref_count (devices s dev) = 0 then e = - RT_ERROR \<and> s' = s else ref_count (devices s' dev) = ref_count (devices s dev) - 1)
     \<and> (ref_count (devices s dev) = 1 \<and> (e = RT_EOK \<or> e = - RT_ENOSYS) \<longrightarrow> \<not> marked_open dev s')
     \<and> (1 < ref_count (devices s dev) \<longrightarrow> e = RT_EOK)"
proof -
  let ?s1 = "upd_dev dev (\<lambda>d. d\<lparr>ref_count := ref_count d - 1\<rparr>) s"
  have c: "is_class (dk s) dev RT_Object_Class_Device" "dev \<noteq> RT_NULL" using inv_device [OF assms(1)] by (auto simp: is_class_def)
  have i1: "inv ?s1" by (rule inv_count [OF assms(1)])
  consider "ref_count (devices s dev) = 0" | "ref_count (devices s dev) \<noteq> 0" "ref_count (devices s dev) - 1 \<noteq> 0"
    | "ref_count (devices s dev) = 1" by (metis eq_iff_diff_eq_0)
  then show ?thesis
  proof cases
    case 3
    obtain e s2 where s2: "(if device_close (devices s dev) \<noteq> RT_NULL then close_call drv (device_close (devices s dev)) dev ?s1
        else Some (RT_EOK, ?s1)) = Some (e, s2)" "inv s2" "keeps_open dev ?s1 s2"
      using close_returns [OF i1] i1 3 by (cases "device_close (devices s dev) = RT_NULL") (auto simp: keeps_open_def keeps_def)
    have "rt_device_close drv dev s = Some (e, if e = RT_EOK \<or> e = - RT_ENOSYS
        then upd_dev dev (\<lambda>d. d\<lparr>open_flag := RT_DEVICE_OFLAG_CLOSE\<rparr>) s2 else s2)"
      using c 3 s2(1) by (cases "device_close (devices s dev) = RT_NULL") (auto simp: rt_device_close_def Let_def)
    moreover have "inv (upd_dev dev (\<lambda>d. d\<lparr>open_flag := RT_DEVICE_OFLAG_CLOSE\<rparr>) s2)" by (rule inv_open_flag [OF s2(2)])
    ultimately show ?thesis using 3 s2(2,3) by (auto simp: keeps_open_def keeps_def marked_open_def)
  qed (use assms c i1 in \<open>auto simp: rt_device_close_def marked_open_def Let_def\<close>)
qed

end

text \<open>
  A driver whose calls succeed, of a device that may have several users. Over any history of opening and closing the results and
  the number of users are then those of a counter.
\<close>

datatype dev_call = Open_call u16 | Close_call

fun dev_run :: "'z driver \<Rightarrow> ptr \<Rightarrow> dev_call list \<Rightarrow> 'z dev_state_scheme \<Rightarrow> (err list \<times> 'z dev_state_scheme) option" where
  "dev_run drv dev [] s = Some ([], s)"
| "dev_run drv dev (c # cs) s = do {
     (e, s) \<leftarrow> (case c of Open_call oflag \<Rightarrow> rt_device_open drv dev oflag s | Close_call \<Rightarrow> rt_device_close drv dev s);
     (es, s) \<leftarrow> dev_run drv dev cs s;
     Some (e # es, s)
   }"

text \<open>The counter: the results of the calls, and the number of users after them.\<close>

fun count_run :: "dev_call list \<Rightarrow> nat \<Rightarrow> err list \<times> nat" where
  "count_run [] n = ([], n)"
| "count_run (Open_call oflag # cs) n = (let (es, m) = count_run cs (n + 1) in (RT_EOK # es, m))"
| "count_run (Close_call # cs) n = (let (es, m) = count_run cs (n - 1) in ((if n = 0 then - RT_ERROR else RT_EOK) # es, m))"

definition opens :: "dev_call list \<Rightarrow> nat" where
  "opens cs = length (filter (\<lambda>c. c \<noteq> Close_call) cs)"

locale reliable_driver = device_driver +
  assumes shared: "inv s \<Longrightarrow> dev_flag (devices s dev) AND RT_DEVICE_FLAG_STANDALONE = 0"
    and init_eok: "inv s \<Longrightarrow> device_init (devices s dev) \<noteq> RT_NULL \<Longrightarrow>
      init_call drv (device_init (devices s dev)) dev s = Some (e, s') \<Longrightarrow> e = RT_EOK"
    and open_eok: "inv s \<Longrightarrow> device_open (devices s dev) \<noteq> RT_NULL \<Longrightarrow>
      open_call drv (device_open (devices s dev)) dev oflag s = Some (e, s') \<Longrightarrow> e = RT_EOK"
    and close_eok: "inv s \<Longrightarrow> device_close (devices s dev) \<noteq> RT_NULL \<Longrightarrow> ref_count (devices s dev) = 0 \<Longrightarrow>
      close_call drv (device_close (devices s dev)) dev s = Some (e, s') \<Longrightarrow> e = RT_EOK"
begin

lemma open_reliable:
  assumes "inv s" "ref_count (devices s dev) \<noteq> 0 \<longrightarrow> marked_open dev s" "ref_count (devices s dev) \<noteq> 0xff"
  shows "\<exists>s'. rt_device_open drv dev oflag s = Some (RT_EOK, s') \<and> inv s' \<and> marked_open dev s'
     \<and> ref_count (devices s' dev) = ref_count (devices s dev) + 1"
proof -
  obtain e s' where s': "rt_device_open drv dev oflag s = Some (e, s')" "inv s'" "ref_count (devices s' dev) \<noteq> 0 \<longrightarrow> marked_open dev s'"
    "ref_count (devices s' dev) = ref_count (devices s dev) + 1 \<and> (e = RT_EOK \<or> e = - RT_ENOSYS)
        \<or> ref_count (devices s' dev) = ref_count (devices s dev) \<and> e \<noteq> RT_EOK"
    using open_ok [OF assms, of oflag] by blast
  obtain e1 s1 where s1: "open_activate drv dev s = Some (e1, s1)" "inv s1" using activate_ok [OF assms(1)] by blast
  have "e1 = RT_EOK" using s1(1) init_eok [OF assms(1)]
    by (cases "device_init (devices s dev) = RT_NULL") (auto simp: open_activate_def opt_simps split: if_splits)
  then have "e = RT_EOK"
    using s'(1) s1 shared [OF s1(2)] open_eok [OF s1(2), of oflag] unfolding rt_device_open_def
    by (cases "device_open (devices s1 dev) = RT_NULL") (auto simp: opt_simps Let_def split: if_splits)
  then show ?thesis using s' count_up [OF assms(3)] by auto
qed

lemma close_reliable:
  assumes "inv s" "ref_count (devices s dev) \<noteq> 0 \<longleftrightarrow> marked_open dev s"
  shows "\<exists>s'. rt_device_close drv dev s = Some (if ref_count (devices s dev) = 0 then - RT_ERROR else RT_EOK, s') \<and> inv s'
     \<and> (ref_count (devices s' dev) \<noteq> 0 \<longleftrightarrow> marked_open dev s')
     \<and> ref_count (devices s' dev) = (if ref_count (devices s dev) = 0 then 0 else ref_count (devices s dev) - 1)"
proof -
  let ?r = "ref_count (devices s dev)"
  obtain e s' where s': "rt_device_close drv dev s = Some (e, s')" "inv s'" "ref_count (devices s' dev) \<noteq> 0 \<longrightarrow> marked_open dev s'"
     "if ?r = 0 then e = - RT_ERROR \<and> s' = s else ref_count (devices s' dev) = ?r - 1"
     "?r = 1 \<and> (e = RT_EOK \<or> e = - RT_ENOSYS) \<longrightarrow> \<not> marked_open dev s'" "1 < ?r \<longrightarrow> e = RT_EOK"
    using close_ok [OF assms(1)] assms(2) by blast
  have i1: "inv (upd_dev dev (\<lambda>d. d\<lparr>ref_count := ref_count d - 1\<rparr>) s)" by (rule inv_count [OF assms(1)])
  have "e = RT_EOK" if "?r = 1"
    using s'(1) that close_eok [OF i1] unfolding rt_device_close_def
    by (cases "device_close (devices s dev) = RT_NULL") (auto simp: opt_simps Let_def split: if_splits)
  moreover have "?r = 0 \<or> ?r = 1 \<or> 1 < ?r" by (auto simp: word_less_nat_alt word_unat_eq_iff)
  moreover have "1 < ?r \<Longrightarrow> ?r - 1 \<noteq> 0" by auto
  ultimately show ?thesis using s' assms(2) by auto
qed

lemma count_history:
  assumes "inv s" "ref_count (devices s dev) \<noteq> 0 \<longleftrightarrow> marked_open dev s" "unat (ref_count (devices s dev)) + opens cs \<le> 255"
  shows "\<exists>s'. dev_run drv dev cs s = Some (fst (count_run cs (unat (ref_count (devices s dev)))), s') \<and> inv s'
     \<and> (ref_count (devices s' dev) \<noteq> 0 \<longleftrightarrow> marked_open dev s')
     \<and> unat (ref_count (devices s' dev)) = snd (count_run cs (unat (ref_count (devices s dev))))"
  using assms
proof (induction cs arbitrary: s)
  case (Cons c cs)
  show ?case
  proof (cases c)
    case (Open_call oflag)
    have "unat (ref_count (devices s dev)) < 255" using Cons.prems(3) Open_call by (simp add: opens_def)
    then have r: "ref_count (devices s dev) \<noteq> 0xff" "unat (ref_count (devices s dev) + 1) = unat (ref_count (devices s dev)) + 1"
      using unat_Suc_less [where s = "0xff :: u8" and a = "ref_count (devices s dev)"] by (auto simp: word_less_nat_alt)
    obtain s1 where s1: "rt_device_open drv dev oflag s = Some (RT_EOK, s1)" "inv s1" "marked_open dev s1"
      "ref_count (devices s1 dev) = ref_count (devices s dev) + 1"
      using open_reliable [OF Cons.prems(1) _ r(1), of oflag] Cons.prems(2) by blast
    show ?thesis
      using Cons.IH [OF s1(2)] Cons.prems(3) s1 r(2) count_up [OF r(1)] Open_call by (auto simp: opens_def split: prod.splits)
  next
    case Close_call
    let ?r = "ref_count (devices s dev)"
    obtain s1 where s1: "rt_device_close drv dev s = Some (if ?r = 0 then - RT_ERROR else RT_EOK, s1)" "inv s1"
      "ref_count (devices s1 dev) \<noteq> 0 \<longleftrightarrow> marked_open dev s1" "ref_count (devices s1 dev) = (if ?r = 0 then 0 else ?r - 1)"
      using close_reliable [OF Cons.prems(1,2)] by blast
    have u: "unat (ref_count (devices s1 dev)) = unat ?r - 1"
      using s1(4) by (auto simp: unat_sub word_le_nat_alt unat_gt_0 Suc_leI)
    have "unat (ref_count (devices s1 dev)) + opens cs \<le> 255" using u Cons.prems(3) Close_call by (simp add: opens_def)
    then obtain s' where "dev_run drv dev cs s1 = Some (fst (count_run cs (unat ?r - 1)), s')" "inv s'"
      "ref_count (devices s' dev) \<noteq> 0 \<longleftrightarrow> marked_open dev s'" "unat (ref_count (devices s' dev)) = snd (count_run cs (unat ?r - 1))"
      using Cons.IH [OF s1(2,3)] u by auto
    then show ?thesis using s1(1) Close_call by (intro exI [of _ s']) (simp add: unat_eq_zero case_prod_unfold Let_def)
  qed
qed simp

end

text \<open>
  A stand-alone device whose driver fails to close loses its user but stays marked open: it can
  neither be closed nor opened again.
\<close>

lemma failed_close_blocks:
  assumes "is_class (dk s) dev RT_Object_Class_Device" "ref_count (devices s dev) = 1"
    "open_flag (devices s dev) AND RT_DEVICE_OFLAG_OPEN \<noteq> 0" "device_close (devices s dev) = f" "f \<noteq> RT_NULL"
    "dev_flag (devices s dev) AND RT_DEVICE_FLAG_ACTIVATED \<noteq> 0" "dev_flag (devices s dev) AND RT_DEVICE_FLAG_STANDALONE \<noteq> 0"
    "e \<noteq> RT_EOK" "e \<noteq> - RT_ENOSYS" "\<And>s. close_call drv f dev s = Some (e, s)"
  shows "\<exists>s'. rt_device_close drv dev s = Some (e, s') \<and> rt_device_close drv dev s' = Some (- RT_ERROR, s')
     \<and> rt_device_open drv dev oflag s' = Some (- RT_EBUSY, s')"
  using assms by (simp add: rt_device_close_def rt_device_open_def open_activate_def is_class_def)

subsection \<open>Destroying a device\<close>

lemma object_init_static:
  "rt_object_init object type nm k = Some k' \<Longrightarrow> otype (objs k' object) = type OR RT_Object_Class_Static"
  by (auto simp: rt_object_init_def upd_obj_def Let_def opt_simps)

text \<open>\<^verbatim>\<open>rt_device_destroy\<close> never accepts a device that \<^verbatim>\<open>rt_device_create\<close> made: it demands a device object that
  is not static, but a new device is no device object yet, and registering it makes it a static
  one; in both cases an assertion halts the system.\<close>

lemma device_destroy_halts:
  assumes "rt_device_create malloc n type attach s = (dev, s')" "dev \<noteq> RT_NULL"
  shows "rt_device_destroy free dev s' = None
     \<and> (\<forall>nm flags s''. rt_device_register dev nm flags s' = Some (RT_EOK, s'') \<longrightarrow> rt_device_destroy free dev s'' = None)"
proof
  show "rt_device_destroy free dev s' = None"
    using assms by (auto simp: rt_device_create_def rt_device_destroy_def is_class_def upd_obj_def Let_def split: prod.splits if_splits)
  have "otype (objs (dk s'') dev) AND RT_Object_Class_Static \<noteq> 0"
    if r: "rt_device_register dev nm flags s' = Some (RT_EOK, s'')" for nm flags s''
  proof -
    obtain k k' where "rt_object_init dev RT_Object_Class_Device nm k = Some k'" "dk s'' = k'"
      using r assms(2) by (auto simp: rt_device_register_def Let_def opt_simps split: if_splits)
    then show ?thesis using object_init_static [of dev RT_Object_Class_Device nm k k'] by simp
  qed
  then show "\<forall>nm flags s''. rt_device_register dev nm flags s' = Some (RT_EOK, s'') \<longrightarrow> rt_device_destroy free dev s'' = None"
    by (simp add: rt_device_destroy_def)
qed

end
