(* ===== verification/RT_SList.thy ===== *)
theory RT_SList
  imports RT_List
begin

text \<open>
  The intrusive singly linked list of \<^verbatim>\<open>include/rtservice.h\<close>, at the level of its \<^verbatim>\<open>next\<close> pointers. The
  loops that run to the end of a list are partial functions: on a cyclic list they do not return.
  On a list that ends each operation is the one on sequences that the components use.
\<close>

type_synonym slist_heap = "ptr \<Rightarrow> ptr"

subsection \<open>Operations\<close>

definition rt_slist_init :: "ptr \<Rightarrow> slist_heap \<Rightarrow> slist_heap" where
  "rt_slist_init l h = h(l := RT_NULL)"

partial_function (option) rt_slist_tail :: "ptr \<Rightarrow> slist_heap \<Rightarrow> ptr option" where
  "rt_slist_tail l h = (if h l \<noteq> RT_NULL then rt_slist_tail (h l) h else Some l)"

definition rt_slist_append :: "ptr \<Rightarrow> ptr \<Rightarrow> slist_heap \<Rightarrow> slist_heap option" where
  "rt_slist_append l n h = do {
     node \<leftarrow> rt_slist_tail l h;
     Some ((h(node := n))(n := RT_NULL))
   }"

definition rt_slist_insert :: "ptr \<Rightarrow> ptr \<Rightarrow> slist_heap \<Rightarrow> slist_heap" where
  "rt_slist_insert l n h = (let h = h(n := h l) in h(l := n))"

partial_function (option) slist_count :: "ptr \<Rightarrow> nat \<Rightarrow> slist_heap \<Rightarrow> nat option" where
  "slist_count p len h = (if p \<noteq> RT_NULL then slist_count (h p) (len + 1) h else Some len)"

definition rt_slist_len :: "ptr \<Rightarrow> slist_heap \<Rightarrow> nat option" where
  "rt_slist_len l h = slist_count (h l) 0 h"

partial_function (option) slist_before :: "ptr \<Rightarrow> ptr \<Rightarrow> slist_heap \<Rightarrow> ptr option" where
  "slist_before p n h = (if h p \<noteq> RT_NULL \<and> h p \<noteq> n then slist_before (h p) n h else Some p)"

definition rt_slist_remove :: "ptr \<Rightarrow> ptr \<Rightarrow> slist_heap \<Rightarrow> slist_heap option" where
  "rt_slist_remove l n h = do {
     node \<leftarrow> slist_before l n h;
     Some (if h node \<noteq> RT_NULL then h(node := h (h node)) else h)
   }"

definition rt_slist_first :: "ptr \<Rightarrow> slist_heap \<Rightarrow> ptr" where
  "rt_slist_first l h = h l"

definition rt_slist_next :: "ptr \<Rightarrow> slist_heap \<Rightarrow> ptr" where
  "rt_slist_next n h = h n"

definition rt_slist_isempty :: "ptr \<Rightarrow> slist_heap \<Rightarrow> bool" where
  "rt_slist_isempty l h \<longleftrightarrow> h l = RT_NULL"

subsection \<open>The list at a head\<close>

text \<open>From node \<open>p\<close> the pointers lead through \<open>xs\<close> and end.\<close>

fun spath :: "slist_heap \<Rightarrow> ptr \<Rightarrow> ptr list \<Rightarrow> bool" where
  "spath h p [] \<longleftrightarrow> h p = RT_NULL"
| "spath h p (x # xs) \<longleftrightarrow> x \<noteq> RT_NULL \<and> h p = x \<and> spath h x xs"

definition slist :: "slist_heap \<Rightarrow> ptr \<Rightarrow> ptr list \<Rightarrow> bool" where
  "slist h l xs \<longleftrightarrow> spath h l xs \<and> distinct (l # xs)"

lemma spath_frame: "q \<noteq> p \<Longrightarrow> q \<notin> set xs \<Longrightarrow> spath (h(q := v)) p xs = spath h p xs"
  by (induction h p xs rule: spath.induct) auto

lemma spath_append: "spath h p (xs @ y # ys) \<longleftrightarrow> y \<noteq> RT_NULL \<and> spath (h(last (p # xs) := RT_NULL)) p xs
     \<and> h (last (p # xs)) = y \<and> spath h y ys" if "distinct (p # xs)"
  using that
proof (induction h p xs rule: spath.induct)
  case (2 h p x xs)
  have "p \<noteq> last (x # xs)" using 2(2) by (metis distinct.simps(2) last_in_set list.distinct(1))
  then show ?case using 2 by auto
qed auto

lemma tail_ok: "spath h p xs \<Longrightarrow> rt_slist_tail p h = Some (last (p # xs))"
  by (induction h p xs rule: spath.induct) (subst rt_slist_tail.simps, simp)+

lemma count_ok: "spath h p xs \<Longrightarrow> slist_count (h p) n h = Some (n + length xs)"
proof (induction h p xs arbitrary: n rule: spath.induct)
  case (2 h p x xs)
  then show ?case by (subst slist_count.simps) simp
qed (subst slist_count.simps, simp)

lemma slist_len: "slist h l xs \<Longrightarrow> rt_slist_len l h = Some (length xs)"
  using count_ok [of h l xs 0] by (simp add: slist_def rt_slist_len_def)

lemma slist_init: "slist (rt_slist_init l h) l []"
  by (simp add: slist_def rt_slist_init_def)

lemma slist_insert: "slist h l xs \<Longrightarrow> n \<noteq> RT_NULL \<Longrightarrow> n \<notin> set (l # xs) \<Longrightarrow> slist (rt_slist_insert l n h) l (n # xs)"
  by (cases xs) (auto simp: slist_def rt_slist_insert_def spath_frame)

lemma spath_snoc:
  assumes "spath h p xs" "distinct (p # xs)" "n \<noteq> RT_NULL" "n \<notin> set (p # xs)"
  shows "spath ((h(last (p # xs) := n))(n := RT_NULL)) p (xs @ [n])"
  using assms
proof (induction h p xs rule: spath.induct)
  case (2 h p x xs)
  have "p \<noteq> last (x # xs)" using 2(3) by (metis distinct.simps(2) last_in_set list.distinct(1))
  then show ?case using 2 by auto
qed auto

lemma slist_append:
  assumes "slist h l xs" "n \<noteq> RT_NULL" "n \<notin> set (l # xs)"
  shows "\<exists>h'. rt_slist_append l n h = Some h' \<and> slist h' l (xs @ [n])"
  using assms spath_snoc [of h l xs n] tail_ok [of h l xs] by (auto simp: slist_def rt_slist_append_def)

lemma before_ok:
  assumes "spath h p (xs @ n # ys)" "distinct (p # xs @ n # ys)"
  shows "slist_before p n h = Some (last (p # xs)) \<and> h (last (p # xs)) = n \<and> h n = (case ys of [] \<Rightarrow> RT_NULL | y # _ \<Rightarrow> y)"
  using assms
proof (induction xs arbitrary: p)
  case Nil
  then show ?case by (subst slist_before.simps) (auto split: list.splits)
next
  case (Cons x xs)
  then show ?case by (subst slist_before.simps) auto
qed

lemma before_missing:
  assumes "spath h p xs" "n \<notin> set xs"
  shows "slist_before p n h = Some (last (p # xs)) \<and> h (last (p # xs)) = RT_NULL"
  using assms by (induction xs arbitrary: p) (subst slist_before.simps, auto)+

lemma spath_cut:
  assumes "spath h p (xs @ n # ys)" "distinct (p # xs @ n # ys)"
  shows "spath (h(last (p # xs) := h n)) p (xs @ ys)"
  using assms
proof (induction xs arbitrary: p)
  case Nil
  show ?case
  proof (cases ys)
    case (Cons y list)
    then have "p \<noteq> y" "p \<notin> set list" "spath h y list" "h n = y" "y \<noteq> RT_NULL" using Nil by auto
    then have "spath (h(p := y)) y list" by (simp only: spath_frame simp_thms)
    then show ?thesis using Cons \<open>h n = y\<close> \<open>y \<noteq> RT_NULL\<close> by (simp add: fun_upd_def)
  qed (use Nil in simp)
next
  case (Cons x xs)
  have "p \<noteq> last (x # xs)" using Cons(3) by (metis Un_iff distinct.simps(2) append_Cons last_in_set list.distinct(1) set_append)
  then show ?case using Cons by auto
qed

text \<open>Removing a node that is not in the list changes nothing.\<close>

lemma slist_remove:
  assumes "slist h l xs"
  shows "\<exists>h'. rt_slist_remove l n h = Some h' \<and> slist h' l (remove1 n xs)"
proof (cases "n \<in> set xs")
  case True
  then obtain as bs where xs: "xs = as @ n # bs" "n \<notin> set as" by (metis split_list_first)
  have "spath h l (as @ n # bs)" "distinct (l # as @ n # bs)" "n \<noteq> RT_NULL"
    using assms xs unfolding slist_def by (auto dest: spath_append [THEN iffD1, rotated])
  then show ?thesis
    using before_ok [of h l as n bs] spath_cut [of h l as n bs] xs
    by (auto simp: rt_slist_remove_def slist_def remove1_append)
next
  case False
  then show ?thesis
    using assms before_missing [of h l xs n] by (auto simp: rt_slist_remove_def slist_def remove1_idem)
qed

end
