(* ===== verification/RT_RingBlk.thy ===== *)
theory RT_RingBlk
  imports RT_SList RT_Kernel
begin

text \<open>
  The ring block buffer of the device drivers (\<^verbatim>\<open>components/drivers/src/ringblk_buf.c\<close>): blocks of any
  size are cut out of one buffer in ring order, filled, put, got and freed. The blocks are
  described by an array of structures; the ones in use are on a singly linked list, which is a
  sequence here (the operations on it are those of \<open>RT_SList\<close>).
\<close>

subsection \<open>State\<close>

datatype rt_rbb_status = RT_RBB_BLK_UNUSED | RT_RBB_BLK_INITED | RT_RBB_BLK_PUT | RT_RBB_BLK_GET

record rt_rbb_blk =
  blk_status :: rt_rbb_status
  blk_size :: u32
  blk_buf :: ptr

record rt_rbb =
  rbb_buf :: ptr
  buf_size :: u32
  blk_set :: ptr
  blk_max_num :: u32
  blk_list :: "ptr list"
  blks :: "ptr \<Rightarrow> rt_rbb_blk"

record rt_rbb_blk_queue =
  q_blocks :: ptr
  q_blk_num :: u32

abbreviation (input) SIZEOF_RBB_BLK :: nat where "SIZEOF_RBB_BLK \<equiv> 12"

definition upd_blk :: "ptr \<Rightarrow> (rt_rbb_blk \<Rightarrow> rt_rbb_blk) \<Rightarrow> rt_rbb \<Rightarrow> rt_rbb" where
  "upd_blk b f r = r\<lparr>blks := (blks r)(b := f (blks r b))\<rparr>"

text \<open>The structure at an index of an array of blocks.\<close>

definition blk_at :: "ptr \<Rightarrow> nat \<Rightarrow> ptr" where
  "blk_at blocks i = blocks + SIZEOF_RBB_BLK * i"

subsection \<open>Operations\<close>

definition rt_rbb_init :: "ptr \<Rightarrow> ptr \<Rightarrow> u32 \<Rightarrow> ptr \<Rightarrow> u32 \<Rightarrow> rt_rbb \<Rightarrow> rt_rbb option" where
  "rt_rbb_init rbb buf bsz block_set max_num r = do {
     RT_ASSERT (rbb \<noteq> RT_NULL);
     RT_ASSERT (buf \<noteq> RT_NULL);
     RT_ASSERT (block_set \<noteq> RT_NULL);
     let r = r\<lparr>rbb_buf := buf, buf_size := bsz, blk_set := block_set, blk_max_num := max_num, blk_list := []\<rparr>;
     Some (fold (\<lambda>i. upd_blk (blk_at block_set i) (\<lambda>b. b\<lparr>blk_status := RT_RBB_BLK_UNUSED\<rparr>)) [0..<unat max_num] r)
   }"

text \<open>\<open>rbb_bytes\<close> is the size of the structure \<^verbatim>\<open>rt_rbb\<close>.\<close>

definition rt_rbb_create ::
  "(u32 \<Rightarrow> 'h \<Rightarrow> ptr \<times> 'h) \<Rightarrow> (ptr \<Rightarrow> 'h \<Rightarrow> 'h) \<Rightarrow> u32 \<Rightarrow> u32 \<Rightarrow> u32 \<Rightarrow> rt_rbb \<Rightarrow> 'h \<Rightarrow> (ptr \<times> rt_rbb \<times> 'h) option" where
  "rt_rbb_create malloc free rbb_bytes bsz max_num r h = do {
     let (rbb, h) = malloc rbb_bytes h;
     if rbb = RT_NULL then Some (RT_NULL, r, h)
     else do {
       let (buf, h) = malloc bsz h;
       if buf = RT_NULL then Some (RT_NULL, r, free rbb h)
       else do {
         let (set', h) = malloc (of_nat SIZEOF_RBB_BLK * max_num) h;
         if set' = RT_NULL then Some (RT_NULL, r, free rbb (free buf h))
         else do {
           r \<leftarrow> rt_rbb_init rbb buf bsz set' max_num r;
           Some (rbb, r, h)
         }
       }
     }
   }"

text \<open>The structure is read after it has been freed; the fields are taken to be still there.\<close>

definition rt_rbb_destroy :: "(ptr \<Rightarrow> 'h \<Rightarrow> 'h) \<Rightarrow> ptr \<Rightarrow> rt_rbb \<Rightarrow> 'h \<Rightarrow> 'h option" where
  "rt_rbb_destroy free rbb r h = do {
     RT_ASSERT (rbb \<noteq> RT_NULL);
     Some (free (blk_set r) (free (rbb_buf r) (free rbb h)))
   }"

definition find_empty_blk_in_set :: "rt_rbb \<Rightarrow> ptr option" where
  "find_empty_blk_in_set r = find (\<lambda>b. blk_status (blks r b) = RT_RBB_BLK_UNUSED) (map (blk_at (blk_set r)) [0..<unat (blk_max_num r)])"

text \<open>Addresses are subtracted modulo the word size.\<close>

definition ptr_diff :: "ptr \<Rightarrow> ptr \<Rightarrow> u32" where
  "ptr_diff a b = of_nat a - of_nat b"

definition blk_end :: "rt_rbb \<Rightarrow> ptr \<Rightarrow> ptr" where
  "blk_end r b = blk_buf (blks r b) + unat (blk_size (blks r b))"

definition rbb_place :: "ptr \<Rightarrow> ptr \<Rightarrow> u32 \<Rightarrow> rt_rbb \<Rightarrow> rt_rbb" where
  "rbb_place b buf sz r = (let r = r\<lparr>blk_list := blk_list r @ [b]\<rparr> in
     upd_blk b (\<lambda>x. x\<lparr>blk_status := RT_RBB_BLK_INITED, blk_buf := buf, blk_size := sz\<rparr>) r)"

definition rt_rbb_blk_alloc :: "u32 \<Rightarrow> rt_rbb \<Rightarrow> (ptr \<times> rt_rbb) option" where
  "rt_rbb_blk_alloc sz r = do {
     RT_ASSERT (sz < 2 ^ 24);
     case find_empty_blk_in_set r of
       Some new_rbb \<Rightarrow>
         if of_nat (length (blk_list r)) < blk_max_num r then
           if blk_list r \<noteq> [] then
             (let h = hd (blk_list r); t = last (blk_list r)
              in if blk_buf (blks r h) \<le> blk_buf (blks r t) then
                   (let empty1 = ptr_diff (rbb_buf r + unat (buf_size r)) (blk_end r t);
                        empty2 = ptr_diff (blk_buf (blks r h)) (rbb_buf r)
                    in if empty1 \<ge> sz then Some (new_rbb, rbb_place new_rbb (blk_end r t) sz r)
                       else if empty2 \<ge> sz then Some (new_rbb, rbb_place new_rbb (rbb_buf r) sz r)
                       else Some (RT_NULL, r))
                 else
                   (let empty1 = ptr_diff (blk_buf (blks r h)) (blk_end r t)
                    in if empty1 \<ge> sz then Some (new_rbb, rbb_place new_rbb (blk_end r t) sz r)
                       else Some (RT_NULL, r)))
           else Some (new_rbb, rbb_place new_rbb (rbb_buf r) sz r)
         else Some (RT_NULL, r)
     | None \<Rightarrow> Some (RT_NULL, r)
   }"

definition rt_rbb_blk_put :: "ptr \<Rightarrow> rt_rbb \<Rightarrow> rt_rbb option" where
  "rt_rbb_blk_put b r = do {
     RT_ASSERT (b \<noteq> RT_NULL);
     RT_ASSERT (blk_status (blks r b) = RT_RBB_BLK_INITED);
     Some (upd_blk b (\<lambda>x. x\<lparr>blk_status := RT_RBB_BLK_PUT\<rparr>) r)
   }"

definition rt_rbb_blk_get :: "rt_rbb \<Rightarrow> ptr \<times> rt_rbb" where
  "rt_rbb_blk_get r = (case find (\<lambda>b. blk_status (blks r b) = RT_RBB_BLK_PUT) (blk_list r) of
     None \<Rightarrow> (RT_NULL, r)
   | Some b \<Rightarrow> (b, upd_blk b (\<lambda>x. x\<lparr>blk_status := RT_RBB_BLK_GET\<rparr>) r))"

definition rt_rbb_blk_size :: "ptr \<Rightarrow> rt_rbb \<Rightarrow> u32 option" where
  "rt_rbb_blk_size b r = do { RT_ASSERT (b \<noteq> RT_NULL); Some (blk_size (blks r b)) }"

definition rt_rbb_blk_buf :: "ptr \<Rightarrow> rt_rbb \<Rightarrow> ptr option" where
  "rt_rbb_blk_buf b r = do { RT_ASSERT (b \<noteq> RT_NULL); Some (blk_buf (blks r b)) }"

definition rt_rbb_blk_free :: "ptr \<Rightarrow> rt_rbb \<Rightarrow> rt_rbb option" where
  "rt_rbb_blk_free b r = do {
     RT_ASSERT (b \<noteq> RT_NULL);
     RT_ASSERT (blk_status (blks r b) \<noteq> RT_RBB_BLK_UNUSED);
     let r = r\<lparr>blk_list := remove1 b (blk_list r)\<rparr>;
     Some (upd_blk b (\<lambda>x. x\<lparr>blk_status := RT_RBB_BLK_UNUSED\<rparr>) r)
   }"

text \<open>
  Collecting blocks that were put and follow each other in the buffer. The loop goes on from the
  node it has just removed, whose link is still there. The result is the total size; without any
  such block the queue is not written.
\<close>

definition queue_take :: "ptr \<Rightarrow> u32 \<Rightarrow> rt_rbb_blk_queue \<Rightarrow> rt_rbb \<Rightarrow> u32 \<times> rt_rbb_blk_queue \<times> rt_rbb" where
  "queue_take b tot q r =
     (let r = r\<lparr>blk_list := remove1 b (blk_list r)\<rparr>;
          tot = tot + blk_size (blks r b);
          r = upd_blk b (\<lambda>x. x\<lparr>blk_status := RT_RBB_BLK_GET\<rparr>) r
      in (tot, q\<lparr>q_blk_num := q_blk_num q + 1\<rparr>, r))"

fun queue_loop :: "u32 \<Rightarrow> ptr list \<Rightarrow> ptr \<Rightarrow> u32 \<Rightarrow> rt_rbb_blk_queue \<Rightarrow> rt_rbb \<Rightarrow> u32 \<times> rt_rbb_blk_queue \<times> rt_rbb" where
  "queue_loop len [] last_block tot q r = (tot, q, r)"
| "queue_loop len (b # bs) last_block tot q r =
     (if last_block = RT_NULL then
        if blk_status (blks r b) = RT_RBB_BLK_PUT then
          (case queue_take b tot (q\<lparr>q_blocks := b, q_blk_num := 0\<rparr>) r of (tot, q, r) \<Rightarrow> queue_loop len bs b tot q r)
        else queue_loop len bs RT_NULL tot q r
      else if blk_status (blks r b) \<noteq> RT_RBB_BLK_PUT \<or> blk_buf (blks r last_block) > blk_buf (blks r b)
              \<or> tot + blk_size (blks r b) > len then (tot, q, r)
      else (case queue_take b tot q r of (tot, q, r) \<Rightarrow> queue_loop len bs b tot q r))"

definition rt_rbb_blk_queue_get :: "u32 \<Rightarrow> rt_rbb_blk_queue \<Rightarrow> rt_rbb \<Rightarrow> u32 \<times> rt_rbb_blk_queue \<times> rt_rbb" where
  "rt_rbb_blk_queue_get len q r = queue_loop len (blk_list r) RT_NULL 0 q r"

definition rt_rbb_blk_queue_len :: "rt_rbb_blk_queue \<Rightarrow> rt_rbb \<Rightarrow> u32" where
  "rt_rbb_blk_queue_len q r = fold (\<lambda>i n. n + blk_size (blks r (blk_at (q_blocks q) i))) [0..<unat (q_blk_num q)] 0"

definition rt_rbb_blk_queue_buf :: "rt_rbb_blk_queue \<Rightarrow> rt_rbb \<Rightarrow> ptr" where
  "rt_rbb_blk_queue_buf q r = blk_buf (blks r (q_blocks q))"

definition rt_rbb_blk_queue_free :: "rt_rbb_blk_queue \<Rightarrow> rt_rbb \<Rightarrow> rt_rbb option" where
  "rt_rbb_blk_queue_free q r =
     fold (\<lambda>i r. r \<bind> rt_rbb_blk_free (blk_at (q_blocks q) i)) [0..<unat (q_blk_num q)] (Some r)"

fun next_queue_loop :: "ptr list \<Rightarrow> ptr \<Rightarrow> u32 \<Rightarrow> rt_rbb \<Rightarrow> u32" where
  "next_queue_loop [] last_block tot r = tot"
| "next_queue_loop (b # bs) last_block tot r =
     (if last_block = RT_NULL then
        if blk_status (blks r b) \<noteq> RT_RBB_BLK_PUT then next_queue_loop bs RT_NULL tot r
        else next_queue_loop bs b (tot + blk_size (blks r b)) r
      else if blk_status (blks r b) \<noteq> RT_RBB_BLK_PUT \<or> blk_buf (blks r last_block) > blk_buf (blks r b) then tot
      else next_queue_loop bs b (tot + blk_size (blks r b)) r)"

definition rt_rbb_next_blk_queue_len :: "rt_rbb \<Rightarrow> u32" where
  "rt_rbb_next_blk_queue_len r = next_queue_loop (blk_list r) RT_NULL 0 r"

definition rt_rbb_get_buf_size :: "rt_rbb \<Rightarrow> u32" where
  "rt_rbb_get_buf_size r = buf_size r"

subsection \<open>Ring order\<close>

text \<open>
  The extents of blocks in ring order: a first part in ascending order, and a second part, behind
  the wrap, in ascending order below the first part.
\<close>

type_synonym extent = "nat \<times> nat"

definition ascending :: "extent list \<Rightarrow> bool" where
  "ascending es \<longleftrightarrow> sorted_wrt (\<lambda>a b. snd a \<le> fst b) es"

definition ring_order :: "extent list \<Rightarrow> bool" where
  "ring_order es \<longleftrightarrow> (\<exists>xs ys. es = xs @ ys \<and> ascending xs \<and> ascending ys \<and> (\<forall>a \<in> set xs. \<forall>b \<in> set ys. snd b \<le> fst a))"

definition proper :: "extent list \<Rightarrow> bool" where
  "proper es \<longleftrightarrow> (\<forall>e \<in> set es. fst e < snd e)"

lemma ascending_hd: "ascending es \<Longrightarrow> proper es \<Longrightarrow> e \<in> set es \<Longrightarrow> fst (hd es) \<le> fst e"
  by (cases es) (fastforce simp: ascending_def proper_def)+

lemma ascending_last: "ascending es \<Longrightarrow> proper es \<Longrightarrow> e \<in> set es \<Longrightarrow> snd e \<le> snd (last es)"
  by (cases es rule: rev_cases) (fastforce simp: ascending_def proper_def sorted_wrt_append)+

lemma ascending_snoc: "ascending (es @ [x]) \<longleftrightarrow> ascending es \<and> (\<forall>e \<in> set es. snd e \<le> fst x)"
  by (auto simp: ascending_def sorted_wrt_append)

text \<open>The code tells the two cases apart by the first and the last block.\<close>

lemma ring_cases:
  assumes "ring_order es" "proper es" "es \<noteq> []"
  obtains (straight) "ascending es" "fst (hd es) \<le> fst (last es)"
  | (wrapped) xs ys where "es = xs @ ys" "xs \<noteq> []" "ys \<noteq> []" "ascending xs" "ascending ys"
      "\<And>a b. a \<in> set xs \<Longrightarrow> b \<in> set ys \<Longrightarrow> snd b \<le> fst a" "fst (last es) < fst (hd es)"
proof -
  obtain xs ys where r: "es = xs @ ys" "ascending xs" "ascending ys" "\<forall>a \<in> set xs. \<forall>b \<in> set ys. snd b \<le> fst a"
    using assms(1) by (auto simp: ring_order_def)
  show thesis
  proof (cases "xs = [] \<or> ys = []")
    case True
    then have "ascending es" using r by auto
    moreover from this have "fst (hd es) \<le> fst (last es)" using ascending_hd [OF _ assms(2)] assms(3) by simp
    ultimately show thesis by (rule straight)
  next
    case False
    then have "last es \<in> set ys" "hd es \<in> set xs" using r(1) by simp_all
    then have "snd (last es) \<le> fst (hd es)" "fst (last es) < snd (last es)" using r assms(2,3) by (auto simp: proper_def)
    then have "fst (last es) < fst (hd es)" by linarith
    then show thesis using wrapped [OF r(1)] r(2-4) False by blast
  qed
qed

lemma ring_behind:
  assumes "ring_order es" "proper es" "es \<noteq> []" "fst (hd es) \<le> fst (last es)"
  shows "ring_order (es @ [(snd (last es), q)])"
  using assms(1-3)
proof (cases rule: ring_cases)
  case straight
  then have "ascending (es @ [(snd (last es), q)])" using ascending_last [OF _ assms(2)] by (simp add: ascending_snoc)
  then show ?thesis unfolding ring_order_def by (intro exI [of _ "es @ [(snd (last es), q)]"] exI [of _ "[]"]) (simp add: ascending_def)
qed (use assms(4) in simp)

lemma ring_wrap:
  assumes "ring_order es" "proper es" "es \<noteq> []" "fst (hd es) \<le> fst (last es)" "q \<le> fst (hd es)"
  shows "ring_order (es @ [(p, q)])"
  using assms(1-3)
proof (cases rule: ring_cases)
  case straight
  then have "q \<le> fst e" if "e \<in> set es" for e using ascending_hd [OF _ assms(2) that] assms(5) by simp
  then show ?thesis using straight unfolding ring_order_def by (intro exI [of _ es] exI [of _ "[(p, q)]"]) (simp add: ascending_def)
qed (use assms(4) in simp)

lemma ring_between:
  assumes "ring_order es" "proper es" "es \<noteq> []" "fst (last es) < fst (hd es)" "q \<le> fst (hd es)"
  shows "ring_order (es @ [(snd (last es), q)])"
  using assms(1-3)
proof (cases rule: ring_cases)
  case (wrapped xs ys)
  have px: "proper xs" "proper ys" using assms(2) wrapped(1) by (simp_all add: proper_def)
  have l: "last es = last ys" "hd es = hd xs" using wrapped(1-3) by simp_all
  have "ascending (ys @ [(snd (last es), q)])" using wrapped(5) ascending_last [OF wrapped(5) px(2)] l(1) by (simp add: ascending_snoc)
  moreover have "q \<le> fst a" if "a \<in> set xs" for a using ascending_hd [OF wrapped(4) px(1) that] assms(5) l(2) by simp
  ultimately show ?thesis using wrapped(1,4,6) unfolding ring_order_def
    by (intro exI [of _ xs] exI [of _ "ys @ [(snd (last es), q)]"]) auto
qed (use assms(4) in simp)

lemma ascending_filter: "ascending (map f bs) \<Longrightarrow> ascending (map f (filter P bs))"
  by (induction bs) (auto simp: ascending_def)

lemma ring_filter:
  assumes "ring_order (map f bs)"
  shows "ring_order (map f (filter P bs))"
proof -
  obtain xs ys where r: "map f bs = xs @ ys" "ascending xs" "ascending ys" "\<forall>a \<in> set xs. \<forall>b \<in> set ys. snd b \<le> fst a"
    using assms by (auto simp: ring_order_def)
  obtain as cs where b: "bs = as @ cs" "xs = map f as" "ys = map f cs" using r(1) by (auto simp: map_eq_append_conv)
  show ?thesis unfolding ring_order_def b(1)
    by (intro exI [of _ "map f (filter P as)"] exI [of _ "map f (filter P cs)"])
      (use r(2-4) b(2,3) ascending_filter in auto)
qed

text \<open>Blocks in ring order do not overlap.\<close>

lemma ascending_disjoint:
  "ascending (map f bs) \<Longrightarrow> a \<in> set bs \<Longrightarrow> b \<in> set bs \<Longrightarrow> a \<noteq> b \<Longrightarrow> snd (f a) \<le> fst (f b) \<or> snd (f b) \<le> fst (f a)"
  by (induction bs) (auto simp: ascending_def)

lemma ring_disjoint:
  assumes "ring_order (map f bs)" "a \<in> set bs" "b \<in> set bs" "a \<noteq> b"
  shows "snd (f a) \<le> fst (f b) \<or> snd (f b) \<le> fst (f a)"
proof -
  obtain xs ys where r: "map f bs = xs @ ys" "ascending xs" "ascending ys" "\<forall>a \<in> set xs. \<forall>b \<in> set ys. snd b \<le> fst a"
    using assms(1) by (auto simp: ring_order_def)
  obtain as cs where l: "bs = as @ cs" "xs = map f as" "ys = map f cs" using r(1) by (auto simp: map_eq_append_conv)
  show ?thesis using assms(2-4) r(2-4) l ascending_disjoint [of f as a b] ascending_disjoint [of f cs a b] by auto
qed

subsection \<open>The invariant\<close>

definition extent :: "rt_rbb \<Rightarrow> ptr \<Rightarrow> extent" where
  "extent r b = (blk_buf (blks r b), blk_end r b)"

definition rbb_inv :: "rt_rbb \<Rightarrow> bool" where
  "rbb_inv r \<longleftrightarrow> blk_set r \<noteq> RT_NULL \<and> rbb_buf r + unat (buf_size r) < 2 ^ 32 \<and> distinct (blk_list r)
     \<and> (\<forall>b \<in> set (blk_list r). rbb_buf r \<le> blk_buf (blks r b) \<and> blk_end r b \<le> rbb_buf r + unat (buf_size r)
          \<and> 0 < blk_size (blks r b) \<and> blk_status (blks r b) \<noteq> RT_RBB_BLK_UNUSED)
     \<and> ring_order (map (extent r) (blk_list r))"

lemma upd_blk_simps [simp]:
  "rbb_buf (upd_blk b f r) = rbb_buf r" "buf_size (upd_blk b f r) = buf_size r" "blk_set (upd_blk b f r) = blk_set r"
  "blk_max_num (upd_blk b f r) = blk_max_num r" "blk_list (upd_blk b f r) = blk_list r"
  "blks (upd_blk b f r) = (blks r)(b := f (blks r b))"
  by (simp_all add: upd_blk_def)

lemma extent_simps [simp]: "fst (extent r b) = blk_buf (blks r b)" "snd (extent r b) = blk_end r b"
  by (simp_all add: extent_def)

lemma empty_found:
  assumes "find_empty_blk_in_set r = Some b"
  shows "blk_status (blks r b) = RT_RBB_BLK_UNUSED" "blk_set r \<noteq> RT_NULL \<Longrightarrow> b \<noteq> RT_NULL"
  using assms by (auto simp: find_empty_blk_in_set_def find_Some_iff blk_at_def)

lemma rbb_proper:
  assumes "rbb_inv r"
  shows "proper (map (extent r) (blk_list r))"
  using assms by (auto simp: rbb_inv_def proper_def blk_end_def word_gt_0 unat_gt_0)

lemma rbb_place_inv:
  assumes inv: "rbb_inv r" and n: "find_empty_blk_in_set r = Some n" and sz: "0 < sz"
    and ord: "ring_order (map (extent r) (blk_list r) @ [(p, p + unat sz)])"
    and inside: "rbb_buf r \<le> p" "p + unat sz \<le> rbb_buf r + unat (buf_size r)"
  shows "rbb_inv (rbb_place n p sz r) \<and> blk_list (rbb_place n p sz r) = blk_list r @ [n]
     \<and> extent (rbb_place n p sz r) n = (p, p + unat sz) \<and> n \<noteq> RT_NULL
     \<and> (\<forall>b \<in> set (blk_list r). b \<noteq> n \<and> extent (rbb_place n p sz r) b = extent r b)"
proof -
  let ?r = "rbb_place n p sz r"
  have new: "n \<notin> set (blk_list r)" "n \<noteq> RT_NULL" using inv empty_found [OF n] by (auto simp: rbb_inv_def)
  have f: "blks ?r = (blks r)(n := (blks r n)\<lparr>blk_status := RT_RBB_BLK_INITED, blk_buf := p, blk_size := sz\<rparr>)"
    "blk_list ?r = blk_list r @ [n]" "rbb_buf ?r = rbb_buf r" "buf_size ?r = buf_size r" "blk_set ?r = blk_set r"
    by (simp_all add: rbb_place_def)
  have en: "extent ?r n = (p, p + unat sz)" by (simp add: extent_def blk_end_def f(1))
  have eo: "extent ?r b = extent r b" "blks ?r b = blks r b" "blk_end ?r b = blk_end r b" if "b \<in> set (blk_list r)" for b
    using that new(1) by (auto simp: extent_def blk_end_def f(1))
  have m: "map (extent ?r) (blk_list ?r) = map (extent r) (blk_list r) @ [(p, p + unat sz)]"
    using eo(1) en by (simp add: f(2))
  have "blk_end ?r n = p + unat sz" "blk_buf (blks ?r n) = p" using en by (simp_all add: extent_def)
  then have "rbb_buf r \<le> blk_buf (blks ?r b) \<and> blk_end ?r b \<le> rbb_buf r + unat (buf_size r)
      \<and> 0 < blk_size (blks ?r b) \<and> blk_status (blks ?r b) \<noteq> RT_RBB_BLK_UNUSED" if "b \<in> set (blk_list ?r)" for b
    using inv inside sz eo(2,3) [of b] that by (cases "b = n") (auto simp: rbb_inv_def f(2), simp_all add: f(1))
  then have "rbb_inv ?r" using inv ord new unfolding rbb_inv_def m by (simp add: f(2-5))
  then show ?thesis using f(2) en new eo(1) by auto
qed

lemma ptr_diff_ge:
  assumes "b \<le> a" "a < 2 ^ 32"
  shows "ptr_diff a b \<ge> sz \<longleftrightarrow> b + unat sz \<le> a"
proof -
  have d: "ptr_diff a b = of_nat (a - b)" using assms(1) by (simp add: ptr_diff_def of_nat_diff)
  have "unat (ptr_diff a b) = a - b" using assms unfolding d unat_of_nat by (simp add: take_bit_nat_eq_self)
  then show ?thesis using assms(1) by (auto simp: word_le_nat_alt)
qed

text \<open>What an allocation promises when it succeeds.\<close>

definition alloc_ok :: "u32 \<Rightarrow> rt_rbb \<Rightarrow> ptr \<Rightarrow> rt_rbb \<Rightarrow> bool" where
  "alloc_ok sz r n r' \<longleftrightarrow> rbb_inv r' \<and> n \<noteq> RT_NULL \<and> blk_list r' = blk_list r @ [n] \<and> n \<notin> set (blk_list r)
     \<and> blk_size (blks r' n) = sz \<and> rbb_buf r \<le> blk_buf (blks r' n) \<and> blk_end r' n \<le> rbb_buf r + unat (buf_size r)
     \<and> (\<forall>b \<in> set (blk_list r). extent r' b = extent r b
          \<and> (blk_end r' b \<le> blk_buf (blks r' n) \<or> blk_end r' n \<le> blk_buf (blks r' b)))"

lemma place_ok:
  assumes "rbb_inv r" "find_empty_blk_in_set r = Some n" "0 < sz"
    "ring_order (map (extent r) (blk_list r) @ [(p, p + unat sz)])"
    "rbb_buf r \<le> p" "p + unat sz \<le> rbb_buf r + unat (buf_size r)"
  shows "alloc_ok sz r n (rbb_place n p sz r)"
proof -
  let ?r = "rbb_place n p sz r"
  note i = rbb_place_inv [OF assms]
  have e: "blk_buf (blks ?r n) = p" "blk_end ?r n = p + unat sz" using i by (simp_all add: extent_def)
  have "blk_end ?r b \<le> blk_buf (blks ?r n) \<or> blk_end ?r n \<le> blk_buf (blks ?r b)" if "b \<in> set (blk_list r)" for b
  proof -
    have "ring_order (map (extent ?r) (blk_list ?r))" "b \<in> set (blk_list ?r)" "n \<in> set (blk_list ?r)" "b \<noteq> n"
      using i that unfolding rbb_inv_def by auto
    then show ?thesis using ring_disjoint [of "extent ?r"] by (metis extent_simps)
  qed
  moreover have "blk_size (blks ?r n) = sz" by (simp add: rbb_place_def)
  ultimately show ?thesis using i e assms(5,6) unfolding alloc_ok_def by auto
qed

lemma rbb_alloc_cases:
  assumes inv: "rbb_inv r" and sz: "0 < sz" "sz < 2 ^ 24" "sz \<le> buf_size r"
    and alloc: "rt_rbb_blk_alloc sz r = Some (n, r')"
  shows "n = RT_NULL \<and> r' = r \<or> alloc_ok sz r n r'"
proof (cases "find_empty_blk_in_set r = Some n \<and> n \<noteq> RT_NULL")
  case False
  then show ?thesis using alloc sz(2) empty_found(2) inv
    by (auto simp: rt_rbb_blk_alloc_def Let_def rbb_inv_def split: option.splits if_splits)
next
  case True
  then have find: "find_empty_blk_in_set r = Some n" and n: "n \<noteq> RT_NULL" by simp_all
  let ?h = "hd (blk_list r)" and ?t = "last (blk_list r)" and ?es = "map (extent r) (blk_list r)"
  have ord: "ring_order ?es" using inv by (simp add: rbb_inv_def)
  note place = place_ok [OF inv find sz(1)]
  show ?thesis
  proof (cases "blk_list r = []")
    case True
    have "alloc_ok sz r n (rbb_place n (rbb_buf r) sz r)"
      using sz(3) by (intro place) (auto simp: True ring_order_def ascending_def word_le_nat_alt intro: exI [of _ "[]"])
    then show ?thesis using alloc sz(2) find n True by (auto simp: rt_rbb_blk_alloc_def split: if_splits)
  next
    case False
    then have in_list: "?h \<in> set (blk_list r)" "?t \<in> set (blk_list r)" by simp_all
    have bounds: "rbb_buf r \<le> blk_buf (blks r b)" "blk_end r b \<le> rbb_buf r + unat (buf_size r)" "blk_buf (blks r b) \<le> blk_end r b"
      if "b \<in> set (blk_list r)" for b using that inv by (auto simp: rbb_inv_def blk_end_def)
    have top: "rbb_buf r + unat (buf_size r) < 2 ^ 32" using inv by (simp add: rbb_inv_def)
    have ends: "hd ?es = extent r ?h" "last ?es = extent r ?t" "?es \<noteq> []" using False by (simp_all add: hd_map last_map)
    note behind = ring_behind [OF ord rbb_proper [OF inv] ends(3), unfolded ends extent_simps]
    note wrap = ring_wrap [OF ord rbb_proper [OF inv] ends(3), unfolded ends extent_simps]
    note between = ring_between [OF ord rbb_proper [OF inv] ends(3), unfolded ends extent_simps]
    have ht: "blk_end r ?t \<le> blk_buf (blks r ?h)" if "blk_buf (blks r ?t) < blk_buf (blks r ?h)"
      using ring_disjoint [OF ord in_list] that bounds(3) [OF in_list(1)] by fastforce
    have d1: "ptr_diff (rbb_buf r + unat (buf_size r)) (blk_end r ?t) \<ge> sz \<longleftrightarrow> blk_end r ?t + unat sz \<le> rbb_buf r + unat (buf_size r)"
      using ptr_diff_ge [OF bounds(2) [OF in_list(2)] top] .
    have hl: "blk_buf (blks r ?h) < 2 ^ 32" using bounds(2,3) [OF in_list(1)] top by linarith
    have d2: "ptr_diff (blk_buf (blks r ?h)) (rbb_buf r) \<ge> sz \<longleftrightarrow> rbb_buf r + unat sz \<le> blk_buf (blks r ?h)"
      using ptr_diff_ge [OF bounds(1) [OF in_list(1)] hl] .
    have d3: "ptr_diff (blk_buf (blks r ?h)) (blk_end r ?t) \<ge> sz \<longleftrightarrow> blk_end r ?t + unat sz \<le> blk_buf (blks r ?h)"
      if "blk_buf (blks r ?t) < blk_buf (blks r ?h)" using ptr_diff_ge [OF ht [OF that] hl] .
    show ?thesis
    proof (cases "blk_buf (blks r ?h) \<le> blk_buf (blks r ?t)")
      case True
      have "alloc_ok sz r n (rbb_place n (blk_end r ?t) sz r)" if "blk_end r ?t + unat sz \<le> rbb_buf r + unat (buf_size r)"
        using that bounds [OF in_list(2)] by (intro place behind True) linarith+
      moreover have "alloc_ok sz r n (rbb_place n (rbb_buf r) sz r)" if "rbb_buf r + unat sz \<le> blk_buf (blks r ?h)"
        using that bounds [OF in_list(1)] by (intro place wrap True) linarith+
      ultimately show ?thesis using alloc sz(2) find False True d1 d2 by (auto simp: rt_rbb_blk_alloc_def Let_def split: if_splits)
    next
      case wr: False
      have "alloc_ok sz r n (rbb_place n (blk_end r ?t) sz r)" if "blk_end r ?t + unat sz \<le> blk_buf (blks r ?h)"
        using that bounds [OF in_list(1)] bounds [OF in_list(2)] wr by (intro place between) linarith+
      then show ?thesis using alloc sz(2) find False wr d3 by (auto simp: rt_rbb_blk_alloc_def Let_def split: if_splits)
    qed
  qed
qed

lemma status_inv:
  assumes "rbb_inv r" "st \<noteq> RT_RBB_BLK_UNUSED"
  shows "rbb_inv (upd_blk b (\<lambda>x. x\<lparr>blk_status := st\<rparr>) r)"
proof -
  let ?r = "upd_blk b (\<lambda>x. x\<lparr>blk_status := st\<rparr>) r"
  have e: "blk_end ?r = blk_end r" "extent ?r = extent r" by (auto simp: blk_end_def extent_def)
  show ?thesis using assms unfolding rbb_inv_def e by auto
qed

lemma rbb_free_inv:
  assumes "rbb_inv r" "rt_rbb_blk_free b r = Some r'"
  shows "rbb_inv r' \<and> blk_list r' = remove1 b (blk_list r) \<and> blk_status (blks r' b) = RT_RBB_BLK_UNUSED
     \<and> (\<forall>x. extent r' x = extent r x)"
proof -
  have d: "distinct (blk_list r)" and ord: "ring_order (map (extent r) (blk_list r))" using assms(1) by (simp_all add: rbb_inv_def)
  have r': "r' = upd_blk b (\<lambda>x. x\<lparr>blk_status := RT_RBB_BLK_UNUSED\<rparr>) (r\<lparr>blk_list := remove1 b (blk_list r)\<rparr>)"
    using assms(2) by (auto simp: rt_rbb_blk_free_def split: if_splits)
  have e: "blk_end r' = blk_end r" "extent r' = extent r" by (auto simp: r' blk_end_def extent_def)
  have "ring_order (map (extent r) (remove1 b (blk_list r)))"
    using ring_filter [OF ord] by (simp add: d distinct_remove1_removeAll removeAll_filter_not_eq)
  then have "rbb_inv r'" using assms(1) d unfolding rbb_inv_def e by (auto simp: r')
  then show ?thesis using e by (simp add: r')
qed

lemma init_statuses:
  "fold (\<lambda>i. upd_blk (f i) (\<lambda>x. x\<lparr>blk_status := st\<rparr>)) is r
     = r\<lparr>blks := \<lambda>p. if p \<in> f ` set is then (blks r p)\<lparr>blk_status := st\<rparr> else blks r p\<rparr>"
  by (induction "is" arbitrary: r) (auto simp: upd_blk_def fun_eq_iff)

lemma rbb_init_inv:
  assumes "rt_rbb_init rbb buf bsz block_set max_num r0 = Some r" "buf + unat bsz < 2 ^ 32"
  shows "rbb_inv r \<and> blk_list r = [] \<and> rbb_buf r = buf \<and> buf_size r = bsz"
  using assms by (auto simp: rt_rbb_init_def Let_def init_statuses rbb_inv_def ring_order_def ascending_def split: if_splits)

subsection \<open>Histories\<close>

text \<open>
  One call on the buffer object: a block of a size the buffer can hold is requested, filled, taken
  over, or given back. The collecting operations are not part of these histories: they take blocks
  off the list, so that their memory can be handed out again while it is still read.
\<close>

inductive rbb_step :: "rt_rbb \<Rightarrow> rt_rbb \<Rightarrow> bool" where
  alloc: "0 < sz \<Longrightarrow> sz \<le> buf_size r \<Longrightarrow> rt_rbb_blk_alloc sz r = Some (n, r') \<Longrightarrow> rbb_step r r'"
| put: "rt_rbb_blk_put b r = Some r' \<Longrightarrow> rbb_step r r'"
| get: "rt_rbb_blk_get r = (b, r') \<Longrightarrow> rbb_step r r'"
| free: "rt_rbb_blk_free b r = Some r' \<Longrightarrow> rbb_step r r'"

inductive rbb_reach :: "rt_rbb \<Rightarrow> rt_rbb \<Rightarrow> bool" where
  start: "rbb_reach r r"
| step: "rbb_reach r r' \<Longrightarrow> rbb_step r' r'' \<Longrightarrow> rbb_reach r r''"

lemma alloc_small: "rt_rbb_blk_alloc sz r = Some x \<Longrightarrow> sz < 2 ^ 24"
  by (auto simp: rt_rbb_blk_alloc_def split: if_splits)

lemma alloc_returns: "sz < 2 ^ 24 \<Longrightarrow> \<exists>x. rt_rbb_blk_alloc sz r = Some x"
  by (cases "find_empty_blk_in_set r") (simp_all add: rt_rbb_blk_alloc_def Let_def)

lemma place_area: "rbb_buf (rbb_place n p sz r) = rbb_buf r" "buf_size (rbb_place n p sz r) = buf_size r"
  by (simp_all add: rbb_place_def)

lemma rbb_step_inv:
  assumes "rbb_step r r'" "rbb_inv r"
  shows "rbb_inv r' \<and> rbb_buf r' = rbb_buf r \<and> buf_size r' = buf_size r"
  using assms
proof (induction rule: rbb_step.induct)
  case (alloc sz r n r')
  have "rbb_inv r'" using rbb_alloc_cases [OF alloc(4,1) alloc_small [OF alloc(3)] alloc(2,3)] alloc(4) by (auto simp: alloc_ok_def)
  then show ?case using alloc(3) by (auto simp: rt_rbb_blk_alloc_def Let_def place_area split: option.splits if_splits)
next
  case (put b r r')
  then show ?case using status_inv by (auto simp: rt_rbb_blk_put_def split: if_splits)
next
  case (get r b r')
  then show ?case using status_inv by (auto simp: rt_rbb_blk_get_def split: option.splits)
next
  case (free b r r')
  then show ?case using rbb_free_inv [OF free(2,1)] by (auto simp: rt_rbb_blk_free_def split: if_splits)
qed

lemma rbb_reach_inv:
  assumes "rbb_reach r r'" "rbb_inv r"
  shows "rbb_inv r' \<and> rbb_buf r' = rbb_buf r \<and> buf_size r' = buf_size r"
  using assms by (induction rule: rbb_reach.induct) (auto dest: rbb_step_inv)

subsection \<open>Theorems\<close>

definition blk0 :: rt_rbb_blk where
  "blk0 = \<lparr>blk_status = RT_RBB_BLK_UNUSED, blk_size = 0, blk_buf = 0\<rparr>"

definition rbb0 :: rt_rbb where
  "rbb0 = \<lparr>rbb_buf = 4096, buf_size = 16, blk_set = 8192, blk_max_num = 3, blk_list = [], blks = (\<lambda>_. blk0)\<rparr>"

lemma rbb0_fields:
  "rbb_inv rbb0" "blk_list rbb0 = []" "rbb_buf rbb0 = 4096" "buf_size rbb0 = 16"
  by (simp_all add: rbb0_def rbb_inv_def ring_order_def ascending_def)

lemma rbb0_empty: "find_empty_blk_in_set rbb0 = Some 8192"
  by (simp add: find_empty_blk_in_set_def rbb0_def blk0_def blk_at_def upt_rec)

text \<open>Allocating from a block ring buffer in a consistent state, for a size from 1 up to the size of
  the buffer. The call returns; either it returns \<open>RT_NULL\<close> and leaves everything as it was, or
  the new block is at the end of the list, has the wanted size, lies inside the buffer and shares
  no byte with any block on the list, none of which moved. On an empty list with an unused
  structure it succeeds. Freeing the new block gives back the old list.
\<close>

lemma rbb_alloc_spec:
  assumes "rbb_inv r" "0 < sz" "sz < 2 ^ 24" "sz \<le> buf_size r"
  shows "\<exists>n r'. rt_rbb_blk_alloc sz r = Some (n, r')
     \<and> (if n = RT_NULL then r' = r
        else blk_list r' = blk_list r @ [n] \<and> n \<notin> set (blk_list r) \<and> blk_size (blks r' n) = sz
           \<and> rbb_buf r \<le> blk_buf (blks r' n) \<and> blk_buf (blks r' n) + unat sz \<le> rbb_buf r + unat (buf_size r)
           \<and> (\<forall>b \<in> set (blk_list r). extent r' b = extent r b
                \<and> (blk_end r' b \<le> blk_buf (blks r' n) \<or> blk_buf (blks r' n) + unat sz \<le> blk_buf (blks r' b)))
           \<and> (\<forall>r''. rt_rbb_blk_free n r' = Some r'' \<longrightarrow> rbb_inv r'' \<and> blk_list r'' = blk_list r))
     \<and> (blk_list r = [] \<and> find_empty_blk_in_set r \<noteq> None \<and> 0 < blk_max_num r \<longrightarrow> n \<noteq> RT_NULL)"
proof -
  obtain n r' where a: "rt_rbb_blk_alloc sz r = Some (n, r')" using alloc_returns [OF assms(3), of r] by auto
  have "n \<noteq> RT_NULL" if "blk_list r = []" "find_empty_blk_in_set r \<noteq> None" "0 < blk_max_num r"
    using a that assms(1,3) empty_found(2) by (auto simp: rt_rbb_blk_alloc_def rbb_inv_def split: if_splits)
  then show ?thesis using a rbb_alloc_cases [OF assms a] rbb_free_inv [of r' n]
    by (auto simp: alloc_ok_def blk_end_def remove1_append intro!: exI [of _ n] exI [of _ r'])
qed

text \<open>C35: After the initialisation of a block ring buffer, over any sequence of puts, gets, frees and of allocations of
  at least one byte and at most as many bytes as the buffer has, the blocks in use lie inside the buffer
  and no two of them share a byte. Allocations of more bytes than the buffer has are left out: the code
  does not refuse them in an empty buffer, and the block then reaches past its end
  (\<open>rbb_alloc_overruns\<close>).\<close>

theorem rbb_blocks_disjoint:
  assumes "rt_rbb_init rbb buf bsz block_set max_num r0 = Some r" "buf + unat bsz < 2 ^ 32" "rbb_reach r r'"
    and "a \<in> set (blk_list r')"
  shows "buf \<le> blk_buf (blks r' a) \<and> blk_end r' a \<le> buf + unat bsz
     \<and> (\<forall>b \<in> set (blk_list r') - {a}. blk_end r' a \<le> blk_buf (blks r' b) \<or> blk_end r' b \<le> blk_buf (blks r' a))"
proof -
  have inv: "rbb_inv r'" "rbb_buf r' = buf" "buf_size r' = bsz"
    using rbb_reach_inv [OF assms(3)] rbb_init_inv [OF assms(1,2)] by simp_all
  have "blk_end r' a \<le> blk_buf (blks r' b) \<or> blk_end r' b \<le> blk_buf (blks r' a)" if "b \<in> set (blk_list r')" "b \<noteq> a" for b
    using ring_disjoint [of "extent r'" "blk_list r'" a b] inv(1) assms(4) that by (auto simp: rbb_inv_def)
  then show ?thesis using inv assms(4) by (auto simp: rbb_inv_def)
qed

theorem rbb_blocks_disjoint_witness:
  "\<exists>r r' r'' n m. rt_rbb_init 64 4096 16 8192 3 rbb0 = Some r \<and> rt_rbb_blk_alloc 10 r = Some (n, r')
     \<and> rt_rbb_blk_alloc 6 r' = Some (m, r'') \<and> blk_list r'' = [n, m] \<and> blk_end r'' n \<le> 4112
     \<and> (blk_end r'' n \<le> blk_buf (blks r'' m) \<or> blk_end r'' m \<le> blk_buf (blks r'' n))"
proof -
  let ?r = "the (rt_rbb_init 64 4096 16 8192 3 rbb0)"
  let ?r1 = "snd (the (rt_rbb_blk_alloc 10 ?r))" and ?r2 = "snd (the (rt_rbb_blk_alloc 6 (snd (the (rt_rbb_blk_alloc 10 ?r)))))"
  note defs = rt_rbb_init_def rbb0_def blk0_def init_statuses rt_rbb_blk_alloc_def find_empty_blk_in_set_def blk_at_def
    upt_rec rbb_place_def upd_blk_def ptr_diff_def blk_end_def Let_def
  have c: "rt_rbb_init 64 4096 16 8192 3 rbb0 = Some ?r" "rt_rbb_blk_alloc 10 ?r = Some (8192, ?r1)"
    "rt_rbb_blk_alloc 6 ?r1 = Some (8204, ?r2)" "blk_list ?r2 = [8192, 8204]" "buf_size ?r = 16" "buf_size ?r1 = 16"
    by (simp_all add: defs)
  have "rbb_step ?r ?r1" using c by (intro rbb_step.alloc [of 10 ?r 8192]) simp_all
  moreover have "rbb_step ?r1 ?r2" using c by (intro rbb_step.alloc [of 6 ?r1 8204]) simp_all
  ultimately have "rbb_reach ?r ?r2" by (blast intro: rbb_reach.intros)
  then have "blk_end ?r2 8192 \<le> 4112 \<and> (blk_end ?r2 8192 \<le> blk_buf (blks ?r2 8204) \<or> blk_end ?r2 8204 \<le> blk_buf (blks ?r2 8192))"
    using rbb_blocks_disjoint [OF c(1) _ _, of ?r2 8192] c(4) by simp
  then show ?thesis using c by metis
qed

text \<open>
  The first block of an empty buffer is not checked against the size of the buffer: the memory
  handed out reaches past its end.
\<close>

lemma rbb_alloc_overruns:
  assumes "blk_list r = []" "find_empty_blk_in_set r = Some n" "0 < blk_max_num r" "sz < 2 ^ 24" "buf_size r < sz"
  shows "\<exists>r'. rt_rbb_blk_alloc sz r = Some (n, r') \<and> rbb_buf r + unat (buf_size r) < blk_end r' n"
  using assms by (simp add: rt_rbb_blk_alloc_def rbb_place_def blk_end_def word_less_nat_alt)

end
