(* ===== verification/RT_Printf.thy ===== *)
theory RT_Printf
  imports RT_Device RT_Memory
begin

text \<open>
  Formatted output (\<^verbatim>\<open>src/kservice.c\<close>): \<^verbatim>\<open>rt_vsnprintf\<close> with its number printer, the functions built on
  it, and the console. Variable arguments are a list; taking an argument of another type than the
  one passed is undefined (\<open>None\<close>). The configuration has \<^verbatim>\<open>RT_PRINTF_PRECISION\<close>, and neither
  \<^verbatim>\<open>RT_PRINTF_LONGLONG\<close> nor \<^verbatim>\<open>RT_PRINTF_SPECIAL\<close>.
\<close>

subsection \<open>Writing\<close>

text \<open>The next position and the memory. A character is stored below the limit only.\<close>

record out =
  pos :: ptr
  omem :: mem

definition put :: "ptr \<Rightarrow> char \<Rightarrow> out \<Rightarrow> out" where
  "put lim c out = (let out = (if pos out < lim then out\<lparr>omem := (omem out)(pos out := of_char c)\<rparr> else out)
     in out\<lparr>pos := pos out + 1\<rparr>)"

text \<open>\<^verbatim>\<open>while (low < n--)\<close> and \<^verbatim>\<open>while (--n > 0)\<close>, with a character put in each round.\<close>

function pad_loop :: "ptr \<Rightarrow> char \<Rightarrow> int \<Rightarrow> int \<Rightarrow> out \<Rightarrow> int \<times> out" where
  "pad_loop lim c low n out = (if low < n then pad_loop lim c low (n - 1) (put lim c out) else (n - 1, out))"
  by pat_completeness auto
termination by (relation "measure (\<lambda>(_, _, low, n, _). nat (n - low))") auto

function space_loop :: "ptr \<Rightarrow> int \<Rightarrow> out \<Rightarrow> int \<times> out" where
  "space_loop lim n out = (if n - 1 > 0 then space_loop lim (n - 1) (put lim (CHR '' '') out) else (n - 1, out))"
  by pat_completeness auto
termination by (relation "measure (\<lambda>(_, n, _). nat n)") auto

declare pad_loop.simps [simp del] space_loop.simps [simp del]

subsection \<open>Numbers\<close>

abbreviation (input) ZEROPAD :: u8 where "ZEROPAD \<equiv> 0x01"
abbreviation (input) SIGN :: u8 where "SIGN \<equiv> 0x02"
abbreviation (input) PLUS :: u8 where "PLUS \<equiv> 0x04"
abbreviation (input) SPACE :: u8 where "SPACE \<equiv> 0x08"
abbreviation (input) LEFT :: u8 where "LEFT \<equiv> 0x10"
abbreviation (input) SPECIAL :: u8 where "SPECIAL \<equiv> 0x20"
abbreviation (input) LARGE :: u8 where "LARGE \<equiv> 0x40"

definition divide :: "u32 \<Rightarrow> nat \<Rightarrow> nat \<times> u32" where
  "divide n base = (if base = 10 then (unat (n mod 10), n div 10) else (unat (n mod 16), n div 16))"

lemma divide_smaller: "n \<noteq> 0 \<Longrightarrow> unat (snd (divide n base)) < unat n"
  by (simp add: divide_def unat_div unat_gt_0)

function digit_loop :: "string \<Rightarrow> nat \<Rightarrow> u32 \<Rightarrow> string \<Rightarrow> string" where
  "digit_loop digits base num tmp =
     (if num \<noteq> 0 then digit_loop digits base (snd (divide num base)) (tmp @ [digits ! fst (divide num base)]) else tmp)"
  by pat_completeness auto
termination by (relation "measure (\<lambda>(_, _, num, _). unat num)") (simp_all add: divide_smaller)

declare digit_loop.simps [simp del]

fun number_loop :: "ptr \<Rightarrow> string \<Rightarrow> int \<Rightarrow> nat \<Rightarrow> out \<Rightarrow> out" where
  "number_loop lim tmp precision_bak 0 out = out"
| "number_loop lim tmp precision_bak (Suc i) out =
     (if precision_bak \<noteq> 0 then number_loop lim tmp precision_bak i (put lim (tmp ! i) out) else out)"

definition number_sign :: "u32 \<Rightarrow> u8 \<Rightarrow> char \<times> u32" where
  "number_sign num type =
     (if type AND SIGN \<noteq> 0 then
        if sint num < 0 then (CHR ''-'', - num)
        else if type AND PLUS \<noteq> 0 then (CHR ''+'', num)
        else if type AND SPACE \<noteq> 0 then (CHR '' '', num)
        else (NUL, num)
      else (NUL, num))"

text \<open>
  The negation of the smallest number wraps, as it does on the processor. The counter \<open>size\<close> only
  falls; it is checked at the end that it stayed in the range of \<^verbatim>\<open>int\<close>. The temporary buffer has 16
  characters.
\<close>

definition print_number :: "ptr \<Rightarrow> u32 \<Rightarrow> nat \<Rightarrow> int \<Rightarrow> int \<Rightarrow> u8 \<Rightarrow> out \<Rightarrow> out option" where
  "print_number lim num base s precision type out = do {
     let precision_bak = precision;
     let digits = (if type AND LARGE \<noteq> 0 then ''0123456789ABCDEF'' else ''0123456789abcdef'');
     let type = (if type AND LEFT \<noteq> 0 then type AND NOT ZEROPAD else type);
     let c = (if type AND ZEROPAD \<noteq> 0 then CHR ''0'' else CHR '' '');
     let (sign, num) = number_sign num type;
     let tmp = (if num = 0 then ''0'' else digit_loop digits base num []);
     let i = length tmp;
     C_GUARD (i \<le> 16);
     let precision = (if int i > precision then int i else precision);
     let sz = s - precision;
     let (sz, out) =
       (if type AND (ZEROPAD OR LEFT) = 0
        then pad_loop lim (CHR '' '') 0 (if sign \<noteq> NUL \<and> sz > 0 then sz - 1 else sz) out
        else (sz, out));
     let (sz, out) = (if sign \<noteq> NUL then (sz - 1, put lim sign out) else (sz, out));
     let (sz, out) = (if type AND LEFT = 0 then pad_loop lim c 0 sz out else (sz, out));
     let (precision, out) = pad_loop lim (CHR ''0'') (int i) precision out;
     let out = number_loop lim tmp precision_bak i out;
     let (sz, out) = pad_loop lim (CHR '' '') 0 sz out;
     C_GUARD (- (2 ^ 31) \<le> sz);
     Some out
   }"

subsection \<open>The format\<close>

datatype va = VInt u32 | VStr "string option"

fun va_int :: "va list \<Rightarrow> (u32 \<times> va list) option" where
  "va_int (VInt w # args) = Some (w, args)"
| "va_int _ = None"

fun va_str :: "va list \<Rightarrow> (string option \<times> va list) option" where
  "va_str (VStr s # args) = Some (s, args)"
| "va_str _ = None"

definition isdigit :: "char \<Rightarrow> bool" where
  "isdigit c \<longleftrightarrow> (of_char c - of_char (CHR ''0'') :: u32) < 10"

text \<open>The number is of type \<^verbatim>\<open>int\<close>, and on the way to the next value it is 48 larger: it may not overflow there.\<close>

fun skip_atoi :: "string \<Rightarrow> int \<Rightarrow> (int \<times> string) option" where
  "skip_atoi [] i = Some (i, [])"
| "skip_atoi (c # s) i =
     (if isdigit c then do {
        C_GUARD (i * 10 + of_char c < 2 ^ 31);
        skip_atoi s (i * 10 + of_char c - of_char (CHR ''0''))
      }
      else Some (i, c # s))"

fun flag_loop :: "string \<Rightarrow> u8 \<Rightarrow> u8 \<times> string" where
  "flag_loop [] flags = (flags, [])"
| "flag_loop (c # fmt) flags =
     (if c = CHR ''-'' then flag_loop fmt (flags OR LEFT)
      else if c = CHR ''+'' then flag_loop fmt (flags OR PLUS)
      else if c = CHR '' '' then flag_loop fmt (flags OR SPACE)
      else if c = CHR ''#'' then flag_loop fmt (flags OR SPECIAL)
      else if c = CHR ''0'' then flag_loop fmt (flags OR ZEROPAD)
      else (flags, c # fmt))"

definition get_width :: "string \<Rightarrow> va list \<Rightarrow> u8 \<Rightarrow> (int \<times> u8 \<times> string \<times> va list) option" where
  "get_width fmt args flags =
     (if isdigit (chead fmt) then do {
        (w, fmt) \<leftarrow> skip_atoi fmt 0;
        Some (w, flags, fmt, args)
      }
      else if chead fmt = CHR ''*'' then do {
        (w, args) \<leftarrow> va_int args;
        if sint w < 0 then do {
          C_GUARD (- (2 ^ 31) < sint w);
          Some (- sint w, flags OR LEFT, tl fmt, args)
        } else Some (sint w, flags, tl fmt, args)
      }
      else Some (- 1, flags, fmt, args))"

definition get_precision :: "string \<Rightarrow> va list \<Rightarrow> (int \<times> string \<times> va list) option" where
  "get_precision fmt args =
     (if chead fmt = CHR ''.'' then do {
        let fmt = tl fmt;
        (precision, fmt, args) \<leftarrow>
          (if isdigit (chead fmt) then do {
             (p, fmt) \<leftarrow> skip_atoi fmt 0;
             Some (p, fmt, args)
           }
           else if chead fmt = CHR ''*'' then do {
             (w, args) \<leftarrow> va_int args;
             Some (sint w, tl fmt, args)
           }
           else Some (- 1, fmt, args));
        Some (if precision < 0 then 0 else precision, fmt, args)
      }
      else Some (- 1, fmt, args))"

definition get_qualifier :: "string \<Rightarrow> char \<times> string" where
  "get_qualifier fmt = (if chead fmt = CHR ''h'' \<or> chead fmt = CHR ''l'' then (chead fmt, tl fmt) else (NUL, fmt))"

record spec =
  sp_flags :: u8
  sp_width :: int
  sp_precision :: int
  sp_qualifier :: char

text \<open>All that stands between the percent sign and the conversion character.\<close>

definition parse_spec :: "string \<Rightarrow> va list \<Rightarrow> (spec \<times> string \<times> va list) option" where
  "parse_spec fmt args = do {
     let (flags, fmt) = flag_loop fmt 0;
     (w, flags, fmt, args) \<leftarrow> get_width fmt args flags;
     (p, fmt, args) \<leftarrow> get_precision fmt args;
     let q = get_qualifier fmt;
     Some (\<lparr>sp_flags = flags, sp_width = w, sp_precision = p, sp_qualifier = fst q\<rparr>, snd q, args)
   }"

fun copy_loop :: "ptr \<Rightarrow> nat \<Rightarrow> string \<Rightarrow> out \<Rightarrow> out" where
  "copy_loop lim 0 s out = out"
| "copy_loop lim (Suc n) s out = copy_loop lim n (tl s) (put lim (chead s) out)"

definition get_number :: "spec \<Rightarrow> va list \<Rightarrow> (u32 \<times> va list) option" where
  "get_number spc args = do {
     (w, args) \<leftarrow> va_int args;
     Some (if sp_qualifier spc = CHR ''h'' then
             let n = (ucast w :: u16) in if sp_flags spc AND SIGN \<noteq> 0 then scast n else ucast n
           else w, args)
   }"

definition convert_char :: "ptr \<Rightarrow> spec \<Rightarrow> va list \<Rightarrow> out \<Rightarrow> (va list \<times> out) option" where
  "convert_char lim spc args out = do {
     let (w, out) = (if sp_flags spc AND LEFT = 0 then space_loop lim (sp_width spc) out else (sp_width spc, out));
     (c, args) \<leftarrow> va_int args;
     let out = put lim (char_of (unat (ucast c :: u8))) out;
     let (w, out) = space_loop lim w out;
     Some (args, out)
   }"

definition convert_string :: "ptr \<Rightarrow> spec \<Rightarrow> va list \<Rightarrow> out \<Rightarrow> (va list \<times> out) option" where
  "convert_string lim spc args out = do {
     (s, args) \<leftarrow> va_str args;
     let s = (case s of None \<Rightarrow> ''(NULL)'' | Some s \<Rightarrow> s);
     let len = rt_strlen s;
     C_GUARD (len < 2 ^ 31);
     let len = (if sp_precision spc > 0 \<and> int len > sp_precision spc then nat (sp_precision spc) else len);
     let (w, out) = (if sp_flags spc AND LEFT = 0 then pad_loop lim (CHR '' '') (int len) (sp_width spc) out else (sp_width spc, out));
     let out = copy_loop lim len s out;
     let (w, out) = pad_loop lim (CHR '' '') (int len) w out;
     Some (args, out)
   }"

definition convert_number :: "ptr \<Rightarrow> char \<Rightarrow> spec \<Rightarrow> va list \<Rightarrow> out \<Rightarrow> (va list \<times> out) option" where
  "convert_number lim ch spc args out = do {
     let base = (if ch = CHR ''o'' then 8 else if ch = CHR ''X'' \<or> ch = CHR ''x'' then 16 else 10);
     let flags = (if ch = CHR ''X'' then sp_flags spc OR LARGE
                  else if ch = CHR ''d'' \<or> ch = CHR ''i'' then sp_flags spc OR SIGN else sp_flags spc);
     (num, args) \<leftarrow> get_number (spc\<lparr>sp_flags := flags\<rparr>) args;
     out \<leftarrow> print_number lim num base (sp_width spc) (sp_precision spc) flags out;
     Some (args, out)
   }"

definition convert_pointer :: "ptr \<Rightarrow> spec \<Rightarrow> va list \<Rightarrow> out \<Rightarrow> (va list \<times> out) option" where
  "convert_pointer lim spc args out = do {
     let (w, flags) = (if sp_width spc = - 1 then (8, sp_flags spc OR ZEROPAD) else (sp_width spc, sp_flags spc));
     (num, args) \<leftarrow> va_int args;
     out \<leftarrow> print_number lim num 16 w (sp_precision spc) flags out;
     Some (args, out)
   }"

text \<open>
  The conversion character is the first of \<open>fmt\<close>. At the end of the format the pointer is moved
  back, so that the loop meets the terminator again.
\<close>

definition convert :: "ptr \<Rightarrow> spec \<Rightarrow> string \<Rightarrow> va list \<Rightarrow> out \<Rightarrow> (string \<times> va list \<times> out) option" where
  "convert lim spc fmt args out =
     (let ch = chead fmt in
      if ch = CHR ''c'' then do { (args, out) \<leftarrow> convert_char lim spc args out; Some (tl fmt, args, out) }
      else if ch = CHR ''s'' then do { (args, out) \<leftarrow> convert_string lim spc args out; Some (tl fmt, args, out) }
      else if ch = CHR ''p'' then do { (args, out) \<leftarrow> convert_pointer lim spc args out; Some (tl fmt, args, out) }
      else if ch = CHR ''%'' then Some (tl fmt, args, put lim (CHR ''%'') out)
      else if ch \<in> {CHR ''o'', CHR ''X'', CHR ''x'', CHR ''d'', CHR ''i'', CHR ''u''}
      then do { (args, out) \<leftarrow> convert_number lim ch spc args out; Some (tl fmt, args, out) }
      else (let out = put lim (CHR ''%'') out
            in if ch \<noteq> NUL then Some (tl fmt, args, put lim ch out) else Some (fmt, args, out)))"

lemma flag_loop_length: "length (snd (flag_loop fmt flags)) \<le> length fmt"
  by (induction fmt flags rule: flag_loop.induct) auto

lemma skip_atoi_length: "skip_atoi fmt i = Some (n, fmt') \<Longrightarrow> length fmt' \<le> length fmt"
  by (induction fmt i rule: skip_atoi.induct) (auto split: if_splits)

lemma get_width_length: "get_width fmt args flags = Some (w, flags', fmt', args') \<Longrightarrow> length fmt' \<le> length fmt"
  by (auto simp: get_width_def bind_eq_Some_conv dest: skip_atoi_length split: if_splits)

lemma get_precision_length:
  assumes "get_precision fmt args = Some (p, fmt', args')"
  shows "length fmt' \<le> length fmt"
proof -
  have "length fmt' \<le> length (tl fmt)" if "chead fmt = CHR ''.''"
    using assms that by (auto simp: get_precision_def Let_def bind_eq_Some_conv dest: skip_atoi_length split: if_splits)
  then show ?thesis using assms by (cases "chead fmt = CHR ''.''") (auto simp: get_precision_def)
qed

lemma parse_spec_length:
  assumes "parse_spec fmt args = Some (spc, fmt', args')"
  shows "length fmt' \<le> length fmt"
proof -
  obtain flags fmt1 where f: "flag_loop fmt 0 = (flags, fmt1)" by fastforce
  obtain w flags' fmt2 args2 p fmt3 args3 where g: "get_width fmt1 args flags = Some (w, flags', fmt2, args2)"
    "get_precision fmt2 args2 = Some (p, fmt3, args3)" "fmt' = snd (get_qualifier fmt3)"
    using assms f by (auto simp: parse_spec_def Let_def bind_eq_Some_conv)
  have "length fmt' \<le> length fmt3" using g(3) by (auto simp: get_qualifier_def)
  then show ?thesis
    using flag_loop_length [of fmt 0] f get_width_length [OF g(1)] get_precision_length [OF g(2)] by simp
qed

lemma convert_length:
  assumes "convert lim spc fmt args out = Some (fmt', args', out')"
  shows "length fmt' \<le> length fmt"
  using assms by (auto simp: convert_def Let_def bind_eq_Some_conv split: if_splits)

lemma convert_parsed_length:
  "parse_spec fmt args = Some (spc, fmt', args') \<Longrightarrow> convert lim spc fmt' args' out = Some (fmt'', args'', out')
     \<Longrightarrow> length fmt'' < Suc (length fmt)"
  using parse_spec_length convert_length by fastforce

function vsnprintf_loop :: "ptr \<Rightarrow> string \<Rightarrow> va list \<Rightarrow> out \<Rightarrow> out option" where
  "vsnprintf_loop lim [] args out = Some out"
| "vsnprintf_loop lim (c # fmt) args out =
     (if c = NUL then Some out
      else if c \<noteq> CHR ''%'' then vsnprintf_loop lim fmt args (put lim c out)
      else do {
        (spc, fmt, args) \<leftarrow> parse_spec fmt args;
        (fmt, args, out) \<leftarrow> convert lim spc fmt args out;
        vsnprintf_loop lim fmt args out
      })"
  by pat_completeness auto
termination by (relation "measure (\<lambda>(_, fmt, _). length fmt)") (auto simp: convert_parsed_length)

text \<open>
  The position beyond the buffer; an area that reaches beyond the last address is cut. The position
  of the output never wraps around: more than a whole address space of output is undefined.
\<close>

definition buffer_end :: "ptr \<Rightarrow> u32 \<Rightarrow> ptr" where
  "buffer_end buf sz = (let e = (buf + unat sz) mod 2 ^ 32 in if e < buf then 2 ^ 32 - 1 else e)"

definition rt_vsnprintf :: "ptr \<Rightarrow> u32 \<Rightarrow> string \<Rightarrow> va list \<Rightarrow> mem \<Rightarrow> (u32 \<times> mem) option" where
  "rt_vsnprintf buf sz fmt args m = do {
     let lim = buffer_end buf sz;
     let sz = (if (buf + unat sz) mod 2 ^ 32 < buf then of_nat (lim - buf) else sz);
     out \<leftarrow> vsnprintf_loop lim fmt args \<lparr>pos = buf, omem = m\<rparr>;
     C_GUARD (pos out < 2 ^ 32);
     let m = (if sz > 0 then if pos out < lim then (omem out)(pos out := 0) else (omem out)(lim - 1 := 0) else omem out);
     Some (of_nat (pos out - buf), m)
   }"

definition rt_snprintf :: "ptr \<Rightarrow> u32 \<Rightarrow> string \<Rightarrow> va list \<Rightarrow> mem \<Rightarrow> (u32 \<times> mem) option" where
  "rt_snprintf buf sz fmt args m = rt_vsnprintf buf sz fmt args m"

definition rt_vsprintf :: "ptr \<Rightarrow> string \<Rightarrow> va list \<Rightarrow> mem \<Rightarrow> (u32 \<times> mem) option" where
  "rt_vsprintf buf format args m = rt_vsnprintf buf (- 1) format args m"

definition rt_sprintf :: "ptr \<Rightarrow> string \<Rightarrow> va list \<Rightarrow> mem \<Rightarrow> (u32 \<times> mem) option" where
  "rt_sprintf buf format args m = rt_vsprintf buf format args m"

subsection \<open>The console\<close>

text \<open>
  The output routine of the board, \<^verbatim>\<open>rt_hw_console_output\<close>, is weak (empty in the kernel) and an
  argument here; it gets the address of a string.
\<close>

record console =
  console_device :: ptr
  con_dev :: dev_state

abbreviation (input) RT_CONSOLEBUF_SIZE :: u32 where "RT_CONSOLEBUF_SIZE \<equiv> 128"
abbreviation (input) RT_DEVICE_OFLAG_RDWR :: u16 where "RT_DEVICE_OFLAG_RDWR \<equiv> 0x003"

definition rt_console_get_device :: "console \<Rightarrow> ptr" where
  "rt_console_get_device s = console_device s"

definition rt_console_set_device :: "unit driver \<Rightarrow> string \<Rightarrow> console \<Rightarrow> (ptr \<times> console) option" where
  "rt_console_set_device drv nm s = do {
     let old_device = console_device s;
     (new_device, k) \<leftarrow> rt_device_find nm (dk (con_dev s));
     let s = s\<lparr>con_dev := (con_dev s)\<lparr>dk := k\<rparr>\<rparr>;
     if new_device \<noteq> RT_NULL then do {
       s \<leftarrow> (if console_device s \<noteq> RT_NULL then do {
               (_, d) \<leftarrow> rt_device_close drv (console_device s) (con_dev s);
               Some (s\<lparr>con_dev := d\<rparr>)
             } else Some s);
       (_, d) \<leftarrow> rt_device_open drv new_device (RT_DEVICE_OFLAG_RDWR OR RT_DEVICE_FLAG_STREAM) (con_dev s);
       Some (old_device, s\<lparr>con_dev := d, console_device := new_device\<rparr>)
     } else Some (old_device, s)
   }"

definition console_write :: "unit driver \<Rightarrow> ptr \<Rightarrow> u32 \<Rightarrow> console \<Rightarrow> console option" where
  "console_write drv str len s = do {
     let dev = console_device s;
     let old_flag = open_flag (devices (con_dev s) dev);
     let d = upd_dev dev (\<lambda>x. x\<lparr>open_flag := open_flag x OR RT_DEVICE_FLAG_STREAM\<rparr>) (con_dev s);
     (_, d) \<leftarrow> rt_device_write drv dev 0 str len d;
     Some (s\<lparr>con_dev := upd_dev dev (\<lambda>x. x\<lparr>open_flag := old_flag\<rparr>) d\<rparr>)
   }"

text \<open>\<open>len\<close> is the length of the string at \<open>str\<close>.\<close>

definition rt_kputs :: "unit driver \<Rightarrow> (ptr \<Rightarrow> console \<Rightarrow> console) \<Rightarrow> ptr \<Rightarrow> u32 \<Rightarrow> console \<Rightarrow> console option" where
  "rt_kputs drv hw_console_output str len s =
     (if str = RT_NULL then Some s
      else if console_device s = RT_NULL then Some (hw_console_output str s)
      else console_write drv str len s)"

definition rt_kprintf ::
  "unit driver \<Rightarrow> (ptr \<Rightarrow> console \<Rightarrow> console) \<Rightarrow> ptr \<Rightarrow> string \<Rightarrow> va list \<Rightarrow> console \<Rightarrow> console option" where
  "rt_kprintf drv hw_console_output rt_log_buf fmt args s = do {
     let k = dk (con_dev s);
     (len, m) \<leftarrow> rt_vsnprintf rt_log_buf (RT_CONSOLEBUF_SIZE - 1) fmt args (bmem k);
     let s = s\<lparr>con_dev := (con_dev s)\<lparr>dk := k\<lparr>bmem := m\<rparr>\<rparr>\<rparr>;
     let len = (if len > RT_CONSOLEBUF_SIZE - 1 then RT_CONSOLEBUF_SIZE - 1 else len);
     if console_device s = RT_NULL then Some (hw_console_output rt_log_buf s)
     else console_write drv rt_log_buf len s
   }"

subsection \<open>The text of a format\<close>

text \<open>
  What a conversion prints, as a string: a number is its sign, its digits (at least as many as the
  precision) and filling up to the width, which stands at the right, between sign and digits as
  zeros, or at the left.
\<close>

function base_digits :: "nat \<Rightarrow> nat \<Rightarrow> nat list" where
  "base_digits b n = (if n < b \<or> b < 2 then [n] else base_digits b (n div b) @ [n mod b])"
  by pat_completeness auto
termination by (relation "measure snd") (auto intro: div_less_dividend)

declare base_digits.simps [simp del]

definition digit_chars :: "u8 \<Rightarrow> string" where
  "digit_chars type = (if type AND LARGE \<noteq> 0 then ''0123456789ABCDEF'' else ''0123456789abcdef'')"

definition radix :: "nat \<Rightarrow> nat" where
  "radix base = (if base = 10 then 10 else 16)"

definition sign_text :: "u32 \<Rightarrow> u8 \<Rightarrow> string" where
  "sign_text num type =
     (if type AND SIGN = 0 then []
      else if sint num < 0 then ''-'' else if type AND PLUS \<noteq> 0 then ''+'' else if type AND SPACE \<noteq> 0 then '' '' else [])"

definition magnitude :: "u32 \<Rightarrow> u8 \<Rightarrow> u32" where
  "magnitude num type = (if type AND SIGN \<noteq> 0 \<and> sint num < 0 then - num else num)"

definition digit_text :: "u32 \<Rightarrow> nat \<Rightarrow> u8 \<Rightarrow> string" where
  "digit_text num base type = map ((!) (digit_chars type)) (base_digits (radix base) (unat (magnitude num type)))"

definition number_text :: "u32 \<Rightarrow> nat \<Rightarrow> int \<Rightarrow> int \<Rightarrow> u8 \<Rightarrow> string" where
  "number_text num base s precision type =
     (let sgn = sign_text num type;
          ds = digit_text num base type;
          body = replicate (nat (precision - int (length ds))) (CHR ''0'') @ (if precision = 0 then [] else ds);
          fill = nat (s - max (int (length ds)) precision - int (length sgn))
      in if type AND LEFT \<noteq> 0 then sgn @ body @ replicate fill (CHR '' '')
         else if type AND ZEROPAD \<noteq> 0 then sgn @ replicate fill (CHR ''0'') @ body
         else replicate fill (CHR '' '') @ sgn @ body)"

declare fold_replicate [simp del]

lemma put_pos [simp]: "pos (fold (put lim) cs out) = pos out + length cs"
  by (induction cs arbitrary: out) (simp_all add: put_def Let_def)

lemma pad_loop_eq: "pad_loop lim c low n out = (min n low - 1, fold (put lim) (replicate (nat (n - low)) c) out)"
proof (induction lim c low n out rule: pad_loop.induct)
  case (1 lim c low n out)
  have "nat (n - low) = Suc (nat (n - 1 - low))" if "low < n" using that by simp
  with 1 show ?case by (subst pad_loop.simps) auto
qed

lemma space_loop_eq: "space_loop lim n out = (min n 1 - 1, fold (put lim) (replicate (nat (n - 1)) (CHR '' '')) out)"
proof (induction lim n out rule: space_loop.induct)
  case (1 lim n out)
  have "nat (n - 1) = Suc (nat (n - 1 - 1))" if "n - 1 > 0" using that by simp
  with 1 show ?case by (subst space_loop.simps) auto
qed

lemma number_loop_eq:
  "i \<le> length tmp \<Longrightarrow> number_loop lim tmp bak i out = (if bak = 0 then out else fold (put lim) (rev (take i tmp)) out)"
  by (induction i arbitrary: out) (auto simp: take_Suc_conv_app_nth)

lemma copy_loop_eq: "n \<le> length s \<Longrightarrow> copy_loop lim n s out = fold (put lim) (take n s) out"
  by (induction lim n s out rule: copy_loop.induct) (auto simp: chead_def neq_Nil_conv split: list.splits)

lemma strlen_le: "rt_strlen s \<le> length s"
  by (induction s) auto

lemma digit_loop_acc: "digit_loop ds base num tmp = tmp @ digit_loop ds base num []"
proof (induction "unat num" arbitrary: num tmp rule: less_induct)
  case less
  show ?case
  proof (cases "num = 0")
    case False
    let ?n = "snd (divide num base)"
    have "digit_loop ds base ?n t = t @ digit_loop ds base ?n []" for t using less [OF divide_smaller [OF False]] .
    note this [of "tmp @ [ds ! fst (divide num base)]"] this [of "[ds ! fst (divide num base)]"]
    then show ?thesis using False by (subst (1 2) digit_loop.simps) simp
  qed (simp add: digit_loop.simps)
qed

lemma divide_radix: "unat (snd (divide num base)) = unat num div radix base" "fst (divide num base) = unat num mod radix base"
  by (simp_all add: divide_def radix_def unat_div unat_mod)

lemma digit_loop_digits: "num \<noteq> 0 \<Longrightarrow> rev (digit_loop ds base num []) = map ((!) ds) (base_digits (radix base) (unat num))"
proof (induction "unat num" arbitrary: num rule: less_induct)
  case less
  have r: "radix base \<ge> 2" by (simp add: radix_def)
  let ?n = "snd (divide num base)"
  have d: "rev (digit_loop ds base num []) = rev (digit_loop ds base ?n []) @ [ds ! (unat num mod radix base)]"
    using less(2) by (subst digit_loop.simps, subst digit_loop_acc) (simp add: divide_radix)
  show ?case
  proof (cases "?n = 0")
    case True
    then have "unat num < radix base" using divide_radix(1) [of num base] r by (simp add: div_eq_0_iff)
    then show ?thesis using d True by (simp add: digit_loop.simps base_digits.simps)
  next
    case False
    have "\<not> unat num < radix base"
    proof
      assume "unat num < radix base"
      then have "unat ?n = 0" by (simp add: divide_radix)
      then show False using False by (simp add: unat_eq_0)
    qed
    moreover have "rev (digit_loop ds base ?n []) = map ((!) ds) (base_digits (radix base) (unat ?n))"
      using less(1) [OF _ False] divide_smaller [OF less(2)] by blast
    ultimately show ?thesis using d r by (subst base_digits.simps) (simp add: divide_radix)
  qed
qed

lemma base_digits_length: "n < b ^ k \<Longrightarrow> 0 < k \<Longrightarrow> 2 \<le> b \<Longrightarrow> length (base_digits b n) \<le> k"
proof (induction k arbitrary: n)
  case (Suc k)
  show ?case
  proof (cases "n < b")
    case False
    then have "k \<noteq> 0" using Suc(2) by (cases k) auto
    moreover have "n div b < b ^ k" using Suc(2,4) by (simp add: less_mult_imp_div_less mult.commute)
    ultimately show ?thesis using Suc(1) [of "n div b"] Suc(4) False by (subst base_digits.simps) simp
  qed (simp add: base_digits.simps)
qed simp

lemma digit_text_length: "0 < length (digit_text num base type) \<and> length (digit_text num base type) \<le> 10"
proof -
  let ?n = "unat (magnitude num type)"
  have "?n < 2 ^ 32" using unsigned_less [of "magnitude num type"] by simp
  then have "length (base_digits 10 ?n) \<le> 10" "length (base_digits 16 ?n) \<le> 8"
    by (intro base_digits_length; simp)+
  moreover have "base_digits b n \<noteq> []" for b n by (subst base_digits.simps) simp
  ultimately show ?thesis by (simp add: digit_text_def radix_def)
qed

lemma flag_masks:
  fixes t :: u8
  shows "(t AND NOT ZEROPAD) AND ZEROPAD = 0" "(t AND NOT ZEROPAD) AND SIGN = t AND SIGN" "(t AND NOT ZEROPAD) AND PLUS = t AND PLUS"
    "(t AND NOT ZEROPAD) AND SPACE = t AND SPACE" "(t AND NOT ZEROPAD) AND LEFT = t AND LEFT"
    "t AND (ZEROPAD OR LEFT) = 0 \<longleftrightarrow> t AND ZEROPAD = 0 \<and> t AND LEFT = 0"
  by (simp_all only: and.assoc bit.conj_disj_distrib or_eq_0_iff) simp_all

text \<open>The digits are collected backwards; 0 has one digit.\<close>

lemma tmp_digits:
  "rev (if magnitude num type = 0 then ''0'' else digit_loop (digit_chars type) base (magnitude num type) [])
     = digit_text num base type"
proof (cases "magnitude num type = 0")
  case True
  then show ?thesis by (simp add: digit_text_def radix_def base_digits.simps digit_chars_def)
qed (simp add: digit_text_def digit_loop_digits)

lemma number_sign_eq:
  "number_sign num type = (if sign_text num type = [] then NUL else hd (sign_text num type), magnitude num type)"
  "hd (sign_text num type) \<noteq> NUL \<or> sign_text num type = []" "sign_text num type = [] \<or> sign_text num type = [hd (sign_text num type)]"
  "number_sign num (type AND NOT ZEROPAD) = number_sign num type"
proof -
  show "number_sign num (type AND NOT ZEROPAD) = number_sign num type" unfolding number_sign_def flag_masks ..
qed (auto simp: number_sign_def sign_text_def magnitude_def)

definition number_fits :: "int \<Rightarrow> int \<Rightarrow> bool" where
  "number_fits s precision \<longleftrightarrow> - (2 ^ 31) + 8 \<le> s - max 16 precision"

lemma print_number_text:
  assumes "number_fits s precision"
  shows "print_number lim num base s precision type out = Some (fold (put lim) (number_text num base s precision type) out)"
proof -
  define sgn where "sgn = sign_text num type"
  define ds where "ds = digit_text num base type"
  define p where "p = max (int (length ds)) precision"
  have tmp: "(if magnitude num type = 0 then ''0'' else digit_loop (digit_chars type) base (magnitude num type) []) = rev ds"
    using tmp_digits [of num type base] by (simp add: ds_def rev_swap)
  have len: "0 < length ds" "length ds \<le> 10" using digit_text_length by (simp_all add: ds_def)
  have p: "(if int (length ds) > precision then int (length ds) else precision) = p" "int (length ds) \<le> p" "- (2 ^ 31) + 8 \<le> s - p"
    "nat (p - int (length ds)) = nat (precision - int (length ds))" "min p (int (length ds)) = int (length ds)"
    using assms len by (auto simp: p_def number_fits_def)
  define t where "t = (if type AND LEFT \<noteq> 0 then type AND NOT ZEROPAD else type)"
  have ns: "number_sign num t = (if sgn = [] then NUL else hd sgn, magnitude num type)"
  proof -
    have "number_sign num t = number_sign num type" unfolding t_def using number_sign_eq(4) by presburger
    then show ?thesis by (simp add: number_sign_eq(1) sgn_def)
  qed
  have tL: "t AND LEFT = type AND LEFT" unfolding t_def using flag_masks(5) by presburger
  have tZ: "t AND ZEROPAD = 0 \<longleftrightarrow> type AND LEFT \<noteq> 0 \<or> type AND ZEROPAD = 0"
    unfolding t_def using flag_masks(1) by presburger
  note body = print_number_def [of lim num base s precision type out, folded digit_chars_def t_def, unfolded Let_def ns flag_masks(6) prod.case tL tZ tmp
      length_rev p(1) pad_loop_eq number_loop_eq [of "length ds" "rev ds", simplified] p(4,5), folded t_def]
  have sg: "sgn = [] \<or> (\<exists>c. sgn = [c] \<and> c \<noteq> NUL)" using number_sign_eq(2,3) [of num type] by (auto simp: sgn_def)
  have r: "number_text num base s precision type = (let
      body = replicate (nat (precision - int (length ds))) (CHR ''0'') @ (if precision = 0 then [] else ds);
          fill = nat (s - p - int (length sgn))
      in if type AND LEFT \<noteq> 0 then sgn @ body @ replicate fill (CHR '' '')
         else if type AND ZEROPAD \<noteq> 0 then sgn @ replicate fill (CHR ''0'') @ body
         else replicate fill (CHR '' '') @ sgn @ body)"
    by (simp add: number_text_def Let_def sgn_def ds_def p_def)
  consider "type AND LEFT \<noteq> 0" | "type AND LEFT = 0" "type AND ZEROPAD \<noteq> 0" | "type AND LEFT = 0" "type AND ZEROPAD = 0" by blast
  then show ?thesis
  proof cases
    case 1
    then show ?thesis using sg len p(3) by (auto simp: r body)
  next
    case 2
    then show ?thesis using sg len p(3) by (auto simp: r body)
  next
    case 3
    then show ?thesis using sg len p(3) by (auto simp: r body)
  qed
qed

definition char_text :: "spec \<Rightarrow> va list \<Rightarrow> (string \<times> va list) option" where
  "char_text spc args = do {
     (c, args) \<leftarrow> va_int args;
     let s = [char_of (unat (ucast c :: u8))];
     let fill = replicate (nat (sp_width spc - 1)) (CHR '' '');
     Some (if sp_flags spc AND LEFT \<noteq> 0 then s @ fill else fill @ s, args)
   }"

definition string_text :: "spec \<Rightarrow> va list \<Rightarrow> (string \<times> va list) option" where
  "string_text spc args = do {
     (s, args) \<leftarrow> va_str args;
     let s = (case s of None \<Rightarrow> ''(NULL)'' | Some s \<Rightarrow> take (rt_strlen s) s);
     C_GUARD (length s < 2 ^ 31);
     let s = (if sp_precision spc > 0 then take (nat (sp_precision spc)) s else s);
     let fill = replicate (nat (sp_width spc - int (length s))) (CHR '' '');
     Some (if sp_flags spc AND LEFT \<noteq> 0 then s @ fill else fill @ s, args)
   }"

definition numeral_text :: "char \<Rightarrow> spec \<Rightarrow> va list \<Rightarrow> (string \<times> va list) option" where
  "numeral_text ch spc args = do {
     let base = (if ch = CHR ''o'' then 8 else if ch = CHR ''X'' \<or> ch = CHR ''x'' then 16 else 10);
     let flags = (if ch = CHR ''X'' then sp_flags spc OR LARGE
                  else if ch = CHR ''d'' \<or> ch = CHR ''i'' then sp_flags spc OR SIGN else sp_flags spc);
     (num, args) \<leftarrow> get_number (spc\<lparr>sp_flags := flags\<rparr>) args;
     C_GUARD (number_fits (sp_width spc) (sp_precision spc));
     Some (number_text num base (sp_width spc) (sp_precision spc) flags, args)
   }"

definition pointer_text :: "spec \<Rightarrow> va list \<Rightarrow> (string \<times> va list) option" where
  "pointer_text spc args = do {
     let (w, flags) = (if sp_width spc = - 1 then (8, sp_flags spc OR ZEROPAD) else (sp_width spc, sp_flags spc));
     (num, args) \<leftarrow> va_int args;
     C_GUARD (number_fits w (sp_precision spc));
     Some (number_text num 16 w (sp_precision spc) flags, args)
   }"

definition conversion_text :: "spec \<Rightarrow> string \<Rightarrow> va list \<Rightarrow> (string \<times> string \<times> va list) option" where
  "conversion_text spc fmt args =
     (let ch = chead fmt in
      if ch = CHR ''c'' then do { (t, args) \<leftarrow> char_text spc args; Some (t, tl fmt, args) }
      else if ch = CHR ''s'' then do { (t, args) \<leftarrow> string_text spc args; Some (t, tl fmt, args) }
      else if ch = CHR ''p'' then do { (t, args) \<leftarrow> pointer_text spc args; Some (t, tl fmt, args) }
      else if ch = CHR ''%'' then Some (''%'', tl fmt, args)
      else if ch \<in> {CHR ''o'', CHR ''X'', CHR ''x'', CHR ''d'', CHR ''i'', CHR ''u''}
      then do { (t, args) \<leftarrow> numeral_text ch spc args; Some (t, tl fmt, args) }
      else if ch \<noteq> NUL then Some ([CHR ''%'', ch], tl fmt, args) else Some (''%'', fmt, args))"

lemma conversion_text_length: "conversion_text spc fmt args = Some (t, fmt', args') \<Longrightarrow> length fmt' \<le> length fmt"
  by (auto simp: conversion_text_def Let_def bind_eq_Some_conv split: if_splits)

lemma conversion_parsed_length:
  "parse_spec fmt args = Some (spc, fmt', args') \<Longrightarrow> conversion_text spc fmt' args' = Some (t, fmt'', args'')
     \<Longrightarrow> length fmt'' < Suc (length fmt)"
  using parse_spec_length conversion_text_length by fastforce

function format_text :: "string \<Rightarrow> va list \<Rightarrow> string option" where
  "format_text [] args = Some []"
| "format_text (c # fmt) args =
     (if c = NUL then Some []
      else if c \<noteq> CHR ''%'' then map_option (Cons c) (format_text fmt args)
      else do {
        (spc, fmt, args) \<leftarrow> parse_spec fmt args;
        (t, fmt, args) \<leftarrow> conversion_text spc fmt args;
        map_option (append t) (format_text fmt args)
      })"
  by pat_completeness auto
termination by (relation "measure (\<lambda>(fmt, _). length fmt)") (auto simp: conversion_parsed_length)

lemma convert_char_text:
  "char_text spc args = Some (t, args') \<Longrightarrow> convert_char lim spc args out = Some (args', fold (put lim) t out)"
  by (auto simp: char_text_def convert_char_def space_loop_eq bind_eq_Some_conv Let_def)

lemma convert_string_text:
  assumes "string_text spc args = Some (t, args')"
  shows "convert_string lim spc args out = Some (args', fold (put lim) t out)"
proof -
  obtain s0 where s0: "va_str args = Some (s0, args')" using assms by (auto simp: string_text_def bind_eq_Some_conv Let_def)
  define s where "s = (case s0 of None \<Rightarrow> ''(NULL)'' | Some s \<Rightarrow> s)"
  define len where "len = (if sp_precision spc > 0 \<and> int (rt_strlen s) > sp_precision spc then nat (sp_precision spc) else rt_strlen s)"
  have le: "rt_strlen s \<le> length s" "len \<le> length s" using strlen_le [of s] by (auto simp: len_def)
  have cut: "(case s0 of None \<Rightarrow> ''(NULL)'' | Some s \<Rightarrow> take (rt_strlen s) s) = take (rt_strlen s) s"
    by (simp add: s_def split: option.split)
  have tk: "(if sp_precision spc > 0 then take (nat (sp_precision spc)) (take (rt_strlen s) s) else take (rt_strlen s) s) = take len s"
    by (auto simp: len_def min_def intro!: arg_cong [of _ _ "\<lambda>n. take n s"])
  have b: "rt_strlen s < 2 ^ 31" using assms s0 le(1) by (auto simp: string_text_def cut Let_def split: if_splits)
  have t: "t = (if sp_flags spc AND LEFT \<noteq> 0 then take len s @ replicate (nat (sp_width spc - int len)) (CHR '' '')
      else replicate (nat (sp_width spc - int len)) (CHR '' '') @ take len s)"
    using assms le(2) unfolding string_text_def s0 Option.bind.simps prod.case Let_def cut tk by (simp split: if_splits)
  show ?thesis using b le(2)
    unfolding convert_string_def s0 Option.bind.simps prod.case Let_def s_def [symmetric] len_def [symmetric]
    by (simp add: pad_loop_eq copy_loop_eq t)
qed

lemma convert_number_text:
  "numeral_text ch spc args = Some (t, args') \<Longrightarrow> convert_number lim ch spc args out = Some (args', fold (put lim) t out)"
  by (auto simp: numeral_text_def convert_number_def bind_eq_Some_conv Let_def print_number_text split: if_splits)

lemma convert_pointer_text:
  "pointer_text spc args = Some (t, args') \<Longrightarrow> convert_pointer lim spc args out = Some (args', fold (put lim) t out)"
  by (auto simp: pointer_text_def convert_pointer_def bind_eq_Some_conv Let_def print_number_text split: if_splits)

lemma convert_text:
  "conversion_text spc fmt args = Some (t, fmt', args')
     \<Longrightarrow> convert lim spc fmt args out = Some (fmt', args', fold (put lim) t out)"
  unfolding conversion_text_def convert_def Let_def
  by (auto simp: bind_eq_Some_conv convert_char_text convert_string_text convert_number_text convert_pointer_text split: if_splits)

lemma vsnprintf_loop_text:
  "format_text fmt args = Some t \<Longrightarrow> vsnprintf_loop lim fmt args out = Some (fold (put lim) t out)"
proof (induction fmt args arbitrary: t out rule: format_text.induct)
  case (2 c fmt args)
  show ?case
  proof (cases "c = NUL \<or> c \<noteq> CHR ''%''")
    case True
    then show ?thesis using 2 by (auto split: if_splits)
  next
    case False
    then obtain spc fmt1 args1 t1 fmt2 args2 t2 where p: "parse_spec fmt args = Some (spc, fmt1, args1)"
      "conversion_text spc fmt1 args1 = Some (t1, fmt2, args2)" "format_text fmt2 args2 = Some t2" "t = t1 @ t2"
      using 2(3) by (fastforce simp: bind_eq_Some_conv)
    then show ?thesis using 2(2) [OF _ _ p(1) refl refl p(2) refl refl p(3)] False convert_text [OF p(2)] by simp
  qed
qed simp

subsection \<open>What reaches the buffer\<close>

lemma put_mem:
  "omem (fold (put lim) cs out) p =
     (if pos out \<le> p \<and> p < pos out + length cs \<and> p < lim then of_char (cs ! (p - pos out)) else omem out p)"
proof (induction cs arbitrary: out)
  case (Cons c cs)
  show ?case using Cons [of "put lim c out"] by (auto simp: put_def Let_def nth_Cons' Suc_diff_Suc)
qed auto

lemma buffer_end_bounds:
  assumes "buf < 2 ^ 32"
  shows "buf \<le> buffer_end buf sz" "buffer_end buf sz < 2 ^ 32" "buffer_end buf sz \<le> buf + unat sz"
    "(buf + unat sz) mod 2 ^ 32 < buf \<longleftrightarrow> 2 ^ 32 \<le> buf + unat sz"
    "buf + unat sz < 2 ^ 32 \<Longrightarrow> buffer_end buf sz = buf + unat sz"
proof -
  have sz: "unat sz < 2 ^ 32" using unsigned_less [of sz] by simp
  show c: "(buf + unat sz) mod 2 ^ 32 < buf \<longleftrightarrow> 2 ^ 32 \<le> buf + unat sz"
  proof (cases "2 ^ 32 \<le> buf + unat sz")
    case True
    then have "(buf + unat sz) mod 2 ^ 32 = buf + unat sz - 2 ^ 32" using assms sz by (simp add: le_mod_geq)
    then show ?thesis using True sz by linarith
  qed simp
  show "buf \<le> buffer_end buf sz" "buffer_end buf sz < 2 ^ 32" "buffer_end buf sz \<le> buf + unat sz"
    "buf + unat sz < 2 ^ 32 \<Longrightarrow> buffer_end buf sz = buf + unat sz"
    using assms c by (auto simp: buffer_end_def Let_def)
qed

lemma vsnprintf_text:
  assumes "format_text fmt args = Some t" "buf + length t < 2 ^ 32" "buffer_end buf sz = buf + room"
  shows "\<exists>m'. rt_vsnprintf buf sz fmt args m = Some (of_nat (length t), m')
     \<and> (room > 0 \<longrightarrow> (\<forall>i < min (length t) (room - 1). m' (buf + i) = of_char (t ! i)) \<and> m' (buf + min (length t) (room - 1)) = 0)
     \<and> (\<forall>p. p < buf \<or> buf + room \<le> p \<longrightarrow> m' p = m p)"
proof -
  have buf: "buf < 2 ^ 32" using assms(2) by linarith
  let ?out = "fold (put (buf + room)) t \<lparr>pos = buf, omem = m\<rparr>"
  have "(if (buf + unat sz) mod 2 ^ 32 < buf then of_nat (buf + room - buf) else sz) > 0 \<longleftrightarrow> room > 0"
  proof (cases "2 ^ 32 \<le> buf + unat sz")
    case True
    have "room < 2 ^ 32" using buffer_end_bounds(2) [OF buf, of sz] assms(3) by linarith
    then have "unat (of_nat room :: u32) = room" by (simp add: unat_of_nat take_bit_nat_eq_self)
    then show ?thesis using True buffer_end_bounds(4) [OF buf, of sz] by (auto simp: word_gt_0 simp flip: unat_eq_0)
  next
    case False
    then have "room = unat sz" using buffer_end_bounds(5) [OF buf, of sz] assms(3) by simp
    then show ?thesis using False buffer_end_bounds(4) [OF buf, of sz] by (simp add: word_gt_0 unat_gt_0)
  qed
  then have "rt_vsnprintf buf sz fmt args m = Some (of_nat (length t),
      if room > 0 then if buf + length t < buf + room then (omem ?out)(buf + length t := 0) else (omem ?out)(buf + room - 1 := 0) else omem ?out)"
    using assms vsnprintf_loop_text [OF assms(1), of "buf + room" "\<lparr>pos = buf, omem = m\<rparr>"] by (simp add: rt_vsnprintf_def Let_def)
  then show ?thesis by (auto simp: put_mem min_def)
qed

text \<open>C16: \<^verbatim>\<open>rt_snprintf\<close> into a buffer of at least one byte, for a format whose text is \<open>t\<close>: it returns the length
  of the whole text, and the buffer holds as much of the text as fits, followed by a zero byte;
  no byte outside the buffer is changed, however long the text is. The text is that of the
  declarative \<open>format_text\<close>: sign, digits, precision, filling to the width.\<close>

theorem snprintf_spec:
  assumes "format_text fmt args = Some t" "buf + length t < 2 ^ 32" "buf + unat sz < 2 ^ 32" "0 < sz"
  shows "\<exists>m'. rt_snprintf buf sz fmt args m = Some (of_nat (length t), m')
     \<and> (let n = min (length t) (unat sz - 1) in (\<forall>i < n. m' (buf + i) = of_char (t ! i)) \<and> m' (buf + n) = 0)
     \<and> (\<forall>p. p < buf \<or> buf + unat sz \<le> p \<longrightarrow> m' p = m p)"
proof -
  have "buffer_end buf sz = buf + unat sz" using buffer_end_bounds(5) [of buf sz] assms(3) by simp
  moreover have "unat sz > 0" using assms(4) by (simp add: word_gt_0 unat_gt_0)
  ultimately show ?thesis using vsnprintf_text [OF assms(1,2), of sz "unat sz" m] by (simp add: rt_snprintf_def Let_def)
qed

theorem snprintf_spec_witness:
  "\<exists>m'. rt_snprintf 64 4 ''%3s|%c'' [VStr (Some ''ab''), VInt 67] (\<lambda>_. 255) = Some (5, m') \<and> m' 65 = 97 \<and> m' 67 = 0 \<and> m' 68 = 255"
proof -
  have f: "format_text ''%3s|%c'' [VStr (Some ''ab''), VInt 67] = Some '' ab|C''"
    by (simp add: parse_spec_def get_width_def get_precision_def get_qualifier_def isdigit_def chead_def conversion_text_def
        string_text_def char_text_def Let_def char_of_def bit_0)
  have n: "min (length '' ab|C'') (unat (4 :: u32) - 1) = 3" by simp
  obtain m' where m': "rt_snprintf 64 4 ''%3s|%c'' [VStr (Some ''ab''), VInt 67] (\<lambda>_. 255) = Some (of_nat (length '' ab|C''), m')"
    "\<forall>i < 3. m' (64 + i) = of_char ('' ab|C'' ! i)" "m' (64 + 3) = 0" "\<forall>p. p < 64 \<or> 64 + 4 \<le> p \<longrightarrow> m' p = 255"
    using snprintf_spec [OF f, of 64 4 "\<lambda>_. 255", unfolded n] by (auto simp: Let_def)
  have "m' 65 = 97" using m'(2) [rule_format, of 1] by simp
  then show ?thesis using m' by auto
qed

subsection \<open>Reading a printed number\<close>

lemma base_digits_value: "2 \<le> b \<Longrightarrow> foldl (\<lambda>i d. i * b + d) 0 (base_digits b n) = n"
proof (induction b n rule: base_digits.induct)
  case (1 b n)
  then show ?case by (subst base_digits.simps) auto
qed

lemma base_digits_less: "2 \<le> b \<Longrightarrow> d \<in> set (base_digits b n) \<Longrightarrow> d < b"
proof (induction b n rule: base_digits.induct)
  case (1 b n)
  then show ?case by (cases "n < b") (auto simp: base_digits.simps [of b n])
qed

lemma decimal_digit:
  assumes "d < 10"
  shows "isdigit (digit_chars type ! d)" "(of_char (digit_chars type ! d) :: int) = 48 + int d"
proof -
  have "d \<in> {0, 1, 2, 3, 4, 5, 6, 7, 8, 9}" using assms by auto
  then show "isdigit (digit_chars type ! d)" "(of_char (digit_chars type ! d) :: int) = 48 + int d"
    by (auto simp: isdigit_def digit_chars_def)
qed

lemma foldl_digits_ge: "i \<le> foldl (\<lambda>i d. i * 10 + d) (i :: nat) ds"
proof (induction ds arbitrary: i)
  case (Cons d ds)
  show ?case using Cons [of "i * 10 + d"] by simp
qed simp

lemma skip_atoi_digits:
  "\<forall>d \<in> set ds. d < 10 \<Longrightarrow> foldl (\<lambda>i d. i * 10 + d) i ds + 48 < 2 ^ 31 \<Longrightarrow>
   skip_atoi (map ((!) (digit_chars type)) ds) (int i) = Some (int (foldl (\<lambda>i d. i * 10 + d) i ds), [])"
proof (induction ds arbitrary: i)
  case (Cons d ds)
  have c: "(of_char (digit_chars type ! d) :: int) = 48 + int d" "isdigit (digit_chars type ! d)"
    using decimal_digit [of d type] Cons(2) by simp_all
  then have "int i * 10 + of_char (digit_chars type ! d) - of_char (CHR ''0'') = int (i * 10 + d)" by simp
  moreover have "i * 10 + d + 48 < 2 ^ 31" using Cons(3) foldl_digits_ge [of "i * 10 + d" ds] by simp
  then have "int i * 10 + of_char (digit_chars type ! d) < 2 ^ 31" using c(1) by simp
  ultimately show ?case using c(2) Cons(1) [of "i * 10 + d"] Cons(2,3) by (simp del: of_nat_mult of_nat_add)
qed simp

lemma magnitude_abs: "int (unat (magnitude num SIGN)) = \<bar>sint num\<bar>"
proof -
  have "- (2 ^ 31) \<le> sint num" "sint num < 2 ^ 31" using sint_ge [of num] sint_lt [of num] by simp_all
  then have "uint (word_of_int \<bar>sint num\<bar> :: u32) = \<bar>sint num\<bar>" unfolding uint_word_of_int by simp
  moreover have "word_of_int \<bar>sint num\<bar> = magnitude num SIGN" by (simp add: magnitude_def abs_if)
  ultimately show ?thesis by simp
qed

lemma decimal_text: "format_text ''%d'' [VInt w] = Some (sign_text w SIGN @ digit_text w 10 SIGN)"
  using digit_text_length [of w 10 SIGN]
  by (simp add: parse_spec_def get_width_def get_precision_def get_qualifier_def isdigit_def chead_def conversion_text_def
      numeral_text_def get_number_def number_fits_def number_text_def Let_def)

lemma decimal_read:
  assumes "\<bar>sint w\<bar> + 48 < 2 ^ 31"
  shows "skip_atoi (digit_text w 10 SIGN) 0 = Some (\<bar>sint w\<bar>, [])"
proof -
  have "int (unat (magnitude w SIGN) + 48) < int (2 ^ 31)" using assms magnitude_abs [of w] by simp
  then have "unat (magnitude w SIGN) + 48 < 2 ^ 31" by (simp only: of_nat_less_iff)
  then show ?thesis
    using skip_atoi_digits [of "base_digits 10 (unat (magnitude w SIGN))" 0 SIGN] base_digits_less [of 10]
    by (simp add: digit_text_def radix_def base_digits_value magnitude_abs del: of_nat_unat)
qed

lemma digits_no_sign:
  assumes "0 < length (digit_text w 10 SIGN)"
  shows "hd (digit_text w 10 SIGN) \<noteq> CHR ''-''"
proof
  assume h: "hd (digit_text w 10 SIGN) = CHR ''-''"
  obtain d where d: "d < 10" "hd (digit_text w 10 SIGN) = digit_chars SIGN ! d"
    using assms base_digits_less [of 10, OF _ hd_in_set] by (auto simp: digit_text_def radix_def hd_map)
  then have "isdigit (CHR ''-'')" using decimal_digit(1) [of d SIGN] h by metis
  then show False by (simp add: isdigit_def)
qed

text \<open>C17: A number printed with \<^verbatim>\<open>%d\<close> into a buffer of 12 bytes can be read back: for every 32-bit number the call
  returns, the buffer holds the text complete with its zero byte, and the text starts with a minus sign
  exactly for a negative number. Reading the digits behind the sign with the kernel's own \<^verbatim>\<open>skip_atoi\<close>
  consumes all of them and gives the absolute value, for every number whose absolute value is below
  \<open>2 ^ 31 - 48\<close>; for larger ones the \<^verbatim>\<open>int\<close> that \<^verbatim>\<open>skip_atoi\<close> computes in overflows.\<close>

theorem print_decimal_roundtrip:
  assumes "buf + 12 < 2 ^ 32"
  shows "\<exists>t m'. rt_snprintf buf 12 ''%d'' [VInt w] m = Some (of_nat (length t), m') \<and> length t < 12
     \<and> (\<forall>i < length t. m' (buf + i) = of_char (t ! i)) \<and> m' (buf + length t) = 0
     \<and> (hd t = CHR ''-'' \<longleftrightarrow> sint w < 0)
     \<and> (\<bar>sint w\<bar> < 2 ^ 31 - 48 \<longrightarrow> skip_atoi (if sint w < 0 then tl t else t) 0 = Some (\<bar>sint w\<bar>, []))"
proof -
  let ?t = "sign_text w SIGN @ digit_text w 10 SIGN"
  have s: "sign_text w SIGN = (if sint w < 0 then ''-'' else [])" by (simp add: sign_text_def)
  have len: "0 < length (digit_text w 10 SIGN)" "length ?t < 12" using digit_text_length [of w 10 SIGN] by (simp_all add: s)
  have b: "buffer_end buf 12 = buf + 12" using buffer_end_bounds(5) [of buf 12] assms by simp
  obtain m' where m': "rt_snprintf buf 12 ''%d'' [VInt w] m = Some (of_nat (length ?t), m')"
    "\<forall>i < length ?t. m' (buf + i) = of_char (?t ! i)" "m' (buf + length ?t) = 0"
    using vsnprintf_text [OF decimal_text [of w] _ b, of m] assms len by (auto simp: rt_snprintf_def min_def)
  have "hd (digit_text w 10 SIGN) \<noteq> CHR ''-''" by (rule digits_no_sign [OF len(1)])
  then have "hd ?t = CHR ''-'' \<longleftrightarrow> sint w < 0" using len(1) by (auto simp: s)
  moreover have "\<bar>sint w\<bar> < 2 ^ 31 - 48 \<longrightarrow> skip_atoi (if sint w < 0 then tl ?t else ?t) 0 = Some (\<bar>sint w\<bar>, [])"
    using decimal_read [of w] by (simp add: s)
  ultimately show ?thesis using m' len(2) by blast
qed

theorem print_decimal_roundtrip_witness:
  "\<exists>t m'. rt_snprintf 64 12 ''%d'' [VInt (- 2147483599)] (\<lambda>_. 255) = Some (of_nat (length t), m')
     \<and> hd t = CHR ''-'' \<and> skip_atoi (tl t) 0 = Some (2147483599, [])"
proof -
  have "sint (- 2147483599 :: u32) = - 2147483599" by simp
  then show ?thesis using print_decimal_roundtrip [of 64 "- 2147483599" "\<lambda>_. 255"] by auto
qed

text \<open>The digits of the largest \<^verbatim>\<open>int\<close> overflow on the way, although the number itself would fit.\<close>

lemma skip_atoi_overflow: "skip_atoi ''2147483647'' 0 = None"
  by (simp add: isdigit_def)

subsection \<open>Where the output is not what was asked for\<close>

text \<open>
  Octal numbers are printed in hexadecimal; a precision of 0 suppresses every number, not only 0;
  and a string with precision 0 is printed in full.
\<close>

lemma octal_prints_hex: "format_text ''%o'' [VInt w] = format_text ''%x'' [VInt w]"
  by (simp add: parse_spec_def get_width_def get_precision_def get_qualifier_def isdigit_def chead_def conversion_text_def
      numeral_text_def get_number_def number_fits_def number_text_def digit_text_def radix_def Let_def)

lemma precision_zero:
  "format_text ''%.0u'' [VInt w] = Some []"
  "NUL \<notin> set s \<Longrightarrow> length s < 2 ^ 31 \<Longrightarrow> format_text ''%.0s'' [VStr (Some s)] = Some s"
proof -
  show "format_text ''%.0u'' [VInt w] = Some []"
    using digit_text_length [of w 10 0]
    by (simp add: parse_spec_def get_width_def get_precision_def get_qualifier_def isdigit_def chead_def conversion_text_def
        numeral_text_def get_number_def number_fits_def number_text_def sign_text_def Let_def)
  assume s: "NUL \<notin> set s" "length s < 2 ^ 31"
  have "rt_strlen s = length s" using s(1) by (induction s) auto
  then show "format_text ''%.0s'' [VStr (Some s)] = Some s" using s(2)
    by (simp add: parse_spec_def get_width_def get_precision_def get_qualifier_def isdigit_def chead_def conversion_text_def
        string_text_def Let_def)
qed

text \<open>
  A line that does not fit the console buffer: 126 characters and the zero byte are in the buffer,
  but 127 bytes are handed to the device, so the zero byte is sent with them.
\<close>

lemma kprintf_sends_zero:
  assumes "format_text fmt args = Some t" "127 \<le> length t" "rt_log_buf + length t < 2 ^ 32" "console_device s \<noteq> RT_NULL"
  shows "\<exists>m'. m' (rt_log_buf + 126) = 0 \<and> rt_kprintf drv hw rt_log_buf fmt args s
     = console_write drv rt_log_buf 127 (s\<lparr>con_dev := (con_dev s)\<lparr>dk := (dk (con_dev s))\<lparr>bmem := m'\<rparr>\<rparr>\<rparr>)"
proof -
  have b: "buffer_end rt_log_buf 127 = rt_log_buf + 127" using buffer_end_bounds(5) [of rt_log_buf 127] assms(2,3) by simp
  obtain m' where m': "rt_vsnprintf rt_log_buf 127 fmt args (bmem (dk (con_dev s))) = Some (of_nat (length t), m')" "m' (rt_log_buf + 126) = 0"
    using vsnprintf_text [OF assms(1,3) b, of "bmem (dk (con_dev s))"] assms(2) by (auto simp: min_def)
  have "unat (of_nat (length t) :: u32) = length t" using assms(3) by (simp add: unat_of_nat take_bit_nat_eq_self)
  then have "(if (of_nat (length t) :: u32) > 127 then 127 else of_nat (length t)) = (127 :: u32)"
    using assms(2) by (auto simp: word_less_nat_alt word_unat_eq_iff)
  then show ?thesis using m' assms(4) by (auto simp: rt_kprintf_def Let_def)
qed

end
