(* ===== verification/RT_MemHeap.thy ===== *)
theory RT_MemHeap
  imports RT_Heap
begin

text \<open>
  Memory heap objects (\<^verbatim>\<open>src/memheap.c\<close>): an allocator for any number of areas. Every area is cut into
  blocks, each behind a \<^verbatim>\<open>struct rt_memheap_item\<close>; all items of an area form one doubly linked ring in
  the order of their addresses, the free ones a second ring with a header in the heap object. The
  two pairs of link fields are two heaps of list links as in \<open>RT_List\<close>, written field by field in
  the order of the code; its lemmas on rings carry the proofs.

  The semaphore of a heap object guards it. A call that has to wait for it ends in \<open>Waiting\<close> (or
  \<open>Blocked\<close>); the \<open>_locked\<close> definitions are what the thread does when it has the semaphore.
\<close>

subsection \<open>State\<close>

record rt_memheap =
  mh_start :: ptr
  pool_size :: u32
  available_size :: u32
  max_used_size :: u32
  mh_block_list :: ptr
  mh_free_list :: ptr

text \<open>The items: magic number and pool of each, the links of the blocks, the links of the free list.\<close>

record mh_state =
  memheaps :: "ptr \<Rightarrow> rt_memheap"
  mi_magic :: "ptr \<Rightarrow> u32"
  pool_ptr :: "ptr \<Rightarrow> ptr"
  mi_links :: list_heap
  mi_free :: list_heap
  mk :: kernel

abbreviation (input) RT_MEMHEAP_MAGIC :: u32 where "RT_MEMHEAP_MAGIC \<equiv> 0x1ea01ea0"
abbreviation (input) RT_MEMHEAP_MASK :: u32 where "RT_MEMHEAP_MASK \<equiv> 0xfffffffe"
abbreviation (input) RT_MEMHEAP_USED :: u32 where "RT_MEMHEAP_USED \<equiv> 1"
abbreviation (input) RT_MEMHEAP_SIZE :: u32 where "RT_MEMHEAP_SIZE \<equiv> 24"
abbreviation (input) RT_MEMHEAP_MINIALLOC :: u32 where "RT_MEMHEAP_MINIALLOC \<equiv> 12"

text \<open>The free list header and the semaphore lie inside the heap object.\<close>

definition free_header :: "ptr \<Rightarrow> ptr" where
  "free_header heap = heap + 44"

definition mh_lock :: "ptr \<Rightarrow> ptr" where
  "mh_lock heap = heap + 68"

definition mi_next :: "mh_state \<Rightarrow> ptr \<Rightarrow> ptr" where "mi_next s i = lnext (mi_links s) i"
definition mi_prev :: "mh_state \<Rightarrow> ptr \<Rightarrow> ptr" where "mi_prev s i = lprev (mi_links s) i"
definition next_free :: "mh_state \<Rightarrow> ptr \<Rightarrow> ptr" where "next_free s i = lnext (mi_free s) i"
definition prev_free :: "mh_state \<Rightarrow> ptr \<Rightarrow> ptr" where "prev_free s i = lprev (mi_free s) i"

definition set_next :: "ptr \<Rightarrow> ptr \<Rightarrow> mh_state \<Rightarrow> mh_state" where
  "set_next i p s = s\<lparr>mi_links := (mi_links s)\<lparr>lnext := (lnext (mi_links s))(i := p)\<rparr>\<rparr>"

definition set_prev :: "ptr \<Rightarrow> ptr \<Rightarrow> mh_state \<Rightarrow> mh_state" where
  "set_prev i p s = s\<lparr>mi_links := (mi_links s)\<lparr>lprev := (lprev (mi_links s))(i := p)\<rparr>\<rparr>"

definition set_next_free :: "ptr \<Rightarrow> ptr \<Rightarrow> mh_state \<Rightarrow> mh_state" where
  "set_next_free i p s = s\<lparr>mi_free := (mi_free s)\<lparr>lnext := (lnext (mi_free s))(i := p)\<rparr>\<rparr>"

definition set_prev_free :: "ptr \<Rightarrow> ptr \<Rightarrow> mh_state \<Rightarrow> mh_state" where
  "set_prev_free i p s = s\<lparr>mi_free := (mi_free s)\<lparr>lprev := (lprev (mi_free s))(i := p)\<rparr>\<rparr>"

definition upd_mh :: "ptr \<Rightarrow> (rt_memheap \<Rightarrow> rt_memheap) \<Rightarrow> mh_state \<Rightarrow> mh_state" where
  "upd_mh heap f s = s\<lparr>memheaps := (memheaps s)(heap := f (memheaps s heap))\<rparr>"

definition set_item :: "ptr \<Rightarrow> u32 \<Rightarrow> ptr \<Rightarrow> mh_state \<Rightarrow> mh_state" where
  "set_item i mg pool s = s\<lparr>mi_magic := (mi_magic s)(i := mg), pool_ptr := (pool_ptr s)(i := pool)\<rparr>"

definition is_used :: "mh_state \<Rightarrow> ptr \<Rightarrow> bool" where
  "is_used s i \<longleftrightarrow> mi_magic s i AND RT_MEMHEAP_USED \<noteq> 0"

definition MEMITEM_SIZE :: "mh_state \<Rightarrow> ptr \<Rightarrow> u32" where
  "MEMITEM_SIZE s i = of_nat (mi_next s i) - of_nat i - RT_MEMHEAP_SIZE"

subsection \<open>Linking\<close>

text \<open>A new item behind another one; an item at the head of the free list; an item leaving it.\<close>

definition link_block :: "ptr \<Rightarrow> ptr \<Rightarrow> mh_state \<Rightarrow> mh_state" where
  "link_block new_ptr header_ptr s =
     (let s = set_prev new_ptr header_ptr s;
          s = set_next new_ptr (mi_next s header_ptr) s;
          s = set_prev (mi_next s header_ptr) new_ptr s
      in set_next header_ptr new_ptr s)"

definition link_free :: "ptr \<Rightarrow> ptr \<Rightarrow> mh_state \<Rightarrow> mh_state" where
  "link_free heap item s =
     (let l = mh_free_list (memheaps s heap);
          s = set_next_free item (next_free s l) s;
          s = set_prev_free item l s;
          s = set_prev_free (next_free s l) item s
      in set_next_free l item s)"

definition unlink_free :: "ptr \<Rightarrow> mh_state \<Rightarrow> mh_state" where
  "unlink_free item s =
     (let s = set_prev_free (next_free s item) (prev_free s item) s
      in set_next_free (prev_free s item) (next_free s item) s)"

definition remove_free :: "ptr \<Rightarrow> mh_state \<Rightarrow> mh_state" where
  "remove_free item s =
     (let s = unlink_free item s;
          s = set_next_free item RT_NULL s
      in set_prev_free item RT_NULL s)"

subsection \<open>Operations\<close>

definition rt_memheap_init :: "ptr \<Rightarrow> string \<Rightarrow> ptr \<Rightarrow> u32 \<Rightarrow> mh_state \<Rightarrow> (err \<times> mh_state) option" where
  "rt_memheap_init memheap nm start_addr sz s = do {
     RT_ASSERT (memheap \<noteq> RT_NULL);
     k \<leftarrow> rt_object_init memheap RT_Object_Class_MemHeap nm (mk s);
     let s = s\<lparr>mk := k\<rparr>;
     let s = upd_mh memheap (\<lambda>m. m\<lparr>mh_start := start_addr, pool_size := RT_ALIGN_DOWN sz RT_ALIGN_SIZE\<rparr>) s;
     let s = upd_mh memheap (\<lambda>m. m\<lparr>available_size := pool_size m - 2 * RT_MEMHEAP_SIZE\<rparr>) s;
     let s = upd_mh memheap (\<lambda>m. m\<lparr>max_used_size := pool_size m - available_size m\<rparr>) s;
     let item = free_header memheap;
     let s = set_item item RT_MEMHEAP_MAGIC memheap s;
     let s = set_prev item RT_NULL (set_next item RT_NULL s);
     let s = set_prev_free item item (set_next_free item item s);
     let s = upd_mh memheap (\<lambda>m. m\<lparr>mh_free_list := item\<rparr>) s;
     let item = start_addr;
     let s = set_item item RT_MEMHEAP_MAGIC memheap s;
     let s = set_prev item RT_NULL (set_next item RT_NULL s);
     let s = set_prev_free item item (set_next_free item item s);
     let s = set_next item (item + unat (available_size (memheaps s memheap) + RT_MEMHEAP_SIZE)) s;
     let s = set_prev item (mi_next s item) s;
     let s = upd_mh memheap (\<lambda>m. m\<lparr>mh_block_list := item\<rparr>) s;
     let s = link_free memheap item s;
     let item = mi_next s item;
     let s = set_item item (RT_MEMHEAP_MAGIC OR RT_MEMHEAP_USED) memheap s;
     let s = set_prev item start_addr (set_next item start_addr s);
     let s = set_next_free item RT_NULL (set_prev_free item RT_NULL s);
     (_, k) \<leftarrow> rt_sem_init (mh_lock memheap) nm 1 RT_IPC_FLAG_FIFO (mk s);
     Some (RT_EOK, s\<lparr>mk := k\<rparr>)
   }"

definition rt_memheap_detach :: "ptr \<Rightarrow> mh_state \<Rightarrow> (err \<times> mh_state) option" where
  "rt_memheap_detach heap s = do {
     RT_ASSERT (heap \<noteq> RT_NULL);
     ASSERT_TYPE heap RT_Object_Class_MemHeap (mk s);
     ASSERT_SYSTEM heap True (mk s);
     k \<leftarrow> rt_object_detach (mh_lock heap) (mk s);
     k \<leftarrow> rt_object_detach heap k;
     Some (RT_EOK, s\<lparr>mk := k\<rparr>)
   }"

text \<open>The semaphore is taken without a time limit; \<open>None\<close> inside: the caller waits.\<close>

definition mh_take_lock :: "ptr \<Rightarrow> mh_state \<Rightarrow> (err option \<times> mh_state) option" where
  "mh_take_lock heap s = do {
     (out, k) \<leftarrow> rt_sem_take (mh_lock heap) RT_WAITING_FOREVER (mk s);
     let s = s\<lparr>mk := k\<rparr>;
     case out of
       Blocked \<Rightarrow> Some (None, s)
     | Done result \<Rightarrow> Some (Some result, if result \<noteq> RT_EOK then s\<lparr>mk := rt_set_errno result k\<rparr> else s)
   }"

definition mh_release_lock :: "ptr \<Rightarrow> mh_state \<Rightarrow> mh_state option" where
  "mh_release_lock heap s = do {
     (_, k) \<leftarrow> rt_sem_release (mh_lock heap) (mk s);
     Some (s\<lparr>mk := k\<rparr>)
   }"

definition mh_account :: "ptr \<Rightarrow> u32 \<Rightarrow> mh_state \<Rightarrow> mh_state" where
  "mh_account heap n s =
     (let s = upd_mh heap (\<lambda>m. m\<lparr>available_size := available_size m - n\<rparr>) s
      in upd_mh heap (\<lambda>m. if pool_size m - available_size m > max_used_size m
                       then m\<lparr>max_used_size := pool_size m - available_size m\<rparr> else m) s)"

partial_function (option) mh_search :: "ptr \<Rightarrow> u32 \<Rightarrow> ptr \<Rightarrow> u32 \<Rightarrow> mh_state \<Rightarrow> (ptr \<times> u32) option" where
  "mh_search free_list sz header_ptr free_size s =
     (if header_ptr \<noteq> free_list \<and> free_size < sz then
        (let free_size = MEMITEM_SIZE s header_ptr
         in if free_size < sz then mh_search free_list sz (next_free s header_ptr) free_size s
            else mh_search free_list sz header_ptr free_size s)
      else Some (header_ptr, free_size))"

definition mh_take_block :: "ptr \<Rightarrow> u32 \<Rightarrow> ptr \<Rightarrow> u32 \<Rightarrow> mh_state \<Rightarrow> mh_state" where
  "mh_take_block heap sz header_ptr free_size s =
     (let s = (if free_size \<ge> sz + RT_MEMHEAP_SIZE + RT_MEMHEAP_MINIALLOC then
                 (let new_ptr = header_ptr + unat (sz + RT_MEMHEAP_SIZE);
                      s = set_item new_ptr RT_MEMHEAP_MAGIC heap s;
                      s = link_block new_ptr header_ptr s;
                      s = remove_free header_ptr s;
                      s = link_free heap new_ptr s
                  in mh_account heap (sz + RT_MEMHEAP_SIZE) s)
               else remove_free header_ptr (mh_account heap free_size s))
      in s\<lparr>mi_magic := (mi_magic s)(header_ptr := mi_magic s header_ptr OR RT_MEMHEAP_USED)\<rparr>)"

definition memheap_alloc_locked :: "ptr \<Rightarrow> u32 \<Rightarrow> mh_state \<Rightarrow> (alloc_outcome \<times> mh_state) option" where
  "memheap_alloc_locked heap sz s = do {
     let l = mh_free_list (memheaps s heap);
     (header_ptr, free_size) \<leftarrow> mh_search l sz (next_free s l) 0 s;
     if free_size \<ge> sz then do {
       let s = mh_take_block heap sz header_ptr free_size s;
       s \<leftarrow> mh_release_lock heap s;
       Some (Block (header_ptr + unat RT_MEMHEAP_SIZE), s)
     }
     else do {
       s \<leftarrow> mh_release_lock heap s;
       Some (Block RT_NULL, s)
     }
   }"

definition rt_memheap_alloc :: "ptr \<Rightarrow> u32 \<Rightarrow> mh_state \<Rightarrow> (alloc_outcome \<times> mh_state) option" where
  "rt_memheap_alloc heap sz s = do {
     RT_ASSERT (heap \<noteq> RT_NULL);
     ASSERT_TYPE heap RT_Object_Class_MemHeap (mk s);
     let sz = RT_ALIGN sz RT_ALIGN_SIZE;
     let sz = (if sz < RT_MEMHEAP_MINIALLOC then RT_MEMHEAP_MINIALLOC else sz);
     if sz < available_size (memheaps s heap) then do {
       (r, s) \<leftarrow> mh_take_lock heap s;
       case r of
         None \<Rightarrow> Some (Waiting, s)
       | Some result \<Rightarrow> if result \<noteq> RT_EOK then Some (Block RT_NULL, s) else memheap_alloc_locked heap sz s
     }
     else Some (Block RT_NULL, s)
   }"

text \<open>Freeing: the block fuses with its free neighbours; only a block that did not fuse with the left one joins the free list.\<close>

definition free_left :: "ptr \<Rightarrow> ptr \<Rightarrow> mh_state \<Rightarrow> ptr \<times> bool \<times> mh_state" where
  "free_left heap header_ptr s =
     (if \<not> is_used s (mi_prev s header_ptr) then
        (let s = upd_mh heap (\<lambda>m. m\<lparr>available_size := available_size m + RT_MEMHEAP_SIZE\<rparr>) s;
             s = set_next (mi_prev s header_ptr) (mi_next s header_ptr) s;
             s = set_prev (mi_next s header_ptr) (mi_prev s header_ptr) s
         in (mi_prev s header_ptr, False, s))
      else (header_ptr, True, s))"

definition free_right :: "ptr \<Rightarrow> ptr \<Rightarrow> mh_state \<Rightarrow> mh_state" where
  "free_right heap header_ptr s =
     (if \<not> is_used s (mi_next s header_ptr) then
        (let s = upd_mh heap (\<lambda>m. m\<lparr>available_size := available_size m + RT_MEMHEAP_SIZE\<rparr>) s;
             new_ptr = mi_next s header_ptr;
             s = set_prev (mi_next s new_ptr) header_ptr s;
             s = set_next header_ptr (mi_next s new_ptr) s
         in unlink_free new_ptr s)
      else s)"

definition free_block :: "ptr \<Rightarrow> ptr \<Rightarrow> mh_state \<Rightarrow> mh_state" where
  "free_block heap header_ptr s =
     (let s = s\<lparr>mi_magic := (mi_magic s)(header_ptr := mi_magic s header_ptr AND NOT RT_MEMHEAP_USED)\<rparr>;
          s = upd_mh heap (\<lambda>m. m\<lparr>available_size := available_size m + MEMITEM_SIZE s header_ptr\<rparr>) s;
          (header_ptr, insert_header, s) = free_left heap header_ptr s;
          s = free_right heap header_ptr s
      in if insert_header then link_free heap header_ptr s else s)"

definition memheap_free_locked :: "ptr \<Rightarrow> ptr \<Rightarrow> mh_state \<Rightarrow> (outcome \<times> mh_state) option" where
  "memheap_free_locked heap header_ptr s = do {
     s \<leftarrow> mh_release_lock heap (free_block heap header_ptr s);
     Some (Done RT_EOK, s)
   }"

definition rt_memheap_free :: "ptr \<Rightarrow> mh_state \<Rightarrow> (outcome \<times> mh_state) option" where
  "rt_memheap_free p s =
     (if p = RT_NULL then Some (Done RT_EOK, s)
      else do {
        C_GUARD (unat RT_MEMHEAP_SIZE \<le> p);
        let header_ptr = p - unat RT_MEMHEAP_SIZE;
        RT_ASSERT (mi_magic s header_ptr AND RT_MEMHEAP_MASK = RT_MEMHEAP_MAGIC);
        RT_ASSERT (is_used s header_ptr);
        RT_ASSERT (mi_magic s (mi_next s header_ptr) AND RT_MEMHEAP_MASK = RT_MEMHEAP_MAGIC);
        let heap = pool_ptr s header_ptr;
        RT_ASSERT (heap \<noteq> RT_NULL);
        ASSERT_TYPE heap RT_Object_Class_MemHeap (mk s);
        (r, s) \<leftarrow> mh_take_lock heap s;
        case r of
          None \<Rightarrow> Some (Blocked, s)
        | Some result \<Rightarrow> if result \<noteq> RT_EOK then Some (Done RT_EOK, s) else memheap_free_locked heap header_ptr s
      })"

text \<open>
  Reallocation. A block grows into a free right neighbour, or moves; it shrinks when the rest can
  hold a block. Unlike the free list code of \<open>mh_take_block\<close>, the neighbour's own links are left as
  they are.
\<close>

definition grow_in_place :: "ptr \<Rightarrow> ptr \<Rightarrow> ptr \<Rightarrow> ptr \<Rightarrow> u32 \<Rightarrow> u32 \<Rightarrow> mh_state \<Rightarrow> mh_state" where
  "grow_in_place heap p header_ptr next_ptr newsize oldsize s =
     (let s = mh_account heap (newsize - oldsize) s;
          s = unlink_free next_ptr s;
          s = set_prev (mi_next s next_ptr) (mi_prev s next_ptr) s;
          s = set_next (mi_prev s next_ptr) (mi_next s next_ptr) s;
          next_ptr = p + unat newsize;
          s = set_item next_ptr RT_MEMHEAP_MAGIC heap s;
          s = link_block next_ptr header_ptr s
      in link_free heap next_ptr s)"

definition realloc_elsewhere :: "ptr \<Rightarrow> ptr \<Rightarrow> u32 \<Rightarrow> u32 \<Rightarrow> mh_state \<Rightarrow> (alloc_outcome \<times> mh_state) option" where
  "realloc_elsewhere heap p newsize oldsize s = do {
     (new_ptr, s) \<leftarrow> rt_memheap_alloc heap newsize s;
     case new_ptr of
       Waiting \<Rightarrow> Some (Waiting, s)
     | Block a \<Rightarrow>
         if a \<noteq> RT_NULL then do {
           m \<leftarrow> rt_memcpy a p (unat (if oldsize < newsize then oldsize else newsize)) (bmem (mk s));
           (out, s) \<leftarrow> rt_memheap_free p (s\<lparr>mk := (mk s)\<lparr>bmem := m\<rparr>\<rparr>);
           Some (if out = Blocked then Waiting else new_ptr, s)
         }
         else Some (new_ptr, s)
   }"

definition realloc_grow_locked :: "ptr \<Rightarrow> ptr \<Rightarrow> ptr \<Rightarrow> u32 \<Rightarrow> u32 \<Rightarrow> mh_state \<Rightarrow> (alloc_outcome \<times> mh_state) option" where
  "realloc_grow_locked heap p header_ptr newsize oldsize s = do {
     let next_ptr = mi_next s header_ptr;
     RT_ASSERT (next_ptr > header_ptr);
     if \<not> is_used s next_ptr \<and> MEMITEM_SIZE s next_ptr + oldsize > newsize + RT_MEMHEAP_MINIALLOC then do {
       s \<leftarrow> mh_release_lock heap (grow_in_place heap p header_ptr next_ptr newsize oldsize s);
       Some (Block p, s)
     }
     else do {
       s \<leftarrow> mh_release_lock heap s;
       realloc_elsewhere heap p newsize oldsize s
     }
   }"

definition shrink_block :: "ptr \<Rightarrow> ptr \<Rightarrow> u32 \<Rightarrow> mh_state \<Rightarrow> mh_state" where
  "shrink_block heap header_ptr newsize s =
     (let new_ptr = header_ptr + unat (newsize + RT_MEMHEAP_SIZE);
          s = set_item new_ptr RT_MEMHEAP_MAGIC heap s;
          s = link_block new_ptr header_ptr s;
          s = (if \<not> is_used s (mi_next s new_ptr) then
                 (let free_ptr = mi_next s new_ptr;
                      s = upd_mh heap (\<lambda>m. m\<lparr>available_size := available_size m - MEMITEM_SIZE s free_ptr\<rparr>) s;
                      s = set_prev (mi_next s free_ptr) new_ptr s;
                      s = set_next new_ptr (mi_next s free_ptr) s
                  in unlink_free free_ptr s)
               else s);
          s = link_free heap new_ptr s
      in upd_mh heap (\<lambda>m. m\<lparr>available_size := available_size m + MEMITEM_SIZE s new_ptr\<rparr>) s)"

definition rt_memheap_realloc :: "ptr \<Rightarrow> ptr \<Rightarrow> u32 \<Rightarrow> mh_state \<Rightarrow> (alloc_outcome \<times> mh_state) option" where
  "rt_memheap_realloc heap p newsize s = do {
     RT_ASSERT (heap \<noteq> RT_NULL);
     ASSERT_TYPE heap RT_Object_Class_MemHeap (mk s);
     if newsize = 0 then do {
       (out, s) \<leftarrow> rt_memheap_free p s;
       Some (if out = Blocked then Waiting else Block RT_NULL, s)
     }
     else do {
       let newsize = RT_ALIGN newsize RT_ALIGN_SIZE;
       let newsize = (if newsize < RT_MEMHEAP_MINIALLOC then RT_MEMHEAP_MINIALLOC else newsize);
       if p = RT_NULL then rt_memheap_alloc heap newsize s
       else do {
         C_GUARD (unat RT_MEMHEAP_SIZE \<le> p);
         let header_ptr = p - unat RT_MEMHEAP_SIZE;
         let oldsize = MEMITEM_SIZE s header_ptr;
         if newsize > oldsize then do {
           (r, s) \<leftarrow> mh_take_lock heap s;
           case r of
             None \<Rightarrow> Some (Waiting, s)
           | Some result \<Rightarrow>
               if result \<noteq> RT_EOK then Some (Block RT_NULL, s)
               else realloc_grow_locked heap p header_ptr newsize oldsize s
         }
         else if newsize + RT_MEMHEAP_SIZE + RT_MEMHEAP_MINIALLOC \<ge> oldsize then Some (Block p, s)
         else do {
           (r, s) \<leftarrow> mh_take_lock heap s;
           case r of
             None \<Rightarrow> Some (Waiting, s)
           | Some result \<Rightarrow>
               if result \<noteq> RT_EOK then Some (Block RT_NULL, s)
               else do {
                 s \<leftarrow> mh_release_lock heap (shrink_block heap header_ptr newsize s);
                 Some (Block p, s)
               }
         }
       }
     }
   }"

text \<open>
  The heap interface of the kernel on top of memory heaps (\<^verbatim>\<open>RT_USING_MEMHEAP_AS_HEAP\<close>). The default
  heap object is at address \<open>dh\<close>; the other heap objects are tried in the order of the container.
\<close>

definition rt_system_heap_init_memheap :: "ptr \<Rightarrow> ptr \<Rightarrow> ptr \<Rightarrow> mh_state \<Rightarrow> mh_state option" where
  "rt_system_heap_init_memheap dh begin_addr end_addr s = do {
     (_, s) \<leftarrow> rt_memheap_init dh ''heap'' begin_addr (of_nat end_addr - of_nat begin_addr) s;
     Some s
   }"

fun malloc_others :: "ptr \<Rightarrow> u32 \<Rightarrow> ptr list \<Rightarrow> mh_state \<Rightarrow> (alloc_outcome \<times> mh_state) option" where
  "malloc_others dh sz [] s = Some (Block RT_NULL, s)"
| "malloc_others dh sz (heap # heaps) s = do {
     RT_ASSERT (heap \<noteq> RT_NULL);
     ASSERT_TYPE heap RT_Object_Class_MemHeap (mk s);
     if heap = dh then malloc_others dh sz heaps s
     else do {
       (p, s) \<leftarrow> rt_memheap_alloc heap sz s;
       if p = Block RT_NULL then malloc_others dh sz heaps s else Some (p, s)
     }
   }"

definition rt_malloc_memheap :: "ptr \<Rightarrow> u32 \<Rightarrow> mh_state \<Rightarrow> (alloc_outcome \<times> mh_state) option" where
  "rt_malloc_memheap dh sz s = do {
     (p, s) \<leftarrow> rt_memheap_alloc dh sz s;
     if p = Block RT_NULL then do {
       RT_ASSERT (rt_object_get_information RT_Object_Class_MemHeap \<noteq> None);
       malloc_others dh sz (object_list (mk s) RT_Object_Class_MemHeap) s
     }
     else Some (p, s)
   }"

definition rt_free_memheap :: "ptr \<Rightarrow> mh_state \<Rightarrow> (outcome \<times> mh_state) option" where
  "rt_free_memheap rmem s = rt_memheap_free rmem s"

definition rt_realloc_memheap :: "ptr \<Rightarrow> ptr \<Rightarrow> u32 \<Rightarrow> mh_state \<Rightarrow> (alloc_outcome \<times> mh_state) option" where
  "rt_realloc_memheap dh rmem newsize s =
     (if rmem = RT_NULL then rt_malloc_memheap dh newsize s
      else if newsize = 0 then do {
        (out, s) \<leftarrow> rt_free_memheap rmem s;
        Some (if out = Blocked then Waiting else Block RT_NULL, s)
      }
      else do {
        C_GUARD (unat RT_MEMHEAP_SIZE \<le> rmem);
        let header_ptr = rmem - unat RT_MEMHEAP_SIZE;
        (p, s) \<leftarrow> rt_memheap_realloc (pool_ptr s header_ptr) rmem newsize s;
        if p = Block RT_NULL then do {
          (p, s) \<leftarrow> rt_malloc_memheap dh newsize s;
          case p of
            Waiting \<Rightarrow> Some (Waiting, s)
          | Block a \<Rightarrow>
              if a \<noteq> RT_NULL then do {
                let oldsize = MEMITEM_SIZE s header_ptr;
                m \<leftarrow> rt_memcpy a rmem (unat (if newsize > oldsize then oldsize else newsize)) (bmem (mk s));
                (out, s) \<leftarrow> rt_free_memheap rmem (s\<lparr>mk := (mk s)\<lparr>bmem := m\<rparr>\<rparr>);
                Some (if out = Blocked then Waiting else p, s)
              }
              else Some (p, s)
        }
        else Some (p, s)
      })"

definition rt_calloc_memheap :: "ptr \<Rightarrow> u32 \<Rightarrow> u32 \<Rightarrow> mh_state \<Rightarrow> (alloc_outcome \<times> mh_state) option" where
  "rt_calloc_memheap dh count sz s = do {
     (p, s) \<leftarrow> rt_malloc_memheap dh (count * sz) s;
     case p of
       Waiting \<Rightarrow> Some (Waiting, s)
     | Block a \<Rightarrow>
         Some (p, if a \<noteq> RT_NULL then s\<lparr>mk := (mk s)\<lparr>bmem := rt_memset a 0 (unat (count * sz)) (bmem (mk s))\<rparr>\<rparr> else s)
   }"

subsection \<open>The invariant\<close>

text \<open>
  \<open>bs\<close> are the addresses of the items in ascending order, without the used item at the end of the
  area (\<open>mh_tail\<close>); \<open>fs\<close> is the free list. A block reaches from its item to the next one.
\<close>

definition mh_tail :: "mh_state \<Rightarrow> ptr \<Rightarrow> ptr" where
  "mh_tail s heap = mh_start (memheaps s heap) + unat (pool_size (memheaps s heap)) - 24"

definition apart :: "ptr \<Rightarrow> ptr \<Rightarrow> bool" where
  "apart a b \<longleftrightarrow> a + 36 \<le> b \<and> 4 dvd b - a"

fun free_sum :: "(ptr \<Rightarrow> bool) \<Rightarrow> ptr list \<Rightarrow> ptr \<Rightarrow> nat" where
  "free_sum u [] t = 0"
| "free_sum u (b # bs) t = (if u b then 0 else hd (bs @ [t]) - b - 24) + free_sum u bs t"

definition mh_core :: "ptr \<Rightarrow> mh_state \<Rightarrow> ptr list \<Rightarrow> ptr list \<Rightarrow> bool" where
  "mh_core heap s bs fs \<longleftrightarrow>
     (let m = memheaps s heap; t = mh_tail s heap
      in mh_free_list m = free_header heap \<and> 0 < mh_start m \<and> mh_start m + unat (pool_size m) < 2 ^ 32
       \<and> (free_header heap < mh_start m \<or> mh_start m + unat (pool_size m) \<le> free_header heap)
       \<and> bs \<noteq> [] \<and> hd bs = mh_start m \<and> 24 \<le> unat (pool_size m)
       \<and> ring (mi_links s) t bs \<and> ring (mi_free s) (free_header heap) fs \<and> set fs \<subseteq> set bs
       \<and> successively apart (bs @ [t])
       \<and> (\<forall>b \<in> set (t # bs). mi_magic s b \<in> {RT_MEMHEAP_MAGIC, RT_MEMHEAP_MAGIC OR RT_MEMHEAP_USED} \<and> pool_ptr s b = heap)
       \<and> is_used s t \<and> unat (available_size m) = free_sum (is_used s) bs t)"

definition mh_inv :: "ptr \<Rightarrow> mh_state \<Rightarrow> ptr list \<Rightarrow> ptr list \<Rightarrow> bool" where
  "mh_inv heap s bs fs \<longleftrightarrow> mh_core heap s bs fs \<and> set fs = {b \<in> set bs. \<not> is_used s b}
     \<and> successively (\<lambda>a b. is_used s a \<or> is_used s b) bs"

lemma mh_coreD:
  assumes "mh_core heap s bs fs"
  shows "mh_free_list (memheaps s heap) = free_header heap" "0 < mh_start (memheaps s heap)"
    "mh_start (memheaps s heap) + unat (pool_size (memheaps s heap)) < 2 ^ 32" "bs \<noteq> []" "hd bs = mh_start (memheaps s heap)"
    "ring (mi_links s) (mh_tail s heap) bs" "ring (mi_free s) (free_header heap) fs" "set fs \<subseteq> set bs"
    "successively apart (bs @ [mh_tail s heap])"
    "b \<in> set (mh_tail s heap # bs) \<Longrightarrow> mi_magic s b \<in> {RT_MEMHEAP_MAGIC, RT_MEMHEAP_MAGIC OR RT_MEMHEAP_USED} \<and> pool_ptr s b = heap"
    "is_used s (mh_tail s heap)" "unat (available_size (memheaps s heap)) = free_sum (is_used s) bs (mh_tail s heap)"
    "free_header heap < mh_start (memheaps s heap) \<or> mh_start (memheaps s heap) + unat (pool_size (memheaps s heap)) \<le> free_header heap"
    "mh_tail s heap + 24 < 2 ^ 32" "24 \<le> unat (pool_size (memheaps s heap))"
  using assms by (auto simp: mh_core_def Let_def mh_tail_def)

text \<open>Ascending addresses.\<close>

lemma apart_trans: "apart a b \<Longrightarrow> apart b c \<Longrightarrow> apart a c"
  using dvd_add [of 4 "b - a" "c - b"] by (auto simp: apart_def)

lemma successively_sorted: "successively apart bs \<longleftrightarrow> sorted_wrt apart bs"
  by (rule successively_conv_sorted_wrt) (auto intro: transpI apart_trans)

lemma apart_less: "apart a b \<Longrightarrow> a < b"
  by (simp add: apart_def)

lemma core_bounds:
  assumes "mh_core heap s bs fs" "b \<in> set bs"
  shows "mh_start (memheaps s heap) \<le> b" "b < mh_tail s heap" "b + 36 \<le> mh_tail s heap" "4 dvd b - mh_start (memheaps s heap)"
    "b \<noteq> free_header heap"
proof -
  have so: "sorted_wrt apart (bs @ [mh_tail s heap])" using mh_coreD(9) [OF assms(1)] by (simp only: successively_sorted)
  then show t: "b + 36 \<le> mh_tail s heap" "b < mh_tail s heap" using assms(2) by (auto simp: sorted_wrt_append apart_def)
  have "b = hd bs \<or> apart (hd bs) b" using so assms(2) by (cases bs) (auto simp: sorted_wrt_append)
  then show g: "mh_start (memheaps s heap) \<le> b" "4 dvd b - mh_start (memheaps s heap)"
    using mh_coreD(5) [OF assms(1)] by (auto simp: apart_def)
  show "b \<noteq> free_header heap" using g(1) t(1) mh_coreD(13) [OF assms(1)] by (auto simp: mh_tail_def)
qed

lemma free_sum_append: "free_sum u (xs @ y # ys) t = free_sum u xs y + free_sum u (y # ys) t"
proof (induction xs)
  case (Cons x xs)
  then show ?case by (cases xs) auto
qed simp

lemma free_sum_cong: "(\<And>b. b \<in> set bs \<Longrightarrow> u b = u' b) \<Longrightarrow> free_sum u bs t = free_sum u' bs t"
  by (induction bs) auto

text \<open>The neighbours of a block in the ring.\<close>

lemma ring_neighbours:
  assumes "ring h t (xs @ b # ys)"
  shows "lnext h b = hd (ys @ [t])" "lprev h b = last (t # xs)"
proof -
  have r: "ring h b (ys @ t # xs)" using assms by (simp add: ring_rotate)
  show "lnext h b = hd (ys @ [t])" using r ring_next [of h b] by (cases ys) auto
  have "ring h b ((ys @ butlast (t # xs)) @ [last (t # xs)])" using r append_butlast_last_id [of "t # xs"] by (metis append_assoc list.distinct(1))
  then show "lprev h b = last (t # xs)" by (rule ring_prev)
qed

lemma core_next:
  assumes "mh_core heap s (xs @ b # ys) fs"
  shows "mi_next s b = hd (ys @ [mh_tail s heap])" "mi_prev s b = last (mh_tail s heap # xs)"
    "apart b (mi_next s b)" "mi_next s b + 24 < 2 ^ 32" "unat (MEMITEM_SIZE s b) = mi_next s b - b - 24"
proof -
  let ?t = "mh_tail s heap"
  show n: "mi_next s b = hd (ys @ [?t])" "mi_prev s b = last (?t # xs)"
    using ring_neighbours [OF mh_coreD(6) [OF assms]] by (simp_all add: mi_next_def mi_prev_def)
  have "successively apart (b # ys @ [?t])" using mh_coreD(9) [OF assms] by (simp add: successively_append_iff)
  then show a: "apart b (mi_next s b)" by (cases ys) (simp_all add: n)
  have "mi_next s b \<le> ?t" using core_bounds(2) [OF assms, of "hd ys"] n(1) by (cases ys) auto
  then show l: "mi_next s b + 24 < 2 ^ 32" using mh_coreD(14) [OF assms] by linarith
  have "MEMITEM_SIZE s b = of_nat (mi_next s b - b - 24)" using a by (simp add: MEMITEM_SIZE_def apart_def of_nat_diff)
  then show "unat (MEMITEM_SIZE s b) = mi_next s b - b - 24"
    using l unfolding unat_of_nat by (simp add: unat_of_nat take_bit_nat_eq_self del: of_nat_diff)
qed

subsection \<open>Linking is list surgery\<close>

lemmas link_defs = set_next_def set_prev_def set_next_free_def set_prev_free_def mi_next_def mi_prev_def next_free_def prev_free_def Let_def

lemma link_block_eq:
  assumes "n \<noteq> b" "n \<noteq> mi_next s b"
  shows "link_block n b s = s\<lparr>mi_links := rt_list_insert_after b n (mi_links s)\<rparr>"
  using assms by (simp add: link_block_def link_defs rt_list_insert_after_def fun_upd_twist)

lemma link_free_eq:
  assumes "mh_free_list (memheaps s heap) = l" "n \<noteq> l" "n \<noteq> next_free s l"
  shows "link_free heap n s = s\<lparr>mi_free := rt_list_insert_after l n (mi_free s)\<rparr>"
  using assms by (simp add: link_free_def link_defs rt_list_insert_after_def fun_upd_twist)

text \<open>Two heaps of links that differ at one node only.\<close>

definition same_but :: "ptr \<Rightarrow> list_heap \<Rightarrow> list_heap \<Rightarrow> bool" where
  "same_but n h h' \<longleftrightarrow> (\<forall>a. a \<noteq> n \<longrightarrow> lnext h' a = lnext h a \<and> lprev h' a = lprev h a)"

lemma ring_unlinked:
  assumes "ring h l (xs @ n # ys)" "same_but n (rt_list_remove n h) h'"
  shows "ring h' l (xs @ ys)"
proof -
  have "n \<notin> insert l (set (xs @ ys))" using assms(1) by (auto simp: ring_def)
  then have "lnext h' a = lnext (rt_list_remove n h) a \<and> lprev h' a = lprev (rt_list_remove n h) a" if "a \<in> insert l (set (xs @ ys))" for a
    using assms(2) that unfolding same_but_def by metis
  then show ?thesis using ring_frame [OF ring_remove [OF assms(1)]] by blast
qed

lemma ring_no_loop: "ring h l (xs @ n # ys) \<Longrightarrow> lnext h n \<noteq> n \<and> lprev h n \<noteq> n"
proof -
  assume r: "ring h l (xs @ n # ys)"
  then have "hd (ys @ [l]) \<noteq> n" by (cases ys) (auto simp: ring_def)
  moreover have "last (l # xs) \<noteq> n" using r by (cases xs rule: rev_cases) (auto simp: ring_def)
  ultimately show ?thesis using ring_neighbours [OF r] by simp
qed

lemma unlink_free_same:
  assumes "ring (mi_free s) l (xs @ n # ys)"
  shows "same_but n (rt_list_remove n (mi_free s)) (mi_free (unlink_free n s))"
    "same_but n (rt_list_remove n (mi_free s)) (mi_free (remove_free n s))"
  using ring_no_loop [OF assms]
  by (auto simp: same_but_def unlink_free_def remove_free_def link_defs rt_list_remove_def)

lemma unlink_free_rest:
  "unlink_free n s = s\<lparr>mi_free := mi_free (unlink_free n s)\<rparr>" "remove_free n s = s\<lparr>mi_free := mi_free (remove_free n s)\<rparr>"
  by (simp_all add: unlink_free_def remove_free_def link_defs)

text \<open>An item behind another one.\<close>

lemma ring_insert_behind:
  assumes "ring h t (xs @ b # ys)" "n \<notin> set (t # xs @ b # ys)"
  shows "ring (rt_list_insert_after b n h) t (xs @ b # n # ys)"
proof -
  have "ring h b (ys @ t # xs)" using assms(1) by (simp add: ring_rotate)
  then have "ring (rt_list_insert_after b n h) b ((n # ys) @ t # xs)" using ring_insert_after [of h b "ys @ t # xs" n] assms(2) by simp
  then show ?thesis by (simp only: ring_rotate append.simps)
qed

lemma insert_after_next: "n \<noteq> b \<Longrightarrow> lnext (rt_list_insert_after b n h) = (lnext h)(n := lnext h b, b := n)"
  by (simp add: rt_list_insert_after_def Let_def)

subsection \<open>Searching\<close>

lemma mh_search_find:
  assumes "ring (mi_free s) l (us @ vs)" "fz < sz"
  shows "\<exists>p n. mh_search l sz (hd (vs @ [l])) fz s = Some (p, n)
    \<and> (case find (\<lambda>b. sz \<le> MEMITEM_SIZE s b) vs of None \<Rightarrow> n < sz | Some b \<Rightarrow> p = b \<and> n = MEMITEM_SIZE s b)"
  using assms
proof (induction vs arbitrary: us fz)
  case Nil
  then show ?case by (simp add: mh_search.simps)
next
  case (Cons v vs)
  have v: "v \<noteq> l" "next_free s v = hd (vs @ [l])"
    using Cons(2) ring_neighbours(1) [OF Cons(2)] by (auto simp: ring_def next_free_def)
  show ?case
  proof (cases "sz \<le> MEMITEM_SIZE s v")
    case True
    then show ?thesis using v Cons(3) by (subst mh_search.simps) (simp add: Let_def not_less [symmetric] mh_search.simps [of l sz v "MEMITEM_SIZE s v"])
  next
    case False
    then show ?thesis using v Cons(1) [of "us @ [v]" "MEMITEM_SIZE s v"] Cons(2,3) by (subst mh_search.simps) (simp add: Let_def flip: not_le)
  qed
qed

subsection \<open>Taking a block\<close>

lemma mh_core_change:
  assumes core: "mh_core heap s bs fs"
    and heap: "mh_start (memheaps s' heap) = mh_start (memheaps s heap)" "pool_size (memheaps s' heap) = pool_size (memheaps s heap)"
      "mh_free_list (memheaps s' heap) = mh_free_list (memheaps s heap)"
    and lists: "bs' \<noteq> []" "hd bs' = hd bs" "ring (mi_links s') (mh_tail s heap) bs'" "ring (mi_free s') (free_header heap) fs'"
      "set fs' \<subseteq> set bs'" "successively apart (bs' @ [mh_tail s heap])"
    and items: "\<And>b. b \<in> set bs' \<Longrightarrow> mi_magic s' b \<in> {RT_MEMHEAP_MAGIC, RT_MEMHEAP_MAGIC OR RT_MEMHEAP_USED} \<and> pool_ptr s' b = heap"
      "mi_magic s' (mh_tail s heap) = mi_magic s (mh_tail s heap)" "pool_ptr s' (mh_tail s heap) = pool_ptr s (mh_tail s heap)"
    and sum: "unat (available_size (memheaps s' heap)) = free_sum (is_used s') bs' (mh_tail s heap)"
  shows "mh_core heap s' bs' fs'" "mh_tail s' heap = mh_tail s heap"
proof -
  show t: "mh_tail s' heap = mh_tail s heap" using heap by (simp add: mh_tail_def)
  note d = mh_coreD [OF core]
  have "is_used s' (mh_tail s heap)" using d(11) items(2) by (simp add: is_used_def)
  then show "mh_core heap s' bs' fs'" using d(1-3,5,13,15) d(10) [of "mh_tail s heap"] heap lists items sum t
    unfolding mh_core_def Let_def by auto
qed

lemma mh_account_simps [simp]:
  "mi_magic (mh_account heap n s) = mi_magic s" "pool_ptr (mh_account heap n s) = pool_ptr s" "mi_links (mh_account heap n s) = mi_links s"
  "mi_free (mh_account heap n s) = mi_free s" "mk (mh_account heap n s) = mk s"
  "mh_start (memheaps (mh_account heap n s) heap) = mh_start (memheaps s heap)"
  "pool_size (memheaps (mh_account heap n s) heap) = pool_size (memheaps s heap)"
  "mh_free_list (memheaps (mh_account heap n s) heap) = mh_free_list (memheaps s heap)"
  "available_size (memheaps (mh_account heap n s) heap) = available_size (memheaps s heap) - n"
  "heap' \<noteq> heap \<Longrightarrow> memheaps (mh_account heap n s) heap' = memheaps s heap'"
  by (simp_all add: mh_account_def upd_mh_def Let_def)

lemma mh_account_upd [simp]:
  "memheaps (mh_account heap n (s\<lparr>mi_free := x\<rparr>)) = memheaps (mh_account heap n s)"
  "memheaps (mh_account heap n (s\<lparr>mi_links := y\<rparr>)) = memheaps (mh_account heap n s)"
  "memheaps (mh_account heap n (set_item i g p s)) = memheaps (mh_account heap n s)"
  by (simp_all add: mh_account_def upd_mh_def Let_def set_item_def)

lemma used_magic:
  "mi_magic s b \<in> {RT_MEMHEAP_MAGIC, RT_MEMHEAP_MAGIC OR RT_MEMHEAP_USED} \<Longrightarrow>
     is_used s b \<longleftrightarrow> mi_magic s b = RT_MEMHEAP_MAGIC OR RT_MEMHEAP_USED"
  by (auto simp: is_used_def)

lemma free_list_next:
  assumes "ring h l fs"
  shows "lnext h l \<in> insert l (set fs)"
  using assms by (rule ring_next_in)

text \<open>The state after a block was taken whole, and after it was split.\<close>

lemma take_whole_eq:
  assumes "\<not> free_size \<ge> sz + RT_MEMHEAP_SIZE + RT_MEMHEAP_MINIALLOC"
  shows "mh_take_block heap sz b free_size s =
    (mh_account heap free_size s)\<lparr>mi_free := mi_free (remove_free b s), mi_magic := (mi_magic s)(b := mi_magic s b OR RT_MEMHEAP_USED)\<rparr>"
proof -
  have "remove_free b (mh_account heap free_size s) = (mh_account heap free_size s)\<lparr>mi_free := mi_free (remove_free b s)\<rparr>"
    by (simp add: remove_free_def unlink_free_def link_defs)
  then show ?thesis using assms by (simp add: mh_take_block_def Let_def)
qed

lemma take_split_eq:
  assumes "free_size \<ge> sz + RT_MEMHEAP_SIZE + RT_MEMHEAP_MINIALLOC" and n: "n = b + unat (sz + RT_MEMHEAP_SIZE)"
    and new: "n \<noteq> b" "n \<noteq> mi_next s b" and l: "mh_free_list (memheaps s heap) = l" "n \<noteq> l" "n \<noteq> lnext (mi_free (remove_free b s)) l"
  shows "mh_take_block heap sz b free_size s =
    (mh_account heap (sz + RT_MEMHEAP_SIZE) s)\<lparr>mi_magic := (mi_magic s)(n := RT_MEMHEAP_MAGIC, b := mi_magic s b OR RT_MEMHEAP_USED),
       pool_ptr := (pool_ptr s)(n := heap), mi_links := rt_list_insert_after b n (mi_links s),
       mi_free := rt_list_insert_after l n (mi_free (remove_free b s))\<rparr>"
proof -
  let ?s1 = "(set_item n RT_MEMHEAP_MAGIC heap s)\<lparr>mi_links := rt_list_insert_after b n (mi_links s)\<rparr>"
  have s1: "link_block n b (set_item n RT_MEMHEAP_MAGIC heap s) = ?s1"
    using link_block_eq [of n b "set_item n RT_MEMHEAP_MAGIC heap s"] new by (simp add: set_item_def mi_next_def)
  have s2: "remove_free b ?s1 = ?s1\<lparr>mi_free := mi_free (remove_free b s)\<rparr>"
    by (simp add: remove_free_def unlink_free_def link_defs set_item_def)
  have "link_free heap n (?s1\<lparr>mi_free := mi_free (remove_free b s)\<rparr>)
      = ?s1\<lparr>mi_free := rt_list_insert_after l n (mi_free (remove_free b s))\<rparr>"
    using link_free_eq [of "?s1\<lparr>mi_free := mi_free (remove_free b s)\<rparr>" heap l n] l by (simp add: set_item_def next_free_def)
  then show ?thesis using assms(1) new(1) unfolding mh_take_block_def Let_def n [symmetric] s1 s2
    by (simp add: mh_account_def upd_mh_def set_item_def Let_def)
qed

lemma ring_removed_free:
  assumes "ring (mi_free s) l (us @ b # vs)"
  shows "ring (mi_free (unlink_free b s)) l (us @ vs)" "ring (mi_free (remove_free b s)) l (us @ vs)"
  using ring_unlinked [OF assms] unlink_free_same [OF assms] by auto

text \<open>The bytes of a block that is taken are no longer available.\<close>

lemma free_sum_use:
  assumes "b \<notin> set xs" "b \<notin> set ys" "\<not> u b"
  shows "free_sum u (xs @ b # ys) t = free_sum (u(b := True)) (xs @ b # ys) t + (hd (ys @ [t]) - b - 24)"
proof -
  have "free_sum (u(b := True)) xs b = free_sum u xs b" "free_sum (u(b := True)) ys t = free_sum u ys t"
    using assms by (auto intro!: free_sum_cong split: if_splits)
  then show ?thesis using assms(3) by (simp add: free_sum_append)
qed

lemma take_whole_inv:
  assumes inv: "mh_inv heap s (xs @ b # ys) (us @ b # vs)" and small: "\<not> MEMITEM_SIZE s b \<ge> sz + RT_MEMHEAP_SIZE + RT_MEMHEAP_MINIALLOC"
    and s': "s' = mh_take_block heap sz b (MEMITEM_SIZE s b) s"
  shows "mh_inv heap s' (xs @ b # ys) (us @ vs)" "mh_tail s' heap = mh_tail s heap" "is_used s' = (is_used s)(b := True)" "mi_links s' = mi_links s"
proof -
  let ?bs = "xs @ b # ys"
  have core: "mh_core heap s ?bs (us @ b # vs)" and fs: "set (us @ b # vs) = {x \<in> set ?bs. \<not> is_used s x}"
    and adj: "successively (\<lambda>x y. is_used s x \<or> is_used s y) ?bs" using inv by (simp_all add: mh_inv_def)
  note d = mh_coreD [OF core]
  have dist: "distinct ?bs" "distinct (us @ b # vs)" using d(6,7) by (simp_all add: ring_def)
  have free: "\<not> is_used s b" "b \<in> set ?bs" using fs by auto
  have eq: "s' = (mh_account heap (MEMITEM_SIZE s b) s)\<lparr>mi_free := mi_free (remove_free b s), mi_magic := (mi_magic s)(b := mi_magic s b OR RT_MEMHEAP_USED)\<rparr>"
    using take_whole_eq [OF small] s' by simp
  have mg: "mi_magic s b = RT_MEMHEAP_MAGIC" using d(10) [of b] free used_magic [of s b] by auto
  show u: "is_used s' = (is_used s)(b := True)" by (rule ext) (simp add: eq is_used_def mg)
  have "free_sum (is_used s) ?bs (mh_tail s heap) = free_sum (is_used s') ?bs (mh_tail s heap) + unat (MEMITEM_SIZE s b)"
    using free_sum_use [of b xs ys "is_used s"] dist(1) free(1) core_next(1,5) [OF core] u by simp
  moreover from this have "MEMITEM_SIZE s b \<le> available_size (memheaps s heap)" using d(12) by (simp add: word_le_nat_alt)
  ultimately have "unat (available_size (memheaps s' heap)) = free_sum (is_used s') ?bs (mh_tail s heap)"
    using d(12) by (simp add: eq unat_sub)
  moreover have "b \<noteq> mh_tail s heap" using core_bounds(2) [OF core free(2)] by simp
  moreover have "mi_magic s' x \<in> {RT_MEMHEAP_MAGIC, RT_MEMHEAP_MAGIC OR RT_MEMHEAP_USED} \<and> pool_ptr s' x = heap" if "x \<in> set ?bs" for x
    using d(10) [of x] that mg by (auto simp: eq)
  moreover have "ring (mi_free s') (free_header heap) (us @ vs)" using ring_removed_free(2) [OF d(7)] by (simp add: eq)
  moreover have "set (us @ vs) \<subseteq> set ?bs" using d(8) by auto
  ultimately have c: "mh_core heap s' ?bs (us @ vs)" and t: "mh_tail s' heap = mh_tail s heap"
    using mh_core_change [OF core, of s' ?bs "us @ vs"] d(6,9) by (simp_all add: eq)
  show "mh_tail s' heap = mh_tail s heap" by (rule t)
  have "set (us @ vs) = {x \<in> set ?bs. \<not> is_used s' x}" using fs dist(2) by (auto simp: u)
  moreover have "successively (\<lambda>x y. is_used s' x \<or> is_used s' y) ?bs"
    using adj by (rule successively_mono) (auto simp: u)
  ultimately show "mh_inv heap s' ?bs (us @ vs)" using c by (simp add: mh_inv_def)
  show "mi_links s' = mi_links s" by (simp add: eq)
qed

lemma take_split_inv:
  assumes inv: "mh_inv heap s (xs @ b # ys) (us @ b # vs)" and split: "MEMITEM_SIZE s b \<ge> sz + RT_MEMHEAP_SIZE + RT_MEMHEAP_MINIALLOC"
    and sz: "12 \<le> unat sz" "4 dvd unat sz" "sz \<le> MEMITEM_SIZE s b"
    and s': "s' = mh_take_block heap sz b (MEMITEM_SIZE s b) s"
  shows "mh_inv heap s' (xs @ b # (b + 24 + unat sz) # ys) ((b + 24 + unat sz) # us @ vs)" "mh_tail s' heap = mh_tail s heap"
    "is_used s' = (is_used s)(b := True, b + 24 + unat sz := False)"
proof -
  let ?bs = "xs @ b # ys" and ?n = "b + 24 + unat sz" and ?t = "mh_tail s heap" and ?nx = "mi_next s b"
  have core: "mh_core heap s ?bs (us @ b # vs)" and fs: "set (us @ b # vs) = {x \<in> set ?bs. \<not> is_used s x}"
    and adj: "successively (\<lambda>x y. is_used s x \<or> is_used s y) ?bs" using inv by (simp_all add: mh_inv_def)
  note d = mh_coreD [OF core] and nx = core_next [OF core]
  have dist: "distinct ?bs" "distinct (us @ b # vs)" using d(6,7) by (simp_all add: ring_def)
  have free: "\<not> is_used s b" "b \<in> set ?bs" using fs by auto
  have w: "unat (sz + 24) = unat sz + 24" "unat sz + 36 \<le> ?nx - b - 24"
  proof -
    have "unat sz + 36 < 2 ^ 32" using sz(3) nx(4,5) by (simp add: word_le_nat_alt)
    then have "unat (sz + 24) = unat sz + 24" "unat (sz + 24 + 12) = unat sz + 36" by (simp_all add: unat_word_ariths)
    then show "unat (sz + 24) = unat sz + 24" "unat sz + 36 \<le> ?nx - b - 24" using split nx(5) by (simp_all add: word_le_nat_alt)
  qed
  have n: "?n = b + unat (sz + 24)" "b < ?n" "?n < ?nx" "apart b ?n" "apart ?n ?nx"
  proof -
    have "4 dvd (?nx - b) - (24 + unat sz)" using nx(3) sz(2) dvd_diff_nat [of 4 "?nx - b" "24 + unat sz"] by (simp add: apart_def)
    then show "?n = b + unat (sz + 24)" "b < ?n" "?n < ?nx" "apart b ?n" "apart ?n ?nx"
      using w sz(1,2) nx(3) by (auto simp: apart_def add.assoc)
  qed
  have gap: "x \<noteq> ?n" if "x \<in> set (?t # ?bs)" for x
  proof -
    have "sorted_wrt apart (?bs @ [?t])" using d(9) by (simp only: successively_sorted)
    then have "x \<le> b \<or> ?nx \<le> x" using that nx(1) apart_less by (cases ys) (fastforce simp: sorted_wrt_append)+
    then show ?thesis using n(2,3) by auto
  qed
  have hdr: "?n \<noteq> free_header heap"
    using core_bounds(1) [OF core free(2)] n(2,3) d(13,14,15) nx(1) core_bounds(2) [OF core, of "hd ys"]
    by (cases ys) (auto simp: mh_tail_def)
  have rf: "ring (mi_free (remove_free b s)) (free_header heap) (us @ vs)" by (rule ring_removed_free(2) [OF d(7)])
  have "?n \<noteq> lnext (mi_free (remove_free b s)) (free_header heap)"
    using ring_next_in [OF rf] hdr gap d(8) by (metis Un_iff insertE list.set_intros(2) set_append set_subset_Cons subsetD)
  then have eq: "s' = (mh_account heap (sz + RT_MEMHEAP_SIZE) s)\<lparr>mi_magic := (mi_magic s)(?n := RT_MEMHEAP_MAGIC, b := mi_magic s b OR RT_MEMHEAP_USED),
       pool_ptr := (pool_ptr s)(?n := heap), mi_links := rt_list_insert_after b ?n (mi_links s),
       mi_free := rt_list_insert_after (free_header heap) ?n (mi_free (remove_free b s))\<rparr>"
    unfolding s' using n by (intro take_split_eq [OF split n(1) _ _ d(1) hdr]) simp_all
  have mg: "mi_magic s b = RT_MEMHEAP_MAGIC" using d(10) [of b] free used_magic [of s b] by auto
  show u: "is_used s' = (is_used s)(b := True, ?n := False)" using n(2) by (intro ext) (auto simp: eq is_used_def mg)
  let ?bs' = "xs @ b # ?n # ys" and ?fs' = "?n # us @ vs"
  have links: "ring (mi_links s') ?t ?bs'" using ring_insert_behind [OF d(6), of ?n] gap by (auto simp: eq)
  have frees: "ring (mi_free s') (free_header heap) ?fs'"
    using ring_insert_after [OF rf, of ?n] hdr gap d(8) by (auto simp: eq)
  have items: "mi_magic s' x \<in> {RT_MEMHEAP_MAGIC, RT_MEMHEAP_MAGIC OR RT_MEMHEAP_USED} \<and> pool_ptr s' x = heap" if "x \<in> set ?bs'" for x
    using d(10) [of x] that mg by (auto simp: eq)
  have tl: "?n \<noteq> ?t" "b \<noteq> ?t" using gap [of ?t] core_bounds(2) [OF core free(2)] by auto
  have asc: "successively apart (?bs' @ [?t])"
    using d(9) n(4,5) nx(1) by (cases ys) (auto simp: successively_append_iff)
  have notin: "?n \<notin> set ?bs" using gap by auto
  have s1: "free_sum (is_used s) ?bs ?t = free_sum ((is_used s)(b := True)) ?bs ?t + (?nx - b - 24)"
    using free_sum_use [of b xs ys "is_used s"] dist(1) free(1) nx(1) by simp
  have s2: "free_sum (is_used s') ?bs' ?t = free_sum ((is_used s)(b := True)) ?bs ?t + (?nx - ?n - 24)"
  proof -
    have "free_sum (is_used s') zs x = free_sum ((is_used s)(b := True)) zs x" if "set zs \<subseteq> set ?bs" for zs x
      using notin that by (intro free_sum_cong) (auto simp: u)
    then have "free_sum (is_used s') xs b = free_sum ((is_used s)(b := True)) xs b" "free_sum (is_used s') ys ?t = free_sum ((is_used s)(b := True)) ys ?t"
      by auto
    then show ?thesis using n(2) nx(1) by (simp add: free_sum_append u)
  qed
  have "free_sum (is_used s) ?bs ?t = free_sum (is_used s') ?bs' ?t + (unat sz + 24)" using s1 s2 w(2) n(3) by simp
  moreover from this have "sz + 24 \<le> available_size (memheaps s heap)" using d(12) w(1) by (simp add: word_le_nat_alt)
  ultimately have sum: "unat (available_size (memheaps s' heap)) = free_sum (is_used s') ?bs' ?t"
    using d(12) w(1) by (simp add: eq unat_sub)
  have sub: "set ?fs' \<subseteq> set ?bs'" using d(8) by auto
  have hd: "?bs' \<noteq> []" "hd ?bs' = hd ?bs" by (cases xs; simp)+
  have c: "mh_core heap s' ?bs' ?fs'" and t: "mh_tail s' heap = ?t"
    using mh_core_change [OF core _ _ _ hd links frees sub asc items _ _ sum] tl by (simp_all add: eq)
  show "mh_tail s' heap = ?t" by (rule t)
  have "set ?fs' = {x \<in> set ?bs'. \<not> is_used s' x}" using fs dist(2) notin n(2) by (auto simp: u)
  moreover have "successively (\<lambda>x y. is_used s' x \<or> is_used s' y) ?bs'"
  proof -
    have keep: "successively (\<lambda>x y. is_used s' x \<or> is_used s' y) zs"
      if "successively (\<lambda>x y. is_used s x \<or> is_used s y) zs" "set zs \<subseteq> set ?bs" for zs
      using that(1) by (rule successively_mono) (use that(2) notin in \<open>auto simp: u\<close>)
    have "successively (\<lambda>x y. is_used s x \<or> is_used s y) (xs @ [b])" "successively (\<lambda>x y. is_used s x \<or> is_used s y) ys"
      "ys \<noteq> [] \<Longrightarrow> is_used s (hd ys)"
      using adj free(1) by (auto simp: successively_append_iff successively_Cons)
    moreover from this have "ys \<noteq> [] \<Longrightarrow> is_used s' (hd ys)" using gap [of "hd ys"] by (simp add: u)
    moreover have "is_used s' b" using n(2) by (simp add: u)
    ultimately show ?thesis using keep [of "xs @ [b]"] keep [of ys] by (auto simp: successively_append_iff successively_Cons)
  qed
  ultimately show "mh_inv heap s' ?bs' ?fs'" using c by (simp add: mh_inv_def)
qed

subsection \<open>Giving a block back\<close>

lemma free_sum_bound: "successively apart (bs @ [t]) \<Longrightarrow> bs \<noteq> [] \<Longrightarrow> free_sum u bs t \<le> t - hd bs"
proof (induction bs)
  case (Cons b bs)
  show ?case
  proof (cases bs)
    case Nil
    then show ?thesis by (auto intro: diff_le_mono2)
  next
    case (Cons c cs)
    then have "apart b c" "free_sum u bs t \<le> t - c" "c < t"
      using Cons.IH Cons.prems(1) successively_sorted [of "bs @ [t]"] by (auto simp: sorted_wrt_append apart_def)
    then show ?thesis using Cons by (auto simp: apart_def)
  qed
qed simp

lemma core_sum_less:
  assumes "mh_core heap s bs fs" "set bs' \<subseteq> set bs" "hd bs' = hd bs" "bs' \<noteq> []" "successively apart (bs' @ [mh_tail s heap])"
  shows "free_sum u bs' (mh_tail s heap) < 2 ^ 32"
  using free_sum_bound [OF assms(5,4), of u] mh_coreD(14) [OF assms(1)] by linarith

lemma unat_plus_fits: "unat (a :: u32) + unat b < 2 ^ 32 \<Longrightarrow> unat (a + b) = unat a + unat b"
  by (simp add: unat_word_ariths)

text \<open>The block loses its mark; its bytes are available again.\<close>

lemma core_mark_free:
  assumes core: "mh_core heap s (xs @ b # ys) fs" and used: "is_used s b"
    and s': "s' = upd_mh heap (\<lambda>m. m\<lparr>available_size := available_size m + MEMITEM_SIZE s b\<rparr>)
         (s\<lparr>mi_magic := (mi_magic s)(b := mi_magic s b AND NOT RT_MEMHEAP_USED)\<rparr>)"
  shows "mh_core heap s' (xs @ b # ys) fs" "is_used s' = (is_used s)(b := False)" "mh_tail s' heap = mh_tail s heap"
proof -
  let ?bs = "xs @ b # ys" and ?t = "mh_tail s heap"
  note d = mh_coreD [OF core] and nx = core_next [OF core]
  have mg: "mi_magic s b = RT_MEMHEAP_MAGIC OR RT_MEMHEAP_USED" using d(10) [of b] used used_magic [of s b] by auto
  show u: "is_used s' = (is_used s)(b := False)" by (rule ext) (simp add: s' is_used_def upd_mh_def mg)
  have dist: "distinct ?bs" using d(6) by (simp add: ring_def)
  have "is_used s = (is_used s')(b := True)" using used by (simp add: u fun_upd_idem)
  then have sum: "free_sum (is_used s') ?bs ?t = free_sum (is_used s) ?bs ?t + unat (MEMITEM_SIZE s b)"
    using free_sum_use [of b xs ys "is_used s'"] dist nx(1,5) by (simp add: u)
  have "free_sum (is_used s') ?bs ?t < 2 ^ 32" using core_sum_less [OF core, of ?bs] d(4,9) by simp
  then have "unat (available_size (memheaps s' heap)) = free_sum (is_used s') ?bs ?t"
    using sum d(12) unat_plus_fits [of "available_size (memheaps s heap)" "MEMITEM_SIZE s b"] by (simp add: s' upd_mh_def)
  moreover have "b \<noteq> ?t" using core_bounds(2) [OF core, of b] by simp
  moreover have "mi_magic s' x \<in> {RT_MEMHEAP_MAGIC, RT_MEMHEAP_MAGIC OR RT_MEMHEAP_USED} \<and> pool_ptr s' x = heap" if "x \<in> set ?bs" for x
    using d(10) [of x] that mg by (auto simp: s' upd_mh_def)
  ultimately show "mh_core heap s' ?bs fs" "mh_tail s' heap = ?t"
    using mh_core_change [OF core, of s' ?bs fs] d(4,6,7,8,9) by (simp_all add: s' upd_mh_def)
qed

text \<open>Two free neighbours become one.\<close>

lemma free_sum_merge:
  assumes "successively apart (zs @ x # y # ys @ [t])" "\<not> u x" "\<not> u y"
  shows "free_sum u (zs @ x # ys) t = free_sum u (zs @ x # y # ys) t + 24"
proof -
  have "apart x y" "apart y (hd (ys @ [t]))" using assms(1) by (cases ys; auto simp: successively_append_iff)+
  then show ?thesis using assms(2,3) by (auto simp: free_sum_append apart_def)
qed

lemma core_merge:
  assumes core: "mh_core heap s (zs @ x # y # ys) fs" and free: "\<not> is_used s x" "\<not> is_used s y"
    and links: "same_but y (rt_list_remove y (mi_links s)) (mi_links s')"
    and frees: "ring (mi_free s') (free_header heap) fs'" "set fs' \<subseteq> set (zs @ x # ys)"
    and rest: "mi_magic s' = mi_magic s" "pool_ptr s' = pool_ptr s"
      "memheaps s' = (memheaps s)(heap := (memheaps s heap)\<lparr>available_size := available_size (memheaps s heap) + RT_MEMHEAP_SIZE\<rparr>)"
  shows "mh_core heap s' (zs @ x # ys) fs'" "mh_tail s' heap = mh_tail s heap"
proof -
  let ?t = "mh_tail s heap" and ?bs = "zs @ x # y # ys" and ?bs' = "zs @ x # ys"
  note d = mh_coreD [OF core]
  have u: "is_used s' = is_used s" by (rule ext) (simp add: is_used_def rest)
  have ring: "ring (mi_links s') ?t ?bs'" using ring_unlinked [of "mi_links s" ?t "zs @ [x]" y ys] links d(6) by simp
  have asc: "successively apart (?bs' @ [?t])" using d(9) by (simp add: successively_sorted sorted_wrt_append)
  have sum: "free_sum (is_used s) ?bs' ?t = free_sum (is_used s) ?bs ?t + 24"
    using free_sum_merge [of zs x y ys ?t "is_used s"] d(9) free by simp
  have hd: "hd ?bs' = hd ?bs" by (cases zs) simp_all
  have "free_sum (is_used s) ?bs' ?t < 2 ^ 32" using core_sum_less [OF core, of ?bs'] hd asc by auto
  then have "unat (available_size (memheaps s' heap)) = free_sum (is_used s') ?bs' ?t"
    using sum d(12) unat_plus_fits [of "available_size (memheaps s heap)" 24] by (simp add: rest u)
  moreover have "mi_magic s' z \<in> {RT_MEMHEAP_MAGIC, RT_MEMHEAP_MAGIC OR RT_MEMHEAP_USED} \<and> pool_ptr s' z = heap" if "z \<in> set ?bs'" for z
    using d(10) [of z] that by (auto simp: rest)
  ultimately show "mh_core heap s' ?bs' fs'" "mh_tail s' heap = ?t"
    using mh_core_change [OF core, of s' ?bs' fs'] ring asc hd frees by (simp_all add: rest)
qed

lemma remove_links:
  assumes "ring h t (xs @ n # ys)"
  shows "same_but n (rt_list_remove n h) (h\<lparr>lnext := (lnext h)(lprev h n := lnext h n), lprev := (lprev h)(lnext h n := lprev h n)\<rparr>)"
  using ring_no_loop [OF assms] by (auto simp: same_but_def rt_list_remove_def Let_def)

lemma free_left_ok:
  assumes core: "mh_core heap s (xs @ b # ys) fs" and b: "\<not> is_used s b" "set fs = {x \<in> set (xs @ b # ys). \<not> is_used s x} - {b}"
    and left: "left \<longleftrightarrow> xs \<noteq> [] \<and> \<not> is_used s (last xs)"
    and h: "ps = (if left then butlast xs else xs)" "h = (if left then last xs else b)"
  shows "\<exists>s'. free_left heap b s = (h, \<not> left, s') \<and> mh_core heap s' (ps @ h # ys) fs \<and> \<not> is_used s' h \<and> is_used s' = is_used s
     \<and> set fs = {x \<in> set (ps @ h # ys). \<not> is_used s x} - (if left then {} else {h}) \<and> mk s' = mk s
     \<and> (\<forall>heap'. heap' \<noteq> heap \<longrightarrow> memheaps s' heap' = memheaps s heap') \<and> mh_tail s' heap = mh_tail s heap"
proof -
  note d = mh_coreD [OF core] and nx = core_next [OF core]
  have prev: "is_used s (mi_prev s b) \<longleftrightarrow> \<not> left" using nx(2) left d(11) by (cases xs rule: rev_cases) auto
  show ?thesis
  proof (cases left)
    case False
    then show ?thesis using core b h prev by (simp add: free_left_def)
  next
    case True
    then obtain zs where zs: "xs = zs @ [h]" "ps = zs" "\<not> is_used s h" using left h by (cases xs rule: rev_cases) auto
    have hp: "mi_prev s b = h" using nx(2) zs by simp
    have bh: "b \<noteq> h" "mi_next s b \<noteq> b" using d(6) zs ring_no_loop [OF d(6)] by (auto simp: ring_def mi_next_def)
    define s' where "s' = set_prev (mi_next s b) h (set_next h (mi_next s b) (upd_mh heap (\<lambda>m. m\<lparr>available_size := available_size m + RT_MEMHEAP_SIZE\<rparr>) s))"
    have lf: "free_left heap b s = (h, False, s')"
      using prev True hp bh by (simp add: free_left_def Let_def s'_def link_defs upd_mh_def)
    have f: "mi_links s' = (mi_links s)\<lparr>lnext := (lnext (mi_links s))(lprev (mi_links s) b := lnext (mi_links s) b),
         lprev := (lprev (mi_links s))(lnext (mi_links s) b := lprev (mi_links s) b)\<rparr>"
      "mi_free s' = mi_free s" "mi_magic s' = mi_magic s" "pool_ptr s' = pool_ptr s" "mk s' = mk s"
      "memheaps s' = (memheaps s)(heap := (memheaps s heap)\<lparr>available_size := available_size (memheaps s heap) + RT_MEMHEAP_SIZE\<rparr>)"
      using hp by (simp_all add: s'_def link_defs upd_mh_def)
    have "same_but b (rt_list_remove b (mi_links s)) (mi_links s')" using remove_links [OF d(6)] by (simp only: f(1))
    moreover have "set fs \<subseteq> set (zs @ h # ys)" using d(8) b(2) zs by auto
    ultimately have c: "mh_core heap s' (ps @ h # ys) fs" and t: "mh_tail s' heap = mh_tail s heap"
      using core_merge [of heap s zs h b ys fs s' fs] core zs b(1) d(7) f by simp_all
    have u: "is_used s' = is_used s" by (rule ext) (simp add: is_used_def f)
    have "b \<notin> set (zs @ h # ys)" using d(6) zs by (auto simp: ring_def)
    then have "set fs = {x \<in> set (ps @ h # ys). \<not> is_used s x}" using b(2) zs by auto
    then show ?thesis using lf c t u zs(3) f(5,6) True by auto
  qed
qed

lemma free_right_ok:
  assumes core: "mh_core heap s (ps @ h # ys) fs" and h: "\<not> is_used s h" "set fs = {x \<in> set (ps @ h # ys). \<not> is_used s x} - X" "X \<subseteq> {h}"
    and right: "right \<longleftrightarrow> ys \<noteq> [] \<and> \<not> is_used s (hd ys)" and ys': "ys' = (if right then tl ys else ys)" and s': "s' = free_right heap h s"
  shows "\<exists>fs'. mh_core heap s' (ps @ h # ys') fs' \<and> set fs' = {x \<in> set (ps @ h # ys'). \<not> is_used s x} - X \<and> is_used s' = is_used s
     \<and> mk s' = mk s \<and> (\<forall>heap'. heap' \<noteq> heap \<longrightarrow> memheaps s' heap' = memheaps s heap') \<and> mh_tail s' heap = mh_tail s heap"
proof -
  note d = mh_coreD [OF core] and nx = core_next [OF core]
  have next': "is_used s (mi_next s h) \<longleftrightarrow> \<not> right" using nx(1) right d(11) by (cases ys) auto
  show ?thesis
  proof (cases right)
    case False
    then have "s' = s" using next' by (simp add: s' free_right_def)
    then show ?thesis using core h ys' False by auto
  next
    case True
    then obtain r rs where r: "ys = r # rs" "ys' = rs" "\<not> is_used s r" using right ys' by (cases ys) auto
    have hr: "mi_next s h = r" "mi_prev s r = h"
      using nx(1) r(1) core_next(2) [of heap s "ps @ [h]" r rs fs] core by simp_all
    have bs: "ps @ h # ys = (ps @ [h]) @ r # rs" using r(1) by simp
    have dist: "distinct (ps @ h # ys)" "distinct fs" using d(6,7) by (simp_all add: ring_def)
    then have "r \<in> set fs" using h(2,3) r by auto
    then obtain us vs where fs: "fs = us @ r # vs" by (auto simp: in_set_conv_decomp)
    define s1 where "s1 = set_next h (mi_next s r) (set_prev (mi_next s r) h (upd_mh heap (\<lambda>m. m\<lparr>available_size := available_size m + RT_MEMHEAP_SIZE\<rparr>) s))"
    have e: "s' = unlink_free r s1" using next' True hr dist(1) r(1) by (simp add: s' free_right_def Let_def s1_def link_defs upd_mh_def)
    have f1: "mi_links s1 = (mi_links s)\<lparr>lnext := (lnext (mi_links s))(lprev (mi_links s) r := lnext (mi_links s) r),
         lprev := (lprev (mi_links s))(lnext (mi_links s) r := lprev (mi_links s) r)\<rparr>"
      "mi_free s1 = mi_free s" "mi_magic s1 = mi_magic s" "pool_ptr s1 = pool_ptr s" "mk s1 = mk s"
      "memheaps s1 = (memheaps s)(heap := (memheaps s heap)\<lparr>available_size := available_size (memheaps s heap) + RT_MEMHEAP_SIZE\<rparr>)"
      using hr(2) by (simp_all add: s1_def link_defs upd_mh_def)
    have f: "mi_links s' = mi_links s1" "mi_magic s' = mi_magic s" "pool_ptr s' = pool_ptr s" "mk s' = mk s" "memheaps s' = memheaps s1"
      unfolding e by (subst unlink_free_rest(1), simp add: f1)+
    have "ring (mi_free s') (free_header heap) (us @ vs)"
      using ring_removed_free(1) [of s1 "free_header heap" us r vs] d(7) fs f1(2) by (simp add: e)
    moreover have "same_but r (rt_list_remove r (mi_links s)) (mi_links s')"
      using remove_links [of "mi_links s" "mh_tail s heap" "ps @ [h]" r rs] d(6) bs unfolding f(1) f1(1) by simp
    moreover have sub: "set (us @ vs) = {x \<in> set (ps @ h # rs). \<not> is_used s x} - X"
      using h(2,3) dist r(1) fs by auto
    ultimately have c: "mh_core heap s' (ps @ h # rs) (us @ vs)" and t: "mh_tail s' heap = mh_tail s heap"
      using core_merge [of heap s ps h r rs fs s' "us @ vs"] core r h(1) f f1(6) by auto
    have u: "is_used s' = is_used s" by (rule ext) (simp add: is_used_def f)
    have "\<forall>heap'. heap' \<noteq> heap \<longrightarrow> memheaps s' heap' = memheaps s heap'" using f(5) f1(6) by simp
    then show ?thesis using c t u sub r(2) f(4) by blast
  qed
qed

lemma link_free_core:
  assumes core: "mh_core heap s bs fs" and h: "h \<in> set bs" "h \<notin> set fs"
  shows "mh_core heap (link_free heap h s) bs (h # fs)" "is_used (link_free heap h s) = is_used s"
    "mk (link_free heap h s) = mk s" "memheaps (link_free heap h s) = memheaps s" "mi_links (link_free heap h s) = mi_links s"
proof -
  note d = mh_coreD [OF core]
  have n: "h \<noteq> free_header heap" using core_bounds(5) [OF core h(1)] .
  have "h \<noteq> next_free s (free_header heap)" using ring_next_in [OF d(7)] h(2) n by (auto simp: next_free_def)
  then have e: "link_free heap h s = s\<lparr>mi_free := rt_list_insert_after (free_header heap) h (mi_free s)\<rparr>"
    using link_free_eq [OF d(1) n] by simp
  show "is_used (link_free heap h s) = is_used s" by (rule ext) (simp add: is_used_def e)
  show "mk (link_free heap h s) = mk s" "memheaps (link_free heap h s) = memheaps s" "mi_links (link_free heap h s) = mi_links s"
    by (simp_all add: e)
  have "ring (mi_free (link_free heap h s)) (free_header heap) (h # fs)" using ring_insert_after [OF d(7) n h(2)] by (simp add: e)
  then show "mh_core heap (link_free heap h s) bs (h # fs)"
    using core h(1) unfolding mh_core_def Let_def by (simp add: e mh_tail_def is_used_def [abs_def])
qed

text \<open>The items that are left when block \<open>b\<close> between \<open>xs\<close> and \<open>ys\<close> is free again.\<close>

definition merged :: "(ptr \<Rightarrow> bool) \<Rightarrow> ptr list \<Rightarrow> ptr \<Rightarrow> ptr list \<Rightarrow> ptr list" where
  "merged u xs b ys = (if xs \<noteq> [] \<and> \<not> u (last xs) then xs else xs @ [b]) @ (if ys \<noteq> [] \<and> \<not> u (hd ys) then tl ys else ys)"

lemma merged_adjacent:
  assumes "successively (\<lambda>x y. u x \<or> u y) (xs @ b # ys)" "b \<notin> set (xs @ ys)" "v = u(b := False)"
  shows "successively (\<lambda>x y. v x \<or> v y) (merged u xs b ys)"
proof -
  have keep: "successively (\<lambda>x y. v x \<or> v y) zs" if "successively (\<lambda>x y. u x \<or> u y) zs" "b \<notin> set zs" for zs
    using that(1) by (rule successively_mono) (use that(2) assms(3) in auto)
  let ?zs = "if ys \<noteq> [] \<and> \<not> u (hd ys) then tl ys else ys"
  have "successively (\<lambda>x y. u x \<or> u y) ys" "successively (\<lambda>x y. u x \<or> u y) xs" using assms(1) by (auto simp: successively_append_iff successively_Cons)
  then have z: "successively (\<lambda>x y. u x \<or> u y) ?zs" "?zs \<noteq> [] \<Longrightarrow> u (hd ?zs)" "b \<notin> set ?zs"
    using assms(2) by (cases ys; auto simp: successively_Cons)+
  have 1: "?zs \<noteq> [] \<Longrightarrow> v (hd ?zs)" using z(2,3) hd_in_set [of ?zs] assms(3) by (metis fun_upd_other)
  have 2: "successively (\<lambda>x y. v x \<or> v y) ?zs" using keep [OF z(1,3)] .
  have 3: "successively (\<lambda>x y. v x \<or> v y) xs" using keep [of xs] assms(1,2) by (auto simp: successively_append_iff)
  have 4: "xs \<noteq> [] \<Longrightarrow> u (last xs) \<Longrightarrow> v (last xs)" using assms(2,3) last_in_set [of xs] by auto
  show ?thesis
  proof (cases "xs \<noteq> [] \<and> \<not> u (last xs)")
    case True
    then have "merged u xs b ys = xs @ ?zs" by (simp add: merged_def)
    then show ?thesis using 1 2 3 by (simp only: successively_append_iff) blast
  next
    case False
    then have "merged u xs b ys = (xs @ [b]) @ ?zs" by (simp add: merged_def)
    moreover have "successively (\<lambda>x y. v x \<or> v y) (xs @ [b])" using 3 4 False by (auto simp: successively_append_iff)
    ultimately show ?thesis using 1 2 by (simp only: successively_append_iff) blast
  qed
qed

lemma size_magic: "MEMITEM_SIZE (s\<lparr>mi_magic := x\<rparr>) b = MEMITEM_SIZE s b"
  by (simp add: MEMITEM_SIZE_def mi_next_def)

lemma free_block_inv:
  assumes inv: "mh_inv heap s (xs @ b # ys) fs" and used: "is_used s b" and s': "s' = free_block heap b s"
  shows "\<exists>fs'. mh_inv heap s' (merged (is_used s) xs b ys) fs' \<and> is_used s' = (is_used s)(b := False) \<and> mk s' = mk s
     \<and> (\<forall>heap'. heap' \<noteq> heap \<longrightarrow> memheaps s' heap' = memheaps s heap') \<and> mh_tail s' heap = mh_tail s heap"
proof -
  let ?bs = "xs @ b # ys" and ?u = "(is_used s)(b := False)"
  have core: "mh_core heap s ?bs fs" and fs: "set fs = {x \<in> set ?bs. \<not> is_used s x}"
    and adj: "successively (\<lambda>x y. is_used s x \<or> is_used s y) ?bs" using inv by (simp_all add: mh_inv_def)
  have dist: "distinct ?bs" using mh_coreD(6) [OF core] by (simp add: ring_def)
  define s1 where "s1 = upd_mh heap (\<lambda>m. m\<lparr>available_size := available_size m + MEMITEM_SIZE s b\<rparr>)
         (s\<lparr>mi_magic := (mi_magic s)(b := mi_magic s b AND NOT RT_MEMHEAP_USED)\<rparr>)"
  note m = core_mark_free [OF core used s1_def]
  have fs1: "set fs = {x \<in> set ?bs. \<not> is_used s1 x} - {b}" using fs used by (auto simp: m(2))
  define left where "left \<longleftrightarrow> xs \<noteq> [] \<and> \<not> is_used s (last xs)"
  define right where "right \<longleftrightarrow> ys \<noteq> [] \<and> \<not> is_used s (hd ys)"
  have lr: "left \<longleftrightarrow> xs \<noteq> [] \<and> \<not> is_used s1 (last xs)" "right \<longleftrightarrow> ys \<noteq> [] \<and> \<not> is_used s1 (hd ys)"
    using dist last_in_set [of xs] hd_in_set [of ys] by (auto simp: left_def right_def m(2))
  define ps where "ps = (if left then butlast xs else xs)"
  define h where "h = (if left then last xs else b)"
  define ys' where "ys' = (if right then tl ys else ys)"
  have nb: "\<not> is_used s1 b" by (simp add: m(2))
  obtain s2 where s2: "free_left heap b s1 = (h, \<not> left, s2)" "mh_core heap s2 (ps @ h # ys) fs" "\<not> is_used s2 h" "is_used s2 = is_used s1"
    "set fs = {x \<in> set (ps @ h # ys). \<not> is_used s1 x} - (if left then {} else {h})" "mk s2 = mk s1"
    "\<And>heap'. heap' \<noteq> heap \<Longrightarrow> memheaps s2 heap' = memheaps s1 heap'" "mh_tail s2 heap = mh_tail s1 heap"
    using free_left_ok [OF m(1) nb fs1 lr(1) ps_def h_def] by blast
  obtain fs3 where s3: "mh_core heap (free_right heap h s2) (ps @ h # ys') fs3" "is_used (free_right heap h s2) = is_used s1"
    "set fs3 = {x \<in> set (ps @ h # ys'). \<not> is_used s1 x} - (if left then {} else {h})" "mk (free_right heap h s2) = mk s1"
    "\<And>heap'. heap' \<noteq> heap \<Longrightarrow> memheaps (free_right heap h s2) heap' = memheaps s1 heap'" "mh_tail (free_right heap h s2) heap = mh_tail s1 heap"
  proof -
    have "(if left then {} else {h}) \<subseteq> {h}" by simp
    from free_right_ok [OF s2(2,3) s2(5) [folded s2(4)] this lr(2) [folded s2(4)] ys'_def refl] show thesis
      using that s2(4,6,7,8) by auto
  qed
  let ?s3 = "free_right heap h s2"
  have bs': "ps @ h # ys' = merged (is_used s) xs b ys"
    by (auto simp: merged_def ps_def h_def ys'_def left_def right_def)
  have e: "s' = (if left then ?s3 else link_free heap h ?s3)"
    unfolding s' free_block_def Let_def size_magic s1_def [symmetric] s2(1) by simp
  have "\<exists>fs'. mh_core heap s' (ps @ h # ys') fs' \<and> set fs' = {x \<in> set (ps @ h # ys'). \<not> is_used s' x} \<and> is_used s' = is_used s1 \<and> mk s' = mk s1
     \<and> (\<forall>heap'. heap' \<noteq> heap \<longrightarrow> memheaps s' heap' = memheaps s1 heap') \<and> mh_tail s' heap = mh_tail s1 heap"
  proof (cases left)
    case True
    then show ?thesis using s3 e by auto
  next
    case False
    then have "h \<notin> set fs3" using s3(3) by simp
    note l = link_free_core [OF s3(1) _ this]
    have "mh_tail (link_free heap h ?s3) heap = mh_tail s1 heap" using l(4) s3(6) by (simp add: mh_tail_def)
    then show ?thesis using l s3 False s2(3,4) unfolding e by (intro exI [of _ "h # fs3"]) auto
  qed
  moreover have "successively (\<lambda>x y. ?u x \<or> ?u y) (merged (is_used s) xs b ys)"
    using merged_adjacent [OF adj _ refl] dist by auto
  moreover have "mk s1 = mk s" "\<And>heap'. heap' \<noteq> heap \<Longrightarrow> memheaps s1 heap' = memheaps s heap'" by (simp_all add: s1_def upd_mh_def)
  ultimately show ?thesis using bs' m(2,3) unfolding mh_inv_def by auto
qed

subsection \<open>Behaviour of the allocator\<close>

text \<open>A heap object that nobody is working on.\<close>

definition mh_ready :: "ptr \<Rightarrow> mh_state \<Rightarrow> bool" where
  "mh_ready heap s \<longleftrightarrow> is_class (mk s) heap RT_Object_Class_MemHeap \<and> heap_free (mk s) (mh_lock heap)"

lemma mk_frame [simp]:
  "mh_inv heap (s\<lparr>mk := k\<rparr>) bs fs = mh_inv heap s bs fs" "mh_core heap (s\<lparr>mk := k\<rparr>) bs fs = mh_core heap s bs fs"
  "is_used (s\<lparr>mk := k\<rparr>) = is_used s" "MEMITEM_SIZE (s\<lparr>mk := k\<rparr>) = MEMITEM_SIZE s" "mi_next (s\<lparr>mk := k\<rparr>) = mi_next s"
  "mh_tail (s\<lparr>mk := k\<rparr>) heap = mh_tail s heap"
  by (auto simp: mh_inv_def mh_core_def Let_def mh_tail_def is_used_def [abs_def] MEMITEM_SIZE_def [abs_def] mi_next_def [abs_def])

lemma take_block_mk: "mk (mh_take_block heap sz b n s) = mk s"
  by (simp add: mh_take_block_def Let_def link_block_def link_free_def remove_free_def unlink_free_def link_defs set_item_def)

lemma mh_locked:
  assumes "mh_ready heap s"
  obtains k1 where "mh_take_lock heap s = Some (Some RT_EOK, s\<lparr>mk := k1\<rparr>)"
    "\<And>s'. mk s' = k1 \<Longrightarrow> mh_release_lock heap s' = Some (s'\<lparr>mk := mk s\<rparr>)" "k1\<lparr>sems := sems (mk s)\<rparr> = mk s"
proof -
  obtain k1 where k1: "rt_sem_take (mh_lock heap) (- 1) (mk s) = Some (Done RT_EOK, k1)" "rt_sem_release (mh_lock heap) k1 = Some (RT_EOK, mk s)"
    "k1\<lparr>sems := sems (mk s)\<rparr> = mk s"
    using assms heap_lock [of "mk s" "mh_lock heap" "- 1"] by (auto simp: mh_ready_def)
  show thesis by (rule that [of k1]) (use k1 in \<open>simp_all add: mh_take_lock_def mh_release_lock_def\<close>)
qed

text \<open>Block \<open>b\<close> was taken for \<open>n\<close> bytes: split, with the rest at the head of the free list, or whole.\<close>

definition mh_taken :: "ptr \<Rightarrow> u32 \<Rightarrow> ptr \<Rightarrow> mh_state \<Rightarrow> ptr list \<Rightarrow> ptr list \<Rightarrow> mh_state \<Rightarrow> bool" where
  "mh_taken heap n b s bs fs s' \<longleftrightarrow> mh_tail s' heap = mh_tail s heap \<and> (\<exists>xs ys us vs. bs = xs @ b # ys \<and> fs = us @ b # vs
     \<and> (if n + 36 \<le> MEMITEM_SIZE s b
        then mh_inv heap s' (xs @ b # (b + 24 + unat n) # ys) ((b + 24 + unat n) # us @ vs)
          \<and> is_used s' = (is_used s)(b := True, b + 24 + unat n := False)
        else mh_inv heap s' bs (us @ vs) \<and> is_used s' = (is_used s)(b := True)))"

lemma mh_taken_mk [simp]: "mh_taken heap n b s bs fs (s'\<lparr>mk := k\<rparr>) = mh_taken heap n b s bs fs s'"
  by (simp add: mh_taken_def)

lemma memheap_alloc_ok:
  assumes inv: "mh_inv heap s bs fs" and ready: "mh_ready heap s" and sz: "sz \<le> 0xfffffffc"
    and n: "n = req_size sz"
  shows "\<exists>p s'. rt_memheap_alloc heap sz s = Some (Block p, s') \<and> mk s' = mk s
     \<and> (case find (\<lambda>b. n \<le> MEMITEM_SIZE s b) fs of
          Some b \<Rightarrow> if n < available_size (memheaps s heap)
            then p = b + 24 \<and> mh_taken heap n b s bs fs s'
            else p = RT_NULL \<and> s' = s
        | None \<Rightarrow> p = RT_NULL \<and> s' = s)"
proof -
  have core: "mh_core heap s bs fs" using inv by (simp add: mh_inv_def)
  note d = mh_coreD [OF core]
  obtain k1 where k1: "mh_take_lock heap s = Some (Some RT_EOK, s\<lparr>mk := k1\<rparr>)"
    "\<And>s'. mk s' = k1 \<Longrightarrow> mh_release_lock heap s' = Some (s'\<lparr>mk := mk s\<rparr>)"
    using mh_locked [OF ready] by metis
  let ?s = "s\<lparr>mk := k1\<rparr>" and ?l = "free_header heap"
  have nn: "12 \<le> unat n" "4 dvd unat n" "0 < n"
    using req_size_ok(1) [OF sz] n by (auto simp: req_size_def word_le_nat_alt word_less_nat_alt not_less)
  have cls: "is_class (mk s) heap RT_Object_Class_MemHeap" "heap \<noteq> RT_NULL" using ready by (auto simp: mh_ready_def is_class_def)
  have body: "rt_memheap_alloc heap sz s = (if n < available_size (memheaps s heap) then memheap_alloc_locked heap n ?s else Some (Block RT_NULL, s))"
    using cls k1(1) by (simp add: rt_memheap_alloc_def ASSERT_TYPE_bind n req_size_def Let_def)
  have nf: "next_free ?s ?l = hd (fs @ [?l])" using ring_neighbours(1) [of "mi_free s" "hd (fs @ [?l])"] ring_next [of "mi_free s" ?l] d(7)
    by (cases fs) (auto simp: next_free_def)
  obtain p m where search: "mh_search ?l n (next_free ?s ?l) 0 ?s = Some (p, m)"
    "case find (\<lambda>b. n \<le> MEMITEM_SIZE s b) fs of None \<Rightarrow> m < n | Some b \<Rightarrow> p = b \<and> m = MEMITEM_SIZE s b"
    using mh_search_find [of ?s ?l "[]" fs 0 n, unfolded mk_frame] d(7) nn(3) unfolding nf by auto
  show ?thesis
  proof (cases "find (\<lambda>b. n \<le> MEMITEM_SIZE s b) fs")
    case None
    then have "memheap_alloc_locked heap n ?s = Some (Block RT_NULL, s)"
      using search k1(2) [of ?s] by (simp add: memheap_alloc_locked_def d(1) Let_def not_le [symmetric])
    then show ?thesis using body None by simp
  next
    case (Some b)
    then have b: "n \<le> MEMITEM_SIZE s b" "b \<in> set fs" by (auto simp: find_Some_iff)
    then obtain us vs xs ys where split: "fs = us @ b # vs" "bs = xs @ b # ys" using d(8) by (metis in_set_conv_decomp subsetD)
    let ?s' = "mh_take_block heap n b (MEMITEM_SIZE s b) ?s"
    have r: "memheap_alloc_locked heap n ?s = Some (Block (b + 24), ?s'\<lparr>mk := mk s\<rparr>)"
      using search Some b(1) k1(2) [of ?s'] by (simp add: memheap_alloc_locked_def d(1) Let_def take_block_mk)
    have inv': "mh_inv heap ?s (xs @ b # ys) (us @ b # vs)" using inv split by simp
    have "mh_tail ?s' heap = mh_tail s heap \<and> (if n + 36 \<le> MEMITEM_SIZE s b
        then mh_inv heap ?s' (xs @ b # (b + 24 + unat n) # ys) ((b + 24 + unat n) # us @ vs)
          \<and> is_used ?s' = (is_used s)(b := True, b + 24 + unat n := False)
        else mh_inv heap ?s' bs (us @ vs) \<and> is_used ?s' = (is_used s)(b := True))"
    proof (cases "n + 36 \<le> MEMITEM_SIZE s b")
      case True
      then have "MEMITEM_SIZE ?s b \<ge> n + 24 + 12" by (simp add: add.assoc)
      then show ?thesis using take_split_inv [OF inv' _ nn(1,2) _ refl] b(1) True by simp
    next
      case False
      then have "\<not> MEMITEM_SIZE ?s b \<ge> n + 24 + 12" by (simp add: add.assoc)
      then show ?thesis using take_whole_inv [OF inv' _ refl] split False by simp
    qed
    then have "mh_taken heap n b s bs fs ?s'" unfolding mh_taken_def
      using split by (elim conjE, intro conjI [OF _ exI [of _ xs, OF exI [of _ ys, OF exI [of _ us, OF exI [of _ vs]]]]] conjI)
    then show ?thesis using body r Some by (cases "n < available_size (memheaps s heap)") simp_all
  qed
qed

lemma core_next_eq:
  assumes "mh_core heap s (as @ x # cs @ es) fs" "mh_core heap s' (as' @ x # cs @ es') fs'" "mh_tail s' heap = mh_tail s heap"
    "cs = [] \<Longrightarrow> hd (es @ [mh_tail s heap]) = hd (es' @ [mh_tail s heap])"
  shows "mi_next s' x = mi_next s x"
  using core_next(1) [OF assms(1)] core_next(1) [OF assms(2)] assms(3,4) by (cases cs) auto

lemma mh_inv_core: "mh_inv heap s bs fs \<Longrightarrow> mh_core heap s bs fs"
  by (simp add: mh_inv_def)

lemma mh_inv_distinct: "mh_inv heap s bs fs \<Longrightarrow> distinct bs"
  using mh_coreD(6) [OF mh_inv_core] by (simp add: ring_def)

lemma taken_facts:
  assumes inv: "mh_inv heap s bs fs" and taken: "mh_taken heap n b s bs fs s'" and n: "n \<le> MEMITEM_SIZE s b"
  shows "is_used s' b" "\<not> is_used s b" "b \<in> set bs" "b + 24 + unat n \<le> mi_next s' b"
    "x \<in> set bs - {b} \<Longrightarrow> is_used s' x = is_used s x \<and> mi_next s' x = mi_next s x" "\<exists>bs' fs'. mh_inv heap s' bs' fs' \<and> set bs \<subseteq> set bs'"
proof -
  obtain xs ys us vs where l: "bs = xs @ b # ys" "fs = us @ b # vs" and t: "mh_tail s' heap = mh_tail s heap"
    and r: "if n + 36 \<le> MEMITEM_SIZE s b
        then mh_inv heap s' (xs @ b # (b + 24 + unat n) # ys) ((b + 24 + unat n) # us @ vs)
          \<and> is_used s' = (is_used s)(b := True, b + 24 + unat n := False)
        else mh_inv heap s' bs (us @ vs) \<and> is_used s' = (is_used s)(b := True)"
    using taken unfolding mh_taken_def by auto
  have core: "mh_core heap s bs fs" and fs: "set fs = {x \<in> set bs. \<not> is_used s x}" using inv by (simp_all add: mh_inv_def)
  have dist: "distinct bs" using mh_coreD(6) [OF core] by (simp add: ring_def)
  show "\<not> is_used s b" "b \<in> set bs" using fs l by auto
  let ?n = "b + 24 + unat n"
  obtain ns fs' where c': "mh_core heap s' (xs @ b # ns @ ys) fs'" and u: "\<And>x. x \<in> set bs \<Longrightarrow> is_used s' x = ((is_used s)(b := True)) x"
    and ns: "ns = [] \<or> ns = [?n]" and i': "mh_inv heap s' (xs @ b # ns @ ys) fs'" and whole: "ns = [] \<Longrightarrow> bs = xs @ b # ns @ ys"
  proof (cases "n + 36 \<le> MEMITEM_SIZE s b")
    case True
    then have i: "mh_inv heap s' (xs @ b # [?n] @ ys) (?n # us @ vs)" "is_used s' = (is_used s)(b := True, ?n := False)" using r by auto
    have "?n \<notin> set bs" using mh_inv_distinct [OF i(1)] l(1) by auto
    then show thesis using i(2) l(1) by (intro that [OF mh_inv_core [OF i(1)] _ _ i(1)]) auto
  next
    case False
    then have i: "mh_inv heap s' (xs @ b # [] @ ys) (us @ vs)" "is_used s' = (is_used s)(b := True)" using r l(1) by auto
    show thesis using i(2) l(1) by (intro that [OF mh_inv_core [OF i(1)] _ _ i(1)]) simp_all
  qed
  show "is_used s' b" using u [of b] l(1) by simp
  show "b + 24 + unat n \<le> mi_next s' b"
  proof (cases "ns = []")
    case True
    then have "mi_next s' b = mi_next s b" using core_next(1) [OF c'] core_next(1) [of heap s xs b ys] core l(1) t by simp
    then show ?thesis using n core_next(3,5) [of heap s xs b ys fs] core l(1) by (auto simp: word_le_nat_alt apart_def)
  qed (use ns core_next(1) [OF c'] in auto)
  show "\<exists>bs' fs'. mh_inv heap s' bs' fs' \<and> set bs \<subseteq> set bs'" using i' l(1) by (intro exI conjI) auto
  show "is_used s' x = is_used s x \<and> mi_next s' x = mi_next s x" if "x \<in> set bs - {b}"
  proof -
    have "x \<in> set xs \<or> x \<in> set ys" using that l(1) by auto
    then have "mi_next s' x = mi_next s x"
    proof
      assume "x \<in> set xs"
      then obtain as cs where "xs = as @ x # cs" by (auto simp: in_set_conv_decomp)
      then show ?thesis using core_next_eq [of heap s as x cs "b # ys" fs s' as "b # ns @ ys" fs'] core c' l(1) t by simp
    next
      assume "x \<in> set ys"
      then obtain as cs where "ys = as @ x # cs" by (auto simp: in_set_conv_decomp)
      then show ?thesis using core_next_eq [of heap s "xs @ b # as" x cs "[]" fs s' "xs @ b # ns @ as" "[]" fs'] core c' l(1) t by simp
    qed
    then show ?thesis using u [of x] that by simp
  qed
qed

lemma memheap_free_ok:
  assumes inv: "mh_inv heap s (xs @ b # ys) fs" and ready: "mh_ready heap s" and used: "is_used s b"
  shows "\<exists>s' fs'. rt_memheap_free (b + 24) s = Some (Done RT_EOK, s') \<and> mk s' = mk s
     \<and> mh_inv heap s' (merged (is_used s) xs b ys) fs' \<and> is_used s' = (is_used s)(b := False) \<and> mh_tail s' heap = mh_tail s heap"
proof -
  let ?bs = "xs @ b # ys"
  have core: "mh_core heap s ?bs fs" using inv by (simp add: mh_inv_def)
  note d = mh_coreD [OF core]
  obtain k1 where k1: "mh_take_lock heap s = Some (Some RT_EOK, s\<lparr>mk := k1\<rparr>)"
    "\<And>s'. mk s' = k1 \<Longrightarrow> mh_release_lock heap s' = Some (s'\<lparr>mk := mk s\<rparr>)"
    using mh_locked [OF ready] by metis
  have cls: "is_class (mk s) heap RT_Object_Class_MemHeap" "heap \<noteq> RT_NULL" using ready by (auto simp: mh_ready_def is_class_def)
  have "mi_next s b \<in> set (mh_tail s heap # ?bs)" using core_next(1) [OF core] by (cases ys) auto
  then have m: "mi_magic s b AND RT_MEMHEAP_MASK = RT_MEMHEAP_MAGIC" "mi_magic s (mi_next s b) AND RT_MEMHEAP_MASK = RT_MEMHEAP_MAGIC"
    "pool_ptr s b = heap"
    using d(10) [of b] d(10) [of "mi_next s b"] by auto
  let ?s = "s\<lparr>mk := k1\<rparr>"
  have i: "mh_inv heap ?s ?bs fs" "is_used ?s b" using inv used by simp_all
  obtain fs' where f: "mh_inv heap (free_block heap b ?s) (merged (is_used s) xs b ys) fs'"
    "is_used (free_block heap b ?s) = (is_used s)(b := False)" "mk (free_block heap b ?s) = k1"
    "mh_tail (free_block heap b ?s) heap = mh_tail s heap"
    using free_block_inv [OF i refl] by auto
  have "rt_memheap_free (b + 24) s = Some (Done RT_EOK, (free_block heap b ?s)\<lparr>mk := mk s\<rparr>)"
    using m used cls k1(1) k1(2) [OF f(3)] by (simp add: rt_memheap_free_def Let_def ASSERT_TYPE_bind memheap_free_locked_def)
  then show ?thesis using f by auto
qed

subsection \<open>Initialisation\<close>

lemma setter_fields:
  "lnext (mi_links (set_next i p s)) = (lnext (mi_links s))(i := p)" "lprev (mi_links (set_next i p s)) = lprev (mi_links s)"
  "lprev (mi_links (set_prev i p s)) = (lprev (mi_links s))(i := p)" "lnext (mi_links (set_prev i p s)) = lnext (mi_links s)"
  "mi_links (set_next_free i p s) = mi_links s" "mi_links (set_prev_free i p s) = mi_links s" "mi_links (set_item i g h s) = mi_links s"
  "lnext (mi_free (set_next_free i p s)) = (lnext (mi_free s))(i := p)" "lprev (mi_free (set_next_free i p s)) = lprev (mi_free s)"
  "lprev (mi_free (set_prev_free i p s)) = (lprev (mi_free s))(i := p)" "lnext (mi_free (set_prev_free i p s)) = lnext (mi_free s)"
  "mi_free (set_next i p s) = mi_free s" "mi_free (set_prev i p s) = mi_free s" "mi_free (set_item i g h s) = mi_free s"
  "mi_magic (set_item i g h s) = (mi_magic s)(i := g)" "pool_ptr (set_item i g h s) = (pool_ptr s)(i := h)"
  by (simp_all add: set_next_def set_prev_def set_next_free_def set_prev_free_def set_item_def)

lemma setter_frames:
  "mi_magic (set_next i p s) = mi_magic s" "mi_magic (set_prev i p s) = mi_magic s" "mi_magic (set_next_free i p s) = mi_magic s" "mi_magic (set_prev_free i p s) = mi_magic s"
  "pool_ptr (set_next i p s) = pool_ptr s" "pool_ptr (set_prev i p s) = pool_ptr s" "pool_ptr (set_next_free i p s) = pool_ptr s" "pool_ptr (set_prev_free i p s) = pool_ptr s"
  "memheaps (set_next i p s) = memheaps s" "memheaps (set_prev i p s) = memheaps s" "memheaps (set_next_free i p s) = memheaps s" "memheaps (set_prev_free i p s) = memheaps s"
  "mk (set_next i p s) = mk s" "mk (set_prev i p s) = mk s" "mk (set_next_free i p s) = mk s" "mk (set_prev_free i p s) = mk s"
  "memheaps (set_item i g h s) = memheaps s" "mk (set_item i g h s) = mk s" "mi_links (upd_mh x f s) = mi_links s" "mi_free (upd_mh x f s) = mi_free s"
  "mi_magic (upd_mh x f s) = mi_magic s" "pool_ptr (upd_mh x f s) = pool_ptr s" "mk (upd_mh x f s) = mk s"
  "memheaps (upd_mh x f s) = (memheaps s)(x := f (memheaps s x))"
  by (simp_all add: set_next_def set_prev_def set_next_free_def set_prev_free_def set_item_def upd_mh_def)

lemma memheap_init_eq:
  assumes "rt_object_init memheap RT_Object_Class_MemHeap nm (mk s) = Some k1" "rt_sem_init (mh_lock memheap) nm 1 RT_IPC_FLAG_FIFO k1 = Some (e, k2)"
    and "memheap \<noteq> RT_NULL" and pool: "P = unat (RT_ALIGN_DOWN sz 4)" "60 \<le> P"
    and area: "0 < start" "start + P < 2 ^ 32" "free_header memheap < start \<or> start + P \<le> free_header memheap"
  shows "\<exists>s'. rt_memheap_init memheap nm start sz s = Some (RT_EOK, s') \<and> mk s' = k2 \<and> mh_inv memheap s' [start] [start]
     \<and> unat (available_size (memheaps s' memheap)) = P - 48 \<and> mh_start (memheaps s' memheap) = start \<and> unat (pool_size (memheaps s' memheap)) = P"
proof -
  let ?pool = "RT_ALIGN_DOWN sz 4" and ?hdr = "free_header memheap"
  define t where "t = start + (P - 24)"
  have P: "unat (?pool - 48) = P - 48" "unat (?pool - 24) = P - 24" "4 dvd P"
    using pool unat_align_down [of sz] by (auto simp: unat_sub word_le_nat_alt)
  have off: "start + unat (?pool - 48 + 24) = t" using P by (simp add: t_def)
  have ne: "start \<noteq> ?hdr" "t \<noteq> ?hdr" "start \<noteq> t" using area(3) pool(2) by (auto simp: t_def)
  define s1 where "s1 = snd (the (rt_memheap_init memheap nm start sz s))"
  note defs = s1_def rt_memheap_init_def assms(1) Let_def mi_next_def next_free_def link_free_def setter_fields setter_frames
  have r: "rt_memheap_init memheap nm start sz s = Some (RT_EOK, s1)" "mk s1 = k2"
    using assms(1-3) by (simp_all add: defs)
  have h: "memheaps s1 memheap = \<lparr>mh_start = start, pool_size = ?pool, available_size = ?pool - 48, max_used_size = ?pool - (?pool - 48),
        mh_block_list = start, mh_free_list = ?hdr\<rparr>"
    using assms(1-3) by (simp add: defs)
  have l: "lnext (mi_links s1) start = t" "lprev (mi_links s1) start = t" "lnext (mi_links s1) t = start" "lprev (mi_links s1) t = start"
    using assms(1-3) ne off by (simp_all add: defs)
  have f: "lnext (mi_free s1) start = ?hdr" "lprev (mi_free s1) start = ?hdr" "lnext (mi_free s1) ?hdr = start" "lprev (mi_free s1) ?hdr = start"
    using assms(1-3) ne off by (simp_all add: defs)
  have m: "mi_magic s1 start = RT_MEMHEAP_MAGIC" "mi_magic s1 t = RT_MEMHEAP_MAGIC OR RT_MEMHEAP_USED" "pool_ptr s1 start = memheap" "pool_ptr s1 t = memheap"
    using assms(1-3) ne off by (simp_all add: defs)
  have tl: "mh_tail s1 memheap = t" using pool by (simp add: mh_tail_def h t_def)
  have ap: "apart start t" "t - start = P - 24" using pool(2) P(3) by (simp_all add: apart_def dvd_diff_nat t_def)
  have "mh_core memheap s1 [start] [start]"
    using area pool ne l f m P ap unfolding mh_core_def Let_def tl by (simp add: h ring_def is_used_def)
  then have "mh_inv memheap s1 [start] [start]" using m by (auto simp: mh_inv_def is_used_def)
  then show ?thesis using r h P pool by auto
qed

subsection \<open>Theorems\<close>

text \<open>\<^verbatim>\<open>rt_memheap_init\<close> on an area with room for its two items and a minimal block: it returns, the heap
  object is registered with its semaphore free, and the area is one free block, all of it available
  but for the two items.\<close>

lemma memheap_init_ok:
  assumes kernel: "sched_inv (mk s)" "interrupt_nest (mk s) = 0" "tlists (mk s) (Waiters (mh_lock memheap)) = []"
    and new: "memheap \<noteq> RT_NULL" "memheap \<notin> set (object_list (mk s) RT_Object_Class_MemHeap)"
      "mh_lock memheap \<notin> set (object_list (mk s) RT_Object_Class_Semaphore)"
    and area: "P = unat (RT_ALIGN_DOWN sz 4)" "60 \<le> P" "0 < start" "start + P < 2 ^ 32"
      "free_header memheap < start \<or> start + P \<le> free_header memheap"
  shows "\<exists>s'. rt_memheap_init memheap nm start sz s = Some (RT_EOK, s') \<and> mh_ready memheap s' \<and> mh_inv memheap s' [start] [start]
     \<and> unat (available_size (memheaps s' memheap)) = P - 48"
proof -
  have tc: "RT_Object_Class_MemHeap \<in> set rt_object_container" by (simp add: rt_object_container_def)
  obtain k0 k1 where k1: "rt_object_init memheap RT_Object_Class_MemHeap nm (mk s) = Some k1" "sched_inv k1"
    "\<forall>x. tlists k1 (Waiters x) = tlists (mk s) (Waiters x)"
    "sched_frame ((mk s)\<lparr>scheduler_lock_nest := scheduler_lock_nest k0\<rparr>) k0"
    "k1 = k0\<lparr>objs := (objs (mk s))(memheap := (objs (mk s) memheap)\<lparr>otype := RT_Object_Class_MemHeap OR RT_Object_Class_Static,
        name := rt_strncpy nm RT_NAME_MAX\<rparr>), object_list := seq_insert_after RT_Object_Class_MemHeap memheap (object_list (mk s))\<rparr>"
    using rt_object_init_ok [OF kernel(1) tc new(2)] by blast
  have l: "mh_lock memheap \<noteq> RT_NULL" "memheap \<noteq> mh_lock memheap" by (simp_all add: mh_lock_def)
  have "mh_lock memheap \<notin> set (object_list k1 RT_Object_Class_Semaphore)" using new(3) by (simp add: k1(5) seq_insert_after_def)
  moreover have "interrupt_nest k1 = 0" using sched_frame_fields(4) [OF k1(4)] kernel(2) by (simp add: k1(5))
  ultimately obtain k2 where k2: "rt_sem_init (mh_lock memheap) nm 1 RT_IPC_FLAG_FIFO k1 = Some (RT_EOK, k2)" "heap_free k2 (mh_lock memheap)"
    "\<forall>x. x \<noteq> mh_lock memheap \<longrightarrow> objs k2 x = objs k1 x"
    using sem_init_lock [OF k1(2) l(1)] k1(3) kernel(3) by metis
  have "is_class k2 memheap RT_Object_Class_MemHeap" using k2(3) l(2) new(1) by (simp add: is_class_def k1(5))
  then show ?thesis using memheap_init_eq [OF k1(1) k2(1) new(1) area] k2(2) by (auto simp: mh_ready_def)
qed

definition empty_mh :: mh_state where
  "empty_mh = \<lparr>memheaps = (\<lambda>_. \<lparr>mh_start = 0, pool_size = 0, available_size = 0, max_used_size = 0, mh_block_list = 0, mh_free_list = 0\<rparr>),
     mi_magic = (\<lambda>_. 0), pool_ptr = (\<lambda>_. 0), mi_links = \<lparr>lnext = id, lprev = id\<rparr>, mi_free = \<lparr>lnext = id, lprev = id\<rparr>, mk = demo\<rparr>"

text \<open>A heap object with one free block of 972 bytes, for the examples.\<close>

definition demo_mh :: mh_state where
  "demo_mh = snd (the (rt_memheap_init 200 ''pool'' 4096 1020 empty_mh))"

lemma demo_mh_ok: "mh_inv 200 demo_mh [4096] [4096]" "mh_ready 200 demo_mh" "available_size (memheaps demo_mh 200) = 972"
proof -
  have d: "object_list demo = (\<lambda>_. [])" "tlists demo (Waiters 268) = []" by (simp_all add: demo_def)
  have e: "mk empty_mh = demo" "RT_ALIGN_DOWN 1020 4 = 1020" "mh_lock 200 = 268" "free_header 200 = 244"
    by (simp_all add: empty_mh_def mh_lock_def free_header_def RT_ALIGN_DOWN_def)
  obtain s' where s': "rt_memheap_init 200 ''pool'' 4096 1020 empty_mh = Some (RT_EOK, s')" "mh_ready 200 s'" "mh_inv 200 s' [4096] [4096]"
    "unat (available_size (memheaps s' 200)) = 972"
    using memheap_init_ok [of empty_mh 200 1020 1020 4096 "''pool''", unfolded e d] demo_sched demo_fields d by auto
  moreover have "available_size (memheaps s' 200) = 972" using s'(4) by (simp add: word_unat_eq_iff)
  ultimately show "mh_inv 200 demo_mh [4096] [4096]" "mh_ready 200 demo_mh" "available_size (memheaps demo_mh 200) = 972"
    by (simp_all add: demo_mh_def)
qed

lemma demo_mh_size: "MEMITEM_SIZE demo_mh 4096 = 972"
proof -
  have c: "mh_core 200 demo_mh ([] @ 4096 # []) [4096]" using mh_inv_core [OF demo_mh_ok(1)] by simp
  have "set [4096] = {b \<in> set [4096]. \<not> is_used demo_mh b}" using demo_mh_ok(1) unfolding mh_inv_def by blast
  then have "\<not> is_used demo_mh 4096" by (metis (mono_tags, lifting) CollectD list.set_intros(1))
  then have "unat (MEMITEM_SIZE demo_mh 4096) = free_sum (is_used demo_mh) [4096] (mh_tail demo_mh 200)"
    using core_next(1,5) [OF c] by simp
  then have "unat (MEMITEM_SIZE demo_mh 4096) = 972" using mh_coreD(12) [OF c] demo_mh_ok(3) by simp
  then show ?thesis by (simp add: word_unat_eq_iff)
qed

text \<open>C28: Allocating from a memory heap in a consistent state. With \<open>n\<close> the request rounded up, the call
  returns; when less than \<open>n + 1\<close> bytes are available or no block of the free list can hold \<open>n\<close>, it
  returns \<^verbatim>\<open>RT_NULL\<close> and changes nothing. Otherwise it takes the first block of the free list that can
  hold \<open>n\<close>: the block was free and is used now, the bytes handed out lie inside the area and end
  before the next item, every other block keeps its place, size and state, and the heap is
  consistent.\<close>

theorem memheap_alloc_spec:
  assumes "mh_inv heap s bs fs" "mh_ready heap s" "sz \<le> 0xfffffffc" "n = req_size sz"
  shows "\<exists>p s'. rt_memheap_alloc heap sz s = Some (Block p, s') \<and> mk s' = mk s
     \<and> (if n < available_size (memheaps s heap) \<and> (\<exists>b \<in> set fs. n \<le> MEMITEM_SIZE s b)
        then \<exists>b. find (\<lambda>b. n \<le> MEMITEM_SIZE s b) fs = Some b \<and> p = b + 24 \<and> \<not> is_used s b \<and> is_used s' b
               \<and> mh_start (memheaps s heap) + 24 \<le> p \<and> p + unat sz \<le> mi_next s' b \<and> mi_next s' b \<le> mh_tail s heap
               \<and> (\<forall>x \<in> set bs - {b}. is_used s' x = is_used s x \<and> mi_next s' x = mi_next s x)
               \<and> (\<exists>bs' fs'. mh_inv heap s' bs' fs' \<and> set bs \<subseteq> set bs')
        else p = RT_NULL \<and> s' = s)"
proof (cases "n < available_size (memheaps s heap) \<and> (\<exists>b \<in> set fs. n \<le> MEMITEM_SIZE s b)")
  case False
  then have "find (\<lambda>b. n \<le> MEMITEM_SIZE s b) fs = None \<or> \<not> n < available_size (memheaps s heap)" by (auto simp: find_None_iff)
  then show ?thesis using memheap_alloc_ok [OF assms] False by (auto split: option.splits)
next
  case True
  then obtain b where b: "find (\<lambda>b. n \<le> MEMITEM_SIZE s b) fs = Some b" by (cases "find (\<lambda>b. n \<le> MEMITEM_SIZE s b) fs") (auto simp: find_None_iff)
  then have nb: "n \<le> MEMITEM_SIZE s b" by (auto simp: find_Some_iff)
  obtain s' where s': "rt_memheap_alloc heap sz s = Some (Block (b + 24), s')" "mk s' = mk s" "mh_taken heap n b s bs fs s'"
    using memheap_alloc_ok [OF assms] b True by auto
  note f = taken_facts [OF assms(1) s'(3) nb]
  obtain bs' fs' where i: "mh_inv heap s' bs' fs'" "set bs \<subseteq> set bs'" using f(6) by blast
  have c: "mh_core heap s bs fs" using assms(1) by (rule mh_inv_core)
  have "mh_start (memheaps s heap) \<le> b" using core_bounds(1) [OF c f(3)] .
  moreover have "mi_next s' b \<le> mh_tail s heap"
  proof -
    obtain xs ys where l: "bs' = xs @ b # ys" using i(2) f(3) by (metis in_set_conv_decomp subsetD)
    have c': "mh_core heap s' (xs @ b # ys) fs'" using mh_inv_core [OF i(1)] l by simp
    have "mh_tail s' heap = mh_tail s heap" using s'(3) by (simp add: mh_taken_def)
    then show ?thesis using core_next(1) [OF c'] core_bounds(2) [OF c', of "hd ys"] by (cases ys) auto
  qed
  moreover have "unat sz \<le> unat n" using req_size_ok(2) [OF assms(3)] assms(4) by simp
  ultimately have "mh_start (memheaps s heap) + 24 \<le> b + 24" "b + 24 + unat sz \<le> mi_next s' b" "mi_next s' b \<le> mh_tail s heap"
    using f(4) by simp_all
  moreover have "\<forall>x \<in> set bs - {b}. is_used s' x = is_used s x \<and> mi_next s' x = mi_next s x" using f(5) by blast
  ultimately show ?thesis unfolding if_P [OF True] using s'(1,2) b f(1,2,6) by (intro exI [of _ "b + 24"] exI [of _ s'] exI [of _ b] conjI) simp_all
qed

theorem memheap_alloc_spec_witness:
  "\<exists>s'. rt_memheap_alloc 200 10 demo_mh = Some (Block 4120, s') \<and> is_used s' 4096 \<and> 4130 \<le> mi_next s' 4096"
proof -
  have n: "req_size 10 = 12" by (simp add: req_size_def RT_ALIGN_def)
  show ?thesis using memheap_alloc_spec [OF demo_mh_ok(1,2), of 10 12] by (auto simp: n demo_mh_ok(3) demo_mh_size)
qed

lemma free_sum_merged:
  assumes "successively apart ((xs @ b # ys) @ [t])" "\<not> u b"
  shows "free_sum u (merged u xs b ys) t = free_sum u (xs @ b # ys) t + 24 * (length (xs @ b # ys) - length (merged u xs b ys))"
proof -
  define left where "left \<longleftrightarrow> xs \<noteq> [] \<and> \<not> u (last xs)"
  define right where "right \<longleftrightarrow> ys \<noteq> [] \<and> \<not> u (hd ys)"
  define ps where "ps = (if left then butlast xs else xs)"
  define h where "h = (if left then last xs else b)"
  have so: "sorted_wrt apart ((xs @ b # ys) @ [t])" using assms(1) by (simp only: successively_sorted)
  have m: "merged u xs b ys = ps @ h # (if right then tl ys else ys)" "\<not> u h"
    using assms(2) by (auto simp: merged_def ps_def h_def left_def right_def)
  have 1: "free_sum u (ps @ h # ys) t = free_sum u (xs @ b # ys) t + (if left then 24 else 0)
     \<and> length (xs @ b # ys) = length (ps @ h # ys) + (if left then 1 else 0) \<and> successively apart (ps @ h # ys @ [t])"
  proof (cases left)
    case True
    then obtain zs where z: "xs = zs @ [h]" "ps = zs" by (cases xs rule: rev_cases) (auto simp: left_def h_def ps_def)
    then show ?thesis
      using free_sum_merge [of zs h b ys t u] True assms m(2) so by (simp add: successively_sorted sorted_wrt_append)
  next
    case False
    then show ?thesis using assms(1) by (simp add: ps_def h_def)
  qed
  show ?thesis
  proof (cases right)
    case True
    then obtain r rs where r: "ys = r # rs" "\<not> u r" by (cases ys) (auto simp: right_def)
    then show ?thesis using free_sum_merge [of ps h r rs t u] 1 m True by auto
  next
    case False
    then show ?thesis using 1 m by auto
  qed
qed

text \<open>C29: Freeing a used block of a memory heap in a consistent state: the call returns, only this block
  changes its state, it is fused with a free block right before and right behind it, so that no
  two free blocks are neighbours, and the bytes of the block (and of each item that is no longer
  needed) are available again.\<close>

theorem memheap_free_spec:
  assumes "mh_inv heap s bs fs" "mh_ready heap s" "bs = xs @ b # ys" "is_used s b"
  shows "\<exists>s' fs'. rt_memheap_free (b + 24) s = Some (Done RT_EOK, s') \<and> mk s' = mk s \<and> is_used s' = (is_used s)(b := False)
     \<and> (let bs' = merged (is_used s) xs b ys
        in mh_inv heap s' bs' fs' \<and> successively (\<lambda>x y. is_used s' x \<or> is_used s' y) bs'
         \<and> unat (available_size (memheaps s' heap)) =
             unat (available_size (memheaps s heap)) + (mi_next s b - b - 24) + 24 * (length bs - length bs'))"
proof -
  let ?bs' = "merged (is_used s) xs b ys" and ?t = "mh_tail s heap"
  have inv: "mh_inv heap s (xs @ b # ys) fs" using assms(1,3) by simp
  obtain s' fs' where s': "rt_memheap_free (b + 24) s = Some (Done RT_EOK, s')" "mk s' = mk s"
    "mh_inv heap s' ?bs' fs'" "is_used s' = (is_used s)(b := False)" "mh_tail s' heap = ?t"
    using memheap_free_ok [OF inv assms(2,4)] by auto
  have core: "mh_core heap s (xs @ b # ys) fs" using inv by (rule mh_inv_core)
  have dist: "distinct (xs @ b # ys)" using mh_inv_distinct [OF inv] .
  let ?u = "(is_used s)(b := False)"
  have "is_used s = ?u(b := True)" using assms(4) by (simp add: fun_upd_idem)
  then have 1: "free_sum ?u (xs @ b # ys) ?t = free_sum (is_used s) (xs @ b # ys) ?t + (mi_next s b - b - 24)"
    using free_sum_use [of b xs ys ?u] dist core_next(1) [OF core] by simp
  have "xs \<noteq> [] \<and> \<not> is_used s (last xs) \<longleftrightarrow> xs \<noteq> [] \<and> \<not> ?u (last xs)" using dist last_in_set [of xs] by (cases "xs = []") auto
  moreover have "ys \<noteq> [] \<and> \<not> is_used s (hd ys) \<longleftrightarrow> ys \<noteq> [] \<and> \<not> ?u (hd ys)" using dist hd_in_set [of ys] by (cases "ys = []") auto
  ultimately have "merged (is_used s) xs b ys = merged ?u xs b ys" by (simp only: merged_def)
  then have 2: "free_sum ?u ?bs' ?t = free_sum ?u (xs @ b # ys) ?t + 24 * (length (xs @ b # ys) - length ?bs')"
    using free_sum_merged [of xs b ys ?t ?u] mh_coreD(9) [OF core] by simp
  have "unat (available_size (memheaps s' heap)) = free_sum ?u ?bs' ?t"
    using mh_coreD(12) [OF mh_inv_core [OF s'(3)]] s'(4,5) by simp
  then have "unat (available_size (memheaps s' heap)) =
      unat (available_size (memheaps s heap)) + (mi_next s b - b - 24) + 24 * (length bs - length ?bs')"
    using 1 2 mh_coreD(12) [OF core] assms(3) by simp
  moreover have "successively (\<lambda>x y. is_used s' x \<or> is_used s' y) ?bs'" using s'(3) by (simp add: mh_inv_def)
  ultimately show ?thesis using s'(1-4) unfolding Let_def by blast
qed

lemma alloc_then_free:
  assumes inv: "mh_inv heap s bs fs" and taken: "mh_taken heap n b s bs fs s'" and ready: "mh_ready heap s'"
  shows "\<exists>s'' fs''. rt_memheap_free (b + 24) s' = Some (Done RT_EOK, s'') \<and> mk s'' = mk s' \<and> mh_inv heap s'' bs fs'' \<and> set fs'' = set fs
     \<and> unat (available_size (memheaps s'' heap)) = unat (available_size (memheaps s heap))"
proof -
  obtain xs ys us vs where l: "bs = xs @ b # ys" "fs = us @ b # vs" and t: "mh_tail s' heap = mh_tail s heap"
    and r: "if n + 36 \<le> MEMITEM_SIZE s b
        then mh_inv heap s' (xs @ b # (b + 24 + unat n) # ys) ((b + 24 + unat n) # us @ vs)
          \<and> is_used s' = (is_used s)(b := True, b + 24 + unat n := False)
        else mh_inv heap s' bs (us @ vs) \<and> is_used s' = (is_used s)(b := True)"
    using taken unfolding mh_taken_def by auto
  have fs: "set fs = {x \<in> set bs. \<not> is_used s x}" and adj: "successively (\<lambda>x y. is_used s x \<or> is_used s y) bs" using inv by (simp_all add: mh_inv_def)
  have nb: "\<not> is_used s b" using fs l by auto
  then have near: "xs \<noteq> [] \<Longrightarrow> is_used s (last xs)" "ys \<noteq> [] \<Longrightarrow> is_used s (hd ys)" using adj l(1) by (auto simp: successively_append_iff successively_Cons)
  have dist: "distinct bs" using mh_inv_distinct [OF inv] .
  obtain zs fs' where z: "mh_inv heap s' (xs @ b # zs) fs'" "is_used s' b" "merged (is_used s') xs b zs = bs"
    "\<And>x. x \<in> set bs \<Longrightarrow> ((is_used s')(b := False)) x = is_used s x"
  proof (cases "n + 36 \<le> MEMITEM_SIZE s b")
    case True
    let ?n = "b + 24 + unat n"
    have i: "mh_inv heap s' (xs @ b # ?n # ys) (?n # us @ vs)" "is_used s' = (is_used s)(b := True, ?n := False)" using r True by auto
    have new: "?n \<notin> set bs" "b \<notin> set xs" using mh_inv_distinct [OF i(1)] l(1) by auto
    have last: "is_used s' (last xs)" if "xs \<noteq> []"
    proof -
      have "last xs \<in> set xs" using that by simp
      then have "last xs \<noteq> ?n" using new(1) l(1) by auto
      then show ?thesis using near(1) [OF that] by (simp add: i(2))
    qed
    have "\<not> is_used s' ?n" by (simp add: i(2))
    then have "merged (is_used s') xs b (?n # ys) = bs" using last l(1) by (auto simp: merged_def)
    moreover have "((is_used s')(b := False)) x = is_used s x" if "x \<in> set bs" for x using that new(1) nb by (auto simp: i(2))
    ultimately show thesis using that [OF i(1)] new(1) l(1) by (auto simp: i(2))
  next
    case False
    have i: "mh_inv heap s' (xs @ b # ys) (us @ vs)" "is_used s' = (is_used s)(b := True)" using r False l(1) by auto
    have "merged (is_used s') xs b ys = bs" using near l(1) by (auto simp: merged_def i(2))
    then show thesis using that [OF i(1)] nb by (auto simp: i(2))
  qed
  obtain s'' fs'' where f: "rt_memheap_free (b + 24) s' = Some (Done RT_EOK, s'')" "mk s'' = mk s'" "mh_inv heap s'' bs fs''"
    "is_used s'' = (is_used s')(b := False)" "mh_tail s'' heap = mh_tail s heap"
    using memheap_free_ok [OF z(1) ready z(2)] z(3) t by auto
  have u: "is_used s'' x = is_used s x" if "x \<in> set bs" for x using z(4) [OF that] f(4) by simp
  have "set fs'' = {x \<in> set bs. \<not> is_used s'' x}" using f(3) by (simp add: mh_inv_def)
  then have "set fs'' = set fs" using fs u by auto
  moreover have "unat (available_size (memheaps s'' heap)) = unat (available_size (memheaps s heap))"
    using mh_coreD(12) [OF mh_inv_core [OF f(3)]] mh_coreD(12) [OF mh_inv_core [OF inv]] f(5) free_sum_cong [of bs "is_used s''" "is_used s"] u by simp
  ultimately show ?thesis using f(1-3) by blast
qed

text \<open>Allocating from a memory heap and freeing the block again: the items are what they were before,
  the free list holds the same blocks (perhaps in another order), and as much is available.\<close>

lemma memheap_alloc_free:
  assumes "mh_inv heap s bs fs" "mh_ready heap s" "sz \<le> 0xfffffffc" "rt_memheap_alloc heap sz s = Some (Block p, s')" "p \<noteq> RT_NULL"
  shows "\<exists>s'' fs''. rt_memheap_free p s' = Some (Done RT_EOK, s'') \<and> mk s'' = mk s \<and> mh_inv heap s'' bs fs'' \<and> set fs'' = set fs
     \<and> unat (available_size (memheaps s'' heap)) = unat (available_size (memheaps s heap))"
proof -
  obtain b where b: "p = b + 24" "mh_taken heap (req_size sz) b s bs fs s'" "mk s' = mk s"
    using memheap_alloc_ok [OF assms(1-3) refl] assms(4,5) by (auto split: option.splits if_splits)
  moreover have "mh_ready heap s'" using assms(2) b(3) by (simp add: mh_ready_def)
  ultimately show ?thesis using alloc_then_free [OF assms(1) b(2)] by simp
qed

lemma demo_mh_alloc:
  obtains s1 fs1 where "rt_memheap_alloc 200 10 demo_mh = Some (Block 4120, s1)" "mh_ready 200 s1" "mh_inv 200 s1 [4096, 4132] fs1" "is_used s1 4096"
proof -
  have n: "req_size 10 = 12" by (simp add: req_size_def RT_ALIGN_def)
  obtain s1 where s1: "rt_memheap_alloc 200 10 demo_mh = Some (Block 4120, s1)" "mk s1 = mk demo_mh" "mh_taken 200 12 4096 demo_mh [4096] [4096] s1"
    using memheap_alloc_ok [OF demo_mh_ok(1,2), of 10 12] by (auto simp: n demo_mh_ok(3) demo_mh_size)
  have "mh_ready 200 s1" using demo_mh_ok(2) s1(2) by (simp add: mh_ready_def)
  moreover have "\<exists>fs1. mh_inv 200 s1 [4096, 4132] fs1 \<and> is_used s1 4096"
    using s1(3) by (auto simp: mh_taken_def demo_mh_size Cons_eq_append_conv)
  ultimately show thesis using that s1(1) by auto
qed

theorem memheap_free_spec_witness:
  "\<exists>s1 s' fs'. rt_memheap_alloc 200 10 demo_mh = Some (Block 4120, s1) \<and> rt_memheap_free 4120 s1 = Some (Done RT_EOK, s')
     \<and> mh_inv 200 s' (merged (is_used s1) [] 4096 [4132]) fs'"
proof -
  obtain s1 fs1 where s1: "rt_memheap_alloc 200 10 demo_mh = Some (Block 4120, s1)" "mh_ready 200 s1" "mh_inv 200 s1 [4096, 4132] fs1" "is_used s1 4096"
    by (rule demo_mh_alloc)
  show ?thesis using memheap_free_spec [OF s1(3,2) _ s1(4), of "[]" "[4132]"] s1(1) by (auto simp: Let_def)
qed

text \<open>
  A block that is exactly as large as all that is available is refused: the comparison before the
  search is strict.
\<close>

lemma memheap_exact_fit_fails:
  assumes "mh_ready heap s" "available_size (memheaps s heap) \<le> req_size sz"
  shows "rt_memheap_alloc heap sz s = Some (Block RT_NULL, s)"
proof -
  have "\<not> (if RT_ALIGN sz 4 < 12 then 12 else RT_ALIGN sz 4) < available_size (memheaps s heap)" using assms(2) by (simp only: req_size_def not_less)
  then show ?thesis using assms(1) unfolding rt_memheap_alloc_def mh_ready_def Let_def by (simp add: ASSERT_TYPE_bind is_class_def)
qed

end
