(* ===== verification/RT_WaitQueue.thy ===== *)
theory RT_WaitQueue
  imports RT_Example
begin

text \<open>
  Wait queues (\<^verbatim>\<open>components/drivers/src/waitqueue.c\<close> and \<^verbatim>\<open>components/drivers/include/ipc/waitqueue.h\<close>), on which pipes and \<^verbatim>\<open>poll\<close> are built. A
  waiting thread is represented by a node of its own with a function that decides whether a wake-up
  concerns it; the list of the queue links the nodes, not the threads, so that one thread can wait
  on several queues. The lists are kept as sequences, as those of the threads are; the thread's
  own list node is on no list while it waits.
\<close>

subsection \<open>State\<close>

text \<open>
  A wake function is the default one or another, known by its address. What the others do is an
  argument of \<open>rt_wqueue_wakeup\<close>; they work on data \<open>'x\<close> of their own.
\<close>

datatype rt_wqueue_func = Wqueue_default_wake | Wake_func ptr

record rt_wqueue_node =
  polling_thread :: ptr
  wakeup :: rt_wqueue_func
  wq_key :: u32

record wq_state =
  wq_flag :: "ptr \<Rightarrow> u32"
  waiting_list :: "ptr \<Rightarrow> ptr list"
  wq_nodes :: "ptr \<Rightarrow> rt_wqueue_node"
  wk :: kernel

type_synonym 'x wake_call = "ptr \<Rightarrow> ptr \<Rightarrow> ptr \<Rightarrow> 'x \<Rightarrow> int \<times> 'x"

abbreviation (input) RT_WQ_FLAG_CLEAN :: u32 where "RT_WQ_FLAG_CLEAN \<equiv> 0"
abbreviation (input) RT_WQ_FLAG_WAKEUP :: u32 where "RT_WQ_FLAG_WAKEUP \<equiv> 1"

subsection \<open>Operations\<close>

text \<open>Initialising the head of a list that has nodes would leave them dangling, hence the guard.\<close>

definition rt_wqueue_init :: "ptr \<Rightarrow> wq_state \<Rightarrow> wq_state option" where
  "rt_wqueue_init queue s = do {
     RT_ASSERT (queue \<noteq> RT_NULL);
     C_GUARD (waiting_list s queue = []);
     Some (s\<lparr>wq_flag := (wq_flag s)(queue := RT_WQ_FLAG_CLEAN)\<rparr>)
   }"

definition rt_wqueue_add :: "ptr \<Rightarrow> ptr \<Rightarrow> wq_state \<Rightarrow> wq_state option" where
  "rt_wqueue_add queue node s = do {
     C_GUARD (seq_detached node (waiting_list s));
     Some (s\<lparr>waiting_list := seq_insert_before queue node (waiting_list s)\<rparr>)
   }"

definition rt_wqueue_remove :: "ptr \<Rightarrow> wq_state \<Rightarrow> wq_state" where
  "rt_wqueue_remove node s = s\<lparr>waiting_list := fam_remove node (waiting_list s)\<rparr>"

definition wqueue_default_wake :: "ptr \<Rightarrow> ptr \<Rightarrow> int" where
  "wqueue_default_wake wait key = 0"

text \<open>The call \<^verbatim>\<open>entry->wakeup(entry, key)\<close>.\<close>

definition wake_entry :: "'x wake_call \<Rightarrow> rt_wqueue_func \<Rightarrow> ptr \<Rightarrow> ptr \<Rightarrow> 'x \<Rightarrow> int \<times> 'x" where
  "wake_entry call f node key x = (case f of
       Wqueue_default_wake \<Rightarrow> (wqueue_default_wake node key, x)
     | Wake_func a \<Rightarrow> call a node key x)"

text \<open>The loop over the queue: the first node whose wake function returns 0.\<close>

fun wakeup_loop :: "'x wake_call \<Rightarrow> (ptr \<Rightarrow> rt_wqueue_node) \<Rightarrow> ptr \<Rightarrow> ptr list \<Rightarrow> 'x \<Rightarrow> ptr option \<times> 'x" where
  "wakeup_loop call nodes key [] x = (None, x)"
| "wakeup_loop call nodes key (ent # rest) x =
     (let (r, x) = wake_entry call (wakeup (nodes ent)) ent key x
      in if r = 0 then (Some ent, x) else wakeup_loop call nodes key rest x)"

definition rt_wqueue_wakeup :: "'x wake_call \<Rightarrow> ptr \<Rightarrow> ptr \<Rightarrow> 'x \<Rightarrow> wq_state \<Rightarrow> ('x \<times> wq_state) option" where
  "rt_wqueue_wakeup call queue key x s = do {
     let s = s\<lparr>wq_flag := (wq_flag s)(queue := RT_WQ_FLAG_WAKEUP)\<rparr>;
     let (found, x) = wakeup_loop call (wq_nodes s) key (waiting_list s queue) x;
     (case found of
        None \<Rightarrow> Some (x, s)
      | Some ent \<Rightarrow> do {
          (_, k) \<leftarrow> rt_thread_resume (polling_thread (wq_nodes s ent)) (wk s);
          let s = rt_wqueue_remove ent (s\<lparr>wk := k\<rparr>);
          k \<leftarrow> rt_schedule (wk s);
          Some (x, s\<lparr>wk := k\<rparr>)
        })
   }"

text \<open>
  \<^verbatim>\<open>rt_wqueue_wait\<close>: \<open>node\<close> is the address of the local variable \<^verbatim>\<open>__wait\<close>. Everything up to the call of
  \<^verbatim>\<open>rt_schedule\<close> runs with interrupts disabled. The statements behind it, from the label
  \<^verbatim>\<open>__exit_wakeup\<close> on, are \<open>rt_wqueue_wait_resume\<close>.
\<close>

definition rt_wqueue_wait_resume :: "ptr \<Rightarrow> ptr \<Rightarrow> wq_state \<Rightarrow> err \<times> wq_state" where
  "rt_wqueue_wait_resume queue node s =
     (0, rt_wqueue_remove node (s\<lparr>wq_flag := (wq_flag s)(queue := 0)\<rparr>))"

definition rt_wqueue_wait :: "ptr \<Rightarrow> ptr \<Rightarrow> bool \<Rightarrow> 32 word \<Rightarrow> wq_state \<Rightarrow> (outcome \<times> wq_state) option" where
  "rt_wqueue_wait queue node condition msec s = do {
     let tid = rt_thread_self (wk s);
     RT_DEBUG_NOT_IN_INTERRUPT (wk s);
     let tick = rt_tick_from_millisecond msec;
     if condition \<or> tick = 0 then Some (Done 0, s)
     else do {
       C_GUARD (seq_detached node (waiting_list s));
       let s = s\<lparr>wq_nodes := (wq_nodes s)(node :=
         \<lparr>polling_thread = rt_thread_self (wk s), wakeup = Wqueue_default_wake, wq_key = 0\<rparr>)\<rparr>;
       if wq_flag s queue = RT_WQ_FLAG_WAKEUP then
         (let (r, s) = rt_wqueue_wait_resume queue node s in Some (Done r, s))
       else do {
         s \<leftarrow> rt_wqueue_add queue node s;
         (_, k) \<leftarrow> rt_thread_suspend tid (wk s);
         k \<leftarrow> (if tick \<noteq> RT_WAITING_FOREVER then arm_timer tid tick k else Some k);
         k \<leftarrow> rt_schedule k;
         Some (Blocked, s\<lparr>wk := k\<rparr>)
       }
     }
   }"

subsection \<open>Milliseconds\<close>

text \<open>One tick is one millisecond: only the sign is interpreted.\<close>

lemma tick_of_ms: "0 \<le> sint ms \<Longrightarrow> rt_tick_from_millisecond ms = ms"
proof -
  assume a: "0 \<le> sint ms"
  have m: "(1000 * (ms mod 1000) + 999) div 1000 = ms mod 1000"
  proof (rule word_unat_eq_iff [THEN iffD2])
    have b: "unat (ms mod 1000) < 1000" by (simp add: unat_mod)
    have "unat (1000 * (ms mod 1000) + 999) = 1000 * unat (ms mod 1000) + 999"
      using b by (simp add: unat_word_ariths)
    then show "unat ((1000 * (ms mod 1000) + 999) div 1000) = unat (ms mod 1000)"
      by (simp add: unat_div)
  qed
  have "1000 * (ms div 1000) + ms mod 1000 = ms"
    by (metis mult_div_mod_eq)
  with a m show ?thesis by (simp add: rt_tick_from_millisecond_def Let_def)
qed

subsection \<open>Blocking without a list\<close>

text \<open>The current thread is suspended, for ever or until its timer fires, and another one runs.\<close>

lemma suspend_switch_ok:
  assumes inv: "kinv b k" and c: "c = rt_current_thread k" "tstat k c = RT_THREAD_RUNNING"
    and tick: "tick = RT_WAITING_FOREVER \<or> tick < 0x7fffffff"
  shows "\<exists>k0 k1 k'. rt_thread_suspend c k = Some (RT_EOK, k0)
     \<and> (if tick \<noteq> RT_WAITING_FOREVER then arm_timer c tick k0 else Some k0) = Some k1
     \<and> rt_schedule k1 = Some k' \<and> kinv b k' \<and> kframe k k' \<and> tstat k' c = RT_THREAD_SUSPEND
     \<and> (\<forall>u. u \<noteq> c \<longrightarrow> stat_moved k k' u) \<and> rt_current_thread k' \<noteq> RT_NULL
     \<and> (tick \<noteq> RT_WAITING_FOREVER \<longrightarrow> thread_timer (threads k c) \<in> set (timer_list k')
          \<and> timeout_tick (timers k' (thread_timer (threads k c))) = rt_tick k + tick)"
proof -
  obtain k0 where k0: "rt_thread_suspend c k = Some (RT_EOK, k0)" "kinv b k0" "kframe k k0"
    "tstat k0 c = RT_THREAD_SUSPEND" "\<forall>u. u \<noteq> c \<longrightarrow> tstat k0 u = tstat k u" "rt_current_thread k0 = rt_current_thread k"
    using suspend_ok [OF inv, of c] c(2) by auto
  have x: "thread_timer (threads k0 c) = thread_timer (threads k c)" "rt_tick k0 = rt_tick k"
    using thread_same_fields(8) [OF kframe_parts(1) [OF k0(3)]] kframe_fields(4) [OF k0(3)] by auto
  obtain k1 where k1: "(if tick \<noteq> RT_WAITING_FOREVER then arm_timer c tick k0 else Some k0) = Some k1" "kinv b k1"
    "kframe k0 k1" "threads k1 = threads k0" "rt_current_thread k1 = rt_current_thread k0"
    "tick \<noteq> RT_WAITING_FOREVER \<longrightarrow> thread_timer (threads k c) \<in> set (timer_list k1)
          \<and> timeout_tick (timers k1 (thread_timer (threads k c))) = rt_tick k + tick"
    using arm_ok [OF k0(2,4), of tick] tick k0(2) x by (cases "tick = RT_WAITING_FOREVER") auto
  have "rt_current_thread k1 \<noteq> RT_NULL" using running_not_null [OF inv c(2)] c(1) k0(6) k1(5) by simp
  from kinv_schedule [OF k1(2) this] obtain k' where k': "rt_schedule k1 = Some k'" "kinv b k'" "kframe k1 k'" "stat_moves k1 k'"
    "rt_current_thread k' \<noteq> RT_NULL" "timers k' = timers k1" "timer_list k' = timer_list k1"
    by auto
  have st1: "tstat k1 u = tstat k0 u" for u by (simp add: tstat_def k1(4))
  have st: "tstat k' c = RT_THREAD_SUSPEND" using stat_moves_iff(1) [OF k'(4), of c] k0(4) st1 by simp
  have mv: "\<forall>u. u \<noteq> c \<longrightarrow> stat_moved k k' u"
  proof (intro allI impI)
    fix u assume "u \<noteq> c"
    then show "stat_moved k k' u" using stat_moves_moved [OF k'(4), of u] k0(5) st1 by (simp add: stat_moved_def)
  qed
  have fr: "kframe k k'" using kframe_trans [OF kframe_trans [OF k0(3) k1(3)] k'(3)] .
  have tm: "tick \<noteq> RT_WAITING_FOREVER \<longrightarrow> thread_timer (threads k c) \<in> set (timer_list k')
          \<and> timeout_tick (timers k' (thread_timer (threads k c))) = rt_tick k + tick"
    using k1(6) k'(6,7) by simp
  show ?thesis by (intro exI conjI) (fact k0(1) k1(1) k'(1) k'(2) fr st mv k'(5) tm)+
qed

subsection \<open>Waiting and waking\<close>

text \<open>Every queued node belongs to a started thread, and no node is queued twice.\<close>

definition wq_ok :: "wq_state \<Rightarrow> bool" where
  "wq_ok s \<longleftrightarrow> list_family (waiting_list s)
     \<and> (\<forall>n \<in> fam_nodes (waiting_list s). live (wk s) (polling_thread (wq_nodes s n)))"

lemma resume_live:
  assumes inv: "kinv b k" and t: "live k t" and cur: "rt_current_thread k \<noteq> RT_NULL"
  shows "\<exists>e k1 k'. rt_thread_resume t k = Some (e, k1) \<and> rt_schedule k1 = Some k' \<and> kinv b k' \<and> kframe k k'
     \<and> (e = RT_EOK \<longleftrightarrow> tstat k t = RT_THREAD_SUSPEND) \<and> tstat k' t \<in> {RT_THREAD_READY, RT_THREAD_RUNNING}
     \<and> (\<forall>u. u \<noteq> t \<longrightarrow> stat_moved k k' u) \<and> rt_current_thread k' \<noteq> RT_NULL
     \<and> thread_timer (threads k t) \<notin> set (timer_list k')"
proof -
  obtain e k1 where k1: "rt_thread_resume t k = Some (e, k1)" "e = RT_EOK \<longleftrightarrow> tstat k t = RT_THREAD_SUSPEND" "kinv b k1" "kframe k k1"
    "tstat k1 t \<in> {RT_THREAD_READY, RT_THREAD_RUNNING}" "\<forall>u. u \<noteq> t \<longrightarrow> tstat k1 u = tstat k u"
    "rt_current_thread k1 \<noteq> RT_NULL" "thread_timer (threads k t) \<notin> set (timer_list k1)"
  proof (cases "tstat k t = RT_THREAD_SUSPEND")
    case True
    from resume_ok [OF inv True] cur True show ?thesis by (auto intro!: that split: if_splits)
  next
    case False
    from resume_refused [OF own_timerD(1) [OF kinvD(3) [OF inv t]] False] timer_off [OF inv t] False t cur inv
    show ?thesis by (auto intro!: that simp: live_def)
  qed
  obtain k' where k': "rt_schedule k1 = Some k'" "kinv b k'" "kframe k1 k'" "stat_moves k1 k'"
    "rt_current_thread k' \<noteq> RT_NULL" "timer_list k' = timer_list k1"
    using kinv_schedule [OF k1(3,7)] by auto
  have st: "tstat k' t \<in> {RT_THREAD_READY, RT_THREAD_RUNNING}"
    using k'(4) k1(5) unfolding stat_moves_def by (auto dest!: spec [of _ t])
  have mv: "\<forall>u. u \<noteq> t \<longrightarrow> stat_moved k k' u"
    using stat_moves_moved [OF k'(4)] k1(6) by (auto intro: stat_moved_pre)
  have tm: "thread_timer (threads k t) \<notin> set (timer_list k')" using k1(8) k'(6) by simp
  show ?thesis
    by (intro exI conjI) (fact k1(1) k'(1) k'(2) kframe_trans [OF k1(4) k'(3)] k1(2) st mv k'(5) tm)+
qed

lemma wakeup_loop_in: "wakeup_loop call nodes key q x = (Some n, x') \<Longrightarrow> n \<in> set q"
  by (induction q arbitrary: x) (auto split: prod.splits if_splits)

lemma wq_ok_moved:
  assumes "wq_ok s" "\<And>u. live (wk s) u \<Longrightarrow> live k u"
  shows "wq_ok (s\<lparr>wk := k, waiting_list := fam_remove n (waiting_list s)\<rparr>)"
  using assms by (auto simp: wq_ok_def list_family_remove fam_nodes_remove)

lemma wq_ok_flag [simp]: "wq_ok (s\<lparr>wq_flag := f\<rparr>) = wq_ok s"
  by (simp add: wq_ok_def)

lemma wqueue_wakeup_found:
  assumes inv: "kinv b (wk s)" and ok: "wq_ok s" and cur: "rt_current_thread (wk s) \<noteq> RT_NULL"
    and found: "wakeup_loop call (wq_nodes s) key (waiting_list s queue) x = (Some n, x')"
    and t: "t = polling_thread (wq_nodes s n)"
  shows "\<exists>s'. rt_wqueue_wakeup call queue key x s = Some (x', s') \<and> kinv b (wk s') \<and> kframe (wk s) (wk s') \<and> wq_ok s'
     \<and> wq_flag s' = (wq_flag s)(queue := RT_WQ_FLAG_WAKEUP) \<and> waiting_list s' = fam_remove n (waiting_list s)
     \<and> wq_nodes s' = wq_nodes s
     \<and> tstat (wk s') t \<in> {RT_THREAD_READY, RT_THREAD_RUNNING} \<and> thread_timer (threads (wk s) t) \<notin> set (timer_list (wk s'))
     \<and> (\<forall>u. u \<noteq> t \<longrightarrow> stat_moved (wk s) (wk s') u) \<and> rt_current_thread (wk s') \<noteq> RT_NULL"
proof -
  have "n \<in> fam_nodes (waiting_list s)" using wakeup_loop_in [OF found] by (auto simp: in_fam_nodes)
  then have lt: "live (wk s) t" using ok t by (simp add: wq_ok_def)
  obtain e k1 k' where k': "rt_thread_resume t (wk s) = Some (e, k1)" "rt_schedule k1 = Some k'" "kinv b k'" "kframe (wk s) k'"
    "tstat k' t \<in> {RT_THREAD_READY, RT_THREAD_RUNNING}" "\<forall>u. u \<noteq> t \<longrightarrow> stat_moved (wk s) k' u" "rt_current_thread k' \<noteq> RT_NULL"
    "thread_timer (threads (wk s) t) \<notin> set (timer_list k')"
    using resume_live [OF inv lt cur] by blast
  let ?f = "(wq_flag s)(queue := RT_WQ_FLAG_WAKEUP)"
  let ?s = "s\<lparr>wk := k', waiting_list := fam_remove n (waiting_list s)\<rparr>\<lparr>wq_flag := ?f\<rparr>"
  have "live k' u" if "live (wk s) u" for u
    using that moved_live [of "wk s" k' u] k'(5,6) by (cases "u = t") (auto simp: live_def)
  then have wq: "wq_ok ?s" using wq_ok_moved [OF ok] by simp
  have "rt_wqueue_wakeup call queue key x s = Some (x', ?s)"
    using found k'(1,2) t by (simp add: rt_wqueue_wakeup_def rt_wqueue_remove_def)
  then show ?thesis using k' wq by (intro exI [of _ ?s]) simp
qed

lemma wqueue_wakeup_none:
  "wakeup_loop call (wq_nodes s) key (waiting_list s queue) x = (None, x')
   \<Longrightarrow> rt_wqueue_wakeup call queue key x s = Some (x', s\<lparr>wq_flag := (wq_flag s)(queue := RT_WQ_FLAG_WAKEUP)\<rparr>)"
  by (simp add: rt_wqueue_wakeup_def)

text \<open>A wait with the default wake function accepts any wake-up: the first in the queue gets it.\<close>

lemma wakeup_loop_default:
  "wakeup (nodes n) = Wqueue_default_wake \<Longrightarrow> wakeup_loop call nodes key (n # q) x = (Some n, x)"
  by (simp add: wake_entry_def wqueue_default_wake_def)

text \<open>With wake functions that only decide, it is the first node of the queue that accepts.\<close>

lemma wakeup_loop_find:
  assumes "\<And>a n x. call a n key x = (if acc n then 0 else - 1, x)"
    and "\<And>n. n \<in> set q \<Longrightarrow> wakeup (nodes n) = Wqueue_default_wake \<Longrightarrow> acc n"
  shows "wakeup_loop call nodes key q x = (find acc q, x)"
  using assms(2)
  by (induction q) (auto simp: wake_entry_def wqueue_default_wake_def assms(1) split: rt_wqueue_func.splits)

lemma fam_remove_insert:
  "seq_detached n f \<Longrightarrow> fam_remove n (seq_insert_before q n f) = f"
  by (rule ext) (auto simp: fam_remove_def seq_insert_before_def seq_detached_def in_fam_nodes)

lemma wq_insert:
  assumes "seq_detached n f" "list_family f"
  shows "list_family (seq_insert_before q n f)" "fam_nodes (seq_insert_before q n f) = insert n (fam_nodes f)"
  using assms by (auto simp: seq_insert_before_def seq_detached_def list_family_insert in_fam_nodes fam_nodes_def split: if_splits)

lemma wqueue_wait_blocks:
  assumes inv: "kinv b (wk s)" and ok: "wq_ok s"
    and c: "c = rt_current_thread (wk s)" "tstat (wk s) c = RT_THREAD_RUNNING" "interrupt_nest (wk s) = 0"
    and n: "seq_detached n (waiting_list s)" and fl: "wq_flag s queue \<noteq> RT_WQ_FLAG_WAKEUP"
    and ms: "sint ms < 0 \<or> wait_time_ok ms"
  shows "\<exists>s'. rt_wqueue_wait queue n False ms s = Some (Blocked, s') \<and> kinv b (wk s') \<and> kframe (wk s) (wk s') \<and> wq_ok s'
     \<and> wq_flag s' = wq_flag s \<and> waiting_list s' = seq_insert_before queue n (waiting_list s)
     \<and> wq_nodes s' = (wq_nodes s)(n := \<lparr>polling_thread = c, wakeup = Wqueue_default_wake, wq_key = 0\<rparr>)
     \<and> tstat (wk s') c = RT_THREAD_SUSPEND \<and> (\<forall>u. u \<noteq> c \<longrightarrow> stat_moved (wk s) (wk s') u)
     \<and> rt_current_thread (wk s') \<noteq> RT_NULL
     \<and> (0 \<le> sint ms \<longrightarrow> thread_timer (threads (wk s) c) \<in> set (timer_list (wk s'))
          \<and> timeout_tick (timers (wk s') (thread_timer (threads (wk s) c))) = rt_tick (wk s) + ms)"
proof -
  define tick where "tick = rt_tick_from_millisecond ms"
  have tick: "tick \<noteq> 0" "tick = RT_WAITING_FOREVER \<or> tick < 0x7fffffff" "0 \<le> sint ms \<Longrightarrow> tick = ms \<and> tick \<noteq> RT_WAITING_FOREVER"
  proof -
    have e: "sint ms < 0 \<Longrightarrow> tick = 0xffffffff" "0 \<le> sint ms \<Longrightarrow> tick = ms"
      using tick_of_ms [of ms] by (simp_all add: tick_def rt_tick_from_millisecond_def)
    have p: "0 < sint ms" "ms < 0x7fffffff" "ms \<noteq> 0" if "0 \<le> sint ms"
    proof -
      have w: "wait_time_ok ms" using ms that by auto
      then have z: "sint ms \<noteq> 0" by (auto simp: wait_time_ok_def signed_eq_0_iff)
      with that show "0 < sint ms" by simp
      then show "ms < 0x7fffffff" by (rule wait_time_tick [OF w])
      show "ms \<noteq> 0" using w by (simp add: wait_time_ok_def)
    qed
    show "tick \<noteq> 0" using e p by (cases "sint ms < 0") auto
    show "tick = RT_WAITING_FOREVER \<or> tick < 0x7fffffff" using e p by (cases "sint ms < 0") auto
    show "0 \<le> sint ms \<Longrightarrow> tick = ms \<and> tick \<noteq> RT_WAITING_FOREVER" using e(2) p(2) by auto
  qed
  obtain k0 k1 k' where k': "rt_thread_suspend c (wk s) = Some (RT_EOK, k0)"
     "(if tick \<noteq> RT_WAITING_FOREVER then arm_timer c tick k0 else Some k0) = Some k1"
     "rt_schedule k1 = Some k'" "kinv b k'" "kframe (wk s) k'" "tstat k' c = RT_THREAD_SUSPEND"
     "\<forall>u. u \<noteq> c \<longrightarrow> stat_moved (wk s) k' u" "rt_current_thread k' \<noteq> RT_NULL"
     "tick \<noteq> RT_WAITING_FOREVER \<longrightarrow> thread_timer (threads (wk s) c) \<in> set (timer_list k')
          \<and> timeout_tick (timers k' (thread_timer (threads (wk s) c))) = rt_tick (wk s) + tick"
    using suspend_switch_ok [OF inv c(1,2) tick(2)] by blast
  let ?n = "\<lparr>polling_thread = c, wakeup = Wqueue_default_wake, wq_key = 0\<rparr>"
  let ?s = "s\<lparr>wq_nodes := (wq_nodes s)(n := ?n), waiting_list := seq_insert_before queue n (waiting_list s), wk := k'\<rparr>"
  have cs: "c = rt_thread_self (wk s)" using c(1) by (simp add: rt_thread_self_def)
  have "rt_wqueue_wait queue n False ms s = Some (Blocked, ?s)"
    using n fl c(3) tick(1) k'(1-3) unfolding rt_wqueue_wait_def tick_def [symmetric] cs [symmetric]
    by (simp add: RT_DEBUG_NOT_IN_INTERRUPT_def rt_wqueue_add_def)
  moreover have "live k' u" if "live (wk s) u" for u
    using that moved_live [of "wk s" k' u] k'(6,7) by (cases "u = c") (auto simp: live_def)
  then have "wq_ok ?s"
    using ok n k'(6) by (auto simp: wq_ok_def wq_insert live_def)
  ultimately show ?thesis using k' tick(3) by (intro exI [of _ ?s]) auto
qed

lemma wqueue_wait_flagged:
  assumes "interrupt_nest (wk s) = 0" "seq_detached n (waiting_list s)" "wq_flag s queue = RT_WQ_FLAG_WAKEUP"
    "rt_tick_from_millisecond ms \<noteq> 0"
  shows "\<exists>s'. rt_wqueue_wait queue n False ms s = Some (Done 0, s') \<and> wk s' = wk s
     \<and> wq_flag s' = (wq_flag s)(queue := 0) \<and> waiting_list s' = waiting_list s \<and> (wq_ok s \<longrightarrow> wq_ok s')"
  using assms fam_remove_detached [OF assms(2)]
  by (auto simp: rt_wqueue_wait_def RT_DEBUG_NOT_IN_INTERRUPT_def rt_wqueue_wait_resume_def rt_wqueue_remove_def wq_ok_def seq_detached_def)

lemma fam_remove_in:
  assumes "list_family f" "n \<in> set (f q)"
  shows "fam_remove n f = f(q := remove1 n (f q))"
proof
  fix p
  have "n \<notin> set (f p)" if "p \<noteq> q" using list_family_unique [OF assms(1), of n p q] assms(2) that by blast
  then show "fam_remove n f p = (f(q := remove1 n (f q))) p"
    using distinct_remove1_removeAll [OF list_family_distinct [OF assms(1), of q], of n] by (simp add: fam_remove_def)
qed

lemma wait_tick_nonzero: "sint ms < 0 \<or> wait_time_ok ms \<Longrightarrow> rt_tick_from_millisecond ms \<noteq> 0"
  using tick_of_ms [of ms] by (cases "sint ms < 0") (auto simp: rt_tick_from_millisecond_def wait_time_ok_def)

text \<open>The wake function at an address only decides, by \<open>acc\<close>; the default one accepts every wake-up.\<close>

definition decides :: "'x wake_call \<Rightarrow> ptr \<Rightarrow> (ptr \<Rightarrow> bool) \<Rightarrow> ptr list \<Rightarrow> wq_state \<Rightarrow> bool" where
  "decides call key acc q s \<longleftrightarrow> (\<forall>a n x. call a n key x = (if acc n then 0 else - 1, x))
     \<and> (\<forall>n \<in> set q. wakeup (wq_nodes s n) = Wqueue_default_wake \<longrightarrow> acc n)"

lemma wqueue_wakeup_spec:
  assumes inv: "kinv b (wk s)" "wq_ok s" "rt_current_thread (wk s) \<noteq> RT_NULL" and dec: "decides call key acc (waiting_list s queue) s"
  shows "\<exists>s'. rt_wqueue_wakeup call queue key x s = Some (x, s') \<and> kinv b (wk s') \<and> wq_ok s'
     \<and> wq_flag s' = (wq_flag s)(queue := RT_WQ_FLAG_WAKEUP)
     \<and> (case find acc (waiting_list s queue) of
          None \<Rightarrow> wk s' = wk s \<and> waiting_list s' = waiting_list s
        | Some m \<Rightarrow> waiting_list s' = (waiting_list s)(queue := remove1 m (waiting_list s queue))
            \<and> tstat (wk s') (polling_thread (wq_nodes s m)) \<in> {RT_THREAD_READY, RT_THREAD_RUNNING}
            \<and> thread_timer (threads (wk s) (polling_thread (wq_nodes s m))) \<notin> set (timer_list (wk s'))
            \<and> (\<forall>u. u \<noteq> polling_thread (wq_nodes s m) \<longrightarrow> stat_moved (wk s) (wk s') u))"
proof -
  have f: "wakeup_loop call (wq_nodes s) key (waiting_list s queue) x = (find acc (waiting_list s queue), x)"
    by (rule wakeup_loop_find) (use dec in \<open>simp_all add: decides_def\<close>)
  show ?thesis
  proof (cases "find acc (waiting_list s queue)")
    case None
    then show ?thesis using wqueue_wakeup_none [of call s key queue x x] f inv(1,2) by simp
  next
    case (Some m)
    have "m \<in> set (waiting_list s queue)" using Some by (auto simp: find_Some_iff)
    then have "fam_remove m (waiting_list s) = (waiting_list s)(queue := remove1 m (waiting_list s queue))"
      using inv(2) by (intro fam_remove_in) (simp_all add: wq_ok_def)
    then show ?thesis using wqueue_wakeup_found [OF inv, of call key queue x m x, OF _ refl] f Some by auto
  qed
qed

text \<open>C37: What the operations of a wait queue do, with any number of waiters. A wait whose condition holds already
  returns 0 and changes nothing. Otherwise, if the queue is flagged, it returns 0 at once, clears the
  flag and leaves the kernel and the queue as they are; if not, the calling thread is suspended with its node
  at the end of the queue and, with a time limit, its timer armed. A wake-up always flags the queue. It takes
  off the first node whose wake function accepts it, and makes that node's thread ready with
  its timer stopped; the nodes before and behind it stay queued, and no other thread becomes suspended or
  ready by it. If no node accepts, only the flag changes. A waiting thread that runs again, woken or
  timed out, returns 0, clears the flag and takes its node off if it is still queued. So until a woken
  thread has run, the flag also lets other waits pass.\<close>

theorem wqueue_spec:
  assumes "kinv b (wk s)" "wq_ok s" "c = rt_current_thread (wk s)" "tstat (wk s) c = RT_THREAD_RUNNING" "interrupt_nest (wk s) = 0"
    "seq_detached n (waiting_list s)" "sint ms < 0 \<or> wait_time_ok ms" "decides call key acc (waiting_list s queue) s"
  shows "rt_wqueue_wait queue n True ms s = Some (Done 0, s)
     \<and> (\<exists>out s'. rt_wqueue_wait queue n False ms s = Some (out, s') \<and> kinv b (wk s') \<and> wq_ok s'
          \<and> (if wq_flag s queue = RT_WQ_FLAG_WAKEUP
             then out = Done 0 \<and> wq_flag s' = (wq_flag s)(queue := RT_WQ_FLAG_CLEAN) \<and> waiting_list s' = waiting_list s \<and> wk s' = wk s
             else out = Blocked \<and> wq_flag s' = wq_flag s \<and> waiting_list s' = (waiting_list s)(queue := waiting_list s queue @ [n])
               \<and> polling_thread (wq_nodes s' n) = c \<and> tstat (wk s') c = RT_THREAD_SUSPEND
               \<and> (\<forall>u. u \<noteq> c \<longrightarrow> stat_moved (wk s) (wk s') u)
               \<and> (0 \<le> sint ms \<longrightarrow> thread_timer (threads (wk s) c) \<in> set (timer_list (wk s'))
                    \<and> timeout_tick (timers (wk s') (thread_timer (threads (wk s) c))) = rt_tick (wk s) + ms)))
     \<and> (\<exists>s'. rt_wqueue_wakeup call queue key x s = Some (x, s') \<and> kinv b (wk s') \<and> wq_ok s'
          \<and> wq_flag s' = (wq_flag s)(queue := RT_WQ_FLAG_WAKEUP)
          \<and> (case find acc (waiting_list s queue) of
               None \<Rightarrow> wk s' = wk s \<and> waiting_list s' = waiting_list s
             | Some m \<Rightarrow> waiting_list s' = (waiting_list s)(queue := remove1 m (waiting_list s queue))
                 \<and> tstat (wk s') (polling_thread (wq_nodes s m)) \<in> {RT_THREAD_READY, RT_THREAD_RUNNING}
                 \<and> thread_timer (threads (wk s) (polling_thread (wq_nodes s m))) \<notin> set (timer_list (wk s'))
                 \<and> (\<forall>u. u \<noteq> polling_thread (wq_nodes s m) \<longrightarrow> stat_moved (wk s) (wk s') u)))
     \<and> (\<exists>s'. rt_wqueue_wait_resume queue m s = (0, s') \<and> wk s' = wk s \<and> wq_flag s' = (wq_flag s)(queue := RT_WQ_FLAG_CLEAN)
          \<and> waiting_list s' = (\<lambda>q. removeAll m (waiting_list s q)))"
proof (intro conjI)
  show "rt_wqueue_wait queue n True ms s = Some (Done 0, s)"
    using assms(5) by (simp add: rt_wqueue_wait_def RT_DEBUG_NOT_IN_INTERRUPT_def)
  show "\<exists>out s'. rt_wqueue_wait queue n False ms s = Some (out, s') \<and> kinv b (wk s') \<and> wq_ok s'
          \<and> (if wq_flag s queue = RT_WQ_FLAG_WAKEUP
             then out = Done 0 \<and> wq_flag s' = (wq_flag s)(queue := RT_WQ_FLAG_CLEAN) \<and> waiting_list s' = waiting_list s \<and> wk s' = wk s
             else out = Blocked \<and> wq_flag s' = wq_flag s \<and> waiting_list s' = (waiting_list s)(queue := waiting_list s queue @ [n])
               \<and> polling_thread (wq_nodes s' n) = c \<and> tstat (wk s') c = RT_THREAD_SUSPEND
               \<and> (\<forall>u. u \<noteq> c \<longrightarrow> stat_moved (wk s) (wk s') u)
               \<and> (0 \<le> sint ms \<longrightarrow> thread_timer (threads (wk s) c) \<in> set (timer_list (wk s'))
                    \<and> timeout_tick (timers (wk s') (thread_timer (threads (wk s) c))) = rt_tick (wk s) + ms))"
  proof (cases "wq_flag s queue = RT_WQ_FLAG_WAKEUP")
    case True
    then show ?thesis using wqueue_wait_flagged [OF assms(5,6) True wait_tick_nonzero [OF assms(7)]] assms(1,2) by auto
  next
    case False
    from wqueue_wait_blocks [OF assms(1-6) this assms(7)] False show ?thesis by (auto simp: seq_insert_before_def)
  qed
  show "\<exists>s'. rt_wqueue_wakeup call queue key x s = Some (x, s') \<and> kinv b (wk s') \<and> wq_ok s'
          \<and> wq_flag s' = (wq_flag s)(queue := RT_WQ_FLAG_WAKEUP)
          \<and> (case find acc (waiting_list s queue) of
               None \<Rightarrow> wk s' = wk s \<and> waiting_list s' = waiting_list s
             | Some m \<Rightarrow> waiting_list s' = (waiting_list s)(queue := remove1 m (waiting_list s queue))
                 \<and> tstat (wk s') (polling_thread (wq_nodes s m)) \<in> {RT_THREAD_READY, RT_THREAD_RUNNING}
                 \<and> thread_timer (threads (wk s) (polling_thread (wq_nodes s m))) \<notin> set (timer_list (wk s'))
                 \<and> (\<forall>u. u \<noteq> polling_thread (wq_nodes s m) \<longrightarrow> stat_moved (wk s) (wk s') u))"
    using running_not_null [OF assms(1), of c] assms(3,4) by (intro wqueue_wakeup_spec [OF assms(1,2) _ assms(8)]) simp
  show "\<exists>s'. rt_wqueue_wait_resume queue m s = (0, s') \<and> wk s' = wk s \<and> wq_flag s' = (wq_flag s)(queue := RT_WQ_FLAG_CLEAN)
          \<and> waiting_list s' = (\<lambda>q. removeAll m (waiting_list s q))"
    by (simp add: rt_wqueue_wait_resume_def rt_wqueue_remove_def fam_remove_def)
qed

definition demo_wq :: wq_state where
  "demo_wq = \<lparr>wq_flag = (\<lambda>_. 0), waiting_list = (\<lambda>_. []),
     wq_nodes = (\<lambda>_. \<lparr>polling_thread = 0, wakeup = Wqueue_default_wake, wq_key = 0\<rparr>), wk = demo\<rparr>"

lemma demo_wq_ok: "wq_ok demo_wq" "seq_detached n (waiting_list demo_wq)"
  by (auto simp: wq_ok_def demo_wq_def list_family_def fam_nodes_def seq_detached_def)

text \<open>Two threads, 3 and 4, wait with the nodes 92 and 93; the wake function of the first refuses.\<close>

definition demo_queue :: wq_state where
  "demo_queue = demo_wq\<lparr>waiting_list := (\<lambda>_. [])(90 := [92, 93]),
     wq_nodes := (\<lambda>_. \<lparr>polling_thread = 4, wakeup = Wqueue_default_wake, wq_key = 0\<rparr>)
       (92 := \<lparr>polling_thread = 3, wakeup = Wake_func 800, wq_key = 0\<rparr>)\<rparr>"

lemma demo_queue_ok: "wq_ok demo_queue" "seq_detached 91 (waiting_list demo_queue)"
  by (auto simp: wq_ok_def demo_queue_def demo_wq_def list_family_def in_fam_nodes seq_detached_def live_def demo_stat split: if_splits)

theorem wqueue_spec_witness:
  "(\<exists>s1. rt_wqueue_wait 90 91 False 7 demo_queue = Some (Blocked, s1) \<and> waiting_list s1 90 = [92, 93, 91]
       \<and> tstat (wk s1) 1 = RT_THREAD_SUSPEND)
   \<and> (\<exists>s1. rt_wqueue_wakeup (\<lambda>_ n _ x. (if n \<noteq> 92 then 0 else - 1, x)) 90 0 () demo_queue = Some ((), s1)
       \<and> waiting_list s1 90 = [92] \<and> tstat (wk s1) 4 \<in> {RT_THREAD_READY, RT_THREAD_RUNNING})"
proof -
  have k: "kinv 100 (wk demo_queue)" using demo_kinv by (simp add: demo_queue_def demo_wq_def)
  have c: "1 = rt_current_thread (wk demo_queue)" "tstat (wk demo_queue) 1 = RT_THREAD_RUNNING" "interrupt_nest (wk demo_queue) = 0"
    by (simp_all add: demo_queue_def demo_wq_def demo_stat)
  have t: "sint (7 :: 32 word) < 0 \<or> wait_time_ok 7" by (simp add: wait_time_ok_def)
  have d: "decides (\<lambda>_ n _ x. (if n \<noteq> 92 then 0 else - 1, x)) 0 (\<lambda>n. n \<noteq> 92) (waiting_list demo_queue 90) demo_queue"
    by (simp add: decides_def demo_queue_def)
  have f: "wq_flag demo_queue 90 = 0" "find (\<lambda>n. n \<noteq> 92) (waiting_list demo_queue 90) = Some 93"
    "waiting_list demo_queue 90 = [92, 93]" "polling_thread (wq_nodes demo_queue 93) = 4"
    by (simp_all add: demo_queue_def demo_wq_def)
  note spec = wqueue_spec [OF k demo_queue_ok(1) c demo_queue_ok(2) t d, of "()" 92]
  obtain out s1 where "rt_wqueue_wait 90 91 False 7 demo_queue = Some (out, s1)" "out = Blocked"
    "waiting_list s1 = (waiting_list demo_queue)(90 := waiting_list demo_queue 90 @ [91])" "tstat (wk s1) 1 = RT_THREAD_SUSPEND"
    using spec unfolding f(1) by auto
  moreover obtain s2 where "rt_wqueue_wakeup (\<lambda>_ n _ x. (if n \<noteq> 92 then 0 else - 1, x)) 90 0 () demo_queue = Some ((), s2)"
    "waiting_list s2 = (waiting_list demo_queue)(90 := remove1 93 (waiting_list demo_queue 90))" "tstat (wk s2) 4 \<in> {RT_THREAD_READY, RT_THREAD_RUNNING}"
    using spec unfolding f(2) option.case f(4) by blast
  ultimately show ?thesis using f(3) by auto
qed

text \<open>
  A waiter whose time is up stays in the queue until it runs. A wake-up that comes before is spent
  on it: it is taken off the queue, the kernel is only rescheduled, and the waiters behind it stay
  suspended and queued. As the wait returns 0 in any case, the caller cannot tell.
\<close>

lemma wakeup_spent_on_timed_out:
  assumes "kinv b (wk s)" "wq_ok s" "rt_current_thread (wk s) \<noteq> RT_NULL"
    "waiting_list s queue = n # q" "wakeup (wq_nodes s n) = Wqueue_default_wake"
    "t = polling_thread (wq_nodes s n)" "tstat (wk s) t \<noteq> RT_THREAD_SUSPEND"
  shows "\<exists>s'. rt_wqueue_wakeup call queue key x s = Some (x, s') \<and> waiting_list s' queue = q
     \<and> (\<forall>u. tstat (wk s) u = RT_THREAD_SUSPEND \<longrightarrow> tstat (wk s') u = RT_THREAD_SUSPEND)"
proof -
  have "wakeup_loop call (wq_nodes s) key (waiting_list s queue) x = (Some n, x)"
    unfolding assms(4) by (rule wakeup_loop_default) (rule assms(5))
  from wqueue_wakeup_found [OF assms(1-3) this assms(6)] obtain s' where
    s': "rt_wqueue_wakeup call queue key x s = Some (x, s')" "waiting_list s' = fam_remove n (waiting_list s)"
      "\<forall>u. u \<noteq> t \<longrightarrow> stat_moved (wk s) (wk s') u" by blast
  have "n \<notin> set q" using list_family_distinct [of "waiting_list s" queue] assms(2,4) by (simp add: wq_ok_def)
  then have "waiting_list s' queue = q" by (simp add: s'(2) fam_remove_def assms(4))
  moreover have "tstat (wk s') u = RT_THREAD_SUSPEND" if "tstat (wk s) u = RT_THREAD_SUSPEND" for u
    using that s'(3) assms(7) by (auto simp: stat_moved_def dest: spec [of _ u])
  ultimately show ?thesis using s'(1) by blast
qed

end
