(* ===== verification/RT_Pipe.thy ===== *)
theory RT_Pipe
  imports RT_Device RT_Mutex RT_Ringbuffer RT_WaitQueue
begin

text \<open>
  Pipes (\<^verbatim>\<open>components/drivers/src/pipe.c\<close> and \<^verbatim>\<open>components/drivers/include/ipc/pipe.h\<close>): a ring buffer behind the device interface, guarded by
  a mutex. Modelled is the device; the file operations \<^verbatim>\<open>pipe_fops_*\<close> belong to the POSIX layer, which
  the reference configuration leaves out. Each operation takes the mutex with \<^verbatim>\<open>RT_WAITING_FOREVER\<close>: if
  another thread has it, the call waits (\<open>Waits\<close>) and goes on in \<open>pipe_resume\<close> when the thread
  runs again.
\<close>

subsection \<open>State\<close>

text \<open>The last three are the addresses of parts of the structure, not fields in memory.\<close>

record rt_pipe =
  is_named :: bool
  fifo :: ptr
  bufsz :: u16
  readers :: u8
  writers :: u8
  reader_queue :: ptr
  writer_queue :: ptr
  pipe_lock :: ptr

text \<open>
  The state of the device layer, extended by the pipes, the ring buffers and the wait queues. The
  address of a pipe is that of its device. The kernel is \<open>dk\<close>, also for the wait queues.
\<close>

record pipe_state = dev_state +
  pipes :: "ptr \<Rightarrow> rt_pipe"
  rings :: "ptr \<Rightarrow> rt_ringbuffer"
  queues :: wq_state

definition upd_pipe :: "ptr \<Rightarrow> (rt_pipe \<Rightarrow> rt_pipe) \<Rightarrow> pipe_state \<Rightarrow> pipe_state" where
  "upd_pipe d f s = s\<lparr>pipes := (pipes s)(d := f (pipes s d))\<rparr>"

definition pipe_wq_init :: "ptr \<Rightarrow> pipe_state \<Rightarrow> pipe_state option" where
  "pipe_wq_init queue s = do {
     w \<leftarrow> rt_wqueue_init queue ((queues s)\<lparr>wk := dk s\<rparr>);
     Some (s\<lparr>queues := w, dk := wk w\<rparr>)
   }"

datatype 'r pipe_call = Ret 'r | Waits

abbreviation (input) EINVAL :: err where "EINVAL \<equiv> 22"
abbreviation (input) ENODEV :: err where "ENODEV \<equiv> 19"
abbreviation (input) RT_Device_Class_Pipe :: nat where "RT_Device_Class_Pipe \<equiv> 15"
abbreviation (input) RT_DEVICE_FLAG_RDWR :: u16 where "RT_DEVICE_FLAG_RDWR \<equiv> 0x003"
abbreviation (input) RT_DEVICE_FLAG_REMOVABLE :: u16 where "RT_DEVICE_FLAG_REMOVABLE \<equiv> 0x004"

subsection \<open>The critical sections\<close>

definition pipe_open_body :: "(u32 \<Rightarrow> kernel \<Rightarrow> ptr \<times> kernel) \<Rightarrow> (ptr \<Rightarrow> kernel \<Rightarrow> kernel) \<Rightarrow> ptr \<Rightarrow> pipe_state \<Rightarrow>
     (err \<times> pipe_state) option" where
  "pipe_open_body malloc free device s =
     (if fifo (pipes s device) = RT_NULL then do {
        (rb, r, k) \<leftarrow> rt_ringbuffer_create malloc free (bufsz (pipes s device)) (rings s RT_NULL) (dk s);
        let s = s\<lparr>dk := k\<rparr>;
        let s = (if rb = RT_NULL then s else s\<lparr>rings := (rings s)(rb := r)\<rparr>);
        Some (RT_EOK, upd_pipe device (\<lambda>p. p\<lparr>fifo := rb\<rparr>) s)
      }
      else Some (RT_EOK, s))"

definition pipe_close_body :: "(ptr \<Rightarrow> kernel \<Rightarrow> kernel) \<Rightarrow> ptr \<Rightarrow> pipe_state \<Rightarrow> (err \<times> pipe_state) option" where
  "pipe_close_body free device s =
     (if ref_count (devices s device) = 1 then do {
        k \<leftarrow> rt_ringbuffer_destroy free (fifo (pipes s device)) (rings s (fifo (pipes s device))) (dk s);
        Some (RT_EOK, upd_pipe device (\<lambda>p. p\<lparr>fifo := RT_NULL\<rparr>) (s\<lparr>dk := k\<rparr>))
      }
      else Some (RT_EOK, s))"

text \<open>
  The loops of read and write differ in the call that moves the bytes (\<open>xfer\<close>): its length has 16 bits.
  The number of bytes moved is at most \<open>count\<close>.
\<close>

function transfer_loop :: "(rt_ringbuffer \<Rightarrow> ptr \<Rightarrow> u16 \<Rightarrow> mem \<Rightarrow> (nat \<times> rt_ringbuffer \<times> mem) option) \<Rightarrow> ptr \<Rightarrow> nat \<Rightarrow> nat \<Rightarrow>
     rt_ringbuffer \<Rightarrow> mem \<Rightarrow> (nat \<times> rt_ringbuffer \<times> mem) option" where
  "transfer_loop xfer pbuf count n rb m =
     (if n < count then do {
        (len, rb, m) \<leftarrow> xfer rb (pbuf + n) (of_nat (count - n)) m;
        if len = 0 then Some (n, rb, m) else transfer_loop xfer pbuf count (n + len) rb m
      }
      else Some (n, rb, m))"
  by auto

termination transfer_loop
  by (relation "measure (\<lambda>(xfer, pbuf, count, n, rb, m). count - n)") auto

declare transfer_loop.simps [simp del]

definition pipe_transfer :: "(rt_ringbuffer \<Rightarrow> ptr \<Rightarrow> u16 \<Rightarrow> mem \<Rightarrow> (nat \<times> rt_ringbuffer \<times> mem) option) \<Rightarrow> ptr \<Rightarrow> ptr \<Rightarrow> u32 \<Rightarrow>
     pipe_state \<Rightarrow> (u32 \<times> pipe_state) option" where
  "pipe_transfer xfer device buffer count s = do {
     let rb = fifo (pipes s device);
     RT_ASSERT (rb \<noteq> RT_NULL);
     (n, r, m) \<leftarrow> transfer_loop xfer buffer (unat count) 0 (rings s rb) (bmem (dk s));
     Some (of_nat n, s\<lparr>rings := (rings s)(rb := r), dk := (dk s)\<lparr>bmem := m\<rparr>\<rparr>)
   }"

subsection \<open>The operations of the device\<close>

text \<open>What follows the call of \<^verbatim>\<open>rt_mutex_take\<close>, whose result is ignored.\<close>

definition pipe_locked :: "ptr \<Rightarrow> (pipe_state \<Rightarrow> ('r \<times> pipe_state) option) \<Rightarrow> outcome \<Rightarrow> pipe_state \<Rightarrow>
     ('r pipe_call \<times> pipe_state) option" where
  "pipe_locked device body out s = (case out of
       Blocked \<Rightarrow> Some (Waits, s)
     | Done _ \<Rightarrow> do {
         (r, s) \<leftarrow> body s;
         (_, k) \<leftarrow> rt_mutex_release (pipe_lock (pipes s device)) (dk s);
         Some (Ret r, s\<lparr>dk := k\<rparr>)
       })"

definition pipe_enter :: "ptr \<Rightarrow> (pipe_state \<Rightarrow> ('r \<times> pipe_state) option) \<Rightarrow> pipe_state \<Rightarrow> ('r pipe_call \<times> pipe_state) option" where
  "pipe_enter device body s = do {
     (out, k) \<leftarrow> rt_mutex_take (pipe_lock (pipes s device)) RT_WAITING_FOREVER (dk s);
     pipe_locked device body out (s\<lparr>dk := k\<rparr>)
   }"

definition pipe_resume :: "ptr \<Rightarrow> (pipe_state \<Rightarrow> ('r \<times> pipe_state) option) \<Rightarrow> pipe_state \<Rightarrow> ('r pipe_call \<times> pipe_state) option" where
  "pipe_resume device body s = do {
     (out, k) \<leftarrow> rt_mutex_take_resume (pipe_lock (pipes s device)) RT_WAITING_FOREVER (dk s);
     pipe_locked device body out (s\<lparr>dk := k\<rparr>)
   }"

definition rt_pipe_open :: "(u32 \<Rightarrow> kernel \<Rightarrow> ptr \<times> kernel) \<Rightarrow> (ptr \<Rightarrow> kernel \<Rightarrow> kernel) \<Rightarrow> ptr \<Rightarrow> u16 \<Rightarrow> pipe_state \<Rightarrow>
     (err pipe_call \<times> pipe_state) option" where
  "rt_pipe_open malloc free device oflag s =
     (if device = RT_NULL then Some (Ret (- RT_EINVAL), s)
      else pipe_enter device (pipe_open_body malloc free device) s)"

definition rt_pipe_close :: "(ptr \<Rightarrow> kernel \<Rightarrow> kernel) \<Rightarrow> ptr \<Rightarrow> pipe_state \<Rightarrow> (err pipe_call \<times> pipe_state) option" where
  "rt_pipe_close free device s =
     (if device = RT_NULL then Some (Ret (- RT_EINVAL), s)
      else pipe_enter device (pipe_close_body free device) s)"

definition rt_pipe_read :: "ptr \<Rightarrow> int \<Rightarrow> ptr \<Rightarrow> u32 \<Rightarrow> pipe_state \<Rightarrow> (u32 pipe_call \<times> pipe_state) option" where
  "rt_pipe_read device pos buffer count s =
     (if device = RT_NULL then Some (Ret 0, s\<lparr>dk := rt_set_errno (- EINVAL) (dk s)\<rparr>)
      else if count = 0 then Some (Ret 0, s)
      else pipe_enter device (pipe_transfer rt_ringbuffer_get device buffer count) s)"

definition rt_pipe_write :: "ptr \<Rightarrow> int \<Rightarrow> ptr \<Rightarrow> u32 \<Rightarrow> pipe_state \<Rightarrow> (u32 pipe_call \<times> pipe_state) option" where
  "rt_pipe_write device pos buffer count s =
     (if device = RT_NULL then Some (Ret 0, s\<lparr>dk := rt_set_errno (- EINVAL) (dk s)\<rparr>)
      else if count = 0 then Some (Ret 0, s)
      else pipe_enter device (pipe_transfer rt_ringbuffer_put device buffer count) s)"

definition rt_pipe_control :: "ptr \<Rightarrow> int \<Rightarrow> ptr \<Rightarrow> pipe_state \<Rightarrow> err \<times> pipe_state" where
  "rt_pipe_control dev cmd args s = (RT_EOK, s)"

subsection \<open>Creation and deletion\<close>

text \<open>
  The functions of the driver are known by their addresses \<open>fo\<close>, \<open>fr\<close>, \<open>fw\<close>, \<open>fc\<close>, \<open>fctl\<close>. The
  structure of \<open>pipe_bytes\<close> bytes is cleared, with the device and the mutex in it; \<open>bufsz\<close> is a signed
  number.
\<close>

definition zero_pipe :: "ptr \<Rightarrow> pipe_state \<Rightarrow> pipe_state" where
  "zero_pipe d s =
     (let s = upd_pipe d (\<lambda>p. p\<lparr>is_named := False, fifo := RT_NULL, bufsz := 0, readers := 0, writers := 0\<rparr>) s;
          s = upd_dev d (\<lambda>_. \<lparr>dev_type = 0, dev_flag = 0, open_flag = 0, ref_count = 0, device_id = 0,
            rx_indicate = RT_NULL, tx_complete = RT_NULL, device_init = RT_NULL, device_open = RT_NULL,
            device_close = RT_NULL, device_read = RT_NULL, device_write = RT_NULL, device_control = RT_NULL,
            dev_user_data = RT_NULL\<rparr>) s;
          z = (\<lambda>_. \<lparr>name = replicate RT_NAME_MAX NUL, otype = 0, flag = 0\<rparr>);
          l = pipe_lock (pipes s d)
      in s\<lparr>dk := upd_mutex l (\<lambda>_. \<lparr>mutex_value = 0, original_priority = 0, hold = 0, owner = RT_NULL\<rparr>)
           (upd_obj l z (upd_obj d z (dk s)))\<rparr>)"

definition rt_pipe_create :: "(u32 \<Rightarrow> kernel \<Rightarrow> ptr \<times> kernel) \<Rightarrow> (ptr \<Rightarrow> kernel \<Rightarrow> kernel) \<Rightarrow> u32 \<Rightarrow>
     ptr \<times> ptr \<times> ptr \<times> ptr \<times> ptr \<Rightarrow> string \<Rightarrow> 32 word \<Rightarrow> pipe_state \<Rightarrow> (ptr \<times> pipe_state) option" where
  "rt_pipe_create malloc free pipe_bytes fns nm sz s = do {
     let (pipe, k) = malloc pipe_bytes (dk s);
     let s = s\<lparr>dk := k\<rparr>;
     if pipe = RT_NULL then Some (RT_NULL, s)
     else do {
       let s = zero_pipe pipe s;
       let s = upd_pipe pipe (\<lambda>p. p\<lparr>is_named := True\<rparr>) s;
       (_, k) \<leftarrow> rt_mutex_init (pipe_lock (pipes s pipe)) nm RT_IPC_FLAG_FIFO (dk s);
       s \<leftarrow> pipe_wq_init (reader_queue (pipes s pipe)) (s\<lparr>dk := k\<rparr>);
       s \<leftarrow> pipe_wq_init (writer_queue (pipes s pipe)) s;
       RT_ASSERT (sint sz < 0xffff);
       let s = upd_pipe pipe (\<lambda>p. p\<lparr>bufsz := ucast sz\<rparr>) s;
       let (fo, fr, fw, fc, fctl) = fns;
       let s = upd_dev pipe (\<lambda>d. d\<lparr>dev_type := RT_Device_Class_Pipe, device_init := RT_NULL, device_open := fo,
         device_read := fr, device_write := fw, device_close := fc, device_control := fctl,
         rx_indicate := RT_NULL, tx_complete := RT_NULL\<rparr>) s;
       (e, s) \<leftarrow> rt_device_register pipe nm (RT_DEVICE_FLAG_RDWR OR RT_DEVICE_FLAG_REMOVABLE) s;
       if e \<noteq> 0 then Some (RT_NULL, s\<lparr>dk := free pipe (dk s)\<rparr>)
       else Some (pipe, s)
     }
   }"

definition rt_pipe_delete :: "(ptr \<Rightarrow> kernel \<Rightarrow> kernel) \<Rightarrow> string \<Rightarrow> pipe_state \<Rightarrow> (err \<times> pipe_state) option" where
  "rt_pipe_delete free nm s = do {
     (device, k) \<leftarrow> rt_device_find nm (dk s);
     let s = s\<lparr>dk := k\<rparr>;
     if device \<noteq> RT_NULL then
       if dev_type (devices s device) = RT_Device_Class_Pipe then
         if ref_count (devices s device) \<noteq> 0 then Some (- RT_EBUSY, s)
         else do {
           (_, k) \<leftarrow> rt_mutex_detach (pipe_lock (pipes s device)) (dk s);
           (_, s) \<leftarrow> rt_device_unregister device (s\<lparr>dk := k\<rparr>);
           s \<leftarrow> (if fifo (pipes s device) \<noteq> RT_NULL then do {
                  k \<leftarrow> rt_ringbuffer_destroy free (fifo (pipes s device)) (rings s (fifo (pipes s device))) (dk s);
                  Some (upd_pipe device (\<lambda>p. p\<lparr>fifo := RT_NULL\<rparr>) (s\<lparr>dk := k\<rparr>))
                }
                else Some s);
           Some (0, s\<lparr>dk := free device (dk s)\<rparr>)
         }
       else Some (- ENODEV, s)
     else Some (- ENODEV, s)
   }"

subsection \<open>The transfer loops\<close>

text \<open>Whatever \<open>count\<close> is, one call moves all that is moved: the next one moves nothing.\<close>

lemma transfer_once:
  assumes "0 < count" "xfer rb pbuf (of_nat count) m = Some (n, rb', m')" "n \<le> count" "Q rb' m'"
    and "n < count \<Longrightarrow> 0 < n \<Longrightarrow> \<exists>rb2 m2. xfer rb' (pbuf + n) (of_nat (count - n)) m' = Some (0, rb2, m2) \<and> Q rb2 m2"
  shows "\<exists>rb2 m2. transfer_loop xfer pbuf count 0 rb m = Some (n, rb2, m2) \<and> Q rb2 m2"
proof -
  have u: "transfer_loop xfer pbuf count 0 rb m = (if n = 0 then Some (0, rb', m') else transfer_loop xfer pbuf count n rb' m')"
    using assms(1,2) by (subst transfer_loop.simps) simp
  show ?thesis
  proof (cases "n = 0 \<or> n = count")
    case True
    then show ?thesis using u assms(4) by (auto simp: transfer_loop.simps [of xfer pbuf count count])
  next
    case False
    then obtain rb2 m2 where "xfer rb' (pbuf + n) (of_nat (count - n)) m' = Some (0, rb2, m2)" "Q rb2 m2"
      using assms(3,5) by auto
    moreover have "n < count" using False assms(3) by simp
    ultimately show ?thesis using u False by (simp add: transfer_loop.simps [of xfer pbuf count n])
  qed
qed

lemma word16_rest: "n = min (unat (of_nat count :: u16)) space \<Longrightarrow>
    n \<le> count \<and> min (unat (of_nat (count - n) :: u16)) (space - n) = 0"
proof -
  assume n: "n = min (unat (of_nat count :: u16)) space"
  have u: "unat (of_nat c :: u16) = c mod 65536" for c by (simp add: unat_of_nat)
  have le: "n \<le> count" using n u [of count] mod_less_eq_dividend [of count 65536] by simp
  show ?thesis
  proof (cases "n = count mod 65536")
    case True
    then have "(count - n) mod 65536 = 0" by (simp add: minus_mod_eq_div_mult)
    then show ?thesis using le u [of "count - n"] by simp
  next
    case False
    then have "n = space" using n u [of count] by (auto simp: min_def split: if_splits)
    then show ?thesis using le by simp
  qed
qed

lemma write_loop_ok:
  assumes ok: "rb_ok rb n" and c: "0 < count" and w: "w = min (count mod 2 ^ 16) (rb_cap rb - n)"
    and src: "ptr + count \<le> buffer_ptr rb \<or> buffer_ptr rb + rb_cap rb \<le> ptr"
  shows "\<exists>rb' m'. transfer_loop rt_ringbuffer_put ptr count 0 rb m = Some (w, rb', m') \<and> rb_ok rb' (n + w)
     \<and> rb_cap rb' = rb_cap rb \<and> buffer_ptr rb' = buffer_ptr rb
     \<and> rb_bytes rb' (n + w) m' = rb_bytes rb n m @ bytes_from m ptr w"
proof -
  have w': "w = min (unat (of_nat count :: u16)) (rb_cap rb - n)" using w by (simp add: unat_of_nat)
  note r = word16_rest [OF w']
  have s1: "ptr + w \<le> buffer_ptr rb \<or> buffer_ptr rb + rb_cap rb \<le> ptr" using src r by linarith
  obtain rb' m' where p: "rt_ringbuffer_put rb ptr (of_nat count) m = Some (w, rb', m')" "rb_ok rb' (n + w)" "rb_cap rb' = rb_cap rb"
     "buffer_ptr rb' = buffer_ptr rb" "rb_bytes rb' (n + w) m' = rb_bytes rb n m @ bytes_from m ptr w"
    using put_ok [OF ok w' s1, of m] by blast
  have z: "0 = min (unat (of_nat (count - w) :: u16)) (rb_cap rb' - (n + w))"
    using r unfolding p(3) by (metis diff_diff_left)
  have s2: "ptr + w + 0 \<le> buffer_ptr rb' \<or> buffer_ptr rb' + rb_cap rb' \<le> ptr + w" using s1 p(3,4) by auto
  show ?thesis
    by (rule transfer_once [where xfer = rt_ringbuffer_put and Q = "\<lambda>rb' m'. rb_ok rb' (n + w) \<and> rb_cap rb' = rb_cap rb
          \<and> buffer_ptr rb' = buffer_ptr rb \<and> rb_bytes rb' (n + w) m' = rb_bytes rb n m @ bytes_from m ptr w", OF c p(1)])
      (use r put_ok [OF p(2) z s2, of m'] p(2-5) in \<open>auto simp: bytes_from_def\<close>)
qed

lemma read_loop_ok:
  assumes ok: "rb_ok rb n" and c: "0 < count" and w: "w = min (count mod 2 ^ 16) n"
    and dst: "ptr + count \<le> buffer_ptr rb \<or> buffer_ptr rb + rb_cap rb \<le> ptr"
  shows "\<exists>rb' m'. transfer_loop rt_ringbuffer_get ptr count 0 rb m = Some (w, rb', m') \<and> rb' = rb_skip w rb
     \<and> bytes_from m' ptr w = take w (rb_bytes rb n m) \<and> (\<forall>x. x < ptr \<or> ptr + w \<le> x \<longrightarrow> m' x = m x)"
proof -
  have w': "w = min (unat (of_nat count :: u16)) n" using w by (simp add: unat_of_nat)
  note r = word16_rest [OF w']
  have s1: "ptr + w \<le> buffer_ptr rb \<or> buffer_ptr rb + rb_cap rb \<le> ptr" using dst r by linarith
  obtain m' where p: "rt_ringbuffer_get rb ptr (of_nat count) m = Some (w, rb_skip w rb, m')"
      "bytes_from m' ptr w = take w (rb_bytes rb n m)" "\<forall>x. x < ptr \<or> ptr + w \<le> x \<longrightarrow> m' x = m x"
    using get_ok [OF ok w' s1, of m] by blast
  have "w \<le> n" using w by simp
  note k = rb_skip_ok [OF ok this]
  have z: "0 = min (unat (of_nat (count - w) :: u16)) (n - w)" by (rule r [THEN conjunct2, symmetric])
  have s2: "ptr + w + 0 \<le> buffer_ptr (rb_skip w rb) \<or> buffer_ptr (rb_skip w rb) + rb_cap (rb_skip w rb) \<le> ptr + w"
    using s1 k(2,3) by auto
  have s0: "rb_skip 0 (rb_skip w rb) = rb_skip w rb" using rb_okD(1) [OF k(1)] by (simp add: rb_skip_def [of 0])
  obtain m2 where m2: "rt_ringbuffer_get (rb_skip w rb) (ptr + w) (of_nat (count - w)) m' = Some (0, rb_skip w rb, m2)"
      "m2 = m'"
  proof -
    obtain m2 where "rt_ringbuffer_get (rb_skip w rb) (ptr + w) (of_nat (count - w)) m' = Some (0, rb_skip w rb, m2)"
      "\<forall>x. x < ptr + w \<or> ptr + w + 0 \<le> x \<longrightarrow> m2 x = m' x"
      using get_ok [OF k(1) z s2, of m'] unfolding s0 by blast
    moreover from this(2) have "m2 = m'" by (intro ext) (metis add.right_neutral not_less)
    ultimately show ?thesis using that by blast
  qed
  show ?thesis
    by (rule transfer_once [where xfer = rt_ringbuffer_get and Q = "\<lambda>rb' m'. rb' = rb_skip w rb
          \<and> bytes_from m' ptr w = take w (rb_bytes rb n m) \<and> (\<forall>x. x < ptr \<or> ptr + w \<le> x \<longrightarrow> m' x = m x)", OF c p(1)])
      (use r m2 p(2,3) in \<open>auto simp: bytes_from_def\<close>)
qed

subsection \<open>With a free lock\<close>

lemma kinv_bmem [simp]: "kinv b (k\<lparr>bmem := m\<rparr>) = kinv b k"
  by (simp add: kinv_def timer_inv_def due_def live_def own_timer_def timers_wait_def tstat_def is_class_def)

text \<open>The running thread of a sound kernel finds the lock of the pipe free.\<close>

definition pipe_free :: "u32 \<Rightarrow> ptr \<Rightarrow> pipe_state \<Rightarrow> bool" where
  "pipe_free b d s \<longleftrightarrow> d \<noteq> RT_NULL \<and> kinv b (dk s) \<and> tstat (dk s) (rt_current_thread (dk s)) = RT_THREAD_RUNNING
     \<and> interrupt_nest (dk s) = 0 \<and> mutex_ok (dk s) (pipe_lock (pipes s d))
     \<and> owner (mutexes (dk s) (pipe_lock (pipes s d))) = RT_NULL"

definition lock_taken :: "ptr \<Rightarrow> pipe_state \<Rightarrow> kernel" where
  "lock_taken d s = upd_mutex (pipe_lock (pipes s d)) (\<lambda>_. \<lparr>mutex_value = 0,
     original_priority = current_priority (threads (dk s) (rt_current_thread (dk s))), hold = 1,
     owner = rt_current_thread (dk s)\<rparr>) (reset_error (rt_current_thread (dk s)) (dk s))"

lemma pipe_enter_free:
  assumes fr: "pipe_free b d s" and body: "body (s\<lparr>dk := lock_taken d s\<rparr>) = Some (r, s1)"
    and s1: "dk s1 = (lock_taken d s)\<lparr>bmem := m\<rparr>" "pipe_lock (pipes s1 d) = pipe_lock (pipes s d)"
  shows "\<exists>k. pipe_enter d body s = Some (Ret r, s1\<lparr>dk := k\<rparr>) \<and> pipe_free b d (s1\<lparr>dk := k\<rparr>) \<and> bmem k = m
     \<and> objs k = objs (dk s)"
proof -
  let ?k = "dk s" and ?c = "rt_current_thread (dk s)" and ?l = "pipe_lock (pipes s d)"
  have i: "d \<noteq> RT_NULL" "kinv b ?k" "tstat ?k ?c = RT_THREAD_RUNNING" "interrupt_nest ?k = 0" "mutex_ok ?k ?l" "owner (mutexes ?k ?l) = RT_NULL"
    using fr by (auto simp: pipe_free_def)
  have c0: "?c \<noteq> RT_NULL" by (rule running_not_null [OF i(2,3)])
  have t: "rt_mutex_take ?l RT_WAITING_FOREVER ?k = Some (Done RT_EOK, lock_taken d s)"
    unfolding lock_taken_def by (rule mutex_take_free_eq [OF i(2,5,6) refl i(3,4)])
  let ?m = "\<lparr>mutex_value = 1, original_priority = 0xff, hold = 0, owner = RT_NULL\<rparr>"
  let ?k1 = "(lock_taken d s)\<lparr>bmem := m\<rparr>" and ?k' = "upd_mutex ?l (\<lambda>_. ?m) ((lock_taken d s)\<lparr>bmem := m\<rparr>)"
  have w: "tlists ?k (Waiters ?l) = []" "is_class ?k ?l RT_Object_Class_Mutex" using i(5,6) by (simp_all add: mutex_ok_def)
  have f: "objs ?k1 = objs ?k" "tlists ?k1 = tlists ?k" "rt_current_thread ?k1 = ?c" "interrupt_nest ?k1 = 0"
    "current_priority (threads ?k1 ?c) = current_priority (threads ?k ?c)" "bmem ?k1 = m"
    "tstat ?k1 u = tstat ?k u" for u
    using i(4) by (simp_all add: lock_taken_def upd_mutex_def tstat_def) (simp_all add: upd_thread_def)
  have mx: "mutexes ?k1 ?l = \<lparr>mutex_value = 0, original_priority = current_priority (threads ?k ?c), hold = 1, owner = ?c\<rparr>"
    by (simp add: lock_taken_def upd_mutex_def)
  have rel: "rt_mutex_release ?l ?k1 = Some (RT_EOK, ?k')"
    by (rule mutex_release_eq) (use w c0 f mx in \<open>simp_all add: is_class_def\<close>)
  have "pipe_enter d body s = Some (Ret r, s1\<lparr>dk := ?k'\<rparr>)"
    using body s1 rel t by (simp add: pipe_enter_def pipe_locked_def)
  moreover have "pipe_free b d (s1\<lparr>dk := ?k'\<rparr>)"
  proof -
    have "kinv b ?k1" using kinv_error(1) [OF i(2)] by (simp add: lock_taken_def)
    moreover have "mutex_ok ?k' ?l"
      using i(5,6) w f(1,2) by (auto simp: mutex_ok_def is_class_def upd_mutex_def)
    ultimately show ?thesis
      using i(1,3) f(3,4,7) s1(2) unfolding pipe_free_def by (simp) (simp add: upd_mutex_def tstat_def)
  qed
  ultimately show ?thesis using f(1,6) by (intro exI [of _ ?k']) (simp add: upd_mutex_def)
qed

lemma lock_taken_frame [simp]: "bmem (lock_taken d s) = bmem (dk s)" "objs (lock_taken d s) = objs (dk s)"
  by (simp_all add: lock_taken_def upd_mutex_def)

subsection \<open>Reading and writing\<close>

definition pipe_data :: "pipe_state \<Rightarrow> ptr \<Rightarrow> u8 list" where
  "pipe_data s d = rb_content (rings s (fifo (pipes s d)), bmem (dk s))"

lemma pipe_write_ok:
  assumes fr: "pipe_free b d s" and f: "fifo (pipes s d) \<noteq> RT_NULL" "rb = rings s (fifo (pipes s d))" "rb_ok rb n"
    and c: "count \<noteq> 0" "buf + unat count \<le> buffer_ptr rb \<or> buffer_ptr rb + rb_cap rb \<le> buf"
    and w: "w = min (unat count mod 2 ^ 16) (rb_cap rb - n)"
  shows "\<exists>s'. rt_pipe_write d pos buf count s = Some (Ret (of_nat w), s') \<and> pipe_free b d s'
     \<and> pipes s' = pipes s \<and> rb_ok (rings s' (fifo (pipes s' d))) (n + w)
     \<and> pipe_data s' d = pipe_data s d @ bytes_from (bmem (dk s)) buf w"
proof -
  have p: "0 < unat count" using c(1) by (simp add: unat_gt_0)
  obtain rb' m' where l: "transfer_loop rt_ringbuffer_put buf (unat count) 0 rb (bmem (dk s)) = Some (w, rb', m')"
    "rb_ok rb' (n + w)" "rb_bytes rb' (n + w) m' = rb_bytes rb n (bmem (dk s)) @ bytes_from (bmem (dk s)) buf w"
    using write_loop_ok [OF f(3) p w c(2)] by blast
  let ?s1 = "s\<lparr>dk := (lock_taken d s)\<lparr>bmem := m'\<rparr>, rings := (rings s)(fifo (pipes s d) := rb')\<rparr>"
  have "pipe_transfer rt_ringbuffer_put d buf count (s\<lparr>dk := lock_taken d s\<rparr>) = Some (of_nat w, ?s1)"
    using l(1) f(1,2) by (simp add: pipe_transfer_def Let_def)
  from pipe_enter_free [where body = "pipe_transfer rt_ringbuffer_put d buf count", OF fr this, of m'] obtain k where
    "pipe_enter d (pipe_transfer rt_ringbuffer_put d buf count) s = Some (Ret (of_nat w), ?s1\<lparr>dk := k\<rparr>)"
    "pipe_free b d (?s1\<lparr>dk := k\<rparr>)" "bmem k = m'" by auto
  moreover have "d \<noteq> RT_NULL" using fr by (simp add: pipe_free_def)
  ultimately show ?thesis
    using c(1) l f by (intro exI [of _ "?s1\<lparr>dk := k\<rparr>"]) (simp add: rt_pipe_write_def pipe_data_def rb_content_ok)
qed

lemma pipe_read_ok:
  assumes fr: "pipe_free b d s" and f: "fifo (pipes s d) \<noteq> RT_NULL" "rb = rings s (fifo (pipes s d))" "rb_ok rb n"
    and c: "count \<noteq> 0" "buf + unat count \<le> buffer_ptr rb \<or> buffer_ptr rb + rb_cap rb \<le> buf"
    and w: "w = min (unat count mod 2 ^ 16) n"
  shows "\<exists>s'. rt_pipe_read d pos buf count s = Some (Ret (of_nat w), s') \<and> pipe_free b d s'
     \<and> pipes s' = pipes s \<and> rb_ok (rings s' (fifo (pipes s' d))) (n - w)
     \<and> bytes_from (bmem (dk s')) buf w = take w (pipe_data s d) \<and> pipe_data s' d = drop w (pipe_data s d)"
proof -
  have p: "0 < unat count" using c(1) by (simp add: unat_gt_0)
  have wn: "w \<le> n" "w \<le> unat count" using w by (auto intro: order_trans [OF min.cobounded1] mod_less_eq_dividend)
  obtain m' where l: "transfer_loop rt_ringbuffer_get buf (unat count) 0 rb (bmem (dk s)) = Some (w, rb_skip w rb, m')"
    "bytes_from m' buf w = take w (rb_bytes rb n (bmem (dk s)))" "\<forall>x. x < buf \<or> buf + w \<le> x \<longrightarrow> m' x = bmem (dk s) x"
    using read_loop_ok [OF f(3) p w c(2)] by blast
  note k = rb_skip_ok [OF f(3) wn(1)]
  have "rb_bytes (rb_skip w rb) (n - w) m' = rb_bytes (rb_skip w rb) (n - w) (bmem (dk s))"
  proof (rule nth_equalityI)
    fix i assume "i < length (rb_bytes (rb_skip w rb) (n - w) m')"
    then have i: "i < n - w" by simp
    let ?a = "(read_index (rb_skip w rb) + i) mod rb_cap rb"
    have "?a < rb_cap rb" using rb_okD(1) [OF f(3)] by simp
    then have "buffer_ptr rb + ?a < buf \<or> buf + w \<le> buffer_ptr rb + ?a" using c(2) wn(2) by linarith
    then have "m' (buffer_ptr rb + ?a) = bmem (dk s) (buffer_ptr rb + ?a)" using l(3) by blast
    then show "rb_bytes (rb_skip w rb) (n - w) m' ! i = rb_bytes (rb_skip w rb) (n - w) (bmem (dk s)) ! i"
      using i by (simp add: rb_bytes_def k(2,3))
  qed simp
  then have dr: "rb_bytes (rb_skip w rb) (n - w) m' = drop w (rb_bytes rb n (bmem (dk s)))" using k(4) by simp
  let ?s1 = "s\<lparr>dk := (lock_taken d s)\<lparr>bmem := m'\<rparr>, rings := (rings s)(fifo (pipes s d) := rb_skip w rb)\<rparr>"
  have "pipe_transfer rt_ringbuffer_get d buf count (s\<lparr>dk := lock_taken d s\<rparr>) = Some (of_nat w, ?s1)"
    using l(1) f(1,2) by (simp add: pipe_transfer_def Let_def)
  from pipe_enter_free [where body = "pipe_transfer rt_ringbuffer_get d buf count", OF fr this, of m'] obtain k' where
    "pipe_enter d (pipe_transfer rt_ringbuffer_get d buf count) s = Some (Ret (of_nat w), ?s1\<lparr>dk := k'\<rparr>)"
    "pipe_free b d (?s1\<lparr>dk := k'\<rparr>)" "bmem k' = m'" by auto
  moreover have "d \<noteq> RT_NULL" using fr by (simp add: pipe_free_def)
  ultimately show ?thesis
    using c(1) l f k(1) dr by (intro exI [of _ "?s1\<lparr>dk := k'\<rparr>"]) (simp add: rt_pipe_read_def pipe_data_def rb_content_ok)
qed

text \<open>C38: What \<^verbatim>\<open>rt_pipe_write\<close> and \<^verbatim>\<open>rt_pipe_read\<close> do to the bytes in an open pipe whose lock is free: a write
  appends the first \<open>w\<close> bytes of the buffer, where \<open>w\<close> is the smaller of the space and of \<open>count\<close> modulo
  65536; a read delivers and removes the first \<open>r\<close> bytes, where \<open>r\<close> is the smaller of the number of
  bytes in the pipe and of \<open>count\<close> modulo 65536. Both return the number of bytes moved, and the lock
  is free again.\<close>

theorem pipe_transfer_spec:
  assumes "pipe_free b d s" "fifo (pipes s d) \<noteq> RT_NULL" "rb = rings s (fifo (pipes s d))" "rb_ok rb n"
    "count \<noteq> 0" "buf + unat count \<le> buffer_ptr rb \<or> buffer_ptr rb + rb_cap rb \<le> buf"
    "w = min (unat count mod 2 ^ 16) (rb_cap rb - n)" "r = min (unat count mod 2 ^ 16) n"
  shows "(\<exists>s'. rt_pipe_write d pos buf count s = Some (Ret (of_nat w), s') \<and> pipe_free b d s'
          \<and> pipe_data s' d = pipe_data s d @ bytes_from (bmem (dk s)) buf w)
     \<and> (\<exists>s'. rt_pipe_read d pos buf count s = Some (Ret (of_nat r), s') \<and> pipe_free b d s'
          \<and> bytes_from (bmem (dk s')) buf r = take r (pipe_data s d) \<and> pipe_data s' d = drop r (pipe_data s d))"
  using pipe_write_ok [OF assms(1-7)] pipe_read_ok [OF assms(1-6,8)] by blast

definition demo_pipe :: pipe_state where
  "demo_pipe = \<lparr>devices = (\<lambda>_. \<lparr>dev_type = 15, dev_flag = 7, open_flag = 8, ref_count = 1, device_id = 0, rx_indicate = 0,
       tx_complete = 0, device_init = 0, device_open = 301, device_close = 302, device_read = 303, device_write = 304,
       device_control = 305, dev_user_data = 0\<rparr>),
     dk = demo\<lparr>objs := (objs demo)(200 := ex_obj 0x89 0)\<rparr>,
     pipes = (\<lambda>_. \<lparr>is_named = True, fifo = 500, bufsz = 8, readers = 0, writers = 0, reader_queue = 201,
       writer_queue = 202, pipe_lock = 30\<rparr>),
     rings = (\<lambda>_. demo_rb), queues = demo_wq\<rparr>"

lemma demo_pipe_free: "pipe_free 100 200 demo_pipe"
proof -
  let ?k = "demo\<lparr>objs := (objs demo)(200 := ex_obj 0x89 0)\<rparr>"
  have "timer_inv 100 ?k"
    by (auto simp: timer_inv_def due_def is_class_def demo_def ex_obj_def ex_timer_def)
  moreover have o: "own_timer ?k t" if "own_timer demo t" "t \<noteq> 200" "thread_timer (threads demo t) \<noteq> 200" for t
    using that by (auto simp: own_timer_def is_class_def Let_def)
  have "own_timer ?k t" if "live ?k t" for t
  proof (rule o)
    have "live demo t" using that by (simp add: live_def tstat_def)
    then show "own_timer demo t" by (rule kinvD(3) [OF demo_kinv])
    show "t \<noteq> 200" "thread_timer (threads demo t) \<noteq> 200"
      using that by (auto simp: live_def tstat_def split: if_splits)
  qed
  moreover have "sched_inv ?k" using demo_sched sched_inv_cong [of ?k demo] by simp
  moreover have "timers_wait ?k" using kinvD(4) [OF demo_kinv] by (simp add: timers_wait_def tstat_def)
  ultimately have "kinv 100 ?k" by (simp add: kinv_def)
  then show ?thesis
    by (simp add: pipe_free_def demo_pipe_def mutex_ok_def is_class_def tstat_def) (simp add: demo_def ex_obj_def)
qed

theorem pipe_transfer_spec_witness:
  "\<exists>s'. rt_pipe_write 200 0 200 65538 demo_pipe = Some (Ret 2, s') \<and> pipe_data s' 200 = [102, 103, 104, 200, 201]"
proof -
  have c: "rings demo_pipe (fifo (pipes demo_pipe 200)) = demo_rb" "rb_cap demo_rb = 8" by (simp_all add: demo_pipe_def rb_cap_def demo_rb_def)
  have e: "0 < fifo (pipes demo_pipe 200)" "buffer_ptr demo_rb \<le> 192" by (simp_all add: demo_pipe_def demo_rb_def)
  have d: "pipe_data demo_pipe 200 @ bytes_from (bmem (dk demo_pipe)) 200 2 = [102, 103, 104, 200, 201]"
    unfolding pipe_data_def c(1) rb_content_ok [OF demo_rb_ok]
    by (simp add: rb_bytes_def bytes_from_def c(2) upt_rec demo_pipe_def demo_def) (simp add: demo_rb_def)
  show ?thesis
    using pipe_transfer_spec [OF demo_pipe_free _ c(1) [symmetric] demo_rb_ok, of 65538 200 2 2 0] d e
    by (auto simp: c(2))
qed

text \<open>A write whose length is a multiple of 65536 moves nothing, however much space there is.\<close>

lemma pipe_write_64k:
  assumes "pipe_free b d s" "fifo (pipes s d) \<noteq> RT_NULL" "rb_ok (rings s (fifo (pipes s d))) n"
    "count \<noteq> 0" "unat count mod 65536 = 0"
    "buf + unat count \<le> buffer_ptr (rings s (fifo (pipes s d)))
     \<or> buffer_ptr (rings s (fifo (pipes s d))) + rb_cap (rings s (fifo (pipes s d))) \<le> buf"
  shows "\<exists>s'. rt_pipe_write d pos buf count s = Some (Ret 0, s') \<and> pipe_data s' d = pipe_data s d"
  using pipe_write_ok [OF assms(1,2) refl assms(3,4,6) refl] assms(5) by (auto simp: bytes_from_def)

subsection \<open>The pipe behind the device layer\<close>

text \<open>
  The driver as the device layer calls it, for calls that find the lock free. A call that has to
  wait has no result yet. \<^verbatim>\<open>init\<close> is \<^verbatim>\<open>RT_NULL\<close> in the device and never called.
\<close>

definition at_once :: "('r pipe_call \<times> pipe_state) option \<Rightarrow> ('r \<times> pipe_state) option" where
  "at_once c = do {
     (r, s) \<leftarrow> c;
     (case r of Ret x \<Rightarrow> Some (x, s) | Waits \<Rightarrow> None)
   }"

definition pipe_driver :: "(u32 \<Rightarrow> kernel \<Rightarrow> ptr \<times> kernel) \<Rightarrow> (ptr \<Rightarrow> kernel \<Rightarrow> kernel) \<Rightarrow> ptr \<Rightarrow> unit pipe_state_ext driver" where
  "pipe_driver malloc free fr = \<lparr>init_call = (\<lambda>_ _ _. None),
     open_call = (\<lambda>_ dev oflag s. at_once (rt_pipe_open malloc free dev oflag s)),
     close_call = (\<lambda>_ dev s. at_once (rt_pipe_close free dev s)),
     transfer_call = (\<lambda>f dev pos buffer sz s. at_once ((if f = fr then rt_pipe_read else rt_pipe_write) dev pos buffer sz s)),
     control_call = (\<lambda>_ dev cmd args s. Some (rt_pipe_control dev cmd args s))\<rparr>"

lemma pipe_free_dev [simp]: "pipe_free b d (upd_dev d f s) = pipe_free b d s"
  "pipes (upd_dev d f s) = pipes s" "rings (upd_dev d f s) = rings s"
  by (simp_all add: pipe_free_def upd_dev_def)

lemma pipe_data_dev [simp]: "pipe_data (upd_dev d f s) d = pipe_data s d"
  by (simp add: pipe_data_def)

lemma pipe_close_ok:
  assumes "pipe_free b d s" "ref_count (devices s d) \<noteq> 1"
  shows "\<exists>k. rt_pipe_close free d s = Some (Ret RT_EOK, s\<lparr>dk := k\<rparr>) \<and> pipe_free b d (s\<lparr>dk := k\<rparr>) \<and> bmem k = bmem (dk s)
     \<and> objs k = objs (dk s)"
proof -
  have "pipe_close_body free d (s\<lparr>dk := lock_taken d s\<rparr>) = Some (RT_EOK, s\<lparr>dk := lock_taken d s\<rparr>)"
    using assms(2) by (simp add: pipe_close_body_def)
  from pipe_enter_free [where body = "pipe_close_body free d", OF assms(1) this, of "bmem (dk s)"]
  show ?thesis using assms(1) by (auto simp: rt_pipe_close_def pipe_free_def lock_taken_def upd_mutex_def)
qed

lemma pipe_open_ok:
  assumes "pipe_free b d s" "fifo (pipes s d) \<noteq> RT_NULL"
  shows "\<exists>k. rt_pipe_open malloc free d oflag s = Some (Ret RT_EOK, s\<lparr>dk := k\<rparr>) \<and> pipe_free b d (s\<lparr>dk := k\<rparr>)
     \<and> bmem k = bmem (dk s) \<and> objs k = objs (dk s)"
proof -
  have "pipe_open_body malloc free d (s\<lparr>dk := lock_taken d s\<rparr>) = Some (RT_EOK, s\<lparr>dk := lock_taken d s\<rparr>)"
    using assms(2) by (simp add: pipe_open_body_def)
  from pipe_enter_free [where body = "pipe_open_body malloc free d", OF assms(1) this, of "bmem (dk s)"]
  show ?thesis using assms(1) by (auto simp: rt_pipe_open_def pipe_free_def lock_taken_def upd_mutex_def)
qed

lemma pipe_device_open:
  assumes "pipe_free b d s" "fifo (pipes s d) \<noteq> RT_NULL" "is_class (dk s) d RT_Object_Class_Device"
    "ref_count (devices s d) = 0" "device_open (devices s d) \<noteq> RT_NULL" "device_init (devices s d) = RT_NULL"
    "dev_flag (devices s d) AND RT_DEVICE_FLAG_STANDALONE = 0"
  shows "\<exists>s'. rt_device_open (pipe_driver malloc free fr) d oflag s = Some (RT_EOK, s') \<and> pipe_data s' d = pipe_data s d"
proof -
  obtain s1 where s1: "open_activate (pipe_driver malloc free fr) d s = Some (RT_EOK, s1)" "pipe_free b d s1" "pipes s1 = pipes s"
    "pipe_data s1 d = pipe_data s d" "device_open (devices s1 d) \<noteq> RT_NULL" "ref_count (devices s1 d) = 0"
    "dev_flag (devices s1 d) AND RT_DEVICE_FLAG_STANDALONE = 0"
  proof (cases "dev_flag (devices s d) AND RT_DEVICE_FLAG_ACTIVATED = 0")
    case True
    then show ?thesis
      using assms by (intro that [of "upd_dev d (\<lambda>x. x\<lparr>dev_flag := dev_flag x OR RT_DEVICE_FLAG_ACTIVATED\<rparr>) s"])
        (simp_all add: open_activate_def bit.conj_disj_distrib2)
  next
    case False
    then show ?thesis using assms by (intro that [of s]) (simp_all add: open_activate_def)
  qed
  obtain k where k: "rt_pipe_open malloc free d oflag s1 = Some (Ret RT_EOK, s1\<lparr>dk := k\<rparr>)" "bmem k = bmem (dk s1)"
    using pipe_open_ok [OF s1(2), of malloc free oflag] assms(2) s1(3) by auto
  have "pipe_data (s1\<lparr>dk := k\<rparr>) d = pipe_data s d" using s1(4) k(2) by (simp add: pipe_data_def)
  then show ?thesis
    using assms(1,3) s1 k(1) by (simp add: rt_device_open_def is_class_def pipe_free_def) (simp add: pipe_driver_def at_once_def)
qed








text \<open>Closing a pipe for its last user through \<^verbatim>\<open>rt_device_close\<close> does not release its buffer: the device layer
  lowers the reference count before it calls \<^verbatim>\<open>rt_pipe_close\<close>, which waits for the value 1. The ring and
  the bytes in it stay, nothing is freed, and whoever opens the pipe next reads the old bytes.\<close>

lemma pipe_close_keeps_buffer:
  assumes "pipe_free b d s" "fifo (pipes s d) \<noteq> RT_NULL" "is_class (dk s) d RT_Object_Class_Device"
    "ref_count (devices s d) = 1" "device_close (devices s d) \<noteq> RT_NULL" "device_open (devices s d) \<noteq> RT_NULL"
    "device_init (devices s d) = RT_NULL" "dev_flag (devices s d) AND RT_DEVICE_FLAG_STANDALONE = 0"
  shows "\<exists>s1. rt_device_close (pipe_driver malloc free fr) d s = Some (RT_EOK, s1) \<and> ref_count (devices s1 d) = 0
     \<and> pipes s1 = pipes s \<and> rings s1 = rings s \<and> bmem (dk s1) = bmem (dk s)
     \<and> (\<exists>s2. rt_device_open (pipe_driver malloc free fr) d oflag s1 = Some (RT_EOK, s2) \<and> pipe_data s2 d = pipe_data s d)"
proof -
  have d0: "d \<noteq> RT_NULL" using assms(1) by (simp add: pipe_free_def)
  let ?s0 = "upd_dev d (\<lambda>x. x\<lparr>ref_count := ref_count x - 1\<rparr>) s"
  have r0: "ref_count (devices ?s0 d) = 0" using assms(4) by simp
  obtain k where k: "rt_pipe_close free d ?s0 = Some (Ret RT_EOK, ?s0\<lparr>dk := k\<rparr>)" "pipe_free b d (?s0\<lparr>dk := k\<rparr>)"
    "bmem k = bmem (dk s)" "objs k = objs (dk s)"
    using pipe_close_ok [of b d ?s0 free] assms(1) r0 by auto
  let ?s1 = "upd_dev d (\<lambda>x. x\<lparr>open_flag := RT_DEVICE_OFLAG_CLOSE\<rparr>) (?s0\<lparr>dk := k\<rparr>)"
  have close: "rt_device_close (pipe_driver malloc free fr) d s = Some (RT_EOK, ?s1)"
    using d0 assms(3-5) k(1) unfolding rt_device_close_def
    by (simp add: is_class_def pipe_driver_def at_once_def)
  have "\<exists>s2. rt_device_open (pipe_driver malloc free fr) d oflag ?s1 = Some (RT_EOK, s2) \<and> pipe_data s2 d = pipe_data ?s1 d"
    by (rule pipe_device_open) (use k(2,4) assms in \<open>simp_all add: is_class_def\<close>)
  moreover have "pipe_data ?s1 d = pipe_data s d" using k(3) by (simp add: pipe_data_def)
  ultimately have "\<exists>s2. rt_device_open (pipe_driver malloc free fr) d oflag ?s1 = Some (RT_EOK, s2) \<and> pipe_data s2 d = pipe_data s d"
    by simp
  with close k(3) r0 show ?thesis by (intro exI [of _ ?s1]) simp
qed

end
