(* ===== verification/RT_StrMem.thy ===== *)
theory RT_StrMem
  imports RT_Example "HOL-Library.Sublist"
begin

text \<open>
  The services of \<^verbatim>\<open>src/kservice.c\<close> that stand on the memory routines and the heap: string search and
  duplication, and allocation at a given alignment. The allocator is an argument.
\<close>

subsection \<open>String search\<close>

definition str_bytes :: "string \<Rightarrow> u8 list" where
  "str_bytes s = map of_char s"

text \<open>
  The result is the offset of the match in \<open>s1\<close>, and \<open>None\<close> for \<^verbatim>\<open>RT_NULL\<close>. The lengths \<open>l1\<close> and \<open>l2\<close> are of
  type \<^verbatim>\<open>int\<close>: the result of \<^verbatim>\<open>rt_strlen\<close> is converted to a signed number of 32 bits, and \<open>l2\<close> back to
  an unsigned one for \<^verbatim>\<open>rt_memcmp\<close>.
\<close>

function strstr_loop :: "string \<Rightarrow> string \<Rightarrow> int \<Rightarrow> int \<Rightarrow> nat \<Rightarrow> nat option option" where
  "strstr_loop s1 s2 l1 l2 off =
     (if l1 \<ge> l2 then do {
        C_GUARD (- (2 ^ 31) < l1);
        let l1 = l1 - 1;
        r \<leftarrow> rt_memcmp (str_bytes s1) (str_bytes s2) (unat (word_of_int l2 :: u32));
        if r = 0 then Some (Some off) else strstr_loop (tl s1) s2 l1 l2 (off + 1)
      }
      else Some None)"
  by auto

termination strstr_loop
  by (relation "measure (\<lambda>(s1, s2, l1, l2, off). nat (l1 - l2 + 1))") auto

declare strstr_loop.simps [simp del]

definition int_strlen :: "string \<Rightarrow> int" where
  "int_strlen s = sint (of_nat (rt_strlen s) :: u32)"

definition rt_strstr :: "string \<Rightarrow> string \<Rightarrow> nat option option" where
  "rt_strstr s1 s2 =
     (let l2 = int_strlen s2 in
      if l2 = 0 then Some (Some 0) else strstr_loop s1 s2 (int_strlen s1) l2 0)"

lemma of_char_inj8: "(of_char c :: u8) = of_char d \<longleftrightarrow> c = d"
proof
  have u: "unat (of_char x :: u8) = of_char x" for x
  proof -
    have "unat (of_char x :: u8) = unat (of_nat (of_char x) :: u8)" by (simp only: of_nat_of_char)
    also have "\<dots> = of_char x mod 256" by (simp only: unat_of_nat) simp
    finally show ?thesis by simp
  qed
  assume "(of_char c :: u8) = of_char d"
  then have "(of_char c :: nat) = of_char d" by (simp only: u [symmetric])
  then show "c = d" by (simp add: of_char_eq_iff)
qed simp

lemma memcmp_prefix:
  "length t \<le> length s \<Longrightarrow> \<exists>r. rt_memcmp (str_bytes s) (str_bytes t) (length t) = Some r \<and> (r = 0 \<longleftrightarrow> prefix t s)"
proof (induction t arbitrary: s)
  case (Cons c t)
  then obtain d u where s: "s = d # u" "length t \<le> length u" by (cases s) auto
  have eq: "uint (of_char d :: u8) - uint (of_char c :: u8) = 0 \<longleftrightarrow> c = d"
    using of_char_inj8 [of d c] by (auto simp: word_uint_eq_iff)
  show ?case
  proof (cases "c = d")
    case True
    then show ?thesis using Cons.IH [OF s(2)] s(1) by (simp add: str_bytes_def)
  next
    case False
    then show ?thesis using eq s(1) by (auto simp: str_bytes_def)
  qed
qed (simp add: str_bytes_def)

lemma strlen_length: "NUL \<notin> set s \<Longrightarrow> rt_strlen s = length s"
  by (induction s) auto

lemma unat_of_int_length: "n < 2 ^ 31 \<Longrightarrow> unat (word_of_int (int n) :: u32) = n"
  by (simp add: unat_of_nat)

lemma int_strlen_length: "NUL \<notin> set s \<Longrightarrow> length s < 2 ^ 31 \<Longrightarrow> int_strlen s = int (length s)"
  using sint_nonneg [of "of_nat (length s) :: u32"]
  by (simp add: int_strlen_def strlen_length word_less_nat_alt unat_of_nat)

text \<open>\<open>i\<close> is the first position at which \<open>t\<close> occurs in \<open>s\<close>.\<close>

definition first_match :: "string \<Rightarrow> string \<Rightarrow> nat \<Rightarrow> bool" where
  "first_match s t i \<longleftrightarrow> i \<le> length s \<and> prefix t (drop i s) \<and> (\<forall>j < i. \<not> prefix t (drop j s))"

lemma strstr_loop_ok:
  assumes "t \<noteq> []" "length t < 2 ^ 31"
  shows "\<exists>r. strstr_loop s t (int (length s)) (int (length t)) off = Some r
     \<and> (case r of Some i \<Rightarrow> off \<le> i \<and> first_match s t (i - off) | None \<Rightarrow> \<not> sublist t s)"
proof (induction s arbitrary: off)
  case Nil
  then show ?case using assms by (simp add: strstr_loop.simps)
next
  case (Cons c s)
  show ?case
  proof (cases "length t \<le> length (c # s)")
    case False
    then have "\<not> sublist t (c # s)" using sublist_length_le by blast
    with False show ?thesis by (subst strstr_loop.simps) simp
  next
    case True
    obtain r where r: "rt_memcmp (str_bytes (c # s)) (str_bytes t) (length t) = Some r" "r = 0 \<longleftrightarrow> prefix t (c # s)"
      using memcmp_prefix [OF True] by blast
    have l: "strstr_loop (c # s) t (int (length (c # s))) (int (length t)) off =
        (if r = 0 then Some (Some off) else strstr_loop s t (int (length s)) (int (length t)) (off + 1))"
      using True r(1) unat_of_int_length [OF assms(2)] by (subst strstr_loop.simps) simp
    show ?thesis
    proof (cases "prefix t (c # s)")
      case True
      then show ?thesis using l r(2) by (simp add: first_match_def)
    next
      case False
      obtain q where q: "strstr_loop s t (int (length s)) (int (length t)) (off + 1) = Some q"
        "case q of Some i \<Rightarrow> off + 1 \<le> i \<and> first_match s t (i - (off + 1)) | None \<Rightarrow> \<not> sublist t s"
        using Cons.IH [of "off + 1"] by blast
      have "first_match (c # s) t (i - off)" if "off + 1 \<le> i" "first_match s t (i - (off + 1))" for i
      proof -
        have i: "i - off = Suc (i - (off + 1))" using that(1) by simp
        show ?thesis using that(2) False unfolding i first_match_def by (auto simp: less_Suc_eq_0_disj)
      qed
      then show ?thesis using l r(2) q False by (auto split: option.splits simp: sublist_Cons_right)
    qed
  qed
qed

text \<open>C14: \<^verbatim>\<open>rt_strstr\<close> finds the first occurrence: for two strings without a \<open>NUL\<close> inside and shorter than
  \<open>2 ^ 31\<close> characters, whose lengths an \<^verbatim>\<open>int\<close> can hold, it returns, stays inside both strings, and its result
  is \<^verbatim>\<open>RT_NULL\<close> exactly if the second string does not occur in the first; else it is the first position at which
  it does, which is 0 for the empty string.\<close>

theorem strstr_first_match:
  assumes "NUL \<notin> set s" "NUL \<notin> set t" "length s < 2 ^ 31" "length t < 2 ^ 31"
  shows "\<exists>r. rt_strstr s t = Some r \<and> (r = None \<longleftrightarrow> \<not> sublist t s) \<and> (\<forall>i. r = Some i \<longleftrightarrow> first_match s t i)"
proof (cases "t = []")
  case True
  then show ?thesis by (auto simp: rt_strstr_def int_strlen_def first_match_def)
next
  case False
  obtain r where r: "strstr_loop s t (int (length s)) (int (length t)) 0 = Some r"
    "case r of Some i \<Rightarrow> 0 \<le> i \<and> first_match s t (i - 0) | None \<Rightarrow> \<not> sublist t s"
    using strstr_loop_ok [OF False assms(4), of s 0] by blast
  have sub: "sublist t s" if "first_match s t i" for i
    using that unfolding first_match_def by (meson prefix_imp_sublist sublist_drop sublist_order.order.trans)
  have uniq: "i = j" if "first_match s t i" "first_match s t j" for i j
    using that unfolding first_match_def by (meson linorder_neqE_nat)
  have e: "rt_strstr s t = Some r" using r(1) False assms by (simp add: rt_strstr_def int_strlen_length)
  show ?thesis
  proof (cases r)
    case None
    then show ?thesis using e r(2) sub by auto
  next
    case (Some i)
    then have "first_match s t i" using r(2) by simp
    with Some show ?thesis using e sub uniq by auto
  qed
qed

theorem strstr_first_match_witness: "rt_strstr ''banana'' ''nan'' = Some (Some 2)"
proof -
  have "first_match ''banana'' ''nan'' 2" by (auto simp: first_match_def less_Suc_eq numeral_eq_Suc)
  then show ?thesis using strstr_first_match [of "''banana''" "''nan''"] by auto
qed

subsection \<open>String duplication\<close>

text \<open>\<^verbatim>\<open>rt_strlen\<close> on a string in memory: the loop ends at the first \<open>NUL\<close>, if there is one.\<close>

partial_function (option) strlen_at :: "mem \<Rightarrow> ptr \<Rightarrow> ptr \<Rightarrow> nat option" where
  "strlen_at m s sc = (if m sc \<noteq> 0 then strlen_at m s (sc + 1) else Some (sc - s))"

definition rt_strdup :: "(u32 \<Rightarrow> kernel \<Rightarrow> ptr \<times> kernel) \<Rightarrow> ptr \<Rightarrow> kernel \<Rightarrow> (ptr \<times> kernel) option" where
  "rt_strdup malloc s k = do {
     n \<leftarrow> strlen_at (bmem k) s s;
     let len = (of_nat n + 1 :: u32);
     let (tmp, k) = malloc len k;
     if tmp = RT_NULL then Some (RT_NULL, k)
     else do {
       m \<leftarrow> rt_memcpy tmp s (unat len) (bmem k);
       Some (tmp, k\<lparr>bmem := m\<rparr>)
     }
   }"

text \<open>The string \<open>s\<close> with its terminator is at the address \<open>a\<close>.\<close>

definition str_at :: "mem \<Rightarrow> ptr \<Rightarrow> string \<Rightarrow> bool" where
  "str_at m a s \<longleftrightarrow> (\<forall>i < length s. m (a + i) = of_char (s ! i) \<and> m (a + i) \<noteq> 0) \<and> m (a + length s) = 0"

lemma str_at_Cons: "str_at m a (c # s) \<longleftrightarrow> m a = of_char c \<and> m a \<noteq> 0 \<and> str_at m (a + 1) s"
  unfolding str_at_def by (auto simp: less_Suc_eq_0_disj nth_Cons split: nat.splits)

lemma strlen_at_ok: "str_at m a s \<Longrightarrow> b \<le> a \<Longrightarrow> strlen_at m b a = Some (a - b + length s)"
proof (induction s arbitrary: a)
  case Nil
  then show ?case by (subst strlen_at.simps) (simp add: str_at_def)
next
  case (Cons c s)
  then show ?case by (subst strlen_at.simps) (auto simp: str_at_Cons)
qed

text \<open>
  \<^verbatim>\<open>rt_strdup\<close> gives the caller a copy in the new block, and leaves everything outside the block, the
  original included, as it was.
\<close>

lemma strdup_copies:
  assumes "str_at (bmem k) a s" "length s + 1 < 2 ^ 31" "malloc (of_nat (length s) + 1) k = (p, k1)" "p \<noteq> RT_NULL"
    "\<forall>x. x < p \<or> p + length s < x \<longrightarrow> bmem k1 x = bmem k x" "p + length s < a \<or> a + length s < p"
  shows "\<exists>m. rt_strdup malloc a k = Some (p, k1\<lparr>bmem := m\<rparr>) \<and> str_at m p s \<and> str_at m a s
     \<and> (\<forall>x. x < p \<or> p + length s < x \<longrightarrow> m x = bmem k x)"
proof -
  let ?n = "length s"
  have u: "unat (of_nat ?n + 1 :: u32) = ?n + 1"
    using assms(2) by (simp add: unat_word_ariths unat_of_nat)
  have l: "strlen_at (bmem k) a a = Some ?n" using strlen_at_ok [OF assms(1), of a] by simp
  let ?m = "copied p a (?n + 1) (bmem k1)"
  have "rt_memcpy p a (?n + 1) (bmem k1) = Some ?m"
    by (rule rt_memcpy_copied) (use assms(2,6) in \<open>auto simp: up_safe_def\<close>)
  then have e: "rt_strdup malloc a k = Some (p, k1\<lparr>bmem := ?m\<rparr>)"
    using l assms(3,4) unfolding rt_strdup_def by (simp add: u)
  have src: "bmem k1 (a + i) = bmem k (a + i)" if "i \<le> ?n" for i using assms(5,6) that by auto
  have out: "?m x = bmem k x" if "x < p \<or> p + ?n < x" for x using that assms(5) by (auto simp: copied_def)
  have "?m (p + i) = bmem k (a + i)" if "i \<le> ?n" for i using that src by (simp add: copied_def)
  then have "str_at ?m p s" using assms(1) by (auto simp: str_at_def)
  moreover have "?m (a + i) = bmem k (a + i)" if "i \<le> ?n" for i using out [of "a + i"] assms(6) that by auto
  then have "str_at ?m a s" using assms(1) by (auto simp: str_at_def)
  ultimately show ?thesis using e out by blast
qed

subsection \<open>Aligned allocation\<close>

text \<open>Addresses are computed modulo \<open>2 ^ 32\<close>; the address of the block is kept in front of the aligned one.\<close>

definition align_up :: "u32 \<Rightarrow> u32 \<Rightarrow> u32" where
  "align_up p align = (if p AND (align - 1) = 0 then p + align else (p + (align - 1)) AND NOT (align - 1))"

definition rt_malloc_align :: "(u32 \<Rightarrow> kernel \<Rightarrow> ptr \<times> kernel) \<Rightarrow> u32 \<Rightarrow> u32 \<Rightarrow> kernel \<Rightarrow> ptr \<times> kernel" where
  "rt_malloc_align malloc sz align k =
     (let align = (align + 3) AND NOT 3;
          align_size = ((sz + 3) AND NOT 3) + align;
          (p, k) = malloc align_size k
      in if p \<noteq> RT_NULL then
           (let align_ptr = align_up (of_nat p) align
            in (unat align_ptr, k\<lparr>bmem := store32 (unat (align_ptr - 4)) (of_nat p) (bmem k)\<rparr>))
         else (p, k))"

definition rt_free_align :: "(ptr \<Rightarrow> kernel \<Rightarrow> kernel) \<Rightarrow> ptr \<Rightarrow> kernel \<Rightarrow> kernel" where
  "rt_free_align free p k = free (unat (load32 (unat (of_nat p - 4 :: u32)) (bmem k))) k"

text \<open>The aligned address lies behind the block's address, by at least one word and at most the alignment.\<close>

lemma align_up_ok:
  assumes j: "2 \<le> j" "j < 32" and p: "unat p mod 4 = 0" "unat p + 2 ^ j < 2 ^ 32"
  shows "unat (align_up p (2 ^ j)) mod 2 ^ j = 0" "unat p + 4 \<le> unat (align_up p (2 ^ j))"
    "unat (align_up p (2 ^ j)) \<le> unat p + 2 ^ j"
proof -
  let ?A = "2 ^ j :: nat" and ?p = "unat p"
  have uA: "unat (2 ^ j :: u32) = ?A"
  proof -
    have "unat (of_nat ?A :: u32) = ?A mod 2 ^ 32" by (simp only: unat_of_nat) simp
    also have "\<dots> = ?A" using p(2) by (intro mod_less) simp
    finally show ?thesis by simp
  qed
  have p4: "(4 :: nat) dvd ?A" using j(1) le_imp_power_dvd [of 2 j "2 :: nat"] by simp
  have "unat (align_up p (2 ^ j)) = (if ?p mod ?A = 0 then ?p + ?A else (?p + (?A - 1)) - (?p + (?A - 1)) mod ?A)"
  proof (cases "?p mod ?A = 0")
    case True
    then have "p AND (2 ^ j - 1) = 0" using unat_and_mask [of p j] by (simp add: unat_eq_0)
    then show ?thesis using True uA p(2) unat_add_lem [of p "2 ^ j"] by (simp add: align_up_def)
  next
    case False
    then have n: "p AND (2 ^ j - 1) \<noteq> 0" using unat_and_mask [of p j] by (metis unat_eq_0)
    have A1: "unat (2 ^ j - 1 :: u32) = ?A - 1" 
    proof -
      have "(2 ^ j :: u32) \<noteq> 0" using uA by (metis unat_0 power_not_zero zero_neq_numeral)
      then show ?thesis using uA unat_minus_one [of "2 ^ j :: u32"] by simp
    qed
    have "unat (p + (2 ^ j - 1)) = ?p + (?A - 1)" using p(2) A1 unat_add_lem [of p "2 ^ j - 1"] by simp linarith
    then show ?thesis using n False unat_and_not_mask [of "p + (2 ^ j - 1)" j] by (simp add: align_up_def)
  qed
  moreover have "(?p + (?A - 1)) - (?p + (?A - 1)) mod ?A = ?p + (?A - ?p mod ?A)" if "?p mod ?A \<noteq> 0"
  proof -
    define q r where "q = ?p div ?A" and "r = ?p mod ?A"
    have "?p = q * ?A + r" unfolding q_def r_def by (rule div_mult_mod_eq [symmetric])
    moreover have "0 < r" "r < ?A" using that by (simp_all add: r_def)
    ultimately have r: "?p = q * ?A + r" "0 < r" "r < ?A" by blast+
    have "?p + (?A - 1) = (r - 1) + (q + 1) * ?A" using r by simp
    then have "(?p + (?A - 1)) mod ?A = r - 1" using r(3) by (simp only: mod_mult_self1) simp
    then show ?thesis using r by (simp flip: r_def)
  qed
  ultimately have e: "unat (align_up p (2 ^ j)) = ?p + (?A - ?p mod ?A)" by (simp split: if_splits)
  have lt: "?p mod ?A < ?A" by simp
  have "4 dvd ?p mod ?A" using p(1) p4 by (simp add: mod_0_imp_dvd dvd_mod)
  then have "4 dvd ?A - ?p mod ?A" using p4 by (simp add: dvd_diff_nat)
  then have "4 \<le> ?A - ?p mod ?A" using lt by (intro dvd_imp_le) simp_all
  then show "unat p + 4 \<le> unat (align_up p (2 ^ j))" unfolding e by simp
  show "unat (align_up p (2 ^ j)) \<le> unat p + 2 ^ j" unfolding e by simp
  have "?p + (?A - ?p mod ?A) = (?p div ?A + 1) * ?A"
    using div_mult_mod_eq [of ?p ?A] lt by (simp only: add_mult_distrib)
  then show "unat (align_up p (2 ^ j)) mod 2 ^ j = 0" unfolding e by simp
qed

lemma load_store32: "load32 a (store32 a w m) = w"
proof (rule bit_word_eqI)
  fix n assume "n < LENGTH(32)"
  then consider "n < 8" | "8 \<le> n" "n < 16" | "16 \<le> n" "n < 24" | "24 \<le> n" "n < 32" by fastforce
  then show "bit (load32 a (store32 a w m)) n = bit w n"
    by cases (auto simp: load32_def store32_def bit_simps)
qed

lemma unat_round4: "unat (w + 3) = unat w + 3 \<Longrightarrow> unat ((w + 3) AND NOT 3) = (unat w + 3) div 4 * 4" for w :: u32
  using unat_align_down [of "w + 3"] by (simp add: RT_ALIGN_DOWN_def)

text \<open>The sizes that \<^verbatim>\<open>rt_malloc_align\<close> computes, for an alignment that is a power of two.\<close>

lemma malloc_align_sizes:
  assumes "unat align = 2 ^ i" "unat sz + unat align + 2 * 3 < 2 ^ 32" "n = unat (((sz + 3) AND NOT 3) + ((align + 3) AND NOT 3))" "n < 2 ^ 32"
  obtains j where "2 \<le> j" "i \<le> j" "j < 32" "(align + 3) AND NOT (3 :: u32) = 2 ^ j" "unat sz + 2 ^ j \<le> n"
proof -
  define A S where "A = (align + 3) AND NOT (3 :: u32)" and "S = (sz + 3) AND NOT (3 :: u32)"
  define j where "j = max i 2"
  have a3: "unat (align + 3) = unat align + 3" "unat (sz + 3) = unat sz + 3"
    using assms(2) by (simp_all add: unat_word_ariths)
  have uA: "unat A = 2 ^ j"
  proof (cases "2 \<le> i")
    case True
    then have "(4 :: nat) dvd 2 ^ i" using le_imp_power_dvd [of 2 i "2 :: nat"] by simp
    then obtain c where c: "(2 :: nat) ^ i = 4 * c" ..
    have "(4 * c + 3) div 4 = c" by simp
    then show ?thesis using True unat_round4 [OF a3(1)] c by (simp add: A_def assms(1) j_def max_def)
  next
    case False
    then have "i = 0 \<or> i = 1" by auto
    then show ?thesis using unat_round4 [OF a3(1)] by (auto simp: A_def assms(1) j_def)
  qed
  have A: "A = 2 ^ j"
  proof -
    have "A = of_nat (unat A)" by simp
    then show ?thesis by (simp only: uA) simp
  qed
  have uS: "unat sz \<le> unat S" "unat S \<le> unat sz + 3" using unat_round4 [OF a3(2)] by (simp_all add: S_def)
  have j: "2 \<le> j" "(2 :: nat) ^ j \<le> unat align + 3" using uA unat_round4 [OF a3(1)] by (simp_all add: j_def A_def)
  have n: "n = unat S + 2 ^ j"
  proof -
    have "unat S + unat A < 2 ^ 32" using uS(2) j(2) assms(2) uA by linarith
    then show ?thesis using assms(3) uA unat_add_lem [of S A] by (simp add: A_def S_def)
  qed
  have j32: "j < 32"
  proof (rule ccontr)
    assume "\<not> j < 32"
    then have "(2 :: nat) ^ 32 \<le> 2 ^ j" by (intro power_increasing) auto
    then show False using assms(4) n by linarith
  qed
  show thesis using that [of j] j(1) j32 A uS(1) n by (simp add: A_def j_def)
qed

text \<open>The word before the aligned block, where the address of the allocated block is kept.\<close>

lemma free_align_stored:
  fixes w :: u32
  assumes "4 \<le> unat w" "p < 2 ^ 32" "\<forall>x. unat w - 4 \<le> x \<and> x < unat w \<longrightarrow> bmem k3 x = store32 (unat w - 4) (of_nat p) m x"
  shows "rt_free_align free (unat w) k3 = free p k3"
proof -
  have "unat (w - 4) = unat w - 4" using assms(1) by (subst unat_sub) (simp_all add: word_le_nat_alt)
  moreover have "load32 (unat w - 4) (bmem k3) = load32 (unat w - 4) (store32 (unat w - 4) (of_nat p) m)"
    using assms(1,3) by (simp add: load32_def)
  ultimately show ?thesis using assms(2) by (simp add: rt_free_align_def load_store32 unat_of_nat)
qed

text \<open>C15: \<^verbatim>\<open>rt_malloc_align\<close> for a power of two: if the allocator gives a word-aligned block of the size it is asked
  for, the result is a multiple of the alignment, the requested bytes behind it and the word in
  front of it lie inside the block, and only that word is written. \<^verbatim>\<open>rt_free_align\<close> then frees that block, as long as the word has
  not been overwritten.\<close>

theorem malloc_align_ok:
  assumes "unat align = 2 ^ i" "unat sz + unat align + 2 * 3 < 2 ^ 32"
    "malloc (((sz + 3) AND NOT 3) + ((align + 3) AND NOT 3)) k = (p, k1)"
    "n = unat (((sz + 3) AND NOT 3) + ((align + 3) AND NOT 3))"
    "p \<noteq> RT_NULL" "p mod 4 = 0" "p + n < 2 ^ 32"
  shows "\<exists>q k2. rt_malloc_align malloc sz align k = (q, k2) \<and> q mod 2 ^ i = 0 \<and> p + 4 \<le> q \<and> q + unat sz \<le> p + n
     \<and> (\<forall>x. x < q - 4 \<or> q \<le> x \<longrightarrow> bmem k2 x = bmem k1 x)
     \<and> (\<forall>k3. (\<forall>x. q - 4 \<le> x \<and> x < q \<longrightarrow> bmem k3 x = bmem k2 x) \<longrightarrow> rt_free_align free q k3 = free p k3)"
proof -
  have "n < 2 ^ 32" using assms(7) by linarith
  from malloc_align_sizes [OF assms(1,2,4) this] obtain j where j: "2 \<le> j" "i \<le> j" "j < 32" "(align + 3) AND NOT (3 :: u32) = 2 ^ j"
    "unat sz + 2 ^ j \<le> n" .
  have up: "unat (of_nat p :: u32) = p" using assms(7) by (simp add: unat_of_nat)
  define w :: u32 where "w = align_up (of_nat p) (2 ^ j)"
  have q: "unat w mod 2 ^ j = 0" "p + 4 \<le> unat w" "unat w \<le> p + 2 ^ j"
    using align_up_ok [OF j(1,3), of "of_nat p"] assms(6,7) j(5) unfolding w_def up by simp_all
  have w4: "unat (w - 4) = unat w - 4" using q(2) by (subst unat_sub) (simp_all add: word_le_nat_alt)
  let ?k2 = "k1\<lparr>bmem := store32 (unat w - 4) (of_nat p) (bmem k1)\<rparr>"
  have e: "rt_malloc_align malloc sz align k = (unat w, ?k2)"
    using assms(3,5) unfolding rt_malloc_align_def Let_def j(4) by (simp add: w_def [symmetric] w4)
  have "(2 :: nat) ^ i dvd 2 ^ j" using j(2) by (rule le_imp_power_dvd)
  then have qi: "unat w mod 2 ^ i = 0" using q(1) by (meson dvd_trans mod_0_imp_dvd dvd_imp_mod_0)
  have out: "bmem ?k2 x = bmem k1 x" if "x < unat w - 4 \<or> unat w \<le> x" for x
    using that q(2) by (auto simp: store32_def)
  have free: "rt_free_align free (unat w) k3 = free p k3"
    if "\<forall>x. unat w - 4 \<le> x \<and> x < unat w \<longrightarrow> bmem k3 x = bmem ?k2 x" for k3
    by (rule free_align_stored [of w p k3 "bmem k1"]) (use q(2) assms(7) that in auto)
  show ?thesis using e qi q(2,3) out free j(5) by (intro exI [of _ "unat w"] exI [of _ ?k2]) auto
qed

theorem malloc_align_ok_witness:
  "\<exists>q k2. rt_malloc_align (\<lambda>_ k. (2004, k)) 10 16 demo = (q, k2) \<and> q mod 16 = 0 \<and> 2008 \<le> q
     \<and> rt_free_align (\<lambda>p k. k\<lparr>rt_tick := of_nat p\<rparr>) q k2 = k2\<lparr>rt_tick := 2004\<rparr>"
  using malloc_align_ok [of 16 4 10 "\<lambda>_ k. (2004, k)" demo 2004 demo 28 "\<lambda>p k. k\<lparr>rt_tick := of_nat p\<rparr>"] by fastforce

end
