(* ===== verification/RT_Slab.thy ===== *)
theory RT_Slab
  imports RT_Example RT_Semaphore
begin

text \<open>
  The slab allocator (\<^verbatim>\<open>src/slab.c\<close>), the kernel's heap for systems with much memory. Pages of 4096 bytes
  are managed as a list of free runs, ordered by address; small requests are served from zones, runs
  of pages that hold chunks of one size. The structures that the code lays over free memory are
  kept by their addresses: the head of a free run, the header of a zone, the link of a free chunk.
\<close>

subsection \<open>State\<close>

record slab_zone =
  z_magic :: u32
  z_nfree :: int
  z_nmax :: int
  z_next :: ptr
  z_baseptr :: ptr
  z_uindex :: int
  z_chunksize :: u32
  z_zoneindex :: int
  z_freechunk :: ptr

record rt_page_head =
  pg_next :: ptr
  pg_page :: nat

datatype page_type = PAGE_TYPE_FREE | PAGE_TYPE_SMALL | PAGE_TYPE_LARGE

record slab =
  sl_start :: ptr
  sl_end :: ptr
  page_heads :: "ptr \<Rightarrow> rt_page_head"
  rt_page_list :: ptr
  memusage :: "nat \<Rightarrow> page_type \<times> nat"
  memusage_at :: ptr
  zones :: "ptr \<Rightarrow> slab_zone"
  c_next :: "ptr \<Rightarrow> ptr"
  zone_array :: "int \<Rightarrow> ptr"
  zone_free :: ptr
  zone_free_cnt :: int
  zone_size :: u32
  zone_limit :: u32
  zone_page_cnt :: nat
  sl_used :: u32
  sl_max :: u32
  heap_sem :: ptr
  sk :: kernel

abbreviation (input) RT_MM_PAGE_SIZE :: nat where "RT_MM_PAGE_SIZE \<equiv> 4096"
abbreviation (input) ZALLOC_SLAB_MAGIC :: u32 where "ZALLOC_SLAB_MAGIC \<equiv> 0x51ab51ab"
abbreviation (input) ZALLOC_ZONE_LIMIT :: u32 where "ZALLOC_ZONE_LIMIT \<equiv> 0x4000"
abbreviation (input) ZALLOC_MIN_ZONE_SIZE :: u32 where "ZALLOC_MIN_ZONE_SIZE \<equiv> 0x8000"
abbreviation (input) ZALLOC_MAX_ZONE_SIZE :: u32 where "ZALLOC_MAX_ZONE_SIZE \<equiv> 0x20000"
abbreviation (input) NZONES :: int where "NZONES \<equiv> 72"
abbreviation (input) ZONE_RELEASE_THRESH :: int where "ZONE_RELEASE_THRESH \<equiv> 2"
abbreviation (input) SIZEOF_SLAB_ZONE :: u32 where "SIZEOF_SLAB_ZONE \<equiv> 36"
abbreviation (input) MIN_CHUNK_MASK :: u32 where "MIN_CHUNK_MASK \<equiv> 7"

definition upd_page :: "ptr \<Rightarrow> (rt_page_head \<Rightarrow> rt_page_head) \<Rightarrow> slab \<Rightarrow> slab" where
  "upd_page a f s = s\<lparr>page_heads := (page_heads s)(a := f (page_heads s a))\<rparr>"

definition upd_zone :: "ptr \<Rightarrow> (slab_zone \<Rightarrow> slab_zone) \<Rightarrow> slab \<Rightarrow> slab" where
  "upd_zone a f s = s\<lparr>zones := (zones s)(a := f (zones s a))\<rparr>"

text \<open>
  The operations take and release the semaphore of the heap several times. A call that finds it
  taken ends in \<open>Held\<close> at that point.
\<close>

datatype 'a pending = Now 'a | Held

definition then_do :: "('a pending \<times> slab) option \<Rightarrow> ('a \<Rightarrow> slab \<Rightarrow> ('b pending \<times> slab) option) \<Rightarrow> ('b pending \<times> slab) option" where
  "then_do c f = do {
     (r, s) \<leftarrow> c;
     (case r of Now a \<Rightarrow> f a s | Held \<Rightarrow> Some (Held, s))
   }"

definition slab_lock :: "slab \<Rightarrow> (unit pending \<times> slab) option" where
  "slab_lock s = do {
     (out, k) \<leftarrow> rt_sem_take (heap_sem s) RT_WAITING_FOREVER (sk s);
     Some (case out of Blocked \<Rightarrow> Held | Done _ \<Rightarrow> Now (), s\<lparr>sk := k\<rparr>)
   }"

definition slab_unlock :: "'a \<Rightarrow> slab \<Rightarrow> ('a pending \<times> slab) option" where
  "slab_unlock r s = do {
     (_, k) \<leftarrow> rt_sem_release (heap_sem s) (sk s);
     Some (Now r, s\<lparr>sk := k\<rparr>)
   }"

subsection \<open>Pages\<close>

text \<open>\<open>prev\<close> is the variable \<^verbatim>\<open>prev\<close> of the loops: the address of the list head (\<open>None\<close>) or of the field \<^verbatim>\<open>next\<close> of a run.\<close>

definition page_at :: "ptr option \<Rightarrow> slab \<Rightarrow> ptr" where
  "page_at prev s = (case prev of None \<Rightarrow> rt_page_list s | Some b \<Rightarrow> pg_next (page_heads s b))"

definition set_page_at :: "ptr option \<Rightarrow> ptr \<Rightarrow> slab \<Rightarrow> slab" where
  "set_page_at prev n s = (case prev of None \<Rightarrow> s\<lparr>rt_page_list := n\<rparr> | Some b \<Rightarrow> upd_page b (\<lambda>h. h\<lparr>pg_next := n\<rparr>) s)"

partial_function (option) page_alloc_loop :: "nat \<Rightarrow> ptr option \<Rightarrow> slab \<Rightarrow> (ptr \<times> slab) option" where
  "page_alloc_loop npages prev s =
     (let b = page_at prev s in
      if b = RT_NULL then Some (b, s)
      else if pg_page (page_heads s b) > npages then
        (let n = b + npages * RT_MM_PAGE_SIZE;
             s = upd_page n (\<lambda>h. h\<lparr>pg_next := pg_next (page_heads s b)\<rparr>) s;
             s = upd_page n (\<lambda>h. h\<lparr>pg_page := pg_page (page_heads s b) - npages\<rparr>) s
         in Some (b, set_page_at prev n s))
      else if pg_page (page_heads s b) = npages then Some (b, set_page_at prev (pg_next (page_heads s b)) s)
      else page_alloc_loop npages (Some b) s)"

definition rt_page_alloc :: "nat \<Rightarrow> slab \<Rightarrow> (ptr pending \<times> slab) option" where
  "rt_page_alloc npages s =
     (if npages = 0 then Some (Now RT_NULL, s)
      else then_do (slab_lock s) (\<lambda>_ s. do {
        (b, s) \<leftarrow> page_alloc_loop npages None s;
        slab_unlock b s
      }))"

partial_function (option) page_free_loop :: "ptr \<Rightarrow> nat \<Rightarrow> ptr option \<Rightarrow> slab \<Rightarrow> slab option" where
  "page_free_loop n npages prev s =
     (let b = page_at prev s in
      if b = RT_NULL then
        Some (set_page_at prev n (upd_page n (\<lambda>h. h\<lparr>pg_page := npages, pg_next := b\<rparr>) s))
      else do {
        RT_ASSERT (pg_page (page_heads s b) > 0);
        RT_ASSERT (b > n \<or> b + pg_page (page_heads s b) * RT_MM_PAGE_SIZE \<le> n);
        if b + pg_page (page_heads s b) * RT_MM_PAGE_SIZE = n then
          (let s = upd_page b (\<lambda>h. h\<lparr>pg_page := pg_page h + npages\<rparr>) s;
               x = pg_next (page_heads s b)
           in Some (if b + pg_page (page_heads s b) * RT_MM_PAGE_SIZE = x
                    then upd_page b (\<lambda>h. h\<lparr>pg_page := pg_page h + pg_page (page_heads s x), pg_next := pg_next (page_heads s x)\<rparr>) s
                    else s))
        else if b = n + npages * RT_MM_PAGE_SIZE then
          Some (set_page_at prev n (upd_page n (\<lambda>h. h\<lparr>pg_page := pg_page (page_heads s b) + npages,
            pg_next := pg_next (page_heads s b)\<rparr>) s))
        else if b > n + npages * RT_MM_PAGE_SIZE then
          Some (set_page_at prev n (upd_page n (\<lambda>h. h\<lparr>pg_page := npages, pg_next := b\<rparr>) s))
        else page_free_loop n npages (Some b) s
      })"

definition rt_page_free :: "ptr \<Rightarrow> nat \<Rightarrow> slab \<Rightarrow> (unit pending \<times> slab) option" where
  "rt_page_free addr npages s = do {
     RT_ASSERT (addr \<noteq> RT_NULL);
     RT_ASSERT (addr mod RT_MM_PAGE_SIZE = 0);
     RT_ASSERT (npages \<noteq> 0);
     then_do (slab_lock s) (\<lambda>_ s. do {
       s \<leftarrow> page_free_loop addr npages None s;
       slab_unlock () s
     })
   }"

definition rt_page_init :: "ptr \<Rightarrow> nat \<Rightarrow> slab \<Rightarrow> (unit pending \<times> slab) option" where
  "rt_page_init addr npages s = do {
     RT_ASSERT (addr \<noteq> RT_NULL);
     RT_ASSERT (npages \<noteq> 0);
     rt_page_free addr npages (s\<lparr>rt_page_list := RT_NULL\<rparr>)
   }"

text \<open>The doubling of the zone size ends at the maximum, so two rounds are enough.\<close>

fun zone_size_loop :: "nat \<Rightarrow> u32 \<Rightarrow> u32 \<Rightarrow> u32" where
  "zone_size_loop 0 limsize sz = sz"
| "zone_size_loop (Suc fuel) limsize sz =
     (if sz < ZALLOC_MAX_ZONE_SIZE \<and> push_bit 1 sz < limsize div 1024
      then zone_size_loop fuel limsize (push_bit 1 sz) else sz)"

definition rt_system_heap_init_slab :: "u32 \<Rightarrow> u32 \<Rightarrow> slab \<Rightarrow> (unit pending \<times> slab) option" where
  "rt_system_heap_init_slab begin_addr end_addr s = do {
     RT_DEBUG_NOT_IN_INTERRUPT (sk s);
     let s = s\<lparr>sl_start := unat (RT_ALIGN begin_addr 4096), sl_end := unat (RT_ALIGN_DOWN end_addr 4096)\<rparr>;
     if sl_start s \<ge> sl_end s then Some (Now (), s)
     else do {
       let limsize = (of_nat (sl_end s - sl_start s) :: u32);
       let npages = unat (limsize div 4096);
       (_, k) \<leftarrow> rt_sem_init (heap_sem s) ''heap'' 1 RT_IPC_FLAG_FIFO (sk s);
       then_do (rt_page_init (sl_start s) npages (s\<lparr>sk := k\<rparr>)) (\<lambda>_ s. do {
         let s = s\<lparr>zone_size := zone_size_loop 2 limsize ZALLOC_MIN_ZONE_SIZE\<rparr>;
         let lim = zone_size s div 4;
         let s = s\<lparr>zone_limit := (if lim > ZALLOC_ZONE_LIMIT then ZALLOC_ZONE_LIMIT else lim),
           zone_page_cnt := unat (zone_size s div 4096)\<rparr>;
         let limsize = RT_ALIGN (of_nat npages * 4) 4096;
         then_do (rt_page_alloc (unat (limsize div 4096)) s) (\<lambda>p s. Some (Now (), s\<lparr>memusage_at := p\<rparr>))
       })
     }
   }"

subsection \<open>Zones\<close>

text \<open>The index of the zone for a request and the size of its chunks, to which the request is raised.\<close>

definition zoneindex :: "u32 \<Rightarrow> int \<times> u32" where
  "zoneindex n =
     (if n < 128 then (let n = (n + 7) AND NOT 7 in (uint (n div 8) - 1, n))
      else if n < 256 then (let n = (n + 15) AND NOT 15 in (uint (n div 16) + 7, n))
      else if n < 8192 then
        (if n < 512 then (let n = (n + 31) AND NOT 31 in (uint (n div 32) + 15, n))
         else if n < 1024 then (let n = (n + 63) AND NOT 63 in (uint (n div 64) + 23, n))
         else if n < 2048 then (let n = (n + 127) AND NOT 127 in (uint (n div 128) + 31, n))
         else if n < 4096 then (let n = (n + 255) AND NOT 255 in (uint (n div 256) + 39, n))
         else (let n = (n + 511) AND NOT 511 in (uint (n div 512) + 47, n)))
      else if n < 16384 then (let n = (n + 1023) AND NOT 1023 in (uint (n div 1024) + 55, n))
      else (0, n))"

definition page_index :: "ptr \<Rightarrow> slab \<Rightarrow> nat" where
  "page_index a s = (a - sl_start s) div RT_MM_PAGE_SIZE"

text \<open>The descriptors of a zone's pages: page \<open>off\<close> of the zone at \<open>z\<close> gets \<open>f off\<close>.\<close>

definition set_usage :: "ptr \<Rightarrow> (nat \<Rightarrow> page_type \<times> nat) \<Rightarrow> slab \<Rightarrow> slab" where
  "set_usage z f s = s\<lparr>memusage := (\<lambda>i. if page_index z s \<le> i \<and> i < page_index z s + zone_page_cnt s
     then f (i - page_index z s) else memusage s i)\<rparr>"

definition slab_account :: "u32 \<Rightarrow> slab \<Rightarrow> slab" where
  "slab_account n s =
     (let s = s\<lparr>sl_used := sl_used s + n\<rparr>
      in if sl_used s > sl_max s then s\<lparr>sl_max := sl_used s\<rparr> else s)"

definition malloc_large :: "u32 \<Rightarrow> slab \<Rightarrow> (ptr pending \<times> slab) option" where
  "malloc_large sz s =
     (let sz = RT_ALIGN sz 4096; n = unat (drop_bit 12 sz) in
      then_do (rt_page_alloc n s) (\<lambda>chunk s.
        if chunk = RT_NULL then Some (Now RT_NULL, s)
        else
          (let s = s\<lparr>memusage := (memusage s)(page_index chunk s := (PAGE_TYPE_LARGE, n))\<rparr>
           in then_do (slab_lock s) (\<lambda>_ s. slab_unlock chunk (slab_account sz s)))))"

text \<open>A chunk from the first zone \<open>z\<close> of its size: from the part never used, then from the list of free chunks.\<close>

definition take_chunk :: "ptr \<Rightarrow> int \<Rightarrow> u32 \<Rightarrow> slab \<Rightarrow> (ptr \<times> slab) option" where
  "take_chunk z zi sz s = do {
     RT_ASSERT (z_nfree (zones s z) > 0);
     let s = upd_zone z (\<lambda>x. x\<lparr>z_nfree := z_nfree x - 1\<rparr>) s;
     let s = (if z_nfree (zones s z) = 0
              then upd_zone z (\<lambda>x. x\<lparr>z_next := RT_NULL\<rparr>) (s\<lparr>zone_array := (zone_array s)(zi := z_next (zones s z))\<rparr>)
              else s);
     if z_uindex (zones s z) + 1 \<noteq> z_nmax (zones s z) then do {
       let s = upd_zone z (\<lambda>x. x\<lparr>z_uindex := z_uindex x + 1\<rparr>) s;
       Some (nat (int (z_baseptr (zones s z)) + z_uindex (zones s z) * uint sz), slab_account (z_chunksize (zones s z)) s)
     }
     else do {
       let chunk = z_freechunk (zones s z);
       C_GUARD (chunk \<noteq> RT_NULL);
       let s = upd_zone z (\<lambda>x. x\<lparr>z_freechunk := c_next s chunk\<rparr>) s;
       Some (chunk, slab_account (z_chunksize (zones s z)) s)
     }
   }"

definition zone_offset :: "u32 \<Rightarrow> u32" where
  "zone_offset sz =
     (if (sz OR (sz - 1)) + 1 = push_bit 1 sz then (SIZEOF_SLAB_ZONE + sz - 1) AND NOT (sz - 1)
      else (SIZEOF_SLAB_ZONE + MIN_CHUNK_MASK) AND NOT MIN_CHUNK_MASK)"

text \<open>A new zone for chunks of size \<open>sz\<close>, whose first chunk is handed out at once.\<close>

definition init_zone :: "ptr \<Rightarrow> int \<Rightarrow> u32 \<Rightarrow> slab \<Rightarrow> ptr \<times> slab" where
  "init_zone z zi sz s =
     (let off = zone_offset sz;
          nmax = uint ((zone_size s - off) div sz);
          s = upd_zone z (\<lambda>_. \<lparr>z_magic = ZALLOC_SLAB_MAGIC, z_nfree = nmax - 1, z_nmax = nmax, z_next = RT_NULL,
            z_baseptr = z + unat off, z_uindex = 0, z_chunksize = sz, z_zoneindex = zi, z_freechunk = RT_NULL\<rparr>) s;
          s = upd_zone z (\<lambda>x. x\<lparr>z_next := zone_array s zi\<rparr>) s;
          s = s\<lparr>zone_array := (zone_array s)(zi := z)\<rparr>
      in (z_baseptr (zones s z), slab_account sz s))"

definition malloc_new_zone :: "int \<Rightarrow> u32 \<Rightarrow> slab \<Rightarrow> (ptr pending \<times> slab) option" where
  "malloc_new_zone zi sz s =
     (let z = zone_free s in
      if z \<noteq> RT_NULL then
        (let (chunk, s) = init_zone z zi sz (s\<lparr>zone_free := z_next (zones s z), zone_free_cnt := zone_free_cnt s - 1\<rparr>)
         in slab_unlock chunk s)
      else then_do (slab_unlock () s) (\<lambda>_ s.
        then_do (rt_page_alloc (unat (zone_size s div 4096)) s) (\<lambda>z s.
          if z = RT_NULL then Some (Now RT_NULL, s)
          else then_do (slab_lock s) (\<lambda>_ s.
            let (chunk, s) = init_zone z zi sz (set_usage z (\<lambda>off. (PAGE_TYPE_SMALL, off)) s)
            in slab_unlock chunk s))))"

definition rt_malloc_slab :: "u32 \<Rightarrow> slab \<Rightarrow> (ptr pending \<times> slab) option" where
  "rt_malloc_slab sz s =
     (if sz = 0 then Some (Now RT_NULL, s)
      else if sz \<ge> zone_limit s then malloc_large sz s
      else then_do (slab_lock s) (\<lambda>_ s. do {
        let (zi, sz) = zoneindex sz;
        RT_ASSERT (zi < NZONES);
        let z = zone_array s zi;
        if z \<noteq> RT_NULL then do {
          (chunk, s) \<leftarrow> take_chunk z zi sz s;
          slab_unlock chunk s
        }
        else malloc_new_zone zi sz s
      }))"

text \<open>Unlinking a zone from the list of its index: \<open>pz\<close> as for the pages.\<close>

definition zone_at :: "int \<Rightarrow> ptr option \<Rightarrow> slab \<Rightarrow> ptr" where
  "zone_at zi pz s = (case pz of None \<Rightarrow> zone_array s zi | Some y \<Rightarrow> z_next (zones s y))"

partial_function (option) zone_unlink_loop :: "ptr \<Rightarrow> int \<Rightarrow> ptr option \<Rightarrow> slab \<Rightarrow> slab option" where
  "zone_unlink_loop z zi pz s =
     (let y = zone_at zi pz s in
      if y \<noteq> z then do {
        C_GUARD (y \<noteq> RT_NULL);
        zone_unlink_loop z zi (Some y) s
      }
      else Some (case pz of None \<Rightarrow> s\<lparr>zone_array := (zone_array s)(zi := z_next (zones s z))\<rparr>
                 | Some p \<Rightarrow> upd_zone p (\<lambda>x. x\<lparr>z_next := z_next (zones s z)\<rparr>) s))"

definition free_chunk :: "ptr \<Rightarrow> ptr \<Rightarrow> slab \<Rightarrow> slab" where
  "free_chunk z chunk s =
     (let s = s\<lparr>c_next := (c_next s)(chunk := z_freechunk (zones s z))\<rparr>;
          s = upd_zone z (\<lambda>x. x\<lparr>z_freechunk := chunk\<rparr>) s;
          s = s\<lparr>sl_used := sl_used s - z_chunksize (zones s z)\<rparr>;
          was = z_nfree (zones s z);
          s = upd_zone z (\<lambda>x. x\<lparr>z_nfree := z_nfree x + 1\<rparr>) s;
          zi = z_zoneindex (zones s z)
      in if was = 0 then (upd_zone z (\<lambda>x. x\<lparr>z_next := zone_array s zi\<rparr>) s)\<lparr>zone_array := (zone_array s)(zi := z)\<rparr>
         else s)"

text \<open>A zone with all chunks free, of which there is another one to allocate from, is put aside, and given back if there are too many.\<close>

definition release_zone :: "ptr \<Rightarrow> slab \<Rightarrow> (unit pending \<times> slab) option" where
  "release_zone z s = do {
     s \<leftarrow> zone_unlink_loop z (z_zoneindex (zones s z)) None s;
     let s = upd_zone z (\<lambda>x. x\<lparr>z_magic := - 1, z_next := zone_free s\<rparr>) s;
     let s = s\<lparr>zone_free := z, zone_free_cnt := zone_free_cnt s + 1\<rparr>;
     if zone_free_cnt s > ZONE_RELEASE_THRESH then do {
       let z = zone_free s;
       let s = s\<lparr>zone_free := z_next (zones s z), zone_free_cnt := zone_free_cnt s - 1\<rparr>;
       then_do (slab_unlock () (set_usage z (\<lambda>_. (PAGE_TYPE_FREE, 0)) s)) (\<lambda>_ s.
         rt_page_free z (unat (zone_size s div 4096)) s)
     }
     else slab_unlock () s
   }"

definition rt_free_slab :: "ptr \<Rightarrow> slab \<Rightarrow> (unit pending \<times> slab) option" where
  "rt_free_slab p s =
     (if p = RT_NULL then Some (Now (), s)
      else do {
      C_GUARD (sl_start s \<le> p);
      let i = page_index p s;
      if fst (memusage s i) = PAGE_TYPE_LARGE then
        then_do (slab_lock s) (\<lambda>_ s.
          let n = snd (memusage s i);
              s = s\<lparr>memusage := (memusage s)(i := (PAGE_TYPE_LARGE, 0)), sl_used := sl_used s - of_nat (n * RT_MM_PAGE_SIZE)\<rparr>
          in then_do (slab_unlock () s) (\<lambda>_ s. rt_page_free p n s))
      else then_do (slab_lock s) (\<lambda>_ s. do {
        let z = p div RT_MM_PAGE_SIZE * RT_MM_PAGE_SIZE - snd (memusage s i) * RT_MM_PAGE_SIZE;
        RT_ASSERT (z_magic (zones s z) = ZALLOC_SLAB_MAGIC);
        let s = free_chunk z p s;
        if z_nfree (zones s z) = z_nmax (zones s z)
           \<and> (z_next (zones s z) \<noteq> RT_NULL \<or> zone_array s (z_zoneindex (zones s z)) \<noteq> z)
        then release_zone z s
        else slab_unlock () s
      })
      })"

definition slab_realloc_move :: "ptr \<Rightarrow> u32 \<Rightarrow> u32 \<Rightarrow> slab \<Rightarrow> (ptr pending \<times> slab) option" where
  "slab_realloc_move p sz osize s =
     then_do (rt_malloc_slab sz s) (\<lambda>nptr s.
       if nptr = RT_NULL then Some (Now RT_NULL, s)
       else do {
         m \<leftarrow> rt_memcpy nptr p (unat (if sz > osize then osize else sz)) (bmem (sk s));
         then_do (rt_free_slab p (s\<lparr>sk := (sk s)\<lparr>bmem := m\<rparr>\<rparr>)) (\<lambda>_ s. Some (Now nptr, s))
       })"

definition rt_realloc_slab :: "ptr \<Rightarrow> u32 \<Rightarrow> slab \<Rightarrow> (ptr pending \<times> slab) option" where
  "rt_realloc_slab p sz s =
     (if p = RT_NULL then rt_malloc_slab sz s
      else if sz = 0 then then_do (rt_free_slab p s) (\<lambda>_ s. Some (Now RT_NULL, s))
      else do {
      C_GUARD (sl_start s \<le> p);
      let (t, n) = memusage s (page_index p s);
      case t of
        PAGE_TYPE_LARGE \<Rightarrow> slab_realloc_move p sz (of_nat (n * RT_MM_PAGE_SIZE)) s
      | PAGE_TYPE_SMALL \<Rightarrow> do {
          let z = p div RT_MM_PAGE_SIZE * RT_MM_PAGE_SIZE - n * RT_MM_PAGE_SIZE;
          RT_ASSERT (z_magic (zones s z) = ZALLOC_SLAB_MAGIC);
          let sz = snd (zoneindex sz);
          if z_chunksize (zones s z) = sz then Some (Now p, s)
          else slab_realloc_move p sz (z_chunksize (zones s z)) s
        }
      | PAGE_TYPE_FREE \<Rightarrow> Some (Now RT_NULL, s)
      })"

definition rt_calloc_slab :: "u32 \<Rightarrow> u32 \<Rightarrow> slab \<Rightarrow> (ptr pending \<times> slab) option" where
  "rt_calloc_slab count sz s =
     then_do (rt_malloc_slab (count * sz) s) (\<lambda>p s.
       Some (Now p, if p \<noteq> RT_NULL then s\<lparr>sk := (sk s)\<lparr>bmem := rt_memset p 0 (unat (count * sz)) (bmem (sk s))\<rparr>\<rparr> else s))"

definition rt_memory_info_slab :: "slab \<Rightarrow> u32 \<times> u32 \<times> u32" where
  "rt_memory_info_slab s = (of_nat (sl_end s - sl_start s), sl_used s, sl_max s)"

subsection \<open>Runs of free pages\<close>

text \<open>
  A run is the address of its first page and its number of pages. A page list is sound if its runs are page-aligned, ordered
  and separated by gaps, so that no two of them could be fused.
\<close>

type_synonym run = "ptr \<times> nat"

fun runs_from :: "slab \<Rightarrow> ptr \<Rightarrow> run list \<Rightarrow> bool" where
  "runs_from s a [] \<longleftrightarrow> a = RT_NULL"
| "runs_from s a ((b, c) # rs) \<longleftrightarrow> a = b \<and> b \<noteq> RT_NULL \<and> pg_page (page_heads s b) = c \<and> runs_from s (pg_next (page_heads s b)) rs"

definition run_pages :: "run \<Rightarrow> ptr set" where
  "run_pages r = (\<lambda>i. fst r + i * RT_MM_PAGE_SIZE) ` {..<snd r}"

definition all_pages :: "run list \<Rightarrow> ptr set" where
  "all_pages rs = (\<Union>r \<in> set rs. run_pages r)"

fun gaps :: "run list \<Rightarrow> bool" where
  "gaps [] \<longleftrightarrow> True"
| "gaps ((b, c) # rs) \<longleftrightarrow> 0 < c \<and> b mod RT_MM_PAGE_SIZE = 0 \<and> (\<forall>r \<in> set rs. b + c * RT_MM_PAGE_SIZE < fst r) \<and> gaps rs"

fun alloc_runs :: "nat \<Rightarrow> run list \<Rightarrow> ptr \<times> run list" where
  "alloc_runs n [] = (RT_NULL, [])"
| "alloc_runs n ((b, c) # rs) =
     (if c > n then (b, (b + n * RT_MM_PAGE_SIZE, c - n) # rs)
      else if c = n then (b, rs)
      else let (x, rs) = alloc_runs n rs in (x, (b, c) # rs))"

fun free_runs :: "ptr \<Rightarrow> nat \<Rightarrow> run list \<Rightarrow> run list" where
  "free_runs a n [] = [(a, n)]"
| "free_runs a n ((b, c) # rs) =
     (if b + c * RT_MM_PAGE_SIZE = a then
        (case rs of (b', c') # rs' \<Rightarrow> if b + (c + n) * RT_MM_PAGE_SIZE = b' then (b, c + n + c') # rs' else (b, c + n) # rs
         | [] \<Rightarrow> [(b, c + n)])
      else if b = a + n * RT_MM_PAGE_SIZE then (a, c + n) # rs
      else if b > a + n * RT_MM_PAGE_SIZE then (a, n) # (b, c) # rs
      else (b, c) # free_runs a n rs)"

lemma all_pages_simps [simp]: "all_pages [] = {}" "all_pages (r # rs) = run_pages r \<union> all_pages rs"
  by (simp_all add: all_pages_def)

lemma run_pages_add: "run_pages (b, n + c) = run_pages (b, n) \<union> run_pages (b + n * RT_MM_PAGE_SIZE, c)"
proof -
  have "{..<n + c} = {..<n} \<union> (\<lambda>i. n + i) ` {..<c}"
  proof (intro set_eqI iffI)
    fix i assume "i \<in> {..<n + c}"
    then show "i \<in> {..<n} \<union> (\<lambda>i. n + i) ` {..<c}" by (cases "i < n") (auto intro: image_eqI [of _ _ "i - n"])
  qed auto
  then show ?thesis by (simp add: run_pages_def image_Un image_image algebra_simps)
qed

lemma run_pages_bounds: "x \<in> run_pages (b, c) \<Longrightarrow> b \<le> x \<and> x < b + c * RT_MM_PAGE_SIZE"
  by (auto simp: run_pages_def)

lemma gaps_pages: "gaps rs \<Longrightarrow> x \<in> all_pages rs \<Longrightarrow> (\<forall>r \<in> set rs. y < fst r) \<Longrightarrow> y < x"
  by (fastforce simp: all_pages_def dest!: run_pages_bounds)

lemma gaps_heads: "gaps rs \<Longrightarrow> distinct (map fst rs) \<and> (\<forall>r \<in> set rs. fst r mod RT_MM_PAGE_SIZE = 0 \<and> 0 < snd r)"
  by (induction rs rule: gaps.induct) auto

lemma alloc_runs_ok:
  assumes "gaps rs" "0 < n" "alloc_runs n rs = (x, rs')" "\<forall>r \<in> set rs. fst r \<noteq> RT_NULL"
  shows "gaps rs' \<and> (if x = RT_NULL then rs' = rs \<and> (\<forall>r \<in> set rs. snd r < n)
     else run_pages (x, n) \<subseteq> all_pages rs \<and> all_pages rs' = all_pages rs - run_pages (x, n) \<and> x mod RT_MM_PAGE_SIZE = 0)
     \<and> (\<forall>y. (\<forall>r \<in> set rs. y < fst r) \<longrightarrow> (\<forall>r \<in> set rs'. y < fst r))"
  using assms
proof (induction rs arbitrary: x rs' rule: gaps.induct)
  case (2 b c rs)
  have dis: "run_pages (b, c) \<inter> all_pages rs = {}"
    using gaps_pages [of rs _ "b + c * RT_MM_PAGE_SIZE"] 2(2) run_pages_bounds [of _ b c] by fastforce
  consider "c > n" | "c = n" | "c < n" by linarith
  then show ?case
  proof cases
    case 1
    let ?m = "b + n * RT_MM_PAGE_SIZE"
    have e: "x = b" "rs' = (?m, c - n) # rs" using 1 2(4) by auto
    have p: "run_pages (b, c) = run_pages (b, n) \<union> run_pages (?m, c - n)" using run_pages_add [of b n "c - n"] 1 by simp
    have d: "run_pages (b, n) \<inter> run_pages (?m, c - n) = {}" by (auto dest!: run_pages_bounds)
    have "?m + (c - n) * RT_MM_PAGE_SIZE = b + c * RT_MM_PAGE_SIZE" using 1 by (simp add: diff_mult_distrib)
    then show ?thesis using 1 2(2,5) e p d dis by auto
  next
    case 2
    then show ?thesis using "2.prems" dis by auto
  next
    case 3
    obtain y rs1 where r: "alloc_runs n rs = (y, rs1)" by fastforce
    have e: "x = y" "rs' = (b, c) # rs1" using 3 2(4) r by auto
    have ih: "gaps rs1 \<and> (if y = RT_NULL then rs1 = rs \<and> (\<forall>r \<in> set rs. snd r < n)
      else run_pages (y, n) \<subseteq> all_pages rs \<and> all_pages rs1 = all_pages rs - run_pages (y, n) \<and> y mod RT_MM_PAGE_SIZE = 0)
     \<and> (\<forall>z. (\<forall>r \<in> set rs. z < fst r) \<longrightarrow> (\<forall>r \<in> set rs1. z < fst r))"
      using 2(1) [OF _ 2(3) r] 2(2,5) by auto
    show ?thesis
    proof (cases "y = RT_NULL")
      case True
      then show ?thesis using ih e 3 2(2) by auto
    next
      case False
      then have "run_pages (y, n) \<inter> run_pages (b, c) = {}" using ih dis by auto
      then show ?thesis using ih e False 2(2) by auto
    qed
  qed
qed auto

lemma aligned_in_run:
  assumes "b mod RT_MM_PAGE_SIZE = 0" "a mod RT_MM_PAGE_SIZE = 0" "b \<le> a" "a < b + c * RT_MM_PAGE_SIZE"
  shows "a \<in> run_pages (b, c)"
proof -
  have "RT_MM_PAGE_SIZE dvd a - b" using assms(1-3) by (simp add: mod_eq_dvd_iff_nat [symmetric])
  then obtain i where i: "a - b = RT_MM_PAGE_SIZE * i" ..
  then have "a = b + i * RT_MM_PAGE_SIZE" "i < c" using assms(3,4) by auto
  then show ?thesis by (auto simp: run_pages_def)
qed

text \<open>Two disjoint runs lie one behind the other.\<close>

lemma runs_apart:
  assumes "b mod RT_MM_PAGE_SIZE = 0" "a mod RT_MM_PAGE_SIZE = 0" "0 < n" "0 < c" "run_pages (a, n) \<inter> run_pages (b, c) = {}"
  shows "b + c * RT_MM_PAGE_SIZE \<le> a \<or> a + n * RT_MM_PAGE_SIZE \<le> b"
proof (rule ccontr)
  assume c: "\<not> ?thesis"
  have "a \<in> run_pages (a, n)" "b \<in> run_pages (b, c)" using assms(3,4) by (auto simp: run_pages_def intro!: image_eqI [of _ _ 0])
  moreover have "a \<in> run_pages (b, c) \<or> b \<in> run_pages (a, n)"
    using c aligned_in_run [OF assms(1,2)] aligned_in_run [OF assms(2,1)] by (cases "b \<le> a") auto
  ultimately show False using assms(5) by blast
qed

lemma free_runs_ok:
  assumes "gaps rs" "0 < n" "a mod RT_MM_PAGE_SIZE = 0" "run_pages (a, n) \<inter> all_pages rs = {}"
  shows "gaps (free_runs a n rs) \<and> all_pages (free_runs a n rs) = run_pages (a, n) \<union> all_pages rs
     \<and> (\<forall>y. y < a \<and> (\<forall>r \<in> set rs. y < fst r) \<longrightarrow> (\<forall>r \<in> set (free_runs a n rs). y < fst r))"
  using assms
proof (induction rs rule: gaps.induct)
  case (2 b c rs)
  let ?P = RT_MM_PAGE_SIZE
  have bc: "0 < c" "b mod ?P = 0" "\<forall>r \<in> set rs. b + c * ?P < fst r" "gaps rs" using 2(2) by auto
  have apart: "b + c * ?P \<le> a \<or> a + n * ?P \<le> b" by (rule runs_apart [OF bc(2) 2(4,3) bc(1)]) (use 2(5) in auto)
  consider "b + c * ?P = a" | "b = a + n * ?P" | "a + n * ?P < b" | "b + c * ?P < a" using apart by linarith
  then show ?case
  proof cases
    case 1
    have f: "run_pages (b, c + n) = run_pages (b, c) \<union> run_pages (a, n)" using run_pages_add [of b c n] 1 by simp
    show ?thesis
    proof (cases rs)
      case Nil
      then show ?thesis using 1 bc f 2(3) by auto
    next
      case (Cons r rs')
      obtain b' c' where r: "r = (b', c')" by fastforce
      have b': "0 < c'" "b' mod ?P = 0" "\<forall>r \<in> set rs'. b' + c' * ?P < fst r" "gaps rs'" "a < b'"
        using bc(3,4) 1 Cons r by auto
      have "b' + c' * ?P \<le> a \<or> a + n * ?P \<le> b'"
        by (rule runs_apart [OF b'(2) 2(4,3) b'(1)]) (use 2(5) Cons r in auto)
      then have le: "b + (c + n) * ?P \<le> b'" using b'(5) 1 by (simp add: algebra_simps)
      show ?thesis
      proof (cases "b + (c + n) * ?P = b'")
        case True
        have g: "run_pages (b, c + n + c') = run_pages (b, c + n) \<union> run_pages (b', c')"
          using run_pages_add [of b "c + n" c'] True by simp
        have e: "free_runs a n ((b, c) # rs) = (b, c + n + c') # rs'" using 1 Cons r True by simp
        have "b + (c + n + c') * ?P = b' + c' * ?P" using True by (simp add: algebra_simps)
        then show ?thesis unfolding e using f g Cons r bc b' by auto
      next
        case False
        then have lt: "b + (c + n) * ?P < b'" using le by simp
        have e: "free_runs a n ((b, c) # rs) = (b, c + n) # rs" using 1 Cons r False by simp
        have "\<forall>q \<in> set rs. b + (c + n) * ?P < fst q" using lt b'(3) Cons r by fastforce
        then show ?thesis unfolding e using f bc by auto
      qed
    qed
  next
    case 2
    have f: "run_pages (a, c + n) = run_pages (a, n) \<union> run_pages (b, c)" using run_pages_add [of a n c] 2 by (simp add: add.commute)
    have e: "free_runs a n ((b, c) # rs) = (a, c + n) # rs" using 2 "2.prems"(2) bc(1) by simp
    have "a + (c + n) * ?P = b + c * ?P" using 2 by (simp add: algebra_simps)
    then show ?thesis unfolding e using f bc "2.prems"(3) by auto
  next
    case 3
    have e: "free_runs a n ((b, c) # rs) = (a, n) # (b, c) # rs" using 3 by simp
    have "\<forall>q \<in> set rs. a + n * ?P < fst q" using 3 bc(3) by fastforce
    then show ?thesis unfolding e using 3 bc "2.prems"(2,3) by auto
  next
    case 4
    have e: "free_runs a n ((b, c) # rs) = (b, c) # free_runs a n rs" using 4 by simp
    have "gaps (free_runs a n rs) \<and> all_pages (free_runs a n rs) = run_pages (a, n) \<union> all_pages rs
     \<and> (\<forall>y. y < a \<and> (\<forall>r \<in> set rs. y < fst r) \<longrightarrow> (\<forall>r \<in> set (free_runs a n rs). y < fst r))"
      using "2.IH" bc(4) "2.prems"(2-4) by auto
    then show ?thesis unfolding e using 4 bc by auto
  qed
qed auto

lemma free_alloc_runs:
  assumes "gaps rs" "0 < n" "alloc_runs n rs = (x, rs')" "x \<noteq> RT_NULL" 
  shows "free_runs x n rs' = rs \<and> (\<exists>r \<in> set rs. fst r = x)"
  using assms
proof (induction rs arbitrary: x rs' rule: gaps.induct)
  case (2 b c rs)
  let ?P = RT_MM_PAGE_SIZE
  consider "c > n" | "c = n" | "c < n" by linarith
  then show ?case
  proof cases
    case 1
    then have "x = b" "rs' = (b + n * ?P, c - n) # rs" using 2(4) by auto
    then show ?thesis using 1 by auto
  next
    case 2
    then have e: "x = b" "rs' = rs" using "2.prems"(3) by auto
    have h: "\<forall>r \<in> set rs. b + c * ?P < fst r" using "2.prems"(1) by simp
    have "free_runs b n rs = (b, n) # rs"
    proof (cases rs)
      case (Cons r rs1)
      then show ?thesis using h 2 by (cases r) auto
    qed simp
    then show ?thesis using e 2 by auto
  next
    case 3
    obtain y rs1 where r: "alloc_runs n rs = (y, rs1)" by fastforce
    have e: "x = y" "rs' = (b, c) # rs1" using 3 2(4) r by auto
    have ih: "free_runs y n rs1 = rs" "\<exists>r \<in> set rs. fst r = y" using 2(1) [OF _ 2(3) r] 2(2,5) e(1) by auto
    then have "b + c * ?P < y" using 2(2) by auto
    then show ?thesis using e ih by auto
  qed
qed auto

subsection \<open>The page list\<close>

text \<open>
  What the loops leave alone: everything but the runs from \<open>lo\<close> on, the field \<open>prev\<close> and, if that is the
  head of the list, the head.
\<close>

definition page_frame :: "ptr option \<Rightarrow> ptr \<Rightarrow> slab \<Rightarrow> slab \<Rightarrow> bool" where
  "page_frame prev lo s s' \<longleftrightarrow> s' = s\<lparr>page_heads := page_heads s', rt_page_list := rt_page_list s'\<rparr>
     \<and> (\<forall>p. prev = Some p \<longrightarrow> rt_page_list s' = rt_page_list s \<and> pg_page (page_heads s' p) = pg_page (page_heads s p))
     \<and> (\<forall>a < lo. prev \<noteq> Some a \<longrightarrow> page_heads s' a = page_heads s a)"

definition below :: "ptr option \<Rightarrow> ptr \<Rightarrow> run list \<Rightarrow> bool" where
  "below prev lo rs \<longleftrightarrow> (\<forall>p. prev = Some p \<longrightarrow> p < lo) \<and> (\<forall>r \<in> set rs. lo \<le> fst r)"

lemma runs_from_cong:
  "(\<And>r. r \<in> set rs \<Longrightarrow> page_heads s' (fst r) = page_heads s (fst r)) \<Longrightarrow> runs_from s' a rs = runs_from s a rs"
proof (induction rs arbitrary: a)
  case (Cons r rs)
  obtain b c where r: "r = (b, c)" by fastforce
  have "page_heads s' b = page_heads s b" using Cons.prems [of r] r by simp
  moreover have "runs_from s' (pg_next (page_heads s b)) rs = runs_from s (pg_next (page_heads s b)) rs"
    by (rule Cons.IH) (use Cons.prems in simp)
  ultimately show ?case using r by simp
qed simp

lemma upd_page_simps [simp]:
  "page_heads (upd_page a f s) = (page_heads s)(a := f (page_heads s a))" "rt_page_list (upd_page a f s) = rt_page_list s"
  by (simp_all add: upd_page_def)

lemma page_frame_upd: "lo \<le> n \<Longrightarrow> (\<forall>p. prev = Some p \<longrightarrow> p < lo) \<Longrightarrow> page_frame prev lo s (set_page_at prev x (upd_page n f s))"
  by (cases prev) (auto simp: page_frame_def set_page_at_def upd_page_def)

lemma page_frame_set: "page_frame prev lo s (set_page_at prev x s)"
  by (cases prev) (auto simp: page_frame_def set_page_at_def upd_page_def)

text \<open>Inserting the run \<open>(n, c)\<close> with the successor \<open>x\<close> at \<open>prev\<close>.\<close>

lemma runs_from_insert:
  assumes "runs_from s x rs" "below prev lo rs" "lo \<le> n" "n \<noteq> RT_NULL" "\<forall>r \<in> set rs. fst r \<noteq> n"
    and f: "pg_page (f (page_heads s n)) = c" "pg_next (f (page_heads s n)) = x"
    and s': "s' = set_page_at prev n (upd_page n f s)"
  shows "runs_from s' (page_at prev s') ((n, c) # rs) \<and> page_frame prev lo s s'"
proof -
  have np: "prev \<noteq> Some n" "\<forall>p. prev = Some p \<longrightarrow> p < lo" using assms(2,3) by (auto simp: below_def)
  have h: "page_heads s' n = f (page_heads s n)"
    using np by (auto simp: s' set_page_at_def split: option.splits)
  have "page_heads s' (fst r) = page_heads s (fst r)" if "r \<in> set rs" for r
    using that assms(2,5) by (auto simp: s' set_page_at_def below_def split: option.splits)
  then have "runs_from s' x rs" using assms(1) runs_from_cong by blast
  moreover have "page_at prev s' = n" by (auto simp: s' page_at_def set_page_at_def split: option.splits)
  ultimately show ?thesis using h assms(4) f page_frame_upd [OF assms(3) np(2)] s' by simp
qed

lemma runs_from_skip:
  assumes "runs_from s' (page_at (Some b) s') rs'" "page_frame (Some b) (b + 1) s s'" "page_at prev s = b" "b \<noteq> RT_NULL"
    "pg_page (page_heads s b) = c" "below prev lo ((b, c) # rs)"
  shows "runs_from s' (page_at prev s') ((b, c) # rs') \<and> page_frame prev lo s s'"
proof -
  have f: "rt_page_list s' = rt_page_list s" "pg_page (page_heads s' b) = c" "\<And>a. a < b \<Longrightarrow> page_heads s' a = page_heads s a"
    "s' = s\<lparr>page_heads := page_heads s', rt_page_list := rt_page_list s'\<rparr>"
    using assms(2,5) by (auto simp: page_frame_def)
  have lt: "\<And>p. prev = Some p \<Longrightarrow> p < b" "lo \<le> b" using assms(6) by (auto simp: below_def)
  have "page_at prev s' = b" using assms(3) f(1,3) lt(1) by (auto simp: page_at_def split: option.splits)
  then have "runs_from s' (page_at prev s') ((b, c) # rs')" using assms(1,4) f(2) by (simp add: page_at_def)
  moreover have "page_frame prev lo s s'" unfolding page_frame_def
    using f lt by (auto intro!: f(4))
  ultimately show ?thesis by blast
qed

lemma page_alloc_loop_ok:
  assumes "runs_from s (page_at prev s) rs" "gaps rs" "0 < n" "below prev lo rs" "alloc_runs n rs = (x, rs')"
  shows "\<exists>s'. page_alloc_loop n prev s = Some (x, s') \<and> runs_from s' (page_at prev s') rs' \<and> page_frame prev lo s s'"
  using assms
proof (induction rs arbitrary: prev lo x rs')
  case Nil
  then show ?case by (subst page_alloc_loop.simps) (auto simp: page_frame_def)
next
  case (Cons r rs)
  let ?P = RT_MM_PAGE_SIZE
  obtain b c where r: "r = (b, c)" by fastforce
  have b: "page_at prev s = b" "b \<noteq> RT_NULL" "pg_page (page_heads s b) = c" "runs_from s (pg_next (page_heads s b)) rs"
    using Cons.prems(1) r by auto
  have g: "0 < c" "\<forall>q \<in> set rs. b + c * ?P < fst q" "gaps rs" using Cons.prems(2) r by auto
  have lo: "lo \<le> b" "\<forall>p. prev = Some p \<longrightarrow> p < lo" "below prev lo rs" using Cons.prems(4) r by (auto simp: below_def)
  consider "c > n" | "c = n" | "c < n" by linarith
  then show ?case
  proof cases
    case 1
    let ?m = "b + n * ?P" and ?x = "pg_next (page_heads s b)"
    let ?f = "\<lambda>h. h\<lparr>pg_next := ?x, pg_page := c - n\<rparr>"
    let ?s = "set_page_at prev ?m (upd_page ?m ?f s)"
    have "upd_page ?m (\<lambda>h. h\<lparr>pg_page := pg_page (page_heads (upd_page ?m (\<lambda>h. h\<lparr>pg_next := ?x\<rparr>) s) b) - n\<rparr>)
        (upd_page ?m (\<lambda>h. h\<lparr>pg_next := ?x\<rparr>) s) = upd_page ?m ?f s"
      using Cons.prems(3) b(3) by (simp add: upd_page_def)
    then have "page_alloc_loop n prev s = Some (b, ?s)"
      using 1 b(1-3) by (subst page_alloc_loop.simps) (simp add: Let_def)
    moreover have "runs_from ?s (page_at prev ?s) ((?m, c - n) # rs) \<and> page_frame prev lo s ?s"
    proof (rule runs_from_insert [OF b(4) lo(3) _ _ _ _ _ refl])
      have "?m < b + c * ?P" using 1 by simp
      then show "\<forall>q \<in> set rs. fst q \<noteq> ?m" using g(2) by fastforce
    qed (use lo(1) b(2) in auto)
    ultimately show ?thesis using Cons.prems(5) r 1 by auto
  next
    case 2
    let ?s = "set_page_at prev (pg_next (page_heads s b)) s"
    have "page_alloc_loop n prev s = Some (b, ?s)"
      using 2 b(1-3) by (subst page_alloc_loop.simps) (simp add: Let_def)
    moreover have "page_heads ?s (fst q) = page_heads s (fst q)" if "q \<in> set rs" for q
      using that lo(3) by (auto simp: set_page_at_def below_def split: option.splits)
    then have "runs_from ?s (pg_next (page_heads s b)) rs" using b(4) runs_from_cong by blast
    then have "runs_from ?s (page_at prev ?s) rs" by (auto simp: page_at_def set_page_at_def split: option.splits)
    ultimately show ?thesis using Cons.prems(5) r 2 page_frame_set by auto
  next
    case 3
    obtain y rs1 where a: "alloc_runs n rs = (y, rs1)" by fastforce
    have bl: "below (Some b) (b + 1) rs" using g(2) by (fastforce simp: below_def)
    from Cons.IH [OF _ g(3) Cons.prems(3) bl a] b(4)
    obtain s' where s': "page_alloc_loop n (Some b) s = Some (y, s')" "runs_from s' (page_at (Some b) s') rs1" "page_frame (Some b) (b + 1) s s'"
      by (auto simp: page_at_def)
    have "page_alloc_loop n prev s = Some (y, s')"
      using 3 b(1-3) s'(1) by (subst page_alloc_loop.simps) (simp add: Let_def)
    moreover have "runs_from s' (page_at prev s') ((b, c) # rs1) \<and> page_frame prev lo s s'"
      by (rule runs_from_skip [OF s'(2,3) b(1-3) Cons.prems(4) [unfolded r]])
    ultimately show ?thesis using Cons.prems(5) r 3 a by auto
  qed
qed

lemma runs_from_grow:
  assumes "page_at prev s = b" "b \<noteq> RT_NULL" "below prev lo ((b, c) # rs)" "runs_from s x rs'" "\<forall>r \<in> set rs'. fst r \<noteq> b"
    and f: "pg_page (f (page_heads s b)) = c'" "pg_next (f (page_heads s b)) = x"
  shows "runs_from (upd_page b f s) (page_at prev (upd_page b f s)) ((b, c') # rs') \<and> page_frame prev lo s (upd_page b f s)"
proof -
  let ?s = "upd_page b f s"
  have np: "\<forall>p. prev = Some p \<longrightarrow> p < b" "lo \<le> b" using assms(3) by (auto simp: below_def)
  have "runs_from ?s x rs'" using assms(4) runs_from_cong [of rs' ?s s x] assms(5) by simp
  moreover have "page_at prev ?s = b" using assms(1) np by (auto simp: page_at_def split: option.splits)
  moreover have "page_frame prev lo s ?s" using np by (auto simp: page_frame_def upd_page_def)
  ultimately show ?thesis using assms(2) f by simp
qed

text \<open>Freed pages right behind a free run extend it, and fuse it with the next one if they fill the gap.\<close>

lemma page_free_behind:
  assumes b: "page_at prev s = b" "b \<noteq> RT_NULL" "pg_page (page_heads s b) = c" "runs_from s (pg_next (page_heads s b)) rs"
    and "0 < c" "below prev lo ((b, c) # rs)" and nin: "\<forall>q \<in> set rs. fst q \<noteq> b" and "b + c * RT_MM_PAGE_SIZE = a"
  shows "\<exists>s'. page_free_loop a n prev s = Some s' \<and> runs_from s' (page_at prev s') (free_runs a n ((b, c) # rs)) \<and> page_frame prev lo s s'"
proof -
  let ?P = RT_MM_PAGE_SIZE
  have asrt: "b > a \<or> b + c * ?P \<le> a" using assms(8) by simp
  let ?f = "\<lambda>h. h\<lparr>pg_page := pg_page h + n\<rparr>" and ?x = "pg_next (page_heads s b)"
  let ?s = "upd_page b ?f s"
  let ?g = "\<lambda>h. h\<lparr>pg_page := pg_page h + pg_page (page_heads ?s ?x), pg_next := pg_next (page_heads ?s ?x)\<rparr>"
  have l: "page_free_loop a n prev s = Some (if b + (c + n) * ?P = ?x then upd_page b ?g ?s else ?s)"
    using assms(8) b asrt assms(5) by (subst page_free_loop.simps) (simp add: Let_def)
  show ?thesis
  proof (cases "b + (c + n) * ?P = ?x")
    case False
    have "free_runs a n ((b, c) # rs) = (b, c + n) # rs" using assms(8) False b(4) by (cases rs) auto
    moreover have "runs_from ?s (page_at prev ?s) ((b, c + n) # rs) \<and> page_frame prev lo s ?s"
      by (rule runs_from_grow [OF b(1,2) assms(6) b(4) nin]) (simp_all add: b(3))
    ultimately show ?thesis using l False by simp
  next
    case True
    then have "?x \<noteq> RT_NULL" using b(2) by simp
    then obtain c' rs' where rs: "rs = (?x, c') # rs'" using b(4) by (cases rs) auto
    then have x: "pg_page (page_heads s ?x) = c'" "runs_from s (pg_next (page_heads s ?x)) rs'" "?x \<noteq> b"
      using b(4) nin by auto
    have e: "free_runs a n ((b, c) # rs) = (b, c + n + c') # rs'" using assms(8) True rs by simp
    have "upd_page b ?g ?s = upd_page b (\<lambda>h. ?g (?f h)) s" by (simp add: upd_page_def)
    moreover have "runs_from (upd_page b (\<lambda>h. ?g (?f h)) s) (page_at prev (upd_page b (\<lambda>h. ?g (?f h)) s)) ((b, c + n + c') # rs')
        \<and> page_frame prev lo s (upd_page b (\<lambda>h. ?g (?f h)) s)"
      by (rule runs_from_grow [OF b(1,2) assms(6) x(2)]) (use nin rs x b(3) in auto)
    ultimately show ?thesis using l True e by simp
  qed
qed

lemma page_free_loop_ok:
  assumes "runs_from s (page_at prev s) rs" "gaps rs" "0 < n" "a mod RT_MM_PAGE_SIZE = 0" "a \<noteq> RT_NULL"
    "run_pages (a, n) \<inter> all_pages rs = {}" "below prev lo rs" "lo \<le> a" "\<forall>p. prev = Some p \<longrightarrow> p < lo"
  shows "\<exists>s'. page_free_loop a n prev s = Some s' \<and> runs_from s' (page_at prev s') (free_runs a n rs) \<and> page_frame prev lo s s'"
  using assms
proof (induction rs arbitrary: prev lo)
  case Nil
  let ?s = "set_page_at prev a (upd_page a (\<lambda>h. h\<lparr>pg_page := n, pg_next := RT_NULL\<rparr>) s)"
  have "page_free_loop a n prev s = Some ?s" using Nil by (subst page_free_loop.simps) (simp add: Let_def)
  moreover have "runs_from ?s (page_at prev ?s) [(a, n)] \<and> page_frame prev lo s ?s"
    by (rule runs_from_insert [OF _ _ _ _ _ _ _ refl]) (use Nil in auto)
  ultimately show ?case by auto
next
  case (Cons r rs)
  let ?P = RT_MM_PAGE_SIZE
  obtain b c where r: "r = (b, c)" by fastforce
  have b: "page_at prev s = b" "b \<noteq> RT_NULL" "pg_page (page_heads s b) = c" "runs_from s (pg_next (page_heads s b)) rs"
    using Cons.prems(1) r by auto
  have g: "0 < c" "b mod ?P = 0" "\<forall>q \<in> set rs. b + c * ?P < fst q" "gaps rs" using Cons.prems(2) r by auto
  have bel: "below prev lo ((b, c) # rs)" "below prev lo rs" using Cons.prems(7) r by (auto simp: below_def)
  have apart: "b + c * ?P \<le> a \<or> a + n * ?P \<le> b"
    by (rule runs_apart [OF g(2) Cons.prems(4,3) g(1)]) (use Cons.prems(6) r in auto)
  have asrt: "b > a \<or> b + c * ?P \<le> a" using apart Cons.prems(3) by auto
  have nin: "\<forall>q \<in> set rs. fst q \<noteq> b" using g(3) by fastforce
  consider "b + c * ?P = a" | "b = a + n * ?P" | "a + n * ?P < b" | "b + c * ?P < a" using apart by linarith
  then show ?case
  proof cases
    case 1
    then show ?thesis using page_free_behind [OF b g(1) bel(1) nin] r by simp
  next
    case 2
    let ?f = "\<lambda>h. h\<lparr>pg_page := c + n, pg_next := pg_next (page_heads s b)\<rparr>"
    let ?s = "set_page_at prev a (upd_page a ?f s)"
    have "page_free_loop a n prev s = Some ?s"
      using 2 b asrt g(1) Cons.prems(3) by (subst page_free_loop.simps) (simp add: Let_def)
    moreover have "runs_from ?s (page_at prev ?s) ((a, c + n) # rs) \<and> page_frame prev lo s ?s"
      by (rule runs_from_insert [OF b(4) bel(2) Cons.prems(8,5) _ _ _ refl]) (use g(3) 2 in auto)
    ultimately show ?thesis using r 2 Cons.prems(3) g(1) by simp
  next
    case 3
    let ?f = "\<lambda>h. h\<lparr>pg_page := n, pg_next := b\<rparr>"
    let ?s = "set_page_at prev a (upd_page a ?f s)"
    have "page_free_loop a n prev s = Some ?s"
      using 3 b asrt g(1) by (subst page_free_loop.simps) (simp add: Let_def)
    moreover have "runs_from ?s (page_at prev ?s) ((a, n) # (b, c) # rs) \<and> page_frame prev lo s ?s"
      by (rule runs_from_insert [OF _ bel(1) Cons.prems(8,5) _ _ _ refl]) (use b g(3) 3 in auto)
    ultimately show ?thesis using r 3 by simp
  next
    case 4
    have bl: "below (Some b) (b + 1) rs" using g(3) by (fastforce simp: below_def)
    have "run_pages (a, n) \<inter> all_pages rs = {}" "b + 1 \<le> a" using Cons.prems(6) 4 by auto
    from Cons.IH [OF _ g(4) Cons.prems(3-5) this(1) bl this(2)] b(4)
    obtain s' where s': "page_free_loop a n (Some b) s = Some s'" "runs_from s' (page_at (Some b) s') (free_runs a n rs)"
      "page_frame (Some b) (b + 1) s s'"
      by (auto simp: page_at_def)
    have "page_free_loop a n prev s = Some s'"
      using 4 b asrt g(1) s'(1) by (subst page_free_loop.simps) (simp add: Let_def)
    moreover have "runs_from s' (page_at prev s') ((b, c) # free_runs a n rs) \<and> page_frame prev lo s s'"
      by (rule runs_from_skip [OF s'(2,3) b(1-3) bel(1)])
    ultimately show ?thesis using r 4 by simp
  qed
qed

subsection \<open>Allocating and freeing pages\<close>

definition page_ok :: "slab \<Rightarrow> run list \<Rightarrow> bool" where
  "page_ok s rs \<longleftrightarrow> runs_from s (rt_page_list s) rs \<and> gaps rs"

definition only_pages :: "slab \<Rightarrow> slab \<Rightarrow> bool" where
  "only_pages s s' \<longleftrightarrow> s' = s\<lparr>page_heads := page_heads s', rt_page_list := rt_page_list s'\<rparr>"

lemma slab_locked:
  assumes "heap_free (sk s) (heap_sem s)"
  obtains k1 where "slab_lock s = Some (Now (), s\<lparr>sk := k1\<rparr>)"
    "rt_sem_release (heap_sem s) k1 = Some (RT_EOK, sk s)"
proof -
  from heap_lock [OF assms, of RT_WAITING_FOREVER] obtain k1 where
    "rt_sem_take (heap_sem s) RT_WAITING_FOREVER (sk s) = Some (Done RT_EOK, k1)" "rt_sem_release (heap_sem s) k1 = Some (RT_EOK, sk s)"
    by blast
  then show ?thesis using that [of k1] by (simp add: slab_lock_def)
qed

lemma runs_from_sk [simp]: "runs_from (s\<lparr>sk := k\<rparr>) a rs = runs_from s a rs"
  by (rule runs_from_cong) simp

lemma runs_not_null: "runs_from s a rs \<Longrightarrow> r \<in> set rs \<Longrightarrow> fst r \<noteq> RT_NULL"
  by (induction rs arbitrary: a) auto

lemma page_frame_none: "page_frame None lo s s' \<Longrightarrow> only_pages s s'"
  by (simp add: page_frame_def only_pages_def)

lemma only_pages_sk: "only_pages (s\<lparr>sk := k\<rparr>) s' \<Longrightarrow> sk s' = k \<and> heap_sem s' = heap_sem s \<and> only_pages s (s'\<lparr>sk := sk s\<rparr>)"
  unfolding only_pages_def by (cases s; cases s') auto

lemma page_alloc_ok:
  assumes "heap_free (sk s) (heap_sem s)" "page_ok s rs" "0 < n" "alloc_runs n rs = (x, rs')"
  shows "\<exists>s'. rt_page_alloc n s = Some (Now x, s') \<and> runs_from s' (rt_page_list s') rs' \<and> only_pages s s'"
proof -
  obtain k1 where k1: "slab_lock s = Some (Now (), s\<lparr>sk := k1\<rparr>)"
    "rt_sem_release (heap_sem s) k1 = Some (RT_EOK, sk s)"
    using slab_locked [OF assms(1)] by blast
  have "runs_from (s\<lparr>sk := k1\<rparr>) (page_at None (s\<lparr>sk := k1\<rparr>)) rs" "gaps rs" "below None 0 rs"
    using assms(2) by (simp_all add: page_ok_def page_at_def below_def)
  from page_alloc_loop_ok [OF this(1,2) assms(3) this(3) assms(4)] obtain s1 where
    s1: "page_alloc_loop n None (s\<lparr>sk := k1\<rparr>) = Some (x, s1)" "runs_from s1 (rt_page_list s1) rs'" "only_pages (s\<lparr>sk := k1\<rparr>) s1"
    by (auto simp: page_at_def dest: page_frame_none)
  note o = only_pages_sk [OF s1(3)]
  have "rt_page_alloc n s = Some (Now x, s1\<lparr>sk := sk s\<rparr>)"
    using assms(3) k1 s1(1) o by (simp add: slab_unlock_def rt_page_alloc_def then_do_def)
  then show ?thesis using s1(2) o by auto
qed

lemma page_free_ok:
  assumes "heap_free (sk s) (heap_sem s)" "page_ok s rs" "0 < n" "a mod RT_MM_PAGE_SIZE = 0" "a \<noteq> RT_NULL"
    "run_pages (a, n) \<inter> all_pages rs = {}"
  shows "\<exists>s'. rt_page_free a n s = Some (Now (), s') \<and> page_ok s' (free_runs a n rs) \<and> only_pages s s'"
proof -
  obtain k1 where k1: "slab_lock s = Some (Now (), s\<lparr>sk := k1\<rparr>)"
    "rt_sem_release (heap_sem s) k1 = Some (RT_EOK, sk s)"
    using slab_locked [OF assms(1)] by blast
  have "runs_from (s\<lparr>sk := k1\<rparr>) (page_at None (s\<lparr>sk := k1\<rparr>)) rs" "gaps rs" "below None 0 rs"
    using assms(2) by (simp_all add: page_ok_def page_at_def below_def)
  from page_free_loop_ok [OF this(1,2) assms(3-6) this(3)] obtain s1 where
    s1: "page_free_loop a n None (s\<lparr>sk := k1\<rparr>) = Some s1" "runs_from s1 (rt_page_list s1) (free_runs a n rs)" "only_pages (s\<lparr>sk := k1\<rparr>) s1"
    by (auto simp: page_at_def dest: page_frame_none)
  note o = only_pages_sk [OF s1(3)]
  have "rt_page_free a n s = Some (Now (), s1\<lparr>sk := sk s\<rparr>)"
    using assms(3-5) k1 s1(1) o by (simp add: slab_unlock_def rt_page_free_def then_do_def)
  moreover have "gaps (free_runs a n rs)" using free_runs_ok [of rs n a] assms(2-4,6) by (simp add: page_ok_def)
  ultimately show ?thesis using s1(2) o by (auto simp: page_ok_def)
qed

text \<open>C30: \<^verbatim>\<open>rt_page_alloc\<close> on a sound page list is first fit: it returns a run of \<open>n\<close> pages that were all free,
  and exactly these are free no longer; or \<^verbatim>\<open>RT_NULL\<close>, with the list unchanged, if every free run is shorter.
  The list stays ordered, page-aligned and without adjacent runs, and nothing else changes.\<close>

theorem page_alloc_spec:
  assumes "heap_free (sk s) (heap_sem s)" "page_ok s rs" "0 < n" "alloc_runs n rs = (x, rs')"
  shows "\<exists>s'. rt_page_alloc n s = Some (Now x, s') \<and> page_ok s' rs' \<and> only_pages s s'
     \<and> (if x = RT_NULL then rs' = rs \<and> (\<forall>r \<in> set rs. snd r < n)
        else x mod RT_MM_PAGE_SIZE = 0 \<and> run_pages (x, n) \<subseteq> all_pages rs \<and> all_pages rs' = all_pages rs - run_pages (x, n))"
proof -
  have "\<forall>r \<in> set rs. fst r \<noteq> RT_NULL" using assms(2) runs_not_null by (auto simp: page_ok_def)
  then show ?thesis
    using page_alloc_ok [OF assms] alloc_runs_ok [OF _ assms(3,4)] assms(2) by (auto simp: page_ok_def split: if_splits)
qed

definition demo_slab :: slab where
  "demo_slab = \<lparr>sl_start = 0x10000, sl_end = 0x20000,
     page_heads = (\<lambda>_. \<lparr>pg_next = 0, pg_page = 0\<rparr>)(0x12000 := \<lparr>pg_next = 0x15000, pg_page = 1\<rparr>, 0x15000 := \<lparr>pg_next = 0, pg_page = 4\<rparr>),
     rt_page_list = 0x12000, memusage = (\<lambda>_. (PAGE_TYPE_FREE, 0)), memusage_at = 0x10000,
     zones = (\<lambda>_. \<lparr>z_magic = 0, z_nfree = 0, z_nmax = 0, z_next = 0, z_baseptr = 0, z_uindex = 0, z_chunksize = 0,
       z_zoneindex = 0, z_freechunk = 0\<rparr>),
     c_next = (\<lambda>_. 0), zone_array = (\<lambda>_. 0), zone_free = 0, zone_free_cnt = 0, zone_size = 0x8000, zone_limit = 0x2000,
     zone_page_cnt = 8, sl_used = 0, sl_max = 0, heap_sem = 22,
     sk = demo\<lparr>objs := (objs demo)(22 := ex_obj 0x82 0), sems := (sems demo)(22 := \<lparr>sem_value = 1\<rparr>)\<rparr>\<rparr>"

lemma demo_slab_ok: "heap_free (sk demo_slab) (heap_sem demo_slab)" "page_ok demo_slab [(0x12000, 1), (0x15000, 4)]"
  by (simp_all add: heap_free_def demo_slab_def is_class_def ex_obj_def page_ok_def)

theorem page_alloc_spec_witness:
  "\<exists>s'. rt_page_alloc 2 demo_slab = Some (Now 0x15000, s') \<and> page_ok s' [(0x12000, 1), (0x17000, 2)]"
  using page_alloc_spec [OF demo_slab_ok, of 2 "0x15000" "[(0x12000, 1), (0x17000, 2)]"] by auto

text \<open>C31: \<^verbatim>\<open>rt_page_free\<close> of pages that are in use returns, adds exactly these pages to the free ones, fuses them with
  the free runs on both sides, so that the list stays ordered and without adjacent runs, and
  undoes an allocation: freeing the run just allocated restores the list.\<close>

theorem page_free_spec:
  assumes "heap_free (sk s) (heap_sem s)" "page_ok s rs" "0 < n"
  shows "(a mod RT_MM_PAGE_SIZE = 0 \<and> a \<noteq> RT_NULL \<and> run_pages (a, n) \<inter> all_pages rs = {} \<longrightarrow>
       (\<exists>s' rs'. rt_page_free a n s = Some (Now (), s') \<and> page_ok s' rs' \<and> only_pages s s'
          \<and> all_pages rs' = run_pages (a, n) \<union> all_pages rs))
     \<and> (\<forall>x s1. rt_page_alloc n s = Some (Now x, s1) \<and> x \<noteq> RT_NULL \<longrightarrow>
          (\<exists>s2. rt_page_free x n s1 = Some (Now (), s2) \<and> page_ok s2 rs \<and> only_pages s s2))"
proof (intro conjI impI allI)
  assume "a mod RT_MM_PAGE_SIZE = 0 \<and> a \<noteq> RT_NULL \<and> run_pages (a, n) \<inter> all_pages rs = {}"
  then show "\<exists>s' rs'. rt_page_free a n s = Some (Now (), s') \<and> page_ok s' rs' \<and> only_pages s s'
          \<and> all_pages rs' = run_pages (a, n) \<union> all_pages rs"
    using page_free_ok [OF assms, of a] free_runs_ok [of rs n a] assms(2,3) by (auto simp: page_ok_def)
next
  fix x s1 assume s1: "rt_page_alloc n s = Some (Now x, s1) \<and> x \<noteq> RT_NULL"
  obtain y rs' where al: "alloc_runs n rs = (y, rs')" by fastforce
  have g: "gaps rs" "\<forall>r \<in> set rs. fst r \<noteq> RT_NULL" using assms(2) runs_not_null by (auto simp: page_ok_def)
  have a: "y = x" "runs_from s1 (rt_page_list s1) rs'" "only_pages s s1"
    using page_alloc_ok [OF assms al] s1 by auto
  note r = alloc_runs_ok [OF g(1) assms(3) al g(2)]
  have x: "x mod RT_MM_PAGE_SIZE = 0" "run_pages (x, n) \<inter> all_pages rs' = {}" "gaps rs'" using r a(1) s1 by auto
  have lk: "heap_free (sk s1) (heap_sem s1)" using assms(1) a(3) unfolding only_pages_def by (cases s; cases s1) simp
  have "page_ok s1 rs'" using a(2) x(3) by (simp add: page_ok_def)
  from page_free_ok [OF lk this assms(3) x(1) _ x(2)] s1 obtain s2 where
    "rt_page_free x n s1 = Some (Now (), s2)" "page_ok s2 (free_runs x n rs')" "only_pages s1 s2" by blast
  moreover have "free_runs x n rs' = rs" using free_alloc_runs [OF g(1) assms(3) al] a(1) s1 by simp
  moreover have "only_pages s s2" using a(3) \<open>only_pages s1 s2\<close> unfolding only_pages_def by (cases s; cases s1; cases s2) auto
  ultimately show "\<exists>s2. rt_page_free x n s1 = Some (Now (), s2) \<and> page_ok s2 rs \<and> only_pages s s2" by auto
qed

theorem page_free_spec_witness:
  "\<exists>s' rs'. rt_page_free 0x13000 2 demo_slab = Some (Now (), s') \<and> page_ok s' rs'
     \<and> all_pages rs' = run_pages (0x13000, 2) \<union> all_pages [(0x12000, 1), (0x15000, 4)]"
proof -
  have "run_pages (0x13000, 2) \<inter> all_pages [(0x12000, 1), (0x15000, 4)] = {}"
    by (auto dest!: run_pages_bounds)
  then show ?thesis using page_free_spec [OF demo_slab_ok, of 2 "0x13000"] by auto
qed

end
