(* ===== verification/RT_SlabZone.thy ===== *)
theory RT_SlabZone
  imports RT_Slab
begin

text \<open>
  The zones of the slab allocator (\<^verbatim>\<open>src/slab.c\<close>). A zone is sound if its free chunks are the ones never used
  and the ones on its list of freed chunks, each once, as many as it counts; the other chunks are live.
  Requests are served from chunks that are not live and large enough.
\<close>

subsection \<open>Sizes\<close>

lemma unat_round_up_small:
  fixes w :: u32
  assumes "unat w < 16384" "j \<le> 10"
  shows "unat ((w + (2 ^ j - 1)) AND NOT (2 ^ j - 1)) = (unat w + (2 ^ j - 1)) div 2 ^ j * 2 ^ j"
proof (rule unat_round_up)
  have "(2 ^ j :: nat) \<le> 2 ^ 10" using assms(2) by (intro power_increasing) auto
  then show "unat w + (2 ^ j - 1) < 2 ^ 32" using assms(1) by simp
qed



text \<open>The sizes of the chunks, by the index of the zones.\<close>

definition class_size :: "int \<Rightarrow> nat" where
  "class_size zi =
     (if zi < 16 then 8 * nat (zi + 1) else if zi < 24 then 16 * nat (zi - 7) else if zi < 32 then 32 * nat (zi - 15)
      else if zi < 40 then 64 * nat (zi - 23) else if zi < 48 then 128 * nat (zi - 31) else if zi < 56 then 256 * nat (zi - 39)
      else if zi < 64 then 512 * nat (zi - 47) else 1024 * nat (zi - 55))"

lemma zoneindex_step:
  fixes n :: u32
  assumes "unat n < 16384" "j \<le> 10" "unat (2 ^ j :: u32) = 2 ^ j"
  shows "unat ((n + (2 ^ j - 1)) AND NOT (2 ^ j - 1)) = (unat n + (2 ^ j - 1)) div 2 ^ j * 2 ^ j"
    "uint (((n + (2 ^ j - 1)) AND NOT (2 ^ j - 1)) div 2 ^ j) = int ((unat n + (2 ^ j - 1)) div 2 ^ j)"
proof -
  show e: "unat ((n + (2 ^ j - 1)) AND NOT (2 ^ j - 1)) = (unat n + (2 ^ j - 1)) div 2 ^ j * 2 ^ j"
    using unat_round_up_small [OF assms(1,2)] .
  show "uint (((n + (2 ^ j - 1)) AND NOT (2 ^ j - 1)) div 2 ^ j) = int ((unat n + (2 ^ j - 1)) div 2 ^ j)"
    unfolding uint_nat unat_div e assms(3) by simp
qed

lemma ceil_div:
  fixes w D :: nat
  assumes "0 < D"
  shows "w \<le> (w + (D - 1)) div D * D" "(w + (D - 1)) div D * D < w + D"
proof -
  have "(w + (D - 1)) div D * D + (w + (D - 1)) mod D = w + (D - 1)" by (rule div_mult_mod_eq)
  moreover have "(w + (D - 1)) mod D < D" using assms by simp
  ultimately show "w \<le> (w + (D - 1)) div D * D" "(w + (D - 1)) div D * D < w + D" by linarith+
qed

lemma class_size_eq:
  "q \<le> 16 \<Longrightarrow> 1 \<le> q \<Longrightarrow> class_size (int q - 1) = q * 8"
  "q \<le> 16 \<Longrightarrow> 8 \<le> q \<Longrightarrow> class_size (int q + 7) = q * 16"
  "q \<le> 16 \<Longrightarrow> 8 \<le> q \<Longrightarrow> class_size (int q + 15) = q * 32"
  "q \<le> 16 \<Longrightarrow> 8 \<le> q \<Longrightarrow> class_size (int q + 23) = q * 64"
  "q \<le> 16 \<Longrightarrow> 8 \<le> q \<Longrightarrow> class_size (int q + 31) = q * 128"
  "q \<le> 16 \<Longrightarrow> 8 \<le> q \<Longrightarrow> class_size (int q + 39) = q * 256"
  "q \<le> 16 \<Longrightarrow> 8 \<le> q \<Longrightarrow> class_size (int q + 47) = q * 512"
  "q \<le> 16 \<Longrightarrow> 8 \<le> q \<Longrightarrow> class_size (int q + 55) = q * 1024"
proof -
  assume "q \<le> 16"
  then have "q \<in> {0, 1, 2, 3, 4, 5, 6, 7, 8, 9, 10, 11, 12, 13, 14, 15, 16}" unfolding insert_iff empty_iff by presburger
  then show "1 \<le> q \<Longrightarrow> class_size (int q - 1) = q * 8"
    "8 \<le> q \<Longrightarrow> class_size (int q + 7) = q * 16" "8 \<le> q \<Longrightarrow> class_size (int q + 15) = q * 32"
    "8 \<le> q \<Longrightarrow> class_size (int q + 23) = q * 64" "8 \<le> q \<Longrightarrow> class_size (int q + 31) = q * 128"
    "8 \<le> q \<Longrightarrow> class_size (int q + 39) = q * 256" "8 \<le> q \<Longrightarrow> class_size (int q + 47) = q * 512"
    "8 \<le> q \<Longrightarrow> class_size (int q + 55) = q * 1024"
    by (auto simp: class_size_def)
qed

text \<open>One bracket of requests: from \<open>8 D\<close> (or one) up to \<open>16 D\<close>, in steps of \<open>D\<close>.\<close>

lemma zoneindex_bracket:
  fixes n m :: u32
  assumes "unat m = (unat n + (D - 1)) div D * D" "zi = int ((unat n + (D - 1)) div D) + b" "0 < D" "unat n < 16 * D"
    "lo * D < unat n + D" "0 \<le> int lo + b" "16 + b < 72" "D = 8 \<or> 8 * D \<le> unat n"
    "\<And>q. q \<le> 16 \<Longrightarrow> lo \<le> q \<Longrightarrow> class_size (int q + b) = q * D"
  shows "0 \<le> zi \<and> zi < 72 \<and> unat m = class_size zi \<and> unat n \<le> unat m \<and> (unat m < unat n + 8 \<or> 8 * (unat m - unat n) < unat n)"
proof -
  define q where "q = (unat n + (D - 1)) div D"
  have m: "unat m = q * D" "zi = int q + b" using assms(1,2) by (simp_all add: q_def)
  have q: "unat n \<le> q * D" "q * D < unat n + D" unfolding q_def by (rule ceil_div [OF assms(3)])+
  have "q * D < 17 * D" "lo * D < (q + 1) * D" using q assms(4,5) unfolding distrib_right by linarith+
  then have "q < 17" "lo < q + 1" by (simp_all only: mult_less_cancel2)
  then have "q \<le> 16" "lo \<le> q" by simp_all
  then show ?thesis using m q assms(6-9) by auto
qed

text \<open>\<^verbatim>\<open>zoneindex\<close> maps every request below the largest limit to one of the 72 zones and rounds it up to the
  chunk size of that zone, which is a function of the index alone, so that all chunks of a zone are equally large;
  less than 8 bytes or an eighth of the request is wasted.\<close>

lemma zoneindex_ok:
  assumes "0 < n" "n < 16384" "zoneindex n = (zi, m)"
  shows "0 \<le> zi \<and> zi < 72 \<and> unat m = class_size zi \<and> unat n \<le> unat m \<and> (unat m < unat n + 8 \<or> 8 * (unat m - unat n) < unat n)"
proof -
  have w: "0 < unat n" "unat n < 16384" using assms(1,2) by (simp_all add: word_less_nat_alt)
  note st = zoneindex_step [OF w(2)] and z = assms(3) [unfolded zoneindex_def word_less_nat_alt Let_def]
  consider "unat n < 128" | "128 \<le> unat n" "unat n < 256" | "256 \<le> unat n" "unat n < 512" | "512 \<le> unat n" "unat n < 1024"
    | "1024 \<le> unat n" "unat n < 2048" | "2048 \<le> unat n" "unat n < 4096" | "4096 \<le> unat n" "unat n < 8192" | "8192 \<le> unat n"
    by linarith
  then show ?thesis
  proof cases
    case 1
    then show ?thesis using z w st [of 3] by (intro zoneindex_bracket [of m n 8 zi "- 1" 1]) (auto simp: class_size_eq)
  next
    case 2
    then show ?thesis using z w st [of 4] by (intro zoneindex_bracket [of m n 16 zi 7 8]) (auto simp: class_size_eq)
  next
    case 3
    then show ?thesis using z w st [of 5] by (intro zoneindex_bracket [of m n 32 zi 15 8]) (auto simp: class_size_eq)
  next
    case 4
    then show ?thesis using z w st [of 6] by (intro zoneindex_bracket [of m n 64 zi 23 8]) (auto simp: class_size_eq)
  next
    case 5
    then show ?thesis using z w st [of 7] by (intro zoneindex_bracket [of m n 128 zi 31 8]) (auto simp: class_size_eq)
  next
    case 6
    then show ?thesis using z w st [of 8] by (intro zoneindex_bracket [of m n 256 zi 39 8]) (auto simp: class_size_eq)
  next
    case 7
    then show ?thesis using z w st [of 9] by (intro zoneindex_bracket [of m n 512 zi 47 8]) (auto simp: class_size_eq)
  next
    case 8
    then show ?thesis using z w st [of 10] by (intro zoneindex_bracket [of m n 1024 zi 55 8]) (auto simp: class_size_eq)
  qed
qed















lemma zone_offset_table:
  "list_all (\<lambda>zi. let off = unat (zone_offset (of_nat (class_size zi))) in 36 \<le> off \<and> off \<le> class_size zi + 35) [0..71]"
  by (simp add: upto_rec1 class_size_def zone_offset_def)

lemma zone_offset_ok:
  assumes "0 \<le> zi" "zi < 72" "unat m = class_size zi"
  shows "36 \<le> unat (zone_offset m)" "unat (zone_offset m) \<le> unat m + 35"
proof -
  have "zi \<in> set [0..71]" using assms(1,2) by simp
  moreover have "of_nat (class_size zi) = m" by (simp flip: assms(3))
  ultimately show "36 \<le> unat (zone_offset m)" "unat (zone_offset m) \<le> unat m + 35"
    using zone_offset_table unfolding list_all_iff Let_def assms(3) by metis+
qed

subsection \<open>Sound zones\<close>

definition chunk_at :: "slab_zone \<Rightarrow> nat \<Rightarrow> ptr" where
  "chunk_at x i = z_baseptr x + i * unat (z_chunksize x)"

definition zone_chunks :: "slab_zone \<Rightarrow> ptr set" where
  "zone_chunks x = chunk_at x ` {..<nat (z_nmax x)}"

definition touched :: "slab_zone \<Rightarrow> ptr set" where
  "touched x = chunk_at x ` {..nat (z_uindex x)}"

definition zone_ok :: "slab \<Rightarrow> ptr \<Rightarrow> ptr list \<Rightarrow> bool" where
  "zone_ok s z fl \<longleftrightarrow> 0 \<le> z_uindex (zones s z) \<and> z_uindex (zones s z) < z_nmax (zones s z)
     \<and> 0 < z_chunksize (zones s z) \<and> 0 < z_baseptr (zones s z) \<and> linked (c_next s) (z_freechunk (zones s z)) fl
     \<and> distinct fl \<and> set fl \<subseteq> touched (zones s z)
     \<and> z_nfree (zones s z) = z_nmax (zones s z) - 1 - z_uindex (zones s z) + int (length fl)"

definition zone_live :: "slab \<Rightarrow> ptr \<Rightarrow> ptr list \<Rightarrow> ptr set" where
  "zone_live s z fl = touched (zones s z) - set fl"

definition same_zone :: "slab_zone \<Rightarrow> slab_zone \<Rightarrow> bool" where
  "same_zone x y \<longleftrightarrow> z_magic x = z_magic y \<and> z_nmax x = z_nmax y \<and> z_baseptr x = z_baseptr y \<and> z_chunksize x = z_chunksize y
     \<and> z_zoneindex x = z_zoneindex y"

lemma chunk_at_inj: "0 < z_chunksize x \<Longrightarrow> chunk_at x i = chunk_at x j \<longleftrightarrow> i = j"
  by (simp add: chunk_at_def word_less_nat_alt)

lemma chunk_at_upd [simp]:
  "chunk_at (x\<lparr>z_nfree := a\<rparr>) = chunk_at x" "chunk_at (x\<lparr>z_next := b\<rparr>) = chunk_at x"
  "chunk_at (x\<lparr>z_uindex := c\<rparr>) = chunk_at x" "chunk_at (x\<lparr>z_freechunk := d\<rparr>) = chunk_at x"
  by (simp_all add: chunk_at_def fun_eq_iff)

lemma zones_upd [simp]: "zones (upd_zone z f s) = (zones s)(z := f (zones s z))"
  by (simp add: upd_zone_def)

lemma touched_Suc: "0 \<le> z_uindex x \<Longrightarrow> chunk_at x ` {..nat (z_uindex x + 1)} = insert (chunk_at x (nat (z_uindex x + 1))) (touched x)"
  by (simp add: touched_def nat_add_distrib atMost_Suc)

lemma touched_chunks: "0 \<le> z_uindex x \<Longrightarrow> z_uindex x < z_nmax x \<Longrightarrow> touched x \<subseteq> zone_chunks x"
  unfolding touched_def zone_chunks_def by (rule image_mono) auto

lemma slab_account_sel [simp]:
  "zones (slab_account n s) = zones s" "c_next (slab_account n s) = c_next s" "zone_array (slab_account n s) = zone_array s"
  "heap_sem (slab_account n s) = heap_sem s" "sk (slab_account n s) = sk s"
  by (simp_all add: slab_account_def Let_def)

lemma upd_zone_sel [simp]:
  "c_next (upd_zone z f s) = c_next s" "zone_array (upd_zone z f s) = zone_array s"
  "heap_sem (upd_zone z f s) = heap_sem s" "sk (upd_zone z f s) = sk s"
  by (simp_all add: upd_zone_def)

text \<open>What a zone operation leaves alone.\<close>

definition zone_frame :: "ptr \<Rightarrow> slab \<Rightarrow> slab \<Rightarrow> bool" where
  "zone_frame z s s' \<longleftrightarrow> (\<forall>y. y \<noteq> z \<longrightarrow> zones s' y = zones s y) \<and> same_zone (zones s' z) (zones s z)
     \<and> heap_sem s' = heap_sem s \<and> sk s' = sk s"

lemma live_not_null: "zone_ok s z fl \<Longrightarrow> c \<in> zone_live s z fl \<Longrightarrow> c \<noteq> RT_NULL"
  by (auto simp: zone_live_def zone_ok_def touched_def chunk_at_def)

lemma zone_count:
  assumes "zone_ok s z fl"
  shows "z_nfree (zones s z) = z_nmax (zones s z) - int (card (zone_live s z fl))"
proof -
  let ?x = "zones s z"
  have ok: "0 \<le> z_uindex ?x" "0 < z_chunksize ?x" "set fl \<subseteq> touched ?x" "distinct fl"
    "z_nfree ?x = z_nmax ?x - 1 - z_uindex ?x + int (length fl)" using assms by (auto simp: zone_ok_def)
  have "card (touched ?x) = nat (z_uindex ?x) + 1"
    unfolding touched_def using ok(2) by (subst card_image) (auto intro: inj_onI simp: chunk_at_inj)
  moreover have "card (set fl) = length fl" using ok(4) by (rule distinct_card)
  moreover have "card (zone_live s z fl) = card (touched ?x) - card (set fl)" "card (set fl) \<le> card (touched ?x)"
    using ok(3) by (simp_all add: zone_live_def card_Diff_subset card_mono touched_def)
  ultimately show ?thesis using ok(1,5) by simp
qed

lemma live_card:
  assumes "zone_ok s z fl" "c \<in> zone_live s z fl" "zone_live s z fl \<noteq> {c}"
  shows "z_nfree (zones s z) + 1 \<noteq> z_nmax (zones s z)"
proof
  assume "z_nfree (zones s z) + 1 = z_nmax (zones s z)"
  then have "card (zone_live s z fl) = 1" using zone_count [OF assms(1)] by simp
  then obtain x where "zone_live s z fl = {x}" by (rule card_1_singletonE)
  with assms(2,3) show False by simp
qed

lemma take_chunk_ok:
  assumes "zone_ok s z fl" "0 < z_nfree (zones s z)" "sz = z_chunksize (zones s z)"
  shows "\<exists>c s' fl'. take_chunk z zi sz s = Some (c, s') \<and> zone_ok s' z fl' \<and> zone_frame z s s' \<and> c_next s' = c_next s
     \<and> c \<in> zone_chunks (zones s z) \<and> c \<notin> zone_live s z fl \<and> zone_live s' z fl' = insert c (zone_live s z fl)
     \<and> zone_array s' = (if z_nfree (zones s z) = 1 then (zone_array s)(zi := z_next (zones s z)) else zone_array s)"
proof -
  let ?x = "zones s z" and ?u = "nat (z_uindex (zones s z) + 1)"
  note ok = assms(1) [unfolded zone_ok_def]
  show ?thesis
  proof (cases "z_uindex ?x + 1 = z_nmax ?x")
    case True
    then obtain c fs where fl: "fl = c # fs" using ok assms(2) by (cases fl) auto
    then have "\<exists>s'. take_chunk z zi sz s = Some (c, s') \<and> c_next s' = c_next s \<and> heap_sem s' = heap_sem s \<and> sk s' = sk s
      \<and> zone_array s' = (if z_nfree ?x = 1 then (zone_array s)(zi := z_next ?x) else zone_array s)
      \<and> zones s' = (zones s)(z := ?x\<lparr>z_nfree := z_nfree ?x - 1, z_next := (if z_nfree ?x = 1 then RT_NULL else z_next ?x),
         z_freechunk := c_next s c\<rparr>)"
      using True ok assms(2) by (auto simp: take_chunk_def Let_def)
    then obtain s' where s': "take_chunk z zi sz s = Some (c, s')" "c_next s' = c_next s" "heap_sem s' = heap_sem s" "sk s' = sk s"
      "zone_array s' = (if z_nfree ?x = 1 then (zone_array s)(zi := z_next ?x) else zone_array s)"
      "zones s' = (zones s)(z := ?x\<lparr>z_nfree := z_nfree ?x - 1, z_next := (if z_nfree ?x = 1 then RT_NULL else z_next ?x),
         z_freechunk := c_next s c\<rparr>)" by blast
    have "c \<in> touched ?x" "c \<notin> set fs" using ok fl by auto
    then show ?thesis using s' ok fl True touched_chunks [of ?x]
      by (intro exI [of _ c] exI [of _ s'] exI [of _ fs]) (auto simp: zone_ok_def zone_frame_def same_zone_def zone_live_def touched_def)
  next
    case False
    have "chunk_at ?x ?u \<noteq> chunk_at ?x i" if "i \<le> nat (z_uindex ?x)" for i using that ok chunk_at_inj [of ?x ?u i] by auto
    then have new: "chunk_at ?x ?u \<notin> touched ?x" by (auto simp: touched_def)
    have "int (z_baseptr ?x) + (z_uindex ?x + 1) * uint sz = int (chunk_at ?x ?u)" using ok assms(3) by (simp add: chunk_at_def)
    then have c: "nat (int (z_baseptr ?x) + (z_uindex ?x + 1) * uint sz) = chunk_at ?x ?u" by (simp only: nat_int)
    have "\<exists>s'. take_chunk z zi sz s = Some (chunk_at ?x ?u, s') \<and> c_next s' = c_next s \<and> heap_sem s' = heap_sem s \<and> sk s' = sk s
      \<and> zone_array s' = (if z_nfree ?x = 1 then (zone_array s)(zi := z_next ?x) else zone_array s)
      \<and> zones s' = (zones s)(z := ?x\<lparr>z_nfree := z_nfree ?x - 1, z_next := (if z_nfree ?x = 1 then RT_NULL else z_next ?x),
         z_uindex := z_uindex ?x + 1\<rparr>)"
      using False c assms(2) by (auto simp: take_chunk_def Let_def)
    then obtain s' where s': "take_chunk z zi sz s = Some (chunk_at ?x ?u, s')" "c_next s' = c_next s" "heap_sem s' = heap_sem s" "sk s' = sk s"
      "zone_array s' = (if z_nfree ?x = 1 then (zone_array s)(zi := z_next ?x) else zone_array s)"
      "zones s' = (zones s)(z := ?x\<lparr>z_nfree := z_nfree ?x - 1, z_next := (if z_nfree ?x = 1 then RT_NULL else z_next ?x),
         z_uindex := z_uindex ?x + 1\<rparr>)" by blast
    have "chunk_at ?x ?u \<in> zone_chunks ?x" using False ok by (auto simp: zone_chunks_def)
    then show ?thesis using False ok new s' touched_Suc [of ?x]
      by (intro exI [of _ "chunk_at ?x ?u"] exI [of _ s'] exI [of _ fl]) (auto simp: zone_ok_def zone_frame_def same_zone_def zone_live_def touched_def)
  qed
qed

lemma free_chunk_ok:
  assumes "zone_ok s z fl" "c \<in> zone_live s z fl"
  defines "s' \<equiv> free_chunk z c s" and "zi \<equiv> z_zoneindex (zones s z)"
  shows "zone_ok s' z (c # fl) \<and> zone_frame z s s' \<and> zone_live s' z (c # fl) = zone_live s z fl - {c}
     \<and> c_next s' = (c_next s)(c := z_freechunk (zones s z)) \<and> z_nfree (zones s' z) = z_nfree (zones s z) + 1
     \<and> zone_array s' = (if z_nfree (zones s z) = 0 then (zone_array s)(zi := z) else zone_array s)"
proof -
  have "c \<noteq> RT_NULL" by (rule live_not_null [OF assms(1,2)])
  then show ?thesis using assms(1,2) unfolding s'_def zi_def
    by (auto simp: free_chunk_def Let_def zone_ok_def zone_frame_def same_zone_def zone_live_def touched_def)
qed

text \<open>The sizes that \<^verbatim>\<open>rt_system_heap_init\<close> chooses.\<close>

definition slab_conf :: "slab \<Rightarrow> bool" where
  "slab_conf s \<longleftrightarrow> zone_size s \<in> {0x8000, 0x10000, 0x20000}
     \<and> zone_limit s = (if zone_size s div 4 > ZALLOC_ZONE_LIMIT then ZALLOC_ZONE_LIMIT else zone_size s div 4)
     \<and> zone_page_cnt s = unat (zone_size s div 4096)"

lemma zone_size_chosen: "zone_size_loop 2 limsize ZALLOC_MIN_ZONE_SIZE \<in> {0x8000, 0x10000, 0x20000}"
  by (simp add: numeral_2_eq_2)

lemma zone_size_loop_enough:
  assumes "2 \<le> fuel"
  shows "zone_size_loop fuel limsize ZALLOC_MIN_ZONE_SIZE = zone_size_loop 2 limsize ZALLOC_MIN_ZONE_SIZE"
proof -
  obtain n where "fuel = Suc (Suc n)" using assms by (metis add_2_eq_Suc le_Suc_ex)
  moreover have "zone_size_loop n limsize 0x20000 = 0x20000" by (cases n) simp_all
  ultimately show ?thesis by (simp add: numeral_2_eq_2)
qed

lemma init_zone_ok:
  assumes "0 < unat m" "36 \<le> unat (zone_offset m)" "unat (zone_offset m) + unat m \<le> unat (zone_size s)"
    "init_zone z zi m s = (c, s')"
  shows "zone_ok s' z [] \<and> zone_live s' z [] = {c} \<and> z_chunksize (zones s' z) = m \<and> z_zoneindex (zones s' z) = zi
     \<and> z_magic (zones s' z) = ZALLOC_SLAB_MAGIC \<and> c \<noteq> RT_NULL
     \<and> (\<forall>a \<in> zone_chunks (zones s' z). z + 36 \<le> a \<and> a + unat m \<le> z + unat (zone_size s))
     \<and> z_next (zones s' z) = zone_array s zi \<and> zone_array s' = (zone_array s)(zi := z)
     \<and> (\<forall>y. y \<noteq> z \<longrightarrow> zones s' y = zones s y) \<and> c_next s' = c_next s \<and> heap_sem s' = heap_sem s \<and> sk s' = sk s"
proof -
  let ?off = "zone_offset m"
  define nmax where "nmax = (unat (zone_size s) - unat ?off) div unat m"
  have "?off \<le> zone_size s" using assms(3) by (simp add: word_le_nat_alt)
  then have n: "uint ((zone_size s - ?off) div m) = int nmax" unfolding uint_nat unat_div nmax_def by (simp only: unat_sub)
  have "unat m \<le> unat (zone_size s) - unat ?off" using assms(3) by linarith
  then have pos: "0 < nmax" using assms(1) by (simp add: nmax_def div_greater_zero_iff)
  have fit: "unat ?off + i * unat m + unat m \<le> unat (zone_size s)" if "i < nmax" for i
  proof -
    have "(i + 1) * unat m \<le> nmax * unat m" using that by (intro mult_right_mono) auto
    also have "\<dots> \<le> unat (zone_size s) - unat ?off" unfolding nmax_def by (rule div_times_less_eq_dividend)
    finally show ?thesis using assms(3) unfolding distrib_right by simp
  qed
  have e: "c = z + unat ?off" "c_next s' = c_next s" "heap_sem s' = heap_sem s" "sk s' = sk s" "zone_array s' = (zone_array s)(zi := z)"
    "zones s' = (zones s)(z := \<lparr>z_magic = ZALLOC_SLAB_MAGIC, z_nfree = int nmax - 1, z_nmax = int nmax, z_next = zone_array s zi,
       z_baseptr = z + unat ?off, z_uindex = 0, z_chunksize = m, z_zoneindex = zi, z_freechunk = RT_NULL\<rparr>)"
    using assms(4) unfolding init_zone_def Let_def n by auto
  have "z + 36 \<le> a \<and> a + unat m \<le> z + unat (zone_size s)" if "a \<in> zone_chunks (zones s' z)" for a
    using that fit assms(2) by (fastforce simp: e zone_chunks_def chunk_at_def)
  then show ?thesis using assms(1,2) pos e
    by (auto simp: zone_ok_def zone_live_def touched_def chunk_at_def word_less_nat_alt)
qed

subsection \<open>Allocating and freeing small blocks\<close>

lemma small_request:
  assumes "slab_conf s" "0 < n" "n < zone_limit s" "zoneindex n = (zi, m)"
  shows "0 \<le> zi" "zi < 72" "unat m = class_size zi" "unat n \<le> unat m" "unat (zone_offset m) + unat m \<le> unat (zone_size s)"
    "36 \<le> unat (zone_offset m)" "0 < unat m"
proof -
  have l: "0 < unat n" "unat n < unat (zone_limit s)" using assms(2,3) by (simp_all add: word_less_nat_alt)
  have c: "unat (zone_size s) = 32768 \<and> unat (zone_limit s) = 8192 \<or> unat (zone_size s) \<ge> 65536 \<and> unat (zone_limit s) = 16384"
    using assms(1) by (auto simp: slab_conf_def)
  then have "n < 16384" using l by (auto simp: word_less_nat_alt)
  note z = zoneindex_ok [OF assms(2) this assms(4)]
  then show k: "0 \<le> zi" "zi < 72" "unat m = class_size zi" "unat n \<le> unat m" by auto
  then show "0 < unat m" using l by linarith
  note o = zone_offset_ok [OF k(1-3)]
  show "36 \<le> unat (zone_offset m)" by (rule o)
  have "unat m < unat n + 8 \<or> 8 * (unat m - unat n) < unat n" using z by blast
  then show "unat (zone_offset m) + unat m \<le> unat (zone_size s)" using o(2) l c by linarith
qed

lemma slab_unlocked:
  "rt_sem_release (heap_sem s) k1 = Some (RT_EOK, k) \<Longrightarrow> sk s' = k1 \<Longrightarrow> heap_sem s' = heap_sem s \<Longrightarrow>
     slab_unlock r s' = Some (Now r, s'\<lparr>sk := k\<rparr>)"
  by (simp add: slab_unlock_def)

lemma zone_ok_sk [simp]: "zone_ok (s\<lparr>sk := k\<rparr>) z fl = zone_ok s z fl" "zone_live (s\<lparr>sk := k\<rparr>) z fl = zone_live s z fl"
  by (simp_all add: zone_ok_def zone_live_def)

lemma malloc_existing:
  assumes "heap_free (sk s) (heap_sem s)" "0 < n" "n < zone_limit s" "zoneindex n = (zi, m)" "zi < 72"
    "zone_array s zi = z" "z \<noteq> RT_NULL" "zone_ok s z fl" "0 < z_nfree (zones s z)" "z_chunksize (zones s z) = m"
  shows "\<exists>c s' fl'. rt_malloc_slab n s = Some (Now c, s') \<and> zone_ok s' z fl' \<and> zone_frame z s s' \<and> c_next s' = c_next s
     \<and> c \<in> zone_chunks (zones s z) \<and> c \<notin> zone_live s z fl \<and> zone_live s' z fl' = insert c (zone_live s z fl)"
proof -
  obtain k1 where k1: "slab_lock s = Some (Now (), s\<lparr>sk := k1\<rparr>)" "rt_sem_release (heap_sem s) k1 = Some (RT_EOK, sk s)"
    using slab_locked [OF assms(1)] by blast
  from take_chunk_ok [of "s\<lparr>sk := k1\<rparr>" z fl m zi] assms(8-10) obtain c s1 fl' where
    s1: "take_chunk z zi m (s\<lparr>sk := k1\<rparr>) = Some (c, s1)" "zone_ok s1 z fl'" "zone_frame z (s\<lparr>sk := k1\<rparr>) s1" "c_next s1 = c_next s"
      "c \<in> zone_chunks (zones s z)" "c \<notin> zone_live s z fl" "zone_live s1 z fl' = insert c (zone_live s z fl)"
    by auto
  have "slab_unlock c s1 = Some (Now c, s1\<lparr>sk := sk s\<rparr>)" using s1(3) by (intro slab_unlocked [OF k1(2)]) (auto simp: zone_frame_def)
  then have "rt_malloc_slab n s = Some (Now c, s1\<lparr>sk := sk s\<rparr>)"
    using assms(2-7) k1(1) s1(1) by (auto simp: rt_malloc_slab_def then_do_def)
  moreover have "zone_frame z s (s1\<lparr>sk := sk s\<rparr>)" using s1(3) by (simp add: zone_frame_def)
  ultimately show ?thesis using s1 by (intro exI [of _ c] exI [of _ "s1\<lparr>sk := sk s\<rparr>"] exI [of _ fl']) simp
qed

definition fresh_zone :: "ptr \<Rightarrow> int \<Rightarrow> u32 \<Rightarrow> nat \<Rightarrow> ptr \<Rightarrow> slab \<Rightarrow> bool" where
  "fresh_zone z zi m len c s \<longleftrightarrow> zone_ok s z [] \<and> zone_live s z [] = {c} \<and> z_chunksize (zones s z) = m \<and> z_zoneindex (zones s z) = zi
     \<and> z_magic (zones s z) = ZALLOC_SLAB_MAGIC \<and> c \<noteq> RT_NULL \<and> zone_array s zi = z
     \<and> (\<forall>a \<in> zone_chunks (zones s z). z + 36 \<le> a \<and> a + unat m \<le> z + len)"

lemma init_zone_unlock:
  assumes "0 < unat m" "36 \<le> unat (zone_offset m)" "unat (zone_offset m) + unat m \<le> unat (zone_size s)"
    "rt_sem_release (heap_sem s) (sk s) = Some (RT_EOK, k)"
  shows "\<exists>c s'. (let (chunk, s') = init_zone z zi m s in slab_unlock chunk s') = Some (Now c, s')
     \<and> fresh_zone z zi m (unat (zone_size s)) c s' \<and> heap_sem s' = heap_sem s \<and> sk s' = k \<and> memusage s' = memusage s"
proof -
  obtain c s' where i: "init_zone z zi m s = (c, s')" by fastforce
  note o = init_zone_ok [OF assms(1-3) i]
  have "memusage s' = memusage s" using i by (auto simp: init_zone_def Let_def upd_zone_def slab_account_def)
  moreover have "slab_unlock c s' = Some (Now c, s'\<lparr>sk := k\<rparr>)" using o by (intro slab_unlocked [OF assms(4)]) auto
  ultimately show ?thesis using i o by (auto simp: fresh_zone_def)
qed

lemma malloc_free_zone:
  assumes "heap_free (sk s) (heap_sem s)" "slab_conf s" "0 < n" "n < zone_limit s" "zoneindex n = (zi, m)"
    "zone_array s zi = RT_NULL" "zone_free s = z" "z \<noteq> RT_NULL"
  shows "\<exists>c s'. rt_malloc_slab n s = Some (Now c, s') \<and> fresh_zone z zi m (unat (zone_size s)) c s' \<and> sk s' = sk s"
proof -
  note r = small_request [OF assms(2-5)]
  obtain k1 where k1: "slab_lock s = Some (Now (), s\<lparr>sk := k1\<rparr>)" "rt_sem_release (heap_sem s) k1 = Some (RT_EOK, sk s)"
    using slab_locked [OF assms(1)] by blast
  let ?s = "s\<lparr>sk := k1, zone_free := z_next (zones s z), zone_free_cnt := zone_free_cnt s - 1\<rparr>"
  have "rt_malloc_slab n s = (let (chunk, s') = init_zone z zi m ?s in slab_unlock chunk s')"
    using assms(3-8) r(2) k1(1) by (auto simp: rt_malloc_slab_def then_do_def malloc_new_zone_def)
  then show ?thesis using init_zone_unlock [of m ?s "sk s" z zi] r(5-7) k1(2) by auto
qed

lemma malloc_new_pages:
  assumes "heap_free (sk s) (heap_sem s)" "slab_conf s" "0 < n" "n < zone_limit s" "zoneindex n = (zi, m)"
    "zone_array s zi = RT_NULL" "zone_free s = RT_NULL" "page_ok s rs" "alloc_runs (zone_page_cnt s) rs = (z, rs')"
  shows "\<exists>s'. if z = RT_NULL then rt_malloc_slab n s = Some (Now RT_NULL, s') \<and> only_pages s s'
     else \<exists>c. rt_malloc_slab n s = Some (Now c, s') \<and> fresh_zone z zi m (unat (zone_size s)) c s' \<and> sk s' = sk s
       \<and> (\<forall>off < zone_page_cnt s. memusage s' (page_index z s + off) = (PAGE_TYPE_SMALL, off))"
proof -
  note r = small_request [OF assms(2-5)]
  have cnt: "zone_page_cnt s = unat (zone_size s div 4096)" "0 < zone_page_cnt s" using assms(2) by (auto simp: slab_conf_def)
  obtain k1 where k1: "slab_lock s = Some (Now (), s\<lparr>sk := k1\<rparr>)" "rt_sem_release (heap_sem s) k1 = Some (RT_EOK, sk s)"
    using slab_locked [OF assms(1)] by blast
  have u: "slab_unlock () (s\<lparr>sk := k1\<rparr>) = Some (Now (), s)" using k1(2) by (simp add: slab_unlock_def)
  obtain s1 where s1: "rt_page_alloc (zone_page_cnt s) s = Some (Now z, s1)" "only_pages s s1"
    using page_alloc_ok [OF assms(1,8) cnt(2) assms(9)] by blast
  have e: "rt_malloc_slab n s = (if z = RT_NULL then Some (Now RT_NULL, s1)
     else then_do (slab_lock s1) (\<lambda>_ s. let (chunk, s) = init_zone z zi m (set_usage z (\<lambda>off. (PAGE_TYPE_SMALL, off)) s) in slab_unlock chunk s))"
    using assms(3-7) r(2) k1(1) u s1(1) by (auto simp: rt_malloc_slab_def then_do_def malloc_new_zone_def cnt(1))
  show ?thesis
  proof (cases "z = RT_NULL")
    case True
    then show ?thesis using e s1(2) by auto
  next
    case False
    have f: "sk s1 = sk s" "heap_sem s1 = heap_sem s" "zone_size s1 = zone_size s" "zone_page_cnt s1 = zone_page_cnt s"
       "sl_start s1 = sl_start s" using s1(2) unfolding only_pages_def by (cases s; cases s1; simp)+
    then have "heap_free (sk s1) (heap_sem s1)" using assms(1) by simp
    from slab_locked [OF this] obtain k2 where
      k2: "slab_lock s1 = Some (Now (), s1\<lparr>sk := k2\<rparr>)" "rt_sem_release (heap_sem s1) k2 = Some (RT_EOK, sk s1)" by blast
    let ?s = "set_usage z (\<lambda>off. (PAGE_TYPE_SMALL, off)) (s1\<lparr>sk := k2\<rparr>)"
    have g: "zone_size ?s = zone_size s" "heap_sem ?s = heap_sem s1" "sk ?s = k2"
      "\<forall>off < zone_page_cnt s. memusage ?s (page_index z s + off) = (PAGE_TYPE_SMALL, off)"
      using f by (simp_all add: set_usage_def page_index_def)
    have "unat (zone_offset m) + unat m \<le> unat (zone_size ?s)" "rt_sem_release (heap_sem ?s) (sk ?s) = Some (RT_EOK, sk s1)"
      using r(5) g(1-3) k2(2) by simp_all
    from init_zone_unlock [OF r(7,6) this] obtain c s' where
      s': "(let (chunk, s') = init_zone z zi m ?s in slab_unlock chunk s') = Some (Now c, s')"
        "fresh_zone z zi m (unat (zone_size ?s)) c s'" "sk s' = sk s1" "memusage s' = memusage ?s" by blast
    then have "rt_malloc_slab n s = Some (Now c, s')" using False e k2(1) by (simp add: then_do_def)
    then show ?thesis using False s'(2-4) g(1,4) f(1) by auto
  qed
qed

lemma zone_unlink_ok:
  assumes "linked (\<lambda>a. z_next (zones s a)) (zone_at zi pz s) (xs @ z # ys)" "distinct (xs @ z # ys)"
    "\<forall>p. pz = Some p \<longrightarrow> p \<notin> set (xs @ z # ys)"
  shows "\<exists>s'. zone_unlink_loop z zi pz s = Some s' \<and> linked (\<lambda>a. z_next (zones s' a)) (zone_at zi pz s') (xs @ ys)
     \<and> (\<forall>p. p \<notin> set xs \<and> pz \<noteq> Some p \<longrightarrow> zones s' p = zones s p) \<and> (pz \<noteq> None \<longrightarrow> zone_array s' = zone_array s)
     \<and> s' = s\<lparr>zones := zones s', zone_array := zone_array s'\<rparr>"
  using assms
proof (induction xs arbitrary: pz)
  case Nil
  then have z: "zone_at zi pz s = z" "linked (\<lambda>a. z_next (zones s a)) (z_next (zones s z)) ys" by simp_all
  show ?case
  proof (cases pz)
    case None
    then show ?thesis using z by (simp add: zone_unlink_loop.simps zone_at_def)
  next
    case (Some p)
    then have "p \<notin> set ys" using Nil(3) by auto
    moreover have "(\<lambda>a. z_next (if a = p then (zones s p)\<lparr>z_next := b\<rparr> else zones s a)) = (\<lambda>a. z_next (zones s a))(p := b)" for b
      by auto
    ultimately show ?thesis using Some z linked_upd [of p ys "\<lambda>a. z_next (zones s a)"]
      by (simp add: zone_unlink_loop.simps zone_at_def upd_zone_def fun_upd_def)
  qed
next
  case (Cons x xs)
  have x: "zone_at zi pz s = x" "x \<noteq> RT_NULL" "x \<noteq> z" "pz \<noteq> Some x" using Cons.prems by auto
  have "linked (\<lambda>a. z_next (zones s a)) (zone_at zi (Some x) s) (xs @ z # ys)" using Cons.prems(1) by (simp add: zone_at_def)
  then obtain s' where s': "zone_unlink_loop z zi (Some x) s = Some s'" "linked (\<lambda>a. z_next (zones s' a)) (zone_at zi (Some x) s') (xs @ ys)"
    "\<forall>p. p \<notin> set xs \<and> x \<noteq> p \<longrightarrow> zones s' p = zones s p" "zone_array s' = zone_array s" "s' = s\<lparr>zones := zones s', zone_array := zone_array s'\<rparr>"
    using Cons.IH [of "Some x"] Cons.prems(2) by auto
  have "zone_at zi pz s' = x" using x(1) s'(3,4) Cons.prems(3) by (auto simp: zone_at_def split: option.splits)
  then show ?case using s' x by (subst zone_unlink_loop.simps) (auto simp: Let_def zone_at_def)
qed

text \<open>The last live chunk of a zone that is not the only one for its size: the zone leaves the list. Up to two such zones are put
  aside, the next one is given back to the page allocator.\<close>

lemma free_last_chunk:
  assumes "zone_ok s z fl" "zone_live s z fl = {c}" "0 < z_nfree (zones s z)" "zi = z_zoneindex (zones s z)"
    "linked (\<lambda>a. z_next (zones s a)) (zone_array s zi) (xs @ z # ys)" "distinct (xs @ z # ys)" "xs @ ys \<noteq> []"
  shows "z_nfree (zones (free_chunk z c s) z) = z_nmax (zones (free_chunk z c s) z)"
    "z_next (zones (free_chunk z c s) z) \<noteq> RT_NULL \<or> zone_array (free_chunk z c s) zi \<noteq> z"
    "\<exists>s'. zone_unlink_loop z zi None (free_chunk z c s) = Some s' \<and> linked (\<lambda>a. z_next (zones s' a)) (zone_array s' zi) (xs @ ys)
       \<and> s' = (free_chunk z c s)\<lparr>zones := zones s', zone_array := zone_array s'\<rparr>"
proof -
  let ?x = "zones s z" and ?s = "free_chunk z c s"
  note f = free_chunk_ok [OF assms(1), of c]
  then show "z_nfree (zones ?s z) = z_nmax (zones ?s z)" using zone_count [OF assms(1)] assms(2) by (auto simp: zone_frame_def same_zone_def)
  have a: "zone_array ?s = zone_array s" using f assms(2,3) by simp
  have "z_next (zones ?s p) = z_next (zones s p)" for p using assms(3) by (simp add: free_chunk_def Let_def)
  then have l: "linked (\<lambda>a. z_next (zones ?s a)) (zone_at zi None ?s) (xs @ z # ys)" using assms(5) a by (simp add: zone_at_def)
  then show "z_next (zones ?s z) \<noteq> RT_NULL \<or> zone_array ?s zi \<noteq> z"
    using assms(6,7) by (cases xs; cases ys) (auto simp: zone_at_def)
  show "\<exists>s'. zone_unlink_loop z zi None ?s = Some s' \<and> linked (\<lambda>a. z_next (zones s' a)) (zone_array s' zi) (xs @ ys)
       \<and> s' = ?s\<lparr>zones := zones s', zone_array := zone_array s'\<rparr>"
    using zone_unlink_ok [OF l assms(6)] assms(6) by (auto simp: zone_at_def)
qed

lemma free_chunk_sel [simp]:
  "zone_free (free_chunk z c s) = zone_free s" "zone_free_cnt (free_chunk z c s) = zone_free_cnt s" "zone_size (free_chunk z c s) = zone_size s" "zone_limit (free_chunk z c s) = zone_limit s"
  "zone_page_cnt (free_chunk z c s) = zone_page_cnt s" "page_heads (free_chunk z c s) = page_heads s" "rt_page_list (free_chunk z c s) = rt_page_list s"
  "heap_sem (free_chunk z c s) = heap_sem s" "sk (free_chunk z c s) = sk s" "z_zoneindex (zones (free_chunk z c s) z) = z_zoneindex (zones s z)"
  by (simp_all add: free_chunk_def Let_def upd_zone_def)

lemma only_pages_fields:
  "only_pages s s' \<Longrightarrow> zones s' = zones s \<and> zone_array s' = zone_array s \<and> zone_free s' = zone_free s \<and> zone_free_cnt s' = zone_free_cnt s"
  unfolding only_pages_def by (cases s; cases s') simp

lemma release_zone_ok:
  assumes "zone_unlink_loop z zi None s = Some s1" "s1 = s\<lparr>zones := zones s1, zone_array := zone_array s1\<rparr>" "zi = z_zoneindex (zones s z)"
    "linked (\<lambda>a. z_next (zones s1 a)) (zone_array s1 zi) zs" "z \<notin> set zs"
    "rt_sem_release (heap_sem s) (sk s) = Some (RT_EOK, k)" "heap_free k (heap_sem s)" "slab_conf s" "page_ok s rs"
    "z mod RT_MM_PAGE_SIZE = 0" "z \<noteq> RT_NULL" "run_pages (z, zone_page_cnt s) \<inter> all_pages rs = {}"
  shows "\<exists>s'. release_zone z s = Some (Now (), s') \<and> linked (\<lambda>a. z_next (zones s' a)) (zone_array s' zi) zs
     \<and> (if zone_free_cnt s < ZONE_RELEASE_THRESH
        then zone_free s' = z \<and> z_next (zones s' z) = zone_free s \<and> zone_free_cnt s' = zone_free_cnt s + 1 \<and> page_ok s' rs
        else zone_free s' = zone_free s \<and> zone_free_cnt s' = zone_free_cnt s \<and> page_ok s' (free_runs z (zone_page_cnt s) rs))"
proof -
  let ?s2 = "(upd_zone z (\<lambda>x. x\<lparr>z_magic := - 1, z_next := zone_free s\<rparr>) s1)"
  have f: "zone_free s1 = zone_free s" "zone_free_cnt s1 = zone_free_cnt s" "zone_size s1 = zone_size s" "zone_page_cnt s1 = zone_page_cnt s"
    "page_heads s1 = page_heads s" "rt_page_list s1 = rt_page_list s" "heap_sem s1 = heap_sem s" "sk s1 = sk s"
    by (subst assms(2), simp)+
  have l: "linked (\<lambda>a. z_next (zones ?s2 a)) (zone_array s1 zi) zs"
    using assms(4) by (rule linked_cong [THEN iffD1, rotated]) (use assms(5) in auto)
  have pg: "page_ok s' rs" if "page_heads s' = page_heads s" "rt_page_list s' = rt_page_list s" for s'
    using assms(9) that runs_from_cong [of rs s' s] by (simp add: page_ok_def)
  show ?thesis
  proof (cases "zone_free_cnt s < ZONE_RELEASE_THRESH")
    case True
    let ?s3 = "?s2\<lparr>zone_free := z, zone_free_cnt := zone_free_cnt s + 1\<rparr>"
    have "release_zone z s = slab_unlock () ?s3" using True assms(1,3) f(1,2) by (simp add: release_zone_def Let_def upd_zone_def)
    then have "release_zone z s = Some (Now (), ?s3\<lparr>sk := k\<rparr>)" using assms(6) f(7,8) by (simp add: slab_unlock_def)
    then show ?thesis using True l f pg by (intro exI [of _ "?s3\<lparr>sk := k\<rparr>"]) (simp add: upd_zone_def)
  next
    case False
    let ?s3 = "(set_usage z (\<lambda>_. (PAGE_TYPE_FREE, 0)) ?s2)\<lparr>sk := k\<rparr>"
    have cnt: "0 < zone_page_cnt s" "zone_page_cnt s = unat (zone_size s div 4096)" using assms(8) by (auto simp: slab_conf_def)
    have e: "release_zone z s = rt_page_free z (zone_page_cnt s) ?s3"
      using False assms(1,3,6) f cnt(2) by (simp add: release_zone_def Let_def then_do_def slab_unlock_def set_usage_def page_index_def upd_zone_def cong: if_cong)
    have g: "heap_free (sk ?s3) (heap_sem ?s3)" "page_ok ?s3 rs" using assms(7) f by (auto simp: set_usage_def upd_zone_def intro!: pg)
    from page_free_ok [OF g cnt(1) assms(10-12)] obtain s' where s': "rt_page_free z (zone_page_cnt s) ?s3 = Some (Now (), s')"
      "page_ok s' (free_runs z (zone_page_cnt s) rs)" "only_pages ?s3 s'" by blast
    have "zones s' = zones ?s2" "zone_array s' = zone_array s1" "zone_free s' = zone_free s" "zone_free_cnt s' = zone_free_cnt s"
      using only_pages_fields [OF s'(3)] f by (simp_all add: set_usage_def upd_zone_def)
    then show ?thesis using False e s' l by auto
  qed
qed

text \<open>C32: \<^verbatim>\<open>rt_malloc\<close> of a small block returns a chunk of at least the requested size: from the zone at the head of
  the list for its size, a chunk that was not live, and now is, with all other live chunks untouched; without
  such a zone, the first chunk of a new zone made from a spare one or from pages that were free, all of
  whose chunks lie inside it behind its header; and \<^verbatim>\<open>RT_NULL\<close> only if there is neither, nor a large enough run of pages.\<close>

theorem slab_malloc_spec:
  assumes "heap_free (sk s) (heap_sem s)" "slab_conf s" "0 < n" "n < zone_limit s" "zoneindex n = (zi, m)" "page_ok s rs"
    "zone_array s zi = z" "z \<noteq> RT_NULL \<longrightarrow> zone_ok s z fl \<and> 0 < z_nfree (zones s z) \<and> z_chunksize (zones s z) = m"
  shows "\<exists>c s'. rt_malloc_slab n s = Some (Now c, s') \<and> unat n \<le> unat m
     \<and> (if z \<noteq> RT_NULL then c \<in> zone_chunks (zones s z) \<and> c \<notin> zone_live s z fl \<and> zone_frame z s s'
          \<and> (\<exists>fl'. zone_ok s' z fl' \<and> zone_live s' z fl' = insert c (zone_live s z fl))
        else if zone_free s \<noteq> RT_NULL then fresh_zone (zone_free s) zi m (unat (zone_size s)) c s'
        else if c \<noteq> RT_NULL then (\<exists>y. run_pages (y, zone_page_cnt s) \<subseteq> all_pages rs \<and> fresh_zone y zi m (unat (zone_size s)) c s')
        else only_pages s s' \<and> (\<forall>r \<in> set rs. snd r < zone_page_cnt s))"
proof -
  note r = small_request [OF assms(2-5)]
  consider "z \<noteq> RT_NULL" | "z = RT_NULL" "zone_free s \<noteq> RT_NULL" | "z = RT_NULL" "zone_free s = RT_NULL" by blast
  then show ?thesis
  proof cases
    case 1
    then show ?thesis using malloc_existing [OF assms(1,3-5) r(2) assms(7), of fl] assms(8) r(4) by auto
  next
    case 2
    then show ?thesis using malloc_free_zone [OF assms(1-5), of "zone_free s"] assms(7) r(4) by auto
  next
    case 3
    obtain y rs' where al: "alloc_runs (zone_page_cnt s) rs = (y, rs')" by fastforce
    have cnt: "0 < zone_page_cnt s" "gaps rs" "\<forall>r \<in> set rs. fst r \<noteq> RT_NULL"
      using assms(2,6) runs_not_null by (auto simp: slab_conf_def page_ok_def)
    have a: "if y = RT_NULL then \<forall>r \<in> set rs. snd r < zone_page_cnt s else run_pages (y, zone_page_cnt s) \<subseteq> all_pages rs"
      using alloc_runs_ok [OF cnt(2,1) al cnt(3)] by (auto split: if_splits)
    have z0: "zone_array s zi = RT_NULL" using assms(7) 3(1) by simp
    from malloc_new_pages [OF assms(1-5) z0 3(2) assms(6) al] obtain s' where
      s': "if y = RT_NULL then rt_malloc_slab n s = Some (Now RT_NULL, s') \<and> only_pages s s'
       else \<exists>c. rt_malloc_slab n s = Some (Now c, s') \<and> fresh_zone y zi m (unat (zone_size s)) c s' \<and> sk s' = sk s
         \<and> (\<forall>off < zone_page_cnt s. memusage s' (page_index y s + off) = (PAGE_TYPE_SMALL, off))" by blast
    have f: "c \<noteq> RT_NULL" if "fresh_zone y zi m l c s'" for c l using that by (simp add: fresh_zone_def)
    show ?thesis
    proof (cases "y = RT_NULL")
      case True
      then show ?thesis using a s' 3 r(4) by auto
    next
      case False
      then obtain c where "rt_malloc_slab n s = Some (Now c, s')" "fresh_zone y zi m (unat (zone_size s)) c s'" using s' by auto
      then show ?thesis using False a 3 r(4) f by (intro exI [of _ c] exI [of _ s']) auto
    qed
  qed
qed

definition zone_slab :: slab where
  "zone_slab = demo_slab\<lparr>zones := (zones demo_slab)(0x18000 := \<lparr>z_magic = ZALLOC_SLAB_MAGIC, z_nfree = 155, z_nmax = 157,
       z_next = 0, z_baseptr = 0x18028, z_uindex = 2, z_chunksize = 208, z_zoneindex = 20, z_freechunk = 0x18028\<rparr>),
     zone_array := (\<lambda>_. 0)(20 := 0x18000), memusage := (\<lambda>i. if 8 \<le> i \<and> i < 16 then (PAGE_TYPE_SMALL, i - 8) else (PAGE_TYPE_FREE, 0))\<rparr>"

lemma zone_slab_touched: "touched (zones zone_slab 0x18000) = {0x18028, 0x180f8, 0x181c8}"
proof -
  have "{..2 :: nat} = {0, 1, 2}" by auto
  then show ?thesis by (simp add: touched_def zone_slab_def chunk_at_def)
qed

lemma zone_slab_ok:
  "heap_free (sk zone_slab) (heap_sem zone_slab)" "slab_conf zone_slab" "page_ok zone_slab [(0x12000, 1), (0x15000, 4)]"
  "zone_ok zone_slab 0x18000 [0x18028]" "zone_live zone_slab 0x18000 [0x18028] = {0x180f8, 0x181c8}"
  using demo_slab_ok zone_slab_touched
  by (simp_all add: zone_slab_def demo_slab_def slab_conf_def zone_ok_def zone_live_def page_ok_def)

theorem slab_malloc_spec_witness:
  "\<exists>c s' fl'. rt_malloc_slab 200 zone_slab = Some (Now c, s') \<and> c \<notin> {0x180f8, 0x181c8} \<and> zone_ok s' 0x18000 fl'
     \<and> zone_live s' 0x18000 fl' = {c, 0x180f8, 0x181c8}"
proof -
  have z: "zoneindex 200 = (20, 208)" "200 < zone_limit zone_slab" "zone_array zone_slab 20 = 0x18000"
    "0 < z_nfree (zones zone_slab 0x18000)" "z_chunksize (zones zone_slab 0x18000) = 208"
    by (simp_all add: zoneindex_def zone_slab_def demo_slab_def)
  then show ?thesis
    using slab_malloc_spec [OF zone_slab_ok(1,2) _ z(2,1) zone_slab_ok(3) z(3), of "[0x18028]"] zone_slab_ok(4,5) by auto
qed

lemma slab_free_chunk:
  assumes "heap_free (sk s) (heap_sem s)" "zone_ok s z fl" "c \<in> zone_live s z fl" 
    "zone_live s z fl \<noteq> {c} \<or> 0 < z_nfree (zones s z) \<and> z_next (zones s z) = RT_NULL \<and> zone_array s (z_zoneindex (zones s z)) = z"
    "sl_start s \<le> c" "memusage s (page_index c s) = (PAGE_TYPE_SMALL, off)" "z = c div RT_MM_PAGE_SIZE * RT_MM_PAGE_SIZE - off * RT_MM_PAGE_SIZE"
    "z_magic (zones s z) = ZALLOC_SLAB_MAGIC"
  shows "\<exists>s'. rt_free_slab c s = Some (Now (), s') \<and> zone_ok s' z (c # fl) \<and> zone_live s' z (c # fl) = zone_live s z fl - {c}
     \<and> zone_frame z s s' \<and> zone_array s' = (if z_nfree (zones s z) = 0 then (zone_array s)(z_zoneindex (zones s z) := z) else zone_array s)"
proof -
  obtain k1 where k1: "slab_lock s = Some (Now (), s\<lparr>sk := k1\<rparr>)" "rt_sem_release (heap_sem s) k1 = Some (RT_EOK, sk s)"
    using slab_locked [OF assms(1)] by blast
  let ?s = "s\<lparr>sk := k1\<rparr>"
  have c: "c \<noteq> RT_NULL" by (rule live_not_null [OF assms(2,3)])
  have f: "zone_ok (free_chunk z c ?s) z (c # fl)" "zone_frame z ?s (free_chunk z c ?s)"
    "zone_live (free_chunk z c ?s) z (c # fl) = zone_live s z fl - {c}"
    "z_nfree (zones (free_chunk z c ?s) z) = z_nfree (zones s z) + 1"
    "zone_array (free_chunk z c ?s) = (if z_nfree (zones s z) = 0 then (zone_array s)(z_zoneindex (zones s z) := z) else zone_array s)"
    using free_chunk_ok [of ?s z fl c] assms(2,3) by simp_all
  have n: "z_nmax (zones (free_chunk z c ?s) z) = z_nmax (zones s z)" using f(2) by (simp add: zone_frame_def same_zone_def)
  have "z_nfree (zones (free_chunk z c ?s) z) \<noteq> z_nmax (zones (free_chunk z c ?s) z)
     \<or> z_next (zones (free_chunk z c ?s) z) = RT_NULL \<and> zone_array (free_chunk z c ?s) (z_zoneindex (zones s z)) = z"
  proof (cases "zone_live s z fl = {c}")
    case True
    then have "0 < z_nfree (zones s z)" "z_next (zones s z) = RT_NULL" "zone_array s (z_zoneindex (zones s z)) = z" using assms(4) by simp_all
    then show ?thesis by (simp add: free_chunk_def Let_def)
  next
    case False
    then show ?thesis using live_card [OF assms(2,3)] f(4) n by simp
  qed
  moreover have "slab_unlock () (free_chunk z c ?s) = Some (Now (), (free_chunk z c ?s)\<lparr>sk := sk s\<rparr>)"
    using f(2) by (intro slab_unlocked [OF k1(2)]) (auto simp: zone_frame_def)
  ultimately have "rt_free_slab c s = Some (Now (), (free_chunk z c ?s)\<lparr>sk := sk s\<rparr>)"
    using assms(5,6,8) assms(7) [symmetric] c k1(1) by (auto simp: rt_free_slab_def then_do_def Let_def)
  moreover have "zone_frame z s ((free_chunk z c ?s)\<lparr>sk := sk s\<rparr>)" using f(2) by (simp add: zone_frame_def)
  ultimately show ?thesis using f(1,3,5) by (intro exI [of _ "(free_chunk z c ?s)\<lparr>sk := sk s\<rparr>"]) simp
qed

lemma slab_free_last:
  assumes "heap_free (sk s) (heap_sem s)" "slab_conf s" "page_ok s rs" "zone_ok s z fl" "zone_live s z fl = {c}" "0 < z_nfree (zones s z)"
    "linked (\<lambda>a. z_next (zones s a)) (zone_array s zi) (xs @ z # ys)" "distinct (xs @ z # ys)" "xs @ ys \<noteq> []"
    "zi = z_zoneindex (zones s z)" "z_magic (zones s z) = ZALLOC_SLAB_MAGIC" "run_pages (z, zone_page_cnt s) \<inter> all_pages rs = {}"
    "sl_start s \<le> c" "memusage s (page_index c s) = (PAGE_TYPE_SMALL, off)" "z = c div RT_MM_PAGE_SIZE * RT_MM_PAGE_SIZE - off * RT_MM_PAGE_SIZE"
  shows "\<exists>s'. rt_free_slab c s = Some (Now (), s') \<and> linked (\<lambda>a. z_next (zones s' a)) (zone_array s' zi) (xs @ ys)
     \<and> (if zone_free_cnt s < ZONE_RELEASE_THRESH
        then zone_free s' = z \<and> z_next (zones s' z) = zone_free s \<and> zone_free_cnt s' = zone_free_cnt s + 1 \<and> page_ok s' rs
        else zone_free s' = zone_free s \<and> zone_free_cnt s' = zone_free_cnt s \<and> page_ok s' (free_runs z (zone_page_cnt s) rs))"
proof -
  obtain k1 where k1: "slab_lock s = Some (Now (), s\<lparr>sk := k1\<rparr>)" "rt_sem_release (heap_sem s) k1 = Some (RT_EOK, sk s)"
    using slab_locked [OF assms(1)] by blast
  let ?s = "free_chunk z c (s\<lparr>sk := k1\<rparr>)"
  have c: "c \<noteq> RT_NULL" using live_not_null [OF assms(4)] assms(5) by simp
  have z: "z mod RT_MM_PAGE_SIZE = 0" "z \<noteq> RT_NULL" using assms(15) linked_not_null [OF assms(7), of z] by (simp_all flip: diff_mult_distrib)
  have pre: "zone_ok (s\<lparr>sk := k1\<rparr>) z fl" "zone_live (s\<lparr>sk := k1\<rparr>) z fl = {c}" "0 < z_nfree (zones (s\<lparr>sk := k1\<rparr>) z)"
    "zi = z_zoneindex (zones (s\<lparr>sk := k1\<rparr>) z)" "linked (\<lambda>a. z_next (zones (s\<lparr>sk := k1\<rparr>) a)) (zone_array (s\<lparr>sk := k1\<rparr>) zi) (xs @ z # ys)"
    using assms(4-7,10) by simp_all
  note f = free_last_chunk [OF pre assms(8,9)]
  from f(3) obtain s1 where s1: "zone_unlink_loop z zi None ?s = Some s1" "linked (\<lambda>a. z_next (zones s1 a)) (zone_array s1 zi) (xs @ ys)"
    "s1 = ?s\<lparr>zones := zones s1, zone_array := zone_array s1\<rparr>" by blast
  have e: "rt_free_slab c s = release_zone z ?s"
    using c assms(11,13,14) assms(15) [symmetric] assms(10) k1(1) f(1,2) by (auto simp: rt_free_slab_def then_do_def Let_def)
  have g: "zi = z_zoneindex (zones ?s z)" "z \<notin> set (xs @ ys)" "rt_sem_release (heap_sem ?s) (sk ?s) = Some (RT_EOK, sk s)"
    "heap_free (sk s) (heap_sem ?s)" "slab_conf ?s" "page_ok ?s rs" "run_pages (z, zone_page_cnt ?s) \<inter> all_pages rs = {}"
    using assms(1-3,8,10,12) k1(2) runs_from_cong [of rs ?s s] by (simp_all add: slab_conf_def page_ok_def)
  from release_zone_ok [OF s1(1,3) g(1) s1(2) g(2-6) z g(7)] show ?thesis
    unfolding e by (simp cong: if_cong)
qed

text \<open>C33: \<^verbatim>\<open>rt_free\<close> of a live small block finds the block's zone through the descriptor of its page. While the
  zone has other live chunks, or is the only one for its size, exactly this chunk becomes free, the zone stays sound and
  can serve it to a later request; a zone that was full is put back on the list for its size. With its last live chunk
  the zone leaves the list of its size, wherever it is in it; two such zones are put aside, and the pages of the next are
  free again.\<close>

theorem slab_free_spec:
  assumes "heap_free (sk s) (heap_sem s)" "zone_ok s z fl" "c \<in> zone_live s z fl" "zi = z_zoneindex (zones s z)"
    "sl_start s \<le> c" "memusage s (page_index c s) = (PAGE_TYPE_SMALL, off)" "z = c div RT_MM_PAGE_SIZE * RT_MM_PAGE_SIZE - off * RT_MM_PAGE_SIZE"
    "z_magic (zones s z) = ZALLOC_SLAB_MAGIC"
  shows "(zone_live s z fl \<noteq> {c} \<or> 0 < z_nfree (zones s z) \<and> z_next (zones s z) = RT_NULL \<and> zone_array s zi = z \<longrightarrow>
       (\<exists>s'. rt_free_slab c s = Some (Now (), s') \<and> zone_ok s' z (c # fl) \<and> zone_live s' z (c # fl) = zone_live s z fl - {c}
          \<and> zone_frame z s s' \<and> zone_array s' = (if z_nfree (zones s z) = 0 then (zone_array s)(zi := z) else zone_array s)))
     \<and> (zone_live s z fl = {c} \<and> 0 < z_nfree (zones s z) \<and> linked (\<lambda>a. z_next (zones s a)) (zone_array s zi) (xs @ z # ys)
          \<and> distinct (xs @ z # ys) \<and> xs @ ys \<noteq> [] \<and> slab_conf s \<and> page_ok s rs \<and> run_pages (z, zone_page_cnt s) \<inter> all_pages rs = {} \<longrightarrow>
       (\<exists>s'. rt_free_slab c s = Some (Now (), s') \<and> linked (\<lambda>a. z_next (zones s' a)) (zone_array s' zi) (xs @ ys)
          \<and> (if zone_free_cnt s < ZONE_RELEASE_THRESH
             then zone_free s' = z \<and> z_next (zones s' z) = zone_free s \<and> zone_free_cnt s' = zone_free_cnt s + 1 \<and> page_ok s' rs
             else zone_free s' = zone_free s \<and> zone_free_cnt s' = zone_free_cnt s \<and> page_ok s' (free_runs z (zone_page_cnt s) rs))))"
proof (intro conjI impI, goal_cases)
  case 1
  then show ?case unfolding assms(4) by (intro slab_free_chunk [OF assms(1-3) _ assms(5-8)])
next
  case 2
  then show ?case by (intro slab_free_last [OF assms(1) _ _ assms(2) _ _ _ _ _ assms(4,8) _ assms(5-7)]) blast+
qed

theorem slab_free_spec_witness:
  "\<exists>s'. rt_free_slab 0x180f8 zone_slab = Some (Now (), s') \<and> zone_ok s' 0x18000 [0x180f8, 0x18028] \<and> zone_live s' 0x18000 [0x180f8, 0x18028] = {0x181c8}"
proof -
  have "memusage zone_slab (page_index 0x180f8 zone_slab) = (PAGE_TYPE_SMALL, 0)" "sl_start zone_slab \<le> 0x180f8"
    "z_magic (zones zone_slab 0x18000) = ZALLOC_SLAB_MAGIC" "(0x18000 :: nat) = 0x180f8 div 4096 * 4096 - 0 * 4096"
    by (simp_all add: zone_slab_def demo_slab_def page_index_def)
  from slab_free_spec [OF zone_slab_ok(1,4) _ refl this(2,1,4,3)] zone_slab_ok(5) show ?thesis by auto
qed

end
