(* ===== verification/RT_Serial.thy ===== *)
theory RT_Serial
  imports RT_Device RT_DataQueue
begin

text \<open>
  Serial devices (\<^verbatim>\<open>components/drivers/serial/serial.c\<close> and \<^verbatim>\<open>components/drivers/include/drivers/serial.h\<close>): the
  layer between the device interface and a UART driver. Received bytes go through a software
  FIFO, filled by the interrupt handler or by DMA; sending polls, waits for a completion, or queues
  blocks for DMA. The functions of the UART driver and the callbacks of the application are
  arguments. The file operations belong to the POSIX layer, which the reference configuration leaves out.
\<close>

subsection \<open>State\<close>

record serial_configure =
  baud_rate :: u32
  data_bits :: nat
  stop_bits :: nat
  parity :: nat
  bit_order :: nat
  invert :: nat
  bufsz :: u16

record rt_serial_rx_fifo =
  rx_buffer :: ptr
  rx_put :: u16
  rx_get :: u16
  is_full :: bool

record rt_serial_tx_dma =
  tx_activated :: bool
  tx_queue :: rt_data_queue

record rt_serial_device =
  config :: serial_configure
  serial_rx :: ptr
  serial_tx :: ptr

text \<open>
  The state of the device layer, extended by the serial devices (at the addresses of their devices), the structures
  allocated for receiving and sending, by address, and the state \<open>hw\<close> of the hardware. The completion
  of an interrupt-driven sender is at the address of its structure, the data queue of a DMA sender behind its flag.
\<close>

record 'h serial_state = dev_state +
  serials :: "ptr \<Rightarrow> rt_serial_device"
  rx_fifos :: "ptr \<Rightarrow> rt_serial_rx_fifo"
  rx_activated :: "ptr \<Rightarrow> bool"
  tx_completion :: "ptr \<Rightarrow> u32"
  tx_dmas :: "ptr \<Rightarrow> rt_serial_tx_dma"
  hw :: 'h

record 'h uart_ops =
  configure_op :: "(ptr \<Rightarrow> serial_configure \<Rightarrow> 'h serial_state \<Rightarrow> (err \<times> 'h serial_state) option) option"
  control_op :: "ptr \<Rightarrow> int \<Rightarrow> ptr \<Rightarrow> 'h serial_state \<Rightarrow> (err \<times> 'h serial_state) option"
  putc_op :: "ptr \<Rightarrow> u8 \<Rightarrow> 'h serial_state \<Rightarrow> (int \<times> 'h serial_state) option"
  getc_op :: "ptr \<Rightarrow> 'h serial_state \<Rightarrow> (int \<times> 'h serial_state) option"
  dma_op :: "(ptr \<Rightarrow> ptr \<Rightarrow> u32 \<Rightarrow> int \<Rightarrow> 'h serial_state \<Rightarrow> 'h serial_state option) option"

text \<open>The callbacks: their first argument is the address of the function, the second the device.\<close>

record 'h serial_calls =
  rx_ind_call :: "ptr \<Rightarrow> ptr \<Rightarrow> u32 \<Rightarrow> 'h serial_state \<Rightarrow> 'h serial_state option"
  tx_done_call :: "ptr \<Rightarrow> ptr \<Rightarrow> ptr \<Rightarrow> 'h serial_state \<Rightarrow> 'h serial_state option"

abbreviation (input) RT_DEVICE_FLAG_SUSPENDED :: u16 where "RT_DEVICE_FLAG_SUSPENDED \<equiv> 0x020"
abbreviation (input) RT_DEVICE_FLAG_INT_RX :: u16 where "RT_DEVICE_FLAG_INT_RX \<equiv> 0x100"
abbreviation (input) RT_DEVICE_FLAG_DMA_RX :: u16 where "RT_DEVICE_FLAG_DMA_RX \<equiv> 0x200"
abbreviation (input) RT_DEVICE_FLAG_INT_TX :: u16 where "RT_DEVICE_FLAG_INT_TX \<equiv> 0x400"
abbreviation (input) RT_DEVICE_FLAG_DMA_TX :: u16 where "RT_DEVICE_FLAG_DMA_TX \<equiv> 0x800"
abbreviation (input) RT_DEVICE_CTRL_RESUME :: int where "RT_DEVICE_CTRL_RESUME \<equiv> 1"
abbreviation (input) RT_DEVICE_CTRL_SUSPEND :: int where "RT_DEVICE_CTRL_SUSPEND \<equiv> 2"
abbreviation (input) RT_DEVICE_CTRL_CONFIG :: int where "RT_DEVICE_CTRL_CONFIG \<equiv> 3"
abbreviation (input) RT_DEVICE_CTRL_SET_INT :: int where "RT_DEVICE_CTRL_SET_INT \<equiv> 0x10"
abbreviation (input) RT_DEVICE_CTRL_CLR_INT :: int where "RT_DEVICE_CTRL_CLR_INT \<equiv> 0x11"
abbreviation (input) RT_SERIAL_DMA_RX :: int where "RT_SERIAL_DMA_RX \<equiv> 1"
abbreviation (input) RT_SERIAL_DMA_TX :: int where "RT_SERIAL_DMA_TX \<equiv> 2"
abbreviation (input) RT_Device_Class_Char :: nat where "RT_Device_Class_Char \<equiv> 0"
abbreviation (input) RT_EIO :: err where "RT_EIO \<equiv> 8"
abbreviation (input) CR :: u8 where "CR \<equiv> 13"
abbreviation (input) LF :: u8 where "LF \<equiv> 10"

definition upd_serial :: "ptr \<Rightarrow> (rt_serial_device \<Rightarrow> rt_serial_device) \<Rightarrow> 'h serial_state \<Rightarrow> 'h serial_state" where
  "upd_serial d f s = s\<lparr>serials := (serials s)(d := f (serials s d))\<rparr>"

definition upd_rx :: "ptr \<Rightarrow> (rt_serial_rx_fifo \<Rightarrow> rt_serial_rx_fifo) \<Rightarrow> 'h serial_state \<Rightarrow> 'h serial_state" where
  "upd_rx rx f s = s\<lparr>rx_fifos := (rx_fifos s)(rx := f (rx_fifos s rx))\<rparr>"

definition store_byte :: "ptr \<Rightarrow> u8 \<Rightarrow> 'h serial_state \<Rightarrow> 'h serial_state" where
  "store_byte a c s = s\<lparr>dk := (dk s)\<lparr>bmem := (bmem (dk s))(a := c)\<rparr>\<rparr>"

abbreviation serial_bufsz :: "ptr \<Rightarrow> 'h serial_state \<Rightarrow> u16" where
  "serial_bufsz d s \<equiv> bufsz (config (serials s d))"

subsection \<open>Polling\<close>

text \<open>The loops return how much of the length is left.\<close>

fun poll_rx_loop :: "'h uart_ops \<Rightarrow> ptr \<Rightarrow> ptr \<Rightarrow> nat \<Rightarrow> 'h serial_state \<Rightarrow> (nat \<times> 'h serial_state) option" where
  "poll_rx_loop ops d data 0 s = Some (0, s)"
| "poll_rx_loop ops d data (Suc n) s = do {
     (ch, s) \<leftarrow> getc_op ops d s;
     if ch = - 1 then Some (Suc n, s)
     else do {
       let s = store_byte data (word_of_int ch) s;
       if ch = 10 then Some (n, s) else poll_rx_loop ops d (data + 1) n s
     }
   }"

definition serial_poll_rx :: "'h uart_ops \<Rightarrow> ptr \<Rightarrow> ptr \<Rightarrow> u32 \<Rightarrow> 'h serial_state \<Rightarrow> (u32 \<times> 'h serial_state) option" where
  "serial_poll_rx ops d data sz s = do {
     RT_ASSERT (d \<noteq> RT_NULL);
     (n, s) \<leftarrow> poll_rx_loop ops d data (unat sz) s;
     Some (sz - of_nat n, s)
   }"

fun poll_tx_loop :: "'h uart_ops \<Rightarrow> ptr \<Rightarrow> ptr \<Rightarrow> nat \<Rightarrow> 'h serial_state \<Rightarrow> 'h serial_state option" where
  "poll_tx_loop ops d data 0 s = Some s"
| "poll_tx_loop ops d data (Suc n) s = do {
     s \<leftarrow> (if bmem (dk s) data = LF \<and> open_flag (devices s d) AND RT_DEVICE_FLAG_STREAM \<noteq> 0
           then do { (_, s) \<leftarrow> putc_op ops d CR s; Some s } else Some s);
     (_, s) \<leftarrow> putc_op ops d (bmem (dk s) data) s;
     poll_tx_loop ops d (data + 1) n s
   }"

definition serial_poll_tx :: "'h uart_ops \<Rightarrow> ptr \<Rightarrow> ptr \<Rightarrow> u32 \<Rightarrow> 'h serial_state \<Rightarrow> (u32 \<times> 'h serial_state) option" where
  "serial_poll_tx ops d data sz s = do {
     RT_ASSERT (d \<noteq> RT_NULL);
     s \<leftarrow> poll_tx_loop ops d data (unat sz) s;
     Some (sz, s)
   }"

subsection \<open>Interrupts\<close>

fun int_rx_loop :: "ptr \<Rightarrow> ptr \<Rightarrow> ptr \<Rightarrow> nat \<Rightarrow> 'h serial_state \<Rightarrow> nat \<times> 'h serial_state" where
  "int_rx_loop d rx data 0 s = (0, s)"
| "int_rx_loop d rx data (Suc n) s =
     (let x = rx_fifos s rx in
      if rx_get x = rx_put x \<and> \<not> is_full x then (Suc n, s)
      else
        (let ch = bmem (dk s) (rx_buffer x + unat (rx_get x));
             x = x\<lparr>rx_get := rx_get x + 1\<rparr>;
             x = (if rx_get x \<ge> serial_bufsz d s then x\<lparr>rx_get := 0\<rparr> else x);
             x = (if is_full x then x\<lparr>is_full := False\<rparr> else x)
         in int_rx_loop d rx (data + 1) n (store_byte data ch (upd_rx rx (\<lambda>_. x) s))))"

definition serial_int_rx :: "ptr \<Rightarrow> ptr \<Rightarrow> u32 \<Rightarrow> 'h serial_state \<Rightarrow> (u32 \<times> 'h serial_state) option" where
  "serial_int_rx d data sz s = do {
     RT_ASSERT (d \<noteq> RT_NULL);
     let rx = serial_rx (serials s d);
     RT_ASSERT (rx \<noteq> RT_NULL);
     let (n, s) = int_rx_loop d rx data (unat sz) s;
     Some (sz - of_nat n, s)
   }"

text \<open>A write is complete, or waits for the completion with the rest of its data, or waits for room in the data queue.\<close>

datatype write_call = Written u32 | Tx_waits ptr nat | Push_waits

partial_function (option) int_tx_loop :: "'h uart_ops \<Rightarrow> ptr \<Rightarrow> ptr \<Rightarrow> ptr \<Rightarrow> nat \<Rightarrow> u32 \<Rightarrow> 'h serial_state \<Rightarrow> (write_call \<times> 'h serial_state) option" where
  "int_tx_loop ops d tx data n sz s =
     (if n = 0 then Some (Written sz, s)
      else do {
        (r, s) \<leftarrow> putc_op ops d (bmem (dk s) data) s;
        if r = - 1 then do {
          (out, fl, k) \<leftarrow> rt_completion_wait tx RT_WAITING_FOREVER (tx_completion s tx) (dk s);
          let s = s\<lparr>dk := k, tx_completion := (tx_completion s)(tx := fl)\<rparr>;
          (case out of Done _ \<Rightarrow> int_tx_loop ops d tx data n sz s | Blocked \<Rightarrow> Some (Tx_waits data n, s))
        }
        else int_tx_loop ops d tx (data + 1) (n - 1) sz s
      })"

definition serial_int_tx :: "'h uart_ops \<Rightarrow> ptr \<Rightarrow> ptr \<Rightarrow> u32 \<Rightarrow> 'h serial_state \<Rightarrow> (write_call \<times> 'h serial_state) option" where
  "serial_int_tx ops d data sz s = do {
     RT_ASSERT (d \<noteq> RT_NULL);
     let tx = serial_tx (serials s d);
     RT_ASSERT (tx \<noteq> RT_NULL);
     int_tx_loop ops d tx data (unat sz) sz s
   }"

text \<open>The rest of the loop, when the thread that waits in \<open>Tx_waits data n\<close> runs again.\<close>

definition serial_int_tx_resume :: "'h uart_ops \<Rightarrow> ptr \<Rightarrow> ptr \<Rightarrow> nat \<Rightarrow> u32 \<Rightarrow> 'h serial_state \<Rightarrow> (write_call \<times> 'h serial_state) option" where
  "serial_int_tx_resume ops d data n sz s =
     (let tx = serial_tx (serials s d);
          (_, fl) = rt_completion_wait_resume (rt_thread_self (dk s)) (dk s)
      in int_tx_loop ops d tx data n sz (s\<lparr>tx_completion := (tx_completion s)(tx := fl)\<rparr>))"

subsection \<open>DMA\<close>

definition rt_dma_calc_recved_len :: "ptr \<Rightarrow> 'h serial_state \<Rightarrow> u32 option" where
  "rt_dma_calc_recved_len d s = do {
     let rx = serial_rx (serials s d);
     RT_ASSERT (rx \<noteq> RT_NULL);
     let x = rx_fifos s rx;
     Some (if rx_put x = rx_get x then (if \<not> is_full x then 0 else ucast (serial_bufsz d s))
           else if rx_put x > rx_get x then ucast (rx_put x) - ucast (rx_get x)
           else ucast (serial_bufsz d s) - (ucast (rx_get x) - ucast (rx_put x)))
   }"

text \<open>The index modulo the size of the buffer, where it is beyond the end.\<close>

definition fifo_wrap :: "u16 \<Rightarrow> u16 \<Rightarrow> u16 option" where
  "fifo_wrap i n = (if i \<ge> n then do { C_GUARD (n \<noteq> 0); Some (i mod n) } else Some i)"

definition rt_dma_recv_update_get_index :: "ptr \<Rightarrow> u32 \<Rightarrow> 'h serial_state \<Rightarrow> 'h serial_state option" where
  "rt_dma_recv_update_get_index d len s = do {
     let rx = serial_rx (serials s d);
     RT_ASSERT (rx \<noteq> RT_NULL);
     recved \<leftarrow> rt_dma_calc_recved_len d s;
     RT_ASSERT (len \<le> recved);
     let x = rx_fifos s rx;
     let x = (if is_full x \<and> len \<noteq> 0 then x\<lparr>is_full := False\<rparr> else x);
     i \<leftarrow> fifo_wrap (ucast (ucast (rx_get x) + len)) (serial_bufsz d s);
     Some (upd_rx rx (\<lambda>_. x\<lparr>rx_get := i\<rparr>) s)
   }"

definition rt_dma_recv_update_put_index :: "ptr \<Rightarrow> u32 \<Rightarrow> 'h serial_state \<Rightarrow> 'h serial_state option" where
  "rt_dma_recv_update_put_index d len s = do {
     let rx = serial_rx (serials s d);
     RT_ASSERT (rx \<noteq> RT_NULL);
     let x = rx_fifos s rx;
     let n = serial_bufsz d s;
     let put' = ucast (ucast (rx_put x) + len);
     x \<leftarrow> (if rx_get x \<le> rx_put x then
             if put' \<ge> n then do {
               i \<leftarrow> fifo_wrap put' n;
               let x = x\<lparr>rx_put := i\<rparr>;
               Some (if rx_put x \<ge> rx_get x then x\<lparr>is_full := True\<rparr> else x)
             }
             else Some (x\<lparr>rx_put := put'\<rparr>)
           else if put' \<ge> rx_get x then do {
             i \<leftarrow> fifo_wrap put' n;
             Some (x\<lparr>rx_put := i, is_full := True\<rparr>)
           }
           else Some (x\<lparr>rx_put := put'\<rparr>));
     let x = (if is_full x then x\<lparr>rx_get := rx_put x\<rparr> else x);
     Some (upd_rx rx (\<lambda>_. x) s)
   }"

definition serial_dma_rx :: "'h uart_ops \<Rightarrow> ptr \<Rightarrow> ptr \<Rightarrow> u32 \<Rightarrow> 'h serial_state \<Rightarrow> (u32 \<times> 'h serial_state) option" where
  "serial_dma_rx ops d data sz s = do {
     RT_ASSERT (d \<noteq> RT_NULL \<and> data \<noteq> RT_NULL);
     let rx = serial_rx (serials s d);
     if serial_bufsz d s = 0 then do {
       RT_ASSERT (rx \<noteq> RT_NULL);
       if \<not> rx_activated s rx then do {
         let s = s\<lparr>rx_activated := (rx_activated s)(rx := True)\<rparr>;
         dma_transmit \<leftarrow> dma_op ops;
         s \<leftarrow> dma_transmit d data sz RT_SERIAL_DMA_RX s;
         Some (sz, s)
       }
       else Some (0, s\<lparr>dk := rt_set_errno (- RT_EBUSY) (dk s)\<rparr>)
     }
     else do {
       fifo_recved_len \<leftarrow> rt_dma_calc_recved_len d s;
       let x = rx_fifos s rx;
       let recv_len = (if sint sz < sint fifo_recved_len then sz else fifo_recved_len);
       let n = (ucast (serial_bufsz d s) :: u32);
       let g = (ucast (rx_get x) :: u32);
       m \<leftarrow> (if g + recv_len < n then rt_memcpy data (rx_buffer x + unat g) (unat recv_len) (bmem (dk s))
             else do {
               m \<leftarrow> rt_memcpy data (rx_buffer x + unat g) (unat (n - g)) (bmem (dk s));
               rt_memcpy (data + unat n - unat g) (rx_buffer x) (unat (recv_len + g - n)) m
             });
       s \<leftarrow> rt_dma_recv_update_get_index d recv_len (s\<lparr>dk := (dk s)\<lparr>bmem := m\<rparr>\<rparr>);
       Some (recv_len, s)
     }
   }"

text \<open>The data queue has no notification function.\<close>

definition no_notify :: dq_notify where
  "no_notify ev q k = Some (q, k)"

definition dma_tx_start :: "'h uart_ops \<Rightarrow> ptr \<Rightarrow> ptr \<Rightarrow> u32 \<Rightarrow> 'h serial_state \<Rightarrow> (write_call \<times> 'h serial_state) option" where
  "dma_tx_start ops d data sz s = do {
     let tx = serial_tx (serials s d);
     if \<not> tx_activated (tx_dmas s tx) then do {
       let s = s\<lparr>tx_dmas := (tx_dmas s)(tx := (tx_dmas s tx)\<lparr>tx_activated := True\<rparr>)\<rparr>;
       dma_transmit \<leftarrow> dma_op ops;
       s \<leftarrow> dma_transmit d data sz RT_SERIAL_DMA_TX s;
       Some (Written sz, s)
     }
     else Some (Written sz, s)
   }"

definition dma_tx_pushed :: "'h uart_ops \<Rightarrow> ptr \<Rightarrow> ptr \<Rightarrow> u32 \<Rightarrow> outcome \<times> rt_data_queue \<times> kernel \<Rightarrow> 'h serial_state \<Rightarrow> (write_call \<times> 'h serial_state) option" where
  "dma_tx_pushed ops d data sz r s =
     (let tx = serial_tx (serials s d);
          (out, q, k) = r;
          s = s\<lparr>dk := k, tx_dmas := (tx_dmas s)(tx := (tx_dmas s tx)\<lparr>tx_queue := q\<rparr>)\<rparr>
      in case out of
           Blocked \<Rightarrow> Some (Push_waits, s)
         | Done e \<Rightarrow> if e = RT_EOK then dma_tx_start ops d data sz s
                    else Some (Written 0, s\<lparr>dk := rt_set_errno e (dk s)\<rparr>))"

definition serial_dma_tx :: "'h uart_ops \<Rightarrow> ptr \<Rightarrow> ptr \<Rightarrow> u32 \<Rightarrow> 'h serial_state \<Rightarrow> (write_call \<times> 'h serial_state) option" where
  "serial_dma_tx ops d data sz s = do {
     let tx = serial_tx (serials s d);
     C_GUARD (tx \<noteq> RT_NULL);
     r \<leftarrow> rt_data_queue_push no_notify (tx + 4) data sz RT_WAITING_FOREVER (tx_queue (tx_dmas s tx)) (dk s);
     dma_tx_pushed ops d data sz r s
   }"

definition serial_dma_tx_resume :: "'h uart_ops \<Rightarrow> ptr \<Rightarrow> ptr \<Rightarrow> u32 \<Rightarrow> 'h serial_state \<Rightarrow> (write_call \<times> 'h serial_state) option" where
  "serial_dma_tx_resume ops d data sz s = do {
     let tx = serial_tx (serials s d);
     r \<leftarrow> rt_data_queue_push_resume no_notify (tx + 4) data sz RT_WAITING_FOREVER (tx_queue (tx_dmas s tx)) (dk s);
     dma_tx_pushed ops d data sz r s
   }"

subsection \<open>The device interface\<close>

definition rt_serial_init :: "'h uart_ops \<Rightarrow> ptr \<Rightarrow> 'h serial_state \<Rightarrow> (err \<times> 'h serial_state) option" where
  "rt_serial_init ops d s = do {
     RT_ASSERT (d \<noteq> RT_NULL);
     let s = upd_serial d (\<lambda>x. x\<lparr>serial_rx := RT_NULL, serial_tx := RT_NULL\<rparr>) s;
     (case configure_op ops of Some configure \<Rightarrow> configure d (config (serials s d)) s | None \<Rightarrow> Some (RT_EOK, s))
   }"

definition add_oflag :: "ptr \<Rightarrow> u16 \<Rightarrow> 'h serial_state \<Rightarrow> 'h serial_state" where
  "add_oflag d fl s = upd_dev d (\<lambda>x. x\<lparr>open_flag := open_flag x OR fl\<rparr>) s"

definition del_oflag :: "ptr \<Rightarrow> u16 \<Rightarrow> 'h serial_state \<Rightarrow> 'h serial_state" where
  "del_oflag d fl s = upd_dev d (\<lambda>x. x\<lparr>open_flag := open_flag x AND NOT fl\<rparr>) s"

definition open_rx_fifo :: "(u32 \<Rightarrow> kernel \<Rightarrow> ptr \<times> kernel) \<Rightarrow> ptr \<Rightarrow> 'h serial_state \<Rightarrow> 'h serial_state option" where
  "open_rx_fifo malloc d s = do {
     let (p, k) = malloc (12 + ucast (serial_bufsz d s)) (dk s);
     RT_ASSERT (p \<noteq> RT_NULL);
     let k = k\<lparr>bmem := rt_memset (p + 12) 0 (unat (serial_bufsz d s)) (bmem k)\<rparr>;
     let s = upd_rx p (\<lambda>_. \<lparr>rx_buffer = p + 12, rx_put = 0, rx_get = 0, is_full = False\<rparr>) (s\<lparr>dk := k\<rparr>);
     Some (upd_serial d (\<lambda>x. x\<lparr>serial_rx := p\<rparr>) s)
   }"

definition open_rx :: "'h uart_ops \<Rightarrow> (u32 \<Rightarrow> kernel \<Rightarrow> ptr \<times> kernel) \<Rightarrow> ptr \<Rightarrow> u16 \<Rightarrow> 'h serial_state \<Rightarrow> 'h serial_state option" where
  "open_rx ops malloc d oflag s =
     (if serial_rx (serials s d) = RT_NULL then
        if oflag AND RT_DEVICE_FLAG_INT_RX \<noteq> 0 then do {
          s \<leftarrow> open_rx_fifo malloc d s;
          (_, s) \<leftarrow> control_op ops d RT_DEVICE_CTRL_SET_INT (unat RT_DEVICE_FLAG_INT_RX) (add_oflag d RT_DEVICE_FLAG_INT_RX s);
          Some s
        }
        else if oflag AND RT_DEVICE_FLAG_DMA_RX \<noteq> 0 then do {
          s \<leftarrow> (if serial_bufsz d s = 0 then do {
                  let (p, k) = malloc 4 (dk s);
                  RT_ASSERT (p \<noteq> RT_NULL);
                  let s = s\<lparr>dk := k, rx_activated := (rx_activated s)(p := False)\<rparr>;
                  Some (upd_serial d (\<lambda>x. x\<lparr>serial_rx := p\<rparr>) s)
                } else do {
                  s \<leftarrow> open_rx_fifo malloc d s;
                  (_, s) \<leftarrow> control_op ops d RT_DEVICE_CTRL_CONFIG (unat RT_DEVICE_FLAG_DMA_RX) s;
                  Some s
                });
          Some (add_oflag d RT_DEVICE_FLAG_DMA_RX s)
        }
        else Some (upd_serial d (\<lambda>x. x\<lparr>serial_rx := RT_NULL\<rparr>) s)
      else Some (if oflag AND RT_DEVICE_FLAG_INT_RX \<noteq> 0 then add_oflag d RT_DEVICE_FLAG_INT_RX s
                 else if oflag AND RT_DEVICE_FLAG_DMA_RX \<noteq> 0 then add_oflag d RT_DEVICE_FLAG_DMA_RX s
                 else s))"

definition open_tx :: "'h uart_ops \<Rightarrow> (u32 \<Rightarrow> kernel \<Rightarrow> ptr \<times> kernel) \<Rightarrow> ptr \<Rightarrow> u16 \<Rightarrow> 'h serial_state \<Rightarrow> 'h serial_state option" where
  "open_tx ops malloc d oflag s =
     (if serial_tx (serials s d) = RT_NULL then
        if oflag AND RT_DEVICE_FLAG_INT_TX \<noteq> 0 then do {
          let (p, k) = malloc 12 (dk s);
          RT_ASSERT (p \<noteq> RT_NULL);
          (fl, k) \<leftarrow> rt_completion_init p k;
          let s = upd_serial d (\<lambda>x. x\<lparr>serial_tx := p\<rparr>) (s\<lparr>dk := k, tx_completion := (tx_completion s)(p := fl)\<rparr>);
          (_, s) \<leftarrow> control_op ops d RT_DEVICE_CTRL_SET_INT (unat RT_DEVICE_FLAG_INT_TX) (add_oflag d RT_DEVICE_FLAG_INT_TX s);
          Some s
        }
        else if oflag AND RT_DEVICE_FLAG_DMA_TX \<noteq> 0 then do {
          let (p, k) = malloc 36 (dk s);
          RT_ASSERT (p \<noteq> RT_NULL);
          (_, q, k) \<leftarrow> rt_data_queue_init malloc (p + 4) 8 4 False (tx_queue (tx_dmas s p)) k;
          let s = s\<lparr>dk := k, tx_dmas := (tx_dmas s)(p := \<lparr>tx_activated = False, tx_queue = q\<rparr>)\<rparr>;
          let s = add_oflag d RT_DEVICE_FLAG_DMA_TX (upd_serial d (\<lambda>x. x\<lparr>serial_tx := p\<rparr>) s);
          (_, s) \<leftarrow> control_op ops d RT_DEVICE_CTRL_CONFIG (unat RT_DEVICE_FLAG_DMA_TX) s;
          Some s
        }
        else Some (upd_serial d (\<lambda>x. x\<lparr>serial_tx := RT_NULL\<rparr>) s)
      else Some (if oflag AND RT_DEVICE_FLAG_INT_TX \<noteq> 0 then add_oflag d RT_DEVICE_FLAG_INT_TX s
                 else if oflag AND RT_DEVICE_FLAG_DMA_TX \<noteq> 0 then add_oflag d RT_DEVICE_FLAG_DMA_TX s
                 else s))"

definition lacks :: "u16 \<Rightarrow> u16 \<Rightarrow> u16 \<Rightarrow> bool" where
  "lacks oflag fl mode \<longleftrightarrow> oflag AND mode \<noteq> 0 \<and> fl AND mode = 0"

definition rt_serial_open :: "'h uart_ops \<Rightarrow> (u32 \<Rightarrow> kernel \<Rightarrow> ptr \<times> kernel) \<Rightarrow> ptr \<Rightarrow> u16 \<Rightarrow> 'h serial_state \<Rightarrow> (err \<times> 'h serial_state) option" where
  "rt_serial_open ops malloc d oflag s = do {
     RT_ASSERT (d \<noteq> RT_NULL);
     let fl = dev_flag (devices s d);
     if lacks oflag fl RT_DEVICE_FLAG_DMA_RX \<or> lacks oflag fl RT_DEVICE_FLAG_DMA_TX
        \<or> lacks oflag fl RT_DEVICE_FLAG_INT_RX \<or> lacks oflag fl RT_DEVICE_FLAG_INT_TX
     then Some (- RT_EIO, s)
     else do {
       let stream_flag = (if oflag AND RT_DEVICE_FLAG_STREAM \<noteq> 0 \<or> open_flag (devices s d) AND RT_DEVICE_FLAG_STREAM \<noteq> 0
                          then RT_DEVICE_FLAG_STREAM else 0);
       let s = upd_dev d (\<lambda>x. x\<lparr>open_flag := oflag AND 0xff\<rparr>) s;
       s \<leftarrow> open_rx ops malloc d oflag s;
       s \<leftarrow> open_tx ops malloc d oflag s;
       Some (RT_EOK, add_oflag d stream_flag s)
     }
   }"

definition close_rx :: "'h uart_ops \<Rightarrow> (ptr \<Rightarrow> kernel \<Rightarrow> kernel) \<Rightarrow> ptr \<Rightarrow> 'h serial_state \<Rightarrow> 'h serial_state option" where
  "close_rx ops free d s =
     (if open_flag (devices s d) AND RT_DEVICE_FLAG_INT_RX \<noteq> 0 then do {
        let rx = serial_rx (serials s d);
        RT_ASSERT (rx \<noteq> RT_NULL);
        let s = upd_serial d (\<lambda>x. x\<lparr>serial_rx := RT_NULL\<rparr>) (s\<lparr>dk := free rx (dk s)\<rparr>);
        (_, s) \<leftarrow> control_op ops d RT_DEVICE_CTRL_CLR_INT (unat RT_DEVICE_FLAG_INT_RX) (del_oflag d RT_DEVICE_FLAG_INT_RX s);
        Some s
      }
      else if open_flag (devices s d) AND RT_DEVICE_FLAG_DMA_RX \<noteq> 0 then do {
        let rx = serial_rx (serials s d);
        RT_ASSERT (rx \<noteq> RT_NULL);
        (_, s) \<leftarrow> control_op ops d RT_DEVICE_CTRL_CLR_INT (unat RT_DEVICE_FLAG_DMA_RX) (s\<lparr>dk := free rx (dk s)\<rparr>);
        Some (del_oflag d RT_DEVICE_FLAG_DMA_RX (upd_serial d (\<lambda>x. x\<lparr>serial_rx := RT_NULL\<rparr>) s))
      }
      else Some s)"

definition close_tx :: "'h uart_ops \<Rightarrow> (ptr \<Rightarrow> kernel \<Rightarrow> kernel) \<Rightarrow> ptr \<Rightarrow> 'h serial_state \<Rightarrow> 'h serial_state option" where
  "close_tx ops free d s =
     (if open_flag (devices s d) AND RT_DEVICE_FLAG_INT_TX \<noteq> 0 then do {
        let tx = serial_tx (serials s d);
        RT_ASSERT (tx \<noteq> RT_NULL);
        let s = upd_serial d (\<lambda>x. x\<lparr>serial_tx := RT_NULL\<rparr>) (s\<lparr>dk := free tx (dk s)\<rparr>);
        (_, s) \<leftarrow> control_op ops d RT_DEVICE_CTRL_CLR_INT (unat RT_DEVICE_FLAG_INT_TX) (del_oflag d RT_DEVICE_FLAG_INT_TX s);
        Some s
      }
      else if open_flag (devices s d) AND RT_DEVICE_FLAG_DMA_TX \<noteq> 0 then do {
        let tx = serial_tx (serials s d);
        RT_ASSERT (tx \<noteq> RT_NULL);
        let s = upd_serial d (\<lambda>x. x\<lparr>serial_tx := RT_NULL\<rparr>) (s\<lparr>dk := free tx (dk s)\<rparr>);
        Some (del_oflag d RT_DEVICE_FLAG_DMA_TX s)
      }
      else Some s)"

definition rt_serial_close :: "'h uart_ops \<Rightarrow> (ptr \<Rightarrow> kernel \<Rightarrow> kernel) \<Rightarrow> ptr \<Rightarrow> 'h serial_state \<Rightarrow> (err \<times> 'h serial_state) option" where
  "rt_serial_close ops free d s = do {
     RT_ASSERT (d \<noteq> RT_NULL);
     if ref_count (devices s d) > 1 then Some (RT_EOK, s)
     else do {
       s \<leftarrow> close_rx ops free d s;
       s \<leftarrow> close_tx ops free d s;
       Some (RT_EOK, s)
     }
   }"

definition rt_serial_read :: "'h uart_ops \<Rightarrow> ptr \<Rightarrow> ptr \<Rightarrow> u32 \<Rightarrow> 'h serial_state \<Rightarrow> (u32 \<times> 'h serial_state) option" where
  "rt_serial_read ops d buffer sz s = do {
     RT_ASSERT (d \<noteq> RT_NULL);
     if sz = 0 then Some (0, s)
     else if open_flag (devices s d) AND RT_DEVICE_FLAG_INT_RX \<noteq> 0 then serial_int_rx d buffer sz s
     else if open_flag (devices s d) AND RT_DEVICE_FLAG_DMA_RX \<noteq> 0 then serial_dma_rx ops d buffer sz s
     else serial_poll_rx ops d buffer sz s
   }"

definition rt_serial_write :: "'h uart_ops \<Rightarrow> ptr \<Rightarrow> ptr \<Rightarrow> u32 \<Rightarrow> 'h serial_state \<Rightarrow> (write_call \<times> 'h serial_state) option" where
  "rt_serial_write ops d buffer sz s = do {
     RT_ASSERT (d \<noteq> RT_NULL);
     if sz = 0 then Some (Written 0, s)
     else if open_flag (devices s d) AND RT_DEVICE_FLAG_INT_TX \<noteq> 0 then serial_int_tx ops d buffer sz s
     else if open_flag (devices s d) AND RT_DEVICE_FLAG_DMA_TX \<noteq> 0 then serial_dma_tx ops d buffer sz s
     else do {
       (n, s) \<leftarrow> serial_poll_tx ops d buffer sz s;
       Some (Written n, s)
     }
   }"

text \<open>\<open>pconfig\<close> is the configuration that the caller keeps at an address.\<close>

definition rt_serial_control :: "'h uart_ops \<Rightarrow> (ptr \<Rightarrow> serial_configure) \<Rightarrow> ptr \<Rightarrow> int \<Rightarrow> ptr \<Rightarrow> 'h serial_state \<Rightarrow> (err \<times> 'h serial_state) option" where
  "rt_serial_control ops pconfig d cmd args s = do {
     RT_ASSERT (d \<noteq> RT_NULL);
     if cmd = RT_DEVICE_CTRL_SUSPEND then
       Some (RT_EOK, upd_dev d (\<lambda>x. x\<lparr>dev_flag := dev_flag x OR RT_DEVICE_FLAG_SUSPENDED\<rparr>) s)
     else if cmd = RT_DEVICE_CTRL_RESUME then
       Some (RT_EOK, upd_dev d (\<lambda>x. x\<lparr>dev_flag := dev_flag x AND NOT RT_DEVICE_FLAG_SUSPENDED\<rparr>) s)
     else if cmd = RT_DEVICE_CTRL_CONFIG then
       if args = RT_NULL then Some (RT_EOK, s)
       else if bufsz (pconfig args) \<noteq> serial_bufsz d s \<and> ref_count (devices s d) \<noteq> 0 then Some (RT_EBUSY, s)
       else do {
         let s = upd_serial d (\<lambda>x. x\<lparr>config := pconfig args\<rparr>) s;
         if ref_count (devices s d) \<noteq> 0 then do {
           configure \<leftarrow> configure_op ops;
           (_, s) \<leftarrow> configure d (pconfig args) s;
           Some (RT_EOK, s)
         }
         else Some (RT_EOK, s)
       }
     else control_op ops d cmd args s
   }"

text \<open>The addresses of the six functions above, which a serial device is registered with.\<close>

record serial_code =
  at_init :: ptr
  at_open :: ptr
  at_close :: ptr
  at_read :: ptr
  at_write :: ptr
  at_control :: ptr

definition rt_hw_serial_register :: "serial_code \<Rightarrow> ptr \<Rightarrow> string \<Rightarrow> u32 \<Rightarrow> ptr \<Rightarrow> 'h serial_state \<Rightarrow> (err \<times> 'h serial_state) option" where
  "rt_hw_serial_register code d nm fl data s = do {
     RT_ASSERT (d \<noteq> RT_NULL);
     let s = upd_dev d (\<lambda>x. x\<lparr>dev_type := RT_Device_Class_Char, rx_indicate := RT_NULL, tx_complete := RT_NULL,
       device_init := at_init code, device_open := at_open code, device_close := at_close code,
       device_read := at_read code, device_write := at_write code, device_control := at_control code,
       dev_user_data := data\<rparr>) s;
     rt_device_register d nm (ucast fl) s
   }"

subsection \<open>The interrupt handler\<close>

abbreviation (input) RT_SERIAL_EVENT_RX_IND :: u32 where "RT_SERIAL_EVENT_RX_IND \<equiv> 1"
abbreviation (input) RT_SERIAL_EVENT_TX_DONE :: u32 where "RT_SERIAL_EVENT_TX_DONE \<equiv> 2"
abbreviation (input) RT_SERIAL_EVENT_RX_DMADONE :: u32 where "RT_SERIAL_EVENT_RX_DMADONE \<equiv> 3"
abbreviation (input) RT_SERIAL_EVENT_TX_DMADONE :: u32 where "RT_SERIAL_EVENT_TX_DMADONE \<equiv> 4"

definition isr_rx_put :: "ptr \<Rightarrow> ptr \<Rightarrow> u8 \<Rightarrow> 'h serial_state \<Rightarrow> 'h serial_state" where
  "isr_rx_put d rx ch s =
     (let x = rx_fifos s rx;
          n = serial_bufsz d s;
          s = store_byte (rx_buffer x + unat (rx_put x)) ch s;
          x = x\<lparr>rx_put := rx_put x + 1\<rparr>;
          x = (if rx_put x \<ge> n then x\<lparr>rx_put := 0\<rparr> else x);
          x = (if rx_put x = rx_get x then
                 (let x = x\<lparr>rx_get := rx_get x + 1, is_full := True\<rparr>
                  in if rx_get x \<ge> n then x\<lparr>rx_get := 0\<rparr> else x)
               else x)
      in upd_rx rx (\<lambda>_. x) s)"

text \<open>The loop ends when the UART has no more data, and not before.\<close>

partial_function (option) isr_rx_loop :: "'h uart_ops \<Rightarrow> ptr \<Rightarrow> ptr \<Rightarrow> 'h serial_state \<Rightarrow> 'h serial_state option" where
  "isr_rx_loop ops d rx s = do {
     (ch, s) \<leftarrow> getc_op ops d s;
     if ch = - 1 then Some s else isr_rx_loop ops d rx (isr_rx_put d rx (word_of_int ch) s)
   }"

definition isr_rx_ind :: "'h uart_ops \<Rightarrow> 'h serial_calls \<Rightarrow> ptr \<Rightarrow> 'h serial_state \<Rightarrow> 'h serial_state option" where
  "isr_rx_ind ops calls d s = do {
     let rx = serial_rx (serials s d);
     RT_ASSERT (rx \<noteq> RT_NULL);
     s \<leftarrow> isr_rx_loop ops d rx s;
     if rx_indicate (devices s d) \<noteq> RT_NULL then do {
       let x = rx_fifos s rx;
       let rx_length = (if rx_put x \<ge> rx_get x then ucast (rx_put x) - ucast (rx_get x)
                        else ucast (serial_bufsz d s) - (ucast (rx_get x) - ucast (rx_put x)));
       if rx_length \<noteq> 0 then rx_ind_call calls (rx_indicate (devices s d)) d rx_length s else Some s
     }
     else Some s
   }"

definition isr_tx_done :: "ptr \<Rightarrow> 'h serial_state \<Rightarrow> 'h serial_state option" where
  "isr_tx_done d s = do {
     let tx = serial_tx (serials s d);
     (fl, k) \<leftarrow> rt_completion_done tx (tx_completion s tx) (dk s);
     Some (s\<lparr>dk := k, tx_completion := (tx_completion s)(tx := fl)\<rparr>)
   }"

text \<open>Where the pop finds nothing, \<^verbatim>\<open>last_data_ptr\<close> is not set and may not be passed on.\<close>

definition isr_tx_dmadone :: "'h uart_ops \<Rightarrow> 'h serial_calls \<Rightarrow> ptr \<Rightarrow> 'h serial_state \<Rightarrow> 'h serial_state option" where
  "isr_tx_dmadone ops calls d s = do {
     let tx = serial_tx (serials s d);
     C_GUARD (tx \<noteq> RT_NULL);
     (_, popped, q, k) \<leftarrow> rt_data_queue_pop no_notify (tx + 4) 0 (tx_queue (tx_dmas s tx)) (dk s);
     let s = s\<lparr>dk := k, tx_dmas := (tx_dmas s)(tx := (tx_dmas s tx)\<lparr>tx_queue := q\<rparr>)\<rparr>;
     (e, next_item) \<leftarrow> rt_data_queue_peak (tx + 4) q;
     s \<leftarrow> (if e = RT_EOK then do {
             (data_ptr, data_size) \<leftarrow> next_item;
             let s = s\<lparr>tx_dmas := (tx_dmas s)(tx := (tx_dmas s tx)\<lparr>tx_activated := True\<rparr>)\<rparr>;
             dma_transmit \<leftarrow> dma_op ops;
             dma_transmit d data_ptr data_size RT_SERIAL_DMA_TX s
           }
           else Some (s\<lparr>tx_dmas := (tx_dmas s)(tx := (tx_dmas s tx)\<lparr>tx_activated := False\<rparr>)\<rparr>));
     if tx_complete (devices s d) \<noteq> RT_NULL then do {
       (last_data_ptr, _) \<leftarrow> popped;
       tx_done_call calls (tx_complete (devices s d)) d last_data_ptr s
     }
     else Some s
   }"

definition isr_rx_dmadone :: "'h serial_calls \<Rightarrow> ptr \<Rightarrow> u32 \<Rightarrow> 'h serial_state \<Rightarrow> 'h serial_state option" where
  "isr_rx_dmadone calls d len s =
     (if serial_bufsz d s = 0 then do {
        let rx = serial_rx (serials s d);
        RT_ASSERT (rx \<noteq> RT_NULL);
        RT_ASSERT (rx_indicate (devices s d) \<noteq> RT_NULL);
        s \<leftarrow> rx_ind_call calls (rx_indicate (devices s d)) d len s;
        Some (s\<lparr>rx_activated := (rx_activated s)(rx := False)\<rparr>)
      }
      else do {
        s \<leftarrow> rt_dma_recv_update_put_index d len s;
        recved \<leftarrow> rt_dma_calc_recved_len d s;
        if rx_indicate (devices s d) \<noteq> RT_NULL then rx_ind_call calls (rx_indicate (devices s d)) d recved s else Some s
      })"

text \<open>The low byte of the event says what has happened; above it is the length, which is shifted as a signed number.\<close>

definition rt_hw_serial_isr :: "'h uart_ops \<Rightarrow> 'h serial_calls \<Rightarrow> ptr \<Rightarrow> u32 \<Rightarrow> 'h serial_state \<Rightarrow> 'h serial_state option" where
  "rt_hw_serial_isr ops calls d event s =
     (let ev = event AND 0xff
      in if ev = RT_SERIAL_EVENT_RX_IND then isr_rx_ind ops calls d s
         else if ev = RT_SERIAL_EVENT_TX_DONE then isr_tx_done d s
         else if ev = RT_SERIAL_EVENT_TX_DMADONE then isr_tx_dmadone ops calls d s
         else if ev = RT_SERIAL_EVENT_RX_DMADONE then isr_rx_dmadone calls d (signed_drop_bit 8 (event AND NOT 0xff)) s
         else Some s)"

subsection \<open>The receive FIFO as a queue of bytes\<close>

text \<open>\<open>ring_bytes\<close>: the \<open>c\<close> bytes from index \<open>g\<close> on in a circular buffer of \<open>n\<close> bytes.\<close>

definition ring_bytes :: "ptr \<Rightarrow> nat \<Rightarrow> nat \<Rightarrow> nat \<Rightarrow> mem \<Rightarrow> u8 list" where
  "ring_bytes B n g c m = map (\<lambda>i. m (B + (g + i) mod n)) [0..<c]"

definition newest :: "nat \<Rightarrow> 'a list \<Rightarrow> 'a list" where
  "newest n xs = drop (length xs - n) xs"

lemma length_ring [simp]: "length (ring_bytes B n g c m) = c"
  by (simp add: ring_bytes_def)

lemma ring_0 [simp]: "ring_bytes B n g 0 m = []"
  by (simp add: ring_bytes_def)

lemma ring_nth [simp]: "i < c \<Longrightarrow> ring_bytes B n g c m ! i = m (B + (g + i) mod n)"
  by (simp add: ring_bytes_def)

lemma ring_drop: "k \<le> c \<Longrightarrow> ring_bytes B n ((g + k) mod n) (c - k) m = drop k (ring_bytes B n g c m)"
  by (rule nth_equalityI) (simp_all add: mod_add_left_eq add.assoc)

lemma ring_take: "k \<le> c \<Longrightarrow> ring_bytes B n g k m = take k (ring_bytes B n g c m)"
  by (rule nth_equalityI) simp_all

lemma ring_cong: "(\<And>i. i < n \<Longrightarrow> m (B + i) = m' (B + i)) \<Longrightarrow> 0 < n \<Longrightarrow> ring_bytes B n g c m = ring_bytes B n g c m'"
  by (simp add: ring_bytes_def)

text \<open>Bytes \<open>bs\<close> written behind the content replace the oldest ones where there is no room for all.\<close>

definition written :: "ptr \<Rightarrow> nat \<Rightarrow> nat \<Rightarrow> u8 list \<Rightarrow> mem \<Rightarrow> mem \<Rightarrow> bool" where
  "written B n p bs m m' \<longleftrightarrow> (\<forall>i<length bs. m' (B + (p + i) mod n) = bs ! i)
     \<and> (\<forall>i<n. (\<forall>j<length bs. i \<noteq> (p + j) mod n) \<longrightarrow> m' (B + i) = m (B + i))"

lemma ring_written:
  assumes w: "written B n ((g + c) mod n) bs m m'" and n: "0 < n" "c \<le> n" "length bs \<le> n"
    and k: "k = c + length bs - n"
  shows "ring_bytes B n ((g + k) mod n) (c + length bs - k) m' = newest n (ring_bytes B n g c m @ bs)"
proof (rule nth_equalityI)
  show "length (ring_bytes B n ((g + k) mod n) (c + length bs - k) m') = length (newest n (ring_bytes B n g c m @ bs))"
    using k by (simp add: newest_def)
  fix i assume "i < length (ring_bytes B n ((g + k) mod n) (c + length bs - k) m')"
  then have i: "k + i < c + length bs" by simp
  then have L: "ring_bytes B n ((g + k) mod n) (c + length bs - k) m' ! i = m' (B + (g + (k + i)) mod n)"
    by (simp add: mod_add_left_eq add.assoc)
  have R: "newest n (ring_bytes B n g c m @ bs) ! i = (ring_bytes B n g c m @ bs) ! (k + i)"
    using i k by (simp add: newest_def del: drop_append)
  show "ring_bytes B n ((g + k) mod n) (c + length bs - k) m' ! i = newest n (ring_bytes B n g c m @ bs) ! i"
  proof (cases "k + i < c")
    case True
    have "(g + (k + i)) mod n \<noteq> ((g + c) mod n + j) mod n" if "j < length bs" for j
      using ring_slot [of 0 "c + j - (k + i)" n "g + (k + i)"] True that n k by (simp add: mod_add_left_eq add.assoc)
    then have "m' (B + (g + (k + i)) mod n) = m (B + (g + (k + i)) mod n)"
      using w n(1) by (simp add: written_def)
    then show ?thesis using True L R by (simp add: nth_append)
  next
    case False
    then obtain j where j: "k + i = c + j" "j < length bs" using i by (metis le_iff_add not_less nat_add_left_cancel_less)
    then have "m' (B + (g + (k + i)) mod n) = bs ! j"
      using w by (simp add: written_def mod_add_left_eq add.assoc)
    then show ?thesis using j L R by (simp add: nth_append)
  qed
qed

definition rx_count :: "u16 \<Rightarrow> rt_serial_rx_fifo \<Rightarrow> nat" where
  "rx_count n x = (if rx_put x = rx_get x then (if is_full x then unat n else 0)
     else if rx_get x < rx_put x then unat (rx_put x) - unat (rx_get x)
     else unat n - (unat (rx_get x) - unat (rx_put x)))"

definition rx_content :: "u16 \<Rightarrow> rt_serial_rx_fifo \<Rightarrow> mem \<Rightarrow> u8 list" where
  "rx_content n x m = ring_bytes (rx_buffer x) (unat n) (unat (rx_get x)) (rx_count n x) m"

text \<open>The invariants of the two modes: filled by interrupts, the FIFO never uses its last byte; filled by DMA, it is full only when the indices meet.\<close>

definition rx_ok :: "u16 \<Rightarrow> rt_serial_rx_fifo \<Rightarrow> bool" where
  "rx_ok n x \<longleftrightarrow> rx_get x < n \<and> rx_put x < n"

definition int_rx_ok :: "u16 \<Rightarrow> rt_serial_rx_fifo \<Rightarrow> bool" where
  "int_rx_ok n x \<longleftrightarrow> rx_ok n x \<and> 2 \<le> n \<and> (is_full x \<longrightarrow> rx_put x \<noteq> rx_get x)"

definition dma_rx_ok :: "u16 \<Rightarrow> rt_serial_rx_fifo \<Rightarrow> bool" where
  "dma_rx_ok n x \<longleftrightarrow> rx_ok n x \<and> n \<le> 0x8000 \<and> (is_full x \<longrightarrow> rx_put x = rx_get x)"

lemma mod_ring: "(g :: nat) < n \<Longrightarrow> c \<le> n \<Longrightarrow> (g + c) mod n = (if g + c < n then g + c else g + c - n)"
  by (simp add: le_mod_geq)

lemma rx_count_le: "rx_ok n x \<Longrightarrow> rx_count n x \<le> unat n"
  by (auto simp: rx_ok_def rx_count_def word_less_nat_alt)

lemma int_count_less: "int_rx_ok n x \<Longrightarrow> rx_count n x < unat n"
  by (auto simp: int_rx_ok_def rx_ok_def rx_count_def word_less_nat_alt word_le_nat_alt word_unat_eq_iff)

lemma rx_put_index:
  assumes "rx_ok n x"
  shows "unat (rx_put x) = (unat (rx_get x) + rx_count n x) mod unat n"
  using assms by (auto simp: rx_ok_def rx_count_def word_less_nat_alt mod_ring)

lemma rx_count_eq:
  assumes "rx_ok n x" "c < unat n" "unat (rx_put x) = (unat (rx_get x) + c) mod unat n" "rx_put x = rx_get x \<longrightarrow> \<not> is_full x"
  shows "rx_count n x = c"
  using assms by (auto simp: rx_ok_def rx_count_def word_less_nat_alt mod_ring word_unat_eq_iff split: if_splits)

subsection \<open>Receiving by interrupts\<close>

text \<open>The interrupt handler and the reader change the indices of the FIFO and bytes of the memory, and nothing else.\<close>

definition rx_frame :: "ptr \<Rightarrow> 'h serial_state \<Rightarrow> 'h serial_state \<Rightarrow> bool" where
  "rx_frame rx s s' \<longleftrightarrow> (\<exists>m x h. rx_buffer x = rx_buffer (rx_fifos s rx)
     \<and> s' = s\<lparr>dk := (dk s)\<lparr>bmem := m\<rparr>, rx_fifos := (rx_fifos s)(rx := x), hw := h\<rparr>)"

lemma rx_frameI:
  "rx_buffer x = rx_buffer (rx_fifos s rx) \<Longrightarrow> s' = s\<lparr>dk := (dk s)\<lparr>bmem := m\<rparr>, rx_fifos := (rx_fifos s)(rx := x), hw := h\<rparr> \<Longrightarrow> rx_frame rx s s'"
  by (auto simp: rx_frame_def)

lemma rx_frame_refl [simp]: "rx_frame rx s s"
  by (rule rx_frameI [where x = "rx_fifos s rx" and m = "bmem (dk s)" and h = "hw s"]) simp_all

lemma rx_frame_trans: "rx_frame rx s s1 \<Longrightarrow> rx_frame rx s1 s2 \<Longrightarrow> rx_frame rx s s2"
  by (auto simp: rx_frame_def) (metis (no_types, lifting))

lemma rx_frame_fields:
  assumes "rx_frame rx s s'"
  shows "serials s' = serials s" "devices s' = devices s" "rx_buffer (rx_fifos s' rx) = rx_buffer (rx_fifos s rx)"
  using assms by (auto simp: rx_frame_def)

abbreviation fifo_bytes :: "ptr \<Rightarrow> ptr \<Rightarrow> 'h serial_state \<Rightarrow> u8 list" where
  "fifo_bytes d rx s \<equiv> rx_content (serial_bufsz d s) (rx_fifos s rx) (bmem (dk s))"

lemma isr_rx_put_ok:
  assumes ok: "int_rx_ok (serial_bufsz d s) (rx_fifos s rx)" and s': "s' = isr_rx_put d rx ch s"
  shows "int_rx_ok (serial_bufsz d s) (rx_fifos s' rx) \<and> rx_frame rx s s' \<and> hw s' = hw s
     \<and> fifo_bytes d rx s' = newest (unat (serial_bufsz d s) - 1) (fifo_bytes d rx s @ [ch])"
proof -
  define n x m where nxm: "n = serial_bufsz d s" "x = rx_fifos s rx" "m = bmem (dk s)"
  define c where c: "c = rx_count n x"
  define p where p: "p = (if n \<le> rx_put x + 1 then 0 else rx_put x + 1)"
  define g where g: "g = (if n \<le> rx_get x + 1 then 0 else rx_get x + 1)"
  define m' where m': "m' = m(rx_buffer x + unat (rx_put x) := ch)"
  have ok': "int_rx_ok n x" using ok nxm by simp
  then have r: "rx_ok n x" "2 \<le> unat n" by (simp_all add: int_rx_ok_def word_le_nat_alt)
  have lt: "c < unat n" using int_count_less [OF ok'] c by simp
  have i: "unat (rx_put x) = (unat (rx_get x) + c) mod unat n" using rx_put_index [OF r(1)] c by simp
  have p': "unat p = (unat (rx_get x) + (c + 1)) mod unat n" "p < n"
    using offset_step [of "rx_put x" n] r i by (simp_all add: p rx_ok_def mod_Suc_eq)
  have g': "unat g = (unat (rx_get x) + 1) mod unat n" "g < n"
    using offset_step [of "rx_get x" n] r by (simp_all add: g rx_ok_def)
  have w: "written (rx_buffer x) (unat n) ((unat (rx_get x) + c) mod unat n) [ch] m m'"
    using r(2) by (simp add: written_def m' i)
  have ring: "ring_bytes (rx_buffer x) (unat n) (unat (rx_get x)) (c + 1) m' = rx_content n x m @ [ch]"
    using ring_written [OF w, of 0] lt r by (simp add: newest_def rx_content_def c rx_ok_def word_less_nat_alt)
  have full: "p = rx_get x \<longleftrightarrow> c + 1 = unat n"
    using p' lt r(1) mod_ring [of "unat (rx_get x)" "unat n" "c + 1"]
    by (auto simp: rx_ok_def word_less_nat_alt word_unat_eq_iff split: if_splits)
  define x' where x': "x' = (if p = rx_get x then x\<lparr>rx_put := p, rx_get := g, is_full := True\<rparr> else x\<lparr>rx_put := p\<rparr>)"
  have s'': "s' = upd_rx rx (\<lambda>_. x') (store_byte (rx_buffer x + unat (rx_put x)) ch s)"
    by (cases "rx_fifos s rx") (simp add: s' isr_rx_put_def nxm x' p g Let_def)
  have "int_rx_ok n x' \<and> rx_content n x' m' = newest (unat n - 1) (rx_content n x m @ [ch])"
  proof (cases "c + 1 = unat n")
    case True
    have x1: "x' = x\<lparr>rx_put := p, rx_get := g, is_full := True\<rparr>" using True full x' by simp
    have ne: "p \<noteq> g" using True full g' r mod_ring [of "unat (rx_get x)" "unat n" 1]
      by (auto simp: rx_ok_def word_less_nat_alt word_unat_eq_iff split: if_splits)
    have pg: "unat p = (unat g + c) mod unat n" using p' g' by (simp add: mod_add_left_eq)
    have cnt: "rx_count n x' = c"
      by (rule rx_count_eq) (use ne pg lt p' g' in \<open>simp_all add: x1 rx_ok_def\<close>)
    have k: "Suc (Suc c) - unat n = Suc 0" "Suc 0 - c = 0" using True r(2) by simp_all
    show ?thesis
      using cnt ne p' g' r ring ring_drop [of 1 "c + 1" "rx_buffer x" "unat n" "unat (rx_get x)" m'] k
      by (simp add: x1 int_rx_ok_def rx_ok_def word_le_nat_alt rx_content_def newest_def c [symmetric])
  next
    case False
    have x1: "x' = x\<lparr>rx_put := p\<rparr>" using False full x' by simp
    have cnt: "rx_count n x' = c + 1"
      by (rule rx_count_eq) (use False full lt p' r in \<open>simp_all add: x1 rx_ok_def\<close>)
    show ?thesis
      using cnt False full p' r ring lt
      by (simp add: x1 int_rx_ok_def rx_ok_def word_le_nat_alt rx_content_def newest_def c)
  qed
  moreover have "rx_frame rx s s'"
    by (rule rx_frameI [where x = x' and m = m' and h = "hw s"]) (simp_all add: s'' upd_rx_def store_byte_def nxm x' m')
  ultimately show ?thesis
    by (simp add: s'' upd_rx_def store_byte_def nxm m')
qed

lemma newest_append: "newest n (newest n xs @ ys) = newest n (xs @ ys)"
  by (cases "n \<le> length xs") (simp_all add: newest_def add.commute)

lemma newest_all: "length xs \<le> n \<Longrightarrow> newest n xs = xs"
  by (simp add: newest_def)

text \<open>
  The contract of the \<^verbatim>\<open>getc\<close> function of a UART driver: it returns the next byte that has arrived,
  and \<open>- 1\<close> when there is none. The bytes that have arrived are the state of the hardware here.
\<close>

definition uart_reads :: "u8 list uart_ops \<Rightarrow> ptr \<Rightarrow> bool" where
  "uart_reads ops d \<longleftrightarrow> (\<forall>s. getc_op ops d s = Some (case hw s of [] \<Rightarrow> (- 1, s) | c # cs \<Rightarrow> (uint c, s\<lparr>hw := cs\<rparr>)))"

lemma isr_rx_loop_ok:
  assumes "uart_reads ops d" "int_rx_ok (serial_bufsz d s) (rx_fifos s rx)"
  shows "\<exists>s'. isr_rx_loop ops d rx s = Some s' \<and> int_rx_ok (serial_bufsz d s) (rx_fifos s' rx) \<and> rx_frame rx s s' \<and> hw s' = []
     \<and> fifo_bytes d rx s' = newest (unat (serial_bufsz d s) - 1) (fifo_bytes d rx s @ hw s)"
  using assms(2)
proof (induction "hw s" arbitrary: s)
  case Nil
  have "isr_rx_loop ops d rx s = Some s"
    using assms(1) Nil(1) by (subst isr_rx_loop.simps) (simp add: uart_reads_def split: list.splits)
  moreover have "length (fifo_bytes d rx s) \<le> unat (serial_bufsz d s) - 1"
    using int_count_less [OF Nil(2)] by (simp add: rx_content_def)
  ultimately show ?case using Nil by (simp add: newest_all)
next
  case (Cons c cs)
  let ?s = "s\<lparr>hw := cs\<rparr>" and ?n = "serial_bufsz d s"
  let ?s1 = "isr_rx_put d rx c ?s"
  have "uint c \<noteq> - 1" using uint_ge_0 [of c] by linarith
  then have step: "isr_rx_loop ops d rx s = isr_rx_loop ops d rx ?s1"
    using assms(1) Cons(2) [symmetric] by (subst isr_rx_loop.simps) (simp add: uart_reads_def)
  have s1: "int_rx_ok ?n (rx_fifos ?s1 rx)" "rx_frame rx ?s ?s1" "hw ?s1 = cs"
    "fifo_bytes d rx ?s1 = newest (unat ?n - 1) (fifo_bytes d rx s @ [c])"
    using isr_rx_put_ok [where d = d and s = ?s and rx = rx and ch = c, OF _ refl] Cons.prems by simp_all
  have f: "rx_frame rx s ?s1"
    by (rule rx_frame_trans [OF rx_frameI [where x = "rx_fifos s rx" and m = "bmem (dk s)" and h = cs] s1(2)]) simp_all
  have b: "serial_bufsz d ?s1 = ?n" using rx_frame_fields [OF f] by simp
  obtain s' where s': "isr_rx_loop ops d rx ?s1 = Some s'" "int_rx_ok ?n (rx_fifos s' rx)" "rx_frame rx ?s1 s'" "hw s' = []"
    "fifo_bytes d rx s' = newest (unat ?n - 1) (fifo_bytes d rx ?s1 @ cs)"
    using Cons.hyps(1) [of ?s1] s1 b by auto
  show ?case
    using step s' rx_frame_trans [OF f s'(3)] s1(4) newest_append [of "unat ?n - 1" "fifo_bytes d rx s @ [c]" cs] Cons(2) [symmetric]
    by simp
qed

text \<open>The reader takes the oldest bytes. Its buffer may not overlap the FIFO's.\<close>

definition apart :: "ptr \<Rightarrow> nat \<Rightarrow> ptr \<Rightarrow> nat \<Rightarrow> bool" where
  "apart a k b n \<longleftrightarrow> a + k \<le> b \<or> b + n \<le> a"

lemma int_rx_loop_ok:
  assumes "int_rx_ok (serial_bufsz d s) (rx_fifos s rx)" "apart data k (rx_buffer (rx_fifos s rx)) (unat (serial_bufsz d s))"
  shows "\<exists>s'. int_rx_loop d rx data k s = (k - length (fifo_bytes d rx s), s') \<and> int_rx_ok (serial_bufsz d s) (rx_fifos s' rx)
     \<and> rx_frame rx s s' \<and> hw s' = hw s \<and> fifo_bytes d rx s' = drop k (fifo_bytes d rx s)
     \<and> (\<forall>i<k. i < length (fifo_bytes d rx s) \<longrightarrow> bmem (dk s') (data + i) = fifo_bytes d rx s ! i)
     \<and> (\<forall>a<data. bmem (dk s') a = bmem (dk s) a)"
  using assms
proof (induction k arbitrary: data s)
  case (Suc k)
  define n x m where nxm: "n = serial_bufsz d s" "x = rx_fifos s rx" "m = bmem (dk s)"
  define c where c: "c = rx_count n x"
  have ok: "int_rx_ok n x" using Suc.prems nxm by simp
  then have r: "rx_ok n x" "2 \<le> unat n" by (simp_all add: int_rx_ok_def word_le_nat_alt)
  have i: "unat (rx_put x) = (unat (rx_get x) + c) mod unat n" using rx_put_index [OF r(1)] c by simp
  have lt: "c < unat n" using int_count_less [OF ok] c by simp
  have empty: "rx_get x = rx_put x \<and> \<not> is_full x \<longleftrightarrow> c = 0"
    using ok by (auto simp: c rx_count_def int_rx_ok_def rx_ok_def word_less_nat_alt)
  show ?case
  proof (cases "c = 0")
    case True
    then show ?thesis using empty Suc.prems nxm c by (auto simp: rx_content_def Let_def)
  next
    case False
    then obtain e where e: "c = Suc e" by (cases c) simp_all
    define g where g: "g = (if n \<le> rx_get x + 1 then 0 else rx_get x + 1)"
    define x' where x': "x' = x\<lparr>rx_get := g, is_full := False\<rparr>"
    define s1 where s1: "s1 = store_byte data (m (rx_buffer x + unat (rx_get x))) (upd_rx rx (\<lambda>_. x') s)"
    have step: "int_rx_loop d rx data (Suc k) s = int_rx_loop d rx (data + 1) k s1"
      using False empty by (cases "rx_fifos s rx") (auto simp: Let_def nxm s1 x' g)
    have g': "unat g = (unat (rx_get x) + 1) mod unat n" "g < n"
      using offset_step [of "rx_get x" n] r by (simp_all add: g rx_ok_def)
    have cnt: "rx_count n x' = e"
      by (rule rx_count_eq) (use i lt g' r e in \<open>simp_all add: x' rx_ok_def mod_add_left_eq\<close>)
    have f: "rx_frame rx s s1"
      by (rule rx_frameI [where x = x' and m = "m(data := m (rx_buffer x + unat (rx_get x)))" and h = "hw s"])
        (simp_all add: s1 store_byte_def upd_rx_def x' nxm)
    have ok1: "int_rx_ok n x'" using ok g' by (simp add: int_rx_ok_def rx_ok_def x')
    have hd: "fifo_bytes d rx s = m (rx_buffer x + unat (rx_get x)) # fifo_bytes d rx s1"
    proof -
      have "ring_bytes (rx_buffer x) (unat n) (unat g) e (m(data := b)) = ring_bytes (rx_buffer x) (unat n) (unat g) e m" for b
        by (rule ring_cong) (use Suc.prems(2) r in \<open>auto simp: apart_def nxm\<close>)
      then have "fifo_bytes d rx s1 = drop 1 (fifo_bytes d rx s)"
        using cnt g' ring_drop [of 1 c "rx_buffer x" "unat n" "unat (rx_get x)" m] e
        by (simp add: rx_content_def c [symmetric] nxm [symmetric]) (simp add: s1 store_byte_def upd_rx_def x' nxm)
      moreover have "0 < length (fifo_bytes d rx s)" "fifo_bytes d rx s ! 0 = m (rx_buffer x + unat (rx_get x))"
        using e r(1) by (simp_all add: rx_content_def c [symmetric] nxm [symmetric] rx_ok_def word_less_nat_alt)
      ultimately show ?thesis by (metis Cons_nth_drop_Suc One_nat_def drop0)
    qed
    have b: "serial_bufsz d s1 = n" "rx_fifos s1 rx = x'" "rx_buffer x' = rx_buffer x" "hw s1 = hw s"
      "bmem (dk s1) = m(data := m (rx_buffer x + unat (rx_get x)))"
      by (simp_all add: s1 store_byte_def upd_rx_def x' nxm)
    have pre: "int_rx_ok (serial_bufsz d s1) (rx_fifos s1 rx)" "apart (data + 1) k (rx_buffer (rx_fifos s1 rx)) (unat (serial_bufsz d s1))"
      using Suc.prems(2) ok1 by (auto simp: apart_def b nxm)
    obtain s' where s': "int_rx_loop d rx (data + 1) k s1 = (k - length (fifo_bytes d rx s1), s')" "int_rx_ok n (rx_fifos s' rx)"
      "rx_frame rx s1 s'" "hw s' = hw s" "fifo_bytes d rx s' = drop k (fifo_bytes d rx s1)"
      "\<And>i. i < k \<Longrightarrow> i < length (fifo_bytes d rx s1) \<Longrightarrow> bmem (dk s') (data + 1 + i) = fifo_bytes d rx s1 ! i"
      "\<And>a. a < data + 1 \<Longrightarrow> bmem (dk s') a = bmem (dk s1) a"
      using Suc.IH [OF pre] unfolding b(1,4) by blast
    have "bmem (dk s') (data + i) = fifo_bytes d rx s ! i" if "i < Suc k" "i < length (fifo_bytes d rx s)" for i
      using that s'(6,7) b(5) hd by (cases i) simp_all
    then show ?thesis
      using step s' rx_frame_trans [OF f s'(3)] hd b(5) by (simp add: nxm)
  qed
qed simp

subsection \<open>Receiving by DMA\<close>

lemma dma_recved_len:
  assumes "rx_ok (serial_bufsz d s) (rx_fifos s (serial_rx (serials s d)))" "serial_rx (serials s d) \<noteq> RT_NULL"
  shows "\<exists>l. rt_dma_calc_recved_len d s = Some l \<and> unat l = rx_count (serial_bufsz d s) (rx_fifos s (serial_rx (serials s d)))"
proof -
  have sub: "unat ((ucast a :: u32) - ucast b) = unat a - unat b" if "b \<le> a" for a b :: u16
    using that by (simp add: unat_sub word_le_nat_alt)
  have sub2: "unat ((ucast n :: u32) - (ucast a - ucast b)) = unat n - (unat a - unat b)" if "b \<le> a" "a \<le> n" for n a b :: u16
    using that by (simp add: unat_sub word_le_nat_alt sub)
  show ?thesis
    using assms by (auto simp: rt_dma_calc_recved_len_def rx_count_def Let_def rx_ok_def sub sub2 less_imp_le)
qed

lemma fifo_wrap_ok:
  fixes n i :: u16
  assumes "0 < n"
  shows "\<exists>j. fifo_wrap i n = Some j \<and> unat j = unat i mod unat n \<and> j < n"
  using assms by (auto simp: fifo_wrap_def unat_mod word_le_nat_alt word_less_nat_alt)

lemma unat_index_add:
  fixes i :: u16 and len :: u32
  assumes "unat i + unat len < 0x10000"
  shows "unat (ucast (ucast i + len) :: u16) = unat i + unat len"
proof -
  have "unat (ucast i + len) = unat i + unat len"
    using assms unat_add_lem [of "ucast i :: u32" len] by simp
  then show ?thesis using assms by (simp add: unat_trunc16 word_less_nat_alt)
qed

lemma dma_put_index:
  fixes len :: u32 and j :: u16
  assumes ok: "dma_rx_ok n x" and len: "unat len \<le> unat n" and s: "n = serial_bufsz d s" "rx = serial_rx (serials s d)" "x = rx_fifos s rx"
    and rx: "rx \<noteq> RT_NULL" and j: "unat j = (unat (rx_put x) + unat len) mod unat n"
    and full: "full \<longleftrightarrow> is_full x \<or> unat n \<le> rx_count n x + unat len"
  shows "rt_dma_recv_update_put_index d len s
     = Some (upd_rx rx (\<lambda>_. x\<lparr>rx_put := j, rx_get := (if full then j else rx_get x), is_full := full\<rparr>) s)"
proof -
  let ?p = "unat (rx_put x)" and ?g = "unat (rx_get x)" and ?n = "unat n" and ?l = "unat len"
  have r: "?g < ?n" "?p < ?n" "?n \<le> 0x8000" "is_full x \<longrightarrow> ?p = ?g"
    using ok by (auto simp: dma_rx_ok_def rx_ok_def word_less_nat_alt word_le_nat_alt)
  define put' where put': "put' = (ucast (ucast (rx_put x) + len) :: u16)"
  have p': "unat put' = ?p + ?l" using unat_index_add [of "rx_put x" len] r len by (simp add: put')
  obtain i where "fifo_wrap put' n = Some i" "unat i = (?p + ?l) mod ?n"
    using fifo_wrap_ok [of n put'] r(1) p' by (auto simp: word_less_nat_alt)
  then have w: "fifo_wrap put' n = Some j" using j word_unat_eq_iff [of i j] by simp
  have js: "unat j = (if ?p + ?l < ?n then ?p + ?l else ?p + ?l - ?n)" using mod_ring [of ?p ?n ?l] r len j by simp
  have small: "put' = j" if "?p + ?l < ?n" using that p' js by (simp add: word_unat_eq_iff)
  have c: "rx_count n x = (if ?p = ?g then if is_full x then ?n else 0 else if ?g < ?p then ?p - ?g else ?n - (?g - ?p))"
    by (simp add: rx_count_def word_less_nat_alt word_unat_eq_iff)
  have def: "rt_dma_recv_update_put_index d len s = do {
     x \<leftarrow> (if rx_get x \<le> rx_put x then
             if put' \<ge> n then Some (if j \<ge> rx_get x then x\<lparr>rx_put := j, is_full := True\<rparr> else x\<lparr>rx_put := j\<rparr>)
             else Some (x\<lparr>rx_put := put'\<rparr>)
           else if put' \<ge> rx_get x then Some (x\<lparr>rx_put := j, is_full := True\<rparr>)
           else Some (x\<lparr>rx_put := put'\<rparr>));
     Some (upd_rx rx (\<lambda>_. if is_full x then x\<lparr>rx_get := rx_put x\<rparr> else x) s)
   }"
    using rx w by (simp add: rt_dma_recv_update_put_index_def s [symmetric] put' [symmetric] Let_def cong: if_cong)
  show ?thesis
  proof (cases "rx_get x \<le> rx_put x")
    case True
    then have g: "?g \<le> ?p" by (simp add: word_le_nat_alt)
    then have cl: "\<not> is_full x \<Longrightarrow> rx_count n x = ?p - ?g" "is_full x \<Longrightarrow> full" using c full by auto
    show ?thesis
    proof (cases "n \<le> put'")
      case wrap: True
      then have "\<not> is_full x \<Longrightarrow> full \<longleftrightarrow> rx_get x \<le> j"
        using full cl p' js g r len by (auto simp: word_le_nat_alt)
      then show ?thesis using def True wrap cl(2) by (cases x; cases "rx_get x \<le> j"; cases full) auto
    next
      case in_range: False
      then have l: "?p + ?l < ?n" using p' by (simp add: word_le_nat_alt)
      then have "\<not> is_full x \<Longrightarrow> \<not> full" using full cl g r by auto
      then show ?thesis using def True in_range cl(2) small [OF l] by (cases x; cases full) auto
    qed
  next
    case False
    then have g: "?p < ?g" by (simp add: word_le_nat_alt)
    then have nf: "\<not> is_full x" "rx_count n x = ?n - (?g - ?p)" using r c by auto
    then have fl: "full \<longleftrightarrow> rx_get x \<le> put'" using full p' g r by (auto simp: word_le_nat_alt)
    then have "\<not> full \<Longrightarrow> put' = j" using small p' r by (simp add: word_le_nat_alt)
    then show ?thesis using def False fl nf(1) by (cases x; cases full) auto
  qed
qed

lemma dma_put_ok:
  fixes len :: u32
  assumes ok: "dma_rx_ok n x" and len: "unat len = length bs" "length bs \<le> unat n"
    and s: "n = serial_bufsz d s" "rx = serial_rx (serials s d)" "x = rx_fifos s rx" and rx: "rx \<noteq> RT_NULL"
    and w: "written (rx_buffer x) (unat n) (unat (rx_put x)) bs m (bmem (dk s))"
  shows "\<exists>s'. rt_dma_recv_update_put_index d len s = Some s' \<and> dma_rx_ok n (rx_fifos s' rx) \<and> rx_frame rx s s' \<and> hw s' = hw s
     \<and> fifo_bytes d rx s' = newest (unat n) (rx_content n x m @ bs)"
proof -
  define c j k where ck: "c = rx_count n x" "j = (of_nat ((unat (rx_put x) + length bs) mod unat n) :: u16)" "k = c + length bs - unat n"
  define full where full: "full \<longleftrightarrow> is_full x \<or> unat n \<le> c + length bs"
  let ?x = "x\<lparr>rx_put := j, rx_get := (if full then j else rx_get x), is_full := full\<rparr>"
  let ?g = "unat (rx_get x)"
  have r: "rx_ok n x" "0 < unat n" "is_full x \<longrightarrow> c = unat n" "?g < unat n"
    using ok by (auto simp: dma_rx_ok_def rx_ok_def word_less_nat_alt rx_count_def ck)
  have p: "unat (rx_put x) = (?g + c) mod unat n" using rx_put_index [OF r(1)] ck by simp
  have c: "c \<le> unat n" using rx_count_le [OF r(1)] ck by simp
  have "unat n \<le> 0x8000" using ok by (simp add: dma_rx_ok_def word_le_nat_alt)
  then have "(unat (rx_put x) + length bs) mod unat n < 0x10000"
    using mod_less_divisor [OF r(2), of "unat (rx_put x) + length bs"] by linarith
  then have j: "unat j = (unat (rx_put x) + length bs) mod unat n" by (simp add: ck(2) unat_of_nat)
  then have j': "unat j = (?g + (c + length bs)) mod unat n" "j < n"
    using p r(2) by (simp_all add: mod_add_left_eq add.assoc word_less_nat_alt)
  have upd: "rt_dma_recv_update_put_index d len s = Some (upd_rx rx (\<lambda>_. ?x) s)"
    by (rule dma_put_index [OF ok _ s rx]) (use j len full ck in simp_all)
  have full': "full \<longleftrightarrow> unat n \<le> c + length bs" using full r(3) by auto
  then have "full \<Longrightarrow> c + length bs = k + unat n" "\<not> full \<Longrightarrow> k = 0" by (simp_all add: ck(3))
  then have get: "unat (rx_get ?x) = (?g + k) mod unat n" and k: "c + length bs - k = (if full then unat n else c + length bs)"
    using j'(1) r(4) by (cases full; simp add: add.assoc [symmetric])+
  have cnt: "rx_count n ?x = c + length bs - k"
  proof (cases full)
    case False
    show ?thesis unfolding k
      by (rule rx_count_eq [THEN trans]) (use False full' j' r(1) in \<open>simp_all add: rx_ok_def\<close>)
  qed (simp add: k rx_count_def)
  have "dma_rx_ok n ?x" using ok j'(2) by (auto simp: dma_rx_ok_def rx_ok_def)
  moreover have "rx_content n ?x (bmem (dk s)) = newest (unat n) (rx_content n x m @ bs)"
    using ring_written [OF _ r(2) c len(2) ck(3), of "rx_buffer x" ?g m "bmem (dk s)"] w p cnt get ck(1)
    by (simp add: rx_content_def)
  moreover have "rx_frame rx s (upd_rx rx (\<lambda>_. ?x) s)"
    by (rule rx_frameI [where x = ?x and m = "bmem (dk s)" and h = "hw s"]) (simp_all add: upd_rx_def s(3))
  ultimately show ?thesis using upd s(1) by (simp add: upd_rx_def)
qed

lemma dma_copy:
  fixes g n r :: u32
  assumes "g < n" "r \<le> n" "n \<le> 0x8000" "apart data (unat r) B (unat n)"
  shows "(if g + r < n then rt_memcpy data (B + unat g) (unat r) m
          else do {
            m \<leftarrow> rt_memcpy data (B + unat g) (unat (n - g)) m;
            rt_memcpy (data + unat n - unat g) B (unat (r + g - n)) m
          }) = Some (\<lambda>a. if data \<le> a \<and> a < data + unat r then m (B + (unat g + (a - data)) mod unat n) else m a)"
proof -
  have n: "unat g < unat n" "unat r \<le> unat n" "unat n \<le> 0x8000" using assms(1-3) by (simp_all add: word_less_nat_alt word_le_nat_alt)
  have add: "unat (g + r) = unat g + unat r" using n unat_add_lem [of g r] by simp
  show ?thesis
  proof (cases "unat g + unat r < unat n")
    case True
    then have "rt_memcpy data (B + unat g) (unat r) m = Some (copied data (B + unat g) (unat r) m)"
      using assms(4) n by (intro rt_memcpy_copied) (auto simp: up_safe_def apart_def)
    then show ?thesis using True by (auto simp: word_less_nat_alt add copied_def fun_eq_iff add.assoc)
  next
    case False
    have sub: "unat (n - g) = unat n - unat g" "unat (r + g - n) = unat r + unat g - unat n"
      using False n add by (simp_all add: unat_sub word_le_nat_alt add.commute)
    have c1: "rt_memcpy data (B + unat g) (unat (n - g)) m = Some (copied data (B + unat g) (unat n - unat g) m)"
      unfolding sub using assms(4) n False by (intro rt_memcpy_copied) (auto simp: up_safe_def apart_def)
    have c2: "rt_memcpy (data + unat n - unat g) B (unat (r + g - n)) m' = Some (copied (data + unat n - unat g) B (unat r + unat g - unat n) m')" for m'
      unfolding sub using assms(4) n False by (intro rt_memcpy_copied) (auto simp: up_safe_def apart_def)
    have "copied (data + unat n - unat g) B (unat r + unat g - unat n) (copied data (B + unat g) (unat n - unat g) m) a
        = (if data \<le> a \<and> a < data + unat r then m (B + (unat g + (a - data)) mod unat n) else m a)" for a
    proof (cases "data + unat n - unat g \<le> a \<and> a < data + unat r")
      case True
      then have "(unat g + (a - data)) mod unat n = a - (data + unat n - unat g)"
        using n mod_ring [of "unat g" "unat n" "a - data"] by auto
      then show ?thesis using True False n assms(4) by (auto simp: copied_def apart_def)
    next
      case out: False
      then have "data \<le> a \<Longrightarrow> a < data + unat r \<Longrightarrow> (unat g + (a - data)) mod unat n = unat g + (a - data)" by auto
      then show ?thesis using out False n by (auto simp: copied_def add.assoc)
    qed
    then show ?thesis using False by (simp add: c1 c2 add word_less_nat_alt fun_eq_iff)
  qed
qed

lemma dma_get_index:
  fixes r :: u32
  assumes ok: "dma_rx_ok n x" and s: "n = serial_bufsz d s" "rx = serial_rx (serials s d)" "x = rx_fifos s rx" and rx: "rx \<noteq> RT_NULL"
    and r: "unat r \<le> rx_count n x"
  shows "\<exists>x'. rt_dma_recv_update_get_index d r s = Some (upd_rx rx (\<lambda>_. x') s) \<and> dma_rx_ok n x' \<and> rx_buffer x' = rx_buffer x
     \<and> (\<forall>m. rx_content n x' m = drop (unat r) (rx_content n x m))"
proof -
  define c where c: "c = rx_count n x"
  have n: "unat n \<le> 0x8000" "rx_ok n x" "unat (rx_get x) < unat n" "c \<le> unat n"
    using ok rx_count_le [of n x] by (auto simp: dma_rx_ok_def rx_ok_def word_le_nat_alt word_less_nat_alt c)
  obtain l where l: "rt_dma_calc_recved_len d s = Some l" "unat l = c"
    using dma_recved_len [of s d] n(2) rx s c by auto
  have i: "unat (ucast (ucast (rx_get x) + r) :: u16) = unat (rx_get x) + unat r"
    using unat_index_add [of "rx_get x" r] n r c by simp
  obtain j where j: "fifo_wrap (ucast (ucast (rx_get x) + r)) n = Some j" "unat j = (unat (rx_get x) + unat r) mod unat n" "j < n"
    using fifo_wrap_ok [of n "ucast (ucast (rx_get x) + r)"] n i by (auto simp: word_less_nat_alt)
  define x' where x': "x' = (if is_full x \<and> r \<noteq> 0 then x\<lparr>is_full := False\<rparr> else x)\<lparr>rx_get := j\<rparr>"
  have upd: "rt_dma_recv_update_get_index d r s = Some (upd_rx rx (\<lambda>_. x') s)"
    using rx l r j by (simp add: rt_dma_recv_update_get_index_def s [symmetric] x' c word_le_nat_alt Let_def if_distrib cong: if_cong)
  have put: "unat (rx_put x) = (unat j + (c - unat r)) mod unat n"
    using rx_put_index [OF n(2)] j(2) r mod_add_left_eq [of "unat (rx_get x) + unat r" "unat n" "c - unat r"] by (simp add: c)
  have "dma_rx_ok n x' \<and> rx_count n x' = c - unat r"
  proof (cases "r = 0")
    case True
    then have "j = rx_get x" using j(2) n(3) by (simp add: word_unat_eq_iff)
    then have "x' = x" using True by (cases x) (simp add: x')
    then show ?thesis using ok True c by simp
  next
    case False
    then have "c - unat r < unat n" using n r c by (simp add: unat_gt_0 [symmetric])
    moreover have "\<not> is_full x'" using False by (simp add: x')
    moreover have "rx_ok n x'" using n(2) j(3) by (simp add: x' rx_ok_def)
    ultimately show ?thesis using ok put rx_count_eq [of n x' "c - unat r"] by (auto simp: dma_rx_ok_def x')
  qed
  then show ?thesis
    using upd j(2) ring_drop [of "unat r" c "rx_buffer x" "unat n" "unat (rx_get x)"] r c
    by (auto simp: rx_content_def x')
qed

lemma serial_dma_rx_ok:
  fixes sz :: u32
  assumes ok: "dma_rx_ok n x" and s: "n = serial_bufsz d s" "rx = serial_rx (serials s d)" "x = rx_fifos s rx"
    and nn: "rx \<noteq> RT_NULL" "d \<noteq> RT_NULL" "data \<noteq> RT_NULL" and sz: "sz < 0x80000000"
    and ap: "apart data (unat sz) (rx_buffer x) (unat n)"
  shows "\<exists>r s'. serial_dma_rx ops d data sz s = Some (r, s') \<and> unat r = min (unat sz) (length (fifo_bytes d rx s))
     \<and> dma_rx_ok n (rx_fifos s' rx) \<and> rx_frame rx s s' \<and> hw s' = hw s \<and> fifo_bytes d rx s' = drop (unat sz) (fifo_bytes d rx s)
     \<and> (\<forall>i<unat r. bmem (dk s') (data + i) = fifo_bytes d rx s ! i)"
proof -
  define c m where cm: "c = rx_count n x" "m = bmem (dk s)"
  have n: "unat n \<le> 0x8000" "rx_ok n x" "unat (rx_get x) < unat n" "c \<le> unat n"
    using ok rx_count_le [of n x] by (auto simp: dma_rx_ok_def rx_ok_def word_le_nat_alt word_less_nat_alt cm)
  obtain l where l: "rt_dma_calc_recved_len d s = Some l" "unat l = c"
    using dma_recved_len [of s d] n(2) nn(1) s cm by auto
  define r where r: "r = (if sint sz < sint l then sz else l)"
  have "l < 0x80000000" using l n by (simp add: word_less_nat_alt)
  then have "sint sz < sint l \<longleftrightarrow> unat sz < c" using sint_nonneg [OF sz] sint_nonneg [of l] l(2) by (simp only: of_nat_less_iff)
  then have ru: "unat r = min (unat sz) c" using l(2) by (simp add: r)
  define m' where m': "m' = (\<lambda>a. if data \<le> a \<and> a < data + unat r then m (rx_buffer x + (unat (rx_get x) + (a - data)) mod unat n) else m a)"
  let ?s = "s\<lparr>dk := (dk s)\<lparr>bmem := m'\<rparr>\<rparr>"
  have ap': "apart data (unat r) (rx_buffer x) (unat n)" using ap ru by (auto simp: apart_def)
  obtain x' where x': "rt_dma_recv_update_get_index d r ?s = Some (upd_rx rx (\<lambda>_. x') ?s)" "dma_rx_ok n x'" "rx_buffer x' = rx_buffer x"
    "\<And>m. rx_content n x' m = drop (unat r) (rx_content n x m)"
    using dma_get_index [OF ok, where s = ?s and d = d and rx = rx and r = r] s nn(1) ru cm by auto
  have pre: "(ucast (rx_get x) :: u32) < ucast n" "r \<le> ucast n" "(ucast n :: u32) \<le> 0x8000"
    using n ru by (simp_all add: word_less_nat_alt word_le_nat_alt)
  have copy: "(if ucast (rx_get x) + r < ucast n then rt_memcpy data (rx_buffer x + unat (rx_get x)) (unat r) m
          else do {
            m \<leftarrow> rt_memcpy data (rx_buffer x + unat (rx_get x)) (unat (ucast n - ucast (rx_get x) :: u32)) m;
            rt_memcpy (data + unat n - unat (rx_get x)) (rx_buffer x) (unat (r + ucast (rx_get x) - ucast n)) m
          }) = Some m'"
    using dma_copy [OF pre, of data "rx_buffer x" m] ap' unfolding m' by (simp only: unat_ucast16)
  have "n \<noteq> 0" using n(3) by auto
  then have rd: "serial_dma_rx ops d data sz s = Some (r, upd_rx rx (\<lambda>_. x') ?s)"
    using nn copy x'(1) l(1) by (simp add: serial_dma_rx_def s [symmetric] cm(2) [symmetric] r [symmetric] Let_def cong: if_cong)
  have "rx_content n x m' = rx_content n x m"
    unfolding rx_content_def by (rule ring_cong) (use ap' n(3) in \<open>auto simp: m' apart_def\<close>)
  then have c': "rx_content n x' m' = drop (unat sz) (rx_content n x m)"
    using x'(4) ru by (simp add: rx_content_def cm(1) [symmetric] min_def)
  have b: "m' (data + i) = rx_content n x m ! i" if "i < unat r" for i
    using that ru by (simp add: m' rx_content_def cm(1))
  have "rx_frame rx s (upd_rx rx (\<lambda>_. x') ?s)"
    by (rule rx_frameI [where x = x' and m = m' and h = "hw s"]) (simp_all add: upd_rx_def x'(3) s(3))
  then show ?thesis
    using rd ru x'(2) b c' by (simp add: upd_rx_def s [symmetric] cm rx_content_def)
qed

subsection \<open>Properties\<close>

lemma unat_sub_of_nat:
  fixes w :: u32
  assumes "k \<le> unat w"
  shows "unat (w - of_nat k) = unat w - k"
proof -
  have "unat w < 2 ^ LENGTH(32)" by (rule unsigned_less)
  then have "unat (of_nat k :: u32) = k" using assms by (simp add: unat_of_nat)
  then show ?thesis using assms by (simp add: unat_sub word_le_nat_alt)
qed

text \<open>Opening for interrupts makes an empty FIFO.\<close>

lemma open_rx_fifo_empty:
  assumes "open_rx_fifo malloc d s = Some s'" "2 \<le> serial_bufsz d s"
  shows "serial_rx (serials s' d) \<noteq> RT_NULL \<and> int_rx_ok (serial_bufsz d s') (rx_fifos s' (serial_rx (serials s' d)))
     \<and> fifo_bytes d (serial_rx (serials s' d)) s' = []"
proof -
  have "0 < serial_bufsz d s" using assms(2) by (simp add: word_le_nat_alt word_less_nat_alt)
  then show ?thesis using assms
    by (auto simp: open_rx_fifo_def upd_rx_def upd_serial_def int_rx_ok_def rx_ok_def rx_content_def rx_count_def split: prod.splits)
qed

text \<open>The contract of \<^verbatim>\<open>putc\<close> when it waits for room: the byte is sent, and not \<open>- 1\<close> returned. The bytes sent are the state of the hardware.\<close>

definition uart_sends :: "u8 list uart_ops \<Rightarrow> ptr \<Rightarrow> bool" where
  "uart_sends ops d \<longleftrightarrow> (\<forall>c s. putc_op ops d c s = Some (1, s\<lparr>hw := hw s @ [c]\<rparr>))"

definition crlf :: "bool \<Rightarrow> u8 list \<Rightarrow> u8 list" where
  "crlf stream bs = concat (map (\<lambda>c. if c = LF \<and> stream then [CR, LF] else [c]) bs)"

lemma poll_tx_loop_ok:
  assumes "uart_sends ops d"
  shows "poll_tx_loop ops d data n s
     = Some (s\<lparr>hw := hw s @ crlf (open_flag (devices s d) AND RT_DEVICE_FLAG_STREAM \<noteq> 0) (map (\<lambda>i. bmem (dk s) (data + i)) [0..<n])\<rparr>)"
proof (induction n arbitrary: data s)
  case (Suc n)
  have m: "map (\<lambda>i. bmem (dk s) (data + i)) [0..<Suc n] = bmem (dk s) data # map (\<lambda>i. bmem (dk s) (data + 1 + i)) [0..<n]"
    by (simp add: upt_conv_Cons map_Suc_upt [symmetric] comp_def del: upt_Suc)
  show ?case using assms by (simp add: m uart_sends_def Suc.IH crlf_def del: upt_Suc)
qed (simp add: crlf_def)

lemma serial_poll_tx_ok:
  assumes "uart_sends ops d" "d \<noteq> RT_NULL"
  shows "serial_poll_tx ops d data sz s
     = Some (sz, s\<lparr>hw := hw s @ crlf (open_flag (devices s d) AND RT_DEVICE_FLAG_STREAM \<noteq> 0) (map (\<lambda>i. bmem (dk s) (data + i)) [0..<unat sz])\<rparr>)"
  using assms by (simp add: serial_poll_tx_def poll_tx_loop_ok)

text \<open>In interrupt mode the receive FIFO of a serial device is a queue that keeps the newest bytes. When
  the UART signals received data, the interrupt handler takes over all of it and returns; the FIFO then holds
  the newest \<open>bufsz - 1\<close> bytes of what it held and what arrived, in order. A read then returns
  the oldest of them, as many as there are and as fit, in order, and leaves the rest in the FIFO. The indices
  stay within the buffer, and nothing else changes but the caller's buffer.\<close>

lemma serial_interrupt_receive:
  assumes "uart_reads ops d" "d \<noteq> RT_NULL" "rx = serial_rx (serials s d)" "rx \<noteq> RT_NULL" "n = serial_bufsz d s"
    "int_rx_ok n (rx_fifos s rx)" "rx_indicate (devices s d) = RT_NULL" "open_flag (devices s d) AND RT_DEVICE_FLAG_INT_RX \<noteq> 0"
    "apart data (unat sz) (rx_buffer (rx_fifos s rx)) (unat n)"
  shows "\<exists>s1 r s2. rt_hw_serial_isr ops calls d RT_SERIAL_EVENT_RX_IND s = Some s1 \<and> hw s1 = []
     \<and> fifo_bytes d rx s1 = newest (unat n - 1) (fifo_bytes d rx s @ hw s)
     \<and> rt_serial_read ops d data sz s1 = Some (r, s2) \<and> unat r = min (unat sz) (length (fifo_bytes d rx s1))
     \<and> (\<forall>i<unat r. bmem (dk s2) (data + i) = fifo_bytes d rx s1 ! i)
     \<and> fifo_bytes d rx s2 = drop (unat sz) (fifo_bytes d rx s1)
     \<and> int_rx_ok n (rx_fifos s2 rx) \<and> rx_frame rx s s2"
proof -
  obtain s1 where s1: "isr_rx_loop ops d rx s = Some s1" "int_rx_ok n (rx_fifos s1 rx)" "rx_frame rx s s1" "hw s1 = []"
    "fifo_bytes d rx s1 = newest (unat n - 1) (fifo_bytes d rx s @ hw s)"
    using isr_rx_loop_ok [OF assms(1), of s rx] assms(5,6) by auto
  note f = rx_frame_fields [OF s1(3)]
  have isr: "rt_hw_serial_isr ops calls d RT_SERIAL_EVENT_RX_IND s = Some s1"
    using s1(1) f assms(3,4,7) by (simp add: rt_hw_serial_isr_def isr_rx_ind_def)
  obtain s2 where s2: "int_rx_loop d rx data (unat sz) s1 = (unat sz - length (fifo_bytes d rx s1), s2)" "int_rx_ok n (rx_fifos s2 rx)"
    "rx_frame rx s1 s2" "fifo_bytes d rx s2 = drop (unat sz) (fifo_bytes d rx s1)"
    "\<And>i. i < unat sz \<Longrightarrow> i < length (fifo_bytes d rx s1) \<Longrightarrow> bmem (dk s2) (data + i) = fifo_bytes d rx s1 ! i"
    using int_rx_loop_ok [of s1 d rx data "unat sz"] s1(2) f assms(5,9) by auto
  define r where r: "r = sz - of_nat (unat sz - length (fifo_bytes d rx s1))"
  have u: "unat r = min (unat sz) (length (fifo_bytes d rx s1))"
    unfolding r by (subst unat_sub_of_nat) (simp_all add: min_def)
  have "rt_serial_read ops d data sz s1 = Some (r, s2)"
    using s2(1) f assms(2,3,4,8) by (auto simp: rt_serial_read_def serial_int_rx_def r)
  then show ?thesis
    using isr s1(4,5) u s2(2,4,5) rx_frame_trans [OF s1(3) s2(3)] by (intro exI [of _ s1] exI [of _ r] exI [of _ s2]) simp
qed

lemma dma_event_kind: "(push_bit 8 len OR 3) AND 0xff = (3 :: u32)"
proof -
  have m: "(0xff :: u32) = mask 8" "(3 :: u32) = mask 2" by (simp_all add: mask_eq_exp_minus_1)
  show ?thesis unfolding m by (rule bit_word_eqI) (auto simp: bit_simps)
qed

lemma dma_event_length:
  fixes len :: u32
  assumes "unat len < 0x800000"
  shows "signed_drop_bit 8 ((push_bit 8 len OR 3) AND NOT 0xff) = len"
proof -
  have m: "(0xff :: u32) = mask 8" "(3 :: u32) = mask 2" by (simp_all add: mask_eq_exp_minus_1)
  have e: "(push_bit 8 len OR 3) AND NOT 0xff = push_bit 8 len"
    unfolding m by (rule bit_word_eqI) (auto simp: bit_simps)
  have "take_bit 23 (unat len) = unat len" using assms by (simp add: take_bit_nat_eq_self)
  moreover have "\<not> bit (take_bit 23 (unat len)) i" if "23 \<le> i" for i
    using that by (simp add: bit_take_bit_iff)
  ultimately have "\<not> bit len i" if "23 \<le> i" for i using that by (simp add: bit_unsigned_iff)
  then show ?thesis unfolding e
    by (intro bit_word_eqI) (auto simp: bit_simps bit_signed_drop_bit_iff not_le)
qed

text \<open>In DMA mode the receive FIFO of a serial device is a queue that keeps the newest \<open>bufsz\<close> bytes. When the DMA controller
  has written at most \<open>bufsz\<close> bytes behind the put index, around the end of the buffer, and the handler
  is told so, with their number in the upper bits of the event, the FIFO holds the newest \<open>bufsz\<close> bytes of
  what it held and what was written, also where these bytes have overwritten older ones. A read then copies
  the oldest bytes, in one or two pieces, and leaves the rest in the FIFO.\<close>

lemma serial_dma_receive:
  fixes len sz :: u32
  assumes "d \<noteq> RT_NULL" "data \<noteq> RT_NULL" "rx = serial_rx (serials s d)" "rx \<noteq> RT_NULL" "n = serial_bufsz d s"
    "dma_rx_ok n (rx_fifos s rx)" "rx_indicate (devices s d) = RT_NULL" "open_flag (devices s d) AND RT_DEVICE_FLAG_INT_RX = 0"
    "open_flag (devices s d) AND RT_DEVICE_FLAG_DMA_RX \<noteq> 0" "unat len = length bs" "length bs \<le> unat n"
    "written (rx_buffer (rx_fifos s rx)) (unat n) (unat (rx_put (rx_fifos s rx))) bs m (bmem (dk s))"
    "0 < sz" "sz < 0x80000000" "apart data (unat sz) (rx_buffer (rx_fifos s rx)) (unat n)"
  shows "\<exists>s1 r s2. rt_hw_serial_isr ops calls d (push_bit 8 len OR RT_SERIAL_EVENT_RX_DMADONE) s = Some s1
     \<and> fifo_bytes d rx s1 = newest (unat n) (rx_content n (rx_fifos s rx) m @ bs)
     \<and> rt_serial_read ops d data sz s1 = Some (r, s2) \<and> unat r = min (unat sz) (length (fifo_bytes d rx s1))
     \<and> (\<forall>i<unat r. bmem (dk s2) (data + i) = fifo_bytes d rx s1 ! i)
     \<and> fifo_bytes d rx s2 = drop (unat sz) (fifo_bytes d rx s1)
     \<and> dma_rx_ok n (rx_fifos s2 rx) \<and> rx_frame rx s s2"
proof -
  have n: "unat n \<le> 0x8000" "n \<noteq> 0" using assms(6) by (auto simp: dma_rx_ok_def rx_ok_def word_le_nat_alt)
  obtain s1 where s1: "rt_dma_recv_update_put_index d len s = Some s1" "dma_rx_ok n (rx_fifos s1 rx)" "rx_frame rx s s1"
    "fifo_bytes d rx s1 = newest (unat n) (rx_content n (rx_fifos s rx) m @ bs)"
    using dma_put_ok [OF assms(6,10,11,5,3) refl assms(4,12)] by auto
  note f = rx_frame_fields [OF s1(3)]
  obtain l where l: "rt_dma_calc_recved_len d s1 = Some l"
    using dma_recved_len [of s1 d] s1(2) f assms(3,4,5) by (auto simp: dma_rx_ok_def)
  have "signed_drop_bit 8 ((push_bit 8 len OR 3) AND NOT 0xff) = len"
    by (rule dma_event_length) (use assms(10,11) n in simp)
  then have isr: "rt_hw_serial_isr ops calls d (push_bit 8 len OR RT_SERIAL_EVENT_RX_DMADONE) s = Some s1"
    using s1(1) l f n(2) assms(5,7) by (simp add: rt_hw_serial_isr_def dma_event_kind isr_rx_dmadone_def)
  have "apart data (unat sz) (rx_buffer (rx_fifos s1 rx)) (unat n)" using assms(15) f by simp
  then obtain r s2 where s2: "serial_dma_rx ops d data sz s1 = Some (r, s2)" "unat r = min (unat sz) (length (fifo_bytes d rx s1))"
    "dma_rx_ok n (rx_fifos s2 rx)" "rx_frame rx s1 s2" "fifo_bytes d rx s2 = drop (unat sz) (fifo_bytes d rx s1)"
    "\<And>i. i < unat r \<Longrightarrow> bmem (dk s2) (data + i) = fifo_bytes d rx s1 ! i"
    using serial_dma_rx_ok [OF s1(2), where s = s1 and d = d and rx = rx and data = data and sz = sz and ops = ops] f assms(1-5,14) by auto
  have "rt_serial_read ops d data sz s1 = Some (r, s2)"
    using s2(1) f assms(1,8,9,13) by (auto simp: rt_serial_read_def)
  then show ?thesis
    using isr s1(4) s2 rx_frame_trans [OF s1(3) s2(4)] by (intro exI [of _ s1] exI [of _ r] exI [of _ s2]) simp
qed

text \<open>
  The contract of \<^verbatim>\<open>dma_transmit\<close>: it starts a transfer and returns. The transfers started are the state
  of the hardware here. The sender is idle, or the DMA controller works on the first block of the queue.
\<close>

definition dma_log :: "ptr \<Rightarrow> ptr \<Rightarrow> u32 \<Rightarrow> int \<Rightarrow> (ptr \<times> u32) list serial_state \<Rightarrow> (ptr \<times> u32) list serial_state option" where
  "dma_log d p n dir s = Some (s\<lparr>hw := hw s @ [(p, n)]\<rparr>)"

abbreviation dma_queue :: "ptr \<Rightarrow> 'h serial_state \<Rightarrow> rt_data_queue" where
  "dma_queue d s \<equiv> tx_queue (tx_dmas s (serial_tx (serials s d)))"

definition dma_tx_ok :: "ptr \<Rightarrow> 'h serial_state \<Rightarrow> bool" where
  "dma_tx_ok d s \<longleftrightarrow> serial_tx (serials s d) \<noteq> RT_NULL \<and> dq_ok (dma_queue d s) \<and> \<not> evt_notify (dma_queue d s)
     \<and> (tx_activated (tx_dmas s (serial_tx (serials s d))) \<longleftrightarrow> dq_content (dma_queue d s) \<noteq> [])
     \<and> tlists (dk s) (Senders (serial_tx (serials s d) + 4)) = [] \<and> tlists (dk s) (Waiters (serial_tx (serials s d) + 4)) = []"

definition dma_sent :: "ptr \<Rightarrow> (ptr \<times> u32) list serial_state \<Rightarrow> (ptr \<times> u32) list" where
  "dma_sent d s = hw s @ tl (dq_content (dma_queue d s))"

lemma dma_write_ok:
  assumes "dma_op ops = Some dma_log" "dma_tx_ok d s" "length (dq_content (dma_queue d s)) < unat (dq_size (dma_queue d s))"
    "put_index (dma_queue d s) < 0xffff"
  shows "\<exists>s'. serial_dma_tx ops d data sz s = Some (Written sz, s') \<and> dma_tx_ok d s'
     \<and> dq_content (dma_queue d s') = dq_content (dma_queue d s) @ [(data, sz)] \<and> dma_sent d s' = dma_sent d s @ [(data, sz)]
     \<and> serials s' = serials s \<and> devices s' = devices s"
proof -
  define q where q: "q = dma_queue d s"
  define q' where q': "q' = q\<lparr>dq_items := (dq_items q)(unat (put_index q) mod unat (dq_size q) := (data, sz)), put_index := put_index q + 1\<rparr>"
  have ok: "dq_ok q" "\<not> evt_notify q" using assms(2) by (simp_all add: dma_tx_ok_def q)
  have c: "dq_ok q'" "dq_content q' = dq_content q @ [(data, sz)]"
    using dq_push_ok [OF ok(1) _ _ q'] assms(3,4) by (simp_all add: q)
  have "int (unat (dq_size q)) = uint (dq_size q)" by simp
  then have "dq_len q \<noteq> uint (dq_size q)" using dq_len_ok [OF ok(1)] assms(3) unfolding q by linarith
  then have "rt_data_queue_push no_notify (serial_tx (serials s d) + 4) data sz RT_WAITING_FOREVER q (dk s) = Some (Done RT_EOK, q', dk s)"
    using ok assms(2) by (simp add: rt_data_queue_push_def dq_push_item_def dq_call_def dma_tx_ok_def tlist_isempty_def dq_ok_def q' Let_def word_gt_0)
  moreover have "\<not> evt_notify q'" using ok(2) by (simp add: q')
  ultimately show ?thesis
    using assms(1,2) c
    by (auto simp: serial_dma_tx_def dma_tx_pushed_def dma_tx_start_def dma_log_def dma_tx_ok_def dma_sent_def q [symmetric] q' [symmetric] Let_def)
qed

lemma dma_done_ok:
  assumes "dma_op ops = Some dma_log" "dma_tx_ok d s" "tx_complete (devices s d) = RT_NULL" "dq_content (dma_queue d s) = x # xs"
  shows "\<exists>s'. isr_tx_dmadone ops calls d s = Some s' \<and> dma_tx_ok d s' \<and> dq_content (dma_queue d s') = xs \<and> dma_sent d s' = dma_sent d s
     \<and> serials s' = serials s \<and> devices s' = devices s"
proof -
  define q q' where q: "q = dma_queue d s" "q' = q\<lparr>get_index := get_index q + 1\<rparr>"
  have ok: "dq_ok q" "\<not> evt_notify q" "dq_content q = x # xs" "serial_tx (serials s d) \<noteq> RT_NULL"
    using assms(2,4) by (simp_all add: dma_tx_ok_def q)
  have sz: "dq_array q \<noteq> RT_NULL" "dq_size q \<noteq> 0" using ok(1) by (auto simp: dq_ok_def)
  note p = dq_pop_ok [OF ok(1,3)]
  have pop: "rt_data_queue_pop no_notify (serial_tx (serials s d) + 4) 0 q (dk s) = Some (Done RT_EOK, Some x, q', dk s)"
    using ok sz p(1,2) assms(2)
    by (simp add: rt_data_queue_pop_def dq_pop_item_def dq_call_def dma_tx_ok_def tlist_isempty_def q(2) Let_def)
  have c': "dq_ok q'" "dq_content q' = xs" "\<not> evt_notify q'" using p(3,4) ok(2) by (simp_all add: q(2))
  have peak: "rt_data_queue_peak (serial_tx (serials s d) + 4) q' = Some (case xs of [] \<Rightarrow> (- RT_EEMPTY, None) | y # _ \<Rightarrow> (RT_EOK, Some y))"
  proof (cases xs)
    case Nil
    have "get_index q' = put_index q'" using c' Nil by (auto simp: dq_content_def dq_ok_def word_le_nat_alt word_unat_eq_iff)
    then show ?thesis using Nil by (simp add: rt_data_queue_peak_def)
  next
    case (Cons y ys)
    then show ?thesis
      using dq_pop_ok(1,2) [OF c'(1), of y ys] c'(2) sz by (simp add: rt_data_queue_peak_def) (simp add: q(2))
  qed
  show ?thesis
    using pop peak assms(1-3) ok c' unfolding isr_tx_dmadone_def
    by (cases xs) (simp_all add: q(1) [symmetric] Let_def dma_log_def dma_tx_ok_def dma_sent_def)
qed

text \<open>In DMA mode blocks are sent in the order they are written: as long as the queue has room and its index has not
  wrapped, a write returns at once and appends its block to those that have been started or wait for it, and
  starts it if the sender is idle; the end of a transfer starts the next block and changes nothing in this order.\<close>

lemma serial_dma_transmit:
  assumes "dma_op ops = Some dma_log" "dma_tx_ok d s" "d \<noteq> RT_NULL"
    "open_flag (devices s d) AND RT_DEVICE_FLAG_INT_TX = 0" "open_flag (devices s d) AND RT_DEVICE_FLAG_DMA_TX \<noteq> 0"
    "tx_complete (devices s d) = RT_NULL"
  shows "(length (dq_content (dma_queue d s)) < unat (dq_size (dma_queue d s)) \<and> put_index (dma_queue d s) < 0xffff \<and> sz \<noteq> 0 \<longrightarrow>
          (\<exists>s'. rt_serial_write ops d data sz s = Some (Written sz, s') \<and> dma_tx_ok d s' \<and> dma_sent d s' = dma_sent d s @ [(data, sz)]))
     \<and> (dq_content (dma_queue d s) \<noteq> [] \<longrightarrow>
          (\<exists>s'. rt_hw_serial_isr ops calls d RT_SERIAL_EVENT_TX_DMADONE s = Some s' \<and> dma_tx_ok d s' \<and> dma_sent d s' = dma_sent d s
             \<and> dq_content (dma_queue d s') = tl (dq_content (dma_queue d s))))"
proof (intro conjI impI)
  assume "length (dq_content (dma_queue d s)) < unat (dq_size (dma_queue d s)) \<and> put_index (dma_queue d s) < 0xffff \<and> sz \<noteq> 0"
  then show "\<exists>s'. rt_serial_write ops d data sz s = Some (Written sz, s') \<and> dma_tx_ok d s' \<and> dma_sent d s' = dma_sent d s @ [(data, sz)]"
    using dma_write_ok [OF assms(1,2), of data sz] assms(3-5) by (auto simp: rt_serial_write_def)
next
  assume "dq_content (dma_queue d s) \<noteq> []"
  then obtain x xs where c: "dq_content (dma_queue d s) = x # xs" by (cases "dq_content (dma_queue d s)") auto
  then show "\<exists>s'. rt_hw_serial_isr ops calls d RT_SERIAL_EVENT_TX_DMADONE s = Some s' \<and> dma_tx_ok d s' \<and> dma_sent d s' = dma_sent d s
             \<and> dq_content (dma_queue d s') = tl (dq_content (dma_queue d s))"
    using dma_done_ok [OF assms(1,2,6) c, of calls] by (auto simp: rt_hw_serial_isr_def)
qed

text \<open>Changing the size of the buffer of an open device is refused, with a positive number as the error.\<close>

lemma serial_config_busy:
  assumes "d \<noteq> RT_NULL" "args \<noteq> RT_NULL" "ref_count (devices s d) \<noteq> 0" "bufsz (pconfig args) \<noteq> serial_bufsz d s"
  shows "rt_serial_control ops pconfig d RT_DEVICE_CTRL_CONFIG args s = Some (RT_EBUSY, s)"
  using assms by (simp add: rt_serial_control_def)

text \<open>Closing for the last user frees the structure of a DMA sender, but not the array of the data queue in it.\<close>

lemma serial_close_leaks:
  assumes "open_flag (devices s d) AND RT_DEVICE_FLAG_INT_TX = 0" "open_flag (devices s d) AND RT_DEVICE_FLAG_DMA_TX \<noteq> 0"
    "serial_tx (serials s d) \<noteq> RT_NULL"
  shows "\<exists>s'. close_tx ops free d s = Some s' \<and> dk s' = free (serial_tx (serials s d)) (dk s)"
  using assms by (simp add: close_tx_def upd_serial_def del_oflag_def upd_dev_def)

end
