(* ===== verification/Spec2Isabelle.thy ===== *)
theory Spec2Isabelle
  imports RT_Semaphore RT_Mutex RT_Event RT_Mailbox RT_MsgQueue RT_Mempool RT_Heap RT_Ringbuffer
    RT_Completion RT_DataQueue RT_WorkQueue RT_Idle RT_System RT_Device RT_RingBlk RT_Printf RT_MemHeap
    RT_WaitQueue RT_Pipe RT_StrMem RT_Slab RT_SlabZone RT_Serial
begin

text \<open>
  \<^bold>\<open>RT-Thread kernel: a verified model.\<close>

  The program is the kernel of the real-time operating system RT-Thread (directory \<^verbatim>\<open>src/\<close> of the
  repository) with the inter-process services of its driver layer. Threads of 32 priorities share
  one processor; a scheduler always runs a ready thread of highest priority, a clock interrupt
  drives time slices and timers, and threads communicate through kernel objects on whose wait
  lists they are suspended. The modelled configuration is that of
  \<^verbatim>\<open>bsp/stm32/stm32f103-atk-nano/rtconfig.h\<close>: one 32-bit processor, assertions on, hard timers only,
  names of 8 characters, alignment 4, the small memory manager as the heap.

  \<^bold>\<open>Conventions.\<close> An address is a natural number and \<^verbatim>\<open>RT_NULL\<close> is 0. The record \<open>kernel\<close> holds the
  global variables and, by address, all kernel structures; C integers of fixed width are words.
  An operation takes the kernel state and returns the new one in an option: \<open>None\<close> is an assertion
  that fails, an access C leaves undefined (\<open>C_GUARD\<close>), or a loop that does not end. Errors of the C
  interface are returned as the same numbers. A function that blocks is cut at its call of
  \<^verbatim>\<open>rt_schedule\<close>: it returns \<open>Blocked\<close>, and a function with the suffix \<open>_resume\<close> is what its thread does
  when it runs again. Code outside the modelled files is an argument: the application's timeout
  functions and callbacks, stack initialisation (\<open>hw_stack_init\<close>), and \<open>malloc\<close> and \<open>free\<close> where a
  component is configured with some allocator. Intrusive lists are sequences; that the
  pointer-level list operations implement them is proved in \<open>RT_List\<close>.

  \<^bold>\<open>Theories\<close> (in the order of the code, with the sources they model):
  \<^item> \<open>RT_Prelude\<close>: machine types, option monad rules, shared lemmas on words, lists and folds.
  \<^item> \<open>RT_List\<close> (\<^verbatim>\<open>include/rtservice.h\<close>): doubly linked lists as pointer updates; the locale \<open>list_store\<close> is
    the contract of a family of disjoint lists, interpreted for sequences (\<open>seqs\<close>) and for the
    pointer representation (\<open>ptrs\<close>).
  \<^item> \<open>RT_SList\<close> (\<^verbatim>\<open>include/rtservice.h\<close>): singly linked lists as pointer updates, and the sequences they hold.
  \<^item> \<open>RT_Kernel\<close> (\<^verbatim>\<open>include/rtdef.h\<close>, \<^verbatim>\<open>include/rtdebug.h\<close>, \<^verbatim>\<open>src/irq.c\<close>): structures, assertions, interrupt nesting.
  \<^item> \<open>RT_KService\<close>, \<open>RT_Memory\<close> (\<^verbatim>\<open>src/kservice.c\<close>): find-first-set by table, string routines, memory
    routines with their word-wise loops, each equal to a byte-wise reference.
  \<^item> \<open>RT_Scheduler\<close> (\<^verbatim>\<open>src/scheduler.c\<close>): ready lists and group word, \<open>rt_schedule\<close>, the scheduler lock; the
    invariant \<open>sched_inv\<close> and its preservation.
  \<^item> \<open>RT_Object\<close> (\<^verbatim>\<open>src/object.c\<close>): the container of named, typed objects.
  \<^item> \<open>RT_Timer\<close> (\<^verbatim>\<open>src/timer.c\<close>): timers ordered by due time across the wrap-around of the tick; the locale
    \<open>timeout_calls\<close> is what the expiry loop needs of the functions it calls.
  \<^item> \<open>RT_Thread\<close> (\<^verbatim>\<open>src/thread.c\<close>, \<^verbatim>\<open>src/clock.c\<close>): threads and the tick. \<open>RT_KInv\<close>: the kernel invariant
    \<open>kinv\<close> (scheduler, timers, every live thread with its own timer) and its preservation by
    suspending, resuming, arming a timer, changing a priority. \<open>RT_Tick\<close>: the clock interrupt, with
    the interpretation \<open>tick\<close> of \<open>timeout_calls\<close> for the kernel's own timeout function.
  \<^item> \<open>RT_IPC\<close> (\<^verbatim>\<open>src/ipc.c\<close>): waiting and waking shared by all IPC objects. \<open>RT_Semaphore\<close>, \<open>RT_Mutex\<close>,
    \<open>RT_Event\<close>, \<open>RT_Mailbox\<close>, \<open>RT_MsgQueue\<close> (\<^verbatim>\<open>src/ipc.c\<close>) and \<open>RT_Mempool\<close> (\<^verbatim>\<open>src/mempool.c\<close>): one theory per
    object, each with its own invariant and, where there is one, an abstract object it refines.
  \<^item> \<open>RT_Fifo\<close>: the locale \<open>bounded_fifo\<close> and what its clients get: over any history of puts and gets the
    items come out as they went in. Interpreted by mailboxes (\<open>mbq\<close>) and ring buffers (\<open>rbq\<close>).
  \<^item> \<open>RT_Heap\<close> (\<^verbatim>\<open>src/mem.c\<close>): the small memory manager, refined to a list of used and free segments.
  \<^item> \<open>RT_MemHeap\<close> (\<^verbatim>\<open>src/memheap.c\<close>): memory heap objects, two rings of links per area, on the list
    operations of \<open>RT_List\<close>; and the kernel's heap interface on top of them.
  \<^item> \<open>RT_Slab\<close>, \<open>RT_SlabZone\<close> (\<^verbatim>\<open>src/slab.c\<close>): the slab allocator, an alternative to the small memory manager. The
    first theory holds the model and the page allocator, refined to an ordered list of free runs; the second
    the zones, each with its free and live chunks.
  \<^item> \<open>RT_StrMem\<close> (\<^verbatim>\<open>src/kservice.c\<close>): string search, duplication of strings, aligned allocation.
  \<^item> \<open>RT_Idle\<close> (\<^verbatim>\<open>src/idle.c\<close>): hooks and the clean-up of dead threads.
  \<^item> \<open>RT_Device\<close> (\<^verbatim>\<open>src/device.c\<close>): devices, opened by reference count, dispatching to driver functions. The locale
    \<open>device_driver\<close> is the contract between the device layer and a driver, \<open>reliable_driver\<close> that of a driver
    whose calls succeed; both are interpreted by the pipe driver (\<open>pipe_dev\<close>).
  \<^item> \<open>RT_Printf\<close> (\<^verbatim>\<open>src/kservice.c\<close>): formatted output into a buffer, and the console.
  \<^item> \<open>RT_Ringbuffer\<close>, \<open>RT_RingBlk\<close>, \<open>RT_Completion\<close>, \<open>RT_DataQueue\<close>, \<open>RT_WorkQueue\<close>
    (\<^verbatim>\<open>components/drivers/src/\<close>): the services of the driver layer. \<open>RT_WaitQueue\<close>: wait queues. \<open>RT_Pipe\<close>: the pipe
    device, composed of the models of devices, mutexes, ring buffers and wait queues.
  \<^item> \<open>RT_Serial\<close> (\<^verbatim>\<open>components/drivers/serial/serial.c\<close>): serial devices between the device layer and a UART driver,
    with their receive FIFO, their interrupt handler, and sending through completions and data queues.
  \<^item> \<open>RT_Example\<close>: a concrete running system, at which the general theorems are applied.
  \<^item> \<open>RT_System\<close>: clock interrupts and calls in any order, as a transition system.
  \<^item> This theory: scheduling, objects, time and memory, over the theories above.

  \<^bold>\<open>What is shown.\<close> The operations of the IPC objects keep the kernel invariant and are described on
  their success, refusal and waiting branches; they do not halt in a sound state. The scheduler
  runs a thread of highest priority, and in every reachable state of \<open>RT_System\<close> it has done so. A tick
  wakes exactly the threads that are due, and a timed wait lasts its number of ticks. Semaphores,
  events, mailboxes, data queues, ring buffers, pipes and the FIFO of serial devices refine abstract objects; a
  completion hands one event over, and a wait queue wakes its first waiter that accepts; message queues, memory pools, block ring buffers and the three heaps
  keep their free and used parts apart and inside their areas. Formatted output writes the text its
  format describes and nothing outside its buffer; the optimised memory and string routines equal
  their references. Where the code does something else than it means to, the theorem states what it
  does: memory pool time-outs, data queue wrap-around, cancelling delayed work, forced ring buffer
  writes, heap corner cases, mutex release without rescheduling, destroying a device, closing a pipe,
  a wake-up spent on a waiter that timed out, the first block of a block ring buffer, octal numbers and
  precision 0 in formats.

  \<^bold>\<open>Fuel and loops.\<close> The expiry loop of the timer check takes fuel; one more than the number of
  active timers is enough, because a restarted periodic timer is due later (\<open>tick_increase_ok\<close>, and
  \<open>tick_isr\<close> uses that fuel). The doubling of the zone size ends at its maximum after two rounds
  (\<open>zone_size_loop_enough\<close>). Other loops are structural, have a termination proof, or are partial
  functions in the option type for which it is proved that they return.

  \<^bold>\<open>Not modelled.\<close> SMP, signals, modules, soft timers and the POSIX file operations of pipes and serial devices, which the
  configuration leaves out; start-up, which runs tables that the linker builds; hook functions, which
  are unset; the scheduler's stack overflow check, which depends on what running code leaves on its stack. \<^verbatim>\<open>rt_exit_critical\<close> may switch threads
  before it returns; the statements after it are applied to the state it leaves. A message queue
  copies a message with interrupts enabled; the copy is one step with the rest of the call. A heap
  operation that has to wait for the heap's semaphore ends in \<open>Waiting\<close> (\<open>Held\<close> for the slab allocator). Device drivers, the
  other device frameworks, file systems, the network stacks, the shell, board support packages and processor
  ports are outside: they are clients of the kernel, vendor code or assembly.
\<close>

section \<open>Scheduling\<close>

text \<open>C1: \<^verbatim>\<open>rt_schedule\<close> with an unlocked scheduler, called while the current thread runs or some thread
  is ready: it returns with the scheduler invariant, has changed nothing but thread states, ready
  lists and the choice of the current thread, and the current thread is running with a priority
  that no ready thread beats.\<close>

theorem schedule_picks_highest:
  assumes "sched_inv k" "rt_current_thread k \<noteq> RT_NULL" "scheduler_lock_nest k = 0"
    "tstat k (rt_current_thread k) = RT_THREAD_RUNNING \<or> (\<exists>t. on_ready k t)"
  shows "\<exists>k'. rt_schedule k = Some k' \<and> sched_inv k' \<and> sched_frame k k'
     \<and> tstat k' (rt_current_thread k') = RT_THREAD_RUNNING
     \<and> (\<forall>t. tstat k' t = RT_THREAD_READY \<longrightarrow> tprio k' (rt_current_thread k') \<le> tprio k' t)"
  using rt_schedule_ok [OF assms(1,2)] assms(3,4) unfolding top_running_def by metis

theorem schedule_picks_highest_witness: "\<exists>k'. rt_schedule demo = Some k' \<and> sched_inv k'"
  using schedule_picks_highest [OF demo_sched] by (auto simp: demo_stat)

text \<open>The index \<^verbatim>\<open>__rt_ffs(group) - 1\<close> that the scheduler computes from a non-zero group word is
  its lowest set bit.\<close>

lemma ffs_lowest_bit:
  assumes "v \<noteq> 0"
  shows "0 < rt_ffs v \<and> bit v (rt_ffs v - 1) \<and> (\<forall>j < rt_ffs v - 1. \<not> bit v j)"
  using lowest_bit_ffs [OF assms] by (simp add: lowest_bit_def)

section \<open>Kernel objects\<close>

text \<open>C12: Registering an object: \<^verbatim>\<open>rt_object_init\<close> on a new address keeps the container sound, with every
  object on the list of its own class; the object has that class, \<^verbatim>\<open>rt_object_find\<close> returns it for the name
  it was given, and \<^verbatim>\<open>rt_object_detach\<close> restores the lists of the container.\<close>

theorem object_init_find:
  assumes "sched_inv k" "obj_inv k" "obj_typed k" "type \<in> set rt_object_container" "object \<noteq> RT_NULL"
    "object \<notin> fam_nodes (object_list k)" "interrupt_nest k = 0"
  shows "\<exists>k' k''. rt_object_init object type nm k = Some k' \<and> sched_inv k' \<and> obj_inv k' \<and> obj_typed k'
     \<and> rt_object_get_type object k' = Some type
     \<and> rt_object_find (Some nm) type k' = Some (object, k'') \<and> object_list k'' = object_list k'
     \<and> (\<exists>j. rt_object_detach object k' = Some j \<and> obj_typed j \<and> object_list j = object_list k)"
proof -
  have new: "object \<notin> set (object_list k c)" for c using assms(6) by (auto simp: in_fam_nodes)
  obtain k0 k' where k': "rt_object_init object type nm k = Some k'" "sched_inv k'"
    "sched_frame (k\<lparr>scheduler_lock_nest := scheduler_lock_nest k0\<rparr>) k0"
    "k' = k0\<lparr>objs := (objs k)(object := (objs k object)\<lparr>otype := type OR RT_Object_Class_Static, name := rt_strncpy nm RT_NAME_MAX\<rparr>),
       object_list := seq_insert_after type object (object_list k)\<rparr>"
    using rt_object_init_ok [OF assms(1,4) new, of nm] by blast
  have o: "objs k0 = objs k" "object_list k0 = object_list k" "interrupt_nest k0 = 0"
    using sched_frame_fields(1,2,4) [OF k'(3)] assms(7) by simp_all
  have i': "obj_inv k'" using obj_inv_init [OF assms(2,5,6), of type] by (simp add: k'(4) obj_inv_def)
  have t0: "obj_typed k0" using assms(3) o by (simp add: obj_typed_def is_class_def)
  have t': "obj_typed k'" using obj_typed_init [OF t0 assms(4,5)] assms(6) o by (simp add: k'(4))
  have l': "object_list k' type = object # object_list k type" "name (objs k' object) = rt_strncpy nm RT_NAME_MAX"
    by (simp_all add: k'(4) seq_insert_after_def)
  have "rt_strncmp (name (objs k' object)) nm RT_NAME_MAX = 0"
    by (simp only: l'(2) strncmp_eq_strncpy strncpy_strncpy)
  moreover obtain k'' where "rt_object_find (Some nm) type k' =
       Some (case find (\<lambda>ob. rt_strncmp (name (objs k' ob)) nm RT_NAME_MAX = 0) (object_list k' type)
         of None \<Rightarrow> RT_NULL | Some ob \<Rightarrow> ob, k'')" "object_list k'' = object_list k'"
    using rt_object_find_eq [OF k'(2) assms(4), of nm] o(3) by (auto simp: k'(4))
  ultimately have f: "rt_object_find (Some nm) type k' = Some (object, k'')" "object_list k'' = object_list k'"
    by (simp_all only: l'(1) find.simps simp_thms if_True option.case)
  have "is_class k' object type" using t' l'(1) by (simp add: obj_typed_def)
  then have "rt_object_get_type object k' = Some type" using assms(5) by (simp add: rt_object_get_type_def is_class_def)
  moreover obtain j where j: "rt_object_detach object k' = Some j" using assms(5) by (auto simp: rt_object_detach_def Let_def)
  moreover have "object_list j = object_list k"
  proof
    show "object_list j c = object_list k c" for c
      using j new [of c] assms(5) by (auto simp: rt_object_detach_def k'(4) upd_obj_def fam_remove_def seq_insert_after_def)
  qed
  ultimately show ?thesis using k'(1,2) i' t' f obj_typed_detach [OF t' j] by blast
qed

theorem object_init_find_witness:
  "\<exists>k' k''. rt_object_init 22 2 ''lock'' demo = Some k' \<and> rt_object_find (Some ''lock'') 2 k' = Some (22, k'')"
proof -
  have l: "object_list demo = (\<lambda>_. [])" by (simp add: demo_def)
  have "obj_inv demo" "obj_typed demo" "22 \<notin> fam_nodes (object_list demo)"
    by (simp_all add: obj_inv_def obj_typed_def list_family_def fam_nodes_def l)
  then show ?thesis
    using object_init_find [OF demo_sched, of 2 22 "''lock''"] by (auto simp: rt_object_container_def)
qed

section \<open>Timers and time\<close>

text \<open>C11: \<^verbatim>\<open>rt_timer_start\<close> on a timer object with a legal period: the timer is active, due its period
  after the present tick, and stands in the list behind all timers that are due no later and
  before all others; the list stays ordered whatever the wrap-around of the tick counter.\<close>

theorem timer_start_ordered:
  assumes "timer_inv b k" "is_class k x RT_Object_Class_Timer" "tm_init_tick (timers k x) < 0x7fffffff"
  shows "\<exists>k'. rt_timer_start x k = Some (RT_EOK, k') \<and> timer_inv b k'
     \<and> timeout_tick (timers k' x) = rt_tick k + tm_init_tick (timers k x)
     \<and> (let P = (\<lambda>t. due b k t \<le> unat (rt_tick k - b) + unat (tm_init_tick (timers k x)));
          ts = removeAll x (timer_list k)
        in timer_list k' = takeWhile P ts @ x # dropWhile P ts)"
proof -
  obtain k' where k': "rt_timer_start x k = Some (RT_EOK, k')"
    "timers k' = (timers k)(x := (timers k x)\<lparr>timeout_tick := rt_tick k + tm_init_tick (timers k x)\<rparr>)"
    using timer_start_eq [OF assms(2,3)] by auto
  with timer_start_inv [OF assms k'(1)] show ?thesis by auto
qed

theorem timer_start_ordered_witness:
  "\<exists>k'. rt_timer_start 11 demo = Some (RT_EOK, k') \<and> timer_list k' = [14, 11, 13]"
proof -
  have c: "is_class demo 11 RT_Object_Class_Timer" "tm_init_tick (timers demo 11) = 10"
    by (simp_all add: is_class_def demo_def ex_obj_def ex_timer_def)
  have d: "due 100 demo 14 = 1" "due 100 demo 13 = 50"
    by (simp_all add: due_def demo_def ex_timer_def)
  show ?thesis
    using timer_start_ordered [OF kinvD(2) [OF demo_kinv] c(1)] by (auto simp: c d Let_def)
qed

text \<open>C3: One tick of the clock interrupt: it terminates, advances the tick by one and wakes exactly
  the suspended threads whose timer is active and due by the new tick; these become ready or
  running with the error \<^verbatim>\<open>-RT_ETIMEOUT\<close>, all others stay suspended with their timers as they were.
  The kernel invariant holds again, seen from the new tick.\<close>

theorem tick_wakes_exactly:
  assumes "tick_inv app (rt_tick k) k" "length (timer_list k) < fuel"
  shows "\<exists>k'. rt_tick_increase app fuel k = Some k' \<and> tick_inv app (rt_tick k') k' \<and> rt_tick k' = rt_tick k + 1
     \<and> (\<forall>t. tstat k t = RT_THREAD_SUSPEND \<longrightarrow>
          (let x = thread_timer (threads k t) in
           if x \<in> set (timer_list k) \<and> timeout_tick (timers k x) - rt_tick k \<le> 1
           then tstat k' t \<in> {RT_THREAD_READY, RT_THREAD_RUNNING} \<and> error (threads k' t) = - RT_ETIMEOUT
           else tstat k' t = RT_THREAD_SUSPEND \<and> error (threads k' t) = error (threads k t)))"
  using tick_increase_ok [OF assms] by (fastforce simp: Let_def)

lemma demo_tick_inv: "tick_inv app 100 demo"
proof -
  have "objs demo x = ex_obj 0x8a 1 \<and> (\<exists>t p. timers demo x = ex_timer t p)" if "x \<in> {13, 14}" for x
    using that by (auto simp: demo_def)
  then have "flag (objs demo x) AND RT_TIMER_FLAG_PERIODIC = 0 \<and> tm_func (timers demo x) = Rt_thread_timeout"
    if "x \<in> {13, 14}" for x
    using that by (fastforce simp: ex_obj_def ex_timer_def)
  then show ?thesis using demo_kinv by (simp add: tick_inv_def)
qed

theorem tick_wakes_exactly_witness:
  "\<exists>k'. rt_tick_increase (\<lambda>_ _. Some) 3 demo = Some k' \<and> tstat k' 3 = RT_THREAD_SUSPEND
     \<and> tstat k' 4 \<in> {RT_THREAD_READY, RT_THREAD_RUNNING} \<and> error (threads k' 4) = - RT_ETIMEOUT"
proof -
  have d: "timeout_tick (timers demo 14) = 101" "timeout_tick (timers demo 13) = 150"
    by (simp_all add: demo_def ex_timer_def)
  obtain k' where k': "rt_tick_increase (\<lambda>_ _. Some) 3 demo = Some k'"
    "\<And>t. tstat demo t = RT_THREAD_SUSPEND \<Longrightarrow>
       (let x = thread_timer (threads demo t) in
           if x \<in> set (timer_list demo) \<and> timeout_tick (timers demo x) - rt_tick demo \<le> 1
           then tstat k' t \<in> {RT_THREAD_READY, RT_THREAD_RUNNING} \<and> error (threads k' t) = - RT_ETIMEOUT
           else tstat k' t = RT_THREAD_SUSPEND \<and> error (threads k' t) = error (threads demo t))"
    using tick_wakes_exactly [of "\<lambda>_ _. Some" demo 3] demo_tick_inv by auto
  have "\<not> (50 :: u32) \<le> 1" by (simp add: word_le_nat_alt)
  then show ?thesis using k'(1) k'(2) [of 3] k'(2) [of 4] by (auto simp: demo_stat Let_def d)
qed

text \<open>C10: A timed wait ends at its tick: a suspended thread whose timer is due in \<open>d > 0\<close> ticks is still
  suspended after \<open>n < d\<close> clock interrupts and is woken with \<^verbatim>\<open>-RT_ETIMEOUT\<close> by the \<open>d\<close>-th, if nothing
  else happens in between; the interrupts all return.\<close>

theorem timed_wait_ends:
  assumes "tick_inv app (rt_tick k) k" "tstat k t = RT_THREAD_SUSPEND" "x = thread_timer (threads k t)"
    "x \<in> set (timer_list k)" "d = unat (timeout_tick (timers k x) - rt_tick k)" "0 < d"
  shows "(\<forall>n < d. \<exists>k'. ticks app n k = Some k' \<and> tstat k' t = RT_THREAD_SUSPEND)
     \<and> (\<exists>k'. ticks app d k = Some k' \<and> tick_inv app (rt_tick k') k' \<and> rt_tick k' = rt_tick k + of_nat d
          \<and> tstat k' t \<in> {RT_THREAD_READY, RT_THREAD_RUNNING} \<and> error (threads k' t) = - RT_ETIMEOUT)"
proof
  show "\<forall>n < d. \<exists>k'. ticks app n k = Some k' \<and> tstat k' t = RT_THREAD_SUSPEND"
    using ticks_suspended [OF assms(1-4)] assms(5) by blast
  have "d - 1 < unat (timeout_tick (timers k x) - rt_tick k)" using assms(5,6) by simp
  from ticks_suspended [OF assms(1-4) this]
  obtain k1 where k1: "ticks app (d - 1) k = Some k1" "tick_inv app (rt_tick k1) k1"
    "rt_tick k1 = rt_tick k + of_nat (d - 1)" "tstat k1 t = RT_THREAD_SUSPEND" "thread_timer (threads k1 t) = x"
    "x \<in> set (timer_list k1)" "timeout_tick (timers k1 x) = timeout_tick (timers k x)" by blast
  have w: "of_nat d = timeout_tick (timers k x) - rt_tick k" using assms(5) by simp
  have "of_nat (d - 1) = (of_nat d :: u32) - 1" using assms(6) by (simp add: of_nat_diff)
  moreover have "timeout_tick (timers k x) = rt_tick k + of_nat d" using w by simp
  ultimately have "timeout_tick (timers k1 x) - rt_tick k1 = 1" by (simp add: k1)
  then obtain k' where k': "tick_isr app k1 = Some k'" "tick_inv app (rt_tick k') k'" "rt_tick k' = rt_tick k1 + 1"
    "tstat k' t \<in> {RT_THREAD_READY, RT_THREAD_RUNNING}" "error (threads k' t) = - RT_ETIMEOUT"
    using tick_increase_ok [OF k1(2), of "Suc (length (timer_list k1))"] k1(4-6)
    by (fastforce simp: tick_isr_def Let_def)
  have "ticks app d k = Some k'" using ticks_append [of app "d - 1" 1 k] k1(1) k'(1) assms(6) by simp
  then show "\<exists>k'. ticks app d k = Some k' \<and> tick_inv app (rt_tick k') k' \<and> rt_tick k' = rt_tick k + of_nat d
      \<and> tstat k' t \<in> {RT_THREAD_READY, RT_THREAD_RUNNING} \<and> error (threads k' t) = - RT_ETIMEOUT"
    using k' k1(3) \<open>of_nat (d - 1) = (of_nat d :: u32) - 1\<close> by auto
qed

theorem timed_wait_ends_witness:
  "\<exists>k'. ticks (\<lambda>_ _. Some) 50 demo = Some k' \<and> tstat k' 3 \<in> {RT_THREAD_READY, RT_THREAD_RUNNING}
     \<and> error (threads k' 3) = - RT_ETIMEOUT"
proof -
  have d: "timeout_tick (timers demo 13) = 150" by (simp add: demo_def ex_timer_def)
  show ?thesis
    using timed_wait_ends [of "\<lambda>_ _. Some" demo 3 13 50] demo_tick_inv by (auto simp: demo_stat d)
qed

section \<open>Memory routines\<close>

text \<open>\<^verbatim>\<open>rt_memset\<close> with its word-wise loops fills exactly \<open>count\<close> bytes from \<open>s\<close> with the value.\<close>

lemma memset_fills: "rt_memset s c count m = (\<lambda>x. if s \<le> x \<and> x < s + count then c else m x)"
  by (simp add: rt_memset_filled filled_def)

text \<open>C13: \<^verbatim>\<open>rt_memcpy\<close> with its block and word loops copies exactly \<open>n\<close> bytes, provided the destination
  does not start inside the source behind its first byte.\<close>

theorem memcpy_copies:
  assumes "dst \<le> src \<or> src + n \<le> dst" "n < 2 ^ 31"
  shows "rt_memcpy dst src n m = Some (\<lambda>x. if dst \<le> x \<and> x < dst + n then m (src + (x - dst)) else m x)"
  using rt_memcpy_copied [of dst src n m] assms by (simp add: up_safe_def copied_def)

theorem memcpy_copies_witness: "\<exists>m'. rt_memcpy 100 4 33 (\<lambda>x. of_nat x) = Some m' \<and> m' 131 = 35"
  using memcpy_copies [of 100 4 33 "\<lambda>x. of_nat x"] by simp

text \<open>\<^verbatim>\<open>rt_memmove\<close> copies exactly \<open>n\<close> bytes also between overlapping areas.\<close>

lemma memmove_copies:
  "rt_memmove dst src n m = (\<lambda>x. if dst \<le> x \<and> x < dst + n then m (src + (x - dst)) else m x)"
  by (simp add: rt_memmove_copied copied_def)

end
